(* ===== verification/Prelude.thy ===== *)
theory Prelude
  imports Complex_Main "HOL-Library.Word" "HOL-Library.AList"
begin

text \<open>
  Shared vocabulary of the development: the exceptions the Python code raises and the
  result type that carries them, loops that may raise, the integer helpers of
  \<^verbatim>\<open>src/vllm/utils/math_utils.py\<close>, byte strings, and generic facts on lists that the
  component theories use. Facts that the component proofs pass to the simplifier as a
  group are collected in the named collections declared here.
\<close>

named_theorems result_simps \<open>rewrite rules for results that may raise\<close>
named_theorems heap_simps \<open>reading a block record after a pointer or field update\<close>

section \<open>Exceptions and results\<close>

datatype py_error =
    AssertionError
  | ValueError
  | RuntimeError
  | IndexError
  | KeyError
  | OverflowError
  | ZeroDivisionError
  | NotImplementedError
  | StopIteration
  | Diverges

text \<open>
  \<open>Diverges\<close> is not a Python exception: it is the outcome of a call that never returns. A
  theorem that a call has the result \<open>Inr y\<close> thus says that the call returns.
\<close>

type_synonym 'a result = "py_error + 'a"

type_synonym bytes = "8 word list"

definition rbind :: "'a result \<Rightarrow> ('a \<Rightarrow> 'b result) \<Rightarrow> 'b result" where
  "rbind m f = (case m of Inl e \<Rightarrow> Inl e | Inr x \<Rightarrow> f x)"

definition ensure :: "bool \<Rightarrow> py_error \<Rightarrow> unit result" where
  "ensure b e = (if b then Inr () else Inl e)"

text \<open>A \<^verbatim>\<open>for\<close> loop whose body updates a state and may raise.\<close>

fun rfold :: "('a \<Rightarrow> 's \<Rightarrow> 's result) \<Rightarrow> 'a list \<Rightarrow> 's \<Rightarrow> 's result" where
  "rfold f [] s = Inr s"
| "rfold f (x # xs) s = rbind (f x s) (rfold f xs)"

lemma rbind_Inr [simp, result_simps]: "rbind (Inr x) f = f x"
  by (simp add: rbind_def)

lemma rbind_Inl [simp, result_simps]: "rbind (Inl e) f = Inl e"
  by (simp add: rbind_def)

lemma rbind_eq_Inr [result_simps]:
  "rbind m f = Inr y \<longleftrightarrow> (\<exists>x. m = Inr x \<and> f x = Inr y)"
  by (cases m) (auto simp: rbind_def)

lemma rbind_eq_Inl:
  "rbind m f = Inl e \<longleftrightarrow> m = Inl e \<or> (\<exists>x. m = Inr x \<and> f x = Inl e)"
  by (cases m) (auto simp: rbind_def)

lemma rbind_cong [fundef_cong]:
  "m = m' \<Longrightarrow> (\<And>x. m' = Inr x \<Longrightarrow> f x = f' x) \<Longrightarrow> rbind m f = rbind m' f'"
  by (cases m') (auto simp: rbind_def)

lemma ensure_True [simp, result_simps]: "ensure True e = Inr ()"
  by (simp add: ensure_def)

lemma ensure_False [simp, result_simps]: "ensure False e = Inl e"
  by (simp add: ensure_def)

lemma ensure_eq_Inr [simp, result_simps]: "ensure b e = Inr u \<longleftrightarrow> b"
  by (simp add: ensure_def)

lemma ensure_eq_Inl [simp, result_simps]: "ensure b e = Inl e' \<longleftrightarrow> \<not> b \<and> e' = e"
  by (auto simp: ensure_def)

text \<open>
  Loop rules: an invariant kept by every iteration holds at the end, and a loop whose
  body cannot raise under the invariant does not raise.
\<close>

lemma rfold_invariant:
  assumes "rfold f xs s = Inr s'" and "P s"
    and "\<And>x t t'. x \<in> set xs \<Longrightarrow> P t \<Longrightarrow> f x t = Inr t' \<Longrightarrow> P t'"
  shows "P s'"
  using assms by (induction xs arbitrary: s) (auto simp: rbind_eq_Inr)

lemma rfold_total:
  assumes "P s"
    and "\<And>x t. x \<in> set xs \<Longrightarrow> P t \<Longrightarrow> \<exists>t'. f x t = Inr t' \<and> P t'"
  shows "\<exists>s'. rfold f xs s = Inr s' \<and> P s'"
  using assms
proof (induction xs arbitrary: s)
  case Nil
  then show ?case by simp
next
  case (Cons x xs)
  then obtain t' where "f x s = Inr t'" "P t'" by force
  with Cons.IH [of t'] Cons.prems(2) show ?case by auto
qed

lemma rfold_append: "rfold f (xs @ ys) s = rbind (rfold f xs s) (rfold f ys)"
  by (induction xs arbitrary: s) (auto simp: rbind_def split: sum.splits)

text \<open>
  A \<^verbatim>\<open>while\<close> loop whose body may raise. The first argument bounds the number of iterations; the
  rules below say that a bound above a measure that every iteration decreases does not
  show: the loop then ends by its condition or by an exception of its body.
\<close>

fun rwhile :: "nat \<Rightarrow> ('s \<Rightarrow> bool) \<Rightarrow> ('s \<Rightarrow> 's result) \<Rightarrow> 's \<Rightarrow> 's result" where
  "rwhile 0 b f s = (if b s then Inl Diverges else Inr s)"
| "rwhile (Suc n) b f s = (if b s then rbind (f s) (rwhile n b f) else Inr s)"

lemma rwhile_invariant:
  assumes "rwhile n b f s = Inr s'" and "P s"
    and "\<And>t t'. P t \<Longrightarrow> b t \<Longrightarrow> f t = Inr t' \<Longrightarrow> P t'"
  shows "P s' \<and> \<not> b s'"
  using assms by (induction n arbitrary: s) (auto simp: rbind_eq_Inr split: if_splits)

lemma rwhile_error:
  fixes m :: "'s \<Rightarrow> nat"
  assumes "rwhile n b f s = Inl e" and "P s" and "m s < n"
    and "\<And>t t'. P t \<Longrightarrow> b t \<Longrightarrow> f t = Inr t' \<Longrightarrow> P t' \<and> m t' < m t"
  shows "\<exists>t. P t \<and> b t \<and> f t = Inl e"
  using assms(1-3)
proof (induction n arbitrary: s)
  case (Suc n)
  show ?case
  proof (cases "f s")
    case (Inr s1)
    moreover have "b s" using Suc.prems(1) by (auto split: if_splits)
    ultimately have "rwhile n b f s1 = Inl e" "P s1" "m s1 < n" using Suc.prems assms(4) [of s s1] by auto
    then show ?thesis by (rule Suc.IH)
  qed (use Suc.prems in \<open>auto split: if_splits\<close>)
qed simp

lemma rwhile_total:
  fixes m :: "'s \<Rightarrow> nat"
  assumes "P s" and "m s < n"
    and "\<And>t. P t \<Longrightarrow> b t \<Longrightarrow> \<exists>t'. f t = Inr t' \<and> P t' \<and> m t' < m t"
  shows "\<exists>s'. rwhile n b f s = Inr s' \<and> P s' \<and> \<not> b s'"
  using assms(1,2)
proof (induction n arbitrary: s)
  case (Suc n)
  show ?case
  proof (cases "b s")
    case True
    then obtain t' where t': "f s = Inr t'" "P t'" "m t' < m s" using assms(3) Suc.prems(1) by blast
    then show ?thesis using Suc.IH [of t'] Suc.prems(2) True by auto
  qed (use Suc.prems in auto)
qed simp

section \<open>Integers\<close>

text \<open>\<^verbatim>\<open>cdiv\<close> is written in the source with a floor division by the negated divisor.\<close>

definition cdiv :: "int \<Rightarrow> int \<Rightarrow> int" where
  "cdiv a b = - (a div (- b))"

lemma le_div_iff_mult_le:
  assumes "0 < (b::int)"
  shows "x \<le> a div b \<longleftrightarrow> x * b \<le> a"
proof
  assume "x \<le> a div b"
  then have "x * b \<le> (a div b) * b" using assms by (simp add: mult_right_mono)
  also have "\<dots> \<le> a" using assms by (metis mult.commute pos_mod_sign add_increasing2
        mult_div_mod_eq order_refl)
  finally show "x * b \<le> a" .
next
  assume "x * b \<le> a"
  then have "(x * b) div b \<le> a div b" using assms by (rule zdiv_mono1)
  then show "x \<le> a div b" using assms by simp
qed

lemma cdiv_le_iff: "0 < b \<Longrightarrow> cdiv a b \<le> n \<longleftrightarrow> a \<le> n * b"
  using le_div_iff_mult_le [of b "- n" "- a"] by (auto simp: cdiv_def div_minus_right)

lemma cdiv_mult_ge: "0 < b \<Longrightarrow> a \<le> cdiv a b * b"
  using cdiv_le_iff [of b a "cdiv a b"] by simp

lemma cdiv_nonneg: "0 < b \<Longrightarrow> 0 \<le> a \<Longrightarrow> 0 \<le> cdiv a b"
  using cdiv_mult_ge [of b a] by (meson mult_neg_pos not_le order_trans)

lemma cdiv_mono: "0 < b \<Longrightarrow> a \<le> a' \<Longrightarrow> cdiv a b \<le> cdiv a' b"
  using cdiv_le_iff cdiv_mult_ge order_trans by blast

lemma cdiv_mult [simp]: "0 < b \<Longrightarrow> cdiv (n * b) b = n"
  using cdiv_le_iff [of b "n * b" n] cdiv_mult_ge [of b "n * b"] by simp

lemma div_le_cdiv: "0 < b \<Longrightarrow> a div b \<le> cdiv a b"
proof -
  assume b: "0 < b"
  have "(a div b) * b \<le> a" using le_div_iff_mult_le [OF b, of "a div b" a] by simp
  also have "\<dots> \<le> cdiv a b * b" by (rule cdiv_mult_ge [OF b])
  finally show ?thesis using b by simp
qed

text \<open>The count version, used where both arguments are list lengths or token counts.\<close>

definition ncdiv :: "nat \<Rightarrow> nat \<Rightarrow> nat" where
  "ncdiv a b = nat (cdiv (int a) (int b))"

lemma int_ncdiv: "0 < b \<Longrightarrow> int (ncdiv a b) = cdiv (int a) (int b)"
  by (simp add: ncdiv_def cdiv_nonneg)

lemma ncdiv_le_iff: "0 < b \<Longrightarrow> ncdiv a b \<le> n \<longleftrightarrow> a \<le> n * b"
proof -
  assume b: "0 < b"
  have "ncdiv a b \<le> n \<longleftrightarrow> cdiv (int a) (int b) \<le> int n"
    using int_ncdiv [OF b, of a] by linarith
  also have "\<dots> \<longleftrightarrow> a \<le> n * b"
    using b by (simp add: cdiv_le_iff flip: of_nat_mult)
  finally show ?thesis .
qed

lemma ncdiv_mult_ge: "0 < b \<Longrightarrow> a \<le> ncdiv a b * b"
  using ncdiv_le_iff [of b a "ncdiv a b"] by simp

lemma ncdiv_mult [simp]: "0 < b \<Longrightarrow> ncdiv (n * b) b = n"
  by (simp add: ncdiv_def)

lemma ncdiv_mono: "0 < b \<Longrightarrow> a \<le> a' \<Longrightarrow> ncdiv a b \<le> ncdiv a' b"
  using ncdiv_le_iff ncdiv_mult_ge order_trans by blast

lemma div_le_ncdiv: "0 < b \<Longrightarrow> a div b \<le> ncdiv a b"
  using div_le_cdiv [of "int b" "int a"] int_ncdiv [of b a] by (simp flip: zdiv_int)

section \<open>Lists\<close>

text \<open>\<^verbatim>\<open>xs[a:b]\<close> for bounds that are not negative.\<close>

definition pyslice :: "'a list \<Rightarrow> nat \<Rightarrow> nat \<Rightarrow> 'a list" where
  "pyslice xs a b = take (b - a) (drop a xs)"

lemma length_pyslice [simp]: "length (pyslice xs a b) = min (b - a) (length xs - a)"
  by (simp add: pyslice_def)

lemma pyslice_append_left: "b \<le> length xs \<Longrightarrow> pyslice (xs @ ys) a b = pyslice xs a b"
  by (cases "a \<le> length xs") (auto simp: pyslice_def)

lemma set_pyslice: "set (pyslice xs a b) \<subseteq> set xs"
  unfolding pyslice_def by (meson order_trans set_drop_subset set_take_subset)

lemma take_add_pyslice: "take (a + n) xs = take a xs @ pyslice xs a (a + n)"
  by (simp add: pyslice_def take_add)

text \<open>The position that a slice bound means, which counts from the end if it is negative.\<close>

definition pybound :: "'a list \<Rightarrow> int \<Rightarrow> nat" where
  "pybound xs i = (if i < 0 then nat (int (length xs) + i) else nat i)"

lemma pybound_nat [simp]: "pybound xs (int n) = n"
  by (simp add: pybound_def)

lemma count_list_distinct: "distinct xs \<Longrightarrow> count_list xs a = (if a \<in> set xs then 1 else 0)"
  by (induction xs) auto

text \<open>Dictionaries in insertion order are association lists.\<close>

lemma alist_update_fresh: "i \<notin> fst ` set d \<Longrightarrow> AList.update i b d = d @ [(i, b)]"
  by (induction d) auto

lemma alist_delete_set:
  assumes "distinct (map fst d)"
  shows "set (AList.delete i d) = {e \<in> set d. fst e \<noteq> i}" "distinct (map fst (AList.delete i d))"
  using assms by (auto simp: AList.delete_eq distinct_map_filter)

text \<open>Reading a list by an index that may be negative, as Python and torch do.\<close>

definition py_index :: "'a list \<Rightarrow> int \<Rightarrow> 'a result" where
  "py_index xs i =
     (if 0 \<le> i \<and> i < int (length xs) then Inr (xs ! nat i)
      else if - int (length xs) \<le> i \<and> i < 0 then Inr (xs ! nat (int (length xs) + i))
      else Inl IndexError)"

lemma py_index_nat [simp]: "i < length xs \<Longrightarrow> py_index xs (int i) = Inr (xs ! i)"
  by (simp add: py_index_def)

lemma py_index_last: "xs \<noteq> [] \<Longrightarrow> py_index xs (- 1) = Inr (last xs)"
  by (cases xs rule: rev_cases) (auto simp: py_index_def nth_append)

lemma py_index_neg: "0 < n \<Longrightarrow> n \<le> length xs \<Longrightarrow> py_index xs (- int n) = Inr (xs ! (length xs - n))"
  by (simp add: py_index_def nat_diff_distrib flip: of_nat_diff)

end
