(* ===== verification/Ngram.thy ===== *)
theory Ngram
  imports Prelude
begin

text \<open>
  The n-gram drafter of speculative decoding, \<^verbatim>\<open>src/vllm/v1/spec_decode/ngram_proposer.py\<close>: the
  search for the longest suffix of the tokens that occurs before, done on the reversed
  tokens with a failure table that is capped at the longest n-gram, the loop over a batch
  and the class around them, and the checks of the configuration it relies on. The search is
  proved equal to a search that tries all lengths and places. The number of threads given to
  the compiler library is left out; instead the order in which the iterations of the parallel
  loop run is an argument, and the results hold for every order.
\<close>

section \<open>Configuration\<close>

text \<open>
  The fields are declared with \<^verbatim>\<open>ge=1\<close>, a missing bound is taken from the other one, and the bounds
  must be in order.
\<close>

definition prompt_lookup_bounds :: "int option \<Rightarrow> int option \<Rightarrow> (nat \<times> nat) result" where
  "prompt_lookup_bounds lookup_min lookup_max =
     rbind (ensure (pred_option ((\<le>) 1) lookup_min \<and> pred_option ((\<le>) 1) lookup_max) ValueError) (\<lambda>_.
       let (lo, hi) = (case (lookup_min, lookup_max) of
                         (None, None) \<Rightarrow> (5, 5)
                       | (None, Some b) \<Rightarrow> (b, b)
                       | (Some a, None) \<Rightarrow> (a, a)
                       | (Some a, Some b) \<Rightarrow> (a, b))
       in rbind (ensure (lo \<le> hi) ValueError) (\<lambda>_. Inr (nat lo, nat hi)))"

section \<open>The search\<close>

text \<open>The local variables of the loop; \<open>lps_pos\<close> is the variable \<^verbatim>\<open>i\<close>.\<close>

record lps_state =
  lps :: "nat list"
  longest_ngram :: nat
  ngram_position :: nat
  prev_lps :: nat
  lps_pos :: nat

definition lps_start :: "nat \<Rightarrow> lps_state" where
  "lps_start max_ngram = \<lparr>lps = replicate max_ngram 0, longest_ngram = 0, ngram_position = 0, prev_lps = 0, lps_pos = 1\<rparr>"

definition lps_match :: "nat \<Rightarrow> lps_state \<Rightarrow> lps_state result" where
  "lps_match max_ngram s =
     (let s = s\<lparr>prev_lps := prev_lps s + 1\<rparr>;
          s = (if longest_ngram s \<le> prev_lps s
               then s\<lparr>longest_ngram := prev_lps s, ngram_position := lps_pos s\<rparr> else s);
          s = (if lps_pos s < max_ngram then s\<lparr>lps := (lps s)[lps_pos s := prev_lps s]\<rparr> else s)
      in rbind (if prev_lps s = max_ngram then py_index (lps s) (int max_ngram - 1) else Inr (prev_lps s)) (\<lambda>prev.
           Inr (s\<lparr>prev_lps := prev, lps_pos := lps_pos s + 1\<rparr>)))"

definition lps_step :: "'a list \<Rightarrow> nat \<Rightarrow> lps_state \<Rightarrow> lps_state result" where
  "lps_step tokens max_ngram s =
     rbind (py_index tokens (int (prev_lps s))) (\<lambda>a.
     rbind (py_index tokens (int (lps_pos s))) (\<lambda>b.
       if a = b then lps_match max_ngram s
       else if prev_lps s \<noteq> 0 then
         rbind (py_index (lps s) (int (prev_lps s) - 1)) (\<lambda>prev. Inr (s\<lparr>prev_lps := prev\<rparr>))
       else Inr (s\<lparr>lps_pos := lps_pos s + 1\<rparr>)))"

definition find_longest_matched_ngram_and_propose_tokens ::
  "'a list \<Rightarrow> nat \<Rightarrow> nat \<Rightarrow> int \<Rightarrow> int \<Rightarrow> 'a list result" where
  "find_longest_matched_ngram_and_propose_tokens origin_tokens min_ngram max_ngram model_len k =
     (let total_token = length origin_tokens in
      if total_token < min_ngram then Inr []
      else
        let k = min k (model_len - int total_token) in
        if k \<le> 0 then Inr []
        else
          rbind (rwhile (2 * total_token) (\<lambda>s. lps_pos s < total_token)
                   (lps_step (rev origin_tokens) max_ngram) (lps_start max_ngram)) (\<lambda>s.
            if longest_ngram s < min_ngram then Inr []
            else
              let start_position = int total_token - 1 - int (ngram_position s) + int (longest_ngram s);
                  k = min k (int total_token - start_position)
              in Inr (pyslice origin_tokens (pybound origin_tokens start_position)
                        (pybound origin_tokens (start_position + k)))))"

section \<open>The proposer\<close>

record ngram_proposer =
  min_n :: nat
  max_n :: nat
  draft_k :: nat
  proposer_model_len :: nat
  valid_ngram_draft :: "int list list"
  valid_ngram_num_drafts :: "nat list"

text \<open>One iteration of the parallel loop; an assignment to a slice that is too short raises.\<close>

definition batch_propose_one ::
  "nat list \<Rightarrow> nat list \<Rightarrow> int list list \<Rightarrow> nat \<Rightarrow> ngram_proposer \<Rightarrow> ngram_proposer result" where
  "batch_propose_one valid_ngram_requests num_tokens_no_spec token_ids_cpu i p =
     rbind (py_index valid_ngram_requests (int i)) (\<lambda>idx.
     rbind (py_index num_tokens_no_spec (int idx)) (\<lambda>num_tokens.
     rbind (py_index token_ids_cpu (int idx)) (\<lambda>row.
     rbind (find_longest_matched_ngram_and_propose_tokens (take num_tokens row) (min_n p) (max_n p)
              (int (proposer_model_len p)) (int (draft_k p))) (\<lambda>drafter_output.
     rbind (py_index (valid_ngram_num_drafts p) (int idx)) (\<lambda>_.
       let p = p\<lparr>valid_ngram_num_drafts := (valid_ngram_num_drafts p)[idx := length drafter_output]\<rparr> in
       if drafter_output \<noteq> [] then
         rbind (py_index (valid_ngram_draft p) (int idx)) (\<lambda>draft.
         rbind (ensure (length drafter_output \<le> length draft) ValueError) (\<lambda>_.
           Inr (p\<lparr>valid_ngram_draft := (valid_ngram_draft p)[idx := drafter_output @ drop (length drafter_output) draft]\<rparr>)))
       else Inr p)))))"

definition batch_propose_numba ::
  "(nat \<Rightarrow> nat list) \<Rightarrow> nat list \<Rightarrow> nat list \<Rightarrow> int list list \<Rightarrow> ngram_proposer \<Rightarrow> ngram_proposer result" where
  "batch_propose_numba order valid_ngram_requests num_tokens_no_spec token_ids_cpu =
     rfold (batch_propose_one valid_ngram_requests num_tokens_no_spec token_ids_cpu)
       (order (length valid_ngram_requests))"

definition draft_of :: "nat list \<Rightarrow> ngram_proposer \<Rightarrow> nat \<Rightarrow> int list list \<Rightarrow> int list list result" where
  "draft_of valid_ngram_requests p i draft_token_ids =
     (if i \<in> set valid_ngram_requests then
        rbind (py_index (valid_ngram_num_drafts p) (int i)) (\<lambda>num.
          if 0 < num then
            rbind (py_index (valid_ngram_draft p) (int i)) (\<lambda>row. Inr (draft_token_ids @ [take num row]))
          else Inr (draft_token_ids @ [[]]))
      else Inr (draft_token_ids @ [[]]))"

definition batch_propose ::
  "(nat \<Rightarrow> nat list) \<Rightarrow> nat \<Rightarrow> nat list \<Rightarrow> nat list \<Rightarrow> int list list \<Rightarrow> ngram_proposer
     \<Rightarrow> (int list list \<times> ngram_proposer) result" where
  "batch_propose order num_requests valid_ngram_requests num_tokens_no_spec token_ids_cpu p =
     rbind (if valid_ngram_requests \<noteq> []
            then batch_propose_numba order valid_ngram_requests num_tokens_no_spec token_ids_cpu p
            else Inr p) (\<lambda>p.
     rbind (rfold (draft_of valid_ngram_requests p) [0..<num_requests] []) (\<lambda>draft_token_ids.
       Inr (draft_token_ids, p)))"

definition valid_ngram_request ::
  "nat list \<Rightarrow> ngram_proposer \<Rightarrow> nat \<times> 'a list \<Rightarrow> nat list \<Rightarrow> nat list result" where
  "valid_ngram_request num_tokens_no_spec p = (\<lambda>(i, sampled_ids) valid_ngram_requests.
     if sampled_ids = [] then Inr valid_ngram_requests
     else rbind (py_index num_tokens_no_spec (int i)) (\<lambda>num_tokens.
       if proposer_model_len p \<le> num_tokens then Inr valid_ngram_requests
       else Inr (valid_ngram_requests @ [i])))"

definition ngram_propose ::
  "(nat \<Rightarrow> nat list) \<Rightarrow> 'a list list \<Rightarrow> nat list \<Rightarrow> int list list \<Rightarrow> ngram_proposer
     \<Rightarrow> (int list list \<times> ngram_proposer) result" where
  "ngram_propose order sampled_token_ids num_tokens_no_spec token_ids_cpu p =
     rbind (rfold (valid_ngram_request num_tokens_no_spec p) (enumerate 0 sampled_token_ids) [])
       (\<lambda>valid_ngram_requests.
          batch_propose order (length sampled_token_ids) valid_ngram_requests num_tokens_no_spec token_ids_cpu p)"

text \<open>
  The constructor allocates the buffers and runs one batch of 1024 requests without sampled
  tokens.
\<close>

definition NgramProposer :: "(nat \<Rightarrow> nat list) \<Rightarrow> nat option \<Rightarrow> nat option \<Rightarrow> nat \<Rightarrow> nat \<Rightarrow> nat \<Rightarrow> ngram_proposer result" where
  "NgramProposer order lookup_min lookup_max k model_len max_seqs =
     rbind (case lookup_min of None \<Rightarrow> Inl AssertionError | Some a \<Rightarrow> Inr a) (\<lambda>lo.
     rbind (case lookup_max of None \<Rightarrow> Inl AssertionError | Some b \<Rightarrow> Inr b) (\<lambda>hi.
       let p = \<lparr>min_n = lo, max_n = hi, draft_k = k, proposer_model_len = model_len,
                valid_ngram_draft = replicate max_seqs (replicate k 0),
                valid_ngram_num_drafts = replicate max_seqs 0\<rparr>
       in rbind (ngram_propose order (replicate 1024 ([] :: int list)) (replicate 1024 0)
                   (replicate 1024 (replicate model_len 0)) p) (\<lambda>(_, p). Inr p)))"

section \<open>Borders\<close>

text \<open>The first \<open>q\<close> elements are also the last \<open>q\<close> of the first \<open>i\<close> elements.\<close>

definition border :: "'a list \<Rightarrow> nat \<Rightarrow> nat \<Rightarrow> bool" where
  "border t q i \<longleftrightarrow> q \<le> i \<and> (\<forall>j<q. t ! j = t ! (i - q + j))"

lemma border_0 [simp]: "border t 0 i"
  by (simp add: border_def)

lemma border_Suc: "border t (Suc q) (Suc i) \<longleftrightarrow> border t q i \<and> t ! q = t ! i"
  by (auto simp: border_def less_Suc_eq)

lemma border_trans: "border t p q \<Longrightarrow> border t q i \<Longrightarrow> border t p i"
  unfolding border_def
proof (intro conjI allI impI)
  fix j assume a: "p \<le> q \<and> (\<forall>j<p. t ! j = t ! (q - p + j))" "q \<le> i \<and> (\<forall>j<q. t ! j = t ! (i - q + j))" "j < p"
  then have "t ! j = t ! (q - p + j)" "q - p + j < q" by auto
  then have "t ! j = t ! (i - q + (q - p + j))" using a by metis
  then show "t ! j = t ! (i - p + j)" using a by simp
qed auto

lemma border_inner:
  assumes "border t p i" "border t q i" "p \<le> q"
  shows "border t p q"
  unfolding border_def
proof (intro conjI allI impI)
  fix j assume j: "j < p"
  have "t ! j = t ! (i - p + j)" using assms(1) j by (simp add: border_def)
  also have "i - p + j = i - q + (q - p + j)" using assms by (simp add: border_def)
  also have "t ! \<dots> = t ! (q - p + j)" using assms(2,3) j by (simp add: border_def)
  finally show "t ! j = t ! (q - p + j)" .
qed (use assms in simp)

text \<open>The longest proper border of the first \<open>i\<close> elements.\<close>

definition longest_border :: "'a list \<Rightarrow> nat \<Rightarrow> nat \<Rightarrow> bool" where
  "longest_border t i p \<longleftrightarrow> p < i \<and> border t p i \<and> (\<forall>q<i. border t q i \<longrightarrow> q \<le> p)"

lemma longest_border_below:
  assumes "longest_border t m p" "border t m i"
  shows "p < m" "border t p i" "q < m \<Longrightarrow> border t q i \<Longrightarrow> q \<le> p"
  using assms border_trans [of t p m i] border_inner [of t q i m] by (auto simp: longest_border_def)

section \<open>The loop\<close>

text \<open>
  The table holds the longest borders of the prefixes seen so far, and every border that the
  next element can extend is at most \<open>prev_lps\<close>.
\<close>

definition table_inv :: "'a list \<Rightarrow> nat \<Rightarrow> lps_state \<Rightarrow> bool" where
  "table_inv t m s \<longleftrightarrow> length (lps s) = m \<and> 1 \<le> lps_pos s \<and> lps_pos s \<le> length t
     \<and> (\<forall>j<m. if j < lps_pos s then longest_border t (Suc j) (lps s ! j) else lps s ! j = 0)"

definition prev_inv :: "'a list \<Rightarrow> nat \<Rightarrow> lps_state \<Rightarrow> bool" where
  "prev_inv t m s \<longleftrightarrow> prev_lps s < m \<and> prev_lps s < lps_pos s \<and> border t (prev_lps s) (lps_pos s)
     \<and> (\<forall>q. q < m \<and> q < lps_pos s \<and> border t q (lps_pos s) \<and> t ! q = t ! lps_pos s \<longrightarrow> q \<le> prev_lps s)"

text \<open>The best match so far is the longest one, and the last one of its length.\<close>

definition best_inv :: "'a list \<Rightarrow> nat \<Rightarrow> lps_state \<Rightarrow> bool" where
  "best_inv t m s \<longleftrightarrow>
     (0 < longest_ngram s \<longrightarrow> ngram_position s < lps_pos s \<and> longest_ngram s \<le> ngram_position s \<and> longest_ngram s \<le> m
        \<and> border t (longest_ngram s) (Suc (ngram_position s)))
     \<and> (\<forall>e q. e < lps_pos s \<and> 0 < q \<and> q \<le> m \<and> q \<le> e \<and> border t q (Suc e)
          \<longrightarrow> q < longest_ngram s \<or> q = longest_ngram s \<and> e \<le> ngram_position s)"

definition lps_inv :: "'a list \<Rightarrow> nat \<Rightarrow> lps_state \<Rightarrow> bool" where
  "lps_inv t m s \<longleftrightarrow> table_inv t m s \<and> prev_inv t m s \<and> best_inv t m s"

lemma table_inv_cong:
  "table_inv t m s \<Longrightarrow> lps s' = lps s \<Longrightarrow> lps_pos s' = lps_pos s \<Longrightarrow> table_inv t m s'"
  by (simp add: table_inv_def)

lemma border_at_pos:
  assumes "prev_inv t m s" "border t q (Suc (lps_pos s))" "0 < q" "q \<le> m" "q \<le> lps_pos s"
  shows "q \<le> Suc (prev_lps s)" "q = Suc (q - 1)" "t ! (q - 1) = t ! lps_pos s"
  using assms by (cases q; force simp: prev_inv_def border_Suc)+

lemma lps_start_inv: "0 < m \<Longrightarrow> t \<noteq> [] \<Longrightarrow> lps_inv t m (lps_start m)"
  by (auto simp: lps_inv_def table_inv_def prev_inv_def best_inv_def lps_start_def longest_border_def Suc_le_eq)

lemma py_index_pred: "0 < n \<Longrightarrow> n \<le> length xs \<Longrightarrow> py_index xs (int n - 1) = Inr (xs ! (n - 1))"
  using py_index_nat [of "n - 1" xs] by (simp add: of_nat_diff)

text \<open>A mismatch with a border left: the next shorter border is tried.\<close>

lemma lps_shorter_inv:
  assumes "lps_inv t m s" "lps_pos s < length t" "t ! prev_lps s \<noteq> t ! lps_pos s" "0 < prev_lps s"
  shows "lps_inv t m (s\<lparr>prev_lps := lps s ! (prev_lps s - 1)\<rparr>)" "lps s ! (prev_lps s - 1) < prev_lps s"
proof -
  let ?p = "prev_lps s" and ?i = "lps_pos s"
  note inv = assms(1) [unfolded lps_inv_def table_inv_def prev_inv_def]
  have "longest_border t (Suc (?p - 1)) (lps s ! (?p - 1))" using inv assms(4) by (metis (no_types, lifting) Suc_diff_1 Suc_lessD less_imp_diff_less)
  then have l: "longest_border t ?p (lps s ! (?p - 1))" using assms(4) by simp
  have b: "border t ?p ?i" using inv by simp
  note below = longest_border_below [OF l b]
  have "q \<le> lps s ! (?p - 1)" if q: "q < m" "q < ?i" "border t q ?i" "t ! q = t ! ?i" for q
  proof -
    have "q \<le> ?p" using inv q by blast
    then have "q < ?p" using q(4) assms(3) by (cases "q = ?p") auto
    then show ?thesis using below(3) q(3) by blast
  qed
  then have "prev_inv t m (s\<lparr>prev_lps := lps s ! (?p - 1)\<rparr>)" using below(1,2) inv by (auto simp: prev_inv_def)
  then show "lps_inv t m (s\<lparr>prev_lps := lps s ! (?p - 1)\<rparr>)"
    using assms(1) by (simp add: lps_inv_def table_inv_def best_inv_def)
  show "lps s ! (?p - 1) < ?p" by (rule below)
qed

text \<open>A mismatch with no border left.\<close>

lemma lps_skip_inv:
  assumes "lps_inv t m s" "lps_pos s < length t" "t ! 0 \<noteq> t ! lps_pos s" "prev_lps s = 0"
  shows "lps_inv t m (s\<lparr>lps_pos := lps_pos s + 1\<rparr>)"
proof -
  note inv = assms(1) [unfolded lps_inv_def]
  have none: "q = 0" if "border t q (Suc (lps_pos s))" "q \<le> m" "q \<le> lps_pos s" for q
    using border_at_pos [OF conjunct1 [OF conjunct2 [OF inv]] that(1) _ that(2,3)] assms(3,4)
    by (cases "q = 0") auto
  have "longest_border t (Suc (lps_pos s)) 0" if "lps_pos s < m"
    using none that by (force simp: longest_border_def)
  then have "table_inv t m (s\<lparr>lps_pos := lps_pos s + 1\<rparr>)"
    using inv assms(2) by (auto simp: table_inv_def less_Suc_eq)
  moreover have "prev_inv t m (s\<lparr>lps_pos := lps_pos s + 1\<rparr>)"
    using inv none assms(4) by (force simp: prev_inv_def)
  moreover have "best_inv t m (s\<lparr>lps_pos := lps_pos s + 1\<rparr>)"
    using inv none by (auto simp: best_inv_def less_Suc_eq)
  ultimately show ?thesis by (simp add: lps_inv_def)
qed

text \<open>A match: the new border is the longest one that is not longer than \<open>m\<close>.\<close>

lemma border_extend:
  assumes "prev_inv t m s" "t ! prev_lps s = t ! lps_pos s"
  shows "border t (Suc (prev_lps s)) (Suc (lps_pos s))" "Suc (prev_lps s) \<le> m" "Suc (prev_lps s) \<le> lps_pos s"
  using assms by (auto simp: prev_inv_def border_Suc)

lemma lps_match_table:
  assumes "table_inv t m s" "prev_inv t m s" "lps_pos s < length t" "t ! prev_lps s = t ! lps_pos s"
  shows "table_inv t m (s\<lparr>prev_lps := p, lps_pos := Suc (lps_pos s),
           lps := if lps_pos s < m then (lps s)[lps_pos s := Suc (prev_lps s)] else lps s\<rparr>)"
proof -
  have "q \<le> Suc (prev_lps s)" if "lps_pos s < m" "q < Suc (lps_pos s)" "border t q (Suc (lps_pos s))" for q
    using border_at_pos(1) [OF assms(2) that(3)] that by (cases "q = 0") auto
  then have "lps_pos s < m \<Longrightarrow> longest_border t (Suc (lps_pos s)) (Suc (prev_lps s))"
    using border_extend [OF assms(2,4)] by (simp add: longest_border_def)
  then show ?thesis using assms(1,3) by (auto simp: table_inv_def nth_list_update less_Suc_eq)
qed

lemma lps_match_best:
  assumes "best_inv t m s" "prev_inv t m s" "t ! prev_lps s = t ! lps_pos s"
  shows "best_inv t m ((if longest_ngram s \<le> Suc (prev_lps s)
           then s\<lparr>longest_ngram := Suc (prev_lps s), ngram_position := lps_pos s\<rparr> else s)\<lparr>lps_pos := Suc (lps_pos s)\<rparr>)"
  (is "best_inv t m ?s")
proof -
  have "q < longest_ngram ?s \<or> q = longest_ngram ?s \<and> e \<le> ngram_position ?s"
    if e: "e < Suc (lps_pos s)" "0 < q" "q \<le> m" "q \<le> e" "border t q (Suc e)" for e q
  proof (cases "e = lps_pos s")
    case True
    then have "q \<le> Suc (prev_lps s)" using border_at_pos(1) [OF assms(2)] e by blast
    then show ?thesis using True by (cases "longest_ngram s \<le> Suc (prev_lps s)") auto
  next
    case False
    then have "q < longest_ngram s \<or> q = longest_ngram s \<and> e \<le> ngram_position s"
      using assms(1) e by (simp add: best_inv_def less_Suc_eq)
    then show ?thesis using e(1) by auto
  qed
  then show ?thesis using assms(1) border_extend [OF assms(2,3)] by (auto simp: best_inv_def)
qed

lemma lps_match_inv:
  assumes inv: "lps_inv t m s" and i: "lps_pos s < length t" and eq: "t ! prev_lps s = t ! lps_pos s"
  shows "\<exists>s'. lps_match m s = Inr s' \<and> lps_inv t m s' \<and> lps_pos s' = Suc (lps_pos s) \<and> prev_lps s' \<le> Suc (prev_lps s)"
proof -
  let ?p = "Suc (prev_lps s)" and ?i = "lps_pos s"
  have ti: "table_inv t m s" and pi: "prev_inv t m s" and bi: "best_inv t m s" using inv by (auto simp: lps_inv_def)
  note ext = border_extend [OF pi eq]
  let ?l = "if ?i < m then (lps s)[?i := ?p] else lps s"
  let ?prev = "if ?p = m then ?l ! (m - 1) else ?p"
  let ?s = "(if longest_ngram s \<le> ?p then s\<lparr>longest_ngram := ?p, ngram_position := ?i\<rparr> else s)
              \<lparr>lps := ?l, prev_lps := ?prev, lps_pos := Suc ?i\<rparr>"
  have len: "length ?l = m" using ti by (simp add: table_inv_def)
  have run: "lps_match m s = Inr ?s"
    using py_index_pred [of m ?l] len by (cases "?p = m"; cases "?i < m") (auto simp: lps_match_def Let_def)
  have tab: "table_inv t m ?s" by (rule table_inv_cong [OF lps_match_table [OF ti pi i eq, of ?prev]]) simp_all
  have top: "q \<le> ?p" if "q \<le> m" "q < Suc ?i" "border t q (Suc ?i)" for q
    using border_at_pos(1) [OF pi that(3)] that by (cases "q = 0") auto
  have prev: "?prev < m \<and> ?prev < Suc ?i \<and> ?prev \<le> ?p \<and> border t ?prev (Suc ?i)
       \<and> (\<forall>q. q < m \<and> q < Suc ?i \<and> border t q (Suc ?i) \<longrightarrow> q \<le> ?prev)"
  proof (cases "?p = m")
    case True
    then have "m - 1 < lps_pos s" using ext by simp
    then have "longest_border t (Suc (m - 1)) (lps s ! (m - 1))" using ti True by (auto simp: table_inv_def)
    then have "longest_border t m (lps s ! (m - 1))" using True by simp
    note below = longest_border_below [OF this]
    have "border t m (Suc ?i)" using ext True by simp
    from below(1) [OF this] below(2) [OF this] below(3) [OF this] show ?thesis using ext True by auto
  next
    case False
    then show ?thesis using ext top by auto
  qed
  then have "prev_inv t m ?s" by (auto simp: prev_inv_def)
  moreover have "best_inv t m ?s" using lps_match_best [OF bi pi eq] by (simp add: best_inv_def)
  ultimately have "lps_inv t m ?s" using tab by (simp add: lps_inv_def)
  then show ?thesis using run prev by (intro exI [of _ ?s]) auto
qed

lemma lps_step_inv:
  assumes inv: "lps_inv t m s" and i: "lps_pos s < length t"
  shows "\<exists>s'. lps_step t m s = Inr s' \<and> lps_inv t m s'
           \<and> 2 * (length t - lps_pos s') + prev_lps s' < 2 * (length t - lps_pos s) + prev_lps s"
proof -
  have p: "prev_lps s < length t" "prev_lps s < m" "length (lps s) = m"
    using inv i by (auto simp: lps_inv_def prev_inv_def table_inv_def)
  consider "t ! prev_lps s = t ! lps_pos s" | "t ! prev_lps s \<noteq> t ! lps_pos s" "0 < prev_lps s"
    | "t ! 0 \<noteq> t ! lps_pos s" "prev_lps s = 0"
    by (cases "prev_lps s = 0") auto
  then show ?thesis
  proof cases
    case 1
    then show ?thesis using lps_match_inv [OF inv i 1] p i by (fastforce simp: lps_step_def)
  next
    case 2
    then show ?thesis using lps_shorter_inv [OF inv i 2] p i py_index_pred [of "prev_lps s" "lps s"]
      by (auto simp: lps_step_def)
  next
    case 3
    then show ?thesis using lps_skip_inv [OF inv i 3] p i py_index_nat [of 0 t] by (auto simp: lps_step_def)
  qed
qed

text \<open>The loop ends, and then the best match is the best one in all tokens.\<close>

lemma lps_loop:
  assumes "0 < m" "t \<noteq> []"
  shows "\<exists>s. rwhile (2 * length t) (\<lambda>s. lps_pos s < length t) (lps_step t m) (lps_start m) = Inr s
           \<and> best_inv t m s \<and> lps_pos s = length t"
proof -
  have "2 * (length t - lps_pos (lps_start m)) + prev_lps (lps_start m) < 2 * length t"
    using assms(2) by (simp add: lps_start_def)
  from rwhile_total [where P = "lps_inv t m" and m = "\<lambda>s. 2 * (length t - lps_pos s) + prev_lps s"
      and b = "\<lambda>s. lps_pos s < length t" and f = "lps_step t m", OF lps_start_inv [OF assms] this lps_step_inv]
  obtain s where s: "rwhile (2 * length t) (\<lambda>s. lps_pos s < length t) (lps_step t m) (lps_start m) = Inr s"
    "lps_inv t m s" "\<not> lps_pos s < length t" by blast
  then have "lps_pos s = length t" by (auto simp: lps_inv_def table_inv_def)
  then show ?thesis using s by (auto simp: lps_inv_def)
qed

section \<open>Reference search\<close>

text \<open>
  The last \<open>n\<close> tokens also occur at position \<open>s\<close> with at least one token after them. The
  reference search tries all lengths, the longest first, and for each all positions, the
  earliest first; the draft is what follows the occurrence.
\<close>

definition occurs_before :: "'a list \<Rightarrow> nat \<Rightarrow> nat \<Rightarrow> bool" where
  "occurs_before xs n s \<longleftrightarrow> s + n < length xs \<and> take n (drop s xs) = drop (length xs - n) xs"

primrec earlier_ngram :: "'a list \<Rightarrow> nat \<Rightarrow> nat \<Rightarrow> (nat \<times> nat) option" where
  "earlier_ngram xs lo 0 = None"
| "earlier_ngram xs lo (Suc n) =
     (if Suc n < lo then None
      else case find (occurs_before xs (Suc n)) [0..<length xs] of
             Some s \<Rightarrow> Some (Suc n, s)
           | None \<Rightarrow> earlier_ngram xs lo n)"

definition ngram_reference :: "'a list \<Rightarrow> nat \<Rightarrow> nat \<Rightarrow> nat \<Rightarrow> 'a list" where
  "ngram_reference xs lo hi k = (case earlier_ngram xs lo hi of None \<Rightarrow> [] | Some (n, s) \<Rightarrow> take k (drop (s + n) xs))"

lemma find_upt_Some: "P s \<Longrightarrow> s < n \<Longrightarrow> (\<And>r. r < s \<Longrightarrow> \<not> P r) \<Longrightarrow> find P [0..<n] = Some s"
  by (auto simp: find_Some_iff)

lemma earlier_ngram_None:
  "(\<And>n s. 0 < n \<Longrightarrow> lo \<le> n \<Longrightarrow> n \<le> hi \<Longrightarrow> \<not> occurs_before xs n s) \<Longrightarrow> earlier_ngram xs lo hi = None"
proof (induction hi)
  case (Suc hi)
  have "find (occurs_before xs (Suc hi)) [0..<length xs] = None" if "lo \<le> Suc hi"
    using Suc.prems that by (auto simp: find_None_iff)
  then show ?case using Suc.IH Suc.prems by simp
qed simp

lemma earlier_ngram_Some:
  assumes "0 < n" "lo \<le> n" "n \<le> hi" "occurs_before xs n s"
    and "\<And>r. r < s \<Longrightarrow> \<not> occurs_before xs n r"
    and "\<And>q r. n < q \<Longrightarrow> q \<le> hi \<Longrightarrow> \<not> occurs_before xs q r"
  shows "earlier_ngram xs lo hi = Some (n, s)"
  using assms(3,6)
proof (induction hi)
  case (Suc hi)
  show ?case
  proof (cases "n = Suc hi")
    case True
    have "find (occurs_before xs n) [0..<length xs] = Some s"
      using assms(4,5) by (intro find_upt_Some) (auto simp: occurs_before_def)
    then show ?thesis using True assms(2) by simp
  next
    case False
    then have "find (occurs_before xs (Suc hi)) [0..<length xs] = None"
      using Suc.prems by (auto simp: find_None_iff)
    then show ?thesis using Suc.IH Suc.prems False assms(2) by auto
  qed
qed (use assms(1) in simp)

text \<open>Borders of the reversed tokens are occurrences of suffixes in the tokens.\<close>

lemma border_rev:
  assumes "q \<le> e" "e < length xs"
  shows "border (rev xs) q (Suc e) \<longleftrightarrow> occurs_before xs q (length xs - Suc e)"
proof -
  let ?n = "length xs"
  have "border (rev xs) q (Suc e) \<longleftrightarrow> (\<forall>j<q. xs ! (?n - Suc j) = xs ! (?n - Suc (Suc e - q + j)))"
    using assms by (auto simp: border_def rev_nth)
  also have "\<dots> \<longleftrightarrow> (\<forall>j<q. xs ! (?n - Suc e + j) = xs ! (?n - q + j))"
  proof (intro iffI allI impI)
    fix j assume a: "\<forall>j<q. xs ! (?n - Suc j) = xs ! (?n - Suc (Suc e - q + j))" "j < q"
    have "?n - Suc (q - Suc j) = ?n - q + j" "?n - Suc (Suc e - q + (q - Suc j)) = ?n - Suc e + j"
      using a(2) assms by auto
    then show "xs ! (?n - Suc e + j) = xs ! (?n - q + j)" using spec [OF a(1), of "q - Suc j"] a(2) by simp
  next
    fix j assume a: "\<forall>j<q. xs ! (?n - Suc e + j) = xs ! (?n - q + j)" "j < q"
    have "?n - q + (q - Suc j) = ?n - Suc j" "?n - Suc e + (q - Suc j) = ?n - Suc (Suc e - q + j)"
      using a(2) assms by auto
    then show "xs ! (?n - Suc j) = xs ! (?n - Suc (Suc e - q + j))" using spec [OF a(1), of "q - Suc j"] a(2) by simp
  qed
  also have "\<dots> \<longleftrightarrow> occurs_before xs q (?n - Suc e)"
    using assms by (auto simp: occurs_before_def list_eq_iff_nth_eq)
  finally show ?thesis .
qed

lemma occurs_before_border:
  assumes "occurs_before xs q r" "0 < q"
  shows "border (rev xs) q (Suc (length xs - Suc r))" "q \<le> length xs - Suc r" "length xs - Suc r < length xs"
proof -
  show "q \<le> length xs - Suc r" "length xs - Suc r < length xs" using assms by (auto simp: occurs_before_def)
  then show "border (rev xs) q (Suc (length xs - Suc r))"
    using border_rev [of q "length xs - Suc r" xs] assms by (simp add: occurs_before_def)
qed

lemma best_is_earlier_ngram:
  assumes best: "best_inv (rev xs) hi s" and pos: "lps_pos s = length xs" and lo: "0 < lo"
  shows "earlier_ngram xs lo hi =
    (if longest_ngram s < lo then None else Some (longest_ngram s, length xs - Suc (ngram_position s)))"
proof -
  have max: "q < longest_ngram s \<or> q = longest_ngram s \<and> length xs - Suc r \<le> ngram_position s"
    if "occurs_before xs q r" "0 < q" "q \<le> hi" for q r
    using best occurs_before_border [OF that(1,2)] that pos by (simp add: best_inv_def)
  show ?thesis
  proof (cases "longest_ngram s < lo")
    case True
    then show ?thesis using max by (fastforce intro: earlier_ngram_None)
  next
    case False
    then have l: "0 < longest_ngram s" "lo \<le> longest_ngram s" using lo by auto
    then have b: "ngram_position s < length xs" "longest_ngram s \<le> ngram_position s" "longest_ngram s \<le> hi"
      "border (rev xs) (longest_ngram s) (Suc (ngram_position s))" using best pos by (auto simp: best_inv_def)
    have "\<not> occurs_before xs (longest_ngram s) r" if "r < length xs - Suc (ngram_position s)" for r
      using max [of "longest_ngram s" r] that l b by auto
    moreover have "\<not> occurs_before xs q r" if "longest_ngram s < q" "q \<le> hi" for q r
      using max [of q r] that by auto
    ultimately have "earlier_ngram xs lo hi = Some (longest_ngram s, length xs - Suc (ngram_position s))"
      using l b border_rev [of "longest_ngram s" "ngram_position s" xs] by (intro earlier_ngram_Some) auto
    then show ?thesis using False by simp
  qed
qed

lemma earlier_ngram_short: "length xs < lo \<Longrightarrow> earlier_ngram xs lo hi = None"
  by (rule earlier_ngram_None) (auto simp: occurs_before_def)

text \<open>What the reference search finds, without reference to the order of its attempts.\<close>

lemma earlier_ngram_spec:
  "case earlier_ngram xs lo hi of
     None \<Rightarrow> \<forall>n s. 0 < n \<and> lo \<le> n \<and> n \<le> hi \<longrightarrow> \<not> occurs_before xs n s
   | Some (n, s) \<Rightarrow> lo \<le> n \<and> n \<le> hi \<and> occurs_before xs n s \<and> (\<forall>r < s. \<not> occurs_before xs n r)
       \<and> (\<forall>q r. n < q \<and> q \<le> hi \<longrightarrow> \<not> occurs_before xs q r)"
proof (induction hi)
  case (Suc hi)
  show ?case
  proof (cases "find (occurs_before xs (Suc hi)) [0..<length xs]")
    case None
    then have "\<not> occurs_before xs (Suc hi) r" for r by (auto simp: find_None_iff occurs_before_def)
    then show ?thesis using Suc None by (auto simp: le_Suc_eq split: option.splits)
  next
    case (Some s)
    then have "occurs_before xs (Suc hi) s" "\<forall>r < s. \<not> occurs_before xs (Suc hi) r" by (auto simp: find_Some_iff)
    then show ?thesis using Some by auto
  qed
qed simp

lemma find_longest_matched_ngram_result:
  assumes "1 \<le> lo" "lo \<le> hi"
  shows "find_longest_matched_ngram_and_propose_tokens xs lo hi model_len k
    = Inr (ngram_reference xs lo hi (nat (min k (model_len - int (length xs)))))"
proof (cases "length xs < lo \<or> min k (model_len - int (length xs)) \<le> 0")
  case True
  then show ?thesis
    by (auto simp: find_longest_matched_ngram_and_propose_tokens_def Let_def ngram_reference_def
        earlier_ngram_short split: option.splits)
next
  case False
  let ?n = "length xs" and ?k = "min k (model_len - int (length xs))"
  have ne: "rev xs \<noteq> []" "0 < hi" "0 < lo" using False assms by auto
  obtain s where s: "rwhile (2 * ?n) (\<lambda>s. lps_pos s < ?n) (lps_step (rev xs) hi) (lps_start hi) = Inr s"
    "best_inv (rev xs) hi s" "lps_pos s = ?n"
    using lps_loop [OF ne(2,1)] by auto
  note ref = best_is_earlier_ngram [OF s(2,3) ne(3)]
  show ?thesis
  proof (cases "longest_ngram s < lo")
    case True
    then show ?thesis using False s(1) ref
      by (simp add: find_longest_matched_ngram_and_propose_tokens_def Let_def ngram_reference_def)
  next
    case long: False
    then have b: "ngram_position s < ?n" "longest_ngram s \<le> ngram_position s"
      using s(2,3) ne(3) by (auto simp: best_inv_def)
    define a where "a = ?n - Suc (ngram_position s) + longest_ngram s"
    have a: "int ?n - 1 - int (ngram_position s) + int (longest_ngram s) = int a" "a < ?n"
      using b by (auto simp: a_def)
    have k: "int a + min ?k (int ?n - int a) = int (a + min (nat ?k) (?n - a))" using False a(2) by auto
    have "pyslice xs a (a + min (nat ?k) (?n - a)) = take (nat ?k) (drop a xs)"
      by (simp add: pyslice_def min_def)
    then have "find_longest_matched_ngram_and_propose_tokens xs lo hi model_len k = Inr (take (nat ?k) (drop a xs))"
      using False long s(1) by (simp add: find_longest_matched_ngram_and_propose_tokens_def Let_def a(1) k del: of_nat_add)
    then show ?thesis using ref long by (simp add: ngram_reference_def a_def)
  qed
qed

section \<open>The batch\<close>

text \<open>The state of the buffers for batches of \<open>n\<close> requests.\<close>

definition proposer_ok :: "nat \<Rightarrow> ngram_proposer \<Rightarrow> bool" where
  "proposer_ok n p \<longleftrightarrow> 1 \<le> min_n p \<and> min_n p \<le> max_n p
     \<and> n \<le> length (valid_ngram_draft p) \<and> n \<le> length (valid_ngram_num_drafts p)
     \<and> (\<forall>row \<in> set (valid_ngram_draft p). length row = draft_k p)"

definition ngram_draft :: "ngram_proposer \<Rightarrow> int list \<Rightarrow> int list" where
  "ngram_draft p context = ngram_reference context (min_n p) (max_n p) (min (draft_k p) (proposer_model_len p - length context))"

text \<open>The buffers hold the draft of a request.\<close>

definition draft_stored :: "ngram_proposer \<Rightarrow> nat \<Rightarrow> int list \<Rightarrow> bool" where
  "draft_stored p idx out \<longleftrightarrow> valid_ngram_num_drafts p ! idx = length out \<and> take (length out) (valid_ngram_draft p ! idx) = out"

definition same_proposer_config :: "ngram_proposer \<Rightarrow> ngram_proposer \<Rightarrow> bool" where
  "same_proposer_config p p' \<longleftrightarrow> min_n p' = min_n p \<and> max_n p' = max_n p \<and> draft_k p' = draft_k p \<and> proposer_model_len p' = proposer_model_len p"

lemma length_ngram_reference: "length (ngram_reference xs lo hi k) \<le> k"
  by (auto simp: ngram_reference_def split: option.splits)

lemma find_ngram_draft:
  assumes "proposer_ok n p"
  shows "find_longest_matched_ngram_and_propose_tokens xs (min_n p) (max_n p) (int (proposer_model_len p)) (int (draft_k p))
    = Inr (ngram_draft p xs)"
proof -
  have "nat (min (int (draft_k p)) (int (proposer_model_len p) - int (length xs))) = min (draft_k p) (proposer_model_len p - length xs)"
    by simp
  moreover have "1 \<le> min_n p" "min_n p \<le> max_n p" using assms by (auto simp: proposer_ok_def)
  ultimately show ?thesis by (simp only: find_longest_matched_ngram_result ngram_draft_def)
qed

lemma ngram_draft_same: "same_proposer_config p p' \<Longrightarrow> ngram_draft p' = ngram_draft p"
  by (simp add: same_proposer_config_def ngram_draft_def fun_eq_iff)

lemma length_ngram_draft: "length (ngram_draft p xs) \<le> draft_k p" "length xs \<le> proposer_model_len p \<Longrightarrow> length xs + length (ngram_draft p xs) \<le> proposer_model_len p"
  using length_ngram_reference [of xs "min_n p" "max_n p" "min (draft_k p) (proposer_model_len p - length xs)"]
  by (auto simp: ngram_draft_def)

lemma batch_propose_one_step:
  assumes p: "proposer_ok n p" and i: "i < length valid" "valid ! i < n" and n: "n \<le> length nums" "n \<le> length tokens"
  shows "\<exists>p'. batch_propose_one valid nums tokens i p = Inr p' \<and> proposer_ok n p' \<and> same_proposer_config p p'
    \<and> draft_stored p' (valid ! i) (ngram_draft p (take (nums ! (valid ! i)) (tokens ! (valid ! i))))
    \<and> (\<forall>r out. r \<noteq> valid ! i \<longrightarrow> draft_stored p' r out = draft_stored p r out)"
proof -
  let ?r = "valid ! i" and ?out = "ngram_draft p (take (nums ! (valid ! i)) (tokens ! (valid ! i)))"
  let ?draft = "valid_ngram_draft p ! ?r"
  have r: "?r < length nums" "?r < length tokens" "?r < length (valid_ngram_draft p)" "?r < length (valid_ngram_num_drafts p)"
    using assms by (auto simp: proposer_ok_def)
  have len: "length ?draft = draft_k p" "length ?out \<le> draft_k p"
    using p r(3) length_ngram_draft by (auto simp: proposer_ok_def)
  let ?p = "if ?out \<noteq> [] then p\<lparr>valid_ngram_num_drafts := (valid_ngram_num_drafts p)[?r := length ?out],
      valid_ngram_draft := (valid_ngram_draft p)[?r := ?out @ drop (length ?out) ?draft]\<rparr>
    else p\<lparr>valid_ngram_num_drafts := (valid_ngram_num_drafts p)[?r := length ?out]\<rparr>"
  have "batch_propose_one valid nums tokens i p = Inr ?p"
    using r len i(1) by (simp add: batch_propose_one_def find_ngram_draft [OF p] Let_def)
  moreover have "proposer_ok n ?p"
    using p len by (auto simp: proposer_ok_def dest!: set_update_subset_insert [THEN subsetD])
  moreover have "draft_stored ?p ?r ?out" using r by (simp add: draft_stored_def)
  ultimately show ?thesis
    by (intro exI [of _ ?p]) (auto simp: same_proposer_config_def draft_stored_def)
qed

lemma same_proposer_config_trans: "same_proposer_config p q \<Longrightarrow> same_proposer_config q r \<Longrightarrow> same_proposer_config p r"
  by (simp add: same_proposer_config_def)

lemma batch_propose_loop:
  assumes "proposer_ok n p" "\<forall>i \<in> set js. i < length valid" "\<forall>r \<in> set valid. r < n" "n \<le> length nums" "n \<le> length tokens"
  shows "\<exists>p'. rfold (batch_propose_one valid nums tokens) js p = Inr p' \<and> proposer_ok n p' \<and> same_proposer_config p p'
    \<and> (\<forall>r. draft_stored p r (ngram_draft p (take (nums ! r) (tokens ! r))) \<or> (\<exists>i \<in> set js. valid ! i = r)
         \<longrightarrow> draft_stored p' r (ngram_draft p (take (nums ! r) (tokens ! r))))"
  using assms
proof (induction js arbitrary: p)
  case Nil
  then show ?case by (simp add: same_proposer_config_def)
next
  case (Cons i js)
  let ?out = "\<lambda>p r. ngram_draft p (take (nums ! r) (tokens ! r))"
  have i: "i < length valid" "valid ! i < n" using Cons.prems(2,3) by auto
  from batch_propose_one_step [OF Cons.prems(1) i Cons.prems(4,5)]
  obtain p1 where p1: "batch_propose_one valid nums tokens i p = Inr p1" "proposer_ok n p1" "same_proposer_config p p1"
    "draft_stored p1 (valid ! i) (?out p (valid ! i))"
    "\<And>r. r \<noteq> valid ! i \<Longrightarrow> draft_stored p1 r (?out p r) = draft_stored p r (?out p r)" by blast
  have "\<forall>i \<in> set js. i < length valid" using Cons.prems(2) by simp
  from Cons.IH [OF p1(2) this Cons.prems(3-5)]
  obtain p' where p': "rfold (batch_propose_one valid nums tokens) js p1 = Inr p'" "proposer_ok n p'" "same_proposer_config p1 p'"
    "\<And>r. draft_stored p1 r (?out p r) \<or> (\<exists>i \<in> set js. valid ! i = r) \<Longrightarrow> draft_stored p' r (?out p r)"
    unfolding ngram_draft_same [OF p1(3)] by blast
  have "draft_stored p' r (?out p r)" if "draft_stored p r (?out p r) \<or> (\<exists>j \<in> set (i # js). valid ! j = r)" for r
    using that p'(4) [of r] p1(4) p1(5) [of r] by (cases "r = valid ! i") auto
  then show ?case using p1(1) p'(1,2) same_proposer_config_trans [OF p1(3) p'(3)] by auto
qed

lemma collect_drafts:
  assumes "\<forall>r \<in> set valid. draft_stored p r (out r)" "n \<le> length (valid_ngram_num_drafts p)" "n \<le> length (valid_ngram_draft p)"
    "\<forall>i \<in> set is. i < n"
  shows "rfold (draft_of valid p) is acc = Inr (acc @ map (\<lambda>i. if i \<in> set valid then out i else []) is)"
  using assms(4)
proof (induction "is" arbitrary: acc)
  case (Cons i "is")
  have "draft_of valid p i acc = Inr (acc @ [if i \<in> set valid then out i else []])"
    using assms(1-3) Cons.prems by (auto simp: draft_of_def draft_stored_def)
  then show ?case using Cons by simp
qed simp

lemma collect_valid_requests:
  assumes "k + length sampled \<le> length nums"
  shows "rfold (valid_ngram_request nums p) (enumerate k sampled) acc
    = Inr (acc @ filter (\<lambda>i. sampled ! (i - k) \<noteq> [] \<and> nums ! i < proposer_model_len p) [k..<k + length sampled])"
  using assms
proof (induction sampled arbitrary: k acc)
  case (Cons x sampled)
  have "[k..<k + length (x # sampled)] = k # [Suc k..<Suc k + length sampled]" by (simp add: upt_rec)
  moreover have "filter (\<lambda>i. (x # sampled) ! (i - k) \<noteq> [] \<and> nums ! i < proposer_model_len p) [Suc k..<Suc k + length sampled]
    = filter (\<lambda>i. sampled ! (i - Suc k) \<noteq> [] \<and> nums ! i < proposer_model_len p) [Suc k..<Suc k + length sampled]"
    by (rule filter_cong) (auto simp: nth_Cons' Suc_le_eq)
  moreover have "valid_ngram_request nums p (k, x) acc
    = Inr (acc @ (if x \<noteq> [] \<and> nums ! k < proposer_model_len p then [k] else []))"
    using Cons.prems by (auto simp: valid_ngram_request_def)
  ultimately show ?case using Cons.IH [of "Suc k"] Cons.prems by (auto simp del: upt_Suc)
qed simp

lemma batch_propose_result:
  assumes p: "proposer_ok n p" and v: "\<forall>r \<in> set valid. r < n" and len: "n \<le> length nums" "n \<le> length tokens"
    and ord: "set (order (length valid)) = {..<length valid}"
  shows "\<exists>p'. batch_propose order n valid nums tokens p =
      Inr (map (\<lambda>i. if i \<in> set valid then ngram_draft p (take (nums ! i) (tokens ! i)) else []) [0..<n], p')
    \<and> proposer_ok n p' \<and> same_proposer_config p p'"
proof -
  let ?run = "if valid \<noteq> [] then batch_propose_numba order valid nums tokens p else Inr p"
  obtain p' where p': "?run = Inr p'" "proposer_ok n p'" "same_proposer_config p p'"
    "\<forall>r \<in> set valid. draft_stored p' r (ngram_draft p (take (nums ! r) (tokens ! r)))"
  proof (cases "valid = []")
    case True
    then show ?thesis using that [of p] p by (simp add: same_proposer_config_def)
  next
    case False
    have "\<forall>i \<in> set (order (length valid)). i < length valid" using ord by simp
    from batch_propose_loop [OF p this v len] show ?thesis
      using that False ord by (fastforce simp: batch_propose_numba_def in_set_conv_nth)
  qed
  have "rfold (draft_of valid p') [0..<n] []
      = Inr ([] @ map (\<lambda>i. if i \<in> set valid then ngram_draft p (take (nums ! i) (tokens ! i)) else []) [0..<n])"
    using p'(2) by (intro collect_drafts [OF p'(4)]) (auto simp: proposer_ok_def)
  then show ?thesis using p' by (simp add: batch_propose_def)
qed

lemma ngram_propose_result:
  assumes p: "proposer_ok (length sampled) p" and len: "length sampled \<le> length nums" "length sampled \<le> length tokens"
    and ord: "\<And>n. set (order n) = {..<n}"
  shows "\<exists>p'. ngram_propose order sampled nums tokens p =
      Inr (map (\<lambda>i. if sampled ! i \<noteq> [] \<and> nums ! i < proposer_model_len p
                    then ngram_draft p (take (nums ! i) (tokens ! i)) else []) [0..<length sampled], p')
    \<and> proposer_ok (length sampled) p' \<and> same_proposer_config p p'"
proof -
  let ?valid = "filter (\<lambda>i. sampled ! i \<noteq> [] \<and> nums ! i < proposer_model_len p) [0..<length sampled]"
  have "rfold (valid_ngram_request nums p) (enumerate 0 sampled) [] = Inr ?valid"
    using collect_valid_requests [of 0 sampled nums p "[]"] len by simp
  moreover have "map (\<lambda>i. if i \<in> set ?valid then ngram_draft p (take (nums ! i) (tokens ! i)) else []) [0..<length sampled]
     = map (\<lambda>i. if sampled ! i \<noteq> [] \<and> nums ! i < proposer_model_len p
              then ngram_draft p (take (nums ! i) (tokens ! i)) else []) [0..<length sampled]" by auto
  moreover have "\<forall>r \<in> set ?valid. r < length sampled" by simp
  note batch_propose_result [where order = order and valid = ?valid, OF p this len ord]
  ultimately show ?thesis unfolding ngram_propose_def by (simp only: rbind_Inr)
qed

text \<open>
  An accepted configuration and the constructor give the buffers and bounds that the search
  relies on. The batch that the constructor runs has no sampled tokens, so it never reaches
  the parallel loop, whose order of iterations is arbitrary here.
\<close>

lemma prompt_lookup_bounds_ordered: "prompt_lookup_bounds a b = Inr (lo, hi) \<Longrightarrow> 1 \<le> lo \<and> lo \<le> hi"
  by (auto simp: prompt_lookup_bounds_def Let_def rbind_eq_Inr split: option.splits)

lemma NgramProposer_ready:
  assumes "prompt_lookup_bounds a b = Inr (lo, hi)"
  shows "\<exists>p. NgramProposer order (Some lo) (Some hi) k model_len max_seqs = Inr p \<and> proposer_ok max_seqs p
    \<and> min_n p = lo \<and> max_n p = hi \<and> draft_k p = k \<and> proposer_model_len p = model_len
    \<and> valid_ngram_num_drafts p = replicate max_seqs 0"
proof -
  have empty: "rfold (valid_ngram_request nums p) (enumerate j (replicate i [])) [] = Inr []" for nums p i j
    by (induction i arbitrary: j) (auto simp: valid_ngram_request_def)
  have none: "\<exists>ds. rfold (draft_of [] p) is acc = Inr ds" for p "is" acc
    by (induction "is" arbitrary: acc) (auto simp: draft_of_def)
  have run: "\<exists>ds. ngram_propose order (replicate i []) nums tokens p = Inr (ds, p)" for i nums tokens p
    using none [of p "[0..<i]" "[]"] by (auto simp: ngram_propose_def batch_propose_def empty)
  have "1 \<le> lo \<and> lo \<le> hi" by (rule prompt_lookup_bounds_ordered [OF assms])
  moreover obtain ds where "ngram_propose order (replicate 1024 ([] :: int list)) (replicate 1024 0) (replicate 1024 (replicate model_len 0))
      \<lparr>min_n = lo, max_n = hi, draft_k = k, proposer_model_len = model_len,
       valid_ngram_draft = replicate max_seqs (replicate k 0), valid_ngram_num_drafts = replicate max_seqs 0\<rparr>
    = Inr (ds, \<lparr>min_n = lo, max_n = hi, draft_k = k, proposer_model_len = model_len,
       valid_ngram_draft = replicate max_seqs (replicate k 0), valid_ngram_num_drafts = replicate max_seqs 0\<rparr>)"
    using run by blast
  ultimately show ?thesis by (simp add: NgramProposer_def proposer_ok_def)
qed

section \<open>Properties\<close>

text \<open>
  C23. The search for a draft always returns, and it returns what the search over all lengths
  and positions gives, cut to the number of tokens asked for and to the maximum model length:
  what follows the earliest earlier occurrence of the longest suffix with a length between
  the bounds, or nothing when no such suffix occurs earlier.
\<close>

theorem ngram_search_equals_reference:
  assumes "1 \<le> lo" "lo \<le> hi"
  shows "find_longest_matched_ngram_and_propose_tokens xs lo hi model_len k
      = Inr (ngram_reference xs lo hi (nat (min k (model_len - int (length xs)))))
    \<and> (case earlier_ngram xs lo hi of
        None \<Rightarrow> \<forall>n s. lo \<le> n \<and> n \<le> hi \<longrightarrow> \<not> occurs_before xs n s
      | Some (n, s) \<Rightarrow> lo \<le> n \<and> n \<le> hi \<and> occurs_before xs n s \<and> (\<forall>r < s. \<not> occurs_before xs n r)
          \<and> (\<forall>q r. n < q \<and> q \<le> hi \<longrightarrow> \<not> occurs_before xs q r))"
  using find_longest_matched_ngram_result [OF assms] earlier_ngram_spec [where xs = xs and lo = lo and hi = hi] assms(1)
  by (auto split: option.splits)

theorem ngram_search_equals_reference_witness:
  "find_longest_matched_ngram_and_propose_tokens [1, 3, 6, 2, 3, 4, 1, 2, 3 :: int] 1 2 1024 3 = Inr [4, 1, 2]"
proof -
  have "ngram_reference [1, 3, 6, 2, 3, 4, 1, 2, 3 :: int] 1 2 3 = [4, 1, 2]" by code_simp
  then show ?thesis
    using ngram_search_equals_reference [of 1 2 "[1, 3, 6, 2, 3, 4, 1, 2, 3 :: int]" 1024 3] by simp
qed

text \<open>
  C24. A batch of n-gram proposals returns, in whatever order the iterations of the parallel
  loop run: every request that has sampled tokens and is below the maximum model length gets
  the draft of the reference search on its own tokens, all others get none. A draft has at most
  the configured number of tokens and never takes its request past the maximum model length,
  and the buffers are ready for the next batch.
\<close>

theorem ngram_propose_correct:
  assumes "proposer_ok (length sampled) p" "length sampled \<le> length nums" "length sampled \<le> length tokens"
    and "\<forall>n. set (order n) = {..<n}" and "\<forall>row \<in> set tokens. length row = proposer_model_len p"
  shows "\<exists>drafts p'. ngram_propose order sampled nums tokens p = Inr (drafts, p')
    \<and> proposer_ok (length sampled) p' \<and> length drafts = length sampled
    \<and> (\<forall>i < length sampled.
        drafts ! i = (if sampled ! i \<noteq> [] \<and> nums ! i < proposer_model_len p
          then ngram_reference (take (nums ! i) (tokens ! i)) (min_n p) (max_n p)
                 (min (draft_k p) (proposer_model_len p - nums ! i))
          else [])
        \<and> length (drafts ! i) \<le> draft_k p
        \<and> (drafts ! i \<noteq> [] \<longrightarrow> nums ! i + length (drafts ! i) \<le> proposer_model_len p))"
proof -
  let ?ds = "map (\<lambda>i. if sampled ! i \<noteq> [] \<and> nums ! i < proposer_model_len p
      then ngram_draft p (take (nums ! i) (tokens ! i)) else []) [0..<length sampled]"
  obtain p' where p': "ngram_propose order sampled nums tokens p = Inr (?ds, p')" "proposer_ok (length sampled) p'"
    using ngram_propose_result [OF assms(1-3), of order] assms(4) by blast
  have full: "length (take (nums ! i) (tokens ! i)) = nums ! i"
    if "i < length sampled" "nums ! i < proposer_model_len p" for i
    using that assms(3,5) by simp
  have drafts: "?ds ! i = (if sampled ! i \<noteq> [] \<and> nums ! i < proposer_model_len p
        then ngram_reference (take (nums ! i) (tokens ! i)) (min_n p) (max_n p)
               (min (draft_k p) (proposer_model_len p - nums ! i)) else [])" if "i < length sampled" for i
    using full [OF that] that by (simp add: ngram_draft_def)
  have bounds: "length (?ds ! i) \<le> draft_k p \<and> (?ds ! i \<noteq> [] \<longrightarrow> nums ! i + length (?ds ! i) \<le> proposer_model_len p)"
    if "i < length sampled" for i
    using full [OF that] that length_ngram_draft [where p = p and xs = "take (nums ! i) (tokens ! i)"] by auto
  show ?thesis using p' drafts bounds by (intro exI [of _ ?ds] exI [of _ p'] conjI allI impI) auto
qed

definition sample_proposer :: ngram_proposer where
  "sample_proposer = \<lparr>min_n = 1, max_n = 2, draft_k = 2, proposer_model_len = 6,
     valid_ngram_draft = [[0, 0], [7, 7], [0, 0]], valid_ngram_num_drafts = [0, 2, 0]\<rparr>"

theorem ngram_propose_correct_witness:
  "\<exists>drafts p'. ngram_propose (\<lambda>n. rev [0..<n]) [[2], [], [8 :: int]] [4, 3, 6]
       [[1, 2, 1, 2, 0, 0], [5, 5, 5, 0, 0, 0], [8, 8, 8, 8, 8, 8]] sample_proposer = Inr (drafts, p')
     \<and> proposer_ok 3 p' \<and> drafts ! 0 = [1, 2] \<and> drafts ! 1 = [] \<and> drafts ! 2 = []"
proof -
  have "ngram_reference [1, 2, 1, 2 :: int] 1 2 2 = [1, 2]" by code_simp
  moreover have "proposer_ok 3 sample_proposer" by (simp add: proposer_ok_def sample_proposer_def)
  ultimately show ?thesis
    using ngram_propose_correct [of "[[2], [], [8 :: int]]" sample_proposer "[4, 3, 6]"
        "[[1, 2, 1, 2, 0, 0], [5, 5, 5, 0, 0, 0], [8, 8, 8, 8, 8, 8]]" "\<lambda>n. rev [0..<n]"]
    by (fastforce simp: sample_proposer_def numeral_3_eq_3 numeral_2_eq_2 lessThan_atLeast0)
qed

end
