(* ===== verification/Request_Model.thy ===== *)
theory Request_Model
  imports Prelude "HOL-Library.Char_ord"
begin

text \<open>
  The request object of \<^verbatim>\<open>src/vllm/v1/request.py\<close>: its fields, its status machine, its
  derived properties and its order, and the multi-modal placeholder ranges of
  \<^verbatim>\<open>src/vllm/multimodal/inputs.py\<close> it carries. The constructor and the operations that
  compute block hashes are in \<open>Block_Hash\<close>.

  Times are rationals (every finite float is one). Embedding tensors are lists of rows of
  raw bytes. The closure \<^verbatim>\<open>_block_hasher\<close> is represented by the block size it captured;
  the hash functions it calls are a parameter of the definitions that use it.
\<close>

section \<open>Placeholder ranges\<close>

record placeholder_range =
  offset :: nat
  plen :: nat
  is_embed :: "bool list option"

text \<open>\<^verbatim>\<open>cumsum\<close> of the boolean msk.\<close>

definition embeds_cumsum :: "placeholder_range \<Rightarrow> nat list option" where
  "embeds_cumsum p = map_option
     (\<lambda>msk. map (\<lambda>i. length (filter id (take (Suc i) msk))) [0..<length msk]) (is_embed p)"

definition get_num_embeds :: "placeholder_range \<Rightarrow> nat result" where
  "get_num_embeds p =
     (case embeds_cumsum p of
        None \<Rightarrow> Inr (plen p)
      | Some cs \<Rightarrow> py_index cs (- 1))"

definition get_embeds_indices_in_range :: "placeholder_range \<Rightarrow> int \<Rightarrow> int \<Rightarrow> (int \<times> int) result" where
  "get_embeds_indices_in_range p start_idx end_idx =
     (case embeds_cumsum p of
        None \<Rightarrow> Inr (start_idx, end_idx)
      | Some cs \<Rightarrow>
          rbind (if 0 < start_idx then py_index cs (start_idx - 1) else Inr 0) (\<lambda>s.
          rbind (py_index cs (end_idx - 1)) (\<lambda>e.
          Inr (int s, int e))))"

text \<open>
  \<^verbatim>\<open>extract_embeds_range\<close>: the positions where the msk rises and the positions after
  which it falls, paired and shifted by the offset.
\<close>

definition mask_starts :: "bool list \<Rightarrow> nat list" where
  "mask_starts msk = filter (\<lambda>i. msk ! i \<and> (i = 0 \<or> \<not> msk ! (i - 1))) [0..<length msk]"

definition mask_ends :: "bool list \<Rightarrow> nat list" where
  "mask_ends msk = filter (\<lambda>i. msk ! i \<and> (Suc i = length msk \<or> \<not> msk ! Suc i)) [0..<length msk]"

definition extract_embeds_range :: "placeholder_range \<Rightarrow> (int \<times> int) list" where
  "extract_embeds_range p =
     (case is_embed p of
        None \<Rightarrow> [(int (offset p), int (offset p) + int (plen p) - 1)]
      | Some msk \<Rightarrow> map (\<lambda>(s, e). (int (s + offset p), int (e + offset p)))
          (zip (mask_starts msk) (mask_ends msk)))"

record mm_feature =
  modality :: string
  mm_identifier :: string
  mm_position :: placeholder_range

definition feature_end :: "mm_feature \<Rightarrow> nat" where
  "feature_end f = offset (mm_position f) + plen (mm_position f)"

section \<open>Sampling and pooling parameters\<close>

record repetition_params =
  max_pattern_size :: int
  min_pattern_size :: int
  min_count :: int

record sampling_params =
  sp_max_tokens :: "int option"
  min_tokens :: int
  eos_token_id :: "int option"
  stop_token_ids :: "int list option"
  repetition_detection :: "repetition_params option"
  structured_outputs :: bool
  sp_skip_reading_prefix_cache :: "bool option"

record pooling_params =
  pp_skip_reading_prefix_cache :: "bool option"

record lora_request =
  lora_name :: string
  lora_int_id :: int

section \<open>Request status\<close>

datatype request_status =
    WAITING
  | WAITING_FOR_FSM
  | WAITING_FOR_REMOTE_KVS
  | WAITING_FOR_STREAMING_REQ
  | RUNNING
  | PREEMPTED
  | FINISHED_STOPPED
  | FINISHED_LENGTH_CAPPED
  | FINISHED_ABORTED
  | FINISHED_IGNORED
  | FINISHED_ERROR
  | FINISHED_REPETITION

text \<open>\<^verbatim>\<open>enum.auto()\<close> numbers the members from 1 in the order of their declaration.\<close>

fun status_value :: "request_status \<Rightarrow> nat" where
  "status_value WAITING = 1"
| "status_value WAITING_FOR_FSM = 2"
| "status_value WAITING_FOR_REMOTE_KVS = 3"
| "status_value WAITING_FOR_STREAMING_REQ = 4"
| "status_value RUNNING = 5"
| "status_value PREEMPTED = 6"
| "status_value FINISHED_STOPPED = 7"
| "status_value FINISHED_LENGTH_CAPPED = 8"
| "status_value FINISHED_ABORTED = 9"
| "status_value FINISHED_IGNORED = 10"
| "status_value FINISHED_ERROR = 11"
| "status_value FINISHED_REPETITION = 12"

definition status_is_finished :: "request_status \<Rightarrow> bool" where
  "status_is_finished s \<longleftrightarrow> status_value PREEMPTED < status_value s"

datatype finish_reason = Reason_STOP | Reason_LENGTH | Reason_ABORT | Reason_ERROR | Reason_REPETITION

definition FINISHED_REASON_MAP :: "request_status \<rightharpoonup> finish_reason" where
  "FINISHED_REASON_MAP = [FINISHED_STOPPED \<mapsto> Reason_STOP, FINISHED_LENGTH_CAPPED \<mapsto> Reason_LENGTH,
     FINISHED_ABORTED \<mapsto> Reason_ABORT, FINISHED_IGNORED \<mapsto> Reason_LENGTH, FINISHED_ERROR \<mapsto> Reason_ERROR,
     WAITING_FOR_STREAMING_REQ \<mapsto> Reason_STOP, FINISHED_REPETITION \<mapsto> Reason_REPETITION]"

definition status_finished_reason :: "request_status \<Rightarrow> finish_reason option" where
  "status_finished_reason s = FINISHED_REASON_MAP s"

section \<open>The request object\<close>

datatype stop_reason = Stop_token int | Stop_string string

record streaming_update =
  su_mm_features :: "mm_feature list option"
  su_prompt_token_ids :: "int list option"
  su_max_tokens :: int
  su_arrival_time :: rat
  su_sampling_params :: "sampling_params option"

record request =
  request_id :: string
  object_id :: int
  client_index :: int
  priority :: int
  arrival_time :: rat
  sampling_params_of :: "sampling_params option"
  pooling_params_of :: "pooling_params option"
  lora_request_of :: "lora_request option"
  structured_output_request :: bool
  status :: request_status
  stop_reason_of :: "stop_reason option"
  max_tokens :: int
  prompt_token_ids :: "int list option"
  prompt_embeds :: "bytes list option"
  prompt_embeds_per_block_hashes :: "nat \<times> nat \<rightharpoonup> bytes"
  num_prompt_tokens :: nat
  output_token_ids :: "int list"
  all_token_ids :: "int list"
  num_output_placeholders :: int
  discard_latest_async_tokens :: bool
  spec_token_ids :: "int list"
  num_computed_tokens :: int
  cache_salt :: "string option"
  mm_features :: "mm_feature list"
  num_cached_tokens :: int
  is_prefill_chunk :: bool
  num_nans_in_logits :: int
  num_preemptions :: nat
  num_external_computed_tokens :: int
  block_hashes :: "bytes list"
  block_hasher :: "nat option"
  skip_reading_prefix_cache :: bool
  resumable :: bool
  streaming_queue :: "streaming_update option list option"

definition num_tokens :: "request \<Rightarrow> nat" where
  "num_tokens r = length (all_token_ids r)"

definition num_tokens_with_spec :: "request \<Rightarrow> nat" where
  "num_tokens_with_spec r = length (all_token_ids r) + length (spec_token_ids r)"

definition num_output_tokens :: "request \<Rightarrow> nat" where
  "num_output_tokens r = length (output_token_ids r)"

definition num_encoder_inputs :: "request \<Rightarrow> nat" where
  "num_encoder_inputs r = length (mm_features r)"

definition has_encoder_inputs :: "request \<Rightarrow> bool" where
  "has_encoder_inputs r \<longleftrightarrow> 0 < num_encoder_inputs r"

definition use_structured_output :: "request \<Rightarrow> bool" where
  "use_structured_output r = structured_output_request r"

definition is_finished :: "request \<Rightarrow> bool" where
  "is_finished r = status_is_finished (status r)"

definition get_finished_reason :: "request \<Rightarrow> finish_reason option" where
  "get_finished_reason r = status_finished_reason (status r)"

definition get_num_encoder_embeds :: "request \<Rightarrow> nat \<Rightarrow> nat result" where
  "get_num_encoder_embeds r input_id =
     (if input_id < length (mm_features r)
      then get_num_embeds (mm_position (mm_features r ! input_id))
      else Inl AssertionError)"

definition get_skip_reading_prefix_cache :: "sampling_params option \<Rightarrow> pooling_params option \<Rightarrow> bool" where
  "get_skip_reading_prefix_cache sp pp =
     (case Option.bind sp sp_skip_reading_prefix_cache of
        Some b \<Rightarrow> b
      | None \<Rightarrow> (case Option.bind pp pp_skip_reading_prefix_cache of Some b \<Rightarrow> b | None \<Rightarrow> False))"

definition streaming_update_from_request :: "request \<Rightarrow> streaming_update option" where
  "streaming_update_from_request r =
     (if \<not> resumable r then None
      else Some \<lparr>su_mm_features = Some (mm_features r), su_prompt_token_ids = prompt_token_ids r,
        su_max_tokens = max_tokens r, su_arrival_time = arrival_time r,
        su_sampling_params = sampling_params_of r\<rparr>)"

text \<open>\<^verbatim>\<open>Request.__lt__\<close>: Python compares strings by code points, from the left.\<close>

definition request_lt :: "request \<Rightarrow> request \<Rightarrow> bool" where
  "request_lt a b =
     (if priority a \<noteq> priority b then priority a < priority b
      else if arrival_time a \<noteq> arrival_time b then arrival_time a < arrival_time b
      else if request_id a \<noteq> request_id b then ord_class.lexordp (request_id a) (request_id b)
      else object_id a < object_id b)"

text \<open>A text-only request, for concrete instances.\<close>

definition sample_request :: "int list \<Rightarrow> nat \<Rightarrow> request" where
  "sample_request toks bs = \<lparr>request_id = ''r'', object_id = 0, client_index = 0, priority = 0, arrival_time = 0,
     sampling_params_of = None, pooling_params_of = Some \<lparr>pp_skip_reading_prefix_cache = None\<rparr>, lora_request_of = None,
     structured_output_request = False, status = WAITING, stop_reason_of = None, max_tokens = 1,
     prompt_token_ids = Some toks, prompt_embeds = None, prompt_embeds_per_block_hashes = Map.empty,
     num_prompt_tokens = length toks, output_token_ids = [], all_token_ids = toks,
     num_output_placeholders = 0, discard_latest_async_tokens = False, spec_token_ids = [],
     num_computed_tokens = 0, cache_salt = None, mm_features = [],
     num_cached_tokens = -1, is_prefill_chunk = False, num_nans_in_logits = 0, num_preemptions = 0,
     num_external_computed_tokens = 0, block_hashes = [], block_hasher = Some bs,
     skip_reading_prefix_cache = False, resumable = False, streaming_queue = None\<rparr>"

section \<open>Facts about requests\<close>

text \<open>The order on requests is a strict linear order on objects with distinct identities.\<close>

lemma request_lt_irrefl: "\<not> request_lt r r"
  by (simp add: request_lt_def)

lemma request_lt_trans:
  assumes "request_lt a b" and "request_lt b c"
  shows "request_lt a c"
  using assms lexordp_trans [of "request_id a" "request_id b" "request_id c"]
    lexordp_antisym [of "request_id a" "request_id b"]
  by (auto simp: request_lt_def split: if_splits)

lemma request_lt_total: "object_id a \<noteq> object_id b \<Longrightarrow> request_lt a b \<or> request_lt b a"
  using lexordp_linear [of "request_id a" "request_id b"] by (auto simp: request_lt_def)

lemma request_lt_asym: "request_lt a b \<Longrightarrow> \<not> request_lt b a"
  using request_lt_irrefl request_lt_trans by blast

text \<open>The number of set mask bits before a position.\<close>

definition embeds_before :: "bool list \<Rightarrow> nat \<Rightarrow> nat" where
  "embeds_before m k = length (filter id (take k m))"

lemma embeds_cumsum_index:
  assumes "is_embed p = Some m" and "0 < k" and "k \<le> length m"
  shows "\<exists>cs. embeds_cumsum p = Some cs \<and> py_index cs (int k - 1) = Inr (embeds_before m k)"
proof -
  obtain j where j: "k = Suc j" using assms(2) by (cases k) auto
  then show ?thesis using assms by (simp add: embeds_cumsum_def embeds_before_def)
qed

lemma embeds_before_split:
  "a \<le> b \<Longrightarrow> embeds_before m b = embeds_before m a + length (filter id (pyslice m a b))"
  unfolding embeds_before_def pyslice_def
  by (metis filter_append le_add_diff_inverse length_append take_add)

lemma get_num_embeds_mask:
  assumes "is_embed p = Some m"
  shows "get_num_embeds p = (if m = [] then Inl IndexError else Inr (length (filter id m)))"
  using assms by (cases m rule: rev_cases)
    (auto simp: get_num_embeds_def embeds_cumsum_def py_index_last last_map py_index_def nth_append)

text \<open>
  The embedding indices computed for a token range select exactly the embeddings the
  mask places in it: for a range \<open>[s, e)\<close> of the placeholder with \<open>0 < e\<close> the result is
  the number of embeddings before \<open>s\<close> and before \<open>e\<close>, their difference is the number of
  set bits of the mask in the range, and the whole placeholder yields
  \<^verbatim>\<open>get_num_embeds\<close>.
\<close>

theorem embeds_indices_select_range:
  assumes "is_embed p = Some m" and "s \<le> e" and "0 < e" and "e \<le> length m"
  shows "\<exists>a b. get_embeds_indices_in_range p (int s) (int e) = Inr (int a, int b)
     \<and> a = embeds_before m s \<and> b = a + length (filter id (pyslice m s e))
     \<and> (s = 0 \<and> e = length m \<longrightarrow> a = 0 \<and> get_num_embeds p = Inr b)"
proof -
  obtain cs where cs: "embeds_cumsum p = Some cs" "py_index cs (int e - 1) = Inr (embeds_before m e)"
    using embeds_cumsum_index [OF assms(1,3,4)] by blast
  have "0 < s \<Longrightarrow> py_index cs (int s - 1) = Inr (embeds_before m s)"
    using embeds_cumsum_index [OF assms(1), of s] assms(2,4) cs(1) by auto
  then have "get_embeds_indices_in_range p (int s) (int e) = Inr (int (embeds_before m s), int (embeds_before m e))"
    using cs by (cases "s = 0") (auto simp: get_embeds_indices_in_range_def embeds_before_def)
  moreover have "e = length m \<Longrightarrow> get_num_embeds p = Inr (embeds_before m e)"
    using get_num_embeds_mask [OF assms(1)] assms(3) by (auto simp: embeds_before_def)
  ultimately show ?thesis
    using embeds_before_split [OF assms(2), of m] by (auto simp: embeds_before_def)
qed

theorem embeds_indices_select_range_witness:
  "get_embeds_indices_in_range \<lparr>offset = 2, plen = 5, is_embed = Some [False, True, False, True, True]\<rparr> 3 5
     = Inr (1, 3)"
  using embeds_indices_select_range [of "\<lparr>offset = 2, plen = 5, is_embed = Some [False, True, False, True, True]\<rparr>"
      "[False, True, False, True, True]" 3 5]
  by (auto simp: embeds_before_def pyslice_def numeral_eq_Suc)

text \<open>Every finished status has a finish reason, and no status before it except the one
  that waits for streaming input does.\<close>

lemma finished_has_reason: "is_finished r \<Longrightarrow> get_finished_reason r \<noteq> None"
  by (cases "status r") (simp_all add: is_finished_def status_is_finished_def
      get_finished_reason_def status_finished_reason_def FINISHED_REASON_MAP_def)

lemma reason_iff_finished:
  "get_finished_reason r \<noteq> None \<longleftrightarrow> is_finished r \<or> status r = WAITING_FOR_STREAMING_REQ"
  by (cases "status r") (simp_all add: is_finished_def status_is_finished_def
      get_finished_reason_def status_finished_reason_def FINISHED_REASON_MAP_def)

end
