(* ===== verification/Encoder_Cache.thy ===== *)
theory Encoder_Cache
  imports Request_Model
begin

text \<open>
  The cache of multi-modal encoder outputs, \<^verbatim>\<open>src/vllm/v1/core/encoder_cache_manager.py\<close>:
  the classes \<^verbatim>\<open>EncoderCacheManager\<close> and \<^verbatim>\<open>EncoderDecoderCacheManager\<close> and the
  encoder budget. The ordered dictionary \<^verbatim>\<open>freeable\<close> is an association list in insertion
  order; sets of request ids are sets.
\<close>

section \<open>EncoderCacheManager\<close>

record encoder_cache =
  cache_size :: int
  num_free_slots :: int
  num_freeable_slots :: int
  cached :: "string \<rightharpoonup> string set"
  freeable :: "(string \<times> nat) list"
  freed :: "string list"

definition EncoderCacheManager :: "int \<Rightarrow> encoder_cache" where
  "EncoderCacheManager sz = \<lparr>cache_size = sz, num_free_slots = sz, num_freeable_slots = sz,
     cached = Map.empty, freeable = [], freed = []\<rparr>"

definition enc_reset :: "encoder_cache \<Rightarrow> encoder_cache" where
  "enc_reset c = c\<lparr>cached := Map.empty, freeable := [], freed := [], num_free_slots := cache_size c,
     num_freeable_slots := cache_size c\<rparr>"

definition mm_hash_of :: "request \<Rightarrow> nat \<Rightarrow> string result" where
  "mm_hash_of r input_id =
     (if input_id < length (mm_features r) then Inr (mm_identifier (mm_features r ! input_id)) else Inl IndexError)"

definition check_and_update_cache :: "request \<Rightarrow> nat \<Rightarrow> encoder_cache \<Rightarrow> (bool \<times> encoder_cache) result" where
  "check_and_update_cache r input_id c =
     rbind (mm_hash_of r input_id) (\<lambda>h.
       case cached c h of
         None \<Rightarrow> Inr (False, c)
       | Some ids \<Rightarrow>
           rbind (if ids = {} then
                    (case map_of (freeable c) h of
                       None \<Rightarrow> Inl KeyError
                     | Some n \<Rightarrow> Inr (c\<lparr>freeable := AList.delete h (freeable c),
                                      num_freeable_slots := num_freeable_slots c - int n\<rparr>))
                  else Inr c)
             (\<lambda>c. Inr (True, c\<lparr>cached := (cached c)(h \<mapsto> insert (request_id r) ids)\<rparr>)))"

text \<open>The eviction loop of \<^verbatim>\<open>can_allocate\<close>: the oldest freeable entry goes first.\<close>

function evict_loop :: "int \<Rightarrow> encoder_cache \<Rightarrow> encoder_cache result" where
  "evict_loop num_embeds c =
     (if num_embeds \<le> num_free_slots c then Inr c
      else
        (case freeable c of
           [] \<Rightarrow> Inl KeyError
         | (h, n) # rest \<Rightarrow>
             if cached c h = None then Inl KeyError
             else evict_loop num_embeds
               (c\<lparr>freeable := rest, cached := (cached c)(h := None), freed := freed c @ [h],
                  num_free_slots := num_free_slots c + int n\<rparr>)))"
  by pat_completeness auto
termination
  by (relation "measure (\<lambda>(_, c). length (freeable c))") auto

declare evict_loop.simps [simp del]

definition can_allocate :: "request \<Rightarrow> nat \<Rightarrow> int \<Rightarrow> int \<Rightarrow> encoder_cache \<Rightarrow> (bool \<times> encoder_cache) result" where
  "can_allocate r input_id encoder_compute_budget num_embeds_to_schedule c =
     rbind (get_num_encoder_embeds r input_id) (\<lambda>n.
       if encoder_compute_budget < int n then Inr (False, c)
       else
         let num_embeds = int n + num_embeds_to_schedule
         in if num_embeds \<le> num_free_slots c then Inr (True, c)
            else if num_freeable_slots c < num_embeds then Inr (False, c)
            else rbind (evict_loop num_embeds c) (\<lambda>c. Inr (True, c)))"

definition allocate :: "request \<Rightarrow> nat \<Rightarrow> encoder_cache \<Rightarrow> encoder_cache result" where
  "allocate r input_id c =
     rbind (mm_hash_of r input_id) (\<lambda>h.
       let ids = (case cached c h of None \<Rightarrow> {} | Some ids \<Rightarrow> ids) in
       rbind (get_num_encoder_embeds r input_id) (\<lambda>n.
       rbind (ensure (int n \<le> num_free_slots c) AssertionError) (\<lambda>_.
       rbind (ensure (int n \<le> num_freeable_slots c) AssertionError) (\<lambda>_.
       Inr (c\<lparr>cached := (cached c)(h \<mapsto> insert (request_id r) ids),
              num_free_slots := num_free_slots c - int n,
              num_freeable_slots := num_freeable_slots c - int n\<rparr>)))))"

definition get_cached_input_ids :: "request \<Rightarrow> encoder_cache \<Rightarrow> nat list" where
  "get_cached_input_ids r c =
     filter (\<lambda>i. cached c (mm_identifier (mm_features r ! i)) \<noteq> None) [0..<length (mm_features r)]"

definition free_encoder_input :: "request \<Rightarrow> nat \<Rightarrow> encoder_cache \<Rightarrow> encoder_cache result" where
  "free_encoder_input r input_id c =
     rbind (mm_hash_of r input_id) (\<lambda>h.
       case cached c h of
         None \<Rightarrow> Inr c
       | Some ids \<Rightarrow>
           if ids = {} then Inr c
           else
             let ids = ids - {request_id r};
                 c = c\<lparr>cached := (cached c)(h \<mapsto> ids)\<rparr>
             in if ids = {} then
                  rbind (get_num_encoder_embeds r input_id) (\<lambda>n.
                  Inr (c\<lparr>freeable := AList.update h n (freeable c),
                         num_freeable_slots := num_freeable_slots c + int n\<rparr>))
                else Inr c)"

text \<open>The set of input ids is iterated in increasing order, as CPython does for small ints.\<close>

definition enc_free :: "request \<Rightarrow> encoder_cache \<Rightarrow> encoder_cache result" where
  "enc_free r c = rfold (free_encoder_input r) (get_cached_input_ids r c) c"

definition get_freed_mm_hashes :: "encoder_cache \<Rightarrow> string list \<times> encoder_cache" where
  "get_freed_mm_hashes c = (freed c, c\<lparr>freed := []\<rparr>)"

section \<open>The encoder budget\<close>

record mm_scheduler_config =
  disable_chunked_mm_input :: bool
  sc_max_num_batched_tokens :: int
  max_num_encoder_input_tokens :: int
  sc_encoder_cache_size :: int

definition compute_mm_encoder_budget :: "mm_scheduler_config \<Rightarrow> (string \<times> int) list \<Rightarrow> (int \<times> int) result" where
  "compute_mm_encoder_budget cfg mm_max_toks_per_item =
     (if mm_max_toks_per_item = [] then Inr (0, 0)
      else
        let max_tokens_per_mm_item = Max (set (map snd mm_max_toks_per_item))
        in if disable_chunked_mm_input cfg \<and> sc_max_num_batched_tokens cfg < max_tokens_per_mm_item
           then Inl ValueError
           else Inr (max (max_num_encoder_input_tokens cfg) max_tokens_per_mm_item,
                     max (sc_encoder_cache_size cfg) max_tokens_per_mm_item))"

section \<open>EncoderDecoderCacheManager\<close>

record encdec_cache =
  ed_cache_size :: int
  ed_num_free_slots :: int
  allocated :: "string list"
  to_free :: "string list"

definition EncoderDecoderCacheManager :: "int \<Rightarrow> encdec_cache" where
  "EncoderDecoderCacheManager sz =
     \<lparr>ed_cache_size = sz, ed_num_free_slots = sz, allocated = [], to_free = []\<rparr>"

definition ed_reset :: "encdec_cache \<Rightarrow> encdec_cache" where
  "ed_reset c = c\<lparr>ed_num_free_slots := ed_cache_size c, allocated := [], to_free := []\<rparr>"

definition ed_check_and_update_cache :: "request \<Rightarrow> nat \<Rightarrow> encdec_cache \<Rightarrow> bool" where
  "ed_check_and_update_cache r input_id c = False"

definition ed_can_allocate :: "request \<Rightarrow> nat \<Rightarrow> int \<Rightarrow> int \<Rightarrow> encdec_cache \<Rightarrow> bool result" where
  "ed_can_allocate r input_id encoder_compute_budget num_embeds_to_schedule c =
     rbind (get_num_encoder_embeds r input_id) (\<lambda>n.
       if encoder_compute_budget < int n then Inr False
       else Inr (int n + num_embeds_to_schedule \<le> ed_num_free_slots c))"

definition ed_allocate :: "request \<Rightarrow> nat \<Rightarrow> encdec_cache \<Rightarrow> encdec_cache result" where
  "ed_allocate r input_id c =
     rbind (get_num_encoder_embeds r input_id) (\<lambda>n.
     rbind (mm_hash_of r input_id) (\<lambda>h.
     Inr (c\<lparr>ed_num_free_slots := ed_num_free_slots c - int n, allocated := allocated c @ [h]\<rparr>)))"

definition ed_free_encoder_input :: "request \<Rightarrow> nat \<Rightarrow> encdec_cache \<Rightarrow> encdec_cache result" where
  "ed_free_encoder_input r input_id c =
     rbind (get_num_encoder_embeds r input_id) (\<lambda>n. Inr (c\<lparr>ed_num_free_slots := ed_num_free_slots c + int n\<rparr>))"

definition ed_free :: "request \<Rightarrow> encdec_cache \<Rightarrow> encdec_cache result" where
  "ed_free r c = rfold (ed_free_encoder_input r) [0..<length (mm_features r)] c"

definition ed_get_cached_input_ids :: "request \<Rightarrow> nat set" where
  "ed_get_cached_input_ids r = {0..<length (mm_features r)}"

definition ed_get_freed_mm_hashes :: "encdec_cache \<Rightarrow> string list \<times> encdec_cache" where
  "ed_get_freed_mm_hashes c = (to_free c, c\<lparr>to_free := allocated c, allocated := []\<rparr>)"

section \<open>The accounting invariant\<close>

text \<open>
  Every encoder output has a size, a function of its hash: the code relies on equal hashes
  having equal sizes when it frees an entry through another request than the one that
  allocated it.
\<close>

definition sizes_ok :: "(string \<Rightarrow> nat) \<Rightarrow> request \<Rightarrow> bool" where
  "sizes_ok sz r \<longleftrightarrow> (\<forall>i < length (mm_features r).
     get_num_encoder_embeds r i = Inr (sz (mm_identifier (mm_features r ! i))))"

definition held :: "(string \<Rightarrow> nat) \<Rightarrow> string set \<Rightarrow> int" where
  "held sz H = (\<Sum>h \<in> H. int (sz h))"

definition enc_inv :: "(string \<Rightarrow> nat) \<Rightarrow> encoder_cache \<Rightarrow> bool" where
  "enc_inv sz c \<longleftrightarrow>
     finite (dom (cached c)) \<and> distinct (map fst (freeable c)) \<and>
     (\<forall>h. h \<in> fst ` set (freeable c) \<longleftrightarrow> cached c h = Some {}) \<and>
     (\<forall>(h, n) \<in> set (freeable c). n = sz h) \<and>
     num_free_slots c = cache_size c - held sz (dom (cached c)) \<and>
     num_freeable_slots c = num_free_slots c + held sz (fst ` set (freeable c)) \<and>
     0 \<le> num_free_slots c"

lemma held_remove: "finite H \<Longrightarrow> h \<in> H \<Longrightarrow> held sz (H - {h}) = held sz H - int (sz h)"
  by (simp add: held_def sum_diff1)

lemma held_insert: "finite H \<Longrightarrow> h \<notin> H \<Longrightarrow> held sz (insert h H) = held sz H + int (sz h)"
  by (simp add: held_def)

lemma held_nonneg: "0 \<le> held sz H"
  by (simp add: held_def sum_nonneg)

lemma enc_invD:
  assumes "enc_inv sz c"
  shows "finite (dom (cached c))" "distinct (map fst (freeable c))"
    "\<And>h. h \<in> fst ` set (freeable c) \<longleftrightarrow> cached c h = Some {}"
    "\<And>h n. (h, n) \<in> set (freeable c) \<Longrightarrow> n = sz h"
    "num_free_slots c = cache_size c - held sz (dom (cached c))"
    "num_freeable_slots c = num_free_slots c + held sz (fst ` set (freeable c))"
    "0 \<le> num_free_slots c"
  using assms by (auto simp: enc_inv_def)

lemma enc_init_inv: "0 \<le> n \<Longrightarrow> enc_inv sz (EncoderCacheManager n)"
  by (simp add: enc_inv_def EncoderCacheManager_def held_def)

lemma enc_reset_inv: "0 \<le> cache_size c \<Longrightarrow> enc_inv sz (enc_reset c)"
  by (simp add: enc_inv_def enc_reset_def held_def)

lemma check_and_update_spec:
  assumes inv: "enc_inv sz c" and r: "i < length (mm_features r)"
  defines "h \<equiv> mm_identifier (mm_features r ! i)"
  shows "\<exists>c'. check_and_update_cache r i c = Inr (h \<in> dom (cached c), c') \<and> enc_inv sz c'
     \<and> cache_size c' = cache_size c \<and> num_free_slots c' = num_free_slots c
     \<and> cached c' = (if h \<in> dom (cached c) then (cached c)(h \<mapsto> insert (request_id r) (the (cached c h))) else cached c)"
proof (cases "cached c h")
  case None
  then show ?thesis using inv r by (auto simp: check_and_update_cache_def mm_hash_of_def h_def)
next
  case (Some ids)
  note I = enc_invD [OF inv]
  show ?thesis
  proof (cases "ids = {}")
    case True
    then have hf: "h \<in> fst ` set (freeable c)" using Some I(3) by simp
    then obtain n where n: "map_of (freeable c) h = Some n" by (metis map_of_eq_None_iff not_None_eq)
    then have nz: "n = sz h" using I(4) map_of_SomeD by fastforce
    let ?c = "c\<lparr>freeable := AList.delete h (freeable c), num_freeable_slots := num_freeable_slots c - int n,
       cached := (cached c)(h \<mapsto> {request_id r})\<rparr>"
    have keys: "fst ` set (AList.delete h (freeable c)) = fst ` set (freeable c) - {h}"
      using alist_delete_set [OF I(2), of h] by force
    have dom: "insert h (dom (cached c)) = dom (cached c)" using Some by auto
    have del: "distinct (map fst (AList.delete h (freeable c)))" "\<forall>(x, m) \<in> set (AList.delete h (freeable c)). m = sz x"
      using alist_delete_set [OF I(2), of h] I(4) by auto
    have "\<forall>x. x \<in> fst ` set (freeable c) - {h} \<longleftrightarrow> ((cached c)(h \<mapsto> {request_id r})) x = Some {}"
      using I(3) by auto
    then have "enc_inv sz ?c"
      unfolding enc_inv_def using I(1,5-7) hf nz del by (simp add: keys dom held_remove)
    then show ?thesis using Some True n r
      by (auto simp: check_and_update_cache_def mm_hash_of_def h_def [symmetric] domI)
  next
    case False
    have "dom ((cached c)(h \<mapsto> insert (request_id r) ids)) = dom (cached c)" using Some by auto
    then have "enc_inv sz (c\<lparr>cached := (cached c)(h \<mapsto> insert (request_id r) ids)\<rparr>)"
      using I Some False unfolding enc_inv_def by auto
    then show ?thesis using Some False r
      by (auto simp: check_and_update_cache_def mm_hash_of_def h_def [symmetric] domI)
  qed
qed

text \<open>
  Eviction: under the invariant it never runs out of entries when the freeable capacity
  suffices; it removes a prefix of the freeable entries and no more than needed.
\<close>

lemma evict_loop_spec:
  assumes "enc_inv sz c" and "need \<le> num_freeable_slots c"
  shows "\<exists>c' k. evict_loop need c = Inr c' \<and> enc_inv sz c' \<and> need \<le> num_free_slots c'
     \<and> cache_size c' = cache_size c \<and> num_freeable_slots c' = num_freeable_slots c
     \<and> k \<le> length (freeable c) \<and> freeable c' = drop k (freeable c) \<and> freed c' = freed c @ map fst (take k (freeable c))
     \<and> (\<forall>h. cached c' h = (if h \<in> set (map fst (take k (freeable c))) then None else cached c h))
     \<and> (0 < k \<longrightarrow> num_free_slots c + (\<Sum>(h, n) \<leftarrow> take (k - 1) (freeable c). int n) < need)"
  using assms
proof (induction need c rule: evict_loop.induct)
  case (1 need c)
  note I = enc_invD [OF 1(2)]
  show ?case
  proof (cases "need \<le> num_free_slots c")
    case True
    then show ?thesis using 1(2) by (subst evict_loop.simps) (auto intro!: exI [of _ "0::nat"])
  next
    case False
    then have ne: "freeable c \<noteq> []" using 1(3) I(6) by (auto simp: held_def)
    then obtain h n rest where f: "freeable c = (h, n) # rest" by (metis list.exhaust surj_pair)
    have h: "cached c h = Some {}" "n = sz h" "h \<notin> fst ` set rest" using I(2) I(3) [of h] I(4) f by auto
    define c1 where "c1 = c\<lparr>freeable := rest, cached := (cached c)(h := None), freed := freed c @ [h],
        num_free_slots := num_free_slots c + int n\<rparr>"
    have dom: "dom (cached c1) = dom (cached c) - {h}" "h \<in> dom (cached c)" using h(1) by (auto simp: c1_def)
    have I3: "\<And>x. x \<in> fst ` set rest \<longleftrightarrow> cached c1 x = Some {}"
      using I(3) h by (auto simp: f c1_def)
    have hd1: "held sz (fst ` set (freeable c)) = held sz (fst ` set rest) + int (sz h)"
      using h(3) by (simp add: f held_insert)
    have c1: "freeable c1 = rest" "cache_size c1 = cache_size c" "num_free_slots c1 = num_free_slots c + int n"
        "num_freeable_slots c1 = num_freeable_slots c" by (simp_all add: c1_def)
    have "\<forall>(x, m) \<in> set rest. m = sz x" "distinct (map fst rest)" using I(2,4) f by auto
    then have "enc_inv sz c1"
      unfolding enc_inv_def dom(1) c1 using I(1,5-7) h(2) I3 hd1 held_remove [OF I(1) dom(2), of sz] by simp
    moreover have "need \<le> num_freeable_slots c1" using 1(3) by (simp add: c1_def)
    ultimately have "\<exists>c' k. evict_loop need c1 = Inr c' \<and> enc_inv sz c' \<and> need \<le> num_free_slots c'
     \<and> cache_size c' = cache_size c1 \<and> num_freeable_slots c' = num_freeable_slots c1
     \<and> k \<le> length (freeable c1) \<and> freeable c' = drop k (freeable c1) \<and> freed c' = freed c1 @ map fst (take k (freeable c1))
     \<and> (\<forall>h. cached c' h = (if h \<in> set (map fst (take k (freeable c1))) then None else cached c1 h))
     \<and> (0 < k \<longrightarrow> num_free_slots c1 + (\<Sum>(h, n) \<leftarrow> take (k - 1) (freeable c1). int n) < need)"
      unfolding c1_def by (intro 1(1) [OF False f refl]) (use h(1) in simp_all)
    then obtain c' k where k: "evict_loop need c1 = Inr c'" "enc_inv sz c'" "need \<le> num_free_slots c'"
      "cache_size c' = cache_size c1" "num_freeable_slots c' = num_freeable_slots c1"
      "k \<le> length (freeable c1)" "freeable c' = drop k (freeable c1)" "freed c' = freed c1 @ map fst (take k (freeable c1))"
      "\<And>x. cached c' x = (if x \<in> set (map fst (take k (freeable c1))) then None else cached c1 x)"
      "0 < k \<Longrightarrow> num_free_slots c1 + (\<Sum>(h, n) \<leftarrow> take (k - 1) (freeable c1). int n) < need"
      by blast
    moreover have "evict_loop need c = evict_loop need c1"
      using False h(1) by (subst evict_loop.simps) (simp add: f c1_def)
    moreover have "num_free_slots c + (\<Sum>(h, n) \<leftarrow> take k (freeable c). int n) < need"
      using False k(10) by (cases k) (auto simp: c1_def f)
    ultimately show ?thesis
      by (intro exI [of _ c'] exI [of _ "Suc k"]) (auto simp: c1_def f)
  qed
qed

lemma sizes_okD: "sizes_ok sz r \<Longrightarrow> i < length (mm_features r) \<Longrightarrow>
   get_num_encoder_embeds r i = Inr (sz (mm_identifier (mm_features r ! i)))"
  by (simp add: sizes_ok_def)

lemma enc_freeable_ge: "enc_inv sz c \<Longrightarrow> num_free_slots c \<le> num_freeable_slots c"
  using enc_invD(6) [of sz c] held_nonneg [of sz] by simp

lemma allocate_spec:
  assumes inv: "enc_inv sz c" and r: "sizes_ok sz r" "i < length (mm_features r)"
  defines "h \<equiv> mm_identifier (mm_features r ! i)"
  assumes new: "cached c h = None" and room: "int (sz h) \<le> num_free_slots c"
  shows "\<exists>c'. allocate r i c = Inr c' \<and> enc_inv sz c' \<and> cached c' = (cached c)(h \<mapsto> {request_id r})
     \<and> num_free_slots c' = num_free_slots c - int (sz h) \<and> cache_size c' = cache_size c"
proof -
  note I = enc_invD [OF inv]
  let ?c = "c\<lparr>cached := (cached c)(h \<mapsto> {request_id r}), num_free_slots := num_free_slots c - int (sz h),
     num_freeable_slots := num_freeable_slots c - int (sz h)\<rparr>"
  have "h \<notin> dom (cached c)" using new by blast
  then have "held sz (insert h (dom (cached c))) = held sz (dom (cached c)) + int (sz h)"
    using I(1) by (simp add: held_insert)
  moreover have "\<forall>x. x \<in> fst ` set (freeable c) \<longleftrightarrow> ((cached c)(h \<mapsto> {request_id r})) x = Some {}"
    using I(3) new by auto
  ultimately have "enc_inv sz ?c" using I room unfolding enc_inv_def by auto
  moreover have "allocate r i c = Inr ?c"
    using r new room enc_freeable_ge [OF inv] sizes_okD [OF r]
    by (simp add: allocate_def mm_hash_of_def h_def [symmetric])
  ultimately show ?thesis by auto
qed

lemma free_encoder_input_spec:
  assumes inv: "enc_inv sz c" and r: "sizes_ok sz r" "i < length (mm_features r)"
  defines "h \<equiv> mm_identifier (mm_features r ! i)"
  shows "\<exists>c'. free_encoder_input r i c = Inr c' \<and> enc_inv sz c' \<and> num_free_slots c' = num_free_slots c
     \<and> cache_size c' = cache_size c
     \<and> cached c' = (cached c)(h := map_option (\<lambda>ids. ids - {request_id r}) (cached c h))"
proof (cases "cached c h = None \<or> cached c h = Some {}")
  case True
  then have "(cached c)(h := map_option (\<lambda>ids. ids - {request_id r}) (cached c h)) = cached c" by (auto simp: fun_eq_iff)
  then show ?thesis using True inv r
    by (auto simp: free_encoder_input_def mm_hash_of_def h_def [symmetric])
next
  case False
  then obtain ids where ids: "cached c h = Some ids" "ids \<noteq> {}" by auto
  note I = enc_invD [OF inv]
  have dom: "insert h (dom (cached c)) = dom (cached c)" using ids by auto
  have hf: "h \<notin> fst ` set (freeable c)" using I(3) ids by simp
  show ?thesis
  proof (cases "ids - {request_id r} = {}")
    case True
    have up: "AList.update h (sz h) (freeable c) = freeable c @ [(h, sz h)]" using hf by (rule alist_update_fresh)
    let ?c = "c\<lparr>cached := (cached c)(h \<mapsto> {}), freeable := freeable c @ [(h, sz h)],
       num_freeable_slots := num_freeable_slots c + int (sz h)\<rparr>"
    have "\<forall>x. x \<in> insert h (fst ` set (freeable c)) \<longleftrightarrow> ((cached c)(h \<mapsto> {})) x = Some {}" using I(3) by auto
    moreover have "distinct (map fst (freeable c @ [(h, sz h)]))" using I(2) hf by auto
    ultimately have "enc_inv sz ?c"
      using I(1,4-7) dom hf unfolding enc_inv_def by (auto simp: held_insert)
    moreover have "free_encoder_input r i c = Inr ?c"
      using ids r sizes_okD [OF r] up
      by (simp add: free_encoder_input_def mm_hash_of_def h_def [symmetric] Let_def True del: Diff_eq_empty_iff)
    ultimately show ?thesis using ids by (simp add: True del: Diff_eq_empty_iff)
  next
    case False
    let ?c = "c\<lparr>cached := (cached c)(h \<mapsto> ids - {request_id r})\<rparr>"
    have "\<forall>x. x \<in> fst ` set (freeable c) \<longleftrightarrow> ((cached c)(h \<mapsto> ids - {request_id r})) x = Some {}"
      using I(3) False hf by auto
    then have "enc_inv sz ?c" using I dom unfolding enc_inv_def by auto
    moreover have "free_encoder_input r i c = Inr ?c"
      using ids False r by (simp add: free_encoder_input_def mm_hash_of_def h_def [symmetric] Let_def)
    ultimately show ?thesis using ids by auto
  qed
qed

lemma enc_free_spec:
  assumes "enc_inv sz c" and r: "sizes_ok sz r"
  shows "\<exists>c'. enc_free r c = Inr c' \<and> enc_inv sz c' \<and> num_free_slots c' = num_free_slots c \<and> cache_size c' = cache_size c"
  unfolding enc_free_def
  by (rule rfold_total [where P = "\<lambda>c'. enc_inv sz c' \<and> num_free_slots c' = num_free_slots c \<and> cache_size c' = cache_size c"])
    (use assms free_encoder_input_spec [OF _ r] in \<open>fastforce simp: get_cached_input_ids_def\<close>)+

lemma can_allocate_spec:
  assumes inv: "enc_inv sz c" and r: "sizes_ok sz r" "i < length (mm_features r)"
  defines "n \<equiv> int (sz (mm_identifier (mm_features r ! i)))"
  shows "\<exists>c'. can_allocate r i budget scheduled c =
       Inr (n \<le> budget \<and> n + scheduled \<le> max (num_free_slots c) (num_freeable_slots c), c') \<and> enc_inv sz c'
     \<and> cache_size c' = cache_size c \<and> (n \<le> budget \<and> n + scheduled \<le> num_freeable_slots c \<longrightarrow> n + scheduled \<le> num_free_slots c')
     \<and> (\<forall>h. cached c h \<noteq> Some {} \<longrightarrow> cached c' h = cached c h)"
proof (cases "n \<le> budget \<and> num_free_slots c < n + scheduled \<and> n + scheduled \<le> num_freeable_slots c")
  case True
  then obtain c' k where k: "evict_loop (n + scheduled) c = Inr c'" "enc_inv sz c'" "n + scheduled \<le> num_free_slots c'"
      "cache_size c' = cache_size c"
      "\<And>h. cached c' h = (if h \<in> set (map fst (take k (freeable c))) then None else cached c h)"
    using evict_loop_spec [OF inv, of "n + scheduled"] by blast
  have "cached c' h = cached c h" if "cached c h \<noteq> Some {}" for h
  proof -
    have "h \<notin> fst ` set (freeable c)" using that enc_invD(3) [OF inv] by blast
    then have "h \<notin> set (map fst (take k (freeable c)))" by (auto dest: in_set_takeD)
    then show ?thesis using k(5) by simp
  qed
  then show ?thesis
    using True k sizes_okD [OF r] by (auto simp: can_allocate_def n_def Let_def)
next
  case False
  then show ?thesis
    using inv sizes_okD [OF r] enc_freeable_ge [OF inv] by (auto simp: can_allocate_def n_def Let_def max_def)
qed

section \<open>The encoder cache as a state machine\<close>

text \<open>
  The calls the scheduler makes. It allocates an input only if the input is not cached and
  \<^verbatim>\<open>can_allocate\<close> found room for it, with the embeddings of the inputs it has scheduled
  before it in the same request.
\<close>

inductive enc_step :: "(string \<Rightarrow> nat) \<Rightarrow> encoder_cache \<Rightarrow> encoder_cache \<Rightarrow> bool" for sz where
  Check: "i < length (mm_features r) \<Longrightarrow> check_and_update_cache r i c = Inr (hit, c') \<Longrightarrow> enc_step sz c c'"
| Can: "sizes_ok sz r \<Longrightarrow> i < length (mm_features r) \<Longrightarrow> can_allocate r i budget n c = Inr (ans, c') \<Longrightarrow> enc_step sz c c'"
| Allocate: "sizes_ok sz r \<Longrightarrow> i < length (mm_features r) \<Longrightarrow> cached c (mm_identifier (mm_features r ! i)) = None \<Longrightarrow>
    allocate r i c = Inr c' \<Longrightarrow> enc_step sz c c'"
| FreeInput: "sizes_ok sz r \<Longrightarrow> i < length (mm_features r) \<Longrightarrow> free_encoder_input r i c = Inr c' \<Longrightarrow> enc_step sz c c'"
| FreeReq: "sizes_ok sz r \<Longrightarrow> enc_free r c = Inr c' \<Longrightarrow> enc_step sz c c'"
| Freed: "enc_step sz c (snd (get_freed_mm_hashes c))"
| ResetAll: "enc_step sz c (enc_reset c)"

inductive enc_reachable :: "(string \<Rightarrow> nat) \<Rightarrow> int \<Rightarrow> encoder_cache \<Rightarrow> bool" for sz n where
  Start: "enc_reachable sz n (EncoderCacheManager n)"
| Next: "enc_reachable sz n c \<Longrightarrow> enc_step sz c c' \<Longrightarrow> enc_reachable sz n c'"

lemma enc_step_inv:
  assumes "enc_step sz c c'" and inv: "enc_inv sz c" and n: "0 \<le> cache_size c"
  shows "enc_inv sz c' \<and> cache_size c' = cache_size c"
  using assms(1)
proof cases
  case (Check i r hit)
  then show ?thesis using check_and_update_spec [OF inv Check(1)] by auto
next
  case (Can r i budget m ans)
  then show ?thesis using can_allocate_spec [OF inv Can(1,2), of budget m] by auto
next
  case (Allocate r i)
  have "int (sz (mm_identifier (mm_features r ! i))) \<le> num_free_slots c"
    using Allocate(2,4) sizes_okD [OF Allocate(1,2)] by (auto simp: allocate_def rbind_eq_Inr Let_def)
  then show ?thesis using allocate_spec [OF inv Allocate(1-3)] Allocate(4) by auto
next
  case (FreeInput r i)
  then show ?thesis using free_encoder_input_spec [OF inv FreeInput(1,2)] by auto
next
  case (FreeReq r)
  then show ?thesis using enc_free_spec [OF inv FreeReq(1)] by auto
next
  case Freed
  then show ?thesis using inv by (simp add: get_freed_mm_hashes_def enc_inv_def)
next
  case ResetAll
  then show ?thesis using enc_reset_inv [OF n] by (simp add: enc_reset_def)
qed

lemma enc_reachable_inv: "enc_reachable sz n c \<Longrightarrow> 0 \<le> n \<Longrightarrow> enc_inv sz c \<and> cache_size c = n"
proof (induction rule: enc_reachable.induct)
  case Start
  then show ?case by (simp add: enc_init_inv) (simp add: EncoderCacheManager_def)
next
  case (Next c c')
  then show ?case using enc_step_inv [OF Next(2)] by simp
qed

text \<open>
  C18. The encoder cache never overcommits: in every reachable state the embeddings of all
  cached entries fit in the cache, \<^verbatim>\<open>num_free_slots\<close> is exactly the capacity they leave,
  \<^verbatim>\<open>num_freeable_slots\<close> is the capacity left by the entries some request references,
  and \<^verbatim>\<open>freeable\<close> lists, once each, the entries no request references.
\<close>

theorem encoder_cache_accounting:
  assumes "enc_reachable sz n c" and "0 \<le> n"
  shows "held sz (dom (cached c)) \<le> n \<and> num_free_slots c = n - held sz (dom (cached c))
     \<and> num_freeable_slots c = n - held sz {h. \<exists>ids. cached c h = Some ids \<and> ids \<noteq> {}}
     \<and> distinct (map fst (freeable c)) \<and> set (map fst (freeable c)) = {h. cached c h = Some {}}"
proof -
  have inv: "enc_inv sz c" and size: "cache_size c = n" using enc_reachable_inv [OF assms] by auto
  note I = enc_invD [OF inv]
  have F: "fst ` set (freeable c) = {h. cached c h = Some {}}" using I(3) by blast
  have D: "dom (cached c) = {h. \<exists>ids. cached c h = Some ids \<and> ids \<noteq> {}} \<union> {h. cached c h = Some {}}" by auto
  have "finite {h. cached c h = Some {}}" "finite {h. \<exists>ids. cached c h = Some ids \<and> ids \<noteq> {}}"
    by (rule finite_subset [OF _ I(1)], use D in blast)+
  then have "held sz (dom (cached c)) = held sz {h. \<exists>ids. cached c h = Some ids \<and> ids \<noteq> {}} + held sz {h. cached c h = Some {}}"
    unfolding held_def D by (intro sum.union_disjoint) auto
  then show ?thesis using I F size by (auto simp: F)
qed

definition image_request :: "string \<Rightarrow> string \<Rightarrow> nat \<Rightarrow> request \<Rightarrow> request" where
  "image_request rid img n r = r\<lparr>request_id := rid, mm_features :=
     [\<lparr>modality = ''image'', mm_identifier = img, mm_position = \<lparr>offset = 0, plen = n, is_embed = None\<rparr>\<rparr>]\<rparr>"

lemma image_request_sizes: "n = sz img \<Longrightarrow> sizes_ok sz (image_request rid img n r)"
  by (simp add: sizes_ok_def image_request_def get_num_encoder_embeds_def get_num_embeds_def embeds_cumsum_def)

theorem encoder_cache_accounting_witness:
  "\<exists>c :: encoder_cache. num_free_slots c = 6 \<and> num_freeable_slots c = 6 \<and> cached c = [''a'' \<mapsto> {''r''}]"
proof -
  let ?r = "image_request ''r'' ''a'' 4 (sample_request [1, 2, 3, 4] 2)" and ?sz = "\<lambda>_. 4" and ?c = "EncoderCacheManager 10"
  obtain c where c: "allocate ?r 0 ?c = Inr c" "cached c = [''a'' \<mapsto> {''r''}]"
    by (auto simp: allocate_def mm_hash_of_def image_request_def get_num_encoder_embeds_def get_num_embeds_def
        embeds_cumsum_def EncoderCacheManager_def Let_def)
  have "enc_step ?sz ?c c"
    by (rule enc_step.Allocate [OF image_request_sizes _ _ c(1)])
      (simp_all add: image_request_def EncoderCacheManager_def)
  then have "enc_reachable ?sz 10 c" by (rule enc_reachable.Next [OF enc_reachable.Start])
  from encoder_cache_accounting [OF this] c(2) show ?thesis
    by (intro exI [of _ c]) (auto simp: held_def)
qed

text \<open>
  C19. \<^verbatim>\<open>can_allocate\<close> terminates without an exception and answers yes exactly if the
  input fits the compute budget and, with what is already scheduled, the capacity that is
  free or can be reclaimed. After a yes there is enough free capacity, every entry that
  some request references is still cached, and \<^verbatim>\<open>allocate\<close> succeeds.
\<close>

theorem can_allocate_then_allocate:
  assumes inv: "enc_inv sz c" and r: "sizes_ok sz r" "i < length (mm_features r)" and "0 \<le> scheduled"
  defines "h \<equiv> mm_identifier (mm_features r ! i)"
  assumes "cached c h = None"
  shows "\<exists>c'. can_allocate r i budget scheduled c =
       Inr (int (sz h) \<le> budget \<and> int (sz h) + scheduled \<le> num_freeable_slots c, c') \<and> enc_inv sz c'
     \<and> (\<forall>x ids. cached c x = Some ids \<and> ids \<noteq> {} \<longrightarrow> cached c' x = Some ids)
     \<and> (int (sz h) \<le> budget \<and> int (sz h) + scheduled \<le> num_freeable_slots c \<longrightarrow>
          int (sz h) + scheduled \<le> num_free_slots c' \<and>
          (\<exists>c''. allocate r i c' = Inr c'' \<and> enc_inv sz c'' \<and> scheduled \<le> num_free_slots c''))"
proof -
  obtain c' where c': "can_allocate r i budget scheduled c =
       Inr (int (sz h) \<le> budget \<and> int (sz h) + scheduled \<le> max (num_free_slots c) (num_freeable_slots c), c')" "enc_inv sz c'"
      "int (sz h) \<le> budget \<and> int (sz h) + scheduled \<le> num_freeable_slots c \<longrightarrow> int (sz h) + scheduled \<le> num_free_slots c'"
      "\<forall>x. cached c x \<noteq> Some {} \<longrightarrow> cached c' x = cached c x"
    using can_allocate_spec [OF inv r, of budget scheduled] by (auto simp: h_def)
  have "cached c' h = None" using c'(4) assms(6) by simp
  moreover have "max (num_free_slots c) (num_freeable_slots c) = num_freeable_slots c"
    using enc_freeable_ge [OF inv] by simp
  ultimately show ?thesis
    using c' allocate_spec [OF c'(2) r] assms(4) unfolding h_def by auto
qed

theorem can_allocate_then_allocate_witness:
  "\<exists>c'. can_allocate (image_request ''r'' ''a'' 4 (sample_request [1, 2, 3, 4] 2)) 0 8 3 (EncoderCacheManager 10) = Inr (True, c')
     \<and> (\<exists>c''. allocate (image_request ''r'' ''a'' 4 (sample_request [1, 2, 3, 4] 2)) 0 c' = Inr c'')"
  using can_allocate_then_allocate [OF enc_init_inv [of 10] image_request_sizes [of 4 "\<lambda>_. 4" "''a''" "''r''" "sample_request [1, 2, 3, 4] 2"], of 0 3 8]
  by (auto simp: image_request_def EncoderCacheManager_def)

end
