(* ===== verification/Request_Queue.thy ===== *)
theory Request_Queue
  imports Request_Model "HOL-Library.Multiset"
begin

text \<open>
  The waiting queues of \<^verbatim>\<open>src/vllm/v1/core/sched/request_queue.py\<close>: first come first
  served on a \<^verbatim>\<open>deque\<close>, and priority order on a binary heap kept by Python's
  \<^verbatim>\<open>heapq\<close>, whose list algorithms are written out here. Requests are compared as
  objects, by identity, where the code uses \<^verbatim>\<open>==\<close> and sets.
\<close>

section \<open>heapq\<close>

definition par :: "nat \<Rightarrow> nat" where
  "par i = (i - 1) div 2"

text \<open>\<^verbatim>\<open>_siftdown\<close>: move the new item towards the root until its parent is not larger.\<close>

function siftdown :: "('a \<Rightarrow> 'a \<Rightarrow> bool) \<Rightarrow> 'a list \<Rightarrow> nat \<Rightarrow> nat \<Rightarrow> 'a \<Rightarrow> 'a list" where
  "siftdown lt h startpos pos newitem =
     (if startpos < pos \<and> lt newitem (h ! par pos)
      then siftdown lt (h[pos := h ! par pos]) startpos (par pos) newitem
      else h[pos := newitem])"
  by pat_completeness auto
termination
  by (relation "measure (\<lambda>(_, _, _, pos, _). pos)") (auto simp: par_def)

text \<open>\<^verbatim>\<open>_siftup\<close>: bubble up the smaller child until a leaf is reached, then sift the item down.\<close>

definition min_child :: "('a \<Rightarrow> 'a \<Rightarrow> bool) \<Rightarrow> 'a list \<Rightarrow> nat \<Rightarrow> nat" where
  "min_child lt h pos =
     (let c = 2 * pos + 1
      in if c + 1 < length h \<and> \<not> lt (h ! c) (h ! (c + 1)) then c + 1 else c)"

function siftup_loop :: "('a \<Rightarrow> 'a \<Rightarrow> bool) \<Rightarrow> 'a list \<Rightarrow> nat \<Rightarrow> 'a list \<times> nat" where
  "siftup_loop lt h pos =
     (if 2 * pos + 1 < length h
      then siftup_loop lt (h[pos := h ! min_child lt h pos]) (min_child lt h pos)
      else (h, pos))"
  by pat_completeness auto
termination
  by (relation "measure (\<lambda>(_, h, pos). length h - pos)") (auto simp: min_child_def Let_def)

declare siftdown.simps [simp del] siftup_loop.simps [simp del]

definition siftup :: "('a \<Rightarrow> 'a \<Rightarrow> bool) \<Rightarrow> 'a list \<Rightarrow> nat \<Rightarrow> 'a list" where
  "siftup lt h pos = (let (h', p) = siftup_loop lt h pos in siftdown lt (h'[p := h ! pos]) pos p (h ! pos))"

definition heappush :: "('a \<Rightarrow> 'a \<Rightarrow> bool) \<Rightarrow> 'a list \<Rightarrow> 'a \<Rightarrow> 'a list" where
  "heappush lt h x = siftdown lt (h @ [x]) 0 (length h) x"

definition heappop :: "('a \<Rightarrow> 'a \<Rightarrow> bool) \<Rightarrow> 'a list \<Rightarrow> ('a \<times> 'a list) result" where
  "heappop lt h =
     (if h = [] then Inl IndexError
      else
        let lastelt = last h;
            h' = butlast h
        in if h' = [] then Inr (lastelt, [])
           else Inr (hd h', siftup lt (h'[0 := lastelt]) 0))"

definition heapify :: "('a \<Rightarrow> 'a \<Rightarrow> bool) \<Rightarrow> 'a list \<Rightarrow> 'a list" where
  "heapify lt h = fold (\<lambda>i h. siftup lt h i) (rev [0..<length h div 2]) h"

section \<open>FCFSRequestQueue\<close>

definition same_object :: "request \<Rightarrow> request \<Rightarrow> bool" where
  "same_object a b \<longleftrightarrow> object_id a = object_id b"

definition fcfs_add_request :: "request \<Rightarrow> request list \<Rightarrow> request list" where
  "fcfs_add_request r q = q @ [r]"

definition fcfs_pop_request :: "request list \<Rightarrow> (request \<times> request list) result" where
  "fcfs_pop_request q = (case q of [] \<Rightarrow> Inl IndexError | r # q' \<Rightarrow> Inr (r, q'))"

definition fcfs_peek_request :: "request list \<Rightarrow> request result" where
  "fcfs_peek_request q = (case q of [] \<Rightarrow> Inl IndexError | r # _ \<Rightarrow> Inr r)"

definition fcfs_prepend_request :: "request \<Rightarrow> request list \<Rightarrow> request list" where
  "fcfs_prepend_request r q = r # q"

text \<open>\<^verbatim>\<open>deque.extendleft\<close> appends the elements one by one on the left.\<close>

definition fcfs_prepend_requests :: "request list \<Rightarrow> request list \<Rightarrow> request list" where
  "fcfs_prepend_requests rs q = fold (\<lambda>r q. r # q) rs q"

fun remove_object :: "request \<Rightarrow> request list \<Rightarrow> request list result" where
  "remove_object r [] = Inl ValueError"
| "remove_object r (x # q) = (if same_object x r then Inr q else rbind (remove_object r q) (\<lambda>q. Inr (x # q)))"

definition fcfs_remove_request :: "request \<Rightarrow> request list \<Rightarrow> request list result" where
  "fcfs_remove_request r q = remove_object r q"

definition fcfs_remove_requests :: "request list \<Rightarrow> request list \<Rightarrow> request list" where
  "fcfs_remove_requests rs q = filter (\<lambda>x. \<not> list_ex (same_object x) rs) q"

section \<open>PriorityRequestQueue\<close>

definition prio_add_request :: "request \<Rightarrow> request list \<Rightarrow> request list" where
  "prio_add_request r q = heappush request_lt q r"

definition prio_pop_request :: "request list \<Rightarrow> (request \<times> request list) result" where
  "prio_pop_request q = (if q = [] then Inl IndexError else heappop request_lt q)"

definition prio_peek_request :: "request list \<Rightarrow> request result" where
  "prio_peek_request q = (if q = [] then Inl IndexError else Inr (q ! 0))"

definition prio_prepend_request :: "request \<Rightarrow> request list \<Rightarrow> request list" where
  "prio_prepend_request r q = prio_add_request r q"

definition prio_prepend_requests :: "request list \<Rightarrow> request list \<Rightarrow> request list" where
  "prio_prepend_requests rs q = fold prio_add_request rs q"

definition prio_remove_request :: "request \<Rightarrow> request list \<Rightarrow> request list result" where
  "prio_remove_request r q = rbind (remove_object r q) (\<lambda>q. Inr (heapify request_lt q))"

definition prio_remove_requests :: "request list \<Rightarrow> request list \<Rightarrow> request list" where
  "prio_remove_requests rs q = heapify request_lt (filter (\<lambda>x. \<not> list_ex (same_object x) rs) q)"

text \<open>Iteration pops from a copy of the heap until it is empty; the number of pops is its length.\<close>

fun heap_drain :: "('a \<Rightarrow> 'a \<Rightarrow> bool) \<Rightarrow> nat \<Rightarrow> 'a list \<Rightarrow> 'a list result" where
  "heap_drain lt 0 h = Inr []"
| "heap_drain lt (Suc n) h =
     (if h = [] then Inr []
      else rbind (heappop lt h) (\<lambda>(x, h). rbind (heap_drain lt n h) (\<lambda>xs. Inr (x # xs))))"

definition prio_iter :: "request list \<Rightarrow> request list result" where
  "prio_iter q = heap_drain request_lt (length q) q"

datatype scheduling_policy = FCFS | PRIORITY

section \<open>Heap invariants\<close>

text \<open>
  \<open>heap_from\<close> says that the heap order holds at and below index \<open>k\<close>; \<open>heap_up\<close> allows
  position \<open>p\<close> to be smaller than its parent; \<open>heap_hole\<close> leaves position \<open>p\<close> out altogether.
\<close>

definition heap_from :: "('a \<Rightarrow> 'a \<Rightarrow> bool) \<Rightarrow> nat \<Rightarrow> 'a list \<Rightarrow> bool" where
  "heap_from lt k h \<longleftrightarrow> (\<forall>i. 0 < i \<and> i < length h \<and> k \<le> par i \<longrightarrow> \<not> lt (h ! i) (h ! par i))"

definition heap_up :: "('a \<Rightarrow> 'a \<Rightarrow> bool) \<Rightarrow> nat \<Rightarrow> nat \<Rightarrow> 'a list \<Rightarrow> bool" where
  "heap_up lt k p h \<longleftrightarrow>
     (\<forall>i. 0 < i \<and> i < length h \<and> k \<le> par i \<and> i \<noteq> p \<longrightarrow> \<not> lt (h ! i) (h ! par i)) \<and>
     (\<forall>i. 0 < i \<and> i < length h \<and> par i = p \<and> k < p \<longrightarrow> \<not> lt (h ! i) (h ! par p))"

definition heap_hole :: "('a \<Rightarrow> 'a \<Rightarrow> bool) \<Rightarrow> nat \<Rightarrow> nat \<Rightarrow> 'a list \<Rightarrow> bool" where
  "heap_hole lt k p h \<longleftrightarrow>
     (\<forall>i. 0 < i \<and> i < length h \<and> k \<le> par i \<and> i \<noteq> p \<and> par i \<noteq> p \<longrightarrow> \<not> lt (h ! i) (h ! par i)) \<and>
     (\<forall>i. 0 < i \<and> i < length h \<and> par i = p \<and> k < p \<longrightarrow> \<not> lt (h ! i) (h ! par p))"

inductive below :: "nat \<Rightarrow> nat \<Rightarrow> bool" for k where
  Here: "below k k"
| Child: "below k (par p) \<Longrightarrow> 0 < p \<Longrightarrow> below k p"

lemma par_less: "0 < p \<Longrightarrow> par p < p"
  by (simp add: par_def)

lemma par_iff: "0 < i \<Longrightarrow> par i = p \<longleftrightarrow> i = 2 * p + 1 \<or> i = 2 * p + 2"
  by (auto simp: par_def)

lemma below_ge: "below k p \<Longrightarrow> k \<le> p"
  by (induction rule: below.induct) (auto dest: par_less)

lemma below_par: "below k p \<Longrightarrow> k < p \<Longrightarrow> below k (par p) \<and> k \<le> par p"
  by (cases rule: below.cases) (auto dest: below_ge)

lemma below_0: "below 0 p"
proof (induction p rule: less_induct)
  case (less p)
  then show ?case by (cases "p = 0") (auto intro: below.intros simp: par_less)
qed

lemma length_siftdown [simp]: "length (siftdown lt h s p x) = length h"
  by (induction lt h s p x rule: siftdown.induct) (simp add: siftdown.simps)

lemma mset_siftdown: "p < length h \<Longrightarrow> mset (siftdown lt h s p x) = mset (h[p := x])"
proof (induction lt h s p x rule: siftdown.induct)
  case (1 lt h s p x)
  show ?case
  proof (cases "s < p \<and> lt x (h ! par p)")
    case True
    let ?h = "h[p := x]"
    have pp: "par p < p" using True by (simp add: par_less)
    have "mset (siftdown lt h s p x) = mset ((h[p := h ! par p])[par p := x])"
      using 1 True pp by (subst siftdown.simps) simp
    also have "(h[p := h ! par p])[par p := x] = ?h[p := ?h ! par p, par p := ?h ! p]"
      using 1(2) pp by (simp add: list_update_swap)
    also have "mset \<dots> = mset ?h" using 1(2) pp by (intro mset_swap) auto
    finally show ?thesis .
  next
    case False
    then show ?thesis by (subst siftdown.simps) auto
  qed
qed

text \<open>
  What is in a heap does not depend on its order: these facts need no heap invariant and
  no property of the comparison.
\<close>

lemma min_child_range:
  "2 * p + 1 < length h \<Longrightarrow> min_child lt h p < length h \<and> p < min_child lt h p"
  by (auto simp: min_child_def Let_def)

lemma siftup_loop_mset:
  assumes "p < length h" and "siftup_loop lt h p = (h', q)"
  shows "q < length h' \<and> length h' = length h \<and> mset (h'[q := x]) = mset (h[p := x])"
  using assms
proof (induction "length h - p" arbitrary: h p rule: less_induct)
  case less
  show ?case
  proof (cases "2 * p + 1 < length h")
    case False
    then show ?thesis using less.prems by (subst (asm) siftup_loop.simps) auto
  next
    case True
    let ?c = "min_child lt h p" and ?h = "h[p := h ! min_child lt h p]"
    note C = min_child_range [OF True, of lt]
    have rec: "siftup_loop lt ?h ?c = (h', q)" using less.prems(2) True by (subst (asm) siftup_loop.simps) simp
    have dec: "length ?h - ?c < length h - p" using C less.prems(1) by (simp add: diff_less_mono2)
    have IH: "q < length h' \<and> length h' = length ?h \<and> mset (h'[q := x]) = mset (?h[?c := x])"
      using less.hyps [OF dec _ rec] C by simp
    let ?g = "h[p := x]"
    have "?h[?c := x] = ?g[p := ?g ! ?c, ?c := ?g ! p]" using C less.prems(1) by (simp add: list_update_swap)
    also have "mset \<dots> = mset ?g" using C less.prems(1) by (intro mset_swap) auto
    finally show ?thesis using IH by simp
  qed
qed

lemma siftup_mset: "k < length h \<Longrightarrow> mset (siftup lt h k) = mset h \<and> length (siftup lt h k) = length h"
proof -
  assume k: "k < length h"
  obtain h' q where L: "siftup_loop lt h k = (h', q)" by fastforce
  note S = siftup_loop_mset [OF k L, of "h ! k"]
  then show ?thesis by (simp add: siftup_def L mset_siftdown)
qed

lemma heappush_mset: "mset (heappush lt h x) = add_mset x (mset h)"
  unfolding heappush_def by (subst mset_siftdown) auto

lemma mset_hd_update: "h \<noteq> [] \<Longrightarrow> add_mset (h ! 0) (mset (h[0 := x])) = add_mset x (mset h)"
  by (cases h) auto

lemma heappop_mset:
  assumes "h \<noteq> []"
  shows "\<exists>h'. heappop lt h = Inr (h ! 0, h') \<and> mset h = add_mset (h ! 0) (mset h')"
proof (cases h rule: rev_cases)
  case (snoc b x)
  show ?thesis
  proof (cases "b = []")
    case False
    then have "mset (siftup lt (b[0 := x]) 0) = mset (b[0 := x])" by (simp add: siftup_mset)
    moreover have "h ! 0 = b ! 0" using snoc False by (simp add: nth_append)
    ultimately show ?thesis using snoc False mset_hd_update [of b x] by (auto simp: heappop_def Let_def hd_conv_nth)
  qed (use snoc in \<open>simp add: heappop_def\<close>)
qed (use assms in simp)

lemma heapify_mset: "mset (heapify lt h) = mset h"
proof -
  have F: "mset (fold (\<lambda>i h. siftup lt h i) is g) = mset g" if "\<forall>i \<in> set is. i < length g" for "is" g
    using that by (induction "is" arbitrary: g) (auto simp: siftup_mset)
  show ?thesis unfolding heapify_def by (rule F) auto
qed

lemma heap_drain_mset: "\<exists>xs. heap_drain lt (length h) h = Inr xs \<and> mset xs = mset h"
proof (induction "length h" arbitrary: h)
  case (Suc n)
  then have "h \<noteq> []" by auto
  then obtain h' where h': "heappop lt h = Inr (h ! 0, h')" "mset h = add_mset (h ! 0) (mset h')" using heappop_mset by blast
  then have "n = length h'" using Suc.hyps(2) by (metis add_right_cancel size_add_mset size_mset Suc_eq_plus1)
  then obtain xs where "heap_drain lt n h' = Inr xs" "mset xs = mset h'" using Suc.hyps(1) by auto
  then show ?case using h' \<open>h \<noteq> []\<close> unfolding Suc.hyps(2) [symmetric] by auto
qed simp

text \<open>The comparisons of a heap: a strict weak order.\<close>

locale weak_order =
  fixes lt :: "'a \<Rightarrow> 'a \<Rightarrow> bool"
  assumes lt_asym: "lt a b \<Longrightarrow> \<not> lt b a"
    and lt_neg_trans: "\<not> lt b a \<Longrightarrow> \<not> lt c b \<Longrightarrow> \<not> lt c a"
begin

lemma siftdown_heap:
  assumes "heap_up lt k p (h[p := x])" and "below k p" and "p < length h"
  shows "heap_from lt k (siftdown lt h k p x)"
  using assms
proof (induction p arbitrary: h rule: less_induct)
  case (less p)
  show ?case
  proof (cases "k < p \<and> lt x (h ! par p)")
    case True
    let ?q = "par p" and ?h' = "h[p := h ! par p]"
    have q: "?q < p" "below k ?q" "k \<le> ?q" using below_par [OF less.prems(2)] True by (auto simp: par_less)
    have U: "\<And>i. 0 < i \<Longrightarrow> i < length h \<Longrightarrow> k \<le> par i \<Longrightarrow> i \<noteq> p \<Longrightarrow> \<not> lt (h[p := x] ! i) (h[p := x] ! par i)"
      and V: "\<And>i. 0 < i \<Longrightarrow> i < length h \<Longrightarrow> par i = p \<Longrightarrow> \<not> lt (h[p := x] ! i) (h[p := x] ! ?q)"
      using less.prems(1) True by (auto simp: heap_up_def)
    have "heap_up lt k ?q (?h'[?q := x])"
      unfolding heap_up_def
    proof (intro conjI allI impI, goal_cases)
      case (1 i)
      then have i: "0 < i" "i < length h" "k \<le> par i" "i \<noteq> ?q" by auto
      show ?case
      proof (cases "i = p")
        case True
        then show ?thesis using q less.prems(3) \<open>k < p \<and> lt x (h ! par p)\<close> lt_asym by (auto simp: nth_list_update)
      next
        case False
        consider "par i = p" | "par i = ?q" | "par i \<noteq> p" "par i \<noteq> ?q" by blast
        then show ?thesis
        proof cases
          case 1
          then show ?thesis using V [of i] i False q less.prems(3) by (auto simp: nth_list_update)
        next
          case 2
          have "\<not> lt (h ! i) (h ! ?q)" using U [of i] i False 2 q by (auto simp: nth_list_update)
          moreover have "\<not> lt (h ! ?q) x" using True lt_asym by blast
          ultimately show ?thesis using lt_neg_trans [of "h ! ?q" x "h ! i"] 2 i False q less.prems(3) by (auto simp: nth_list_update)
        next
          case 3
          then show ?thesis using U [of i] i False by (auto simp: nth_list_update)
        qed
      qed
    next
      case (2 i)
      then have i: "0 < i" "i < length h" "par i = ?q" "k < ?q" by auto
      have pq: "par ?q < ?q" "k \<le> par ?q" using i(4) below_par [OF q(2)] by (auto simp: par_less)
      have root: "\<not> lt (h ! ?q) (h ! par ?q)"
        using U [of ?q] q pq less.prems(3) i(4) by (auto simp: nth_list_update)
      show ?case
      proof (cases "i = p")
        case True
        then show ?thesis using root pq q less.prems(3) by (auto simp: nth_list_update)
      next
        case False
        have "\<not> lt (h ! i) (h ! ?q)" using U [of i] i False q by (auto simp: nth_list_update)
        then show ?thesis using lt_neg_trans [OF root] i False pq q par_less [of i] by (auto simp: nth_list_update)
      qed
    qed
    then have "heap_from lt k (siftdown lt ?h' k ?q x)" using less.IH [of ?q ?h'] q less.prems(3) by simp
    then show ?thesis using True by (subst siftdown.simps) simp
  next
    case False
    have "heap_from lt k (h[p := x])"
      unfolding heap_from_def
    proof (intro allI impI)
      fix i assume i: "0 < i \<and> i < length (h[p := x]) \<and> k \<le> par i"
      show "\<not> lt (h[p := x] ! i) (h[p := x] ! par i)"
      proof (cases "i = p")
        case True
        then have "k < p" using i par_less [of p] by auto
        then show ?thesis using False True i par_less [of p] by (auto simp: nth_list_update)
      next
        case False
        then show ?thesis using less.prems(1) i by (auto simp: heap_up_def)
      qed
    qed
    then show ?thesis using False by (subst siftdown.simps) auto
  qed
qed

lemma min_child_props:
  assumes "2 * p + 1 < length h"
  shows "min_child lt h p < length h" "0 < min_child lt h p" "par (min_child lt h p) = p" "p < min_child lt h p"
    "\<And>i. 0 < i \<Longrightarrow> i < length h \<Longrightarrow> par i = p \<Longrightarrow> \<not> lt (h ! i) (h ! min_child lt h p)"
proof -
  show "min_child lt h p < length h" "0 < min_child lt h p" "par (min_child lt h p) = p" "p < min_child lt h p"
    using assms by (auto simp: min_child_def Let_def par_def)
  fix i assume i: "0 < i" "i < length h" "par i = p"
  then have "i = 2 * p + 1 \<or> i = 2 * p + 2" using par_iff by blast
  then show "\<not> lt (h ! i) (h ! min_child lt h p)"
    using i(2) lt_asym [of "h ! (2 * p + 1)" "h ! (2 * p + 2)"] lt_asym [of "h ! i" "h ! i"]
    by (auto simp: min_child_def Let_def split: if_splits)
qed

lemma hole_descend:
  assumes hole: "heap_hole lt k p h" and bl: "below k p" and p: "2 * p + 1 < length h"
  shows "heap_hole lt k (min_child lt h p) (h[p := h ! min_child lt h p])"
proof -
  let ?c = "min_child lt h p"
  note C = min_child_props [OF p]
  have A: "\<And>i. 0 < i \<Longrightarrow> i < length h \<Longrightarrow> k \<le> par i \<Longrightarrow> i \<noteq> p \<Longrightarrow> par i \<noteq> p \<Longrightarrow> \<not> lt (h ! i) (h ! par i)"
    and B: "\<And>i. 0 < i \<Longrightarrow> i < length h \<Longrightarrow> par i = p \<Longrightarrow> k < p \<Longrightarrow> \<not> lt (h ! i) (h ! par p)"
    using hole by (auto simp: heap_hole_def)
  have pl: "p < length h" using p by simp
  show ?thesis
    unfolding heap_hole_def
  proof (intro conjI allI impI, goal_cases)
    case (1 i)
    then have i: "0 < i" "i < length h" "k \<le> par i" "i \<noteq> ?c" "par i \<noteq> ?c" by auto
    consider "i = p" | "par i = p" "i \<noteq> p" | "i \<noteq> p" "par i \<noteq> p" by blast
    then show ?case
    proof cases
      case 1
      then have "k < p" using i(1,3) par_less [of p] by simp
      then show ?thesis using B [of ?c] C 1 i(1) pl par_less [of p] by (auto simp: nth_list_update)
    next
      case 2
      then show ?thesis using C(5) [of i] i pl by (auto simp: nth_list_update)
    next
      case 3
      then show ?thesis using A [of i] i by (auto simp: nth_list_update)
    qed
  next
    case (2 i)
    then have i: "0 < i" "i < length h" "par i = ?c" by auto
    have "i \<noteq> p" "k \<le> ?c" using par_less [OF i(1)] i(3) C(4) below_ge [OF bl] by auto
    then have "\<not> lt (h ! i) (h ! ?c)" using A [of i] i C(4) by auto
    then show ?case using C(3) pl \<open>i \<noteq> p\<close> by (auto simp: nth_list_update)
  qed
qed

lemma siftup_loop_spec:
  assumes "heap_hole lt k p h" and "below k p" and "p < length h" and "siftup_loop lt h p = (h', q)"
  shows "heap_hole lt k q h' \<and> below k q \<and> q < length h' \<and> length h' = length h \<and> length h \<le> 2 * q + 1
     \<and> mset (h'[q := x]) = mset (h[p := x])"
  using assms
proof (induction "length h - p" arbitrary: h p rule: less_induct)
  case less
  show ?case
  proof (cases "2 * p + 1 < length h")
    case False
    then show ?thesis using less.prems by (subst (asm) siftup_loop.simps) auto
  next
    case True
    let ?c = "min_child lt h p" and ?h = "h[p := h ! min_child lt h p]"
    note C = min_child_props [OF True]
    have rec: "siftup_loop lt ?h ?c = (h', q)" using less.prems(4) True by (subst (asm) siftup_loop.simps) simp
    have dec: "length ?h - ?c < length h - p" using C(4) less.prems(3) by simp
    have "below k ?c" by (rule below.Child) (use C less.prems(2) in auto)
    then have IH: "heap_hole lt k q h' \<and> below k q \<and> q < length h' \<and> length h' = length ?h \<and> length ?h \<le> 2 * q + 1
       \<and> mset (h'[q := x]) = mset (?h[?c := x])"
      using less.hyps [OF dec hole_descend [OF less.prems(1,2) True] _ _ rec] C(1) by simp
    let ?g = "h[p := x]"
    have "?h[?c := x] = ?g[p := ?g ! ?c, ?c := ?g ! p]"
      using C less.prems(3) by (simp add: list_update_swap)
    also have "mset \<dots> = mset ?g" using C less.prems(3) by (intro mset_swap) auto
    finally show ?thesis using IH by simp
  qed
qed

lemma siftup_heap:
  assumes "heap_from lt (Suc k) h" and "k < length h"
  shows "heap_from lt k (siftup lt h k) \<and> mset (siftup lt h k) = mset h \<and> length (siftup lt h k) = length h"
proof -
  obtain h' q where L: "siftup_loop lt h k = (h', q)" by fastforce
  have hole: "heap_hole lt k k h"
    using assms(1) by (auto simp: heap_hole_def heap_from_def)
  note S = siftup_loop_spec [OF hole below.Here assms(2) L, of "h ! k"]
  have "heap_up lt k q ((h'[q := h ! k])[q := h ! k])"
    unfolding heap_up_def
  proof (intro conjI allI impI, goal_cases)
    case (1 i)
    then have "par i \<noteq> q" using S par_iff [of i q] by auto
    then show ?case using 1 S by (auto simp: heap_hole_def nth_list_update)
  next
    case (2 i)
    then show ?case using S par_iff [of i q] by auto
  qed
  then have "heap_from lt k (siftdown lt (h'[q := h ! k]) k q (h ! k))"
    by (rule siftdown_heap) (use S in auto)
  then show ?thesis using S by (simp add: siftup_def L mset_siftdown)
qed

lemma heappush_heap:
  assumes "heap_from lt 0 h"
  shows "heap_from lt 0 (heappush lt h x)" "mset (heappush lt h x) = add_mset x (mset h)"
proof -
  have "heap_up lt 0 (length h) ((h @ [x])[length h := x])"
    unfolding heap_up_def
  proof (intro conjI allI impI, goal_cases)
    case (1 i)
    then have "i < length h" "par i < i" by (auto simp: par_less)
    then show ?case using 1 assms by (auto simp: heap_from_def nth_append)
  next
    case (2 i)
    have "par i < i" using 2 by (intro par_less) simp
    then show ?case using 2 by simp
  qed
  then show "heap_from lt 0 (heappush lt h x)"
    unfolding heappush_def by (rule siftdown_heap) (auto simp: below_0)
  show "mset (heappush lt h x) = add_mset x (mset h)"
    unfolding heappush_def by (subst mset_siftdown) auto
qed

lemma heap_root_min:
  assumes "heap_from lt 0 h" and "i < length h"
  shows "\<not> lt (h ! i) (h ! 0)"
  using assms(2)
proof (induction i rule: less_induct)
  case (less i)
  show ?case
  proof (cases "i = 0")
    case True
    then show ?thesis using lt_asym by blast
  next
    case False
    then have "\<not> lt (h ! i) (h ! par i)" "\<not> lt (h ! par i) (h ! 0)"
      using assms(1) less par_less [of i] by (auto simp: heap_from_def)
    then show ?thesis using lt_neg_trans by blast
  qed
qed

lemma heappop_heap:
  assumes "heap_from lt 0 h" and "h \<noteq> []"
  shows "\<exists>h'. heappop lt h = Inr (h ! 0, h') \<and> heap_from lt 0 h' \<and> add_mset (h ! 0) (mset h') = mset h"
proof (cases "butlast h = []")
  case True
  then obtain x where "h = [x]" using assms(2) by (cases h) (auto split: if_splits)
  then show ?thesis by (simp add: heappop_def heap_from_def)
next
  case False
  let ?b = "butlast h"
  have len: "0 < length ?b" "length ?b < length h"
    using length_greater_0_conv [THEN iffD2, OF False] by auto
  have nb: "?b ! i = h ! i" if "i < length ?b" for i using that by (simp add: nth_butlast)
  have "heap_from lt (Suc 0) (?b[0 := last h])"
    using assms(1) len nb unfolding heap_from_def by (auto simp: nth_list_update par_def)
  then have S: "heap_from lt 0 (siftup lt (?b[0 := last h]) 0)" "mset (siftup lt (?b[0 := last h]) 0) = mset (?b[0 := last h])"
    using siftup_heap [of 0 "?b[0 := last h]"] len by auto
  have "hd ?b = h ! 0" using False nb [OF len(1)] by (simp add: hd_conv_nth)
  moreover have "add_mset (h ! 0) (mset (?b[0 := last h])) = mset h"
  proof -
    have "mset h = add_mset (last h) (mset ?b)" using assms(2)
      by (metis add_mset_add_single append_butlast_last_id mset_append mset_single_iff_right)
    moreover have "mset ?b = add_mset (h ! 0) (mset (tl ?b))" "mset (?b[0 := last h]) = add_mset (last h) (mset (tl ?b))"
      using False \<open>hd ?b = h ! 0\<close> by (cases ?b; simp)+
    ultimately show ?thesis by simp
  qed
  ultimately show ?thesis using False assms(2) S by (simp add: heappop_def Let_def)
qed

lemma heapify_heap: "heap_from lt 0 (heapify lt h)" "mset (heapify lt h) = mset h"
proof -
  have "heap_from lt 0 (fold (\<lambda>i h. siftup lt h i) (rev [0..<k]) h) \<and> mset (fold (\<lambda>i h. siftup lt h i) (rev [0..<k]) h) = mset h"
    if "heap_from lt k h" "k \<le> length h" for k h
    using that
  proof (induction k arbitrary: h)
    case (Suc k)
    then show ?case using siftup_heap [of k h] by simp
  qed simp
  moreover have "heap_from lt (length h div 2) h" by (auto simp: heap_from_def par_def)
  ultimately show "heap_from lt 0 (heapify lt h)" "mset (heapify lt h) = mset h" unfolding heapify_def by auto
qed

lemma heap_drain_sorted:
  assumes "heap_from lt 0 h"
  shows "\<exists>xs. heap_drain lt (length h) h = Inr xs \<and> mset xs = mset h \<and> sorted_wrt (\<lambda>a b. \<not> lt b a) xs"
  using assms
proof (induction "length h" arbitrary: h)
  case (Suc n)
  then have ne: "h \<noteq> []" by auto
  obtain h' where h': "heappop lt h = Inr (h ! 0, h')" "heap_from lt 0 h'" "add_mset (h ! 0) (mset h') = mset h"
    using heappop_heap [OF Suc.prems ne] by blast
  have "length h' = n" using h'(3) Suc.hyps(2) by (metis size_mset size_add_mset nat.inject)
  then obtain xs where xs: "heap_drain lt n h' = Inr xs" "mset xs = mset h'" "sorted_wrt (\<lambda>a b. \<not> lt b a) xs"
    using Suc.hyps(1) [of h'] h'(2) by auto
  have "\<not> lt b (h ! 0)" if "b \<in> set xs" for b
  proof -
    have "b \<in># mset h" using that xs(2) h'(3) by (metis insert_iff set_mset_add_mset_insert set_mset_mset)
    then obtain i where "i < length h" "b = h ! i" by (auto simp: in_set_conv_nth)
    then show ?thesis using heap_root_min [OF Suc.prems] by simp
  qed
  then show ?case using ne xs h' Suc.hyps(2) by (intro exI [of _ "h ! 0 # xs"]) (auto simp flip: Suc.hyps(2))
qed simp

end

section \<open>The two queues behind one interface\<close>

text \<open>
  What the scheduler relies on, whatever the policy: a bag of requests; adding and
  prepending put a request in, popping takes out the request that peeking shows, and an
  empty queue raises \<^verbatim>\<open>IndexError\<close>.
\<close>

locale request_bag =
  fixes add :: "'r \<Rightarrow> 'q \<Rightarrow> 'q"
    and prep :: "'r \<Rightarrow> 'q \<Rightarrow> 'q"
    and pop :: "'q \<Rightarrow> ('r \<times> 'q) result"
    and peek :: "'q \<Rightarrow> 'r result"
    and remove_many :: "'r list \<Rightarrow> 'q \<Rightarrow> 'q"
    and same :: "'r \<Rightarrow> 'r \<Rightarrow> bool"
    and bag :: "'q \<Rightarrow> 'r multiset"
    and ok :: "'q \<Rightarrow> bool"
  assumes add_bag: "ok q \<Longrightarrow> ok (add r q) \<and> bag (add r q) = add_mset r (bag q)"
    and prep_bag: "ok q \<Longrightarrow> ok (prep r q) \<and> bag (prep r q) = add_mset r (bag q)"
    and pop_none: "ok q \<Longrightarrow> bag q = {#} \<Longrightarrow> pop q = Inl IndexError \<and> peek q = Inl IndexError"
    and pop_bag: "ok q \<Longrightarrow> bag q \<noteq> {#} \<Longrightarrow>
      \<exists>r q'. pop q = Inr (r, q') \<and> peek q = Inr r \<and> ok q' \<and> bag q = add_mset r (bag q')"
    and remove_bag: "ok q \<Longrightarrow> ok (remove_many rs q) \<and> bag (remove_many rs q) = filter_mset (\<lambda>x. \<not> list_ex (same x) rs) (bag q)"
begin

fun pops :: "nat \<Rightarrow> 'q \<Rightarrow> ('r list \<times> 'q) result" where
  "pops 0 q = Inr ([], q)"
| "pops (Suc n) q = rbind (pop q) (\<lambda>(r, q). rbind (pops n q) (\<lambda>(rs, q). Inr (r # rs, q)))"

text \<open>Popping as often as there are requests returns each of them once.\<close>

lemma pops_all:
  assumes "ok q" and "n = size (bag q)"
  shows "\<exists>rs q'. pops n q = Inr (rs, q') \<and> mset rs = bag q \<and> bag q' = {#} \<and> ok q'"
  using assms
proof (induction n arbitrary: q)
  case (Suc n)
  then have "bag q \<noteq> {#}" by auto
  then obtain r q1 where q1: "pop q = Inr (r, q1)" "ok q1" "bag q = add_mset r (bag q1)"
    using pop_bag [OF Suc.prems(1)] by blast
  then obtain rs q' where "pops n q1 = Inr (rs, q')" "mset rs = bag q1" "bag q' = {#}" "ok q'"
    using Suc.IH [of q1] Suc.prems(2) by auto
  then show ?case using q1 by auto
qed auto

lemma pop_after_remove:
  assumes "ok q" and "pop (remove_many rs q) = Inr (r, q')"
  shows "r \<in># bag q \<and> \<not> list_ex (same r) rs"
proof -
  have R: "ok (remove_many rs q)" "bag (remove_many rs q) = filter_mset (\<lambda>x. \<not> list_ex (same x) rs) (bag q)"
    using remove_bag [OF assms(1)] by auto
  have "bag (remove_many rs q) \<noteq> {#}" using pop_none [OF R(1)] assms(2) by auto
  then have "r \<in># bag (remove_many rs q)" using pop_bag [OF R(1)] assms(2) by auto
  then show ?thesis unfolding R(2) by simp
qed

end

text \<open>A priority queue in addition returns a smallest request.\<close>

locale priority_bag = request_bag +
  fixes less :: "'a \<Rightarrow> 'a \<Rightarrow> bool"
  assumes pop_min: "ok q \<Longrightarrow> pop q = Inr (r, q') \<Longrightarrow> x \<in># bag q \<Longrightarrow> \<not> less x r"
begin

lemma pops_sorted:
  assumes "ok q" and "pops n q = Inr (rs, q')"
  shows "sorted_wrt (\<lambda>a b. \<not> less b a) rs"
proof -
  have "set rs \<subseteq> set_mset (bag q) \<and> sorted_wrt (\<lambda>a b. \<not> less b a) rs"
    using assms
  proof (induction n arbitrary: q rs q')
    case (Suc n)
    then obtain r q1 rs1 where p: "pop q = Inr (r, q1)" "pops n q1 = Inr (rs1, q')" "rs = r # rs1"
      by (auto simp: rbind_eq_Inr)
    have "bag q \<noteq> {#}" using pop_none [OF Suc.prems(1)] p(1) by auto
    then have q1: "ok q1" "bag q = add_mset r (bag q1)" using pop_bag [OF Suc.prems(1)] p(1) by auto
    from Suc.IH [OF q1(1) p(2)] pop_min [OF Suc.prems(1) p(1)] q1(2) p(3) show ?case by auto
  qed simp
  then show ?thesis by simp
qed

end

interpretation fcfs: request_bag fcfs_add_request fcfs_prepend_request fcfs_pop_request fcfs_peek_request
  fcfs_remove_requests same_object mset "\<lambda>_. True"
  by unfold_locales (auto simp: fcfs_add_request_def fcfs_prepend_request_def fcfs_pop_request_def
      fcfs_peek_request_def fcfs_remove_requests_def split: list.splits)

lemma request_lt_neg_trans: "\<not> request_lt b a \<Longrightarrow> \<not> request_lt c b \<Longrightarrow> \<not> request_lt c a"
  using lexordp_linear [of "request_id a" "request_id b"] lexordp_linear [of "request_id b" "request_id c"]
    lexordp_trans [of "request_id c" "request_id a" "request_id b"] lexordp_trans [of "request_id b" "request_id c" "request_id a"]
    lexordp_antisym [of "request_id a" "request_id b"] lexordp_antisym [of "request_id b" "request_id c"]
    lexordp_antisym [of "request_id a" "request_id c"]
  by (auto simp: request_lt_def split: if_splits)

interpretation req: weak_order request_lt
  by unfold_locales (auto dest: request_lt_asym request_lt_neg_trans)

lemma prio_pop_heap:
  assumes "heap_from request_lt 0 q" and "q \<noteq> []"
  shows "\<exists>q'. prio_pop_request q = Inr (q ! 0, q') \<and> prio_peek_request q = Inr (q ! 0)
     \<and> heap_from request_lt 0 q' \<and> mset q = add_mset (q ! 0) (mset q')"
  using req.heappop_heap [OF assms] assms(2) by (auto simp: prio_pop_request_def prio_peek_request_def)

interpretation prio: priority_bag prio_add_request prio_prepend_request prio_pop_request prio_peek_request
  prio_remove_requests same_object mset "heap_from request_lt 0" request_lt
proof (unfold_locales, goal_cases)
  case (1 q r)
  then show ?case by (simp add: prio_add_request_def req.heappush_heap)
next
  case (2 q r)
  then show ?case by (simp add: prio_prepend_request_def prio_add_request_def req.heappush_heap)
next
  case (3 q)
  then show ?case by (simp add: prio_pop_request_def prio_peek_request_def)
next
  case (4 q)
  then show ?case using prio_pop_heap [of q] by auto
next
  case (5 q rs)
  then show ?case by (simp add: prio_remove_requests_def req.heapify_heap mset_filter)
next
  case (6 q r q' x)
  then have "q \<noteq> []" by auto
  with 6 prio_pop_heap [of q] have "r = q ! 0" by auto
  moreover obtain i where "i < length q" "x = q ! i" using 6(3) by (auto simp: in_set_conv_nth)
  ultimately show ?case using req.heap_root_min [OF 6(1)] by simp
qed

section \<open>Properties of the queues\<close>

text \<open>Priority queues are built by the operations of the class from the empty queue.\<close>

inductive prio_reachable :: "request list \<Rightarrow> bool" where
  Empty: "prio_reachable []"
| Add: "prio_reachable q \<Longrightarrow> prio_reachable (prio_add_request r q)"
| Prepend: "prio_reachable q \<Longrightarrow> prio_reachable (prio_prepend_requests rs q)"
| Pop: "prio_reachable q \<Longrightarrow> prio_pop_request q = Inr (r, q') \<Longrightarrow> prio_reachable q'"
| RemoveOne: "prio_reachable q \<Longrightarrow> prio_remove_request r q = Inr q' \<Longrightarrow> prio_reachable q'"
| RemoveMany: "prio_reachable q \<Longrightarrow> prio_reachable (prio_remove_requests rs q)"

lemma prio_prepend_bag:
  "heap_from request_lt 0 q \<Longrightarrow> heap_from request_lt 0 (prio_prepend_requests rs q) \<and> mset (prio_prepend_requests rs q) = mset rs + mset q"
  unfolding prio_prepend_requests_def
  by (induction rs arbitrary: q) (use prio.add_bag in \<open>auto simp: prio_prepend_requests_def\<close>)

lemma remove_object_bag:
  "case remove_object r q of
     Inl e \<Rightarrow> e = ValueError \<and> (\<forall>y \<in> set q. \<not> same_object y r)
   | Inr q' \<Rightarrow> \<exists>y. same_object y r \<and> mset q = add_mset y (mset q')"
proof (induction q)
  case (Cons x q)
  then show ?case
    by (cases "remove_object r q") (auto simp: add_mset_commute)
qed simp

lemma prio_remove_bag:
  "case prio_remove_request r q of
     Inl e \<Rightarrow> e = ValueError \<and> (\<forall>y \<in> set q. \<not> same_object y r)
   | Inr q' \<Rightarrow> \<exists>y. same_object y r \<and> mset q = add_mset y (mset q')"
  using remove_object_bag [where r = r and q = q] by (auto simp: prio_remove_request_def heapify_mset split: sum.splits)

lemma prio_reachable_heap: "prio_reachable q \<Longrightarrow> heap_from request_lt 0 q"
proof (induction rule: prio_reachable.induct)
  case (Pop q r q')
  then have "mset q \<noteq> {#}" using prio.pop_none [of q] by auto
  then show ?case using prio.pop_bag [of q] Pop by auto
next
  case (RemoveOne q r q')
  then show ?case by (auto simp: prio_remove_request_def rbind_eq_Inr req.heapify_heap)
qed (auto simp: heap_from_def [of _ _ "[]"] prio.add_bag prio_prepend_bag prio.remove_bag)

text \<open>
  C20. The priority queue. In every state reached through the operations of the class,
  popping an empty queue raises \<^verbatim>\<open>IndexError\<close>; otherwise it returns, and peeking shows,
  a request that no queued request precedes in the order (priority, arrival time, request
  id), and exactly that request leaves the queue. Iterating over the queue lists all its
  requests in that order. Adding and prepending add exactly the given requests. Removing a
  request takes one queued object out, the given one, and raises \<^verbatim>\<open>ValueError\<close> if it is not queued;
  removing several takes out exactly the queued objects among them.
\<close>

theorem priority_queue_correct:
  assumes "prio_reachable q"
  shows "(q = [] \<longrightarrow> prio_pop_request q = Inl IndexError) \<and>
     (q \<noteq> [] \<longrightarrow> (\<exists>r q'. prio_pop_request q = Inr (r, q') \<and> prio_peek_request q = Inr r
        \<and> (\<forall>x \<in> set q. \<not> request_lt x r) \<and> mset q = add_mset r (mset q'))) \<and>
     (\<exists>rs. prio_iter q = Inr rs \<and> mset rs = mset q \<and> sorted_wrt (\<lambda>a b. \<not> request_lt b a) rs) \<and>
     mset (prio_add_request x q) = add_mset x (mset q) \<and> mset (prio_prepend_request x q) = add_mset x (mset q) \<and>
     mset (prio_prepend_requests xs q) = mset xs + mset q \<and>
     (case prio_remove_request x q of
        Inl e \<Rightarrow> e = ValueError \<and> (\<forall>y \<in> set q. \<not> same_object y x)
      | Inr q' \<Rightarrow> \<exists>y. same_object y x \<and> mset q = add_mset y (mset q')) \<and>
     mset (prio_remove_requests xs q) = filter_mset (\<lambda>y. \<not> list_ex (same_object y) xs) (mset q)"
proof -
  have heap: "heap_from request_lt 0 q" by (rule prio_reachable_heap [OF assms])
  have "\<exists>r q'. prio_pop_request q = Inr (r, q') \<and> prio_peek_request q = Inr r
        \<and> (\<forall>x \<in> set q. \<not> request_lt x r) \<and> mset q = add_mset r (mset q')" if "q \<noteq> []"
  proof -
    have "mset q \<noteq> {#}" using that by simp
    then obtain r q' where r: "prio_pop_request q = Inr (r, q')" "prio_peek_request q = Inr r" "mset q = add_mset r (mset q')"
      using prio.pop_bag [OF heap] by blast
    then have "\<forall>x \<in> set q. \<not> request_lt x r" using prio.pop_min [OF heap r(1)] by (simp only: set_mset_mset [symmetric]) blast
    then show ?thesis using r by blast
  qed
  moreover have "\<exists>rs. prio_iter q = Inr rs \<and> mset rs = mset q \<and> sorted_wrt (\<lambda>a b. \<not> request_lt b a) rs"
    using req.heap_drain_sorted [OF heap] by (simp add: prio_iter_def)
  moreover note prio.add_bag [OF heap, of x] prio.prep_bag [OF heap, of x] prio_prepend_bag [OF heap, of xs]
    prio_remove_bag [where r = x and q = q] prio.remove_bag [OF heap, of xs]
  moreover have "q = [] \<longrightarrow> prio_pop_request q = Inl IndexError" by (simp add: prio_pop_request_def)
  ultimately show ?thesis by (intro conjI) blast+
qed

definition prio_sample :: "string \<Rightarrow> int \<Rightarrow> rat \<Rightarrow> request" where
  "prio_sample rid pr t = (sample_request [1] 1)\<lparr>request_id := rid, object_id := pr, priority := pr, arrival_time := t\<rparr>"

theorem priority_queue_correct_witness:
  "prio_peek_request (prio_add_request (prio_sample ''b'' 1 0) (prio_add_request (prio_sample ''a'' 2 0) []))
     = Inr (prio_sample ''b'' 1 0)"
proof -
  let ?q = "prio_add_request (prio_sample ''b'' 1 0) (prio_add_request (prio_sample ''a'' 2 0) [])"
  have r: "prio_reachable ?q" by (intro prio_reachable.intros)
  have bag: "mset ?q = {#prio_sample ''b'' 1 0, prio_sample ''a'' 2 0#}"
  proof -
    have "heap_from request_lt 0 []" by (simp add: heap_from_def)
    note A = prio.add_bag [OF this, of "prio_sample ''a'' 2 0"]
    show ?thesis using A prio.add_bag [OF conjunct1 [OF A], of "prio_sample ''b'' 1 0"] by simp
  qed
  then have ne: "?q \<noteq> []" by auto
  obtain x q' where x: "prio_peek_request ?q = Inr x" "\<forall>y \<in> set ?q. \<not> request_lt y x" "mset ?q = add_mset x (mset q')"
    using priority_queue_correct [OF r, of "prio_sample ''c'' 3 0" "[]"] ne by blast
  have s: "set ?q = {prio_sample ''b'' 1 0, prio_sample ''a'' 2 0}"
    using arg_cong [OF bag, of set_mset] by simp
  have "x \<in> set ?q" using arg_cong [OF x(3), of set_mset] by auto
  moreover have "x \<noteq> prio_sample ''a'' 2 0" using x(2) s by (auto simp: request_lt_def prio_sample_def)
  ultimately show ?thesis using x(1) s by auto
qed

text \<open>
  First come first served. Requests leave the queue in the order in which they were
  added; a prepended request is served next, and prepending a whole queue puts its
  requests in front in reverse order of their appearance.
\<close>

theorem fcfs_queue_order:
  "fcfs_pop_request (fold fcfs_add_request (r # rs) []) = Inr (r, rs)
   \<and> fcfs_pop_request (fcfs_prepend_request x q) = Inr (x, q)
   \<and> fcfs_prepend_requests rs q = rev rs @ q
   \<and> fcfs_pop_request [] = Inl IndexError \<and> fcfs_peek_request [] = Inl IndexError"
proof -
  have "fold fcfs_add_request xs ys = ys @ xs" for xs ys
    by (induction xs arbitrary: ys) (auto simp: fcfs_add_request_def)
  moreover have "fold (\<lambda>r q. r # q) xs ys = rev xs @ ys" for xs ys :: "request list"
    by (induction xs arbitrary: ys) auto
  ultimately show ?thesis
    by (simp add: fcfs_add_request_def fcfs_pop_request_def fcfs_peek_request_def fcfs_prepend_request_def fcfs_prepend_requests_def)
qed

text \<open>
  Changing the arrival time of a queued request, as the scheduler does when the next
  input of a streaming session arrives, breaks the heap: there is a reachable queue such
  that after the front request got a later arrival time it is still returned first, ahead
  of a request that precedes it.
\<close>

theorem late_arrival_breaks_priority_queue:
  "\<exists>q r q' x. prio_reachable q \<and> prio_pop_request (q[0 := (q ! 0)\<lparr>arrival_time := 9\<rparr>]) = Inr (r, q')
     \<and> x \<in> set q' \<and> request_lt x r"
proof -
  let ?a = "prio_sample ''a'' 1 0" and ?b = "(prio_sample ''b'' 1 5)\<lparr>object_id := 2\<rparr>"
  have "prio_add_request ?b (prio_add_request ?a []) = [?a, ?b]"
    by (simp add: prio_add_request_def heappush_def siftdown.simps par_def request_lt_def prio_sample_def)
  then have "prio_reachable [?a, ?b]" by (metis prio_reachable.Add prio_reachable.Empty)
  moreover have "prio_pop_request ([?a, ?b][0 := ([?a, ?b] ! 0)\<lparr>arrival_time := 9\<rparr>]) = Inr (?a\<lparr>arrival_time := 9\<rparr>, [?b])"
    by (simp add: prio_pop_request_def heappop_def siftup_def siftup_loop.simps siftdown.simps)
  moreover have "request_lt ?b (?a\<lparr>arrival_time := 9\<rparr>)" by (simp add: request_lt_def prio_sample_def)
  ultimately show ?thesis by (intro exI conjI) auto
qed

end
