(* ===== verification/Sched_Utils.thy ===== *)
theory Sched_Utils
  imports Request_Model
begin

text \<open>
  The stopping conditions and list helpers of \<^verbatim>\<open>src/vllm/v1/core/sched/utils.py\<close>.
  Negative indices read from the end of the token list, as in Python.
\<close>

section \<open>Definitions\<close>

text \<open>The two nested loops of \<^verbatim>\<open>_has_repeating_pattern\<close>; they stop at the first mismatch.\<close>

fun pattern_inner :: "int list \<Rightarrow> int \<Rightarrow> int \<Rightarrow> int \<Rightarrow> int list \<Rightarrow> bool result" where
  "pattern_inner token_ids pattern_len n target [] = Inr True"
| "pattern_inner token_ids pattern_len n target (m # ms) =
     rbind (py_index token_ids (- (pattern_len * m + n))) (\<lambda>t.
       if t \<noteq> target then Inr False else pattern_inner token_ids pattern_len n target ms)"

fun pattern_outer :: "int list \<Rightarrow> int \<Rightarrow> int \<Rightarrow> int list \<Rightarrow> bool result" where
  "pattern_outer token_ids pattern_len min_cnt [] = Inr True"
| "pattern_outer token_ids pattern_len min_cnt (n # ns) =
     rbind (py_index token_ids (- n)) (\<lambda>target.
     rbind (pattern_inner token_ids pattern_len n target [1..min_cnt - 1]) (\<lambda>ok.
       if \<not> ok then Inr False else pattern_outer token_ids pattern_len min_cnt ns))"

definition has_repeating_pattern :: "int list \<Rightarrow> int \<Rightarrow> int \<Rightarrow> bool result" where
  "has_repeating_pattern token_ids pattern_len repetition_min_count =
     pattern_outer token_ids pattern_len repetition_min_count [1..pattern_len]"

fun repetition_loop :: "int list \<Rightarrow> int \<Rightarrow> int list \<Rightarrow> bool result" where
  "repetition_loop token_ids min_cnt [] = Inr False"
| "repetition_loop token_ids min_cnt (pattern_len # ls) =
     (if int (length token_ids) < pattern_len * min_cnt then Inr False
      else rbind (has_repeating_pattern token_ids pattern_len min_cnt) (\<lambda>found.
        if found then Inr True else repetition_loop token_ids min_cnt ls))"

definition check_sequence_repetition :: "int list \<Rightarrow> repetition_params \<Rightarrow> bool result" where
  "check_sequence_repetition token_ids params =
     (let max_size = max_pattern_size params;
          min_size = (if min_pattern_size params \<le> 0 then 1 else min_pattern_size params);
          cnt = min_count params
      in if max_size \<le> 0 \<or> cnt < 2 \<or> max_size < min_size then Inr False
         else repetition_loop token_ids cnt [min_size..max_size])"

text \<open>
  \<^verbatim>\<open>remove_all\<close>. The set of items is a list without repetitions. The fast path removes one
  occurrence of a single item.
\<close>

definition remove_all :: "'a list \<Rightarrow> 'a list \<Rightarrow> 'a list" where
  "remove_all lst items_to_remove =
     (case items_to_remove of
        [] \<Rightarrow> lst
      | [item] \<Rightarrow> remove1 item lst
      | _ \<Rightarrow> filter (\<lambda>item. item \<notin> set items_to_remove) lst)"

definition check_stop :: "request \<Rightarrow> int \<Rightarrow> (bool \<times> request) result" where
  "check_stop r max_model_len =
     (if pooling_params_of r \<noteq> None then Inl AssertionError
      else
        (case sampling_params_of r of
           None \<Rightarrow> Inl AssertionError
         | Some sp \<Rightarrow>
             if int (num_output_tokens r) < min_tokens sp then Inr (False, r)
             else
               rbind (py_index (output_token_ids r) (- 1)) (\<lambda>last_token_id.
                 if Some last_token_id = eos_token_id sp then Inr (True, r\<lparr>status := FINISHED_STOPPED\<rparr>)
                 else if last_token_id \<in> set (case stop_token_ids sp of None \<Rightarrow> [] | Some ids \<Rightarrow> ids)
                 then Inr (True, r\<lparr>status := FINISHED_STOPPED, stop_reason_of := Some (Stop_token last_token_id)\<rparr>)
                 else if max_model_len \<le> int (num_tokens r) \<or> max_tokens r \<le> int (num_output_tokens r)
                 then Inr (True, r\<lparr>status := FINISHED_LENGTH_CAPPED\<rparr>)
                 else
                   (case repetition_detection sp of
                      None \<Rightarrow> Inr (False, r)
                    | Some params \<Rightarrow>
                        rbind (check_sequence_repetition (output_token_ids r) params) (\<lambda>found.
                          if found
                          then Inr (True, r\<lparr>status := FINISHED_REPETITION,
                                 stop_reason_of := Some (Stop_string ''repetition_detected'')\<rparr>)
                          else Inr (False, r))))))"

section \<open>Repetition detection\<close>

text \<open>The tail of the list is \<open>k\<close> copies of one pattern of length \<open>l\<close>.\<close>

definition tail_repeats :: "int list \<Rightarrow> nat \<Rightarrow> nat \<Rightarrow> bool" where
  "tail_repeats toks l k \<longleftrightarrow> (\<exists>pre pat. length pat = l \<and> toks = pre @ concat (replicate k pat))"

lemma py_index_neg_int: "0 < n \<Longrightarrow> n \<le> int (length xs) \<Longrightarrow> py_index xs (- n) = Inr (rev xs ! (nat n - 1))"
  by (simp add: py_index_def rev_nth nat_diff_distrib Suc_nat_eq_nat_zadd1)

lemma pattern_inner_spec:
  assumes "\<forall>m \<in> set ms. 0 \<le> m \<and> l * m + n \<le> int (length toks)" and "0 < n" "0 \<le> l"
  shows "pattern_inner toks l n t ms = Inr (\<forall>m \<in> set ms. rev toks ! (nat (l * m + n) - 1) = t)"
  using assms(1)
proof (induction ms)
  case (Cons m ms)
  have "0 \<le> l * m" using Cons.prems assms(3) by simp
  then have "0 < l * m + n" using assms(2) by linarith
  moreover have "l * m + n \<le> int (length toks)" using Cons.prems by simp
  ultimately have "py_index toks (- (l * m + n)) = Inr (rev toks ! (nat (l * m + n) - 1))" by (rule py_index_neg_int)
  then show ?case using Cons by auto
qed simp

lemma pattern_outer_spec:
  assumes "\<forall>n \<in> set ns. 1 \<le> n \<and> n \<le> l" and "1 \<le> k" and "l * k \<le> int (length toks)"
  shows "pattern_outer toks l k ns =
     Inr (\<forall>n \<in> set ns. \<forall>m \<in> {1..k - 1}. rev toks ! (nat (l * m + n) - 1) = rev toks ! (nat n - 1))"
  using assms(1)
proof (induction ns)
  case (Cons n ns)
  then have n: "1 \<le> n" "n \<le> l" by auto
  have le: "l * m + n \<le> int (length toks)" if "m \<le> k - 1" for m
  proof -
    have "l * m + n \<le> l * (k - 1) + l" using that n by (intro add_mono mult_left_mono) auto
    also have "\<dots> = l * k" by (simp add: algebra_simps)
    finally show ?thesis using assms(3) by simp
  qed
  have "py_index toks (- n) = Inr (rev toks ! (nat n - 1))"
    using n le [of 0] assms(2) by (intro py_index_neg_int) auto
  moreover have "pattern_inner toks l n t [1..k - 1] = Inr (\<forall>m \<in> {1..k - 1}. rev toks ! (nat (l * m + n) - 1) = t)" for t
    using pattern_inner_spec [of "[1..k - 1]" l n toks t] le n by auto
  ultimately show ?case using Cons by auto
qed simp

text \<open>Read from the end, a repeated tail is periodic.\<close>

lemma tail_repeats_periodic:
  assumes "0 < l" and "0 < k"
  shows "tail_repeats toks l k \<longleftrightarrow> l * k \<le> length toks \<and> (\<forall>i < l * k. rev toks ! i = rev toks ! (i mod l))"
proof
  assume "tail_repeats toks l k"
  then obtain pre pat where p: "length pat = l" "toks = pre @ concat (replicate k pat)" by (auto simp: tail_repeats_def)
  have cat: "concat (replicate n xs) ! i = xs ! (i mod length xs)" if "i < n * length xs" for n i and xs :: "int list"
    using that
  proof (induction n arbitrary: i)
    case (Suc n)
    then show ?case by (cases "i < length xs") (auto simp: nth_append mod_if)
  qed simp
  define R where "R = concat (replicate k (rev pat))"
  have rt: "rev toks = R @ rev pre" by (simp add: R_def p(2) rev_concat map_replicate_const)
  have len: "length R = l * k" by (simp add: R_def p(1) length_concat sum_list_replicate mult.commute)
  have R: "R ! i = rev pat ! (i mod l)" if "i < l * k" for i
    using cat [of i k "rev pat"] that p(1) by (simp add: R_def mult.commute)
  have "rev toks ! i = rev toks ! (i mod l)" if i: "i < l * k" for i
  proof -
    have "i mod l < l * k" using i assms by (meson le_less_trans mod_less_eq_dividend)
    then show ?thesis using R [OF i] R [of "i mod l"] i len by (simp add: rt nth_append)
  qed
  moreover have "l * k \<le> length toks" using arg_cong [OF rt, of length] len by simp
  ultimately show "l * k \<le> length toks \<and> (\<forall>i < l * k. rev toks ! i = rev toks ! (i mod l))" by blast
next
  assume per: "l * k \<le> length toks \<and> (\<forall>i < l * k. rev toks ! i = rev toks ! (i mod l))"
  have "take (l * j) (rev toks) = concat (replicate j (take l (rev toks)))" if "j \<le> k" for j
    using that
  proof (induction j)
    case (Suc j)
    have le: "l * j + l \<le> length toks" using Suc.prems per by (metis add.commute le_trans mult_Suc_right mult_le_mono2)
    have "take l (drop (l * j) (rev toks)) = take l (rev toks)"
    proof (rule nth_equalityI)
      fix i assume "i < length (take l (drop (l * j) (rev toks)))"
      then have i: "i < l" by simp
      then have "l * j + i < l * k" using Suc.prems
        by (metis add_less_cancel_left le_less_trans less_le_trans mult_Suc_right mult_le_mono2 add.commute not_less)
      then have "rev toks ! (l * j + i) = rev toks ! ((l * j + i) mod l)" using per by blast
      then show "take l (drop (l * j) (rev toks)) ! i = take l (rev toks) ! i" using i le by simp
    qed (use le in simp)
    moreover have "take (l * Suc j) (rev toks) = take (l * j) (rev toks) @ take l (drop (l * j) (rev toks))"
      by (subst take_add [symmetric]) (simp add: add.commute)
    moreover have "replicate (Suc j) x = replicate j x @ [x]" for x :: "int list"
      by (simp add: replicate_append_same)
    ultimately show ?case using Suc by (simp del: replicate_Suc)
  qed simp
  from this [of k] have t: "take (l * k) (rev toks) = concat (replicate k (take l (rev toks)))" by simp
  let ?pat = "rev (take l (rev toks))"
  have "toks = rev (drop (l * k) (rev toks)) @ rev (take (l * k) (rev toks))"
    by (metis append_take_drop_id rev_append rev_rev_ident)
  also have "rev (take (l * k) (rev toks)) = concat (replicate k ?pat)" by (simp add: t rev_concat map_replicate_const)
  finally have "toks = rev (drop (l * k) (rev toks)) @ concat (replicate k ?pat)" .
  moreover have "l \<le> length toks" using per assms(2) by (metis dvd_imp_le dvd_triv_left le_trans mult_is_0 neq0_conv assms(1))
  ultimately show "tail_repeats toks l k" unfolding tail_repeats_def
    by (intro exI [of _ "rev (drop (l * k) (rev toks))"] exI [of _ ?pat]) simp
qed

lemma has_repeating_pattern_spec:
  assumes "0 < l" and "0 < k" and "l * k \<le> length toks"
  shows "has_repeating_pattern toks (int l) (int k) = Inr (tail_repeats toks l k)"
proof -
  have "pattern_outer toks (int l) (int k) [1..int l] = Inr (\<forall>n \<in> {1..int l}. \<forall>m \<in> {1..int k - 1}.
      rev toks ! (nat (int l * m + n) - 1) = rev toks ! (nat n - 1))" (is "_ = Inr ?P")
    using pattern_outer_spec [of "[1..int l]" "int l" "int k" toks] assms by (simp flip: of_nat_mult)
  moreover have "?P \<longleftrightarrow> tail_repeats toks l k"
  proof
    assume P: ?P
    have "rev toks ! i = rev toks ! (i mod l)" if i: "i < l * k" for i
    proof (cases "i div l = 0")
      case False
      have "i div l < k" using i assms(1) by (simp add: div_less_iff_less_mult mult.commute)
      then have "rev toks ! (nat (int l * int (i div l) + int (i mod l + 1)) - 1) = rev toks ! (nat (int (i mod l + 1)) - 1)"
        using False mod_less_divisor [OF assms(1), of i] by (intro P [rule_format]) auto
      moreover have eq: "int l * int (i div l) + int (i mod l + 1) = int (i + 1)"
        using mult_div_mod_eq [of l i] by (metis add.assoc of_nat_add of_nat_mult)
      ultimately show ?thesis unfolding eq nat_int by (simp only: add_diff_cancel_right')
    next
      case True
      then show ?thesis using assms(1) by (simp add: div_eq_0_iff)
    qed
    then show "tail_repeats toks l k" using assms tail_repeats_periodic by blast
  next
    assume "tail_repeats toks l k"
    then have per: "\<forall>i < l * k. rev toks ! i = rev toks ! (i mod l)" using assms tail_repeats_periodic by blast
    show ?P
    proof (intro ballI)
      fix n m assume n: "n \<in> {1..int l}" and m: "m \<in> {1..int k - 1}"
      define a b where "a = nat n - 1" and "b = nat m"
      have ab: "n = int a + 1" "m = int b" "a < l" "b < k" using n m by (auto simp: a_def b_def)
      have "l * b + a < l * k"
      proof -
        have "l * b + a < l * Suc b" using ab(3) by simp
        also have "\<dots> \<le> l * k" using ab(4) by (intro mult_le_mono2) simp
        finally show ?thesis .
      qed
      then have "rev toks ! (l * b + a) = rev toks ! ((l * b + a) mod l)" using per by blast
      moreover have "(l * b + a) mod l = a" using ab(3) by simp
      moreover have eq: "int l * m + n = int (l * b + a + 1)" unfolding ab(1,2) by (simp only: of_nat_add of_nat_mult of_nat_1)
      have "nat (int l * m + n) - 1 = l * b + a" unfolding eq nat_int by (rule add_diff_cancel_right')
      ultimately show "rev toks ! (nat (int l * m + n) - 1) = rev toks ! (nat n - 1)" by (simp add: a_def)
    qed
  qed
  ultimately show ?thesis by (simp add: has_repeating_pattern_def)
qed

lemma repetition_loop_spec:
  assumes "0 < k" and "sorted ls" and "\<forall>l \<in> set ls. 0 < l"
  shows "repetition_loop toks (int k) ls =
     Inr (\<exists>l \<in> set ls. nat l * k \<le> length toks \<and> tail_repeats toks (nat l) k)"
  using assms(2,3)
proof (induction ls)
  case (Cons l ls)
  have l: "0 < nat l" "l = int (nat l)" using Cons.prems by auto
  show ?case
  proof (cases "int (length toks) < l * int k")
    case True
    have "\<not> nat x * k \<le> length toks" if "x \<in> set (l # ls)" for x
    proof -
      have "l \<le> x" using that Cons.prems(1) by auto
      then have "l * int k \<le> x * int k" by (simp add: mult_right_mono)
      moreover have "x * int k = int (nat x * k)" using \<open>l \<le> x\<close> l by simp
      ultimately show ?thesis using True by linarith
    qed
    then show ?thesis using True by auto
  next
    case False
    then have le: "nat l * k \<le> length toks" using l(2) by (metis not_less of_nat_le_iff of_nat_mult)
    then have "has_repeating_pattern toks l (int k) = Inr (tail_repeats toks (nat l) k)"
      using has_repeating_pattern_spec [OF l(1) assms(1) le] l(2) by simp
    then show ?thesis using False Cons le by auto
  qed
qed simp

text \<open>
  C22. Repetition detection does what its parameters say: it never raises, and it reports a
  repetition exactly if, for some pattern length between the configured minimum (at least
  one) and maximum, the tokens end with \<^verbatim>\<open>min_count\<close> copies of one pattern of that
  length, where detection is enabled (a positive maximum and a count of at least two).
\<close>

theorem check_sequence_repetition_correct:
  "check_sequence_repetition toks ps = Inr (0 < max_pattern_size ps \<and> 2 \<le> min_count ps \<and>
     (\<exists>l. max 1 (min_pattern_size ps) \<le> int l \<and> int l \<le> max_pattern_size ps
        \<and> tail_repeats toks l (nat (min_count ps))))"
proof (cases "max_pattern_size ps \<le> 0 \<or> min_count ps < 2")
  case True
  then show ?thesis by (auto simp: check_sequence_repetition_def Let_def)
next
  case False
  define lo where "lo = (if min_pattern_size ps \<le> 0 then 1 else min_pattern_size ps)"
  define k where "k = nat (min_count ps)"
  have lo: "lo = max 1 (min_pattern_size ps)" "0 < lo" by (auto simp: lo_def)
  have k: "0 < k" "min_count ps = int k" using False by (auto simp: k_def)
  have rl: "repetition_loop toks (int k) [lo..max_pattern_size ps] =
     Inr (\<exists>l \<in> {lo..max_pattern_size ps}. nat l * k \<le> length toks \<and> tail_repeats toks (nat l) k)"
    using repetition_loop_spec [OF k(1), of "[lo..max_pattern_size ps]" toks] lo(2) by simp
  have "check_sequence_repetition toks ps = Inr (\<exists>l \<in> {lo..max_pattern_size ps}. nat l * k \<le> length toks \<and> tail_repeats toks (nat l) k)"
    using False rl by (auto simp: check_sequence_repetition_def Let_def lo_def [symmetric] k)
  also have "(\<exists>l \<in> {lo..max_pattern_size ps}. nat l * k \<le> length toks \<and> tail_repeats toks (nat l) k)
     \<longleftrightarrow> (\<exists>l. lo \<le> int l \<and> int l \<le> max_pattern_size ps \<and> tail_repeats toks l k)"
  proof -
    have "tail_repeats toks l k \<Longrightarrow> l * k \<le> length toks" if "0 < l" for l
      using tail_repeats_periodic [OF that k(1)] by blast
    then show ?thesis using lo(2) by (auto intro!: bexI [of _ "int _"]) (metis nat_0_le order_less_imp_le order_trans)
  qed
  finally show ?thesis using False by (auto simp: lo k_def)
qed

section \<open>Stopping\<close>

text \<open>The stop condition of a request, in the words of its parameters.\<close>

definition stop_token :: "sampling_params \<Rightarrow> int \<Rightarrow> bool" where
  "stop_token sp t \<longleftrightarrow> eos_token_id sp = Some t \<or> (\<exists>ids. stop_token_ids sp = Some ids \<and> t \<in> set ids)"

definition length_capped :: "request \<Rightarrow> int \<Rightarrow> bool" where
  "length_capped r m \<longleftrightarrow> m \<le> int (num_tokens r) \<or> max_tokens r \<le> int (num_output_tokens r)"

definition repeats :: "sampling_params \<Rightarrow> int list \<Rightarrow> bool" where
  "repeats sp toks \<longleftrightarrow> (\<exists>ps. repetition_detection sp = Some ps \<and> check_sequence_repetition toks ps = Inr True)"

lemma check_sequence_repetition_total: "\<exists>b. check_sequence_repetition toks ps = Inr b"
proof (cases "max_pattern_size ps \<le> 0 \<or> min_count ps < 2")
  case False
  then have "0 < nat (min_count ps)" "min_count ps = int (nat (min_count ps))" by auto
  then show ?thesis
    using repetition_loop_spec [of "nat (min_count ps)"
        "[(if min_pattern_size ps \<le> 0 then 1 else min_pattern_size ps)..max_pattern_size ps]" toks]
    by (auto simp: check_sequence_repetition_def Let_def)
qed (auto simp: check_sequence_repetition_def Let_def)

text \<open>
  C21. Stopping a generative request that has produced a token. The check never raises; it
  answers yes exactly if the minimum number of tokens is reached and the last token is the
  end-of-sequence or a stop token, or a length limit is reached, or the output repeats. A
  yes always moves the request to a finished status, the one of the first condition that
  applies, and a no leaves the request as it is. So once the minimum is reached no request
  generates past \<^verbatim>\<open>max_tokens\<close> or \<^verbatim>\<open>max_model_len\<close>.
\<close>

theorem check_stop_correct:
  assumes "pooling_params_of r = None" and "sampling_params_of r = Some sp" and "output_token_ids r \<noteq> []"
  shows "\<exists>stop r'. check_stop r m = Inr (stop, r')
     \<and> stop = (min_tokens sp \<le> int (num_output_tokens r) \<and>
         (stop_token sp (last (output_token_ids r)) \<or> length_capped r m \<or> repeats sp (output_token_ids r)))
     \<and> (stop \<longrightarrow> is_finished r' \<and> status r' =
         (if stop_token sp (last (output_token_ids r)) then FINISHED_STOPPED
          else if length_capped r m then FINISHED_LENGTH_CAPPED else FINISHED_REPETITION))
     \<and> (\<not> stop \<longrightarrow> r' = r)"
proof -
  let ?t = "last (output_token_ids r)"
  have idx: "py_index (output_token_ids r) (- 1) = Inr ?t" using assms(3) by (rule py_index_last)
  have stop: "stop_token sp ?t \<longleftrightarrow> Some ?t = eos_token_id sp \<or>
      ?t \<in> set (case stop_token_ids sp of None \<Rightarrow> [] | Some ids \<Rightarrow> ids)"
    by (auto simp: stop_token_def split: option.splits)
  have rep: "check_sequence_repetition (output_token_ids r) ps = Inr (repeats sp (output_token_ids r))"
    if "repetition_detection sp = Some ps" for ps
    using that check_sequence_repetition_total [of "output_token_ids r" ps] by (auto simp: repeats_def)
  have norep: "repetition_detection sp = None \<Longrightarrow> \<not> repeats sp (output_token_ids r)" by (simp add: repeats_def)
  show ?thesis
  proof (cases "int (num_output_tokens r) < min_tokens sp")
    case True
    then show ?thesis using assms by (intro exI [of _ False] exI [of _ r]) (simp add: check_stop_def)
  next
    case False
    then show ?thesis
      using assms(1,2) idx rep norep
      by (auto simp: check_stop_def stop length_capped_def is_finished_def status_is_finished_def split: option.split)
  qed
qed

theorem check_stop_correct_witness:
  "let r = (sample_request [1] 1)\<lparr>pooling_params_of := None, output_token_ids := [7, 8], all_token_ids := [1, 7, 8], max_tokens := 2,
       sampling_params_of := Some \<lparr>sp_max_tokens = Some 2, min_tokens = 0, eos_token_id = Some 3, stop_token_ids = None,
         repetition_detection = None, structured_outputs = False, sp_skip_reading_prefix_cache = None\<rparr>\<rparr>
   in \<exists>r'. check_stop r 100 = Inr (True, r') \<and> status r' = FINISHED_LENGTH_CAPPED"
proof -
  define sp where "sp = \<lparr>sp_max_tokens = Some 2, min_tokens = 0, eos_token_id = Some 3, stop_token_ids = None,
         repetition_detection = None, structured_outputs = False, sp_skip_reading_prefix_cache = None\<rparr>"
  define r where "r = (sample_request [1] 1)\<lparr>pooling_params_of := None, output_token_ids := [7, 8], all_token_ids := [1, 7, 8],
       max_tokens := 2, sampling_params_of := Some sp\<rparr>"
  have "\<exists>r'. check_stop r 100 = Inr (True, r') \<and> status r' = FINISHED_LENGTH_CAPPED"
    using check_stop_correct [of r sp 100]
    by (auto simp: r_def sp_def stop_token_def length_capped_def num_output_tokens_def)
  then show ?thesis by (simp add: r_def sp_def Let_def)
qed

text \<open>
  \<^verbatim>\<open>remove_all\<close> on a list without repetitions removes exactly the given items and
  keeps the order of the others, on the fast path as on the general one.
\<close>

theorem remove_all_filter:
  assumes "distinct lst"
  shows "remove_all lst items = filter (\<lambda>x. x \<notin> set items) lst"
proof (cases items)
  case (Cons i js)
  then show ?thesis using assms
    by (cases js) (auto simp: remove_all_def distinct_remove1_removeAll removeAll_filter_not_eq eq_commute)
qed (simp add: remove_all_def)

theorem remove_all_filter_witness: "remove_all [1, 2, 3 :: int] [2] = [1, 3]"
  using remove_all_filter [of "[1, 2, 3 :: int]" "[2]"] by simp

end
