(* ===== verification/KV_Spec.thy ===== *)
theory KV_Spec
  imports Prelude
begin

text \<open>
  The cache formats of \<^verbatim>\<open>src/vllm/v1/kv_cache_interface.py\<close>: one record per dataclass,
  extended the way the classes inherit, a datatype of the formats a layer can have, and the
  format of a group of layers. Sizes of element types come from torch and are a parameter
  \<open>ds\<close>. Python's division raises on zero, so the divisions of the planner are results.
\<close>

section \<open>The dataclasses\<close>

record kv_cache_spec =
  spec_block_size :: nat

record attention_spec = kv_cache_spec +
  num_kv_heads :: int
  head_size :: int
  dtype :: string
  page_size_padded :: "int option"

record full_attention_spec = attention_spec +
  head_size_v :: int
  full_sliding_window :: "int option"
  full_attention_chunk_size :: "int option"

record mla_attention_spec = full_attention_spec +
  cache_dtype_str :: "string option"

record sink_attention_spec = full_attention_spec +
  sink_len :: "int option"

record chunked_local_spec = attention_spec +
  attention_chunk_size :: int

record sliding_window_spec = attention_spec +
  sliding_window :: int

record mamba_spec = kv_cache_spec +
  shapes :: "int list list"
  dtypes :: "string list"
  mamba_page_size_padded :: "int option"
  mamba_type :: string
  mamba_cache_mode :: string
  num_speculative_blocks :: int

datatype layer_spec =
    FullAttentionSpec full_attention_spec
  | MLAAttentionSpec mla_attention_spec
  | SinkFullAttentionSpec sink_attention_spec
  | ChunkedLocalAttentionSpec chunked_local_spec
  | SlidingWindowSpec sliding_window_spec
  | MambaSpec mamba_spec
  | EncoderOnlyAttentionSpec attention_spec
  | CrossAttentionSpec attention_spec

datatype kv_spec =
    LayerSpec layer_spec
  | UniformTypeKVCacheSpecs nat "(string \<times> layer_spec) list"

record kv_cache_tensor =
  tensor_size :: int
  shared_by :: "string list"

record kv_cache_group_spec =
  layer_names :: "string list"
  group_spec :: kv_spec

record kv_cache_config =
  config_num_blocks :: int
  kv_cache_tensors :: "kv_cache_tensor list"
  kv_cache_groups :: "kv_cache_group_spec list"

text \<open>The fields of the configuration object that the planner reads.\<close>

record vllm_config =
  max_model_len :: int
  max_num_batched_tokens :: int
  max_num_encoder_tokens :: int
  decode_context_parallel_size :: int
  prefill_context_parallel_size :: int
  config_mamba_cache_mode :: string
  num_gpu_blocks_override :: "int option"
  disable_hybrid_kv_cache_manager :: bool
  original_max_model_len :: int

section \<open>Divisions that raise\<close>

definition py_div :: "int \<Rightarrow> int \<Rightarrow> int result" where
  "py_div a b = (if b = 0 then Inl ZeroDivisionError else Inr (a div b))"

definition py_cdiv :: "int \<Rightarrow> int \<Rightarrow> int result" where
  "py_cdiv a b = (if b = 0 then Inl ZeroDivisionError else Inr (cdiv a b))"

lemma py_div_pos [simp, result_simps]: "0 < b \<Longrightarrow> py_div a b = Inr (a div b)"
  by (simp add: py_div_def)

lemma py_cdiv_pos [simp, result_simps]: "0 < b \<Longrightarrow> py_cdiv a b = Inr (cdiv a b)"
  by (simp add: py_cdiv_def)

fun rmap :: "('a \<Rightarrow> 'b result) \<Rightarrow> 'a list \<Rightarrow> 'b list result" where
  "rmap f [] = Inr []"
| "rmap f (x # xs) = rbind (f x) (\<lambda>y. rbind (rmap f xs) (\<lambda>ys. Inr (y # ys)))"

lemma rmap_Inr: "(\<And>x. x \<in> set xs \<Longrightarrow> f x = Inr (g x)) \<Longrightarrow> rmap f xs = Inr (map g xs)"
  by (induction xs) auto

lemma rmap_eq_Inr: "rmap f xs = Inr ys \<longleftrightarrow> list_all2 (\<lambda>x y. f x = Inr y) xs ys"
  by (induction xs arbitrary: ys) (auto simp: rbind_eq_Inr list_all2_Cons1)

lemma rmap_cong [fundef_cong]: "xs = ys \<Longrightarrow> (\<And>x. x \<in> set ys \<Longrightarrow> f x = g x) \<Longrightarrow> rmap f xs = rmap g ys"
  by (induction ys arbitrary: xs) auto

definition py_max :: "int list \<Rightarrow> int result" where
  "py_max xs = (if xs = [] then Inl ValueError else Inr (Max (set xs)))"

definition py_min :: "int list \<Rightarrow> int result" where
  "py_min xs = (if xs = [] then Inl ValueError else Inr (Min (set xs)))"

section \<open>Page sizes\<close>

definition padded_page :: "int option \<Rightarrow> int \<Rightarrow> int result" where
  "padded_page padded real_page_size =
     (case padded of
        Some n \<Rightarrow> rbind (ensure (real_page_size \<le> n) AssertionError) (\<lambda>_. Inr n)
      | None \<Rightarrow> Inr real_page_size)"

definition attention_real_page :: "(string \<Rightarrow> int) \<Rightarrow> 'a attention_spec_scheme \<Rightarrow> int" where
  "attention_real_page ds s = 2 * int (spec_block_size s) * num_kv_heads s * head_size s * ds (dtype s)"

definition full_real_page :: "(string \<Rightarrow> int) \<Rightarrow> 'a full_attention_spec_scheme \<Rightarrow> int" where
  "full_real_page ds s = int (spec_block_size s) * num_kv_heads s * (head_size s + head_size_v s) * ds (dtype s)"

definition mla_real_page :: "(string \<Rightarrow> int) \<Rightarrow> mla_attention_spec \<Rightarrow> int" where
  "mla_real_page ds s =
     (if cache_dtype_str s = Some ''fp8_ds_mla'' then int (spec_block_size s) * 656
      else int (spec_block_size s) * num_kv_heads s * head_size s * ds (dtype s))"

definition mamba_page :: "(string \<Rightarrow> int) \<Rightarrow> mamba_spec \<Rightarrow> int" where
  "mamba_page ds s = sum_list (map (\<lambda>(shape, d). prod_list shape * ds d) (zip (shapes s) (dtypes s)))"

fun page_size_bytes :: "(string \<Rightarrow> int) \<Rightarrow> layer_spec \<Rightarrow> int result" where
  "page_size_bytes ds (FullAttentionSpec s) = padded_page (page_size_padded s) (full_real_page ds s)"
| "page_size_bytes ds (MLAAttentionSpec s) = padded_page (page_size_padded s) (mla_real_page ds s)"
| "page_size_bytes ds (SinkFullAttentionSpec s) = padded_page (page_size_padded s) (full_real_page ds s)"
| "page_size_bytes ds (ChunkedLocalAttentionSpec s) = padded_page (page_size_padded s) (attention_real_page ds s)"
| "page_size_bytes ds (SlidingWindowSpec s) = padded_page (page_size_padded s) (attention_real_page ds s)"
| "page_size_bytes ds (MambaSpec s) = padded_page (mamba_page_size_padded s) (mamba_page ds s)"
| "page_size_bytes ds (EncoderOnlyAttentionSpec s) = padded_page (page_size_padded s) (attention_real_page ds s)"
| "page_size_bytes ds (CrossAttentionSpec s) = padded_page (page_size_padded s) (attention_real_page ds s)"

fun block_size_of :: "layer_spec \<Rightarrow> nat" where
  "block_size_of (FullAttentionSpec s) = spec_block_size s"
| "block_size_of (MLAAttentionSpec s) = spec_block_size s"
| "block_size_of (SinkFullAttentionSpec s) = spec_block_size s"
| "block_size_of (ChunkedLocalAttentionSpec s) = spec_block_size s"
| "block_size_of (SlidingWindowSpec s) = spec_block_size s"
| "block_size_of (MambaSpec s) = spec_block_size s"
| "block_size_of (EncoderOnlyAttentionSpec s) = spec_block_size s"
| "block_size_of (CrossAttentionSpec s) = spec_block_size s"

fun copy_with_new_block_size :: "nat \<Rightarrow> layer_spec \<Rightarrow> layer_spec" where
  "copy_with_new_block_size n (FullAttentionSpec s) = FullAttentionSpec (s\<lparr>spec_block_size := n\<rparr>)"
| "copy_with_new_block_size n (MLAAttentionSpec s) = MLAAttentionSpec (s\<lparr>spec_block_size := n\<rparr>)"
| "copy_with_new_block_size n (SinkFullAttentionSpec s) = SinkFullAttentionSpec (s\<lparr>spec_block_size := n\<rparr>)"
| "copy_with_new_block_size n (ChunkedLocalAttentionSpec s) = ChunkedLocalAttentionSpec (s\<lparr>spec_block_size := n\<rparr>)"
| "copy_with_new_block_size n (SlidingWindowSpec s) = SlidingWindowSpec (s\<lparr>spec_block_size := n\<rparr>)"
| "copy_with_new_block_size n (MambaSpec s) = MambaSpec (s\<lparr>spec_block_size := n\<rparr>)"
| "copy_with_new_block_size n (EncoderOnlyAttentionSpec s) = EncoderOnlyAttentionSpec (s\<lparr>spec_block_size := n\<rparr>)"
| "copy_with_new_block_size n (CrossAttentionSpec s) = CrossAttentionSpec (s\<lparr>spec_block_size := n\<rparr>)"

section \<open>Memory of the longest request\<close>

definition full_max_tokens :: "vllm_config \<Rightarrow> int result" where
  "full_max_tokens cfg =
     (let n = decode_context_parallel_size cfg * prefill_context_parallel_size cfg
      in if 1 < n then py_cdiv (max_model_len cfg) n else Inr (max_model_len cfg))"

definition full_max_pages :: "vllm_config \<Rightarrow> 'a full_attention_spec_scheme \<Rightarrow> int result" where
  "full_max_pages cfg s = rbind (full_max_tokens cfg) (\<lambda>n. py_cdiv n (int (spec_block_size s)))"

definition chunked_max_pages :: "vllm_config \<Rightarrow> chunked_local_spec \<Rightarrow> int result" where
  "chunked_max_pages cfg s =
     py_cdiv (min (attention_chunk_size s + max_num_batched_tokens cfg) (max_model_len cfg)) (int (spec_block_size s))"

definition window_max_pages :: "vllm_config \<Rightarrow> sliding_window_spec \<Rightarrow> int result" where
  "window_max_pages cfg s =
     rbind (ensure (decode_context_parallel_size cfg = 1) AssertionError) (\<lambda>_.
     rbind (py_cdiv (min (sliding_window s - 1 + max_num_batched_tokens cfg) (max_model_len cfg)) (int (spec_block_size s)))
       (\<lambda>n. Inr (n + 1)))"

definition mamba_max_pages :: "vllm_config \<Rightarrow> mamba_spec \<Rightarrow> int result" where
  "mamba_max_pages cfg s =
     (if config_mamba_cache_mode cfg = ''all'' then py_cdiv (max_model_len cfg) (int (spec_block_size s))
      else if config_mamba_cache_mode cfg = ''align'' then Inr (2 + num_speculative_blocks s)
      else Inr (1 + num_speculative_blocks s))"

definition cross_max_pages :: "vllm_config \<Rightarrow> attention_spec \<Rightarrow> int result" where
  "cross_max_pages cfg s = py_cdiv (max_num_encoder_tokens cfg) (int (spec_block_size s))"

lemmas max_pages_defs = full_max_pages_def chunked_max_pages_def window_max_pages_def mamba_max_pages_def cross_max_pages_def

text \<open>Every format asks for a number of pages; encoder-only layers ask for none.\<close>

fun max_pages :: "vllm_config \<Rightarrow> layer_spec \<Rightarrow> int result" where
  "max_pages cfg (FullAttentionSpec s) = full_max_pages cfg s"
| "max_pages cfg (MLAAttentionSpec s) = full_max_pages cfg s"
| "max_pages cfg (SinkFullAttentionSpec s) = full_max_pages cfg s"
| "max_pages cfg (ChunkedLocalAttentionSpec s) = chunked_max_pages cfg s"
| "max_pages cfg (SlidingWindowSpec s) = window_max_pages cfg s"
| "max_pages cfg (MambaSpec s) = mamba_max_pages cfg s"
| "max_pages cfg (EncoderOnlyAttentionSpec s) = Inr 0"
| "max_pages cfg (CrossAttentionSpec s) = cross_max_pages cfg s"

definition layer_max_memory :: "(string \<Rightarrow> int) \<Rightarrow> vllm_config \<Rightarrow> layer_spec \<Rightarrow> int result" where
  "layer_max_memory ds cfg s =
     (case s of
        EncoderOnlyAttentionSpec _ \<Rightarrow> Inr 0
      | _ \<Rightarrow> rbind (max_pages cfg s) (\<lambda>n. rbind (page_size_bytes ds s) (\<lambda>b. Inr (n * b))))"

fun spec_page_size :: "(string \<Rightarrow> int) \<Rightarrow> kv_spec \<Rightarrow> int result" where
  "spec_page_size ds (LayerSpec s) = page_size_bytes ds s"
| "spec_page_size ds (UniformTypeKVCacheSpecs bs specs) =
     rbind (rmap (\<lambda>(_, s). page_size_bytes ds s) specs) (\<lambda>ps. Inr (sum_list ps))"

fun max_memory_usage_bytes :: "(string \<Rightarrow> int) \<Rightarrow> vllm_config \<Rightarrow> kv_spec \<Rightarrow> int result" where
  "max_memory_usage_bytes ds cfg (LayerSpec s) = layer_max_memory ds cfg s"
| "max_memory_usage_bytes ds cfg (UniformTypeKVCacheSpecs bs specs) =
     rbind (rmap (\<lambda>(_, s). rbind (layer_max_memory ds cfg s) (\<lambda>m. rbind (page_size_bytes ds s) (py_cdiv m))) specs) (\<lambda>pages.
     rbind (py_max pages) (\<lambda>max_num_pages.
     rbind (spec_page_size ds (UniformTypeKVCacheSpecs bs specs)) (\<lambda>page. Inr (max_num_pages * page))))"

section \<open>Merging the formats of a group\<close>

text \<open>The part of a format that the class \<^verbatim>\<open>AttentionSpec\<close> declares.\<close>

definition attention_fields :: "'a attention_spec_scheme \<Rightarrow> nat \<times> int \<times> int \<times> string \<times> int option" where
  "attention_fields s = (spec_block_size s, num_kv_heads s, head_size s, dtype s, page_size_padded s)"

fun as_full :: "layer_spec \<Rightarrow> full_attention_spec option" where
  "as_full (FullAttentionSpec s) = Some s"
| "as_full (MLAAttentionSpec s) = Some (full_attention_spec.truncate s)"
| "as_full (SinkFullAttentionSpec s) = Some (full_attention_spec.truncate s)"
| "as_full _ = None"

fun is_mla :: "layer_spec \<Rightarrow> bool" where
  "is_mla (MLAAttentionSpec s) = True"
| "is_mla _ = False"

fun as_mla :: "layer_spec \<Rightarrow> mla_attention_spec option" where
  "as_mla (MLAAttentionSpec s) = Some s"
| "as_mla _ = None"

definition merge_window_sizes :: "int list \<Rightarrow> int option result" where
  "merge_window_sizes window_sizes =
     (case remdups window_sizes of [] \<Rightarrow> Inr None | [w] \<Rightarrow> Inr (Some w) | _ \<Rightarrow> Inl ValueError)"

definition merge_full :: "full_attention_spec \<Rightarrow> layer_spec list \<Rightarrow> full_attention_spec result" where
  "merge_full first specs =
     rbind (ensure (\<forall>s \<in> set specs. as_full s \<noteq> None) AssertionError) (\<lambda>_.
     let fulls = List.map_filter as_full specs in
     rbind (ensure (\<forall>s \<in> set specs. \<not> is_mla s) AssertionError) (\<lambda>_.
     rbind (merge_window_sizes (List.map_filter full_sliding_window fulls)) (\<lambda>window.
     rbind (merge_window_sizes (List.map_filter full_attention_chunk_size fulls)) (\<lambda>chunk.
     let merged = first\<lparr>full_sliding_window := window, full_attention_chunk_size := chunk\<rparr> in
     rbind (ensure (\<forall>s \<in> set fulls. attention_fields s = attention_fields merged) AssertionError) (\<lambda>_.
     rbind (ensure (window = None \<or> chunk = None) AssertionError) (\<lambda>_. Inr merged))))))"

definition merge_mla :: "mla_attention_spec \<Rightarrow> layer_spec list \<Rightarrow> mla_attention_spec result" where
  "merge_mla first specs =
     rbind (ensure (\<forall>s \<in> set specs. is_mla s) AssertionError) (\<lambda>_.
     case remdups (map cache_dtype_str (List.map_filter as_mla specs)) of
       [d] \<Rightarrow> Inr \<lparr>spec_block_size = spec_block_size first, num_kv_heads = num_kv_heads first,
                   head_size = head_size first, dtype = dtype first, page_size_padded = page_size_padded first,
                   head_size_v = head_size first, full_sliding_window = None, full_attention_chunk_size = None,
                   cache_dtype_str = d\<rparr>
     | _ \<Rightarrow> Inl AssertionError)"

definition merge_sink :: "sink_attention_spec \<Rightarrow> layer_spec list \<Rightarrow> sink_attention_spec result" where
  "merge_sink first specs =
     rbind (merge_full (full_attention_spec.truncate first) specs) (\<lambda>m.
       Inr (full_attention_spec.extend m (sink_attention_spec.fields (sink_len first))))"

text \<open>The class method is called on the first format of the group.\<close>

definition merge :: "layer_spec list \<Rightarrow> layer_spec result" where
  "merge specs =
     (case specs of
        [] \<Rightarrow> Inl IndexError
      | FullAttentionSpec s # _ \<Rightarrow> rbind (merge_full s specs) (\<lambda>m. Inr (FullAttentionSpec m))
      | SinkFullAttentionSpec s # _ \<Rightarrow>
          rbind (merge_sink s specs) (\<lambda>m. Inr (SinkFullAttentionSpec m))
      | MLAAttentionSpec s # _ \<Rightarrow> rbind (merge_mla s specs) (\<lambda>m. Inr (MLAAttentionSpec m))
      | s # rest \<Rightarrow> rbind (ensure (\<forall>t \<in> set rest. t = s) AssertionError) (\<lambda>_. Inr s))"

section \<open>Formats of the same type\<close>

definition is_uniform_type :: "(string \<times> layer_spec) list \<Rightarrow> bool result" where
  "is_uniform_type kv_cache_specs =
     (let specs = map snd kv_cache_specs in
      if 1 < length (remdups (map block_size_of specs)) then Inr False
      else
        (case specs of
           [] \<Rightarrow> Inl StopIteration
         | one # _ \<Rightarrow>
             (case one of
                CrossAttentionSpec _ \<Rightarrow> Inr (list_all (\<lambda>s. case s of CrossAttentionSpec _ \<Rightarrow> True | _ \<Rightarrow> False) specs)
              | SlidingWindowSpec o' \<Rightarrow> Inr (list_all (\<lambda>s. case s of
                    SlidingWindowSpec t \<Rightarrow> sliding_window t = sliding_window o' | _ \<Rightarrow> False) specs)
              | ChunkedLocalAttentionSpec o' \<Rightarrow> Inr (list_all (\<lambda>s. case s of
                    ChunkedLocalAttentionSpec t \<Rightarrow> attention_chunk_size t = attention_chunk_size o' | _ \<Rightarrow> False) specs)
              | MambaSpec o' \<Rightarrow> Inr (list_all (\<lambda>s. case s of
                    MambaSpec t \<Rightarrow> num_speculative_blocks t = num_speculative_blocks o' | _ \<Rightarrow> False) specs)
              | EncoderOnlyAttentionSpec _ \<Rightarrow> Inl NotImplementedError
              | _ \<Rightarrow> Inr (list_all (\<lambda>s. as_full s \<noteq> None) specs))))"

definition from_specs :: "(string \<times> layer_spec) list \<Rightarrow> kv_spec option result" where
  "from_specs kv_cache_specs =
     rbind (is_uniform_type kv_cache_specs) (\<lambda>u.
       if u then
         (case kv_cache_specs of [] \<Rightarrow> Inl StopIteration
          | (_, s) # _ \<Rightarrow> Inr (Some (UniformTypeKVCacheSpecs (block_size_of s) kv_cache_specs)))
       else Inr None)"

end
