(* ===== verification/KV_Config.thy ===== *)
theory KV_Config
  imports KV_Spec "HOL-Library.Multiset"
begin

text \<open>
  The memory planner of \<^verbatim>\<open>src/vllm/v1/core/kv_cache_utils.py\<close>: grouping the layers of a
  model, sizing the cache tensors of every worker, and finding the longest context that
  fits. A dictionary from layer names to formats is an association list in insertion order
  with distinct keys. Messages to the log are left out.
\<close>

type_synonym layer_dict = "(string \<times> layer_spec) list"

section \<open>The memory check and the search for the longest context\<close>

definition check_enough_kv_cache_memory_with :: "int \<Rightarrow> int result \<Rightarrow> (int \<Rightarrow> int result) \<Rightarrow> unit result" where
  "check_enough_kv_cache_memory_with available_memory needed estimate =
     (if available_memory \<le> 0 then Inl ValueError
      else rbind needed (\<lambda>needed_memory.
        if available_memory < needed_memory then rbind (estimate available_memory) (\<lambda>_. Inl ValueError)
        else Inr ()))"

definition max_memory_usage_of :: "(string \<Rightarrow> int) \<Rightarrow> vllm_config \<Rightarrow> kv_spec list \<Rightarrow> int result" where
  "max_memory_usage_of ds cfg specs = rbind (rmap (max_memory_usage_bytes ds cfg) specs) (\<lambda>ms. Inr (sum_list ms))"

text \<open>The bisection loop of both estimators.\<close>

function bisect :: "(int \<Rightarrow> bool result) \<Rightarrow> int \<Rightarrow> int \<Rightarrow> int \<Rightarrow> int result" where
  "bisect fits left right best =
     (if left \<le> right then
        let mid = (left + right) div 2
        in rbind (fits mid) (\<lambda>ok. if ok then bisect fits (mid + 1) right mid else bisect fits left (mid - 1) best)
      else Inr best)"
  by pat_completeness auto

termination
  by (relation "measure (\<lambda>(_, left, right, _). nat (right - left + 1))") auto

declare bisect.simps [simp del]

definition search_max_len :: "(int \<Rightarrow> bool result) \<Rightarrow> int \<Rightarrow> int result" where
  "search_max_len fits original_max =
     rbind (fits 1) (\<lambda>ok. if \<not> ok then Inr 0 else bisect fits 1 original_max 1)"

definition fits_in_memory :: "(string \<Rightarrow> int) \<Rightarrow> vllm_config \<Rightarrow> layer_dict \<Rightarrow> int \<Rightarrow> int \<Rightarrow> bool result" where
  "fits_in_memory ds cfg kv_cache_spec available_memory model_len =
     rbind (max_memory_usage_of ds (cfg\<lparr>max_model_len := model_len\<rparr>) (map (LayerSpec \<circ> snd) kv_cache_spec))
       (\<lambda>memory_needed. Inr (memory_needed \<le> available_memory))"

definition estimate_max_model_len :: "(string \<Rightarrow> int) \<Rightarrow> vllm_config \<Rightarrow> layer_dict \<Rightarrow> int \<Rightarrow> int result" where
  "estimate_max_model_len ds cfg kv_cache_spec available_memory =
     search_max_len (fits_in_memory ds cfg kv_cache_spec available_memory) (max_model_len cfg)"

definition check_enough_kv_cache_memory :: "(string \<Rightarrow> int) \<Rightarrow> vllm_config \<Rightarrow> layer_dict \<Rightarrow> int \<Rightarrow> unit result" where
  "check_enough_kv_cache_memory ds cfg kv_cache_spec available_memory =
     (if kv_cache_spec = [] then Inr ()
      else check_enough_kv_cache_memory_with available_memory
        (max_memory_usage_of ds cfg (map (LayerSpec \<circ> snd) kv_cache_spec))
        (estimate_max_model_len ds cfg kv_cache_spec))"

section \<open>Grouping the layers\<close>

definition lookup :: "layer_dict \<Rightarrow> string \<Rightarrow> layer_spec result" where
  "lookup d k = (case map_of d k of None \<Rightarrow> Inl KeyError | Some s \<Rightarrow> Inr s)"

definition create_kv_cache_group_specs :: "layer_dict \<Rightarrow> string list list \<Rightarrow> kv_cache_group_spec list result" where
  "create_kv_cache_group_specs kv_cache_spec grouped_layer_names =
     rmap (\<lambda>names. rbind (rmap (lookup kv_cache_spec) names) (\<lambda>specs. rbind (merge specs) (\<lambda>merged.
       Inr \<lparr>layer_names = names, group_spec = LayerSpec merged\<rparr>))) grouped_layer_names"

definition is_kv_cache_spec_uniform :: "layer_dict \<Rightarrow> bool result" where
  "is_kv_cache_spec_uniform kv_cache_spec =
     (if kv_cache_spec = [] then Inr True
      else case merge (map snd kv_cache_spec) of
             Inl AssertionError \<Rightarrow> Inr False
           | Inl e \<Rightarrow> Inl e
           | Inr _ \<Rightarrow> Inr True)"

definition may_override_num_blocks :: "vllm_config \<Rightarrow> int \<Rightarrow> int" where
  "may_override_num_blocks cfg num_blocks =
     (case num_gpu_blocks_override cfg of Some n \<Rightarrow> n | None \<Rightarrow> num_blocks)"

definition get_num_blocks :: "vllm_config \<Rightarrow> int \<Rightarrow> int \<Rightarrow> int \<Rightarrow> int result" where
  "get_num_blocks cfg num_layers available_memory page_size =
     rbind (py_div available_memory page_size) (\<lambda>n. rbind (py_div n num_layers) (\<lambda>n.
       Inr (may_override_num_blocks cfg (max n 0))))"

definition get_uniform_page_size :: "(string \<Rightarrow> int) \<Rightarrow> kv_spec list \<Rightarrow> int result" where
  "get_uniform_page_size ds specs =
     rbind (rmap (spec_page_size ds) specs) (\<lambda>ps. case remdups ps of [p] \<Rightarrow> Inr p | _ \<Rightarrow> Inl AssertionError)"

definition get_kv_cache_groups_uniform_spec :: "layer_dict \<Rightarrow> kv_cache_group_spec list result" where
  "get_kv_cache_groups_uniform_spec kv_cache_specs =
     create_kv_cache_group_specs kv_cache_specs [map fst kv_cache_specs]"

definition get_kv_cache_groups_uniform_type :: "nat \<Rightarrow> layer_dict \<Rightarrow> kv_cache_group_spec list" where
  "get_kv_cache_groups_uniform_type bs specs =
     [\<lparr>layer_names = map fst specs, group_spec = UniformTypeKVCacheSpecs bs specs\<rparr>]"

definition is_kv_cache_page_size_uniform :: "(string \<Rightarrow> int) \<Rightarrow> layer_dict \<Rightarrow> bool result" where
  "is_kv_cache_page_size_uniform ds kv_cache_spec =
     rbind (rmap (page_size_bytes ds \<circ> snd) kv_cache_spec) (\<lambda>ps. Inr (length (remdups ps) = 1))"

definition unify_one :: "(string \<Rightarrow> int) \<Rightarrow> int \<Rightarrow> layer_spec \<Rightarrow> layer_spec result" where
  "unify_one ds max_page_size s =
     rbind (page_size_bytes ds s) (\<lambda>layer_page_size.
       if layer_page_size = max_page_size then Inr s
       else if layer_page_size = 0 then Inl ZeroDivisionError
       else if max_page_size mod layer_page_size \<noteq> 0 then Inl NotImplementedError
       else
         let ratio = max_page_size div layer_page_size;
             new_spec = copy_with_new_block_size (block_size_of s * nat ratio) s
         in rbind (page_size_bytes ds new_spec) (\<lambda>p.
              rbind (ensure (p = max_page_size) AssertionError) (\<lambda>_. Inr new_spec)))"

definition unify_kv_cache_spec_page_size :: "(string \<Rightarrow> int) \<Rightarrow> layer_dict \<Rightarrow> layer_dict result" where
  "unify_kv_cache_spec_page_size ds kv_cache_spec =
     rbind (rmap (page_size_bytes ds \<circ> snd) kv_cache_spec) (\<lambda>page_sizes.
       if length (remdups page_sizes) \<le> 1 then Inr kv_cache_spec
       else rmap (\<lambda>(name, s). rbind (unify_one ds (Max (set page_sizes)) s) (\<lambda>s. Inr (name, s))) kv_cache_spec)"

text \<open>\<^verbatim>\<open>same_type_layers\<close> is a dictionary from formats to layer names, in insertion order.\<close>

fun add_layer :: "(string \<times> layer_spec) \<Rightarrow> (layer_spec \<times> string list) list \<Rightarrow> (layer_spec \<times> string list) list" where
  "add_layer (name, s) [] = [(s, [name])]"
| "add_layer (name, s) ((t, names) # d) =
     (if t = s then (t, names @ [name]) # d else (t, names) # add_layer (name, s) d)"

definition same_type_layers :: "layer_dict \<Rightarrow> (layer_spec \<times> string list) list" where
  "same_type_layers kv_cache_spec = fold add_layer kv_cache_spec []"

text \<open>\<^verbatim>\<open>layers[i::n]\<close>\<close>

definition every_nth :: "nat \<Rightarrow> nat \<Rightarrow> 'a list \<Rightarrow> 'a list" where
  "every_nth i n xs = map (\<lambda>k. xs ! k) (filter (\<lambda>k. k mod n = i) [0..<length xs])"

definition group_size_of :: "nat list \<Rightarrow> nat" where
  "group_size_of lens =
     (let min_num_layers = Min (set lens); max_num_layers = Max (set lens)
      in if 2 * max_num_layers < 3 * min_num_layers then max_num_layers else min_num_layers)"

definition split_layers :: "nat \<Rightarrow> string list \<Rightarrow> string list list" where
  "split_layers group_size layers =
     (let num_groups = ncdiv (length layers) group_size in map (\<lambda>i. every_nth i num_groups layers) [0..<num_groups])"

definition get_kv_cache_groups_uniform_page_size :: "layer_dict \<Rightarrow> kv_cache_group_spec list result" where
  "get_kv_cache_groups_uniform_page_size kv_cache_spec =
     (let same = same_type_layers kv_cache_spec
      in if same = [] then Inl ValueError
         else
           let group_size = group_size_of (map (length \<circ> snd) same)
           in create_kv_cache_group_specs kv_cache_spec (concat (map (split_layers group_size \<circ> snd) same)))"

section \<open>Hybrid models without the hybrid cache manager\<close>

fun as_full_attention :: "layer_spec \<Rightarrow> layer_spec" where
  "as_full_attention (SlidingWindowSpec s) = FullAttentionSpec
     \<lparr>spec_block_size = spec_block_size s, num_kv_heads = num_kv_heads s, head_size = head_size s,
      dtype = dtype s, page_size_padded = page_size_padded s, head_size_v = head_size s,
      full_sliding_window = Some (sliding_window s), full_attention_chunk_size = None\<rparr>"
| "as_full_attention (ChunkedLocalAttentionSpec s) = FullAttentionSpec
     \<lparr>spec_block_size = spec_block_size s, num_kv_heads = num_kv_heads s, head_size = head_size s,
      dtype = dtype s, page_size_padded = page_size_padded s, head_size_v = head_size s,
      full_sliding_window = None, full_attention_chunk_size = Some (attention_chunk_size s)\<rparr>"
| "as_full_attention s = s"

definition spec_or_type_uniform :: "layer_dict \<Rightarrow> bool result" where
  "spec_or_type_uniform d = rbind (is_kv_cache_spec_uniform d) (\<lambda>u. if u then Inr True else is_uniform_type d)"

definition unify_hybrid_kv_cache_specs :: "layer_dict \<Rightarrow> layer_dict result" where
  "unify_hybrid_kv_cache_specs kv_cache_spec =
     rbind (spec_or_type_uniform kv_cache_spec) (\<lambda>u.
       if u then Inr kv_cache_spec
       else
         let specs = map snd kv_cache_spec;
             has_full_attention = list_ex (\<lambda>s. as_full s \<noteq> None) specs;
             has_other = list_ex (\<lambda>s. case s of SlidingWindowSpec _ \<Rightarrow> True | ChunkedLocalAttentionSpec _ \<Rightarrow> True | _ \<Rightarrow> False) specs;
             d = (if has_full_attention \<and> has_other then map (\<lambda>(n, s). (n, as_full_attention s)) kv_cache_spec
                  else kv_cache_spec)
         in rbind (spec_or_type_uniform d) (\<lambda>u. if u then Inr d else Inl ValueError))"

definition get_kv_cache_groups :: "(string \<Rightarrow> int) \<Rightarrow> vllm_config \<Rightarrow> layer_dict \<Rightarrow> kv_cache_group_spec list result" where
  "get_kv_cache_groups ds cfg kv_cache_spec =
     rbind (if disable_hybrid_kv_cache_manager cfg then unify_hybrid_kv_cache_specs kv_cache_spec else Inr kv_cache_spec) (\<lambda>d.
     if d = [] then Inr []
     else rbind (is_kv_cache_spec_uniform d) (\<lambda>u.
       if u then get_kv_cache_groups_uniform_spec d
       else rbind (from_specs d) (\<lambda>uniform_spec.
         case uniform_spec of
           Some (UniformTypeKVCacheSpecs bs specs) \<Rightarrow> Inr (get_kv_cache_groups_uniform_type bs specs)
         | _ \<Rightarrow> rbind (unify_kv_cache_spec_page_size ds d) get_kv_cache_groups_uniform_page_size)))"

section \<open>The configuration of a worker\<close>

definition shared_layers :: "kv_cache_group_spec list \<Rightarrow> nat \<Rightarrow> string list" where
  "shared_layers groups i = List.map_filter (\<lambda>g. if i < length (layer_names g) then Some (layer_names g ! i) else None) groups"

definition uniform_tensors :: "(string \<Rightarrow> int) \<Rightarrow> layer_dict \<Rightarrow> string list \<Rightarrow> int \<Rightarrow> kv_cache_tensor list result" where
  "uniform_tensors ds specs names num_blocks =
     rmap (\<lambda>n. rbind (lookup specs n) (\<lambda>s. rbind (page_size_bytes ds s) (\<lambda>p.
       Inr \<lparr>tensor_size = p * num_blocks, shared_by = [n]\<rparr>))) names"

definition get_kv_cache_config_from_groups :: "(string \<Rightarrow> int) \<Rightarrow> vllm_config \<Rightarrow> kv_cache_group_spec list \<Rightarrow> int
     \<Rightarrow> kv_cache_config result" where
  "get_kv_cache_config_from_groups ds cfg groups available_memory =
     (case groups of
        [] \<Rightarrow> Inr \<lparr>config_num_blocks = 1, kv_cache_tensors = [], kv_cache_groups = groups\<rparr>
      | g # rest \<Rightarrow>
          (case (rest, group_spec g) of
             ([], UniformTypeKVCacheSpecs bs specs) \<Rightarrow>
               rbind (spec_page_size ds (group_spec g)) (\<lambda>page.
               rbind (py_div available_memory page) (\<lambda>n.
               let num_blocks = may_override_num_blocks cfg n in
               rbind (uniform_tensors ds specs (layer_names g) num_blocks) (\<lambda>ts.
               Inr \<lparr>config_num_blocks = num_blocks, kv_cache_tensors = ts, kv_cache_groups = groups\<rparr>)))
           | _ \<Rightarrow>
               let group_size = Max (set (map (length \<circ> layer_names) groups)) in
               rbind (get_uniform_page_size ds (map group_spec groups)) (\<lambda>page_size.
               rbind (ensure (0 < group_size) AssertionError) (\<lambda>_.
               rbind (get_num_blocks cfg (int group_size) available_memory page_size) (\<lambda>num_blocks.
               Inr \<lparr>config_num_blocks = num_blocks,
                    kv_cache_tensors = map (\<lambda>i. \<lparr>tensor_size = page_size * num_blocks, shared_by = shared_layers groups i\<rparr>)
                      [0..<group_size],
                    kv_cache_groups = groups\<rparr>)))))"

definition get_max_concurrency_for_kv_cache_config :: "(string \<Rightarrow> int) \<Rightarrow> vllm_config \<Rightarrow> kv_cache_config \<Rightarrow> rat result" where
  "get_max_concurrency_for_kv_cache_config ds cfg c =
     (case kv_cache_groups c of
        [] \<Rightarrow> Inl ValueError
      | g # _ \<Rightarrow>
          let num_layer_per_group = int (Max (set (map (length \<circ> layer_names) (kv_cache_groups c)))) in
          rbind (max_memory_usage_of ds cfg (map group_spec (kv_cache_groups c))) (\<lambda>m.
          rbind (spec_page_size ds (group_spec g)) (\<lambda>p.
          rbind (py_cdiv (num_layer_per_group * m) (p * num_layer_per_group)) (\<lambda>num_block_per_request.
          if num_block_per_request = 0 then Inl ZeroDivisionError
          else Inr (of_int (config_num_blocks c) / of_int num_block_per_request)))))"

fun kv_spec_block_size :: "kv_spec \<Rightarrow> nat" where
  "kv_spec_block_size (LayerSpec s) = block_size_of s"
| "kv_spec_block_size (UniformTypeKVCacheSpecs bs _) = bs"

text \<open>The two numbers that \<^verbatim>\<open>_report_kv_cache_config\<close> logs.\<close>

definition report_kv_cache_config :: "(string \<Rightarrow> int) \<Rightarrow> vllm_config \<Rightarrow> kv_cache_config \<Rightarrow> (int \<times> rat) result" where
  "report_kv_cache_config ds cfg c =
     rbind (py_min (map (\<lambda>g. int (kv_spec_block_size (group_spec g))) (kv_cache_groups c))) (\<lambda>min_block_size.
     rbind (py_div (config_num_blocks c) (int (length (kv_cache_groups c)))) (\<lambda>n.
     let num_tokens = n * min_block_size;
         cp = prefill_context_parallel_size cfg * decode_context_parallel_size cfg in
     rbind (get_max_concurrency_for_kv_cache_config ds cfg c) (\<lambda>max_concurrency.
     Inr (if 1 < cp then num_tokens * cp else num_tokens, max_concurrency))))"

section \<open>The configuration of the model\<close>

definition generate_scheduler_kv_cache_config :: "kv_cache_config list \<Rightarrow> kv_cache_config result" where
  "generate_scheduler_kv_cache_config cs =
     (case cs of
        [] \<Rightarrow> Inl IndexError
      | c # _ \<Rightarrow>
          rbind (ensure (\<forall>d \<in> set cs. config_num_blocks d = config_num_blocks c) AssertionError) (\<lambda>_.
          rbind (rmap (\<lambda>g. case group_spec g of
              UniformTypeKVCacheSpecs _ specs \<Rightarrow>
                (case specs of [] \<Rightarrow> Inl StopIteration | (_, s) # _ \<Rightarrow> Inr (g\<lparr>group_spec := LayerSpec s\<rparr>))
            | _ \<Rightarrow> Inr g) (kv_cache_groups c)) (\<lambda>gs. Inr (c\<lparr>kv_cache_groups := gs\<rparr>))))"

definition max_memory_usage_bytes_from_groups :: "(string \<Rightarrow> int) \<Rightarrow> vllm_config \<Rightarrow> kv_cache_group_spec list \<Rightarrow> int result" where
  "max_memory_usage_bytes_from_groups ds cfg groups =
     (case groups of
        [] \<Rightarrow> Inr 0
      | g # rest \<Rightarrow>
          (case (rest, group_spec g) of
             ([], UniformTypeKVCacheSpecs bs specs) \<Rightarrow> max_memory_usage_of ds cfg (map (LayerSpec \<circ> snd) specs)
           | _ \<Rightarrow>
               let group_size = int (Max (set (map (length \<circ> layer_names) groups))) in
               rbind (get_uniform_page_size ds (map group_spec groups)) (\<lambda>page_size.
               rbind (max_memory_usage_bytes ds cfg (group_spec g)) (\<lambda>m.
               rbind (py_cdiv m page_size) (\<lambda>blocks_needed.
               Inr (group_size * page_size * blocks_needed))))))"

definition group_fits :: "(string \<Rightarrow> int) \<Rightarrow> vllm_config \<Rightarrow> kv_cache_group_spec list \<Rightarrow> int \<Rightarrow> int \<Rightarrow> bool result" where
  "group_fits ds cfg groups available_memory model_len =
     rbind (max_memory_usage_bytes_from_groups ds (cfg\<lparr>max_model_len := model_len\<rparr>) groups)
       (\<lambda>m. Inr (m \<le> available_memory))"

definition estimate_max_model_len_from_groups :: "(string \<Rightarrow> int) \<Rightarrow> vllm_config \<Rightarrow> kv_cache_group_spec list \<Rightarrow> int \<Rightarrow> int result" where
  "estimate_max_model_len_from_groups ds cfg groups available_memory =
     search_max_len (group_fits ds cfg groups available_memory) (max_model_len cfg)"

definition auto_fit_max_model_len :: "(string \<Rightarrow> int) \<Rightarrow> vllm_config \<Rightarrow> kv_cache_group_spec list list \<Rightarrow> int list
     \<Rightarrow> vllm_config result" where
  "auto_fit_max_model_len ds cfg projected available_memory =
     (let original_max = max_model_len cfg in
      if \<forall>groups \<in> set projected. groups = [] then Inr cfg
      else if available_memory = [] then Inl IndexError
      else
        rbind (rfold (\<lambda>(groups, mem) auto_fit_max.
            if groups = [] then Inr auto_fit_max
            else rbind (estimate_max_model_len_from_groups ds cfg groups mem) (\<lambda>worker_max.
              Inr (if worker_max < auto_fit_max then worker_max else auto_fit_max)))
          (zip projected available_memory) original_max) (\<lambda>auto_fit_max.
        if auto_fit_max \<le> 0 then Inl ValueError
        else if original_max \<le> auto_fit_max then Inr cfg
        else Inr (cfg\<lparr>max_model_len := auto_fit_max\<rparr>)))"

definition project_kv_cache_groups_to_worker :: "kv_cache_group_spec list \<Rightarrow> layer_dict \<Rightarrow> kv_cache_group_spec list result" where
  "project_kv_cache_groups_to_worker groups worker_spec =
     rmap (\<lambda>g.
       let names = filter (\<lambda>n. n \<in> fst ` set worker_spec) (layer_names g)
       in case group_spec g of
            UniformTypeKVCacheSpecs bs specs \<Rightarrow>
              if names = [] then Inr \<lparr>layer_names = names, group_spec = group_spec g\<rparr>
              else rbind (rmap (\<lambda>n. rbind (lookup specs n) (\<lambda>s. Inr (n, s))) names) (\<lambda>specs'.
                Inr \<lparr>layer_names = names, group_spec = UniformTypeKVCacheSpecs bs specs'\<rparr>)
          | _ \<Rightarrow> Inr \<lparr>layer_names = names, group_spec = group_spec g\<rparr>) groups"

definition merge_worker_specs :: "layer_dict list \<Rightarrow> layer_dict result" where
  "merge_worker_specs kv_cache_specs =
     rfold (\<lambda>(name, s) merged.
       case map_of merged name of
         None \<Rightarrow> Inr (merged @ [(name, s)])
       | Some t \<Rightarrow> rbind (ensure (t = s) AssertionError) (\<lambda>_. Inr merged)) (concat kv_cache_specs) []"

definition shrink_config :: "int \<Rightarrow> kv_cache_config \<Rightarrow> kv_cache_config result" where
  "shrink_config min_num_blocks c =
     rbind (rmap (\<lambda>t.
         if config_num_blocks c = 0 then Inl ZeroDivisionError
         else rbind (ensure (tensor_size t mod config_num_blocks c = 0) AssertionError)
           (\<lambda>_. Inr (t\<lparr>tensor_size := tensor_size t div config_num_blocks c * min_num_blocks\<rparr>))) (kv_cache_tensors c)) (\<lambda>ts.
     Inr (c\<lparr>config_num_blocks := min_num_blocks, kv_cache_tensors := ts\<rparr>))"

definition get_kv_cache_configs :: "(string \<Rightarrow> int) \<Rightarrow> vllm_config \<Rightarrow> layer_dict list \<Rightarrow> int list
     \<Rightarrow> (kv_cache_config list \<times> vllm_config) result" where
  "get_kv_cache_configs ds cfg kv_cache_specs available_memory =
     rbind (merge_worker_specs kv_cache_specs) (\<lambda>merged.
     rbind (get_kv_cache_groups ds cfg merged) (\<lambda>global_groups.
     rbind (rmap (project_kv_cache_groups_to_worker global_groups) kv_cache_specs) (\<lambda>projected.
     rbind (if original_max_model_len cfg = -1 then auto_fit_max_model_len ds cfg projected available_memory else Inr cfg) (\<lambda>cfg.
     rbind (rfold (\<lambda>(groups, mem) _. if groups = [] then Inr ()
              else check_enough_kv_cache_memory_with mem (max_memory_usage_bytes_from_groups ds cfg groups)
                     (estimate_max_model_len_from_groups ds cfg groups)) (zip projected available_memory) ()) (\<lambda>_.
     rbind (rmap (\<lambda>(groups, spec, mem).
         rbind (ensure (sum_list (map (length \<circ> layer_names) groups) = length spec) AssertionError) (\<lambda>_.
         get_kv_cache_config_from_groups ds cfg groups mem)) (zip projected (zip kv_cache_specs available_memory))) (\<lambda>configs.
     rbind (py_min (map config_num_blocks configs)) (\<lambda>min_num_blocks.
     rbind (rmap (\<lambda>c. rbind (shrink_config min_num_blocks c) (\<lambda>c.
              rbind (if kv_cache_groups c = [] then Inr () else rbind (report_kv_cache_config ds cfg c) (\<lambda>_. Inr ())) (\<lambda>_. Inr c)))
            configs) (\<lambda>configs.
     Inr (configs, cfg)))))))))"

section \<open>The search finds the longest context that fits\<close>

text \<open>
  What the search relies on: on well-formed inputs the memory need is computed without an
  exception and does not shrink when the context grows.
\<close>

definition within_mem :: "(int \<Rightarrow> int result) \<Rightarrow> int \<Rightarrow> int \<Rightarrow> bool result" where
  "within_mem need memory n = rbind (need n) (\<lambda>m. Inr (m \<le> memory))"

locale memory_need =
  fixes ok :: "'s \<Rightarrow> bool" and need :: "'s \<Rightarrow> int \<Rightarrow> int result"
  assumes need_mono: "ok s \<Longrightarrow> 1 \<le> m \<Longrightarrow> m \<le> n \<Longrightarrow>
    \<exists>a b. need s m = Inr a \<and> need s n = Inr b \<and> a \<le> b"
begin

lemma fits_total: "ok s \<Longrightarrow> 1 \<le> n \<Longrightarrow> within_mem (need s) memory n = Inr True \<or> within_mem (need s) memory n = Inr False"
  using need_mono [of s n n] by (auto simp: within_mem_def)

lemma fits_shorter: "ok s \<Longrightarrow> 1 \<le> m \<Longrightarrow> m \<le> n \<Longrightarrow> within_mem (need s) memory m = Inr False \<Longrightarrow> within_mem (need s) memory n = Inr False"
  using need_mono [of s m n] by (auto simp: within_mem_def)

lemma bisect_spec:
  assumes "ok s" and "1 \<le> left" "left \<le> best + 1" "1 \<le> best" "best \<le> hi" "right \<le> hi"
    and "within_mem (need s) memory best = Inr True"
    and "\<And>n. right < n \<Longrightarrow> n \<le> hi \<Longrightarrow> 1 \<le> n \<Longrightarrow> within_mem (need s) memory n = Inr False"
  shows "\<exists>r. bisect (within_mem (need s) memory) left right best = Inr r \<and> 1 \<le> r \<and> r \<le> hi \<and> within_mem (need s) memory r = Inr True
     \<and> (\<forall>n. r < n \<longrightarrow> n \<le> hi \<longrightarrow> within_mem (need s) memory n = Inr False)"
  using assms
proof (induction "nat (right - left + 1)" arbitrary: left right best rule: less_induct)
  case less
  show ?case
  proof (cases "left \<le> right")
    case True
    define mid where "mid = (left + right) div 2"
    have mid: "left \<le> mid" "mid \<le> right" using True by (auto simp: mid_def)
    have step: "bisect (within_mem (need s) memory) left right best = rbind (within_mem (need s) memory mid)
        (\<lambda>b. if b then bisect (within_mem (need s) memory) (mid + 1) right mid else bisect (within_mem (need s) memory) left (mid - 1) best)"
      using True unfolding mid_def by (simp add: bisect.simps [of _ left] Let_def)
    consider "within_mem (need s) memory mid = Inr True" | "within_mem (need s) memory mid = Inr False"
      using fits_total [of s mid memory] less.prems(1,2) mid by auto
    then show ?thesis
    proof cases
      case 1
      show ?thesis unfolding step 1 using mid less.prems 1 by (simp, intro less.hyps) auto
    next
      case 2
      have "within_mem (need s) memory n = Inr False" if "mid - 1 < n" for n
        using fits_shorter [OF less.prems(1) _ _ 2, of n] that mid less.prems(2) by auto
      then show ?thesis unfolding step 2 using mid less.prems by (simp, intro less.hyps) auto
    qed
  next
    case False
    have "within_mem (need s) memory n = Inr False" if "best < n" "n \<le> hi" for n
      using less.prems(4) less.prems(8) [of n] False less.prems(3) that by simp
    then show ?thesis using less.prems False by (simp add: bisect.simps [of _ left])
  qed
qed

lemma search_spec:
  assumes "ok s" and "1 \<le> hi"
  shows "\<exists>r. search_max_len (within_mem (need s) memory) hi = Inr r \<and> 0 \<le> r \<and> r \<le> hi
     \<and> (\<forall>n. 1 \<le> n \<longrightarrow> n \<le> hi \<longrightarrow> within_mem (need s) memory n = Inr (n \<le> r))"
proof (cases "within_mem (need s) memory 1 = Inr True")
  case True
  then obtain r where r: "bisect (within_mem (need s) memory) 1 hi 1 = Inr r" "1 \<le> r" "r \<le> hi" "within_mem (need s) memory r = Inr True"
    "\<And>n. r < n \<Longrightarrow> n \<le> hi \<Longrightarrow> within_mem (need s) memory n = Inr False"
    using bisect_spec [of s 1 1 hi hi memory] assms by auto
  have "within_mem (need s) memory n = Inr (n \<le> r)" if "1 \<le> n" "n \<le> hi" for n
    using r(4) r(5) [of n] that fits_shorter [of s n r memory] fits_total [of s n memory] assms(1) by (cases "n \<le> r") auto
  then show ?thesis using r True by (auto simp: search_max_len_def)
next
  case False
  then have "within_mem (need s) memory 1 = Inr False" using fits_total [of s 1 memory] assms by auto
  then show ?thesis
    using fits_shorter [of s 1 _ memory] assms by (auto simp: search_max_len_def)
qed

end

text \<open>
  Well-formed formats: positive block and page sizes, and no window format under decode
  context parallelism.
\<close>

definition spec_ok :: "(string \<Rightarrow> int) \<Rightarrow> vllm_config \<Rightarrow> layer_spec \<Rightarrow> bool" where
  "spec_ok ds cfg s \<longleftrightarrow> 0 < block_size_of s \<and> (\<exists>p > 0. page_size_bytes ds s = Inr p) \<and>
     (case s of SlidingWindowSpec _ \<Rightarrow> decode_context_parallel_size cfg = 1 | _ \<Rightarrow> True)"

fun kv_spec_ok :: "(string \<Rightarrow> int) \<Rightarrow> vllm_config \<Rightarrow> kv_spec \<Rightarrow> bool" where
  "kv_spec_ok ds cfg (LayerSpec s) = spec_ok ds cfg s"
| "kv_spec_ok ds cfg (UniformTypeKVCacheSpecs bs specs) \<longleftrightarrow> specs \<noteq> [] \<and> (\<forall>s \<in> snd ` set specs. spec_ok ds cfg s)"

lemma full_max_tokens_mono:
  assumes "m \<le> n"
  shows "\<exists>a b. full_max_tokens (cfg\<lparr>max_model_len := m\<rparr>) = Inr a \<and> full_max_tokens (cfg\<lparr>max_model_len := n\<rparr>) = Inr b \<and> a \<le> b"
  using assms by (auto simp: full_max_tokens_def Let_def cdiv_mono)

lemma max_pages_mono:
  assumes "spec_ok ds cfg s" and "m \<le> n"
  shows "\<exists>a b. max_pages (cfg\<lparr>max_model_len := m\<rparr>) s = Inr a \<and> max_pages (cfg\<lparr>max_model_len := n\<rparr>) s = Inr b \<and> a \<le> b"
  using assms full_max_tokens_mono [OF assms(2), of cfg]
  by (cases s) (auto simp: spec_ok_def rbind_eq_Inr max_pages_defs intro!: cdiv_mono)

lemma layer_max_memory_mono:
  assumes "spec_ok ds cfg s" and "m \<le> n"
  shows "\<exists>a b. layer_max_memory ds (cfg\<lparr>max_model_len := m\<rparr>) s = Inr a
     \<and> layer_max_memory ds (cfg\<lparr>max_model_len := n\<rparr>) s = Inr b \<and> a \<le> b"
proof -
  obtain p where p: "page_size_bytes ds s = Inr p" "0 < p" using assms by (auto simp: spec_ok_def)
  obtain a b where ab: "max_pages (cfg\<lparr>max_model_len := m\<rparr>) s = Inr a" "max_pages (cfg\<lparr>max_model_len := n\<rparr>) s = Inr b" "a \<le> b"
    using max_pages_mono [OF assms] by blast
  then show ?thesis using p by (auto simp: layer_max_memory_def mult_right_mono split: layer_spec.split)
qed

lemma rmap_mono:
  assumes "\<And>x. x \<in> set xs \<Longrightarrow> \<exists>a b. f x = Inr a \<and> g x = Inr b \<and> a \<le> (b :: int)"
  shows "\<exists>as bs. rmap f xs = Inr as \<and> rmap g xs = Inr bs \<and> list_all2 (\<le>) as bs"
  using assms
proof (induction xs)
  case (Cons x xs)
  then obtain a b as bs where "f x = Inr a" "g x = Inr b" "a \<le> b"
    "rmap f xs = Inr as" "rmap g xs = Inr bs" "list_all2 (\<le>) as bs" by fastforce
  then show ?case by simp
qed simp

lemma sum_list_le2: "list_all2 (\<le>) as bs \<Longrightarrow> sum_list as \<le> sum_list (bs :: int list)"
  by (induction rule: list_all2_induct) auto

lemma Max_le2:
  assumes "list_all2 (\<le>) as bs" and "as \<noteq> []"
  shows "Max (set as) \<le> Max (set (bs :: int list))"
proof -
  have "a \<le> Max (set bs)" if a: "a \<in> set as" for a
  proof -
    obtain i where i: "i < length as" "a = as ! i" using a by (metis in_set_conv_nth)
    then have "a \<le> bs ! i" "bs ! i \<in> set bs" using assms(1) by (auto simp: list_all2_conv_all_nth)
    then show ?thesis by (meson List.finite_set Max_ge order_trans)
  qed
  then show ?thesis using assms(2) by simp
qed

lemma kv_spec_max_memory_mono:
  assumes "kv_spec_ok ds cfg s" and "m \<le> n"
  shows "\<exists>a b. max_memory_usage_bytes ds (cfg\<lparr>max_model_len := m\<rparr>) s = Inr a
     \<and> max_memory_usage_bytes ds (cfg\<lparr>max_model_len := n\<rparr>) s = Inr b \<and> a \<le> b"
proof (cases s)
  case (UniformTypeKVCacheSpecs bs specs)
  let ?f = "\<lambda>k (_ :: string, s). rbind (layer_max_memory ds (cfg\<lparr>max_model_len := k\<rparr>) s) (\<lambda>m. rbind (page_size_bytes ds s) (py_cdiv m))"
  have ok: "\<forall>s \<in> snd ` set specs. spec_ok ds cfg s" "specs \<noteq> []" using assms UniformTypeKVCacheSpecs by auto
  have "\<exists>as bs. rmap (?f m) specs = Inr as \<and> rmap (?f n) specs = Inr bs \<and> list_all2 (\<le>) as bs"
  proof (rule rmap_mono)
    fix x assume "x \<in> set specs"
    then have "spec_ok ds cfg (snd x)" using ok by auto
    then show "\<exists>a b. ?f m x = Inr a \<and> ?f n x = Inr b \<and> a \<le> b"
      using layer_max_memory_mono [of ds cfg "snd x" m n] assms(2)
      by (auto simp: spec_ok_def cdiv_mono split: prod.split)
  qed
  then obtain as bs' where r: "rmap (?f m) specs = Inr as" "rmap (?f n) specs = Inr bs'" "list_all2 (\<le>) as bs'" by blast
  have ne: "as \<noteq> []" "bs' \<noteq> []" using r ok(2) by (auto simp: rmap_eq_Inr)
  have "\<exists>ps. rmap (\<lambda>(_, s). page_size_bytes ds s) specs = Inr ps \<and> 0 \<le> sum_list ps"
  proof -
    have "rmap (\<lambda>(_, s). page_size_bytes ds s) specs = Inr (map (\<lambda>(_, s). projr (page_size_bytes ds s)) specs)"
      using ok by (intro rmap_Inr) (auto simp: spec_ok_def)
    moreover have "0 \<le> sum_list (map (\<lambda>(_, s). projr (page_size_bytes ds s)) specs)"
      using ok by (intro sum_list_nonneg) (fastforce simp: spec_ok_def)
    ultimately show ?thesis by blast
  qed
  then show ?thesis using r ne Max_le2 [OF r(3) ne(1)] UniformTypeKVCacheSpecs by (auto simp: py_max_def mult_right_mono)
qed (use assms layer_max_memory_mono in auto)


definition groups_ok :: "(string \<Rightarrow> int) \<Rightarrow> vllm_config \<Rightarrow> kv_cache_group_spec list \<Rightarrow> bool" where
  "groups_ok ds cfg groups \<longleftrightarrow> (\<forall>g \<in> set groups. kv_spec_ok ds cfg (group_spec g)) \<and>
     (groups \<noteq> [] \<longrightarrow> (\<exists>p > 0. get_uniform_page_size ds (map group_spec groups) = Inr p))"

lemma max_memory_usage_of_mono:
  assumes "\<forall>s \<in> set specs. kv_spec_ok ds cfg s" and "m \<le> n"
  shows "\<exists>a b. max_memory_usage_of ds (cfg\<lparr>max_model_len := m\<rparr>) specs = Inr a
     \<and> max_memory_usage_of ds (cfg\<lparr>max_model_len := n\<rparr>) specs = Inr b \<and> a \<le> b"
  using rmap_mono [of specs "max_memory_usage_bytes ds (cfg\<lparr>max_model_len := m\<rparr>)"
      "max_memory_usage_bytes ds (cfg\<lparr>max_model_len := n\<rparr>)"] kv_spec_max_memory_mono [OF _ assms(2)] assms(1)
  by (auto simp: max_memory_usage_of_def intro: sum_list_le2)

interpretation layer_need: memory_need "\<lambda>(cfg, specs). \<forall>s \<in> snd ` set specs. spec_ok ds cfg s"
  "\<lambda>(cfg, specs) n. max_memory_usage_of ds (cfg\<lparr>max_model_len := n\<rparr>) (map (LayerSpec \<circ> snd) specs)" for ds
proof (unfold_locales, clarsimp)
  fix cfg and specs :: "('a \<times> layer_spec) list" and m n :: int
  assume "\<forall>x \<in> set specs. spec_ok ds cfg (snd x)" and "m \<le> n"
  then show "\<exists>a. max_memory_usage_of ds (cfg\<lparr>max_model_len := m\<rparr>) (map (LayerSpec \<circ> snd) specs) = Inr a \<and>
      (\<exists>b. max_memory_usage_of ds (cfg\<lparr>max_model_len := n\<rparr>) (map (LayerSpec \<circ> snd) specs) = Inr b \<and> a \<le> b)"
    using max_memory_usage_of_mono [of "map (LayerSpec \<circ> snd) specs" ds cfg m n] by auto
qed

lemma groups_memory_mono:
  assumes "groups_ok ds cfg groups" and "m \<le> n"
  shows "\<exists>a b. max_memory_usage_bytes_from_groups ds (cfg\<lparr>max_model_len := m\<rparr>) groups = Inr a
     \<and> max_memory_usage_bytes_from_groups ds (cfg\<lparr>max_model_len := n\<rparr>) groups = Inr b \<and> a \<le> b"
proof (cases groups)
  case (Cons g rest)
  have ok: "kv_spec_ok ds cfg (group_spec g)" using assms Cons by (auto simp: groups_ok_def)
  obtain p where p: "0 < p" "get_uniform_page_size ds (map group_spec groups) = Inr p"
    using assms Cons by (auto simp: groups_ok_def)
  obtain a b where ab: "max_memory_usage_bytes ds (cfg\<lparr>max_model_len := m\<rparr>) (group_spec g) = Inr a"
    "max_memory_usage_bytes ds (cfg\<lparr>max_model_len := n\<rparr>) (group_spec g) = Inr b" "a \<le> b"
    using kv_spec_max_memory_mono [OF ok assms(2)] by blast
  have le: "int k * p * cdiv a p \<le> int k * p * cdiv b p" for k
    using p(1) ab(3) by (intro mult_left_mono cdiv_mono) auto
  show ?thesis
  proof (cases "\<exists>bs specs. rest = [] \<and> group_spec g = UniformTypeKVCacheSpecs bs specs")
    case True
    then show ?thesis using Cons max_memory_usage_of_mono [of _ ds cfg m n] assms(2) ok
      by (auto simp: max_memory_usage_bytes_from_groups_def)
  next
    case False
    then have "max_memory_usage_bytes_from_groups ds c groups = (let group_size = int (Max (set (map (length \<circ> layer_names) groups))) in
        rbind (get_uniform_page_size ds (map group_spec groups)) (\<lambda>page_size.
        rbind (max_memory_usage_bytes ds c (group_spec g)) (\<lambda>m.
        rbind (py_cdiv m page_size) (\<lambda>blocks_needed. Inr (group_size * page_size * blocks_needed)))))" for c
      using Cons by (simp add: max_memory_usage_bytes_from_groups_def split: kv_spec.split list.split)
    then show ?thesis using p ab le by (simp add: Let_def)
  qed
qed (simp add: max_memory_usage_bytes_from_groups_def)

interpretation group_need: memory_need "\<lambda>(cfg, groups). groups_ok ds cfg groups"
  "\<lambda>(cfg, groups) n. max_memory_usage_bytes_from_groups ds (cfg\<lparr>max_model_len := n\<rparr>) groups" for ds
  by unfold_locales (use groups_memory_mono in fastforce)

lemma estimate_from_groups_spec:
  assumes "groups_ok ds cfg groups" and "1 \<le> max_model_len cfg"
  shows "\<exists>r. estimate_max_model_len_from_groups ds cfg groups memory = Inr r \<and> 0 \<le> r \<and> r \<le> max_model_len cfg
     \<and> (\<forall>n. 1 \<le> n \<longrightarrow> n \<le> max_model_len cfg \<longrightarrow> group_fits ds cfg groups memory n = Inr (n \<le> r))"
proof -
  have "group_fits ds cfg groups memory = within_mem (\<lambda>n. max_memory_usage_bytes_from_groups ds (cfg\<lparr>max_model_len := n\<rparr>) groups) memory"
    by (simp add: fun_eq_iff group_fits_def within_mem_def)
  then show ?thesis
    using group_need.search_spec [of ds "(cfg, groups)" "max_model_len cfg" memory] assms
    by (simp add: estimate_max_model_len_from_groups_def)
qed

text \<open>
  C28. On well-formed formats \<^verbatim>\<open>estimate_max_model_len\<close> and its variant on groups return,
  and the result is the threshold of the memory test: a context length between one token
  and the configured maximum fits in the available memory exactly if it is at most the
  result (and no length fits if the result is 0).
\<close>

theorem estimate_max_model_len_correct:
  assumes "1 \<le> max_model_len cfg"
    and "\<forall>s \<in> snd ` set specs. spec_ok ds cfg s" and "groups_ok ds cfg groups"
  shows "(\<exists>r. estimate_max_model_len ds cfg specs memory = Inr r \<and> 0 \<le> r \<and> r \<le> max_model_len cfg
       \<and> (\<forall>n. 1 \<le> n \<longrightarrow> n \<le> max_model_len cfg \<longrightarrow> fits_in_memory ds cfg specs memory n = Inr (n \<le> r)))
     \<and> (\<exists>r. estimate_max_model_len_from_groups ds cfg groups memory = Inr r \<and> 0 \<le> r \<and> r \<le> max_model_len cfg
       \<and> (\<forall>n. 1 \<le> n \<longrightarrow> n \<le> max_model_len cfg \<longrightarrow> group_fits ds cfg groups memory n = Inr (n \<le> r)))"
proof -
  have "fits_in_memory ds cfg specs memory =
      within_mem (\<lambda>n. max_memory_usage_of ds (cfg\<lparr>max_model_len := n\<rparr>) (map (LayerSpec \<circ> snd) specs)) memory"
    by (simp add: fun_eq_iff fits_in_memory_def within_mem_def)
  then show ?thesis
    using layer_need.search_spec [of ds "(cfg, specs)" "max_model_len cfg" memory] assms(1,2)
      estimate_from_groups_spec [OF assms(3,1), of memory]
    by (simp add: estimate_max_model_len_def)
qed

definition sample_config :: "int \<Rightarrow> vllm_config" where
  "sample_config n = \<lparr>max_model_len = n, max_num_batched_tokens = 16, max_num_encoder_tokens = 0,
     decode_context_parallel_size = 1, prefill_context_parallel_size = 1, config_mamba_cache_mode = ''none'',
     num_gpu_blocks_override = None, disable_hybrid_kv_cache_manager = False, original_max_model_len = n\<rparr>"

definition sample_full :: layer_spec where
  "sample_full = FullAttentionSpec \<lparr>spec_block_size = 4, num_kv_heads = 1, head_size = 2, dtype = ''float16'',
     page_size_padded = None, head_size_v = 2, full_sliding_window = None, full_attention_chunk_size = None\<rparr>"

definition sample_window :: layer_spec where
  "sample_window = SlidingWindowSpec \<lparr>spec_block_size = 4, num_kv_heads = 1, head_size = 2, dtype = ''float16'',
     page_size_padded = None, sliding_window = 4\<rparr>"

lemmas planner_eval = sample_config_def sample_full_def sample_window_def spec_ok_def groups_ok_def
  get_uniform_page_size_def padded_page_def full_real_page_def attention_real_page_def

theorem estimate_max_model_len_correct_witness:
  "\<exists>r. estimate_max_model_len (\<lambda>_. 2) (sample_config 100) [(''l0'', sample_full), (''l1'', sample_full)] 500 = Inr r
     \<and> fits_in_memory (\<lambda>_. 2) (sample_config 100) [(''l0'', sample_full), (''l1'', sample_full)] 500 28 = Inr (28 \<le> r)"
proof -
  have "1 \<le> max_model_len (sample_config 100)"
    "\<forall>s \<in> snd ` set [(''l0'', sample_full), (''l1'', sample_full)]. spec_ok (\<lambda>_. 2) (sample_config 100) s"
    "groups_ok (\<lambda>_. 2) (sample_config 100) [\<lparr>layer_names = [''l0'', ''l1''], group_spec = LayerSpec sample_full\<rparr>]"
    by (simp_all add: planner_eval)
  from estimate_max_model_len_correct [OF this, of 500] show ?thesis by (auto simp: sample_config_def)
qed


section \<open>Grouping keeps every layer exactly once\<close>

lemma mset_every_nth:
  "mset (every_nth i n xs) = image_mset (\<lambda>k. xs ! k) (filter_mset (\<lambda>k. k mod n = i) (mset [0..<length xs]))"
  by (simp add: every_nth_def mset_filter)

lemma filter_mset_mod:
  "0 < n \<Longrightarrow> (\<Sum>i\<in>{0..<n}. filter_mset (\<lambda>k. k mod n = i) M) = (M :: nat multiset)"
proof (induction M)
  case (add x M)
  have "(\<Sum>i\<in>{0..<n}. filter_mset (\<lambda>k. k mod n = i) (add_mset x M))
      = (\<Sum>i\<in>{0..<n}. (if x mod n = i then {#x#} else {#}) + filter_mset (\<lambda>k. k mod n = i) M)"
    by (intro sum.cong) auto
  also have "\<dots> = (\<Sum>i\<in>{0..<n}. if x mod n = i then {#x#} else {#}) + M"
    using add by (simp add: sum.distrib)
  also have "\<dots> = add_mset x M" using add.prems by simp
  finally show ?case .
qed simp

lemma image_mset_sum: "image_mset f (sum g A) = (\<Sum>i\<in>A. image_mset f (g i))"
  by (induction A rule: infinite_finite_induct) auto

lemma mset_split_layers:
  assumes "0 < k"
  shows "mset (concat (split_layers k xs)) = mset xs"
proof (cases "xs = []")
  case True
  then show ?thesis by (simp add: split_layers_def every_nth_def Let_def)
next
  case False
  define n where "n = ncdiv (length xs) k"
  have n: "0 < n" using ncdiv_mult_ge [OF assms, of "length xs"] False by (cases "n = 0") (auto simp: n_def)
  have "mset (concat (split_layers k xs)) = (\<Sum>i\<in>{0..<n}. mset (every_nth i n xs))"
    by (simp add: split_layers_def n_def Let_def mset_concat o_def interv_sum_list_conv_sum_set_nat)
  also have "\<dots> = image_mset (\<lambda>k. xs ! k) (\<Sum>i\<in>{0..<n}. filter_mset (\<lambda>k. k mod n = i) (mset [0..<length xs]))"
    by (simp add: mset_every_nth image_mset_sum)
  also have "\<dots> = mset (map (\<lambda>k. xs ! k) [0..<length xs])" by (simp only: filter_mset_mod [OF n] mset_map)
  also have "\<dots> = mset xs" by (simp only: map_nth)
  finally show ?thesis .
qed

lemma mset_add_layer:
  "mset (concat (map snd (add_layer x d))) = add_mset (fst x) (mset (concat (map snd d)))"
  by (induction x d rule: add_layer.induct) auto

lemma mset_same_type_layers: "mset (concat (map snd (same_type_layers d))) = mset (map fst d)"
proof -
  have "mset (concat (map snd (fold add_layer d e))) = mset (concat (map snd e)) + mset (map fst d)" for e
    by (induction d arbitrary: e) (auto simp: mset_add_layer)
  from this [of "[]"] show ?thesis by (simp add: same_type_layers_def)
qed

lemma add_layer_sound:
  assumes "(s, names) \<in> set (add_layer x d)" and "name \<in> set names"
  shows "(name, s) = x \<or> (\<exists>names'. (s, names') \<in> set d \<and> name \<in> set names')"
  using assms by (induction x d rule: add_layer.induct) (auto split: if_splits)

lemma same_type_layers_sound:
  assumes "(s, names) \<in> set (same_type_layers d)" and "name \<in> set names"
  shows "(name, s) \<in> set d"
proof -
  have "(name, s) \<in> set d \<or> (\<exists>names'. (s, names') \<in> set e \<and> name \<in> set names')"
    if "(s, names) \<in> set (fold add_layer d e)" for e
    using that
  proof (induction d arbitrary: e)
    case (Cons x d)
    then show ?case using add_layer_sound [of s _ x e name] by (fastforce)
  qed (use assms(2) in auto)
  from this [of "[]"] assms(1) show ?thesis by (auto simp: same_type_layers_def)
qed

lemma add_layer_ne: "\<forall>(s, names) \<in> set d. names \<noteq> [] \<Longrightarrow> \<forall>(s, names) \<in> set (add_layer x d). names \<noteq> []"
  by (induction x d rule: add_layer.induct) auto

lemma same_type_layers_ne: "(s, names) \<in> set (same_type_layers d) \<Longrightarrow> names \<noteq> []"
proof -
  have "\<forall>(s, names) \<in> set e. names \<noteq> [] \<Longrightarrow> \<forall>(s, names) \<in> set (fold add_layer d e). names \<noteq> []" for e
  proof (induction d arbitrary: e)
    case (Cons x d)
    from Cons.IH [OF add_layer_ne [OF Cons.prems]] show ?case by simp
  qed simp
  from this [of "[]"] show "(s, names) \<in> set (same_type_layers d) \<Longrightarrow> names \<noteq> []" by (auto simp: same_type_layers_def)
qed

lemma group_size_of_pos: "lens \<noteq> [] \<Longrightarrow> 0 \<notin> set lens \<Longrightarrow> 0 < group_size_of lens"
proof -
  assume "lens \<noteq> []" "0 \<notin> set lens"
  then have "Min (set lens) \<in> set lens" "Max (set lens) \<in> set lens" by (auto intro: Min_in Max_in)
  with \<open>0 \<notin> set lens\<close> show ?thesis by (metis group_size_of_def gr0I)
qed

lemma create_groups_spec:
  assumes "create_kv_cache_group_specs d names = Inr gs"
  shows "map layer_names gs = names"
    and "g \<in> set gs \<Longrightarrow> layer_names g \<noteq> [] \<and> (\<exists>specs m. rmap (lookup d) (layer_names g) = Inr specs
           \<and> merge specs = Inr m \<and> group_spec g = LayerSpec m)"
proof -
  have all2: "list_all2 (\<lambda>ns g. layer_names g = ns \<and> (\<exists>specs m. rmap (lookup d) ns = Inr specs
      \<and> merge specs = Inr m \<and> group_spec g = LayerSpec m)) names gs"
    using assms by (auto simp: create_kv_cache_group_specs_def rmap_eq_Inr rbind_eq_Inr elim!: list_all2_mono)
  then show "map layer_names gs = names" by (induction rule: list_all2_induct) auto
  assume "g \<in> set gs"
  then obtain i where i: "i < length gs" "g = gs ! i" by (metis in_set_conv_nth)
  then obtain specs m where "rmap (lookup d) (layer_names g) = Inr specs" "merge specs = Inr m" "group_spec g = LayerSpec m"
    using list_all2_nthD2 [OF all2 i(1)] by auto
  moreover have "layer_names g \<noteq> []" using calculation by (auto simp: merge_def)
  ultimately show "layer_names g \<noteq> [] \<and> (\<exists>specs m. rmap (lookup d) (layer_names g) = Inr specs
           \<and> merge specs = Inr m \<and> group_spec g = LayerSpec m)" by auto
qed

lemma uniform_page_groups_mset:
  assumes "get_kv_cache_groups_uniform_page_size d = Inr gs"
  shows "mset (concat (map layer_names gs)) = mset (map fst d)"
proof -
  let ?same = "same_type_layers d"
  let ?k = "group_size_of (map (length \<circ> snd) ?same)"
  have c: "create_kv_cache_group_specs d (concat (map (split_layers ?k \<circ> snd) ?same)) = Inr gs" "?same \<noteq> []"
    using assms by (auto simp: get_kv_cache_groups_uniform_page_size_def Let_def split: if_splits)
  have k: "0 < ?k" using c(2) same_type_layers_ne by (intro group_size_of_pos) fastforce+
  have "mset (concat (map layer_names gs)) = mset (concat (concat (map (split_layers ?k \<circ> snd) ?same)))"
    using create_groups_spec(1) [OF c(1)] by simp
  also have "\<dots> = mset (concat (map snd ?same))"
  proof -
    have "mset (concat (concat (map (split_layers ?k \<circ> snd) same))) = mset (concat (map snd same))"
      for same :: "(layer_spec \<times> string list) list"
      using mset_split_layers [OF k] by (induction same) (simp_all add: o_def)
    then show ?thesis .
  qed
  finally show ?thesis by (simp add: mset_same_type_layers)
qed

text \<open>The page size of a merged format is the page size of its first member.\<close>

lemma merge_page_size: "merge (s # rest) = Inr m \<Longrightarrow> page_size_bytes ds m = page_size_bytes ds s"
proof (cases s)
  case (MLAAttentionSpec t)
  assume "merge (s # rest) = Inr m"
  then obtain r where r: "merge_mla t (s # rest) = Inr r" "m = MLAAttentionSpec r"
    using MLAAttentionSpec by (auto simp: merge_def rbind_eq_Inr)
  let ?ds = "remdups (map cache_dtype_str (List.map_filter as_mla (s # rest)))"
  obtain d where d: "?ds = [d]" using r(1) by (auto simp: merge_mla_def rbind_eq_Inr split: list.splits)
  have "cache_dtype_str t \<in> set ?ds" using MLAAttentionSpec by (simp add: List.map_filter_simps)
  then have "d = cache_dtype_str t" unfolding d by simp
  then show ?thesis using r d MLAAttentionSpec
    by (auto simp: merge_mla_def rbind_eq_Inr mla_real_page_def simp del: remdups.simps)
qed (auto simp: merge_def rbind_eq_Inr merge_sink_def merge_full_def Let_def full_real_page_def
      full_attention_spec.defs sink_attention_spec.defs)

text \<open>After unification all layers have the same page size.\<close>

lemma unify_one_page: "unify_one ds p s = Inr s' \<Longrightarrow> page_size_bytes ds s' = Inr p"
  by (auto simp: unify_one_def rbind_eq_Inr Let_def split: if_splits)

lemma unify_page_size_spec:
  assumes "unify_kv_cache_spec_page_size ds d = Inr d'"
  shows "map fst d' = map fst d" and "\<exists>p. \<forall>s \<in> snd ` set d'. page_size_bytes ds s = Inr p"
proof -
  obtain ps where ps: "rmap (page_size_bytes ds \<circ> snd) d = Inr ps" using assms
    by (auto simp: unify_kv_cache_spec_page_size_def rbind_eq_Inr)
  have "map fst d' = map fst d \<and> (\<exists>p. \<forall>s \<in> snd ` set d'. page_size_bytes ds s = Inr p)"
  proof (cases "length (remdups ps) \<le> 1")
    case True
    then have d: "d' = d" using assms ps by (simp add: unify_kv_cache_spec_page_size_def)
    have "\<exists>p. set ps \<subseteq> {p}" using True by (cases "remdups ps") (auto simp flip: set_remdups [of ps])
    then obtain p where "set ps \<subseteq> {p}" by blast
    then have "page_size_bytes ds s = Inr p" if "s \<in> snd ` set d" for s
      using ps that by (fastforce simp: rmap_eq_Inr list_all2_conv_all_nth in_set_conv_nth)
    then show ?thesis using d by auto
  next
    case False
    then have "rmap (\<lambda>(name, s). rbind (unify_one ds (Max (set ps)) s) (\<lambda>s. Inr (name, s))) d = Inr d'"
      using assms ps by (simp add: unify_kv_cache_spec_page_size_def)
    then have all2: "list_all2 (\<lambda>x y. fst y = fst x \<and> unify_one ds (Max (set ps)) (snd x) = Inr (snd y)) d d'"
      by (auto simp: rmap_eq_Inr rbind_eq_Inr elim!: list_all2_mono)
    then have "map fst d' = map fst d" by (induction rule: list_all2_induct) auto
    moreover have "\<forall>s \<in> snd ` set d'. page_size_bytes ds s = Inr (Max (set ps))"
      using all2 by (induction rule: list_all2_induct) (auto dest: unify_one_page)
    ultimately show ?thesis by blast
  qed
  then show "map fst d' = map fst d" and "\<exists>p. \<forall>s \<in> snd ` set d'. page_size_bytes ds s = Inr p" by blast+
qed


lemma lookup_eq_Inr: "lookup d n = Inr s \<longleftrightarrow> map_of d n = Some s"
  by (simp add: lookup_def split: option.split)

lemma lookup_in: "rmap (lookup d) names = Inr specs \<Longrightarrow> set specs \<subseteq> snd ` set d"
proof (induction names arbitrary: specs)
  case (Cons n names)
  then obtain s ss where "map_of d n = Some s" "rmap (lookup d) names = Inr ss" "specs = s # ss"
    by (auto simp: rbind_eq_Inr lookup_eq_Inr)
  then show ?case using Cons.IH [of ss] map_of_SomeD [of d n s] by (auto intro: image_eqI [of s snd "(n, s)"])
qed simp

lemma uniform_page_groups_page:
  assumes "get_kv_cache_groups_uniform_page_size d = Inr gs" and "g \<in> set gs"
    and "\<forall>s \<in> snd ` set d. page_size_bytes ds s = Inr p"
  shows "spec_page_size ds (group_spec g) = Inr p"
proof -
  obtain names where "create_kv_cache_group_specs d names = Inr gs"
    using assms(1) by (auto simp: get_kv_cache_groups_uniform_page_size_def Let_def split: if_splits)
  then obtain specs m where m: "rmap (lookup d) (layer_names g) = Inr specs" "merge specs = Inr m" "group_spec g = LayerSpec m"
    using create_groups_spec(2) assms(2) by blast
  then obtain s rest where s: "specs = s # rest" by (cases specs) (auto simp: merge_def)
  then have "page_size_bytes ds s = Inr p" using lookup_in [OF m(1)] assms(3) by auto
  then show ?thesis using merge_page_size [of s rest m ds] m s by simp
qed

lemma unify_hybrid_names: "unify_hybrid_kv_cache_specs d = Inr d' \<Longrightarrow> map fst d' = map fst d"
  by (auto simp: unify_hybrid_kv_cache_specs_def rbind_eq_Inr Let_def split: if_splits)

lemma get_kv_cache_groups_cases:
  assumes "get_kv_cache_groups ds cfg d = Inr gs"
  obtains (empty) "d = []" "gs = []"
  | (uniform) d' where "map fst d' = map fst d" "d' \<noteq> []" "create_kv_cache_group_specs d' [map fst d'] = Inr gs"
  | (type) d' bs where "map fst d' = map fst d" "d' \<noteq> []"
      "gs = [\<lparr>layer_names = map fst d', group_spec = UniformTypeKVCacheSpecs bs d'\<rparr>]"
  | (hybrid) d' p where "map fst d' = map fst d" "\<forall>s \<in> snd ` set d'. page_size_bytes ds s = Inr p"
      "get_kv_cache_groups_uniform_page_size d' = Inr gs"
proof -
  obtain d1 where d1: "map fst d1 = map fst d" and gs: "(if d1 = [] then Inr [] else rbind (is_kv_cache_spec_uniform d1) (\<lambda>u.
       if u then get_kv_cache_groups_uniform_spec d1
       else rbind (from_specs d1) (\<lambda>uniform_spec.
         case uniform_spec of
           Some (UniformTypeKVCacheSpecs bs specs) \<Rightarrow> Inr (get_kv_cache_groups_uniform_type bs specs)
         | _ \<Rightarrow> rbind (unify_kv_cache_spec_page_size ds d1) get_kv_cache_groups_uniform_page_size))) = Inr gs"
    using assms unfolding get_kv_cache_groups_def rbind_eq_Inr
    by (auto split: if_splits dest: unify_hybrid_names)
  show thesis
  proof (cases "d1 = []")
    case True
    then show ?thesis using d1 gs empty by simp
  next
    case False
    from gs False obtain u where u: "is_kv_cache_spec_uniform d1 = Inr u" by (auto simp: rbind_eq_Inr)
    show ?thesis
    proof (cases u)
      case True
      then show ?thesis using gs False u d1 uniform [of d1] by (simp add: get_kv_cache_groups_uniform_spec_def)
    next
      case nu: False
      with gs False u obtain us where us: "from_specs d1 = Inr us" and gs2: "(case us of
           Some (UniformTypeKVCacheSpecs bs specs) \<Rightarrow> Inr (get_kv_cache_groups_uniform_type bs specs)
         | _ \<Rightarrow> rbind (unify_kv_cache_spec_page_size ds d1) get_kv_cache_groups_uniform_page_size) = Inr gs"
        by (auto simp: rbind_eq_Inr)
      show ?thesis
      proof (cases "\<exists>bs specs. us = Some (UniformTypeKVCacheSpecs bs specs)")
        case True
        then obtain bs where "us = Some (UniformTypeKVCacheSpecs bs d1)"
          using us by (auto simp: from_specs_def rbind_eq_Inr split: if_splits list.splits prod.splits)
        then show ?thesis using gs2 d1 False type [of d1 bs] by (simp add: get_kv_cache_groups_uniform_type_def)
      next
        case no: False
        then obtain d2 where d2: "unify_kv_cache_spec_page_size ds d1 = Inr d2" "get_kv_cache_groups_uniform_page_size d2 = Inr gs"
          using gs2 by (auto simp: rbind_eq_Inr split: option.splits kv_spec.splits)
        with unify_page_size_spec [OF d2(1)] d1 hybrid show ?thesis by metis
      qed
    qed
  qed
qed

lemma kv_cache_groups_mset:
  assumes "get_kv_cache_groups ds cfg d = Inr gs"
  shows "mset (concat (map layer_names gs)) = mset (map fst d)"
  using assms
proof (cases rule: get_kv_cache_groups_cases)
  case (uniform d')
  then show ?thesis using create_groups_spec(1) [OF uniform(3)] by (cases gs) auto
next
  case (hybrid d' p)
  then show ?thesis using uniform_page_groups_mset [OF hybrid(3)] by simp
qed auto

text \<open>
  C29. \<^verbatim>\<open>get_kv_cache_groups\<close> puts every layer of the model into exactly one group, makes
  no empty group, and if it makes several groups then all of them have the same page size,
  which is what lets them share the blocks of one pool.
\<close>

theorem kv_cache_groups_partition:
  assumes "get_kv_cache_groups ds cfg d = Inr gs"
  shows "mset (concat (map layer_names gs)) = mset (map fst d) \<and> (\<forall>g \<in> set gs. layer_names g \<noteq> [])
     \<and> (1 < length gs \<longrightarrow> (\<exists>p. \<forall>g \<in> set gs. spec_page_size ds (group_spec g) = Inr p))"
  using assms
proof (cases rule: get_kv_cache_groups_cases)
  case (uniform d')
  then show ?thesis using create_groups_spec(1) [OF uniform(3)] by (cases gs) auto
next
  case (hybrid d' p)
  then obtain names where "create_kv_cache_group_specs d' names = Inr gs"
    by (auto simp: get_kv_cache_groups_uniform_page_size_def Let_def split: if_splits)
  then have "\<forall>g \<in> set gs. layer_names g \<noteq> []" using create_groups_spec(2) by blast
  then show ?thesis
    using hybrid kv_cache_groups_mset [OF assms] uniform_page_groups_page [OF hybrid(3) _ hybrid(2)] by auto
qed auto

definition sample_model :: layer_dict where
  "sample_model = [(''f0'', sample_full), (''w0'', sample_window), (''w1'', sample_window), (''w2'', sample_window)]"

theorem kv_cache_groups_partition_witness:
  "map layer_names (projr (get_kv_cache_groups (\<lambda>_. 2) (sample_config 100) sample_model)) = [[''f0''], [''w0''], [''w1''], [''w2'']]
   \<and> mset (concat (map layer_names (projr (get_kv_cache_groups (\<lambda>_. 2) (sample_config 100) sample_model)))) = mset (map fst sample_model)"
proof -
  have "get_kv_cache_groups (\<lambda>_. 2) (sample_config 100) sample_model
      = Inr (projr (get_kv_cache_groups (\<lambda>_. 2) (sample_config 100) sample_model))" by code_simp
  moreover have "map layer_names (projr (get_kv_cache_groups (\<lambda>_. 2) (sample_config 100) sample_model))
      = [[''f0''], [''w0''], [''w1''], [''w2'']]" by code_simp
  ultimately show ?thesis using kv_cache_groups_partition by blast
qed


section \<open>The tensors of a worker fit in its memory\<close>

lemma rmap_member: "rmap f xs = Inr ys \<Longrightarrow> y \<in> set ys \<Longrightarrow> \<exists>x \<in> set xs. f x = Inr y"
  by (induction xs arbitrary: ys) (auto simp: rbind_eq_Inr)

lemma sum_single_nth: "(\<Sum>i\<in>{0..<length xs}. {#xs ! i#}) = mset xs"
proof (induction xs rule: rev_induct)
  case (snoc x xs)
  have "(\<Sum>i\<in>{0..<length xs}. {#(xs @ [x]) ! i#}) = (\<Sum>i\<in>{0..<length xs}. {#xs ! i#})"
    by (intro sum.cong) (auto simp: nth_append)
  then show ?case using snoc by simp
qed simp

lemma mset_shared_layers:
  assumes "\<forall>g \<in> set gs. length (layer_names g) \<le> n"
  shows "mset (concat (map (shared_layers gs) [0..<n])) = mset (concat (map layer_names gs))"
  using assms
proof (induction gs)
  case Nil
  have "concat (map (shared_layers []) [0..<n]) = []" by (simp add: shared_layers_def List.map_filter_simps)
  then show ?case by simp
next
  case (Cons g gs)
  let ?one = "\<lambda>i. if i < length (layer_names g) then {#layer_names g ! i#} else {#}"
  have "mset (shared_layers (g # gs) i) = ?one i + mset (shared_layers gs i)" for i
    by (simp add: shared_layers_def List.map_filter_simps)
  then have "mset (concat (map (shared_layers (g # gs)) [0..<n]))
      = (\<Sum>i\<in>{0..<n}. ?one i) + mset (concat (map (shared_layers gs) [0..<n]))"
    by (simp add: mset_concat o_def interv_sum_list_conv_sum_set_nat sum.distrib)
  moreover have "(\<Sum>i\<in>{0..<n}. ?one i) = mset (layer_names g)"
  proof -
    have "(\<Sum>i\<in>{0..<n}. ?one i) = (\<Sum>i\<in>{0..<length (layer_names g)}. {#layer_names g ! i#})"
      using Cons.prems by (intro sum.mono_neutral_cong_right) auto
    then show ?thesis by (simp only: sum_single_nth)
  qed
  ultimately show ?case using Cons by simp
qed

definition wf_groups :: "kv_cache_group_spec list \<Rightarrow> bool" where
  "wf_groups gs \<longleftrightarrow> (\<forall>g \<in> set gs. \<forall>bs specs. group_spec g = UniformTypeKVCacheSpecs bs specs \<longrightarrow>
     layer_names g = [] \<or> layer_names g = map fst specs \<and> distinct (map fst specs))"

definition pages_nonneg :: "(string \<Rightarrow> int) \<Rightarrow> kv_cache_group_spec list \<Rightarrow> bool" where
  "pages_nonneg ds gs \<longleftrightarrow> (\<forall>g \<in> set gs. \<forall>bs specs. group_spec g = UniformTypeKVCacheSpecs bs specs \<longrightarrow>
     (\<forall>s \<in> snd ` set specs. \<forall>p. page_size_bytes ds s = Inr p \<longrightarrow> 0 \<le> p))"

lemma uniform_tensors_spec:
  assumes "distinct (map fst specs)" and "rmap (\<lambda>(_, s). page_size_bytes ds s) specs = Inr ps"
  shows "uniform_tensors ds specs (map fst specs) n = Inr (map2 (\<lambda>k p. \<lparr>tensor_size = p * n, shared_by = [k]\<rparr>) (map fst specs) ps)"
proof -
  have "rmap (\<lambda>k. rbind (lookup specs k) (\<lambda>s. rbind (page_size_bytes ds s) (\<lambda>p. Inr \<lparr>tensor_size = p * n, shared_by = [k]\<rparr>))) (map fst sub)
      = Inr (map2 (\<lambda>k p. \<lparr>tensor_size = p * n, shared_by = [k]\<rparr>) (map fst sub) qs)"
    if "set sub \<subseteq> set specs" "rmap (\<lambda>(_, s). page_size_bytes ds s) sub = Inr qs" for sub qs
    using that
  proof (induction sub arbitrary: qs)
    case (Cons x sub)
    obtain k s where x: "x = (k, s)" by (cases x)
    then have "map_of specs k = Some s" using Cons.prems(1) assms(1) by simp
    moreover obtain q qs' where "page_size_bytes ds s = Inr q" "qs = q # qs'" "rmap (\<lambda>(_, s). page_size_bytes ds s) sub = Inr qs'"
      using Cons.prems(2) x by (auto simp: rbind_eq_Inr)
    ultimately show ?case using Cons.IH [of qs'] Cons.prems(1) x by (simp add: lookup_def)
  qed simp
  from this [OF order_refl assms(2)] show ?thesis by (simp add: uniform_tensors_def)
qed

lemma page_times_blocks:
  assumes "0 < mem" and "(p::int) \<noteq> 0" and "0 < k"
  shows "0 < max (mem div p div int k) 0 \<Longrightarrow> 0 < p"
    and "int k * (p * max (mem div p div int k) 0) \<le> mem"
proof -
  have neg: "mem div p div int k \<le> 0" if "p < 0"
  proof -
    have "mem div p \<le> 0" using that assms(1) by (simp add: div_nonneg_neg_le0)
    then show ?thesis using assms(3) by (simp add: div_nonpos_pos_le0)
  qed
  show pos: "0 < p" if "0 < max (mem div p div int k) 0" using neg that assms(2) by fastforce
  show "int k * (p * max (mem div p div int k) 0) \<le> mem"
  proof (cases "0 < max (mem div p div int k) 0")
    case True
    let ?n = "mem div p div int k"
    have p: "0 < p" by (rule pos [OF True])
    have "?n * int k \<le> mem div p" using le_div_iff_mult_le [of "int k" ?n "mem div p"] assms(3) by simp
    then have "?n * int k * p \<le> mem" using le_div_iff_mult_le [OF p, of "?n * int k" mem] by simp
    then show ?thesis using True assms(1) by (simp add: ac_simps max_def)
  next
    case False
    then have "max (mem div p div int k) 0 = 0" by linarith
    then show ?thesis using assms(1) by simp
  qed
qed

text \<open>
  The tensors of a configuration hold \<open>q\<close> bytes per block for sizes \<open>q\<close> whose sum times the
  number of blocks is within the memory.
\<close>

definition tensors_within :: "int \<Rightarrow> kv_cache_config \<Rightarrow> bool" where
  "tensors_within memory c \<longleftrightarrow> (\<exists>qs. map tensor_size (kv_cache_tensors c) = map (\<lambda>q. q * config_num_blocks c) qs
     \<and> (0 < config_num_blocks c \<longrightarrow> (\<forall>q \<in> set qs. 0 \<le> q)) \<and> 0 \<le> config_num_blocks c
     \<and> sum_list qs * config_num_blocks c \<le> max 0 memory)"

lemma uniform_config_spec:
  assumes c: "get_kv_cache_config_from_groups ds cfg [g] memory = Inr c"
    and over: "num_gpu_blocks_override cfg = None" and mpos: "0 < memory"
    and wf: "wf_groups [g]" "pages_nonneg ds [g]" and u: "group_spec g = UniformTypeKVCacheSpecs bs specs"
  shows "kv_cache_groups c = [g] \<and> concat (map shared_by (kv_cache_tensors c)) = layer_names g \<and> tensors_within memory c"
proof -
  obtain ps ts where ps: "rmap (\<lambda>(_, s). page_size_bytes ds s) specs = Inr ps" and z: "sum_list ps \<noteq> 0"
    and ts: "uniform_tensors ds specs (layer_names g) (memory div sum_list ps) = Inr ts"
    and cc: "c = \<lparr>config_num_blocks = memory div sum_list ps, kv_cache_tensors = ts, kv_cache_groups = [g]\<rparr>"
    using c u by (auto simp: get_kv_cache_config_from_groups_def rbind_eq_Inr py_div_def may_override_num_blocks_def
        over Let_def split: if_splits)
  have nn: "\<forall>q \<in> set ps. 0 \<le> q"
  proof
    fix q assume "q \<in> set ps"
    from rmap_member [OF ps this] show "0 \<le> q" using wf(2) u by (auto simp: pages_nonneg_def)
  qed
  then have pos: "0 < sum_list ps" using z by (metis sum_list_nonneg less_le)
  have le: "sum_list ps * (memory div sum_list ps) \<le> memory"
    using le_div_iff_mult_le [OF pos, of "memory div sum_list ps" memory] by (simp add: mult.commute)
  have n0: "0 \<le> memory div sum_list ps" using pos mpos by (simp add: pos_imp_zdiv_nonneg_iff)
  have "layer_names g = [] \<or> layer_names g = map fst specs \<and> distinct (map fst specs)"
    using wf(1) u by (auto simp: wf_groups_def)
  then show ?thesis
  proof
    assume e: "layer_names g = []"
    then have "ts = []" using ts by (simp add: uniform_tensors_def)
    then show ?thesis using cc e n0 by (auto simp: tensors_within_def)
  next
    assume e: "layer_names g = map fst specs \<and> distinct (map fst specs)"
    have len: "length specs = length ps" using ps by (auto simp: rmap_eq_Inr dest: list_all2_lengthD)
    have t: "ts = map2 (\<lambda>k p. \<lparr>tensor_size = p * n, shared_by = [k]\<rparr>) (map fst specs) ps"
      if "n = memory div sum_list ps" for n
      using uniform_tensors_spec [of specs ds ps] e ps ts that by auto
    have "map tensor_size (map2 (\<lambda>k p. \<lparr>tensor_size = p * n, shared_by = [k]\<rparr>) (map fst specs) ps) = map (\<lambda>q. q * n) ps"
      "concat (map shared_by (map2 (\<lambda>k p. \<lparr>tensor_size = p * n, shared_by = [k]\<rparr>) (map fst specs) ps)) = map fst specs" for n
      using len by (induction specs ps rule: list_induct2) auto
    then show ?thesis using cc e nn n0 le mpos t [OF refl]
      unfolding tensors_within_def by (intro conjI exI [of _ ps]) auto
  qed
qed

lemma shared_config_spec:
  assumes c: "get_kv_cache_config_from_groups ds cfg gs memory = Inr c"
    and over: "num_gpu_blocks_override cfg = None" and mpos: "0 < memory" and ne: "gs = g # rest"
    and general: "\<nexists>bs specs. rest = [] \<and> group_spec g = UniformTypeKVCacheSpecs bs specs"
  shows "kv_cache_groups c = gs \<and> mset (concat (map shared_by (kv_cache_tensors c))) = mset (concat (map layer_names gs))
     \<and> tensors_within memory c"
proof -
  define k where "k = Max (set (map (length \<circ> layer_names) gs))"
  have "get_kv_cache_config_from_groups ds cfg gs memory = (let group_size = k in
           rbind (get_uniform_page_size ds (map group_spec gs)) (\<lambda>page_size.
           rbind (ensure (0 < group_size) AssertionError) (\<lambda>_.
           rbind (get_num_blocks cfg (int group_size) memory page_size) (\<lambda>num_blocks.
           Inr \<lparr>config_num_blocks = num_blocks,
                kv_cache_tensors = map (\<lambda>i. \<lparr>tensor_size = page_size * num_blocks, shared_by = shared_layers gs i\<rparr>)
                  [0..<group_size],
                kv_cache_groups = gs\<rparr>))))"
    using ne general by (simp add: get_kv_cache_config_from_groups_def k_def split: kv_spec.split list.split)
  with c obtain p where p: "0 < k" "p \<noteq> 0"
    and cc: "c = \<lparr>config_num_blocks = max (memory div p div int k) 0,
      kv_cache_tensors = map (\<lambda>i. \<lparr>tensor_size = p * max (memory div p div int k) 0, shared_by = shared_layers gs i\<rparr>) [0..<k],
      kv_cache_groups = gs\<rparr>"
    by (auto simp: Let_def rbind_eq_Inr get_num_blocks_def py_div_def may_override_num_blocks_def over split: if_splits)
  have "\<forall>g \<in> set gs. length (layer_names g) \<le> k" by (simp add: k_def Max_ge)
  from mset_shared_layers [OF this] have "mset (concat (map shared_by (kv_cache_tensors c))) = mset (concat (map layer_names gs))"
    unfolding cc by (simp add: o_def)
  moreover have "map tensor_size (kv_cache_tensors c) = map (\<lambda>q. q * config_num_blocks c) (replicate k p)"
    unfolding cc by (simp add: o_def map_replicate_const)
  moreover have "sum_list (replicate k p) * config_num_blocks c \<le> max 0 memory"
    unfolding cc using page_times_blocks(2) [OF mpos p(2) p(1)] mpos by (simp add: sum_list_replicate ac_simps)
  moreover have "0 < config_num_blocks c \<longrightarrow> (\<forall>q \<in> set (replicate k p). 0 \<le> q)"
    unfolding cc using less_imp_le [OF page_times_blocks(1) [OF mpos p(2) p(1)]] by (simp add: less_max_iff_disj)
  moreover have "kv_cache_groups c = gs" "0 \<le> config_num_blocks c" unfolding cc by auto
  ultimately show ?thesis unfolding tensors_within_def by blast
qed

lemma config_from_groups_spec:
  assumes "get_kv_cache_config_from_groups ds cfg gs memory = Inr c"
    and "num_gpu_blocks_override cfg = None" and "gs \<noteq> [] \<Longrightarrow> 0 < memory"
    and "wf_groups gs" "pages_nonneg ds gs"
  shows "kv_cache_groups c = gs \<and> mset (concat (map shared_by (kv_cache_tensors c))) = mset (concat (map layer_names gs))
     \<and> tensors_within memory c"
proof (cases gs)
  case Nil
  then show ?thesis using assms(1) by (auto simp: get_kv_cache_config_from_groups_def tensors_within_def)
next
  case (Cons g rest)
  show ?thesis
  proof (cases "\<exists>bs specs. rest = [] \<and> group_spec g = UniformTypeKVCacheSpecs bs specs")
    case True
    then show ?thesis using uniform_config_spec [of ds cfg g memory c] assms Cons by auto
  next
    case False
    then show ?thesis using shared_config_spec [OF assms(1,2) _ Cons False] assms(3) Cons by blast
  qed
qed

lemma shrink_config_spec:
  assumes "shrink_config n c = Inr c'" and "tensors_within memory c" and "0 \<le> n" "n \<le> config_num_blocks c"
  shows "config_num_blocks c' = n \<and> kv_cache_groups c' = kv_cache_groups c
     \<and> map shared_by (kv_cache_tensors c') = map shared_by (kv_cache_tensors c)
     \<and> sum_list (map tensor_size (kv_cache_tensors c')) \<le> max 0 memory"
proof -
  let ?nb = "config_num_blocks c" and ?ts = "kv_cache_tensors c"
  obtain ts where c': "c' = c\<lparr>config_num_blocks := n, kv_cache_tensors := ts\<rparr>"
    and raw: "list_all2 (\<lambda>t u. (if ?nb = 0 then Inl ZeroDivisionError
         else rbind (ensure (tensor_size t mod ?nb = 0) AssertionError)
           (\<lambda>_. Inr (t\<lparr>tensor_size := tensor_size t div ?nb * n\<rparr>))) = Inr u) ?ts ts"
    using assms(1) by (auto simp: shrink_config_def rbind_eq_Inr rmap_eq_Inr)
  have all2: "list_all2 (\<lambda>t u. ?nb \<noteq> 0 \<and> u = t\<lparr>tensor_size := tensor_size t div ?nb * n\<rparr>) ?ts ts"
    using raw by (rule list_all2_mono) (auto simp: rbind_eq_Inr split: if_splits)
  have names: "map shared_by ts = map shared_by ?ts"
    and sizes: "map tensor_size ts = map (\<lambda>t. tensor_size t div ?nb * n) ?ts"
    using all2 by (induction rule: list_all2_induct) auto
  obtain qs where qs: "map tensor_size ?ts = map (\<lambda>q. q * ?nb) qs" "0 < ?nb \<longrightarrow> (\<forall>q \<in> set qs. 0 \<le> q)" "0 \<le> ?nb"
    "sum_list qs * ?nb \<le> max 0 memory" using assms(2) by (auto simp: tensors_within_def)
  have "sum_list (map tensor_size ts) \<le> max 0 memory"
  proof (cases "?ts = []")
    case True
    then show ?thesis using sizes by simp
  next
    case False
    then have nb: "0 < ?nb" using all2 qs(3) by (cases ?ts) (auto simp: list_all2_Cons1)
    have "map tensor_size ts = map (\<lambda>x. x div ?nb * n) (map tensor_size ?ts)" by (simp add: sizes)
    also have "\<dots> = map (\<lambda>q. q * n) qs" unfolding qs(1) using nb by simp
    finally have "sum_list (map tensor_size ts) = sum_list qs * n" by (simp add: sum_list_mult_const)
    also have "\<dots> \<le> sum_list qs * ?nb" using qs(2) nb assms(4) by (intro mult_left_mono sum_list_nonneg) auto
    finally show ?thesis using qs(4) by linarith
  qed
  then show ?thesis using c' names by simp
qed

lemma shrink_config_groups: "shrink_config n c = Inr c' \<Longrightarrow> kv_cache_groups c' = kv_cache_groups c"
  by (auto simp: shrink_config_def rbind_eq_Inr)

lemma config_from_groups_groups: "get_kv_cache_config_from_groups ds cfg gs m = Inr c \<Longrightarrow> kv_cache_groups c = gs"
  by (auto simp: get_kv_cache_config_from_groups_def rbind_eq_Inr Let_def split: list.splits kv_spec.splits)

lemma project_spec:
  assumes "project_kv_cache_groups_to_worker gs w = Inr ps"
  shows "list_all2 (\<lambda>g p. layer_names p = filter (\<lambda>n. n \<in> fst ` set w) (layer_names g) \<and>
     (\<forall>bs specs. group_spec p = UniformTypeKVCacheSpecs bs specs \<longrightarrow> layer_names p = [] \<or> map fst specs = layer_names p)) gs ps"
proof -
  have names: "map fst specs = names" if "rmap (\<lambda>n. rbind (lookup d n) (\<lambda>s. Inr (n, s))) names = Inr specs" for d names specs
    using that by (induction names arbitrary: specs) (auto simp: rbind_eq_Inr)
  show ?thesis
    using assms unfolding project_kv_cache_groups_to_worker_def rmap_eq_Inr
    by (rule list_all2_mono) (auto simp: Let_def rbind_eq_Inr names split: kv_spec.splits if_splits)
qed

lemma merge_worker_specs_spec:
  assumes "merge_worker_specs ws = Inr d"
  shows "distinct (map fst d) \<and> fst ` set d = fst ` set (concat ws)"
proof -
  let ?f = "\<lambda>(name, s) merged. case map_of merged name of None \<Rightarrow> Inr (merged @ [(name, s)])
       | Some t \<Rightarrow> rbind (ensure (t = s) AssertionError) (\<lambda>_. Inr merged)"
  have "distinct (map fst d') \<and> fst ` set d' = fst ` set e \<union> fst ` set xs"
    if "rfold ?f xs e = Inr d'" "distinct (map fst e)" for xs e d'
    using that
  proof (induction xs arbitrary: e)
    case (Cons x xs)
    obtain n s where x: "x = (n, s)" by (cases x)
    show ?case
    proof (cases "map_of e n")
      case None
      then have "n \<notin> fst ` set e" by (simp add: map_of_eq_None_iff)
      then show ?thesis using Cons.IH [of "e @ [(n, s)]"] Cons.prems x None by auto
    next
      case (Some t)
      then have "n \<in> fst ` set e" by (metis domI dom_map_of_conv_image_fst)
      then show ?thesis using Cons.IH [of e] Cons.prems x Some by (auto simp: rbind_eq_Inr)
    qed
  qed simp
  from this [of "concat ws" "[]" d] assms show ?thesis by (simp add: merge_worker_specs_def)
qed

lemma rfold_unit: "rfold f xs () = Inr () \<Longrightarrow> x \<in> set xs \<Longrightarrow> f x () = Inr ()"
  by (induction xs) (auto simp: rbind_eq_Inr)

lemma auto_fit_override: "auto_fit_max_model_len ds cfg ps ms = Inr cfg' \<Longrightarrow> num_gpu_blocks_override cfg' = num_gpu_blocks_override cfg"
  by (auto simp: auto_fit_max_model_len_def Let_def rbind_eq_Inr split: if_splits)

lemma get_kv_cache_configs_cases:
  assumes "get_kv_cache_configs ds cfg specs mems = Inr (cs, cfg')"
  obtains merged gs projected configs where
    "merge_worker_specs specs = Inr merged" "get_kv_cache_groups ds cfg merged = Inr gs"
    "list_all2 (\<lambda>w ps. project_kv_cache_groups_to_worker gs w = Inr ps) specs projected"
    "num_gpu_blocks_override cfg' = num_gpu_blocks_override cfg"
    "\<forall>(ps, m) \<in> set (zip projected mems). ps = [] \<or> 0 < m"
    "list_all2 (\<lambda>(ps, w, m) c. get_kv_cache_config_from_groups ds cfg' ps m = Inr c) (zip projected (zip specs mems)) configs"
    "configs \<noteq> []"
    "list_all2 (\<lambda>c c'. shrink_config (Min (set (map config_num_blocks configs))) c = Inr c') configs cs"
proof -
  from assms obtain merged gs projected cfg1 configs mn where 1: "merge_worker_specs specs = Inr merged"
      "get_kv_cache_groups ds cfg merged = Inr gs"
      "rmap (project_kv_cache_groups_to_worker gs) specs = Inr projected"
    and 2: "(if original_max_model_len cfg = -1 then auto_fit_max_model_len ds cfg projected mems else Inr cfg) = Inr cfg1"
    and 3: "rfold (\<lambda>(groups, mem) _. if groups = [] then Inr ()
              else check_enough_kv_cache_memory_with mem (max_memory_usage_bytes_from_groups ds cfg1 groups)
                     (estimate_max_model_len_from_groups ds cfg1 groups)) (zip projected mems) () = Inr ()"
    and 4: "rmap (\<lambda>(groups, spec, mem).
         rbind (ensure (sum_list (map (length \<circ> layer_names) groups) = length spec) AssertionError) (\<lambda>_.
         get_kv_cache_config_from_groups ds cfg1 groups mem)) (zip projected (zip specs mems)) = Inr configs"
    and 5: "py_min (map config_num_blocks configs) = Inr mn"
    and 6: "rmap (\<lambda>c. rbind (shrink_config mn c) (\<lambda>c.
              rbind (if kv_cache_groups c = [] then Inr () else rbind (report_kv_cache_config ds cfg1 c) (\<lambda>_. Inr ())) (\<lambda>_. Inr c)))
            configs = Inr cs" and 7: "cfg1 = cfg'"
    unfolding get_kv_cache_configs_def rbind_eq_Inr by (auto simp: rbind_eq_Inr)
  have "0 < m" if "(ps, m) \<in> set (zip projected mems)" "ps \<noteq> []" for ps m
    using rfold_unit [OF 3 that(1)] that(2) by (auto simp: check_enough_kv_cache_memory_with_def split: if_splits)
  moreover have "list_all2 (\<lambda>(ps, w, m) c. get_kv_cache_config_from_groups ds cfg' ps m = Inr c) (zip projected (zip specs mems)) configs"
    using 4 unfolding rmap_eq_Inr 7 by (rule list_all2_mono) (auto simp: rbind_eq_Inr)
  moreover have "list_all2 (\<lambda>c c'. shrink_config mn c = Inr c') configs cs"
    using 6 unfolding rmap_eq_Inr by (rule list_all2_mono) (auto simp: rbind_eq_Inr)
  moreover have "configs \<noteq> []" "mn = Min (set (map config_num_blocks configs))"
    using 5 by (auto simp: py_min_def split: if_splits)
  moreover have "num_gpu_blocks_override cfg' = num_gpu_blocks_override cfg"
    using 2 7 auto_fit_override by (auto split: if_splits)
  ultimately show thesis using that 1 unfolding rmap_eq_Inr by blast
qed

lemma projected_layers:
  assumes "merge_worker_specs specs = Inr merged" and "get_kv_cache_groups ds cfg merged = Inr gs"
    and "project_kv_cache_groups_to_worker gs w = Inr ps" and "w \<in> set specs" and "distinct (map fst w)"
  shows "mset (concat (map layer_names ps)) = mset (map fst w) \<and> wf_groups ps"
proof -
  note m = merge_worker_specs_spec [OF assms(1)] and p = project_spec [OF assms(3)]
  have all: "mset (concat (map layer_names gs)) = mset (map fst merged)"
    using assms(2) kv_cache_groups_mset by blast
  then have dist: "distinct (concat (map layer_names gs))" using m by (metis mset_eq_imp_distinct_iff)
  have flat: "concat (map layer_names ps) = filter (\<lambda>n. n \<in> fst ` set w) (concat (map layer_names gs))"
    using p by (induction rule: list_all2_induct) auto
  have "set (concat (map layer_names ps)) = set (map fst w)"
    unfolding flat using m assms(4) mset_eq_setD [OF all] by auto
  moreover have d: "distinct (concat (map layer_names ps))" unfolding flat using dist by (rule distinct_filter)
  ultimately have "mset (concat (map layer_names ps)) = mset (map fst w)"
    using assms(5) by (metis set_eq_iff_mset_eq_distinct)
  moreover have "wf_groups ps"
    using p d by (induction rule: list_all2_induct) (auto simp: wf_groups_def)
  ultimately show ?thesis by blast
qed

lemma config_from_groups_layers:
  assumes "get_kv_cache_config_from_groups ds cfg gs memory = Inr c"
  shows "mset (concat (map shared_by (kv_cache_tensors c))) = mset (concat (map layer_names gs))"
proof (cases gs)
  case Nil
  then show ?thesis using assms by (auto simp: get_kv_cache_config_from_groups_def)
next
  case (Cons g rest)
  define k where "k = Max (set (map (length \<circ> layer_names) gs))"
  have k: "\<forall>g \<in> set gs. length (layer_names g) \<le> k" by (simp add: k_def Max_ge)
  have names: "concat (map shared_by ts) = ns" if "uniform_tensors ds specs ns n = Inr ts" for specs ns n ts
    using that unfolding uniform_tensors_def by (induction ns arbitrary: ts) (auto simp: rbind_eq_Inr)
  show ?thesis
  proof (cases "\<exists>bs specs. rest = [] \<and> group_spec g = UniformTypeKVCacheSpecs bs specs")
    case True
    then show ?thesis using assms Cons names by (auto simp: get_kv_cache_config_from_groups_def Let_def rbind_eq_Inr)
  next
    case False
    then have "get_kv_cache_config_from_groups ds cfg gs memory = (let group_size = k in
           rbind (get_uniform_page_size ds (map group_spec gs)) (\<lambda>page_size.
           rbind (ensure (0 < group_size) AssertionError) (\<lambda>_.
           rbind (get_num_blocks cfg (int group_size) memory page_size) (\<lambda>num_blocks.
           Inr \<lparr>config_num_blocks = num_blocks,
                kv_cache_tensors = map (\<lambda>i. \<lparr>tensor_size = page_size * num_blocks, shared_by = shared_layers gs i\<rparr>)
                  [0..<group_size],
                kv_cache_groups = gs\<rparr>))))"
      using Cons by (simp add: get_kv_cache_config_from_groups_def k_def split: kv_spec.split list.split)
    with assms have "map shared_by (kv_cache_tensors c) = map (shared_layers gs) [0..<k]"
      by (auto simp: Let_def rbind_eq_Inr)
    then show ?thesis using mset_shared_layers [OF k] by (simp add: o_def)
  qed
qed

lemma shrink_config_layers:
  assumes "shrink_config n c = Inr c'"
  shows "config_num_blocks c' = n \<and> map shared_by (kv_cache_tensors c') = map shared_by (kv_cache_tensors c)"
proof -
  obtain ts where ts: "c' = c\<lparr>config_num_blocks := n, kv_cache_tensors := ts\<rparr>"
      "list_all2 (\<lambda>t u. (if config_num_blocks c = 0 then Inl ZeroDivisionError
         else rbind (ensure (tensor_size t mod config_num_blocks c = 0) AssertionError)
           (\<lambda>_. Inr (t\<lparr>tensor_size := tensor_size t div config_num_blocks c * n\<rparr>))) = Inr u) (kv_cache_tensors c) ts"
    using assms by (auto simp: shrink_config_def rbind_eq_Inr rmap_eq_Inr)
  have "list_all2 (\<lambda>t u. shared_by u = shared_by t) (kv_cache_tensors c) ts"
    using ts(2) by (rule list_all2_mono) (auto simp: rbind_eq_Inr split: if_splits)
  then have "map shared_by ts = map shared_by (kv_cache_tensors c)" by (induction rule: list_all2_induct) auto
  then show ?thesis using ts(1) by simp
qed

lemma kv_cache_configs_layers:
  assumes "get_kv_cache_configs ds cfg specs mems = Inr (cs, cfg')" and "length specs = length mems"
    and "\<forall>w \<in> set specs. distinct (map fst w)"
  shows "length cs = length specs \<and> (\<forall>i < length cs. config_num_blocks (cs ! i) = config_num_blocks (cs ! 0)
     \<and> mset (concat (map shared_by (kv_cache_tensors (cs ! i)))) = mset (map fst (specs ! i)))"
  using assms(1)
proof (cases rule: get_kv_cache_configs_cases)
  case (1 merged gs projected configs)
  let ?mn = "Min (set (map config_num_blocks configs))"
  have len: "length projected = length specs" "length configs = length specs" "length cs = length specs"
    using 1(3,6,8) assms(2) by (auto dest!: list_all2_lengthD)
  have one: "config_num_blocks (cs ! i) = ?mn \<and> mset (concat (map shared_by (kv_cache_tensors (cs ! i)))) = mset (map fst (specs ! i))"
    if i: "i < length specs" for i
  proof -
    have "get_kv_cache_config_from_groups ds cfg' (projected ! i) (mems ! i) = Inr (configs ! i)"
      and shrink: "shrink_config ?mn (configs ! i) = Inr (cs ! i)"
      and proj: "project_kv_cache_groups_to_worker gs (specs ! i) = Inr (projected ! i)"
      using list_all2_nthD [OF 1(6)] list_all2_nthD [OF 1(8)] list_all2_nthD [OF 1(3)] len assms(2) i by auto
    then have "mset (concat (map shared_by (kv_cache_tensors (configs ! i)))) = mset (concat (map layer_names (projected ! i)))"
      using config_from_groups_layers by blast
    then show ?thesis using shrink_config_layers [OF shrink] projected_layers [OF 1(1,2) proj] i assms(3) by simp
  qed
  then show ?thesis using len by (metis gr_implies_not0 neq0_conv)
qed

lemma kv_cache_configs_within:
  assumes "get_kv_cache_configs ds cfg specs mems = Inr (cs, cfg')"
    and "num_gpu_blocks_override cfg = None" and "length specs = length mems"
    and "\<forall>w \<in> set specs. distinct (map fst w)"
    and "\<forall>c \<in> set cs. pages_nonneg ds (kv_cache_groups c)"
  shows "length cs = length specs \<and> (\<forall>i < length cs.
     config_num_blocks (cs ! i) = config_num_blocks (cs ! 0)
     \<and> sum_list (map tensor_size (kv_cache_tensors (cs ! i))) \<le> max 0 (mems ! i)
     \<and> mset (concat (map shared_by (kv_cache_tensors (cs ! i)))) = mset (map fst (specs ! i)))"
  using assms(1)
proof (cases rule: get_kv_cache_configs_cases)
  case (1 merged gs projected configs)
  let ?mn = "Min (set (map config_num_blocks configs))"
  have len: "length projected = length specs" "length configs = length specs" "length cs = length specs"
    using 1(3,6,8) assms(3) by (auto dest!: list_all2_lengthD)
  have one: "config_num_blocks (cs ! i) = ?mn \<and> sum_list (map tensor_size (kv_cache_tensors (cs ! i))) \<le> max 0 (mems ! i)
     \<and> mset (concat (map shared_by (kv_cache_tensors (cs ! i)))) = mset (map fst (specs ! i))" if i: "i < length specs" for i
  proof -
    have from_groups: "get_kv_cache_config_from_groups ds cfg' (projected ! j) (mems ! j) = Inr (configs ! j)"
      and shrink: "shrink_config ?mn (configs ! j) = Inr (cs ! j)"
      and proj: "project_kv_cache_groups_to_worker gs (specs ! j) = Inr (projected ! j)" if "j < length specs" for j
      using list_all2_nthD [OF 1(6)] list_all2_nthD [OF 1(8)] list_all2_nthD [OF 1(3)] len assms(3) that by auto
    have groups: "kv_cache_groups (cs ! j) = kv_cache_groups (configs ! j)" if "j < length specs" for j
      by (rule shrink_config_groups [OF shrink [OF that]])
    have lay: "mset (concat (map layer_names (projected ! j))) = mset (map fst (specs ! j)) \<and> wf_groups (projected ! j)"
      if "j < length specs" for j
      using projected_layers [OF 1(1,2) proj [OF that]] that assms(4) by simp
    have cfg: "kv_cache_groups (configs ! j) = projected ! j \<and> mset (concat (map shared_by (kv_cache_tensors (configs ! j))))
        = mset (map fst (specs ! j)) \<and> tensors_within (mems ! j) (configs ! j)" if j: "j < length specs" for j
    proof -
      have "kv_cache_groups (configs ! j) = projected ! j" by (rule config_from_groups_groups [OF from_groups [OF j]])
      then have "pages_nonneg ds (projected ! j)" using groups [OF j] assms(5) j len(3) by (metis nth_mem)
      moreover have "(projected ! j, mems ! j) \<in> set (zip projected mems)"
        using j len(1) assms(3) by (auto simp: set_zip)
      then have "projected ! j \<noteq> [] \<Longrightarrow> 0 < mems ! j" using 1(5) by auto
      ultimately show ?thesis
        using config_from_groups_spec [OF from_groups [OF j]] lay [OF j] 1(4) assms(2) by auto
    qed
    have nonneg: "\<forall>x \<in> set (map config_num_blocks configs). 0 \<le> x"
      using cfg len(2) by (fastforce simp: tensors_within_def set_conv_nth)
    have nb: "?mn \<le> config_num_blocks (configs ! i)" "0 \<le> ?mn"
      using i len(2) 1(7) nonneg Min_in [of "set (map config_num_blocks configs)"] by (auto intro!: Min_le)
    show ?thesis using shrink_config_spec [OF shrink [OF i] _ nb(2,1)] cfg [OF i] by auto
  qed
  then show ?thesis using len by (metis gr_implies_not0 neq0_conv)
qed

text \<open>
  C25. When \<^verbatim>\<open>get_kv_cache_configs\<close> returns, every worker gets the same number of blocks, and every layer of a
  worker is backed by exactly one tensor. If moreover the user does not override the number of blocks and no
  page size in a group of uniform type is negative, the tensors of a worker fit in the memory it reported.
\<close>

theorem kv_cache_configs_fit:
  assumes "get_kv_cache_configs ds cfg specs mems = Inr (cs, cfg')" and "length specs = length mems"
    and "\<forall>w \<in> set specs. distinct (map fst w)"
  shows "length cs = length specs \<and> (\<forall>i < length cs. config_num_blocks (cs ! i) = config_num_blocks (cs ! 0)
       \<and> mset (concat (map shared_by (kv_cache_tensors (cs ! i)))) = mset (map fst (specs ! i)))
     \<and> (num_gpu_blocks_override cfg = None \<and> (\<forall>c \<in> set cs. pages_nonneg ds (kv_cache_groups c)) \<longrightarrow>
         (\<forall>i < length cs. sum_list (map tensor_size (kv_cache_tensors (cs ! i))) \<le> max 0 (mems ! i)))"
  using kv_cache_configs_layers [OF assms] kv_cache_configs_within [OF assms(1) _ assms(2,3)] by blast

theorem kv_cache_configs_fit_witness:
  "map config_num_blocks (fst (projr (get_kv_cache_configs (\<lambda>_. 2) (sample_config 20) [sample_model, sample_model] [1000, 900]))) = [28, 28]
   \<and> list_all2 (\<lambda>c m. sum_list (map tensor_size (kv_cache_tensors c)) \<le> max 0 m)
        (fst (projr (get_kv_cache_configs (\<lambda>_. 2) (sample_config 20) [sample_model, sample_model] [1000, 900]))) [1000, 900]"
proof -
  let ?r = "projr (get_kv_cache_configs (\<lambda>_. 2) (sample_config 20) [sample_model, sample_model] [1000, 900])"
  have r: "get_kv_cache_configs (\<lambda>_. 2) (sample_config 20) [sample_model, sample_model] [1000, 900] = Inr (fst ?r, snd ?r)" by code_simp
  have nb: "map config_num_blocks (fst ?r) = [28, 28]" by code_simp
  have layers: "list_all (\<lambda>c. list_all (\<lambda>g. case group_spec g of LayerSpec _ \<Rightarrow> True | _ \<Rightarrow> False) (kv_cache_groups c)) (fst ?r)"
    by code_simp
  then have "\<forall>c \<in> set (fst ?r). pages_nonneg (\<lambda>_. 2) (kv_cache_groups c)"
    by (fastforce simp: pages_nonneg_def list_all_iff)
  moreover have "\<forall>w \<in> set [sample_model, sample_model]. distinct (map fst w)" by (simp add: sample_model_def)
  moreover have "num_gpu_blocks_override (sample_config 20) = None" by (simp add: sample_config_def)
  ultimately have "length (fst ?r) = 2 \<and> (\<forall>i < length (fst ?r). sum_list (map tensor_size (kv_cache_tensors (fst ?r ! i))) \<le> max 0 ([1000, 900] ! i))"
    using kv_cache_configs_fit [OF r] by simp
  then show ?thesis using nb by (simp add: list_all2_conv_all_nth)
qed

section \<open>Where the planner is wrong\<close>

text \<open>
  The memory check of a hybrid model looks at its first group only. For one window layer
  followed by one full attention layer it accepts a maximum length of 100 tokens with 8
  blocks of memory, although the full attention layer alone needs 25 blocks for 100 tokens.
\<close>

theorem memory_check_ignores_other_groups:
  "case get_kv_cache_configs (\<lambda>_. 2) (sample_config 100) [[(''w0'', sample_window), (''f0'', sample_full)]] [256] of
     Inr ([c], cfg) \<Rightarrow> max_model_len cfg = 100 \<and> config_num_blocks c = 8
       \<and> map group_spec (kv_cache_groups c) = [LayerSpec sample_window, LayerSpec sample_full]
       \<and> max_pages cfg sample_full = Inr 25
   | _ \<Rightarrow> False"
  by code_simp

definition wide_value_full :: layer_spec where
  "wide_value_full = FullAttentionSpec \<lparr>spec_block_size = 4, num_kv_heads = 1, head_size = 2, dtype = ''float16'',
     page_size_padded = None, head_size_v = 8, full_sliding_window = None, full_attention_chunk_size = None\<rparr>"

text \<open>
  Merging full attention formats compares the fields of \<^verbatim>\<open>AttentionSpec\<close> only. Two
  layers that differ in \<^verbatim>\<open>head_size_v\<close> are merged into one group whose page is smaller
  than the page the second layer needs.
\<close>

theorem merge_ignores_head_size_v:
  "merge [sample_full, wide_value_full] = Inr sample_full
   \<and> page_size_bytes (\<lambda>_. 2) sample_full = Inr 32 \<and> page_size_bytes (\<lambda>_. 2) wide_value_full = Inr 80
   \<and> get_kv_cache_groups (\<lambda>_. 2) (sample_config 100) [(''f0'', sample_full), (''f1'', wide_value_full)]
      = Inr [\<lparr>layer_names = [''f0'', ''f1''], group_spec = LayerSpec sample_full\<rparr>]"
  by code_simp


end
