(* ===== verification/Free_Queue.thy ===== *)
theory Free_Queue
  imports Prelude
begin

text \<open>
  The KV cache block record and the doubly linked free list of
  \<^verbatim>\<open>src/vllm/v1/core/kv_cache_utils.py\<close> (classes \<^verbatim>\<open>KVCacheBlock\<close> and
  \<^verbatim>\<open>FreeKVCacheBlockQueue\<close>). Python object references are values of type
  \<open>block_ref\<close>, the objects live in a store from references to records, and every
  pointer assignment of the source is one store update. The queue operations are then
  shown to refine operations on lists, through the locale \<open>free_list\<close>.
\<close>

section \<open>Blocks and the store\<close>

datatype block_ref = Fake_head | Fake_tail | Blk nat

record kv_cache_block =
  block_id :: int
  ref_cnt :: int
  block_hash :: "bytes option"
  prev_free_block :: "block_ref option"
  next_free_block :: "block_ref option"
  is_null :: bool

definition KVCacheBlock :: "int \<Rightarrow> kv_cache_block" where
  "KVCacheBlock i = \<lparr>block_id = i, ref_cnt = 0, block_hash = None,
     prev_free_block = None, next_free_block = None, is_null = False\<rparr>"

record free_queue =
  heap :: "block_ref \<Rightarrow> kv_cache_block"
  num_free_blocks :: int

text \<open>The assignments to the two link fields.\<close>

definition set_prev :: "block_ref \<Rightarrow> block_ref option \<Rightarrow> 'a free_queue_scheme \<Rightarrow> 'a free_queue_scheme" where
  "set_prev r p q = q\<lparr>heap := (heap q)(r := (heap q r)\<lparr>prev_free_block := p\<rparr>)\<rparr>"

definition set_next :: "block_ref \<Rightarrow> block_ref option \<Rightarrow> 'a free_queue_scheme \<Rightarrow> 'a free_queue_scheme" where
  "set_next r p q = q\<lparr>heap := (heap q)(r := (heap q r)\<lparr>next_free_block := p\<rparr>)\<rparr>"

section \<open>The operations of FreeKVCacheBlockQueue\<close>

text \<open>
  The constructor links consecutive blocks, creates the two fake blocks and connects
  them to the ends of the list.
\<close>

definition link_consecutive :: "block_ref list \<Rightarrow> 'a free_queue_scheme \<Rightarrow> 'a free_queue_scheme" where
  "link_consecutive blocks q =
     fold (\<lambda>i q.
        let q = (if 0 < i then set_prev (blocks ! i) (Some (blocks ! (i - 1))) q else q)
        in if i + 1 < length blocks then set_next (blocks ! i) (Some (blocks ! (i + 1))) q else q)
      [0..<length blocks] q"

definition free_queue_init :: "block_ref list \<Rightarrow> 'a free_queue_scheme \<Rightarrow> 'a free_queue_scheme" where
  "free_queue_init blocks q =
     (let q = q\<lparr>num_free_blocks := int (length blocks)\<rparr>;
          q = link_consecutive blocks q;
          q = q\<lparr>heap := (heap q)(Fake_head := KVCacheBlock (-1), Fake_tail := KVCacheBlock (-1))\<rparr>
      in if 0 < length blocks then
           let q = set_next Fake_head (Some (blocks ! 0)) q;
               q = set_prev (blocks ! 0) (Some Fake_head) q;
               q = set_prev Fake_tail (Some (last blocks)) q
           in set_next (last blocks) (Some Fake_tail) q
         else
           set_prev Fake_tail (Some Fake_head) (set_next Fake_head (Some Fake_tail) q))"

definition popleft :: "'a free_queue_scheme \<Rightarrow> (block_ref \<times> 'a free_queue_scheme) result" where
  "popleft q =
     (case next_free_block (heap q Fake_head) of
        None \<Rightarrow> (if num_free_blocks q = 0 then Inl ValueError else Inl AssertionError)
      | Some first_block \<Rightarrow>
          if first_block = Fake_tail then
            (if num_free_blocks q = 0 then Inl ValueError else Inl AssertionError)
          else
            (case next_free_block (heap q first_block) of
               None \<Rightarrow> Inl RuntimeError
             | Some nxt \<Rightarrow>
                 let q = set_next Fake_head (Some nxt) q;
                     q = set_prev nxt (Some Fake_head) q;
                     q = set_next first_block None (set_prev first_block None q)
                 in Inr (first_block, q\<lparr>num_free_blocks := num_free_blocks q - 1\<rparr>)))"

fun popleft_n_loop ::
  "nat \<Rightarrow> block_ref option \<Rightarrow> 'a free_queue_scheme
     \<Rightarrow> (block_ref list \<times> block_ref option \<times> 'a free_queue_scheme) result" where
  "popleft_n_loop 0 cur q = Inr ([], cur, q)"
| "popleft_n_loop (Suc n) cur q =
     (case cur of
        None \<Rightarrow> Inl AssertionError
      | Some b \<Rightarrow>
          let cur' = next_free_block (heap q b);
              q = set_next b None (set_prev b None q)
          in rbind (popleft_n_loop n cur' q) (\<lambda>(ret, c, q). Inr (b # ret, c, q)))"

definition popleft_n :: "int \<Rightarrow> 'a free_queue_scheme \<Rightarrow> (block_ref list \<times> 'a free_queue_scheme) result" where
  "popleft_n n q =
     (if n = 0 then Inr ([], q)
      else if num_free_blocks q < n then Inl AssertionError
      else
        let q = q\<lparr>num_free_blocks := num_free_blocks q - n\<rparr>
        in rbind (popleft_n_loop (nat n) (next_free_block (heap q Fake_head)) q)
             (\<lambda>(ret, cur, q).
                case cur of
                  None \<Rightarrow> Inr (ret, q)
                | Some c \<Rightarrow> Inr (ret, set_prev c (Some Fake_head) (set_next Fake_head (Some c) q))))"

definition fq_remove :: "block_ref \<Rightarrow> 'a free_queue_scheme \<Rightarrow> ('a free_queue_scheme) result" where
  "fq_remove b q =
     (case prev_free_block (heap q b) of
        None \<Rightarrow> Inl RuntimeError
      | Some p \<Rightarrow>
          (case next_free_block (heap q b) of
             None \<Rightarrow> Inl RuntimeError
           | Some nx \<Rightarrow>
               let q = set_next p (Some nx) q;
                   q = set_prev nx (Some p) q;
                   q = set_next b None (set_prev b None q)
               in Inr (q\<lparr>num_free_blocks := num_free_blocks q - 1\<rparr>)))"

definition fq_append :: "block_ref \<Rightarrow> 'a free_queue_scheme \<Rightarrow> ('a free_queue_scheme) result" where
  "fq_append b q =
     (case prev_free_block (heap q Fake_tail) of
        None \<Rightarrow> Inl RuntimeError
      | Some last_block \<Rightarrow>
          let q = set_next last_block (Some b) q;
              q = set_prev b (Some last_block) q;
              q = set_next b (Some Fake_tail) q;
              q = set_prev Fake_tail (Some b) q
          in Inr (q\<lparr>num_free_blocks := num_free_blocks q + 1\<rparr>))"

fun append_n_loop ::
  "block_ref list \<Rightarrow> block_ref \<Rightarrow> 'a free_queue_scheme \<Rightarrow> block_ref \<times> 'a free_queue_scheme" where
  "append_n_loop [] last_block q = (last_block, q)"
| "append_n_loop (b # bs) last_block q =
     append_n_loop bs b (set_next last_block (Some b) (set_prev b (Some last_block) q))"

definition append_n :: "block_ref list \<Rightarrow> 'a free_queue_scheme \<Rightarrow> ('a free_queue_scheme) result" where
  "append_n blocks q =
     (if blocks = [] then Inr q
      else
        (case prev_free_block (heap q Fake_tail) of
           None \<Rightarrow> Inl AssertionError
         | Some last_block \<Rightarrow>
             let (last_block, q) = append_n_loop blocks last_block q;
                 q = set_next last_block (Some Fake_tail) q;
                 q = set_prev Fake_tail (Some last_block) q
             in Inr (q\<lparr>num_free_blocks := num_free_blocks q + int (length blocks)\<rparr>)))"

text \<open>
  \<^verbatim>\<open>get_all_free_blocks\<close> follows the \<^verbatim>\<open>next_free_block\<close> pointers until a
  block without one. On a store whose pointers form a cycle it does not return, so it is
  a partial function.
\<close>

partial_function (option) all_free_loop ::
  "(block_ref \<Rightarrow> kv_cache_block) \<Rightarrow> block_ref \<Rightarrow> block_ref list \<Rightarrow> block_ref list option" where
  "all_free_loop h cur ret =
     (case next_free_block (h cur) of
        None \<Rightarrow> Some ret
      | Some nx \<Rightarrow> all_free_loop h nx (ret @ [cur]))"

definition get_all_free_blocks :: "'a free_queue_scheme \<Rightarrow> (block_ref list result) option" where
  "get_all_free_blocks q =
     (case next_free_block (heap q Fake_head) of
        None \<Rightarrow> Some (Inl RuntimeError)
      | Some c \<Rightarrow> map_option Inr (all_free_loop (heap q) c []))"

section \<open>Doubly linked segments\<close>

fun dll :: "(block_ref \<Rightarrow> kv_cache_block) \<Rightarrow> block_ref list \<Rightarrow> bool" where
  "dll h [] = True"
| "dll h [a] = True"
| "dll h (a # b # r) =
     (next_free_block (h a) = Some b \<and> prev_free_block (h b) = Some a \<and> dll h (b # r))"

lemma dll_Cons: "dll h (a # r) \<longleftrightarrow>
   (r \<noteq> [] \<longrightarrow> next_free_block (h a) = Some (hd r) \<and> prev_free_block (h (hd r)) = Some a \<and> dll h r)"
  by (cases r) auto

lemma dll_append: "dll h (xs @ ys) \<longleftrightarrow> dll h xs \<and> dll h ys \<and>
   (xs \<noteq> [] \<and> ys \<noteq> [] \<longrightarrow>
      next_free_block (h (last xs)) = Some (hd ys) \<and> prev_free_block (h (hd ys)) = Some (last xs))"
proof (induction xs)
  case Nil
  then show ?case by simp
next
  case (Cons x xs)
  then show ?case by (cases xs) (auto simp: dll_Cons)
qed

lemma dll_append_right: "dll h (xs @ ys) \<Longrightarrow> dll h ys"
  by (simp add: dll_append)

lemma dll_cong:
  assumes "\<And>a. a \<in> set (butlast l) \<Longrightarrow> next_free_block (h a) = next_free_block (h' a)"
    and "\<And>a. a \<in> set (tl l) \<Longrightarrow> prev_free_block (h a) = prev_free_block (h' a)"
  shows "dll h l = dll h' l"
  using assms by (induction h l rule: dll.induct) auto

lemma dll_same: "(\<And>a. a \<in> set l \<Longrightarrow> h a = h' a) \<Longrightarrow> dll h l = dll h' l"
  by (rule dll_cong) (auto dest: in_set_butlastD simp: tl_def split: list.splits)

text \<open>The block fields the queue does not own, and the rest of the state.\<close>

definition erase_links :: "kv_cache_block \<Rightarrow> kv_cache_block" where
  "erase_links b = b\<lparr>prev_free_block := None, next_free_block := None\<rparr>"

definition fq_data :: "'a free_queue_scheme \<Rightarrow> (block_ref \<Rightarrow> kv_cache_block) \<times> 'a" where
  "fq_data q = ((\<lambda>r. erase_links (heap q r)), free_queue.more q)"

lemma erase_links_links [simp]:
  "erase_links (b\<lparr>prev_free_block := p\<rparr>) = erase_links b"
  "erase_links (b\<lparr>next_free_block := p\<rparr>) = erase_links b"
  by (simp_all add: erase_links_def)

lemma erase_links_eqD:
  assumes "erase_links b = erase_links c"
  shows "block_id b = block_id c" "ref_cnt b = ref_cnt c" "block_hash b = block_hash c"
    "is_null b = is_null c"
  using assms by (simp_all add: erase_links_def) (metis kv_cache_block.select_convs
      kv_cache_block.surjective kv_cache_block.update_convs)+

lemma fq_data_set [simp]:
  "fq_data (set_prev r p q) = fq_data q"
  "fq_data (set_next r p q) = fq_data q"
  "fq_data (q\<lparr>num_free_blocks := n\<rparr>) = fq_data q"
  by (auto simp: fq_data_def set_prev_def set_next_def)

lemma set_link_heap [heap_simps]:
  "next_free_block (heap (set_prev r p q) a) = next_free_block (heap q a)"
  "prev_free_block (heap (set_next r p q) a) = prev_free_block (heap q a)"
  "prev_free_block (heap (set_prev r p q) a) = (if a = r then p else prev_free_block (heap q a))"
  "next_free_block (heap (set_next r p q) a) = (if a = r then p else next_free_block (heap q a))"
  "heap (q\<lparr>num_free_blocks := n\<rparr>) = heap q"
  by (auto simp: set_prev_def set_next_def)

lemma set_link_num [heap_simps]:
  "num_free_blocks (set_prev r p q) = num_free_blocks q"
  "num_free_blocks (set_next r p q) = num_free_blocks q"
  by (auto simp: set_prev_def set_next_def)

section \<open>The queue represents a list\<close>

definition real_blocks :: "block_ref list \<Rightarrow> bool" where
  "real_blocks xs \<longleftrightarrow> Fake_head \<notin> set xs \<and> Fake_tail \<notin> set xs"

definition fq_rep :: "'a free_queue_scheme \<Rightarrow> block_ref list \<Rightarrow> bool" where
  "fq_rep q xs \<longleftrightarrow>
     distinct xs \<and> real_blocks xs \<and> num_free_blocks q = int (length xs) \<and>
     dll (heap q) (Fake_head # xs @ [Fake_tail]) \<and>
     next_free_block (heap q Fake_tail) = None \<and>
     (\<forall>b. b \<notin> set xs \<and> b \<noteq> Fake_head \<and> b \<noteq> Fake_tail \<longrightarrow>
        prev_free_block (heap q b) = None \<and> next_free_block (heap q b) = None)"

lemma fq_repD:
  assumes "fq_rep q xs"
  shows "distinct xs" "real_blocks xs" "num_free_blocks q = int (length xs)"
    "dll (heap q) (Fake_head # xs @ [Fake_tail])" "next_free_block (heap q Fake_tail) = None"
  using assms by (auto simp: fq_rep_def)

lemma fq_rep_first:
  "fq_rep q xs \<Longrightarrow> next_free_block (heap q Fake_head) = Some (hd (xs @ [Fake_tail]))"
  by (cases xs) (auto simp: fq_rep_def)

lemma fq_rep_last:
  assumes "fq_rep q xs"
  shows "prev_free_block (heap q Fake_tail) = Some (last (Fake_head # xs))"
proof -
  have "dll (heap q) ((Fake_head # xs) @ [Fake_tail])" using assms by (simp add: fq_rep_def)
  then show ?thesis unfolding dll_append by simp
qed

lemma popleft_empty: "fq_rep q [] \<Longrightarrow> popleft q = Inl ValueError"
  by (simp add: popleft_def fq_rep_def)

lemma popleft_Cons:
  assumes rep: "fq_rep q (x # xs)"
  shows "\<exists>q'. popleft q = Inr (x, q') \<and> fq_rep q' xs \<and> fq_data q' = fq_data q"
proof -
  let ?n = "hd (xs @ [Fake_tail])"
  have x: "x \<noteq> Fake_head" "x \<noteq> Fake_tail" "x \<notin> set xs"
    using rep by (auto simp: fq_rep_def real_blocks_def)
  have nx: "next_free_block (heap q x) = Some ?n" "next_free_block (heap q Fake_head) = Some x"
    using rep by (auto simp: fq_rep_def dll_Cons)
  define q' where "q' = (set_next x None (set_prev x None (set_prev ?n (Some Fake_head)
     (set_next Fake_head (Some ?n) q))))\<lparr>num_free_blocks := num_free_blocks q - 1\<rparr>"
  have tail: "dll (heap q) (xs @ [Fake_tail])" using rep by (simp add: fq_rep_def dll_Cons)
  have "dll (heap q') (xs @ [Fake_tail])"
  proof (rule dll_cong [THEN iffD1, OF _ _ tail])
    fix a assume "a \<in> set (butlast (xs @ [Fake_tail]))"
    then show "next_free_block (heap q a) = next_free_block (heap q' a)"
      using rep x by (auto simp: q'_def heap_simps fq_rep_def real_blocks_def)
  next
    fix a assume "a \<in> set (tl (xs @ [Fake_tail]))"
    then have "a \<noteq> ?n" "a \<noteq> x"
      using rep x by (cases xs; auto simp: fq_rep_def real_blocks_def)+
    then show "prev_free_block (heap q a) = prev_free_block (heap q' a)"
      by (simp add: q'_def heap_simps)
  qed
  moreover have "x \<noteq> ?n" using x by (cases xs) auto
  ultimately have "fq_rep q' xs"
    using rep x by (cases xs) (auto simp: fq_rep_def real_blocks_def q'_def heap_simps dll_Cons)
  moreover have "popleft q = Inr (x, q')"
    using x nx by (simp add: popleft_def q'_def Let_def heap_simps)
  moreover have "fq_data q' = fq_data q" by (simp add: q'_def)
  ultimately show ?thesis by blast
qed

text \<open>
  The loop of \<open>popleft_n\<close> clears the links of the popped blocks and leaves the rest of
  the store alone.
\<close>

lemma popleft_n_loop_spec:
  assumes "dll (heap q) (ys @ zs)" and "distinct ys" and "set ys \<inter> set zs = {}" and "zs \<noteq> []"
  shows "\<exists>q'. popleft_n_loop (length ys) (Some (hd (ys @ zs))) q = Inr (ys, Some (hd zs), q') \<and>
     (\<forall>a. a \<notin> set ys \<longrightarrow> heap q' a = heap q a) \<and>
     (\<forall>a \<in> set ys. prev_free_block (heap q' a) = None \<and> next_free_block (heap q' a) = None) \<and>
     num_free_blocks q' = num_free_blocks q \<and> fq_data q' = fq_data q"
  using assms
proof (induction ys arbitrary: q)
  case Nil
  then show ?case by auto
next
  case (Cons y ys)
  define q1 where "q1 = set_next y None (set_prev y None q)"
  have nxt: "next_free_block (heap q y) = Some (hd (ys @ zs))"
    using Cons.prems by (simp add: dll_Cons)
  have frame: "a \<noteq> y \<Longrightarrow> heap q1 a = heap q a" for a
    by (simp add: q1_def set_prev_def set_next_def)
  have "dll (heap q) (ys @ zs)" using Cons.prems by (simp add: dll_Cons)
  moreover have "heap q1 a = heap q a" if "a \<in> set (ys @ zs)" for a
    using that Cons.prems by (intro frame) auto
  ultimately have "dll (heap q1) (ys @ zs)" using dll_same [of "ys @ zs" "heap q1" "heap q"] by blast
  then obtain q' where
    "popleft_n_loop (length ys) (Some (hd (ys @ zs))) q1 = Inr (ys, Some (hd zs), q')"
    and q': "\<forall>a. a \<notin> set ys \<longrightarrow> heap q' a = heap q1 a"
      "\<forall>a \<in> set ys. prev_free_block (heap q' a) = None \<and> next_free_block (heap q' a) = None"
      "num_free_blocks q' = num_free_blocks q1" "fq_data q' = fq_data q1"
    using Cons.IH [of q1] Cons.prems by auto
  then have "popleft_n_loop (length (y # ys)) (Some (hd ((y # ys) @ zs))) q
      = Inr (y # ys, Some (hd zs), q')"
    using nxt by (simp add: q1_def [symmetric])
  moreover have "\<forall>a. a \<notin> set (y # ys) \<longrightarrow> heap q' a = heap q a" using q'(1) frame by simp
  moreover have "prev_free_block (heap q' y) = None \<and> next_free_block (heap q' y) = None"
    using q'(1) Cons.prems(2) by (simp add: q1_def heap_simps)
  ultimately show ?case using q' by (auto simp: q1_def heap_simps)
qed

text \<open>
  Connecting the fake head to the first block of the remaining list restores the queue
  once the links of the blocks before it are cleared.
\<close>

lemma fq_rep_relink:
  assumes rep: "fq_rep q (ys @ xs)" and n: "num_free_blocks q1 = int (length xs)"
    and same: "\<And>a. a \<notin> set ys \<Longrightarrow> heap q1 a = heap q a"
    and cleared: "\<And>a. a \<in> set ys \<Longrightarrow>
       prev_free_block (heap q1 a) = None \<and> next_free_block (heap q1 a) = None"
  shows "fq_rep (set_prev (hd (xs @ [Fake_tail])) (Some Fake_head)
     (set_next Fake_head (Some (hd (xs @ [Fake_tail]))) q1)) xs" (is "fq_rep ?q' xs")
proof -
  let ?zs = "xs @ [Fake_tail]"
  have zs: "a \<notin> set ys" "a \<noteq> Fake_head" if "a \<in> set ?zs" for a
    using that rep by (auto simp: fq_rep_def real_blocks_def)
  have "dll (heap q) ((Fake_head # ys) @ ?zs)" using rep by (simp add: fq_rep_def)
  then have "dll (heap q) ?zs" by (rule dll_append_right)
  then have "dll (heap ?q') ?zs"
  proof (rule dll_cong [THEN iffD1, rotated 2])
    fix a assume "a \<in> set (butlast ?zs)"
    then show "next_free_block (heap q a) = next_free_block (heap ?q' a)"
      using zs [of a] same [of a] by (auto simp: heap_simps)
  next
    fix a assume "a \<in> set (tl ?zs)"
    then have "a \<in> set ?zs" "a \<noteq> hd ?zs"
      using rep by (cases xs; auto simp: fq_rep_def real_blocks_def)+
    then show "prev_free_block (heap q a) = prev_free_block (heap ?q' a)"
      using zs [of a] same [of a] by (auto simp: heap_simps)
  qed
  moreover have "prev_free_block (heap ?q' b) = None \<and> next_free_block (heap ?q' b) = None"
    if b: "b \<notin> set xs" "b \<noteq> Fake_head" "b \<noteq> Fake_tail" for b
  proof -
    have "b \<noteq> hd ?zs" using b by (cases xs) auto
    then show ?thesis
      using b rep same [of b] cleared [of b] by (cases "b \<in> set ys") (auto simp: heap_simps fq_rep_def)
  qed
  moreover have "next_free_block (heap ?q' Fake_tail) = None"
    using rep same [of Fake_tail] by (auto simp: heap_simps fq_rep_def real_blocks_def)
  ultimately show ?thesis
    using rep n by (auto simp: fq_rep_def real_blocks_def heap_simps dll_Cons [of _ Fake_head])
qed

lemma popleft_n_take:
  assumes rep: "fq_rep q xs" and n: "0 \<le> n" "n \<le> int (length xs)"
  shows "\<exists>q'. popleft_n n q = Inr (take (nat n) xs, q') \<and> fq_rep q' (drop (nat n) xs)
     \<and> fq_data q' = fq_data q"
proof (cases "n = 0")
  case True
  then show ?thesis using rep by (simp add: popleft_n_def)
next
  case False
  define ys xs' where "ys = take (nat n) xs" and "xs' = drop (nat n) xs"
  define q0 where "q0 = q\<lparr>num_free_blocks := num_free_blocks q - n\<rparr>"
  have xs: "xs = ys @ xs'" "length ys = nat n" using n by (simp_all add: ys_def xs'_def)
  have dist: "distinct ys" "set ys \<inter> set (xs' @ [Fake_tail]) = {}"
    and dllq: "dll (heap q0) (ys @ xs' @ [Fake_tail])"
    using rep by (auto simp: xs fq_rep_def real_blocks_def q0_def dll_Cons)
  obtain q1 where loop: "popleft_n_loop (length ys) (Some (hd (ys @ xs' @ [Fake_tail]))) q0
        = Inr (ys, Some (hd (xs' @ [Fake_tail])), q1)"
    and q1: "\<And>a. a \<notin> set ys \<Longrightarrow> heap q1 a = heap q0 a"
      "\<And>a. a \<in> set ys \<Longrightarrow> prev_free_block (heap q1 a) = None \<and> next_free_block (heap q1 a) = None"
      "num_free_blocks q1 = num_free_blocks q0" "fq_data q1 = fq_data q0"
    using popleft_n_loop_spec [OF dllq dist] by blast
  have num: "num_free_blocks q1 = int (length xs')"
    using rep n by (simp add: q1(3) q0_def fq_rep_def xs'_def of_nat_diff)
  have same: "\<And>a. a \<notin> set ys \<Longrightarrow> heap q1 a = heap q a" by (simp add: q1(1) q0_def)
  note fq_rep_relink [OF rep [unfolded xs(1)] num same q1(2)]
  moreover have "popleft_n n q = Inr (ys, set_prev (hd (xs' @ [Fake_tail])) (Some Fake_head)
     (set_next Fake_head (Some (hd (xs' @ [Fake_tail]))) q1))"
    using False n rep loop fq_rep_first [OF rep]
    by (simp add: popleft_n_def Let_def q0_def [symmetric] xs fq_rep_def)
      (simp add: q0_def heap_simps)
  moreover have "fq_data q1 = fq_data q" by (simp add: q1(4)) (simp add: q0_def)
  ultimately show ?thesis unfolding ys_def xs'_def by auto
qed

text \<open>Unlinking a block from the middle of the list.\<close>

lemma fq_remove_mid:
  assumes rep: "fq_rep q (ys @ b # zs)"
  shows "\<exists>q'. fq_remove b q = Inr q' \<and> fq_rep q' (ys @ zs) \<and> fq_data q' = fq_data q"
proof -
  let ?p = "last (Fake_head # ys)" and ?n = "hd (zs @ [Fake_tail])"
  have d: "distinct (Fake_head # ys @ b # zs @ [Fake_tail])"
    using rep by (auto simp: fq_rep_def real_blocks_def)
  have "dll (heap q) ((Fake_head # ys) @ [b] @ (zs @ [Fake_tail]))"
    using rep by (simp add: fq_rep_def)
  then have links: "dll (heap q) (Fake_head # ys)" "dll (heap q) (zs @ [Fake_tail])"
      "prev_free_block (heap q b) = Some ?p" "next_free_block (heap q b) = Some ?n"
    unfolding dll_append by auto
  define q' where "q' = (set_next b None (set_prev b None (set_prev ?n (Some ?p)
     (set_next ?p (Some ?n) q))))\<lparr>num_free_blocks := num_free_blocks q - 1\<rparr>"
  have p: "?p \<in> set (Fake_head # ys)" "?p \<notin> set (butlast (Fake_head # ys))" "?p \<notin> set (zs @ [Fake_tail])"
    and n: "?n \<in> set (zs @ [Fake_tail])" "?n \<notin> set (tl (zs @ [Fake_tail]))" "?n \<notin> set (Fake_head # ys)"
    using d by (cases ys rule: rev_cases; cases zs; auto)+
  have "dll (heap q') (Fake_head # ys)"
    by (rule dll_cong [THEN iffD1, OF _ _ links(1)])
      (use d p n in \<open>auto simp: q'_def heap_simps dest: in_set_butlastD\<close>)
  moreover have "dll (heap q') (zs @ [Fake_tail])"
    by (rule dll_cong [THEN iffD1, OF _ _ links(2)])
      (use d p n in \<open>auto simp: q'_def heap_simps dest: in_set_butlastD list.set_sel(2) [rotated]\<close>)
  moreover have "b \<noteq> ?p" "b \<noteq> ?n" using d p(1) n(1) by auto
  ultimately have "dll (heap q') ((Fake_head # ys) @ (zs @ [Fake_tail]))"
    unfolding dll_append by (simp add: q'_def heap_simps)
  moreover have "prev_free_block (heap q' c) = None \<and> next_free_block (heap q' c) = None"
    if "c \<notin> set (ys @ zs)" "c \<noteq> Fake_head" "c \<noteq> Fake_tail" for c
    using that p(1) n(1) rep by (auto simp: q'_def heap_simps fq_rep_def)
  moreover have "next_free_block (heap q' Fake_tail) = None"
    using p(3) d rep by (auto simp: q'_def heap_simps fq_rep_def)
  ultimately have "fq_rep q' (ys @ zs)"
    using rep by (auto simp: fq_rep_def real_blocks_def q'_def heap_simps)
  moreover have "fq_remove b q = Inr q'" "fq_data q' = fq_data q"
    using links(3,4) by (simp_all add: fq_remove_def q'_def Let_def heap_simps)
  ultimately show ?thesis by blast
qed

text \<open>Removing a block that is not in the list is reported, and so is nothing else.\<close>

lemma fq_remove_absent:
  "fq_rep q xs \<Longrightarrow> b \<notin> set xs \<Longrightarrow> b \<noteq> Fake_head \<Longrightarrow> b \<noteq> Fake_tail \<Longrightarrow> fq_remove b q = Inl RuntimeError"
  by (simp add: fq_remove_def fq_rep_def)

lemma fq_remove_remove1:
  assumes "fq_rep q xs" and "b \<in> set xs"
  shows "\<exists>q'. fq_remove b q = Inr q' \<and> fq_rep q' (remove1 b xs) \<and> fq_data q' = fq_data q"
proof -
  from split_list_first [OF assms(2)] obtain ys zs
    where xs: "xs = ys @ b # zs" "b \<notin> set ys" by blast
  moreover have "remove1 b xs = ys @ zs" using xs by (simp add: remove1_append)
  ultimately show ?thesis using fq_remove_mid [of q ys b zs] assms(1) by simp
qed

text \<open>Appending: the loop of \<open>append_n\<close> chains the new blocks after the last one.\<close>

lemma append_n_loop_last: "fst (append_n_loop bs l q) = last (l # bs)"
  by (induction bs arbitrary: l q) auto

lemma append_n_loop_prev:
  "a \<notin> set bs \<Longrightarrow> prev_free_block (heap (snd (append_n_loop bs l q)) a) = prev_free_block (heap q a)"
  by (induction bs arbitrary: l q) (auto simp: heap_simps)

lemma append_n_loop_next:
  "a \<notin> set (butlast (l # bs)) \<Longrightarrow>
     next_free_block (heap (snd (append_n_loop bs l q)) a) = next_free_block (heap q a)"
  by (induction bs arbitrary: l q) (auto simp: heap_simps split: if_splits)

lemma append_n_loop_dll: "distinct (l # bs) \<Longrightarrow> dll (heap (snd (append_n_loop bs l q))) (l # bs)"
proof (induction bs arbitrary: l q)
  case (Cons b bs)
  have "l \<notin> set (butlast (b # bs))" using Cons.prems by (auto dest: in_set_butlastD)
  then show ?case
    using Cons by (simp add: append_n_loop_next append_n_loop_prev heap_simps)
qed simp

lemma append_n_loop_data [simp]:
  "num_free_blocks (snd (append_n_loop bs l q)) = num_free_blocks q"
  "fq_data (snd (append_n_loop bs l q)) = fq_data q"
  by (induction bs arbitrary: l q) (auto simp: heap_simps)

lemmas append_n_loop_frame = append_n_loop_prev append_n_loop_next

lemma append_n_append:
  assumes rep: "fq_rep q xs" and bs: "distinct bs" "real_blocks bs" "set bs \<inter> set xs = {}"
  shows "\<exists>q'. append_n bs q = Inr q' \<and> fq_rep q' (xs @ bs) \<and> fq_data q' = fq_data q"
proof (cases "bs = []")
  case True
  then show ?thesis using rep by (simp add: append_n_def)
next
  case False
  let ?l = "last (Fake_head # xs)"
  have d: "distinct (Fake_head # xs @ bs @ [Fake_tail])"
    using rep bs by (auto simp: fq_rep_def real_blocks_def)
  have l: "?l \<in> set (Fake_head # xs)" "?l \<notin> set (butlast (Fake_head # xs))" "?l \<notin> set bs" "?l \<noteq> Fake_tail"
    using d by (cases xs rule: rev_cases; auto)+
  have dl: "distinct (?l # bs)" using d l by simp
  define q1 where "q1 = snd (append_n_loop bs ?l q)"
  define q' where "q' = (set_prev Fake_tail (Some (last bs)) (set_next (last bs) (Some Fake_tail) q1))
     \<lparr>num_free_blocks := num_free_blocks q1 + int (length bs)\<rparr>"
  have lb: "last bs \<in> set bs" "hd bs \<in> set bs" using False by simp_all
  have ne: "?l \<noteq> last bs" "hd bs \<noteq> Fake_tail" "last bs \<noteq> Fake_tail" using lb l d by auto
  have old: "dll (heap q) (Fake_head # xs)"
    using rep dll_append [of "heap q" "Fake_head # xs" "[Fake_tail]"] by (simp add: fq_rep_def)
  have out: "a \<notin> set bs" "a \<noteq> last bs" "a \<noteq> Fake_tail" if "a \<in> set (Fake_head # xs)" for a
    using that d lb by auto
  have "dll (heap q') (Fake_head # xs)"
  proof (rule dll_cong [THEN iffD1, OF _ _ old])
    fix a assume a: "a \<in> set (butlast (Fake_head # xs))"
    then have "a \<notin> set (butlast (?l # bs))" using l(2) out(1) by (auto dest: in_set_butlastD split: if_splits)
    then show "next_free_block (heap q a) = next_free_block (heap q' a)"
      using out(2) [of a] in_set_butlastD [OF a] by (simp add: q'_def q1_def heap_simps append_n_loop_next)
  next
    fix a assume "a \<in> set (tl (Fake_head # xs))"
    then show "prev_free_block (heap q a) = prev_free_block (heap q' a)"
      using out [of a] by (simp add: q'_def q1_def heap_simps append_n_loop_prev)
  qed
  moreover have "dll (heap q1) (?l # bs)" unfolding q1_def by (rule append_n_loop_dll [OF dl])
  then have q1: "next_free_block (heap q1 ?l) = Some (hd bs)" "prev_free_block (heap q1 (hd bs)) = Some ?l"
      "dll (heap q1) bs"
    using False by (auto simp: dll_Cons)
  have "last bs \<notin> set (butlast bs)" using bs(1) by (cases bs rule: rev_cases) auto
  then have "dll (heap q') bs"
    by (intro dll_cong [THEN iffD1, OF _ _ q1(3)])
      (use d False in \<open>auto simp: q'_def heap_simps dest: in_set_butlastD list.set_sel(2) [OF False]\<close>)
  ultimately have "dll (heap q') ((Fake_head # xs) @ bs @ [Fake_tail])"
    unfolding dll_append using q1(1,2) False ne by (auto simp: q'_def heap_simps)
  moreover have "prev_free_block (heap q' c) = None \<and> next_free_block (heap q' c) = None"
    if c: "c \<notin> set (xs @ bs)" "c \<noteq> Fake_head" "c \<noteq> Fake_tail" for c
  proof -
    have "c \<noteq> ?l" "c \<noteq> last bs" using c l(1) lb(1) by auto
    moreover from this have "c \<notin> set (butlast (?l # bs))" using c(1) by (auto dest: in_set_butlastD)
    moreover have "prev_free_block (heap q c) = None \<and> next_free_block (heap q c) = None"
      using rep c by (simp add: fq_rep_def)
    ultimately show ?thesis
      using c by (simp add: q'_def q1_def heap_simps append_n_loop_next append_n_loop_prev)
  qed
  moreover have "next_free_block (heap q' Fake_tail) = None"
  proof -
    have "Fake_tail \<notin> set (butlast (?l # bs))" using l(4) d by (auto dest: in_set_butlastD)
    then show ?thesis
      using ne(3) rep by (simp add: q'_def q1_def heap_simps append_n_loop_next fq_rep_def)
  qed
  ultimately have "fq_rep q' (xs @ bs)"
    using rep bs by (auto simp: fq_rep_def real_blocks_def q'_def q1_def heap_simps)
  moreover have "append_n bs q = Inr q'" "fq_data q' = fq_data q"
    using False fq_rep_last [OF rep]
    by (simp_all add: append_n_def q'_def q1_def Let_def case_prod_beta heap_simps append_n_loop_last)
  ultimately show ?thesis by blast
qed

lemma fq_append_append_n:
  "prev_free_block (heap q Fake_tail) \<noteq> None \<Longrightarrow> fq_append b q = append_n [b] q"
  by (auto simp: fq_append_def append_n_def Let_def set_next_def set_prev_def fun_eq_iff)

lemma fq_append_snoc:
  assumes "fq_rep q xs" and "b \<notin> set xs" and "b \<noteq> Fake_head" "b \<noteq> Fake_tail"
  shows "\<exists>q'. fq_append b q = Inr q' \<and> fq_rep q' (xs @ [b]) \<and> fq_data q' = fq_data q"
  using append_n_append [OF assms(1), of "[b]"] assms fq_rep_last [OF assms(1)]
  by (simp add: fq_append_append_n real_blocks_def)

section \<open>Construction and listing\<close>

lemma dll_nth: "dll h l \<longleftrightarrow> (\<forall>i. Suc i < length l \<longrightarrow>
   next_free_block (h (l ! i)) = Some (l ! Suc i) \<and> prev_free_block (h (l ! Suc i)) = Some (l ! i))"
proof (induction h l rule: dll.induct)
  case (3 h a b r)
  have "(\<forall>i. Suc i < length (a # b # r) \<longrightarrow> P i) \<longleftrightarrow> P 0 \<and> (\<forall>i. Suc i < length (b # r) \<longrightarrow> P (Suc i))" for P
    by (metis Suc_less_eq length_Cons not0_implies_Suc zero_less_Suc)
  then show ?case using 3 by simp
qed auto

definition link_step :: "block_ref list \<Rightarrow> nat \<Rightarrow> 'a free_queue_scheme \<Rightarrow> 'a free_queue_scheme" where
  "link_step blocks i q =
     (let q = (if 0 < i then set_prev (blocks ! i) (Some (blocks ! (i - 1))) q else q)
      in if i + 1 < length blocks then set_next (blocks ! i) (Some (blocks ! (i + 1))) q else q)"

lemma link_step_links:
  "next_free_block (heap (link_step bs i q) a) =
     (if i + 1 < length bs \<and> a = bs ! i then Some (bs ! (i + 1)) else next_free_block (heap q a))"
  "prev_free_block (heap (link_step bs i q) a) =
     (if 0 < i \<and> a = bs ! i then Some (bs ! (i - 1)) else prev_free_block (heap q a))"
  "num_free_blocks (link_step bs i q) = num_free_blocks q"
  "fq_data (link_step bs i q) = fq_data q"
  by (auto simp: link_step_def Let_def heap_simps)

lemma link_fold_links:
  assumes "distinct bs" and "k \<le> length bs"
  shows "\<forall>i. i < k \<and> i + 1 < length bs \<longrightarrow>
       next_free_block (heap (fold (link_step bs) [0..<k] q) (bs ! i)) = Some (bs ! (i + 1))"
    and "\<forall>i. Suc i < k \<longrightarrow>
       prev_free_block (heap (fold (link_step bs) [0..<k] q) (bs ! Suc i)) = Some (bs ! i)"
    and "\<forall>a. a \<notin> set bs \<longrightarrow> heap (fold (link_step bs) [0..<k] q) a = heap q a"
    and "fq_data (fold (link_step bs) [0..<k] q) = fq_data q"
    and "num_free_blocks (fold (link_step bs) [0..<k] q) = num_free_blocks q"
  using assms(2)
proof (induction k)
  case (Suc k)
  { case 1
    show ?case using Suc 1 assms(1)
      by (auto simp: link_step_links less_Suc_eq nth_eq_iff_index_eq)
  next
    case 2
    show ?case using Suc 2 assms(1)
      by (auto simp: link_step_links less_Suc_eq nth_eq_iff_index_eq)
  next
    case 3
    then have k: "bs ! k \<in> set bs" by simp
    have "heap (link_step bs k q') a = heap q' a" if "a \<noteq> bs ! k" for q' :: "'a free_queue_scheme" and a
      using that by (simp add: link_step_def set_prev_def set_next_def Let_def)
    moreover have "a \<noteq> bs ! k" if "a \<notin> set bs" for a using k that by blast
    ultimately show ?case using Suc.IH(3) 3 by simp
  next
    case 4
    show ?case using Suc 4 by (simp add: link_step_links)
  next
    case 5
    show ?case using Suc 5 by (simp add: link_step_links)
  }
qed simp_all

lemma link_consecutive_fold: "link_consecutive bs q = fold (link_step bs) [0..<length bs] q"
  by (simp add: link_consecutive_def link_step_def [abs_def])

definition unlinked :: "'a free_queue_scheme \<Rightarrow> bool" where
  "unlinked q \<longleftrightarrow> (\<forall>i. prev_free_block (heap q (Blk i)) = None \<and> next_free_block (heap q (Blk i)) = None)"

lemma free_queue_init_rep:
  assumes "distinct bs" "real_blocks bs" "unlinked q"
  shows "fq_rep (free_queue_init bs q) bs"
proof -
  let ?n = "length bs"
  define q1 where "q1 = link_consecutive bs (q\<lparr>num_free_blocks := int ?n\<rparr>)"
  define q2 where "q2 = q1\<lparr>heap := (heap q1)(Fake_head := KVCacheBlock (-1), Fake_tail := KVCacheBlock (-1))\<rparr>"
  note L = link_fold_links [OF assms(1) order_refl, of "q\<lparr>num_free_blocks := int ?n\<rparr>",
      folded link_consecutive_fold, folded q1_def]
  have dll1: "dll (heap q1) bs" using L(1,2) by (auto simp: dll_nth)
  have eq: "heap q2 a = heap q1 a" if "a \<in> set bs" for a
    using that assms(2) by (auto simp: q2_def real_blocks_def)
  have dll2: "dll (heap q2) bs" using dll1 dll_same [of bs "heap q2" "heap q1"] eq by blast
  have out: "prev_free_block (heap q2 a) = None \<and> next_free_block (heap q2 a) = None" if "a \<notin> set bs" for a
    using that L(3) assms(3) by (cases a) (auto simp: q2_def unlinked_def KVCacheBlock_def)
  have num: "num_free_blocks q2 = int ?n" using L(5) by (simp add: q2_def)
  show ?thesis
  proof (cases "bs = []")
    case True
    have "free_queue_init bs q = set_prev Fake_tail (Some Fake_head) (set_next Fake_head (Some Fake_tail) q2)"
      using True by (simp add: free_queue_init_def q1_def q2_def Let_def)
    then show ?thesis using num out True by (simp add: fq_rep_def real_blocks_def heap_simps)
  next
    case False
    define q3 where "q3 = set_next (last bs) (Some Fake_tail) (set_prev Fake_tail (Some (last bs))
      (set_prev (hd bs) (Some Fake_head) (set_next Fake_head (Some (hd bs)) q2)))"
    have init: "free_queue_init bs q = q3"
      using False by (simp add: free_queue_init_def q3_def q1_def q2_def Let_def hd_conv_nth)
    have ends: "hd bs \<in> set bs" "last bs \<in> set bs" "hd bs \<notin> set (tl bs)" "last bs \<notin> set (butlast bs)"
      using False assms(1) by (auto, metis distinct.simps(2) list.collapse,
        metis append_butlast_last_id distinct_append not_distinct_conv_prefix)
    have fake: "Fake_head \<notin> set bs" "Fake_tail \<notin> set bs" using assms(2) by (auto simp: real_blocks_def)
    have "dll (heap q3) bs"
    proof (rule dll_cong [THEN iffD1, OF _ _ dll2])
      fix a assume "a \<in> set (butlast bs)"
      then show "next_free_block (heap q2 a) = next_free_block (heap q3 a)"
        using ends fake by (auto simp: q3_def heap_simps dest: in_set_butlastD)
    next
      fix a assume "a \<in> set (tl bs)"
      then show "prev_free_block (heap q2 a) = prev_free_block (heap q3 a)"
        using ends fake False by (auto simp: q3_def heap_simps dest: list.set_sel(2))
    qed
    then have "dll (heap q3) ([Fake_head] @ bs @ [Fake_tail])"
      unfolding dll_append using False ends(1,2) fake
      by (cases "hd bs = Fake_tail"; cases "last bs = Fake_head") (auto simp: q3_def heap_simps)
    then show ?thesis
      using assms(1,2) num out ends fake by (auto simp: init fq_rep_def q3_def heap_simps)
  qed
qed

lemma all_free_loop_dll:
  assumes "dll h (xs @ [e])" and "next_free_block (h e) = None"
  shows "all_free_loop h (hd (xs @ [e])) ret = Some (ret @ xs)"
  using assms
proof (induction xs arbitrary: ret)
  case Nil
  then show ?case by (simp add: all_free_loop.simps)
next
  case (Cons x xs)
  then show ?case by (subst all_free_loop.simps) (simp add: dll_Cons)
qed

lemma get_all_free_blocks_rep: "fq_rep q xs \<Longrightarrow> get_all_free_blocks q = Some (Inr xs)"
  using all_free_loop_dll [of "heap q" xs Fake_tail "[]"] fq_rep_first [of q xs]
  by (simp add: get_all_free_blocks_def fq_rep_def dll_Cons)

section \<open>The interface the block pool relies on\<close>

text \<open>
  A free list is a sequence of blocks in eviction order. The operations move blocks in
  and out of it and keep everything else of the state (\<open>data\<close>); the laws are total: on a
  represented queue they say that the operation succeeds, and the error it raises
  otherwise.
\<close>

locale free_list =
  fixes pop :: "'q \<Rightarrow> ('b \<times> 'q) result"
    and pop_n :: "int \<Rightarrow> 'q \<Rightarrow> ('b list \<times> 'q) result"
    and remove :: "'b \<Rightarrow> 'q \<Rightarrow> 'q result"
    and app :: "'b \<Rightarrow> 'q \<Rightarrow> 'q result"
    and app_n :: "'b list \<Rightarrow> 'q \<Rightarrow> 'q result"
    and ok :: "'b \<Rightarrow> bool"
    and rep :: "'q \<Rightarrow> 'b list \<Rightarrow> bool"
    and data :: "'q \<Rightarrow> 'd"
  assumes rep_distinct: "rep q xs \<Longrightarrow> distinct xs"
    and rep_unique: "rep q xs \<Longrightarrow> rep q ys \<Longrightarrow> xs = ys"
    and pop_empty: "rep q [] \<Longrightarrow> pop q = Inl ValueError"
    and pop_first: "rep q (x # xs) \<Longrightarrow> \<exists>q'. pop q = Inr (x, q') \<and> rep q' xs \<and> data q' = data q"
    and pop_n_first: "rep q xs \<Longrightarrow> 0 \<le> n \<Longrightarrow> n \<le> int (length xs) \<Longrightarrow>
      \<exists>q'. pop_n n q = Inr (take (nat n) xs, q') \<and> rep q' (drop (nat n) xs) \<and> data q' = data q"
    and pop_n_short: "rep q xs \<Longrightarrow> int (length xs) < n \<Longrightarrow> pop_n n q = Inl AssertionError"
    and remove_member: "rep q xs \<Longrightarrow> x \<in> set xs \<Longrightarrow>
      \<exists>q'. remove x q = Inr q' \<and> rep q' (remove1 x xs) \<and> data q' = data q"
    and remove_other: "rep q xs \<Longrightarrow> ok x \<Longrightarrow> x \<notin> set xs \<Longrightarrow> remove x q = Inl RuntimeError"
    and app_last: "rep q xs \<Longrightarrow> ok x \<Longrightarrow> x \<notin> set xs \<Longrightarrow>
      \<exists>q'. app x q = Inr q' \<and> rep q' (xs @ [x]) \<and> data q' = data q"
    and app_n_last: "rep q xs \<Longrightarrow> distinct bs \<Longrightarrow> list_all ok bs \<Longrightarrow> set bs \<inter> set xs = {} \<Longrightarrow>
      \<exists>q'. app_n bs q = Inr q' \<and> rep q' (xs @ bs) \<and> data q' = data q"
begin

text \<open>Facts every client has: popping one by one, and removal of a group of blocks.\<close>

lemma pop_n_Suc:
  assumes "rep q (x # xs)" and "n \<le> length xs"
  shows "\<exists>q1 q2 q3. pop q = Inr (x, q1) \<and> pop_n (int n) q1 = Inr (take n xs, q2)
     \<and> pop_n (1 + int n) q = Inr (x # take n xs, q3)
     \<and> rep q2 (drop n xs) \<and> rep q3 (drop n xs) \<and> data q2 = data q3"
proof -
  from pop_first [OF assms(1)] obtain q1 where q1: "pop q = Inr (x, q1)" "rep q1 xs" "data q1 = data q" by blast
  from pop_n_first [OF q1(2), of "int n"] assms(2)
  obtain q2 where q2: "pop_n (int n) q1 = Inr (take n xs, q2)" "rep q2 (drop n xs)" "data q2 = data q1" by auto
  have "nat (1 + int n) = Suc n" by simp
  then obtain q3 where "pop_n (1 + int n) q = Inr (x # take n xs, q3)" "rep q3 (drop n xs)" "data q3 = data q"
    using pop_n_first [OF assms(1), of "1 + int n"] assms(2) by auto
  then show ?thesis using q1 q2 by simp
qed

lemma remove_all_members:
  assumes "rep q xs" and "distinct bs" and "set bs \<subseteq> set xs"
  shows "\<exists>q'. rfold remove bs q = Inr q' \<and> rep q' (filter (\<lambda>x. x \<notin> set bs) xs) \<and> data q' = data q"
  using assms
proof (induction bs arbitrary: q xs)
  case (Cons b bs)
  then obtain q1 where q1: "remove b q = Inr q1" "rep q1 (remove1 b xs)" "data q1 = data q"
    using remove_member [of q xs b] by auto
  have "remove1 b xs = filter (\<lambda>x. x \<noteq> b) xs"
    using rep_distinct [OF Cons.prems(1)] by (simp add: distinct_remove1_removeAll removeAll_filter_not_eq eq_commute)
  with Cons.IH [OF q1(2)] Cons.prems q1 show ?case by (auto simp: conj_commute)
qed simp

lemma recycle_order:
  assumes "rep q xs" and "distinct bs" "list_all ok bs" "set bs \<inter> set xs = {}"
    and "int (length xs) + int (length bs) = n"
  obtains q1 q2 where "app_n bs q = Inr q1" "pop_n n q1 = Inr (xs @ bs, q2)" "rep q2 []"
proof -
  from app_n_last [OF assms(1-4)] obtain q1 where q1: "app_n bs q = Inr q1" "rep q1 (xs @ bs)" by blast
  moreover have "nat n = length (xs @ bs)" "0 \<le> n" "n \<le> int (length (xs @ bs))" using assms(5) by auto
  ultimately show ?thesis using pop_n_first [OF q1(2), of n] that by auto
qed

end

definition real_block :: "block_ref \<Rightarrow> bool" where
  "real_block b \<longleftrightarrow> b \<noteq> Fake_head \<and> b \<noteq> Fake_tail"

lemma real_blocks_list_all: "real_blocks bs \<longleftrightarrow> list_all real_block bs"
  by (auto simp: real_blocks_def real_block_def list_all_iff)

lemma fq_rep_unique: "fq_rep q xs \<Longrightarrow> fq_rep q ys \<Longrightarrow> xs = ys"
  using get_all_free_blocks_rep [of q xs] get_all_free_blocks_rep [of q ys] by simp

lemma popleft_n_short: "fq_rep q xs \<Longrightarrow> int (length xs) < n \<Longrightarrow> popleft_n n q = Inl AssertionError"
  by (auto simp: popleft_n_def fq_rep_def)

interpretation fq: free_list popleft popleft_n fq_remove fq_append append_n real_block fq_rep fq_data
proof
qed (auto simp: fq_repD fq_rep_unique popleft_empty popleft_Cons popleft_n_take popleft_n_short
    fq_remove_remove1 fq_remove_absent fq_append_snoc append_n_append real_blocks_list_all real_block_def)

section \<open>Sequences of queue operations\<close>

text \<open>
  The specification of the queue is a list. \<open>fq_call\<close> enumerates the calls of the class,
  \<open>fq_exec\<close> runs the linked implementation and \<open>list_exec\<close> the specification;
  \<open>fq_call_ok\<close> is the usage rule of the class: only real blocks that are not in the queue
  are appended, and \<^verbatim>\<open>popleft_n\<close> gets a count that is not negative.
\<close>

datatype fq_call =
    Popleft
  | Popleft_n int
  | Remove block_ref
  | Append block_ref
  | Append_n "block_ref list"

fun fq_exec :: "fq_call \<Rightarrow> 'a free_queue_scheme \<Rightarrow> (block_ref list \<times> 'a free_queue_scheme) result" where
  "fq_exec Popleft q = rbind (popleft q) (\<lambda>(b, q). Inr ([b], q))"
| "fq_exec (Popleft_n n) q = popleft_n n q"
| "fq_exec (Remove b) q = rbind (fq_remove b q) (\<lambda>q. Inr ([], q))"
| "fq_exec (Append b) q = rbind (fq_append b q) (\<lambda>q. Inr ([], q))"
| "fq_exec (Append_n bs) q = rbind (append_n bs q) (\<lambda>q. Inr ([], q))"

fun list_exec :: "fq_call \<Rightarrow> block_ref list \<Rightarrow> (block_ref list \<times> block_ref list) result" where
  "list_exec Popleft xs = (case xs of [] \<Rightarrow> Inl ValueError | x # ys \<Rightarrow> Inr ([x], ys))"
| "list_exec (Popleft_n n) xs =
     (if int (length xs) < n then Inl AssertionError else Inr (take (nat n) xs, drop (nat n) xs))"
| "list_exec (Remove b) xs = (if b \<in> set xs then Inr ([], remove1 b xs) else Inl RuntimeError)"
| "list_exec (Append b) xs = Inr ([], xs @ [b])"
| "list_exec (Append_n bs) xs = Inr ([], xs @ bs)"

fun fq_call_ok :: "fq_call \<Rightarrow> block_ref list \<Rightarrow> bool" where
  "fq_call_ok Popleft xs = True"
| "fq_call_ok (Popleft_n n) xs = (0 \<le> n)"
| "fq_call_ok (Remove b) xs = real_block b"
| "fq_call_ok (Append b) xs = (real_block b \<and> b \<notin> set xs)"
| "fq_call_ok (Append_n bs) xs = (list_all real_block bs \<and> distinct bs \<and> set bs \<inter> set xs = {})"

fun fq_run :: "fq_call list \<Rightarrow> 'a free_queue_scheme \<Rightarrow> (block_ref list list \<times> 'a free_queue_scheme) result" where
  "fq_run [] q = Inr ([], q)"
| "fq_run (c # cs) q = rbind (fq_exec c q) (\<lambda>(r, q). rbind (fq_run cs q) (\<lambda>(rs, q). Inr (r # rs, q)))"

fun list_run :: "fq_call list \<Rightarrow> block_ref list \<Rightarrow> (block_ref list list \<times> block_ref list) result" where
  "list_run [] xs = Inr ([], xs)"
| "list_run (c # cs) xs = rbind (list_exec c xs) (\<lambda>(r, xs). rbind (list_run cs xs) (\<lambda>(rs, xs). Inr (r # rs, xs)))"

fun calls_ok :: "fq_call list \<Rightarrow> block_ref list \<Rightarrow> bool" where
  "calls_ok [] xs = True"
| "calls_ok (c # cs) xs = (fq_call_ok c xs \<and>
     (case list_exec c xs of Inl e \<Rightarrow> True | Inr (r, xs') \<Rightarrow> calls_ok cs xs'))"

text \<open>The simulation relation on results: same error, or same output and related states.\<close>

fun sim :: "('q \<Rightarrow> 's \<Rightarrow> bool) \<Rightarrow> ('r \<times> 'q) result \<Rightarrow> ('r \<times> 's) result \<Rightarrow> bool" where
  "sim R (Inr (r, q)) (Inr (r', s)) = (r = r' \<and> R q s)"
| "sim R (Inl e) (Inl e') = (e = e')"
| "sim R _ _ = False"

lemma fq_exec_sim: "fq_rep q xs \<Longrightarrow> fq_call_ok c xs \<Longrightarrow> sim fq_rep (fq_exec c q) (list_exec c xs)"
proof (cases c)
  case Popleft
  assume "fq_rep q xs"
  then show ?thesis using Popleft fq.pop_empty fq.pop_first [of q] by (cases xs) fastforce+
next
  case (Popleft_n n)
  assume "fq_rep q xs" "fq_call_ok c xs"
  then show ?thesis using Popleft_n fq.pop_n_short [of q xs n] fq.pop_n_first [of q xs n] by fastforce
next
  case (Remove b)
  assume "fq_rep q xs" "fq_call_ok c xs"
  then show ?thesis using Remove fq.remove_member [of q xs b] fq.remove_other [of q xs b] by fastforce
next
  case (Append b)
  assume "fq_rep q xs" "fq_call_ok c xs"
  then show ?thesis using Append fq.app_last [of q xs b] by fastforce
next
  case (Append_n bs)
  assume "fq_rep q xs" "fq_call_ok c xs"
  then show ?thesis using Append_n fq.app_n_last [of q xs bs] by fastforce
qed

lemma sim_rbind:
  assumes "sim R m m'" and "\<And>r q s. R q s \<Longrightarrow> m = Inr (r, q) \<Longrightarrow> m' = Inr (r, s) \<Longrightarrow> sim S (f (r, q)) (f' (r, s))"
  shows "sim S (rbind m f) (rbind m' f')"
  using assms by (cases "(R, m, m')" rule: sim.cases) auto

lemma fq_run_sim:
  fixes q :: "'a free_queue_scheme"
  shows "fq_rep q xs \<Longrightarrow> calls_ok cs xs \<Longrightarrow> sim fq_rep (fq_run cs q) (list_run cs xs)"
proof (induction cs arbitrary: q xs)
  case (Cons c cs)
  have "sim fq_rep (rbind (fq_run cs q1) (\<lambda>(rs, q). Inr (r # rs, q)))
      (rbind (list_run cs ys) (\<lambda>(rs, xs). Inr (r # rs, xs)))"
    if "fq_rep q1 ys" "list_exec c xs = Inr (r, ys)"
    for r ys and q1 :: "'a free_queue_scheme"
    using Cons.IH [OF that(1)] Cons.prems(2) that by (auto intro: sim_rbind)
  moreover have "sim fq_rep (fq_exec c q) (list_exec c xs)"
    using Cons.prems by (simp add: fq_exec_sim)
  ultimately show ?case
    unfolding fq_run.simps list_run.simps by (auto intro: sim_rbind [where R = fq_rep])
qed simp

text \<open>
  C1. Started on freshly created blocks, the linked free queue is a first-in first-out
  list of distinct blocks with removal from the middle: every sequence of calls that
  obeys the usage rule returns what the list specification returns, call by call, with
  the same exceptions (\<^verbatim>\<open>ValueError\<close> on an empty \<^verbatim>\<open>popleft\<close>,
  \<^verbatim>\<open>AssertionError\<close> when too few blocks are free, \<^verbatim>\<open>RuntimeError\<close> when a
  block that is not free is removed), and leaves a queue that represents the list.
\<close>

theorem free_queue_simulation:
  assumes "distinct blocks" and "real_blocks blocks" and "unlinked q" and "calls_ok calls blocks"
  shows "sim fq_rep (fq_run calls (free_queue_init blocks q)) (list_run calls blocks)"
  using fq_run_sim [OF free_queue_init_rep [OF assms(1-3)] assms(4)] .

definition fresh_store :: free_queue where
  "fresh_store = \<lparr>heap = (\<lambda>r. KVCacheBlock (case r of Blk i \<Rightarrow> int i | _ \<Rightarrow> -1)), num_free_blocks = 0\<rparr>"

theorem free_queue_simulation_witness:
  "let calls = [Remove (Blk 1), Append (Blk 7), Popleft_n 2, Append_n [Blk 2, Blk 0], Popleft]
   in sim fq_rep (fq_run calls (free_queue_init [Blk 0, Blk 1, Blk 2] fresh_store))
        (Inr ([[], [], [Blk 0, Blk 2], [], [Blk 7]], [Blk 2, Blk 0]))"
  using free_queue_simulation [of "[Blk 0, Blk 1, Blk 2]" fresh_store
      "[Remove (Blk 1), Append (Blk 7), Popleft_n 2, Append_n [Blk 2, Blk 0], Popleft]"]
  by (simp add: real_blocks_def real_block_def unlinked_def fresh_store_def KVCacheBlock_def)

text \<open>
  The eviction order the pool works with: \<^verbatim>\<open>get_all_free_blocks\<close> terminates and
  lists the free blocks from the head, \<^verbatim>\<open>popleft_n(n)\<close> hands out exactly the first
  \<open>n\<close> of them, and the blocks that were given back with \<^verbatim>\<open>append_n\<close> come out after
  every block that was free before, in the order they were given back.
\<close>

theorem free_queue_eviction_order:
  assumes "fq_rep q xs" and "distinct bs" "real_blocks bs" "set bs \<inter> set xs = {}"
    and "n \<le> length xs + length bs"
  shows "\<exists>q1 q2. append_n bs q = Inr q1 \<and> get_all_free_blocks q1 = Some (Inr (xs @ bs)) \<and>
     popleft_n (int n) q1 = Inr (take n (xs @ bs), q2) \<and>
     get_all_free_blocks q2 = Some (Inr (drop n (xs @ bs))) \<and>
     num_free_blocks q2 = int (length xs + length bs - n)"
proof -
  obtain q1 where q1: "append_n bs q = Inr q1" "fq_rep q1 (xs @ bs)"
    using fq.app_n_last [OF assms(1,2)] assms(3,4) by (auto simp: real_blocks_list_all)
  obtain q2 where "popleft_n (int n) q1 = Inr (take n (xs @ bs), q2)" "fq_rep q2 (drop n (xs @ bs))"
    using fq.pop_n_first [OF q1(2), of "int n"] assms(5) by auto
  with q1 show ?thesis
    using get_all_free_blocks_rep fq_repD(3) by (metis length_append length_drop)
qed

theorem free_queue_eviction_order_witness:
  "\<exists>q1 q2. append_n [Blk 3, Blk 1] (free_queue_init [Blk 0, Blk 2] fresh_store) = Inr q1 \<and>
     popleft_n 3 q1 = Inr ([Blk 0, Blk 2, Blk 3], q2) \<and> get_all_free_blocks q2 = Some (Inr [Blk 1])"
proof -
  have "fq_rep (free_queue_init [Blk 0, Blk 2] fresh_store) [Blk 0, Blk 2]"
    by (rule free_queue_init_rep)
      (simp_all add: real_blocks_def unlinked_def fresh_store_def KVCacheBlock_def)
  from free_queue_eviction_order [OF this, of "[Blk 3, Blk 1]" 3]
  show ?thesis by (auto simp: real_blocks_def numeral_3_eq_3)
qed

end
