(* ===== verification/Block_Hash.thy ===== *)
theory Block_Hash
  imports Request_Model
begin

text \<open>
  Prefix-cache block hashing of \<^verbatim>\<open>src/vllm/v1/core/kv_cache_utils.py\<close>: the packed
  cache key, the extra keys of a block, the incremental block hasher, the view of a hash
  list at a coarser block size, and the request operations of
  \<^verbatim>\<open>src/vllm/v1/request.py\<close> and \<^verbatim>\<open>src/vllm/v1/core/sched/scheduler.py\<close> that
  extend the hash list of a request.

  The hash functions (\<^verbatim>\<open>caching_hash_fn\<close>, a library digest over the pickled or
  CBOR-encoded tuple, and \<^verbatim>\<open>hashlib.sha256\<close>) and the module global
  \<^verbatim>\<open>NONE_HASH\<close> are parameters, held in the record \<open>hash_env\<close>.
\<close>

section \<open>Cache keys\<close>

text \<open>\<^verbatim>\<open>int.to_bytes(4, "big", signed=False)\<close> and \<^verbatim>\<open>int.from_bytes(_, "big")\<close>.\<close>

definition to_bytes4 :: "int \<Rightarrow> bytes result" where
  "to_bytes4 n =
     (if 0 \<le> n \<and> n < 2 ^ 32
      then Inr [word_of_int (n div 2 ^ 24), word_of_int (n div 2 ^ 16), word_of_int (n div 2 ^ 8), word_of_int n]
      else Inl OverflowError)"

definition from_bytes :: "bytes \<Rightarrow> int" where
  "from_bytes bs = fold (\<lambda>b acc. acc * 256 + uint b) bs 0"

definition make_block_hash_with_group_id :: "bytes \<Rightarrow> int \<Rightarrow> bytes result" where
  "make_block_hash_with_group_id h group_id = rbind (to_bytes4 group_id) (\<lambda>g. Inr (h @ g))"

definition get_block_hash :: "bytes \<Rightarrow> bytes" where
  "get_block_hash key = take (length key - 4) key"

definition get_group_id :: "bytes \<Rightarrow> int" where
  "get_group_id key = from_bytes (drop (length key - 4) key)"

datatype external_block_hash = Ext_bytes bytes | Ext_int int

unbundle bit_operations_syntax

definition maybe_convert_block_hash :: "bool \<Rightarrow> bytes \<Rightarrow> external_block_hash" where
  "maybe_convert_block_hash use_int_block_hashes h =
     (if \<not> use_int_block_hashes then Ext_bytes h
      else Ext_int (from_bytes h AND ((2 ^ 64) - 1)))"

section \<open>Extra keys\<close>

datatype extra_key = Key_str string | Key_bytes bytes

type_synonym hash_input = "bytes \<times> int list \<times> extra_key list option"

record hash_env =
  caching_hash_fn :: "hash_input \<Rightarrow> bytes"
  sha256_digest :: "bytes \<Rightarrow> bytes"
  none_hash :: bytes

definition need_extra_keys :: "request \<Rightarrow> bool" where
  "need_extra_keys r \<longleftrightarrow> mm_features r \<noteq> [] \<or> lora_request_of r \<noteq> None \<or> cache_salt r \<noteq> None"

text \<open>The \<^verbatim>\<open>while\<close> loop of \<^verbatim>\<open>_gen_mm_extra_hash_keys\<close>, from an index that is in range.\<close>

function gen_mm_loop :: "mm_feature list \<Rightarrow> nat \<Rightarrow> nat \<Rightarrow> nat \<Rightarrow> extra_key list \<Rightarrow> extra_key list \<times> nat" where
  "gen_mm_loop feats start_token_idx end_token_idx curr_mm_idx extra_keys =
     (if curr_mm_idx < length feats then
        let f = feats ! curr_mm_idx;
            off = offset (mm_position f);
            len = plen (mm_position f)
        in if off < end_token_idx then
             if off + len < start_token_idx then
               gen_mm_loop feats start_token_idx end_token_idx (curr_mm_idx + 1) extra_keys
             else
               let extra_keys = extra_keys @ [Key_str (mm_identifier f)]
               in if off + len \<le> end_token_idx then
                    gen_mm_loop feats start_token_idx end_token_idx (curr_mm_idx + 1) extra_keys
                  else (extra_keys, curr_mm_idx)
           else (extra_keys, curr_mm_idx)
      else (extra_keys, curr_mm_idx))"
  by pat_completeness auto
termination
  by (relation "measure (\<lambda>(feats, _, _, i, _). length feats - i)") auto

declare gen_mm_loop.simps [simp del]

definition gen_mm_extra_hash_keys ::
  "request \<Rightarrow> nat \<Rightarrow> nat \<Rightarrow> int \<Rightarrow> (extra_key list \<times> int) result" where
  "gen_mm_extra_hash_keys r start_token_idx end_token_idx start_mm_idx =
     (let feats = mm_features r
      in if feats = [] then Inr ([], start_mm_idx)
         else if feature_end (last feats) < start_token_idx then Inr ([], start_mm_idx)
         else
           rbind (if start_mm_idx < 0
                  then rbind (ensure (- start_mm_idx \<le> int (length feats)) AssertionError)
                         (\<lambda>_. Inr (int (length feats) + start_mm_idx))
                  else Inr start_mm_idx)
             (\<lambda>i. let (keys, j) = gen_mm_loop feats start_token_idx end_token_idx (nat i) []
                   in Inr (keys, int j)))"

definition gen_lora_extra_hash_keys :: "request \<Rightarrow> extra_key list" where
  "gen_lora_extra_hash_keys r = (case lora_request_of r of None \<Rightarrow> [] | Some l \<Rightarrow> [Key_str (lora_name l)])"

text \<open>The digest of the embedding rows of a block is memoised in the request.\<close>

definition gen_prompt_embeds_extra_hash_keys ::
  "hash_env \<Rightarrow> request \<Rightarrow> nat \<Rightarrow> nat \<Rightarrow> extra_key list \<times> request" where
  "gen_prompt_embeds_extra_hash_keys env r start_token_idx end_token_idx =
     (case prompt_embeds r of
        None \<Rightarrow> ([], r)
      | Some rows \<Rightarrow>
          (case prompt_embeds_per_block_hashes r (start_token_idx, end_token_idx) of
             Some h \<Rightarrow> ([Key_bytes h], r)
           | None \<Rightarrow>
               let h = sha256_digest env (concat (pyslice rows start_token_idx end_token_idx))
               in ([Key_bytes h],
                   r\<lparr>prompt_embeds_per_block_hashes :=
                      (prompt_embeds_per_block_hashes r)((start_token_idx, end_token_idx) \<mapsto> h)\<rparr>)))"

definition generate_block_hash_extra_keys ::
  "hash_env \<Rightarrow> request \<Rightarrow> nat \<Rightarrow> nat \<Rightarrow> int \<Rightarrow> (extra_key list option \<times> int \<times> request) result" where
  "generate_block_hash_extra_keys env r start_token_idx end_token_idx start_mm_idx =
     rbind (gen_mm_extra_hash_keys r start_token_idx end_token_idx start_mm_idx)
       (\<lambda>(mm_extra_keys, new_start_mm_idx).
          let lora_extra_keys = gen_lora_extra_hash_keys r;
              cache_salt_keys =
                (case cache_salt r of
                   Some s \<Rightarrow> if start_token_idx = 0 \<and> s \<noteq> [] then [Key_str s] else []
                 | None \<Rightarrow> []);
              (prompt_embeds_keys, r) = gen_prompt_embeds_extra_hash_keys env r start_token_idx end_token_idx;
              extra_keys = lora_extra_keys @ mm_extra_keys @ cache_salt_keys @ prompt_embeds_keys
          in Inr (if extra_keys = [] then None else Some extra_keys, new_start_mm_idx, r))"

section \<open>The block hasher\<close>

definition hash_block_tokens :: "hash_env \<Rightarrow> bytes option \<Rightarrow> int list \<Rightarrow> extra_key list option \<Rightarrow> bytes" where
  "hash_block_tokens env parent_block_hash curr_block_token_ids extra_keys =
     (let parent = (case parent_block_hash of
                      None \<Rightarrow> none_hash env
                    | Some h \<Rightarrow> if h = [] then none_hash env else h)
      in caching_hash_fn env (parent, curr_block_token_ids, extra_keys))"

text \<open>Generating the extra keys changes nothing of the request but the memo.\<close>

definition memo_ext :: "request \<Rightarrow> request \<Rightarrow> bool" where
  "memo_ext r r' \<longleftrightarrow> (\<exists>memo. r' = r\<lparr>prompt_embeds_per_block_hashes := memo\<rparr>)"

lemma memo_ext_refl [simp]: "memo_ext r r"
  unfolding memo_ext_def by (rule exI [of _ "prompt_embeds_per_block_hashes r"]) simp

lemma memo_ext_update [simp]: "memo_ext r (r\<lparr>prompt_embeds_per_block_hashes := m\<rparr>)"
  by (auto simp: memo_ext_def)

lemma memo_ext_trans: "memo_ext a b \<Longrightarrow> memo_ext b c \<Longrightarrow> memo_ext a c"
  by (auto simp: memo_ext_def)

lemma generate_keys_request:
  assumes "generate_block_hash_extra_keys env r s e i = Inr (k, j, r')"
  shows "memo_ext r r'"
proof -
  have "memo_ext r (snd (gen_prompt_embeds_extra_hash_keys env r s e))"
    by (simp add: gen_prompt_embeds_extra_hash_keys_def Let_def split: option.split)
  with assms show ?thesis
    by (auto simp: generate_block_hash_extra_keys_def rbind_eq_Inr Let_def case_prod_beta)
qed

text \<open>
  The \<^verbatim>\<open>while True\<close> loop of \<^verbatim>\<open>request_block_hasher\<close>. With a block size of zero the
  loop makes no progress and never ends.
\<close>

function hasher_loop ::
  "hash_env \<Rightarrow> nat \<Rightarrow> request \<Rightarrow> nat \<Rightarrow> int \<Rightarrow> bytes option \<Rightarrow> bytes list \<Rightarrow> (bytes list \<times> request) result" where
  "hasher_loop env block_size r start_token_idx curr_mm_idx prev_block_hash_value new_block_hashes =
     (if num_tokens r < start_token_idx + block_size then Inr (new_block_hashes, r)
      else if block_size = 0 then Inl Diverges
      else
        rbind (generate_block_hash_extra_keys env r start_token_idx (start_token_idx + block_size) curr_mm_idx)
          (\<lambda>(extra_keys, curr_mm_idx', r').
             let block_tokens = pyslice (all_token_ids r) start_token_idx (start_token_idx + block_size);
                 h = hash_block_tokens env prev_block_hash_value block_tokens extra_keys
             in hasher_loop env block_size r' (start_token_idx + block_size) curr_mm_idx' (Some h)
                  (new_block_hashes @ [h])))"
  by pat_completeness auto
termination
  by (relation "measure (\<lambda>(_, _, r, s, _). num_tokens r - s)")
    (auto simp: num_tokens_def memo_ext_def dest!: generate_keys_request)

declare hasher_loop.simps [simp del]

definition request_block_hasher :: "hash_env \<Rightarrow> nat \<Rightarrow> request \<Rightarrow> (bytes list \<times> request) result" where
  "request_block_hasher env block_size r =
     (let start_token_idx = length (block_hashes r) * block_size
      in if num_tokens r < start_token_idx + block_size then Inr ([], r)
         else
           let curr_mm_idx = (if 0 < start_token_idx then -1 else 0);
               prev = (if block_hashes r = [] then None else Some (last (block_hashes r)))
           in hasher_loop env block_size r start_token_idx curr_mm_idx prev [])"

definition update_block_hashes :: "hash_env \<Rightarrow> request \<Rightarrow> request result" where
  "update_block_hashes env r =
     (case block_hasher r of
        None \<Rightarrow> Inr r
      | Some block_size \<Rightarrow>
          rbind (request_block_hasher env block_size r)
            (\<lambda>(hs, r). Inr (r\<lparr>block_hashes := block_hashes r @ hs\<rparr>)))"

definition append_output_token_ids :: "hash_env \<Rightarrow> int list \<Rightarrow> request \<Rightarrow> request result" where
  "append_output_token_ids env token_ids r =
     update_block_hashes env
       (r\<lparr>output_token_ids := output_token_ids r @ token_ids,
          all_token_ids := all_token_ids r @ token_ids\<rparr>)"

section \<open>Construction of a request\<close>

definition length_from_prompt_token_ids_or_embeds :: "int list option \<Rightarrow> bytes list option \<Rightarrow> nat result" where
  "length_from_prompt_token_ids_or_embeds toks embeds =
     (case toks of
        None \<Rightarrow> (case embeds of None \<Rightarrow> Inl ValueError | Some e \<Rightarrow> Inr (length e))
      | Some t \<Rightarrow>
          (case embeds of
             None \<Rightarrow> Inr (length t)
           | Some e \<Rightarrow> if length e \<noteq> length t then Inl ValueError else Inr (length t)))"

text \<open>
  \<^verbatim>\<open>Request.__init__\<close>. The record \<open>init_args\<close> holds its arguments; an
  \<^verbatim>\<open>arrival_time\<close> of \<^verbatim>\<open>None\<close> is replaced by the clock, which is an argument here.
\<close>

record init_args =
  ia_request_id :: string
  ia_object_id :: int
  ia_prompt_token_ids :: "int list option"
  ia_sampling_params :: "sampling_params option"
  ia_pooling_params :: "pooling_params option"
  ia_client_index :: int
  ia_arrival_time :: "rat option"
  ia_prompt_embeds :: "bytes list option"
  ia_mm_features :: "mm_feature list option"
  ia_lora_request :: "lora_request option"
  ia_cache_salt :: "string option"
  ia_priority :: int
  ia_block_hasher :: "nat option"
  ia_resumable :: bool

definition init_status_tokens :: "sampling_params option \<Rightarrow> pooling_params option \<Rightarrow> (request_status \<times> int) result" where
  "init_status_tokens sp pp =
     (case pp of
        Some _ \<Rightarrow> Inr (WAITING, 1)
      | None \<Rightarrow>
          (case sp of
             None \<Rightarrow> Inl ValueError
           | Some s \<Rightarrow>
               (case sp_max_tokens s of
                  None \<Rightarrow> Inl AssertionError
                | Some m \<Rightarrow> Inr (if structured_outputs s then WAITING_FOR_FSM else WAITING, m))))"

definition Request :: "hash_env \<Rightarrow> rat \<Rightarrow> init_args \<Rightarrow> request result" where
  "Request env now a =
     rbind (init_status_tokens (ia_sampling_params a) (ia_pooling_params a)) (\<lambda>(st, mt).
     rbind (length_from_prompt_token_ids_or_embeds (ia_prompt_token_ids a) (ia_prompt_embeds a)) (\<lambda>n.
     update_block_hashes env
       \<lparr>request_id = ia_request_id a, object_id = ia_object_id a, client_index = ia_client_index a,
        priority = ia_priority a,
        arrival_time = (case ia_arrival_time a of Some t \<Rightarrow> t | None \<Rightarrow> now),
        sampling_params_of = ia_sampling_params a, pooling_params_of = ia_pooling_params a,
        lora_request_of = ia_lora_request a,
        structured_output_request =
          (case ia_sampling_params a of None \<Rightarrow> False | Some s \<Rightarrow> structured_outputs s),
        status = st, stop_reason_of = None, max_tokens = mt,
        prompt_token_ids = ia_prompt_token_ids a, prompt_embeds = ia_prompt_embeds a,
        prompt_embeds_per_block_hashes = Map.empty, num_prompt_tokens = n, output_token_ids = [],
        all_token_ids = (case ia_prompt_token_ids a of Some t \<Rightarrow> t | None \<Rightarrow> replicate n 0),
        num_output_placeholders = 0, discard_latest_async_tokens = False, spec_token_ids = [],
        num_computed_tokens = 0, cache_salt = ia_cache_salt a,
        mm_features = (case ia_mm_features a of Some f \<Rightarrow> f | None \<Rightarrow> []),
        num_cached_tokens = -1, is_prefill_chunk = False, num_nans_in_logits = 0, num_preemptions = 0,
        num_external_computed_tokens = 0, block_hashes = [], block_hasher = ia_block_hasher a,
        skip_reading_prefix_cache = get_skip_reading_prefix_cache (ia_sampling_params a) (ia_pooling_params a),
        resumable = ia_resumable a, streaming_queue = None\<rparr>))"

section \<open>Streaming sessions\<close>

text \<open>
  \<^verbatim>\<open>Scheduler._update_request_as_session\<close>, on the session: the sampled token that was not
  computed is dropped, the computed output tokens become part of the prompt, and the new
  prompt and multi-modal inputs are appended. (The counter of waiting sessions is part of
  the scheduler.)
\<close>

definition shift_feature :: "nat \<Rightarrow> mm_feature \<Rightarrow> mm_feature" where
  "shift_feature base f =
     f\<lparr>mm_position := (mm_position f)\<lparr>offset := offset (mm_position f) + base\<rparr>\<rparr>"

definition update_request_as_session :: "hash_env \<Rightarrow> request \<Rightarrow> streaming_update \<Rightarrow> request result" where
  "update_request_as_session env session u =
     (let n = pybound (all_token_ids session) (num_computed_tokens session);
          kept_output_tokens = pyslice (all_token_ids session) (num_prompt_tokens session) n;
          session = session\<lparr>all_token_ids := take n (all_token_ids session), output_token_ids := []\<rparr>
      in case prompt_token_ids session of
           None \<Rightarrow> Inl AssertionError
         | Some prompt \<Rightarrow>
             let prompt = prompt @ kept_output_tokens;
                 feats = (case su_mm_features u of None \<Rightarrow> [] | Some fs \<Rightarrow> fs);
                 new_ids = (case su_prompt_token_ids u of None \<Rightarrow> [] | Some ids \<Rightarrow> ids);
                 session = session\<lparr>mm_features :=
                   mm_features session @ map (shift_feature (num_tokens session)) feats\<rparr>;
                 session = session\<lparr>all_token_ids := all_token_ids session @ new_ids,
                   prompt_token_ids := Some (prompt @ new_ids)\<rparr>
             in rbind (update_block_hashes env session) (\<lambda>session.
                Inr (session\<lparr>num_prompt_tokens := length (prompt @ new_ids),
                  arrival_time := su_arrival_time u, sampling_params_of := su_sampling_params u,
                  status := WAITING\<rparr>)))"

section \<open>Hash lists at a coarser block size\<close>

record block_hash_list =
  bhl_block_hashes :: "bytes list"
  scale_factor :: nat

definition BlockHashListWithBlockSize :: "bytes list \<Rightarrow> nat \<Rightarrow> nat \<Rightarrow> block_hash_list result" where
  "BlockHashListWithBlockSize hs hash_block_size target_block_size =
     (if hash_block_size = 0 then Inl ZeroDivisionError
      else rbind (ensure (target_block_size mod hash_block_size = 0) AssertionError)
        (\<lambda>_. Inr \<lparr>bhl_block_hashes = hs, scale_factor = target_block_size div hash_block_size\<rparr>))"

definition bhl_len :: "block_hash_list \<Rightarrow> nat result" where
  "bhl_len l = (if scale_factor l = 0 then Inl ZeroDivisionError
     else Inr (length (bhl_block_hashes l) div scale_factor l))"

definition bhl_get_value_at :: "block_hash_list \<Rightarrow> nat \<Rightarrow> bytes result" where
  "bhl_get_value_at l idx =
     (let base = idx * scale_factor l;
          e = base + scale_factor l
      in rbind (py_index (bhl_block_hashes l) (int base))
           (rfold (\<lambda>i merged. rbind (py_index (bhl_block_hashes l) (int i)) (\<lambda>h. Inr (merged @ h)))
              [base + 1..<e]))"

fun bhl_values :: "block_hash_list \<Rightarrow> nat list \<Rightarrow> bytes list result" where
  "bhl_values l [] = Inr []"
| "bhl_values l (i # is) = rbind (bhl_get_value_at l i) (\<lambda>h. rbind (bhl_values l is) (\<lambda>hs. Inr (h # hs)))"

definition bhl_iter :: "block_hash_list \<Rightarrow> bytes list result" where
  "bhl_iter l = rbind (bhl_len l) (\<lambda>n. bhl_values l [0..<n])"

definition bhl_slice :: "block_hash_list \<Rightarrow> nat \<Rightarrow> nat option \<Rightarrow> bytes list result" where
  "bhl_slice l start stop = rbind (bhl_len l) (\<lambda>n.
     bhl_values l [min start n..<(case stop of None \<Rightarrow> n | Some k \<Rightarrow> min k n)])"

section \<open>The packed key\<close>

lemma from_bytes_4:
  "from_bytes [a, b, c, d] = ((uint a * 256 + uint b) * 256 + uint c) * 256 + uint d"
  by (simp add: from_bytes_def)

lemma to_bytes4_ok: "0 \<le> n \<Longrightarrow> n < 2 ^ 32 \<Longrightarrow> \<exists>g. to_bytes4 n = Inr g \<and> length g = 4 \<and> from_bytes g = n"
proof -
  assume n: "0 \<le> n" "n < 2 ^ 32"
  have u: "uint (word_of_int k :: 8 word) = k mod 256" for k
    by (simp add: uint_word_of_int)
  define a b c where "a = n div 2 ^ 24" and "b = n div 2 ^ 16" and "c = n div 2 ^ 8"
  have am: "a mod 256 = a" using n unfolding a_def by (intro mod_pos_pos_trivial) auto
  have "b div 256 = a" "c div 256 = b" "n div 256 = c"
    by (simp_all add: a_def b_def c_def zdiv_zmult2_eq [symmetric])
  then have d: "b = 256 * a + b mod 256" "c = 256 * b + c mod 256" "n = 256 * c + n mod 256"
    using mult_div_mod_eq [of 256 b] mult_div_mod_eq [of 256 c] mult_div_mod_eq [of 256 n] by simp_all
  have sum: "((a * 256 + x) * 256 + y) * 256 + z = n"
    if "b = 256 * a + x" "c = 256 * b + y" "n = 256 * c + z" for x y z
    using that by simp
  have "from_bytes [word_of_int a, word_of_int b, word_of_int c, word_of_int n] = n"
    unfolding from_bytes_4 u am by (rule sum [OF d])
  then show ?thesis using n by (simp add: to_bytes4_def a_def b_def c_def)
qed

text \<open>
  Packing is a round trip: for every hash and every group id that fits in four bytes
  the key unpacks to both components; any other group id raises \<^verbatim>\<open>OverflowError\<close>. Two
  keys are equal only if both the hash and the group are.
\<close>

theorem block_hash_key_round_trip:
  "(0 \<le> g \<and> g < 2 ^ 32 \<longrightarrow> (\<exists>key. make_block_hash_with_group_id h g = Inr key
      \<and> get_block_hash key = h \<and> get_group_id key = g \<and> length key = length h + 4))
   \<and> (\<not> (0 \<le> g \<and> g < 2 ^ 32) \<longrightarrow> make_block_hash_with_group_id h g = Inl OverflowError)
   \<and> (\<forall>key h' g'. make_block_hash_with_group_id h g = Inr key \<and> make_block_hash_with_group_id h' g' = Inr key
        \<longrightarrow> h = h' \<and> g = g')"
proof -
  have round: "\<exists>key. make_block_hash_with_group_id h g = Inr key
      \<and> get_block_hash key = h \<and> get_group_id key = g \<and> length key = length h + 4"
    if "0 \<le> g" "g < 2 ^ 32" for h g
    using to_bytes4_ok [OF that]
    by (auto simp: make_block_hash_with_group_id_def get_block_hash_def get_group_id_def)
  have err: "make_block_hash_with_group_id h g = Inl OverflowError" if "\<not> (0 \<le> g \<and> g < 2 ^ 32)" for h g
    using that by (auto simp: make_block_hash_with_group_id_def to_bytes4_def)
  have unpack: "get_block_hash key = h \<and> get_group_id key = g" if "make_block_hash_with_group_id h g = Inr key" for h g key
    using round [of g h] err [of g h] that by (cases "0 \<le> g \<and> g < 2 ^ 32") auto
  show ?thesis using round err unpack by blast
qed

theorem block_hash_key_round_trip_witness:
  "\<exists>key. make_block_hash_with_group_id [1, 2] 258 = Inr key \<and> get_block_hash key = [1, 2] \<and> get_group_id key = 258"
  using block_hash_key_round_trip [of 258 "[1, 2]"] by auto

section \<open>What the hasher computes\<close>

text \<open>
  A specification of the hasher without its memo and its loop: the extra keys of a block,
  the list of block contents, and the chain of hashes over them.
\<close>

definition embeds_keys :: "hash_env \<Rightarrow> request \<Rightarrow> nat \<Rightarrow> nat \<Rightarrow> extra_key list" where
  "embeds_keys env r s e =
     (case prompt_embeds r of
        None \<Rightarrow> []
      | Some rows \<Rightarrow> [Key_bytes (sha256_digest env (concat (pyslice rows s e)))])"

definition salt_keys :: "request \<Rightarrow> nat \<Rightarrow> extra_key list" where
  "salt_keys r s = (case cache_salt r of
     Some x \<Rightarrow> if s = 0 \<and> x \<noteq> [] then [Key_str x] else [] | None \<Rightarrow> [])"

definition pack_keys :: "extra_key list \<Rightarrow> extra_key list option" where
  "pack_keys ks = (if ks = [] then None else Some ks)"

definition block_keys :: "hash_env \<Rightarrow> request \<Rightarrow> nat \<Rightarrow> nat \<Rightarrow> int \<Rightarrow> (extra_key list option \<times> int) result" where
  "block_keys env r s e i = rbind (gen_mm_extra_hash_keys r s e i)
     (\<lambda>(mm, j). Inr (pack_keys (gen_lora_extra_hash_keys r @ mm @ salt_keys r s @ embeds_keys env r s e), j))"

fun block_inputs :: "hash_env \<Rightarrow> nat \<Rightarrow> request \<Rightarrow> nat \<Rightarrow> int \<Rightarrow> nat \<Rightarrow> (int list \<times> extra_key list option) list" where
  "block_inputs env bs r s i 0 = []"
| "block_inputs env bs r s i (Suc n) =
     (case block_keys env r s (s + bs) i of
        Inl e \<Rightarrow> []
      | Inr (k, j) \<Rightarrow> (pyslice (all_token_ids r) s (s + bs), k) # block_inputs env bs r (s + bs) j n)"

definition parent_of :: "hash_env \<Rightarrow> bytes option \<Rightarrow> bytes" where
  "parent_of env p = (case p of None \<Rightarrow> none_hash env | Some h \<Rightarrow> if h = [] then none_hash env else h)"

fun hashed_inputs :: "hash_env \<Rightarrow> bytes option \<Rightarrow> (int list \<times> extra_key list option) list \<Rightarrow> hash_input list" where
  "hashed_inputs env p [] = []"
| "hashed_inputs env p ((toks, ks) # bs) =
     (parent_of env p, toks, ks) # hashed_inputs env (Some (caching_hash_fn env (parent_of env p, toks, ks))) bs"

definition hash_chain :: "hash_env \<Rightarrow> bytes option \<Rightarrow> (int list \<times> extra_key list option) list \<Rightarrow> bytes list" where
  "hash_chain env p bs = map (caching_hash_fn env) (hashed_inputs env p bs)"

text \<open>Memo entries are the digests they stand for.\<close>

definition memo_ok :: "hash_env \<Rightarrow> request \<Rightarrow> bool" where
  "memo_ok env r \<longleftrightarrow> (\<forall>s e h. prompt_embeds_per_block_hashes r (s, e) = Some h \<longrightarrow>
     (\<exists>rows. prompt_embeds r = Some rows \<and> h = sha256_digest env (concat (pyslice rows s e))))"

definition mm_idx_ok :: "request \<Rightarrow> int \<Rightarrow> bool" where
  "mm_idx_ok r i \<longleftrightarrow> mm_features r = [] \<or> - i \<le> int (length (mm_features r))"

lemma gen_mm_total:
  assumes "mm_idx_ok r i"
  shows "\<exists>mm j. gen_mm_extra_hash_keys r s e i = Inr (mm, j) \<and> mm_idx_ok r j"
  using assms
  by (cases "gen_mm_loop (mm_features r) s e (nat (if i < 0 then int (length (mm_features r)) + i else i)) []")
    (auto simp: gen_mm_extra_hash_keys_def mm_idx_ok_def Let_def split: if_splits)

lemma generate_keys_spec:
  assumes "memo_ok env r" and "block_keys env r s e i = Inr (k, j)"
  shows "\<exists>r'. generate_block_hash_extra_keys env r s e i = Inr (k, j, r') \<and> memo_ext r r' \<and> memo_ok env r'"
proof -
  obtain mm where mm: "gen_mm_extra_hash_keys r s e i = Inr (mm, j)"
    and k: "k = pack_keys (gen_lora_extra_hash_keys r @ mm @ salt_keys r s @ embeds_keys env r s e)"
    using assms(2) by (auto simp: block_keys_def rbind_eq_Inr)
  define r' where "r' = snd (gen_prompt_embeds_extra_hash_keys env r s e)"
  have "fst (gen_prompt_embeds_extra_hash_keys env r s e) = embeds_keys env r s e \<and> memo_ok env r'"
    using assms(1)
    by (auto simp: gen_prompt_embeds_extra_hash_keys_def embeds_keys_def memo_ok_def Let_def r'_def
        split: option.splits if_splits)
  then have r': "gen_prompt_embeds_extra_hash_keys env r s e = (embeds_keys env r s e, r')" "memo_ok env r'"
    by (simp_all add: r'_def prod_eq_iff)
  have "generate_block_hash_extra_keys env r s e i = Inr (k, j, r')"
    by (simp add: generate_block_hash_extra_keys_def mm k r'(1) pack_keys_def salt_keys_def Let_def)
  with generate_keys_request [OF this] r'(2) show ?thesis by blast
qed

lemma block_inputs_memo [simp]:
  "block_inputs env bs (r\<lparr>prompt_embeds_per_block_hashes := m\<rparr>) s i n = block_inputs env bs r s i n"
  by (induction n arbitrary: s i)
    (simp_all add: block_keys_def gen_mm_extra_hash_keys_def gen_lora_extra_hash_keys_def salt_keys_def embeds_keys_def
      split: sum.splits)

lemma memo_ext_same:
  assumes "memo_ext r r'"
  shows "num_tokens r' = num_tokens r" "mm_idx_ok r' i = mm_idx_ok r i"
    "block_inputs env bs r' s i n = block_inputs env bs r s i n"
    "all_token_ids r' = all_token_ids r" "block_hashes r' = block_hashes r"
    "block_hasher r' = block_hasher r" "mm_features r' = mm_features r"
  using assms by (auto simp: memo_ext_def num_tokens_def mm_idx_ok_def)

lemma hash_chain_simps [simp]:
  "hash_chain env p [] = []"
  "hash_chain env p ((toks, ks) # bs) =
     hash_block_tokens env p toks ks # hash_chain env (Some (hash_block_tokens env p toks ks)) bs"
  by (simp_all add: hash_chain_def hash_block_tokens_def parent_of_def Let_def)

lemma length_hash_chain [simp]: "length (hash_chain env p bs) = length bs"
  by (induction bs arbitrary: p) auto

lemma block_keys_total: "mm_idx_ok r i \<Longrightarrow> \<exists>k j. block_keys env r s e i = Inr (k, j) \<and> mm_idx_ok r j"
  using gen_mm_total [of r i s e] by (auto simp: block_keys_def)

lemma length_block_inputs: "mm_idx_ok r i \<Longrightarrow> length (block_inputs env bs r s i n) = n"
proof (induction n arbitrary: s i)
  case (Suc n)
  then show ?case using block_keys_total [of r i env s "s + bs"] by auto
qed simp

lemma hasher_loop_spec:
  assumes "0 < bs" and "memo_ok env r" and "mm_idx_ok r i"
    and "n = (num_tokens r - s) div bs" and "s \<le> num_tokens r"
  shows "\<exists>r'. hasher_loop env bs r s i p acc = Inr (acc @ hash_chain env p (block_inputs env bs r s i n), r')
     \<and> memo_ext r r' \<and> memo_ok env r'"
  using assms(2-)
proof (induction n arbitrary: r s i p acc)
  case 0
  then have "num_tokens r < s + bs" using assms(1) by (simp add: div_eq_0_iff)
  then show ?case using 0 by (subst hasher_loop.simps) auto
next
  case (Suc n)
  then have ge: "s + bs \<le> num_tokens r"
    by (metis Suc_neq_Zero add.commute assms(1) div_eq_0_iff le_diff_conv2 not_le)
  obtain k j where kj: "block_keys env r s (s + bs) i = Inr (k, j)" "mm_idx_ok r j"
    using block_keys_total [OF Suc.prems(2)] by blast
  obtain r1 where g: "generate_block_hash_extra_keys env r s (s + bs) i = Inr (k, j, r1)"
    and r1: "memo_ext r r1" "memo_ok env r1"
    using generate_keys_spec [OF Suc.prems(1) kj(1)] by blast
  let ?h = "hash_block_tokens env p (pyslice (all_token_ids r) s (s + bs)) k"
  have "n = (num_tokens r1 - (s + bs)) div bs"
  proof -
    have "Suc n = (num_tokens r - (s + bs) + bs) div bs" using Suc.prems(3) ge by simp
    then show ?thesis using assms(1) by (simp add: memo_ext_same [OF r1(1)])
  qed
  then obtain r' where "hasher_loop env bs r1 (s + bs) j (Some ?h) (acc @ [?h])
      = Inr ((acc @ [?h]) @ hash_chain env (Some ?h) (block_inputs env bs r1 (s + bs) j n), r')"
    and "memo_ext r1 r'" "memo_ok env r'"
    using Suc.IH [of r1 j "s + bs" "Some ?h" "acc @ [?h]"] r1(2) kj(2) ge
    by (auto simp: memo_ext_same [OF r1(1)])
  then show ?case
    using ge assms(1) memo_ext_trans [OF r1(1)]
    by (subst hasher_loop.simps) (simp add: g kj(1) Let_def memo_ext_same [OF r1(1)])
qed

text \<open>The hashes of all full blocks, computed from the beginning of the request.\<close>

definition scratch_inputs :: "hash_env \<Rightarrow> nat \<Rightarrow> request \<Rightarrow> (int list \<times> extra_key list option) list" where
  "scratch_inputs env bs r = block_inputs env bs r 0 0 (num_tokens r div bs)"

definition scratch_hashes :: "hash_env \<Rightarrow> nat \<Rightarrow> request \<Rightarrow> bytes list" where
  "scratch_hashes env bs r = hash_chain env None (scratch_inputs env bs r)"

lemma mm_idx_ok_0 [simp]: "mm_idx_ok r 0" "mm_idx_ok r (- 1)"
  by (auto simp: mm_idx_ok_def Suc_le_eq)

lemma length_scratch_hashes [simp]: "length (scratch_hashes env bs r) = num_tokens r div bs"
  by (simp add: scratch_hashes_def scratch_inputs_def length_block_inputs)

lemma request_block_hasher_scratch:
  assumes "0 < bs" and "memo_ok env r" and "block_hashes r = []"
  shows "\<exists>r'. request_block_hasher env bs r = Inr (scratch_hashes env bs r, r')
     \<and> memo_ext r r' \<and> memo_ok env r'"
proof (cases "num_tokens r < bs")
  case True
  then show ?thesis using assms
    by (auto simp: request_block_hasher_def scratch_hashes_def scratch_inputs_def Let_def)
next
  case False
  then show ?thesis
    using assms hasher_loop_spec [of bs env r 0 "num_tokens r div bs" 0 None "[]"]
    by (simp add: request_block_hasher_def scratch_hashes_def scratch_inputs_def Let_def)
qed

lemma request_block_hasher_runs:
  assumes "0 < bs" and "memo_ok env r"
  shows "\<exists>hs r'. request_block_hasher env bs r = Inr (hs, r') \<and> memo_ext r r' \<and> memo_ok env r'"
proof (cases "num_tokens r < length (block_hashes r) * bs + bs")
  case True
  then show ?thesis using assms(2) by (simp add: request_block_hasher_def Let_def)
next
  case False
  let ?s = "length (block_hashes r) * bs" and ?p = "if block_hashes r = [] then None else Some (last (block_hashes r))"
  let ?i = "if 0 < ?s then - 1 else 0 :: int"
  have i: "mm_idx_ok r ?i" by simp
  have "request_block_hasher env bs r = hasher_loop env bs r ?s ?i ?p []" using False by (simp only: request_block_hasher_def Let_def if_False)
  then show ?thesis using hasher_loop_spec [OF assms i refl, of ?s ?p "[]"] False by fastforce
qed

section \<open>Equal hashes mean equal prefixes\<close>

lemma length_hashed_inputs [simp]: "length (hashed_inputs env p bs) = length bs"
  by (induction bs arbitrary: p) auto

lemma hashed_inputs_nth:
  "k < length bs \<Longrightarrow> hashed_inputs env p bs ! k =
     (parent_of env (if k = 0 then p else Some (hash_chain env p bs ! (k - 1))), bs ! k)"
proof (induction bs arbitrary: p k)
  case (Cons b bs)
  obtain toks ks where b: "b = (toks, ks)" by (cases b)
  show ?case
  proof (cases k)
    case (Suc j)
    have "hash_chain env p (b # bs) ! j = (if j = 0 then hash_block_tokens env p toks ks
        else hash_chain env (Some (hash_block_tokens env p toks ks)) bs ! (j - 1))"
      by (cases j) (simp_all add: b)
    moreover have "hash_block_tokens env p toks ks = caching_hash_fn env (parent_of env p, toks, ks)"
      by (simp add: hash_block_tokens_def parent_of_def)
    ultimately show ?thesis using Cons.IH [of j] Cons.prems Suc by (simp add: b)
  qed (simp add: b)
qed simp

text \<open>
  What is asked of the hash function, on the inputs that occur: no collision, and a hash
  that is neither empty nor the seed.
\<close>

definition collision_free :: "hash_env \<Rightarrow> hash_input set \<Rightarrow> bool" where
  "collision_free env X \<longleftrightarrow> inj_on (caching_hash_fn env) X \<and>
     none_hash env \<notin> caching_hash_fn env ` X \<and> [] \<notin> caching_hash_fn env ` X"

lemma hash_chain_mem: "k < length bs \<Longrightarrow> hash_chain env p bs ! k \<in> caching_hash_fn env ` set (hashed_inputs env p bs)"
  by (simp add: hash_chain_def)

lemma collision_free_inj: "collision_free env X \<Longrightarrow> inj_on (caching_hash_fn env) X"
  by (simp add: collision_free_def)

lemma hash_chain_fresh:
  assumes "collision_free env X" and "set (hashed_inputs env p bs) \<subseteq> X" and "k < length bs"
  shows "hash_chain env p bs ! k \<noteq> []" "hash_chain env p bs ! k \<noteq> none_hash env"
  using assms(1) subsetD [OF image_mono [OF assms(2)] hash_chain_mem [OF assms(3), of env p]]
  by (auto simp: collision_free_def simp del: image_eqI)

lemma hash_chain_inj:
  assumes cf: "collision_free env (set (hashed_inputs env None xs) \<union> set (hashed_inputs env None ys))"
    and "k < length xs" and "l < length ys" and "hash_chain env None xs ! k = hash_chain env None ys ! l"
  shows "k = l \<and> take (Suc k) xs = take (Suc k) ys"
  using assms(2-)
proof (induction k arbitrary: l)
  case (0 l)
  have eq: "hashed_inputs env None xs ! 0 = hashed_inputs env None ys ! l"
    by (rule inj_onD [OF collision_free_inj [OF cf]]) (use cf 0 in \<open>auto simp: collision_free_def hash_chain_def\<close>)
  have "l = 0"
  proof (rule ccontr)
    assume "l \<noteq> 0"
    then have "parent_of env (Some (hash_chain env None ys ! (l - 1))) = none_hash env"
      using eq 0 by (simp add: hashed_inputs_nth parent_of_def)
    then show False using hash_chain_fresh [OF cf, of None ys "l - 1"] 0 by (auto simp: parent_of_def)
  qed
  then show ?case using eq 0 by (simp add: hashed_inputs_nth take_Suc_conv_app_nth)
next
  case (Suc k l)
  have eq: "hashed_inputs env None xs ! Suc k = hashed_inputs env None ys ! l"
    by (rule inj_onD [OF collision_free_inj [OF cf]]) (use cf Suc.prems in \<open>auto simp: collision_free_def hash_chain_def\<close>)
  have ne: "hash_chain env None xs ! k \<noteq> []" "hash_chain env None xs ! k \<noteq> none_hash env"
    using hash_chain_fresh [OF cf, of None xs k] Suc.prems by simp_all
  obtain m where m: "l = Suc m"
    using eq ne Suc.prems by (cases l) (auto simp: hashed_inputs_nth parent_of_def)
  have "hash_chain env None ys ! m \<noteq> []"
    using hash_chain_fresh [OF cf, of None ys m] Suc.prems m by simp
  then have "hash_chain env None xs ! k = hash_chain env None ys ! m"
    using eq ne Suc.prems m by (simp add: hashed_inputs_nth parent_of_def)
  then have "k = m \<and> take (Suc k) xs = take (Suc k) ys"
    using Suc.prems m by (intro Suc.IH) simp_all
  then have "k = m" "take (Suc k) xs = take (Suc k) ys" by blast+
  moreover have "xs ! Suc k = ys ! l" using eq Suc.prems by (simp add: hashed_inputs_nth)
  ultimately show ?case using m Suc.prems by (simp add: take_Suc_conv_app_nth [of "Suc m"])
qed

lemma block_inputs_tokens:
  "mm_idx_ok r i \<Longrightarrow> s + n * bs \<le> num_tokens r \<Longrightarrow>
     concat (map fst (block_inputs env bs r s i n)) = pyslice (all_token_ids r) s (s + n * bs)"
proof (induction n arbitrary: s i)
  case (Suc n)
  obtain k j where "block_keys env r s (s + bs) i = Inr (k, j)" "mm_idx_ok r j"
    using block_keys_total [OF Suc.prems(1)] by blast
  moreover have "pyslice (all_token_ids r) s (s + bs) @ pyslice (all_token_ids r) (s + bs) (s + bs + n * bs)
     = pyslice (all_token_ids r) s (s + Suc n * bs)"
    by (simp add: pyslice_def take_add add.commute)
  ultimately show ?case using Suc.IH [of j "s + bs"] Suc.prems(2) by (simp add: add.assoc)
qed (simp add: pyslice_def)

lemma block_inputs_take:
  "mm_idx_ok r i \<Longrightarrow> take m (block_inputs env bs r s i n) = block_inputs env bs r s i (min m n)"
proof (induction n arbitrary: s i m)
  case (Suc n)
  then show ?case using block_keys_total [of r i env s "s + bs"] by (cases m) auto
qed simp

lemma scratch_inputs_tokens:
  assumes "Suc k \<le> num_tokens r div bs"
  shows "concat (map fst (take (Suc k) (scratch_inputs env bs r))) = take (Suc k * bs) (all_token_ids r)"
proof -
  have le: "Suc k * bs \<le> num_tokens r"
    using assms by (metis div_times_less_eq_dividend le_trans mult_le_mono1)
  have "take (Suc k) (scratch_inputs env bs r) = block_inputs env bs r 0 0 (Suc k)"
    using assms by (simp add: scratch_inputs_def block_inputs_take min_def)
  then show ?thesis using le block_inputs_tokens [of r 0 0 "Suc k" bs env]
    by (simp add: pyslice_def)
qed

text \<open>
  C15. Soundness of prefix caching by hash. Let two requests be hashed from scratch with
  the same block size by a function that does not collide on the inputs that occur. If the
  \<open>k\<close>-th hash of one equals the \<open>l\<close>-th hash of the other, then \<open>k = l\<close>, the two requests
  agree on all tokens of the first \<open>k + 1\<close> blocks, on the extra keys (LoRA name, multi-modal
  identifiers, cache salt, embedding digests) of each of these blocks, and on the hashes of
  the earlier blocks.
\<close>

theorem equal_block_hash_equal_prefix:
  assumes "0 < bs" and "block_hashes r1 = []" "block_hashes r2 = []" and "memo_ok env r1" "memo_ok env r2"
    and "request_block_hasher env bs r1 = Inr (h1, r1')" and "request_block_hasher env bs r2 = Inr (h2, r2')"
    and "collision_free env (set (hashed_inputs env None (scratch_inputs env bs r1))
           \<union> set (hashed_inputs env None (scratch_inputs env bs r2)))"
    and "k < length h1" and "l < length h2" and "h1 ! k = h2 ! l"
  shows "k = l \<and> take (Suc k * bs) (all_token_ids r1) = take (Suc k * bs) (all_token_ids r2)
     \<and> map snd (take (Suc k) (scratch_inputs env bs r1)) = map snd (take (Suc k) (scratch_inputs env bs r2))
     \<and> take (Suc k) h1 = take (Suc k) h2"
proof -
  have h: "h1 = scratch_hashes env bs r1" "h2 = scratch_hashes env bs r2"
    using request_block_hasher_scratch [OF assms(1,4,2)] request_block_hasher_scratch [OF assms(1,5,3)] assms(6,7)
    by auto
  have len: "k < num_tokens r1 div bs" "l < num_tokens r2 div bs" using assms(9,10) h by simp_all
  have *: "k = l \<and> take (Suc k) (scratch_inputs env bs r1) = take (Suc k) (scratch_inputs env bs r2)"
    by (rule hash_chain_inj [OF assms(8)]) (use assms(9-) h in \<open>simp_all add: scratch_hashes_def\<close>)
  moreover have "take n (hash_chain env p xs) = hash_chain env p (take n xs)" for n p and xs
  proof (induction xs arbitrary: n p)
    case (Cons x xs)
    then show ?case by (cases x; cases n) auto
  qed simp
  ultimately have "take (Suc k) h1 = take (Suc k) h2" unfolding h scratch_hashes_def by metis
  with * scratch_inputs_tokens [of k r1 bs env] scratch_inputs_tokens [of k r2 bs env] len
  show ?thesis by auto
qed

text \<open>Constructor arguments of a text-only request and a toy hash function, for concrete instances.\<close>

definition sample_args :: "int list \<Rightarrow> nat \<Rightarrow> init_args" where
  "sample_args toks bs = \<lparr>ia_request_id = ''r'', ia_object_id = 0, ia_prompt_token_ids = Some toks,
     ia_sampling_params = None, ia_pooling_params = Some \<lparr>pp_skip_reading_prefix_cache = None\<rparr>,
     ia_client_index = 0, ia_arrival_time = Some 0, ia_prompt_embeds = None, ia_mm_features = None,
     ia_lora_request = None, ia_cache_salt = None, ia_priority = 0, ia_block_hasher = Some bs, ia_resumable = False\<rparr>"

definition toy_env :: hash_env where
  "toy_env = \<lparr>caching_hash_fn = (\<lambda>(p, toks, ks). p @ map word_of_int toks), sha256_digest = id, none_hash = [0]\<rparr>"

lemmas hasher_eval = request_block_hasher_def hasher_loop.simps generate_block_hash_extra_keys_def
  gen_mm_extra_hash_keys_def gen_lora_extra_hash_keys_def gen_prompt_embeds_extra_hash_keys_def
  hash_block_tokens_def num_tokens_def pyslice_def

theorem equal_block_hash_equal_prefix_witness:
  "\<exists>h1 h2 r1 r2. request_block_hasher toy_env 1 (sample_request [1, 2, 3] 1) = Inr (h1, r1)
     \<and> request_block_hasher toy_env 1 (sample_request [1, 2, 4] 1) = Inr (h2, r2) \<and> h1 ! 1 = h2 ! 1
     \<and> take 2 (all_token_ids (sample_request [1, 2, 3] 1)) = take 2 (all_token_ids (sample_request [1, 2, 4] 1))
     \<and> map snd (take 2 (scratch_inputs toy_env 1 (sample_request [1, 2, 3] 1))) = map snd (take 2 (scratch_inputs toy_env 1 (sample_request [1, 2, 4] 1)))
     \<and> take 2 h1 = take 2 h2"
proof -
  have mo: "memo_ok toy_env (sample_request t 1)" for t by (simp add: memo_ok_def sample_request_def)
  have h: "request_block_hasher toy_env 1 (sample_request [1, 2, c] 1) =
       Inr ([[0, 1], [0, 1, 2], [0, 1, 2, word_of_int c]], sample_request [1, 2, c] 1)" for c
    by (simp add: hasher_eval toy_env_def sample_request_def numeral_eq_Suc)
  have ins: "hashed_inputs toy_env None (scratch_inputs toy_env 1 (sample_request [1, 2, c] 1)) =
      [([0], [1], None), ([0, 1], [2], None), ([0, 1, 2], [c], None)]" for c
    by (simp add: scratch_inputs_def numeral_eq_Suc block_keys_def gen_mm_extra_hash_keys_def
        gen_lora_extra_hash_keys_def salt_keys_def embeds_keys_def pack_keys_def sample_request_def
        num_tokens_def pyslice_def toy_env_def parent_of_def)
  have cf: "collision_free toy_env (set (hashed_inputs toy_env None (scratch_inputs toy_env 1 (sample_request [1, 2, 3] 1)))
      \<union> set (hashed_inputs toy_env None (scratch_inputs toy_env 1 (sample_request [1, 2, 4] 1))))"
    unfolding ins by (auto simp: collision_free_def toy_env_def inj_on_def)
  have fresh: "block_hashes (sample_request t 1) = []" for t by (simp add: sample_request_def)
  have "take (Suc 1 * 1) (all_token_ids (sample_request [1, 2, 3] 1)) = take (Suc 1 * 1) (all_token_ids (sample_request [1, 2, 4] 1))
     \<and> map snd (take (Suc 1) (scratch_inputs toy_env 1 (sample_request [1, 2, 3] 1))) = map snd (take (Suc 1) (scratch_inputs toy_env 1 (sample_request [1, 2, 4] 1)))
     \<and> take (Suc 1) [[0, 1], [0, 1, 2], [0, 1, 2, word_of_int 3]] = take (Suc 1) [[0, 1], [0, 1, 2], [0, 1, 2, word_of_int 4 :: 8 word]]"
    using equal_block_hash_equal_prefix [OF _ fresh fresh mo mo h h cf, of 1 1] by simp
  then show ?thesis using h [of 3] h [of 4] by (simp add: numeral_2_eq_2)
qed

section \<open>Incremental hashing\<close>

text \<open>
  The hasher is called again whenever tokens are appended, and continues from the hashes it
  has. It then looks at the last multi-modal input only. When no multi-modal input reaches
  past the blocks hashed so far, this gives what hashing from scratch would give.
\<close>

definition mm_done :: "request \<Rightarrow> nat \<Rightarrow> bool" where
  "mm_done r s \<longleftrightarrow> mm_features r = [] \<or> feature_end (last (mm_features r)) < s"

lemma gen_mm_done: "mm_done r s \<Longrightarrow> gen_mm_extra_hash_keys r s e i = Inr ([], i)"
  by (auto simp: mm_done_def gen_mm_extra_hash_keys_def Let_def)

lemma block_inputs_done: "mm_done r s \<Longrightarrow> block_inputs env bs r s i n = block_inputs env bs r s j n"
proof (induction n arbitrary: s)
  case (Suc n)
  moreover have "mm_done r (s + bs)" using Suc.prems by (auto simp: mm_done_def)
  ultimately show ?case by (simp add: block_keys_def gen_mm_done)
qed simp

fun mm_idx_after :: "nat \<Rightarrow> request \<Rightarrow> nat \<Rightarrow> int \<Rightarrow> nat \<Rightarrow> int" where
  "mm_idx_after bs r s i 0 = i"
| "mm_idx_after bs r s i (Suc n) =
     (case gen_mm_extra_hash_keys r s (s + bs) i of Inl _ \<Rightarrow> i | Inr (_, j) \<Rightarrow> mm_idx_after bs r (s + bs) j n)"

lemma block_inputs_add:
  "mm_idx_ok r i \<Longrightarrow> block_inputs env bs r s i (n + m) =
     block_inputs env bs r s i n @ block_inputs env bs r (s + n * bs) (mm_idx_after bs r s i n) m"
proof (induction n arbitrary: s i)
  case (Suc n)
  obtain mm j where "gen_mm_extra_hash_keys r s (s + bs) i = Inr (mm, j)" "mm_idx_ok r j"
    using gen_mm_total [OF Suc.prems, of s "s + bs"] by blast
  then show ?case using Suc.IH [of j "s + bs"] by (simp add: block_keys_def add.assoc)
qed simp

lemma hash_chain_append:
  "hash_chain env p (xs @ ys) = hash_chain env p xs @
     hash_chain env (if xs = [] then p else Some (last (hash_chain env p xs))) ys"
proof (induction xs arbitrary: p)
  case (Cons x xs)
  obtain toks ks where x: "x = (toks, ks)" by (cases x)
  show ?case
  proof (cases "xs = []")
    case False
    then have "hash_chain env q xs \<noteq> []" for q by (metis length_0_conv length_hash_chain)
    then show ?thesis using Cons.IH [of "Some (hash_block_tokens env p toks ks)"] False by (simp add: x)
  qed (simp add: x)
qed simp

lemma block_inputs_tokens_cong:
  assumes "\<And>e. e \<le> s + n * bs \<Longrightarrow> take e (all_token_ids r) = take e (all_token_ids r')"
    and "mm_features r = mm_features r'" "lora_request_of r = lora_request_of r'" "cache_salt r = cache_salt r'"
      "prompt_embeds r = prompt_embeds r'"
  shows "block_inputs env bs r s i n = block_inputs env bs r' s i n"
  using assms(1)
proof (induction n arbitrary: s i)
  case (Suc n)
  have keys: "block_keys env r s e i = block_keys env r' s e i" for e
    using assms(2-) by (simp add: block_keys_def gen_mm_extra_hash_keys_def gen_lora_extra_hash_keys_def
        salt_keys_def embeds_keys_def)
  have "pyslice (all_token_ids r) s (s + bs) = pyslice (all_token_ids r') s (s + bs)"
    using Suc.prems [of "s + bs"] by (simp add: pyslice_def take_drop add.commute)
  moreover have "block_inputs env bs r (s + bs) j n = block_inputs env bs r' (s + bs) j n" for j
    using Suc.prems by (intro Suc.IH) (simp add: add.assoc)
  ultimately show ?case by (simp add: keys split: sum.split)
qed simp

lemma update_block_hashes_spec:
  assumes bs: "0 < bs" "block_hasher r = Some bs" and memo: "memo_ok env r"
    and old: "block_hashes r = hash_chain env None (block_inputs env bs r 0 0 n)" "n * bs \<le> num_tokens r"
    and mm: "n = 0 \<or> mm_done r (n * bs)"
  shows "\<exists>m. update_block_hashes env r = Inr (r\<lparr>prompt_embeds_per_block_hashes := m,
        block_hashes := scratch_hashes env bs r\<rparr>) \<and> memo_ok env (r\<lparr>prompt_embeds_per_block_hashes := m\<rparr>)"
proof -
  let ?N = "num_tokens r div bs" and ?i = "if n = 0 then 0 else - 1"
  let ?p = "if block_hashes r = [] then None else Some (last (block_hashes r))"
  have len: "length (block_hashes r) = n" by (simp add: old length_block_inputs)
  have N: "?N = n + (num_tokens r - n * bs) div bs"
    using old(2) bs(1) by (metis add.commute div_mult_self1 le_add_diff_inverse2 nat_neq_iff)
  have split: "scratch_hashes env bs r = block_hashes r @
      hash_chain env ?p (block_inputs env bs r (n * bs) ?i ((num_tokens r - n * bs) div bs))"
  proof -
    have "block_inputs env bs r (n * bs) (mm_idx_after bs r 0 0 n) k = block_inputs env bs r (n * bs) ?i k" for k
      using mm block_inputs_done [of r "n * bs"] by auto
    moreover have "block_inputs env bs r 0 0 n = [] \<longleftrightarrow> block_hashes r = []"
      using len length_block_inputs [of r 0 env bs 0 n] by (metis length_0_conv mm_idx_ok_0(1))
    ultimately show ?thesis
      by (simp add: scratch_hashes_def scratch_inputs_def N block_inputs_add hash_chain_append old(1) [symmetric])
  qed
  obtain r' where loop: "request_block_hasher env bs r = Inr (hash_chain env ?p
      (block_inputs env bs r (n * bs) ?i ((num_tokens r - n * bs) div bs)), r')" "memo_ext r r'" "memo_ok env r'"
  proof (cases "num_tokens r < n * bs + bs")
    case True
    then have "(num_tokens r - n * bs) div bs = 0" using bs(1) by (simp add: div_eq_0_iff)
    then show ?thesis using True memo that [of r] by (simp add: request_block_hasher_def len Let_def)
  next
    case False
    have "request_block_hasher env bs r = hasher_loop env bs r (n * bs) ?i ?p []"
      using False bs(1) by (simp add: request_block_hasher_def len Let_def)
    moreover have "mm_idx_ok r ?i" by simp
    ultimately show ?thesis
      using hasher_loop_spec [OF bs(1) memo, of ?i "(num_tokens r - n * bs) div bs" "n * bs" ?p "[]"]
        old(2) that by auto
  qed
  from loop(2) obtain m where r': "r' = r\<lparr>prompt_embeds_per_block_hashes := m\<rparr>" by (auto simp: memo_ext_def)
  have "update_block_hashes env r = Inr (r'\<lparr>block_hashes := scratch_hashes env bs r\<rparr>)"
    by (simp add: update_block_hashes_def bs(2) loop(1) split r')
  then show ?thesis using loop(3) r' by auto
qed

text \<open>The state in which the hash list of a request is what hashing from scratch gives.\<close>

definition hashes_current :: "hash_env \<Rightarrow> nat \<Rightarrow> request \<Rightarrow> bool" where
  "hashes_current env bs r \<longleftrightarrow> block_hasher r = Some bs \<and> memo_ok env r \<and> block_hashes r = scratch_hashes env bs r"

lemma append_output_current:
  assumes "0 < bs" and "hashes_current env bs r" and "mm_done r (num_tokens r div bs * bs)"
  shows "\<exists>r'. append_output_token_ids env toks r = Inr r' \<and> hashes_current env bs r'
     \<and> all_token_ids r' = all_token_ids r @ toks \<and> output_token_ids r' = output_token_ids r @ toks
     \<and> mm_features r' = mm_features r"
proof -
  define r1 where "r1 = r\<lparr>output_token_ids := output_token_ids r @ toks, all_token_ids := all_token_ids r @ toks\<rparr>"
  let ?n = "num_tokens r div bs"
  have le: "?n * bs \<le> num_tokens r" by simp
  have "block_inputs env bs r 0 0 ?n = block_inputs env bs r1 0 0 ?n"
    by (rule block_inputs_tokens_cong) (use le in \<open>auto simp: r1_def num_tokens_def intro: order_trans\<close>)
  then have "block_hashes r1 = hash_chain env None (block_inputs env bs r1 0 0 ?n)"
    using assms(2) by (simp add: r1_def hashes_current_def scratch_hashes_def scratch_inputs_def)
  moreover have "block_hasher r1 = Some bs" "memo_ok env r1" "mm_done r1 (?n * bs)" "?n * bs \<le> num_tokens r1"
    using assms(2,3) trans_le_add1 [OF le, of "length toks"]
    by (auto simp: r1_def hashes_current_def memo_ok_def mm_done_def num_tokens_def)
  ultimately obtain m where m: "update_block_hashes env r1 = Inr (r1\<lparr>prompt_embeds_per_block_hashes := m,
        block_hashes := scratch_hashes env bs r1\<rparr>)" "memo_ok env (r1\<lparr>prompt_embeds_per_block_hashes := m\<rparr>)"
    using update_block_hashes_spec [OF assms(1), of r1 env ?n] by blast
  let ?r' = "r1\<lparr>prompt_embeds_per_block_hashes := m, block_hashes := scratch_hashes env bs r1\<rparr>"
  have "block_inputs env bs ?r' 0 0 k = block_inputs env bs r1 0 0 k" for k
    by (rule block_inputs_tokens_cong) simp_all
  then have "hashes_current env bs ?r'"
    using assms(2) m(2)
    by (simp add: hashes_current_def scratch_hashes_def scratch_inputs_def memo_ok_def num_tokens_def r1_def)
  then show ?thesis using m(1) by (simp add: append_output_token_ids_def r1_def)
qed

text \<open>
  C16. Incremental hashing agrees with hashing from scratch. Take a request whose hash list
  is current and whose last multi-modal input ends strictly before its last hashed block boundary (in
  particular a text-only request). However the output tokens are then split into calls of
  \<^verbatim>\<open>append_output_token_ids\<close>, no call fails, and at the end the hash list is the one
  \<^verbatim>\<open>request_block_hasher\<close> computes from scratch for the final token sequence.
\<close>

theorem incremental_hashing_from_scratch:
  assumes "0 < bs" and "hashes_current env bs r" and "mm_done r (num_tokens r div bs * bs)"
  shows "\<exists>r'. rfold (append_output_token_ids env) chunks r = Inr r'
     \<and> all_token_ids r' = all_token_ids r @ concat chunks
     \<and> (\<exists>r''. request_block_hasher env bs (r'\<lparr>block_hashes := []\<rparr>) = Inr (block_hashes r', r''))"
proof -
  have "\<exists>r'. rfold (append_output_token_ids env) chunks r = Inr r'
     \<and> all_token_ids r' = all_token_ids r @ concat chunks \<and> hashes_current env bs r'"
    using assms(2,3)
  proof (induction chunks arbitrary: r)
    case (Cons c cs)
    obtain r1 where r1: "append_output_token_ids env c r = Inr r1" "hashes_current env bs r1"
        "all_token_ids r1 = all_token_ids r @ c" "mm_features r1 = mm_features r"
      using append_output_current [OF assms(1) Cons.prems] by blast
    have "num_tokens r div bs * bs \<le> num_tokens r1 div bs * bs"
      using r1(3) by (simp add: num_tokens_def div_le_mono)
    then have "mm_done r1 (num_tokens r1 div bs * bs)"
      using Cons.prems(2) r1(4) unfolding mm_done_def by (metis order_less_le_trans)
    with Cons.IH [OF r1(2)] r1 show ?case by auto
  qed simp
  then obtain r' where r': "rfold (append_output_token_ids env) chunks r = Inr r'"
     "all_token_ids r' = all_token_ids r @ concat chunks" "hashes_current env bs r'" by blast
  have "memo_ok env (r'\<lparr>block_hashes := []\<rparr>)" using r'(3) by (simp add: hashes_current_def memo_ok_def)
  moreover have "block_inputs env bs (r'\<lparr>block_hashes := []\<rparr>) 0 0 k = block_inputs env bs r' 0 0 k" for k
    by (rule block_inputs_tokens_cong) simp_all
  ultimately show ?thesis
    using r' request_block_hasher_scratch [OF assms(1), of env "r'\<lparr>block_hashes := []\<rparr>"]
    by (auto simp: hashes_current_def scratch_hashes_def scratch_inputs_def num_tokens_def)
qed

theorem incremental_hashing_from_scratch_witness:
  "\<exists>r'. rfold (append_output_token_ids toy_env) [[2], [3, 4], [5]] (sample_request [1] 2) = Inr r'
     \<and> all_token_ids r' = [1, 2, 3, 4, 5]
     \<and> (\<exists>r''. request_block_hasher toy_env 2 (r'\<lparr>block_hashes := []\<rparr>) = Inr (block_hashes r', r''))"
proof -
  have "hashes_current toy_env 2 (sample_request [1] 2)"
    by (simp add: hashes_current_def memo_ok_def sample_request_def scratch_hashes_def scratch_inputs_def num_tokens_def)
  moreover have "mm_done (sample_request [1] 2) k" for k by (simp add: mm_done_def sample_request_def)
  moreover have "all_token_ids (sample_request [1] 2) = [1]" by (simp add: sample_request_def)
  ultimately show ?thesis
    using incremental_hashing_from_scratch [of 2 toy_env "sample_request [1] 2" "[[2], [3, 4], [5]]"] by simp
qed

section \<open>Where the keys fall short\<close>

text \<open>A prompt with two images in its last, partial block.\<close>

definition two_image_args :: "string \<Rightarrow> init_args" where
  "two_image_args img = (sample_args [1, 2, 7, 8, 9] 3)\<lparr>ia_mm_features := Some
     [\<lparr>modality = ''image'', mm_identifier = img, mm_position = \<lparr>offset = 3, plen = 1, is_embed = None\<rparr>\<rparr>,
      \<lparr>modality = ''image'', mm_identifier = ''b'', mm_position = \<lparr>offset = 4, plen = 1, is_embed = None\<rparr>\<rparr>]\<rparr>"

lemmas request_eval = Request_def update_block_hashes_def append_output_token_ids_def sample_args_def
  init_status_tokens_def length_from_prompt_token_ids_or_embeds_def get_skip_reading_prefix_cache_def
  feature_end_def Let_def gen_mm_loop.simps request_block_hasher_def hasher_loop.simps
  generate_block_hash_extra_keys_def gen_mm_extra_hash_keys_def gen_lora_extra_hash_keys_def
  gen_prompt_embeds_extra_hash_keys_def num_tokens_def pyslice_def

text \<open>
  The restriction on multi-modal inputs above is needed. Two images that both lie in
  the last, partial block of the prompt: when generated tokens complete the block, only
  the identifier of the last image enters its hash. Whatever the hash function is, two
  requests that differ in the first image get the same hash list, while hashing the same
  tokens from scratch hashes both identifiers.
\<close>

theorem incremental_hashing_skips_image:
  "\<exists>h0 h1 ra rb r'.
     rbind (Request env 0 (two_image_args ''a'')) (append_output_token_ids env [5]) = Inr ra
   \<and> rbind (Request env 0 (two_image_args ''x'')) (append_output_token_ids env [5]) = Inr rb
   \<and> block_hashes ra = [h0, h1] \<and> block_hashes rb = [h0, h1]
   \<and> h1 = hash_block_tokens env (Some h0) [8, 9, 5] (Some [Key_str ''b''])
   \<and> request_block_hasher env 3 (rb\<lparr>block_hashes := []\<rparr>) =
       Inr ([h0, hash_block_tokens env (Some h0) [8, 9, 5] (Some [Key_str ''x'', Key_str ''b''])], r')"
  by (simp add: two_image_args_def request_eval)

text \<open>
  The extra keys of a block are concatenated without saying where each comes from. A
  request for the base model whose cache salt is the name of a LoRA adapter gets, for its
  first block, the hash of the same tokens under that adapter, whatever the hash function is.
\<close>

theorem salt_collides_with_lora:
  "\<exists>rl rs.
     Request env 0 ((sample_args toks 4)\<lparr>ia_lora_request := Some \<lparr>lora_name = c # name, lora_int_id = i\<rparr>\<rparr>) = Inr rl
   \<and> Request env 0 ((sample_args toks 4)\<lparr>ia_cache_salt := Some (c # name)\<rparr>) = Inr rs
   \<and> take 1 (block_hashes rl) = take 1 (block_hashes rs)"
proof -
  let ?l = "(sample_request toks 4)\<lparr>lora_request_of := Some \<lparr>lora_name = c # name, lora_int_id = i\<rparr>\<rparr>"
  let ?s = "(sample_request toks 4)\<lparr>cache_salt := Some (c # name)\<rparr>"
  have upd: "\<exists>m. update_block_hashes env r = Inr (r\<lparr>prompt_embeds_per_block_hashes := m,
        block_hashes := scratch_hashes env 4 r\<rparr>)" if "r = ?l \<or> r = ?s" for r
    using that update_block_hashes_spec [of 4 r env 0] by (auto simp: sample_request_def memo_ok_def)
  have "take 1 (scratch_inputs env 4 ?l) = take 1 (scratch_inputs env 4 ?s)"
    by (cases "num_tokens ?s div 4") (auto simp: scratch_inputs_def block_keys_def gen_mm_extra_hash_keys_def
        gen_lora_extra_hash_keys_def salt_keys_def embeds_keys_def pack_keys_def sample_request_def num_tokens_def)
  then have "take 1 (scratch_hashes env 4 ?l) = take 1 (scratch_hashes env 4 ?s)"
    by (cases "scratch_inputs env 4 ?l"; cases "scratch_inputs env 4 ?s") (auto simp: scratch_hashes_def)
  with upd [of ?l] upd [of ?s] show ?thesis
    by (auto simp: Request_def sample_args_def init_status_tokens_def sample_request_def
        length_from_prompt_token_ids_or_embeds_def get_skip_reading_prefix_cache_def)
qed

text \<open>
  C17. Continuing a streaming session replaces the tokens that have not been computed by the tokens of the update, but keeps
  every hash. For any session whose hash list is current: all its hashes stay at their
  places, and if the update changes a token before the end of a hashed block, the hash kept for this block is not the one
  that hashing the new tokens from scratch gives, provided that the hash function does not collide on the inputs that occur.
\<close>

theorem session_update_keeps_stale_hash:
  fixes u :: streaming_update
  assumes "0 < bs" and "hashes_current env bs r" and "prompt_token_ids r = Some ids" and "0 \<le> num_computed_tokens r"
  defines "new \<equiv> take (nat (num_computed_tokens r)) (all_token_ids r) @ (case su_prompt_token_ids u of None \<Rightarrow> [] | Some ids \<Rightarrow> ids)"
  shows "\<exists>r' hs r''. update_request_as_session env r u = Inr r' \<and> all_token_ids r' = new
     \<and> take (length (block_hashes r)) (block_hashes r') = block_hashes r
     \<and> request_block_hasher env bs (r'\<lparr>block_hashes := []\<rparr>) = Inr (hs, r'') \<and> length hs = length new div bs
     \<and> (\<forall>k < length (block_hashes r). k < length hs \<and> take (Suc k * bs) new \<noteq> take (Suc k * bs) (all_token_ids r)
          \<and> collision_free env (set (hashed_inputs env None (scratch_inputs env bs r)) \<union> set (hashed_inputs env None (scratch_inputs env bs r')))
          \<longrightarrow> block_hashes r' ! k \<noteq> hs ! k)"
proof -
  have cur: "block_hasher r = Some bs" "memo_ok env r" "block_hashes r = scratch_hashes env bs r" using assms(2) by (simp_all add: hashes_current_def)
  define r1 where "r1 = r\<lparr>output_token_ids := [],
     mm_features := mm_features r @ map (shift_feature (length (take (nat (num_computed_tokens r)) (all_token_ids r))))
       (case su_mm_features u of None \<Rightarrow> [] | Some fs \<Rightarrow> fs),
     all_token_ids := new,
     prompt_token_ids := Some (ids @ pyslice (all_token_ids r) (num_prompt_tokens r) (nat (num_computed_tokens r))
       @ (case su_prompt_token_ids u of None \<Rightarrow> [] | Some ids \<Rightarrow> ids))\<rparr>"
  have memo1: "memo_ok env r1" using cur(2) by (simp add: r1_def memo_ok_def)
  obtain hs0 r2 where h: "request_block_hasher env bs r1 = Inr (hs0, r2)" "memo_ext r1 r2" "memo_ok env r2"
    using request_block_hasher_runs [OF assms(1) memo1] by blast
  obtain m where r2: "r2 = r1\<lparr>prompt_embeds_per_block_hashes := m\<rparr>" using h(2) by (auto simp: memo_ext_def)
  obtain r' where r': "update_request_as_session env r u = Inr r'" "all_token_ids r' = new" "block_hashes r' = block_hashes r @ hs0" "memo_ok env r'"
  proof -
    have "update_block_hashes env r1 = Inr (r2\<lparr>block_hashes := block_hashes r @ hs0\<rparr>)"
      using cur(1) h(1) by (simp add: update_block_hashes_def r1_def r2)
    moreover have "update_request_as_session env r u = rbind (update_block_hashes env r1) (\<lambda>s. Inr (s\<lparr>num_prompt_tokens :=
        length (the (prompt_token_ids r1)), arrival_time := su_arrival_time u, sampling_params_of := su_sampling_params u, status := WAITING\<rparr>))"
      using assms(3,4) by (simp add: update_request_as_session_def pybound_def r1_def new_def num_tokens_def Let_def add.assoc)
    ultimately show ?thesis using that h(3) by (simp add: r1_def r2 memo_ok_def)
  qed
  let ?r = "r'\<lparr>block_hashes := []\<rparr>"
  have "memo_ok env ?r" using r'(4) by (simp add: memo_ok_def)
  then obtain r'' where s: "request_block_hasher env bs ?r = Inr (scratch_hashes env bs ?r, r'')"
    using request_block_hasher_scratch [OF assms(1), of env ?r] by auto
  have ins: "scratch_inputs env bs ?r = scratch_inputs env bs r'" unfolding scratch_inputs_def num_tokens_def
    by (simp, rule block_inputs_tokens_cong) simp_all
  have "block_hashes r' ! k \<noteq> scratch_hashes env bs ?r ! k" if k: "k < length (block_hashes r)" "k < length (scratch_hashes env bs ?r)"
    "take (Suc k * bs) new \<noteq> take (Suc k * bs) (all_token_ids r)"
    "collision_free env (set (hashed_inputs env None (scratch_inputs env bs r)) \<union> set (hashed_inputs env None (scratch_inputs env bs r')))" for k
  proof
    assume eq: "block_hashes r' ! k = scratch_hashes env bs ?r ! k"
    have lens: "Suc k \<le> num_tokens r div bs" "Suc k \<le> num_tokens r' div bs" using k(1,2) cur(3) by (simp_all add: num_tokens_def)
    have "take (Suc k) (scratch_inputs env bs r) = take (Suc k) (scratch_inputs env bs r')"
      using hash_chain_inj [OF k(4), of k k] eq k(1) lens r'(3) cur(3) unfolding scratch_hashes_def ins
      by (simp add: nth_append scratch_inputs_def length_block_inputs)
    then show False using k(3) scratch_inputs_tokens [OF lens(1), of env] scratch_inputs_tokens [OF lens(2), of env] r'(2) by simp
  qed
  then show ?thesis using r' s
    by (intro exI [of _ r'] exI [of _ "scratch_hashes env bs ?r"] exI [of _ r'']) (auto simp: num_tokens_def)
qed

text \<open>The session has the tokens 1, 2, of which one is computed; the update brings the token 3.\<close>

theorem session_update_keeps_stale_hash_witness:
  "\<exists>r' hs r''. update_request_as_session toy_env ((sample_request [1, 2] 2)\<lparr>block_hashes := [[0, 1, 2]], num_computed_tokens := 1\<rparr>)
       \<lparr>su_mm_features = None, su_prompt_token_ids = Some [3], su_max_tokens = 8, su_arrival_time = 1, su_sampling_params = None\<rparr> = Inr r'
     \<and> all_token_ids r' = [1, 3] \<and> request_block_hasher toy_env 2 (r'\<lparr>block_hashes := []\<rparr>) = Inr (hs, r'') \<and> block_hashes r' ! 0 \<noteq> hs ! 0"
proof -
  let ?r = "(sample_request [1, 2] 2)\<lparr>block_hashes := [[0, 1, 2]], num_computed_tokens := 1\<rparr>"
  let ?u = "\<lparr>su_mm_features = None, su_prompt_token_ids = Some [3], su_max_tokens = 8, su_arrival_time = 1, su_sampling_params = None\<rparr> :: streaming_update"
  have ins: "scratch_inputs toy_env 2 x = [([1, c], None)]" if "all_token_ids x = [1, c]" "mm_features x = []" "lora_request_of x = None" "cache_salt x = None"
      "prompt_embeds x = None" for x c
    using that by (simp add: scratch_inputs_def numeral_eq_Suc block_keys_def gen_mm_extra_hash_keys_def
        gen_lora_extra_hash_keys_def salt_keys_def embeds_keys_def pack_keys_def num_tokens_def pyslice_def)
  have cur: "hashes_current toy_env 2 ?r" using ins [of ?r 2]
    by (simp add: hashes_current_def memo_ok_def sample_request_def scratch_hashes_def toy_env_def hash_block_tokens_def)
  obtain r' where upd: "update_request_as_session toy_env ?r ?u = Inr r'" "all_token_ids r' = [1, 3]" "mm_features r' = []" "lora_request_of r' = None"
      "cache_salt r' = None" "prompt_embeds r' = None"
    by (simp add: update_request_as_session_def pybound_def request_eval sample_request_def)
  have cf: "collision_free toy_env (set (hashed_inputs toy_env None (scratch_inputs toy_env 2 ?r)) \<union> set (hashed_inputs toy_env None (scratch_inputs toy_env 2 r')))"
    using ins [of ?r 2] ins [OF upd(2-)] by (auto simp: sample_request_def collision_free_def toy_env_def inj_on_def)
  have "prompt_token_ids ?r = Some [1, 2]" "0 \<le> num_computed_tokens ?r" by (simp_all add: sample_request_def)
  from session_update_keeps_stale_hash [OF _ cur this, of ?u] obtain hs r'' where x:
      "request_block_hasher toy_env 2 (r'\<lparr>block_hashes := []\<rparr>) = Inr (hs, r'')" "length hs = 1"
      "\<forall>k < 1. k < length hs \<and> take (Suc k * 2) [1, 3] \<noteq> take (Suc k * 2) (all_token_ids ?r) \<and> collision_free toy_env
        (set (hashed_inputs toy_env None (scratch_inputs toy_env 2 ?r)) \<union> set (hashed_inputs toy_env None (scratch_inputs toy_env 2 r')))
        \<longrightarrow> block_hashes r' ! k \<noteq> hs ! k"
    using upd(1) by (auto simp: sample_request_def)
  have "block_hashes r' ! 0 \<noteq> hs ! 0" using x(2) x(3) [rule_format, of 0] cf by (simp add: sample_request_def)
  then show ?thesis using upd(1,2) x(1) by blast
qed

section \<open>The coarser view of a hash list\<close>

lemma merge_loop:
  "e \<le> length hs \<Longrightarrow> rfold (\<lambda>i merged. rbind (py_index hs (int i)) (\<lambda>h. Inr (merged @ h))) [s..<e] acc
     = Inr (acc @ concat (pyslice hs s e))"
proof (induction "e - s" arbitrary: s acc)
  case (Suc n)
  then have "s < e" "pyslice hs s e = hs ! s # pyslice hs (Suc s) e"
    by (auto simp: pyslice_def Cons_nth_drop_Suc [symmetric] take_Cons' Suc_diff_Suc)
  then show ?case using Suc.hyps(1) [of "Suc s"] Suc.hyps(2) Suc.prems by (simp add: upt_conv_Cons)
qed (simp add: pyslice_def)

lemma merge_loop_short:
  "s \<le> length hs \<Longrightarrow> length hs < e \<Longrightarrow>
     rfold (\<lambda>i merged. rbind (py_index hs (int i)) (\<lambda>h. Inr (merged @ h))) [s..<e] acc = Inl IndexError"
proof (induction "e - s" arbitrary: s acc)
  case (Suc n)
  then have e: "[s..<e] = s # [Suc s..<e]" by (simp add: upt_conv_Cons)
  show ?case
  proof (cases "s = length hs")
    case True
    then have "py_index hs (int s) = Inl IndexError" by (simp add: py_index_def)
    then show ?thesis unfolding e by simp
  next
    case False
    then have "py_index hs (int s) = Inr (hs ! s)" using Suc.prems by simp
    moreover have "n = e - Suc s" "Suc s \<le> length hs" using Suc.hyps(2) Suc.prems False by simp_all
    ultimately show ?thesis using Suc.hyps(1) [of "Suc s"] Suc.prems(2) by (simp add: e)
  qed
qed simp

lemma bhl_get_value_at_spec:
  assumes "0 < scale_factor l"
  shows "bhl_get_value_at l i =
     (if i < length (bhl_block_hashes l) div scale_factor l
      then Inr (concat (pyslice (bhl_block_hashes l) (i * scale_factor l) (Suc i * scale_factor l)))
      else Inl IndexError)"
proof -
  let ?hs = "bhl_block_hashes l" and ?f = "scale_factor l"
  have iff: "i < length ?hs div ?f \<longleftrightarrow> i * ?f + ?f \<le> length ?hs"
    using assms by (metis Suc_le_eq add.commute less_eq_div_iff_mult_less_eq mult_Suc)
  show ?thesis
  proof (cases "i * ?f + ?f \<le> length ?hs")
    case True
    then have "i * ?f < length ?hs" using assms by simp
    moreover from this have "pyslice ?hs (i * ?f) (i * ?f + ?f) = ?hs ! (i * ?f) # pyslice ?hs (Suc (i * ?f)) (i * ?f + ?f)"
      using assms by (simp add: pyslice_def Cons_nth_drop_Suc [symmetric] take_Cons')
    ultimately show ?thesis
      using True iff merge_loop [of "i * ?f + ?f" ?hs "i * ?f + 1"] by (simp add: bhl_get_value_at_def Let_def add.commute del: of_nat_mult)
  next
    case False
    then show ?thesis
      using iff merge_loop_short [of "i * ?f + 1" ?hs "i * ?f + ?f"]
      by (cases "i * ?f < length ?hs") (auto simp: bhl_get_value_at_def Let_def py_index_def simp del: of_nat_mult)
  qed
qed

lemma bhl_values_spec:
  assumes "0 < scale_factor l" and "\<forall>i \<in> set is. i < length (bhl_block_hashes l) div scale_factor l"
  shows "bhl_values l is =
     Inr (map (\<lambda>i. concat (pyslice (bhl_block_hashes l) (i * scale_factor l) (Suc i * scale_factor l))) is)"
  using assms(2) by (induction "is") (simp_all add: bhl_get_value_at_spec [OF assms(1)])

lemma concat_inj_fixed:
  "\<forall>x \<in> set xs \<union> set ys. length x = n \<Longrightarrow> length xs = length ys \<Longrightarrow> concat xs = concat ys \<Longrightarrow> xs = ys"
proof (induction xs arbitrary: ys)
  case (Cons x xs)
  then show ?case by (cases ys) auto
qed simp

text \<open>
  The coarser hash list. For a target block size that is a positive multiple of the hash
  block size, iterating over the list yields one hash per complete group of fine hashes,
  the concatenation of the group; reading past the last complete group raises
  \<^verbatim>\<open>IndexError\<close>; any other target size fails the assertion of the constructor. With
  digests of a fixed size two coarse hashes agree only if all their fine hashes do.
\<close>

theorem coarse_hash_list_spec:
  assumes "0 < hs" and "0 < f"
  shows "\<exists>l. BlockHashListWithBlockSize bh hs (f * hs) = Inr l
     \<and> bhl_iter l = Inr (map (\<lambda>i. concat (pyslice bh (i * f) (Suc i * f))) [0..<length bh div f])
     \<and> (\<forall>i. length bh div f \<le> i \<longrightarrow> bhl_get_value_at l i = Inl IndexError)
     \<and> (\<forall>t. t mod hs \<noteq> 0 \<longrightarrow> BlockHashListWithBlockSize bh hs t = Inl AssertionError)
     \<and> (\<forall>i j n v. (\<forall>h \<in> set bh. length h = n) \<and> bhl_get_value_at l i = Inr v \<and> bhl_get_value_at l j = Inr v
          \<longrightarrow> pyslice bh (i * f) (Suc i * f) = pyslice bh (j * f) (Suc j * f))"
proof -
  define l where "l = \<lparr>bhl_block_hashes = bh, scale_factor = f\<rparr>"
  have mk: "BlockHashListWithBlockSize bh hs (f * hs) = Inr l"
    using assms by (simp add: BlockHashListWithBlockSize_def l_def)
  have f: "0 < scale_factor l" using assms by (simp add: l_def)
  have val: "bhl_get_value_at l i = (if i < length bh div f then Inr (concat (pyslice bh (i * f) (Suc i * f)))
      else Inl IndexError)" for i
    using bhl_get_value_at_spec [OF f, of i] by (simp add: l_def)
  have "pyslice bh (i * f) (Suc i * f) = pyslice bh (j * f) (Suc j * f)"
    if "\<forall>h \<in> set bh. length h = n" "bhl_get_value_at l i = Inr v" "bhl_get_value_at l j = Inr v" for i j n v
  proof (rule concat_inj_fixed)
    have lt: "i < length bh div f" "j < length bh div f"
      using that(2,3) by (auto simp: val split: if_splits)
    then have "Suc i * f \<le> length bh" "Suc j * f \<le> length bh"
      using assms(2) by (meson Suc_le_eq less_eq_div_iff_mult_less_eq)+
    then show "length (pyslice bh (i * f) (Suc i * f)) = length (pyslice bh (j * f) (Suc j * f))" by simp
    show "\<forall>x \<in> set (pyslice bh (i * f) (Suc i * f)) \<union> set (pyslice bh (j * f) (Suc j * f)). length x = n"
      using that(1) set_pyslice by fast
    show "concat (pyslice bh (i * f) (Suc i * f)) = concat (pyslice bh (j * f) (Suc j * f))"
      using that(2,3) lt by (simp add: val)
  qed
  moreover have "bhl_iter l = Inr (map (\<lambda>i. concat (pyslice bh (i * f) (Suc i * f))) [0..<length bh div f])"
    using bhl_values_spec [OF f, of "[0..<length bh div f]"] assms by (simp add: bhl_iter_def bhl_len_def l_def)
  moreover have "length bh div f \<le> i \<Longrightarrow> bhl_get_value_at l i = Inl IndexError" for i
    by (simp add: val)
  moreover have "t mod hs \<noteq> 0 \<Longrightarrow> BlockHashListWithBlockSize bh hs t = Inl AssertionError" for t
    using assms by (simp add: BlockHashListWithBlockSize_def)
  ultimately show ?thesis using mk by blast
qed

theorem coarse_hash_list_spec_witness:
  "\<exists>l. BlockHashListWithBlockSize [[1], [2], [3], [4], [5]] 16 32 = Inr l \<and> bhl_iter l = Inr [[1, 2], [3, 4]]"
  using coarse_hash_list_spec [of 16 2 "[[1], [2], [3], [4], [5]]"] by (auto simp: pyslice_def)

end
