(* ===== verification/Block_Pool.thy ===== *)
theory Block_Pool
  imports Free_Queue Block_Hash
begin

text \<open>
  The block pool of \<^verbatim>\<open>src/vllm/v1/core/block_pool.py\<close>: the map from block hashes to
  cached blocks and the class \<^verbatim>\<open>BlockPool\<close>. The pool extends the state of the free
  queue, so that blocks are shared by reference between the queue, the hash map and the
  requests, as in the code. The optional metrics collector only observes the pool and is
  left out.
\<close>

section \<open>BlockHashToBlockMap\<close>

text \<open>A key maps to one block, or to a dictionary from block ids to blocks in insertion order.\<close>

datatype cached_blocks = Single block_ref | Multiple "(int \<times> block_ref) list"

type_synonym block_map = "bytes \<rightharpoonup> cached_blocks"

definition get_one_block :: "bytes \<Rightarrow> block_map \<Rightarrow> block_ref option result" where
  "get_one_block key m =
     (case m key of
        None \<Rightarrow> Inr None
      | Some (Single b) \<Rightarrow> Inr (Some b)
      | Some (Multiple d) \<Rightarrow> (case d of [] \<Rightarrow> Inl StopIteration | (_, b) # _ \<Rightarrow> Inr (Some b)))"

definition bm_insert :: "(block_ref \<Rightarrow> int) \<Rightarrow> bytes \<Rightarrow> block_ref \<Rightarrow> block_map \<Rightarrow> block_map" where
  "bm_insert bid key b m =
     (case m key of
        None \<Rightarrow> m(key \<mapsto> Single b)
      | Some (Single b0) \<Rightarrow> m(key \<mapsto> Multiple (AList.update (bid b) b [(bid b0, b0)]))
      | Some (Multiple d) \<Rightarrow> m(key \<mapsto> Multiple (AList.update (bid b) b d)))"

definition bm_pop :: "(block_ref \<Rightarrow> int) \<Rightarrow> bytes \<Rightarrow> int \<Rightarrow> block_map \<Rightarrow> block_ref option \<times> block_map" where
  "bm_pop bid key i m =
     (case m key of
        None \<Rightarrow> (None, m)
      | Some (Single b) \<Rightarrow> if bid b = i then (Some b, m(key := None)) else (None, m)
      | Some (Multiple d) \<Rightarrow>
          let d' = AList.delete i d
          in (map_of d i, if d' = [] then m(key := None) else m(key \<mapsto> Multiple d')))"

section \<open>BlockPool\<close>

datatype kv_cache_event =
    BlockStored
      (ev_block_hashes: "external_block_hash list") (ev_parent_block_hash: "external_block_hash option")
      (ev_token_ids: "int list") (ev_block_size: nat) (ev_lora_id: "int option") (ev_lora_name: "string option")
      (ev_extra_keys: "extra_key list option list option")
  | BlockRemoved (ev_removed: "external_block_hash list")
  | AllBlocksCleared

record block_pool = free_queue +
  num_gpu_blocks :: nat
  enable_caching :: bool
  hash_block_size :: nat
  cached_block_hash_to_block :: block_map
  null_block :: block_ref
  enable_kv_cache_events :: bool
  use_int_block_hashes :: bool
  kv_event_queue :: "kv_cache_event list"

text \<open>The assignments to the fields of a block, and the list \<^verbatim>\<open>self.blocks\<close>.\<close>

definition upd_block :: "block_ref \<Rightarrow> (kv_cache_block \<Rightarrow> kv_cache_block) \<Rightarrow> block_pool \<Rightarrow> block_pool" where
  "upd_block b f p = p\<lparr>heap := (heap p)(b := f (heap p b))\<rparr>"

definition incr_ref :: "block_ref \<Rightarrow> block_pool \<Rightarrow> block_pool" where
  "incr_ref b p = upd_block b (\<lambda>k. k\<lparr>ref_cnt := ref_cnt k + 1\<rparr>) p"

definition decr_ref :: "block_ref \<Rightarrow> block_pool \<Rightarrow> block_pool" where
  "decr_ref b p = upd_block b (\<lambda>k. k\<lparr>ref_cnt := ref_cnt k - 1\<rparr>) p"

definition set_block_hash :: "block_ref \<Rightarrow> bytes \<Rightarrow> block_pool \<Rightarrow> block_pool result" where
  "set_block_hash b h p =
     rbind (ensure (block_hash (heap p b) = None) AssertionError)
       (\<lambda>_. Inr (upd_block b (\<lambda>k. k\<lparr>block_hash := Some h\<rparr>) p))"

definition reset_hash :: "block_ref \<Rightarrow> block_pool \<Rightarrow> block_pool" where
  "reset_hash b p = upd_block b (\<lambda>k. k\<lparr>block_hash := None\<rparr>) p"

definition pool_blocks :: "nat \<Rightarrow> block_ref list" where
  "pool_blocks n = map Blk [0..<n]"

definition push_event :: "kv_cache_event \<Rightarrow> block_pool \<Rightarrow> block_pool" where
  "push_event e p = (if enable_kv_cache_events p then p\<lparr>kv_event_queue := kv_event_queue p @ [e]\<rparr> else p)"

definition BlockPool :: "nat \<Rightarrow> bool \<Rightarrow> nat \<Rightarrow> bool \<Rightarrow> bool \<Rightarrow> block_pool result" where
  "BlockPool n caching hbs events int_hashes =
     rbind (ensure (0 < n) AssertionError) (\<lambda>_.
       let p = \<lparr>heap = (\<lambda>r. KVCacheBlock (case r of Blk i \<Rightarrow> int i | _ \<Rightarrow> -1)), num_free_blocks = 0,
                num_gpu_blocks = n, enable_caching = caching, hash_block_size = hbs,
                cached_block_hash_to_block = Map.empty, null_block = Blk 0,
                enable_kv_cache_events = events, use_int_block_hashes = int_hashes, kv_event_queue = []\<rparr>;
           p = free_queue_init (pool_blocks n) p
       in rbind (popleft p) (\<lambda>(nb, p).
            Inr (upd_block nb (\<lambda>k. k\<lparr>is_null := True\<rparr>) (p\<lparr>null_block := nb\<rparr>))))"

definition get_num_free_blocks :: "block_pool \<Rightarrow> int" where
  "get_num_free_blocks p = num_free_blocks p"

fun get_cached_block :: "block_pool \<Rightarrow> bytes \<Rightarrow> int list \<Rightarrow> block_ref list option result" where
  "get_cached_block p h [] = Inr (Some [])"
| "get_cached_block p h (g # gs) =
     rbind (make_block_hash_with_group_id h g) (\<lambda>key.
     rbind (get_one_block key (cached_block_hash_to_block p)) (\<lambda>b.
       case b of
         None \<Rightarrow> Inr None
       | Some b \<Rightarrow> rbind (get_cached_block p h gs) (\<lambda>bs. Inr (map_option ((#) b) bs))))"

definition maybe_evict_cached_block :: "block_ref \<Rightarrow> block_pool \<Rightarrow> bool \<times> block_pool" where
  "maybe_evict_cached_block b p =
     (case block_hash (heap p b) of
        None \<Rightarrow> (False, p)
      | Some h \<Rightarrow>
          let (popped, m) = bm_pop (\<lambda>r. block_id (heap p r)) h (block_id (heap p b)) (cached_block_hash_to_block p);
              p = p\<lparr>cached_block_hash_to_block := m\<rparr>
          in case popped of
               None \<Rightarrow> (False, p)
             | Some _ \<Rightarrow> (True, push_event (BlockRemoved [maybe_convert_block_hash (use_int_block_hashes p) (get_block_hash h)])
                                  (reset_hash b p)))"

definition get_new_blocks :: "int \<Rightarrow> block_pool \<Rightarrow> (block_ref list \<times> block_pool) result" where
  "get_new_blocks n p =
     (if get_num_free_blocks p < n then Inl ValueError
      else rbind (popleft_n n p) (\<lambda>(ret, p).
        rbind (if enable_caching p
               then rfold (\<lambda>b p. let p = snd (maybe_evict_cached_block b p)
                      in rbind (ensure (ref_cnt (heap p b) = 0) AssertionError) (\<lambda>_. Inr (incr_ref b p))) ret p
               else rfold (\<lambda>b p. rbind (ensure (ref_cnt (heap p b) = 0) AssertionError) (\<lambda>_. Inr (incr_ref b p))) ret p)
          (\<lambda>p. Inr (ret, p))))"

definition touch_one :: "block_ref \<Rightarrow> block_pool \<Rightarrow> block_pool result" where
  "touch_one b p =
     rbind (if ref_cnt (heap p b) = 0 \<and> \<not> is_null (heap p b) then fq_remove b p else Inr p)
       (\<lambda>p. Inr (incr_ref b p))"

definition touch :: "block_ref list \<Rightarrow> block_pool \<Rightarrow> block_pool result" where
  "touch blocks p = rfold touch_one blocks p"

definition free_blocks :: "block_ref list \<Rightarrow> block_pool \<Rightarrow> block_pool result" where
  "free_blocks blocks_list p =
     (let p = fold decr_ref blocks_list p
      in append_n (filter (\<lambda>b. ref_cnt (heap p b) = 0 \<and> \<not> is_null (heap p b)) blocks_list) p)"

text \<open>The set of ids is iterated in some order, given here as a list.\<close>

definition evict_blocks :: "int list \<Rightarrow> block_pool \<Rightarrow> block_pool result" where
  "evict_blocks block_ids p =
     rfold (\<lambda>i p.
        rbind (ensure (i < int (num_gpu_blocks p)) AssertionError) (\<lambda>_.
        rbind (py_index (pool_blocks (num_gpu_blocks p)) i) (\<lambda>b.
        Inr (snd (maybe_evict_cached_block b p))))) block_ids p"

definition reset_prefix_cache :: "block_pool \<Rightarrow> bool \<times> block_pool" where
  "reset_prefix_cache p =
     (let num_used_blocks = int (num_gpu_blocks p) - get_num_free_blocks p
      in if num_used_blocks \<noteq> 1 then (False, p)
         else
           let p = p\<lparr>cached_block_hash_to_block := Map.empty\<rparr>;
               p = fold reset_hash (pool_blocks (num_gpu_blocks p)) p
           in (True, push_event AllBlocksCleared p))"

definition get_usage :: "block_pool \<Rightarrow> rat" where
  "get_usage p =
     (let total_gpu_blocks = int (num_gpu_blocks p) - 1
      in if total_gpu_blocks = 0 then 0
         else 1 - of_int (get_num_free_blocks p) / of_int total_gpu_blocks)"

definition take_events :: "block_pool \<Rightarrow> kv_cache_event list \<times> block_pool" where
  "take_events p =
     (if \<not> enable_kv_cache_events p then ([], p) else (kv_event_queue p, p\<lparr>kv_event_queue := []\<rparr>))"

text \<open>
  \<^verbatim>\<open>cache_full_blocks\<close>. The hash list is the request's own, or its view at the block
  size of the group. \<open>cache_one\<close> is the body of the loop over the new full blocks;
  \<open>stored_extra_keys\<close> recomputes the extra keys for the event.
\<close>

datatype block_hash_view = Hash_list "bytes list" | Hash_view block_hash_list

fun view_from :: "block_hash_view \<Rightarrow> nat \<Rightarrow> bytes list result" where
  "view_from (Hash_list hs) n = Inr (drop n hs)"
| "view_from (Hash_view l) n = bhl_slice l n None"

fun view_at :: "block_hash_view \<Rightarrow> nat \<Rightarrow> bytes result" where
  "view_at (Hash_list hs) n = py_index hs (int n)"
| "view_at (Hash_view l) n = bhl_get_value_at l n"

definition block_hashes_view :: "bytes list \<Rightarrow> nat \<Rightarrow> nat \<Rightarrow> block_hash_view result" where
  "block_hashes_view hs hash_bs block_size =
     (if block_size = hash_bs then Inr (Hash_list hs)
      else if hash_bs = 0 then Inl ZeroDivisionError
      else rbind (ensure (block_size mod hash_bs = 0) AssertionError)
        (\<lambda>_. rbind (BlockHashListWithBlockSize hs hash_bs block_size) (\<lambda>l. Inr (Hash_view l))))"

definition cache_one :: "int \<Rightarrow> bytes list \<Rightarrow> nat \<times> block_ref
     \<Rightarrow> block_pool \<times> external_block_hash list \<Rightarrow> (block_pool \<times> external_block_hash list) result" where
  "cache_one group_id new_block_hashes = (\<lambda>(i, blk) (p, new_hashes).
     if is_null (heap p blk) then Inr (p, new_hashes)
     else
       rbind (ensure (block_hash (heap p blk) = None) AssertionError) (\<lambda>_.
       rbind (py_index new_block_hashes (int i)) (\<lambda>h.
       rbind (make_block_hash_with_group_id h group_id) (\<lambda>key.
       rbind (set_block_hash blk key p) (\<lambda>p.
       Inr (p\<lparr>cached_block_hash_to_block :=
                bm_insert (\<lambda>r. block_id (heap p r)) key blk (cached_block_hash_to_block p)\<rparr>,
            if enable_kv_cache_events p
            then new_hashes @ [maybe_convert_block_hash (use_int_block_hashes p) h] else new_hashes))))))"

fun stored_extra_keys :: "hash_env \<Rightarrow> nat \<Rightarrow> (block_ref \<Rightarrow> bool) \<Rightarrow> (nat \<times> block_ref) list \<Rightarrow> int \<Rightarrow> request
     \<Rightarrow> (extra_key list option list \<times> request) result" where
  "stored_extra_keys env block_size null [] curr_mm_idx r = Inr ([], r)"
| "stored_extra_keys env block_size null ((i, b) # bs) curr_mm_idx r =
     (if null b then stored_extra_keys env block_size null bs curr_mm_idx r
      else
        rbind (generate_block_hash_extra_keys env r (i * block_size) (i * block_size + block_size) curr_mm_idx)
          (\<lambda>(k, j, r). rbind (stored_extra_keys env block_size null bs j r) (\<lambda>(ks, r). Inr (k # ks, r))))"

definition cache_full_blocks :: "hash_env \<Rightarrow> request \<Rightarrow> block_ref list \<Rightarrow> nat \<Rightarrow> nat \<Rightarrow> nat \<Rightarrow> int
     \<Rightarrow> block_pool \<Rightarrow> (request \<times> block_pool) result" where
  "cache_full_blocks env r blocks num_cached_blocks num_full_blocks block_size group_id p =
     (if num_full_blocks \<le> num_cached_blocks then Inr (r, p)
      else
        let new_full_blocks = pyslice blocks num_cached_blocks num_full_blocks in
        rbind (ensure (num_full_blocks \<le> length (block_hashes r)) AssertionError) (\<lambda>_.
        rbind (block_hashes_view (block_hashes r) (hash_block_size p) block_size) (\<lambda>view.
        rbind (view_from view num_cached_blocks) (\<lambda>new_block_hashes.
        rbind (rfold (cache_one group_id new_block_hashes) (enumerate 0 new_full_blocks) (p, [])) (\<lambda>(p, new_hashes).
        if \<not> enable_kv_cache_events p then Inr (r, p)
        else
          rbind (if num_cached_blocks = 0 then Inr None
                 else rbind (view_at view (num_cached_blocks - 1))
                   (\<lambda>h. Inr (Some (maybe_convert_block_hash (use_int_block_hashes p) h)))) (\<lambda>parent.
          rbind (ensure (num_full_blocks \<le> length blocks) IndexError) (\<lambda>_.
          rbind (stored_extra_keys env block_size (\<lambda>b. is_null (heap p b))
                   (enumerate num_cached_blocks new_full_blocks) 0 r) (\<lambda>(extra_keys_list, r).
          Inr (r, push_event (BlockStored new_hashes parent
                 (pyslice (all_token_ids r) (num_cached_blocks * block_size) (num_full_blocks * block_size))
                 block_size (map_option lora_int_id (lora_request_of r)) (map_option lora_name (lora_request_of r))
                 (if extra_keys_list = [] then None else Some extra_keys_list)) p)))))))))"

section \<open>The invariant of the pool\<close>

text \<open>The blocks a key is mapped to, and the links of the store.\<close>

fun blocks_of :: "cached_blocks \<Rightarrow> block_ref set" where
  "blocks_of (Single b) = {b}"
| "blocks_of (Multiple d) = snd ` set d"

definition cached_under :: "block_map \<Rightarrow> bytes \<Rightarrow> block_ref set" where
  "cached_under m key = (case m key of None \<Rightarrow> {} | Some c \<Rightarrow> blocks_of c)"

definition entry_ok :: "(block_ref \<Rightarrow> int) \<Rightarrow> cached_blocks \<Rightarrow> bool" where
  "entry_ok bid c = (case c of Single b \<Rightarrow> True
     | Multiple d \<Rightarrow> d \<noteq> [] \<and> distinct (map fst d) \<and> (\<forall>(i, b) \<in> set d. i = bid b))"

definition map_ok :: "(block_ref \<Rightarrow> int) \<Rightarrow> block_map \<Rightarrow> bool" where
  "map_ok bid m \<longleftrightarrow> (\<forall>key c. m key = Some c \<longrightarrow> entry_ok bid c)"

definition usable :: "block_pool \<Rightarrow> block_ref set" where
  "usable p = Blk ` {1..<num_gpu_blocks p}"

text \<open>
  In every reachable state: the free queue holds exactly the blocks that nobody references,
  reference counts are not negative, the null block (block 0) is the only null block and
  has no hash, and a usable block is in the hash map under a key exactly if the key is its
  block hash.
\<close>

definition static_ok :: "block_pool \<Rightarrow> bool" where
  "static_ok p \<longleftrightarrow> 0 < num_gpu_blocks p \<and> null_block p = Blk 0 \<and>
     (\<forall>i < num_gpu_blocks p. block_id (heap p (Blk i)) = int i \<and> is_null (heap p (Blk i)) = (i = 0))"

definition refs_ok :: "block_pool \<Rightarrow> block_ref list \<Rightarrow> bool" where
  "refs_ok p xs \<longleftrightarrow> fq_rep p xs \<and> set xs = {b \<in> usable p. ref_cnt (heap p b) = 0} \<and>
     (\<forall>b \<in> usable p. 0 \<le> ref_cnt (heap p b))"

definition cache_ok :: "block_pool \<Rightarrow> bool" where
  "cache_ok p \<longleftrightarrow> block_hash (heap p (Blk 0)) = None \<and>
     map_ok (\<lambda>b. block_id (heap p b)) (cached_block_hash_to_block p) \<and>
     (\<forall>key b. b \<in> cached_under (cached_block_hash_to_block p) key
        \<longleftrightarrow> b \<in> usable p \<and> block_hash (heap p b) = Some key)"

definition pool_inv :: "block_pool \<Rightarrow> block_ref list \<Rightarrow> bool" where
  "pool_inv p xs \<longleftrightarrow> static_ok p \<and> refs_ok p xs \<and> cache_ok p"

section \<open>The hash index\<close>

text \<open>
  What the pool relies on: an index of sets of blocks under keys. Looking up a key gives
  one of its blocks, inserting adds a block whose id is new under the key, and popping an
  id removes the block with that id.
\<close>

locale block_index =
  fixes bid :: "'b \<Rightarrow> int"
    and get :: "'k \<Rightarrow> 'm \<Rightarrow> 'b option result"
    and ins :: "'k \<Rightarrow> 'b \<Rightarrow> 'm \<Rightarrow> 'm"
    and pop :: "'k \<Rightarrow> int \<Rightarrow> 'm \<Rightarrow> 'b option \<times> 'm"
    and under :: "'m \<Rightarrow> 'k \<Rightarrow> 'b set"
    and ok :: "'m \<Rightarrow> bool"
  assumes get_none: "ok m \<Longrightarrow> under m k = {} \<Longrightarrow> get k m = Inr None"
    and get_some: "ok m \<Longrightarrow> under m k \<noteq> {} \<Longrightarrow> \<exists>b \<in> under m k. get k m = Inr (Some b)"
    and ins_ok: "ok m \<Longrightarrow> bid b \<notin> bid ` under m k \<Longrightarrow> ok (ins k b m)"
    and ins_under: "ok m \<Longrightarrow> bid b \<notin> bid ` under m k \<Longrightarrow> under (ins k b m) = (under m)(k := insert b (under m k))"
    and pop_member: "ok m \<Longrightarrow> b \<in> under m k \<Longrightarrow> inj_on bid (under m k) \<Longrightarrow>
      \<exists>m'. pop k (bid b) m = (Some b, m') \<and> ok m' \<and> under m' = (under m)(k := under m k - {b})"
begin

lemma get_iff: "ok m \<Longrightarrow> (\<exists>b. get k m = Inr (Some b)) \<longleftrightarrow> under m k \<noteq> {}"
  using get_none [of m k] get_some [of m k] by (cases "under m k = {}") auto

lemma get_mem: "ok m \<Longrightarrow> get k m = Inr (Some b) \<Longrightarrow> b \<in> under m k"
  using get_none [of m k] get_some [of m k] by (cases "under m k = {}") auto

lemma get_ins_same:
  "ok m \<Longrightarrow> bid b \<notin> bid ` under m k \<Longrightarrow> \<exists>c. get k (ins k b m) = Inr (Some c) \<and> c \<in> insert b (under m k)"
  using get_some [of "ins k b m" k] ins_ok [of m b k] ins_under [of m b k] by auto

end

lemma map_okD: "map_ok bid m \<Longrightarrow> m k = Some c \<Longrightarrow> entry_ok bid c"
  by (auto simp: map_ok_def)

interpretation bm: block_index bid get_one_block "bm_insert bid" "bm_pop bid" cached_under "map_ok bid"
  for bid
proof
  fix m :: block_map and k b
  assume ok: "map_ok bid m"
  { assume "cached_under m k = {}"
    then show "get_one_block k m = Inr None"
      using ok by (auto simp: get_one_block_def cached_under_def map_ok_def entry_ok_def
          split: option.splits cached_blocks.splits list.splits elim!: blocks_of.elims) }
  { assume "cached_under m k \<noteq> {}"
    then show "\<exists>b \<in> cached_under m k. get_one_block k m = Inr (Some b)"
      by (auto simp: get_one_block_def cached_under_def split: option.splits cached_blocks.splits list.splits) }
  { assume new: "bid b \<notin> bid ` cached_under m k"
    have d: "i \<notin> fst ` set d" if "m k = Some (Multiple d)" "i = bid b" for i d
      using that new ok by (force simp: cached_under_def map_ok_def entry_ok_def)
    then show "map_ok bid (bm_insert bid k b m)"
      using ok new d by (auto simp: map_ok_def bm_insert_def entry_ok_def alist_update_fresh cached_under_def
          split: option.splits cached_blocks.splits if_splits)
    show "cached_under (bm_insert bid k b m) = (cached_under m)(k := insert b (cached_under m k))"
      using new d by (auto simp: fun_eq_iff cached_under_def bm_insert_def alist_update_fresh
          split: option.splits cached_blocks.splits) }
  { assume b: "b \<in> cached_under m k" and inj: "inj_on bid (cached_under m k)"
    show "\<exists>m'. bm_pop bid k (bid b) m = (Some b, m') \<and> map_ok bid m'
        \<and> cached_under m' = (cached_under m)(k := cached_under m k - {b})"
    proof (cases "m k")
      case (Some c)
      show ?thesis
      proof (cases c)
        case (Single b')
        then show ?thesis using ok b Some
          by (intro exI [of _ "m(k := None)"]) (auto simp: bm_pop_def cached_under_def map_ok_def fun_eq_iff)
      next
        case (Multiple d)
        have d: "distinct (map fst d)" "\<And>i x. (i, x) \<in> set d \<Longrightarrow> i = bid x" "cached_under m k = snd ` set d"
          using map_okD [OF ok Some] Some Multiple by (auto simp: entry_ok_def cached_under_def)
        have del: "set (AList.delete (bid b) d) = {e \<in> set d. fst e \<noteq> bid b}" by (rule alist_delete_set(1) [OF d(1)])
        have "(bid b, b) \<in> set d" using b d by auto
        then have "map_of d (bid b) = Some b" using d(1) by simp
        moreover have und: "snd ` set (AList.delete (bid b) d) = snd ` set d - {b}"
        proof -
          have "bid x = bid b \<longleftrightarrow> x = b" if "(i, x) \<in> set d" for i x
            using inj_on_eq_iff [OF inj, of x b] b that d(3) by force
          then have "fst e \<noteq> bid b \<longleftrightarrow> snd e \<noteq> b" if "e \<in> set d" for e
            using that d(2) by (cases e) auto
          then show ?thesis unfolding del by auto
        qed
        moreover have "entry_ok bid (Multiple (AList.delete (bid b) d))" if "AList.delete (bid b) d \<noteq> []"
          using that d(1,2) del by (auto simp: entry_ok_def distinct_delete)
        moreover have "AList.delete (bid b) d = [] \<Longrightarrow> snd ` set d - {b} = {}" using und by simp
        ultimately show ?thesis
          using ok Some Multiple d(3)
          by (intro exI [of _ "snd (bm_pop bid k (bid b) m)"])
            (auto simp: bm_pop_def Let_def map_ok_def fun_eq_iff cached_under_def)
      qed
    qed (use b in \<open>simp add: cached_under_def\<close>) }
qed

section \<open>What each update keeps\<close>

text \<open>The queue depends on the links only, the rest of the invariant on everything else.\<close>

lemma fq_rep_links:
  assumes "\<And>a. next_free_block (heap p' a) = next_free_block (heap p a)"
    and "\<And>a. prev_free_block (heap p' a) = prev_free_block (heap p a)"
    and "num_free_blocks p' = num_free_blocks p"
  shows "fq_rep p' xs = fq_rep p xs"
  using assms dll_cong [of "Fake_head # xs @ [Fake_tail]" "heap p'" "heap p"] by (simp add: fq_rep_def)

lemma fq_data_fields:
  assumes "fq_data p' = fq_data (p :: block_pool)"
  shows "block_id (heap p' b) = block_id (heap p b)" "ref_cnt (heap p' b) = ref_cnt (heap p b)"
    "block_hash (heap p' b) = block_hash (heap p b)" "is_null (heap p' b) = is_null (heap p b)"
    "num_gpu_blocks p' = num_gpu_blocks p" "enable_caching p' = enable_caching p"
    "hash_block_size p' = hash_block_size p"
    "cached_block_hash_to_block p' = cached_block_hash_to_block p" "null_block p' = null_block p"
    "enable_kv_cache_events p' = enable_kv_cache_events p" "kv_event_queue p' = kv_event_queue p"
    "use_int_block_hashes p' = use_int_block_hashes p"
proof -
  have "erase_links (heap p' b) = erase_links (heap p b)" using assms by (auto simp: fq_data_def fun_eq_iff)
  then show "block_id (heap p' b) = block_id (heap p b)" "ref_cnt (heap p' b) = ref_cnt (heap p b)"
    "block_hash (heap p' b) = block_hash (heap p b)" "is_null (heap p' b) = is_null (heap p b)"
    by (rule erase_links_eqD)+
  have "free_queue.more p' = free_queue.more p" using assms by (simp add: fq_data_def)
  then show "num_gpu_blocks p' = num_gpu_blocks p" "enable_caching p' = enable_caching p"
    "hash_block_size p' = hash_block_size p"
    "cached_block_hash_to_block p' = cached_block_hash_to_block p" "null_block p' = null_block p"
    "enable_kv_cache_events p' = enable_kv_cache_events p" "kv_event_queue p' = kv_event_queue p"
    "use_int_block_hashes p' = use_int_block_hashes p"
    by (cases p', cases p, simp)+
qed

lemma fq_data_ok:
  assumes "fq_data p' = fq_data (p :: block_pool)"
  shows "static_ok p' = static_ok p" "cache_ok p' = cache_ok p" "usable p' = usable p"
  using fq_data_fields [OF assms] by (simp_all add: static_ok_def cache_ok_def usable_def)

lemma upd_block_heap [heap_simps]:
  "heap (upd_block b f p) a = (if a = b then f (heap p b) else heap p a)"
  "num_free_blocks (upd_block b f p) = num_free_blocks p"
  "num_gpu_blocks (upd_block b f p) = num_gpu_blocks p"
  "cached_block_hash_to_block (upd_block b f p) = cached_block_hash_to_block p"
  "null_block (upd_block b f p) = null_block p"
  "enable_caching (upd_block b f p) = enable_caching p"
  "hash_block_size (upd_block b f p) = hash_block_size p"
  "enable_kv_cache_events (upd_block b f p) = enable_kv_cache_events p"
  "use_int_block_hashes (upd_block b f p) = use_int_block_hashes p"
  "kv_event_queue (upd_block b f p) = kv_event_queue p"
  by (simp_all add: upd_block_def)

lemma push_event_heap [heap_simps]:
  "heap (push_event e p) = heap p"
  "num_free_blocks (push_event e p) = num_free_blocks p"
  "num_gpu_blocks (push_event e p) = num_gpu_blocks p"
  "cached_block_hash_to_block (push_event e p) = cached_block_hash_to_block p"
  "null_block (push_event e p) = null_block p"
  "enable_caching (push_event e p) = enable_caching p"
  "hash_block_size (push_event e p) = hash_block_size p"
  by (simp_all add: push_event_def)

lemma upd_block_fq_rep:
  assumes "\<And>k. next_free_block (f k) = next_free_block k" "\<And>k. prev_free_block (f k) = prev_free_block k"
  shows "fq_rep (upd_block b f p) xs = fq_rep p xs"
  by (rule fq_rep_links) (simp_all add: heap_simps assms)

lemma incr_decr_ok [simp]:
  "fq_rep (incr_ref b p) xs = fq_rep p xs" "fq_rep (decr_ref b p) xs = fq_rep p xs"
  "static_ok (incr_ref b p) = static_ok p" "static_ok (decr_ref b p) = static_ok p"
  "cache_ok (incr_ref b p) = cache_ok p" "cache_ok (decr_ref b p) = cache_ok p"
  "usable (incr_ref b p) = usable p" "usable (decr_ref b p) = usable p"
proof -
  have *: "block_id (heap (incr_ref b p) a) = block_id (heap p a)" "block_id (heap (decr_ref b p) a) = block_id (heap p a)"
    "is_null (heap (incr_ref b p) a) = is_null (heap p a)" "is_null (heap (decr_ref b p) a) = is_null (heap p a)"
    "block_hash (heap (incr_ref b p) a) = block_hash (heap p a)" "block_hash (heap (decr_ref b p) a) = block_hash (heap p a)" for a
    by (simp_all add: incr_ref_def decr_ref_def heap_simps)
  show "usable (incr_ref b p) = usable p" "usable (decr_ref b p) = usable p"
    by (simp_all add: usable_def incr_ref_def decr_ref_def heap_simps)
  then show "cache_ok (incr_ref b p) = cache_ok p" "cache_ok (decr_ref b p) = cache_ok p"
    unfolding cache_ok_def * by (simp_all add: incr_ref_def decr_ref_def heap_simps)
  show "static_ok (incr_ref b p) = static_ok p" "static_ok (decr_ref b p) = static_ok p"
    unfolding static_ok_def * by (simp_all add: incr_ref_def decr_ref_def heap_simps)
  show "fq_rep (incr_ref b p) xs = fq_rep p xs" "fq_rep (decr_ref b p) xs = fq_rep p xs"
    by (simp_all add: incr_ref_def decr_ref_def upd_block_fq_rep)
qed

lemma ref_cnt_incr_decr [heap_simps]:
  "ref_cnt (heap (incr_ref b p) a) = ref_cnt (heap p a) + (if a = b then 1 else 0)"
  "ref_cnt (heap (decr_ref b p) a) = ref_cnt (heap p a) - (if a = b then 1 else 0)"
  "is_null (heap (incr_ref b p) a) = is_null (heap p a)" "is_null (heap (decr_ref b p) a) = is_null (heap p a)"
  "block_hash (heap (incr_ref b p) a) = block_hash (heap p a)" "block_hash (heap (decr_ref b p) a) = block_hash (heap p a)"
  "cached_block_hash_to_block (incr_ref b p) = cached_block_hash_to_block p"
  "cached_block_hash_to_block (decr_ref b p) = cached_block_hash_to_block p"
  "enable_caching (incr_ref b p) = enable_caching p" "enable_caching (decr_ref b p) = enable_caching p"
  "num_gpu_blocks (incr_ref b p) = num_gpu_blocks p" "num_gpu_blocks (decr_ref b p) = num_gpu_blocks p"
  by (simp_all add: incr_ref_def decr_ref_def heap_simps)

lemma usable_real: "b \<in> usable p \<Longrightarrow> real_block b" "b \<in> usable p \<Longrightarrow> b \<noteq> Blk 0"
  by (auto simp: usable_def real_block_def)

lemma usable_not_null: "static_ok p \<Longrightarrow> b \<in> usable p \<Longrightarrow> \<not> is_null (heap p b)"
  by (auto simp: static_ok_def usable_def)

lemma null_is_null: "static_ok p \<Longrightarrow> is_null (heap p (Blk 0))"
  by (simp add: static_ok_def)

lemma usable_bid_inj: "static_ok p \<Longrightarrow> inj_on (\<lambda>b. block_id (heap p b)) (usable p)"
  by (auto simp: static_ok_def usable_def inj_on_def)

lemma cached_under_usable: "cache_ok p \<Longrightarrow> cached_under (cached_block_hash_to_block p) k \<subseteq> usable p"
  by (auto simp: cache_ok_def)

section \<open>Eviction\<close>

lemma maybe_evict_spec:
  assumes st: "static_ok p" and ca: "cache_ok p" and b: "b \<in> usable p"
  shows "static_ok (snd (maybe_evict_cached_block b p)) \<and> cache_ok (snd (maybe_evict_cached_block b p))
     \<and> fst (maybe_evict_cached_block b p) = (block_hash (heap p b) \<noteq> None)
     \<and> (\<forall>a. heap (snd (maybe_evict_cached_block b p)) a = (if a = b then (heap p b)\<lparr>block_hash := None\<rparr> else heap p a))
     \<and> num_free_blocks (snd (maybe_evict_cached_block b p)) = num_free_blocks p
     \<and> num_gpu_blocks (snd (maybe_evict_cached_block b p)) = num_gpu_blocks p
     \<and> enable_caching (snd (maybe_evict_cached_block b p)) = enable_caching p"
proof (cases "block_hash (heap p b)")
  case None
  then show ?thesis using st ca by (auto simp: maybe_evict_cached_block_def)
next
  case (Some h)
  let ?bid = "\<lambda>r. block_id (heap p r)" and ?m = "cached_block_hash_to_block p"
  have ok: "map_ok ?bid ?m" and mem: "b \<in> cached_under ?m h"
    using ca b Some by (auto simp: cache_ok_def)
  have "inj_on ?bid (cached_under ?m h)"
    using usable_bid_inj [OF st] cached_under_usable [OF ca] by (rule inj_on_subset)
  then obtain m' where m': "bm_pop ?bid h (?bid b) ?m = (Some b, m')" "map_ok ?bid m'"
      "cached_under m' = (cached_under ?m)(h := cached_under ?m h - {b})"
    using bm.pop_member [OF ok mem] by blast
  define p' where "p' = push_event (BlockRemoved [maybe_convert_block_hash (use_int_block_hashes p) (get_block_hash h)])
      (reset_hash b (p\<lparr>cached_block_hash_to_block := m'\<rparr>))"
  have p': "maybe_evict_cached_block b p = (True, p')"
    using Some m'(1) by (simp add: maybe_evict_cached_block_def p'_def)
  have heap': "heap p' a = (if a = b then (heap p b)\<lparr>block_hash := None\<rparr> else heap p a)" for a
    by (simp add: p'_def heap_simps reset_hash_def)
  have same: "num_free_blocks p' = num_free_blocks p" "num_gpu_blocks p' = num_gpu_blocks p"
      "null_block p' = null_block p" "cached_block_hash_to_block p' = m'" "enable_caching p' = enable_caching p"
    by (simp_all add: p'_def heap_simps reset_hash_def)
  have "usable p' = usable p" by (simp add: usable_def same)
  moreover have bids: "(\<lambda>r. block_id (heap p' r)) = ?bid" by (simp add: fun_eq_iff heap')
  ultimately have "cache_ok p'"
    using ca m'(2,3) b Some usable_real(2) [OF b] by (auto simp: cache_ok_def same heap')
  moreover have "static_ok p'" using st by (auto simp: static_ok_def same heap')
  ultimately show ?thesis by (simp add: p' heap' same Some)
qed

section \<open>Allocation\<close>

definition alloc_step :: "bool \<Rightarrow> block_ref \<Rightarrow> block_pool \<Rightarrow> block_pool result" where
  "alloc_step c b p = (let p = (if c then snd (maybe_evict_cached_block b p) else p)
     in rbind (ensure (ref_cnt (heap p b) = 0) AssertionError) (\<lambda>_. Inr (incr_ref b p)))"

lemma get_new_blocks_alloc:
  "get_new_blocks n p = (if num_free_blocks p < n then Inl ValueError
     else rbind (popleft_n n p) (\<lambda>(ret, p). rbind (rfold (alloc_step (enable_caching p)) ret p) (\<lambda>p. Inr (ret, p))))"
  unfolding get_new_blocks_def get_num_free_blocks_def alloc_step_def [abs_def]
  by (auto simp: Let_def intro!: rbind_cong)

lemma alloc_step_spec:
  assumes "static_ok p" "cache_ok p" "b \<in> usable p" "ref_cnt (heap p b) = 0"
  shows "\<exists>p'. alloc_step c b p = Inr p' \<and> static_ok p' \<and> cache_ok p' \<and> (\<forall>xs. fq_rep p' xs = fq_rep p xs)
     \<and> usable p' = usable p \<and> enable_caching p' = enable_caching p
     \<and> (\<forall>a. ref_cnt (heap p' a) = (if a = b then 1 else ref_cnt (heap p a)))
     \<and> (\<forall>a. block_hash (heap p' a) = (if c \<and> a = b then None else block_hash (heap p a)))"
proof -
  define p1 where "p1 = (if c then snd (maybe_evict_cached_block b p) else p)"
  note E = maybe_evict_spec [OF assms(1-3)]
  have p1: "static_ok p1" "cache_ok p1" "num_free_blocks p1 = num_free_blocks p" "num_gpu_blocks p1 = num_gpu_blocks p"
      "heap p1 a = (if c \<and> a = b then (heap p b)\<lparr>block_hash := None\<rparr> else heap p a)"
      "enable_caching p1 = enable_caching p" for a
    using E assms by (auto simp: p1_def)
  have "fq_rep p1 xs = fq_rep p xs" for xs by (rule fq_rep_links) (simp_all add: p1)
  moreover have "alloc_step c b p = Inr (incr_ref b p1)"
    using assms(4) p1(5) [of b] by (simp add: alloc_step_def p1_def [symmetric])
  moreover have "usable p1 = usable p" by (simp add: usable_def p1)
  ultimately show ?thesis using p1 assms(4) by (auto simp: heap_simps)
qed

lemma alloc_loop:
  assumes "static_ok p" "cache_ok p" "distinct ret" "set ret \<subseteq> usable p" "\<forall>b \<in> set ret. ref_cnt (heap p b) = 0"
  shows "\<exists>p'. rfold (alloc_step c) ret p = Inr p' \<and> static_ok p' \<and> cache_ok p' \<and> (\<forall>xs. fq_rep p' xs = fq_rep p xs)
     \<and> usable p' = usable p \<and> enable_caching p' = enable_caching p
     \<and> (\<forall>a. ref_cnt (heap p' a) = (if a \<in> set ret then 1 else ref_cnt (heap p a)))
     \<and> (\<forall>a. block_hash (heap p' a) = (if c \<and> a \<in> set ret then None else block_hash (heap p a)))"
  using assms
proof (induction ret arbitrary: p)
  case (Cons b ret)
  obtain p1 where p1: "alloc_step c b p = Inr p1" "static_ok p1" "cache_ok p1" "\<And>xs. fq_rep p1 xs = fq_rep p xs"
      "usable p1 = usable p" "enable_caching p1 = enable_caching p"
      "\<And>a. ref_cnt (heap p1 a) = (if a = b then 1 else ref_cnt (heap p a))"
      "\<And>a. block_hash (heap p1 a) = (if c \<and> a = b then None else block_hash (heap p a))"
    using alloc_step_spec [of p b c] Cons.prems by auto
  have "\<exists>p'. rfold (alloc_step c) ret p1 = Inr p' \<and> static_ok p' \<and> cache_ok p' \<and> (\<forall>xs. fq_rep p' xs = fq_rep p1 xs)
     \<and> usable p' = usable p1 \<and> enable_caching p' = enable_caching p1
     \<and> (\<forall>a. ref_cnt (heap p' a) = (if a \<in> set ret then 1 else ref_cnt (heap p1 a)))
     \<and> (\<forall>a. block_hash (heap p' a) = (if c \<and> a \<in> set ret then None else block_hash (heap p1 a)))"
    by (rule Cons.IH) (use Cons.prems p1 in auto)
  then show ?case using p1 Cons.prems(3) by (auto simp: fun_eq_iff)
qed simp

lemma pool_invD:
  assumes "pool_inv p xs"
  shows "static_ok p" "cache_ok p" "fq_rep p xs" "set xs = {b \<in> usable p. ref_cnt (heap p b) = 0}"
    "\<And>b. b \<in> usable p \<Longrightarrow> 0 \<le> ref_cnt (heap p b)" "distinct xs" "num_free_blocks p = int (length xs)"
  using assms fq_repD [of p xs] by (auto simp: pool_inv_def refs_ok_def)

lemma get_new_blocks_spec:
  assumes inv: "pool_inv p xs" and n: "0 \<le> n" "n \<le> int (length xs)"
  shows "\<exists>p'. get_new_blocks n p = Inr (take (nat n) xs, p') \<and> pool_inv p' (drop (nat n) xs)
     \<and> usable p' = usable p \<and> enable_caching p' = enable_caching p
     \<and> (\<forall>a. ref_cnt (heap p' a) = (if a \<in> set (take (nat n) xs) then 1 else ref_cnt (heap p a)))
     \<and> (\<forall>a. block_hash (heap p' a) =
           (if enable_caching p \<and> a \<in> set (take (nat n) xs) then None else block_hash (heap p a)))"
proof -
  note I = pool_invD [OF inv]
  let ?ret = "take (nat n) xs" and ?xs' = "drop (nat n) xs"
  obtain p1 where p1: "popleft_n n p = Inr (?ret, p1)" "fq_rep p1 ?xs'" "fq_data p1 = fq_data p"
    using fq.pop_n_first [OF I(3) n] by blast
  note F = fq_data_fields [OF p1(3)] and O = fq_data_ok [OF p1(3)]
  have ret: "set ?ret \<subseteq> set xs" "distinct ?ret" using I(6) by (auto dest: in_set_takeD)
  have pre: "static_ok p1" "cache_ok p1" "set ?ret \<subseteq> usable p1" "\<forall>b \<in> set ?ret. ref_cnt (heap p1 b) = 0"
    using I(1,2,4) O F(2) ret(1) by auto
  obtain p' where p': "rfold (alloc_step (enable_caching p)) ?ret p1 = Inr p'" "static_ok p'" "cache_ok p'"
      "\<And>xs. fq_rep p' xs = fq_rep p1 xs" "usable p' = usable p1" "enable_caching p' = enable_caching p1"
      "\<And>a. ref_cnt (heap p' a) = (if a \<in> set ?ret then 1 else ref_cnt (heap p1 a))"
      "\<And>a. block_hash (heap p' a) = (if enable_caching p \<and> a \<in> set ?ret then None else block_hash (heap p1 a))"
    using alloc_loop [OF pre(1,2) ret(2) pre(3,4), of "enable_caching p"] by blast
  have "set ?xs' = set xs - set ?ret"
    using I(6) by (metis Diff_cancel append_take_drop_id distinct_append Un_Diff Diff_triv Int_commute Un_empty_left set_append)
  then have "set ?xs' = {b \<in> usable p'. ref_cnt (heap p' b) = 0}"
    using I(4) ret(1) p'(5,7) F(2) O(3) by auto
  then have "pool_inv p' ?xs'"
    using p' p1(2) I(5) F(2) O(3) by (simp add: pool_inv_def refs_ok_def)
  moreover have "get_new_blocks n p = Inr (?ret, p')"
    using n I(7) p'(1) F(6) by (simp add: get_new_blocks_alloc p1(1))
  ultimately show ?thesis using p' F O by auto
qed

lemma get_new_blocks_short: "pool_inv p xs \<Longrightarrow> int (length xs) < n \<Longrightarrow> get_new_blocks n p = Inl ValueError"
  using pool_invD(7) [of p xs] by (simp add: get_new_blocks_def get_num_free_blocks_def)

section \<open>Referencing and releasing blocks\<close>

text \<open>The blocks a request may hold: the usable ones and the null block.\<close>

definition holdable :: "block_pool \<Rightarrow> block_ref set" where
  "holdable p = insert (Blk 0) (usable p)"

lemma touch_one_spec:
  assumes inv: "pool_inv p xs" and b: "b \<in> holdable p"
  shows "\<exists>p'. touch_one b p = Inr p' \<and> pool_inv p' (filter (\<lambda>x. x \<noteq> b) xs)
     \<and> usable p' = usable p \<and> cached_block_hash_to_block p' = cached_block_hash_to_block p
     \<and> enable_caching p' = enable_caching p
     \<and> (\<forall>a. ref_cnt (heap p' a) = ref_cnt (heap p a) + (if a = b then 1 else 0))
     \<and> (\<forall>a. block_hash (heap p' a) = block_hash (heap p a))"
proof -
  note I = pool_invD [OF inv]
  show ?thesis
  proof (cases "b \<in> set xs")
    case True
    obtain p1 where p1: "fq_remove b p = Inr p1" "fq_rep p1 (remove1 b xs)" "fq_data p1 = fq_data p"
      using fq.remove_member [OF I(3) True] by blast
    note F = fq_data_fields [OF p1(3)] and O = fq_data_ok [OF p1(3)]
    have rm: "remove1 b xs = filter (\<lambda>x. x \<noteq> b) xs"
      using I(6) by (simp add: distinct_remove1_removeAll removeAll_filter_not_eq eq_commute)
    have "touch_one b p = Inr (incr_ref b p1)"
      using True I(1,4) usable_not_null [of p b] by (simp add: touch_one_def p1(1))
    moreover have "ref_cnt (heap p b) = 0" using True I(4) by auto
    then have "pool_inv (incr_ref b p1) (filter (\<lambda>x. x \<noteq> b) xs)"
      using I p1(2) F(2) O unfolding rm by (auto simp: pool_inv_def refs_ok_def heap_simps)
    ultimately show ?thesis using F O by (simp add: heap_simps)
  next
    case False
    have nz: "\<not> (ref_cnt (heap p b) = 0 \<and> \<not> is_null (heap p b))"
      using False I(1,4) b null_is_null [of p] by (auto simp: holdable_def)
    have "filter (\<lambda>x. x \<noteq> b) xs = xs" using False by (metis (mono_tags, lifting) filter_True)
    moreover have "b \<in> usable p \<Longrightarrow> 0 < ref_cnt (heap p b)"
      using False I(4) I(5) [of b] by (auto simp: less_le)
    then have "pool_inv (incr_ref b p) xs"
      using I False by (auto simp: pool_inv_def refs_ok_def heap_simps)
    ultimately show ?thesis using nz by (auto simp: touch_one_def heap_simps)
  qed
qed

lemma touch_spec:
  assumes "pool_inv p xs" and "set bs \<subseteq> holdable p"
  shows "\<exists>p'. touch bs p = Inr p' \<and> pool_inv p' (filter (\<lambda>x. x \<notin> set bs) xs)
     \<and> usable p' = usable p \<and> cached_block_hash_to_block p' = cached_block_hash_to_block p
     \<and> enable_caching p' = enable_caching p
     \<and> (\<forall>a. ref_cnt (heap p' a) = ref_cnt (heap p a) + int (count_list bs a))
     \<and> (\<forall>a. block_hash (heap p' a) = block_hash (heap p a))"
  using assms unfolding touch_def
proof (induction bs arbitrary: p xs)
  case (Cons b bs)
  then have b: "b \<in> holdable p" by simp
  obtain p1 where p1: "touch_one b p = Inr p1" "pool_inv p1 (filter (\<lambda>x. x \<noteq> b) xs)"
     "usable p1 = usable p" "cached_block_hash_to_block p1 = cached_block_hash_to_block p"
     "enable_caching p1 = enable_caching p"
     "\<And>a. ref_cnt (heap p1 a) = ref_cnt (heap p a) + (if a = b then 1 else 0)"
     "\<And>a. block_hash (heap p1 a) = block_hash (heap p a)"
    using touch_one_spec [OF Cons.prems(1) b] by blast
  have "set bs \<subseteq> holdable p1" using Cons.prems p1(3) by (auto simp: holdable_def)
  then obtain p' where p': "rfold touch_one bs p1 = Inr p'"
     "pool_inv p' (filter (\<lambda>x. x \<notin> set bs) (filter (\<lambda>x. x \<noteq> b) xs))"
     "usable p' = usable p1" "cached_block_hash_to_block p' = cached_block_hash_to_block p1"
     "enable_caching p' = enable_caching p1"
     "\<And>a. ref_cnt (heap p' a) = ref_cnt (heap p1 a) + int (count_list bs a)"
     "\<And>a. block_hash (heap p' a) = block_hash (heap p1 a)"
    using Cons.IH [OF p1(2)] by blast
  then show ?case using p1 by (auto simp: conj_commute)
qed simp

lemma fold_decr_ok:
  "static_ok (fold decr_ref bs p) = static_ok p" "cache_ok (fold decr_ref bs p) = cache_ok p"
  "fq_rep (fold decr_ref bs p) xs = fq_rep p xs" "usable (fold decr_ref bs p) = usable p"
  "ref_cnt (heap (fold decr_ref bs p) a) = ref_cnt (heap p a) - int (count_list bs a)"
  "is_null (heap (fold decr_ref bs p) a) = is_null (heap p a)"
  "block_hash (heap (fold decr_ref bs p) a) = block_hash (heap p a)"
  "cached_block_hash_to_block (fold decr_ref bs p) = cached_block_hash_to_block p"
  "enable_caching (fold decr_ref bs p) = enable_caching p"
  by (induction bs arbitrary: p) (auto simp: heap_simps)

text \<open>
  Releasing a list of blocks. Every usable block of the list is released once and is
  referenced; the null block may occur any number of times.
\<close>

lemma free_blocks_spec:
  assumes inv: "pool_inv p xs" and bs: "set bs \<subseteq> holdable p" "distinct (filter (\<lambda>b. b \<noteq> Blk 0) bs)"
    and refs: "\<And>b. b \<in> set bs \<Longrightarrow> b \<noteq> Blk 0 \<Longrightarrow> 0 < ref_cnt (heap p b)"
  shows "\<exists>p'. free_blocks bs p = Inr p'
     \<and> pool_inv p' (xs @ filter (\<lambda>b. b \<noteq> Blk 0 \<and> ref_cnt (heap p b) = 1) bs)
     \<and> usable p' = usable p \<and> cached_block_hash_to_block p' = cached_block_hash_to_block p
     \<and> enable_caching p' = enable_caching p
     \<and> (\<forall>a \<in> usable p. ref_cnt (heap p' a) = ref_cnt (heap p a) - (if a \<in> set bs then 1 else 0))
     \<and> (\<forall>a. block_hash (heap p' a) = block_hash (heap p a))"
proof -
  note I = pool_invD [OF inv]
  define p1 where "p1 = fold decr_ref bs p"
  have cnt: "count_list bs a = (if a \<in> set bs then 1 else 0)" if "a \<in> usable p" for a
  proof -
    have "a \<noteq> Blk 0" using that usable_real(2) by blast
    then have "count_list bs a = count_list (filter (\<lambda>b. b \<noteq> Blk 0) bs) a" by (induction bs) auto
    also have "\<dots> = (if a \<in> set bs then 1 else 0)"
      using bs(2) \<open>a \<noteq> Blk 0\<close> by (simp add: count_list_distinct)
    finally show ?thesis .
  qed
  have ref1: "ref_cnt (heap p1 a) = ref_cnt (heap p a) - (if a \<in> set bs then 1 else 0)" if "a \<in> usable p" for a
    using cnt [OF that] by (simp add: p1_def fold_decr_ok)
  let ?f = "filter (\<lambda>b. ref_cnt (heap p1 b) = 0 \<and> \<not> is_null (heap p1 b)) bs"
  let ?g = "filter (\<lambda>b. b \<noteq> Blk 0 \<and> ref_cnt (heap p b) = 1) bs"
  have null: "is_null (heap p b) \<longleftrightarrow> b = Blk 0" if "b \<in> holdable p" for b
    using that I(1) null_is_null usable_not_null usable_real(2) by (auto simp: holdable_def)
  have eq: "?f = ?g"
    by (rule filter_cong) (use bs(1) ref1 null usable_real(2) in \<open>auto simp: p1_def fold_decr_ok holdable_def\<close>)
  have "?g = filter (\<lambda>b. ref_cnt (heap p b) = 1) (filter (\<lambda>b. b \<noteq> Blk 0) bs)" by (simp add: conj_commute)
  then have g: "distinct ?g" "set ?g \<subseteq> usable p" "set ?g \<inter> set xs = {}"
    using bs(1) distinct_filter [OF bs(2)] I(4) by (simp, auto simp: holdable_def)
  have rep1: "fq_rep p1 xs" using I(3) by (simp add: p1_def fold_decr_ok)
  have real_g: "list_all real_block ?g" using g(2) usable_real(1) unfolding list_all_iff by blast
  obtain p' where p': "append_n ?g p1 = Inr p'" "fq_rep p' (xs @ ?g)" "fq_data p' = fq_data p1"
    using fq.app_n_last [OF rep1 g(1) _ g(3)] real_g by blast
  note F = fq_data_fields [OF p'(3)] and O = fq_data_ok [OF p'(3)]
  have "set (xs @ ?g) = {b \<in> usable p'. ref_cnt (heap p' b) = 0}"
    using I(4) F(2) O(3) ref1 g(2) refs usable_real(2) by (fastforce simp: p1_def fold_decr_ok)
  moreover have "0 \<le> ref_cnt (heap p' b)" if "b \<in> usable p'" for b
    using that I(5) [of b] refs [of b] ref1 [of b] F(2) O(3) usable_real(2) [of b p]
    by (cases "b \<in> set bs") (auto simp: p1_def fold_decr_ok)
  ultimately have "pool_inv p' (xs @ ?g)"
    using I(1,2) p'(2) O(1,2) by (simp add: pool_inv_def refs_ok_def p1_def fold_decr_ok)
  moreover have "free_blocks bs p = Inr p'"
    using p'(1) eq by (simp add: free_blocks_def p1_def [symmetric])
  ultimately show ?thesis
    using F O ref1 by (auto simp: p1_def fold_decr_ok)
qed

section \<open>Caching full blocks\<close>

definition group_key :: "bytes \<Rightarrow> int \<Rightarrow> bytes" where
  "group_key h g = (case make_block_hash_with_group_id h g of Inr k \<Rightarrow> k | Inl _ \<Rightarrow> [])"

lemma group_key_ok: "0 \<le> g \<Longrightarrow> g < 2 ^ 32 \<Longrightarrow> make_block_hash_with_group_id h g = Inr (group_key h g)"
  using to_bytes4_ok [of g] by (auto simp: group_key_def make_block_hash_with_group_id_def)

lemma group_key_unpack:
  assumes "0 \<le> g" "g < 2 ^ 32"
  shows "get_block_hash (group_key h g) = h \<and> get_group_id (group_key h g) = g"
proof -
  obtain k where k: "to_bytes4 g = Inr k" "length k = 4" "from_bytes k = g" using to_bytes4_ok [OF assms] by blast
  then have "group_key h g = h @ k" by (simp add: group_key_def make_block_hash_with_group_id_def)
  then show ?thesis using k by (simp add: get_block_hash_def get_group_id_def)
qed

lemma group_key_inj:
  assumes "0 \<le> g" "g < 2 ^ 32" "0 \<le> g'" "g' < 2 ^ 32" and "group_key h g = group_key h' g'"
  shows "h = h' \<and> g = g'"
  using group_key_unpack [OF assms(1,2), of h] group_key_unpack [OF assms(3,4), of h'] assms(5) by metis

definition store_hash :: "bytes \<Rightarrow> block_ref \<Rightarrow> block_pool \<Rightarrow> block_pool" where
  "store_hash key b p =
     (let p = upd_block b (\<lambda>k. k\<lparr>block_hash := Some key\<rparr>) p
      in p\<lparr>cached_block_hash_to_block := bm_insert (\<lambda>r. block_id (heap p r)) key b (cached_block_hash_to_block p)\<rparr>)"

lemma store_hash_spec:
  assumes inv: "pool_inv p xs" and b: "b \<in> usable p" and none: "block_hash (heap p b) = None"
  shows "pool_inv (store_hash key b p) xs \<and> usable (store_hash key b p) = usable p
     \<and> num_gpu_blocks (store_hash key b p) = num_gpu_blocks p
     \<and> (\<forall>a. ref_cnt (heap (store_hash key b p) a) = ref_cnt (heap p a))
     \<and> (\<forall>a. is_null (heap (store_hash key b p) a) = is_null (heap p a))
     \<and> (\<forall>a. block_hash (heap (store_hash key b p) a) = (if a = b then Some key else block_hash (heap p a)))"
proof -
  note I = pool_invD [OF inv]
  let ?p' = "store_hash key b p" and ?bid = "\<lambda>r. block_id (heap p r)" and ?m = "cached_block_hash_to_block p"
  have heap': "heap ?p' a = (if a = b then (heap p b)\<lparr>block_hash := Some key\<rparr> else heap p a)" for a
    by (simp add: store_hash_def heap_simps Let_def)
  have same: "num_free_blocks ?p' = num_free_blocks p" "num_gpu_blocks ?p' = num_gpu_blocks p" "null_block ?p' = null_block p"
    by (simp_all add: store_hash_def heap_simps Let_def)
  have bids: "(\<lambda>r. block_id (heap ?p' r)) = ?bid" by (simp add: fun_eq_iff heap')
  have map': "cached_block_hash_to_block ?p' = bm_insert ?bid key b ?m"
    unfolding bids [symmetric] by (simp add: store_hash_def heap_simps Let_def)
  have us: "usable ?p' = usable p" by (simp add: usable_def same)
  have "?bid b \<notin> ?bid ` cached_under ?m key"
  proof
    assume "?bid b \<in> ?bid ` cached_under ?m key"
    then obtain c where c: "c \<in> cached_under ?m key" "?bid b = ?bid c" by blast
    then have "c = b" using usable_bid_inj [OF I(1)] cached_under_usable [OF I(2), of key] b by (auto dest: inj_onD)
    then show False using c(1) I(2) none by (auto simp: cache_ok_def)
  qed
  then have "map_ok ?bid (cached_block_hash_to_block ?p')"
      "cached_under (cached_block_hash_to_block ?p') = (cached_under ?m)(key := insert b (cached_under ?m key))"
    using I(2) bm.ins_ok [of ?bid ?m b key] bm.ins_under [of ?bid ?m b key] by (auto simp: cache_ok_def map')
  then have "cache_ok ?p'"
    using I(2) none b usable_real(2) [OF b] unfolding cache_ok_def bids us by (auto simp: heap')
  moreover have "static_ok ?p'" using I(1) by (auto simp: static_ok_def same heap')
  moreover have "fq_rep ?p' xs = fq_rep p xs" by (rule fq_rep_links) (simp_all add: heap' same)
  then have "refs_ok ?p' xs" using I(3-5) by (auto simp: refs_ok_def us heap')
  ultimately show ?thesis by (auto simp: pool_inv_def us same heap')
qed

text \<open>One iteration of the caching loop: what it does, and when it raises.\<close>

lemma cache_one_null: "is_null (heap p b) \<Longrightarrow> cache_one g hs (i, b) (p, nh) = Inr (p, nh)"
  by (simp add: cache_one_def)

lemma cache_one_store:
  assumes "\<not> is_null (heap p b)" "block_hash (heap p b) = None" "i < length hs" "0 \<le> g" "g < 2 ^ 32"
  shows "\<exists>nh'. cache_one g hs (i, b) (p, nh) = Inr (store_hash (group_key (hs ! i) g) b p, nh')"
  using assms by (auto simp: cache_one_def group_key_ok set_block_hash_def store_hash_def Let_def)

lemma cache_one_inv:
  assumes "pool_inv p xs" and "b \<in> holdable p" and "cache_one g hs (i, b) (p, nh) = Inr (p', nh')"
  shows "pool_inv p' xs \<and> usable p' = usable p \<and> (\<forall>a. ref_cnt (heap p' a) = ref_cnt (heap p a))"
proof (cases "is_null (heap p b)")
  case True
  then show ?thesis using assms by (simp add: cache_one_null)
next
  case False
  have b: "b \<in> usable p" using False assms(1,2) null_is_null pool_invD(1) by (auto simp: holdable_def)
  obtain key where "p' = store_hash key b p" "block_hash (heap p b) = None"
    using assms(3) False
    by (auto simp: cache_one_def rbind_eq_Inr set_block_hash_def store_hash_def Let_def split: if_splits)
  then show ?thesis using store_hash_spec [OF assms(1) b] by simp
qed

lemma cache_loop_total:
  assumes "pool_inv p xs" and "\<forall>(i, b) \<in> set l. b \<in> holdable p \<and> (b \<noteq> Blk 0 \<longrightarrow> block_hash (heap p b) = None \<and> i < length hs)"
    and "distinct (filter (\<lambda>b. b \<noteq> Blk 0) (map snd l))" and g: "0 \<le> g" "g < 2 ^ 32"
  shows "\<exists>p' nh'. rfold (cache_one g hs) l (p, nh) = Inr (p', nh') \<and> pool_inv p' xs \<and> usable p' = usable p
     \<and> (\<forall>a. ref_cnt (heap p' a) = ref_cnt (heap p a))
     \<and> (\<forall>a. a \<notin> snd ` set l \<longrightarrow> block_hash (heap p' a) = block_hash (heap p a))
     \<and> (\<forall>(i, b) \<in> set l. b \<noteq> Blk 0 \<longrightarrow> block_hash (heap p' b) = Some (group_key (hs ! i) g))"
  using assms(1-3)
proof (induction l arbitrary: p nh)
  case (Cons e l)
  obtain i b where e: "e = (i, b)" by (cases e)
  show ?case
  proof (cases "b = Blk 0")
    case True
    have "cache_one g hs (i, b) (p, nh) = Inr (p, nh)"
      using True null_is_null [OF pool_invD(1) [OF Cons.prems(1)]] by (simp add: cache_one_null)
    moreover have "\<forall>(i, c) \<in> set l. c \<in> holdable p \<and> (c \<noteq> Blk 0 \<longrightarrow> block_hash (heap p c) = None \<and> i < length hs)"
        "distinct (filter (\<lambda>b. b \<noteq> Blk 0) (map snd l))"
      using Cons.prems(2,3) True by (auto simp: e)
    from Cons.IH [OF Cons.prems(1) this, of nh] obtain p' nh' where
      "rfold (cache_one g hs) l (p, nh) = Inr (p', nh')" "pool_inv p' xs" "usable p' = usable p"
      "\<forall>a. ref_cnt (heap p' a) = ref_cnt (heap p a)"
      "\<forall>a. a \<notin> snd ` set l \<longrightarrow> block_hash (heap p' a) = block_hash (heap p a)"
      "\<forall>(i, b) \<in> set l. b \<noteq> Blk 0 \<longrightarrow> block_hash (heap p' b) = Some (group_key (hs ! i) g)"
      by blast
    ultimately show ?thesis using True by (intro exI [of _ p'] exI [of _ nh']) (simp add: e)
  next
    case False
    then have b: "b \<in> usable p" "block_hash (heap p b) = None" "i < length hs"
      using Cons.prems(2) by (auto simp: e holdable_def)
    define p1 where "p1 = store_hash (group_key (hs ! i) g) b p"
    obtain nh1 where one: "cache_one g hs (i, b) (p, nh) = Inr (p1, nh1)"
      using cache_one_store [OF _ b(2,3) g, of nh] usable_not_null [OF pool_invD(1) [OF Cons.prems(1)] b(1)]
      by (auto simp: p1_def)
    have p1: "pool_inv p1 xs" "usable p1 = usable p" "\<And>a. ref_cnt (heap p1 a) = ref_cnt (heap p a)"
        "\<And>a. block_hash (heap p1 a) = (if a = b then Some (group_key (hs ! i) g) else block_hash (heap p a))"
      using store_hash_spec [OF Cons.prems(1) b(1,2)] by (auto simp: p1_def)
    have bl: "b \<notin> snd ` set l" and dl: "distinct (filter (\<lambda>b. b \<noteq> Blk 0) (map snd l))"
      using Cons.prems(3) False by (auto simp: e)
    have "\<forall>(i, c) \<in> set l. c \<in> holdable p1 \<and> (c \<noteq> Blk 0 \<longrightarrow> block_hash (heap p1 c) = None \<and> i < length hs)"
    proof (clarify, intro conjI impI)
      fix j c assume m: "(j, c) \<in> set l"
      then have c: "c \<in> holdable p" "c \<noteq> Blk 0 \<Longrightarrow> block_hash (heap p c) = None \<and> j < length hs"
        using Cons.prems(2) by auto
      moreover have "c \<noteq> b" using m bl by force
      ultimately show "c \<in> holdable p1" "c \<noteq> Blk 0 \<Longrightarrow> block_hash (heap p1 c) = None"
        "c \<noteq> Blk 0 \<Longrightarrow> j < length hs"
        using p1(2,4) by (auto simp: holdable_def)
    qed
    from Cons.IH [OF p1(1) this dl, of nh1] obtain p' nh' where
      "rfold (cache_one g hs) l (p1, nh1) = Inr (p', nh')" "pool_inv p' xs" "usable p' = usable p1"
      "\<forall>a. ref_cnt (heap p' a) = ref_cnt (heap p1 a)"
      "\<forall>a. a \<notin> snd ` set l \<longrightarrow> block_hash (heap p' a) = block_hash (heap p1 a)"
      "\<forall>(i, b) \<in> set l. b \<noteq> Blk 0 \<longrightarrow> block_hash (heap p' b) = Some (group_key (hs ! i) g)"
      by blast
    then show ?thesis using one p1 bl by (auto simp: e)
  qed
qed simp

lemma push_event_inv [simp]: "pool_inv (push_event e p) xs = pool_inv p xs" "usable (push_event e p) = usable p"
proof -
  show "usable (push_event e p) = usable p" by (simp add: usable_def heap_simps)
  moreover have "fq_rep (push_event e p) xs = fq_rep p xs" by (rule fq_rep_links) (simp_all add: heap_simps)
  ultimately show "pool_inv (push_event e p) xs = pool_inv p xs"
    by (simp add: pool_inv_def static_ok_def refs_ok_def cache_ok_def heap_simps)
qed

lemma cache_loop_inv:
  assumes "rfold (cache_one g hs) l (p, nh) = Inr (p', nh')" and "pool_inv p xs" and "snd ` set l \<subseteq> holdable p"
  shows "pool_inv p' xs \<and> usable p' = usable p \<and> (\<forall>a. ref_cnt (heap p' a) = ref_cnt (heap p a))"
  using assms
proof (induction l arbitrary: p nh)
  case (Cons e l)
  obtain i b where e: "e = (i, b)" by (cases e)
  obtain p1 nh1 where one: "cache_one g hs (i, b) (p, nh) = Inr (p1, nh1)"
    and rest: "rfold (cache_one g hs) l (p1, nh1) = Inr (p', nh')"
    using Cons.prems(1) by (auto simp: e rbind_eq_Inr)
  have "pool_inv p1 xs \<and> usable p1 = usable p \<and> (\<forall>a. ref_cnt (heap p1 a) = ref_cnt (heap p a))"
    using cache_one_inv [OF Cons.prems(2) _ one] Cons.prems(3) by (simp add: e)
  with Cons.IH [OF rest] Cons.prems(3) show ?case by (simp add: e holdable_def)
qed simp

lemma cache_full_blocks_inv:
  assumes "cache_full_blocks env r blocks nc nf bs g p = Inr (r', p')" and "pool_inv p xs" and "set blocks \<subseteq> holdable p"
  shows "pool_inv p' xs \<and> usable p' = usable p \<and> (\<forall>a. ref_cnt (heap p' a) = ref_cnt (heap p a))"
proof (cases "nf \<le> nc")
  case True
  then show ?thesis using assms by (simp add: cache_full_blocks_def)
next
  case False
  let ?l = "enumerate 0 (pyslice blocks nc nf)"
  obtain hs p1 nh where loop: "rfold (cache_one g hs) ?l (p, []) = Inr (p1, nh)"
    and p': "p' = p1 \<or> (\<exists>e. p' = push_event e p1)"
    using assms(1) False by (auto simp: cache_full_blocks_def rbind_eq_Inr Let_def split: if_splits)
  have "snd ` set ?l = set (pyslice blocks nc nf)" by (metis list.set_map map_snd_enumerate)
  then have "snd ` set ?l \<subseteq> holdable p" using assms(3) set_pyslice [of blocks nc nf] by blast
  from cache_loop_inv [OF loop assms(2) this] p' show ?thesis by (auto simp: heap_simps)
qed

text \<open>The hashes of blocks whose size is a multiple of the hash block size.\<close>

lemma hashes_view:
  assumes "0 < hash_size" and "hash_size dvd bs" and "0 < bs"
  shows "\<exists>view hs'. block_hashes_view hs hash_size bs = Inr view \<and> (\<forall>n. view_from view n = Inr (drop n hs'))
     \<and> length hs' = length hs div (bs div hash_size) \<and> (\<forall>i < length hs'. view_at view i = Inr (hs' ! i)) \<and> (bs = hash_size \<longrightarrow> hs' = hs)"
proof (cases "bs = hash_size")
  case True
  then show ?thesis using assms(1) by (auto simp: block_hashes_view_def py_index_def)
next
  case False
  define l where "l = \<lparr>bhl_block_hashes = hs, scale_factor = bs div hash_size\<rparr>"
  have sc: "0 < scale_factor l" using assms by (auto simp: l_def div_greater_zero_iff dvd_imp_le)
  let ?n = "length hs div scale_factor l" and ?f = "\<lambda>i. concat (pyslice hs (i * scale_factor l) (Suc i * scale_factor l))"
  have v: "block_hashes_view hs hash_size bs = Inr (Hash_view l)"
    using False assms by (simp add: block_hashes_view_def BlockHashListWithBlockSize_def l_def dvd_eq_mod_eq_0)
  have at: "bhl_get_value_at l i = Inr (?f i)" if "i < ?n" for i
    using bhl_get_value_at_spec [OF sc, of i] that by (simp add: l_def)
  have vals: "bhl_values l [min n ?n..<?n] = Inr (map ?f [min n ?n..<?n])" for n using bhl_values_spec [OF sc, of "[min n ?n..<?n]"] by (simp add: l_def)
  have cut: "map ?f [min n ?n..<?n] = drop n (map ?f [0..<?n])" for n by (simp add: drop_map min_def)
  have hs: "bhl_block_hashes l = hs" by (simp add: l_def)
  have "view_from (Hash_view l) n = bhl_values l [min n ?n..<?n]" for n using sc by (simp add: bhl_slice_def bhl_len_def hs)
  then have "view_from (Hash_view l) n = Inr (drop n (map ?f [0..<?n]))" for n by (simp only: vals cut)
  moreover have "\<forall>i < length (map ?f [0..<?n]). view_at (Hash_view l) i = Inr (map ?f [0..<?n] ! i)" by (simp add: at)
  moreover have "length (map ?f [0..<?n]) = length hs div (bs div hash_size)" by (simp add: l_def)
  ultimately show ?thesis using v False by blast
qed

lemma cache_one_fixed:
  assumes "cache_one g hs x (p, nh) = Inr (p', nh')"
  shows "enable_kv_cache_events p' = enable_kv_cache_events p" "hash_block_size p' = hash_block_size p" "is_null (heap p' b) = is_null (heap p b)"
  using assms by (cases x; auto simp: cache_one_def rbind_eq_Inr set_block_hash_def heap_simps split: if_splits)+

lemma cache_loop_fixed:
  assumes "rfold (cache_one g hs) l (p, nh) = Inr (p', nh')"
  shows "enable_kv_cache_events p' = enable_kv_cache_events p \<and> hash_block_size p' = hash_block_size p \<and> (\<forall>b. is_null (heap p' b) = is_null (heap p b))"
  using assms
proof (induction l arbitrary: p nh)
  case (Cons x l)
  then obtain p1 nh1 where "cache_one g hs x (p, nh) = Inr (p1, nh1)" "rfold (cache_one g hs) l (p1, nh1) = Inr (p', nh')"
    by (auto simp: rbind_eq_Inr)
  then show ?case using Cons.IH cache_one_fixed by metis
qed simp

text \<open>
  When the full blocks are fresh, there are hashes for them and, if events are published, their extra keys can be
  computed, caching succeeds.
\<close>

lemma cache_full_blocks_stores:
  assumes inv: "pool_inv p xs" and lt: "nc < nf" "nf \<le> length blocks" "nf \<le> length (block_hashes r)"
    and view: "block_hashes_view (block_hashes r) (hash_block_size p) bs = Inr view" "\<forall>n. view_from view n = Inr (drop n hs)"
      "\<forall>i < length hs. view_at view i = Inr (hs ! i)" "nf \<le> length hs"
    and ev: "enable_kv_cache_events p \<longrightarrow> (\<exists>x. stored_extra_keys env bs (\<lambda>b. is_null (heap p b)) (enumerate nc (pyslice blocks nc nf)) 0 r = Inr x)"
    and g: "0 \<le> g" "g < 2 ^ 32"
    and new: "\<forall>b \<in> set (pyslice blocks nc nf). b \<in> holdable p \<and> (b \<noteq> Blk 0 \<longrightarrow> block_hash (heap p b) = None)"
    and dist: "distinct (filter (\<lambda>b. b \<noteq> Blk 0) (pyslice blocks nc nf))"
  shows "\<exists>r' p'. cache_full_blocks env r blocks nc nf bs g p = Inr (r', p') \<and> pool_inv p' xs \<and> usable p' = usable p
     \<and> (\<not> enable_kv_cache_events p \<longrightarrow> r' = r \<and> \<not> enable_kv_cache_events p') \<and> hash_block_size p' = hash_block_size p
     \<and> (\<forall>a. ref_cnt (heap p' a) = ref_cnt (heap p a))
     \<and> (\<forall>a. a \<notin> set (pyslice blocks nc nf) \<longrightarrow> block_hash (heap p' a) = block_hash (heap p a))
     \<and> (\<forall>i. nc \<le> i \<and> i < nf \<and> blocks ! i \<noteq> Blk 0 \<longrightarrow> block_hash (heap p' (blocks ! i)) = Some (group_key (hs ! i) g))"
proof -
  let ?new = "pyslice blocks nc nf" and ?hs = "drop nc hs"
  let ?l = "enumerate 0 ?new"
  have len: "length ?new = nf - nc" using lt by simp
  have sl: "snd ` set ?l = set ?new" by (metis list.set_map map_snd_enumerate)
  have pre: "\<forall>(i, b) \<in> set ?l. b \<in> holdable p \<and> (b \<noteq> Blk 0 \<longrightarrow> block_hash (heap p b) = None \<and> i < length ?hs)"
    using new len lt(1) view(4) by (auto simp: in_set_enumerate_eq)
  have "distinct (filter (\<lambda>b. b \<noteq> Blk 0) (map snd ?l))" using dist by simp
  from cache_loop_total [OF inv pre this g, of "[]"] obtain q nh where
    loop: "rfold (cache_one g ?hs) ?l (p, []) = Inr (q, nh)" and q: "pool_inv q xs" "usable q = usable p"
      "\<forall>a. ref_cnt (heap q a) = ref_cnt (heap p a)"
      "\<forall>a. a \<notin> snd ` set ?l \<longrightarrow> block_hash (heap q a) = block_hash (heap p a)"
    and keys: "\<forall>(i, b) \<in> set ?l. b \<noteq> Blk 0 \<longrightarrow> block_hash (heap q b) = Some (group_key (?hs ! i) g)"
    by blast
  have at: "block_hash (heap q (blocks ! i)) = Some (group_key (hs ! i) g)" if "nc \<le> i" "i < nf" "blocks ! i \<noteq> Blk 0" for i
  proof -
    have "(i - nc, blocks ! i) \<in> set ?l" using that len lt by (simp add: in_set_enumerate_eq pyslice_def)
    then show ?thesis using keys that lt view(4) by fastforce
  qed
  note same = cache_loop_fixed [OF loop]
  have vn: "view_from view nc = Inr ?hs" using view(2) by blast
  have "\<exists>r' p'. cache_full_blocks env r blocks nc nf bs g p = Inr (r', p') \<and> (p' = q \<or> (\<exists>e. p' = push_event e q)) \<and> (\<not> enable_kv_cache_events p \<longrightarrow> r' = r \<and> p' = q)"
  proof (cases "enable_kv_cache_events p")
    case True
    then obtain ks r' where x: "stored_extra_keys env bs (\<lambda>b. is_null (heap p b)) (enumerate nc ?new) 0 r = Inr (ks, r')" using ev by auto
    have "nc = 0 \<or> (\<exists>h. view_at view (nc - 1) = Inr h)" using view(3,4) lt(1) by (cases nc) auto
    then show ?thesis using x True same lt view(1) vn loop by (auto simp: cache_full_blocks_def)
  next
    case False
    then show ?thesis using same lt view(1) vn loop by (simp add: cache_full_blocks_def)
  qed
  then show ?thesis using q sl at same by (fastforce simp: heap_simps)
qed

lemma cache_full_blocks_total:
  assumes inv: "pool_inv p xs" and ev: "\<not> enable_kv_cache_events p" and lt: "nc < nf" "nf \<le> length blocks" "nf \<le> length (block_hashes r)"
    and bs: "bs = hash_block_size p" and g: "0 \<le> g" "g < 2 ^ 32"
    and new: "\<forall>b \<in> set (pyslice blocks nc nf). b \<in> holdable p \<and> (b \<noteq> Blk 0 \<longrightarrow> block_hash (heap p b) = None)"
    and dist: "distinct (filter (\<lambda>b. b \<noteq> Blk 0) (pyslice blocks nc nf))"
  shows "\<exists>p'. cache_full_blocks env r blocks nc nf bs g p = Inr (r, p') \<and> pool_inv p' xs \<and> usable p' = usable p
     \<and> \<not> enable_kv_cache_events p' \<and> hash_block_size p' = hash_block_size p
     \<and> (\<forall>a. ref_cnt (heap p' a) = ref_cnt (heap p a))
     \<and> (\<forall>a. a \<notin> set (pyslice blocks nc nf) \<longrightarrow> block_hash (heap p' a) = block_hash (heap p a))
     \<and> (\<forall>i. nc \<le> i \<and> i < nf \<and> blocks ! i \<noteq> Blk 0 \<longrightarrow>
          block_hash (heap p' (blocks ! i)) = Some (group_key (block_hashes r ! i) g))"
proof -
  have "block_hashes_view (block_hashes r) (hash_block_size p) bs = Inr (Hash_list (block_hashes r))"
    "\<forall>n. view_from (Hash_list (block_hashes r)) n = Inr (drop n (block_hashes r))"
    "\<forall>i < length (block_hashes r). view_at (Hash_list (block_hashes r)) i = Inr (block_hashes r ! i)"
    using bs by (simp_all add: block_hashes_view_def py_index_def)
  from cache_full_blocks_stores [OF inv lt this lt(3) _ g new dist, of env] ev show ?thesis by auto
qed

section \<open>Eviction by id, reset, construction, lookup\<close>

lemma evict_blocks_spec:
  assumes "pool_inv p xs" and "\<forall>i \<in> set ids. 0 \<le> i \<and> i < int (num_gpu_blocks p)"
  shows "\<exists>p'. evict_blocks ids p = Inr p' \<and> pool_inv p' xs \<and> num_gpu_blocks p' = num_gpu_blocks p
     \<and> (\<forall>a. ref_cnt (heap p' a) = ref_cnt (heap p a))
     \<and> (\<forall>a. block_hash (heap p' a) = (if \<exists>i \<in> set ids. a = Blk (nat i) then None else block_hash (heap p a)))"
  using assms unfolding evict_blocks_def
proof (induction ids arbitrary: p)
  case (Cons i ids)
  note I = pool_invD [OF Cons.prems(1)]
  define b where "b = Blk (nat i)"
  define p1 where "p1 = snd (maybe_evict_cached_block b p)"
  have i: "0 \<le> i" "i < int (num_gpu_blocks p)" using Cons.prems(2) by auto
  have idx: "py_index (pool_blocks (num_gpu_blocks p)) i = Inr b"
    using i by (simp add: py_index_def pool_blocks_def b_def nat_less_iff)
  have p1: "pool_inv p1 xs \<and> num_gpu_blocks p1 = num_gpu_blocks p \<and> (\<forall>a. ref_cnt (heap p1 a) = ref_cnt (heap p a))
     \<and> (\<forall>a. block_hash (heap p1 a) = (if a = b then None else block_hash (heap p a)))"
  proof (cases "i = 0")
    case True
    then have "block_hash (heap p b) = None" using I(2) by (simp add: cache_ok_def b_def)
    then show ?thesis using Cons.prems(1) by (simp add: p1_def maybe_evict_cached_block_def)
  next
    case False
    have b: "b \<in> usable p" using False i by (auto simp: usable_def b_def nat_less_iff)
    have E: "static_ok p1" "cache_ok p1" "heap p1 a = (if a = b then (heap p b)\<lparr>block_hash := None\<rparr> else heap p a)"
        "num_free_blocks p1 = num_free_blocks p" "num_gpu_blocks p1 = num_gpu_blocks p" for a
      using maybe_evict_spec [OF I(1,2) b] by (auto simp: p1_def)
    have "fq_rep p1 xs = fq_rep p xs" by (rule fq_rep_links) (simp_all add: E)
    then show ?thesis using I E by (auto simp: pool_inv_def refs_ok_def usable_def)
  qed
  then obtain p' where p': "rfold (\<lambda>i p. rbind (ensure (i < int (num_gpu_blocks p)) AssertionError) (\<lambda>_.
        rbind (py_index (pool_blocks (num_gpu_blocks p)) i) (\<lambda>b. Inr (snd (maybe_evict_cached_block b p))))) ids p1 = Inr p'"
     "pool_inv p' xs" "num_gpu_blocks p' = num_gpu_blocks p1" "\<forall>a. ref_cnt (heap p' a) = ref_cnt (heap p1 a)"
     "\<forall>a. block_hash (heap p' a) = (if \<exists>i \<in> set ids. a = Blk (nat i) then None else block_hash (heap p1 a))"
    using Cons.IH [of p1] Cons.prems(2) by auto
  then show ?case using p1 i idx by (intro exI [of _ p']) (auto simp: p1_def b_def)
qed simp

lemma fold_reset_hash:
  "heap (fold reset_hash bs p) a = (if a \<in> set bs then (heap p a)\<lparr>block_hash := None\<rparr> else heap p a)"
  "num_free_blocks (fold reset_hash bs p) = num_free_blocks p"
  "num_gpu_blocks (fold reset_hash bs p) = num_gpu_blocks p" "null_block (fold reset_hash bs p) = null_block p"
  "cached_block_hash_to_block (fold reset_hash bs p) = cached_block_hash_to_block p"
  by (induction bs arbitrary: p) (auto simp: reset_hash_def heap_simps)

lemma reset_prefix_cache_spec:
  assumes inv: "pool_inv p xs"
  shows "fst (reset_prefix_cache p) = (\<forall>b \<in> usable p. ref_cnt (heap p b) = 0)"
    and "pool_inv (snd (reset_prefix_cache p)) xs \<and> usable (snd (reset_prefix_cache p)) = usable p"
    and "fst (reset_prefix_cache p) \<Longrightarrow> cached_block_hash_to_block (snd (reset_prefix_cache p)) = Map.empty"
    and "\<not> fst (reset_prefix_cache p) \<Longrightarrow> snd (reset_prefix_cache p) = p"
    and "ref_cnt (heap (snd (reset_prefix_cache p)) a) = ref_cnt (heap p a)"
proof -
  note I = pool_invD [OF inv]
  let ?n = "num_gpu_blocks p"
  have n: "0 < ?n" using I(1) by (simp add: static_ok_def)
  have cu: "card (usable p) = ?n - 1" by (simp add: usable_def card_image inj_on_def)
  have "length xs = card (set xs)" using I(6) by (simp add: distinct_card)
  then have iff: "int ?n - num_free_blocks p = 1 \<longleftrightarrow> card (set xs) = card (usable p)" using n I(7) cu by auto
  have sub: "set xs \<subseteq> usable p" using I(4) by auto
  have fin: "finite (usable p)" by (simp add: usable_def)
  have "card (set xs) = card (usable p) \<longleftrightarrow> set xs = usable p"
    using card_subset_eq [OF fin sub] by auto
  also have "\<dots> \<longleftrightarrow> (\<forall>b \<in> usable p. ref_cnt (heap p b) = 0)" using I(4) by auto
  finally have all: "int ?n - num_free_blocks p = 1 \<longleftrightarrow> (\<forall>b \<in> usable p. ref_cnt (heap p b) = 0)" using iff by simp
  then show "fst (reset_prefix_cache p) = (\<forall>b \<in> usable p. ref_cnt (heap p b) = 0)"
    by (simp add: reset_prefix_cache_def get_num_free_blocks_def Let_def)
  define q where "q = fold reset_hash (pool_blocks ?n) (p\<lparr>cached_block_hash_to_block := Map.empty\<rparr>)"
  have hq: "heap q a = (if a \<in> set (pool_blocks ?n) then (heap p a)\<lparr>block_hash := None\<rparr> else heap p a)" for a
    by (simp add: q_def fold_reset_hash)
  have same: "num_gpu_blocks q = ?n" "null_block q = null_block p" "cached_block_hash_to_block q = Map.empty"
      "num_free_blocks q = num_free_blocks p" by (simp_all add: q_def fold_reset_hash)
  have us: "usable q = usable p" "usable p \<subseteq> set (pool_blocks ?n)" by (auto simp: usable_def same pool_blocks_def)
  have "fq_rep q xs = fq_rep p xs" by (rule fq_rep_links) (simp_all add: hq same)
  then have "refs_ok q xs" using I by (auto simp: refs_ok_def us hq)
  moreover have "static_ok q" using I(1) by (auto simp: static_ok_def same hq)
  moreover have "cache_ok q"
    using us n by (auto simp: cache_ok_def hq same map_ok_def cached_under_def pool_blocks_def)
  ultimately have "pool_inv q xs" by (simp add: pool_inv_def)
  moreover have res: "reset_prefix_cache p =
      (if int ?n - num_free_blocks p \<noteq> 1 then (False, p) else (True, push_event AllBlocksCleared q))"
    by (simp add: reset_prefix_cache_def get_num_free_blocks_def q_def Let_def)
  ultimately show "pool_inv (snd (reset_prefix_cache p)) xs \<and> usable (snd (reset_prefix_cache p)) = usable p"
    using inv us by simp
  show "fst (reset_prefix_cache p) \<Longrightarrow> cached_block_hash_to_block (snd (reset_prefix_cache p)) = Map.empty"
    "\<not> fst (reset_prefix_cache p) \<Longrightarrow> snd (reset_prefix_cache p) = p"
    "ref_cnt (heap (snd (reset_prefix_cache p)) a) = ref_cnt (heap p a)"
    by (auto simp: res same heap_simps hq split: if_splits)
qed

lemma free_queue_init_data:
  "num_gpu_blocks (free_queue_init bs (p :: block_pool)) = num_gpu_blocks p"
  "cached_block_hash_to_block (free_queue_init bs p) = cached_block_hash_to_block p"
  "enable_caching (free_queue_init bs p) = enable_caching p"
  "enable_kv_cache_events (free_queue_init bs p) = enable_kv_cache_events p"
  "hash_block_size (free_queue_init bs p) = hash_block_size p"
  "erase_links (heap (free_queue_init bs p) (Blk i)) = erase_links (heap p (Blk i))"
proof -
  have more: "free_queue.more (link_consecutive cs q) = free_queue.more q"
      "erase_links (heap (link_consecutive cs q) a) = erase_links (heap q a)" for cs and q :: block_pool and a
  proof -
    have "fq_data (fold (link_step cs) is q) = fq_data q" for "is"
      by (induction "is" arbitrary: q) (simp_all add: link_step_links)
    then have "fq_data (link_consecutive cs q) = fq_data q" by (simp add: link_consecutive_fold)
    then show "free_queue.more (link_consecutive cs q) = free_queue.more q"
      "erase_links (heap (link_consecutive cs q) a) = erase_links (heap q a)" by (auto simp: fq_data_def fun_eq_iff)
  qed
  have sel: "num_gpu_blocks q = num_gpu_blocks q'" "cached_block_hash_to_block q = cached_block_hash_to_block q'"
      "enable_caching q = enable_caching q'" "enable_kv_cache_events q = enable_kv_cache_events q'"
      "hash_block_size q = hash_block_size q'"
    if "free_queue.more q = free_queue.more q'" for q q' :: block_pool
    using that by (cases q, cases q', simp)+
  have "free_queue.more (free_queue_init bs p) = free_queue.more p"
    by (simp add: free_queue_init_def set_prev_def set_next_def Let_def more)
  then show "num_gpu_blocks (free_queue_init bs p) = num_gpu_blocks p"
    "cached_block_hash_to_block (free_queue_init bs p) = cached_block_hash_to_block p"
    "enable_caching (free_queue_init bs p) = enable_caching p"
    "enable_kv_cache_events (free_queue_init bs p) = enable_kv_cache_events p"
    "hash_block_size (free_queue_init bs p) = hash_block_size p" by (rule sel)+
  show "erase_links (heap (free_queue_init bs p) (Blk i)) = erase_links (heap p (Blk i))"
    by (simp add: free_queue_init_def set_prev_def set_next_def Let_def more)
qed

lemma BlockPool_spec:
  assumes "0 < n"
  shows "\<exists>p. BlockPool n c hbs ev ih = Inr p \<and> pool_inv p (map Blk [1..<n]) \<and> usable p = Blk ` {1..<n}
     \<and> num_gpu_blocks p = n \<and> cached_block_hash_to_block p = Map.empty \<and> (\<forall>i. ref_cnt (heap p (Blk i)) = 0)
     \<and> enable_caching p = c \<and> enable_kv_cache_events p = ev \<and> hash_block_size p = hbs
     \<and> (\<forall>i. block_hash (heap p (Blk i)) = None)"
proof -
  define p0 :: block_pool where "p0 = \<lparr>heap = (\<lambda>r. KVCacheBlock (case r of Blk i \<Rightarrow> int i | _ \<Rightarrow> -1)), num_free_blocks = 0,
                num_gpu_blocks = n, enable_caching = c, hash_block_size = hbs,
                cached_block_hash_to_block = Map.empty, null_block = Blk 0,
                enable_kv_cache_events = ev, use_int_block_hashes = ih, kv_event_queue = []\<rparr>"
  define p1 where "p1 = free_queue_init (pool_blocks n) p0"
  have "fq_rep p1 (pool_blocks n)" unfolding p1_def
    by (rule free_queue_init_rep) (auto simp: pool_blocks_def distinct_map inj_on_def real_blocks_def unlinked_def p0_def KVCacheBlock_def)
  moreover have "pool_blocks n = Blk 0 # map Blk [1..<n]" using assms by (simp add: pool_blocks_def upt_conv_Cons)
  ultimately obtain p2 where p2: "popleft p1 = Inr (Blk 0, p2)" "fq_rep p2 (map Blk [1..<n])" "fq_data p2 = fq_data p1"
    using fq.pop_first [of p1 "Blk 0" "map Blk [1..<n]"] by auto
  note F = fq_data_fields [OF p2(3)]
  have i1: "block_id (heap p1 (Blk i)) = int i" "ref_cnt (heap p1 (Blk i)) = 0" "block_hash (heap p1 (Blk i)) = None"
      "\<not> is_null (heap p1 (Blk i))" for i
    using erase_links_eqD [OF free_queue_init_data(6) [of "pool_blocks n" p0 i]] by (simp_all add: p1_def p0_def KVCacheBlock_def)
  have n1: "num_gpu_blocks p1 = n" "cached_block_hash_to_block p1 = Map.empty" "enable_caching p1 = c"
      "enable_kv_cache_events p1 = ev" "hash_block_size p1 = hbs"
    by (simp_all add: p1_def free_queue_init_data) (simp_all add: p0_def)
  define p where "p = upd_block (Blk 0) (\<lambda>k. k\<lparr>is_null := True\<rparr>) (p2\<lparr>null_block := Blk 0\<rparr>)"
  have hp: "heap p a = (if a = Blk 0 then (heap p2 a)\<lparr>is_null := True\<rparr> else heap p2 a)" for a
    by (simp add: p_def heap_simps)
  have np: "num_gpu_blocks p = n" "null_block p = Blk 0" "cached_block_hash_to_block p = Map.empty"
      "enable_caching p = c" "enable_kv_cache_events p = ev" "hash_block_size p = hbs"
    using F n1 by (simp_all add: p_def heap_simps)
  have "fq_rep p (map Blk [1..<n])"
    using p2(2) by (subst fq_rep_links [of p p2]) (simp_all add: hp p_def heap_simps)
  moreover have us: "usable p = Blk ` {1..<n}" by (simp add: usable_def np)
  moreover have ref: "ref_cnt (heap p (Blk i)) = 0" for i using F(2) i1 by (simp add: hp)
  ultimately have "refs_ok p (map Blk [1..<n])" by (auto simp: refs_ok_def)
  moreover have "static_ok p" using assms F(1,4) i1 by (simp add: static_ok_def np hp)
  moreover have "cache_ok p" using F(3) i1 us
    by (auto simp: cache_ok_def np map_ok_def cached_under_def hp)
  moreover have "BlockPool n c hbs ev ih = Inr p"
    using assms by (simp add: BlockPool_def p0_def [symmetric] p1_def [symmetric] p2(1) p_def Let_def)
  moreover have "block_hash (heap p (Blk i)) = None" for i using F(3) i1 by (simp add: hp)
  ultimately show ?thesis using us np ref by (auto simp: pool_inv_def)
qed

lemma get_one_block_pool:
  assumes "pool_inv p xs"
  shows "\<exists>o'. get_one_block key (cached_block_hash_to_block p) = Inr o'
     \<and> (case o' of None \<Rightarrow> \<forall>b \<in> usable p. block_hash (heap p b) \<noteq> Some key
        | Some b \<Rightarrow> b \<in> usable p \<and> block_hash (heap p b) = Some key)"
proof -
  let ?m = "cached_block_hash_to_block p"
  have ca: "cache_ok p" using pool_invD(2) [OF assms] .
  then have ok: "map_ok (\<lambda>b. block_id (heap p b)) ?m" by (simp add: cache_ok_def)
  show ?thesis
  proof (cases "cached_under ?m key = {}")
    case True
    then show ?thesis using bm.get_none [OF ok True] ca by (auto simp: cache_ok_def)
  next
    case False
    then show ?thesis using bm.get_some [OF ok False] ca by (auto simp: cache_ok_def)
  qed
qed

lemma get_cached_block_spec:
  assumes "pool_inv p xs" and "\<forall>g \<in> set gs. 0 \<le> g \<and> g < 2 ^ 32"
  shows "\<exists>o'. get_cached_block p h gs = Inr o'
     \<and> (case o' of None \<Rightarrow> \<exists>g \<in> set gs. \<forall>b \<in> usable p. block_hash (heap p b) \<noteq> Some (group_key h g)
        | Some bs \<Rightarrow> list_all2 (\<lambda>b g. b \<in> usable p \<and> block_hash (heap p b) = Some (group_key h g)) bs gs)"
  using assms(2)
proof (induction gs)
  case (Cons g gs)
  then obtain o1 where o1: "get_cached_block p h gs = Inr o1"
    "case o1 of None \<Rightarrow> \<exists>g \<in> set gs. \<forall>b \<in> usable p. block_hash (heap p b) \<noteq> Some (group_key h g)
        | Some bs \<Rightarrow> list_all2 (\<lambda>b g. b \<in> usable p \<and> block_hash (heap p b) = Some (group_key h g)) bs gs" by auto
  have mk: "make_block_hash_with_group_id h g = Inr (group_key h g)" using Cons.prems group_key_ok by simp
  obtain o2 where o2: "get_one_block (group_key h g) (cached_block_hash_to_block p) = Inr o2"
     "case o2 of None \<Rightarrow> \<forall>b \<in> usable p. block_hash (heap p b) \<noteq> Some (group_key h g)
        | Some b \<Rightarrow> b \<in> usable p \<and> block_hash (heap p b) = Some (group_key h g)"
    using get_one_block_pool [OF assms(1)] by blast
  show ?case using o1 o2 mk by (cases o1; cases o2) auto
qed simp

section \<open>The pool as a state machine\<close>

text \<open>
  The calls the cache managers make, with the rules they observe: blocks passed to the pool
  are blocks of the pool, a list of blocks to release names each usable block once and only
  referenced blocks, and evicted ids are ids of the pool.
\<close>

inductive pool_step :: "hash_env \<Rightarrow> block_pool \<Rightarrow> block_pool \<Rightarrow> bool" for env where
  Alloc: "0 \<le> n \<Longrightarrow> get_new_blocks n p = Inr (bs, p') \<Longrightarrow> pool_step env p p'"
| Touch: "set bs \<subseteq> holdable p \<Longrightarrow> touch bs p = Inr p' \<Longrightarrow> pool_step env p p'"
| Free: "set bs \<subseteq> holdable p \<Longrightarrow> distinct (filter (\<lambda>b. b \<noteq> Blk 0) bs) \<Longrightarrow>
    (\<And>b. b \<in> set bs \<Longrightarrow> b \<noteq> Blk 0 \<Longrightarrow> 0 < ref_cnt (heap p b)) \<Longrightarrow> free_blocks bs p = Inr p' \<Longrightarrow> pool_step env p p'"
| Cache: "set blocks \<subseteq> holdable p \<Longrightarrow> cache_full_blocks env r blocks nc nf bs g p = Inr (r', p') \<Longrightarrow> pool_step env p p'"
| Evict: "\<forall>i \<in> set ids. 0 \<le> i \<and> i < int (num_gpu_blocks p) \<Longrightarrow> evict_blocks ids p = Inr p' \<Longrightarrow> pool_step env p p'"
| Reset: "pool_step env p (snd (reset_prefix_cache p))"
| Events: "pool_step env p (snd (take_events p))"

inductive pool_reachable :: "hash_env \<Rightarrow> block_pool \<Rightarrow> bool" for env where
  Init: "BlockPool n c hbs ev ih = Inr p \<Longrightarrow> pool_reachable env p"
| Step: "pool_reachable env p \<Longrightarrow> pool_step env p p' \<Longrightarrow> pool_reachable env p'"

inductive_cases pool_stepE: "pool_step env p p'"

lemma pool_step_inv:
  assumes "pool_step env p p'" and inv: "pool_inv p xs"
  shows "\<exists>xs'. pool_inv p' xs'"
  using assms(1)
proof cases
  case (Alloc n bs)
  then show ?thesis using inv get_new_blocks_spec [OF inv Alloc(1)] get_new_blocks_short [OF inv, of n]
    by (cases "n \<le> int (length xs)") auto
next
  case (Touch bs)
  then show ?thesis using touch_spec [OF inv Touch(1)] by auto
next
  case (Free bs)
  then show ?thesis using free_blocks_spec [OF inv Free(1,2,3)] by auto
next
  case (Cache blocks r nc nf bs g r')
  then show ?thesis using cache_full_blocks_inv [OF Cache(2) inv] by auto
next
  case (Evict ids)
  then show ?thesis using evict_blocks_spec [OF inv Evict(1)] by auto
next
  case Reset
  then show ?thesis using reset_prefix_cache_spec(2) [OF inv] by auto
next
  case Events
  have "fq_rep (p\<lparr>kv_event_queue := []\<rparr>) xs = fq_rep p xs" by (rule fq_rep_links) simp_all
  then have "pool_inv (snd (take_events p)) xs"
    using inv by (simp add: take_events_def pool_inv_def static_ok_def refs_ok_def cache_ok_def usable_def)
  then show ?thesis using Events by blast
qed

lemma pool_reachable_inv: "pool_reachable env p \<Longrightarrow> \<exists>xs. pool_inv p xs"
proof (induction rule: pool_reachable.induct)
  case (Init n c hbs ev ih p)
  then have "0 < n" by (auto simp: BlockPool_def rbind_eq_Inr)
  then show ?case using BlockPool_spec [of n c hbs ev ih] Init by auto
next
  case (Step p p')
  then show ?case using pool_step_inv by blast
qed

text \<open>
  C2. Every reachable state of the block pool is consistent: \<^verbatim>\<open>get_all_free_blocks\<close>
  returns, without repetition, exactly the non-null blocks whose reference count is zero,
  their number is \<^verbatim>\<open>get_num_free_blocks\<close>, no reference count is negative, the null
  block is block 0 and is never handed out or cached, and a block is found in the hash map
  under a key exactly if the key is stored in the block.
\<close>

theorem pool_reachable_consistent:
  assumes "pool_reachable env p"
  shows "\<exists>xs. get_all_free_blocks p = Some (Inr xs) \<and> distinct xs
     \<and> set xs = {b \<in> usable p. ref_cnt (heap p b) = 0} \<and> get_num_free_blocks p = int (length xs)
     \<and> (\<forall>b \<in> usable p. 0 \<le> ref_cnt (heap p b))
     \<and> null_block p = Blk 0 \<and> block_hash (heap p (Blk 0)) = None
     \<and> (\<forall>key b. b \<in> cached_under (cached_block_hash_to_block p) key
          \<longleftrightarrow> b \<in> usable p \<and> block_hash (heap p b) = Some key)"
proof -
  obtain xs where inv: "pool_inv p xs" using pool_reachable_inv [OF assms] by blast
  note I = pool_invD [OF inv]
  show ?thesis using I get_all_free_blocks_rep [OF I(3)]
    by (intro exI [of _ xs]) (auto simp: get_num_free_blocks_def static_ok_def cache_ok_def)
qed

text \<open>A run of the pool: two blocks are allocated, one of them is released again.\<close>

lemma pool_run_example:
  "\<exists>p0 p1 p2. BlockPool 4 True 2 False False = Inr p0 \<and> get_new_blocks 2 p0 = Inr ([Blk 1, Blk 2], p1)
     \<and> free_blocks [Blk 2] p1 = Inr p2 \<and> pool_reachable env p2 \<and> pool_inv p2 [Blk 3, Blk 2] \<and> usable p2 = Blk ` {1..<4}"
proof -
  obtain p0 where p0: "BlockPool 4 True 2 False False = Inr p0" "pool_inv p0 (map Blk [1..<4])"
      "usable p0 = Blk ` {1..<4}" using BlockPool_spec [of 4 True 2 False False] by auto
  then have inv0: "pool_inv p0 [Blk 1, Blk 2, Blk 3]" by (simp add: upt_conv_Cons numeral_eq_Suc)
  obtain p1 where p1: "get_new_blocks 2 p0 = Inr ([Blk 1, Blk 2], p1)" "pool_inv p1 [Blk 3]" "usable p1 = usable p0"
      "\<And>a. ref_cnt (heap p1 a) = (if a \<in> set [Blk 1, Blk 2] then 1 else ref_cnt (heap p0 a))"
    using get_new_blocks_spec [OF inv0, of 2] by (auto simp: numeral_2_eq_2)
  have h: "set [Blk 2] \<subseteq> holdable p1" using p0(3) p1(3) by (auto simp: holdable_def)
  obtain p2 where p2: "free_blocks [Blk 2] p1 = Inr p2" "pool_inv p2 [Blk 3, Blk 2]" "usable p2 = usable p1"
    using free_blocks_spec [OF p1(2) h] p1(4) by auto
  have "pool_reachable env p2"
    by (rule pool_reachable.Step [OF pool_reachable.Step [OF pool_reachable.Init [OF p0(1)]
          pool_step.Alloc [OF _ p1(1)]] pool_step.Free [OF h _ _ p2(1)]]) (use p1(4) in auto)
  with p0 p1 p2 show ?thesis by auto
qed

theorem pool_reachable_consistent_witness:
  "\<exists>p. get_all_free_blocks p = Some (Inr [Blk 3, Blk 2]) \<and> get_num_free_blocks (p :: block_pool) = 2"
proof -
  obtain p where p: "pool_reachable toy_env p" "pool_inv p [Blk 3, Blk 2]" using pool_run_example by blast
  then have "get_all_free_blocks p = Some (Inr [Blk 3, Blk 2])"
    using pool_invD(3) get_all_free_blocks_rep by blast
  with pool_reachable_consistent [OF p(1)] show ?thesis by auto
qed

text \<open>
  C3. Allocation. Asking for more blocks than are free raises \<^verbatim>\<open>ValueError\<close>; otherwise
  the blocks at the front of the eviction order are returned, each with reference count one
  and, when caching is on, without a hash and no longer in the prefix cache; no other
  block's count or hash changes, and the remaining free blocks keep their order.
\<close>

theorem get_new_blocks_correct:
  assumes "pool_inv p xs" and "0 \<le> n"
  shows "(int (length xs) < n \<longrightarrow> get_new_blocks n p = Inl ValueError) \<and>
     (n \<le> int (length xs) \<longrightarrow> (\<exists>p'. get_new_blocks n p = Inr (take (nat n) xs, p') \<and> pool_inv p' (drop (nat n) xs)
       \<and> (\<forall>b \<in> set (take (nat n) xs). ref_cnt (heap p' b) = 1 \<and> (enable_caching p \<longrightarrow> block_hash (heap p' b) = None
            \<and> (\<forall>key. b \<notin> cached_under (cached_block_hash_to_block p') key)))
       \<and> (\<forall>b. b \<notin> set (take (nat n) xs) \<longrightarrow> ref_cnt (heap p' b) = ref_cnt (heap p b)
            \<and> block_hash (heap p' b) = block_hash (heap p b))))"
proof -
  have "\<exists>p'. get_new_blocks n p = Inr (take (nat n) xs, p') \<and> pool_inv p' (drop (nat n) xs)
       \<and> (\<forall>b \<in> set (take (nat n) xs). ref_cnt (heap p' b) = 1 \<and> (enable_caching p \<longrightarrow> block_hash (heap p' b) = None
            \<and> (\<forall>key. b \<notin> cached_under (cached_block_hash_to_block p') key)))
       \<and> (\<forall>b. b \<notin> set (take (nat n) xs) \<longrightarrow> ref_cnt (heap p' b) = ref_cnt (heap p b)
            \<and> block_hash (heap p' b) = block_hash (heap p b))" if n: "n \<le> int (length xs)"
  proof -
    obtain p' where p': "get_new_blocks n p = Inr (take (nat n) xs, p')" "pool_inv p' (drop (nat n) xs)"
        "\<And>a. ref_cnt (heap p' a) = (if a \<in> set (take (nat n) xs) then 1 else ref_cnt (heap p a))"
        "\<And>a. block_hash (heap p' a) =
           (if enable_caching p \<and> a \<in> set (take (nat n) xs) then None else block_hash (heap p a))"
      using get_new_blocks_spec [OF assms n] by blast
    have "\<forall>key b. b \<in> cached_under (cached_block_hash_to_block p') key \<longrightarrow> block_hash (heap p' b) = Some key"
      using pool_invD(2) [OF p'(2)] by (auto simp: cache_ok_def)
    with p' show ?thesis by (intro exI [of _ p']) force
  qed
  then show ?thesis using get_new_blocks_short [OF assms(1)] by auto
qed

theorem get_new_blocks_correct_witness:
  "\<exists>p p'. pool_inv p [Blk 3, Blk 2] \<and> get_new_blocks 3 p = Inl ValueError \<and> get_new_blocks 1 p = Inr ([Blk 3], p')"
proof -
  obtain p where p: "pool_inv p [Blk 3, Blk 2]" using pool_run_example by blast
  then show ?thesis
    using get_new_blocks_correct [OF p, of 3] get_new_blocks_correct [OF p, of 1] by auto
qed

text \<open>
  Prefix sharing. A request that hits cached blocks touches them: free ones leave the
  eviction order, and none of them can be handed out. When it finishes it frees them again:
  reference counts are as before, and the blocks nobody else holds are appended to the
  eviction order in the order in which they are released. Neither step changes what is cached.
\<close>

theorem touch_free_round_trip:
  assumes inv: "pool_inv p xs" and bs: "set bs \<subseteq> usable p" "distinct bs"
  shows "\<exists>p1 p2. touch bs p = Inr p1 \<and> free_blocks bs p1 = Inr p2
     \<and> pool_inv p1 (filter (\<lambda>b. b \<notin> set bs) xs)
     \<and> pool_inv p2 (filter (\<lambda>b. b \<notin> set bs) xs @ filter (\<lambda>b. b \<in> set xs) bs)
     \<and> (\<forall>b \<in> usable p. ref_cnt (heap p2 b) = ref_cnt (heap p b))
     \<and> cached_block_hash_to_block p2 = cached_block_hash_to_block p"
proof -
  note I = pool_invD [OF inv]
  have "set bs \<subseteq> holdable p" using bs(1) by (auto simp: holdable_def)
  then obtain p1 where p1: "touch bs p = Inr p1" "pool_inv p1 (filter (\<lambda>b. b \<notin> set bs) xs)" "usable p1 = usable p"
      "cached_block_hash_to_block p1 = cached_block_hash_to_block p"
      "\<And>a. ref_cnt (heap p1 a) = ref_cnt (heap p a) + int (count_list bs a)"
    using touch_spec [OF inv] by blast
  have cnt: "ref_cnt (heap p1 a) = ref_cnt (heap p a) + (if a \<in> set bs then 1 else 0)" for a
    using bs(2) by (simp add: p1(5) count_list_distinct)
  have hold: "set bs \<subseteq> holdable p1" using bs(1) p1(3) by (auto simp: holdable_def)
  have pos: "0 < ref_cnt (heap p1 b)" if "b \<in> set bs" for b using that I(5) [of b] bs(1) cnt by auto
  obtain p2 where p2: "free_blocks bs p1 = Inr p2"
      "pool_inv p2 (filter (\<lambda>b. b \<notin> set bs) xs @ filter (\<lambda>b. b \<noteq> Blk 0 \<and> ref_cnt (heap p1 b) = 1) bs)"
      "cached_block_hash_to_block p2 = cached_block_hash_to_block p1"
      "\<forall>a \<in> usable p1. ref_cnt (heap p2 a) = ref_cnt (heap p1 a) - (if a \<in> set bs then 1 else 0)"
    using free_blocks_spec [OF p1(2) hold _ pos] distinct_filter [OF bs(2)] by blast
  have "filter (\<lambda>b. b \<noteq> Blk 0 \<and> ref_cnt (heap p1 b) = 1) bs = filter (\<lambda>b. b \<in> set xs) bs"
  proof (rule filter_cong)
    fix b assume b: "b \<in> set bs"
    then have "b \<in> usable p" "b \<noteq> Blk 0" using bs(1) usable_real(2) by blast+
    then show "(b \<noteq> Blk 0 \<and> ref_cnt (heap p1 b) = 1) = (b \<in> set xs)" using b I(4) cnt by simp
  qed simp
  then show ?thesis using p1 p2 cnt by auto
qed

theorem touch_free_round_trip_witness:
  "\<exists>p p1 p2. pool_inv p [Blk 3, Blk 2] \<and> touch [Blk 3] p = Inr p1 \<and> free_blocks [Blk 3] p1 = Inr p2
     \<and> pool_inv p1 [Blk 2] \<and> pool_inv p2 [Blk 2, Blk 3]"
proof -
  obtain p where p: "pool_inv p [Blk 3, Blk 2]" using pool_run_example by blast
  then have "set [Blk 3] \<subseteq> usable p" using pool_invD(4) [OF p] by auto
  from touch_free_round_trip [OF p this] p show ?thesis by auto
qed

text \<open>
  Lookup. \<^verbatim>\<open>get_cached_block\<close> never fails on group ids that fit in four bytes. If it
  returns blocks, there is one per group and each carries the hash that was asked for,
  packed with its group; if it returns \<^verbatim>\<open>None\<close>, some group has no such block.
\<close>

theorem get_cached_block_correct:
  assumes "pool_inv p xs" and "\<forall>g \<in> set gs. 0 \<le> g \<and> g < 2 ^ 32"
  shows "\<exists>found. get_cached_block p h gs = Inr found \<and>
     (case found of
        None \<Rightarrow> \<exists>g \<in> set gs. \<forall>b \<in> usable p. block_hash (heap p b) \<noteq> Some (group_key h g)
      | Some bs \<Rightarrow> length bs = length gs \<and> (\<forall>i < length gs. bs ! i \<in> usable p \<and>
          (\<exists>key. block_hash (heap p (bs ! i)) = Some key \<and> get_block_hash key = h \<and> get_group_id key = gs ! i)))"
proof -
  obtain found where f: "get_cached_block p h gs = Inr found"
    "case found of None \<Rightarrow> \<exists>g \<in> set gs. \<forall>b \<in> usable p. block_hash (heap p b) \<noteq> Some (group_key h g)
        | Some bs \<Rightarrow> list_all2 (\<lambda>b g. b \<in> usable p \<and> block_hash (heap p b) = Some (group_key h g)) bs gs"
    using get_cached_block_spec [OF assms] by blast
  have key: "get_block_hash (group_key h g) = h \<and> get_group_id (group_key h g) = g" if "g \<in> set gs" for g
    using that assms(2) group_key_unpack by blast
  show ?thesis using f key nth_mem [of _ gs] by (auto simp: list_all2_conv_all_nth split: option.splits)
qed

theorem get_cached_block_correct_witness:
  "\<exists>p. pool_inv p [Blk 3, Blk 2] \<and> (\<exists>found. get_cached_block p [1] [0] = Inr found)"
proof -
  obtain p where p: "pool_inv p [Blk 3, Blk 2]" using pool_run_example by blast
  then show ?thesis using get_cached_block_correct [OF p, of "[0]" "[1]"] by auto
qed

text \<open>
  C14. Caching and lookup fit together, also when the block size is a multiple of the hash block size and when events are published.
  When the newly full blocks of a request are distinct and carry no hash yet, there is a hash for
  each of them, and with events the extra keys of these blocks can be computed, \<^verbatim>\<open>cache_full_blocks\<close> succeeds. Afterwards every block of
  the range that is not the null block carries the hash of its place with the group, and looking this hash up in
  the group returns a block with that hash; the eviction order and all reference counts stay as they are, and blocks outside
  the range keep their hash.
\<close>

theorem cached_blocks_are_found:
  assumes "pool_inv p xs" "nc < nf" "nf \<le> length blocks" "nf \<le> length (block_hashes r) div (bs div hash_block_size p)"
    and "0 < hash_block_size p" "hash_block_size p dvd bs" "0 < bs" and g: "0 \<le> g" "g < 2 ^ 32"
    and "enable_kv_cache_events p \<longrightarrow> (\<exists>x. stored_extra_keys env bs (\<lambda>b. is_null (heap p b)) (enumerate nc (pyslice blocks nc nf)) 0 r = Inr x)"
    and "\<forall>b \<in> set (pyslice blocks nc nf). b \<in> holdable p \<and> (b \<noteq> Blk 0 \<longrightarrow> block_hash (heap p b) = None)"
    and "distinct (filter (\<lambda>b. b \<noteq> Blk 0) (pyslice blocks nc nf))"
  shows "\<exists>r' p' view. cache_full_blocks env r blocks nc nf bs g p = Inr (r', p') \<and> pool_inv p' xs
     \<and> block_hashes_view (block_hashes r) (hash_block_size p) bs = Inr view
     \<and> (\<forall>a. ref_cnt (heap p' a) = ref_cnt (heap p a))
     \<and> (\<forall>a. a \<notin> set (pyslice blocks nc nf) \<longrightarrow> block_hash (heap p' a) = block_hash (heap p a))
     \<and> (\<forall>i. nc \<le> i \<and> i < nf \<and> blocks ! i \<noteq> Blk 0 \<longrightarrow>
          (\<exists>h b. view_at view i = Inr h \<and> block_hash (heap p' (blocks ! i)) = Some (group_key h g)
             \<and> get_cached_block p' h [g] = Inr (Some [b]) \<and> block_hash (heap p' b) = Some (group_key h g)))"
proof -
  obtain view hs where v: "block_hashes_view (block_hashes r) (hash_block_size p) bs = Inr view" "\<forall>n. view_from view n = Inr (drop n hs)"
      "length hs = length (block_hashes r) div (bs div hash_block_size p)" "\<forall>i < length hs. view_at view i = Inr (hs ! i)"
    using hashes_view [OF assms(5,6,7)] by blast
  have n: "nf \<le> length hs" "nf \<le> length (block_hashes r)" using assms(4) v(3) div_le_dividend [of "length (block_hashes r)"] by (auto intro: le_trans)
  obtain r' p' where p': "cache_full_blocks env r blocks nc nf bs g p = Inr (r', p')" "pool_inv p' xs" "usable p' = usable p"
     "\<forall>a. ref_cnt (heap p' a) = ref_cnt (heap p a)"
     "\<forall>a. a \<notin> set (pyslice blocks nc nf) \<longrightarrow> block_hash (heap p' a) = block_hash (heap p a)"
     "\<And>i. nc \<le> i \<Longrightarrow> i < nf \<Longrightarrow> blocks ! i \<noteq> Blk 0 \<Longrightarrow> block_hash (heap p' (blocks ! i)) = Some (group_key (hs ! i) g)"
    using cache_full_blocks_stores [OF assms(1-3) n(2) v(1,2,4) n(1) assms(10) g assms(11,12)] by blast
  have "\<exists>b. get_cached_block p' (hs ! i) [g] = Inr (Some [b]) \<and> block_hash (heap p' b) = Some (group_key (hs ! i) g)"
    if i: "nc \<le> i" "i < nf" "blocks ! i \<noteq> Blk 0" for i
  proof -
    have "blocks ! i \<in> set (pyslice blocks nc nf)"
      using i assms(3) by (auto simp: pyslice_def set_conv_nth intro!: exI [of _ "i - nc"])
    then have "blocks ! i \<in> usable p'" using assms(11) i(3) p'(3) by (auto simp: holdable_def)
    then show ?thesis
      using get_cached_block_spec [OF p'(2), of "[g]" "hs ! i"] g p'(6) [OF i]
      by (force simp: list_all2_Cons2 split: option.splits)
  qed
  moreover have "view_at view i = Inr (hs ! i)" if "i < nf" for i using v(4) n(1) that by simp
  ultimately show ?thesis using p'(1,2,4,5,6) v(1) by blast
qed

text \<open>A request whose block of four tokens has the hashes of two hash blocks of two tokens.\<close>

theorem cached_blocks_are_found_witness:
  "\<exists>p r' p' b. hash_block_size p = 2 \<and> cache_full_blocks toy_env ((sample_request [1, 2, 3, 4] 2)\<lparr>block_hashes := [[9], [8]]\<rparr>) [Blk 1] 0 1 4 0 p = Inr (r', p')
     \<and> get_cached_block p' [9, 8] [0] = Inr (Some [b])"
proof -
  obtain p0 where p0: "pool_inv p0 (map Blk [1..<4])" "usable p0 = Blk ` {1..<4}"
      "\<not> enable_kv_cache_events p0" "hash_block_size p0 = 2" "\<And>i. block_hash (heap p0 (Blk i)) = None"
    using BlockPool_spec [of 4 True 2 False False] by auto
  let ?r = "(sample_request [1, 2, 3, 4] 2)\<lparr>block_hashes := [[9], [8]]\<rparr>"
  have h: "\<forall>b \<in> set (pyslice [Blk 1] 0 1). b \<in> holdable p0 \<and> (b \<noteq> Blk 0 \<longrightarrow> block_hash (heap p0 b) = None)"
    using p0(2,5) by (simp add: pyslice_def holdable_def)
  have pre: "(0::nat) < 1" "1 \<le> length [Blk 1]" "1 \<le> length (block_hashes ?r) div (4 div hash_block_size p0)" "0 < hash_block_size p0" "hash_block_size p0 dvd 4"
    "(0::nat) < 4" "0 \<le> (0::int)" "(0::int) < 2 ^ 32" "distinct (filter (\<lambda>b. b \<noteq> Blk 0) (pyslice [Blk 1] 0 1))"
    "enable_kv_cache_events p0 \<longrightarrow> (\<exists>x. stored_extra_keys toy_env 4 (\<lambda>b. is_null (heap p0 b)) (enumerate 0 (pyslice [Blk 1] 0 1)) 0 ?r = Inr x)"
    using p0(3,4) by (simp_all add: pyslice_def)
  obtain r' p' view b h where x: "cache_full_blocks toy_env ?r [Blk 1] 0 1 4 0 p0 = Inr (r', p')" "block_hashes_view (block_hashes ?r) (hash_block_size p0) 4 = Inr view"
      "view_at view 0 = Inr h" "get_cached_block p' h [0] = Inr (Some [b])"
    using cached_blocks_are_found [OF p0(1) pre(1-8) pre(10) h pre(9)] by fastforce
  have "view_at view 0 = Inr [9, 8]" using x(2) p0(4)
    by (auto simp: block_hashes_view_def BlockHashListWithBlockSize_def bhl_get_value_at_spec pyslice_def)
  then show ?thesis using x p0(4) by auto
qed

text \<open>
  \<^verbatim>\<open>reset_prefix_cache\<close> succeeds exactly if no block is referenced except the null
  block. Then every later lookup misses, while the free blocks and their order are kept;
  otherwise nothing changes.
\<close>

theorem reset_prefix_cache_correct:
  assumes "pool_inv p xs"
  shows "fst (reset_prefix_cache p) = (\<forall>b \<in> usable p. ref_cnt (heap p b) = 0)
     \<and> pool_inv (snd (reset_prefix_cache p)) xs
     \<and> (fst (reset_prefix_cache p) \<longrightarrow> (\<forall>h g gs. 0 \<le> g \<and> g < 2 ^ 32 \<longrightarrow>
          get_cached_block (snd (reset_prefix_cache p)) h (g # gs) = Inr None))
     \<and> (\<not> fst (reset_prefix_cache p) \<longrightarrow> snd (reset_prefix_cache p) = p)"
  using reset_prefix_cache_spec [OF assms] group_key_ok by (auto simp: get_one_block_def)

theorem reset_prefix_cache_correct_witness:
  "\<exists>p. pool_inv p [Blk 3, Blk 2] \<and> \<not> fst (reset_prefix_cache p)"
proof -
  obtain p where r: "pool_inv p [Blk 3, Blk 2]" "usable p = Blk ` {1..<4}" using pool_run_example by blast
  then have u: "Blk 1 \<in> usable p" by simp
  have "Blk 1 \<notin> set [Blk 3, Blk 2]" by simp
  then have "ref_cnt (heap p (Blk 1)) \<noteq> 0" unfolding pool_invD(4) [OF r(1)] using u by blast
  then have "\<not> fst (reset_prefix_cache p)" using reset_prefix_cache_correct [OF r(1)] u by auto
  then show ?thesis using r(1) by auto
qed

lemma get_usage_bounds:
  assumes "pool_inv p xs"
  shows "0 \<le> get_usage p" "get_usage p \<le> 1"
proof -
  note I = pool_invD [OF assms]
  have "card (set xs) \<le> card (usable p)" by (rule card_mono) (use I(4) in \<open>auto simp: usable_def\<close>)
  then have le: "length xs \<le> num_gpu_blocks p - 1"
    using I(6) by (simp add: usable_def card_image inj_on_def distinct_card)
  show "get_usage p \<le> 1" "0 \<le> get_usage p"
    using I(1,7) le by (auto simp: static_ok_def get_usage_def get_num_free_blocks_def Let_def divide_le_eq intro!: divide_nonneg_nonneg)
qed

end
