(* ===== verification/Cache_Hit.thy ===== *)
theory Cache_Hit
  imports Block_Pool KV_Spec
begin

text \<open>
  The class methods \<^verbatim>\<open>find_longest_cache_hit\<close> of the managers in
  \<^verbatim>\<open>src/vllm/v1/core/single_type_kv_cache_manager.py\<close>. They read the block pool and return,
  for every cache group they are asked about, a list of blocks: cached blocks, and null
  blocks where the attention type does not need the keys and values. The tuple of lists is
  a list of lists of equal length.
\<close>

section \<open>Lookups\<close>

text \<open>The empty list is false in Python: a lookup in no group counts as a miss.\<close>

definition lookup_groups :: "block_pool \<Rightarrow> int list \<Rightarrow> bytes \<Rightarrow> block_ref list option result" where
  "lookup_groups p gids h = rbind (get_cached_block p h gids) (\<lambda>o'. Inr (if o' = Some [] then None else o'))"

definition append_each :: "block_ref list list \<Rightarrow> block_ref list \<Rightarrow> block_ref list list" where
  "append_each computed cached = map2 (\<lambda>c b. c @ [b]) computed cached"

definition set_each :: "nat \<Rightarrow> block_ref list list \<Rightarrow> block_ref list \<Rightarrow> block_ref list list" where
  "set_each i computed cached = map2 (\<lambda>c b. c[i := b]) computed cached"

text \<open>Popping blocks until the hit length is a multiple of the alignment.\<close>

function align_pop :: "nat \<Rightarrow> nat \<Rightarrow> block_ref list list \<Rightarrow> block_ref list list result" where
  "align_pop bs al computed =
     (case computed of
        [] \<Rightarrow> Inl IndexError
      | c # _ \<Rightarrow>
          if al = 0 then Inl ZeroDivisionError
          else if length c * bs mod al \<noteq> 0 then align_pop bs al (map butlast computed)
          else Inr computed)"
  by pat_completeness auto

termination
  by (relation "measure (\<lambda>(bs, al, computed). case computed of [] \<Rightarrow> 0 | c # _ \<Rightarrow> length c)")
    (auto split: list.splits simp: diff_less intro!: diff_less)

declare align_pop.simps [simp del]

definition drop_last :: "block_ref list list \<Rightarrow> block_ref list list result" where
  "drop_last computed =
     (case computed of [] \<Rightarrow> Inl IndexError
      | c # _ \<Rightarrow> if c = [] then Inr computed else Inr (map butlast computed))"

section \<open>FullAttentionManager\<close>

fun full_scan :: "block_pool \<Rightarrow> int list \<Rightarrow> bytes list \<Rightarrow> block_ref list list \<Rightarrow> block_ref list list result" where
  "full_scan p gids [] computed = Inr computed"
| "full_scan p gids (h # hs) computed =
     rbind (lookup_groups p gids h) (\<lambda>o'.
       case o' of None \<Rightarrow> Inr computed | Some cached \<Rightarrow> full_scan p gids hs (append_each computed cached))"

definition full_find_longest_cache_hit :: "block_pool \<Rightarrow> layer_spec \<Rightarrow> block_hash_view \<Rightarrow> nat \<Rightarrow> int list \<Rightarrow> bool
     \<Rightarrow> nat \<Rightarrow> nat \<Rightarrow> nat \<Rightarrow> block_ref list list result" where
  "full_find_longest_cache_hit p spec view max_length gids use_eagle al dcp pcp =
     rbind (ensure (as_full spec \<noteq> None \<or> (case spec of ChunkedLocalAttentionSpec _ \<Rightarrow> True | _ \<Rightarrow> False)) AssertionError) (\<lambda>_.
     let bs = (if 1 < dcp * pcp then block_size_of spec * (dcp * pcp) else block_size_of spec) in
     rbind (if bs = 0 then Inl ZeroDivisionError else Inr (max_length div bs)) (\<lambda>max_num_blocks.
     rbind (view_from view 0) (\<lambda>hs.
     rbind (full_scan p gids (take max_num_blocks hs) (map (\<lambda>_. []) gids)) (\<lambda>computed.
     rbind (if use_eagle then drop_last computed else Inr computed) (\<lambda>computed.
     if bs = al then Inr computed else align_pop bs al computed)))))"

section \<open>SlidingWindowManager\<close>

fun window_scan :: "block_pool \<Rightarrow> int list \<Rightarrow> block_hash_view \<Rightarrow> nat \<Rightarrow> nat \<Rightarrow> int \<Rightarrow> nat
     \<Rightarrow> block_ref list list \<Rightarrow> nat \<Rightarrow> (block_ref list list \<times> nat \<times> bool) result" where
  "window_scan p gids view bs al need 0 computed contiguous = Inr (computed, contiguous, False)"
| "window_scan p gids view bs al need (Suc i) computed contiguous =
     rbind (view_at view i) (\<lambda>h. rbind (lookup_groups p gids h) (\<lambda>o'.
       case o' of
         None \<Rightarrow> window_scan p gids view bs al need i computed 0
       | Some cached \<Rightarrow>
           if contiguous = 0 \<and> bs \<noteq> al \<and> Suc i * bs mod al \<noteq> 0
           then window_scan p gids view bs al need i computed contiguous
           else
             let computed = set_each i computed cached; contiguous = contiguous + 1
             in if need \<le> int contiguous then Inr (map (take (i + contiguous)) computed, contiguous, True)
                else window_scan p gids view bs al need i computed contiguous))"

definition window_find_longest_cache_hit :: "block_pool \<Rightarrow> layer_spec \<Rightarrow> block_hash_view \<Rightarrow> nat \<Rightarrow> int list \<Rightarrow> bool
     \<Rightarrow> nat \<Rightarrow> nat \<Rightarrow> nat \<Rightarrow> block_ref list list result" where
  "window_find_longest_cache_hit p spec view max_length gids use_eagle al dcp pcp =
     (case spec of
        SlidingWindowSpec s \<Rightarrow>
          rbind (ensure (dcp = 1) AssertionError) (\<lambda>_. rbind (ensure (pcp = 1) AssertionError) (\<lambda>_.
          let bs = spec_block_size s in
          rbind (py_cdiv (sliding_window s - 1) (int bs)) (\<lambda>need.
          let need = (if use_eagle then need + 1 else need); max_num_blocks = max_length div bs in
          rbind (window_scan p gids view bs al need max_num_blocks
                   (map (\<lambda>_. replicate max_num_blocks (null_block p)) gids) 0) (\<lambda>(computed, contiguous, match_found).
          rbind (if match_found then Inr computed
                 else
                   let computed = map (take contiguous) computed
                   in if bs = al then Inr computed else align_pop bs al computed) (\<lambda>computed.
          if use_eagle
          then (case computed of
                  [] \<Rightarrow> Inl IndexError
                | c # _ \<Rightarrow> if c = [] then Inr computed
                           else rbind (ensure (bs = al) AssertionError) (\<lambda>_. drop_last computed))
          else Inr computed)))))
      | _ \<Rightarrow> Inl AssertionError)"

section \<open>ChunkedLocalAttentionManager\<close>

fun chunk_scan :: "block_pool \<Rightarrow> int list \<Rightarrow> block_hash_view \<Rightarrow> nat list \<Rightarrow> block_ref list list \<Rightarrow> block_ref list list result" where
  "chunk_scan p gids view [] computed = Inr computed"
| "chunk_scan p gids view (i # is) computed =
     rbind (view_at view i) (\<lambda>h. rbind (lookup_groups p gids h) (\<lambda>o'.
       case o' of None \<Rightarrow> Inr computed | Some cached \<Rightarrow> chunk_scan p gids view is (append_each computed cached)))"

definition chunk_find_longest_cache_hit :: "block_pool \<Rightarrow> layer_spec \<Rightarrow> block_hash_view \<Rightarrow> nat \<Rightarrow> int list \<Rightarrow> bool
     \<Rightarrow> nat \<Rightarrow> nat \<Rightarrow> nat \<Rightarrow> block_ref list list result" where
  "chunk_find_longest_cache_hit p spec view max_length gids use_eagle al dcp pcp =
     (case spec of
        ChunkedLocalAttentionSpec s \<Rightarrow>
          rbind (ensure (\<not> use_eagle) AssertionError) (\<lambda>_.
          rbind (ensure (dcp = 1) AssertionError) (\<lambda>_. rbind (ensure (pcp = 1) AssertionError) (\<lambda>_.
          let bs = spec_block_size s in
          rbind (ensure (bs = al) AssertionError) (\<lambda>_.
          rbind (py_div (int max_length) (int bs)) (\<lambda>max_num_blocks.
          rbind (if 0 < max_length then rbind (py_div (int max_length) (attention_chunk_size s))
                   (\<lambda>n. Inr (n * attention_chunk_size s)) else Inr 0) (\<lambda>local_attention_start_idx.
          let start_block = nat (local_attention_start_idx div int bs)
          in chunk_scan p gids view [start_block..<nat max_num_blocks]
               (map (\<lambda>_. replicate start_block (null_block p)) gids)))))))
      | _ \<Rightarrow> Inl AssertionError)"

section \<open>MambaManager\<close>

fun mamba_scan :: "block_pool \<Rightarrow> int list \<Rightarrow> block_hash_view \<Rightarrow> nat \<Rightarrow> nat \<Rightarrow> nat \<Rightarrow> block_ref list list result" where
  "mamba_scan p gids view bs al 0 = Inr (map (\<lambda>_. []) gids)"
| "mamba_scan p gids view bs al (Suc i) =
     rbind (view_at view i) (\<lambda>h. rbind (lookup_groups p gids h) (\<lambda>o'.
       case o' of
         None \<Rightarrow> mamba_scan p gids view bs al i
       | Some cached \<Rightarrow>
           if bs \<noteq> al \<and> Suc i * bs mod al \<noteq> 0 then mamba_scan p gids view bs al i
           else Inr (map (\<lambda>b. replicate i (null_block p) @ [b]) cached)))"

definition mamba_find_longest_cache_hit :: "block_pool \<Rightarrow> layer_spec \<Rightarrow> block_hash_view \<Rightarrow> nat \<Rightarrow> int list \<Rightarrow> bool
     \<Rightarrow> nat \<Rightarrow> nat \<Rightarrow> nat \<Rightarrow> block_ref list list result" where
  "mamba_find_longest_cache_hit p spec view max_length gids use_eagle al dcp pcp =
     (case spec of
        MambaSpec s \<Rightarrow>
          rbind (ensure (dcp = 1) AssertionError) (\<lambda>_. rbind (ensure (pcp = 1) AssertionError) (\<lambda>_.
          if spec_block_size s = 0 then Inl ZeroDivisionError
          else mamba_scan p gids view (spec_block_size s) al (max_length div spec_block_size s)))
      | _ \<Rightarrow> Inl AssertionError)"

section \<open>The manager class of a format\<close>

datatype manager_class =
    FullAttentionManager
  | SlidingWindowManager
  | ChunkedLocalAttentionManager
  | MambaManager
  | CrossAttentionManager
  | SinkFullAttentionManager

fun spec_manager_map :: "layer_spec \<Rightarrow> manager_class option" where
  "spec_manager_map (FullAttentionSpec _) = Some FullAttentionManager"
| "spec_manager_map (MLAAttentionSpec _) = Some FullAttentionManager"
| "spec_manager_map (SlidingWindowSpec _) = Some SlidingWindowManager"
| "spec_manager_map (ChunkedLocalAttentionSpec _) = Some ChunkedLocalAttentionManager"
| "spec_manager_map (MambaSpec _) = Some MambaManager"
| "spec_manager_map (CrossAttentionSpec _) = Some CrossAttentionManager"
| "spec_manager_map (SinkFullAttentionSpec _) = Some SinkFullAttentionManager"
| "spec_manager_map (EncoderOnlyAttentionSpec _) = None"

fun find_longest_cache_hit :: "manager_class \<Rightarrow> block_pool \<Rightarrow> layer_spec \<Rightarrow> block_hash_view \<Rightarrow> nat \<Rightarrow> int list \<Rightarrow> bool
     \<Rightarrow> nat \<Rightarrow> nat \<Rightarrow> nat \<Rightarrow> block_ref list list result" where
  "find_longest_cache_hit FullAttentionManager = full_find_longest_cache_hit"
| "find_longest_cache_hit SinkFullAttentionManager = full_find_longest_cache_hit"
| "find_longest_cache_hit SlidingWindowManager = window_find_longest_cache_hit"
| "find_longest_cache_hit ChunkedLocalAttentionManager = chunk_find_longest_cache_hit"
| "find_longest_cache_hit MambaManager = mamba_find_longest_cache_hit"
| "find_longest_cache_hit CrossAttentionManager = (\<lambda>p spec view max_length gids use_eagle al dcp pcp.
     case spec of CrossAttentionSpec _ \<Rightarrow> Inl NotImplementedError | _ \<Rightarrow> Inl AssertionError)"

section \<open>What a lookup finds\<close>

definition block_for :: "block_pool \<Rightarrow> int \<Rightarrow> bytes \<Rightarrow> block_ref \<Rightarrow> bool" where
  "block_for p g h b \<longleftrightarrow> b \<in> usable p \<and> block_hash (heap p b) = Some (group_key h g)"

definition cached_in :: "block_pool \<Rightarrow> int list \<Rightarrow> bytes \<Rightarrow> bool" where
  "cached_in p gids h \<longleftrightarrow> (\<forall>g \<in> set gids. \<exists>b. block_for p g h b)"

definition groups_valid :: "int list \<Rightarrow> bool" where
  "groups_valid gids \<longleftrightarrow> gids \<noteq> [] \<and> (\<forall>g \<in> set gids. 0 \<le> g \<and> g < 2 ^ 32)"

lemma lookup_groups_spec:
  assumes "pool_inv p xs" and "groups_valid gids"
  shows "if cached_in p gids h
     then \<exists>bs. lookup_groups p gids h = Inr (Some bs) \<and> length bs = length gids \<and> (\<forall>j < length gids. block_for p (gids ! j) h (bs ! j))
     else lookup_groups p gids h = Inr None"
proof -
  have ok: "\<forall>g \<in> set gids. 0 \<le> g \<and> g < 2 ^ 32" "gids \<noteq> []" using assms(2) by (auto simp: groups_valid_def)
  obtain o' where o: "get_cached_block p h gids = Inr o'" and c: "case o' of
       None \<Rightarrow> \<exists>g \<in> set gids. \<forall>b \<in> usable p. block_hash (heap p b) \<noteq> Some (group_key h g)
     | Some bs \<Rightarrow> list_all2 (\<lambda>b g. b \<in> usable p \<and> block_hash (heap p b) = Some (group_key h g)) bs gids"
    using get_cached_block_spec [OF assms(1) ok(1), of h] by blast
  show ?thesis
  proof (cases o')
    case None
    then have "\<not> cached_in p gids h" using c by (auto simp: cached_in_def block_for_def)
    then show ?thesis using o None by (simp add: lookup_groups_def)
  next
    case (Some bs)
    then have all: "list_all2 (\<lambda>b g. block_for p g h b) bs gids" using c by (simp add: block_for_def)
    then have "cached_in p gids h"
      by (fastforce simp: cached_in_def list_all2_conv_all_nth in_set_conv_nth)
    moreover have "bs \<noteq> []" using all ok(2) by auto
    ultimately show ?thesis using all Some o by (auto simp: lookup_groups_def list_all2_conv_all_nth)
  qed
qed

lemma lookup_cases:
  assumes "pool_inv p xs" and "groups_valid gids"
  obtains (hit) bs where "cached_in p gids h" "lookup_groups p gids h = Inr (Some bs)" "length bs = length gids"
      "\<And>j. j < length gids \<Longrightarrow> block_for p (gids ! j) h (bs ! j)"
  | (miss) "\<not> cached_in p gids h" "lookup_groups p gids h = Inr None"
  using lookup_groups_spec [OF assms, of h] by (auto split: if_splits)

definition blocks_for :: "block_pool \<Rightarrow> int \<Rightarrow> bytes list \<Rightarrow> block_ref list \<Rightarrow> bool" where
  "blocks_for p g hs bs \<longleftrightarrow> list_all2 (block_for p g) hs bs"

lemma nth_append_each: "length cached = length computed \<Longrightarrow> j < length computed \<Longrightarrow>
  append_each computed cached ! j = computed ! j @ [cached ! j]" "length (append_each computed cached) = min (length computed) (length cached)"
  by (simp_all add: append_each_def)

lemma full_scan_spec:
  assumes "pool_inv p xs" and "groups_valid gids" and "length computed = length gids"
  shows "\<exists>c. full_scan p gids hs computed = Inr c \<and> length c = length gids \<and> (\<forall>j < length gids. \<exists>bs. c ! j = computed ! j @ bs
     \<and> blocks_for p (gids ! j) (takeWhile (cached_in p gids) hs) bs)"
  using assms(3)
proof (induction hs arbitrary: computed)
  case (Cons h hs)
  show ?case
  proof (cases rule: lookup_cases [OF assms(1,2), of h, case_names hit miss])
    case (hit cached)
    then obtain c where c: "full_scan p gids hs (append_each computed cached) = Inr c" "length c = length gids"
      "\<And>j. j < length gids \<Longrightarrow> \<exists>bs. c ! j = append_each computed cached ! j @ bs \<and> blocks_for p (gids ! j) (takeWhile (cached_in p gids) hs) bs"
      using Cons.IH [of "append_each computed cached"] Cons.prems by (auto simp: nth_append_each)
    have "\<exists>bs. c ! j = computed ! j @ bs \<and> blocks_for p (gids ! j) (takeWhile (cached_in p gids) (h # hs)) bs" if j: "j < length gids" for j
    proof -
      obtain bs where "c ! j = append_each computed cached ! j @ bs" "blocks_for p (gids ! j) (takeWhile (cached_in p gids) hs) bs"
        using c(3) [OF j] by blast
      then show ?thesis using hit j Cons.prems by (intro exI [of _ "cached ! j # bs"]) (simp add: nth_append_each blocks_for_def)
    qed
    then show ?thesis using hit c by simp
  next
    case miss
    then show ?thesis using Cons.prems by (simp add: blocks_for_def)
  qed
qed (simp add: blocks_for_def)

lemma align_pop_spec:
  assumes "computed \<noteq> []" and "0 < al" and "\<forall>c \<in> set computed. length c = n"
  shows "\<exists>r \<le> n. align_pop bs al computed = Inr (map (take r) computed) \<and> r * bs mod al = 0
     \<and> (\<forall>k. r < k \<longrightarrow> k \<le> n \<longrightarrow> k * bs mod al \<noteq> 0)"
  using assms
proof (induction n arbitrary: computed)
  case (Suc n)
  obtain c rest where c: "computed = c # rest" using Suc.prems(1) by (cases computed) auto
  show ?case
  proof (cases "Suc n * bs mod al = 0")
    case True
    have "map (take (Suc n)) computed = computed" using Suc.prems(3) by (intro map_idI) auto
    then show ?thesis using True Suc.prems c by (intro exI [of _ "Suc n"]) (auto simp: align_pop.simps [of _ _ "c # rest"])
  next
    case False
    obtain r where r: "r \<le> n" "align_pop bs al (map butlast computed) = Inr (map (take r) (map butlast computed))"
      "r * bs mod al = 0" "\<forall>k. r < k \<longrightarrow> k \<le> n \<longrightarrow> k * bs mod al \<noteq> 0"
      using Suc.IH [of "map butlast computed"] Suc.prems by auto
    have "align_pop bs al computed = align_pop bs al (map butlast computed)"
      using False c Suc.prems by (simp add: align_pop.simps [of _ _ "c # rest"])
    moreover have "map (take r) (map butlast computed) = map (take r) computed"
      using r(1) Suc.prems(3) by (auto simp: take_butlast)
    ultimately show ?thesis using r False
      by (intro exI [of _ r]) (auto simp: le_Suc_eq)
  qed
next
  case 0
  have "map (take 0) computed = computed" using 0 by (intro map_idI) auto
  then show ?case using 0 by (cases computed) (auto simp: align_pop.simps)
qed

section \<open>Full attention\<close>

lemma drop_last_spec:
  assumes "computed \<noteq> []" and "\<forall>c \<in> set computed. length c = n"
  shows "drop_last computed = Inr (map (take (n - 1)) computed)"
proof -
  have "n = 0 \<Longrightarrow> map (take (n - 1)) computed = computed" using assms(2) by (intro map_idI) auto
  moreover have "map butlast computed = map (take (n - 1)) computed" using assms(2) by (auto simp: butlast_conv_take)
  ultimately show ?thesis using assms by (cases computed) (auto simp: drop_last_def)
qed

lemma blocks_for_take: "blocks_for p g hs bs \<Longrightarrow> blocks_for p g (take r hs) (take r bs)"
  by (simp add: blocks_for_def list_all2_takeI)

lemma blocks_for_length: "blocks_for p g hs bs \<Longrightarrow> length bs = length hs"
  by (auto simp: blocks_for_def dest: list_all2_lengthD)

text \<open>\<open>hit_length\<close> is the number of leading hashes that are cached in every group.\<close>

definition hit_length :: "block_pool \<Rightarrow> int list \<Rightarrow> bytes list \<Rightarrow> nat" where
  "hit_length p gids hs = length (takeWhile (cached_in p gids) hs)"

definition full_block_size :: "layer_spec \<Rightarrow> nat \<Rightarrow> nat \<Rightarrow> nat" where
  "full_block_size spec dcp pcp = (if 1 < dcp * pcp then block_size_of spec * (dcp * pcp) else block_size_of spec)"

lemma full_find_spec:
  assumes inv: "pool_inv p xs" and gids: "groups_valid gids" and spec: "as_full spec \<noteq> None"
    and bs: "bs = full_block_size spec dcp pcp" "0 < bs" "0 < al" and hs: "view_from view 0 = Inr hs"
    and k: "k = (let n = hit_length p gids (take (max_length div bs) hs) in if use_eagle then n - 1 else n)"
  shows "\<exists>c r. full_find_longest_cache_hit p spec view max_length gids use_eagle al dcp pcp = Inr c \<and> length c = length gids
     \<and> (\<forall>j < length gids. blocks_for p (gids ! j) (take r hs) (c ! j))
     \<and> r \<le> k \<and> r * bs mod al = 0 \<and> (\<forall>q. r < q \<longrightarrow> q \<le> k \<longrightarrow> q * bs mod al \<noteq> 0)"
proof -
  let ?hs = "take (max_length div bs) hs"
  define n where "n = hit_length p gids ?hs"
  obtain c0 where c0: "full_scan p gids ?hs (map (\<lambda>_. []) gids) = Inr c0" "length c0 = length gids"
    "\<And>j. j < length gids \<Longrightarrow> blocks_for p (gids ! j) (takeWhile (cached_in p gids) ?hs) (c0 ! j)"
    using full_scan_spec [OF inv gids, of "map (\<lambda>_. []) gids" ?hs] by auto
  have tw: "takeWhile (cached_in p gids) ?hs = take n hs"
    unfolding n_def hit_length_def by (metis min.absorb1 take_take takeWhile_eq_take length_take min.bounded_iff length_takeWhile_le)
  have len: "\<forall>c \<in> set c0. length c = n" using c0(2,3) blocks_for_length
    by (metis hit_length_def in_set_conv_nth n_def)
  have ne: "c0 \<noteq> []" using c0(2) gids by (auto simp: groups_valid_def)
  have kn: "k \<le> n" "k = (if use_eagle then n - 1 else n)" using k by (auto simp: n_def Let_def)
  have c1: "(if use_eagle then drop_last c0 else Inr c0) = Inr (map (take k) c0)"
  proof (cases use_eagle)
    case True
    then show ?thesis using drop_last_spec [OF ne len] kn by simp
  next
    case False
    then have "map (take k) c0 = c0" using kn len by (intro map_idI) auto
    then show ?thesis using False by simp
  qed
  have find: "full_find_longest_cache_hit p spec view max_length gids use_eagle al dcp pcp =
      (if bs = al then Inr (map (take k) c0) else align_pop bs al (map (take k) c0))"
    using spec bs hs c0(1) c1 by (simp add: full_find_longest_cache_hit_def full_block_size_def Let_def)
  have "\<exists>r. r \<le> k \<and> (if bs = al then Inr (map (take k) c0) else align_pop bs al (map (take k) c0)) = Inr (map (take r) c0)
      \<and> r * bs mod al = 0 \<and> (\<forall>q. r < q \<longrightarrow> q \<le> k \<longrightarrow> q * bs mod al \<noteq> 0)"
  proof (cases "bs = al")
    case False
    have "\<forall>c \<in> set (map (take k) c0). length c = k" using len kn(1) by auto
    then obtain r where "r \<le> k" "align_pop bs al (map (take k) c0) = Inr (map (take r) (map (take k) c0))"
      "r * bs mod al = 0" "\<forall>q. r < q \<longrightarrow> q \<le> k \<longrightarrow> q * bs mod al \<noteq> 0"
      using align_pop_spec [of "map (take k) c0" al k bs] ne bs(3) by auto
    moreover from this(1) have "map (take r) (map (take k) c0) = map (take r) c0" by (simp add: min_def)
    ultimately show ?thesis using False by metis
  qed auto
  then obtain r where r: "r \<le> k" "full_find_longest_cache_hit p spec view max_length gids use_eagle al dcp pcp = Inr (map (take r) c0)"
    "r * bs mod al = 0" "\<forall>q. r < q \<longrightarrow> q \<le> k \<longrightarrow> q * bs mod al \<noteq> 0" using find by auto
  have "blocks_for p (gids ! j) (take r hs) (map (take r) c0 ! j)" if "j < length gids" for j
    using blocks_for_take [OF c0(3) [OF that], of r] that c0(2) r(1) kn(1) by (simp add: tw min_def)
  then show ?thesis using r c0(2) by (intro exI [of _ "map (take r) c0"] exI [of _ r]) auto
qed

text \<open>
  C26. For full attention the hit is exact: the lists hold, for every group, the cached blocks
  of the first \<open>r\<close> hashes. Up to the block that EAGLE drops and the alignment, \<open>r\<close> is the number of
  leading hashes, within the maximal length, that are cached in every group.
\<close>

theorem full_cache_hit_longest:
  assumes "pool_inv p xs" and "groups_valid gids" and "as_full spec \<noteq> None"
    and "0 < full_block_size spec dcp pcp" and "0 < al" and "view_from view 0 = Inr hs"
  shows "\<exists>c r. full_find_longest_cache_hit p spec view max_length gids use_eagle al dcp pcp = Inr c \<and> length c = length gids
     \<and> (\<forall>j < length gids. blocks_for p (gids ! j) (take r hs) (c ! j))
     \<and> (let bs = full_block_size spec dcp pcp; n = hit_length p gids (take (max_length div bs) hs);
            k = (if use_eagle then n - 1 else n)
        in r \<le> k \<and> r * bs mod al = 0 \<and> (\<forall>q. r < q \<longrightarrow> q \<le> k \<longrightarrow> q * bs mod al \<noteq> 0))"
  using full_find_spec [OF assms(1-3) refl assms(4-6) refl, of max_length use_eagle] unfolding Let_def by blast

section \<open>Sliding windows\<close>

text \<open>
  A prefix of \<open>l\<close> blocks is a hit for a window that needs \<open>k\<close> blocks if it is aligned and its
  last \<open>k\<close> blocks (or all, if it has fewer) are cached.
\<close>

definition window_hit :: "(nat \<Rightarrow> bool) \<Rightarrow> nat \<Rightarrow> nat \<Rightarrow> nat \<Rightarrow> nat \<Rightarrow> bool" where
  "window_hit cached bs al k l \<longleftrightarrow> l * bs mod al = 0 \<and> (\<forall>i < l. l \<le> i + k \<longrightarrow> cached i)"

definition window_blocks :: "block_pool \<Rightarrow> int \<Rightarrow> bytes list \<Rightarrow> nat \<Rightarrow> nat \<Rightarrow> block_ref list \<Rightarrow> bool" where
  "window_blocks p g hs k l c \<longleftrightarrow> length c = l \<and>
     (\<forall>i < l. if l \<le> i + k then block_for p g (hs ! i) (c ! i) else c ! i = null_block p)"

lemma nth_set_each: "length cached = length computed \<Longrightarrow> j < length computed \<Longrightarrow> set_each i computed cached ! j = (computed ! j)[i := cached ! j]"
  "length (set_each i computed cached) = min (length computed) (length cached)"
  by (simp_all add: set_each_def)

text \<open>The state of the scan before index \<open>i\<close>: a run of cached blocks from \<open>i\<close> with an aligned end.\<close>

definition run_ok :: "block_pool \<Rightarrow> int list \<Rightarrow> bytes list \<Rightarrow> nat \<Rightarrow> nat \<Rightarrow> nat \<Rightarrow> nat \<Rightarrow> nat \<Rightarrow> block_ref list list \<Rightarrow> nat \<Rightarrow> bool" where
  "run_ok p gids hs bs al k n i computed cont \<longleftrightarrow>
     length computed = length gids \<and> i + cont \<le> n \<and> cont < k
     \<and> (0 < cont \<longrightarrow> (i + cont) * bs mod al = 0) \<and> (\<forall>m. i \<le> m \<longrightarrow> m < i + cont \<longrightarrow> cached_in p gids (hs ! m))
     \<and> (\<forall>j < length gids. length (computed ! j) = n \<and> (\<forall>m < i. computed ! j ! m = null_block p)
          \<and> (\<forall>m. i \<le> m \<longrightarrow> m < i + cont \<longrightarrow> block_for p (gids ! j) (hs ! m) (computed ! j ! m)))
     \<and> (\<forall>l. i + cont < l \<longrightarrow> l \<le> n \<longrightarrow> \<not> window_hit (\<lambda>m. cached_in p gids (hs ! m)) bs al k l)"

lemma run_ok_miss:
  assumes "run_ok p gids hs bs al k n (Suc i) computed cont" and "\<not> cached_in p gids (hs ! i)"
  shows "run_ok p gids hs bs al k n i computed 0"
proof -
  have "\<not> window_hit (\<lambda>m. cached_in p gids (hs ! m)) bs al k l" if "i < l" "l \<le> n" for l
  proof (cases "l \<le> Suc i + cont")
    case True
    then have "l \<le> i + k" using assms(1) by (auto simp: run_ok_def)
    then show ?thesis using assms(2) that(1) by (auto simp: window_hit_def)
  qed (use assms(1) that in \<open>auto simp: run_ok_def\<close>)
  then show ?thesis using assms(1) by (auto simp: run_ok_def)
qed

lemma run_ok_unaligned:
  assumes "run_ok p gids hs bs al k n (Suc i) computed 0" and "Suc i * bs mod al \<noteq> 0"
  shows "run_ok p gids hs bs al k n i computed 0"
proof -
  have "\<not> window_hit (\<lambda>m. cached_in p gids (hs ! m)) bs al k l" if "i < l" "l \<le> n" for l
    using assms that by (cases "l = Suc i") (auto simp: run_ok_def window_hit_def)
  then show ?thesis using assms(1) by (auto simp: run_ok_def)
qed

text \<open>One more cached block in front of the run; \<open>run_ok\<close> without the bound on its length.\<close>

lemma run_extend:
  assumes run: "run_ok p gids hs bs al k n (Suc i) computed cont" and hit: "cached_in p gids (hs ! i)"
    and cached: "length cached = length gids" "\<forall>j < length gids. block_for p (gids ! j) (hs ! i) (cached ! j)"
    and al: "0 < cont \<or> Suc i * bs mod al = 0"
  shows "cont + 1 < k \<Longrightarrow> run_ok p gids hs bs al k n i (set_each i computed cached) (cont + 1)"
    and "cont + 1 = k \<Longrightarrow> window_hit (\<lambda>m. cached_in p gids (hs ! m)) bs al k (i + k)"
    and "cont + 1 = k \<Longrightarrow> j < length gids \<Longrightarrow> window_blocks p (gids ! j) hs k (i + k) (take (i + k) (set_each i computed cached ! j))"
proof -
  have R: "length computed = length gids" "Suc i + cont \<le> n" "0 < cont \<longrightarrow> (Suc i + cont) * bs mod al = 0"
    "\<And>m. Suc i \<le> m \<Longrightarrow> m < Suc i + cont \<Longrightarrow> cached_in p gids (hs ! m)"
    "\<And>j. j < length gids \<Longrightarrow> length (computed ! j) = n"
    "\<And>j m. j < length gids \<Longrightarrow> m < Suc i \<Longrightarrow> computed ! j ! m = null_block p"
    "\<And>j m. j < length gids \<Longrightarrow> Suc i \<le> m \<Longrightarrow> m < Suc i + cont \<Longrightarrow> block_for p (gids ! j) (hs ! m) (computed ! j ! m)"
    "\<And>l. Suc i + cont < l \<Longrightarrow> l \<le> n \<Longrightarrow> \<not> window_hit (\<lambda>m. cached_in p gids (hs ! m)) bs al k l"
    using run by (auto simp: run_ok_def)
  have stop: "(Suc i + cont) * bs mod al = 0" using R(3) al by (cases "cont = 0") auto
  have all: "cached_in p gids (hs ! m)" if "i \<le> m" "m < Suc i + cont" for m
    using R(4) [of m] hit that by (cases "m = i") auto
  have upd: "set_each i computed cached ! j ! m = (if m = i then cached ! j else computed ! j ! m)"
    "length (set_each i computed cached ! j) = n" if "j < length gids" for j m
    using R(1,2,5) that cached(1) by (auto simp: nth_set_each)
  have blk: "block_for p (gids ! j) (hs ! m) (set_each i computed cached ! j ! m)"
    if "j < length gids" "i \<le> m" "m < Suc i + cont" for j m
    using upd(1) [OF that(1)] cached(2) that(1) R(7) [OF that(1), of m] that by (cases "m = i") auto
  have nul: "set_each i computed cached ! j ! m = null_block p" if "j < length gids" "m < i" for j m
    using upd(1) [OF that(1)] R(6) [OF that(1), of m] that(2) by simp
  show "run_ok p gids hs bs al k n i (set_each i computed cached) (cont + 1)" if "cont + 1 < k"
    unfolding run_ok_def using that R(1,2,8) stop all upd(2) blk nul cached(1) by (auto simp: nth_set_each(2))
  show "window_hit (\<lambda>m. cached_in p gids (hs ! m)) bs al k (i + k)" if "cont + 1 = k"
    using stop all that by (auto simp: window_hit_def)
  show "window_blocks p (gids ! j) hs k (i + k) (take (i + k) (set_each i computed cached ! j))" if "cont + 1 = k" "j < length gids" for j
    using that blk [OF that(2)] nul [OF that(2)] upd(2) [OF that(2)] R(2) by (auto simp: window_blocks_def)
qed

lemma window_scan_spec:
  assumes inv: "pool_inv p xs" and gids: "groups_valid gids" and hs: "\<And>m. m < n \<Longrightarrow> view_at view m = Inr (hs ! m)"
    and k: "0 < k" and run: "run_ok p gids hs bs al k n i computed cont"
  shows "\<exists>c l found. window_scan p gids view bs al (int k) i computed cont = Inr (c, l, found) \<and>
     (let l' = length (hd (if found then c else map (take l) c)) in
      length c = length gids \<and> l' \<le> n \<and> window_hit (\<lambda>m. cached_in p gids (hs ! m)) bs al k l'
      \<and> (\<forall>q. l' < q \<longrightarrow> q \<le> n \<longrightarrow> \<not> window_hit (\<lambda>m. cached_in p gids (hs ! m)) bs al k q)
      \<and> (\<forall>j < length gids. window_blocks p (gids ! j) hs k l' ((if found then c else map (take l) c) ! j)))"
  using run
proof (induction i arbitrary: computed cont)
  case 0
  then have R: "length computed = length gids" "cont \<le> n" "cont < k" "0 < cont \<longrightarrow> cont * bs mod al = 0"
    "\<And>m. m < cont \<Longrightarrow> cached_in p gids (hs ! m)" "\<And>j. j < length gids \<Longrightarrow> length (computed ! j) = n"
    "\<And>j m. j < length gids \<Longrightarrow> m < cont \<Longrightarrow> block_for p (gids ! j) (hs ! m) (computed ! j ! m)"
    "\<And>l. cont < l \<Longrightarrow> l \<le> n \<Longrightarrow> \<not> window_hit (\<lambda>m. cached_in p gids (hs ! m)) bs al k l"
    by (auto simp: run_ok_def)
  have len: "length (hd (map (take cont) computed)) = cont"
    using gids R(1,2) R(6) [of 0] by (cases computed) (auto simp: groups_valid_def)
  have "window_hit (\<lambda>m. cached_in p gids (hs ! m)) bs al k cont" using R(4,5) by (cases "cont = 0") (auto simp: window_hit_def)
  then show ?case using R len
    by (intro exI [of _ computed] exI [of _ cont] exI [of _ False]) (simp add: Let_def window_blocks_def)
next
  case (Suc i)
  have i: "i < n" "length computed = length gids" "cont < k" "\<And>j. j < length gids \<Longrightarrow> length (computed ! j) = n"
    using Suc.prems by (auto simp: run_ok_def)
  show ?case
  proof (cases rule: lookup_cases [OF inv gids, of "hs ! i", case_names hit miss])
    case miss
    then show ?thesis using Suc.IH [OF run_ok_miss [OF Suc.prems miss(1)]] hs [OF i(1)] by simp
  next
    case (hit cached)
    show ?thesis
    proof (cases "cont = 0 \<and> Suc i * bs mod al \<noteq> 0")
      case True
      then have "bs \<noteq> al" by auto
      then show ?thesis using Suc.IH [OF run_ok_unaligned] Suc.prems hs [OF i(1)] hit True by auto
    next
      case False
      then have al: "0 < cont \<or> Suc i * bs mod al = 0" by auto
      have "\<forall>j < length gids. block_for p (gids ! j) (hs ! i) (cached ! j)" using hit(4) by blast
      note E = run_extend [OF Suc.prems hit(1,3) this al]
      show ?thesis
      proof (cases "cont + 1 = k")
        case True
        let ?c = "map (take (i + k)) (set_each i computed cached)"
        have scan: "window_scan p gids view bs al (int k) (Suc i) computed cont = Inr (?c, k, True)"
          using hs [OF i(1)] hit False True by (auto simp: Let_def)
        have wb: "window_blocks p (gids ! j) hs k (i + k) (?c ! j)" if "j < length gids" for j
          using E(3) [OF True that] that i(2) hit(3) by (simp add: nth_set_each(2))
        have "length ?c = length gids" using i(2) hit(3) by (simp add: nth_set_each(2))
        moreover from this have "length (hd ?c) = i + k"
          using wb [of 0] gids by (cases ?c) (auto simp: groups_valid_def window_blocks_def simp del: list.map_disc_iff)
        moreover have "i + k \<le> n" "\<And>q. i + k < q \<Longrightarrow> q \<le> n \<Longrightarrow> \<not> window_hit (\<lambda>m. cached_in p gids (hs ! m)) bs al k q"
          using Suc.prems True by (auto simp: run_ok_def)
        ultimately show ?thesis using scan wb E(2) [OF True]
          by (intro exI [of _ ?c] exI [of _ k] exI [of _ True]) (simp add: Let_def)
      next
        case ne: False
        then have "cont + 1 < k" using i(3) by simp
        moreover from this have "window_scan p gids view bs al (int k) (Suc i) computed cont
            = window_scan p gids view bs al (int k) i (set_each i computed cached) (cont + 1)"
          using hs [OF i(1)] hit False ne by (auto simp: Let_def)
        ultimately show ?thesis using Suc.IH [OF E(1)] by simp
      qed
    qed
  qed
qed

lemma window_blocks_butlast:
  assumes "window_blocks p g hs (Suc k) l c" and "0 < l"
  shows "window_blocks p g hs k (l - 1) (butlast c)"
  using assms by (auto simp: window_blocks_def nth_butlast)

text \<open>The number of blocks that a window needs behind the next token.\<close>

definition window_need :: "sliding_window_spec \<Rightarrow> nat" where
  "window_need s = nat (cdiv (sliding_window s - 1) (int (spec_block_size s)))"

lemma window_need_pos:
  assumes "0 < spec_block_size s" and "1 < sliding_window s"
  shows "0 < window_need s" "int (window_need s) = cdiv (sliding_window s - 1) (int (spec_block_size s))"
proof -
  have "\<not> cdiv (sliding_window s - 1) (int (spec_block_size s)) \<le> 0" using cdiv_le_iff [of "int (spec_block_size s)" _ 0] assms by simp
  then show "0 < window_need s" "int (window_need s) = cdiv (sliding_window s - 1) (int (spec_block_size s))"
    by (auto simp: window_need_def)
qed

text \<open>
  The number of blocks that the search asks for: at least one, as it only looks when a block is found, and one
  more with EAGLE, which drops the last block again.
\<close>

definition window_depth :: "bool \<Rightarrow> sliding_window_spec \<Rightarrow> nat" where
  "window_depth use_eagle s = nat (max 1 (cdiv (sliding_window s - 1) (int (spec_block_size s)) + (if use_eagle then 1 else 0)))"

lemma window_depth_need: "0 < spec_block_size s \<Longrightarrow> 1 < sliding_window s \<Longrightarrow> window_depth False s = window_need s"
  using window_need_pos [of s] by (simp add: window_depth_def)

lemma window_scan_depth:
  "window_scan p gids view bs al need i computed contiguous = window_scan p gids view bs al (max 1 need) i computed contiguous"
proof (induction i arbitrary: computed contiguous)
  case (Suc i)
  have "need \<le> int (contiguous + 1) \<longleftrightarrow> max 1 need \<le> int (contiguous + 1)" by simp
  then show ?case using Suc by (simp only: window_scan.simps Let_def)
qed simp

lemma drop_last_windows:
  assumes "length c = length gids" and "gids \<noteq> []" and "\<And>j. j < length gids \<Longrightarrow> window_blocks p (gids ! j) hs (Suc k) l (c ! j)" and "0 < l"
  shows "drop_last c = Inr (map butlast c)" "j < length gids \<Longrightarrow> window_blocks p (gids ! j) hs k (l - 1) (map butlast c ! j)"
proof -
  have "c ! 0 \<noteq> []" using assms(2,4) assms(3) [of 0] by (auto simp: window_blocks_def)
  then show "drop_last c = Inr (map butlast c)" using assms(1,2) by (cases c) (auto simp: drop_last_def)
  show "j < length gids \<Longrightarrow> window_blocks p (gids ! j) hs k (l - 1) (map butlast c ! j)"
    using window_blocks_butlast [OF assms(3) assms(4)] assms(1) by simp
qed

lemma window_find_general:
  assumes "pool_inv p xs" and "groups_valid gids" and "0 < spec_block_size s" and "0 < al"
    and "max_length div spec_block_size s \<le> length hs" and "\<forall>i < length hs. view_at view i = Inr (hs ! i)"
  shows "\<exists>c l. window_find_longest_cache_hit p (SlidingWindowSpec s) view max_length gids use_eagle al 1 1 =
       (if use_eagle \<and> 0 < l \<and> spec_block_size s \<noteq> al then Inl AssertionError else Inr c)
     \<and> length c = length gids \<and> l \<le> max_length div spec_block_size s
     \<and> window_hit (\<lambda>i. cached_in p gids (hs ! i)) (spec_block_size s) al (window_depth use_eagle s) l
     \<and> (\<forall>q. l < q \<longrightarrow> q \<le> max_length div spec_block_size s \<longrightarrow>
          \<not> window_hit (\<lambda>i. cached_in p gids (hs ! i)) (spec_block_size s) al (window_depth use_eagle s) q)
     \<and> (\<forall>j < length gids. if use_eagle then window_blocks p (gids ! j) hs (window_depth True s - 1) (l - 1) (c ! j)
          else window_blocks p (gids ! j) hs (window_depth False s) l (c ! j))"
proof -
  let ?bs = "spec_block_size s" and ?k = "window_depth use_eagle s" let ?n = "max_length div ?bs"
  let ?c0 = "map (\<lambda>_. replicate ?n (null_block p)) gids" and ?cached = "\<lambda>m. cached_in p gids (hs ! m)"
  let ?need = "cdiv (sliding_window s - 1) (int ?bs) + (if use_eagle then 1 else 0)"
  have K: "0 < ?k" "int ?k = max 1 ?need" by (auto simp: window_depth_def)
  have run: "run_ok p gids hs ?bs al ?k ?n ?n ?c0 0" using K(1) by (auto simp: run_ok_def)
  have hs: "\<And>m. m < ?n \<Longrightarrow> view_at view m = Inr (hs ! m)" using assms(5,6) by simp
  obtain c l found where c: "window_scan p gids view ?bs al (int ?k) ?n ?c0 0 = Inr (c, l, found)"
    and r: "let l' = length (hd (if found then c else map (take l) c)) in
      length c = length gids \<and> l' \<le> ?n \<and> window_hit ?cached ?bs al ?k l'
      \<and> (\<forall>q. l' < q \<longrightarrow> q \<le> ?n \<longrightarrow> \<not> window_hit ?cached ?bs al ?k q)
      \<and> (\<forall>j < length gids. window_blocks p (gids ! j) hs ?k l' ((if found then c else map (take l) c) ! j))"
    using window_scan_spec [OF assms(1,2) hs K(1) run] by blast
  define c1 where "c1 = (if found then c else map (take l) c)"
  define l1 where "l1 = length (hd c1)"
  have R: "length c1 = length gids" "l1 \<le> ?n" "window_hit ?cached ?bs al ?k l1"
      "\<And>q. l1 < q \<Longrightarrow> q \<le> ?n \<Longrightarrow> \<not> window_hit ?cached ?bs al ?k q"
      "\<And>j. j < length gids \<Longrightarrow> window_blocks p (gids ! j) hs ?k l1 (c1 ! j)"
    using r by (auto simp: Let_def c1_def l1_def)
  have g: "gids \<noteq> []" using assms(2) by (auto simp: groups_valid_def)
  then obtain c2 cs where c2: "c1 = c2 # cs" "length c2 = l1" using R(1) by (cases c1) (auto simp: l1_def)
  have "align_pop ?bs al c1 = Inr c1"
    using R(3) assms(4) c2 by (auto simp: align_pop.simps [of _ _ "_ # _"] window_hit_def)
  moreover have "window_scan p gids view ?bs al ?need ?n ?c0 0 = Inr (c, l, found)" using c window_scan_depth [of p gids view ?bs al ?need] K(2) by simp
  ultimately have find: "window_find_longest_cache_hit p (SlidingWindowSpec s) view max_length gids use_eagle al 1 1 =
      (if use_eagle then (if l1 = 0 then Inr c1 else rbind (ensure (?bs = al) AssertionError) (\<lambda>_. drop_last c1)) else Inr c1)"
    using assms(3) c2 by (cases found; cases use_eagle) (auto simp: window_find_longest_cache_hit_def Let_def c1_def add.commute)
  show ?thesis
  proof (cases "use_eagle \<and> 0 < l1")
    case True
    have "Suc (window_depth True s - 1) = ?k" using True by (simp add: window_depth_def)
    note D = drop_last_windows [OF R(1) g, of p hs "window_depth True s - 1" l1, unfolded this, OF R(5)]
    show ?thesis using True find D R by (intro exI [of _ "map butlast c1"] exI [of _ l1]) auto
  next
    case False
    have "window_blocks p (gids ! j) hs (window_depth True s - 1) (l1 - 1) (c1 ! j)" if "use_eagle" "j < length gids" for j
      using False that R(5) [of j] by (auto simp: window_blocks_def)
    then show ?thesis using False find R by (intro exI [of _ c1] exI [of _ l1]) auto
  qed
qed

lemma window_find_spec:
  assumes "pool_inv p xs" and "groups_valid gids" and "0 < spec_block_size s" and "1 < sliding_window s" and "0 < al"
    and "max_length div spec_block_size s \<le> length hs" and "\<forall>i < length hs. view_at view i = Inr (hs ! i)"
  shows "\<exists>c l. window_find_longest_cache_hit p (SlidingWindowSpec s) view max_length gids False al 1 1 = Inr c
     \<and> length c = length gids \<and> l \<le> max_length div spec_block_size s
     \<and> window_hit (\<lambda>i. cached_in p gids (hs ! i)) (spec_block_size s) al (window_need s) l
     \<and> (\<forall>q. l < q \<longrightarrow> q \<le> max_length div spec_block_size s \<longrightarrow>
          \<not> window_hit (\<lambda>i. cached_in p gids (hs ! i)) (spec_block_size s) al (window_need s) q)
     \<and> (\<forall>j < length gids. window_blocks p (gids ! j) hs (window_need s) l (c ! j))"
  using window_find_general [OF assms(1-3,5-7), of False] window_depth_need [OF assms(3,4)] by auto

text \<open>
  C27. The lookup for a sliding window. Let \<open>k\<close> be the number of blocks the window reaches back behind the next token,
  at least one, and one more with EAGLE. The search finds the longest prefix, within the maximal length and at an aligned end,
  whose last \<open>k\<close> blocks (all, if it has fewer) are cached in every group; no longer prefix is such a hit.
  The lists returned have these blocks and null blocks before them, and with EAGLE their last block
  is dropped; EAGLE with an alignment other than the block size raises \<^verbatim>\<open>AssertionError\<close> when there is a hit, and so does any
  context parallelism.
\<close>

theorem window_cache_hit_longest:
  assumes "pool_inv p xs" and "groups_valid gids" and "0 < spec_block_size s" and "0 < al"
    and "max_length div spec_block_size s \<le> length hs" and "\<forall>i < length hs. view_at view i = Inr (hs ! i)"
  shows "(\<exists>c l. window_find_longest_cache_hit p (SlidingWindowSpec s) view max_length gids use_eagle al 1 1 =
       (if use_eagle \<and> 0 < l \<and> spec_block_size s \<noteq> al then Inl AssertionError else Inr c)
     \<and> length c = length gids \<and> l \<le> max_length div spec_block_size s
     \<and> window_hit (\<lambda>i. cached_in p gids (hs ! i)) (spec_block_size s) al (window_depth use_eagle s) l
     \<and> (\<forall>q. l < q \<longrightarrow> q \<le> max_length div spec_block_size s \<longrightarrow>
          \<not> window_hit (\<lambda>i. cached_in p gids (hs ! i)) (spec_block_size s) al (window_depth use_eagle s) q)
     \<and> (\<forall>j < length gids. if use_eagle then window_blocks p (gids ! j) hs (window_depth True s - 1) (l - 1) (c ! j)
          else window_blocks p (gids ! j) hs (window_depth False s) l (c ! j)))
   \<and> (dcp \<noteq> 1 \<or> pcp \<noteq> 1 \<longrightarrow>
        window_find_longest_cache_hit p (SlidingWindowSpec s) view max_length gids use_eagle al dcp pcp = Inl AssertionError)"
proof -
  have "dcp \<noteq> 1 \<or> pcp \<noteq> 1 \<Longrightarrow>
      window_find_longest_cache_hit p (SlidingWindowSpec s) view max_length gids use_eagle al dcp pcp = Inl AssertionError"
    by (cases "dcp = 1") (simp_all add: window_find_longest_cache_hit_def)
  then show ?thesis using window_find_general [OF assms, of use_eagle] by blast
qed

section \<open>Chunks and states\<close>

lemma mamba_scan_spec:
  assumes inv: "pool_inv p xs" and gids: "groups_valid gids" and hs: "\<And>m. m < n \<Longrightarrow> view_at view m = Inr (hs ! m)"
  shows "\<exists>c l. mamba_scan p gids view bs al n = Inr c \<and> length c = length gids \<and> l \<le> n
     \<and> (0 < l \<longrightarrow> l * bs mod al = 0 \<and> cached_in p gids (hs ! (l - 1)))
     \<and> (\<forall>q. l < q \<longrightarrow> q \<le> n \<longrightarrow> q * bs mod al \<noteq> 0 \<or> \<not> cached_in p gids (hs ! (q - 1)))
     \<and> (\<forall>j < length gids. window_blocks p (gids ! j) hs 1 l (c ! j))"
  using hs
proof (induction n)
  case 0
  then show ?case by (auto simp: window_blocks_def)
next
  case (Suc i)
  have h: "view_at view i = Inr (hs ! i)" using Suc.prems by simp
  show ?case
  proof (cases "cached_in p gids (hs ! i) \<and> Suc i * bs mod al = 0")
    case True
    then obtain cached where hit: "lookup_groups p gids (hs ! i) = Inr (Some cached)" "length cached = length gids"
      "\<And>j. j < length gids \<Longrightarrow> block_for p (gids ! j) (hs ! i) (cached ! j)"
      using lookup_groups_spec [OF inv gids, of "hs ! i"] by auto
    let ?c = "map (\<lambda>b. replicate i (null_block p) @ [b]) cached"
    have "mamba_scan p gids view bs al (Suc i) = Inr ?c" using True h hit by simp
    moreover have "\<forall>j < length gids. window_blocks p (gids ! j) hs 1 (Suc i) (?c ! j)"
      using hit by (auto simp: window_blocks_def nth_append less_Suc_eq)
    ultimately show ?thesis using True hit(2) by (intro exI [of _ ?c] exI [of _ "Suc i"]) auto
  next
    case False
    obtain c l where c: "mamba_scan p gids view bs al i = Inr c" "length c = length gids" "l \<le> i"
     "0 < l \<longrightarrow> l * bs mod al = 0 \<and> cached_in p gids (hs ! (l - 1))"
     "\<forall>q. l < q \<longrightarrow> q \<le> i \<longrightarrow> q * bs mod al \<noteq> 0 \<or> \<not> cached_in p gids (hs ! (q - 1))"
     "\<forall>j < length gids. window_blocks p (gids ! j) hs 1 l (c ! j)" using Suc by auto
    have "mamba_scan p gids view bs al (Suc i) = mamba_scan p gids view bs al i"
    proof (cases rule: lookup_cases [OF inv gids, of "hs ! i", case_names hit miss])
      case (hit cached)
      then show ?thesis using False h by auto
    qed (use h in simp)
    moreover have "\<forall>q. l < q \<longrightarrow> q \<le> Suc i \<longrightarrow> q * bs mod al \<noteq> 0 \<or> \<not> cached_in p gids (hs ! (q - 1))"
      using c(5) False by (auto simp: le_Suc_eq)
    ultimately show ?thesis using c by (metis le_SucI)
  qed
qed

lemma chunk_scan_spec:
  assumes inv: "pool_inv p xs" and gids: "groups_valid gids"
    and "\<forall>m \<in> set is. view_at view m = Inr (hs ! m)" and "length computed = length gids"
  shows "\<exists>c. chunk_scan p gids view is computed = Inr c \<and> length c = length gids \<and> (\<forall>j < length gids. \<exists>bs. c ! j = computed ! j @ bs
     \<and> blocks_for p (gids ! j) (map ((!) hs) (takeWhile (\<lambda>i. cached_in p gids (hs ! i)) is)) bs)"
  using assms(3,4)
proof (induction "is" arbitrary: computed)
  case (Cons i "is")
  have h: "view_at view i = Inr (hs ! i)" using Cons.prems by simp
  show ?case
  proof (cases rule: lookup_cases [OF inv gids, of "hs ! i", case_names hit miss])
    case (hit cached)
    let ?cs = "append_each computed cached" and ?tw = "takeWhile (\<lambda>i. cached_in p gids (hs ! i))"
    obtain c where c: "chunk_scan p gids view is ?cs = Inr c" "length c = length gids"
      "\<And>j. j < length gids \<Longrightarrow> \<exists>bs. c ! j = ?cs ! j @ bs \<and> blocks_for p (gids ! j) (map ((!) hs) (?tw is)) bs"
      using Cons.IH [of ?cs] Cons.prems hit by (auto simp: nth_append_each)
    have "\<exists>bs. c ! j = computed ! j @ bs \<and> blocks_for p (gids ! j) (map ((!) hs) (?tw (i # is))) bs" if j: "j < length gids" for j
    proof -
      obtain bs where "c ! j = ?cs ! j @ bs" "blocks_for p (gids ! j) (map ((!) hs) (?tw is)) bs" using c(3) [OF j] by blast
      then show ?thesis using hit j Cons.prems by (intro exI [of _ "cached ! j # bs"]) (simp add: nth_append_each blocks_for_def)
    qed
    then show ?thesis using hit c h by simp
  next
    case miss
    then show ?thesis using h Cons.prems by (simp add: blocks_for_def)
  qed
qed (simp add: blocks_for_def)

text \<open>The first block of the chunk that holds the last token within the maximal length.\<close>

definition chunk_start :: "chunked_local_spec \<Rightarrow> nat \<Rightarrow> nat" where
  "chunk_start s max_length = nat (int max_length div attention_chunk_size s * attention_chunk_size s div int (spec_block_size s))"

lemma chunk_start_le:
  assumes "0 < attention_chunk_size s" and "0 < spec_block_size s"
  shows "chunk_start s n \<le> n div spec_block_size s"
proof -
  have "int n div attention_chunk_size s * attention_chunk_size s \<le> int n"
    using le_div_iff_mult_le [OF assms(1), of "int n div attention_chunk_size s" "int n"] by simp
  then have "int n div attention_chunk_size s * attention_chunk_size s div int (spec_block_size s) \<le> int n div int (spec_block_size s)"
    using assms(2) by (intro zdiv_mono1) auto
  then show ?thesis by (simp add: chunk_start_def zdiv_int nat_le_iff flip: zdiv_int)
qed

lemma chunk_find_spec:
  assumes "pool_inv p xs" and "groups_valid gids" and "\<forall>i < length hs. view_at view i = Inr (hs ! i)"
    and "0 < attention_chunk_size s" "0 < spec_block_size s" "max_length div spec_block_size s \<le> length hs"
  shows "\<exists>c. chunk_find_longest_cache_hit p (ChunkedLocalAttentionSpec s) view max_length gids False (spec_block_size s) 1 1 = Inr c
       \<and> length c = length gids \<and> (\<forall>j < length gids. \<exists>bs. c ! j = replicate (chunk_start s max_length) (null_block p) @ bs
          \<and> blocks_for p (gids ! j) (map ((!) hs) (takeWhile (\<lambda>i. cached_in p gids (hs ! i))
               [chunk_start s max_length..<max_length div spec_block_size s])) bs)"
proof -
  let ?n = "max_length div spec_block_size s"
  let ?c0 = "map (\<lambda>_. replicate (chunk_start s max_length) (null_block p)) gids"
  have hs: "\<forall>m \<in> set [chunk_start s max_length..<?n]. view_at view m = Inr (hs ! m)" using assms(3,6) by auto
  have start: "nat ((if 0 < max_length then int max_length div attention_chunk_size s * attention_chunk_size s else 0)
      div int (spec_block_size s)) = chunk_start s max_length" by (simp add: chunk_start_def)
  have n: "nat (int max_length div int (spec_block_size s)) = ?n" by (simp flip: zdiv_int)
  have "chunk_find_longest_cache_hit p (ChunkedLocalAttentionSpec s) view max_length gids False (spec_block_size s) 1 1
      = chunk_scan p gids view [chunk_start s max_length..<?n] ?c0"
    using assms(4,5) start n by (cases "0 < max_length") (simp_all add: chunk_find_longest_cache_hit_def Let_def)
  then show ?thesis using chunk_scan_spec [OF assms(1,2) hs, of ?c0] by auto
qed

lemma mamba_find_spec:
  assumes "pool_inv p xs" and "groups_valid gids" and "\<forall>i < length hs. view_at view i = Inr (hs ! i)"
    and "0 < spec_block_size t" "max_length div spec_block_size t \<le> length hs"
  shows "\<exists>c l. mamba_find_longest_cache_hit p (MambaSpec t) view max_length gids use_eagle al 1 1 = Inr c
       \<and> length c = length gids \<and> l \<le> max_length div spec_block_size t
       \<and> (0 < l \<longrightarrow> l * spec_block_size t mod al = 0 \<and> cached_in p gids (hs ! (l - 1)))
       \<and> (\<forall>q. l < q \<longrightarrow> q \<le> max_length div spec_block_size t \<longrightarrow>
            q * spec_block_size t mod al \<noteq> 0 \<or> \<not> cached_in p gids (hs ! (q - 1)))
       \<and> (\<forall>j < length gids. window_blocks p (gids ! j) hs 1 l (c ! j))"
proof -
  have "\<And>m. m < max_length div spec_block_size t \<Longrightarrow> view_at view m = Inr (hs ! m)" using assms(3,5) by simp
  moreover have "mamba_find_longest_cache_hit p (MambaSpec t) view max_length gids use_eagle al 1 1
      = mamba_scan p gids view (spec_block_size t) al (max_length div spec_block_size t)"
    using assms(4) by (simp add: mamba_find_longest_cache_hit_def)
  ultimately show ?thesis using mamba_scan_spec [OF assms(1,2), of "max_length div spec_block_size t" view hs "spec_block_size t" al] by simp
qed

text \<open>
  For chunked local attention every block before the current chunk is a null block and
  the chunk contributes its leading cached blocks. For a state space layer the hit is the
  longest aligned prefix whose last block is cached; it is that block behind null blocks.
\<close>

theorem chunk_and_state_hits:
  assumes "pool_inv p xs" and "groups_valid gids" and "\<forall>i < length hs. view_at view i = Inr (hs ! i)"
    and "0 < attention_chunk_size s" "0 < spec_block_size s" "max_length div spec_block_size s \<le> length hs"
    and "0 < spec_block_size t" "max_length div spec_block_size t \<le> length hs" "0 < al"
  shows "(\<exists>c. chunk_find_longest_cache_hit p (ChunkedLocalAttentionSpec s) view max_length gids False (spec_block_size s) 1 1 = Inr c
       \<and> length c = length gids \<and> (\<forall>j < length gids. \<exists>bs. c ! j = replicate (chunk_start s max_length) (null_block p) @ bs
          \<and> blocks_for p (gids ! j) (map ((!) hs) (takeWhile (\<lambda>i. cached_in p gids (hs ! i))
               [chunk_start s max_length..<max_length div spec_block_size s])) bs))
     \<and> (\<exists>c l. mamba_find_longest_cache_hit p (MambaSpec t) view max_length gids use_eagle al 1 1 = Inr c
       \<and> length c = length gids \<and> l \<le> max_length div spec_block_size t
       \<and> (0 < l \<longrightarrow> l * spec_block_size t mod al = 0 \<and> cached_in p gids (hs ! (l - 1)))
       \<and> (\<forall>q. l < q \<longrightarrow> q \<le> max_length div spec_block_size t \<longrightarrow>
            q * spec_block_size t mod al \<noteq> 0 \<or> \<not> cached_in p gids (hs ! (q - 1)))
       \<and> (\<forall>j < length gids. window_blocks p (gids ! j) hs 1 l (c ! j)))"
  using chunk_find_spec [OF assms(1-6)] mamba_find_spec [OF assms(1-3,7,8)] by blast

section \<open>Witnesses\<close>

text \<open>A pool whose block 1 is cached under the hash \<open>[9]\<close> of group 0, and nothing else is.\<close>

lemma hit_pool_example:
  "\<exists>p. pool_inv p (map Blk [1..<4]) \<and> usable p = Blk ` {1..<4} \<and> cached_in p [0] [9] \<and> \<not> cached_in p [0] [8]"
proof -
  obtain p0 where p0: "pool_inv p0 (map Blk [1..<4])" "usable p0 = Blk ` {1..<4}"
      "\<not> enable_kv_cache_events p0" "hash_block_size p0 = 2" "\<And>i. block_hash (heap p0 (Blk i)) = None"
    using BlockPool_spec [of 4 True 2 False False] by auto
  have h: "\<forall>b \<in> set (pyslice [Blk 1] 0 1). b \<in> holdable p0 \<and> (b \<noteq> Blk 0 \<longrightarrow> block_hash (heap p0 b) = None)"
    using p0(2,5) by (simp add: pyslice_def holdable_def)
  let ?r = "(sample_request [1, 2] 2)\<lparr>block_hashes := [[9]]\<rparr>"
  obtain p where p: "pool_inv p (map Blk [1..<4])" "usable p = usable p0"
     "\<And>a. a \<notin> {Blk 1} \<Longrightarrow> block_hash (heap p a) = block_hash (heap p0 a)"
     "block_hash (heap p (Blk 1)) = Some (group_key [9] 0)"
  proof -
    have pre: "(0::nat) < 1" "1 \<le> length [Blk 1]" "1 \<le> length (block_hashes ?r)" "0 \<le> (0::int)" "(0::int) < 2 ^ 32"
      "distinct (filter (\<lambda>b. b \<noteq> Blk 0) (pyslice [Blk 1] 0 1))" by (simp_all add: pyslice_def)
    obtain p where q: "pool_inv p (map Blk [1..<4])" "usable p = usable p0"
       "\<forall>a. a \<notin> set (pyslice [Blk 1] 0 1) \<longrightarrow> block_hash (heap p a) = block_hash (heap p0 a)"
       "\<forall>i. 0 \<le> i \<and> i < 1 \<and> [Blk 1] ! i \<noteq> Blk 0 \<longrightarrow> block_hash (heap p ([Blk 1] ! i)) = Some (group_key (block_hashes ?r ! i) 0)"
      using cache_full_blocks_total [OF p0(1,3) pre(1-3) p0(4) [symmetric] pre(4,5) h pre(6), of toy_env]
      by (elim exE conjE) (rule that, assumption+)
    from q(4) [rule_format, of 0] have "block_hash (heap p (Blk 1)) = Some (group_key [9] 0)" by simp
    moreover have "a \<notin> {Blk 1} \<Longrightarrow> block_hash (heap p a) = block_hash (heap p0 a)" for a using q(3) by (simp add: pyslice_def)
    ultimately show ?thesis using that q(1,2) by blast
  qed
  have "cached_in p [0] [9]" using p p0(2) by (auto simp: cached_in_def block_for_def)
  moreover have "block_hash (heap p (Blk i)) \<noteq> Some (group_key [8] 0)" for i
    using p(3) [of "Blk i"] p(4) p0(5) [of i] group_key_inj [of 0 0 "[9]" "[8]"] by (cases "i = 1") auto
  then have "\<not> cached_in p [0] [8]" using p(2) p0(2) by (auto simp: cached_in_def block_for_def)
  ultimately show ?thesis using p p0(2) by auto
qed

lemma groups_valid_0: "groups_valid [0]"
  by (simp add: groups_valid_def)

definition hit_full_spec :: layer_spec where
  "hit_full_spec = FullAttentionSpec \<lparr>spec_block_size = 2, num_kv_heads = 1, head_size = 2, dtype = ''float16'',
     page_size_padded = None, head_size_v = 2, full_sliding_window = None, full_attention_chunk_size = None\<rparr>"

definition hit_window_spec :: sliding_window_spec where
  "hit_window_spec = \<lparr>spec_block_size = 2, num_kv_heads = 1, head_size = 2, dtype = ''float16'',
     page_size_padded = None, sliding_window = 3\<rparr>"

definition hit_chunk_spec :: chunked_local_spec where
  "hit_chunk_spec = \<lparr>spec_block_size = 2, num_kv_heads = 1, head_size = 2, dtype = ''float16'',
     page_size_padded = None, attention_chunk_size = 4\<rparr>"

definition hit_mamba_spec :: mamba_spec where
  "hit_mamba_spec = \<lparr>spec_block_size = 2, shapes = [], dtypes = [], mamba_page_size_padded = None,
     mamba_type = ''mamba2'', mamba_cache_mode = ''none'', num_speculative_blocks = 0\<rparr>"

theorem full_cache_hit_longest_witness:
  "\<exists>p c. cached_in p [0] [9] \<and> full_find_longest_cache_hit p hit_full_spec (Hash_list [[9], [8]]) 5 [0] False 2 1 1 = Inr c
     \<and> length (c ! 0) = 1"
proof -
  obtain p where p: "pool_inv p (map Blk [1..<4])" "cached_in p [0] [9]" "\<not> cached_in p [0] [8]" using hit_pool_example by blast
  have bs: "full_block_size hit_full_spec 1 1 = 2" by (simp add: full_block_size_def hit_full_spec_def)
  have n: "hit_length p [0] (take (5 div 2) [[9], [8]]) = 1" using p by (simp add: hit_length_def)
  obtain c r where c: "full_find_longest_cache_hit p hit_full_spec (Hash_list [[9], [8]]) 5 [0] False 2 1 1 = Inr c"
    "blocks_for p 0 (take r [[9], [8]]) (c ! 0)" "r \<le> 1" "\<forall>q. r < q \<longrightarrow> q \<le> 1 \<longrightarrow> q * 2 mod 2 \<noteq> (0::nat)"
    using full_cache_hit_longest [OF p(1) groups_valid_0, of hit_full_spec 1 1 2 "Hash_list [[9], [8]]" "[[9], [8]]" 5 False] bs n
    by (auto simp: hit_full_spec_def Let_def)
  then have "r = 1" by (cases "r = 0") (auto simp: le_Suc_eq)
  then show ?thesis using c p(2) blocks_for_length [OF c(2)] by auto
qed

theorem window_cache_hit_longest_witness:
  "\<exists>p c. cached_in p [0] [9] \<and> window_find_longest_cache_hit p (SlidingWindowSpec hit_window_spec) (Hash_list [[8], [9], [8]]) 6 [0] False 2 1 1 = Inr c
     \<and> window_blocks p 0 [[8], [9], [8]] 1 2 (c ! 0)"
proof -
  obtain p where p: "pool_inv p (map Blk [1..<4])" "cached_in p [0] [9]" "\<not> cached_in p [0] [8]" using hit_pool_example by blast
  let ?hs = "[[8], [9], [8]] :: bytes list" let ?hit = "window_hit (\<lambda>i. cached_in p [0] (?hs ! i)) 2 2 1"
  have s: "spec_block_size hit_window_spec = 2" "window_depth False hit_window_spec = 1"
    by (simp_all add: window_depth_def hit_window_spec_def cdiv_def)
  have pre: "0 < spec_block_size hit_window_spec" "(0::nat) < 2"
    "6 div spec_block_size hit_window_spec \<le> length ?hs" "\<forall>i < length ?hs. view_at (Hash_list ?hs) i = Inr (?hs ! i)"
    by (simp_all add: s)
  have n: "6 div 2 = (3::nat)" by simp
  obtain c l where c: "window_find_longest_cache_hit p (SlidingWindowSpec hit_window_spec) (Hash_list ?hs) 6 [0] False 2 1 1 = Inr c"
    "l \<le> 3" "?hit l" "\<forall>q. l < q \<longrightarrow> q \<le> 3 \<longrightarrow> \<not> ?hit q" "\<forall>j < length [0::int]. window_blocks p ([0] ! j) ?hs 1 l (c ! j)"
    using window_cache_hit_longest [OF p(1) groups_valid_0 pre, of False 1 1] unfolding s n by auto
  have "?hit 2" using p(2) by (auto simp: window_hit_def less_2_cases_iff)
  moreover have "\<not> ?hit 3" using p(3) by (auto simp: window_hit_def intro!: exI [of _ 2])
  moreover have "l = 2 \<or> l = 3 \<or> l < 2" using c(2) by linarith
  ultimately have "l = 2" using c(3,4) by fastforce
  then show ?thesis using c(1,5) p(2) by auto
qed

theorem chunk_and_state_hits_witness:
  "\<exists>p c. cached_in p [0] [9]
     \<and> chunk_find_longest_cache_hit p (ChunkedLocalAttentionSpec hit_chunk_spec) (Hash_list [[8], [8], [9]]) 6 [0] False 2 1 1 = Inr c
     \<and> length (c ! 0) = 3"
proof -
  obtain p where p: "pool_inv p (map Blk [1..<4])" "cached_in p [0] [9]" using hit_pool_example by blast
  let ?hs = "[[8], [8], [9]] :: bytes list"
  have s: "spec_block_size hit_chunk_spec = 2" "attention_chunk_size hit_chunk_spec = 4" "chunk_start hit_chunk_spec 6 = 2"
    "spec_block_size hit_mamba_spec = 2"
    by (simp_all add: chunk_start_def hit_chunk_spec_def hit_mamba_spec_def)
  have pre: "\<forall>i < length ?hs. view_at (Hash_list ?hs) i = Inr (?hs ! i)"
    "0 < attention_chunk_size hit_chunk_spec" "0 < spec_block_size hit_chunk_spec" "6 div spec_block_size hit_chunk_spec \<le> length ?hs"
    "0 < spec_block_size hit_mamba_spec" "6 div spec_block_size hit_mamba_spec \<le> length ?hs" "(0::nat) < 2"
    by (simp_all add: s)
  have n: "6 div 2 = (3::nat)" by simp
  have u: "[2..<3] = [2::nat]" by (simp add: numeral_3_eq_3 numeral_2_eq_2)
  obtain c where c: "chunk_find_longest_cache_hit p (ChunkedLocalAttentionSpec hit_chunk_spec) (Hash_list ?hs) 6 [0] False 2 1 1 = Inr c"
    "\<forall>j < length [0::int]. \<exists>bs. c ! j = replicate 2 (null_block p) @ bs \<and>
       blocks_for p ([0] ! j) (map ((!) ?hs) (takeWhile (\<lambda>i. cached_in p [0] (?hs ! i)) [2..<3])) bs"
    using chunk_and_state_hits [OF p(1) groups_valid_0 pre] unfolding s n by blast
  then obtain bs where "c ! 0 = replicate 2 (null_block p) @ bs" "blocks_for p 0 [[9]] bs"
    using p(2) by (auto simp: u)
  then show ?thesis using c(1) p(2) blocks_for_length [of p 0 "[[9]]" bs] by auto
qed


end
