(* ===== verification/Cache_Manager.thy ===== *)
theory Cache_Manager
  imports Cache_Hit
begin

text \<open>
  The single-type managers of \<^verbatim>\<open>src/vllm/v1/core/single_type_kv_cache_manager.py\<close>. One
  record holds the fields of the base class and of the subclasses; the class of a manager
  is the one \<^verbatim>\<open>spec_manager_map\<close> gives for its format, and the methods dispatch on it. The
  block pool, which all managers share, is passed and returned explicitly. Block sizes are
  positive. Reading a missing key of \<^verbatim>\<open>req_to_blocks\<close>, a \<^verbatim>\<open>defaultdict\<close>, inserts it.
\<close>

section \<open>The manager record\<close>

record manager =
  mgr_spec :: layer_spec
  mgr_block_size :: nat
  mgr_enable_caching :: bool
  new_block_ids :: "int list"
  req_to_blocks :: "(string \<times> block_ref list) list"
  num_cached_block :: "string \<rightharpoonup> nat"
  kv_cache_group_id :: int
  mgr_null_block :: block_ref
  cached_blocks_this_step :: "bytes set"
  last_state_block_idx :: "string \<rightharpoonup> int"
  allocated_block_reqs :: "string set"
  sink_blocks :: "block_ref list"

definition SingleTypeKVCacheManager :: "layer_spec \<Rightarrow> block_pool \<Rightarrow> bool \<Rightarrow> int \<Rightarrow> nat \<Rightarrow> nat \<Rightarrow> manager" where
  "SingleTypeKVCacheManager spec p caching group_id dcp pcp =
     \<lparr>mgr_spec = spec,
      mgr_block_size = (if 1 < dcp * pcp then block_size_of spec * (dcp * pcp) else block_size_of spec),
      mgr_enable_caching = caching, new_block_ids = [], req_to_blocks = [], num_cached_block = Map.empty,
      kv_cache_group_id = group_id, mgr_null_block = null_block p, cached_blocks_this_step = {},
      last_state_block_idx = Map.empty, allocated_block_reqs = {}, sink_blocks = []\<rparr>"

definition SinkFullAttentionManager_init :: "sink_attention_spec \<Rightarrow> manager \<Rightarrow> block_pool \<Rightarrow> (manager \<times> block_pool) result" where
  "SinkFullAttentionManager_init s m p =
     (case sink_len s of
        None \<Rightarrow> Inl AssertionError
      | Some n \<Rightarrow>
          rbind (ensure (0 < n \<and> n mod int (mgr_block_size m) = 0) AssertionError) (\<lambda>_.
          rbind (popleft_n (n div int (mgr_block_size m)) p) (\<lambda>(bs, p). Inr (m\<lparr>sink_blocks := bs\<rparr>, p))))"

definition get_manager_for_kv_cache_spec :: "layer_spec \<Rightarrow> bool \<Rightarrow> int \<Rightarrow> nat \<Rightarrow> nat \<Rightarrow> block_pool \<Rightarrow> (manager \<times> block_pool) result" where
  "get_manager_for_kv_cache_spec spec caching group_id dcp pcp p =
     (let m = SingleTypeKVCacheManager spec p caching group_id dcp pcp
      in case spec_manager_map spec of
           None \<Rightarrow> Inl KeyError
         | Some _ \<Rightarrow> (case spec of SinkFullAttentionSpec s \<Rightarrow> SinkFullAttentionManager_init s m p | _ \<Rightarrow> Inr (m, p)))"

section \<open>Dictionaries of requests\<close>

definition blocks_of_req :: "manager \<Rightarrow> string \<Rightarrow> block_ref list" where
  "blocks_of_req m rid = (case map_of (req_to_blocks m) rid of None \<Rightarrow> [] | Some bs \<Rightarrow> bs)"

definition set_req_blocks :: "string \<Rightarrow> block_ref list \<Rightarrow> manager \<Rightarrow> manager" where
  "set_req_blocks rid bs m = m\<lparr>req_to_blocks := AList.update rid bs (req_to_blocks m)\<rparr>"

text \<open>\<^verbatim>\<open>self.req_to_blocks[request_id]\<close>\<close>

definition default_req :: "string \<Rightarrow> manager \<Rightarrow> manager" where
  "default_req rid m = set_req_blocks rid (blocks_of_req m rid) m"

definition is_plain_full :: "layer_spec \<Rightarrow> bool" where
  "is_plain_full s = (case s of FullAttentionSpec _ \<Rightarrow> True | _ \<Rightarrow> False)"

section \<open>The methods of the base class\<close>

definition get_num_evictable_blocks :: "block_pool \<Rightarrow> block_ref list \<Rightarrow> int" where
  "get_num_evictable_blocks p blocks =
     int (length (filter (\<lambda>b. ref_cnt (heap p b) = 0 \<and> \<not> is_null (heap p b)) blocks))"

definition get_num_skipped_tokens :: "manager \<Rightarrow> int \<Rightarrow> int" where
  "get_num_skipped_tokens m computed_tokens =
     (case mgr_spec m of
        SlidingWindowSpec s \<Rightarrow> max 0 (computed_tokens - sliding_window s + 1)
      | ChunkedLocalAttentionSpec s \<Rightarrow> computed_tokens div attention_chunk_size s * attention_chunk_size s
      | MambaSpec s \<Rightarrow> computed_tokens - 1
      | _ \<Rightarrow> 0)"

definition base_get_num_blocks_to_allocate :: "string \<Rightarrow> int \<Rightarrow> block_ref list \<Rightarrow> int \<Rightarrow> manager \<Rightarrow> block_pool \<Rightarrow> int result" where
  "base_get_num_blocks_to_allocate rid n_tokens new_computed_blocks total_computed_tokens m p =
     (let bs = int (mgr_block_size m);
          num_required_blocks = cdiv n_tokens bs;
          num_req_blocks = int (length (blocks_of_req m rid))
      in if num_cached_block m rid \<noteq> None
         then rbind (ensure (new_computed_blocks = []) AssertionError) (\<lambda>_. Inr (max (num_required_blocks - num_req_blocks) 0))
         else
           let num_skipped_tokens = get_num_skipped_tokens m total_computed_tokens;
               num_local_computed_blocks = int (length new_computed_blocks) + num_req_blocks;
               num_skipped_blocks = num_skipped_tokens div bs;
               num_new_blocks = max (num_required_blocks - max num_skipped_blocks num_local_computed_blocks) 0;
               num_skipped_new_computed_blocks = max 0 (num_skipped_blocks - num_req_blocks)
           in Inr (num_new_blocks + get_num_evictable_blocks p (drop (nat num_skipped_new_computed_blocks) new_computed_blocks)))"

definition base_allocate_new_computed_blocks :: "string \<Rightarrow> block_ref list \<Rightarrow> int \<Rightarrow> int \<Rightarrow> manager \<Rightarrow> block_pool
     \<Rightarrow> (manager \<times> block_pool) result" where
  "base_allocate_new_computed_blocks rid new_computed_blocks num_local num_external m p =
     (if num_cached_block m rid \<noteq> None
      then rbind (ensure (new_computed_blocks = []) AssertionError) (\<lambda>_. Inr (m, p))
      else
        rbind (ensure (blocks_of_req m rid = []) AssertionError) (\<lambda>_.
        let bs = int (mgr_block_size m);
            num_total_computed_tokens = num_local + num_external;
            num_skipped_tokens = get_num_skipped_tokens m num_total_computed_tokens;
            num_skipped_blocks = num_skipped_tokens div bs;
            new_computed_blocks = (if 0 < num_skipped_blocks then drop (nat num_skipped_blocks) new_computed_blocks else new_computed_blocks);
            num_external = (if 0 < num_skipped_blocks then min (num_total_computed_tokens - num_skipped_tokens) num_external else num_external)
        in rbind (if mgr_enable_caching m then touch new_computed_blocks p
                  else rbind (ensure (new_computed_blocks = []) AssertionError) (\<lambda>_. Inr p)) (\<lambda>p.
           let req_blocks = replicate (nat num_skipped_blocks) (mgr_null_block m) @ new_computed_blocks;
               m = m\<lparr>num_cached_block := (num_cached_block m)(rid \<mapsto> length req_blocks)\<rparr>
           in if 0 < num_external
              then rbind (get_new_blocks (cdiv num_total_computed_tokens bs - int (length req_blocks)) p) (\<lambda>(allocated, p).
                Inr ((set_req_blocks rid (req_blocks @ allocated) m)
                       \<lparr>new_block_ids := new_block_ids m
                          @ (if is_plain_full (mgr_spec m) then map (\<lambda>b. block_id (heap p b)) allocated else [])\<rparr>, p))
              else Inr (set_req_blocks rid req_blocks m, p))))"

definition base_allocate_new_blocks :: "string \<Rightarrow> int \<Rightarrow> manager \<Rightarrow> block_pool \<Rightarrow> (block_ref list \<times> manager \<times> block_pool) result" where
  "base_allocate_new_blocks rid n_tokens m p =
     (let m = default_req rid m;
          req_blocks = blocks_of_req m rid;
          num_required_blocks = cdiv n_tokens (int (mgr_block_size m));
          num_new_blocks = num_required_blocks - int (length req_blocks)
      in if num_new_blocks \<le> 0 then Inr ([], m, p)
         else rbind (get_new_blocks num_new_blocks p) (\<lambda>(new_blocks, p).
           Inr (new_blocks, (set_req_blocks rid (req_blocks @ new_blocks) m)
                  \<lparr>new_block_ids := new_block_ids m
                     @ (if is_plain_full (mgr_spec m) then map (\<lambda>b. block_id (heap p b)) new_blocks else [])\<rparr>, p)))"

definition take_new_block_ids :: "manager \<Rightarrow> int list \<times> manager" where
  "take_new_block_ids m = (new_block_ids m, m\<lparr>new_block_ids := []\<rparr>)"

definition base_cache_blocks :: "hash_env \<Rightarrow> request \<Rightarrow> int \<Rightarrow> manager \<Rightarrow> block_pool \<Rightarrow> (request \<times> manager \<times> block_pool) result" where
  "base_cache_blocks env r n_tokens m p =
     (let rid = request_id r;
          num_cached_blocks = (case num_cached_block m rid of None \<Rightarrow> 0 | Some n \<Rightarrow> n);
          num_full_blocks = n_tokens div int (mgr_block_size m)
      in if num_full_blocks \<le> int num_cached_blocks then Inr (r, m, p)
         else
           let m = default_req rid m
           in rbind (cache_full_blocks env r (blocks_of_req m rid) num_cached_blocks (nat num_full_blocks)
                      (mgr_block_size m) (kv_cache_group_id m) p) (\<lambda>(r, p).
              Inr (r, m\<lparr>num_cached_block := (num_cached_block m)(rid \<mapsto> nat num_full_blocks)\<rparr>, p)))"

definition base_free :: "string \<Rightarrow> manager \<Rightarrow> block_pool \<Rightarrow> (manager \<times> block_pool) result" where
  "base_free rid m p =
     (let req_blocks = blocks_of_req m rid;
          m = m\<lparr>req_to_blocks := AList.delete rid (req_to_blocks m)\<rparr>
      in rbind (free_blocks (rev req_blocks) p) (\<lambda>p.
           Inr (m\<lparr>num_cached_block := (num_cached_block m)(rid := None)\<rparr>, p)))"

fun skip_loop :: "block_ref \<Rightarrow> nat \<Rightarrow> block_ref list \<Rightarrow> block_ref list \<Rightarrow> block_ref list \<times> block_ref list" where
  "skip_loop null 0 blocks removed = (blocks, removed)"
| "skip_loop null (Suc i) blocks removed =
     (if blocks ! i = null then (blocks, removed) else skip_loop null i (blocks[i := null]) (removed @ [blocks ! i]))"

definition base_remove_skipped_blocks :: "string \<Rightarrow> int \<Rightarrow> manager \<Rightarrow> block_pool \<Rightarrow> (manager \<times> block_pool) result" where
  "base_remove_skipped_blocks rid total_computed_tokens m p =
     (let num_skipped_tokens = get_num_skipped_tokens m total_computed_tokens
      in if num_skipped_tokens \<le> 0 then Inr (m, p)
         else
           let m = default_req rid m;
               blocks = blocks_of_req m rid;
               num_skipped_blocks = min (num_skipped_tokens div int (mgr_block_size m)) (int (length blocks));
               (blocks, removed) = skip_loop (mgr_null_block m) (nat num_skipped_blocks) blocks []
           in rbind (free_blocks removed p) (\<lambda>p. Inr (set_req_blocks rid blocks m, p)))"

section \<open>MambaManager\<close>

definition mamba_get_num_blocks_to_allocate :: "mamba_spec \<Rightarrow> string \<Rightarrow> int \<Rightarrow> block_ref list \<Rightarrow> int \<Rightarrow> int \<Rightarrow> manager \<Rightarrow> block_pool
     \<Rightarrow> (int \<times> manager) result" where
  "mamba_get_num_blocks_to_allocate s rid n_tokens new_computed_blocks total_computed_tokens num_tokens_main_model m p =
     (if new_computed_blocks \<noteq> [] \<and> (case block_hash (heap p (last new_computed_blocks)) of
            None \<Rightarrow> False | Some h \<Rightarrow> h \<in> cached_blocks_this_step m)
      then Inr (int (num_gpu_blocks p) + 1, m)
      else if mamba_cache_mode s \<noteq> ''align''
      then
        let n_tokens = (if 0 < num_speculative_blocks s
                          then n_tokens + int (spec_block_size s) * num_speculative_blocks s else n_tokens)
        in rbind (base_get_num_blocks_to_allocate rid n_tokens new_computed_blocks total_computed_tokens m p) (\<lambda>n. Inr (n, m))
      else
        let num_required_blocks = cdiv num_tokens_main_model (int (mgr_block_size m)) + num_speculative_blocks s;
            m = default_req rid m;
            num_new_blocks = num_required_blocks - int (length new_computed_blocks) - int (length (blocks_of_req m rid));
            num_new_blocks = (if 0 < num_new_blocks
                              then (if rid \<in> allocated_block_reqs m then 1 else 1 + num_speculative_blocks s)
                              else num_new_blocks)
        in Inr (num_new_blocks + get_num_evictable_blocks p new_computed_blocks, m))"

text \<open>The loop that moves the speculative blocks of the previous step to the end.\<close>

fun reuse_loop :: "block_ref \<Rightarrow> int \<Rightarrow> int list \<Rightarrow> block_ref list \<Rightarrow> block_ref list result" where
  "reuse_loop null num_skipped [] blocks = Inr blocks"
| "reuse_loop null num_skipped (i # is) blocks =
     (if i < num_skipped
      then rbind (py_index blocks i) (\<lambda>b.
        let blocks = blocks @ [b]
        in reuse_loop null num_skipped is (blocks[nat (if i < 0 then int (length blocks) + i else i) := null]))
      else Inr blocks)"

definition mamba_allocate_aligned :: "mamba_spec \<Rightarrow> string \<Rightarrow> int \<Rightarrow> manager \<Rightarrow> block_pool
     \<Rightarrow> (block_ref list \<times> manager \<times> block_pool) result" where
  "mamba_allocate_aligned s rid n_tokens m p =
     (let spec = num_speculative_blocks s;
          m = default_req rid m;
          req_blocks = blocks_of_req m rid;
          num_required_blocks = cdiv n_tokens (int (mgr_block_size m)) + spec;
          prev_block_len = int (length req_blocks)
      in if num_required_blocks = prev_block_len then Inr ([], m, p)
         else rbind (ensure (prev_block_len < num_required_blocks) AssertionError) (\<lambda>_.
           let blocks_allocated = rid \<in> allocated_block_reqs m;
               m = (if blocks_allocated then m\<lparr>last_state_block_idx := (last_state_block_idx m)(rid \<mapsto> prev_block_len - 1 - spec)\<rparr>
                    else if 0 < prev_block_len then m\<lparr>last_state_block_idx := (last_state_block_idx m)(rid \<mapsto> prev_block_len - 1)\<rparr>
                    else m);
               num_skipped_blocks = num_required_blocks - spec - 1;
               req_blocks = req_blocks @ replicate (nat (num_skipped_blocks - prev_block_len)) (mgr_null_block m)
           in rbind (if blocks_allocated then reuse_loop (mgr_null_block m) num_skipped_blocks [prev_block_len - spec..prev_block_len - 1] req_blocks
                     else Inr req_blocks) (\<lambda>req_blocks.
              let num_new_blocks = num_required_blocks - int (length req_blocks)
              in rbind (ensure (num_new_blocks \<le> (if blocks_allocated then 1 else spec + 1)) AssertionError) (\<lambda>_.
                 rbind (get_new_blocks num_new_blocks p) (\<lambda>(new_blocks, p).
                 let req_blocks = req_blocks @ new_blocks
                 in Inr (drop (nat prev_block_len) req_blocks,
                         (set_req_blocks rid req_blocks m)\<lparr>allocated_block_reqs := insert rid (allocated_block_reqs m)\<rparr>, p)))))) "

definition mamba_allocate_new_blocks :: "mamba_spec \<Rightarrow> string \<Rightarrow> int \<Rightarrow> int \<Rightarrow> manager \<Rightarrow> block_pool
     \<Rightarrow> (block_ref list \<times> manager \<times> block_pool) result" where
  "mamba_allocate_new_blocks s rid n_tokens num_tokens_main_model m p =
     (if mamba_cache_mode s \<noteq> ''align''
      then base_allocate_new_blocks rid
             (if 0 < num_speculative_blocks s then n_tokens + int (mgr_block_size m) * num_speculative_blocks s else n_tokens) m p
      else mamba_allocate_aligned s rid num_tokens_main_model m p)"

definition mamba_remove_skipped_blocks :: "mamba_spec \<Rightarrow> string \<Rightarrow> int \<Rightarrow> manager \<Rightarrow> block_pool \<Rightarrow> (manager \<times> block_pool) result" where
  "mamba_remove_skipped_blocks s rid computed_tokens m p =
     (let computed_tokens = max 0 (computed_tokens - num_speculative_blocks s)
      in rbind (base_remove_skipped_blocks rid computed_tokens m p) (\<lambda>(m, p).
         if mamba_cache_mode s \<noteq> ''align'' then Inr (m, p)
         else case last_state_block_idx m rid of
                None \<Rightarrow> Inr (m, p)
              | Some i \<Rightarrow>
                  if i < cdiv computed_tokens (int (mgr_block_size m)) - 1
                  then
                    let m = default_req rid m; blocks = blocks_of_req m rid
                    in rbind (py_index blocks i) (\<lambda>b.
                       if b \<noteq> mgr_null_block m
                       then rbind (free_blocks [b] p) (\<lambda>p.
                         Inr (set_req_blocks rid (blocks[nat (if i < 0 then int (length blocks) + i else i) := mgr_null_block m]) m, p))
                       else Inr (m, p))
                  else Inr (m, p)))"

definition mamba_cache_blocks :: "hash_env \<Rightarrow> request \<Rightarrow> int \<Rightarrow> manager \<Rightarrow> block_pool \<Rightarrow> (request \<times> manager \<times> block_pool) result" where
  "mamba_cache_blocks env r n_tokens m p =
     (let num_before = (case num_cached_block m (request_id r) of None \<Rightarrow> 0 | Some n \<Rightarrow> n)
      in rbind (base_cache_blocks env r n_tokens m p) (\<lambda>(r, m, p).
         let num_after = (case num_cached_block m (request_id r) of None \<Rightarrow> 0 | Some n \<Rightarrow> n)
         in if num_before < num_after
            then rbind (rfold (\<lambda>b m. if is_null (heap p b) then Inr m
                    else case block_hash (heap p b) of None \<Rightarrow> Inl AssertionError
                         | Some h \<Rightarrow> Inr (m\<lparr>cached_blocks_this_step := insert h (cached_blocks_this_step m)\<rparr>))
                   (pyslice (blocks_of_req m (request_id r)) num_before num_after) (default_req (request_id r) m)) (\<lambda>m. Inr (r, m, p))
            else Inr (r, m, p)))"

definition mamba_free :: "mamba_spec \<Rightarrow> string \<Rightarrow> manager \<Rightarrow> block_pool \<Rightarrow> (manager \<times> block_pool) result" where
  "mamba_free s rid m p =
     (let m = (if mamba_cache_mode s = ''align''
               then m\<lparr>allocated_block_reqs := allocated_block_reqs m - {rid}, last_state_block_idx := (last_state_block_idx m)(rid := None)\<rparr>
               else m)
      in base_free rid m p)"

section \<open>Dispatch on the class of the manager\<close>

definition is_cross :: "manager \<Rightarrow> bool" where
  "is_cross m = (case mgr_spec m of CrossAttentionSpec _ \<Rightarrow> True | _ \<Rightarrow> False)"

definition get_num_blocks_to_allocate :: "string \<Rightarrow> int \<Rightarrow> block_ref list \<Rightarrow> int \<Rightarrow> int \<Rightarrow> manager \<Rightarrow> block_pool \<Rightarrow> (int \<times> manager) result" where
  "get_num_blocks_to_allocate rid n_tokens new_computed_blocks total_computed_tokens num_tokens_main_model m p =
     (case mgr_spec m of
        MambaSpec s \<Rightarrow> mamba_get_num_blocks_to_allocate s rid n_tokens new_computed_blocks total_computed_tokens num_tokens_main_model m p
      | _ \<Rightarrow> rbind (base_get_num_blocks_to_allocate rid n_tokens new_computed_blocks total_computed_tokens m p) (\<lambda>n. Inr (n, m)))"

definition allocate_new_computed_blocks :: "string \<Rightarrow> block_ref list \<Rightarrow> int \<Rightarrow> int \<Rightarrow> manager \<Rightarrow> block_pool \<Rightarrow> (manager \<times> block_pool) result" where
  "allocate_new_computed_blocks rid new_computed_blocks num_local num_external m p =
     (if is_cross m then rbind (ensure (new_computed_blocks = []) AssertionError) (\<lambda>_. Inr (m, p))
      else base_allocate_new_computed_blocks rid new_computed_blocks num_local num_external m p)"

definition allocate_new_blocks :: "string \<Rightarrow> int \<Rightarrow> int \<Rightarrow> manager \<Rightarrow> block_pool \<Rightarrow> (block_ref list \<times> manager \<times> block_pool) result" where
  "allocate_new_blocks rid n_tokens num_tokens_main_model m p =
     (case mgr_spec m of
        MambaSpec s \<Rightarrow> mamba_allocate_new_blocks s rid n_tokens num_tokens_main_model m p
      | _ \<Rightarrow> base_allocate_new_blocks rid n_tokens m p)"

definition cache_blocks :: "hash_env \<Rightarrow> request \<Rightarrow> int \<Rightarrow> manager \<Rightarrow> block_pool \<Rightarrow> (request \<times> manager \<times> block_pool) result" where
  "cache_blocks env r n_tokens m p =
     (case mgr_spec m of
        MambaSpec _ \<Rightarrow> mamba_cache_blocks env r n_tokens m p
      | CrossAttentionSpec _ \<Rightarrow> Inl ValueError
      | _ \<Rightarrow> base_cache_blocks env r n_tokens m p)"

definition free_req :: "string \<Rightarrow> manager \<Rightarrow> block_pool \<Rightarrow> (manager \<times> block_pool) result" where
  "free_req rid m p =
     (case mgr_spec m of MambaSpec s \<Rightarrow> mamba_free s rid m p | _ \<Rightarrow> base_free rid m p)"

definition remove_skipped_blocks :: "string \<Rightarrow> int \<Rightarrow> manager \<Rightarrow> block_pool \<Rightarrow> (manager \<times> block_pool) result" where
  "remove_skipped_blocks rid total_computed_tokens m p =
     (case mgr_spec m of
        MambaSpec s \<Rightarrow> mamba_remove_skipped_blocks s rid total_computed_tokens m p
      | _ \<Rightarrow> base_remove_skipped_blocks rid total_computed_tokens m p)"

definition get_num_common_prefix_blocks :: "string \<Rightarrow> manager \<Rightarrow> block_pool \<Rightarrow> nat \<times> manager" where
  "get_num_common_prefix_blocks rid m p =
     (if as_full (mgr_spec m) = None then (0, m)
      else
        let m = default_req rid m
        in (length (takeWhile (\<lambda>b. ref_cnt (heap p b) = int (length (req_to_blocks m))) (blocks_of_req m rid)), m))"

definition new_step_starts :: "manager \<Rightarrow> manager" where
  "new_step_starts m = (case mgr_spec m of MambaSpec _ \<Rightarrow> m\<lparr>cached_blocks_this_step := {}\<rparr> | _ \<Rightarrow> m)"

section \<open>Blocks held by requests\<close>

text \<open>How often a block occurs in the block lists of the requests of a manager.\<close>

definition occ :: "manager \<Rightarrow> block_ref \<Rightarrow> nat" where
  "occ m b = sum_list (map (\<lambda>(_, bs). count_list bs b) (req_to_blocks m))"

definition held_ok :: "block_pool \<Rightarrow> block_ref list \<Rightarrow> bool" where
  "held_ok p bs \<longleftrightarrow> set bs \<subseteq> holdable p \<and> distinct (filter (\<lambda>b. b \<noteq> Blk 0) bs)"

definition mamba_ok :: "manager \<Rightarrow> bool" where
  "mamba_ok m \<longleftrightarrow> (case mgr_spec m of
     MambaSpec s \<Rightarrow> 0 \<le> num_speculative_blocks s
       \<and> (\<forall>rid \<in> allocated_block_reqs m. num_speculative_blocks s < int (length (blocks_of_req m rid)))
       \<and> (\<forall>rid i. last_state_block_idx m rid = Some i \<longrightarrow> 0 \<le> i \<and> i < int (length (blocks_of_req m rid)))
       \<and> (mamba_cache_mode s \<noteq> ''align'' \<longrightarrow> allocated_block_reqs m = {} \<and> last_state_block_idx m = Map.empty)
   | _ \<Rightarrow> True)"

definition mgr_ok :: "block_pool \<Rightarrow> manager \<Rightarrow> bool" where
  "mgr_ok p m \<longleftrightarrow> distinct (map fst (req_to_blocks m)) \<and> mgr_null_block m = Blk 0 \<and> 0 < mgr_block_size m
     \<and> (\<forall>(_, bs) \<in> set (req_to_blocks m). held_ok p bs) \<and> mamba_ok m"

lemma blocks_of_set_req [simp]: "blocks_of_req (set_req_blocks rid bs m) r = (if r = rid then bs else blocks_of_req m r)"
  by (simp add: blocks_of_req_def set_req_blocks_def update_conv')

lemma set_req_fields [simp]:
  "mgr_spec (set_req_blocks rid bs m) = mgr_spec m" "mgr_block_size (set_req_blocks rid bs m) = mgr_block_size m"
  "mgr_enable_caching (set_req_blocks rid bs m) = mgr_enable_caching m" "num_cached_block (set_req_blocks rid bs m) = num_cached_block m"
  "kv_cache_group_id (set_req_blocks rid bs m) = kv_cache_group_id m" "mgr_null_block (set_req_blocks rid bs m) = mgr_null_block m"
  "allocated_block_reqs (set_req_blocks rid bs m) = allocated_block_reqs m" "last_state_block_idx (set_req_blocks rid bs m) = last_state_block_idx m"
  "new_block_ids (set_req_blocks rid bs m) = new_block_ids m"
  by (simp_all add: set_req_blocks_def)

lemma default_req_fields [simp]:
  "mgr_spec (default_req rid m) = mgr_spec m" "mgr_block_size (default_req rid m) = mgr_block_size m"
  "mgr_enable_caching (default_req rid m) = mgr_enable_caching m" "num_cached_block (default_req rid m) = num_cached_block m"
  "kv_cache_group_id (default_req rid m) = kv_cache_group_id m" "mgr_null_block (default_req rid m) = mgr_null_block m"
  "allocated_block_reqs (default_req rid m) = allocated_block_reqs m" "last_state_block_idx (default_req rid m) = last_state_block_idx m"
  "blocks_of_req (default_req rid m) r = blocks_of_req m r" "new_block_ids (default_req rid m) = new_block_ids m"
  by (simp_all add: default_req_def)

text \<open>Fields that the accounting does not read.\<close>

lemma mgr_ok_frame [simp]:
  "mgr_ok p (m\<lparr>new_block_ids := x\<rparr>) = mgr_ok p m" "mgr_ok p (m\<lparr>num_cached_block := y\<rparr>) = mgr_ok p m"
  "mgr_ok p (m\<lparr>cached_blocks_this_step := z\<rparr>) = mgr_ok p m"
  "occ (m\<lparr>new_block_ids := x\<rparr>) = occ m" "occ (m\<lparr>num_cached_block := y\<rparr>) = occ m" "occ (m\<lparr>cached_blocks_this_step := z\<rparr>) = occ m"
  "occ (m\<lparr>allocated_block_reqs := u\<rparr>) = occ m" "occ (m\<lparr>last_state_block_idx := v\<rparr>) = occ m"
  "blocks_of_req (m\<lparr>new_block_ids := x\<rparr>) = blocks_of_req m" "blocks_of_req (m\<lparr>num_cached_block := y\<rparr>) = blocks_of_req m"
  "blocks_of_req (m\<lparr>cached_blocks_this_step := z\<rparr>) = blocks_of_req m"
  "blocks_of_req (m\<lparr>allocated_block_reqs := u\<rparr>) = blocks_of_req m" "blocks_of_req (m\<lparr>last_state_block_idx := v\<rparr>) = blocks_of_req m"
  by (simp_all add: mgr_ok_def mamba_ok_def occ_def blocks_of_req_def fun_eq_iff cong: layer_spec.case_cong)

lemma sum_update:
  assumes "distinct (map fst d)"
  shows "sum_list (map (\<lambda>(_, bs). count_list bs b) (AList.update rid bs d)) + count_list (case map_of d rid of None \<Rightarrow> [] | Some c \<Rightarrow> c) b
     = sum_list (map (\<lambda>(_, bs). count_list bs b) d) + count_list bs b"
  using assms by (induction d) (auto split: option.splits)

lemma occ_set_req:
  "mgr_ok p m \<Longrightarrow> occ (set_req_blocks rid bs m) b + count_list (blocks_of_req m rid) b = occ m b + count_list bs b"
  using sum_update [of "req_to_blocks m"] by (simp add: occ_def set_req_blocks_def blocks_of_req_def mgr_ok_def)

lemma occ_default_req [simp]: "mgr_ok p m \<Longrightarrow> occ (default_req rid m) b = occ m b"
  using occ_set_req [of p m rid "blocks_of_req m rid" b] by (simp add: default_req_def)

lemma occ_ge: "mgr_ok p m \<Longrightarrow> count_list (blocks_of_req m rid) b \<le> occ m b"
  using occ_set_req [of p m rid "[]" b] by simp

lemma held_okD:
  assumes "mgr_ok p m"
  shows "held_ok p (blocks_of_req m rid)"
proof (cases "map_of (req_to_blocks m) rid")
  case (Some bs)
  then have "(rid, bs) \<in> set (req_to_blocks m)" by (rule map_of_SomeD)
  then show ?thesis using assms Some by (auto simp: mgr_ok_def blocks_of_req_def)
qed (simp add: blocks_of_req_def held_ok_def)

lemma set_req_ok:
  assumes "mgr_ok p m" and "held_ok p bs" and "length (blocks_of_req m rid) \<le> length bs"
  shows "mgr_ok p (set_req_blocks rid bs m)"
proof -
  have "held_ok p c" if "(r, c) \<in> set (AList.update rid bs (req_to_blocks m))" for r c
  proof -
    have "distinct (map fst (AList.update rid bs (req_to_blocks m)))" using assms(1) by (simp add: mgr_ok_def distinct_update)
    then have "map_of (AList.update rid bs (req_to_blocks m)) r = Some c" using that by simp
    then have "blocks_of_req (set_req_blocks rid bs m) r = c" by (simp add: blocks_of_req_def set_req_blocks_def)
    then show ?thesis using assms(2) held_okD [OF assms(1)] by (auto split: if_splits)
  qed
  moreover have "mamba_ok (set_req_blocks rid bs m)"
    using assms(1,3) by (fastforce simp: mgr_ok_def mamba_ok_def split: layer_spec.split)
  ultimately show ?thesis using assms(1) by (auto simp: mgr_ok_def set_req_blocks_def distinct_update)
qed

lemma default_req_ok [simp]: "mgr_ok p m \<Longrightarrow> mgr_ok p (default_req rid m)"
  unfolding default_req_def by (rule set_req_ok) (auto simp: held_okD)

lemma mgr_ok_usable: "usable p' = usable p \<Longrightarrow> mgr_ok p' m = mgr_ok p m"
  by (simp add: mgr_ok_def held_ok_def holdable_def)

lemma held_ok_usable: "usable p' = usable p \<Longrightarrow> held_ok p' bs = held_ok p bs"
  by (simp add: held_ok_def holdable_def)

lemma count_held: "held_ok p bs \<Longrightarrow> b \<in> usable p \<Longrightarrow> count_list bs b = (if b \<in> set bs then 1 else 0)"
proof -
  assume h: "held_ok p bs" and b: "b \<in> usable p"
  then have "b \<noteq> Blk 0" using usable_real(2) by blast
  then have "count_list bs b = count_list (filter (\<lambda>b. b \<noteq> Blk 0) bs) b" by (induction bs) auto
  then show ?thesis using h \<open>b \<noteq> Blk 0\<close> by (simp add: held_ok_def count_list_distinct)
qed


section \<open>The books of a manager\<close>

text \<open>
  \<open>books\<close>: the pool is consistent and no block is held by the requests of the manager more
  often than its reference count says. \<open>tracks\<close>: an operation changes the count of a block
  by exactly the number of entries it adds to or removes from the block lists, so that
  several managers can share one pool.
\<close>

definition books :: "block_pool \<Rightarrow> block_ref list \<Rightarrow> manager \<Rightarrow> bool" where
  "books p xs m \<longleftrightarrow> pool_inv p xs \<and> mgr_ok p m \<and> (\<forall>b \<in> usable p. int (occ m b) \<le> ref_cnt (heap p b))"

definition same_config :: "manager \<Rightarrow> manager \<Rightarrow> bool" where
  "same_config m m' \<longleftrightarrow> mgr_spec m' = mgr_spec m \<and> mgr_block_size m' = mgr_block_size m
     \<and> mgr_enable_caching m' = mgr_enable_caching m \<and> kv_cache_group_id m' = kv_cache_group_id m"

definition tracks :: "block_pool \<Rightarrow> manager \<Rightarrow> block_pool \<Rightarrow> manager \<Rightarrow> bool" where
  "tracks p m p' m' \<longleftrightarrow> usable p' = usable p \<and> mgr_ok p' m' \<and> same_config m m'
     \<and> (\<forall>b \<in> usable p. ref_cnt (heap p' b) - int (occ m' b) = ref_cnt (heap p b) - int (occ m b))"

lemma same_config_simps [simp]:
  "same_config m m" "same_config m (default_req rid m)" "same_config m (set_req_blocks rid bs m') = same_config m m'"
  "same_config m (m'\<lparr>req_to_blocks := v\<rparr>) = same_config m m'" "same_config m (m'\<lparr>num_cached_block := y\<rparr>) = same_config m m'"
  "same_config m (m'\<lparr>new_block_ids := x\<rparr>) = same_config m m'" "same_config m (m'\<lparr>cached_blocks_this_step := z\<rparr>) = same_config m m'"
  "same_config m (m'\<lparr>allocated_block_reqs := u\<rparr>) = same_config m m'" "same_config m (m'\<lparr>last_state_block_idx := w\<rparr>) = same_config m m'"
  by (simp_all add: same_config_def)

lemma same_config_trans: "same_config a b \<Longrightarrow> same_config b c \<Longrightarrow> same_config a c"
  by (simp add: same_config_def)

lemma booksD: "books p xs m \<Longrightarrow> pool_inv p xs" "books p xs m \<Longrightarrow> mgr_ok p m"
  "books p xs m \<Longrightarrow> b \<in> usable p \<Longrightarrow> int (occ m b) \<le> ref_cnt (heap p b)"
  by (auto simp: books_def)

lemma tracks_refl: "mgr_ok p m \<Longrightarrow> tracks p m p m"
  by (simp add: tracks_def)

lemma tracks_default: "mgr_ok p m \<Longrightarrow> tracks p m p (default_req rid m)"
  by (simp add: tracks_def)

lemma tracks_trans: "tracks p m p' m' \<Longrightarrow> tracks p' m' p'' m'' \<Longrightarrow> tracks p m p'' m''"
  by (auto simp: tracks_def intro: same_config_trans)

lemma books_tracks: "books p xs m \<Longrightarrow> tracks p m p' m' \<Longrightarrow> pool_inv p' xs' \<Longrightarrow> books p' xs' m'"
  unfolding books_def tracks_def by (metis diff_ge_0_iff_ge)

text \<open>Releasing some of the blocks of a request and putting null blocks in their place.\<close>

lemma release_spec:
  assumes b: "books p xs m" and sub: "set removed \<subseteq> set (blocks_of_req m rid)"
    and dist: "distinct (filter (\<lambda>b. b \<noteq> Blk 0) removed)"
    and held: "held_ok p bs'" "length (blocks_of_req m rid) \<le> length bs'"
    and cnt: "\<And>b. b \<in> usable p \<Longrightarrow> count_list bs' b + count_list removed b = count_list (blocks_of_req m rid) b"
  shows "\<exists>p' xs'. free_blocks removed p = Inr p' \<and> pool_inv p' (xs @ xs') \<and> tracks p m p' (set_req_blocks rid bs' m)
     \<and> (\<forall>a. block_hash (heap p' a) = block_hash (heap p a)) \<and> enable_caching p' = enable_caching p"
proof -
  note B = booksD [OF b]
  have sub': "set removed \<subseteq> holdable p" using sub held_okD [OF B(2), of rid] by (auto simp: held_ok_def)
  have rc: "count_list removed a = (if a \<in> set removed then 1 else 0)" if "a \<in> usable p" for a
    using count_held [of p removed a] sub' dist that by (simp add: held_ok_def)
  have refs: "0 < ref_cnt (heap p a)" if "a \<in> set removed" "a \<noteq> Blk 0" for a
  proof -
    have u: "a \<in> usable p" using that sub' by (auto simp: holdable_def)
    have "0 < count_list (blocks_of_req m rid) a" using cnt [OF u] rc [OF u] that(1) by simp
    then show ?thesis using occ_ge [OF B(2), of rid a] B(3) [OF u] by linarith
  qed
  obtain p' where p': "free_blocks removed p = Inr p'"
      "pool_inv p' (xs @ filter (\<lambda>b. b \<noteq> Blk 0 \<and> ref_cnt (heap p b) = 1) removed)" "usable p' = usable p"
      "\<And>a. a \<in> usable p \<Longrightarrow> ref_cnt (heap p' a) = ref_cnt (heap p a) - (if a \<in> set removed then 1 else 0)"
      "\<And>a. block_hash (heap p' a) = block_hash (heap p a)" "enable_caching p' = enable_caching p"
    using free_blocks_spec [OF B(1) sub' dist refs] by blast
  have "mgr_ok p' (set_req_blocks rid bs' m)"
    using set_req_ok [OF B(2) held] mgr_ok_usable [OF p'(3)] by simp
  moreover have "ref_cnt (heap p' a) - int (occ (set_req_blocks rid bs' m) a) = ref_cnt (heap p a) - int (occ m a)"
    if "a \<in> usable p" for a
    using p'(4) [OF that] rc [OF that] cnt [OF that] occ_set_req [OF B(2), of rid bs' a] by (auto split: if_splits)
  ultimately show ?thesis using p' by (auto simp: tracks_def)
qed

text \<open>Adding blocks that the pool hands out, all of them unreferenced before.\<close>

lemma acquire_spec:
  assumes b: "books p xs m" and n: "0 \<le> n" "n \<le> int (length xs)"
    and held: "held_ok p bs" "length (blocks_of_req m rid) \<le> length bs"
    and same: "\<And>b. b \<in> usable p \<Longrightarrow> count_list bs b = count_list (blocks_of_req m rid) b"
  shows "\<exists>p'. get_new_blocks n p = Inr (take (nat n) xs, p') \<and> pool_inv p' (drop (nat n) xs)
     \<and> tracks p m p' (set_req_blocks rid (bs @ take (nat n) xs) m) \<and> enable_caching p' = enable_caching p"
proof -
  note B = booksD [OF b] and I = pool_invD [OF booksD(1) [OF b]]
  let ?new = "take (nat n) xs"
  obtain p' where p': "get_new_blocks n p = Inr (?new, p')" "pool_inv p' (drop (nat n) xs)" "usable p' = usable p"
      "enable_caching p' = enable_caching p"
      "\<And>a. ref_cnt (heap p' a) = (if a \<in> set ?new then 1 else ref_cnt (heap p a))"
    using get_new_blocks_spec [OF B(1) n] by blast
  have new: "a \<in> usable p \<and> ref_cnt (heap p a) = 0" if "a \<in> set ?new" for a
    using that I(4) by (auto dest: in_set_takeD)
  have fresh: "a \<notin> set bs" if "a \<in> set ?new" for a
  proof -
    have "occ m a = 0" using B(3) [of a] new [OF that] by simp
    then have "count_list bs a = 0" using occ_ge [OF B(2), of rid a] same [of a] new [OF that] by simp
    then show ?thesis by (simp add: count_list_0_iff)
  qed
  have "distinct ?new" using I(6) by simp
  then have held': "held_ok p (bs @ ?new)"
    using held(1) new fresh by (auto simp: held_ok_def holdable_def distinct_filter)
  have "mgr_ok p' (set_req_blocks rid (bs @ ?new) m)"
    using set_req_ok [OF B(2) held'] held(2) mgr_ok_usable [OF p'(3)] by simp
  moreover have "ref_cnt (heap p' a) - int (occ (set_req_blocks rid (bs @ ?new) m) a) = ref_cnt (heap p a) - int (occ m a)"
    if "a \<in> usable p" for a
    using p'(5) [of a] new [of a] same [OF that] occ_set_req [OF B(2), of rid "bs @ ?new" a]
      count_list_distinct [OF \<open>distinct ?new\<close>, of a] by (auto split: if_splits)
  ultimately show ?thesis using p' by (auto simp: tracks_def)
qed

section \<open>free\<close>

lemma delete_req:
  assumes "mgr_ok p m"
    and "\<forall>s. mgr_spec m = MambaSpec s \<longrightarrow> rid \<notin> allocated_block_reqs m \<and> last_state_block_idx m rid = None"
  defines "m' \<equiv> m\<lparr>req_to_blocks := AList.delete rid (req_to_blocks m)\<rparr>"
  shows "mgr_ok p m'" "occ m' b + count_list (blocks_of_req m rid) b = occ m b"
    "blocks_of_req m' r = (if r = rid then [] else blocks_of_req m r)"
proof -
  show br: "blocks_of_req m' r = (if r = rid then [] else blocks_of_req m r)" for r
    by (simp add: blocks_of_req_def m'_def delete_conv')
  have d: "distinct (map fst (req_to_blocks m))" using assms(1) by (simp add: mgr_ok_def)
  have "mamba_ok m'" using assms(1,2) br by (fastforce simp: mgr_ok_def mamba_ok_def m'_def split: layer_spec.split)
  then show "mgr_ok p m'" using assms(1) alist_delete_set [OF d, of rid] by (auto simp: mgr_ok_def m'_def)
  have "sum_list (map (\<lambda>(_, bs). count_list bs b) (AList.delete rid e)) + count_list (case map_of e rid of None \<Rightarrow> [] | Some c \<Rightarrow> c) b
      = sum_list (map (\<lambda>(_, bs). count_list bs b) e)" if "distinct (map fst e)" for e
    using that
  proof (induction e)
    case (Cons x e)
    have "fst x \<notin> fst ` set e" using Cons.prems by auto
    then have "AList.delete (fst x) e = e" by (simp add: delete_idem)
    then show ?case using Cons by (cases x) (auto split: option.splits)
  qed simp
  from this [OF d] show "occ m' b + count_list (blocks_of_req m rid) b = occ m b" by (simp add: occ_def m'_def blocks_of_req_def)
qed

lemma count_replicate_null: "b \<in> usable p \<Longrightarrow> count_list (replicate n (Blk 0)) b = 0"
  using usable_real(2) [of b p] by (auto simp: count_list_0_iff)

lemma held_ok_nulls: "held_ok p (replicate n (Blk 0))"
  by (auto simp: held_ok_def holdable_def)

lemma base_free_spec:
  assumes b: "books p xs m"
    and fresh: "\<forall>s. mgr_spec m = MambaSpec s \<longrightarrow> rid \<notin> allocated_block_reqs m \<and> last_state_block_idx m rid = None"
  shows "\<exists>m' p' xs'. base_free rid m p = Inr (m', p') \<and> pool_inv p' (xs @ xs') \<and> tracks p m p' m'
     \<and> (\<forall>r. blocks_of_req m' r = (if r = rid then [] else blocks_of_req m r)) \<and> num_cached_block m' = (num_cached_block m)(rid := None)"
proof -
  note B = booksD [OF b] and D = delete_req [OF booksD(2) [OF b], of rid]
  let ?bs = "blocks_of_req m rid" and ?m' = "m\<lparr>req_to_blocks := AList.delete rid (req_to_blocks m)\<rparr>"
  have dist: "distinct (filter (\<lambda>b. b \<noteq> Blk 0) (rev ?bs))" using held_okD [OF B(2), of rid] by (simp add: held_ok_def rev_filter [symmetric])
  obtain p' xs' where p': "free_blocks (rev ?bs) p = Inr p'" "pool_inv p' (xs @ xs')"
      "tracks p m p' (set_req_blocks rid (replicate (length ?bs) (Blk 0)) m)"
    using release_spec [OF b, of "rev ?bs" rid "replicate (length ?bs) (Blk 0)"] dist held_ok_nulls
    by (auto simp: count_replicate_null)
  have "occ ?m' a = occ (set_req_blocks rid (replicate (length ?bs) (Blk 0)) m) a" if "a \<in> usable p" for a
    using D(2) [OF fresh, of a] occ_set_req [OF B(2), of rid "replicate (length ?bs) (Blk 0)" a] count_replicate_null [OF that, of "length ?bs"] by simp
  then have "tracks p m p' (?m'\<lparr>num_cached_block := (num_cached_block m)(rid := None)\<rparr>)"
    using p'(3) D(1) [OF fresh] mgr_ok_usable [of p' p] by (simp add: tracks_def)
  then show ?thesis using p'(1,2) D(3) [OF fresh] by (auto simp: base_free_def Let_def)
qed

lemma free_req_spec:
  assumes "books p xs m"
  shows "\<exists>m' p' xs'. free_req rid m p = Inr (m', p') \<and> books p' (xs @ xs') m' \<and> tracks p m p' m'
     \<and> (\<forall>r. blocks_of_req m' r = (if r = rid then [] else blocks_of_req m r)) \<and> num_cached_block m' rid = None"
proof -
  note ok = booksD(2) [OF assms]
  define m1 where "m1 = (case mgr_spec m of MambaSpec s \<Rightarrow>
     (if mamba_cache_mode s = ''align'' then m\<lparr>allocated_block_reqs := allocated_block_reqs m - {rid},
        last_state_block_idx := (last_state_block_idx m)(rid := None)\<rparr> else m) | _ \<Rightarrow> m)"
  have f: "free_req rid m p = base_free rid m1 p"
    by (simp add: free_req_def mamba_free_def m1_def Let_def split: layer_spec.split)
  have m1: "occ m1 = occ m" "blocks_of_req m1 = blocks_of_req m" "mgr_spec m1 = mgr_spec m" "same_config m m1"
    by (auto simp: m1_def split: layer_spec.split)
  have "mgr_ok p m1" using ok by (auto simp: m1_def mgr_ok_def mamba_ok_def blocks_of_req_def split: layer_spec.splits)
  then have b1: "books p xs m1" using assms m1 by (simp add: books_def)
  have fresh: "\<forall>s. mgr_spec m1 = MambaSpec s \<longrightarrow> rid \<notin> allocated_block_reqs m1 \<and> last_state_block_idx m1 rid = None"
    using ok by (cases "mgr_spec m") (auto simp: m1_def mgr_ok_def mamba_ok_def)
  obtain m' p' xs' where r: "base_free rid m1 p = Inr (m', p')" "pool_inv p' (xs @ xs')" "tracks p m1 p' m'"
     "\<forall>r. blocks_of_req m' r = (if r = rid then [] else blocks_of_req m1 r)" "num_cached_block m' = (num_cached_block m1)(rid := None)"
    using base_free_spec [OF b1 fresh] by blast
  have "tracks p m p' m'" using r(3) m1 by (auto simp: tracks_def intro: same_config_trans)
  then show ?thesis using r f m1 books_tracks [OF assms _ r(2)] by auto
qed

text \<open>
  Freeing a request always succeeds: its blocks go back to the pool, each count drops by
  one, the blocks nobody else holds join the end of the eviction order, the lists of all
  other requests stay as they are, and the books of the manager remain balanced.
\<close>

theorem free_req_correct:
  assumes "books p xs m"
  shows "\<exists>m' p' xs'. free_req rid m p = Inr (m', p') \<and> books p' (xs @ xs') m' \<and> tracks p m p' m'
     \<and> (\<forall>r. blocks_of_req m' r = (if r = rid then [] else blocks_of_req m r)) \<and> num_cached_block m' rid = None"
  using free_req_spec [OF assms] .

section \<open>remove_skipped_blocks\<close>

lemma skip_loop_spec:
  assumes "n \<le> length blocks"
  shows "\<exists>k \<le> n. skip_loop null n blocks removed
       = (take k blocks @ replicate (n - k) null @ drop n blocks, removed @ rev (take (n - k) (drop k blocks)))
     \<and> null \<notin> set (take (n - k) (drop k blocks)) \<and> (k = 0 \<or> blocks ! (k - 1) = null)"
  using assms
proof (induction n arbitrary: blocks removed)
  case (Suc n)
  show ?case
  proof (cases "blocks ! n = null")
    case True
    then show ?thesis using Suc.prems by (intro exI [of _ "Suc n"]) auto
  next
    case False
    let ?b = "blocks[n := null]"
    obtain k where k: "k \<le> n" "skip_loop null n ?b (removed @ [blocks ! n])
       = (take k ?b @ replicate (n - k) null @ drop n ?b, (removed @ [blocks ! n]) @ rev (take (n - k) (drop k ?b)))"
      "null \<notin> set (take (n - k) (drop k ?b))" "k = 0 \<or> ?b ! (k - 1) = null"
      using Suc.IH [of ?b "removed @ [blocks ! n]"] Suc.prems by (metis Suc_leD length_list_update)
    have d: "drop n ?b = null # drop (Suc n) blocks" using Suc.prems by (simp add: drop_update_swap Cons_nth_drop_Suc [symmetric])
    have t: "take (n - k) (drop k ?b) = take (n - k) (drop k blocks)" using k(1) by (simp add: take_drop)
    have s: "take (Suc n - k) (drop k blocks) = take (n - k) (drop k blocks) @ [blocks ! n]"
      using k(1) Suc.prems by (simp add: Suc_diff_le take_Suc_conv_app_nth)
    have "replicate (n - k) null @ null # ys = replicate (Suc n - k) null @ ys" for ys
      using k(1) by (simp add: Suc_diff_le replicate_app_Cons_same)
    then have "skip_loop null (Suc n) blocks removed
       = (take k blocks @ replicate (Suc n - k) null @ drop (Suc n) blocks, removed @ rev (take (Suc n - k) (drop k blocks)))"
      using False k(1,2) unfolding s by (simp add: d t)
    moreover have "null \<notin> set (take (Suc n - k) (drop k blocks))" unfolding s using k(3) False t by auto
    moreover have "k = 0 \<or> blocks ! (k - 1) = null" using k(1,4) by (cases k) auto
    ultimately show ?thesis using k(1) by (intro exI [of _ k]) auto
  qed
qed simp

lemma split3: "k \<le> n \<Longrightarrow> n \<le> length xs \<Longrightarrow> xs = take k xs @ take (n - k) (drop k xs) @ drop n xs"
  by (metis append_take_drop_id drop_drop le_add_diff_inverse2)

lemma replace_held:
  assumes "held_ok p (u @ v @ w)"
  shows "held_ok p (u @ replicate n (Blk 0) @ w)" "distinct (filter (\<lambda>b. b \<noteq> Blk 0) (rev v))"
    "b \<in> usable p \<Longrightarrow> count_list (u @ replicate n (Blk 0) @ w) b + count_list (rev v) b = count_list (u @ v @ w) b"
  using assms count_replicate_null [of b p n] by (auto simp: held_ok_def holdable_def rev_filter [symmetric])

lemma skipped_held:
  assumes "held_ok p xs" and "k \<le> n" "n \<le> length xs"
  shows "held_ok p (take k xs @ replicate (n - k) (Blk 0) @ drop n xs)"
    "distinct (filter (\<lambda>b. b \<noteq> Blk 0) (rev (take (n - k) (drop k xs))))"
    "b \<in> usable p \<Longrightarrow> count_list (take k xs @ replicate (n - k) (Blk 0) @ drop n xs) b
        + count_list (rev (take (n - k) (drop k xs))) b = count_list xs b"
  using replace_held [of p "take k xs" "take (n - k) (drop k xs)" "drop n xs"] assms(1)
  unfolding split3 [OF assms(2,3), symmetric] by auto

lemma base_remove_skipped_spec:
  assumes b: "books p xs m"
  shows "\<exists>m' p' xs'. base_remove_skipped_blocks rid t m p = Inr (m', p') \<and> pool_inv p' (xs @ xs') \<and> tracks p m p' m'
     \<and> mgr_spec m' = mgr_spec m \<and> mgr_block_size m' = mgr_block_size m \<and> last_state_block_idx m' = last_state_block_idx m
     \<and> length (blocks_of_req m' rid) = length (blocks_of_req m rid)
     \<and> (\<forall>i < length (blocks_of_req m rid). get_num_skipped_tokens m t div int (mgr_block_size m) \<le> int i \<longrightarrow>
          blocks_of_req m' rid ! i = blocks_of_req m rid ! i)
     \<and> (\<forall>r. r \<noteq> rid \<longrightarrow> blocks_of_req m' r = blocks_of_req m r) \<and> num_cached_block m' = num_cached_block m"
proof (cases "get_num_skipped_tokens m t \<le> 0")
  case True
  then show ?thesis using booksD [OF b] tracks_refl by (intro exI [of _ m] exI [of _ p] exI [of _ "[]"]) (simp add: base_remove_skipped_blocks_def)
next
  case False
  note B = booksD [OF b]
  let ?m = "default_req rid m" and ?bs = "blocks_of_req m rid" and ?s = "get_num_skipped_tokens m t div int (mgr_block_size m)"
  define n where "n = nat (min ?s (int (length ?bs)))"
  have n: "n \<le> length ?bs" by (simp add: n_def)
  have null: "mgr_null_block m = Blk 0" using B(2) by (simp add: mgr_ok_def)
  obtain k where k: "k \<le> n" "skip_loop (Blk 0) n ?bs [] = (take k ?bs @ replicate (n - k) (Blk 0) @ drop n ?bs, rev (take (n - k) (drop k ?bs)))"
    using skip_loop_spec [OF n, of "Blk 0" "[]"] by auto
  let ?bs' = "take k ?bs @ replicate (n - k) (Blk 0) @ drop n ?bs" and ?rem = "rev (take (n - k) (drop k ?bs))"
  have b': "books p xs ?m" using books_tracks [OF b tracks_default B(1)] B(2) by blast
  have sub: "set ?rem \<subseteq> set (blocks_of_req ?m rid)" using set_take_subset set_drop_subset by fastforce
  note S = skipped_held [OF held_okD [OF B(2), of rid] k(1) n]
  have len: "length ?bs' = length ?bs" using k(1) n by simp
  obtain p' xs' where p': "free_blocks ?rem p = Inr p'" "pool_inv p' (xs @ xs')" "tracks p ?m p' (set_req_blocks rid ?bs' ?m)"
    using release_spec [OF b' sub S(2,1)] S(3) len by auto
  have "base_remove_skipped_blocks rid t m p = Inr (set_req_blocks rid ?bs' ?m, p')"
    using False p'(1) k(2) null by (simp add: base_remove_skipped_blocks_def Let_def n_def [symmetric])
  moreover have "?bs' ! i = ?bs ! i" if "i < length ?bs" "?s \<le> int i" for i
  proof -
    have "n \<le> i" using that by (auto simp: n_def)
    then show ?thesis using that(1) k(1) n by (auto simp: nth_append)
  qed
  ultimately show ?thesis using p' len tracks_trans [OF tracks_default [OF B(2)] p'(3)] by auto
qed


section \<open>Taking blocks\<close>

lemma get_new_blocks_taken:
  assumes "pool_inv p xs" and "get_new_blocks n p = Inr (new, p')" and "0 \<le> n"
  shows "n \<le> int (length xs)" "new = take (nat n) xs"
proof -
  show n: "n \<le> int (length xs)" using get_new_blocks_short [OF assms(1)] assms(2) by (metis Inl_Inr_False linorder_not_less)
  show "new = take (nat n) xs" using get_new_blocks_spec [OF assms(1,3) n] assms(2) by auto
qed

lemma acquire_partial:
  assumes b: "books p xs m" and g: "get_new_blocks n p = Inr (new, p')" "0 \<le> n"
    and held: "held_ok p bs" "length (blocks_of_req m rid) \<le> length bs"
    and same: "\<And>b. b \<in> usable p \<Longrightarrow> count_list bs b = count_list (blocks_of_req m rid) b"
  shows "pool_inv p' (drop (nat n) xs)" "tracks p m p' (set_req_blocks rid (bs @ new) m)" "length new = nat n"
proof -
  note T = get_new_blocks_taken [OF booksD(1) [OF b] g]
  have r: "\<exists>p'. get_new_blocks n p = Inr (take (nat n) xs, p') \<and> pool_inv p' (drop (nat n) xs)
     \<and> tracks p m p' (set_req_blocks rid (bs @ take (nat n) xs) m) \<and> enable_caching p' = enable_caching p"
    by (rule acquire_spec [OF b g(2) T(1) held]) (rule same)
  then show "pool_inv p' (drop (nat n) xs)" "tracks p m p' (set_req_blocks rid (bs @ new) m)" using g(1) T(2) by auto
  show "length new = nat n" using T by simp
qed

definition missing_blocks :: "string \<Rightarrow> int \<Rightarrow> manager \<Rightarrow> int" where
  "missing_blocks rid n_tokens m = cdiv n_tokens (int (mgr_block_size m)) - int (length (blocks_of_req m rid))"

lemma tracks_new_ids: "tracks p m p' (m'\<lparr>new_block_ids := x\<rparr>) = tracks p m p' m'"
  by (simp add: tracks_def)

lemma tracks_num_cached: "tracks p m p' (m'\<lparr>num_cached_block := x\<rparr>) = tracks p m p' m'"
  by (simp add: tracks_def)

lemma tracks_this_step: "tracks p m p' (m'\<lparr>cached_blocks_this_step := x\<rparr>) = tracks p m p' m'"
  by (simp add: tracks_def)

lemmas tracks_frame = tracks_new_ids tracks_num_cached tracks_this_step

text \<open>\<^verbatim>\<open>allocate_new_blocks\<close> takes the missing blocks from the front of the free queue.\<close>

lemma base_allocate_spec:
  assumes b: "books p xs m" and n: "n = missing_blocks rid t m" "n \<le> int (length xs)"
  shows "\<exists>m' p'. base_allocate_new_blocks rid t m p = Inr (take (nat n) xs, m', p') \<and> pool_inv p' (drop (nat n) xs)
     \<and> tracks p m p' m' \<and> num_cached_block m' = num_cached_block m
     \<and> (\<forall>r. blocks_of_req m' r = (if r = rid then blocks_of_req m rid @ take (nat n) xs else blocks_of_req m r))"
proof (cases "n \<le> 0")
  case True
  then show ?thesis using booksD [OF b] n(1) tracks_default
    by (intro exI [of _ "default_req rid m"] exI [of _ p]) (simp add: base_allocate_new_blocks_def Let_def missing_blocks_def)
next
  case False
  note B = booksD [OF b]
  have b': "books p xs (default_req rid m)" using books_tracks [OF b tracks_default B(1)] B(2) by blast
  obtain p' where p': "get_new_blocks n p = Inr (take (nat n) xs, p')" "pool_inv p' (drop (nat n) xs)"
      "tracks p (default_req rid m) p' (set_req_blocks rid (blocks_of_req m rid @ take (nat n) xs) (default_req rid m))"
    using acquire_spec [OF b' _ n(2) held_okD [OF B(2), of rid], of rid] False by auto
  let ?m' = "(set_req_blocks rid (blocks_of_req m rid @ take (nat n) xs) (default_req rid m))
     \<lparr>new_block_ids := new_block_ids m @ (if is_plain_full (mgr_spec m) then map (\<lambda>b. block_id (heap p' b)) (take (nat n) xs) else [])\<rparr>"
  have "base_allocate_new_blocks rid t m p = Inr (take (nat n) xs, ?m', p')"
    using False p'(1) n(1) by (simp add: base_allocate_new_blocks_def Let_def missing_blocks_def)
  moreover have "tracks p m p' ?m'" using tracks_trans [OF tracks_default [OF B(2)] p'(3)] by (simp add: tracks_frame)
  ultimately show ?thesis using p'(2) by auto
qed

lemma base_allocate_short:
  assumes "books p xs m" and "int (length xs) < missing_blocks rid t m"
  shows "base_allocate_new_blocks rid t m p = Inl ValueError"
  using get_new_blocks_short [OF booksD(1) [OF assms(1)] assms(2)] assms(2)
  by (simp add: base_allocate_new_blocks_def Let_def missing_blocks_def)

section \<open>Blocks of the prefix cache\<close>

text \<open>What a new request gets: null blocks for the skipped part, the rest of the hit, and blocks for external tokens.\<close>

definition skipped_blocks :: "manager \<Rightarrow> int \<Rightarrow> nat" where
  "skipped_blocks m t = nat (get_num_skipped_tokens m t div int (mgr_block_size m))"

definition external_tokens :: "int \<Rightarrow> int \<Rightarrow> manager \<Rightarrow> int" where
  "external_tokens num_local num_external m =
     (let t = num_local + num_external
      in if 0 < skipped_blocks m t then min (t - get_num_skipped_tokens m t) num_external else num_external)"

definition external_blocks :: "block_ref list \<Rightarrow> int \<Rightarrow> int \<Rightarrow> manager \<Rightarrow> int" where
  "external_blocks hit num_local num_external m =
     (let t = num_local + num_external
      in if 0 < external_tokens num_local num_external m
         then cdiv t (int (mgr_block_size m)) - int (max (skipped_blocks m t) (length hit)) else 0)"

lemma touch_tracks:
  assumes b: "books p xs m" and e: "blocks_of_req m rid = []" and held: "held_ok p hit"
  shows "\<exists>p'. touch hit p = Inr p' \<and> pool_inv p' (filter (\<lambda>x. x \<notin> set hit) xs) \<and> usable p' = usable p
     \<and> enable_caching p' = enable_caching p \<and> tracks p m p' (set_req_blocks rid (replicate n (Blk 0) @ hit) m)"
proof -
  note B = booksD [OF b]
  have "set hit \<subseteq> holdable p" using held by (simp add: held_ok_def)
  then obtain p' where p': "touch hit p = Inr p'" "pool_inv p' (filter (\<lambda>x. x \<notin> set hit) xs)" "usable p' = usable p"
     "enable_caching p' = enable_caching p" "\<And>a. ref_cnt (heap p' a) = ref_cnt (heap p a) + int (count_list hit a)"
    using touch_spec [OF B(1)] by blast
  have "held_ok p (replicate n (Blk 0) @ hit)" using held by (auto simp: held_ok_def holdable_def)
  then have "mgr_ok p' (set_req_blocks rid (replicate n (Blk 0) @ hit) m)"
    using set_req_ok [OF B(2)] mgr_ok_usable [OF p'(3)] e by simp
  moreover have "ref_cnt (heap p' a) - int (occ (set_req_blocks rid (replicate n (Blk 0) @ hit) m) a) = ref_cnt (heap p a) - int (occ m a)"
    if "a \<in> usable p" for a
    using p'(5) [of a] occ_set_req [OF B(2), of rid "replicate n (Blk 0) @ hit" a] e count_replicate_null [OF that, of n] by simp
  ultimately show ?thesis using p' by (auto simp: tracks_def)
qed


lemma drop_filter_distinct: "distinct (filter P xs) \<Longrightarrow> distinct (filter P (drop k xs))"
  by (metis append_take_drop_id distinct_append filter_append)

definition fits_computed :: "block_pool \<Rightarrow> string \<Rightarrow> block_ref list \<Rightarrow> int \<Rightarrow> int \<Rightarrow> manager \<Rightarrow> bool" where
  "fits_computed p rid hit num_local num_external m \<longleftrightarrow> held_ok p hit
     \<and> int (length hit) * int (mgr_block_size m) \<le> num_local + num_external
     \<and> get_num_skipped_tokens m (num_local + num_external) \<le> num_local + num_external"

lemma external_blocks_nonneg:
  assumes "mgr_ok p m" and "fits_computed p rid hit num_local num_external m" and "0 \<le> num_local + num_external"
  shows "0 \<le> external_blocks hit num_local num_external m"
proof -
  let ?t = "num_local + num_external" and ?bs = "int (mgr_block_size m)"
  have bs: "0 < ?bs" using assms(1) by (simp add: mgr_ok_def)
  have "int (skipped_blocks m ?t) * ?bs \<le> ?t"
  proof (cases "0 \<le> get_num_skipped_tokens m ?t div ?bs")
    case True
    then have "int (skipped_blocks m ?t) * ?bs \<le> get_num_skipped_tokens m ?t"
      using le_div_iff_mult_le [OF bs, of "int (skipped_blocks m ?t)" "get_num_skipped_tokens m ?t"] by (simp add: skipped_blocks_def)
    then show ?thesis using assms(2) by (simp add: fits_computed_def)
  qed (use assms(3) in \<open>simp add: skipped_blocks_def\<close>)
  then have "int (max (skipped_blocks m ?t) (length hit)) * ?bs \<le> ?t" using assms(2) by (simp add: fits_computed_def max_def)
  then have "\<not> cdiv ?t ?bs < int (max (skipped_blocks m ?t) (length hit))"
    using cdiv_le_iff [OF bs, of ?t "int (max (skipped_blocks m ?t) (length hit)) - 1"] bs by (auto simp: algebra_simps)
  then show ?thesis by (simp add: external_blocks_def Let_def)
qed

lemma alist_update_twice: "AList.update k x (AList.update k y d) = AList.update k x d"
  by (induction d) auto

lemma length_skip: "length (replicate k x @ drop k hit) = max k (length hit)"
  by auto

text \<open>After the checks: touching the rest of the hit, then taking the external blocks.\<close>

definition with_blocks :: "string \<Rightarrow> block_ref list \<Rightarrow> nat \<Rightarrow> manager \<Rightarrow> manager" where
  "with_blocks rid bs n m = set_req_blocks rid bs (m\<lparr>num_cached_block := (num_cached_block m)(rid \<mapsto> n)\<rparr>)"

definition add_blocks :: "string \<Rightarrow> block_ref list \<Rightarrow> manager \<Rightarrow> block_pool \<Rightarrow> manager" where
  "add_blocks rid new m p = (set_req_blocks rid (blocks_of_req m rid @ new) m)\<lparr>new_block_ids := new_block_ids m
     @ (if is_plain_full (mgr_spec m) then map (\<lambda>b. block_id (heap p b)) new else [])\<rparr>"

lemma with_blocks_simps [simp]:
  "blocks_of_req (with_blocks rid bs n m) r = (if r = rid then bs else blocks_of_req m r)" "mgr_spec (with_blocks rid bs n m) = mgr_spec m"
  "new_block_ids (with_blocks rid bs n m) = new_block_ids m" "num_cached_block (with_blocks rid bs n m) = (num_cached_block m)(rid \<mapsto> n)"
  by (simp_all add: with_blocks_def)

lemma add_blocks_simps [simp]:
  "blocks_of_req (add_blocks rid new m p) r = (if r = rid then blocks_of_req m rid @ new else blocks_of_req m r)"
  "num_cached_block (add_blocks rid new m p) = num_cached_block m"
  by (simp_all add: add_blocks_def)

lemma set_req_twice: "set_req_blocks rid bs (set_req_blocks rid cs m) = set_req_blocks rid bs m"
  by (simp add: set_req_blocks_def alist_update_twice)

lemma base_computed_touch:
  assumes b: "books p xs m" and fresh: "num_cached_block m rid = None" "blocks_of_req m rid = []"
    and fits: "fits_computed p rid hit num_local num_external m"
    and k: "k = skipped_blocks m (num_local + num_external)" and caching: "mgr_enable_caching m \<or> drop k hit = []"
  defines "m1 \<equiv> with_blocks rid (replicate k (Blk 0) @ drop k hit) (max k (length hit)) m"
  shows "\<exists>p1. pool_inv p1 (filter (\<lambda>x. x \<notin> set (drop k hit)) xs) \<and> tracks p m p1 m1
     \<and> base_allocate_new_computed_blocks rid hit num_local num_external m p =
        (if 0 < external_tokens num_local num_external m
         then rbind (get_new_blocks (external_blocks hit num_local num_external m) p1) (\<lambda>(allocated, p). Inr (add_blocks rid allocated m1 p, p))
         else Inr (m1, p1))"
proof -
  have null: "mgr_null_block m = Blk 0" using booksD(2) [OF b] by (simp add: mgr_ok_def)
  let ?t = "num_local + num_external" and ?m = "m\<lparr>num_cached_block := (num_cached_block m)(rid \<mapsto> max k (length hit))\<rparr>"
  let ?bs = "replicate k (Blk 0) @ drop k hit"
  have hit': "held_ok p (drop k hit)"
    using fits set_drop_subset [of k hit] by (auto simp: fits_computed_def held_ok_def drop_filter_distinct)
  have b1: "books p xs ?m" using b by (simp add: books_def)
  obtain p1 where p1: "touch (drop k hit) p = Inr p1" "pool_inv p1 (filter (\<lambda>x. x \<notin> set (drop k hit)) xs)"
      "tracks p ?m p1 (set_req_blocks rid ?bs ?m)"
    using touch_tracks [OF b1 _ hit', of rid k] fresh(2) by auto
  have touch: "(if mgr_enable_caching m then touch (drop k hit) p else rbind (ensure (drop k hit = []) AssertionError) (\<lambda>_. Inr p)) = Inr p1"
    using p1(1) caching by (auto simp: touch_def)
  have sk: "(0 < get_num_skipped_tokens m ?t div int (mgr_block_size m)) = (0 < k)" "nat (get_num_skipped_tokens m ?t div int (mgr_block_size m)) = k"
    by (auto simp: k skipped_blocks_def)
  have drop: "(if 0 < k then drop k hit else hit) = drop k hit" by simp
  have ext: "(if 0 < k then min (?t - get_num_skipped_tokens m ?t) num_external else num_external) = external_tokens num_local num_external m"
    by (simp add: external_tokens_def k Let_def)
  have "base_allocate_new_computed_blocks rid hit num_local num_external m p =
      (if 0 < external_tokens num_local num_external m
       then rbind (get_new_blocks (cdiv ?t (int (mgr_block_size m)) - int (max k (length hit))) p1) (\<lambda>(allocated, p).
           Inr ((set_req_blocks rid (?bs @ allocated) ?m)\<lparr>new_block_ids := new_block_ids m
                  @ (if is_plain_full (mgr_spec m) then map (\<lambda>b. block_id (heap p b)) allocated else [])\<rparr>, p))
       else Inr (set_req_blocks rid ?bs ?m, p1))"
    unfolding base_allocate_new_computed_blocks_def Let_def sk null drop touch rbind_Inr length_skip ext using fresh by simp
  moreover have "tracks p m p1 m1" using p1(3) by (simp add: m1_def with_blocks_def tracks_def same_config_def)
  ultimately show ?thesis using p1(2)
    by (auto simp: m1_def with_blocks_def add_blocks_def set_req_twice external_blocks_def Let_def k)
qed

lemma add_blocks_tracks:
  assumes "books p xs m" and "0 \<le> n" and "n \<le> int (length xs)"
  shows "\<exists>p'. get_new_blocks n p = Inr (take (nat n) xs, p') \<and> pool_inv p' (drop (nat n) xs) \<and> tracks p m p' (add_blocks rid (take (nat n) xs) m p')"
  using acquire_spec [OF assms held_okD [OF booksD(2) [OF assms(1)], of rid], of rid] by (auto simp: add_blocks_def tracks_frame)

lemma base_allocate_computed_spec:
  assumes b: "books p xs m" and fresh: "num_cached_block m rid = None" "blocks_of_req m rid = []"
    and fits: "fits_computed p rid hit num_local num_external m" and pos: "0 \<le> num_local + num_external"
    and defs: "k = skipped_blocks m (num_local + num_external)" "n = external_blocks hit num_local num_external m"
      "ys = filter (\<lambda>x. x \<notin> set (drop k hit)) xs"
    and caching: "mgr_enable_caching m \<or> drop k hit = []" and enough: "n \<le> int (length ys)"
  shows "\<exists>m' p'. base_allocate_new_computed_blocks rid hit num_local num_external m p = Inr (m', p')
     \<and> pool_inv p' (drop (nat n) ys) \<and> tracks p m p' m' \<and> num_cached_block m' = (num_cached_block m)(rid \<mapsto> max k (length hit))
     \<and> (\<forall>r. blocks_of_req m' r = (if r = rid then replicate k (Blk 0) @ drop k hit @ take (nat n) ys else blocks_of_req m r))"
proof -
  obtain p1 m1 where p1: "pool_inv p1 ys" "m1 = with_blocks rid (replicate k (Blk 0) @ drop k hit) (max k (length hit)) m" "tracks p m p1 m1"
     "base_allocate_new_computed_blocks rid hit num_local num_external m p =
        (if 0 < external_tokens num_local num_external m
         then rbind (get_new_blocks n p1) (\<lambda>(allocated, p). Inr (add_blocks rid allocated m1 p, p)) else Inr (m1, p1))"
    using base_computed_touch [OF b fresh fits defs(1) caching] unfolding defs(2,3) by blast
  show ?thesis
  proof (cases "0 < external_tokens num_local num_external m")
    case True
    have n: "0 \<le> n" using external_blocks_nonneg [OF booksD(2) [OF b] fits pos] defs(2) by simp
    obtain p2 where p2: "get_new_blocks n p1 = Inr (take (nat n) ys, p2)" "pool_inv p2 (drop (nat n) ys)"
       "tracks p1 m1 p2 (add_blocks rid (take (nat n) ys) m1 p2)"
      using add_blocks_tracks [OF books_tracks [OF b p1(3,1)] n enough] by blast
    then show ?thesis using p1(2,4) True tracks_trans [OF p1(3) p2(3)] by simp
  next
    case False
    then have "n = 0" by (simp add: defs(2) external_blocks_def Let_def)
    then show ?thesis using p1 False by simp
  qed
qed

lemma base_allocate_computed_keeps:
  assumes b: "books p xs m" and fits: "fits_computed p rid hit num_local num_external m" and pos: "0 \<le> num_local + num_external"
    and r: "base_allocate_new_computed_blocks rid hit num_local num_external m p = Inr (m', p')"
  shows "\<exists>xs'. pool_inv p' xs' \<and> tracks p m p' m'"
proof (cases "num_cached_block m rid = None")
  case False
  then show ?thesis using r booksD [OF b] tracks_refl by (auto simp: base_allocate_new_computed_blocks_def rbind_eq_Inr)
next
  case fresh: True
  define k where "k = skipped_blocks m (num_local + num_external)"
  let ?n = "external_blocks hit num_local num_external m" and ?ys = "filter (\<lambda>x. x \<notin> set (drop k hit)) xs"
  have e: "blocks_of_req m rid = []" and c: "mgr_enable_caching m \<or> drop k hit = []"
    using r fresh by (auto simp: base_allocate_new_computed_blocks_def rbind_eq_Inr Let_def k_def skipped_blocks_def split: if_splits)
  obtain p1 m1 where p1: "pool_inv p1 ?ys" "tracks p m p1 m1"
     "base_allocate_new_computed_blocks rid hit num_local num_external m p =
        (if 0 < external_tokens num_local num_external m
         then rbind (get_new_blocks ?n p1) (\<lambda>(allocated, p). Inr (add_blocks rid allocated m1 p, p)) else Inr (m1, p1))"
    using base_computed_touch [OF b fresh e fits k_def c] by blast
  have n: "0 \<le> ?n" by (rule external_blocks_nonneg [OF booksD(2) [OF b] fits pos])
  have "?n \<le> int (length ?ys)"
  proof (cases "0 < external_tokens num_local num_external m")
    case True
    then obtain a q where "get_new_blocks ?n p1 = Inr (a, q)" using r p1(3) by (auto simp: rbind_eq_Inr)
    then show ?thesis using get_new_blocks_taken(1) [OF p1(1) _ n] by blast
  qed (simp add: external_blocks_def)
  from base_allocate_computed_spec [OF b fresh e fits pos k_def refl refl c this] show ?thesis using r by auto
qed


section \<open>State space layers\<close>

lemma length_takeWhile_upto: "length (takeWhile (\<lambda>i. i < k) [a..b]) = nat (min k (b + 1) - a)"
proof (induction "nat (b + 1 - a)" arbitrary: a)
  case (Suc n)
  then have "[a..b] = a # [a + 1..b]" by (simp add: upto_rec1)
  then show ?case using Suc.hyps(1) [of "a + 1"] Suc.hyps(2) by auto
qed simp

text \<open>Moving a block to the end and leaving a null block behind changes no count.\<close>

lemma count_list_update:
  "i < length xs \<Longrightarrow> count_list (xs[i := y]) b + (if xs ! i = b then 1 else 0) = count_list xs b + (if y = b then 1 else 0)"
proof (induction xs arbitrary: i)
  case (Cons x xs)
  show ?case
  proof (cases i)
    case (Suc j)
    then show ?thesis using Cons.IH [of j] Cons.prems by (cases "y = b") simp_all
  qed auto
qed simp

lemma held_ok_iff:
  "held_ok p bs \<longleftrightarrow> set bs \<subseteq> holdable p \<and> (\<forall>b \<in> usable p. count_list bs b \<le> 1)"
proof -
  have "distinct (filter (\<lambda>b. b \<noteq> Blk 0) bs) \<longleftrightarrow> (\<forall>b \<in> usable p. count_list bs b \<le> 1)" if "set bs \<subseteq> holdable p"
    using that
  proof (induction bs)
    case (Cons x bs)
    show ?case
    proof (cases "x = Blk 0")
      case True
      then show ?thesis using Cons usable_real(2) [of x p] by (auto split: if_splits)
    next
      case False
      then have "x \<in> usable p" using Cons.prems by (auto simp: holdable_def)
      then show ?thesis using Cons False by (auto simp: count_list_0_iff)
    qed
  qed simp
  then show ?thesis by (auto simp: held_ok_def)
qed

lemma move_to_end:
  assumes "held_ok p bs" and "i < length bs"
  shows "held_ok p ((bs @ [bs ! i])[i := Blk 0])" "b \<in> usable p \<Longrightarrow> count_list ((bs @ [bs ! i])[i := Blk 0]) b = count_list bs b"
proof -
  have c: "count_list ((bs @ [bs ! i])[i := Blk 0]) b = count_list bs b" if "b \<in> usable p" for b
    using count_list_update [of i "bs @ [bs ! i]" "Blk 0" b] assms(2) usable_real(2) [OF that] by (auto simp: nth_append split: if_splits)
  then show "b \<in> usable p \<Longrightarrow> count_list ((bs @ [bs ! i])[i := Blk 0]) b = count_list bs b" .
  have "set ((bs @ [bs ! i])[i := Blk 0]) \<subseteq> insert (Blk 0) (set (bs @ [bs ! i]))" by (rule set_update_subset_insert)
  also have "\<dots> \<subseteq> insert (Blk 0) (set bs)" using assms(2) by auto
  finally show "held_ok p ((bs @ [bs ! i])[i := Blk 0])"
    using assms c by (auto simp: held_ok_iff holdable_def)
qed

lemma reuse_loop_spec:
  assumes "held_ok p bs" and "\<forall>i \<in> set is. 0 \<le> i \<and> i < int (length bs)"
  shows "\<exists>bs'. reuse_loop (Blk 0) k is bs = Inr bs' \<and> held_ok p bs' \<and> length bs' = length bs + length (takeWhile (\<lambda>i. i < k) is)
     \<and> (\<forall>b \<in> usable p. count_list bs' b = count_list bs b)"
  using assms
proof (induction "is" arbitrary: bs)
  case (Cons i "is")
  show ?case
  proof (cases "i < k")
    case True
    let ?bs = "(bs @ [bs ! nat i])[nat i := Blk 0]"
    have i: "nat i < length bs" "0 \<le> i" using Cons.prems(2) by auto
    have "\<forall>i \<in> set is. 0 \<le> i \<and> i < int (length ?bs)" using Cons.prems(2) by auto
    from Cons.IH [OF move_to_end(1) [OF Cons.prems(1) i(1)] this] obtain bs' where bs': "reuse_loop (Blk 0) k is ?bs = Inr bs'" "held_ok p bs'"
      "length bs' = length ?bs + length (takeWhile (\<lambda>i. i < k) is)" "\<forall>b \<in> usable p. count_list bs' b = count_list ?bs b" by blast
    have "reuse_loop (Blk 0) k (i # is) bs = Inr bs'" using True i bs'(1) by (simp add: py_index_def Let_def)
    then show ?thesis using True bs' move_to_end(2) [OF Cons.prems(1) i(1)] by auto
  qed (use Cons.prems in auto)
qed auto

lemma mamba_aligned_keeps:
  assumes b: "books p xs m" and s: "mgr_spec m = MambaSpec s" "mamba_cache_mode s = ''align''" and pos: "0 < t"
    and r: "mamba_allocate_aligned s rid t m p = Inr (new, m', p')"
  shows "\<exists>xs'. pool_inv p' xs' \<and> tracks p m p' m'"
proof -
  note B = booksD [OF b]
  let ?spec = "num_speculative_blocks s" and ?bs = "blocks_of_req m rid" let ?prev = "int (length ?bs)"
  define req where "req = cdiv t (int (mgr_block_size m)) + ?spec"
  show ?thesis
  proof (cases "req = ?prev")
    case True
    then show ?thesis using r tracks_default [OF B(2)] B(1) by (auto simp: mamba_allocate_aligned_def Let_def req_def)
  next
    case False
    define al where "al = (rid \<in> allocated_block_reqs m)"
    define m1 where "m1 = (if al then (default_req rid m)\<lparr>last_state_block_idx := (last_state_block_idx m)(rid \<mapsto> ?prev - 1 - ?spec)\<rparr>
        else if 0 < ?prev then (default_req rid m)\<lparr>last_state_block_idx := (last_state_block_idx m)(rid \<mapsto> ?prev - 1)\<rparr> else default_req rid m)"
    define bs1 where "bs1 = ?bs @ replicate (nat (req - ?spec - 1 - ?prev)) (Blk 0)"
    have null: "mgr_null_block m = Blk 0" and bs: "0 < int (mgr_block_size m)" using B(2) by (auto simp: mgr_ok_def)
    have M: "0 \<le> ?spec" "al \<Longrightarrow> ?spec < ?prev" using B(2) s by (auto simp: mgr_ok_def mamba_ok_def al_def)
    have "\<not> cdiv t (int (mgr_block_size m)) \<le> 0" using cdiv_le_iff [OF bs, of t 0] pos by simp
    then have rs: "?spec < req" by (simp add: req_def)
    obtain bs2 p1 where prev: "?prev < req"
      and bs2: "(if al then reuse_loop (Blk 0) (req - ?spec - 1) [?prev - ?spec..?prev - 1] bs1 else Inr bs1) = Inr bs2"
      and g: "get_new_blocks (req - int (length bs2)) p = Inr (p1, p')"
      and m': "m' = (set_req_blocks rid (bs2 @ p1) m1)\<lparr>allocated_block_reqs := insert rid (allocated_block_reqs m)\<rparr>"
      using r False null by (fastforce simp: mamba_allocate_aligned_def Let_def rbind_eq_Inr req_def al_def m1_def bs1_def split: if_splits)
    have h1: "held_ok p bs1" "\<And>b. b \<in> usable p \<Longrightarrow> count_list bs1 b = count_list ?bs b"
      using held_okD [OF B(2), of rid] count_replicate_null [of _ p] by (auto simp: bs1_def held_ok_def holdable_def)
    have len1: "int (length bs1) = max ?prev (req - ?spec - 1)" by (simp add: bs1_def)
    have h2: "held_ok p bs2 \<and> length ?bs \<le> length bs2 \<and> int (length bs2) \<le> req \<and> (\<forall>b \<in> usable p. count_list bs2 b = count_list ?bs b)"
    proof (cases al)
      case True
      have "\<forall>i \<in> set [?prev - ?spec..?prev - 1]. 0 \<le> i \<and> i < int (length bs1)" using M(2) [OF True] len1 by auto
      from reuse_loop_spec [OF h1(1) this, of "req - ?spec - 1"] bs2 True
      have "held_ok p bs2" "length bs2 = length bs1 + nat (min (req - ?spec - 1) ?prev - (?prev - ?spec))"
        "\<forall>b \<in> usable p. count_list bs2 b = count_list bs1 b" by (auto simp: length_takeWhile_upto)
      then show ?thesis using h1(2) len1 M(1) prev by auto
    next
      case False
      then show ?thesis using bs2 h1 len1 prev M(1) by auto
    qed
    have t0: "tracks p m p (default_req rid m)" by (rule tracks_default [OF B(2)])
    have b0: "books p xs (default_req rid m)" using books_tracks [OF b t0 B(1)] .
    have h3: "0 \<le> req - int (length bs2)" "held_ok p bs2" "length (blocks_of_req (default_req rid m) rid) \<le> length bs2"
        "\<And>b. b \<in> usable p \<Longrightarrow> count_list bs2 b = count_list (blocks_of_req (default_req rid m) rid) b" using h2 by auto
    note A = acquire_partial [OF b0 g h3]
    have "tracks p m p' m'"
    proof -
      have T: "tracks p m p' (set_req_blocks rid (bs2 @ p1) (default_req rid m))" by (rule tracks_trans [OF t0 A(2)])
      have len: "int (length (bs2 @ p1)) = req" using A(3) h2 by simp
      have e: "req_to_blocks m' = req_to_blocks (set_req_blocks rid (bs2 @ p1) (default_req rid m))" by (auto simp: m' m1_def set_req_blocks_def)
      have f: "mgr_spec m' = MambaSpec s" "allocated_block_reqs m' = insert rid (allocated_block_reqs m)" "same_config m m'" "mgr_null_block m' = Blk 0"
          "last_state_block_idx m' = (if al then (last_state_block_idx m)(rid \<mapsto> ?prev - 1 - ?spec)
             else if 0 < ?prev then (last_state_block_idx m)(rid \<mapsto> ?prev - 1) else last_state_block_idx m)"
        by (auto simp: m' m1_def s(1) null)
      have bl: "blocks_of_req m' r = (if r = rid then bs2 @ p1 else blocks_of_req m r)" for r
        using blocks_of_set_req [of rid "bs2 @ p1" "default_req rid m" r] unfolding default_req_fields
        by (simp only: blocks_of_req_def e)
      have L: "last_state_block_idx m r = Some i \<Longrightarrow> 0 \<le> i \<and> i < int (length (blocks_of_req m r))" for r i
        using B(2) s by (auto simp: mgr_ok_def mamba_ok_def)
      have Al: "r \<in> allocated_block_reqs m \<Longrightarrow> ?spec < int (length (blocks_of_req m r))" for r
        using B(2) s by (auto simp: mgr_ok_def mamba_ok_def)
      have "0 \<le> i \<and> i < int (length (blocks_of_req m' r))" if "last_state_block_idx m' r = Some i" for r i
        using that L [of r i] M prev len by (auto simp: f bl split: if_splits)
      moreover have "?spec < int (length (blocks_of_req m' r))" if "r \<in> allocated_block_reqs m'" for r
        using that Al [of r] rs len by (auto simp: f bl)
      ultimately have "mamba_ok m'" using M(1) s(2) by (simp add: mamba_ok_def f(1))
      then have "mgr_ok p' m'" "occ m' = occ (set_req_blocks rid (bs2 @ p1) (default_req rid m))" "same_config m m'"
        using T e f by (auto simp: tracks_def mgr_ok_def occ_def fun_eq_iff same_config_def)
      then show ?thesis using T by (simp add: tracks_def)
    qed
    then show ?thesis using A(1) by blast
  qed
qed


section \<open>Releasing blocks that no later token reads\<close>

lemma release_at:
  assumes b: "books p xs m" and i: "i < length (blocks_of_req m rid)" and ne: "blocks_of_req m rid ! i \<noteq> Blk 0"
  shows "\<exists>p' xs'. free_blocks [blocks_of_req m rid ! i] p = Inr p' \<and> pool_inv p' (xs @ xs')
     \<and> tracks p m p' (set_req_blocks rid ((blocks_of_req m rid)[i := Blk 0]) m)"
proof -
  let ?bs = "blocks_of_req m rid"
  have held: "held_ok p ?bs" by (rule held_okD [OF booksD(2) [OF b]])
  have cnt: "count_list (?bs[i := Blk 0]) a + count_list [?bs ! i] a = count_list ?bs a" if "a \<in> usable p" for a
    using count_list_update [OF i, of "Blk 0" a] usable_real(2) [OF that] by (auto split: if_splits)
  have "set (?bs[i := Blk 0]) \<subseteq> holdable p"
    using set_update_subset_insert [of ?bs i "Blk 0"] held by (auto simp: held_ok_def holdable_def)
  then have h: "held_ok p (?bs[i := Blk 0])" using held cnt by (fastforce simp: held_ok_iff)
  have s: "set [?bs ! i] \<subseteq> set ?bs" "distinct (filter (\<lambda>b. b \<noteq> Blk 0) [?bs ! i])" "length ?bs \<le> length (?bs[i := Blk 0])"
    using i by auto
  from release_spec [OF b s(1,2) h s(3) cnt] show ?thesis by blast
qed

text \<open>The token position from which a manager looks back after \<open>t\<close> computed tokens.\<close>

definition effective_tokens :: "manager \<Rightarrow> int \<Rightarrow> int" where
  "effective_tokens m t = (case mgr_spec m of MambaSpec s \<Rightarrow> max 0 (t - num_speculative_blocks s) | _ \<Rightarrow> t)"

lemma cdiv_pred: "0 < b \<Longrightarrow> cdiv a b - 1 = (a - 1) div b"
  using cdiv_le_iff [of b a] le_div_iff_mult_le [of b] by (smt (verit, ccfv_SIG) distrib_left mult.commute mult.right_neutral)

lemma remove_skipped_spec:
  assumes b: "books p xs m"
  shows "\<exists>m' p' xs'. remove_skipped_blocks rid t m p = Inr (m', p') \<and> pool_inv p' (xs @ xs') \<and> tracks p m p' m'
     \<and> num_cached_block m' = num_cached_block m \<and> (\<forall>r. r \<noteq> rid \<longrightarrow> blocks_of_req m' r = blocks_of_req m r)
     \<and> length (blocks_of_req m' rid) = length (blocks_of_req m rid)
     \<and> (\<forall>i < length (blocks_of_req m rid). get_num_skipped_tokens m (effective_tokens m t) div int (mgr_block_size m) \<le> int i \<longrightarrow>
          blocks_of_req m' rid ! i = blocks_of_req m rid ! i)"
proof (cases "\<exists>s. mgr_spec m = MambaSpec s")
  case False
  then have "remove_skipped_blocks rid t m p = base_remove_skipped_blocks rid t m p" "effective_tokens m t = t"
    by (auto simp: remove_skipped_blocks_def effective_tokens_def split: layer_spec.split)
  then show ?thesis using base_remove_skipped_spec [OF b, of rid t] by auto
next
  case True
  then obtain s where s: "mgr_spec m = MambaSpec s" by blast
  define t' where "t' = effective_tokens m t"
  let ?bs = "int (mgr_block_size m)"
  have bs: "0 < ?bs" using booksD(2) [OF b] by (simp add: mgr_ok_def)
  obtain m1 p1 xs1 where m1: "base_remove_skipped_blocks rid t' m p = Inr (m1, p1)" "pool_inv p1 (xs @ xs1)" "tracks p m p1 m1"
     "last_state_block_idx m1 = last_state_block_idx m" "length (blocks_of_req m1 rid) = length (blocks_of_req m rid)"
     "\<And>i. i < length (blocks_of_req m rid) \<Longrightarrow> get_num_skipped_tokens m t' div ?bs \<le> int i \<Longrightarrow> blocks_of_req m1 rid ! i = blocks_of_req m rid ! i"
     "\<forall>r. r \<noteq> rid \<longrightarrow> blocks_of_req m1 r = blocks_of_req m r" "num_cached_block m1 = num_cached_block m"
    using base_remove_skipped_spec [OF b, of rid t'] by blast
  have b1: "books p1 (xs @ xs1) m1" by (rule books_tracks [OF b m1(3,2)])
  have c1: "mgr_null_block m1 = Blk 0" "mgr_block_size m1 = mgr_block_size m" "mgr_spec m1 = MambaSpec s"
    using booksD(2) [OF b1] m1(3) s by (auto simp: mgr_ok_def tracks_def same_config_def)
  have te: "max 0 (t - num_speculative_blocks s) = t'" by (simp add: t'_def effective_tokens_def s)
  have run: "remove_skipped_blocks rid t m p = (if mamba_cache_mode s \<noteq> ''align'' then Inr (m1, p1)
     else case last_state_block_idx m1 rid of None \<Rightarrow> Inr (m1, p1)
        | Some i \<Rightarrow> if i < cdiv t' ?bs - 1
            then let m = default_req rid m1; blocks = blocks_of_req m rid
                 in rbind (py_index blocks i) (\<lambda>b.
                    if b \<noteq> mgr_null_block m
                    then rbind (free_blocks [b] p1) (\<lambda>p. Inr (set_req_blocks rid
                           (blocks[nat (if i < 0 then int (length blocks) + i else i) := mgr_null_block m]) m, p))
                    else Inr (m, p1))
            else Inr (m1, p1))"
    unfolding remove_skipped_blocks_def mamba_remove_skipped_blocks_def s layer_spec.case Let_def te m1(1) rbind_Inr prod.case c1(2)
    by (rule refl)
  let ?done = "\<lambda>m' p'. remove_skipped_blocks rid t m p = Inr (m', p')"
  have fin: ?thesis if "?done m' p'" "\<exists>xs'. pool_inv p' (xs @ xs')" "tracks p1 m1 p' m'" "num_cached_block m' = num_cached_block m1"
      "\<And>r. r \<noteq> rid \<Longrightarrow> blocks_of_req m' r = blocks_of_req m1 r" "length (blocks_of_req m' rid) = length (blocks_of_req m1 rid)"
      "\<And>i. i < length (blocks_of_req m rid) \<Longrightarrow> get_num_skipped_tokens m t' div ?bs \<le> int i \<Longrightarrow> blocks_of_req m' rid ! i = blocks_of_req m1 rid ! i" for m' p'
    using that m1 tracks_trans [OF m1(3) that(3)] unfolding t'_def by (metis (no_types, lifting))
  have refl1: "tracks p1 m1 p1 m1" by (rule tracks_refl [OF booksD(2) [OF b1]])
  have t1: "tracks p1 m1 p1 (default_req rid m1)" by (rule tracks_default [OF booksD(2) [OF b1]])
  show ?thesis
  proof (cases "mamba_cache_mode s = ''align'' \<and> (\<exists>i. last_state_block_idx m1 rid = Some i \<and> i < cdiv t' ?bs - 1)")
    case False
    then have "?done m1 p1" using run by (auto split: option.split)
    then show ?thesis using fin [of m1 p1] refl1 m1(2) by blast
  next
    case True
    then obtain i where i: "last_state_block_idx m1 rid = Some i" "i < cdiv t' ?bs - 1" by blast
    have "0 \<le> i \<and> i < int (length (blocks_of_req m1 rid))" using booksD(2) [OF b1] i(1) c1(3) by (fastforce simp: mgr_ok_def mamba_ok_def)
    then have iok: "0 \<le> i" "nat i < length (blocks_of_req m1 rid)" by auto
    have idx: "py_index (blocks_of_req m1 rid) i = Inr (blocks_of_req m1 rid ! nat i)" using iok by (simp add: py_index_def)
    show ?thesis
    proof (cases "blocks_of_req m1 rid ! nat i = Blk 0")
      case null: True
      then have "?done (default_req rid m1) p1" using run True i idx c1 by (simp add: Let_def)
      then show ?thesis using fin [of "default_req rid m1" p1] t1 m1(2) by auto
    next
      case ne: False
      let ?m2 = "set_req_blocks rid ((blocks_of_req m1 rid)[nat i := Blk 0]) (default_req rid m1)"
      have b2: "books p1 (xs @ xs1) (default_req rid m1)" by (rule books_tracks [OF b1 t1 m1(2)])
      obtain p2 xs2 where p2: "free_blocks [blocks_of_req m1 rid ! nat i] p1 = Inr p2" "pool_inv p2 ((xs @ xs1) @ xs2)"
         "tracks p1 (default_req rid m1) p2 ?m2"
        using release_at [OF b2, of "nat i" rid] iok ne by auto
      have "?done ?m2 p2" using run True i idx iok c1 ne p2(1) by (simp add: Let_def)
      moreover have "get_num_skipped_tokens m t' = t' - 1" by (simp add: get_num_skipped_tokens_def s)
      then have "i < get_num_skipped_tokens m t' div ?bs" using i(2) cdiv_pred [OF bs, of t'] by simp
      then have "(blocks_of_req m1 rid)[nat i := Blk 0] ! j = blocks_of_req m1 rid ! j" if "get_num_skipped_tokens m t' div ?bs \<le> int j" for j
        using that iok by (simp add: nth_list_update)
      ultimately show ?thesis using fin [of ?m2 p2] p2(2) tracks_trans [OF t1 p2(3)] by auto
    qed
  qed
qed

text \<open>
  Which earlier positions the token at position \<open>t\<close> reads: all, the ones in its window, the ones in
  its chunk, or the state after the previous token.
\<close>

definition attends :: "layer_spec \<Rightarrow> int \<Rightarrow> int \<Rightarrow> bool" where
  "attends spec t q \<longleftrightarrow> (case spec of
     SlidingWindowSpec s \<Rightarrow> t - sliding_window s < q
   | ChunkedLocalAttentionSpec s \<Rightarrow> t div attention_chunk_size s \<le> q div attention_chunk_size s
   | MambaSpec _ \<Rightarrow> t - 1 \<le> q
   | _ \<Rightarrow> True)"

definition spec_valid :: "layer_spec \<Rightarrow> bool" where
  "spec_valid spec \<longleftrightarrow> (case spec of
     SlidingWindowSpec s \<Rightarrow> 0 < sliding_window s | ChunkedLocalAttentionSpec s \<Rightarrow> 0 < attention_chunk_size s
   | MambaSpec s \<Rightarrow> 0 \<le> num_speculative_blocks s | _ \<Rightarrow> True)"

lemma attends_not_skipped:
  assumes "spec_valid (mgr_spec m)" and "attends (mgr_spec m) t q" and "0 \<le> q"
  shows "get_num_skipped_tokens m t \<le> q"
proof (cases "mgr_spec m")
  case (ChunkedLocalAttentionSpec s)
  then have c: "0 < attention_chunk_size s" "t div attention_chunk_size s \<le> q div attention_chunk_size s"
    using assms by (simp_all add: spec_valid_def attends_def)
  then show ?thesis using le_div_iff_mult_le [OF c(1)] ChunkedLocalAttentionSpec by (simp add: get_num_skipped_tokens_def)
qed (use assms in \<open>auto simp: get_num_skipped_tokens_def attends_def\<close>)

text \<open>
  C30. Removing skipped blocks always succeeds and is safe: every block holding a position that the
  next token (at the position the manager assumes to be reached) or a later one reads stays in the block list at its place; the length
  of the list and the lists of other requests do not change, and the reference counts of the
  released blocks drop with the entries that are replaced.
\<close>

theorem remove_skipped_blocks_safe:
  assumes "books p xs m" and "spec_valid (mgr_spec m)"
  shows "\<exists>m' p' xs'. remove_skipped_blocks rid t m p = Inr (m', p') \<and> books p' (xs @ xs') m' \<and> tracks p m p' m'
     \<and> length (blocks_of_req m' rid) = length (blocks_of_req m rid)
     \<and> (\<forall>q. attends (mgr_spec m) (effective_tokens m t) (int q) \<longrightarrow> q div mgr_block_size m < length (blocks_of_req m rid) \<longrightarrow>
          blocks_of_req m' rid ! (q div mgr_block_size m) = blocks_of_req m rid ! (q div mgr_block_size m))
     \<and> (\<forall>r. r \<noteq> rid \<longrightarrow> blocks_of_req m' r = blocks_of_req m r)"
proof -
  let ?t = "effective_tokens m t" and ?bs = "mgr_block_size m"
  obtain m' p' xs' where r: "remove_skipped_blocks rid t m p = Inr (m', p')" "pool_inv p' (xs @ xs')" "tracks p m p' m'"
      "\<forall>r. r \<noteq> rid \<longrightarrow> blocks_of_req m' r = blocks_of_req m r" "length (blocks_of_req m' rid) = length (blocks_of_req m rid)"
      "\<And>i. i < length (blocks_of_req m rid) \<Longrightarrow> get_num_skipped_tokens m ?t div int ?bs \<le> int i \<Longrightarrow>
          blocks_of_req m' rid ! i = blocks_of_req m rid ! i"
    using remove_skipped_spec [OF assms(1), of rid t] by blast
  have "0 < int ?bs" using booksD(2) [OF assms(1)] by (simp add: mgr_ok_def)
  then have "get_num_skipped_tokens m ?t div int ?bs \<le> int (q div ?bs)" if "attends (mgr_spec m) ?t (int q)" for q
    using attends_not_skipped [OF assms(2) that] by (simp add: zdiv_int zdiv_mono1)
  then show ?thesis using r books_tracks [OF assms(1) r(3,2)] by blast
qed

section \<open>Caching full blocks\<close>

lemma base_cache_keeps:
  assumes b: "books p xs m" and r: "base_cache_blocks env r t m p = Inr (r', m', p')"
  shows "pool_inv p' xs" "tracks p m p' m'" "\<forall>rid. blocks_of_req m' rid = blocks_of_req m rid"
proof -
  note B = booksD [OF b]
  have "pool_inv p' xs \<and> tracks p m p' m' \<and> (\<forall>rid. blocks_of_req m' rid = blocks_of_req m rid)"
  proof (cases "t div int (mgr_block_size m) \<le> int (case num_cached_block m (request_id r) of None \<Rightarrow> 0 | Some n \<Rightarrow> n)")
    case True
    then show ?thesis using r B tracks_refl by (auto simp: base_cache_blocks_def Let_def)
  next
    case False
    then obtain nc nf where c: "cache_full_blocks env r (blocks_of_req m (request_id r)) nc nf (mgr_block_size m) (kv_cache_group_id m) p = Inr (r', p')"
      "m' = (default_req (request_id r) m)\<lparr>num_cached_block := (num_cached_block m)(request_id r \<mapsto> nf)\<rparr>"
      using r by (auto simp: base_cache_blocks_def Let_def rbind_eq_Inr)
    have "set (blocks_of_req m (request_id r)) \<subseteq> holdable p" using held_okD [OF B(2)] by (simp add: held_ok_def)
    then have p': "pool_inv p' xs" "usable p' = usable p" "\<And>a. ref_cnt (heap p' a) = ref_cnt (heap p a)"
      using cache_full_blocks_inv [OF c(1) B(1)] by auto
    moreover have "mgr_ok p' m'" using B(2) mgr_ok_usable [OF p'(2)] c(2) by simp
    moreover have "occ m' a = occ m a" for a using B(2) c(2) by simp
    ultimately show ?thesis using c(2) by (simp add: tracks_def)
  qed
  then show "pool_inv p' xs" "tracks p m p' m'" "\<forall>rid. blocks_of_req m' rid = blocks_of_req m rid" by blast+
qed

lemma mamba_mark_loop:
  assumes "rfold (\<lambda>b m. if is_null (heap p b) then Inr m
        else case block_hash (heap p b) of None \<Rightarrow> Inl AssertionError
             | Some h \<Rightarrow> Inr (m\<lparr>cached_blocks_this_step := insert h (cached_blocks_this_step m)\<rparr>)) bs m = Inr m'"
  shows "\<exists>z. m' = m\<lparr>cached_blocks_this_step := z\<rparr>"
proof (rule rfold_invariant [OF assms])
  show "\<exists>z. m = m\<lparr>cached_blocks_this_step := z\<rparr>" by (intro exI [of _ "cached_blocks_this_step m"]) simp
qed (auto split: if_splits option.splits)

lemma cache_blocks_keeps:
  assumes b: "books p xs m" and r: "cache_blocks env r t m p = Inr (r', m', p')"
  shows "pool_inv p' xs" "tracks p m p' m'"
proof -
  have "pool_inv p' xs \<and> tracks p m p' m'"
  proof (cases "\<exists>s. mgr_spec m = MambaSpec s")
    case False
    then have "base_cache_blocks env r t m p = Inr (r', m', p')" using r by (auto simp: cache_blocks_def split: layer_spec.splits)
    then show ?thesis using base_cache_keeps [OF b] by blast
  next
    case True
    then obtain r1 m1 where c: "base_cache_blocks env r t m p = Inr (r1, m1, p')" and
        m': "m' = m1 \<or> (\<exists>z. m' = (default_req (request_id r1) m1)\<lparr>cached_blocks_this_step := z\<rparr>)"
      using r mamba_mark_loop by (fastforce simp: cache_blocks_def mamba_cache_blocks_def Let_def rbind_eq_Inr split: if_splits)
    have "tracks p m p' m1" "pool_inv p' xs" using base_cache_keeps [OF b c] by auto
    then show ?thesis using m' tracks_trans [OF _ tracks_default] by (auto simp: tracks_frame tracks_def)
  qed
  then show "pool_inv p' xs" "tracks p m p' m'" by blast+
qed


section \<open>The allocation check is sufficient\<close>

lemma evictable_eq:
  assumes "pool_inv p xs" and "set hit \<subseteq> holdable p"
  shows "get_num_evictable_blocks p hit = int (length (filter (\<lambda>b. b \<in> set xs) hit))"
proof -
  note I = pool_invD [OF assms(1)]
  have "(ref_cnt (heap p b) = 0 \<and> \<not> is_null (heap p b)) = (b \<in> set xs)" if "b \<in> set hit" for b
    using that assms(2) I(4) null_is_null [OF I(1)] usable_not_null [OF I(1), of b] by (auto simp: holdable_def dest: usable_real(2))
  then have "filter (\<lambda>b. ref_cnt (heap p b) = 0 \<and> \<not> is_null (heap p b)) hit = filter (\<lambda>b. b \<in> set xs) hit"
    by (intro filter_cong) auto
  then show ?thesis by (simp add: get_num_evictable_blocks_def)
qed

lemma free_after_touch:
  assumes "pool_inv p xs" and "held_ok p hit"
  shows "int (length (filter (\<lambda>x. x \<notin> set hit) xs)) = int (length xs) - int (length (filter (\<lambda>b. b \<in> set xs) hit))"
proof -
  have d: "distinct xs" using pool_invD(6) [OF assms(1)] .
  have "Blk 0 \<notin> set xs" using pool_invD(4) [OF assms(1)] usable_real(2) by fastforce
  then have "filter (\<lambda>b. b \<in> set xs) hit = filter (\<lambda>b. b \<in> set xs) (filter (\<lambda>b. b \<noteq> Blk 0) hit)"
    by (auto intro!: filter_cong)
  then have "distinct (filter (\<lambda>b. b \<in> set xs) hit)" using assms(2) distinct_filter unfolding held_ok_def by metis
  then have "length (filter (\<lambda>b. b \<in> set xs) hit) = card (set xs \<inter> set hit)"
    by (simp add: distinct_card [symmetric] Int_def conj_commute)
  moreover have "length (filter (\<lambda>x. x \<in> set hit) xs) = card (set xs \<inter> set hit)"
    using d by (simp add: distinct_card [symmetric] Int_def conj_commute)
  ultimately show ?thesis using sum_length_filter_compl [of "\<lambda>x. x \<in> set hit" xs] by linarith
qed

text \<open>Blocks that the first phase of an allocation, adding the prefix, takes from the free queue.\<close>

definition in_first_phase :: "string \<Rightarrow> manager \<Rightarrow> bool" where
  "in_first_phase rid m \<longleftrightarrow> \<not> is_cross m \<and> num_cached_block m rid = None"

definition computed_need :: "block_ref list \<Rightarrow> string \<Rightarrow> block_ref list \<Rightarrow> int \<Rightarrow> int \<Rightarrow> manager \<Rightarrow> int" where
  "computed_need xs rid hit num_local num_external m =
     (if in_first_phase rid m
      then int (length (filter (\<lambda>b. b \<in> set xs) (drop (skipped_blocks m (num_local + num_external)) hit))) + external_blocks hit num_local num_external m
      else 0)"

definition computed_ready :: "block_pool \<Rightarrow> string \<Rightarrow> block_ref list \<Rightarrow> int \<Rightarrow> int \<Rightarrow> manager \<Rightarrow> bool" where
  "computed_ready p rid hit num_local num_external m \<longleftrightarrow>
     (if in_first_phase rid m
      then blocks_of_req m rid = [] \<and> fits_computed p rid hit num_local num_external m
        \<and> (mgr_enable_caching m \<or> drop (skipped_blocks m (num_local + num_external)) hit = [])
      else hit = [])"

definition prefix_length :: "string \<Rightarrow> block_ref list \<Rightarrow> int \<Rightarrow> int \<Rightarrow> manager \<Rightarrow> int" where
  "prefix_length rid hit num_local num_external m =
     (if in_first_phase rid m then int (max (skipped_blocks m (num_local + num_external)) (length hit)) + external_blocks hit num_local num_external m
      else int (length (blocks_of_req m rid)))"

lemma computed_phase:
  assumes b: "books p xs m" and ready: "computed_ready p rid hit num_local num_external m" and pos: "0 \<le> num_local + num_external"
    and enough: "computed_need xs rid hit num_local num_external m \<le> int (length xs)"
  shows "\<exists>m' p' xs'. allocate_new_computed_blocks rid hit num_local num_external m p = Inr (m', p') \<and> pool_inv p' xs' \<and> tracks p m p' m'
     \<and> set xs' \<subseteq> set xs \<and> int (length xs') = int (length xs) - computed_need xs rid hit num_local num_external m
     \<and> int (length (blocks_of_req m' rid)) = prefix_length rid hit num_local num_external m
     \<and> (\<forall>r. r \<noteq> rid \<longrightarrow> blocks_of_req m' r = blocks_of_req m r)"
proof (cases "in_first_phase rid m")
  case False
  then have "allocate_new_computed_blocks rid hit num_local num_external m p = Inr (m, p)"
    using ready by (cases "is_cross m") (auto simp: allocate_new_computed_blocks_def base_allocate_new_computed_blocks_def
        computed_ready_def in_first_phase_def simp del: rbind_Inl)
  then show ?thesis using False booksD [OF b] tracks_refl
    by (intro exI [of _ m] exI [of _ p] exI [of _ xs]) (simp add: computed_need_def prefix_length_def)
next
  case True
  define k where "k = skipped_blocks m (num_local + num_external)"
  define n where "n = external_blocks hit num_local num_external m"
  define ys where "ys = filter (\<lambda>x. x \<notin> set (drop k hit)) xs"
  have R: "blocks_of_req m rid = []" "fits_computed p rid hit num_local num_external m" "mgr_enable_caching m \<or> drop k hit = []"
    "num_cached_block m rid = None" "\<not> is_cross m"
    using ready True by (auto simp: computed_ready_def in_first_phase_def k_def)
  have held: "held_ok p (drop k hit)"
    using R(2) set_drop_subset [of k hit] by (auto simp: fits_computed_def held_ok_def drop_filter_distinct)
  have len: "int (length ys) = int (length xs) - int (length (filter (\<lambda>b. b \<in> set xs) (drop k hit)))"
    unfolding ys_def by (rule free_after_touch [OF booksD(1) [OF b] held])
  have n0: "0 \<le> n" unfolding n_def by (rule external_blocks_nonneg [OF booksD(2) [OF b] R(2) pos])
  have n1: "n \<le> int (length ys)" using enough True len by (simp add: computed_need_def n_def k_def)
  obtain m' p' where r: "base_allocate_new_computed_blocks rid hit num_local num_external m p = Inr (m', p')"
     "pool_inv p' (drop (nat n) ys)" "tracks p m p' m'"
     "\<And>r. blocks_of_req m' r = (if r = rid then replicate k (Blk 0) @ drop k hit @ take (nat n) ys else blocks_of_req m r)"
    using base_allocate_computed_spec [OF b R(4,1,2) pos k_def n_def ys_def R(3) n1] by blast
  have "set (drop (nat n) ys) \<subseteq> set xs" using set_drop_subset [of "nat n" ys] by (auto simp: ys_def)
  moreover have "int (length (drop (nat n) ys)) = int (length xs) - computed_need xs rid hit num_local num_external m"
    using n0 n1 len True by (simp add: computed_need_def n_def [symmetric] k_def [symmetric])
  moreover have "int (length (blocks_of_req m' rid)) = prefix_length rid hit num_local num_external m"
    using n0 n1 True by (simp add: r(4) prefix_length_def n_def [symmetric] k_def [symmetric])
  ultimately show ?thesis using r R(5) by (auto simp: allocate_new_computed_blocks_def)
qed

text \<open>The number the check asks for covers both phases.\<close>

lemma max_int_nat: "max x (int n) = int (max (nat x) n)"
  by simp

lemma base_need_covers:
  assumes b: "books p xs m" and ready: "computed_ready p rid hit num_local num_external m" and nc: "\<not> is_cross m"
    and t: "num_local + num_external \<le> t"
    and need: "base_get_num_blocks_to_allocate rid t hit (num_local + num_external) m p = Inr n"
  shows "computed_need xs rid hit num_local num_external m
     + max 0 (cdiv t (int (mgr_block_size m)) - prefix_length rid hit num_local num_external m) \<le> n"
proof (cases "in_first_phase rid m")
  case False
  then have "num_cached_block m rid \<noteq> None" "hit = []" using ready nc by (auto simp: in_first_phase_def computed_ready_def)
  then show ?thesis using need False by (auto simp: base_get_num_blocks_to_allocate_def Let_def computed_need_def prefix_length_def)
next
  case True
  let ?k = "skipped_blocks m (num_local + num_external)" and ?bs = "int (mgr_block_size m)"
  have R: "blocks_of_req m rid = []" "num_cached_block m rid = None" "set hit \<subseteq> holdable p"
    using ready True by (auto simp: computed_ready_def in_first_phase_def fits_computed_def held_ok_def)
  have "set (drop ?k hit) \<subseteq> holdable p" using R(3) set_drop_subset [of ?k hit] by blast
  note ev = evictable_eq [OF booksD(1) [OF b] this]
  have k: "nat (max 0 (get_num_skipped_tokens m (num_local + num_external) div ?bs)) = ?k" by (simp add: skipped_blocks_def)
  have n: "n = max (cdiv t ?bs - int (max ?k (length hit))) 0 + int (length (filter (\<lambda>b. b \<in> set xs) (drop ?k hit)))"
    using need R(1,2) k by (simp add: base_get_num_blocks_to_allocate_def Let_def ev max_int_nat skipped_blocks_def [symmetric] del: of_nat_max)
  have bs: "0 < ?bs" using booksD(2) [OF b] by (simp add: mgr_ok_def)
  then have "cdiv (num_local + num_external) ?bs \<le> cdiv t ?bs"
    using cdiv_le_iff [OF bs, of t "cdiv t ?bs"] cdiv_le_iff [OF bs, of "num_local + num_external" "cdiv t ?bs"] t by simp
  then have "external_blocks hit num_local num_external m + max 0 (cdiv t ?bs - int (max ?k (length hit)) - external_blocks hit num_local num_external m)
     \<le> max (cdiv t ?bs - int (max ?k (length hit))) 0"
    by (auto simp: external_blocks_def Let_def)
  then show ?thesis using n True by (simp add: computed_need_def prefix_length_def diff_diff_eq)
qed


section \<open>Dispatch\<close>

definition is_aligned_mamba :: "manager \<Rightarrow> bool" where
  "is_aligned_mamba m = (case mgr_spec m of MambaSpec s \<Rightarrow> mamba_cache_mode s = ''align'' | _ \<Rightarrow> False)"

text \<open>The number of token slots a manager provides: encoder tokens, or the tokens and the speculative states.\<close>

definition demand :: "manager \<Rightarrow> int \<Rightarrow> int \<Rightarrow> int" where
  "demand m n_tokens num_encoder_tokens =
     (case mgr_spec m of
        CrossAttentionSpec _ \<Rightarrow> num_encoder_tokens
      | MambaSpec s \<Rightarrow> (if 0 < num_speculative_blocks s then n_tokens + int (mgr_block_size m) * num_speculative_blocks s else n_tokens)
      | _ \<Rightarrow> n_tokens)"

lemma allocate_dispatch:
  "\<not> is_aligned_mamba m \<Longrightarrow> allocate_new_blocks rid (if is_cross m then enc else n) main m p = base_allocate_new_blocks rid (demand m n enc) m p"
  by (cases "mgr_spec m") (auto simp: is_aligned_mamba_def allocate_new_blocks_def mamba_allocate_new_blocks_def demand_def is_cross_def)

lemma need_dispatch:
  assumes "\<not> is_aligned_mamba m" and "\<forall>s. mgr_spec m = MambaSpec s \<longrightarrow> mgr_block_size m = spec_block_size s" and "\<not> is_cross m"
    and "get_num_blocks_to_allocate rid n hit t main m p = Inr (k, m')"
  shows "m' = m \<and> (k = int (num_gpu_blocks p) + 1 \<or> base_get_num_blocks_to_allocate rid (demand m n enc) hit t m p = Inr k)"
  using assms
  by (cases "mgr_spec m") (auto simp: is_aligned_mamba_def get_num_blocks_to_allocate_def mamba_get_num_blocks_to_allocate_def
      demand_def is_cross_def rbind_eq_Inr Let_def split: if_splits)

lemma allocate_new_blocks_keeps:
  assumes b: "books p xs m" and pos: "0 < main" and r: "allocate_new_blocks rid t main m p = Inr (new, m', p')"
  shows "\<exists>xs'. pool_inv p' xs' \<and> tracks p m p' m'"
proof (cases "is_aligned_mamba m")
  case True
  then obtain s where s: "mgr_spec m = MambaSpec s" "mamba_cache_mode s = ''align''" by (auto simp: is_aligned_mamba_def split: layer_spec.splits)
  then have "mamba_allocate_aligned s rid main m p = Inr (new, m', p')" using r by (simp add: allocate_new_blocks_def mamba_allocate_new_blocks_def)
  then show ?thesis by (rule mamba_aligned_keeps [OF b s pos])
next
  case False
  then obtain t' where r': "base_allocate_new_blocks rid t' m p = Inr (new, m', p')"
    using allocate_dispatch [OF False, of rid t t main p] r by auto
  then have "missing_blocks rid t' m \<le> int (length xs)" using base_allocate_short [OF b] by (metis Inl_Inr_False linorder_not_less)
  then show ?thesis using base_allocate_spec [OF b refl] r' by fastforce
qed

lemma allocate_computed_keeps:
  assumes "books p xs m" and "fits_computed p rid hit num_local num_external m" and "0 \<le> num_local + num_external"
    and "allocate_new_computed_blocks rid hit num_local num_external m p = Inr (m', p')"
  shows "\<exists>xs'. pool_inv p' xs' \<and> tracks p m p' m'"
proof (cases "is_cross m")
  case True
  then show ?thesis using assms booksD tracks_refl by (auto simp: allocate_new_computed_blocks_def rbind_eq_Inr)
next
  case False
  then show ?thesis using base_allocate_computed_keeps [OF assms(1-3)] assms(4) by (simp add: allocate_new_computed_blocks_def)
qed

text \<open>A manager starts with empty books.\<close>

lemma new_manager_ok:
  assumes "pool_inv p xs" and "spec_valid spec" and "0 < block_size_of spec" and "0 < dcp" "0 < pcp"
  shows "mgr_ok p (SingleTypeKVCacheManager spec p caching g dcp pcp)" "occ (SingleTypeKVCacheManager spec p caching g dcp pcp) b = 0"
    "blocks_of_req (SingleTypeKVCacheManager spec p caching g dcp pcp) r = []"
proof -
  show "blocks_of_req (SingleTypeKVCacheManager spec p caching g dcp pcp) r = []" for r
    by (simp add: SingleTypeKVCacheManager_def blocks_of_req_def)
  show "mgr_ok p (SingleTypeKVCacheManager spec p caching g dcp pcp)"
    using assms pool_invD(1) [OF assms(1)]
    by (cases spec) (auto simp: SingleTypeKVCacheManager_def mgr_ok_def mamba_ok_def static_ok_def spec_valid_def)
qed (simp add: SingleTypeKVCacheManager_def occ_def)

lemma new_manager_books:
  assumes "pool_inv p xs" and "spec_valid spec" and "0 < block_size_of spec" and "0 < dcp" "0 < pcp"
  shows "books p xs (SingleTypeKVCacheManager spec p caching g dcp pcp)"
  using new_manager_ok [OF assms] pool_invD(5) [OF assms(1)] assms(1) by (simp add: books_def)

section \<open>Witnesses\<close>

text \<open>A sliding window manager (window 3, block size 2) whose request \<open>r\<close> holds the blocks 1 and 2 of five.\<close>

lemma manager_example:
  "\<exists>p m. books p [Blk 3, Blk 4] m \<and> mgr_spec m = SlidingWindowSpec hit_window_spec \<and> mgr_block_size m = 2
     \<and> blocks_of_req m ''r'' = [Blk 1, Blk 2]"
proof -
  obtain p0 where p0: "pool_inv p0 (map Blk [1..<5])" using BlockPool_spec [of 5 True 2 False False] by auto
  define m0 where "m0 = SingleTypeKVCacheManager (SlidingWindowSpec hit_window_spec) p0 True 0 1 1"
  have v: "spec_valid (SlidingWindowSpec hit_window_spec)" "0 < block_size_of (SlidingWindowSpec hit_window_spec)"
    by (simp_all add: spec_valid_def hit_window_spec_def)
  have b0: "books p0 (map Blk [1..<5]) m0" unfolding m0_def by (rule new_manager_books [OF p0 v]) simp_all
  have m0: "mgr_spec m0 = SlidingWindowSpec hit_window_spec" "mgr_block_size m0 = 2" "blocks_of_req m0 ''r'' = []"
    by (simp_all add: m0_def SingleTypeKVCacheManager_def blocks_of_req_def hit_window_spec_def)
  have n: "missing_blocks ''r'' 4 m0 = 2" by (simp add: missing_blocks_def m0 cdiv_def)
  have u: "map Blk [1..<5] = [Blk 1, Blk 2, Blk 3, Blk 4]" by (simp add: upt_rec)
  obtain m p where mp: "pool_inv p [Blk 3, Blk 4]" "tracks p0 m0 p m" "blocks_of_req m ''r'' = [Blk 1, Blk 2]"
    using base_allocate_spec [OF b0 n [symmetric]] m0(3) unfolding u by auto
  have "books p [Blk 3, Blk 4] m" by (rule books_tracks [OF b0 mp(2,1)])
  then show ?thesis using mp m0 by (auto simp: tracks_def same_config_def)
qed

theorem free_req_correct_witness:
  "\<exists>p m m' p' ys. blocks_of_req m ''r'' = [Blk 1, Blk 2] \<and> free_req ''r'' m p = Inr (m', p') \<and> books p' ([Blk 3, Blk 4] @ ys) m'
     \<and> blocks_of_req m' ''r'' = []"
proof -
  obtain p m where m: "books p [Blk 3, Blk 4] m" "blocks_of_req m ''r'' = [Blk 1, Blk 2]" using manager_example by blast
  then show ?thesis using free_req_correct [OF m(1), of "''r''"] by fastforce
qed

theorem remove_skipped_blocks_safe_witness:
  "\<exists>p m m' p' ys. blocks_of_req m ''r'' = [Blk 1, Blk 2] \<and> remove_skipped_blocks ''r'' 4 m p = Inr (m', p')
     \<and> books p' ([Blk 3, Blk 4] @ ys) m' \<and> blocks_of_req m' ''r'' ! 1 = Blk 2"
proof -
  obtain p m where m: "books p [Blk 3, Blk 4] m" "blocks_of_req m ''r'' = [Blk 1, Blk 2]"
      "mgr_spec m = SlidingWindowSpec hit_window_spec" "mgr_block_size m = 2" using manager_example by blast
  have v: "spec_valid (mgr_spec m)" by (simp add: m(3) spec_valid_def hit_window_spec_def)
  obtain m' p' ys where r: "remove_skipped_blocks ''r'' 4 m p = Inr (m', p')" "books p' ([Blk 3, Blk 4] @ ys) m'"
    "\<forall>q. attends (mgr_spec m) (effective_tokens m 4) (int q) \<longrightarrow> q div mgr_block_size m < length (blocks_of_req m ''r'') \<longrightarrow>
          blocks_of_req m' ''r'' ! (q div mgr_block_size m) = blocks_of_req m ''r'' ! (q div mgr_block_size m)"
    using remove_skipped_blocks_safe [OF m(1) v, of "''r''" 4] by blast
  have "attends (mgr_spec m) (effective_tokens m 4) (int 2)" by (simp add: m(3) attends_def effective_tokens_def hit_window_spec_def)
  then have "blocks_of_req m' ''r'' ! 1 = Blk 2" using r(3) [rule_format, of 2] m(2,4) by simp
  then show ?thesis using m(2) r by blast
qed


section \<open>Sink blocks\<close>

text \<open>
  The sink manager takes its blocks out of the free queue at start-up without
  counting a reference. From then on the pool never looks empty: even before any request
  arrives, \<^verbatim>\<open>reset_prefix_cache\<close>, which expects that only the null block is in use, refuses.
\<close>

theorem sink_blocks_block_reset:
  assumes "BlockPool n c h ev ih = Inr p" and "0 < n" and "0 < spec_block_size s" "0 < dcp" "0 < pcp"
    and "get_manager_for_kv_cache_spec (SinkFullAttentionSpec s) caching g dcp pcp p = Inr (m, p')"
  shows "sink_blocks m \<noteq> [] \<and> req_to_blocks m = [] \<and> \<not> fst (reset_prefix_cache p')"
proof -
  let ?m0 = "SingleTypeKVCacheManager (SinkFullAttentionSpec s) p caching g dcp pcp"
  let ?bs = "int (mgr_block_size ?m0)"
  have p: "pool_inv p (map Blk [1..<n])" "num_gpu_blocks p = n" using BlockPool_spec [OF assms(2), of c h ev ih] assms(1) by auto
  have bs: "0 < ?bs" using assms(3-5) by (simp add: SingleTypeKVCacheManager_def)
  obtain l bl where l: "0 < l" "l mod ?bs = 0" "popleft_n (l div ?bs) p = Inr (bl, p')" "m = ?m0\<lparr>sink_blocks := bl\<rparr>"
    using assms(6) by (auto simp: get_manager_for_kv_cache_spec_def SinkFullAttentionManager_init_def Let_def rbind_eq_Inr split: option.splits)
  define q where "q = l div ?bs"
  have "l = q * ?bs" using l(2) by (simp add: q_def minus_mod_eq_div_mult [symmetric])
  then have q: "0 < q" using l(1) bs by (simp add: zero_less_mult_iff)
  have f: "fq_rep p (map Blk [1..<n])" by (rule pool_invD(3) [OF p(1)])
  have le: "q \<le> int (length (map Blk [1..<n]))" using fq.pop_n_short [OF f, of q] l(3) by (fastforce simp: q_def)
  obtain p1 where p1: "popleft_n q p = Inr (take (nat q) (map Blk [1..<n]), p1)" "fq_rep p1 (drop (nat q) (map Blk [1..<n]))" "fq_data p1 = fq_data p"
    using fq.pop_n_first [OF f _ le] q by auto
  have e: "p' = p1" "bl = take (nat q) (map Blk [1..<n])" using p1(1) l(3) by (simp_all add: q_def)
  have "num_free_blocks p1 = int (n - 1) - q" using fq_repD [OF p1(2)] le q by simp
  moreover have "num_gpu_blocks p1 = n" using fq_data_fields [OF p1(3)] p(2) by simp
  ultimately have "\<not> fst (reset_prefix_cache p')" using q assms(2) by (simp add: e reset_prefix_cache_def Let_def get_num_free_blocks_def)
  moreover have "bl \<noteq> []" using e(2) q le by (auto simp: take_eq_Nil)
  ultimately show ?thesis by (simp add: l(4) SingleTypeKVCacheManager_def)
qed

definition sink_example :: sink_attention_spec where
  "sink_example = \<lparr>spec_block_size = 2, num_kv_heads = 1, head_size = 2, dtype = ''float16'', page_size_padded = None,
     head_size_v = 2, full_sliding_window = None, full_attention_chunk_size = None, sink_len = Some 2\<rparr>"

theorem sink_blocks_block_reset_witness:
  "\<exists>p m p'. BlockPool 4 True 2 False False = Inr p
     \<and> get_manager_for_kv_cache_spec (SinkFullAttentionSpec sink_example) True 0 1 1 p = Inr (m, p') \<and> \<not> fst (reset_prefix_cache p')"
proof -
  obtain p where p: "BlockPool 4 True 2 False False = Inr p" "pool_inv p (map Blk [1..<4])" using BlockPool_spec [of 4 True 2 False False] by auto
  let ?m0 = "SingleTypeKVCacheManager (SinkFullAttentionSpec sink_example) p True 0 1 1"
  obtain p1 where "popleft_n 1 p = Inr (take (nat 1) (map Blk [1..<4]), p1)"
    using fq.pop_n_first [OF pool_invD(3) [OF p(2)], of 1] by auto
  then have g: "get_manager_for_kv_cache_spec (SinkFullAttentionSpec sink_example) True 0 1 1 p
      = Inr (?m0\<lparr>sink_blocks := take (nat 1) (map Blk [1..<4])\<rparr>, p1)"
    by (simp add: get_manager_for_kv_cache_spec_def SinkFullAttentionManager_init_def Let_def sink_example_def SingleTypeKVCacheManager_def)
  have "0 < spec_block_size sink_example" by (simp add: sink_example_def)
  then show ?thesis using sink_blocks_block_reset [OF p(1) _ _ _ _ g] p(1) g by auto
qed


end
