(* ===== verification/Coordinator.thy ===== *)
theory Coordinator
  imports Cache_Manager "HOL-Library.Multiset"
begin

text \<open>
  The coordinators of \<^verbatim>\<open>src/vllm/v1/core/kv_cache_coordinator.py\<close>: one manager per cache group over
  a shared block pool, the loops that call every manager, and the search for the longest
  prefix that is cached for all groups. One record holds the fields of the base class and
  of its three subclasses. A group whose format is not that of a layer has no entry in
  \<^verbatim>\<open>spec_manager_map\<close>. Lengths of prefixes are natural numbers.
\<close>

section \<open>State\<close>

datatype coordinator_class =
    KVCacheCoordinatorNoPrefixCache
  | UnitaryKVCacheCoordinator
  | HybridKVCacheCoordinator

type_synonym attention_group = "layer_spec \<times> int list \<times> manager_class"

record coordinator =
  coord_class :: coordinator_class
  group_specs :: "layer_spec list"
  coord_enable_caching :: bool
  coord_use_eagle :: bool
  coord_pool :: block_pool
  single_type_managers :: "manager list"
  coord_block_size :: nat
  coord_dcp :: nat
  coord_pcp :: nat
  coord_hash_block_size :: nat
  attention_groups :: "attention_group list"
  lcm_block_size :: nat

section \<open>Construction\<close>

fun make_managers :: "bool \<Rightarrow> nat \<Rightarrow> nat \<Rightarrow> nat \<Rightarrow> kv_cache_group_spec list \<Rightarrow> block_pool
     \<Rightarrow> (layer_spec list \<times> manager list \<times> block_pool) result" where
  "make_managers caching dcp pcp i [] p = Inr ([], [], p)"
| "make_managers caching dcp pcp i (g # gs) p =
     (case group_spec g of
        UniformTypeKVCacheSpecs _ _ \<Rightarrow> Inl KeyError
      | LayerSpec s \<Rightarrow>
          rbind (get_manager_for_kv_cache_spec s caching (int i) dcp pcp p) (\<lambda>(m, p).
          rbind (make_managers caching dcp pcp (Suc i) gs p) (\<lambda>(ss, ms, p). Inr (s # ss, m # ms, p))))"

definition KVCacheCoordinator :: "coordinator_class \<Rightarrow> kv_cache_config \<Rightarrow> bool \<Rightarrow> bool \<Rightarrow> bool \<Rightarrow> bool \<Rightarrow> nat \<Rightarrow> nat \<Rightarrow> nat
     \<Rightarrow> coordinator result" where
  "KVCacheCoordinator cls config use_eagle caching events int_hashes dcp pcp hash_size =
     rbind (BlockPool (nat (config_num_blocks config)) caching hash_size events int_hashes) (\<lambda>p.
     rbind (make_managers caching dcp pcp 0 (kv_cache_groups config) p) (\<lambda>(specs, ms, p).
     Inr \<lparr>coord_class = cls, group_specs = specs, coord_enable_caching = caching, coord_use_eagle = use_eagle,
          coord_pool = p, single_type_managers = ms, coord_block_size = 0, coord_dcp = dcp, coord_pcp = pcp,
          coord_hash_block_size = hash_size, attention_groups = [], lcm_block_size = 0\<rparr>))"

definition UnitaryKVCacheCoordinator_init :: "coordinator \<Rightarrow> coordinator result" where
  "UnitaryKVCacheCoordinator_init c =
     (case group_specs c of
        [] \<Rightarrow> Inl IndexError
      | s # _ \<Rightarrow>
          let bs = block_size_of s;
              bs = (if 1 < coord_dcp c then bs * coord_dcp c else bs);
              bs = (if 1 < coord_pcp c then bs * coord_pcp c else bs)
          in rbind (ensure (\<not> coord_enable_caching c \<or> coord_hash_block_size c = bs) AssertionError) (\<lambda>_.
             rbind (ensure (length (group_specs c) = 1) AssertionError) (\<lambda>_.
             Inr (c\<lparr>coord_block_size := bs\<rparr>))))"

fun add_attention_group :: "nat \<Rightarrow> layer_spec \<Rightarrow> manager_class \<Rightarrow> attention_group list \<Rightarrow> attention_group list result" where
  "add_attention_group i spec cls [] = Inr [(spec, [int i], cls)]"
| "add_attention_group i spec cls ((existing_spec, group_ids, existing_cls) # groups) =
     (if existing_spec = spec
      then rbind (ensure (cls = existing_cls) AssertionError) (\<lambda>_. Inr ((existing_spec, group_ids @ [int i], existing_cls) # groups))
      else rbind (add_attention_group i spec cls groups) (\<lambda>groups. Inr ((existing_spec, group_ids, existing_cls) # groups)))"

definition is_full_attn :: "layer_spec \<Rightarrow> bool" where
  "is_full_attn spec = (as_full spec \<noteq> None)"

definition verify_and_split_kv_cache_groups :: "coordinator \<Rightarrow> coordinator result" where
  "verify_and_split_kv_cache_groups c =
     rbind (rfold (\<lambda>(i, s) groups. case spec_manager_map s of None \<Rightarrow> Inl KeyError | Some cls \<Rightarrow> add_attention_group i s cls groups)
              (enumerate 0 (group_specs c)) []) (\<lambda>groups.
     rbind (ensure (1 < length groups) AssertionError) (\<lambda>_.
     Inr (c\<lparr>attention_groups := sort_key (\<lambda>(s, _). \<not> is_full_attn s) groups,
            lcm_block_size := fold (\<lambda>(s, _). lcm (block_size_of s)) groups 1\<rparr>)))"

definition HybridKVCacheCoordinator_init :: "coordinator \<Rightarrow> coordinator result" where
  "HybridKVCacheCoordinator_init c =
     rbind (if coord_hash_block_size c = 0 \<and> group_specs c \<noteq> [] then Inl ZeroDivisionError else Inr ()) (\<lambda>_.
     rbind (ensure (list_all (\<lambda>s. block_size_of s mod coord_hash_block_size c = 0) (group_specs c)) AssertionError) (\<lambda>_.
     rbind (ensure (coord_dcp c = 1) AssertionError) (\<lambda>_.
     rbind (ensure (coord_pcp c = 1) AssertionError) (\<lambda>_.
     verify_and_split_kv_cache_groups c))))"

definition get_kv_cache_coordinator :: "kv_cache_config \<Rightarrow> bool \<Rightarrow> bool \<Rightarrow> bool \<Rightarrow> bool \<Rightarrow> nat \<Rightarrow> nat \<Rightarrow> nat \<Rightarrow> coordinator result" where
  "get_kv_cache_coordinator config use_eagle caching events int_hashes dcp pcp hash_size =
     (if \<not> caching
      then KVCacheCoordinator KVCacheCoordinatorNoPrefixCache config use_eagle False events int_hashes dcp pcp hash_size
      else if length (kv_cache_groups config) = 1
      then rbind (KVCacheCoordinator UnitaryKVCacheCoordinator config use_eagle caching events int_hashes dcp pcp hash_size)
             UnitaryKVCacheCoordinator_init
      else rbind (KVCacheCoordinator HybridKVCacheCoordinator config use_eagle caching events int_hashes dcp pcp hash_size)
             HybridKVCacheCoordinator_init)"

section \<open>Calling every manager\<close>

text \<open>\<^verbatim>\<open>for i, manager in enumerate(self.single_type_managers)\<close>; the state is the pool, or the request and the pool.\<close>

fun each_manager :: "(nat \<Rightarrow> manager \<Rightarrow> 's \<Rightarrow> ('a \<times> manager \<times> 's) result) \<Rightarrow> nat \<Rightarrow> manager list \<Rightarrow> 's
     \<Rightarrow> ('a list \<times> manager list \<times> 's) result" where
  "each_manager f i [] s = Inr ([], [], s)"
| "each_manager f i (m # ms) s =
     rbind (f i m s) (\<lambda>(a, m, s). rbind (each_manager f (Suc i) ms s) (\<lambda>(as, ms, s). Inr (a # as, m # ms, s)))"

definition with_managers :: "(nat \<Rightarrow> manager \<Rightarrow> block_pool \<Rightarrow> ('a \<times> manager \<times> block_pool) result) \<Rightarrow> coordinator
     \<Rightarrow> ('a list \<times> coordinator) result" where
  "with_managers f c =
     rbind (each_manager f 0 (single_type_managers c) (coord_pool c)) (\<lambda>(as, ms, p).
     Inr (as, c\<lparr>single_type_managers := ms, coord_pool := p\<rparr>))"

definition no_result :: "(manager \<times> block_pool) result \<Rightarrow> (unit \<times> manager \<times> block_pool) result" where
  "no_result r = rbind r (\<lambda>(m, p). Inr ((), m, p))"

definition need_of :: "string \<Rightarrow> int \<Rightarrow> block_ref list list \<Rightarrow> int \<Rightarrow> int \<Rightarrow> int \<Rightarrow> nat \<Rightarrow> manager \<Rightarrow> block_pool
     \<Rightarrow> (int \<times> manager \<times> block_pool) result" where
  "need_of rid n_tokens new_computed_blocks num_encoder_tokens total_computed_tokens num_tokens_main_model i m p =
     rbind (if is_cross m then get_num_blocks_to_allocate rid num_encoder_tokens [] 0 num_encoder_tokens m p
            else rbind (py_index new_computed_blocks (int i)) (\<lambda>hit.
              get_num_blocks_to_allocate rid n_tokens hit total_computed_tokens num_tokens_main_model m p)) (\<lambda>(n, m). Inr (n, m, p))"

definition coord_get_num_blocks_to_allocate :: "string \<Rightarrow> int \<Rightarrow> block_ref list list \<Rightarrow> int \<Rightarrow> int \<Rightarrow> int \<Rightarrow> coordinator
     \<Rightarrow> (int \<times> coordinator) result" where
  "coord_get_num_blocks_to_allocate rid n_tokens new_computed_blocks num_encoder_tokens total_computed_tokens num_tokens_main_model c =
     rbind (with_managers (need_of rid n_tokens new_computed_blocks num_encoder_tokens total_computed_tokens num_tokens_main_model) c)
       (\<lambda>(ns, c). Inr (sum_list ns, c))"

definition coord_allocate_new_computed_blocks :: "string \<Rightarrow> block_ref list list \<Rightarrow> int \<Rightarrow> int \<Rightarrow> coordinator \<Rightarrow> coordinator result" where
  "coord_allocate_new_computed_blocks rid new_computed_blocks num_local num_external c =
     rbind (with_managers (\<lambda>i m p. rbind (py_index new_computed_blocks (int i)) (\<lambda>hit.
              no_result (allocate_new_computed_blocks rid hit num_local num_external m p))) c) (\<lambda>(_, c). Inr c)"

definition coord_allocate_new_blocks :: "string \<Rightarrow> int \<Rightarrow> int \<Rightarrow> int \<Rightarrow> coordinator \<Rightarrow> (block_ref list list \<times> coordinator) result" where
  "coord_allocate_new_blocks rid n_tokens num_tokens_main_model num_encoder_tokens c =
     with_managers (\<lambda>_ m p. allocate_new_blocks rid (if is_cross m then num_encoder_tokens else n_tokens) num_tokens_main_model m p) c"

definition coord_cache_blocks :: "hash_env \<Rightarrow> request \<Rightarrow> int \<Rightarrow> coordinator \<Rightarrow> (request \<times> coordinator) result" where
  "coord_cache_blocks env r computed_tokens c =
     rbind (each_manager (\<lambda>_ m (r, p). rbind (cache_blocks env r computed_tokens m p) (\<lambda>(r, m, p). Inr ((), m, (r, p))))
              0 (single_type_managers c) (r, coord_pool c)) (\<lambda>(_, ms, (r, p)).
     Inr (r, c\<lparr>single_type_managers := ms, coord_pool := p\<rparr>))"

definition coord_free :: "string \<Rightarrow> coordinator \<Rightarrow> coordinator result" where
  "coord_free rid c = rbind (with_managers (\<lambda>_ m p. no_result (free_req rid m p)) c) (\<lambda>(_, c). Inr c)"

definition coord_get_num_common_prefix_blocks :: "string \<Rightarrow> coordinator \<Rightarrow> (nat list \<times> coordinator) result" where
  "coord_get_num_common_prefix_blocks rid c =
     (case coord_class c of
        KVCacheCoordinatorNoPrefixCache \<Rightarrow> Inr (replicate (length (single_type_managers c)) 0, c)
      | _ \<Rightarrow> with_managers (\<lambda>_ m p. let (n, m) = get_num_common_prefix_blocks rid m p in Inr (n, m, p)) c)"

definition coord_remove_skipped_blocks :: "string \<Rightarrow> int \<Rightarrow> coordinator \<Rightarrow> coordinator result" where
  "coord_remove_skipped_blocks rid total_computed_tokens c =
     rbind (with_managers (\<lambda>_ m p. no_result (remove_skipped_blocks rid total_computed_tokens m p)) c) (\<lambda>(_, c). Inr c)"

definition coord_get_blocks :: "string \<Rightarrow> coordinator \<Rightarrow> block_ref list list" where
  "coord_get_blocks rid c = map (\<lambda>m. blocks_of_req m rid) (single_type_managers c)"

definition coord_new_step_starts :: "coordinator \<Rightarrow> coordinator" where
  "coord_new_step_starts c = c\<lparr>single_type_managers := map new_step_starts (single_type_managers c)\<rparr>"

section \<open>Longest hit over several groups\<close>

text \<open>The lists found so far, one per cache group; \<open>None\<close> before the first lookup of the group.\<close>

type_synonym group_hits = "block_ref list option list"

definition hit_step :: "(attention_group \<Rightarrow> nat \<Rightarrow> block_ref list list result) \<Rightarrow> attention_group \<Rightarrow> nat \<times> group_hits \<Rightarrow> (nat \<times> group_hits) result" where
  "hit_step lookup g s =
     (case (g, s) of ((spec, group_ids, _), (curr_hit_len, hit_blocks_by_group)) \<Rightarrow>
        rbind (py_index group_ids 0) (\<lambda>g0.
        rbind (py_index hit_blocks_by_group g0) (\<lambda>cached_blocks.
        if is_full_attn spec \<and> cached_blocks \<noteq> None
        then rbind (py_div (int curr_hit_len) (int (block_size_of spec))) (\<lambda>num_blocks.
               Inr (nat num_blocks * block_size_of spec, hit_blocks_by_group))
        else
          rbind (lookup g curr_hit_len) (\<lambda>hit_blocks.
          rbind (py_index hit_blocks 0) (\<lambda>first.
          Inr (length first * block_size_of spec,
               fold (\<lambda>(gid, blocks) hits. hits[nat gid := Some blocks]) (zip group_ids hit_blocks) hit_blocks_by_group))))))"

definition hit_pass :: "(attention_group \<Rightarrow> nat \<Rightarrow> block_ref list list result) \<Rightarrow> attention_group list \<Rightarrow> nat \<times> group_hits \<Rightarrow> (nat \<times> group_hits) result" where
  "hit_pass lookup groups s = rfold (hit_step lookup) groups s"

function hit_loop :: "(attention_group \<Rightarrow> nat \<Rightarrow> block_ref list list result) \<Rightarrow> attention_group list \<Rightarrow> bool \<Rightarrow> nat \<Rightarrow> group_hits
     \<Rightarrow> (nat \<times> group_hits) result" where
  "hit_loop lookup groups is_simple_hybrid hit_len hits =
     rbind (hit_pass lookup groups (hit_len, hits)) (\<lambda>(curr_hit_len, hits).
       if hit_len \<le> curr_hit_len then Inr (hit_len, hits)
       else if is_simple_hybrid then Inr (curr_hit_len, hits)
       else hit_loop lookup groups is_simple_hybrid curr_hit_len hits)"
  by pat_completeness auto

termination
  by (relation "measure (\<lambda>(_, _, _, hit_len, _). hit_len)") auto

declare hit_loop.simps [simp del]

definition hit_truncate :: "attention_group \<Rightarrow> nat \<Rightarrow> group_hits \<Rightarrow> group_hits" where
  "hit_truncate g hit_len hits =
     (case g of (spec, group_ids, _) \<Rightarrow>
        if is_full_attn spec
        then fold (\<lambda>gid hits. hits[nat gid := map_option (take (hit_len div block_size_of spec)) (hits ! nat gid)]) group_ids hits
        else hits)"

definition hit_search :: "(attention_group \<Rightarrow> nat \<Rightarrow> block_ref list list result) \<Rightarrow> attention_group list \<Rightarrow> nat \<Rightarrow> nat
     \<Rightarrow> (block_ref list list \<times> nat) result" where
  "hit_search lookup groups num_groups max_cache_hit_length =
     rbind (py_index groups 0) (\<lambda>first.
     let is_simple_hybrid = (length groups = 2 \<and> is_full_attn (fst first))
     in rbind (hit_loop lookup groups is_simple_hybrid max_cache_hit_length (replicate num_groups None)) (\<lambda>(hit_len, hits).
        Inr (map (\<lambda>o'. case o' of None \<Rightarrow> [] | Some b \<Rightarrow> b) (hit_truncate first hit_len hits), hit_len)))"

definition group_hashes :: "nat \<Rightarrow> bytes list \<Rightarrow> layer_spec \<Rightarrow> block_hash_view result" where
  "group_hashes hash_size hs spec =
     (if block_size_of spec = hash_size then Inr (Hash_list hs)
      else rbind (BlockHashListWithBlockSize hs hash_size (block_size_of spec)) (\<lambda>l. Inr (Hash_view l)))"

definition group_lookup :: "coordinator \<Rightarrow> bytes list \<Rightarrow> attention_group \<Rightarrow> nat \<Rightarrow> block_ref list list result" where
  "group_lookup c hs g max_length =
     (case g of (spec, group_ids, manager_cls) \<Rightarrow>
        rbind (group_hashes (coord_hash_block_size c) hs spec) (\<lambda>view.
        Cache_Hit.find_longest_cache_hit manager_cls (coord_pool c) spec view max_length group_ids (coord_use_eagle c) (lcm_block_size c) 1 1))"

definition coord_find_longest_cache_hit :: "bytes list \<Rightarrow> nat \<Rightarrow> coordinator \<Rightarrow> (block_ref list list \<times> nat) result" where
  "coord_find_longest_cache_hit hs max_cache_hit_length c =
     (case coord_class c of
        KVCacheCoordinatorNoPrefixCache \<Rightarrow> Inr (replicate (length (single_type_managers c)) [], 0)
      | UnitaryKVCacheCoordinator \<Rightarrow>
          (case group_specs c of
             [] \<Rightarrow> Inl IndexError
           | spec # _ \<Rightarrow>
               (case spec_manager_map spec of
                  None \<Rightarrow> Inl KeyError
                | Some cls \<Rightarrow>
                    rbind (Cache_Hit.find_longest_cache_hit cls (coord_pool c) spec (Hash_list hs) max_cache_hit_length [0]
                             (coord_use_eagle c) (coord_block_size c) (coord_dcp c) (coord_pcp c)) (\<lambda>hit_blocks.
                    rbind (py_index hit_blocks 0) (\<lambda>first. Inr (hit_blocks, length first * coord_block_size c)))))
      | HybridKVCacheCoordinator \<Rightarrow>
          hit_search (group_lookup c hs) (attention_groups c) (length (group_specs c)) max_cache_hit_length)"

section \<open>Accounts over all managers\<close>

definition total_occ :: "manager list \<Rightarrow> block_ref \<Rightarrow> int" where
  "total_occ ms b = (\<Sum>m\<leftarrow>ms. int (occ m b))"

definition ledger :: "block_pool \<Rightarrow> block_ref list \<Rightarrow> manager list \<Rightarrow> bool" where
  "ledger p xs ms \<longleftrightarrow> pool_inv p xs \<and> (\<forall>m \<in> set ms. mgr_ok p m) \<and> (\<forall>b \<in> usable p. total_occ ms b \<le> ref_cnt (heap p b))"

definition ledger_tracks :: "block_pool \<Rightarrow> manager list \<Rightarrow> block_pool \<Rightarrow> manager list \<Rightarrow> bool" where
  "ledger_tracks p ms p' ms' \<longleftrightarrow> usable p' = usable p \<and> (\<forall>m \<in> set ms'. mgr_ok p' m) \<and> list_all2 same_config ms ms'
     \<and> (\<forall>b \<in> usable p. ref_cnt (heap p' b) - total_occ ms' b = ref_cnt (heap p b) - total_occ ms b)"

lemma total_occ_simps [simp]: "total_occ [] b = 0" "total_occ (m # ms) b = int (occ m b) + total_occ ms b" "0 \<le> total_occ ms b"
  by (auto simp: total_occ_def intro!: sum_list_nonneg)

lemma ledger_books: "ledger p xs (m # ms) \<Longrightarrow> books p xs m"
proof -
  assume l: "ledger p xs (m # ms)"
  have "int (occ m b) \<le> ref_cnt (heap p b)" if "b \<in> usable p" for b
  proof -
    have "int (occ m b) + total_occ ms b \<le> ref_cnt (heap p b)" using l that by (simp add: ledger_def)
    then show ?thesis using total_occ_simps(3) [of ms b] by linarith
  qed
  then show ?thesis using l by (simp add: ledger_def books_def)
qed

lemma ledger_rest:
  assumes "ledger p xs (m # ms)" and "tracks p m p' m'" and "pool_inv p' xs'"
  shows "ledger p' xs' ms"
proof -
  have u: "usable p' = usable p" using assms(2) by (simp add: tracks_def)
  have "total_occ ms b \<le> ref_cnt (heap p' b)" if "b \<in> usable p" for b
    using assms(1,2) that by (fastforce simp: ledger_def tracks_def)
  then show ?thesis using assms(1,3) u mgr_ok_usable [OF u] by (simp add: ledger_def)
qed

lemma ledger_tracks_Cons:
  assumes "tracks p m p' m'" and "ledger_tracks p' ms p'' ms'"
  shows "ledger_tracks p (m # ms) p'' (m' # ms')"
proof -
  have u: "usable p' = usable p" "usable p'' = usable p'" using assms by (auto simp: tracks_def ledger_tracks_def)
  have "ref_cnt (heap p'' b) - total_occ (m' # ms') b = ref_cnt (heap p b) - total_occ (m # ms) b" if "b \<in> usable p" for b
    using assms that u by (fastforce simp: tracks_def ledger_tracks_def)
  then show ?thesis using assms u mgr_ok_usable [OF u(2)] by (auto simp: tracks_def ledger_tracks_def)
qed

lemma ledger_next:
  assumes "ledger p xs ms" and "ledger_tracks p ms p' ms'" and "pool_inv p' xs'"
  shows "ledger p' xs' ms'"
proof -
  have "total_occ ms' b \<le> ref_cnt (heap p' b)" if "b \<in> usable p" for b
    using assms(1,2) that by (fastforce simp: ledger_def ledger_tracks_def)
  then show ?thesis using assms by (simp add: ledger_def ledger_tracks_def)
qed

lemma ledger_tracks_refl: "(\<forall>m \<in> set ms. mgr_ok p m) \<Longrightarrow> ledger_tracks p ms p ms"
  by (simp add: ledger_tracks_def list_all2_refl)

lemma ledger_tracks_trans: "ledger_tracks p ms p' ms' \<Longrightarrow> ledger_tracks p' ms' p'' ms'' \<Longrightarrow> ledger_tracks p ms p'' ms''"
  by (auto simp: ledger_tracks_def intro: list_all2_trans [OF same_config_trans])

text \<open>
  What a coordinator relies on when it calls a method of every manager: the method keeps the
  pool consistent and changes the reference count of a block by exactly the entries it
  adds to or removes from the lists of its own manager.
\<close>

locale accounted =
  fixes step :: "nat \<Rightarrow> manager \<Rightarrow> 's \<Rightarrow> ('a \<times> manager \<times> 's) result"
    and pool_of :: "'s \<Rightarrow> block_pool"
    and pre :: "nat \<Rightarrow> block_pool \<Rightarrow> manager \<Rightarrow> bool"
  assumes keeps: "books (pool_of s) xs m \<Longrightarrow> pre i (pool_of s) m \<Longrightarrow> step i m s = Inr (a, m', s') \<Longrightarrow>
      \<exists>xs'. pool_inv (pool_of s') xs' \<and> tracks (pool_of s) m (pool_of s') m'"
    and pre_usable: "usable p' = usable p \<Longrightarrow> pre i p m \<Longrightarrow> pre i p' m"
begin

lemma each_keeps:
  assumes "ledger (pool_of s) xs ms" and "\<forall>j < length ms. pre (i + j) (pool_of s) (ms ! j)"
    and "each_manager step i ms s = Inr (as, ms', s')"
  shows "\<exists>xs'. pool_inv (pool_of s') xs' \<and> ledger_tracks (pool_of s) ms (pool_of s') ms'"
  using assms
proof (induction ms arbitrary: i s xs as ms')
  case Nil
  then show ?case by (auto simp: ledger_def ledger_tracks_def)
next
  case (Cons m ms)
  obtain a m1 s1 bs ms1 where step: "step i m s = Inr (a, m1, s1)" "each_manager step (Suc i) ms s1 = Inr (bs, ms1, s')" "ms' = m1 # ms1"
    using Cons.prems(3) by (auto simp: rbind_eq_Inr)
  have "pre i (pool_of s) m" using Cons.prems(2) by (auto dest: spec [of _ 0])
  then obtain xs1 where s1: "pool_inv (pool_of s1) xs1" "tracks (pool_of s) m (pool_of s1) m1"
    using keeps [OF ledger_books [OF Cons.prems(1)] _ step(1)] by blast
  have u: "usable (pool_of s1) = usable (pool_of s)" using s1(2) by (simp add: tracks_def)
  have "\<forall>j < length ms. pre (Suc i + j) (pool_of s1) (ms ! j)"
    using Cons.prems(2) pre_usable [OF u] by (auto dest: spec [of _ "Suc _"])
  then obtain xs2 where "pool_inv (pool_of s') xs2" "ledger_tracks (pool_of s1) ms (pool_of s') ms1"
    using Cons.IH [OF ledger_rest [OF Cons.prems(1) s1(2,1)] _ step(2)] by blast
  then show ?case using ledger_tracks_Cons [OF s1(2)] step(3) by blast
qed

lemma each_pointwise:
  assumes "ledger (pool_of s) xs ms" and "\<forall>j < length ms. pre (i + j) (pool_of s) (ms ! j)"
    and "each_manager step i ms s = Inr (as, ms', s')"
    and R: "\<And>s xs k m a m' s'. books (pool_of s) xs m \<Longrightarrow> step k m s = Inr (a, m', s') \<Longrightarrow> R m m'"
  shows "list_all2 R ms ms'"
  using assms(1-3)
proof (induction ms arbitrary: i s xs as ms')
  case (Cons m ms)
  obtain a m1 s1 bs ms1 where step: "step i m s = Inr (a, m1, s1)" "each_manager step (Suc i) ms s1 = Inr (bs, ms1, s')" "ms' = m1 # ms1"
    using Cons.prems(3) by (auto simp: rbind_eq_Inr)
  have b: "books (pool_of s) xs m" by (rule ledger_books [OF Cons.prems(1)])
  have "pre i (pool_of s) m" using Cons.prems(2) by (auto dest: spec [of _ 0])
  then obtain xs1 where s1: "pool_inv (pool_of s1) xs1" "tracks (pool_of s) m (pool_of s1) m1" using keeps [OF b _ step(1)] by blast
  have u: "usable (pool_of s1) = usable (pool_of s)" using s1(2) by (simp add: tracks_def)
  have "\<forall>j < length ms. pre (Suc i + j) (pool_of s1) (ms ! j)"
    using Cons.prems(2) pre_usable [OF u] by (auto dest: spec [of _ "Suc _"])
  then have "list_all2 R ms ms1" using Cons.IH [OF ledger_rest [OF Cons.prems(1) s1(2,1)] _ step(2)] by blast
  then show ?case using R [OF b step(1)] step(3) by simp
qed simp

end

text \<open>Methods that always return under these conditions.\<close>

locale accounted_total = accounted +
  assumes total: "books (pool_of s) xs m \<Longrightarrow> pre i (pool_of s) m \<Longrightarrow> \<exists>a m' s'. step i m s = Inr (a, m', s')"
begin

lemma each_total:
  assumes "ledger (pool_of s) xs ms" and "\<forall>j < length ms. pre (i + j) (pool_of s) (ms ! j)"
  shows "\<exists>as ms' s'. each_manager step i ms s = Inr (as, ms', s')"
  using assms
proof (induction ms arbitrary: i s xs)
  case (Cons m ms)
  have "pre i (pool_of s) m" using Cons.prems(2) by (auto dest: spec [of _ 0])
  then obtain a m1 s1 xs1 where s1: "step i m s = Inr (a, m1, s1)" "pool_inv (pool_of s1) xs1" "tracks (pool_of s) m (pool_of s1) m1"
    using total [OF ledger_books [OF Cons.prems(1)], of i] keeps [OF ledger_books [OF Cons.prems(1)]] by metis
  have u: "usable (pool_of s1) = usable (pool_of s)" using s1(3) by (simp add: tracks_def)
  have "\<forall>j < length ms. pre (Suc i + j) (pool_of s1) (ms ! j)"
    using Cons.prems(2) pre_usable [OF u] by (auto dest: spec [of _ "Suc _"])
  then obtain as ms' s' where "each_manager step (Suc i) ms s1 = Inr (as, ms', s')"
    using Cons.IH [OF ledger_rest [OF Cons.prems(1) s1(3,2)]] by blast
  then show ?case using s1(1) by auto
qed simp

end

interpretation free_all: accounted_total "\<lambda>_ m p. no_result (free_req rid m p)" "\<lambda>p. p" "\<lambda>_ _ _. True"
proof (unfold_locales, goal_cases)
  case (1 p xs m i a m' p')
  then show ?case using free_req_spec [of p xs m rid] by (auto simp: no_result_def books_def rbind_eq_Inr)
next
  case (3 p xs m i)
  then show ?case using free_req_spec [of p xs m rid] by (auto simp: no_result_def)
qed simp

interpretation skip_all: accounted_total "\<lambda>_ m p. no_result (remove_skipped_blocks rid t m p)" "\<lambda>p. p" "\<lambda>_ _ _. True"
proof (unfold_locales, goal_cases)
  case (1 p xs m i a m' p')
  then show ?case using remove_skipped_spec [of p xs m rid t] by (auto simp: no_result_def rbind_eq_Inr)
next
  case (3 p xs m i)
  then show ?case using remove_skipped_spec [of p xs m rid t] by (auto simp: no_result_def)
qed simp

definition hit_fits :: "string \<Rightarrow> block_ref list list \<Rightarrow> int \<Rightarrow> int \<Rightarrow> nat \<Rightarrow> block_pool \<Rightarrow> manager \<Rightarrow> bool" where
  "hit_fits rid hits num_local num_external i p m \<longleftrightarrow> 0 \<le> num_local + num_external
     \<and> (i < length hits \<longrightarrow> fits_computed p rid (hits ! i) num_local num_external m)"

lemma py_index_cases: "py_index xs (int i) = (if i < length xs then Inr (xs ! i) else Inl IndexError)"
  by (simp add: py_index_def)

interpretation prefix_all: accounted "\<lambda>i m p. rbind (py_index hits (int i)) (\<lambda>hit.
    no_result (allocate_new_computed_blocks rid hit num_local num_external m p))" "\<lambda>p. p" "hit_fits rid hits num_local num_external"
proof (unfold_locales, goal_cases)
  case (1 p xs m i a m' p')
  then show ?case using allocate_computed_keeps [of p xs m rid "hits ! i" num_local num_external m' p']
    by (auto simp: no_result_def rbind_eq_Inr py_index_cases hit_fits_def split: if_splits)
next
  case (2 p' p i m)
  then show ?case using held_ok_usable [of p' p] by (auto simp: hit_fits_def fits_computed_def)
qed

interpretation alloc_all: accounted "\<lambda>_ m p. allocate_new_blocks rid (if is_cross m then enc else n) main m p" "\<lambda>p. p" "\<lambda>_ _ _. 0 < main"
  using allocate_new_blocks_keeps by unfold_locales blast+

interpretation cache_all: accounted "\<lambda>_ m (r, p). rbind (cache_blocks env r t m p) (\<lambda>(r, m, p). Inr ((), m, (r, p)))" snd "\<lambda>_ _ _. True"
proof (unfold_locales, goal_cases)
  case (1 s xs m i a m' s')
  then show ?case using cache_blocks_keeps [of "snd s" xs m env "fst s" t]
    by (cases s) (auto simp: rbind_eq_Inr)
qed simp


section \<open>The search for a common prefix\<close>

definition group_ids :: "attention_group \<Rightarrow> int list" where
  "group_ids g = fst (snd g)"

definition group_wf :: "nat \<Rightarrow> nat \<Rightarrow> attention_group \<Rightarrow> bool" where
  "group_wf num al g \<longleftrightarrow> group_ids g \<noteq> [] \<and> distinct (group_ids g) \<and> (\<forall>i \<in> set (group_ids g). 0 \<le> i \<and> i < int num)
     \<and> 0 < block_size_of (fst g) \<and> block_size_of (fst g) dvd al"

definition groups_wf :: "nat \<Rightarrow> nat \<Rightarrow> attention_group list \<Rightarrow> bool" where
  "groups_wf num al groups \<longleftrightarrow> (\<forall>g \<in> set groups. group_wf num al g) \<and> distinct (concat (map group_ids groups))"

text \<open>The lists stored for the groups \<open>group_ids g\<close> are \<open>bl\<close>.\<close>

definition stored :: "attention_group \<Rightarrow> block_ref list list \<Rightarrow> group_hits \<Rightarrow> bool" where
  "stored g bl hits \<longleftrightarrow> length bl = length (group_ids g) \<and> (\<forall>j < length bl. hits ! nat (group_ids g ! j) = Some (bl ! j))"

lemma fold_store:
  assumes "distinct is" and "\<forall>i \<in> set is. 0 \<le> i \<and> i < int (length hits)" and "length bl = length is"
  defines "hits' \<equiv> fold (\<lambda>(gid, blocks) hits. hits[nat gid := Some blocks]) (zip is bl) hits"
  shows "length hits' = length hits \<and> (\<forall>j < length is. hits' ! nat (is ! j) = Some (bl ! j)) \<and> (\<forall>i. i \<notin> nat ` set is \<longrightarrow> hits' ! i = hits ! i)"
  using assms(1-3) unfolding hits'_def
proof (induction "is" arbitrary: hits bl)
  case (Cons i "is")
  obtain b bs where bl: "bl = b # bs" using Cons.prems(3) by (cases bl) auto
  let ?h = "hits[nat i := Some b]"
  let ?r = "fold (\<lambda>(gid, blocks) hits. hits[nat gid := Some blocks]) (zip is bs) ?h"
  have IH: "length ?r = length ?h" "\<And>j. j < length is \<Longrightarrow> ?r ! nat (is ! j) = Some (bs ! j)" "\<And>k. k \<notin> nat ` set is \<Longrightarrow> ?r ! k = ?h ! k"
    using Cons.IH [of ?h bs] Cons.prems bl by auto
  have "nat i \<notin> nat ` set is" using Cons.prems(1,2) by (auto simp: nat_eq_iff)
  then have "?r ! nat i = Some b" using IH(3) [of "nat i"] Cons.prems(2) by auto
  then have "?r ! nat ((i # is) ! j) = Some (bl ! j)" if "j < length (i # is)" for j using that IH(2) bl by (cases j) auto
  then show ?case using IH(1,3) bl by auto
qed simp

text \<open>
  What the search relies on: a lookup within a length returns one list per cache group of the
  attention type, all of the same number of blocks, covering an aligned prefix that is not longer.
\<close>

locale hit_lookups =
  fixes lookup :: "'c \<Rightarrow> attention_group \<Rightarrow> nat \<Rightarrow> block_ref list list result"
    and ok :: "'c \<Rightarrow> nat \<Rightarrow> attention_group \<Rightarrow> nat \<Rightarrow> bool"
  assumes found: "ok c al g len \<Longrightarrow> \<exists>bl n. lookup c g len = Inr bl \<and> length bl = length (group_ids g) \<and> (\<forall>b \<in> set bl. length b = n)
      \<and> n * block_size_of (fst g) \<le> len \<and> al dvd n * block_size_of (fst g)"
    and shorter: "ok c al g len \<Longrightarrow> len' \<le> len \<Longrightarrow> ok c al g len'"
begin

lemma step_lookup:
  assumes "group_wf num al g" and "ok c al g len" and "length hits = num"
    and "\<not> is_full_attn (fst g) \<or> hits ! nat (hd (group_ids g)) = None"
  shows "\<exists>bl n hits'. hit_step (lookup c) g (len, hits) = Inr (n * block_size_of (fst g), hits') \<and> lookup c g len = Inr bl
     \<and> (\<forall>b \<in> set bl. length b = n) \<and> n * block_size_of (fst g) \<le> len \<and> al dvd n * block_size_of (fst g)
     \<and> length hits' = num \<and> stored g bl hits' \<and> (\<forall>i. i \<notin> nat ` set (group_ids g) \<longrightarrow> hits' ! i = hits ! i)"
proof -
  obtain spec ids cls where g: "g = (spec, ids, cls)" by (cases g)
  have wf: "ids \<noteq> []" "distinct ids" "\<forall>i \<in> set ids. 0 \<le> i \<and> i < int (length hits)"
    using assms(1,3) by (auto simp: group_wf_def group_ids_def g)
  obtain bl n where f: "lookup c g len = Inr bl" "length bl = length ids" "\<forall>b \<in> set bl. length b = n" "n * block_size_of spec \<le> len" "al dvd n * block_size_of spec"
    using found [OF assms(2)] by (auto simp: g group_ids_def)
  define hits' where "hits' = fold (\<lambda>(gid, blocks) hits. hits[nat gid := Some blocks]) (zip ids bl) hits"
  have F: "length hits' = length hits" "\<And>j. j < length ids \<Longrightarrow> hits' ! nat (ids ! j) = Some (bl ! j)" "\<And>i. i \<notin> nat ` set ids \<Longrightarrow> hits' ! i = hits ! i"
    using fold_store [OF wf(2,3) f(2)] unfolding hits'_def by auto
  obtain i0 is' b0 bl' where c: "ids = i0 # is'" "bl = b0 # bl'" using wf(1) f(2) by (cases ids; cases bl) auto
  have i0: "0 \<le> i0" "nat i0 < length hits" using wf(3) c by auto
  have "hit_step (lookup c) g (len, hits) = Inr (n * block_size_of spec, hits')"
    using assms(4) f(1,3) c i0 by (auto simp: hit_step_def g group_ids_def py_index_def hits'_def)
  then show ?thesis using f F assms(3) by (auto simp: g group_ids_def stored_def)
qed

text \<open>A list found for \<open>g\<close> by a lookup within \<open>hi\<close>, covering at least \<open>lo\<close> tokens.\<close>

definition got :: "'c \<Rightarrow> attention_group \<Rightarrow> nat \<Rightarrow> nat \<Rightarrow> group_hits \<Rightarrow> bool" where
  "got c g lo hi hits \<longleftrightarrow> (\<exists>len bl n. lookup c g len = Inr bl \<and> stored g bl hits \<and> (\<forall>b \<in> set bl. length b = n)
     \<and> lo \<le> n * block_size_of (fst g) \<and> n * block_size_of (fst g) \<le> len \<and> len \<le> hi)"

lemma got_frame:
  assumes "got c g lo hi hits" and "\<forall>i \<in> set (group_ids g). hits' ! nat i = hits ! nat i" and "lo' \<le> lo" and "hi \<le> hi'"
  shows "got c g lo' hi' hits'"
proof -
  obtain len bl n where b: "lookup c g len = Inr bl" "stored g bl hits" "\<forall>b \<in> set bl. length b = n"
     "lo \<le> n * block_size_of (fst g)" "n * block_size_of (fst g) \<le> len" "len \<le> hi" using assms(1) by (auto simp: got_def)
  have "stored g bl hits'" using b(2) assms(2) by (auto simp: stored_def)
  then show ?thesis unfolding got_def using b assms(3,4) by (intro exI [of _ len] exI [of _ bl] exI [of _ n]) auto
qed

lemma rest_pass:
  assumes "groups_wf num al groups" and "\<forall>g \<in> set groups. ok c al g len \<and> \<not> is_full_attn (fst g)" and "length hits = num"
  shows "\<exists>len' hits'. hit_pass (lookup c) groups (len, hits) = Inr (len', hits') \<and> len' \<le> len \<and> (al dvd len \<longrightarrow> al dvd len')
     \<and> length hits' = num \<and> (\<forall>g \<in> set groups. got c g len' len hits') \<and> (groups \<noteq> [] \<longrightarrow> al dvd len')
     \<and> (\<forall>i. i \<notin> nat ` set (concat (map group_ids groups)) \<longrightarrow> hits' ! i = hits ! i)"
  using assms
proof (induction groups arbitrary: len hits)
  case Nil
  then show ?case by (simp add: hit_pass_def)
next
  case (Cons g groups)
  have wf: "group_wf num al g" "groups_wf num al groups" and disj: "set (group_ids g) \<inter> set (concat (map group_ids groups)) = {}"
    and g: "ok c al g len" "\<not> is_full_attn (fst g)" using Cons.prems by (auto simp: groups_wf_def)
  obtain bl n hits1 where s: "hit_step (lookup c) g (len, hits) = Inr (n * block_size_of (fst g), hits1)" "lookup c g len = Inr bl"
      "\<forall>b \<in> set bl. length b = n" "n * block_size_of (fst g) \<le> len" "al dvd n * block_size_of (fst g)" "length hits1 = num"
      "stored g bl hits1" "\<forall>i. i \<notin> nat ` set (group_ids g) \<longrightarrow> hits1 ! i = hits ! i"
    using step_lookup [OF wf(1) g(1) Cons.prems(3)] g(2) by blast
  let ?n = "n * block_size_of (fst g)"
  have "\<forall>h \<in> set groups. ok c al h ?n \<and> \<not> is_full_attn (fst h)" using Cons.prems(2) shorter [OF _ s(4)] by auto
  then obtain len' hits' where r: "hit_pass (lookup c) groups (?n, hits1) = Inr (len', hits')" "len' \<le> ?n" "al dvd ?n \<longrightarrow> al dvd len'"
     "length hits' = num" "\<forall>g \<in> set groups. got c g len' ?n hits'"
     "\<forall>i. i \<notin> nat ` set (concat (map group_ids groups)) \<longrightarrow> hits' ! i = hits1 ! i"
    using Cons.IH [OF wf(2) _ s(6)] by blast
  have nn: "0 \<le> i" if "i \<in> set (group_ids h)" "h \<in> set (g # groups)" for i h
    using that Cons.prems(1) by (auto simp: groups_wf_def group_wf_def)
  have "nat i \<notin> nat ` set (concat (map group_ids groups))" if i: "i \<in> set (group_ids g)" for i
  proof
    assume "nat i \<in> nat ` set (concat (map group_ids groups))"
    then obtain k h where "nat i = nat k" "k \<in> set (group_ids h)" "h \<in> set groups" by auto
    then have "i = k" using nn [of k h] nn [OF i] by (simp add: eq_nat_nat_iff)
    then show False using disj i \<open>k \<in> set (group_ids h)\<close> \<open>h \<in> set groups\<close> by auto
  qed
  then have "\<forall>i \<in> set (group_ids g). hits' ! nat i = hits1 ! nat i" using r(6) by blast
  moreover have "got c g ?n len hits1" unfolding got_def using s by blast
  ultimately have "got c g len' len hits'" using got_frame r(2) by blast
  moreover have "\<forall>h \<in> set groups. got c h len' len hits'" using r(5) got_frame s(4) by blast
  moreover have "hit_pass (lookup c) (g # groups) (len, hits) = Inr (len', hits')" using s(1) r(1) by (simp add: hit_pass_def)
  moreover have "\<forall>i. i \<notin> nat ` set (concat (map group_ids (g # groups))) \<longrightarrow> hits' ! i = hits ! i" using s(8) r(6) by (simp add: image_Un)
  ultimately show ?case using r(2-4) s(4,5) by auto
qed

end


context hit_lookups
begin

text \<open>What is known of the first group while the loop runs: full attention is looked up once.\<close>

definition full_ok :: "'c \<Rightarrow> attention_group \<Rightarrow> nat \<Rightarrow> nat \<Rightarrow> group_hits \<Rightarrow> bool" where
  "full_ok c g max_len len hits \<longleftrightarrow> (\<exists>bl n. lookup c g max_len = Inr bl \<and> stored g bl hits \<and> (\<forall>b \<in> set bl. length b = n)
     \<and> len \<le> n * block_size_of (fst g) \<and> n * block_size_of (fst g) \<le> max_len)"

definition first_ok :: "'c \<Rightarrow> attention_group \<Rightarrow> nat \<Rightarrow> nat \<Rightarrow> nat \<Rightarrow> group_hits \<Rightarrow> bool" where
  "first_ok c g max_len len hi hits \<longleftrightarrow> (if is_full_attn (fst g) then full_ok c g max_len len hits else got c g len hi hits)"

lemma first_frame:
  assumes "first_ok c g max_len len hi hits" and "\<forall>i \<in> set (group_ids g). hits' ! nat i = hits ! nat i" and "len' \<le> len" and "hi \<le> hi'"
  shows "first_ok c g max_len len' hi' hits'"
proof (cases "is_full_attn (fst g)")
  case True
  then obtain bl n where b: "lookup c g max_len = Inr bl" "stored g bl hits" "\<forall>b \<in> set bl. length b = n"
     "len \<le> n * block_size_of (fst g)" "n * block_size_of (fst g) \<le> max_len" using assms(1) by (auto simp: first_ok_def full_ok_def)
  have "stored g bl hits'" using b(2) assms(2) by (auto simp: stored_def)
  then show ?thesis using True b assms(3) by (auto simp: first_ok_def full_ok_def intro!: exI [of _ bl] exI [of _ n])
qed (use assms got_frame in \<open>auto simp: first_ok_def\<close>)

lemma first_step:
  assumes wf: "group_wf num al g" and ok: "ok c al g max_len" and len: "len \<le> max_len" "length hits = num"
    and start: "is_full_attn (fst g) \<longrightarrow> (hits ! nat (hd (group_ids g)) = None \<and> len = max_len) \<or> (al dvd len \<and> full_ok c g max_len len hits)"
  shows "\<exists>len' hits'. hit_step (lookup c) g (len, hits) = Inr (len', hits') \<and> len' \<le> len \<and> al dvd len' \<and> length hits' = num
     \<and> first_ok c g max_len len' len hits'"
proof (cases "is_full_attn (fst g) \<and> hits ! nat (hd (group_ids g)) \<noteq> None")
  case True
  then have f: "al dvd len" "full_ok c g max_len len hits" using start by auto
  obtain i0 is' where ids: "group_ids g = i0 # is'" using wf by (cases "group_ids g") (auto simp: group_wf_def)
  have i0: "0 \<le> i0" "i0 < int (length hits)" using wf ids len(2) by (auto simp: group_wf_def)
  have "block_size_of (fst g) dvd len" using wf f(1) by (auto simp: group_wf_def intro: dvd_trans)
  then have "nat (int len div int (block_size_of (fst g))) * block_size_of (fst g) = len" by (simp flip: zdiv_int)
  then have "hit_step (lookup c) g (len, hits) = Inr (len, hits)"
    using True ids i0 wf by (cases g) (auto simp: hit_step_def group_ids_def py_index_def group_wf_def)
  then show ?thesis using f True len by (auto simp: first_ok_def)
next
  case False
  have "ok c al g len" by (rule shorter [OF ok len(1)])
  then obtain bl n hits' where s: "hit_step (lookup c) g (len, hits) = Inr (n * block_size_of (fst g), hits')" "lookup c g len = Inr bl"
     "\<forall>b \<in> set bl. length b = n" "n * block_size_of (fst g) \<le> len" "al dvd n * block_size_of (fst g)" "length hits' = num" "stored g bl hits'"
    using step_lookup [OF wf _ len(2)] False by blast
  have "first_ok c g max_len (n * block_size_of (fst g)) len hits'"
  proof (cases "is_full_attn (fst g)")
    case True
    have "len = max_len"
    proof (rule ccontr)
      assume "len \<noteq> max_len"
      then obtain bl where "stored g bl hits" using start True by (auto simp: full_ok_def)
      moreover obtain i0 is' where "group_ids g = i0 # is'" using wf by (cases "group_ids g") (auto simp: group_wf_def)
      ultimately have "hits ! nat (hd (group_ids g)) \<noteq> None" by (auto simp: stored_def dest: spec [of _ 0])
      then show False using False True by simp
    qed
    then show ?thesis unfolding first_ok_def full_ok_def using s True by auto
  next
    case False
    then show ?thesis unfolding first_ok_def got_def using s by auto
  qed
  then show ?thesis using s by blast
qed

lemma own_ids:
  assumes "groups_wf num al (g # rest)" and "i \<in> set (group_ids g)"
  shows "nat i \<notin> nat ` set (concat (map group_ids rest))"
proof
  assume "nat i \<in> nat ` set (concat (map group_ids rest))"
  then obtain k h where k: "nat i = nat k" "k \<in> set (group_ids h)" "h \<in> set rest" by auto
  then have "0 \<le> k" "0 \<le> i" using assms by (auto simp: groups_wf_def group_wf_def)
  then have "i = k" using k(1) by (simp add: eq_nat_nat_iff)
  then show False using assms k by (auto simp: groups_wf_def)
qed

lemma whole_pass:
  assumes wf: "groups_wf num al (g # rest)" and ok: "\<forall>h \<in> set (g # rest). ok c al h max_len" and nf: "\<forall>h \<in> set rest. \<not> is_full_attn (fst h)"
    and len: "len \<le> max_len" "length hits = num"
    and start: "is_full_attn (fst g) \<longrightarrow> (hits ! nat (hd (group_ids g)) = None \<and> len = max_len) \<or> (al dvd len \<and> full_ok c g max_len len hits)"
  shows "\<exists>len' hits'. hit_pass (lookup c) (g # rest) (len, hits) = Inr (len', hits') \<and> len' \<le> len \<and> al dvd len' \<and> length hits' = num
     \<and> first_ok c g max_len len' len hits' \<and> (\<forall>h \<in> set rest. got c h len' len hits')"
proof -
  have g: "group_wf num al g" "ok c al g max_len" and r: "groups_wf num al rest" using wf ok by (auto simp: groups_wf_def)
  obtain len1 hits1 where s1: "hit_step (lookup c) g (len, hits) = Inr (len1, hits1)" "len1 \<le> len" "al dvd len1" "length hits1 = num"
     "first_ok c g max_len len1 len hits1" using first_step [OF g len start] by blast
  have "\<forall>h \<in> set rest. ok c al h len1 \<and> \<not> is_full_attn (fst h)" using ok nf s1(2) len(1) shorter [of c al _ max_len len1] by simp
  then obtain len' hits' where s2: "hit_pass (lookup c) rest (len1, hits1) = Inr (len', hits')" "len' \<le> len1" "al dvd len1 \<longrightarrow> al dvd len'"
     "length hits' = num" "\<forall>g \<in> set rest. got c g len' len1 hits'" "\<forall>i. i \<notin> nat ` set (concat (map group_ids rest)) \<longrightarrow> hits' ! i = hits1 ! i"
    using rest_pass [OF r _ s1(4)] by blast
  have "first_ok c g max_len len' len hits'" using first_frame [OF s1(5) _ s2(2)] s2(6) own_ids [OF wf] by blast
  moreover have "\<forall>h \<in> set rest. got c h len' len hits'" using s2(5) got_frame s1(2) by blast
  ultimately show ?thesis using s1 s2 by (auto simp: hit_pass_def)
qed

lemma loop_fixpoint:
  assumes wf: "groups_wf num al (g # rest)" and ok: "\<forall>h \<in> set (g # rest). ok c al h max_len" and nf: "\<forall>h \<in> set rest. \<not> is_full_attn (fst h)"
    and len: "len \<le> max_len" "length hits = num"
    and start: "is_full_attn (fst g) \<longrightarrow> (hits ! nat (hd (group_ids g)) = None \<and> len = max_len) \<or> (al dvd len \<and> full_ok c g max_len len hits)"
  shows "\<exists>len' hits'. hit_loop (lookup c) (g # rest) False len hits = Inr (len', hits') \<and> len' \<le> len \<and> al dvd len' \<and> length hits' = num
     \<and> first_ok c g max_len len' len' hits' \<and> (\<forall>h \<in> set rest. got c h len' len' hits')"
  using len start
proof (induction len arbitrary: hits rule: less_induct)
  case (less len)
  obtain len1 hits1 where s: "hit_pass (lookup c) (g # rest) (len, hits) = Inr (len1, hits1)" "len1 \<le> len" "al dvd len1" "length hits1 = num"
     "first_ok c g max_len len1 len hits1" "\<forall>h \<in> set rest. got c h len1 len hits1"
    using whole_pass [OF wf ok nf less.prems] by blast
  show ?case
  proof (cases "len \<le> len1")
    case True
    then have "len1 = len" using s(2) by simp
    then show ?thesis using s by (auto simp: hit_loop.simps [of "lookup c"])
  next
    case False
    have "is_full_attn (fst g) \<longrightarrow> al dvd len1 \<and> full_ok c g max_len len1 hits1" using s(3,5) by (auto simp: first_ok_def)
    then obtain len2 hits2 where r: "hit_loop (lookup c) (g # rest) False len1 hits1 = Inr (len2, hits2)" "len2 \<le> len1" "al dvd len2"
      "length hits2 = num" "first_ok c g max_len len2 len2 hits2" "\<forall>h \<in> set rest. got c h len2 len2 hits2"
      using less.IH [of len1 hits1] False s(2,4) less.prems(1) by auto
    have "hit_loop (lookup c) (g # rest) False len hits = hit_loop (lookup c) (g # rest) False len1 hits1"
      using False s(1) by (simp add: hit_loop.simps [of "lookup c" _ _ len])
    then show ?thesis using r s(2) by auto
  qed
qed

end


lemma fold_truncate:
  fixes k :: nat
  assumes "distinct is" and "\<forall>i \<in> set is. 0 \<le> i \<and> i < int (length hits)"
  defines "hits' \<equiv> fold (\<lambda>gid hits. hits[nat gid := map_option (take k) (hits ! nat gid)]) is hits"
  shows "length hits' = length hits \<and> (\<forall>i \<in> set is. hits' ! nat i = map_option (take k) (hits ! nat i)) \<and> (\<forall>i. i \<notin> nat ` set is \<longrightarrow> hits' ! i = hits ! i)"
  using assms(1,2) unfolding hits'_def
proof (induction "is" arbitrary: hits)
  case (Cons i "is")
  let ?h = "hits[nat i := map_option (take k) (hits ! nat i)]"
  let ?r = "fold (\<lambda>gid hits. hits[nat gid := map_option (take k) (hits ! nat gid)]) is ?h"
  have IH: "length ?r = length ?h" "\<And>j. j \<in> set is \<Longrightarrow> ?r ! nat j = map_option (take k) (?h ! nat j)" "\<And>j. j \<notin> nat ` set is \<Longrightarrow> ?r ! j = ?h ! j"
    using Cons.IH [of ?h] Cons.prems by auto
  have ni: "nat i \<notin> nat ` set is" using Cons.prems by (auto simp: nat_eq_iff)
  then have "?r ! nat i = map_option (take k) (hits ! nat i)" using IH(3) [of "nat i"] Cons.prems(2) by auto
  moreover have "?h ! nat j = hits ! nat j" if "j \<in> set is" for j using ni that by (intro nth_list_update_neq) auto
  ultimately show ?case using IH by (auto simp: nth_list_update_neq)
qed simp

context hit_lookups
begin

text \<open>The list of every group comes from a lookup and covers the common length.\<close>

definition held_for :: "'c \<Rightarrow> attention_group \<Rightarrow> nat \<Rightarrow> nat \<Rightarrow> group_hits \<Rightarrow> bool" where
  "held_for c g len max_len hits \<longleftrightarrow> (\<exists>l bl n. lookup c g l = Inr bl \<and> stored g bl hits \<and> (\<forall>b \<in> set bl. length b = n)
     \<and> len \<le> n * block_size_of (fst g) \<and> len \<le> l \<and> l \<le> max_len \<and> (is_full_attn (fst g) \<or> n * block_size_of (fst g) = len))"

definition covered :: "'c \<Rightarrow> attention_group \<Rightarrow> nat \<Rightarrow> nat \<Rightarrow> block_ref list list \<Rightarrow> bool" where
  "covered c g len max_len blocks \<longleftrightarrow> (\<exists>l bl. lookup c g l = Inr bl \<and> len \<le> l \<and> l \<le> max_len \<and> length bl = length (group_ids g)
     \<and> (\<forall>j < length (group_ids g). blocks ! nat (group_ids g ! j) = take (len div block_size_of (fst g)) (bl ! j)
          \<and> length (blocks ! nat (group_ids g ! j)) * block_size_of (fst g) = len
          \<and> (is_full_attn (fst g) \<or> length (bl ! j) * block_size_of (fst g) = len)))"

lemma got_held: "got c g len len hits \<Longrightarrow> len \<le> max_len \<Longrightarrow> held_for c g len max_len hits"
  unfolding got_def held_for_def by (metis le_antisym le_trans)

lemma first_held: "first_ok c g max_len len len hits \<Longrightarrow> len \<le> max_len \<Longrightarrow> held_for c g len max_len hits"
proof (cases "is_full_attn (fst g)")
  case True
  moreover assume "first_ok c g max_len len len hits" "len \<le> max_len"
  ultimately have "full_ok c g max_len len hits" "len \<le> max_len" by (simp_all add: first_ok_def)
  then show ?thesis using True unfolding held_for_def full_ok_def by blast
qed (simp add: first_ok_def got_held)

lemma truncate_covered:
  assumes wf: "groups_wf num al (g # rest)" and nf: "\<forall>h \<in> set rest. \<not> is_full_attn (fst h)" and num: "length hits = num"
    and held: "\<forall>h \<in> set (g # rest). held_for c h len max_len hits" and al: "al dvd len"
  defines "blocks \<equiv> map (\<lambda>o'. case o' of None \<Rightarrow> [] | Some b \<Rightarrow> b) (hit_truncate g len hits)"
  shows "length blocks = num \<and> (\<forall>h \<in> set (g # rest). covered c h len max_len blocks)"
proof -
  have wfh: "group_wf num al h" if "h \<in> set (g # rest)" for h using wf that by (auto simp: groups_wf_def)
  let ?k = "len div block_size_of (fst g)" and ?hits = "hit_truncate g len hits"
  have F: "length ?hits = num \<and> (\<forall>i \<in> set (group_ids g). ?hits ! nat i = (if is_full_attn (fst g) then map_option (take ?k) (hits ! nat i) else hits ! nat i))
      \<and> (\<forall>i. i \<notin> nat ` set (group_ids g) \<longrightarrow> ?hits ! i = hits ! i)"
  proof (cases "is_full_attn (fst g)")
    case True
    have d: "distinct (group_ids g)" "\<forall>i \<in> set (group_ids g). 0 \<le> i \<and> i < int (length hits)" using wfh [of g] num by (auto simp: group_wf_def)
    from fold_truncate [OF d, of ?k] show ?thesis using True num by (cases g) (auto simp: hit_truncate_def group_ids_def)
  next
    case False
    then show ?thesis using num by (cases g) (auto simp: hit_truncate_def)
  qed
  have "covered c h len max_len blocks" if h: "h \<in> set (g # rest)" for h
  proof -
    obtain l bl n where b: "lookup c h l = Inr bl" "stored h bl hits" "\<forall>b \<in> set bl. length b = n" "len \<le> n * block_size_of (fst h)"
        "len \<le> l" "l \<le> max_len" "is_full_attn (fst h) \<or> n * block_size_of (fst h) = len"
      using bspec [OF held h] unfolding held_for_def by blast
    let ?q = "len div block_size_of (fst h)"
    have bs: "0 < block_size_of (fst h)" "block_size_of (fst h) dvd len" using wfh [OF h] al by (auto simp: group_wf_def intro: dvd_trans)
    have q: "?q \<le> n" using b(4) bs by (metis div_le_mono div_mult_self_is_m)
    have "blocks ! nat (group_ids h ! j) = take ?q (bl ! j)" if j: "j < length (group_ids h)" for j
    proof -
      let ?i = "group_ids h ! j"
      have i: "?i \<in> set (group_ids h)" using j by simp
      have st: "hits ! nat ?i = Some (bl ! j)" "length (bl ! j) = n" using b(2,3) j by (auto simp: stored_def)
      have lt: "nat ?i < length ?hits" using wfh [OF h] i F by (auto simp: group_wf_def)
      have whole: "take ?q (bl ! j) = bl ! j" if "\<not> is_full_attn (fst h)" using b(7) that st(2) bs(1) by auto
      have "?hits ! nat ?i = Some (take ?q (bl ! j))"
      proof (cases "h = g")
        case True
        then have "?hits ! nat ?i = (if is_full_attn (fst h) then map_option (take ?q) (hits ! nat ?i) else hits ! nat ?i)" using F i by blast
        then show ?thesis using st(1) whole by simp
      next
        case False
        then have "h \<in> set rest" using h by simp
        moreover from this have "nat ?i \<in> nat ` set (concat (map group_ids rest))" using i by auto
        then have "nat ?i \<notin> nat ` set (group_ids g)" using own_ids [OF wf] by (metis imageE)
        then have "?hits ! nat ?i = hits ! nat ?i" using F by blast
        ultimately show ?thesis using st(1) whole nf by simp
      qed
      then show ?thesis using lt by (simp add: blocks_def)
    qed
    moreover have "length (take ?q (bl ! j)) * block_size_of (fst h) = len" if "j < length (group_ids h)" for j
      using that b(2,3) q bs(2) by (auto simp: stored_def min_def)
    moreover have "is_full_attn (fst h) \<or> length (bl ! j) * block_size_of (fst h) = len" if "j < length (group_ids h)" for j
      using that b(2,3,7) by (auto simp: stored_def)
    ultimately show ?thesis unfolding covered_def using b by (intro exI [of _ l] exI [of _ bl]) (auto simp: stored_def)
  qed
  then show ?thesis using F by (auto simp: blocks_def)
qed

lemma simple_search:
  assumes wf: "groups_wf num al [g, h]" and ok: "ok c al g max_len" "ok c al h max_len" and f: "is_full_attn (fst g)" "\<not> is_full_attn (fst h)"
  shows "\<exists>len hits. hit_loop (lookup c) [g, h] True max_len (replicate num None) = Inr (len, hits) \<and> len \<le> max_len \<and> al dvd len
     \<and> length hits = num \<and> held_for c g len max_len hits \<and> held_for c h len max_len hits"
proof -
  have w: "group_wf num al g" "group_wf num al h" using wf by (auto simp: groups_wf_def)
  have hd: "(replicate num None :: group_hits) ! nat (hd (group_ids g)) = None"
    using w(1) by (cases "group_ids g") (auto simp: group_wf_def)
  obtain len1 hits1 where s1: "hit_step (lookup c) g (max_len, replicate num None) = Inr (len1, hits1)" "len1 \<le> max_len" "al dvd len1"
      "length hits1 = num" "first_ok c g max_len len1 max_len hits1"
    using first_step [OF w(1) ok(1) order_refl, of "replicate num None"] hd by auto
  obtain bl n hits2 where s2: "hit_step (lookup c) h (len1, hits1) = Inr (n * block_size_of (fst h), hits2)" "lookup c h len1 = Inr bl"
     "\<forall>b \<in> set bl. length b = n" "n * block_size_of (fst h) \<le> len1" "al dvd n * block_size_of (fst h)" "length hits2 = num" "stored h bl hits2"
     "\<forall>i. i \<notin> nat ` set (group_ids h) \<longrightarrow> hits2 ! i = hits1 ! i"
    using step_lookup [OF w(2) shorter [OF ok(2) s1(2)] s1(4)] f(2) by blast
  let ?len = "n * block_size_of (fst h)"
  have "hit_loop (lookup c) [g, h] True max_len (replicate num None) = Inr (?len, hits2)"
    using s1(1,2) s2(1,4) by (subst hit_loop.simps) (auto simp: hit_pass_def)
  moreover have "\<forall>i \<in> set (group_ids g). hits2 ! nat i = hits1 ! nat i" using s2(8) own_ids [OF wf] by auto
  then have "first_ok c g max_len ?len ?len hits2" using first_frame [OF s1(5) _ s2(4), of hits2 max_len] f(1) by (auto simp: first_ok_def)
  then have "held_for c g ?len max_len hits2" using first_held s1(2) s2(4) by (meson le_trans)
  moreover have "held_for c h ?len max_len hits2" unfolding held_for_def using s2 s1(2) by (intro exI [of _ len1] exI [of _ bl] exI [of _ n]) auto
  moreover have "?len \<le> max_len" using s1(2) s2(4) by (rule le_trans [rotated])
  ultimately show ?thesis using s2(5,6) by blast
qed

lemma search_covers:
  assumes wf: "groups_wf num al (g # rest)" and ok: "\<forall>h \<in> set (g # rest). ok c al h max_len" and nf: "\<forall>h \<in> set rest. \<not> is_full_attn (fst h)"
  shows "\<exists>blocks len. hit_search (lookup c) (g # rest) num max_len = Inr (blocks, len) \<and> len \<le> max_len \<and> al dvd len
     \<and> length blocks = num \<and> (\<forall>h \<in> set (g # rest). covered c h len max_len blocks)"
proof -
  define simple where "simple = (length (g # rest) = 2 \<and> is_full_attn (fst g))"
  have "\<exists>len hits. hit_loop (lookup c) (g # rest) simple max_len (replicate num None) = Inr (len, hits) \<and> len \<le> max_len \<and> al dvd len
     \<and> length hits = num \<and> (\<forall>h \<in> set (g # rest). held_for c h len max_len hits)"
  proof (cases simple)
    case True
    then obtain h where "rest = [h]" by (auto simp: simple_def length_Suc_conv)
    then show ?thesis using simple_search [of num al g h c max_len] wf ok nf True by (auto simp: simple_def)
  next
    case False
    have "(replicate num None :: group_hits) ! nat (hd (group_ids g)) = None"
      using wf by (cases "group_ids g") (auto simp: groups_wf_def group_wf_def)
    then obtain len hits where "hit_loop (lookup c) (g # rest) False max_len (replicate num None) = Inr (len, hits)" "len \<le> max_len" "al dvd len"
       "length hits = num" "first_ok c g max_len len len hits" "\<forall>h \<in> set rest. got c h len len hits"
      using loop_fixpoint [OF wf ok nf order_refl, of "replicate num None"] by auto
    then show ?thesis using False first_held got_held by auto
  qed
  then obtain len hits where r: "hit_loop (lookup c) (g # rest) simple max_len (replicate num None) = Inr (len, hits)" "len \<le> max_len" "al dvd len"
     "length hits = num" "\<forall>h \<in> set (g # rest). held_for c h len max_len hits" by blast
  then have "hit_search (lookup c) (g # rest) num max_len = Inr (map (\<lambda>o'. case o' of None \<Rightarrow> [] | Some b \<Rightarrow> b) (hit_truncate g len hits), len)"
    by (simp add: hit_search_def py_index_def simple_def Let_def)
  then show ?thesis using truncate_covered [OF wf nf r(4,5,3)] r(2,3) by blast
qed

end


text \<open>
  When the lookups of an attention type other than full attention always stop short of the given length, the loop over several types
  only ends at length zero.
\<close>

context hit_lookups
begin

lemma got_short:
  assumes "got c g len len hits" and "group_ids g \<noteq> []"
    and "\<And>l bl b. l \<le> len \<Longrightarrow> lookup c g l = Inr bl \<Longrightarrow> b \<in> set bl \<Longrightarrow> length b = 0 \<or> length b * block_size_of (fst g) < l"
  shows "len = 0"
proof -
  obtain l bl n where b: "lookup c g l = Inr bl" "stored g bl hits" "\<forall>b \<in> set bl. length b = n" "len \<le> n * block_size_of (fst g)"
      "n * block_size_of (fst g) \<le> l" "l \<le> len" using assms(1) unfolding got_def by blast
  have "bl \<noteq> []" using b(2) assms(2) by (auto simp: stored_def)
  then have "hd bl \<in> set bl" by simp
  from assms(3) [OF b(6,1) this] show ?thesis using b(3-6) \<open>hd bl \<in> set bl\<close> by auto
qed

lemma search_short:
  assumes wf: "groups_wf num al (g # rest)" and ok: "\<forall>h \<in> set (g # rest). ok c al h max_len" and nf: "\<forall>h \<in> set rest. \<not> is_full_attn (fst h)"
    and h: "h \<in> set (g # rest)" "\<not> is_full_attn (fst h)" and complex: "\<not> (length (g # rest) = 2 \<and> is_full_attn (fst g))"
    and short: "\<And>l bl b. l \<le> max_len \<Longrightarrow> lookup c h l = Inr bl \<Longrightarrow> b \<in> set bl \<Longrightarrow> length b = 0 \<or> length b * block_size_of (fst h) < l"
  shows "\<exists>blocks. hit_search (lookup c) (g # rest) num max_len = Inr (blocks, 0)"
proof -
  have "(replicate num None :: group_hits) ! nat (hd (group_ids g)) = None"
    using wf by (cases "group_ids g") (auto simp: groups_wf_def group_wf_def)
  then obtain len hits where r: "hit_loop (lookup c) (g # rest) False max_len (replicate num None) = Inr (len, hits)" "len \<le> max_len"
     "first_ok c g max_len len len hits" "\<forall>h \<in> set rest. got c h len len hits"
    using loop_fixpoint [OF wf ok nf order_refl, of "replicate num None"] by auto
  have "got c h len len hits" using r(3,4) h by (auto simp: first_ok_def)
  moreover have "group_ids h \<noteq> []" using wf h(1) by (auto simp: groups_wf_def group_wf_def)
  ultimately have "len = 0" using got_short short r(2) by (meson le_trans)
  then show ?thesis using r(1) complex by (auto simp: hit_search_def py_index_def Let_def)
qed

end

text \<open>Lookups that miss no prefix: the loop then finds the longest one that fits all types.\<close>

locale longest_lookups = hit_lookups lookup ok for lookup :: "'c \<Rightarrow> attention_group \<Rightarrow> nat \<Rightarrow> block_ref list list result" and ok +
  fixes fit :: "'c \<Rightarrow> nat \<Rightarrow> attention_group \<Rightarrow> nat \<Rightarrow> bool"
  assumes longest: "ok c al g len \<Longrightarrow> fit c al g m \<Longrightarrow> m \<le> len \<Longrightarrow> lookup c g len = Inr bl \<Longrightarrow> b \<in> set bl \<Longrightarrow> m \<le> length b * block_size_of (fst g)"
    and fit_blocks: "fit c al g m \<Longrightarrow> block_size_of (fst g) dvd m"
begin

lemma step_longest:
  assumes "hit_step (lookup c) g (len, hits) = Inr (len', hits')" and "ok c al g len" and "fit c al g m" and "m \<le> len"
  shows "m \<le> len'" "len' \<le> len"
proof -
  let ?bs = "block_size_of (fst g)"
  obtain spec ids cls where g: "g = (spec, ids, cls)" by (cases g)
  consider (reuse) "len' = nat (int len div int ?bs) * ?bs" "?bs \<noteq> 0"
    | (look) bl where "lookup c g len = Inr bl" "bl \<noteq> []" "len' = length (bl ! 0) * ?bs"
    using assms(1) by (auto simp: hit_step_def g rbind_eq_Inr py_div_def py_index_def split: if_splits)
  then have "m \<le> len' \<and> len' \<le> len"
  proof cases
    case reuse
    then have "len' = len div ?bs * ?bs" by (simp flip: zdiv_int)
    moreover have "m div ?bs * ?bs = m" using fit_blocks [OF assms(3)] by simp
    then have "m \<le> len div ?bs * ?bs" using assms(4) by (metis div_le_mono mult_le_mono1)
    ultimately show ?thesis by simp
  next
    case look
    have b: "bl ! 0 \<in> set bl" using look(2) by simp
    then have "length (bl ! 0) * ?bs \<le> len" using found [OF assms(2)] look(1) by auto
    then show ?thesis using longest [OF assms(2,3,4) look(1) b] look(3) by simp
  qed
  then show "m \<le> len'" "len' \<le> len" by simp_all
qed

lemma pass_longest:
  assumes "hit_pass (lookup c) groups (len, hits) = Inr (len', hits')" and "\<forall>g \<in> set groups. ok c al g len \<and> fit c al g m" and "m \<le> len"
  shows "m \<le> len' \<and> len' \<le> len"
  using assms
proof (induction groups arbitrary: len hits)
  case Nil
  then show ?case by (simp add: hit_pass_def)
next
  case (Cons g groups)
  obtain len1 hits1 where s: "hit_step (lookup c) g (len, hits) = Inr (len1, hits1)" "hit_pass (lookup c) groups (len1, hits1) = Inr (len', hits')"
    using Cons.prems(1) by (auto simp: hit_pass_def rbind_eq_Inr)
  have 1: "m \<le> len1" "len1 \<le> len" using step_longest [OF s(1), of al m] Cons.prems(2,3) by auto
  then have "\<forall>g \<in> set groups. ok c al g len1 \<and> fit c al g m" using Cons.prems(2) shorter by auto
  then show ?case using Cons.IH [OF s(2)] 1 by (meson le_trans)
qed

lemma loop_longest:
  assumes "hit_loop (lookup c) groups simple len hits = Inr (len', hits')" and "\<forall>g \<in> set groups. ok c al g len \<and> fit c al g m" and "m \<le> len"
  shows "m \<le> len'"
  using assms
proof (induction len arbitrary: hits rule: less_induct)
  case (less len)
  obtain len1 hits1 where p: "hit_pass (lookup c) groups (len, hits) = Inr (len1, hits1)"
      "(if len \<le> len1 then Inr (len, hits1) else if simple then Inr (len1, hits1) else hit_loop (lookup c) groups simple len1 hits1) = Inr (len', hits')"
    using less.prems(1) by (subst (asm) hit_loop.simps) (auto simp: rbind_eq_Inr)
  have 1: "m \<le> len1" "len1 \<le> len" using pass_longest [OF p(1) less.prems(2,3)] by auto
  then have "\<forall>g \<in> set groups. ok c al g len1 \<and> fit c al g m" using less.prems(2) shorter by auto
  then show ?case using p(2) 1 less.IH [of len1 hits1] less.prems(3) by (auto split: if_splits)
qed

lemma search_longest:
  assumes "hit_search (lookup c) groups num max_len = Inr (blocks, len)" and "\<forall>g \<in> set groups. ok c al g max_len \<and> fit c al g m" and "m \<le> max_len"
  shows "m \<le> len"
  using assms(1) loop_longest [OF _ assms(2,3)] by (auto simp: hit_search_def rbind_eq_Inr Let_def)

end


lemma group_hashes_view:
  assumes "0 < hash_size" and "hash_size dvd block_size_of spec" and "0 < block_size_of spec"
  shows "\<exists>view hs'. group_hashes hash_size hs spec = Inr view \<and> view_from view 0 = Inr hs' \<and> length hs' = length hs div (block_size_of spec div hash_size)
     \<and> (\<forall>i < length hs'. view_at view i = Inr (hs' ! i))"
proof -
  have "group_hashes hash_size hs spec = block_hashes_view hs hash_size (block_size_of spec)"
    using assms by (simp add: group_hashes_def block_hashes_view_def dvd_eq_mod_eq_0)
  then show ?thesis using hashes_view [OF assms, of hs] by (metis drop_0)
qed

text \<open>
  When a lookup of an attention type is known to return: the pool is consistent, there are enough hashes, the alignment is a
  multiple of the block size, chunks consist of whole blocks, and the assertions of the lookups hold
  (no EAGLE for chunks, no larger alignment for windows with EAGLE).
\<close>

definition lookup_ok :: "coordinator \<times> bytes list \<Rightarrow> nat \<Rightarrow> attention_group \<Rightarrow> nat \<Rightarrow> bool" where
  "lookup_ok ch al g max_len = (case ch of (c, hs) \<Rightarrow>
     (\<exists>xs. pool_inv (coord_pool c) xs) \<and> lcm_block_size c = al \<and> 0 < al \<and> groups_valid (group_ids g)
     \<and> spec_manager_map (fst g) = Some (snd (snd g)) \<and> 0 < block_size_of (fst g) \<and> 0 < coord_hash_block_size c
     \<and> coord_hash_block_size c dvd block_size_of (fst g) \<and> max_len \<le> length hs * coord_hash_block_size c
     \<and> (case fst g of
          SlidingWindowSpec s \<Rightarrow> 1 < sliding_window s \<and> (coord_use_eagle c \<longrightarrow> spec_block_size s = al)
        | ChunkedLocalAttentionSpec s \<Rightarrow> 0 < attention_chunk_size s \<and> spec_block_size s = al \<and> \<not> coord_use_eagle c
            \<and> int (spec_block_size s) dvd attention_chunk_size s
        | CrossAttentionSpec _ \<Rightarrow> False
        | _ \<Rightarrow> True))"

text \<open>
  The first block that is still read when a request continues after \<open>len\<close> tokens: full attention reads all of them, a
  window and a chunk those they reach, a state model the last state.
\<close>

definition first_needed :: "layer_spec \<Rightarrow> nat \<Rightarrow> nat" where
  "first_needed spec len = (case spec of
     SlidingWindowSpec s \<Rightarrow> len div spec_block_size s - window_need s
   | ChunkedLocalAttentionSpec s \<Rightarrow> chunk_start s len
   | MambaSpec s \<Rightarrow> len div spec_block_size s - 1
   | _ \<Rightarrow> 0)"

text \<open>A list of exactly the blocks of \<open>len\<close> tokens: cached blocks with their hashes where they are needed, null blocks before.\<close>

definition reusable_at :: "coordinator \<Rightarrow> bytes list \<Rightarrow> layer_spec \<Rightarrow> int \<Rightarrow> nat \<Rightarrow> block_ref list \<Rightarrow> bool" where
  "reusable_at c hs spec gid len b \<longleftrightarrow> length b * block_size_of spec = len
     \<and> (\<forall>i < length b. if first_needed spec len \<le> i
          then \<exists>h. rbind (group_hashes (coord_hash_block_size c) hs spec) (\<lambda>view. view_at view i) = Inr h \<and> block_for (coord_pool c) gid h (b ! i)
          else b ! i = null_block (coord_pool c))"

text \<open>All blocks that the groups of an attention type need at \<open>len\<close> tokens are cached.\<close>

definition prefix_cached :: "coordinator \<Rightarrow> bytes list \<Rightarrow> attention_group \<Rightarrow> nat \<Rightarrow> bool" where
  "prefix_cached c hs g len \<longleftrightarrow> (\<forall>i < len div block_size_of (fst g). first_needed (fst g) len \<le> i \<longrightarrow>
     (\<exists>h. rbind (group_hashes (coord_hash_block_size c) hs (fst g)) (\<lambda>view. view_at view i) = Inr h \<and> cached_in (coord_pool c) (group_ids g) h))"

lemma first_needed_attended:
  assumes "attends spec (int len) (int q)" and "q < len" and "0 < block_size_of spec" and "block_size_of spec dvd len"
    and "case spec of SlidingWindowSpec s \<Rightarrow> 1 < sliding_window s | ChunkedLocalAttentionSpec s \<Rightarrow> 0 < attention_chunk_size s | _ \<Rightarrow> True"
  shows "first_needed spec len \<le> q div block_size_of spec"
proof (cases spec)
  case (SlidingWindowSpec s)
  let ?b = "int (spec_block_size s)" and ?w = "sliding_window s"
  have b: "0 < ?b" using assms(3) SlidingWindowSpec by simp
  obtain n where n: "len = n * spec_block_size s" using assms(4) SlidingWindowSpec dvd_div_mult_self [of "spec_block_size s" len] by (metis block_size_of.simps)
  have k: "int (window_need s) = cdiv (?w - 1) ?b" "0 < spec_block_size s" using window_need_pos [of s] assms(3,5) SlidingWindowSpec by auto
  have "?w - 1 \<le> int (window_need s) * ?b" using cdiv_le_iff [OF b, of "?w - 1" "int (window_need s)"] k(1) by simp
  then have "(int n - int (window_need s)) * ?b \<le> int q" using assms(1) SlidingWindowSpec n by (simp add: attends_def left_diff_distrib)
  then have "int n - int (window_need s) \<le> int q div ?b" using le_div_iff_mult_le [OF b, of "int n - int (window_need s)" "int q"] by simp
  then have "n - window_need s \<le> q div spec_block_size s" by (simp flip: zdiv_int)
  then show ?thesis using n k(2) SlidingWindowSpec by (simp add: first_needed_def)
next
  case (ChunkedLocalAttentionSpec s)
  let ?c = "attention_chunk_size s"
  have c: "0 < ?c" using assms(5) ChunkedLocalAttentionSpec by simp
  have "int len div ?c \<le> int q div ?c" using assms(1) ChunkedLocalAttentionSpec by (simp add: attends_def)
  then have "int len div ?c * ?c \<le> int q" using le_div_iff_mult_le [OF c, of "int len div ?c" "int q"] by simp
  then have "int len div ?c * ?c div int (spec_block_size s) \<le> int q div int (spec_block_size s)" by (intro zdiv_mono1) (use assms(3) ChunkedLocalAttentionSpec in auto)
  then show ?thesis using ChunkedLocalAttentionSpec by (simp add: first_needed_def chunk_start_def nat_le_iff zdiv_int)
next
  case (MambaSpec s)
  obtain n where n: "len = n * spec_block_size s" using assms(4) MambaSpec dvd_div_mult_self [of "spec_block_size s" len] by (metis block_size_of.simps)
  have "len \<le> q + 1" using assms(1) MambaSpec by (simp add: attends_def)
  then have "(n - 1) * spec_block_size s \<le> q" using assms(3) MambaSpec n by (cases n) auto
  then have "n - 1 \<le> q div spec_block_size s" using assms(3) MambaSpec by (simp add: less_eq_div_iff_mult_less_eq)
  then show ?thesis using n assms(3) MambaSpec by (simp add: first_needed_def)
qed (simp_all add: first_needed_def)

lemma scaled_length:
  assumes "0 < (h::nat)" and "h dvd bs" and "0 < bs" and "n \<le> len * h"
  shows "n div bs \<le> len div (bs div h)"
proof -
  obtain k where k: "bs = h * k" using assms(2) by blast
  have "n div bs \<le> len * h div bs" using assms(4) by (rule div_le_mono)
  also have "\<dots> = len div k" using assms(1) k by simp
  finally show ?thesis using assms(1) k by simp
qed

lemma reusable_atI:
  assumes "group_hashes (coord_hash_block_size c) hs spec = Inr view" and "\<forall>i < length hs'. view_at view i = Inr (hs' ! i)" and "length b \<le> length hs'"
    and "\<And>i. i < length b \<Longrightarrow> if first_needed spec (length b * block_size_of spec) \<le> i then block_for (coord_pool c) gid (hs' ! i) (b ! i)
          else b ! i = null_block (coord_pool c)"
  shows "reusable_at c hs spec gid (length b * block_size_of spec) b"
  unfolding reusable_at_def using assms(1-3) assms(4) by (auto split: if_splits)

lemma reusable_prefix:
  assumes "reusable_at c hs spec gid len' b" and "is_full_attn spec" and "len \<le> len'" "block_size_of spec dvd len"
  shows "reusable_at c hs spec gid len (take (len div block_size_of spec) b)"
proof -
  have "len div block_size_of spec \<le> length b"
    using assms(1,3) by (cases "block_size_of spec = 0") (auto simp: reusable_at_def intro: div_le_mono [THEN le_trans])
  then have l: "length (take (len div block_size_of spec) b) * block_size_of spec = len" using assms(4) by (simp add: min_def)
  moreover have "first_needed spec n = 0" for n using assms(2) by (cases spec) (auto simp: is_full_attn_def first_needed_def)
  ultimately show ?thesis using assms(1) by (auto simp: reusable_at_def)
qed

lemma takeWhile_at_least: "q \<le> length xs \<Longrightarrow> \<forall>i < q. P (xs ! i) \<Longrightarrow> q \<le> length (takeWhile P xs)"
  by (metis linorder_not_le nth_length_takeWhile order_less_le_trans)

lemma div_mult_bound: "0 < (b::nat) \<Longrightarrow> n \<le> m div b \<Longrightarrow> n * b \<le> m"
  by (meson div_times_less_eq_dividend le_trans mult_le_mono1)

lemma chunk_start_within:
  assumes "0 < attention_chunk_size s" and "int (spec_block_size s) dvd attention_chunk_size s" and "chunk_start s l * spec_block_size s \<le> len" and "len \<le> l"
  shows "chunk_start s len = chunk_start s l"
proof -
  let ?c = "attention_chunk_size s" and ?b = "int (spec_block_size s)"
  have "?b dvd int l div ?c * ?c" using assms(2) by simp
  then have "int l div ?c * ?c div ?b * ?b = int l div ?c * ?c" by (rule dvd_div_mult_self)
  moreover have "0 \<le> int l div ?c * ?c div ?b" using assms(1) by (simp add: pos_imp_zdiv_nonneg_iff div_int_pos_iff)
  ultimately have "int (chunk_start s l * spec_block_size s) = int l div ?c * ?c" by (simp add: chunk_start_def)
  then have "int l div ?c * ?c \<le> int len" using assms(3) by (metis of_nat_le_iff)
  then have "int l div ?c \<le> int len div ?c" using le_div_iff_mult_le [OF assms(1)] by simp
  moreover have "int len div ?c \<le> int l div ?c" using assms(1,4) by (intro zdiv_mono1) auto
  ultimately show ?thesis by (simp add: chunk_start_def)
qed

lemma window_depth_cases:
  assumes "0 < spec_block_size s" and "1 < sliding_window s"
  shows "window_depth False s = window_need s" "window_depth True s - 1 = window_need s"
  using window_depth_need [OF assms] window_need_pos [OF assms] by (auto simp: window_depth_def)

text \<open>
  What a lookup of one attention type returns within \<open>max_len\<close> tokens, over the hashes of blocks of its size: lists of one length with
  cached blocks where they are needed, aligned, as long as possible without EAGLE, and shorter
  than possible for a window with EAGLE.
\<close>

definition finds :: "block_pool \<Rightarrow> layer_spec \<Rightarrow> int list \<Rightarrow> bool \<Rightarrow> nat \<Rightarrow> nat \<Rightarrow> bytes list \<Rightarrow> block_ref list list result \<Rightarrow> bool" where
  "finds p spec ids eagle al max_len hs res \<longleftrightarrow> (\<exists>bl l. res = Inr bl \<and> length bl = length ids \<and> l \<le> max_len div block_size_of spec
     \<and> al dvd l * block_size_of spec
     \<and> (\<forall>j < length ids. length (bl ! j) = l \<and> (\<forall>i < l. if first_needed spec (l * block_size_of spec) \<le> i
          then block_for p (ids ! j) (hs ! i) (bl ! j ! i) else bl ! j ! i = null_block p))
     \<and> (\<forall>q \<le> max_len div block_size_of spec. \<not> eagle \<longrightarrow> al dvd q * block_size_of spec \<longrightarrow>
          (\<forall>i < q. first_needed spec (q * block_size_of spec) \<le> i \<longrightarrow> cached_in p ids (hs ! i)) \<longrightarrow> q \<le> l)
     \<and> (eagle \<and> spec_manager_map spec = Some SlidingWindowManager \<longrightarrow> l = 0 \<or> l < max_len div block_size_of spec))"

lemma full_finds:
  assumes inv: "pool_inv p xs" and ids: "groups_valid ids" and spec: "as_full spec \<noteq> None" and bs: "0 < block_size_of spec" "0 < al"
    and hs: "view_from view 0 = Inr hs" "max_len div block_size_of spec \<le> length hs"
  shows "finds p spec ids eagle al max_len hs (full_find_longest_cache_hit p spec view max_len ids eagle al 1 1)"
proof -
  let ?bs = "block_size_of spec" let ?n = "max_len div ?bs"
  define k where "k = (let n = hit_length p ids (take ?n hs) in if eagle then n - 1 else n)"
  obtain bl r where c: "full_find_longest_cache_hit p spec view max_len ids eagle al 1 1 = Inr bl" "length bl = length ids"
     "\<forall>j < length ids. blocks_for p (ids ! j) (take r hs) (bl ! j)" "r \<le> k" "r * ?bs mod al = 0" "\<forall>q. r < q \<longrightarrow> q \<le> k \<longrightarrow> q * ?bs mod al \<noteq> 0"
    using full_find_spec [OF inv ids spec _ bs hs(1) k_def, where dcp=1 and pcp=1] by (auto simp: full_block_size_def)
  have "k \<le> hit_length p ids (take ?n hs)" by (simp add: k_def Let_def)
  also have "\<dots> \<le> length (take ?n hs)" unfolding hit_length_def by (rule length_takeWhile_le)
  finally have r: "r \<le> ?n" "r \<le> length hs" using c(4) hs(2) by auto
  have 0: "first_needed spec = (\<lambda>_. 0)" and cls: "spec_manager_map spec \<noteq> Some SlidingWindowManager" using spec by (cases spec; simp add: first_needed_def fun_eq_iff)+
  have longest: "q \<le> r" if q: "q \<le> ?n" "\<not> eagle" "al dvd q * ?bs" "\<forall>i < q. cached_in p ids (hs ! i)" for q
  proof -
    have "q \<le> k" using q(1,2,4) hs(2) takeWhile_at_least [of q "take ?n hs" "cached_in p ids"] by (simp add: k_def hit_length_def)
    then show ?thesis using c(6) q(3) by (meson dvd_eq_mod_eq_0 not_le)
  qed
  have "length (bl ! j) = r \<and> (\<forall>i < r. block_for p (ids ! j) (hs ! i) (bl ! j ! i))" if "j < length ids" for j
    using c(3) that r(2) by (auto simp: blocks_for_def list_all2_conv_all_nth)
  then show ?thesis unfolding finds_def using c(1,2,5) r(1) 0 cls longest by (intro exI [of _ bl] exI [of _ r]) (auto simp: dvd_eq_mod_eq_0)
qed

lemma window_finds:
  assumes "pool_inv p xs" and "groups_valid ids" and "0 < spec_block_size s" and "0 < al" and "max_len div spec_block_size s \<le> length hs"
    and "\<forall>i < length hs. view_at view i = Inr (hs ! i)" and "1 < sliding_window s" and "eagle \<longrightarrow> spec_block_size s = al"
  shows "finds p (SlidingWindowSpec s) ids eagle al max_len hs (window_find_longest_cache_hit p (SlidingWindowSpec s) view max_len ids eagle al 1 1)"
proof -
  let ?bs = "spec_block_size s" let ?n = "max_len div ?bs" and ?hit = "window_hit (\<lambda>i. cached_in p ids (hs ! i)) ?bs al"
  obtain bl l where w: "window_find_longest_cache_hit p (SlidingWindowSpec s) view max_len ids eagle al 1 1 =
       (if eagle \<and> 0 < l \<and> ?bs \<noteq> al then Inl AssertionError else Inr bl)"
     "length bl = length ids" "l \<le> ?n" "?hit (window_depth eagle s) l" "\<forall>q. l < q \<longrightarrow> q \<le> ?n \<longrightarrow> \<not> ?hit (window_depth eagle s) q"
     "\<forall>j < length ids. if eagle then window_blocks p (ids ! j) hs (window_depth True s - 1) (l - 1) (bl ! j)
         else window_blocks p (ids ! j) hs (window_depth False s) l (bl ! j)"
    using window_find_general [OF assms(1-6), of eagle] by (elim exE conjE) (rule that)
  let ?l = "if eagle then l - 1 else l"
  note depth = window_depth_cases [OF assms(3,7)]
  have "window_blocks p (ids ! j) hs (window_need s) ?l (bl ! j)" if "j < length ids" for j using w(6) that depth by auto
  then have lists: "length (bl ! j) = ?l \<and> (\<forall>i < ?l. if first_needed (SlidingWindowSpec s) (?l * ?bs) \<le> i
      then block_for p (ids ! j) (hs ! i) (bl ! j ! i) else bl ! j ! i = null_block p)" if "j < length ids" for j
    using that assms(3) by (auto simp: window_blocks_def first_needed_def le_diff_conv)
  have longest: "q \<le> l" if q: "q \<le> ?n" "\<not> eagle" "al dvd q * ?bs" "\<forall>i < q. first_needed (SlidingWindowSpec s) (q * ?bs) \<le> i \<longrightarrow> cached_in p ids (hs ! i)" for q
  proof -
    have "?hit (window_need s) q" using q(3,4) assms(3) by (auto simp: window_hit_def first_needed_def le_diff_conv dvd_eq_mod_eq_0)
    then show ?thesis using w(5) q(1,2) depth(1) by (cases "l < q") auto
  qed
  have "al dvd ?l * ?bs" using w(4) assms(8) by (auto simp: window_hit_def dvd_eq_mod_eq_0)
  then show ?thesis unfolding finds_def using w(1-3) assms(8) lists longest by (intro exI [of _ bl] exI [of _ ?l]) auto
qed

lemma chunk_finds:
  assumes "pool_inv p xs" and "groups_valid ids" and "\<forall>i < length hs. view_at view i = Inr (hs ! i)" and "0 < attention_chunk_size s" "0 < spec_block_size s"
    and "max_len div spec_block_size s \<le> length hs" and "int (spec_block_size s) dvd attention_chunk_size s"
  shows "finds p (ChunkedLocalAttentionSpec s) ids False (spec_block_size s) max_len hs
     (chunk_find_longest_cache_hit p (ChunkedLocalAttentionSpec s) view max_len ids False (spec_block_size s) 1 1)"
proof -
  let ?bs = "spec_block_size s" let ?n = "max_len div ?bs" and ?st = "chunk_start s max_len" and ?hit = "\<lambda>i. cached_in p ids (hs ! i)"
  let ?found = "takeWhile ?hit [?st..<?n]" let ?l = "?st + length ?found"
  obtain bl where bl: "chunk_find_longest_cache_hit p (ChunkedLocalAttentionSpec s) view max_len ids False ?bs 1 1 = Inr bl" "length bl = length ids"
    "\<And>j. j < length ids \<Longrightarrow> \<exists>bs. bl ! j = replicate ?st (null_block p) @ bs \<and> blocks_for p (ids ! j) (map ((!) hs) ?found) bs"
    using chunk_find_spec [OF assms(1-6)] by auto
  have "?st \<le> ?n" using chunk_start_le [OF assms(4,5)] .
  then have l: "?l \<le> ?n" using length_takeWhile_le [of ?hit "[?st..<?n]"] by simp
  have start: "chunk_start s (q * ?bs) = ?st" if "?st \<le> q" "q \<le> ?n" for q
    using chunk_start_within [OF assms(4,7), of max_len "q * ?bs"] div_mult_bound [OF assms(5) that(2)] that(1) by simp
  have found: "?found = [?st..<?l]" using takeWhile_eq_take [of ?hit "[?st..<?n]"] l by (simp add: take_upt)
  have lists: "length (bl ! j) = ?l \<and> (\<forall>i < ?l. if ?st \<le> i then block_for p (ids ! j) (hs ! i) (bl ! j ! i) else bl ! j ! i = null_block p)"
    if j: "j < length ids" for j
  proof -
    obtain bs where bs: "bl ! j = replicate ?st (null_block p) @ bs" "blocks_for p (ids ! j) (map ((!) hs) ?found) bs" using bl(3) [OF j] by blast
    have "length bs = length ?found" using blocks_for_length [OF bs(2)] by simp
    moreover have "block_for p (ids ! j) (hs ! (?st + i)) (bs ! i)" if "i < length ?found" for i
      using bs(2) that found by (auto simp: blocks_for_def list_all2_conv_all_nth)
    ultimately show ?thesis using bs(1) by (auto simp: nth_append) (metis add_diff_inverse_nat less_diff_conv2 linorder_not_le nat_add_left_cancel_less)
  qed
  have longest: "q \<le> ?l" if q: "q \<le> ?n" "\<forall>i < q. chunk_start s (q * ?bs) \<le> i \<longrightarrow> ?hit i" for q
  proof (cases "?st \<le> q")
    case True
    then have "\<forall>i < q - ?st. ?hit ([?st..<?n] ! i)" using q start [OF True q(1)] by auto
    then have "q - ?st \<le> length ?found" using q(1) by (intro takeWhile_at_least) auto
    then show ?thesis by simp
  qed simp
  have "first_needed (ChunkedLocalAttentionSpec s) (?l * ?bs) = ?st" using start [of ?l] l by (simp add: first_needed_def)
  then show ?thesis unfolding finds_def using bl(1,2) l lists longest
    by (intro exI [of _ bl] exI [of _ ?l]) (simp add: first_needed_def)
qed

lemma mamba_finds:
  assumes "pool_inv p xs" and "groups_valid ids" and "\<forall>i < length hs. view_at view i = Inr (hs ! i)" and "0 < spec_block_size s" "max_len div spec_block_size s \<le> length hs"
  shows "finds p (MambaSpec s) ids eagle al max_len hs (mamba_find_longest_cache_hit p (MambaSpec s) view max_len ids eagle al 1 1)"
proof -
  let ?bs = "spec_block_size s" let ?n = "max_len div ?bs"
  obtain bl l where m: "mamba_find_longest_cache_hit p (MambaSpec s) view max_len ids eagle al 1 1 = Inr bl" "length bl = length ids" "l \<le> ?n"
     "0 < l \<longrightarrow> l * ?bs mod al = 0 \<and> cached_in p ids (hs ! (l - 1))" "\<forall>q. l < q \<longrightarrow> q \<le> ?n \<longrightarrow> q * ?bs mod al \<noteq> 0 \<or> \<not> cached_in p ids (hs ! (q - 1))"
     "\<forall>j < length ids. window_blocks p (ids ! j) hs 1 l (bl ! j)"
    using mamba_find_spec [OF assms, of eagle al] by (elim exE conjE) (rule that)
  have lists: "length (bl ! j) = l \<and> (\<forall>i < l. if first_needed (MambaSpec s) (l * ?bs) \<le> i
      then block_for p (ids ! j) (hs ! i) (bl ! j ! i) else bl ! j ! i = null_block p)" if "j < length ids" for j
    using m(6) that assms(4) by (auto simp: window_blocks_def first_needed_def le_diff_conv)
  have longest: "q \<le> l" if q: "q \<le> ?n" "al dvd q * ?bs" "\<forall>i < q. first_needed (MambaSpec s) (q * ?bs) \<le> i \<longrightarrow> cached_in p ids (hs ! i)" for q
  proof (rule ccontr)
    assume "\<not> q \<le> l"
    then have "l < q" "q - 1 < q" by simp_all
    then have "cached_in p ids (hs ! (q - 1))" using q(3) [rule_format, of "q - 1"] assms(4) by (simp add: first_needed_def)
    moreover have "q * ?bs mod al \<noteq> 0 \<or> \<not> cached_in p ids (hs ! (q - 1))" using m(5) \<open>l < q\<close> q(1) by blast
    ultimately show False using q(2) by (simp add: dvd_eq_mod_eq_0)
  qed
  show ?thesis unfolding finds_def using m(1-4) lists longest by (intro exI [of _ bl] exI [of _ l]) (auto simp: dvd_eq_mod_eq_0)
qed

text \<open>The lookup of an attention type in the coordinator.\<close>

lemma group_lookup_finds:
  assumes "lookup_ok (c, hs) al g max_len"
  shows "\<exists>view hs'. group_hashes (coord_hash_block_size c) hs (fst g) = Inr view \<and> (\<forall>i < length hs'. view_at view i = Inr (hs' ! i))
     \<and> max_len div block_size_of (fst g) \<le> length hs'
     \<and> finds (coord_pool c) (fst g) (group_ids g) (coord_use_eagle c) al max_len hs' (group_lookup c hs g max_len)"
proof -
  obtain spec ids cls where g: "g = (spec, ids, cls)" by (cases g)
  obtain xs where A: "pool_inv (coord_pool c) xs" "lcm_block_size c = al" "0 < al" "groups_valid ids" "spec_manager_map spec = Some cls" "0 < block_size_of spec"
    "0 < coord_hash_block_size c" "coord_hash_block_size c dvd block_size_of spec" "max_len \<le> length hs * coord_hash_block_size c"
    using assms by (auto simp: lookup_ok_def g group_ids_def)
  obtain view hs' where v: "group_hashes (coord_hash_block_size c) hs spec = Inr view" "view_from view 0 = Inr hs'"
     "length hs' = length hs div (block_size_of spec div coord_hash_block_size c)" "\<forall>i < length hs'. view_at view i = Inr (hs' ! i)"
    using group_hashes_view [OF A(7,8,6)] by blast
  have n: "max_len div block_size_of spec \<le> length hs'" using scaled_length [OF A(7,8,6,9)] v(3) by simp
  have run: "group_lookup c hs g max_len = Cache_Hit.find_longest_cache_hit cls (coord_pool c) spec view max_len ids (coord_use_eagle c) al 1 1"
    by (simp add: group_lookup_def g v(1) A(2))
  have "finds (coord_pool c) spec ids (coord_use_eagle c) al max_len hs' (group_lookup c hs g max_len)"
  proof (cases spec)
    case (SlidingWindowSpec s)
    then show ?thesis using window_finds [OF A(1,4) _ A(3) _ v(4), of s max_len "coord_use_eagle c"] A(5,6) n run assms by (auto simp: lookup_ok_def g)
  next
    case (ChunkedLocalAttentionSpec s)
    then show ?thesis using chunk_finds [OF A(1,4) v(4), of s max_len] A(5,6) n run assms by (auto simp: lookup_ok_def g)
  next
    case (MambaSpec s)
    then show ?thesis using mamba_finds [OF A(1,4) v(4), of s max_len "coord_use_eagle c" al] A(5,6) n run by auto
  next
    case (CrossAttentionSpec s)
    then show ?thesis using assms by (simp add: lookup_ok_def g)
  qed (use full_finds [OF A(1,4) _ A(6,3) v(2) n] A(5) run in auto)
  then show ?thesis using v(1,4) n by (auto simp: g group_ids_def)
qed

lemma group_lookup_found:
  assumes "lookup_ok (c, hs) al g max_len"
  shows "\<exists>bl n. group_lookup c hs g max_len = Inr bl \<and> length bl = length (group_ids g) \<and> (\<forall>b \<in> set bl. length b = n)
      \<and> n * block_size_of (fst g) \<le> max_len \<and> al dvd n * block_size_of (fst g)
      \<and> (\<forall>j < length (group_ids g). reusable_at c hs (fst g) (group_ids g ! j) (n * block_size_of (fst g)) (bl ! j))"
proof -
  have bs: "0 < block_size_of (fst g)" using assms by (simp add: lookup_ok_def)
  obtain view hs' where v: "group_hashes (coord_hash_block_size c) hs (fst g) = Inr view" "\<forall>i < length hs'. view_at view i = Inr (hs' ! i)"
     "max_len div block_size_of (fst g) \<le> length hs'"
     "finds (coord_pool c) (fst g) (group_ids g) (coord_use_eagle c) al max_len hs' (group_lookup c hs g max_len)"
    using group_lookup_finds [OF assms] by blast
  from v(4) obtain bl l where f: "group_lookup c hs g max_len = Inr bl" "length bl = length (group_ids g)" "l \<le> max_len div block_size_of (fst g)"
     "al dvd l * block_size_of (fst g)"
     "\<forall>j < length (group_ids g). length (bl ! j) = l \<and> (\<forall>i < l. if first_needed (fst g) (l * block_size_of (fst g)) \<le> i
          then block_for (coord_pool c) (group_ids g ! j) (hs' ! i) (bl ! j ! i) else bl ! j ! i = null_block (coord_pool c))"
    unfolding finds_def by blast
  have "reusable_at c hs (fst g) (group_ids g ! j) (l * block_size_of (fst g)) (bl ! j)" if "j < length (group_ids g)" for j
    using reusable_atI [OF v(1,2), of "bl ! j" "group_ids g ! j"] f(3,5) v(3) that by simp
  then show ?thesis using f div_mult_bound [OF bs f(3)] by (intro exI [of _ bl] exI [of _ l]) (auto simp: in_set_conv_nth)
qed

lemma group_lookup_longest:
  assumes "lookup_ok (c, hs) al g max_len" and "group_lookup c hs g max_len = Inr bl" and "b \<in> set bl"
    and "\<not> coord_use_eagle c" "al dvd m" "block_size_of (fst g) dvd m" "prefix_cached c hs g m" "m \<le> max_len"
  shows "m \<le> length b * block_size_of (fst g)"
proof -
  let ?bs = "block_size_of (fst g)"
  obtain view hs' where v: "group_hashes (coord_hash_block_size c) hs (fst g) = Inr view" "\<forall>i < length hs'. view_at view i = Inr (hs' ! i)"
     "max_len div ?bs \<le> length hs'" "finds (coord_pool c) (fst g) (group_ids g) (coord_use_eagle c) al max_len hs' (group_lookup c hs g max_len)"
    using group_lookup_finds [OF assms(1)] by blast
  have m: "m div ?bs * ?bs = m" "m div ?bs \<le> max_len div ?bs" using assms(6,8) by (simp_all add: div_le_mono)
  then have "\<forall>i < m div ?bs. first_needed (fst g) m \<le> i \<longrightarrow> cached_in (coord_pool c) (group_ids g) (hs' ! i)"
    using assms(7) v(1-3) by (fastforce simp: prefix_cached_def)
  then have "m div ?bs \<le> length b" using v(4) assms(2-5) m unfolding finds_def by (auto simp: in_set_conv_nth)
  then show ?thesis using m(1) by (metis mult_le_mono1)
qed

interpretation hl: hit_lookups "\<lambda>(c, hs). group_lookup c hs" lookup_ok
proof (unfold_locales, goal_cases)
  case (1 c al g len)
  then show ?case using group_lookup_found [of "fst c" "snd c" al g len] by (simp only: prod.collapse case_prod_beta) blast
next
  case (2 c al g len len')
  then show ?case by (auto simp: lookup_ok_def split: layer_spec.splits)
qed


text \<open>Without EAGLE every lookup is exhaustive.\<close>

definition fits_at :: "coordinator \<times> bytes list \<Rightarrow> nat \<Rightarrow> attention_group \<Rightarrow> nat \<Rightarrow> bool" where
  "fits_at ch al g m = (case ch of (c, hs) \<Rightarrow> \<not> coord_use_eagle c \<and> al dvd m \<and> block_size_of (fst g) dvd m \<and> prefix_cached c hs g m)"

interpretation ll: longest_lookups "\<lambda>(c, hs). group_lookup c hs" lookup_ok fits_at
proof (unfold_locales, goal_cases)
  case (1 c al g len m bl b)
  then show ?case using group_lookup_longest [of "fst c" "snd c" al g len bl b m] by (auto simp: fits_at_def split: prod.splits)
next
  case (2 c al g m)
  then show ?case by (auto simp: fits_at_def split: prod.splits)
qed

lemma eagle_window_short:
  assumes "lookup_ok (c, hs) al g max_len" and "coord_use_eagle c" and "fst g = SlidingWindowSpec s" and "l \<le> max_len"
    and "group_lookup c hs g l = Inr bl" and "b \<in> set bl"
  shows "length b = 0 \<or> length b * block_size_of (fst g) < l"
proof -
  have bs: "0 < block_size_of (fst g)" and ok: "lookup_ok (c, hs) al g l" using assms(1) hl.shorter [OF assms(1,4)] by (auto simp: lookup_ok_def)
  obtain hs' where "finds (coord_pool c) (fst g) (group_ids g) (coord_use_eagle c) al l hs' (group_lookup c hs g l)"
    using group_lookup_finds [OF ok] by blast
  then have "length b = 0 \<or> length b < l div block_size_of (fst g)"
    using assms(2,3,5,6) unfolding finds_def by (auto simp: in_set_conv_nth)
  moreover have "length b * block_size_of (fst g) < l" if "length b < l div block_size_of (fst g)"
    using that bs by (metis div_times_less_eq_dividend mult_less_mono1 order_less_le_trans)
  ultimately show ?thesis by blast
qed

text \<open>What the search keeps for a group can be reused at the common length.\<close>

lemma covered_reusable:
  assumes "hl.covered (c, hs) g len max_len blocks" and "lookup_ok (c, hs) al g max_len" and "len \<le> max_len" and "block_size_of (fst g) dvd len"
    and "j < length (group_ids g)"
  shows "reusable_at c hs (fst g) (group_ids g ! j) len (blocks ! nat (group_ids g ! j))"
proof -
  obtain l bl where b: "group_lookup c hs g l = Inr bl" "len \<le> l" "l \<le> max_len"
      "blocks ! nat (group_ids g ! j) = take (len div block_size_of (fst g)) (bl ! j)" "length (blocks ! nat (group_ids g ! j)) * block_size_of (fst g) = len"
      "is_full_attn (fst g) \<or> length (bl ! j) * block_size_of (fst g) = len" "length bl = length (group_ids g)"
    using assms(1,5) unfolding hl.covered_def prod.case by blast
  obtain n where n: "\<forall>b \<in> set bl. length b = n" "reusable_at c hs (fst g) (group_ids g ! j) (n * block_size_of (fst g)) (bl ! j)"
    using group_lookup_found [OF hl.shorter [OF assms(2) b(3)]] b(1) assms(5) by auto
  have len: "length (bl ! j) = n" using n(1) b(7) assms(5) by simp
  show ?thesis
  proof (cases "is_full_attn (fst g)")
    case True
    have "len \<le> n * block_size_of (fst g)" using b(4,5) len by (metis length_take min.cobounded1 mult_le_mono1)
    then show ?thesis using reusable_prefix [OF n(2) True _ assms(4)] b(4) by simp
  next
    case False
    then have "n * block_size_of (fst g) = len" using b(6) len by simp
    moreover have "take (len div block_size_of (fst g)) (bl ! j) = bl ! j" using b(4,5) len calculation
      by (cases "block_size_of (fst g) = 0") (use assms(2) in \<open>auto simp: lookup_ok_def\<close>)
    ultimately show ?thesis using n(2) b(4) by simp
  qed
qed

section \<open>Attention groups\<close>

definition split_inv :: "layer_spec list \<Rightarrow> nat \<Rightarrow> attention_group list \<Rightarrow> bool" where
  "split_inv specs k groups \<longleftrightarrow> distinct (concat (map group_ids groups)) \<and> set (concat (map group_ids groups)) = int ` {0..<k}
     \<and> (\<forall>g \<in> set groups. group_ids g \<noteq> [] \<and> spec_manager_map (fst g) = Some (snd (snd g)) \<and> (\<forall>i \<in> set (group_ids g). specs ! nat i = fst g))"

lemma group_ids_pair: "group_ids (s, ids, c) = ids"
  by (simp add: group_ids_def)

lemma add_group:
  assumes "add_attention_group k spec cls groups = Inr groups'" and "int k \<notin> set (concat (map group_ids groups))"
    and "distinct (concat (map group_ids groups))" and "specs ! k = spec" and "spec_manager_map spec = Some cls"
    and "\<forall>g \<in> set groups. group_ids g \<noteq> [] \<and> spec_manager_map (fst g) = Some (snd (snd g)) \<and> (\<forall>i \<in> set (group_ids g). specs ! nat i = fst g)"
  shows "distinct (concat (map group_ids groups')) \<and> set (concat (map group_ids groups')) = insert (int k) (set (concat (map group_ids groups)))
     \<and> (\<forall>g \<in> set groups'. group_ids g \<noteq> [] \<and> spec_manager_map (fst g) = Some (snd (snd g)) \<and> (\<forall>i \<in> set (group_ids g). specs ! nat i = fst g))"
  using assms
proof (induction groups arbitrary: groups')
  case Nil
  then show ?case by (auto simp: group_ids_def)
next
  case (Cons g groups)
  obtain s ids c where g: "g = (s, ids, c)" by (cases g)
  show ?case
  proof (cases "s = spec")
    case True
    then have g': "groups' = (s, ids @ [int k], c) # groups" "cls = c" using Cons.prems(1) by (auto simp: g rbind_eq_Inr)
    have "distinct ((ids @ [int k]) @ concat (map group_ids groups))" using Cons.prems(2,3) by (auto simp: g group_ids_pair simp del: set_concat)
    moreover have "set ((ids @ [int k]) @ concat (map group_ids groups)) = insert (int k) (set (ids @ concat (map group_ids groups)))" by (auto simp del: set_concat)
    ultimately show ?thesis using Cons.prems(4,5,6) True by (simp add: g g' group_ids_pair del: set_concat)
  next
    case False
    then obtain gs where gs: "add_attention_group k spec cls groups = Inr gs" "groups' = g # gs" using Cons.prems(1) by (auto simp: g rbind_eq_Inr)
    have IH: "distinct (concat (map group_ids gs))" "set (concat (map group_ids gs)) = insert (int k) (set (concat (map group_ids groups)))"
        "\<forall>g \<in> set gs. group_ids g \<noteq> [] \<and> spec_manager_map (fst g) = Some (snd (snd g)) \<and> (\<forall>i \<in> set (group_ids g). specs ! nat i = fst g)"
      using Cons.IH [OF gs(1)] Cons.prems by auto
    have "distinct (group_ids g @ concat (map group_ids gs))" using Cons.prems(2,3) IH(1,2) by (auto simp del: set_concat)
    moreover have "set (group_ids g @ concat (map group_ids gs)) = insert (int k) (set (group_ids g @ concat (map group_ids groups)))"
      using IH(2) by (simp del: set_concat)
    ultimately show ?thesis using IH(3) Cons.prems(6) gs(2) by simp
  qed
qed

lemma split_loop:
  assumes "rfold (\<lambda>(i, s) groups. case spec_manager_map s of None \<Rightarrow> Inl KeyError | Some cls \<Rightarrow> add_attention_group i s cls groups)
      (enumerate k ss) groups = Inr groups'"
    and "split_inv specs k groups" and "\<forall>i < length ss. specs ! (k + i) = ss ! i"
  shows "split_inv specs (k + length ss) groups'"
  using assms
proof (induction ss arbitrary: k groups)
  case Nil
  then show ?case by simp
next
  case (Cons s ss)
  obtain cls g1 where c: "spec_manager_map s = Some cls" "add_attention_group k s cls groups = Inr g1"
      "rfold (\<lambda>(i, s) groups. case spec_manager_map s of None \<Rightarrow> Inl KeyError | Some cls \<Rightarrow> add_attention_group i s cls groups) (enumerate (Suc k) ss) g1 = Inr groups'"
    using Cons.prems(1) by (auto simp: rbind_eq_Inr split: option.splits)
  have S: "int k \<notin> set (concat (map group_ids groups))" "distinct (concat (map group_ids groups))" "specs ! k = s"
    "\<forall>g \<in> set groups. group_ids g \<noteq> [] \<and> spec_manager_map (fst g) = Some (snd (snd g)) \<and> (\<forall>i \<in> set (group_ids g). specs ! nat i = fst g)"
    using Cons.prems(2,3) by (auto simp: split_inv_def simp del: set_concat)
  have A: "distinct (concat (map group_ids g1))" "set (concat (map group_ids g1)) = insert (int k) (set (concat (map group_ids groups)))"
    "\<forall>g \<in> set g1. group_ids g \<noteq> [] \<and> spec_manager_map (fst g) = Some (snd (snd g)) \<and> (\<forall>i \<in> set (group_ids g). specs ! nat i = fst g)"
    using add_group [OF c(2) S(1,2,3) c(1) S(4)] by blast+
  have "set (concat (map group_ids g1)) = int ` {0..<Suc k}"
    using A(2) Cons.prems(2) by (auto simp: split_inv_def less_Suc_eq simp del: set_concat)
  then have "split_inv specs (Suc k) g1" using A(1,3) by (simp add: split_inv_def del: set_concat)
  moreover have "\<forall>i < length ss. specs ! (Suc k + i) = ss ! i" using Cons.prems(3) by auto
  ultimately show ?case using Cons.IH [OF c(3)] by simp
qed

lemma group_of_index:
  assumes "split_inv specs k groups" and "i < k"
  obtains h where "h \<in> set groups" "int i \<in> set (group_ids h)" "specs ! i = fst h"
proof -
  have "int i \<in> set (concat (map group_ids groups))" using assms by (simp add: split_inv_def del: set_concat)
  then obtain h where h: "h \<in> set groups" "int i \<in> set (group_ids h)" by auto
  moreover from this have "specs ! nat (int i) = fst h" using assms(1) unfolding split_inv_def by blast
  ultimately show ?thesis using that by simp
qed

lemma concat_perm: "mset xs = mset ys \<Longrightarrow> mset (concat (map f xs)) = mset (concat (map f ys))"
  by (simp add: mset_concat) (metis mset_map sum_mset_sum_list)

lemma lcm_fold: "(n::nat) dvd fold (\<lambda>(s, _). lcm (block_size_of s)) groups n"
  "g \<in> set groups \<Longrightarrow> block_size_of (fst g) dvd fold (\<lambda>(s, _). lcm (block_size_of s)) groups n"
proof (induction groups arbitrary: n)
  case (Cons h groups)
  {
    case 1
    show ?case using Cons.IH(1) [of "lcm (block_size_of (fst h)) n"] by (cases h) (auto intro: dvd_trans)
  next
    case 2
    then show ?case using Cons.IH(1) [of "lcm (block_size_of (fst h)) n"] Cons.IH(2) [of "lcm (block_size_of (fst h)) n"]
      by (cases h) (auto intro: dvd_trans)
  }
qed simp_all

lemma lcm_fold_pos: "0 < (n::nat) \<Longrightarrow> \<forall>g \<in> set groups. 0 < block_size_of (fst g) \<Longrightarrow> 0 < fold (\<lambda>(s, _). lcm (block_size_of s)) groups n"
  by (induction groups arbitrary: n) (auto simp: lcm_pos_nat)

lemma hybrid_init_groups:
  assumes init: "HybridKVCacheCoordinator_init c0 = Inr c" and pos: "\<forall>s \<in> set (group_specs c0). 0 < block_size_of s"
  shows "group_specs c = group_specs c0" "groups_wf (length (group_specs c)) (lcm_block_size c) (attention_groups c)"
    "split_inv (group_specs c) (length (group_specs c)) (attention_groups c)" "0 < lcm_block_size c" "1 < length (attention_groups c)"
    "\<And>i j. i < j \<Longrightarrow> j < length (attention_groups c) \<Longrightarrow> is_full_attn (fst (attention_groups c ! j)) \<Longrightarrow> is_full_attn (fst (attention_groups c ! i))"
proof -
  let ?n = "length (group_specs c0)" and ?key = "\<lambda>(s, _). \<not> is_full_attn s"
  obtain groups where r: "rfold (\<lambda>(i, s) groups. case spec_manager_map s of None \<Rightarrow> Inl KeyError | Some cls \<Rightarrow> add_attention_group i s cls groups)
      (enumerate 0 (group_specs c0)) [] = Inr groups" "1 < length groups"
    and c: "c = c0\<lparr>attention_groups := sort_key ?key groups, lcm_block_size := fold (\<lambda>(s, _). lcm (block_size_of s)) groups 1\<rparr>"
    using init by (auto simp: HybridKVCacheCoordinator_init_def verify_and_split_kv_cache_groups_def rbind_eq_Inr)
  have I: "split_inv (group_specs c0) ?n groups" using split_loop [OF r(1), of "group_specs c0"] by (simp add: split_inv_def)
  have m: "mset (concat (map group_ids (sort_key ?key groups))) = mset (concat (map group_ids groups))" by (rule concat_perm) simp
  have S: "split_inv (group_specs c0) ?n (sort_key ?key groups)"
    using I mset_eq_imp_distinct_iff [OF m] mset_eq_setD [OF m] by (simp add: split_inv_def del: set_concat)
  have wf: "group_wf ?n (fold (\<lambda>(s, _). lcm (block_size_of s)) groups 1) g" if g: "g \<in> set groups" for g
  proof -
    have i: "i \<in> int ` {0..<?n}" if "i \<in> set (group_ids g)" for i using I g that unfolding split_inv_def by (metis (no_types, lifting) UN_I set_concat set_map image_eqI)
    obtain i0 where "i0 \<in> set (group_ids g)" using I g by (fastforce simp: split_inv_def neq_Nil_conv)
    then have "fst g \<in> set (group_specs c0)" using I g i [of i0] by (auto simp: split_inv_def simp del: set_concat) (metis nat_int nth_mem)
    moreover have "distinct (group_ids g)" using I g by (auto simp: split_inv_def distinct_concat_iff)
    ultimately show ?thesis using pos i lcm_fold(2) [OF g, of 1] I g by (fastforce simp: group_wf_def split_inv_def simp del: set_concat)
  qed
  show "group_specs c = group_specs c0" "split_inv (group_specs c) (length (group_specs c)) (attention_groups c)" "1 < length (attention_groups c)"
    using c S r(2) by simp_all
  show "groups_wf (length (group_specs c)) (lcm_block_size c) (attention_groups c)"
    using c S wf by (simp add: groups_wf_def split_inv_def)
  show "0 < lcm_block_size c" using c lcm_fold_pos [of 1 groups] wf by (simp add: group_wf_def)
  show "is_full_attn (fst (attention_groups c ! i))" if "i < j" "j < length (attention_groups c)" "is_full_attn (fst (attention_groups c ! j))" for i j
  proof -
    have "sorted (map ?key (attention_groups c))" using c by simp
    from sorted_nth_mono [OF this, of i j] that show ?thesis
      by (cases "attention_groups c ! i"; cases "attention_groups c ! j") (auto simp: le_bool_def)
  qed
qed


text \<open>
  A hybrid coordinator partitions the cache groups into attention types: every group index
  belongs to exactly one type, the one with its format and manager class; the block size of
  every type divides the common alignment; full attention types come first.
\<close>

theorem attention_groups_partition:
  assumes "HybridKVCacheCoordinator_init c0 = Inr c" and "\<forall>s \<in> set (group_specs c0). 0 < block_size_of s"
  shows "distinct (concat (map group_ids (attention_groups c))) \<and> set (concat (map group_ids (attention_groups c))) = int ` {0..<length (group_specs c0)}
     \<and> (\<forall>(spec, ids, cls) \<in> set (attention_groups c). spec_manager_map spec = Some cls \<and> (\<forall>i \<in> set ids. group_specs c0 ! nat i = spec)
          \<and> block_size_of spec dvd lcm_block_size c)
     \<and> (\<forall>i j. i < j \<longrightarrow> j < length (attention_groups c) \<longrightarrow> is_full_attn (fst (attention_groups c ! j)) \<longrightarrow> is_full_attn (fst (attention_groups c ! i)))"
  using hybrid_init_groups [OF assms] by (fastforce simp: split_inv_def groups_wf_def group_wf_def group_ids_def)

text \<open>
  C13. The search of a hybrid coordinator, with at most one full attention type and lookups whose own assertions hold,
  returns a prefix that all cache groups can reuse together. Its length is a multiple of the common alignment within the given
  maximum, and every group gets a list of exactly the blocks of that length: from the first block that its attention
  still reads when the request continues at this length, the blocks are cached blocks with the hashes of
  the request at these places, and null blocks before. Every position that the next token attends to is in a block of the first kind.
  Without EAGLE the length is the longest aligned one at which every group has the blocks it needs in the cache.
\<close>

theorem hybrid_hit_covers_all_groups:
  assumes "HybridKVCacheCoordinator_init c0 = Inr c" and "\<forall>s \<in> set (group_specs c0). 0 < block_size_of s"
    and "coord_class c = HybridKVCacheCoordinator" and "\<forall>g \<in> set (tl (attention_groups c)). \<not> is_full_attn (fst g)"
    and "\<forall>g \<in> set (attention_groups c). lookup_ok (c, hs) (lcm_block_size c) g max_len"
  shows "\<exists>blocks len. coord_find_longest_cache_hit hs max_len c = Inr (blocks, len) \<and> len \<le> max_len \<and> lcm_block_size c dvd len
     \<and> length blocks = length (group_specs c0)
     \<and> (\<forall>i < length (group_specs c0). reusable_at c hs (group_specs c0 ! i) (int i) len (blocks ! i)
          \<and> (\<forall>q < len. attends (group_specs c0 ! i) (int len) (int q) \<longrightarrow>
               first_needed (group_specs c0 ! i) len \<le> q div block_size_of (group_specs c0 ! i)))
     \<and> (\<not> coord_use_eagle c \<longrightarrow> (\<forall>m \<le> max_len. lcm_block_size c dvd m \<and> (\<forall>g \<in> set (attention_groups c). prefix_cached c hs g m) \<longrightarrow> m \<le> len))"
proof -
  note H = hybrid_init_groups [OF assms(1,2)]
  obtain g rest where g: "attention_groups c = g # rest" using H(5) by (cases "attention_groups c") auto
  obtain blocks len where r: "hit_search (group_lookup c hs) (g # rest) (length (group_specs c)) max_len = Inr (blocks, len)" "len \<le> max_len"
      "lcm_block_size c dvd len" "length blocks = length (group_specs c)" "\<forall>h \<in> set (attention_groups c). hl.covered (c, hs) h len max_len blocks"
    using hl.search_covers [of "length (group_specs c)" "lcm_block_size c" g rest "(c, hs)" max_len] H(2) assms(4,5) unfolding g by auto
  have run: "coord_find_longest_cache_hit hs max_len c = Inr (blocks, len)" using r(1) assms(3) g by (simp add: coord_find_longest_cache_hit_def)
  have each: "reusable_at c hs (group_specs c0 ! i) (int i) len (blocks ! i)
      \<and> (\<forall>q < len. attends (group_specs c0 ! i) (int len) (int q) \<longrightarrow> first_needed (group_specs c0 ! i) len \<le> q div block_size_of (group_specs c0 ! i))"
    if i: "i < length (group_specs c0)" for i
  proof -
    obtain h where h: "h \<in> set (attention_groups c)" "int i \<in> set (group_ids h)" "group_specs c0 ! i = fst h"
      using group_of_index [OF H(3), of i] H(1) i by auto
    then obtain j where j: "j < length (group_ids h)" "group_ids h ! j = int i" by (auto simp: in_set_conv_nth)
    have ok: "lookup_ok (c, hs) (lcm_block_size c) h max_len" using assms(5) h(1) by blast
    have bs: "0 < block_size_of (fst h)" "block_size_of (fst h) dvd len" using H(2) h(1) r(3) by (auto simp: groups_wf_def group_wf_def intro: dvd_trans)
    have "reusable_at c hs (fst h) (int i) len (blocks ! i)"
      using covered_reusable [OF bspec [OF r(5) h(1)] ok r(2) bs(2) j(1)] j(2) by simp
    then show ?thesis using h(3) first_needed_attended [of "fst h" len] bs ok
      by (auto simp: lookup_ok_def split: layer_spec.splits)
  qed
  have "m \<le> len" if "\<not> coord_use_eagle c" "m \<le> max_len" "lcm_block_size c dvd m" "\<forall>g \<in> set (attention_groups c). prefix_cached c hs g m" for m
  proof -
    have "\<forall>g \<in> set (attention_groups c). fits_at (c, hs) (lcm_block_size c) g m"
      using that H(2) by (auto simp: fits_at_def groups_wf_def group_wf_def intro: dvd_trans)
    then show ?thesis using ll.search_longest [of "(c, hs)" "attention_groups c" "length (group_specs c)" max_len blocks len "lcm_block_size c" m] r(1) g assms(5) that(2) by auto
  qed
  then show ?thesis using run r(2-4) H(1) each by auto
qed

text \<open>
  With EAGLE every lookup of a sliding window drops its last block, also when the loop looks the same
  prefix up again. With more than the two types of the simple case the loop therefore only stops at the empty hit:
  such a model never reuses a prefix, whatever is cached.
\<close>

theorem eagle_window_no_hit:
  assumes "HybridKVCacheCoordinator_init c0 = Inr c" and "\<forall>s \<in> set (group_specs c0). 0 < block_size_of s"
    and "coord_class c = HybridKVCacheCoordinator" and "\<forall>g \<in> set (tl (attention_groups c)). \<not> is_full_attn (fst g)"
    and "\<forall>g \<in> set (attention_groups c). lookup_ok (c, hs) (lcm_block_size c) g max_len"
    and "coord_use_eagle c" and "SlidingWindowSpec s \<in> set (group_specs c0)" and "\<not> (length (attention_groups c) = 2 \<and> is_full_attn (fst (hd (attention_groups c))))"
  shows "\<exists>blocks. coord_find_longest_cache_hit hs max_len c = Inr (blocks, 0)"
proof -
  note H = hybrid_init_groups [OF assms(1,2)]
  obtain g rest where g: "attention_groups c = g # rest" using H(5) by (cases "attention_groups c") auto
  obtain i where i: "i < length (group_specs c)" "group_specs c ! i = SlidingWindowSpec s" using assms(7) H(1) by (auto simp: in_set_conv_nth)
  then obtain h where h: "h \<in> set (attention_groups c)" and spec: "fst h = SlidingWindowSpec s" using group_of_index [OF H(3)] by metis
  then have nf: "\<not> is_full_attn (fst h)" by (simp add: is_full_attn_def)
  have ok: "lookup_ok (c, hs) (lcm_block_size c) h max_len" using assms(5) h by blast
  have "\<exists>blocks. hit_search (group_lookup c hs) (g # rest) (length (group_specs c)) max_len = Inr (blocks, 0)"
    using hl.search_short [of "length (group_specs c)" "lcm_block_size c" g rest "(c, hs)" max_len h] eagle_window_short [OF ok assms(6) spec] H(2) h nf assms(4,5,8)
    unfolding g by auto
  then show ?thesis using assms(3) g by (auto simp: coord_find_longest_cache_hit_def)
qed

text \<open>A coordinator with a full attention group and a sliding window group over a pool.\<close>

definition hybrid_example :: "block_pool \<Rightarrow> coordinator" where
  "hybrid_example p = \<lparr>coord_class = HybridKVCacheCoordinator, group_specs = [SlidingWindowSpec hit_window_spec, hit_full_spec],
     coord_enable_caching = True, coord_use_eagle = False, coord_pool = p, single_type_managers = [], coord_block_size = 0,
     coord_dcp = 1, coord_pcp = 1, coord_hash_block_size = 2, attention_groups = [], lcm_block_size = 0\<rparr>"

definition hybrid_example_groups :: "attention_group list" where
  "hybrid_example_groups = [(hit_full_spec, [1], FullAttentionManager), (SlidingWindowSpec hit_window_spec, [0], SlidingWindowManager)]"

lemma hybrid_example_init:
  "HybridKVCacheCoordinator_init (hybrid_example p) = Inr ((hybrid_example p)\<lparr>attention_groups := hybrid_example_groups, lcm_block_size := 2\<rparr>)"
  by (simp add: HybridKVCacheCoordinator_init_def verify_and_split_kv_cache_groups_def hybrid_example_def hybrid_example_groups_def hit_full_spec_def
      is_full_attn_def sort_key_def hit_window_spec_def)

theorem attention_groups_partition_witness:
  "\<exists>p c. HybridKVCacheCoordinator_init (hybrid_example p) = Inr c \<and> set (concat (map group_ids (attention_groups c))) = {0, 1}"
proof -
  have "set (concat (map group_ids (attention_groups ((hybrid_example undefined)\<lparr>attention_groups := hybrid_example_groups, lcm_block_size := 2\<rparr>))))
      = int ` {0..<length (group_specs (hybrid_example undefined))}"
    using attention_groups_partition [OF hybrid_example_init [of undefined]]
    by (simp add: hybrid_example_def hit_full_spec_def hit_window_spec_def)
  also have "\<dots> = {0, 1}" by (auto simp: hybrid_example_def numeral_2_eq_2 less_Suc_eq image_iff)
  finally show ?thesis using hybrid_example_init by blast
qed

text \<open>A pool with a block cached under the hash \<open>[9]\<close> for group 0 and another one for group 1.\<close>

lemma two_group_pool: "\<exists>p. pool_inv p (map Blk [1..<4]) \<and> cached_in p [0] [9] \<and> cached_in p [1] [9]"
proof -
  obtain p0 where p0: "pool_inv p0 (map Blk [1..<4])" "usable p0 = Blk ` {1..<4}"
      "\<not> enable_kv_cache_events p0" "hash_block_size p0 = 2" "\<And>i. block_hash (heap p0 (Blk i)) = None"
    using BlockPool_spec [of 4 True 2 False False] by auto
  let ?r = "(sample_request [1, 2] 2)\<lparr>block_hashes := [[9]]\<rparr>"
  have store: "\<exists>q. pool_inv q (map Blk [1..<4]) \<and> usable q = usable p \<and> \<not> enable_kv_cache_events q \<and> hash_block_size q = 2
       \<and> (\<forall>a. a \<noteq> Blk i \<longrightarrow> block_hash (heap q a) = block_hash (heap p a)) \<and> block_hash (heap q (Blk i)) = Some (group_key [9] g)"
    if p: "pool_inv p (map Blk [1..<4])" "\<not> enable_kv_cache_events p" "hash_block_size p = 2" "Blk i \<in> usable p" "block_hash (heap p (Blk i)) = None"
      and g: "0 \<le> g" "g < 2 ^ 32" for p i and g :: int
  proof -
    have h: "\<forall>b \<in> set (pyslice [Blk i] 0 1). b \<in> holdable p \<and> (b \<noteq> Blk 0 \<longrightarrow> block_hash (heap p b) = None)"
      using p(4,5) by (simp add: pyslice_def holdable_def)
    have "i \<noteq> 0" using p(4) by (auto simp: usable_def)
    moreover have pre: "(0::nat) < 1" "1 \<le> length [Blk i]" "1 \<le> length (block_hashes ?r)" "distinct (filter (\<lambda>b. b \<noteq> Blk 0) (pyslice [Blk i] 0 1))"
      by (simp_all add: pyslice_def)
    ultimately show ?thesis using cache_full_blocks_total [OF p(1,2) pre(1-3) p(3) [symmetric] g h pre(4), of toy_env] p(3)
      by (auto simp: pyslice_def)
  qed
  obtain p1 where p1: "pool_inv p1 (map Blk [1..<4])" "usable p1 = usable p0" "\<not> enable_kv_cache_events p1" "hash_block_size p1 = 2"
      "\<forall>a. a \<noteq> Blk 1 \<longrightarrow> block_hash (heap p1 a) = block_hash (heap p0 a)" "block_hash (heap p1 (Blk 1)) = Some (group_key [9] 0)"
    using store [OF p0(1,3,4), of 1 0] p0(2,5) by auto
  obtain p2 where p2: "pool_inv p2 (map Blk [1..<4])" "usable p2 = usable p1"
      "\<forall>a. a \<noteq> Blk 2 \<longrightarrow> block_hash (heap p2 a) = block_hash (heap p1 a)" "block_hash (heap p2 (Blk 2)) = Some (group_key [9] 1)"
    using store [OF p1(1,3,4), of 2 1] p0(2,5) p1(2,5) by auto
  have "Blk 1 \<in> usable p2" "Blk 2 \<in> usable p2" using p0(2) p1(2) p2(2) by auto
  moreover have "block_hash (heap p2 (Blk 1)) = Some (group_key [9] 0)" using p2(3) p1(6) by simp
  ultimately show ?thesis using p2(1,4) by (auto simp: cached_in_def block_for_def)
qed

lemma example_hash: "i < 2 \<Longrightarrow> rbind (group_hashes 2 [[9], [8]] hit_full_spec) (\<lambda>view. view_at view i) = Inr ([[9], [8]] ! i)"
  "i < 2 \<Longrightarrow> rbind (group_hashes 2 [[9], [8]] (SlidingWindowSpec hit_window_spec)) (\<lambda>view. view_at view i) = Inr ([[9], [8]] ! i)"
  by (simp_all add: group_hashes_def hit_full_spec_def hit_window_spec_def py_index_def)

text \<open>The first block is cached for both groups, so the hit is not empty.\<close>

theorem hybrid_hit_covers_all_groups_witness:
  "\<exists>p c blocks len. HybridKVCacheCoordinator_init (hybrid_example p) = Inr c
     \<and> coord_find_longest_cache_hit [[9], [8]] 4 c = Inr (blocks, len) \<and> 2 \<le> len
     \<and> reusable_at c [[9], [8]] (SlidingWindowSpec hit_window_spec) 0 len (blocks ! 0) \<and> reusable_at c [[9], [8]] hit_full_spec 1 len (blocks ! 1)"
proof -
  obtain p where p: "pool_inv p (map Blk [1..<4])" "cached_in p [0] [9]" "cached_in p [1] [9]" using two_group_pool by blast
  define c where "c = (hybrid_example p)\<lparr>attention_groups := hybrid_example_groups, lcm_block_size := 2\<rparr>"
  have init: "HybridKVCacheCoordinator_init (hybrid_example p) = Inr c" unfolding c_def by (rule hybrid_example_init)
  have pos: "\<forall>s \<in> set (group_specs (hybrid_example p)). 0 < block_size_of s" by (simp add: hybrid_example_def hit_full_spec_def hit_window_spec_def)
  have groups: "attention_groups c = hybrid_example_groups" by (simp add: c_def)
  have fst: "\<forall>g \<in> set (tl (attention_groups c)). \<not> is_full_attn (fst g)" by (simp add: groups hybrid_example_groups_def is_full_attn_def)
  have ok: "\<forall>g \<in> set (attention_groups c). lookup_ok (c, [[9], [8]]) (lcm_block_size c) g 4"
    using p(1) by (auto simp: groups c_def hybrid_example_def hybrid_example_groups_def lookup_ok_def group_ids_def groups_valid_def hit_full_spec_def hit_window_spec_def)
  have cls: "coord_class c = HybridKVCacheCoordinator" "\<not> coord_use_eagle c" "lcm_block_size c = 2" by (simp_all add: c_def hybrid_example_def)
  have bs: "block_size_of hit_full_spec = 2" "spec_block_size hit_window_spec = 2" by (simp_all add: hit_full_spec_def hit_window_spec_def)
  have "\<forall>g \<in> set (attention_groups c). prefix_cached c [[9], [8]] g 2"
    using p(2,3) example_hash by (simp add: groups c_def hybrid_example_def hybrid_example_groups_def prefix_cached_def group_ids_def bs)
  moreover obtain blocks len where "coord_find_longest_cache_hit [[9], [8]] 4 c = Inr (blocks, len)"
     "\<forall>i < length (group_specs (hybrid_example p)). reusable_at c [[9], [8]] (group_specs (hybrid_example p) ! i) (int i) len (blocks ! i)"
     "\<forall>m \<le> 4. lcm_block_size c dvd m \<and> (\<forall>g \<in> set (attention_groups c). prefix_cached c [[9], [8]] g m) \<longrightarrow> m \<le> len"
    using hybrid_hit_covers_all_groups [OF init pos cls(1) fst ok] cls(2) by blast
  moreover have "group_specs (hybrid_example p) = [SlidingWindowSpec hit_window_spec, hit_full_spec]" by (simp add: hybrid_example_def)
  ultimately show ?thesis using init cls(3) by (intro exI [of _ p] exI [of _ c] exI [of _ blocks] exI [of _ len]) auto
qed

text \<open>Two sliding windows of different size with EAGLE.\<close>

definition wide_window_spec :: sliding_window_spec where
  "wide_window_spec = hit_window_spec\<lparr>sliding_window := 9\<rparr>"

definition eagle_example :: "block_pool \<Rightarrow> coordinator" where
  "eagle_example p = (hybrid_example p)\<lparr>group_specs := [SlidingWindowSpec hit_window_spec, SlidingWindowSpec wide_window_spec], coord_use_eagle := True\<rparr>"

definition eagle_example_groups :: "attention_group list" where
  "eagle_example_groups = [(SlidingWindowSpec hit_window_spec, [0], SlidingWindowManager), (SlidingWindowSpec wide_window_spec, [1], SlidingWindowManager)]"

theorem eagle_window_no_hit_witness:
  "\<exists>p c blocks. cached_in p [0] [9] \<and> cached_in p [1] [9] \<and> HybridKVCacheCoordinator_init (eagle_example p) = Inr c
     \<and> coord_find_longest_cache_hit [[9], [9]] 4 c = Inr (blocks, 0)"
proof -
  obtain p where p: "pool_inv p (map Blk [1..<4])" "cached_in p [0] [9]" "cached_in p [1] [9]" using two_group_pool by blast
  define c where "c = (eagle_example p)\<lparr>attention_groups := eagle_example_groups, lcm_block_size := 2\<rparr>"
  have init: "HybridKVCacheCoordinator_init (eagle_example p) = Inr c"
    by (simp add: HybridKVCacheCoordinator_init_def verify_and_split_kv_cache_groups_def c_def eagle_example_def hybrid_example_def eagle_example_groups_def
        is_full_attn_def sort_key_def hit_window_spec_def wide_window_spec_def)
  have specs: "group_specs (eagle_example p) = [SlidingWindowSpec hit_window_spec, SlidingWindowSpec wide_window_spec]" by (simp add: eagle_example_def)
  have pos: "\<forall>s \<in> set (group_specs (eagle_example p)). 0 < block_size_of s" by (simp add: specs hit_window_spec_def wide_window_spec_def)
  have groups: "attention_groups c = eagle_example_groups" by (simp add: c_def)
  have fst: "\<forall>g \<in> set (tl (attention_groups c)). \<not> is_full_attn (fst g)" "\<not> (length (attention_groups c) = 2 \<and> is_full_attn (fst (hd (attention_groups c))))"
    by (simp_all add: groups eagle_example_groups_def is_full_attn_def)
  have ok: "\<forall>g \<in> set (attention_groups c). lookup_ok (c, [[9], [9]]) (lcm_block_size c) g 4"
    using p(1) by (auto simp: groups c_def eagle_example_def hybrid_example_def eagle_example_groups_def lookup_ok_def group_ids_def groups_valid_def
      wide_window_spec_def hit_window_spec_def)
  have cls: "coord_class c = HybridKVCacheCoordinator" "coord_use_eagle c" by (simp_all add: c_def eagle_example_def hybrid_example_def)
  have mem: "SlidingWindowSpec hit_window_spec \<in> set (group_specs (eagle_example p))" by (simp add: specs)
  show ?thesis using eagle_window_no_hit [OF init pos cls(1) fst(1) ok cls(2) mem fst(2)] init p(2,3) by blast
qed

text \<open>A second format of full attention, and lookups that find two blocks for full attention and one for the window.\<close>

definition second_full_spec :: layer_spec where
  "second_full_spec = FullAttentionSpec \<lparr>spec_block_size = 2, num_kv_heads = 1, head_size = 4, dtype = ''float16'',
     page_size_padded = None, head_size_v = 4, full_sliding_window = None, full_attention_chunk_size = None\<rparr>"

definition two_full_groups :: "attention_group list" where
  "two_full_groups = [(hit_full_spec, [0], FullAttentionManager), (second_full_spec, [1], FullAttentionManager),
     (SlidingWindowSpec hit_window_spec, [2], SlidingWindowManager)]"

definition two_full_lookup :: "attention_group \<Rightarrow> nat \<Rightarrow> block_ref list list result" where
  "two_full_lookup g max_len = (case g of (_, ids, _) \<Rightarrow>
     Inr [take (max_len div 2) (if ids = [0] then [Blk 1, Blk 2] else if ids = [1] then [Blk 3, Blk 4] else [Blk 5])])"

text \<open>
  Only the first full attention type is cut to the common length at the end of the search. With two full
  attention types and a third type that shortens the hit, the second one keeps more blocks than
  the returned length has: here two blocks of two tokens for a hit of two tokens.
\<close>

theorem second_full_group_not_truncated:
  "hit_search two_full_lookup two_full_groups 3 4 = Inr ([[Blk 1], [Blk 3, Blk 4], [Blk 5]], 2)"
proof -
  have p1: "hit_pass two_full_lookup two_full_groups (4, [None, None, None]) = Inr (2, [Some [Blk 1, Blk 2], Some [Blk 3, Blk 4], Some [Blk 5]])"
    by (simp add: hit_pass_def hit_step_def two_full_groups_def two_full_lookup_def py_index_def is_full_attn_def
        hit_full_spec_def second_full_spec_def hit_window_spec_def)
  have p2: "hit_pass two_full_lookup two_full_groups (2, [Some [Blk 1, Blk 2], Some [Blk 3, Blk 4], Some [Blk 5]])
      = Inr (2, [Some [Blk 1, Blk 2], Some [Blk 3, Blk 4], Some [Blk 5]])"
    by (simp add: hit_pass_def hit_step_def two_full_groups_def two_full_lookup_def py_index_def is_full_attn_def
        hit_full_spec_def second_full_spec_def hit_window_spec_def)
  have "hit_loop two_full_lookup two_full_groups False 4 [None, None, None] = Inr (2, [Some [Blk 1, Blk 2], Some [Blk 3, Blk 4], Some [Blk 5]])"
    by (simp add: hit_loop.simps [of _ _ _ 4] p1 hit_loop.simps [of _ _ _ 2] p2 del: One_nat_def)
  then show ?thesis
    by (simp add: hit_search_def py_index_def Let_def numeral_3_eq_3 hit_truncate_def two_full_groups_def hit_full_spec_def is_full_attn_def)
qed


end
