(* ===== verification/KV_Manager.thy ===== *)
theory KV_Manager
  imports Coordinator
begin

text \<open>
  The cache manager of \<^verbatim>\<open>src/vllm/v1/core/kv_cache_manager.py\<close>, the interface of the scheduler to the
  cache: looking up the cached prefix of a request, giving it slots for new tokens, and
  freeing it. The state is the coordinator with the block pool, and the statistics. The
  object of blocks without content that the manager shares is told apart from other
  empty objects, because \<^verbatim>\<open>allocate_slots\<close> compares by identity. A request has at least one token.
\<close>

section \<open>Statistics\<close>

text \<open>\<^verbatim>\<open>PrefixCacheStats\<close> of \<^verbatim>\<open>src/vllm/v1/metrics/stats.py\<close>.\<close>

record prefix_cache_stats =
  stats_reset :: bool
  stats_requests :: int
  stats_queries :: int
  stats_hits :: int
  preempted_requests :: int
  preempted_queries :: int
  preempted_hits :: int

definition PrefixCacheStats :: prefix_cache_stats where
  "PrefixCacheStats = \<lparr>stats_reset = False, stats_requests = 0, stats_queries = 0, stats_hits = 0,
     preempted_requests = 0, preempted_queries = 0, preempted_hits = 0\<rparr>"

definition record_stats :: "int \<Rightarrow> int \<Rightarrow> bool \<Rightarrow> prefix_cache_stats \<Rightarrow> prefix_cache_stats" where
  "record_stats n_tokens num_hits preempted s =
     (if preempted
      then s\<lparr>preempted_requests := preempted_requests s + 1, preempted_queries := preempted_queries s + n_tokens,
             preempted_hits := preempted_hits s + num_hits\<rparr>
      else s\<lparr>stats_requests := stats_requests s + 1, stats_queries := stats_queries s + n_tokens, stats_hits := stats_hits s + num_hits\<rparr>)"

section \<open>KVCacheBlocks\<close>

datatype kv_cache_blocks = Empty_KVCacheBlocks nat | KVCacheBlocks "block_ref list list"

fun blocks_by_group :: "kv_cache_blocks \<Rightarrow> block_ref list list" where
  "blocks_by_group (Empty_KVCacheBlocks n) = replicate n []"
| "blocks_by_group (KVCacheBlocks bs) = bs"

definition kv_blocks_add :: "kv_cache_blocks \<Rightarrow> kv_cache_blocks \<Rightarrow> kv_cache_blocks" where
  "kv_blocks_add a b = KVCacheBlocks (map2 (@) (blocks_by_group a) (blocks_by_group b))"

definition kv_blocks_get_block_ids :: "block_pool \<Rightarrow> bool \<Rightarrow> kv_cache_blocks \<Rightarrow> int list list option" where
  "kv_blocks_get_block_ids p allow_none b =
     (if allow_none \<and> list_all (\<lambda>g. g = []) (blocks_by_group b) then None
      else Some (map (map (\<lambda>blk. block_id (heap p blk))) (blocks_by_group b)))"

definition get_unhashed_block_ids :: "block_pool \<Rightarrow> kv_cache_blocks \<Rightarrow> int list result" where
  "get_unhashed_block_ids p b =
     (case blocks_by_group b of
        [g] \<Rightarrow> Inr (map (\<lambda>blk. block_id (heap p blk)) (filter (\<lambda>blk. block_hash (heap p blk) = None) g))
      | _ \<Rightarrow> Inl AssertionError)"

definition get_unhashed_block_ids_all_groups :: "block_pool \<Rightarrow> kv_cache_blocks \<Rightarrow> int list list" where
  "get_unhashed_block_ids_all_groups p b =
     map (\<lambda>g. map (\<lambda>blk. block_id (heap p blk)) (filter (\<lambda>blk. block_hash (heap p blk) = None \<and> \<not> is_null (heap p blk)) g)) (blocks_by_group b)"

definition new_empty :: "kv_cache_blocks \<Rightarrow> kv_cache_blocks" where
  "new_empty b = KVCacheBlocks (replicate (length (blocks_by_group b)) [])"

section \<open>KVCacheManager\<close>

record kv_manager =
  km_max_model_len :: int
  km_enable_caching :: bool
  km_log_stats :: bool
  prefix_cache_stats_of :: "prefix_cache_stats option"
  coordinator_of :: coordinator
  num_kv_cache_groups :: nat

abbreviation km_pool :: "kv_manager \<Rightarrow> block_pool" where
  "km_pool km \<equiv> coord_pool (coordinator_of km)"

definition KVCacheManager :: "kv_cache_config \<Rightarrow> int \<Rightarrow> nat \<Rightarrow> bool \<Rightarrow> bool \<Rightarrow> bool \<Rightarrow> bool \<Rightarrow> bool \<Rightarrow> nat \<Rightarrow> nat \<Rightarrow> kv_manager result" where
  "KVCacheManager config max_len hash_size caching use_eagle log_stats events int_hashes dcp pcp =
     rbind (get_kv_cache_coordinator config use_eagle caching events int_hashes dcp pcp hash_size) (\<lambda>c.
     Inr \<lparr>km_max_model_len = max_len, km_enable_caching = caching, km_log_stats = log_stats,
          prefix_cache_stats_of = (if log_stats then Some PrefixCacheStats else None), coordinator_of = c,
          num_kv_cache_groups = length (kv_cache_groups config)\<rparr>)"

definition empty_kv_cache_blocks :: "kv_manager \<Rightarrow> kv_cache_blocks" where
  "empty_kv_cache_blocks km = Empty_KVCacheBlocks (num_kv_cache_groups km)"

definition create_kv_cache_blocks :: "block_ref list list \<Rightarrow> kv_manager \<Rightarrow> kv_cache_blocks" where
  "create_kv_cache_blocks blocks km =
     (if list_ex (\<lambda>g. g \<noteq> []) blocks then KVCacheBlocks blocks else empty_kv_cache_blocks km)"

definition usage :: "kv_manager \<Rightarrow> rat" where
  "usage km = get_usage (km_pool km)"

definition make_prefix_cache_stats :: "kv_manager \<Rightarrow> prefix_cache_stats option \<times> kv_manager" where
  "make_prefix_cache_stats km =
     (if \<not> km_log_stats km then (None, km)
      else (prefix_cache_stats_of km, km\<lparr>prefix_cache_stats_of := Some PrefixCacheStats\<rparr>))"

definition get_computed_blocks :: "request \<Rightarrow> kv_manager \<Rightarrow> (kv_cache_blocks \<times> nat \<times> kv_manager) result" where
  "get_computed_blocks r km =
     (if \<not> km_enable_caching km \<or> skip_reading_prefix_cache r then Inr (empty_kv_cache_blocks km, 0, km)
      else
        rbind (coord_find_longest_cache_hit (block_hashes r) (num_tokens r - 1) (coordinator_of km)) (\<lambda>(computed_blocks, num_new_computed_tokens).
        rbind (if km_log_stats km
               then (case prefix_cache_stats_of km of
                       None \<Rightarrow> Inl AssertionError
                     | Some s \<Rightarrow> Inr (km\<lparr>prefix_cache_stats_of :=
                         Some (record_stats (int (num_tokens r)) (int num_new_computed_tokens) (0 < num_preemptions r) s)\<rparr>))
               else Inr km) (\<lambda>km.
        Inr (create_kv_cache_blocks computed_blocks km, num_new_computed_tokens, km))))"

definition is_shared_empty :: "kv_cache_blocks \<Rightarrow> bool" where
  "is_shared_empty b = (case b of Empty_KVCacheBlocks _ \<Rightarrow> True | KVCacheBlocks _ \<Rightarrow> False)"

definition allocate_slots :: "hash_env \<Rightarrow> request \<Rightarrow> int \<Rightarrow> int \<Rightarrow> kv_cache_blocks option \<Rightarrow> int \<Rightarrow> int \<Rightarrow> bool \<Rightarrow> int \<Rightarrow> kv_manager
     \<Rightarrow> (kv_cache_blocks option \<times> request \<times> kv_manager) result" where
  "allocate_slots env r num_new_tokens num_new_computed_tokens new_computed_blocks num_lookahead_tokens num_external delay_cache_blocks num_encoder_tokens km =
     (if num_new_tokens = 0 \<and> num_external = 0 then Inl ValueError
      else
        let new_computed_blocks = (case new_computed_blocks of None \<Rightarrow> empty_kv_cache_blocks km | Some b \<Rightarrow> b);
            hits = blocks_by_group new_computed_blocks;
            num_local = num_computed_tokens r + num_new_computed_tokens;
            total_computed_tokens = min (num_local + num_external) (km_max_model_len km);
            num_tokens_main_model = total_computed_tokens + num_new_tokens;
            num_tokens_need_slot = min (num_tokens_main_model + num_lookahead_tokens) (km_max_model_len km)
        in
        rbind (coord_remove_skipped_blocks (request_id r) total_computed_tokens (coordinator_of km)) (\<lambda>c.
        rbind (coord_get_num_blocks_to_allocate (request_id r) num_tokens_need_slot hits num_encoder_tokens (num_local + num_external)
                 num_tokens_main_model c) (\<lambda>(num_blocks_to_allocate, c).
        if get_num_free_blocks (coord_pool c) < num_blocks_to_allocate then Inr (None, r, km\<lparr>coordinator_of := c\<rparr>)
        else
          rbind (if \<not> is_shared_empty new_computed_blocks \<or> 0 < num_external
                 then coord_allocate_new_computed_blocks (request_id r) hits num_local num_external c else Inr c) (\<lambda>c.
          rbind (coord_allocate_new_blocks (request_id r) num_tokens_need_slot num_tokens_main_model num_encoder_tokens c) (\<lambda>(new_blocks, c).
          if \<not> km_enable_caching km \<or> delay_cache_blocks
          then Inr (Some (create_kv_cache_blocks new_blocks km), r, km\<lparr>coordinator_of := c\<rparr>)
          else
            rbind (coord_cache_blocks env r (min (total_computed_tokens + num_new_tokens) (int (num_tokens r))) c) (\<lambda>(r, c).
            Inr (Some (create_kv_cache_blocks new_blocks km), r, km\<lparr>coordinator_of := c\<rparr>)))))))"

definition km_free :: "request \<Rightarrow> kv_manager \<Rightarrow> kv_manager result" where
  "km_free r km = rbind (coord_free (request_id r) (coordinator_of km)) (\<lambda>c. Inr (km\<lparr>coordinator_of := c\<rparr>))"

definition km_remove_skipped_blocks :: "string \<Rightarrow> int \<Rightarrow> kv_manager \<Rightarrow> kv_manager result" where
  "km_remove_skipped_blocks rid total_computed_tokens km =
     rbind (coord_remove_skipped_blocks rid total_computed_tokens (coordinator_of km)) (\<lambda>c. Inr (km\<lparr>coordinator_of := c\<rparr>))"

definition with_pool :: "block_pool \<Rightarrow> kv_manager \<Rightarrow> kv_manager" where
  "with_pool p km = km\<lparr>coordinator_of := (coordinator_of km)\<lparr>coord_pool := p\<rparr>\<rparr>"

definition km_evict_blocks :: "int list \<Rightarrow> kv_manager \<Rightarrow> kv_manager result" where
  "km_evict_blocks block_ids km = rbind (evict_blocks block_ids (km_pool km)) (\<lambda>p. Inr (with_pool p km))"

definition km_reset_prefix_cache :: "kv_manager \<Rightarrow> (bool \<times> kv_manager) result" where
  "km_reset_prefix_cache km =
     (let (done', p) = reset_prefix_cache (km_pool km); km = with_pool p km
      in if \<not> done' then Inr (False, km)
         else if km_log_stats km
         then (case prefix_cache_stats_of km of
                 None \<Rightarrow> Inl AssertionError
               | Some s \<Rightarrow> Inr (True, km\<lparr>prefix_cache_stats_of := Some (s\<lparr>stats_reset := True\<rparr>)\<rparr>))
         else Inr (True, km))"

definition km_get_num_common_prefix_blocks :: "string \<Rightarrow> kv_manager \<Rightarrow> (nat list \<times> kv_manager) result" where
  "km_get_num_common_prefix_blocks rid km =
     rbind (coord_get_num_common_prefix_blocks rid (coordinator_of km)) (\<lambda>(ns, c). Inr (ns, km\<lparr>coordinator_of := c\<rparr>))"

definition km_take_events :: "kv_manager \<Rightarrow> kv_cache_event list \<times> kv_manager" where
  "km_take_events km = (let (es, p) = take_events (km_pool km) in (es, with_pool p km))"

definition km_get_blocks :: "string \<Rightarrow> kv_manager \<Rightarrow> kv_cache_blocks" where
  "km_get_blocks rid km = create_kv_cache_blocks (coord_get_blocks rid (coordinator_of km)) km"

definition km_get_block_ids :: "string \<Rightarrow> kv_manager \<Rightarrow> int list list" where
  "km_get_block_ids rid km =
     (case kv_blocks_get_block_ids (km_pool km) False (km_get_blocks rid km) of None \<Rightarrow> [] | Some ids \<Rightarrow> ids)"

definition km_cache_blocks :: "hash_env \<Rightarrow> request \<Rightarrow> int \<Rightarrow> kv_manager \<Rightarrow> (request \<times> kv_manager) result" where
  "km_cache_blocks env r computed_tokens km =
     (if km_enable_caching km
      then rbind (coord_cache_blocks env r computed_tokens (coordinator_of km)) (\<lambda>(r, c). Inr (r, km\<lparr>coordinator_of := c\<rparr>))
      else Inr (r, km))"

definition km_take_new_block_ids :: "kv_manager \<Rightarrow> int list \<times> kv_manager" where
  "km_take_new_block_ids km =
     (let c = coordinator_of km; taken = map take_new_block_ids (single_type_managers c)
      in (concat (map fst taken), km\<lparr>coordinator_of := c\<lparr>single_type_managers := map snd taken\<rparr>\<rparr>))"

definition km_new_step_starts :: "kv_manager \<Rightarrow> kv_manager" where
  "km_new_step_starts km = km\<lparr>coordinator_of := coord_new_step_starts (coordinator_of km)\<rparr>"

section \<open>The invariant\<close>

text \<open>
  The reference count of every block is the number of entries for it in the block lists of
  all requests, over all managers; the free queue holds the blocks with count 0.
\<close>

definition coord_inv :: "coordinator \<Rightarrow> bool" where
  "coord_inv c \<longleftrightarrow> (\<exists>xs. pool_inv (coord_pool c) xs) \<and> (\<forall>m \<in> set (single_type_managers c). mgr_ok (coord_pool c) m \<and> spec_valid (mgr_spec m))
     \<and> (\<forall>b \<in> usable (coord_pool c). ref_cnt (heap (coord_pool c) b) = total_occ (single_type_managers c) b)"

lemma coord_inv_ledger: "coord_inv c \<Longrightarrow> \<exists>xs. ledger (coord_pool c) xs (single_type_managers c)"
  by (auto simp: coord_inv_def ledger_def)

lemma same_config_valid:
  "list_all2 same_config ms ms' \<Longrightarrow> \<forall>m \<in> set ms. spec_valid (mgr_spec m) \<Longrightarrow> \<forall>m \<in> set ms'. spec_valid (mgr_spec m)"
  by (induction rule: list_all2_induct) (auto simp: same_config_def)

lemma coord_inv_tracks:
  assumes "coord_inv c" and "ledger_tracks (coord_pool c) (single_type_managers c) p ms" and "pool_inv p xs"
  shows "coord_inv (c\<lparr>single_type_managers := ms, coord_pool := p\<rparr>)"
proof -
  have "\<forall>m \<in> set ms. spec_valid (mgr_spec m)" using same_config_valid [of "single_type_managers c" ms] assms(1,2)
    by (auto simp: coord_inv_def ledger_tracks_def)
  moreover have "ref_cnt (heap p b) = total_occ ms b" if "b \<in> usable (coord_pool c)" for b
    using assms(1,2) that by (fastforce simp: coord_inv_def ledger_tracks_def)
  ultimately show ?thesis using assms by (auto simp: coord_inv_def ledger_tracks_def)
qed

lemma with_managers_inv:
  assumes "accounted f (\<lambda>p. p) pre" and "coord_inv c" and "\<forall>j < length (single_type_managers c). pre j (coord_pool c) (single_type_managers c ! j)"
    and "with_managers f c = Inr (as, c')"
  shows "coord_inv c'" "ledger_tracks (coord_pool c) (single_type_managers c) (coord_pool c') (single_type_managers c')"
proof -
  obtain xs where l: "ledger (coord_pool c) xs (single_type_managers c)" using coord_inv_ledger [OF assms(2)] by blast
  obtain ms p where e: "each_manager f 0 (single_type_managers c) (coord_pool c) = Inr (as, ms, p)" "c' = c\<lparr>single_type_managers := ms, coord_pool := p\<rparr>"
    using assms(4) by (auto simp: with_managers_def rbind_eq_Inr)
  obtain xs' where "pool_inv p xs'" "ledger_tracks (coord_pool c) (single_type_managers c) p ms"
    using accounted.each_keeps [OF assms(1) l _ e(1)] assms(3) by auto
  then show "coord_inv c'" "ledger_tracks (coord_pool c) (single_type_managers c) (coord_pool c') (single_type_managers c')"
    using coord_inv_tracks [OF assms(2)] e(2) by simp_all
qed

interpretation need_all: accounted "need_of rid n hits enc t main" "\<lambda>p. p" "\<lambda>_ _ _. True"
proof (unfold_locales, goal_cases)
  case (1 p xs m i a m' p')
  have "(m' = m \<or> m' = default_req rid m) \<and> p' = p"
  proof -
    have "\<exists>k h t' main' n'. get_num_blocks_to_allocate rid n' h t' main' m p = Inr (k, m') \<and> p' = p"
      using 1(3) by (cases "is_cross m") (auto simp: need_of_def rbind_eq_Inr, blast+)
    then obtain k h t' main' n' where "get_num_blocks_to_allocate rid n' h t' main' m p = Inr (k, m')" "p' = p" by blast
    then show ?thesis by (auto simp: get_num_blocks_to_allocate_def mamba_get_num_blocks_to_allocate_def rbind_eq_Inr Let_def split: layer_spec.splits if_splits)
  qed
  then show ?case using booksD [OF 1(1)] tracks_refl tracks_default by auto
qed simp

interpretation common_all: accounted "\<lambda>_ m p. let (n, m) = get_num_common_prefix_blocks rid m p in Inr (n, m, p)" "\<lambda>p. p" "\<lambda>_ _ _. True"
proof (unfold_locales, goal_cases)
  case (1 p xs m i a m' p')
  then have "(m' = m \<or> m' = default_req rid m) \<and> p' = p" by (auto simp: get_num_common_prefix_blocks_def Let_def split: if_splits)
  then show ?case using booksD [OF 1(1)] tracks_refl tracks_default by auto
qed simp

lemma coord_free_inv: "coord_inv c \<Longrightarrow> coord_free rid c = Inr c' \<Longrightarrow> coord_inv c'"
  using with_managers_inv(1) [OF free_all.accounted_axioms] by (auto simp: coord_free_def rbind_eq_Inr)

lemma coord_skip_inv:
  assumes "coord_inv c" and "coord_remove_skipped_blocks rid t c = Inr c'"
  shows "coord_inv c'" "ledger_tracks (coord_pool c) (single_type_managers c) (coord_pool c') (single_type_managers c')"
  using with_managers_inv [OF skip_all.accounted_axioms assms(1)] assms(2) by (auto simp: coord_remove_skipped_blocks_def rbind_eq_Inr)

lemma coord_need_inv:
  assumes "coord_inv c" and "coord_get_num_blocks_to_allocate rid n hits enc t main c = Inr (k, c')"
  shows "coord_inv c'" "ledger_tracks (coord_pool c) (single_type_managers c) (coord_pool c') (single_type_managers c')"
  using with_managers_inv [OF need_all.accounted_axioms assms(1)] assms(2) by (auto simp: coord_get_num_blocks_to_allocate_def rbind_eq_Inr)

lemma coord_alloc_inv:
  assumes "coord_inv c" and "0 < main" and "coord_allocate_new_blocks rid n main enc c = Inr (bs, c')"
  shows "coord_inv c'"
  using with_managers_inv(1) [OF alloc_all.accounted_axioms [of rid enc n main] assms(1)] assms(2,3)
  unfolding coord_allocate_new_blocks_def by blast

lemma coord_common_inv: "coord_inv c \<Longrightarrow> coord_get_num_common_prefix_blocks rid c = Inr (ns, c') \<Longrightarrow> coord_inv c'"
  using with_managers_inv(1) [OF common_all.accounted_axioms] by (auto simp: coord_get_num_common_prefix_blocks_def split: coordinator_class.splits)

lemma coord_cache_inv:
  assumes "coord_inv c" and "coord_cache_blocks env r t c = Inr (r', c')"
  shows "coord_inv c'"
proof -
  let ?f = "\<lambda>_ m (r, p). rbind (cache_blocks env r t m p) (\<lambda>(r, m, p). Inr ((), m, (r, p)))"
  obtain xs where l: "ledger (snd (r, coord_pool c)) xs (single_type_managers c)" using coord_inv_ledger [OF assms(1)] by auto
  obtain as ms p where e: "each_manager ?f 0 (single_type_managers c) (r, coord_pool c) = Inr (as, ms, (r', p))" "c' = c\<lparr>single_type_managers := ms, coord_pool := p\<rparr>"
    using assms(2) by (auto simp: coord_cache_blocks_def rbind_eq_Inr)
  then show ?thesis using cache_all.each_keeps [OF l _ e(1)] coord_inv_tracks [OF assms(1)] by auto
qed

text \<open>The hits passed to an allocation: for every manager a list of blocks, none twice, within the computed tokens.\<close>

definition hits_ok :: "coordinator \<Rightarrow> block_ref list list \<Rightarrow> int \<Rightarrow> bool" where
  "hits_ok c hits t \<longleftrightarrow> length hits = length (single_type_managers c) \<and> 0 \<le> t
     \<and> (\<forall>i < length hits. held_ok (coord_pool c) (hits ! i) \<and> int (length (hits ! i)) * int (mgr_block_size (single_type_managers c ! i)) \<le> t)"

lemma skipped_le:
  assumes "spec_valid (mgr_spec m)" and "0 \<le> t"
  shows "get_num_skipped_tokens m t \<le> t"
proof (cases "mgr_spec m")
  case (ChunkedLocalAttentionSpec s)
  then show ?thesis using assms le_div_iff_mult_le [of "attention_chunk_size s" "t div attention_chunk_size s" t]
    by (simp add: get_num_skipped_tokens_def spec_valid_def)
qed (use assms in \<open>auto simp: get_num_skipped_tokens_def spec_valid_def\<close>)

lemma hits_ok_fits:
  assumes "hits_ok c hits (num_local + num_external)" and "coord_inv c" and "j < length (single_type_managers c)"
  shows "hit_fits rid hits num_local num_external j (coord_pool c) (single_type_managers c ! j)"
  using assms skipped_le [of "single_type_managers c ! j" "num_local + num_external"]
  by (auto simp: hits_ok_def hit_fits_def fits_computed_def coord_inv_def)

lemma hits_ok_tracks:
  assumes "hits_ok c hits t" and "ledger_tracks (coord_pool c) (single_type_managers c) (coord_pool c') (single_type_managers c')"
  shows "hits_ok c' hits t"
proof -
  have u: "usable (coord_pool c') = usable (coord_pool c)" "list_all2 same_config (single_type_managers c) (single_type_managers c')"
    using assms(2) by (auto simp: ledger_tracks_def)
  then show ?thesis using assms(1) held_ok_usable [OF u(1)] by (auto simp: hits_ok_def list_all2_conv_all_nth same_config_def)
qed

lemma coord_prefix_inv:
  assumes "coord_inv c" and "hits_ok c hits (num_local + num_external)" and "coord_allocate_new_computed_blocks rid hits num_local num_external c = Inr c'"
  shows "coord_inv c'"
proof -
  obtain as where w: "with_managers (\<lambda>i m p. rbind (py_index hits (int i)) (\<lambda>hit. no_result (allocate_new_computed_blocks rid hit num_local num_external m p))) c = Inr (as, c')"
    using assms(3) by (auto simp: coord_allocate_new_computed_blocks_def rbind_eq_Inr)
  show ?thesis by (rule with_managers_inv(1) [OF prefix_all.accounted_axioms assms(1) _ w]) (use hits_ok_fits [OF assms(2,1)] in blast)
qed


section \<open>Reachable states\<close>

lemma coord_inv_pool:
  assumes "coord_inv c" and "pool_inv p xs" and "usable p = usable (coord_pool c)"
    and "\<And>b. ref_cnt (heap p b) = ref_cnt (heap (coord_pool c) b)"
  shows "coord_inv (c\<lparr>coord_pool := p\<rparr>)"
  using assms mgr_ok_usable [OF assms(3)] by (auto simp: coord_inv_def)

lemma coord_inv_managers:
  assumes "coord_inv c" and "\<And>m. mgr_ok (coord_pool c) m \<Longrightarrow> mgr_ok (coord_pool c) (f m) \<and> mgr_spec (f m) = mgr_spec m \<and> occ (f m) = occ m"
  shows "coord_inv (c\<lparr>single_type_managers := map f (single_type_managers c)\<rparr>)"
proof -
  have "total_occ (map f ms) b = total_occ ms b" if "\<forall>m \<in> set ms. mgr_ok (coord_pool c) m" for ms b
    using that assms(2) by (induction ms) auto
  then show ?thesis using assms by (auto simp: coord_inv_def)
qed

text \<open>The formats a configuration may name: valid ones, with positive block sizes and without sink blocks.\<close>

definition group_spec_ok :: "kv_cache_group_spec \<Rightarrow> bool" where
  "group_spec_ok g = (case group_spec g of
     LayerSpec s \<Rightarrow> spec_valid s \<and> 0 < block_size_of s \<and> (case s of SinkFullAttentionSpec _ \<Rightarrow> False | _ \<Rightarrow> True)
   | _ \<Rightarrow> True)"

lemma make_managers_new:
  assumes "make_managers caching dcp pcp i gs p = Inr (ss, ms, p')" and "\<forall>g \<in> set gs. group_spec_ok g" and "pool_inv p xs" and "0 < dcp" "0 < pcp"
  shows "p' = p \<and> list_all2 (\<lambda>s m. spec_valid s \<and> 0 < block_size_of s \<and> (\<exists>j. m = SingleTypeKVCacheManager s p caching j dcp pcp)) ss ms"
  using assms
proof (induction gs arbitrary: i ss ms)
  case (Cons g gs)
  obtain s m p1 ss1 ms1 where c: "group_spec g = LayerSpec s" "get_manager_for_kv_cache_spec s caching (int i) dcp pcp p = Inr (m, p1)"
      "make_managers caching dcp pcp (Suc i) gs p1 = Inr (ss1, ms1, p')" "ss = s # ss1" "ms = m # ms1"
    using Cons.prems(1) by (auto simp: rbind_eq_Inr split: kv_spec.splits)
  have s: "spec_valid s" "0 < block_size_of s" "m = SingleTypeKVCacheManager s p caching (int i) dcp pcp" "p1 = p"
    using Cons.prems(2) c(1,2) by (auto simp: group_spec_ok_def get_manager_for_kv_cache_spec_def Let_def split: option.splits layer_spec.splits)
  then show ?case using Cons.IH [of "Suc i" ss1 ms1] c(3,4,5) Cons.prems(2-5) by auto
qed simp

lemma new_coordinator_inv:
  assumes "KVCacheCoordinator cls config eagle caching ev ih dcp pcp hs = Inr c" and "\<forall>g \<in> set (kv_cache_groups config). group_spec_ok g" and "0 < dcp" "0 < pcp"
  shows "coord_inv c"
proof -
  let ?n = "nat (config_num_blocks config)"
  obtain p ms ss p' where b: "BlockPool ?n caching hs ev ih = Inr p" "make_managers caching dcp pcp 0 (kv_cache_groups config) p = Inr (ss, ms, p')"
     "coord_pool c = p'" "single_type_managers c = ms"
    using assms(1) by (auto simp: KVCacheCoordinator_def rbind_eq_Inr)
  have "0 < ?n" using b(1) by (auto simp: BlockPool_def rbind_eq_Inr)
  then have p: "pool_inv p (map Blk [1..<?n])" "\<forall>i. ref_cnt (heap p (Blk i)) = 0" "usable p = Blk ` {1..<?n}"
    using BlockPool_spec [of ?n caching hs ev ih] b(1) by auto
  have m: "p' = p" "list_all2 (\<lambda>s m. spec_valid s \<and> 0 < block_size_of s \<and> (\<exists>j. m = SingleTypeKVCacheManager s p caching j dcp pcp)) ss ms"
    using make_managers_new [OF b(2) assms(2) p(1) assms(3,4)] by auto
  have "mgr_ok p x \<and> spec_valid (mgr_spec x) \<and> (\<forall>a. occ x a = 0)" if "x \<in> set ms" for x
  proof -
    obtain s j where "spec_valid s" "0 < block_size_of s" "x = SingleTypeKVCacheManager s p caching j dcp pcp"
      using m(2) \<open>x \<in> set ms\<close> by (auto simp: list_all2_conv_all_nth in_set_conv_nth)
    then show ?thesis using new_manager_ok [OF p(1), of s dcp pcp caching j] assms(3,4) by (simp add: SingleTypeKVCacheManager_def)
  qed
  moreover from this have "\<forall>x \<in> set ms. occ x a = 0" for a by blast
  then have "total_occ ms a = 0" for a by (induction ms) auto
  ultimately show ?thesis using p b(3,4) m(1) by (auto simp: coord_inv_def)
qed

lemma coordinator_frame:
  "coord_inv (c\<lparr>coord_block_size := x\<rparr>) = coord_inv c" "coord_inv (c\<lparr>attention_groups := y, lcm_block_size := z\<rparr>) = coord_inv c"
  by (simp_all add: coord_inv_def)

lemma get_kv_cache_coordinator_inv:
  assumes "get_kv_cache_coordinator config eagle caching ev ih dcp pcp hs = Inr c" and "\<forall>g \<in> set (kv_cache_groups config). group_spec_ok g" and "0 < dcp" "0 < pcp"
  shows "coord_inv c"
proof -
  obtain cls b c0 where "KVCacheCoordinator cls config eagle b ev ih dcp pcp hs = Inr c0"
     "c = c0 \<or> UnitaryKVCacheCoordinator_init c0 = Inr c \<or> HybridKVCacheCoordinator_init c0 = Inr c"
    using assms(1) by (auto simp: get_kv_cache_coordinator_def rbind_eq_Inr split: if_splits)
  moreover from this(1) have "coord_inv c0" by (rule new_coordinator_inv) (use assms in auto)
  ultimately show ?thesis
    by (auto simp: UnitaryKVCacheCoordinator_init_def HybridKVCacheCoordinator_init_def verify_and_split_kv_cache_groups_def
        rbind_eq_Inr Let_def coordinator_frame split: list.splits if_splits)
qed

text \<open>
  The calls of the scheduler, with the rules it observes: it passes token counts that are not
  negative and prefix hits that fit the computed tokens, and evicts ids of the pool.
\<close>

inductive km_step :: "hash_env \<Rightarrow> kv_manager \<Rightarrow> kv_manager \<Rightarrow> bool" for env where
  Lookup: "get_computed_blocks r km = Inr (blocks, n, km') \<Longrightarrow> km_step env km km'"
| Allocate: "allocate_slots env r new ncomp blocks look ext delay enc km = Inr (res, r', km') \<Longrightarrow> 0 \<le> new \<Longrightarrow> 0 \<le> ncomp \<Longrightarrow> 0 \<le> ext \<Longrightarrow>
    0 < km_max_model_len km \<Longrightarrow>
    hits_ok (coordinator_of km) (blocks_by_group (case blocks of None \<Rightarrow> empty_kv_cache_blocks km | Some b \<Rightarrow> b)) (num_computed_tokens r + ncomp + ext) \<Longrightarrow>
    0 \<le> num_computed_tokens r \<Longrightarrow> km_step env km km'"
| Free: "km_free r km = Inr km' \<Longrightarrow> km_step env km km'"
| Skip: "km_remove_skipped_blocks rid t km = Inr km' \<Longrightarrow> km_step env km km'"
| Evict: "\<forall>i \<in> set ids. 0 \<le> i \<and> i < int (num_gpu_blocks (km_pool km)) \<Longrightarrow> km_evict_blocks ids km = Inr km' \<Longrightarrow> km_step env km km'"
| Reset: "km_reset_prefix_cache km = Inr (b, km') \<Longrightarrow> km_step env km km'"
| Common: "km_get_num_common_prefix_blocks rid km = Inr (ns, km') \<Longrightarrow> km_step env km km'"
| Cache: "km_cache_blocks env r t km = Inr (r', km') \<Longrightarrow> km_step env km km'"
| Events: "km_step env km (snd (km_take_events km))"
| New_ids: "km_step env km (snd (km_take_new_block_ids km))"
| New_step: "km_step env km (km_new_step_starts km)"
| Stats: "km_step env km (snd (make_prefix_cache_stats km))"

inductive km_reachable :: "hash_env \<Rightarrow> kv_manager \<Rightarrow> bool" for env where
  Init: "KVCacheManager config max_len hs caching eagle ls ev ih dcp pcp = Inr km \<Longrightarrow> \<forall>g \<in> set (kv_cache_groups config). group_spec_ok g \<Longrightarrow>
    0 < dcp \<Longrightarrow> 0 < pcp \<Longrightarrow> km_reachable env km"
| Step: "km_reachable env km \<Longrightarrow> km_step env km km' \<Longrightarrow> km_reachable env km'"

inductive_cases km_stepE: "km_step env km km'"

lemma allocate_slots_inv:
  assumes r: "allocate_slots env r new ncomp blocks look ext delay enc km = Inr (res, r', km')"
    and pos: "0 \<le> new" "0 \<le> ncomp" "0 \<le> ext" "0 < km_max_model_len km"
    and hits: "hits_ok (coordinator_of km) (blocks_by_group (case blocks of None \<Rightarrow> empty_kv_cache_blocks km | Some b \<Rightarrow> b)) (num_computed_tokens r + ncomp + ext)"
    and computed: "0 \<le> num_computed_tokens r"
    and inv: "coord_inv (coordinator_of km)"
  shows "coord_inv (coordinator_of km')"
proof -
  let ?b = "case blocks of None \<Rightarrow> empty_kv_cache_blocks km | Some b \<Rightarrow> b"
  let ?local = "num_computed_tokens r + ncomp" and ?rid = "request_id r"
  define t where "t = min (?local + ext) (km_max_model_len km)"
  let ?need = "min (t + new + look) (km_max_model_len km)"
  have nz: "\<not> (new = 0 \<and> ext = 0)" using r by (auto simp: allocate_slots_def)
  have main: "0 < t + new" using nz pos computed by (auto simp: t_def)
  obtain c1 c2 k where c1: "coord_remove_skipped_blocks ?rid t (coordinator_of km) = Inr c1"
     and c2: "coord_get_num_blocks_to_allocate ?rid ?need (blocks_by_group ?b) enc (?local + ext) (t + new) c1 = Inr (k, c2)"
     and rest: "(if get_num_free_blocks (coord_pool c2) < k then Inr (None, r, km\<lparr>coordinator_of := c2\<rparr>)
        else rbind (if \<not> is_shared_empty ?b \<or> 0 < ext then coord_allocate_new_computed_blocks ?rid (blocks_by_group ?b) ?local ext c2 else Inr c2) (\<lambda>c.
          rbind (coord_allocate_new_blocks ?rid ?need (t + new) enc c) (\<lambda>(new_blocks, c).
          if \<not> km_enable_caching km \<or> delay then Inr (Some (create_kv_cache_blocks new_blocks km), r, km\<lparr>coordinator_of := c\<rparr>)
          else rbind (coord_cache_blocks env r (min (t + new) (int (num_tokens r))) c) (\<lambda>(r, c).
            Inr (Some (create_kv_cache_blocks new_blocks km), r, km\<lparr>coordinator_of := c\<rparr>))))) = Inr (res, r', km')"
    using r nz unfolding allocate_slots_def Let_def t_def [symmetric] by (auto simp: rbind_eq_Inr [of "coord_remove_skipped_blocks _ _ _"] rbind_eq_Inr [of "coord_get_num_blocks_to_allocate _ _ _ _ _ _ _"])
  note S1 = coord_skip_inv [OF inv c1]
  note S2 = coord_need_inv [OF S1(1) c2]
  have h2: "hits_ok c2 (blocks_by_group ?b) (?local + ext)" by (rule hits_ok_tracks [OF hits_ok_tracks [OF hits S1(2)] S2(2)])
  show ?thesis
  proof (cases "get_num_free_blocks (coord_pool c2) < k")
    case True
    then show ?thesis using rest S2(1) by auto
  next
    case False
    then obtain c3 bs c4 where c3: "(if \<not> is_shared_empty ?b \<or> 0 < ext then coord_allocate_new_computed_blocks ?rid (blocks_by_group ?b) ?local ext c2 else Inr c2) = Inr c3"
      and c4: "coord_allocate_new_blocks ?rid ?need (t + new) enc c3 = Inr (bs, c4)"
      and km': "coordinator_of km' = c4 \<or> (\<exists>r''. coord_cache_blocks env r (min (t + new) (int (num_tokens r))) c4 = Inr (r'', coordinator_of km'))"
      using rest by (auto simp: rbind_eq_Inr split: if_splits)
    have "coord_inv c3" using c3 coord_prefix_inv [OF S2(1) h2] S2(1) by (auto split: if_splits)
    then have "coord_inv c4" by (rule coord_alloc_inv [OF _ main c4])
    then show ?thesis using km' coord_cache_inv by auto
  qed
qed

lemma km_step_inv:
  assumes "km_step env km km'" and inv: "coord_inv (coordinator_of km)"
  shows "coord_inv (coordinator_of km')"
  using assms(1)
proof cases
  case (Lookup r blocks n)
  then have "coordinator_of km' = coordinator_of km" by (auto simp: get_computed_blocks_def rbind_eq_Inr split: if_splits option.splits)
  then show ?thesis using inv by simp
next
  case (Allocate r new ncomp blocks look ext delay enc res r')
  then show ?thesis using allocate_slots_inv [OF Allocate inv] by simp
next
  case (Free r)
  then show ?thesis using coord_free_inv [OF inv] by (auto simp: km_free_def rbind_eq_Inr)
next
  case (Skip rid t)
  then show ?thesis using coord_skip_inv(1) [OF inv] by (auto simp: km_remove_skipped_blocks_def rbind_eq_Inr)
next
  case (Evict ids)
  obtain xs where "pool_inv (km_pool km) xs" using inv by (auto simp: coord_inv_def)
  then obtain p where "evict_blocks ids (km_pool km) = Inr p" "pool_inv p xs" "num_gpu_blocks p = num_gpu_blocks (km_pool km)"
      "\<forall>a. ref_cnt (heap p a) = ref_cnt (heap (km_pool km) a)" using evict_blocks_spec Evict(1) by blast
  then show ?thesis using Evict(2) coord_inv_pool [OF inv, of p] by (auto simp: km_evict_blocks_def with_pool_def usable_def)
next
  case (Reset b)
  obtain xs where p: "pool_inv (km_pool km) xs" using inv by (auto simp: coord_inv_def)
  define q where "q = snd (reset_prefix_cache (km_pool km))"
  have "coord_inv ((coordinator_of km)\<lparr>coord_pool := q\<rparr>)"
    using coord_inv_pool [OF inv, of q xs] reset_prefix_cache_spec(2,5) [OF p] by (simp add: q_def)
  moreover have "coordinator_of km' = (coordinator_of km)\<lparr>coord_pool := q\<rparr>"
    using Reset by (auto simp: km_reset_prefix_cache_def with_pool_def q_def Let_def split: prod.splits if_splits option.splits)
  ultimately show ?thesis by simp
next
  case (Common rid ns)
  then show ?thesis using coord_common_inv [OF inv] by (auto simp: km_get_num_common_prefix_blocks_def rbind_eq_Inr)
next
  case (Cache r t r')
  then show ?thesis using coord_cache_inv [OF inv] inv by (auto simp: km_cache_blocks_def rbind_eq_Inr split: if_splits)
next
  case Events
  obtain xs where p: "pool_inv (km_pool km) xs" using inv by (auto simp: coord_inv_def)
  have "fq_rep ((km_pool km)\<lparr>kv_event_queue := []\<rparr>) xs = fq_rep (km_pool km) xs" by (rule fq_rep_links) simp_all
  then have "pool_inv (snd (take_events (km_pool km))) xs"
    using p by (simp add: take_events_def pool_inv_def static_ok_def refs_ok_def cache_ok_def usable_def)
  then have "coord_inv ((coordinator_of km)\<lparr>coord_pool := snd (take_events (km_pool km))\<rparr>)"
    by (rule coord_inv_pool [OF inv]) (simp_all add: take_events_def usable_def)
  then show ?thesis using Events by (simp add: km_take_events_def with_pool_def case_prod_unfold Let_def)
next
  case New_ids
  have "coord_inv ((coordinator_of km)\<lparr>single_type_managers := map (\<lambda>m. snd (take_new_block_ids m)) (single_type_managers (coordinator_of km))\<rparr>)"
    by (rule coord_inv_managers [OF inv]) (simp add: take_new_block_ids_def)
  then show ?thesis using New_ids by (simp add: km_take_new_block_ids_def Let_def comp_def)
next
  case New_step
  have "coord_inv (coord_new_step_starts (coordinator_of km))" unfolding coord_new_step_starts_def
    by (rule coord_inv_managers [OF inv]) (auto simp: new_step_starts_def split: layer_spec.split)
  then show ?thesis using New_step by (simp add: km_new_step_starts_def)
next
  case Stats
  then show ?thesis using inv by (simp add: make_prefix_cache_stats_def)
qed

lemma km_reachable_inv: "km_reachable env km \<Longrightarrow> coord_inv (coordinator_of km)"
proof (induction rule: km_reachable.induct)
  case (Init config max_len hs caching eagle ls ev ih dcp pcp km)
  then show ?case using get_kv_cache_coordinator_inv by (fastforce simp: KVCacheManager_def rbind_eq_Inr)
next
  case (Step km km')
  then show ?case using km_step_inv by blast
qed

text \<open>How many requests hold a block, over all managers.\<close>

definition holders :: "block_ref \<Rightarrow> kv_manager \<Rightarrow> int" where
  "holders b km = (\<Sum>m\<leftarrow>single_type_managers (coordinator_of km). \<Sum>(_, bs)\<leftarrow>req_to_blocks m. int (count_list bs b))"

lemma holders_total: "holders b km = total_occ (single_type_managers (coordinator_of km)) b"
proof -
  have "int (\<Sum>(_, bs)\<leftarrow>d. count_list bs b) = (\<Sum>(_, bs)\<leftarrow>d. int (count_list bs b))" for d :: "(string \<times> block_ref list) list"
    by (induction d) auto
  then have "int (occ m b) = (\<Sum>(_, bs)\<leftarrow>req_to_blocks m. int (count_list bs b))" for m by (simp add: occ_def)
  then show ?thesis by (simp add: holders_def total_occ_def)
qed


section \<open>Allocation never runs out of blocks after the check\<close>

text \<open>One request, its prefix hits and the numbers of tokens, as \<^verbatim>\<open>allocate_slots\<close> passes them on.\<close>

record alloc_args =
  a_rid :: string
  a_hits :: "block_ref list list"
  a_local :: int
  a_external :: int
  a_slots :: int
  a_encoder :: int
  a_prefix :: bool

definition simple_manager :: "manager \<Rightarrow> bool" where
  "simple_manager m \<longleftrightarrow> \<not> is_aligned_mamba m \<and> (\<forall>s. mgr_spec m = MambaSpec s \<longrightarrow> mgr_block_size m = spec_block_size s)"

definition arg_ready :: "alloc_args \<Rightarrow> block_pool \<Rightarrow> block_ref list \<Rightarrow> manager \<Rightarrow> bool" where
  "arg_ready a p hit m \<longleftrightarrow>
     (if a_prefix a then computed_ready p (a_rid a) hit (a_local a) (a_external a) m
      else hit = [] \<and> (in_first_phase (a_rid a) m \<longrightarrow> skipped_blocks m (a_local a + a_external a) \<le> length (blocks_of_req m (a_rid a))))"

definition first_need :: "alloc_args \<Rightarrow> block_ref list \<Rightarrow> block_ref list \<Rightarrow> manager \<Rightarrow> int" where
  "first_need a xs hit m = (if a_prefix a then computed_need xs (a_rid a) hit (a_local a) (a_external a) m else 0)"

definition first_length :: "alloc_args \<Rightarrow> block_ref list \<Rightarrow> manager \<Rightarrow> int" where
  "first_length a hit m = (if a_prefix a then prefix_length (a_rid a) hit (a_local a) (a_external a) m else int (length (blocks_of_req m (a_rid a))))"

definition second_need :: "alloc_args \<Rightarrow> block_ref list \<Rightarrow> manager \<Rightarrow> int" where
  "second_need a hit m = max 0 (cdiv (demand m (a_slots a) (a_encoder a)) (int (mgr_block_size m)) - first_length a hit m)"

lemma first_need_nonneg:
  assumes "mgr_ok p m" and "arg_ready a p hit m" and "0 \<le> a_local a + a_external a"
  shows "0 \<le> first_need a xs hit m"
  using external_blocks_nonneg [OF assms(1), of "a_rid a" hit "a_local a" "a_external a"] assms(2,3)
  by (auto simp: first_need_def computed_need_def arg_ready_def computed_ready_def split: if_splits)

lemma first_need_mono: "set xs \<subseteq> set ys \<Longrightarrow> first_need a xs hit m \<le> first_need a ys hit m"
proof -
  assume "set xs \<subseteq> set ys"
  then have "length (filter (\<lambda>b. b \<in> set xs) l) \<le> length (filter (\<lambda>b. b \<in> set ys) l)" for l
    by (induction l) auto
  then show ?thesis by (simp add: first_need_def computed_need_def)
qed

lemma cross_need: "is_cross m \<Longrightarrow> get_num_blocks_to_allocate rid n [] 0 n m p = rbind (base_get_num_blocks_to_allocate rid n [] 0 m p) (\<lambda>k. Inr (k, m))"
  by (auto simp: is_cross_def get_num_blocks_to_allocate_def split: layer_spec.splits)

lemma base_need_no_hit:
  assumes "in_first_phase rid m \<or> is_cross m \<longrightarrow> skipped_blocks m t \<le> length (blocks_of_req m rid)"
  shows "base_get_num_blocks_to_allocate rid n [] t m p = Inr (max 0 (cdiv n (int (mgr_block_size m)) - int (length (blocks_of_req m rid))))"
proof (cases "num_cached_block m rid = None")
  case True
  then have "skipped_blocks m t \<le> length (blocks_of_req m rid)" using assms by (auto simp: in_first_phase_def)
  then have "get_num_skipped_tokens m t div int (mgr_block_size m) \<le> int (length (blocks_of_req m rid))" by (simp add: skipped_blocks_def nat_le_iff)
  then show ?thesis using True by (simp add: base_get_num_blocks_to_allocate_def Let_def get_num_evictable_blocks_def max_def)
next
  case False
  then show ?thesis by (simp add: base_get_num_blocks_to_allocate_def Let_def max.commute)
qed

lemma base_need_returns:
  assumes "computed_ready p rid hit num_local num_external m" and "\<not> is_cross m"
  shows "\<exists>n. base_get_num_blocks_to_allocate rid t hit (num_local + num_external) m p = Inr n"
  using assms by (cases "num_cached_block m rid = None") (auto simp: base_get_num_blocks_to_allocate_def computed_ready_def in_first_phase_def Let_def)

lemma base_need_nonneg: "base_get_num_blocks_to_allocate rid t hit c m p = Inr n \<Longrightarrow> 0 \<le> n"
  by (auto simp: base_get_num_blocks_to_allocate_def Let_def get_num_evictable_blocks_def rbind_eq_Inr split: if_splits)

lemma need_mamba_or_base:
  assumes "simple_manager m" and "\<not> is_cross m" and "\<exists>k. base_get_num_blocks_to_allocate rid (demand m n enc) hit t m p = Inr k"
  shows "\<exists>k. get_num_blocks_to_allocate rid n hit t main m p = Inr (k, m)
     \<and> (k = int (num_gpu_blocks p) + 1 \<or> base_get_num_blocks_to_allocate rid (demand m n enc) hit t m p = Inr k)"
  using assms by (cases "mgr_spec m") (auto simp: simple_manager_def is_aligned_mamba_def get_num_blocks_to_allocate_def
      mamba_get_num_blocks_to_allocate_def demand_def is_cross_def Let_def)

lemma demand_ge:
  assumes "spec_valid (mgr_spec m)" and "\<not> is_cross m"
  shows "n \<le> demand m n enc"
  using assms by (cases "mgr_spec m") (auto simp: demand_def is_cross_def spec_valid_def)

text \<open>The number one manager reports is enough for both phases, or larger than the pool.\<close>

lemma manager_need:
  assumes b: "books p xs m" and s: "simple_manager m" "spec_valid (mgr_spec m)" and ready: "arg_ready a p hit m" and idx: "i < length (a_hits a)" "a_hits a ! i = hit"
    and t: "a_local a + a_external a \<le> a_slots a" and cross: "is_cross m \<longrightarrow> hit = []"
  shows "\<exists>k. need_of (a_rid a) (a_slots a) (a_hits a) (a_encoder a) (a_local a + a_external a) main i m p = Inr (k, m, p) \<and> 0 \<le> k
     \<and> (int (num_gpu_blocks p) < k \<or> first_need a xs hit m + second_need a hit m \<le> k)"
proof (cases "is_cross m")
  case True
  then obtain s where sp: "mgr_spec m = CrossAttentionSpec s" by (auto simp: is_cross_def split: layer_spec.splits)
  have z: "skipped_blocks m 0 = 0" "demand m (a_slots a) (a_encoder a) = a_encoder a" "first_need a xs hit m = 0"
      "first_length a hit m = int (length (blocks_of_req m (a_rid a)))"
    using True by (simp_all add: skipped_blocks_def get_num_skipped_tokens_def sp demand_def first_need_def computed_need_def in_first_phase_def
        first_length_def prefix_length_def)
  have "base_get_num_blocks_to_allocate (a_rid a) (a_encoder a) [] 0 m p = Inr (second_need a hit m)"
    using base_need_no_hit [of "a_rid a" m 0] z by (simp add: second_need_def)
  then show ?thesis using True cross_need [OF True, of "a_rid a" "a_encoder a" p] z(3)
    by (auto simp: need_of_def second_need_def)
next
  case False
  let ?t = "a_local a + a_external a" and ?d = "demand m (a_slots a) (a_encoder a)"
  have td: "?t \<le> ?d" using demand_ge [OF s(2) False] t by (rule order_trans [rotated])
  have base: "\<exists>k. base_get_num_blocks_to_allocate (a_rid a) ?d hit ?t m p = Inr k \<and> first_need a xs hit m + second_need a hit m \<le> k"
  proof (cases "a_prefix a")
    case True
    then have r: "computed_ready p (a_rid a) hit (a_local a) (a_external a) m" using ready by (simp add: arg_ready_def)
    then obtain k where k: "base_get_num_blocks_to_allocate (a_rid a) ?d hit ?t m p = Inr k" using base_need_returns False by blast
    from base_need_covers [OF b r False td k] True k show ?thesis by (auto simp: first_need_def second_need_def first_length_def)
  next
    case np: False
    then show ?thesis using ready base_need_no_hit [of "a_rid a" m ?t ?d p] False
      by (auto simp: arg_ready_def first_need_def second_need_def first_length_def in_first_phase_def)
  qed
  then obtain k0 where k0: "base_get_num_blocks_to_allocate (a_rid a) ?d hit ?t m p = Inr k0" "first_need a xs hit m + second_need a hit m \<le> k0" by blast
  obtain k where k: "get_num_blocks_to_allocate (a_rid a) (a_slots a) hit ?t main m p = Inr (k, m)" "k = int (num_gpu_blocks p) + 1 \<or> k = k0"
    using need_mamba_or_base [OF s(1) False, of "a_rid a" "a_slots a" "a_encoder a" hit ?t p main] k0(1) by auto
  have "need_of (a_rid a) (a_slots a) (a_hits a) (a_encoder a) ?t main i m p = Inr (k, m, p)"
    using False idx k(1) by (simp add: need_of_def py_index_cases)
  moreover have "0 \<le> k" using k(2) base_need_nonneg [OF k0(1)] by auto
  ultimately show ?thesis using k(2) k0(2) by auto
qed


definition sum_need :: "(block_ref list \<Rightarrow> manager \<Rightarrow> int) \<Rightarrow> block_ref list list \<Rightarrow> manager list \<Rightarrow> int" where
  "sum_need f hits ms = sum_list (map2 f hits ms)"

lemma sum_need_Cons [simp]: "sum_need f (h # hs) (m # ms) = f h m + sum_need f hs ms" "sum_need f [] [] = 0"
  by (simp_all add: sum_need_def)

lemma drop_index: "drop i xs = h # hs \<Longrightarrow> i < length xs \<and> xs ! i = h \<and> drop (Suc i) xs = hs"
  by (metis drop_eq_Nil2 drop_Suc list.discI list.sel(3) not_le_imp_less nth_via_drop tl_drop)

definition managers_ready :: "alloc_args \<Rightarrow> block_pool \<Rightarrow> block_ref list list \<Rightarrow> manager list \<Rightarrow> bool" where
  "managers_ready a p hits ms \<longleftrightarrow> list_all2 (\<lambda>hit m. simple_manager m \<and> spec_valid (mgr_spec m) \<and> mgr_ok p m \<and> arg_ready a p hit m
     \<and> (is_cross m \<longrightarrow> hit = [])) hits ms"

lemma managers_ready_usable:
  assumes "usable p' = usable p" and "managers_ready a p hits ms"
  shows "managers_ready a p' hits ms"
proof -
  have "arg_ready a p' hit m = arg_ready a p hit m" "mgr_ok p' m = mgr_ok p m" for hit m
    using mgr_ok_usable [OF assms(1)] held_ok_usable [OF assms(1)] by (simp_all add: arg_ready_def computed_ready_def fits_computed_def)
  then show ?thesis using assms(2) by (simp add: managers_ready_def)
qed

text \<open>The check: the sum of the needs, as long as it does not exceed the pool.\<close>

lemma need_loop:
  assumes "ledger p xs0 ms" and "managers_ready a p hits ms" and "drop i (a_hits a) = hits" and "a_local a + a_external a \<le> a_slots a" "0 \<le> a_local a + a_external a"
    and "pool_inv p xs"
  shows "\<exists>ks. each_manager (need_of (a_rid a) (a_slots a) (a_hits a) (a_encoder a) (a_local a + a_external a) main) i ms p = Inr (ks, ms, p)
     \<and> 0 \<le> sum_list ks \<and> (int (num_gpu_blocks p) < sum_list ks \<or> sum_need (\<lambda>h m. first_need a xs h m + second_need a h m) hits ms \<le> sum_list ks)"
  using assms(1-3)
proof (induction ms arbitrary: i hits xs0)
  case Nil
  then show ?case by (simp add: managers_ready_def sum_need_def)
next
  case (Cons m ms)
  obtain h hs where h: "hits = h # hs" using Cons.prems(2) by (cases hits) (auto simp: managers_ready_def)
  have R: "simple_manager m" "spec_valid (mgr_spec m)" "arg_ready a p h m" "is_cross m \<longrightarrow> h = []" "mgr_ok p m" "managers_ready a p hs ms"
    using Cons.prems(2) by (auto simp: h managers_ready_def)
  note ix = drop_index [OF Cons.prems(3) [unfolded h]]
  have b: "books p xs m" using ledger_books [OF Cons.prems(1)] assms(6) by (simp add: books_def)
  obtain k where k: "need_of (a_rid a) (a_slots a) (a_hits a) (a_encoder a) (a_local a + a_external a) main i m p = Inr (k, m, p)" "0 \<le> k"
      "int (num_gpu_blocks p) < k \<or> first_need a xs h m + second_need a h m \<le> k"
    using manager_need [OF b R(1-3) _ _ assms(4) R(4)] ix by blast
  have "ledger p xs0 ms" by (rule ledger_rest [OF Cons.prems(1) tracks_refl [OF R(5)]]) (use Cons.prems(1) in \<open>simp add: ledger_def\<close>)
  then obtain ks where ks: "each_manager (need_of (a_rid a) (a_slots a) (a_hits a) (a_encoder a) (a_local a + a_external a) main) (Suc i) ms p = Inr (ks, ms, p)"
     "0 \<le> sum_list ks" "int (num_gpu_blocks p) < sum_list ks \<or> sum_need (\<lambda>h m. first_need a xs h m + second_need a h m) hs ms \<le> sum_list ks"
    using Cons.IH [OF _ R(6)] ix by blast
  show ?case using k ks h by auto
qed

lemma computed_loop:
  assumes "ledger p xs ms" and "managers_ready a p hits ms" and "drop i (a_hits a) = hits" and "a_prefix a" and "0 \<le> a_local a + a_external a"
    and "set xs \<subseteq> set ys" and "sum_need (first_need a ys) hits ms \<le> int (length xs)"
  shows "\<exists>as ms' p' xs'. each_manager (\<lambda>i m p. rbind (py_index (a_hits a) (int i)) (\<lambda>hit.
         no_result (allocate_new_computed_blocks (a_rid a) hit (a_local a) (a_external a) m p))) i ms p = Inr (as, ms', p')
     \<and> pool_inv p' xs' \<and> ledger_tracks p ms p' ms' \<and> int (length xs) - sum_need (first_need a ys) hits ms \<le> int (length xs')
     \<and> list_all2 (\<lambda>h (m, m'). int (length (blocks_of_req m' (a_rid a))) = first_length a h m) hits (zip ms ms')"
  using assms(1-3,6,7)
proof (induction ms arbitrary: i hits p xs)
  case Nil
  then show ?case by (auto simp: managers_ready_def ledger_def ledger_tracks_def sum_need_def)
next
  case (Cons m ms)
  let ?f = "\<lambda>i m p. rbind (py_index (a_hits a) (int i)) (\<lambda>hit. no_result (allocate_new_computed_blocks (a_rid a) hit (a_local a) (a_external a) m p))"
  obtain h hs where h: "hits = h # hs" using Cons.prems(2) by (cases hits) (auto simp: managers_ready_def)
  have R: "arg_ready a p h m" "mgr_ok p m" "managers_ready a p hs ms" using Cons.prems(2) by (auto simp: h managers_ready_def)
  note ix = drop_index [OF Cons.prems(3) [unfolded h]]
  have nn: "0 \<le> sum_need (first_need a ys) hs ms"
    using R(3) first_need_nonneg [OF _ _ assms(5)] unfolding managers_ready_def by (induction hs ms rule: list_all2_induct) auto
  have fm: "first_need a xs h m \<le> first_need a ys h m" by (rule first_need_mono [OF Cons.prems(4)])
  have ready: "computed_ready p (a_rid a) h (a_local a) (a_external a) m" using R(1) assms(4) by (simp add: arg_ready_def)
  have cn: "computed_need xs (a_rid a) h (a_local a) (a_external a) m = first_need a xs h m" using assms(4) by (simp add: first_need_def)
  have "computed_need xs (a_rid a) h (a_local a) (a_external a) m \<le> int (length xs)" using Cons.prems(5) nn fm h cn by simp
  from computed_phase [OF ledger_books [OF Cons.prems(1)] ready assms(5) this]
  obtain m' p1 xs1 where s: "allocate_new_computed_blocks (a_rid a) h (a_local a) (a_external a) m p = Inr (m', p1)" "pool_inv p1 xs1" "tracks p m p1 m'"
     "set xs1 \<subseteq> set xs" "int (length xs1) = int (length xs) - first_need a xs h m"
     "int (length (blocks_of_req m' (a_rid a))) = prefix_length (a_rid a) h (a_local a) (a_external a) m"
    unfolding cn by blast
  have u: "usable p1 = usable p" using s(3) by (simp add: tracks_def)
  have "sum_need (first_need a ys) hs ms \<le> int (length xs1)" using Cons.prems(5) s(5) fm h by simp
  then obtain as ms' p' xs' where r: "each_manager ?f (Suc i) ms p1 = Inr (as, ms', p')" "pool_inv p' xs'" "ledger_tracks p1 ms p' ms'"
      "int (length xs1) - sum_need (first_need a ys) hs ms \<le> int (length xs')"
      "list_all2 (\<lambda>h (m, m'). int (length (blocks_of_req m' (a_rid a))) = first_length a h m) hs (zip ms ms')"
    using Cons.IH [OF ledger_rest [OF Cons.prems(1) s(3,2)] managers_ready_usable [OF u R(3)], of "Suc i"] ix s(4) Cons.prems(4) by blast
  have "each_manager ?f i (m # ms) p = Inr (() # as, m' # ms', p')" using ix s(1) r(1) by (simp add: py_index_cases no_result_def)
  moreover have "int (length (blocks_of_req m' (a_rid a))) = first_length a h m" using s(6) assms(4) by (simp add: first_length_def)
  ultimately show ?case using r s(5) fm h ledger_tracks_Cons [OF s(3) r(3)]
    by (intro exI [of _ "() # as"] exI [of _ "m' # ms'"] exI [of _ p'] exI [of _ xs']) auto
qed

lemma demand_config: "same_config m m' \<Longrightarrow> demand m' n enc = demand m n enc"
  by (cases "mgr_spec m") (simp_all add: demand_def same_config_def)

lemma alloc_phase_loop:
  assumes "ledger p xs ms" and "\<forall>m \<in> set ms. simple_manager m" and "(\<Sum>m\<leftarrow>ms. max 0 (missing_blocks rid (demand m n enc) m)) \<le> int (length xs)"
  shows "\<exists>as ms' p' xs'. each_manager (\<lambda>_ m p. allocate_new_blocks rid (if is_cross m then enc else n) main m p) i ms p = Inr (as, ms', p')
     \<and> pool_inv p' xs' \<and> ledger_tracks p ms p' ms' \<and> (\<forall>m \<in> set ms'. missing_blocks rid (demand m n enc) m \<le> 0)"
  using assms
proof (induction ms arbitrary: i p xs)
  case Nil
  then show ?case by (auto simp: ledger_def ledger_tracks_def)
next
  case (Cons m ms)
  let ?f = "\<lambda>_ m p. allocate_new_blocks rid (if is_cross m then enc else n) main m p" and ?d = "demand m n enc"
  have nn: "0 \<le> (\<Sum>m\<leftarrow>ms. max 0 (missing_blocks rid (demand m n enc) m))" by (rule sum_list_nonneg) auto
  have le: "missing_blocks rid ?d m \<le> int (length xs)" using Cons.prems(3) nn by simp
  obtain m' p1 where s: "base_allocate_new_blocks rid ?d m p = Inr (take (nat (missing_blocks rid ?d m)) xs, m', p1)"
      "pool_inv p1 (drop (nat (missing_blocks rid ?d m)) xs)" "tracks p m p1 m'"
      "blocks_of_req m' rid = blocks_of_req m rid @ take (nat (missing_blocks rid ?d m)) xs"
    using base_allocate_spec [OF ledger_books [OF Cons.prems(1)] refl le] by auto
  have "(\<Sum>m\<leftarrow>ms. max 0 (missing_blocks rid (demand m n enc) m)) \<le> int (length (drop (nat (missing_blocks rid ?d m)) xs))"
    using Cons.prems(3) le by auto
  then obtain as ms' p' xs' where r: "each_manager ?f (Suc i) ms p1 = Inr (as, ms', p')" "pool_inv p' xs'" "ledger_tracks p1 ms p' ms'"
     "\<forall>m \<in> set ms'. missing_blocks rid (demand m n enc) m \<le> 0"
    using Cons.IH [OF ledger_rest [OF Cons.prems(1) s(3,2)], of "Suc i"] Cons.prems(2) by auto
  have e: "allocate_new_blocks rid (if is_cross m then enc else n) main m p = base_allocate_new_blocks rid ?d m p"
    by (rule allocate_dispatch) (use Cons.prems(2) in \<open>simp add: simple_manager_def\<close>)
  have c: "demand m' n enc = ?d" "mgr_block_size m' = mgr_block_size m" using s(3) demand_config [of m m'] by (auto simp: tracks_def same_config_def)
  have "missing_blocks rid (demand m' n enc) m' \<le> 0" using s(4) le c by (auto simp: missing_blocks_def)
  moreover have "each_manager ?f i (m # ms) p = Inr (take (nat (missing_blocks rid ?d m)) xs # as, m' # ms', p')" using s(1) r(1) e by simp
  ultimately show ?case using r ledger_tracks_Cons [OF s(3) r(3)]
    by (intro exI [of _ "take (nat (missing_blocks rid ?d m)) xs # as"] exI [of _ "m' # ms'"] exI [of _ p'] exI [of _ xs']) auto
qed

definition slot_args :: "request \<Rightarrow> int \<Rightarrow> int \<Rightarrow> kv_cache_blocks option \<Rightarrow> int \<Rightarrow> int \<Rightarrow> int \<Rightarrow> kv_manager \<Rightarrow> alloc_args" where
  "slot_args r new ncomp blocks look ext enc km =
     (let b = (case blocks of None \<Rightarrow> empty_kv_cache_blocks km | Some b \<Rightarrow> b); l = num_computed_tokens r + ncomp
      in \<lparr>a_rid = request_id r, a_hits = blocks_by_group b, a_local = l, a_external = ext,
          a_slots = min (min (l + ext) (km_max_model_len km) + new + look) (km_max_model_len km), a_encoder = enc,
          a_prefix = (\<not> is_shared_empty b \<or> 0 < ext)\<rparr>)"

text \<open>Removing skipped blocks keeps the lengths of all lists.\<close>

definition same_lengths :: "manager \<Rightarrow> manager \<Rightarrow> bool" where
  "same_lengths m m' \<longleftrightarrow> same_config m m' \<and> num_cached_block m' = num_cached_block m \<and> (\<forall>r. length (blocks_of_req m' r) = length (blocks_of_req m r))"

lemma skip_total:
  assumes "coord_inv c"
  shows "\<exists>c'. coord_remove_skipped_blocks rid t c = Inr c' \<and> list_all2 same_lengths (single_type_managers c) (single_type_managers c')"
proof -
  let ?f = "\<lambda>_ m p. no_result (remove_skipped_blocks rid t m p)"
  obtain xs where l: "ledger (coord_pool c) xs (single_type_managers c)" using coord_inv_ledger [OF assms] by blast
  have "\<exists>as ms p. each_manager ?f 0 (single_type_managers c) (coord_pool c) = Inr (as, ms, p)" by (rule skip_all.each_total [OF l]) simp
  then obtain as ms p where e: "each_manager ?f 0 (single_type_managers c) (coord_pool c) = Inr (as, ms, p)" by blast
  have "list_all2 same_lengths (single_type_managers c) ms"
  proof (rule skip_all.each_pointwise [OF l _ e])
    fix s xs k m a m' s'
    assume "books s xs m" "no_result (remove_skipped_blocks rid t m s) = Inr (a, m', s')"
    then show "same_lengths m m'" using remove_skipped_spec [of s xs m rid t]
      by (auto simp: no_result_def same_lengths_def tracks_def) metis
  qed simp
  then show ?thesis using e by (auto simp: coord_remove_skipped_blocks_def with_managers_def)
qed

lemma ready_same_lengths:
  assumes "list_all2 same_lengths ms ms'" and "usable p' = usable p" and "managers_ready a p hits ms" and "\<forall>m \<in> set ms'. mgr_ok p' m"
  shows "managers_ready a p' hits ms'"
proof -
  have one: "simple_manager m' \<and> spec_valid (mgr_spec m') \<and> arg_ready a p' hit m' \<and> (is_cross m' \<longrightarrow> hit = [])"
    if "same_lengths m m'" "simple_manager m \<and> spec_valid (mgr_spec m) \<and> arg_ready a p hit m \<and> (is_cross m \<longrightarrow> hit = [])" for m m' hit
  proof -
    have c: "mgr_spec m' = mgr_spec m" "mgr_block_size m' = mgr_block_size m" "mgr_enable_caching m' = mgr_enable_caching m"
      "num_cached_block m' = num_cached_block m" "\<And>r. length (blocks_of_req m' r) = length (blocks_of_req m r)"
      using that(1) by (auto simp: same_lengths_def same_config_def)
    have "is_cross m' = is_cross m" "in_first_phase (a_rid a) m' = in_first_phase (a_rid a) m" "is_aligned_mamba m' = is_aligned_mamba m"
      "get_num_skipped_tokens m' = get_num_skipped_tokens m"
      by (simp_all add: is_cross_def in_first_phase_def is_aligned_mamba_def c get_num_skipped_tokens_def fun_eq_iff)
    moreover from this have "skipped_blocks m' = skipped_blocks m" by (simp add: skipped_blocks_def c fun_eq_iff)
    moreover have "(blocks_of_req m' r = []) = (blocks_of_req m r = [])" for r using c(5) [of r] by (metis length_0_conv)
    ultimately show ?thesis using that(2) held_ok_usable [OF assms(2)]
      by (auto simp: simple_manager_def arg_ready_def computed_ready_def fits_computed_def c)
  qed
  show ?thesis using assms(1,3,4) one unfolding managers_ready_def list_all2_conv_all_nth by (metis nth_mem)
qed

lemma free_bounded: "pool_inv p xs \<Longrightarrow> int (length xs) \<le> int (num_gpu_blocks p)"
proof -
  assume "pool_inv p xs"
  note I = pool_invD [OF this]
  have "length xs = card (set xs)" using I(6) by (simp add: distinct_card)
  also have "\<dots> \<le> card (usable p)" using I(4) by (intro card_mono) (auto simp: usable_def)
  also have "\<dots> \<le> num_gpu_blocks p" unfolding usable_def using card_image_le [of "{1..<num_gpu_blocks p}" Blk] by simp
  finally show ?thesis by simp
qed

lemma second_need_missing:
  assumes "list_all2 (\<lambda>h (m, m'). int (length (blocks_of_req m' (a_rid a))) = first_length a h m) hits (zip ms ms')" and "list_all2 same_config ms ms'"
    and "length hits = length ms"
  shows "(\<Sum>m\<leftarrow>ms'. max 0 (missing_blocks (a_rid a) (demand m (a_slots a) (a_encoder a)) m)) = sum_need (second_need a) hits ms"
  using assms(2,1,3)
proof (induction ms ms' arbitrary: hits rule: list_all2_induct)
  case Nil
  then show ?case by (simp add: sum_need_def)
next
  case (Cons m ms m' ms')
  then obtain h hs where h: "hits = h # hs" by (cases hits) auto
  have "max 0 (missing_blocks (a_rid a) (demand m' (a_slots a) (a_encoder a)) m') = second_need a h m"
    using Cons.prems(1) demand_config [OF Cons.hyps(1)] Cons.hyps(1) by (simp add: h missing_blocks_def second_need_def same_config_def)
  then show ?case using Cons.IH [of hs] Cons.prems h by simp
qed

lemma sum_need_add: "length hits = length ms \<Longrightarrow> sum_need (\<lambda>h m. f h m + g h m) hits ms = sum_need f hits ms + sum_need g hits ms"
  by (induction hits ms rule: list_induct2) auto

lemma sum_need_zero: "length hits = length ms \<Longrightarrow> (\<And>h m. f h m = 0) \<Longrightarrow> sum_need f hits ms = 0"
  by (induction hits ms rule: list_induct2) auto

lemma same_config_simple: "list_all2 same_config ms ms' \<Longrightarrow> \<forall>m \<in> set ms. simple_manager m \<Longrightarrow> \<forall>m \<in> set ms'. simple_manager m"
proof (induction rule: list_all2_induct)
  case (Cons m ms m' ms')
  have "simple_manager m'" using Cons.hyps(1) Cons.prems by (simp add: simple_manager_def same_config_def is_aligned_mamba_def)
  then show ?case using Cons by simp
qed simp

lemma both_phases:
  assumes inv: "coord_inv c" and ready: "managers_ready a (coord_pool c) (a_hits a) (single_type_managers c)" and main: "0 < main"
    and t: "a_local a + a_external a \<le> a_slots a" "0 \<le> a_local a + a_external a"
    and need: "coord_get_num_blocks_to_allocate (a_rid a) (a_slots a) (a_hits a) (a_encoder a) (a_local a + a_external a) main c = Inr (k, c')"
    and le: "k \<le> get_num_free_blocks (coord_pool c')"
  shows "\<exists>c1 news c2. (if a_prefix a then coord_allocate_new_computed_blocks (a_rid a) (a_hits a) (a_local a) (a_external a) c' else Inr c') = Inr c1
     \<and> coord_allocate_new_blocks (a_rid a) (a_slots a) main (a_encoder a) c1 = Inr (news, c2) \<and> coord_inv c2
     \<and> list_all2 same_config (single_type_managers c) (single_type_managers c2)
     \<and> (\<forall>m \<in> set (single_type_managers c2). missing_blocks (a_rid a) (demand m (a_slots a) (a_encoder a)) m \<le> 0)"
proof -
  let ?ms = "single_type_managers c" and ?p = "coord_pool c" and ?hits = "a_hits a"
  obtain xs where xs: "pool_inv ?p xs" "ledger ?p xs ?ms" using coord_inv_ledger [OF inv] by (auto simp: ledger_def)
  obtain ks where ks: "each_manager (need_of (a_rid a) (a_slots a) ?hits (a_encoder a) (a_local a + a_external a) main) 0 ?ms ?p = Inr (ks, ?ms, ?p)"
     "int (num_gpu_blocks ?p) < sum_list ks \<or> sum_need (\<lambda>h m. first_need a xs h m + second_need a h m) ?hits ?ms \<le> sum_list ks"
    using need_loop [OF xs(2) ready _ t xs(1), of 0 main] by auto
  have c': "c' = c" "k = sum_list ks" using need ks(1) by (auto simp: coord_get_num_blocks_to_allocate_def with_managers_def)
  have len: "length ?hits = length ?ms" using ready by (auto simp: managers_ready_def dest: list_all2_lengthD)
  have "get_num_free_blocks ?p = int (length xs)" using pool_invD(7) [OF xs(1)] by (simp add: get_num_free_blocks_def)
  then have total: "sum_need (first_need a xs) ?hits ?ms + sum_need (second_need a) ?hits ?ms \<le> int (length xs)"
    using ks(2) le c' free_bounded [OF xs(1)] sum_need_add [OF len, of "first_need a xs" "second_need a"] by auto
  have nn: "0 \<le> sum_need (second_need a) ?hits ?ms" by (auto simp: sum_need_def second_need_def intro!: sum_list_nonneg)
  have "\<exists>c1 xs1. (if a_prefix a then coord_allocate_new_computed_blocks (a_rid a) ?hits (a_local a) (a_external a) c else Inr c) = Inr c1
     \<and> pool_inv (coord_pool c1) xs1 \<and> ledger_tracks ?p ?ms (coord_pool c1) (single_type_managers c1)
     \<and> int (length xs) - sum_need (first_need a xs) ?hits ?ms \<le> int (length xs1) \<and> coord_inv c1
     \<and> list_all2 (\<lambda>h (m, m'). int (length (blocks_of_req m' (a_rid a))) = first_length a h m) ?hits (zip ?ms (single_type_managers c1))"
  proof (cases "a_prefix a")
    case True
    obtain as ms' p' xs' where r: "each_manager (\<lambda>i m p. rbind (py_index ?hits (int i)) (\<lambda>hit.
         no_result (allocate_new_computed_blocks (a_rid a) hit (a_local a) (a_external a) m p))) 0 ?ms ?p = Inr (as, ms', p')"
      "pool_inv p' xs'" "ledger_tracks ?p ?ms p' ms'" "int (length xs) - sum_need (first_need a xs) ?hits ?ms \<le> int (length xs')"
      "list_all2 (\<lambda>h (m, m'). int (length (blocks_of_req m' (a_rid a))) = first_length a h m) ?hits (zip ?ms ms')"
      using computed_loop [OF xs(2) ready _ True t(2) subset_refl, of 0] total nn by auto
    let ?c1 = "c\<lparr>single_type_managers := ms', coord_pool := p'\<rparr>"
    have "coord_allocate_new_computed_blocks (a_rid a) ?hits (a_local a) (a_external a) c = Inr ?c1"
      using r(1) by (simp add: coord_allocate_new_computed_blocks_def with_managers_def)
    then show ?thesis using True r(2-5) coord_inv_tracks [OF inv r(3,2)] by (intro exI [of _ ?c1] exI [of _ xs']) auto
  next
    case False
    have "list_all2 (\<lambda>h (m, m'). int (length (blocks_of_req m' (a_rid a))) = first_length a h m) ?hits (zip ?ms ?ms)"
      using len False by (auto simp: list_all2_conv_all_nth first_length_def)
    moreover have "sum_need (first_need a xs) ?hits ?ms = 0" by (rule sum_need_zero [OF len]) (simp add: first_need_def False)
    ultimately show ?thesis using False xs inv ledger_tracks_refl [of ?ms ?p] by (intro exI [of _ c] exI [of _ xs]) (auto simp: ledger_def)
  qed
  then obtain c1 xs1 where c1: "(if a_prefix a then coord_allocate_new_computed_blocks (a_rid a) ?hits (a_local a) (a_external a) c else Inr c) = Inr c1"
     "pool_inv (coord_pool c1) xs1" "ledger_tracks ?p ?ms (coord_pool c1) (single_type_managers c1)"
     "int (length xs) - sum_need (first_need a xs) ?hits ?ms \<le> int (length xs1)" "coord_inv c1"
     "list_all2 (\<lambda>h (m, m'). int (length (blocks_of_req m' (a_rid a))) = first_length a h m) ?hits (zip ?ms (single_type_managers c1))" by blast
  have cfg: "list_all2 same_config ?ms (single_type_managers c1)" using c1(3) by (simp add: ledger_tracks_def)
  have "\<forall>m \<in> set ?ms. simple_manager m" using ready by (auto simp: managers_ready_def list_all2_conv_all_nth in_set_conv_nth)
  then have simple: "\<forall>m \<in> set (single_type_managers c1). simple_manager m"
    using same_config_simple [OF cfg] by blast
  have sum: "(\<Sum>m\<leftarrow>single_type_managers c1. max 0 (missing_blocks (a_rid a) (demand m (a_slots a) (a_encoder a)) m)) \<le> int (length xs1)"
    using second_need_missing [OF c1(6) cfg len] total c1(4) by simp
  have "ledger (coord_pool c1) xs1 (single_type_managers c1)" using ledger_next [OF xs(2) c1(3,2)] .
  from alloc_phase_loop [OF this simple sum, of main 0] obtain news ms' p' xs' where r:
     "each_manager (\<lambda>_ m p. allocate_new_blocks (a_rid a) (if is_cross m then a_encoder a else a_slots a) main m p) 0 (single_type_managers c1) (coord_pool c1) = Inr (news, ms', p')"
     "\<forall>m \<in> set ms'. missing_blocks (a_rid a) (demand m (a_slots a) (a_encoder a)) m \<le> 0"
     "ledger_tracks (coord_pool c1) (single_type_managers c1) p' ms'" by blast
  have cfg2: "list_all2 same_config ?ms ms'"
    using list_all2_trans [OF same_config_trans cfg] r(3) by (auto simp: ledger_tracks_def)
  let ?c2 = "c1\<lparr>single_type_managers := ms', coord_pool := p'\<rparr>"
  have a2: "coord_allocate_new_blocks (a_rid a) (a_slots a) main (a_encoder a) c1 = Inr (news, ?c2)"
    using r(1) by (simp add: coord_allocate_new_blocks_def with_managers_def)
  then show ?thesis using c1(1) c' r(2) cfg2 coord_alloc_inv [OF c1(5) main a2] by (intro exI [of _ c1] exI [of _ news] exI [of _ ?c2]) auto
qed


section \<open>Properties\<close>

text \<open>
  C4. In every reachable state of the cache manager the books balance: the reference count of a block is
  the number of entries for it in the block lists of the requests, over all cache groups, and the
  free queue holds, without repetition, exactly the blocks that no request holds. So no
  block leaks and no block is handed out while a request still uses it.
\<close>

theorem km_reachable_accounted:
  assumes "km_reachable env km"
  shows "\<exists>xs. get_all_free_blocks (km_pool km) = Some (Inr xs) \<and> distinct xs \<and> set xs = {b \<in> usable (km_pool km). holders b km = 0}
     \<and> (\<forall>b \<in> usable (km_pool km). ref_cnt (heap (km_pool km) b) = holders b km)"
proof -
  note inv = km_reachable_inv [OF assms]
  then obtain xs where xs: "pool_inv (km_pool km) xs" by (auto simp: coord_inv_def)
  note I = pool_invD [OF xs]
  have r: "\<forall>b \<in> usable (km_pool km). ref_cnt (heap (km_pool km) b) = holders b km" using inv by (simp add: coord_inv_def holders_total)
  then have "set xs = {b \<in> usable (km_pool km). holders b km = 0}" using I(4) by auto
  then show ?thesis using r I(6) get_all_free_blocks_rep [OF I(3)] by blast
qed

text \<open>
  C12. When no request holds a block, every reachable manager can reset its prefix cache: the reset
  returns true and the hash map is empty afterwards. While a request holds a block it returns
  false and changes nothing in the pool.
\<close>

theorem reset_when_idle:
  assumes "km_reachable env km"
  shows "fst (reset_prefix_cache (km_pool km)) = (\<forall>b \<in> usable (km_pool km). holders b km = 0)
     \<and> (fst (reset_prefix_cache (km_pool km)) \<longrightarrow> cached_block_hash_to_block (snd (reset_prefix_cache (km_pool km))) = Map.empty)
     \<and> (\<not> fst (reset_prefix_cache (km_pool km)) \<longrightarrow> snd (reset_prefix_cache (km_pool km)) = km_pool km)"
proof -
  note inv = km_reachable_inv [OF assms]
  then obtain xs where xs: "pool_inv (km_pool km) xs" by (auto simp: coord_inv_def)
  have "\<forall>b \<in> usable (km_pool km). ref_cnt (heap (km_pool km) b) = holders b km" using inv by (simp add: coord_inv_def holders_total)
  then show ?thesis using reset_prefix_cache_spec(1,3,4) [OF xs] by simp
qed

text \<open>The entries of a block in the lists of a request, over all groups.\<close>

definition entries :: "string \<Rightarrow> block_ref \<Rightarrow> kv_manager \<Rightarrow> int" where
  "entries rid b km = (\<Sum>bs\<leftarrow>coord_get_blocks rid (coordinator_of km). int (count_list bs b))"

lemma occ_sum:
  assumes "distinct (map fst (req_to_blocks m))" and "finite K" and "fst ` set (req_to_blocks m) \<subseteq> K"
  shows "occ m b = (\<Sum>q\<in>K. count_list (blocks_of_req m q) b)"
proof -
  have "(\<Sum>(_, bs)\<leftarrow>d. count_list bs b) = (\<Sum>q\<in>K. count_list (case map_of d q of None \<Rightarrow> [] | Some bs \<Rightarrow> bs) b)"
    if "distinct (map fst d)" "fst ` set d \<subseteq> K" for d :: "(string \<times> block_ref list) list"
    using that
  proof (induction d)
    case (Cons x d)
    obtain k bs where x: "x = (k, bs)" by (cases x)
    have k: "k \<in> K" "map_of d k = None" using Cons.prems x by (auto simp: map_of_eq_None_iff)
    let ?f = "\<lambda>d q. count_list (case map_of d q of None \<Rightarrow> [] | Some bs \<Rightarrow> bs) b"
    have "(\<Sum>q\<in>K. ?f (x # d) q) = ?f (x # d) k + (\<Sum>q\<in>K - {k}. ?f (x # d) q)" by (rule sum.remove [OF assms(2) k(1)])
    also have "(\<Sum>q\<in>K - {k}. ?f (x # d) q) = (\<Sum>q\<in>K - {k}. ?f d q)" by (rule sum.cong) (auto simp: x)
    also have "\<dots> = (\<Sum>q\<in>K. ?f d q)" using sum.remove [OF assms(2) k(1), of "?f d"] k(2) by simp
    finally show ?case using Cons x by auto
  qed simp
  from this [OF assms(1,3)] show ?thesis by (simp add: occ_def blocks_of_req_def)
qed

lemma occ_drop_req:
  assumes "mgr_ok p m" and "mgr_ok p' m'" and "\<forall>q. blocks_of_req m' q = (if q = rid then [] else blocks_of_req m q)"
  shows "int (occ m' b) = int (occ m b) - int (count_list (blocks_of_req m rid) b)"
proof -
  define K where "K = insert rid (fst ` set (req_to_blocks m) \<union> fst ` set (req_to_blocks m'))"
  have K: "finite K" "rid \<in> K" by (auto simp: K_def)
  have "occ m b = (\<Sum>q\<in>K. count_list (blocks_of_req m q) b)" "occ m' b = (\<Sum>q\<in>K. count_list (blocks_of_req m' q) b)"
    using assms(1,2) K(1) by (auto intro!: occ_sum simp: mgr_ok_def K_def)
  moreover have "(\<Sum>q\<in>K - {rid}. count_list (blocks_of_req m' q) b) = (\<Sum>q\<in>K - {rid}. count_list (blocks_of_req m q) b)"
    using assms(3) by (auto intro: sum.cong)
  ultimately show ?thesis using sum.remove [OF K, of "\<lambda>q. count_list (blocks_of_req m q) b"]
      sum.remove [OF K, of "\<lambda>q. count_list (blocks_of_req m' q) b"] assms(3) by simp
qed

lemma total_occ_drop_req:
  assumes "list_all2 (\<lambda>m m'. \<forall>q. blocks_of_req m' q = (if q = rid then [] else blocks_of_req m q)) ms ms'"
    and "\<forall>m \<in> set ms. mgr_ok p m" and "\<forall>m \<in> set ms'. mgr_ok p' m"
  shows "total_occ ms' b = total_occ ms b - (\<Sum>m\<leftarrow>ms. int (count_list (blocks_of_req m rid) b))"
  using assms
proof (induction rule: list_all2_induct)
  case (Cons m ms m' ms')
  then show ?case using occ_drop_req [of p m p' m' rid b] by simp
qed simp

text \<open>
  C11. Freeing a request succeeds in every reachable state. Afterwards the request holds no
  blocks in any group and the lists of all other requests are unchanged; the reference count of
  every block is lower by the number of its entries in the lists of the request, and the blocks
  whose count is then zero are the ones in the free queue.
\<close>

theorem km_free_releases:
  assumes "km_reachable env km"
  shows "\<exists>km' xs. km_free r km = Inr km' \<and> list_all (\<lambda>bs. bs = []) (coord_get_blocks (request_id r) (coordinator_of km'))
     \<and> (\<forall>rid. rid \<noteq> request_id r \<longrightarrow> coord_get_blocks rid (coordinator_of km') = coord_get_blocks rid (coordinator_of km))
     \<and> usable (km_pool km') = usable (km_pool km)
     \<and> (\<forall>b \<in> usable (km_pool km). ref_cnt (heap (km_pool km') b) = ref_cnt (heap (km_pool km) b) - entries (request_id r) b km)
     \<and> get_all_free_blocks (km_pool km') = Some (Inr xs)
     \<and> set xs = {b \<in> usable (km_pool km). ref_cnt (heap (km_pool km) b) = entries (request_id r) b km}"
proof -
  let ?c = "coordinator_of km" and ?rid = "request_id r"
  let ?ms = "single_type_managers ?c"
  let ?R = "\<lambda>m m'. \<forall>q. blocks_of_req m' q = (if q = ?rid then [] else blocks_of_req m q)"
  note inv = km_reachable_inv [OF assms]
  obtain xs0 where l: "ledger (coord_pool ?c) xs0 ?ms" using coord_inv_ledger [OF inv] by blast
  have "\<exists>as ms p. each_manager (\<lambda>_ m p. no_result (free_req ?rid m p)) 0 ?ms (coord_pool ?c) = Inr (as, ms, p)"
    by (rule free_all.each_total [OF l]) simp
  then obtain as ms p where e: "each_manager (\<lambda>_ m p. no_result (free_req ?rid m p)) 0 ?ms (coord_pool ?c) = Inr (as, ms, p)" by blast
  have R: "list_all2 ?R ?ms ms"
  proof (rule free_all.each_pointwise [OF l _ e])
    fix s xs k m a m' s'
    assume "books s xs m" "no_result (free_req ?rid m s) = Inr (a, m', s')"
    then show "?R m m'" using free_req_spec [of s xs m ?rid] by (auto simp: no_result_def)
  qed simp
  obtain xs where T: "pool_inv p xs" "ledger_tracks (coord_pool ?c) ?ms p ms" using free_all.each_keeps [OF l _ e] by auto
  let ?km' = "km\<lparr>coordinator_of := ?c\<lparr>single_type_managers := ms, coord_pool := p\<rparr>\<rparr>"
  have "total_occ ms b = total_occ ?ms b - entries ?rid b km" for b
    using total_occ_drop_req [OF R, of "coord_pool ?c" p b] inv T(2)
    by (simp add: entries_def coord_get_blocks_def coord_inv_def ledger_tracks_def comp_def)
  then have cnt: "ref_cnt (heap p b) = ref_cnt (heap (km_pool km) b) - entries ?rid b km" if "b \<in> usable (km_pool km)" for b
    using T(2) that by (fastforce simp: ledger_tracks_def)
  have u: "usable p = usable (km_pool km)" using T(2) by (simp add: ledger_tracks_def)
  have "km_free r km = Inr ?km'" using e by (simp add: km_free_def coord_free_def with_managers_def)
  moreover have "list_all (\<lambda>bs. bs = []) (map (\<lambda>m. blocks_of_req m ?rid) ms)" using R by (induction rule: list_all2_induct) auto
  moreover have "map (\<lambda>m. blocks_of_req m q) ms = map (\<lambda>m. blocks_of_req m q) ?ms" if "q \<noteq> ?rid" for q
    using R that by (induction rule: list_all2_induct) auto
  moreover have "get_all_free_blocks p = Some (Inr xs)" by (rule get_all_free_blocks_rep [OF pool_invD(3) [OF T(1)]])
  moreover have "set xs = {b \<in> usable (km_pool km). ref_cnt (heap (km_pool km) b) = entries ?rid b km}"
    using pool_invD(4) [OF T(1)] cnt u by auto
  ultimately show ?thesis using cnt u by (intro exI [of _ ?km'] exI [of _ xs]) (simp add: coord_get_blocks_def)
qed

lemma allocate_slots_run:
  assumes "coord_inv (coordinator_of km)" and "a = slot_args r new ncomp blocks look ext enc km" and "managers_ready a (km_pool km) (a_hits a) (single_type_managers (coordinator_of km))"
    and "0 \<le> new" "0 \<le> ncomp" "0 \<le> ext" "0 \<le> look" "\<not> (new = 0 \<and> ext = 0)" and "a_local a + ext \<le> km_max_model_len km"
    and "0 \<le> num_computed_tokens r"
  shows "\<exists>c k. coord_remove_skipped_blocks (request_id r) (a_local a + ext) (coordinator_of km) = Inr c
     \<and> coord_get_num_blocks_to_allocate (request_id r) (a_slots a) (a_hits a) enc (a_local a + ext) (a_local a + ext + new) c = Inr (k, c)
     \<and> (if get_num_free_blocks (coord_pool c) < k
        then allocate_slots env r new ncomp blocks look ext delay enc km = Inr (None, r, km\<lparr>coordinator_of := c\<rparr>) \<and> coord_inv c
          \<and> list_all2 same_lengths (single_type_managers (coordinator_of km)) (single_type_managers c)
        else \<exists>news c2. coord_inv c2 \<and> list_all2 same_config (single_type_managers (coordinator_of km)) (single_type_managers c2)
          \<and> (\<forall>m \<in> set (single_type_managers c2).
              cdiv (demand m (a_slots a) enc) (int (mgr_block_size m)) \<le> int (length (blocks_of_req m (request_id r))))
          \<and> allocate_slots env r new ncomp blocks look ext delay enc km =
             (if \<not> km_enable_caching km \<or> delay then Inr (Some (create_kv_cache_blocks news km), r, km\<lparr>coordinator_of := c2\<rparr>)
              else rbind (coord_cache_blocks env r (min (a_local a + ext + new) (int (num_tokens r))) c2) (\<lambda>(r, c3).
                Inr (Some (create_kv_cache_blocks news km), r, km\<lparr>coordinator_of := c3\<rparr>))))"
proof -
  let ?c0 = "coordinator_of km" and ?rid = "request_id r" and ?t = "a_local a + ext"
  let ?b = "case blocks of None \<Rightarrow> empty_kv_cache_blocks km | Some b \<Rightarrow> b"
  note inv = assms(1)
  have A: "a_rid a = ?rid" "a_hits a = blocks_by_group ?b" "a_local a = num_computed_tokens r + ncomp" "a_external a = ext" "a_encoder a = enc"
     "a_prefix a = (\<not> is_shared_empty ?b \<or> 0 < ext)" "a_slots a = min (?t + new + look) (km_max_model_len km)"
    using assms(2,9) by (simp_all add: slot_args_def Let_def)
  have min: "min ?t (km_max_model_len km) = ?t" using assms(9) by simp
  have t0: "0 \<le> ?t" and main: "0 < ?t + new" and ts: "?t \<le> a_slots a" using assms(4-10) A by auto
  obtain c where c: "coord_remove_skipped_blocks ?rid ?t ?c0 = Inr c" "list_all2 same_lengths (single_type_managers ?c0) (single_type_managers c)"
    using skip_total [OF inv] by blast
  note S = coord_skip_inv [OF inv c(1)]
  have u: "usable (coord_pool c) = usable (km_pool km)" using S(2) by (simp add: ledger_tracks_def)
  have ok: "\<forall>m \<in> set (single_type_managers c). mgr_ok (coord_pool c) m" using S(1) by (simp add: coord_inv_def)
  have ready: "managers_ready a (coord_pool c) (a_hits a) (single_type_managers c)" by (rule ready_same_lengths [OF c(2) u assms(3) ok])
  obtain xs where xs: "pool_inv (coord_pool c) xs" "ledger (coord_pool c) xs (single_type_managers c)"
    using coord_inv_ledger [OF S(1)] by (auto simp: ledger_def)
  obtain ks where "each_manager (need_of (a_rid a) (a_slots a) (a_hits a) (a_encoder a) (a_local a + a_external a) (?t + new)) 0 (single_type_managers c) (coord_pool c)
      = Inr (ks, single_type_managers c, coord_pool c)"
    using need_loop [OF xs(2) ready _ _ _ xs(1), of 0 "?t + new"] ts t0 A(4) by auto
  then have need: "coord_get_num_blocks_to_allocate ?rid (a_slots a) (a_hits a) enc ?t (?t + new) c = Inr (sum_list ks, c)"
    using A by (simp add: coord_get_num_blocks_to_allocate_def with_managers_def)
  have run: "allocate_slots env r new ncomp blocks look ext delay enc km =
     (if get_num_free_blocks (coord_pool c) < sum_list ks then Inr (None, r, km\<lparr>coordinator_of := c\<rparr>)
      else rbind (if a_prefix a then coord_allocate_new_computed_blocks ?rid (a_hits a) (a_local a) ext c else Inr c) (\<lambda>c.
          rbind (coord_allocate_new_blocks ?rid (a_slots a) (?t + new) enc c) (\<lambda>(new_blocks, c).
          if \<not> km_enable_caching km \<or> delay then Inr (Some (create_kv_cache_blocks new_blocks km), r, km\<lparr>coordinator_of := c\<rparr>)
          else rbind (coord_cache_blocks env r (min (?t + new) (int (num_tokens r))) c) (\<lambda>(r, c).
            Inr (Some (create_kv_cache_blocks new_blocks km), r, km\<lparr>coordinator_of := c\<rparr>)))))"
    using assms(8) c(1) need unfolding allocate_slots_def Let_def A(3) [symmetric] min A(2) [symmetric] A(6) [symmetric] A(7) [symmetric] by auto
  show ?thesis
  proof (cases "get_num_free_blocks (coord_pool c) < sum_list ks")
    case True
    then show ?thesis using run c need S(1) by (intro exI [of _ c] exI [of _ "sum_list ks"]) simp
  next
    case False
    have n': "coord_get_num_blocks_to_allocate (a_rid a) (a_slots a) (a_hits a) (a_encoder a) (a_local a + a_external a) (?t + new) c = Inr (sum_list ks, c)"
      using need A by simp
    have le: "sum_list ks \<le> get_num_free_blocks (coord_pool c)" using False by simp
    have t': "a_local a + a_external a \<le> a_slots a" "0 \<le> a_local a + a_external a" using ts t0 A(4) by simp_all
    obtain c1 news c2 where p: "(if a_prefix a then coord_allocate_new_computed_blocks ?rid (a_hits a) (a_local a) ext c else Inr c) = Inr c1"
       "coord_allocate_new_blocks ?rid (a_slots a) (?t + new) enc c1 = Inr (news, c2)" "coord_inv c2"
       "list_all2 same_config (single_type_managers c) (single_type_managers c2)"
       "\<forall>m \<in> set (single_type_managers c2). missing_blocks ?rid (demand m (a_slots a) enc) m \<le> 0"
      using both_phases [OF S(1) ready main t' n' le] unfolding A(1,4,5) by blast
    let ?some = "Some (create_kv_cache_blocks news km)"
    have "allocate_slots env r new ncomp blocks look ext delay enc km =
       (if \<not> km_enable_caching km \<or> delay then Inr (?some, r, km\<lparr>coordinator_of := c2\<rparr>)
        else rbind (coord_cache_blocks env r (min (?t + new) (int (num_tokens r))) c2) (\<lambda>(r, c3). Inr (?some, r, km\<lparr>coordinator_of := c3\<rparr>)))"
      using run False p(1,2) by simp
    moreover have "\<forall>m \<in> set (single_type_managers c2).
        cdiv (demand m (a_slots a) enc) (int (mgr_block_size m)) \<le> int (length (blocks_of_req m ?rid))"
      using p(5) by (simp add: missing_blocks_def)
    moreover have "list_all2 same_config (single_type_managers ?c0) (single_type_managers c2)"
      using list_all2_trans [OF same_config_trans _ p(4)] S(2) by (auto simp: ledger_tracks_def)
    ultimately show ?thesis using p(3) c(1) need False by (intro exI [of _ c] exI [of _ "sum_list ks"]) auto
  qed
qed

lemma allocate_slots_spec:
  assumes "coord_inv (coordinator_of km)" and "a = slot_args r new ncomp blocks look ext enc km" and "managers_ready a (km_pool km) (a_hits a) (single_type_managers (coordinator_of km))"
    and "0 \<le> new" "0 \<le> ncomp" "0 \<le> ext" "0 \<le> look" "\<not> (new = 0 \<and> ext = 0)" and "a_local a + ext \<le> km_max_model_len km"
    and "\<not> km_enable_caching km \<or> delay" and "0 \<le> num_computed_tokens r"
  shows "\<exists>res km' c k. allocate_slots env r new ncomp blocks look ext delay enc km = Inr (res, r, km') \<and> coord_inv (coordinator_of km')
     \<and> coord_remove_skipped_blocks (request_id r) (a_local a + ext) (coordinator_of km) = Inr c
     \<and> coord_get_num_blocks_to_allocate (request_id r) (a_slots a) (a_hits a) enc (a_local a + ext) (a_local a + ext + new) c = Inr (k, c)
     \<and> (case res of
          None \<Rightarrow> get_num_free_blocks (coord_pool c) < k \<and> list_all2 same_lengths (single_type_managers (coordinator_of km)) (single_type_managers (coordinator_of km'))
        | Some _ \<Rightarrow> k \<le> get_num_free_blocks (coord_pool c) \<and> (\<forall>m \<in> set (single_type_managers (coordinator_of km')).
            cdiv (demand m (a_slots a) enc) (int (mgr_block_size m)) \<le> int (length (blocks_of_req m (request_id r)))))"
proof -
  obtain c k where R: "coord_remove_skipped_blocks (request_id r) (a_local a + ext) (coordinator_of km) = Inr c"
     "coord_get_num_blocks_to_allocate (request_id r) (a_slots a) (a_hits a) enc (a_local a + ext) (a_local a + ext + new) c = Inr (k, c)"
     "if get_num_free_blocks (coord_pool c) < k
        then allocate_slots env r new ncomp blocks look ext delay enc km = Inr (None, r, km\<lparr>coordinator_of := c\<rparr>) \<and> coord_inv c
          \<and> list_all2 same_lengths (single_type_managers (coordinator_of km)) (single_type_managers c)
        else \<exists>news c2. coord_inv c2 \<and> list_all2 same_config (single_type_managers (coordinator_of km)) (single_type_managers c2)
          \<and> (\<forall>m \<in> set (single_type_managers c2).
              cdiv (demand m (a_slots a) enc) (int (mgr_block_size m)) \<le> int (length (blocks_of_req m (request_id r))))
          \<and> allocate_slots env r new ncomp blocks look ext delay enc km = Inr (Some (create_kv_cache_blocks news km), r, km\<lparr>coordinator_of := c2\<rparr>)"
    using allocate_slots_run [OF assms(1-9,11), of env delay] unfolding eqTrueI [OF assms(10)] if_True by blast
  show ?thesis
  proof (cases "get_num_free_blocks (coord_pool c) < k")
    case True
    then show ?thesis using R by (intro exI [of _ None] exI [of _ "km\<lparr>coordinator_of := c\<rparr>"] exI [of _ c] exI [of _ k]) simp
  next
    case False
    then obtain news c2 where "coord_inv c2" "\<forall>m \<in> set (single_type_managers c2).
              cdiv (demand m (a_slots a) enc) (int (mgr_block_size m)) \<le> int (length (blocks_of_req m (request_id r)))"
       "allocate_slots env r new ncomp blocks look ext delay enc km = Inr (Some (create_kv_cache_blocks news km), r, km\<lparr>coordinator_of := c2\<rparr>)"
      using R(3) by auto
    then show ?thesis using False R(1,2)
      by (intro exI [of _ "Some (create_kv_cache_blocks news km)"] exI [of _ "km\<lparr>coordinator_of := c2\<rparr>"] exI [of _ c] exI [of _ k]) simp
  qed
qed

text \<open>
  C9. The check before an allocation is sufficient. Take a call of \<^verbatim>\<open>allocate_slots\<close> in a reachable state whose arguments fit
  the managers (\<open>managers_ready\<close>: the prefix blocks are blocks that may be held and match the token numbers, and no group
  is a Mamba group with aligned caching), with token numbers that are not negative and a computed prefix within
  the maximum model length. The call returns \<^verbatim>\<open>None\<close> exactly if the number of blocks it computes exceeds the number
  of free blocks, and then all block lists keep their lengths. Otherwise taking the blocks succeeds for
  all groups and the request has enough blocks for the requested slots in each of them; the call then returns the new blocks,
  after caching the full blocks if caching is enabled and not delayed, which is the only part of the call that can still raise.
\<close>

theorem allocate_slots_never_short:
  assumes "km_reachable env' km" and "a = slot_args r new ncomp blocks look ext enc km" and "managers_ready a (km_pool km) (a_hits a) (single_type_managers (coordinator_of km))"
    and "0 \<le> new" "0 \<le> ncomp" "0 \<le> ext" "0 \<le> look" "\<not> (new = 0 \<and> ext = 0)" and "a_local a + ext \<le> km_max_model_len km"
    and "0 \<le> num_computed_tokens r"
  shows "\<exists>c k. coord_remove_skipped_blocks (request_id r) (a_local a + ext) (coordinator_of km) = Inr c
     \<and> coord_get_num_blocks_to_allocate (request_id r) (a_slots a) (a_hits a) enc (a_local a + ext) (a_local a + ext + new) c = Inr (k, c)
     \<and> (if get_num_free_blocks (coord_pool c) < k
        then allocate_slots env r new ncomp blocks look ext delay enc km = Inr (None, r, km\<lparr>coordinator_of := c\<rparr>) \<and> coord_inv c
          \<and> list_all2 same_lengths (single_type_managers (coordinator_of km)) (single_type_managers c)
        else \<exists>news c2. coord_inv c2 \<and> list_all2 same_config (single_type_managers (coordinator_of km)) (single_type_managers c2)
          \<and> (\<forall>m \<in> set (single_type_managers c2).
              cdiv (demand m (a_slots a) enc) (int (mgr_block_size m)) \<le> int (length (blocks_of_req m (request_id r))))
          \<and> allocate_slots env r new ncomp blocks look ext delay enc km =
             (if \<not> km_enable_caching km \<or> delay then Inr (Some (create_kv_cache_blocks news km), r, km\<lparr>coordinator_of := c2\<rparr>)
              else rbind (coord_cache_blocks env r (min (a_local a + ext + new) (int (num_tokens r))) c2) (\<lambda>(r, c3).
                Inr (Some (create_kv_cache_blocks news km), r, km\<lparr>coordinator_of := c3\<rparr>))))"
  using allocate_slots_run [OF km_reachable_inv [OF assms(1)] assms(2-10)] .

section \<open>Witnesses\<close>

text \<open>A manager for one full attention group with blocks of two tokens.\<close>

definition one_group_config :: "int \<Rightarrow> kv_cache_config" where
  "one_group_config n = \<lparr>config_num_blocks = n, kv_cache_tensors = [], kv_cache_groups = [\<lparr>layer_names = [''l''], group_spec = LayerSpec hit_full_spec\<rparr>]\<rparr>"

lemma one_group_manager:
  assumes "0 < n" and "config_num_blocks config = int n" and "kv_cache_groups config = [g]" and "group_spec g = LayerSpec hit_full_spec"
  shows "\<exists>km p. KVCacheManager config max_len 2 True False False False False 1 1 = Inr km \<and> km_reachable env km
     \<and> pool_inv p (map Blk [1..<n]) \<and> usable p = Blk ` {1..<n} \<and> num_gpu_blocks p = n \<and> km_pool km = p \<and> km_max_model_len km = max_len \<and> km_enable_caching km
     \<and> single_type_managers (coordinator_of km) = [SingleTypeKVCacheManager hit_full_spec p True 0 1 1] \<and> num_kv_cache_groups km = 1"
proof -
  obtain p where p: "BlockPool n True 2 False False = Inr p" "pool_inv p (map Blk [1..<n])" "usable p = Blk ` {1..<n}" "num_gpu_blocks p = n"
    using BlockPool_spec [OF assms(1), of True 2 False False] by auto
  let ?m = "SingleTypeKVCacheManager hit_full_spec p True 0 1 1"
  let ?c = "\<lparr>coord_class = UnitaryKVCacheCoordinator, group_specs = [hit_full_spec], coord_enable_caching = True, coord_use_eagle = False,
     coord_pool = p, single_type_managers = [?m], coord_block_size = 2, coord_dcp = 1, coord_pcp = 1, coord_hash_block_size = 2, attention_groups = [], lcm_block_size = 0\<rparr>"
  let ?km = "\<lparr>km_max_model_len = max_len, km_enable_caching = True, km_log_stats = False, prefix_cache_stats_of = None, coordinator_of = ?c, num_kv_cache_groups = 1\<rparr>"
  have k: "KVCacheManager config max_len 2 True False False False False 1 1 = Inr ?km"
    using p(1) assms by (simp add: KVCacheManager_def get_kv_cache_coordinator_def KVCacheCoordinator_def
        get_manager_for_kv_cache_spec_def hit_full_spec_def UnitaryKVCacheCoordinator_init_def Let_def)
  have "km_reachable env ?km"
    by (rule km_reachable.Init [OF k]) (use assms in \<open>simp_all add: group_spec_ok_def hit_full_spec_def spec_valid_def\<close>)
  then show ?thesis using k p(2-4) by (intro exI [of _ ?km] exI [of _ p]) simp
qed

lemma small_manager:
  "\<exists>km p. KVCacheManager (one_group_config 4) 16 2 True False False False False 1 1 = Inr km \<and> km_reachable env km
     \<and> pool_inv p (map Blk [1..<4]) \<and> km_pool km = p \<and> km_max_model_len km = 16
     \<and> single_type_managers (coordinator_of km) = [SingleTypeKVCacheManager hit_full_spec p True 0 1 1] \<and> num_kv_cache_groups km = 1"
  using one_group_manager [of 4 "one_group_config 4" _ 16 env] by (simp add: one_group_config_def) blast

theorem km_reachable_accounted_witness:
  "\<exists>km xs. KVCacheManager (one_group_config 4) 16 2 True False False False False 1 1 = Inr km \<and> get_all_free_blocks (km_pool km) = Some (Inr xs) \<and> distinct xs
     \<and> set xs = {b \<in> usable (km_pool km). holders b km = 0}"
proof -
  obtain km where "KVCacheManager (one_group_config 4) 16 2 True False False False False 1 1 = Inr km" "km_reachable toy_env km"
    using small_manager [of toy_env] by auto
  then show ?thesis using km_reachable_accounted [of toy_env km] by auto
qed

theorem reset_when_idle_witness:
  "\<exists>km. KVCacheManager (one_group_config 4) 16 2 True False False False False 1 1 = Inr km \<and> fst (reset_prefix_cache (km_pool km))"
proof -
  obtain km p where km: "KVCacheManager (one_group_config 4) 16 2 True False False False False 1 1 = Inr km" "km_reachable toy_env km"
      "single_type_managers (coordinator_of km) = [SingleTypeKVCacheManager hit_full_spec p True 0 1 1]"
    using small_manager [of toy_env] by auto
  have "holders b km = 0" for b by (simp add: holders_def km(3) SingleTypeKVCacheManager_def)
  then show ?thesis using reset_when_idle [OF km(2)] km(1) by auto
qed

text \<open>The arguments of the first allocation of a request without a prefix hit.\<close>

lemma first_allocation_ready:
  fixes n :: int
  assumes "pool_inv p xs" and "single_type_managers (coordinator_of km) = [SingleTypeKVCacheManager hit_full_spec p True 0 1 1]" and "km_pool km = p"
    and "num_kv_cache_groups km = 1" and "num_computed_tokens r = 0"
  defines "a \<equiv> slot_args r n 0 None 0 0 0 km"
  shows "managers_ready a (km_pool km) (a_hits a) (single_type_managers (coordinator_of km))" "a_local a = 0" "a_hits a = [[]]"
proof -
  have v: "spec_valid hit_full_spec" "0 < block_size_of hit_full_spec" by (simp_all add: spec_valid_def hit_full_spec_def)
  show "a_local a = 0" "a_hits a = [[]]" using assms(4,5) by (simp_all add: a_def slot_args_def empty_kv_cache_blocks_def Let_def)
  then show "managers_ready a (km_pool km) (a_hits a) (single_type_managers (coordinator_of km))"
    using new_manager_ok(1) [OF assms(1) v, of 1 1 True 0] v assms(2,3)
    by (simp add: managers_ready_def arg_ready_def a_def slot_args_def is_shared_empty_def empty_kv_cache_blocks_def Let_def simple_manager_def
        is_aligned_mamba_def SingleTypeKVCacheManager_def hit_full_spec_def skipped_blocks_def get_num_skipped_tokens_def is_cross_def)
qed

lemma first_allocation_need:
  assumes "c = (coordinator_of km)" and "single_type_managers c = [SingleTypeKVCacheManager hit_full_spec p True 0 1 1]"
    and "coord_remove_skipped_blocks rid 0 c = Inr c'" and "coord_get_num_blocks_to_allocate rid n [[]] 0 0 t c' = Inr (k, c'')"
  shows "c' = c" "k = max 0 (cdiv n 2)"
proof -
  have m: "get_num_skipped_tokens (SingleTypeKVCacheManager hit_full_spec p True 0 1 1) x = 0" for x
    by (simp add: get_num_skipped_tokens_def SingleTypeKVCacheManager_def hit_full_spec_def)
  show c': "c' = c" using assms(2,3) m
    by (auto simp: coord_remove_skipped_blocks_def with_managers_def no_result_def remove_skipped_blocks_def base_remove_skipped_blocks_def
        SingleTypeKVCacheManager_def hit_full_spec_def)
  show "k = max 0 (cdiv n 2)" using assms(2,4) c'
    by (auto simp: coord_get_num_blocks_to_allocate_def with_managers_def need_of_def is_cross_def get_num_blocks_to_allocate_def
        base_get_num_blocks_to_allocate_def SingleTypeKVCacheManager_def hit_full_spec_def py_index_def blocks_of_req_def Let_def
        get_num_evictable_blocks_def get_num_skipped_tokens_def max.commute)
qed

theorem allocate_slots_never_short_witness:
  "\<exists>km b km'. KVCacheManager (one_group_config 4) 16 2 True False False False False 1 1 = Inr km
     \<and> allocate_slots toy_env (sample_request [1, 2, 3] 2) 3 0 None 0 0 True 0 km = Inr (Some b, sample_request [1, 2, 3] 2, km')
     \<and> list_all (\<lambda>m. cdiv (demand m 3 0) (int (mgr_block_size m)) \<le> int (length (blocks_of_req m ''r''))) (single_type_managers (coordinator_of km'))"
proof -
  obtain km p where km: "KVCacheManager (one_group_config 4) 16 2 True False False False False 1 1 = Inr km" "km_reachable toy_env km"
      "pool_inv p (map Blk [1..<4])" "km_pool km = p" "km_max_model_len km = 16"
      "single_type_managers (coordinator_of km) = [SingleTypeKVCacheManager hit_full_spec p True 0 1 1]" "num_kv_cache_groups km = 1"
    using small_manager [of toy_env] by auto
  let ?r = "sample_request [1, 2, 3] 2" and ?c = "coordinator_of km"
  define a where "a = slot_args ?r 3 0 None 0 0 0 km"
  have r: "num_computed_tokens ?r = 0" "request_id ?r = ''r''" by (simp_all add: sample_request_def)
  note F = first_allocation_ready [OF km(3,6,4,7) r(1), of 3, folded a_def]
  have sl: "a_slots a = 3" using km(5) r(1) by (simp add: a_def slot_args_def Let_def)
  have le: "a_local a + 0 \<le> km_max_model_len km" using F(2) km(5) by simp
  obtain c k where A: "coord_remove_skipped_blocks (request_id ?r) (a_local a + 0) ?c = Inr c"
     "coord_get_num_blocks_to_allocate (request_id ?r) (a_slots a) (a_hits a) 0 (a_local a + 0) (a_local a + 0 + 3) c = Inr (k, c)"
     "\<not> get_num_free_blocks (coord_pool c) < k \<Longrightarrow> \<exists>news c2.
        (\<forall>m \<in> set (single_type_managers c2). cdiv (demand m (a_slots a) 0) (int (mgr_block_size m)) \<le> int (length (blocks_of_req m (request_id ?r))))
        \<and> allocate_slots toy_env ?r 3 0 None 0 0 True 0 km = Inr (Some (create_kv_cache_blocks news km), ?r, km\<lparr>coordinator_of := c2\<rparr>)"
    using allocate_slots_never_short [OF km(2) a_def F(1) _ _ _ _ _ le, where env = toy_env and delay = True] r(1) by (auto split: if_splits)
  have K: "c = ?c" "k = 2" using first_allocation_need [OF refl km(6), of "''r''" c 3 3 k c] A(1,2) F(2,3) sl r(2) by (simp_all add: cdiv_def)
  have "get_num_free_blocks (km_pool km) = 3" using pool_invD(7) [OF km(3)] km(4) by (simp add: get_num_free_blocks_def)
  then obtain news c2 where N: "\<forall>m \<in> set (single_type_managers c2). cdiv (demand m 3 0) (int (mgr_block_size m)) \<le> int (length (blocks_of_req m ''r''))"
     "allocate_slots toy_env ?r 3 0 None 0 0 True 0 km = Inr (Some (create_kv_cache_blocks news km), ?r, km\<lparr>coordinator_of := c2\<rparr>)"
    using A(3) K sl r(2) by auto
  then show ?thesis using km(1)
    by (intro exI [of _ km] exI [of _ "create_kv_cache_blocks news km"] exI [of _ "km\<lparr>coordinator_of := c2\<rparr>"]) (simp add: list_all_iff)
qed

text \<open>A request that holds two blocks.\<close>

lemma small_allocation:
  "\<exists>km. km_reachable toy_env km \<and> list_ex (\<lambda>bs. 2 \<le> length bs) (coord_get_blocks ''r'' (coordinator_of km))"
proof -
  obtain km p where km: "km_reachable toy_env km" "pool_inv p (map Blk [1..<4])" "km_pool km = p" "km_max_model_len km = 16"
      "single_type_managers (coordinator_of km) = [SingleTypeKVCacheManager hit_full_spec p True 0 1 1]" "num_kv_cache_groups km = 1"
    using small_manager [of toy_env] by auto
  let ?r = "sample_request [1, 2, 3] 2"
  define a where "a = slot_args ?r 3 0 None 0 0 0 km"
  have r: "num_computed_tokens ?r = 0" "request_id ?r = ''r''" by (simp_all add: sample_request_def)
  note F = first_allocation_ready [OF km(2,5,3,6) r(1), of 3, folded a_def]
  have sl: "a_slots a = 3" using km(4) r(1) by (simp add: a_def slot_args_def Let_def)
  have le: "a_local a + 0 \<le> km_max_model_len km" using F(2) km(4) by simp
  obtain c k where A: "coord_remove_skipped_blocks ''r'' 0 (coordinator_of km) = Inr c"
     "coord_get_num_blocks_to_allocate ''r'' 3 [[]] 0 0 3 c = Inr (k, c)"
     "\<not> get_num_free_blocks (coord_pool c) < k \<Longrightarrow> \<exists>news c2. list_all2 same_config (single_type_managers (coordinator_of km)) (single_type_managers c2)
        \<and> (\<forall>m \<in> set (single_type_managers c2). cdiv (demand m 3 0) (int (mgr_block_size m)) \<le> int (length (blocks_of_req m ''r'')))
        \<and> allocate_slots toy_env ?r 3 0 None 0 0 True 0 km = Inr (Some (create_kv_cache_blocks news km), ?r, km\<lparr>coordinator_of := c2\<rparr>)"
    using allocate_slots_run [OF km_reachable_inv [OF km(1)] a_def F(1) _ _ _ _ _ le, where env = toy_env and delay = True] r F(2,3) sl
    by (auto split: if_splits)
  have K: "c = coordinator_of km" "k = 2" using first_allocation_need [OF refl km(5), of "''r''" c 3 3 k c] A(1,2) by (simp_all add: cdiv_def)
  have "get_num_free_blocks (km_pool km) = 3" using pool_invD(7) [OF km(2)] km(3) by (simp add: get_num_free_blocks_def)
  then obtain news c2 where N: "list_all2 same_config (single_type_managers (coordinator_of km)) (single_type_managers c2)"
     "\<forall>m \<in> set (single_type_managers c2). cdiv (demand m 3 0) (int (mgr_block_size m)) \<le> int (length (blocks_of_req m ''r''))"
     "allocate_slots toy_env ?r 3 0 None 0 0 True 0 km = Inr (Some (create_kv_cache_blocks news km), ?r, km\<lparr>coordinator_of := c2\<rparr>)"
    using A(3) K by auto
  obtain m where m: "single_type_managers c2 = [m]" "mgr_spec m = hit_full_spec" "mgr_block_size m = 2"
    using N(1) km(5) by (auto simp: list_all2_Cons1 same_config_def SingleTypeKVCacheManager_def hit_full_spec_def)
  then have "2 \<le> length (blocks_of_req m ''r'')" using N(2) by (simp add: demand_def cdiv_def hit_full_spec_def)
  moreover have "hits_ok (coordinator_of km) (blocks_by_group (empty_kv_cache_blocks km)) 0"
    using km(5,6) by (simp add: hits_ok_def empty_kv_cache_blocks_def held_ok_def)
  then have "km_reachable toy_env (km\<lparr>coordinator_of := c2\<rparr>)"
    using km_reachable.Step [OF km(1) km_step.Allocate [OF N(3)]] km(4) r(1) by simp
  ultimately show ?thesis using m(1) by (intro exI [of _ "km\<lparr>coordinator_of := c2\<rparr>"]) (simp add: coord_get_blocks_def)
qed

theorem km_free_releases_witness:
  "\<exists>km km'. km_reachable toy_env km \<and> list_ex (\<lambda>bs. 2 \<le> length bs) (coord_get_blocks ''r'' (coordinator_of km))
     \<and> km_free (sample_request [1, 2, 3] 2) km = Inr km' \<and> list_all (\<lambda>bs. bs = []) (coord_get_blocks ''r'' (coordinator_of km'))
     \<and> (\<forall>b \<in> usable (km_pool km). ref_cnt (heap (km_pool km') b) = ref_cnt (heap (km_pool km) b) - entries ''r'' b km)"
proof -
  obtain km where km: "km_reachable toy_env km" "list_ex (\<lambda>bs. 2 \<le> length bs) (coord_get_blocks ''r'' (coordinator_of km))"
    using small_allocation by blast
  have "request_id (sample_request [1, 2, 3] 2) = ''r''" by (simp add: sample_request_def)
  then obtain km' where "km_free (sample_request [1, 2, 3] 2) km = Inr km'" "list_all (\<lambda>bs. bs = []) (coord_get_blocks ''r'' (coordinator_of km'))"
     "\<forall>b \<in> usable (km_pool km). ref_cnt (heap (km_pool km') b) = ref_cnt (heap (km_pool km) b) - entries ''r'' b km"
    using km_free_releases [OF km(1), of "sample_request [1, 2, 3] 2"] by auto
  then show ?thesis using km by (intro exI [of _ km] exI [of _ km']) simp
qed

section \<open>The null block is missing from the pool\<close>

text \<open>The blocks in a list of a request and the free blocks are different blocks, none of them the null block.\<close>

lemma held_and_free:
  assumes "coord_inv c" and "pool_inv (coord_pool c) xs" and "m \<in> set (single_type_managers c)" and "Blk 0 \<notin> set (blocks_of_req m rid)"
    and "0 < num_gpu_blocks (coord_pool c)"
  shows "length (blocks_of_req m rid) + length xs < num_gpu_blocks (coord_pool c)"
proof -
  let ?p = "coord_pool c" and ?bs = "blocks_of_req m rid"
  have ok: "mgr_ok ?p m" using assms(1,3) by (simp add: coord_inv_def)
  note h = held_okD [OF ok, of rid] and I = pool_invD [OF assms(2)]
  have "filter (\<lambda>b. b \<noteq> Blk 0) ?bs = ?bs" using assms(4) by (auto simp: filter_id_conv)
  then have d: "distinct ?bs" "set ?bs \<subseteq> usable ?p" using h assms(4) by (auto simp: held_ok_def holdable_def)
  have "ref_cnt (heap ?p b) \<noteq> 0" if "b \<in> set ?bs" for b
  proof -
    have "0 < count_list ?bs b" using that by (meson count_list_0_iff gr0I)
    moreover have "count_list ?bs b \<le> occ m b"
    proof (cases "map_of (req_to_blocks m) rid")
      case (Some l)
      then have "l = ?bs" "(rid, l) \<in> set (req_to_blocks m)" by (auto simp: blocks_of_req_def dest: map_of_SomeD)
      then obtain d1 d2 where "req_to_blocks m = d1 @ (rid, ?bs) # d2" using split_list by metis
      then show ?thesis by (simp add: occ_def)
    qed (simp add: blocks_of_req_def)
    moreover have "int (occ m b) \<le> total_occ (single_type_managers c) b"
    proof -
      obtain ms1 ms2 where "single_type_managers c = ms1 @ m # ms2" using split_list [OF assms(3)] by blast
      then show ?thesis using total_occ_simps(3) [of ms1 b] total_occ_simps(3) [of ms2 b] by (simp add: total_occ_def)
    qed
    moreover have "ref_cnt (heap ?p b) = total_occ (single_type_managers c) b" using assms(1) that d(2) by (auto simp: coord_inv_def)
    ultimately show ?thesis by linarith
  qed
  then have "set ?bs \<inter> set xs = {}" using I(4) by auto
  then have "length ?bs + length xs = card (set ?bs \<union> set xs)" using d(1) I(6) by (simp add: card_Un_disjoint distinct_card)
  also have "\<dots> \<le> card (usable ?p)" using d(2) I(4) by (intro card_mono) (auto simp: usable_def)
  also have "\<dots> \<le> num_gpu_blocks ?p - 1" unfolding usable_def using card_image_le [of "{1..<num_gpu_blocks ?p}" Blk] by simp
  finally show ?thesis using assms(5) by linarith
qed

text \<open>
  A request that fills the whole pool of \<open>n\<close> blocks never gets its last slots: whatever blocks it holds,
  the missing ones are more than the free ones, because the null block is never free.
\<close>

lemma full_length_refused:
  assumes "km_reachable env' km" and "single_type_managers (coordinator_of km) = [m]" and "mgr_spec m = FullAttentionSpec s"
    and "num_gpu_blocks (km_pool km) = n" and "km_max_model_len km = int n * int (mgr_block_size m)" and "num_kv_cache_groups km = 1"
    and "Blk 0 \<notin> set (blocks_of_req m (request_id r))"
    and "0 \<le> num_computed_tokens r" "num_computed_tokens r < int n * int (mgr_block_size m)"
  shows "\<exists>km'. allocate_slots env r (int n * int (mgr_block_size m) - num_computed_tokens r) 0 None 0 0 delay 0 km = Inr (None, r, km')"
proof -
  let ?c = "coordinator_of km" and ?bs = "int (mgr_block_size m)" and ?rid = "request_id r" and ?t = "num_computed_tokens r"
  note inv = km_reachable_inv [OF assms(1)]
  have ok: "mgr_ok (km_pool km) m" "spec_valid (mgr_spec m)" using inv assms(2) by (auto simp: coord_inv_def)
  have pos: "0 < ?bs" using ok(1) by (simp add: mgr_ok_def)
  define a where "a = slot_args r (int n * ?bs - ?t) 0 None 0 0 0 km"
  have A: "a_local a = ?t" "a_hits a = [[]]" "a_slots a = int n * ?bs" "a_prefix a = False" "a_rid a = ?rid" "a_external a = 0"
    using assms(5,6,9) by (simp_all add: a_def slot_args_def empty_kv_cache_blocks_def is_shared_empty_def Let_def)
  have skip: "get_num_skipped_tokens m x = 0" for x by (simp add: get_num_skipped_tokens_def assms(3))
  have ready: "managers_ready a (km_pool km) (a_hits a) (single_type_managers ?c)"
    using ok assms(2,3) A by (simp add: managers_ready_def arg_ready_def simple_manager_def is_aligned_mamba_def skipped_blocks_def skip is_cross_def)
  have "\<not> (int n * ?bs - ?t = 0 \<and> (0::int) = 0)" "a_local a + 0 \<le> km_max_model_len km" using assms(5,9) A(1) by simp_all
  note run = allocate_slots_run [OF inv a_def ready _ _ _ _ this assms(8), of env delay]
  obtain c k where R: "coord_remove_skipped_blocks ?rid ?t ?c = Inr c" "coord_get_num_blocks_to_allocate ?rid (int n * ?bs) [[]] 0 ?t (int n * ?bs) c = Inr (k, c)"
     "get_num_free_blocks (coord_pool c) < k \<Longrightarrow> ?thesis"
    using run assms(9) unfolding A by (auto split: if_splits)
  have c: "c = ?c" using R(1) assms(2,3) skip
    by (auto simp: coord_remove_skipped_blocks_def with_managers_def no_result_def remove_skipped_blocks_def base_remove_skipped_blocks_def)
  have "base_get_num_blocks_to_allocate ?rid (int n * ?bs) [] ?t m (km_pool km)
      = Inr (max 0 (cdiv (int n * ?bs) ?bs - int (length (blocks_of_req m ?rid))))"
    by (rule base_need_no_hit) (simp add: skipped_blocks_def skip)
  then have k: "k = max 0 (int n - int (length (blocks_of_req m ?rid)))" using R(2) assms(2,3) c pos
    by (auto simp: coord_get_num_blocks_to_allocate_def with_managers_def need_of_def is_cross_def get_num_blocks_to_allocate_def py_index_def)
  obtain xs where xs: "pool_inv (km_pool km) xs" using inv by (auto simp: coord_inv_def)
  have "length (blocks_of_req m ?rid) + length xs < n" using held_and_free [OF inv xs _ assms(7)] assms(2,4,8,9) by (cases "n = 0") auto
  moreover have "get_num_free_blocks (km_pool km) = int (length xs)" using pool_invD(7) [OF xs] by (simp add: get_num_free_blocks_def)
  ultimately show ?thesis using R(3) k c by simp
qed

section \<open>Prefix hits are admissible\<close>

lemma blocks_for_held:
  assumes "blocks_for p g hs bs" and "distinct hs" and "0 \<le> g" "g < 2 ^ 32"
  shows "held_ok p bs"
proof -
  have b: "length bs = length hs" "\<And>i. i < length hs \<Longrightarrow> bs ! i \<in> usable p \<and> block_hash (heap p (bs ! i)) = Some (group_key (hs ! i) g)"
    using assms(1) by (auto simp: blocks_for_def block_for_def list_all2_conv_all_nth)
  have "bs ! i \<noteq> bs ! j" if "i < length bs" "j < length bs" "i \<noteq> j" for i j
  proof
    assume "bs ! i = bs ! j"
    then have "group_key (hs ! i) g = group_key (hs ! j) g" using b(2) [of i] b(2) [of j] that b(1) by auto
    then have "hs ! i = hs ! j" using group_key_inj [OF assms(3,4,3,4)] by blast
    then show False using assms(2) that b(1) by (simp add: nth_eq_iff_index_eq)
  qed
  then have "distinct bs" by (simp add: distinct_conv_nth)
  moreover have "set bs \<subseteq> usable p" using b by (auto simp: in_set_conv_nth)
  ultimately show ?thesis by (auto simp: held_ok_def holdable_def)
qed

text \<open>A manager for one full attention group.\<close>

definition unitary_full :: "kv_manager \<Rightarrow> layer_spec \<Rightarrow> manager \<Rightarrow> bool" where
  "unitary_full km spec m \<longleftrightarrow> (let c = coordinator_of km in coord_class c = UnitaryKVCacheCoordinator \<and> group_specs c = [spec]
     \<and> single_type_managers c = [m] \<and> as_full spec \<noteq> None \<and> mgr_block_size m = full_block_size spec (coord_dcp c) (coord_pcp c)
     \<and> coord_block_size c = mgr_block_size m \<and> num_kv_cache_groups km = 1 \<and> km_enable_caching km)"

text \<open>
  C10. For a manager with one full attention group and a request whose block hashes are distinct, the prefix that a
  lookup returns is what an allocation may be given: the hit leaves at least one token of the request
  to compute, its length is the number of blocks times the block size, and the blocks are cached blocks for the leading
  block hashes of the request, none of them twice. The lookup changes the statistics only. The invariant assumed
  here holds in every reachable state.
\<close>

theorem computed_blocks_admissible:
  assumes "coord_inv (coordinator_of km)" and "unitary_full km spec m" and "km_log_stats km \<longrightarrow> prefix_cache_stats_of km \<noteq> None"
    and "distinct (block_hashes r)" and "0 < num_tokens r" and "\<not> skip_reading_prefix_cache r"
  shows "\<exists>blocks n km' bs. get_computed_blocks r km = Inr (blocks, n, km') \<and> coordinator_of km' = coordinator_of km
     \<and> n < num_tokens r \<and> hits_ok (coordinator_of km) (blocks_by_group blocks) (int n)
     \<and> blocks_by_group blocks = [bs] \<and> n = length bs * mgr_block_size m \<and> blocks_for (km_pool km) 0 (take (length bs) (block_hashes r)) bs
     \<and> length bs = (let l = hit_length (km_pool km) [0] (take ((num_tokens r - 1) div mgr_block_size m) (block_hashes r))
                    in if coord_use_eagle (coordinator_of km) then l - 1 else l)"
proof -
  let ?c = "coordinator_of km" and ?hs = "block_hashes r"
  note inv = assms(1)
  then obtain xs where xs: "pool_inv (km_pool km) xs" by (auto simp: coord_inv_def)
  have U: "coord_class ?c = UnitaryKVCacheCoordinator" "group_specs ?c = [spec]" "single_type_managers ?c = [m]" "as_full spec \<noteq> None"
     "mgr_block_size m = full_block_size spec (coord_dcp ?c) (coord_pcp ?c)" "coord_block_size ?c = mgr_block_size m" "num_kv_cache_groups km = 1"
     "km_enable_caching km"
    using assms(2) by (auto simp: unitary_full_def Let_def)
  have bs: "0 < mgr_block_size m" using inv U(3) by (simp add: coord_inv_def mgr_ok_def)
  have v: "view_from (Hash_list ?hs) 0 = Inr ?hs" by simp
  define k where "k = (let n = hit_length (km_pool km) [0] (take ((num_tokens r - 1) div mgr_block_size m) ?hs) in if coord_use_eagle ?c then n - 1 else n)"
  obtain c l where c: "full_find_longest_cache_hit (km_pool km) spec (Hash_list ?hs) (num_tokens r - 1) [0] (coord_use_eagle ?c) (mgr_block_size m) (coord_dcp ?c) (coord_pcp ?c) = Inr c"
      "length c = 1" "blocks_for (km_pool km) 0 (take l ?hs) (c ! 0)" "l \<le> k" "\<forall>q. l < q \<longrightarrow> q \<le> k \<longrightarrow> q * mgr_block_size m mod mgr_block_size m \<noteq> 0"
    using full_find_spec [OF xs groups_valid_0 U(4,5) bs bs v k_def] by auto
  have "k \<le> length (take ((num_tokens r - 1) div mgr_block_size m) ?hs)"
  proof -
    have "hit_length (km_pool km) [0] (take ((num_tokens r - 1) div mgr_block_size m) ?hs) \<le> length (take ((num_tokens r - 1) div mgr_block_size m) ?hs)"
      unfolding hit_length_def by (rule length_takeWhile_le)
    moreover have "k \<le> hit_length (km_pool km) [0] (take ((num_tokens r - 1) div mgr_block_size m) ?hs)" by (simp add: k_def Let_def)
    ultimately show ?thesis by (rule le_trans [rotated])
  qed
  moreover have lk: "l = k" using c(4,5) by (auto simp: order_le_less)
  ultimately have l: "l \<le> length ?hs" "l \<le> (num_tokens r - 1) div mgr_block_size m" using c(4) by auto
  obtain b where b: "c = [b]" using c(2) by (auto simp: length_Suc_conv)
  have len: "length b = l" using blocks_for_length [OF c(3)] l(1) b by simp
  have cls: "\<exists>cls. spec_manager_map spec = Some cls \<and> Cache_Hit.find_longest_cache_hit cls = full_find_longest_cache_hit" using U(4) by (cases spec) auto
  then have find: "coord_find_longest_cache_hit ?hs (num_tokens r - 1) ?c = Inr ([b], l * mgr_block_size m)"
    using U(1,2,6) c(1) b len by (auto simp: coord_find_longest_cache_hit_def py_index_def)
  obtain km' where km': "get_computed_blocks r km = Inr (create_kv_cache_blocks [b] km', l * mgr_block_size m, km')" "coordinator_of km' = ?c"
      "num_kv_cache_groups km' = 1"
    using U(7,8) assms(3,6) find by (cases "km_log_stats km") (auto simp: get_computed_blocks_def)
  let ?blocks = "create_kv_cache_blocks [b] km'"
  have bg: "blocks_by_group ?blocks = [b]" using km'(3) by (simp add: create_kv_cache_blocks_def empty_kv_cache_blocks_def)
  have "l * mgr_block_size m \<le> num_tokens r - 1" by (rule div_mult_bound [OF bs l(2)])
  then have "l * mgr_block_size m < num_tokens r" using assms(5) by linarith
  moreover have "held_ok (km_pool km) b" by (rule blocks_for_held [of _ 0 "take l ?hs"]) (use c(3) b assms(4) in auto)
  then have "hits_ok ?c (blocks_by_group ?blocks) (int (l * mgr_block_size m))" using U(3) len by (simp add: hits_ok_def bg)
  moreover have "length b = (let l = hit_length (km_pool km) [0] (take ((num_tokens r - 1) div mgr_block_size m) ?hs)
                    in if coord_use_eagle ?c then l - 1 else l)" using len lk by (simp add: k_def)
  ultimately show ?thesis using km'(1,2) bg len c(3) b
    by (intro exI [of _ ?blocks] exI [of _ "l * mgr_block_size m"] exI [of _ km'] exI [of _ b]) auto
qed

theorem computed_blocks_admissible_witness:
  "\<exists>km blocks b. cached_in (km_pool km) [0] [9] \<and> blocks_by_group blocks = [[b]]
     \<and> get_computed_blocks ((sample_request [1, 2, 3] 2)\<lparr>block_hashes := [[9]]\<rparr>) km = Inr (blocks, 2, km)"
proof -
  obtain p where p: "pool_inv p (map Blk [1..<4])" "usable p = Blk ` {1..<4}" "cached_in p [0] [9]" using hit_pool_example by blast
  let ?m = "SingleTypeKVCacheManager hit_full_spec p True 0 1 1" and ?r = "(sample_request [1, 2, 3] 2)\<lparr>block_hashes := [[9]]\<rparr>"
  let ?c = "\<lparr>coord_class = UnitaryKVCacheCoordinator, group_specs = [hit_full_spec], coord_enable_caching = True, coord_use_eagle = False,
     coord_pool = p, single_type_managers = [?m], coord_block_size = 2, coord_dcp = 1, coord_pcp = 1, coord_hash_block_size = 2, attention_groups = [], lcm_block_size = 0\<rparr>"
  let ?km = "\<lparr>km_max_model_len = 16, km_enable_caching = True, km_log_stats = False, prefix_cache_stats_of = None, coordinator_of = ?c, num_kv_cache_groups = 1\<rparr>"
  have v: "spec_valid hit_full_spec" "0 < block_size_of hit_full_spec" by (simp_all add: spec_valid_def hit_full_spec_def)
  have "ref_cnt (heap p b) = 0" if "b \<in> usable p" for b using pool_invD(4) [OF p(1)] p(2) that by auto
  then have inv: "coord_inv (coordinator_of ?km)"
    using p(1) v new_manager_ok [OF p(1) v, of 1 1 True 0] by (auto simp: coord_inv_def SingleTypeKVCacheManager_def [of hit_full_spec, THEN arg_cong [of _ _ mgr_spec]])
  have u: "unitary_full ?km hit_full_spec ?m" by (simp add: unitary_full_def full_block_size_def hit_full_spec_def SingleTypeKVCacheManager_def)
  have h: "hit_length p [0] (take ((num_tokens ?r - 1) div mgr_block_size ?m) (block_hashes ?r)) = 1"
    using p(3) by (simp add: hit_length_def num_tokens_def sample_request_def SingleTypeKVCacheManager_def hit_full_spec_def)
  have bs: "mgr_block_size ?m = 2" by (simp add: SingleTypeKVCacheManager_def hit_full_spec_def)
  have pre: "distinct (block_hashes ?r)" "0 < num_tokens ?r" "\<not> skip_reading_prefix_cache ?r" by (simp_all add: num_tokens_def sample_request_def)
  obtain blocks n km' bl where R: "get_computed_blocks ?r ?km = Inr (blocks, n, km')" "blocks_by_group blocks = [bl]" "n = length bl * 2" "length bl = 1"
    using computed_blocks_admissible [OF inv u _ pre] h unfolding bs by (auto simp: Let_def)
  moreover have "km' = ?km" using R(1) by (auto simp: get_computed_blocks_def rbind_eq_Inr split: if_splits)
  moreover obtain b where "bl = [b]" using R(4) by (auto simp: length_Suc_conv)
  ultimately show ?thesis using p(3) by (intro exI [of _ ?km] exI [of _ blocks] exI [of _ b]) simp
qed

end
