(* ===== verification/Offload.thy ===== *)
theory Offload
  imports Prelude "HOL-Library.Multiset"
begin

text \<open>
  KV data offloading, \<^verbatim>\<open>src/vllm/v1/kv_offload\<close>: the status of an offloaded block and the CPU
  backend that hands out block ids, the methods of the abstract class
  \<^verbatim>\<open>OffloadingManager\<close> as a record of functions on a state, the decorator
  \<^verbatim>\<open>FilterReusedOffloadingManager\<close>, which takes such a record, and the contract of a manager as
  a locale. The theories for the LRU and the ARC manager interpret it. A session is a
  sequence of calls that follows the protocol of the abstract class, together with the memory the
  workers write to; the locale proves once that sessions never lose or mix up data.
  An \<^verbatim>\<open>OrderedDict\<close> is an association list in its order, without repeated keys.
\<close>

section \<open>Block status and backend\<close>

text \<open>The C integer fields of a \<^verbatim>\<open>ctypes.Structure\<close> keep the low bits of what is assigned to them.\<close>

definition c_int :: "nat \<Rightarrow> int \<Rightarrow> int" where
  "c_int w x = (x + 2 ^ (w - 1)) mod 2 ^ w - 2 ^ (w - 1)"

record block_status =
  status_ref_cnt :: int
  status_block_id :: int

definition set_ref_cnt :: "int \<Rightarrow> block_status \<Rightarrow> block_status" where
  "set_ref_cnt n s = s\<lparr>status_ref_cnt := c_int 32 n\<rparr>"

definition CPUBlockStatus :: "int \<Rightarrow> block_status" where
  "CPUBlockStatus i = \<lparr>status_ref_cnt = c_int 32 (- 1), status_block_id = c_int 64 i\<rparr>"

definition is_ready :: "block_status \<Rightarrow> bool" where
  "is_ready s = (0 \<le> status_ref_cnt s)"

datatype load_store_spec = CPULoadStoreSpec (spec_block_ids: "int list")

record cpu_backend =
  backend_block_size :: nat
  backend_medium :: string
  backend_num_blocks :: int
  num_allocated_blocks :: int
  allocated_blocks_free_list :: "int list"

definition CPUBackend :: "nat \<Rightarrow> int \<Rightarrow> cpu_backend" where
  "CPUBackend bs n = \<lparr>backend_block_size = bs, backend_medium = ''CPU'', backend_num_blocks = n, num_allocated_blocks = 0,
     allocated_blocks_free_list = []\<rparr>"

definition backend_get_num_free_blocks :: "cpu_backend \<Rightarrow> int" where
  "backend_get_num_free_blocks b = int (length (allocated_blocks_free_list b)) + backend_num_blocks b - num_allocated_blocks b"

fun fresh_blocks :: "nat \<Rightarrow> cpu_backend \<Rightarrow> block_status list \<Rightarrow> block_status list \<times> cpu_backend" where
  "fresh_blocks 0 b blocks = (blocks, b)"
| "fresh_blocks (Suc n) b blocks =
     fresh_blocks n (b\<lparr>num_allocated_blocks := num_allocated_blocks b + 1\<rparr>) (blocks @ [CPUBlockStatus (num_allocated_blocks b)])"

fun reused_blocks :: "nat \<Rightarrow> cpu_backend \<Rightarrow> block_status list \<Rightarrow> (block_status list \<times> cpu_backend) result" where
  "reused_blocks 0 b blocks = Inr (blocks, b)"
| "reused_blocks (Suc n) b blocks =
     (if allocated_blocks_free_list b = [] then Inl IndexError
      else reused_blocks n (b\<lparr>allocated_blocks_free_list := butlast (allocated_blocks_free_list b)\<rparr>)
             (blocks @ [CPUBlockStatus (last (allocated_blocks_free_list b))]))"

definition allocate_blocks :: "bytes list \<Rightarrow> cpu_backend \<Rightarrow> (block_status list \<times> cpu_backend) result" where
  "allocate_blocks hs b =
     (let num_fresh_blocks = min (int (length hs)) (backend_num_blocks b - num_allocated_blocks b);
          num_reused_blocks = int (length hs) - num_fresh_blocks
      in rbind (ensure (num_reused_blocks \<le> int (length (allocated_blocks_free_list b))) AssertionError) (\<lambda>_.
         let (blocks, b) = fresh_blocks (nat num_fresh_blocks) b []
         in reused_blocks (nat num_reused_blocks) b blocks))"

definition backend_free :: "block_status \<Rightarrow> cpu_backend \<Rightarrow> cpu_backend" where
  "backend_free s b = b\<lparr>allocated_blocks_free_list := allocated_blocks_free_list b @ [status_block_id s]\<rparr>"

definition get_load_store_spec :: "block_status list \<Rightarrow> load_store_spec" where
  "get_load_store_spec blocks = CPULoadStoreSpec (map status_block_id blocks)"

section \<open>Ordered dictionaries\<close>

type_synonym 'v ordered_dict = "(bytes \<times> 'v) list"

definition move_to_end :: "bytes \<Rightarrow> 'v ordered_dict \<Rightarrow> 'v ordered_dict result" where
  "move_to_end h d = (case map_of d h of None \<Rightarrow> Inl KeyError | Some v \<Rightarrow> Inr (AList.delete h d @ [(h, v)]))"

section \<open>The interface\<close>

record prepare_store_output =
  block_hashes_to_store :: "bytes list"
  store_spec :: load_store_spec
  block_hashes_evicted :: "bytes list"

record offloading_event =
  event_block_hashes :: "bytes list"
  event_block_size :: nat
  event_medium :: string
  event_removed :: bool

text \<open>The methods of \<^verbatim>\<open>OffloadingManager\<close>; the state of the object is passed and returned.\<close>

record 'm offloading_ops =
  op_lookup :: "bytes list \<Rightarrow> 'm \<Rightarrow> nat option \<times> 'm"
  op_prepare_load :: "bytes list \<Rightarrow> 'm \<Rightarrow> (load_store_spec \<times> 'm) result"
  op_touch :: "bytes list \<Rightarrow> 'm \<Rightarrow> 'm result"
  op_complete_load :: "bytes list \<Rightarrow> 'm \<Rightarrow> 'm result"
  op_prepare_store :: "bytes list \<Rightarrow> 'm \<Rightarrow> (prepare_store_output option \<times> 'm) result"
  op_complete_store :: "bytes list \<Rightarrow> bool \<Rightarrow> 'm \<Rightarrow> 'm result"
  op_take_events :: "'m \<Rightarrow> offloading_event list \<times> 'm"

text \<open>The loop of \<^verbatim>\<open>lookup\<close>, for a function that reads the dictionaries of the manager.\<close>

fun hit_count :: "(bytes \<Rightarrow> block_status option) \<Rightarrow> bytes list \<Rightarrow> nat" where
  "hit_count get [] = 0"
| "hit_count get (h # hs) =
     (case get h of
        None \<Rightarrow> 0
      | Some s \<Rightarrow> if \<not> is_ready s then 0 else 1 + hit_count get hs)"

text \<open>\<^verbatim>\<open>if hashes and self.events is not None: self.events.append(OffloadingEvent(...))\<close>\<close>

definition add_offload_event :: "bytes list \<Rightarrow> bool \<Rightarrow> cpu_backend \<Rightarrow> offloading_event list option \<Rightarrow> offloading_event list option" where
  "add_offload_event hs removed b events =
     (if hs = [] then events
      else map_option (\<lambda>es. es @ [\<lparr>event_block_hashes = hs, event_block_size = backend_block_size b, event_medium = backend_medium b,
        event_removed = removed\<rparr>]) events)"

section \<open>FilterReusedOffloadingManager\<close>

record 'm filter_manager =
  backing :: 'm
  store_threshold :: int
  max_tracker_size :: int
  reuse_counts :: "int ordered_dict"

definition FilterReusedOffloadingManager :: "'m \<Rightarrow> int \<Rightarrow> int \<Rightarrow> 'm filter_manager result" where
  "FilterReusedOffloadingManager m threshold tracker_size =
     (if threshold < 2 then Inl ValueError
      else if tracker_size < 1 then Inl ValueError
      else Inr \<lparr>backing = m, store_threshold = threshold, max_tracker_size = tracker_size, reuse_counts = []\<rparr>)"

definition count_hash :: "bytes \<Rightarrow> 'm filter_manager \<Rightarrow> 'm filter_manager" where
  "count_hash h f =
     (case map_of (reuse_counts f) h of
        Some n \<Rightarrow> f\<lparr>reuse_counts := AList.delete h (reuse_counts f) @ [(h, n + 1)]\<rparr>
      | None \<Rightarrow>
          let counts = (if max_tracker_size f \<le> int (length (reuse_counts f)) then tl (reuse_counts f) else reuse_counts f)
          in f\<lparr>reuse_counts := AList.update h 1 counts\<rparr>)"

definition filter_lookup :: "'m offloading_ops \<Rightarrow> bytes list \<Rightarrow> 'm filter_manager \<Rightarrow> nat option \<times> 'm filter_manager" where
  "filter_lookup ops hs f =
     (let f = fold count_hash hs f; (n, m) = op_lookup ops hs (backing f) in (n, f\<lparr>backing := m\<rparr>))"

definition filter_prepare_store :: "'m offloading_ops \<Rightarrow> bytes list \<Rightarrow> 'm filter_manager
     \<Rightarrow> (prepare_store_output option \<times> 'm filter_manager) result" where
  "filter_prepare_store ops hs f =
     (let eligible = filter (\<lambda>h. store_threshold f \<le> (case map_of (reuse_counts f) h of None \<Rightarrow> 0 | Some n \<Rightarrow> n)) hs
      in rbind (op_prepare_store ops eligible (backing f)) (\<lambda>(res, m). Inr (res, f\<lparr>backing := m\<rparr>)))"

definition filter_ops :: "'m offloading_ops \<Rightarrow> 'm filter_manager offloading_ops" where
  "filter_ops ops =
     \<lparr>op_lookup = filter_lookup ops,
      op_prepare_load = (\<lambda>hs f. rbind (op_prepare_load ops hs (backing f)) (\<lambda>(s, m). Inr (s, f\<lparr>backing := m\<rparr>))),
      op_touch = (\<lambda>hs f. rbind (op_touch ops hs (backing f)) (\<lambda>m. Inr (f\<lparr>backing := m\<rparr>))),
      op_complete_load = (\<lambda>hs f. rbind (op_complete_load ops hs (backing f)) (\<lambda>m. Inr (f\<lparr>backing := m\<rparr>))),
      op_prepare_store = filter_prepare_store ops,
      op_complete_store = (\<lambda>hs ok f. rbind (op_complete_store ops hs ok (backing f)) (\<lambda>m. Inr (f\<lparr>backing := m\<rparr>))),
      op_take_events = (\<lambda>f. let (es, m) = op_take_events ops (backing f) in (es, f\<lparr>backing := m\<rparr>))\<rparr>"

section \<open>The backend hands out each block once\<close>

lemma c_int_id: "0 < w \<Longrightarrow> - (2 ^ (w - 1)) \<le> x \<Longrightarrow> x < 2 ^ (w - 1) \<Longrightarrow> c_int w x = x"
  by (cases w) (simp_all add: c_int_def)

lemma set_ref_cnt_small: "- 1 \<le> n \<Longrightarrow> n < 2 ^ 31 \<Longrightarrow> set_ref_cnt n s = s\<lparr>status_ref_cnt := n\<rparr>"
  by (simp add: set_ref_cnt_def c_int_id)

text \<open>The ids in use and the ids in the free list are, without repetition, the ids handed out so far.\<close>

definition backend_inv :: "cpu_backend \<Rightarrow> int list \<Rightarrow> bool" where
  "backend_inv b used \<longleftrightarrow> distinct (used @ allocated_blocks_free_list b)
     \<and> set (used @ allocated_blocks_free_list b) = {0..<num_allocated_blocks b}
     \<and> 0 \<le> num_allocated_blocks b \<and> num_allocated_blocks b \<le> backend_num_blocks b \<and> backend_num_blocks b \<le> 2 ^ 63"

lemma backend_inv_perm:
  assumes "mset used = mset used'"
  shows "backend_inv b used = backend_inv b used'"
proof -
  have "distinct used = distinct used'" "set used = set used'"
    using mset_eq_imp_distinct_iff [OF assms] mset_eq_setD [OF assms] by simp_all
  then show ?thesis by (simp add: backend_inv_def)
qed

lemma backend_inv_new: "0 \<le> n \<Longrightarrow> n \<le> 2 ^ 63 \<Longrightarrow> backend_inv (CPUBackend bs n) []"
  by (simp add: backend_inv_def CPUBackend_def)

lemma backend_inv_free:
  assumes "backend_inv b (status_block_id s # used)"
  shows "backend_inv (backend_free s b) used"
  using assms by (auto simp: backend_inv_def backend_free_def)

lemma backend_free_blocks:
  assumes "backend_inv b used"
  shows "backend_get_num_free_blocks b = backend_num_blocks b - int (length used)"
proof -
  have "length (used @ allocated_blocks_free_list b) = card {0..<num_allocated_blocks b}"
    using assms distinct_card [of "used @ allocated_blocks_free_list b"] by (simp add: backend_inv_def)
  then have "length used + length (allocated_blocks_free_list b) = nat (num_allocated_blocks b)" by simp
  moreover have "0 \<le> num_allocated_blocks b" using assms by (simp add: backend_inv_def)
  ultimately have "int (length used) + int (length (allocated_blocks_free_list b)) = num_allocated_blocks b" by linarith
  then show ?thesis by (simp add: backend_get_num_free_blocks_def)
qed

lemma backend_inv_nonneg: "backend_inv b used \<Longrightarrow> 0 \<le> backend_get_num_free_blocks b"
  by (simp add: backend_inv_def backend_get_num_free_blocks_def)

lemma new_block_status:
  assumes "0 \<le> i" and "i < 2 ^ 63"
  shows "status_ref_cnt (CPUBlockStatus i) = - 1" "status_block_id (CPUBlockStatus i) = i"
  using assms by (simp_all add: CPUBlockStatus_def c_int_id)

lemma fresh_blocks_spec:
  assumes "backend_inv b (used @ map status_block_id blocks)" and "int n \<le> backend_num_blocks b - num_allocated_blocks b"
    and "\<forall>s \<in> set blocks. status_ref_cnt s = - 1"
  shows "\<exists>new b'. fresh_blocks n b blocks = (blocks @ new, b') \<and> length new = n \<and> (\<forall>s \<in> set new. status_ref_cnt s = - 1)
     \<and> backend_inv b' (used @ map status_block_id (blocks @ new)) \<and> allocated_blocks_free_list b' = allocated_blocks_free_list b
     \<and> backend_num_blocks b' = backend_num_blocks b"
  using assms
proof (induction n arbitrary: b blocks)
  case (Suc n)
  let ?i = "num_allocated_blocks b" and ?b = "b\<lparr>num_allocated_blocks := num_allocated_blocks b + 1\<rparr>"
  have i: "status_ref_cnt (CPUBlockStatus ?i) = - 1" "status_block_id (CPUBlockStatus ?i) = ?i"
    using Suc.prems(1,2) new_block_status [of ?i] by (auto simp: backend_inv_def)
  have "backend_inv ?b (used @ map status_block_id (blocks @ [CPUBlockStatus ?i]))"
    using Suc.prems(1,2) by (auto simp: backend_inv_def i)
  from Suc.IH [OF this] Suc.prems(2,3) i obtain new b' where
    "fresh_blocks n ?b (blocks @ [CPUBlockStatus ?i]) = ((blocks @ [CPUBlockStatus ?i]) @ new, b')" "length new = n"
    "\<forall>s \<in> set new. status_ref_cnt s = - 1" "backend_inv b' (used @ map status_block_id ((blocks @ [CPUBlockStatus ?i]) @ new))"
    "allocated_blocks_free_list b' = allocated_blocks_free_list b" "backend_num_blocks b' = backend_num_blocks b"
    by auto
  then show ?case using i by (intro exI [of _ "CPUBlockStatus ?i # new"] exI [of _ b']) simp
qed simp

lemma reused_blocks_spec:
  assumes "backend_inv b (used @ map status_block_id blocks)" and "n \<le> length (allocated_blocks_free_list b)"
  shows "\<exists>new b'. reused_blocks n b blocks = Inr (blocks @ new, b') \<and> length new = n \<and> (\<forall>s \<in> set new. status_ref_cnt s = - 1)
     \<and> backend_inv b' (used @ map status_block_id (blocks @ new)) \<and> backend_num_blocks b' = backend_num_blocks b"
  using assms
proof (induction n arbitrary: b blocks)
  case (Suc n)
  obtain fl x where fl: "allocated_blocks_free_list b = fl @ [x]" using Suc.prems(2) by (cases "allocated_blocks_free_list b" rule: rev_cases) auto
  let ?b = "b\<lparr>allocated_blocks_free_list := fl\<rparr>"
  have "set (used @ map status_block_id blocks @ fl @ [x]) = {0..<num_allocated_blocks b}" "num_allocated_blocks b \<le> 2 ^ 63"
    using Suc.prems(1) fl by (simp_all add: backend_inv_def)
  moreover have "x \<in> set (used @ map status_block_id blocks @ fl @ [x])" by simp
  ultimately have x: "x \<in> {0..<num_allocated_blocks b}" "num_allocated_blocks b \<le> 2 ^ 63" by metis+
  then have i: "status_ref_cnt (CPUBlockStatus x) = - 1" "status_block_id (CPUBlockStatus x) = x"
    using new_block_status [of x] by auto
  have "backend_inv ?b (used @ map status_block_id (blocks @ [CPUBlockStatus x]))" using Suc.prems(1) fl by (auto simp: backend_inv_def i)
  from Suc.IH [OF this] Suc.prems(2) fl obtain new b' where
    "reused_blocks n ?b (blocks @ [CPUBlockStatus x]) = Inr ((blocks @ [CPUBlockStatus x]) @ new, b')" "length new = n"
    "\<forall>s \<in> set new. status_ref_cnt s = - 1" "backend_inv b' (used @ map status_block_id ((blocks @ [CPUBlockStatus x]) @ new))"
    "backend_num_blocks b' = backend_num_blocks b"
    by auto
  then show ?case using i fl by (intro exI [of _ "CPUBlockStatus x # new"] exI [of _ b']) simp
qed simp

lemma allocate_blocks_spec:
  assumes "backend_inv b used" and "int (length hs) \<le> backend_get_num_free_blocks b"
  shows "\<exists>new b'. allocate_blocks hs b = Inr (new, b') \<and> length new = length hs \<and> (\<forall>s \<in> set new. status_ref_cnt s = - 1)
     \<and> backend_inv b' (used @ map status_block_id new) \<and> backend_num_blocks b' = backend_num_blocks b"
proof -
  define f where "f = min (int (length hs)) (backend_num_blocks b - num_allocated_blocks b)"
  have f: "0 \<le> f" "f \<le> int (length hs)" "f \<le> backend_num_blocks b - num_allocated_blocks b"
      "int (length hs) - f \<le> int (length (allocated_blocks_free_list b))"
    using assms by (auto simp: f_def backend_inv_def backend_get_num_free_blocks_def)
  obtain fr b1 where fr: "fresh_blocks (nat f) b [] = (fr, b1)" "length fr = nat f" "\<forall>s \<in> set fr. status_ref_cnt s = - 1"
      "backend_inv b1 (used @ map status_block_id fr)" "allocated_blocks_free_list b1 = allocated_blocks_free_list b"
      "backend_num_blocks b1 = backend_num_blocks b"
    using fresh_blocks_spec [of b used "[]" "nat f"] assms(1) f by auto
  obtain re b2 where re: "reused_blocks (nat (int (length hs) - f)) b1 fr = Inr (fr @ re, b2)" "length re = nat (int (length hs) - f)"
      "\<forall>s \<in> set re. status_ref_cnt s = - 1" "backend_inv b2 (used @ map status_block_id (fr @ re))" "backend_num_blocks b2 = backend_num_blocks b1"
    using reused_blocks_spec [OF fr(4), of "nat (int (length hs) - f)"] f(4) unfolding fr(5) by (auto simp: nat_le_iff)
  have "allocate_blocks hs b = Inr (fr @ re, b2)" using f fr(1) re(1) unfolding allocate_blocks_def f_def [symmetric] by simp
  then show ?thesis using fr re f by (intro exI [of _ "fr @ re"] exI [of _ b2]) auto
qed

lemma allocate_blocks_frame:
  assumes "allocate_blocks hs b = Inr (blocks, b')"
  shows "backend_block_size b' = backend_block_size b \<and> backend_medium b' = backend_medium b \<and> backend_num_blocks b' = backend_num_blocks b"
proof -
  have "backend_block_size b' = backend_block_size b \<and> backend_medium b' = backend_medium b \<and> backend_num_blocks b' = backend_num_blocks b" if "fresh_blocks n b acc = (blocks, b')" for n b acc blocks b'
    using that by (induction n b acc rule: fresh_blocks.induct) auto
  moreover have "backend_block_size b' = backend_block_size b \<and> backend_medium b' = backend_medium b \<and> backend_num_blocks b' = backend_num_blocks b" if "reused_blocks n b acc = Inr (blocks, b')" for n b acc blocks b'
    using that by (induction n b acc rule: reused_blocks.induct) (auto split: if_splits)
  ultimately show ?thesis using assms by (fastforce simp: allocate_blocks_def Let_def rbind_eq_Inr split: prod.splits)
qed

section \<open>Sessions\<close>

lemma count_mset_list: "count (mset xs) x = count_list xs x"
  by (induction xs) auto

text \<open>
  A caller of a manager with what it has to remember, the loads that run and the stores that are not
  completed, and the memory of the offloading medium: the hash whose data each of its blocks holds.
\<close>

record 'm session =
  manager_of :: 'm
  loads :: "(bytes \<times> int) multiset"
  stores :: "bytes set"
  memory :: "int \<Rightarrow> bytes option"

definition write_blocks :: "bytes list \<Rightarrow> int list \<Rightarrow> (int \<Rightarrow> bytes option) \<Rightarrow> int \<Rightarrow> bytes option" where
  "write_blocks hs ids mem = (\<lambda>i. case map_of (zip ids hs) i of None \<Rightarrow> mem i | Some h \<Rightarrow> Some h)"

definition new_session :: "'m \<Rightarrow> 'm session" where
  "new_session m = \<lparr>manager_of = m, loads = {#}, stores = {}, memory = (\<lambda>_. None)\<rparr>"

text \<open>
  The protocol of the abstract class: only blocks found by a lookup are loaded, only loads that run and
  stores that were prepared are completed, and a store does not name a block twice. The reference
  counts of the blocks have 32 bits, so fewer than \<open>2 ^ 31\<close> loads run at a time.
\<close>

inductive session_step :: "'m offloading_ops \<Rightarrow> 'm session \<Rightarrow> 'm session \<Rightarrow> bool" for ops where
  Lookup: "op_lookup ops hs (manager_of s) = (n, m) \<Longrightarrow> session_step ops s (s\<lparr>manager_of := m\<rparr>)"
| Load: "fst (op_lookup ops hs (manager_of s)) = Some (length hs) \<Longrightarrow> int (size (loads s) + length hs) < 2 ^ 31 \<Longrightarrow>
    op_prepare_load ops hs (manager_of s) = Inr (spec, m) \<Longrightarrow>
    session_step ops s (s\<lparr>manager_of := m, loads := loads s + mset (zip hs (spec_block_ids spec))\<rparr>)"
| Touch: "op_touch ops hs (manager_of s) = Inr m \<Longrightarrow> session_step ops s (s\<lparr>manager_of := m\<rparr>)"
| Loaded: "length ids = length hs \<Longrightarrow> mset (zip hs ids) \<subseteq># loads s \<Longrightarrow> op_complete_load ops hs (manager_of s) = Inr m \<Longrightarrow>
    session_step ops s (s\<lparr>manager_of := m, loads := loads s - mset (zip hs ids)\<rparr>)"
| Store: "distinct hs \<Longrightarrow> op_prepare_store ops hs (manager_of s) = Inr (Some out, m) \<Longrightarrow>
    session_step ops s (s\<lparr>manager_of := m, stores := stores s \<union> set (block_hashes_to_store out),
      memory := write_blocks (block_hashes_to_store out) (spec_block_ids (store_spec out)) (memory s)\<rparr>)"
| Refused: "distinct hs \<Longrightarrow> op_prepare_store ops hs (manager_of s) = Inr (None, m) \<Longrightarrow> session_step ops s (s\<lparr>manager_of := m\<rparr>)"
| Stored: "distinct hs \<Longrightarrow> set hs \<subseteq> stores s \<Longrightarrow> op_complete_store ops hs success (manager_of s) = Inr m \<Longrightarrow>
    session_step ops s (s\<lparr>manager_of := m, stores := stores s - set hs\<rparr>)"
| Events: "op_take_events ops (manager_of s) = (es, m) \<Longrightarrow> session_step ops s (s\<lparr>manager_of := m\<rparr>)"

inductive session_reachable :: "'m offloading_ops \<Rightarrow> 'm \<Rightarrow> 'm session \<Rightarrow> bool" for ops m where
  Start: "session_reachable ops m (new_session m)"
| Step: "session_reachable ops m s \<Longrightarrow> session_step ops s s' \<Longrightarrow> session_reachable ops m s'"

inductive_cases session_stepE: "session_step ops s s'"

text \<open>
  What the protocol guarantees to the caller: running loads read the data of the block they were
  started for, a load after a full hit succeeds and names memory with the right data, and no call that the
  protocol allows raises.
\<close>

definition session_safe :: "'m offloading_ops \<Rightarrow> 'm session \<Rightarrow> bool" where
  "session_safe ops s \<longleftrightarrow>
     (\<forall>(h, i) \<in># loads s. memory s i = Some h)
   \<and> (\<forall>hs. fst (op_lookup ops hs (manager_of s)) = Some (length hs) \<longrightarrow> int (size (loads s) + length hs) < 2 ^ 31 \<longrightarrow>
        (\<exists>spec m. op_prepare_load ops hs (manager_of s) = Inr (spec, m) \<and> map (memory s) (spec_block_ids spec) = map Some hs))
   \<and> (\<forall>hs ids. length ids = length hs \<longrightarrow> mset (zip hs ids) \<subseteq># loads s \<longrightarrow> (\<exists>m. op_complete_load ops hs (manager_of s) = Inr m))
   \<and> (\<forall>hs. distinct hs \<longrightarrow> (\<exists>res m. op_prepare_store ops hs (manager_of s) = Inr (res, m)))
   \<and> (\<forall>hs success. distinct hs \<longrightarrow> set hs \<subseteq> stores s \<longrightarrow> (\<exists>m. op_complete_store ops hs success (manager_of s) = Inr m))"

section \<open>The contract of a manager\<close>

definition ready_in :: "(bytes \<Rightarrow> block_status option) \<Rightarrow> bytes \<Rightarrow> bool" where
  "ready_in d h \<longleftrightarrow> (\<exists>s. d h = Some s \<and> is_ready s)"

definition add_refs :: "(bytes \<Rightarrow> block_status option) \<Rightarrow> (bytes \<Rightarrow> int) \<Rightarrow> bytes \<Rightarrow> block_status option" where
  "add_refs d n = (\<lambda>h. map_option (\<lambda>s. s\<lparr>status_ref_cnt := status_ref_cnt s + n h\<rparr>) (d h))"

text \<open>Blocks that may be evicted: stored and not in use.\<close>

definition evictable :: "(bytes \<Rightarrow> block_status option) \<Rightarrow> bytes set \<Rightarrow> bool" where
  "evictable d E \<longleftrightarrow> (\<forall>h \<in> E. \<exists>s. d h = Some s \<and> status_ref_cnt s = 0)"

text \<open>The new blocks of a store: not ready, in blocks of their own that no kept block uses.\<close>

definition new_slots :: "(bytes \<Rightarrow> block_status option) \<Rightarrow> bytes list \<Rightarrow> int list \<Rightarrow> (bytes \<Rightarrow> block_status option) \<Rightarrow> bool" where
  "new_slots d hs ids d' \<longleftrightarrow> length ids = length hs
     \<and> (\<forall>h. h \<notin> set hs \<longrightarrow> d' h = d h)
     \<and> (\<forall>j < length hs. d' (hs ! j) = Some \<lparr>status_ref_cnt = - 1, status_block_id = ids ! j\<rparr>)"

locale offloading_manager =
  fixes ops :: "'m offloading_ops" and inv :: "'m \<Rightarrow> bool" and status_of :: "'m \<Rightarrow> bytes \<Rightarrow> block_status option"
  assumes status_range: "inv m \<Longrightarrow> status_of m h = Some s \<Longrightarrow> - 1 \<le> status_ref_cnt s"
    and own_block: "inv m \<Longrightarrow> status_of m h = Some s \<Longrightarrow> status_of m h' = Some s' \<Longrightarrow> status_block_id s = status_block_id s' \<Longrightarrow> h = h'"
    and lookup_ok: "inv m \<Longrightarrow> \<exists>m'. op_lookup ops hs m = (Some (length (takeWhile (ready_in (status_of m)) hs)), m') \<and> inv m' \<and> status_of m' = status_of m"
    and prepare_load_ok: "inv m \<Longrightarrow> \<forall>h \<in> set hs. ready_in (status_of m) h \<and> status_ref_cnt (the (status_of m h)) + int (count_list hs h) < 2 ^ 31 \<Longrightarrow>
      \<exists>m'. op_prepare_load ops hs m = Inr (CPULoadStoreSpec (map (\<lambda>h. status_block_id (the (status_of m h))) hs), m') \<and> inv m'
        \<and> status_of m' = add_refs (status_of m) (\<lambda>h. int (count_list hs h))"
    and touch_ok: "inv m \<Longrightarrow> \<exists>m'. op_touch ops hs m = Inr m' \<and> inv m' \<and> status_of m' = status_of m"
    and complete_load_ok: "inv m \<Longrightarrow> \<forall>h \<in> set hs. \<exists>s. status_of m h = Some s \<and> int (count_list hs h) \<le> status_ref_cnt s \<Longrightarrow>
      \<exists>m'. op_complete_load ops hs m = Inr m' \<and> inv m' \<and> status_of m' = add_refs (status_of m) (\<lambda>h. - int (count_list hs h))"
    and prepare_store_ok: "inv m \<Longrightarrow> distinct hs \<Longrightarrow> \<exists>res m' E. op_prepare_store ops hs m = Inr (res, m') \<and> inv m' \<and> evictable (status_of m) E
      \<and> (case res of
           None \<Rightarrow> status_of m' = status_of m |` (- E)
         | Some out \<Rightarrow> E = set (block_hashes_evicted out) \<and> set (block_hashes_to_store out) \<subseteq> set hs \<and> distinct (block_hashes_to_store out)
             \<and> (\<forall>h \<in> set (block_hashes_to_store out). status_of m h = None)
             \<and> new_slots (status_of m |` (- E)) (block_hashes_to_store out) (spec_block_ids (store_spec out)) (status_of m'))"
    and complete_store_ok: "inv m \<Longrightarrow> distinct hs \<Longrightarrow> \<forall>h \<in> set hs. \<exists>s. status_of m h = Some s \<and> status_ref_cnt s = - 1 \<Longrightarrow>
      \<exists>m'. op_complete_store ops hs success m = Inr m' \<and> inv m'
        \<and> status_of m' = (\<lambda>h. if h \<notin> set hs then status_of m h
             else if success then map_option (status_ref_cnt_update (\<lambda>_. 0)) (status_of m h) else None)"
    and take_events_ok: "inv m \<Longrightarrow> inv (snd (op_take_events ops m)) \<and> status_of (snd (op_take_events ops m)) = status_of m"
begin

definition session_inv :: "'m session \<Rightarrow> bool" where
  "session_inv s \<longleftrightarrow> inv (manager_of s)
     \<and> (\<forall>h. h \<in> stores s \<longleftrightarrow> (\<exists>st. status_of (manager_of s) h = Some st \<and> status_ref_cnt st = - 1))
     \<and> (\<forall>h st. status_of (manager_of s) h = Some st \<longrightarrow> is_ready st \<longrightarrow> status_ref_cnt st = int (count (image_mset fst (loads s)) h))
     \<and> (\<forall>(h, i) \<in># loads s. \<exists>st. status_of (manager_of s) h = Some st \<and> status_block_id st = i \<and> is_ready st)
     \<and> (\<forall>h st. status_of (manager_of s) h = Some st \<longrightarrow> memory s (status_block_id st) = Some h)"

lemma session_invI:
  assumes "inv m" and "\<And>h. h \<in> S \<longleftrightarrow> (\<exists>st. status_of m h = Some st \<and> status_ref_cnt st = - 1)"
    and "\<And>h st. status_of m h = Some st \<Longrightarrow> is_ready st \<Longrightarrow> status_ref_cnt st = int (count (image_mset fst L) h)"
    and "\<And>h i. (h, i) \<in># L \<Longrightarrow> \<exists>st. status_of m h = Some st \<and> status_block_id st = i \<and> is_ready st"
    and "\<And>h st. status_of m h = Some st \<Longrightarrow> mem (status_block_id st) = Some h"
  shows "session_inv \<lparr>manager_of = m, loads = L, stores = S, memory = mem\<rparr>"
  using assms unfolding session_inv_def by fastforce

lemma session_invD:
  assumes "session_inv s"
  shows "inv (manager_of s)" "h \<in> stores s \<longleftrightarrow> (\<exists>st. status_of (manager_of s) h = Some st \<and> status_ref_cnt st = - 1)"
    "status_of (manager_of s) h = Some st \<Longrightarrow> is_ready st \<Longrightarrow> status_ref_cnt st = int (count (image_mset fst (loads s)) h)"
    "(h, i) \<in># loads s \<Longrightarrow> \<exists>st. status_of (manager_of s) h = Some st \<and> status_block_id st = i \<and> is_ready st"
    "status_of (manager_of s) h = Some st \<Longrightarrow> memory s (status_block_id st) = Some h"
  using assms unfolding session_inv_def by (blast, blast, blast, fast, blast)

lemma same_status_inv:
  assumes "session_inv s" and "inv m" and "status_of m = status_of (manager_of s)"
  shows "session_inv (s\<lparr>manager_of := m\<rparr>)"
  using assms by (simp add: session_inv_def)

lemma new_session_inv: "inv m \<Longrightarrow> status_of m = Map.empty \<Longrightarrow> session_inv (new_session m)"
  by (simp add: session_inv_def new_session_def)

lemma all_hit:
  assumes "inv m" and "fst (op_lookup ops hs m) = Some (length hs)"
  shows "\<forall>h \<in> set hs. ready_in (status_of m) h"
proof -
  have "length (takeWhile (ready_in (status_of m)) hs) = length hs" using lookup_ok [OF assms(1), of hs] assms(2) by auto
  then have "takeWhile (ready_in (status_of m)) hs = hs" by (metis takeWhile_eq_take take_all_iff order_refl)
  then show ?thesis by (metis set_takeWhileD)
qed

lemma load_succeeds:
  assumes "session_inv s" and "fst (op_lookup ops hs (manager_of s)) = Some (length hs)" and "int (size (loads s) + length hs) < 2 ^ 31"
  shows "\<exists>m. op_prepare_load ops hs (manager_of s) = Inr (CPULoadStoreSpec (map (\<lambda>h. status_block_id (the (status_of (manager_of s) h))) hs), m)
     \<and> inv m \<and> status_of m = add_refs (status_of (manager_of s)) (\<lambda>h. int (count_list hs h))"
proof (rule prepare_load_ok [OF session_invD(1) [OF assms(1)]], intro ballI conjI)
  fix h assume h: "h \<in> set hs"
  show r: "ready_in (status_of (manager_of s)) h" using all_hit [OF session_invD(1) [OF assms(1)] assms(2)] h by blast
  then have "status_ref_cnt (the (status_of (manager_of s) h)) = int (count (image_mset fst (loads s)) h)"
    using session_invD(3) [OF assms(1)] by (auto simp: ready_in_def)
  moreover have "count (image_mset fst (loads s)) h \<le> size (loads s)" using count_le_size [of "image_mset fst (loads s)" h] by simp
  moreover have "count_list hs h \<le> length hs" by (rule count_le_length)
  ultimately show "status_ref_cnt (the (status_of (manager_of s) h)) + int (count_list hs h) < 2 ^ 31" using assms(3) by linarith
qed

lemma load_keeps:
  assumes "session_inv s" and "\<forall>h \<in> set hs. ready_in (status_of (manager_of s)) h" and "inv m"
    and "status_of m = add_refs (status_of (manager_of s)) (\<lambda>h. int (count_list hs h))"
  shows "session_inv (s\<lparr>manager_of := m, loads := loads s + mset (zip hs (map (\<lambda>h. status_block_id (the (status_of (manager_of s) h))) hs))\<rparr>)"
proof -
  let ?d = "status_of (manager_of s)"
  note I = session_invD [OF assms(1)]
  have fst: "image_mset fst (mset (zip hs (map (\<lambda>h. status_block_id (the (?d h))) hs))) = mset hs"
    by (simp flip: mset_map)
  have c: "count_list hs h = 0" if "?d h = Some st" "\<not> is_ready st" for h st
    using assms(2) that by (auto simp: ready_in_def count_list_0_iff)
  have st: "status_of m h = Some st' \<longleftrightarrow> (\<exists>st. ?d h = Some st \<and> st' = st\<lparr>status_ref_cnt := status_ref_cnt st + int (count_list hs h)\<rparr>)" for h st'
    by (auto simp: assms(4) add_refs_def)
  show ?thesis
  proof (rule subst [of _ _ session_inv, OF _ session_invI])
    show "inv m" by (rule assms(3))
    show "h \<in> stores s \<longleftrightarrow> (\<exists>st. status_of m h = Some st \<and> status_ref_cnt st = - 1)" for h
    proof
      assume "h \<in> stores s"
      then obtain t where t: "?d h = Some t" "status_ref_cnt t = - 1" using I(2) by blast
      then show "\<exists>st. status_of m h = Some st \<and> status_ref_cnt st = - 1" using c [OF t(1)] by (auto simp: st is_ready_def)
    next
      assume "\<exists>st. status_of m h = Some st \<and> status_ref_cnt st = - 1"
      then obtain t where t: "?d h = Some t" "status_ref_cnt t + int (count_list hs h) = - 1" by (auto simp: st)
      then show "h \<in> stores s" using c [OF t(1)] I(2) status_range [OF I(1) t(1)] by (auto simp: is_ready_def)
    qed
    show "status_ref_cnt st' = int (count (image_mset fst (loads s + mset (zip hs (map (\<lambda>h. status_block_id (the (?d h))) hs)))) h)"
      if h: "status_of m h = Some st'" "is_ready st'" for h st'
    proof -
      obtain t where t: "?d h = Some t" "st' = t\<lparr>status_ref_cnt := status_ref_cnt t + int (count_list hs h)\<rparr>" using h(1) by (auto simp: st)
      then have "is_ready t" using c [OF t(1)] h(2) by (auto simp: is_ready_def)
      then show ?thesis using I(3) [OF t(1)] t(2) by (simp add: fst count_mset_list)
    qed
    show "\<exists>st. status_of m h = Some st \<and> status_block_id st = i \<and> is_ready st"
      if "(h, i) \<in># loads s + mset (zip hs (map (\<lambda>h. status_block_id (the (?d h))) hs))" for h i
    proof -
      have "\<exists>t. ?d h = Some t \<and> status_block_id t = i \<and> is_ready t"
        using that I(4) assms(2) by (fastforce simp: zip_map2 in_set_zip ready_in_def)
      then show ?thesis by (auto simp: st is_ready_def)
    qed
    show "memory s (status_block_id st') = Some h" if "status_of m h = Some st'" for h st' using that I(5) by (auto simp: st)
  qed simp
qed

lemma running_loads:
  assumes "session_inv s" and "length ids = length hs" and "mset (zip hs ids) \<subseteq># loads s" and "h \<in> set hs"
  shows "\<exists>st. status_of (manager_of s) h = Some st \<and> is_ready st \<and> int (count_list hs h) \<le> status_ref_cnt st"
proof -
  obtain j where "j < length hs" "hs ! j = h" using assms(4) by (auto simp: in_set_conv_nth)
  then have "(h, ids ! j) \<in># mset (zip hs ids)" using assms(2) by (auto simp: in_set_zip)
  then have "(h, ids ! j) \<in># loads s" by (rule mset_subset_eqD [OF assms(3)])
  then obtain st where st: "status_of (manager_of s) h = Some st" "is_ready st" using session_invD(4) [OF assms(1)] by blast
  have "image_mset fst (mset (zip hs ids)) \<subseteq># image_mset fst (loads s)" by (rule image_mset_subseteq_mono [OF assms(3)])
  then have "count_list hs h \<le> count (image_mset fst (loads s)) h"
    using assms(2) mset_subset_eq_count [of "mset hs" _ h] by (simp add: count_mset_list flip: mset_map)
  then show ?thesis using session_invD(3) [OF assms(1) st] st by auto
qed

lemma load_completes:
  assumes "session_inv s" and "length ids = length hs" and "mset (zip hs ids) \<subseteq># loads s"
  shows "\<exists>m. op_complete_load ops hs (manager_of s) = Inr m \<and> inv m \<and> status_of m = add_refs (status_of (manager_of s)) (\<lambda>h. - int (count_list hs h))"
  using complete_load_ok [OF session_invD(1) [OF assms(1)]] running_loads [OF assms] by blast

lemma loaded_keeps:
  assumes "session_inv s" and "length ids = length hs" and "mset (zip hs ids) \<subseteq># loads s" and "inv m"
    and "status_of m = add_refs (status_of (manager_of s)) (\<lambda>h. - int (count_list hs h))"
  shows "session_inv (s\<lparr>manager_of := m, loads := loads s - mset (zip hs ids)\<rparr>)"
proof -
  let ?d = "status_of (manager_of s)"
  note I = session_invD [OF assms(1)] and R = running_loads [OF assms(1-3)]
  have diff: "count (image_mset fst (loads s - mset (zip hs ids))) h = count (image_mset fst (loads s)) h - count_list hs h" for h
    using assms(2) by (simp add: image_mset_Diff [OF assms(3)] count_mset_list flip: mset_map)
  have st: "status_of m h = Some st' \<longleftrightarrow> (\<exists>st. ?d h = Some st \<and> st' = st\<lparr>status_ref_cnt := status_ref_cnt st - int (count_list hs h)\<rparr>)" for h st'
    by (auto simp: assms(5) add_refs_def)
  have same: "is_ready (t\<lparr>status_ref_cnt := status_ref_cnt t - int (count_list hs h)\<rparr>) \<longleftrightarrow> is_ready t" if "?d h = Some t" for h t
  proof (cases "h \<in> set hs")
    case True
    then show ?thesis using R [OF True] that by (auto simp: is_ready_def)
  qed (simp add: count_list_0_iff is_ready_def)
  have r: "- 1 \<le> status_ref_cnt t - int (count_list hs h)" if "?d h = Some t" for h t
    using same [OF that] status_range [OF I(1) that] by (cases "h \<in> set hs") (use R [of h] that in \<open>auto simp: is_ready_def count_list_0_iff\<close>)
  show ?thesis
  proof (rule subst [of _ _ session_inv, OF _ session_invI])
    show "inv m" by (rule assms(4))
    show "h \<in> stores s \<longleftrightarrow> (\<exists>st. status_of m h = Some st \<and> status_ref_cnt st = - 1)" for h
    proof -
      have "status_ref_cnt t = - 1 \<longleftrightarrow> status_ref_cnt t - int (count_list hs h) = - 1" if "?d h = Some t" for t
        using same [OF that] r [OF that] status_range [OF I(1) that] by (auto simp: is_ready_def)
      then show ?thesis by (auto simp: I(2) st)
    qed
    show "status_ref_cnt st' = int (count (image_mset fst (loads s - mset (zip hs ids))) h)" if h: "status_of m h = Some st'" "is_ready st'" for h st'
    proof -
      obtain t where t: "?d h = Some t" "st' = t\<lparr>status_ref_cnt := status_ref_cnt t - int (count_list hs h)\<rparr>" using h(1) by (auto simp: st)
      then have ref: "status_ref_cnt t = int (count (image_mset fst (loads s)) h)" "is_ready t" using same [OF t(1)] h(2) I(3) [OF t(1)] by auto
      have "0 \<le> status_ref_cnt t - int (count_list hs h)" using h(2) t(2) by (simp add: is_ready_def)
      then show ?thesis unfolding diff using ref(1) t(2) by simp
    qed
    show "\<exists>st. status_of m h = Some st \<and> status_block_id st = i \<and> is_ready st" if "(h, i) \<in># loads s - mset (zip hs ids)" for h i
    proof -
      have "(h, i) \<in># loads s" using that by (rule in_diffD)
      then obtain t where t: "?d h = Some t" "status_block_id t = i" "is_ready t" using I(4) by blast
      then show ?thesis using same [OF t(1)] by (auto simp: st)
    qed
    show "memory s (status_block_id st') = Some h" if "status_of m h = Some st'" for h st' using that I(5) by (auto simp: st)
  qed simp
qed

lemma evict_keeps:
  assumes "session_inv s" and "evictable (status_of (manager_of s)) E"
  shows "h \<in> stores s \<Longrightarrow> h \<notin> E" "(h, i) \<in># loads s \<Longrightarrow> h \<notin> E"
proof -
  note I = session_invD [OF assms(1)]
  show "h \<in> stores s \<Longrightarrow> h \<notin> E" using assms(2) I(2) by (fastforce simp: evictable_def)
  assume h: "(h, i) \<in># loads s"
  show "h \<notin> E"
  proof
    assume "h \<in> E"
    then obtain st where st: "status_of (manager_of s) h = Some st" "status_ref_cnt st = 0" using assms(2) by (auto simp: evictable_def)
    then have "count (image_mset fst (loads s)) h = 0" using I(3) [OF st(1)] by (simp add: is_ready_def)
    moreover have "h \<in># image_mset fst (loads s)" using h by force
    ultimately show False using not_in_iff by metis
  qed
qed

lemma refused_keeps:
  assumes "session_inv s" and "evictable (status_of (manager_of s)) E" and "inv m" and "status_of m = status_of (manager_of s) |` (- E)"
  shows "session_inv (s\<lparr>manager_of := m\<rparr>)"
proof -
  note I = session_invD [OF assms(1)] and E = evict_keeps [OF assms(1,2)]
  have st: "status_of m h = Some t \<longleftrightarrow> h \<notin> E \<and> status_of (manager_of s) h = Some t" for h t by (auto simp: assms(4) restrict_map_def)
  show ?thesis
    by (rule subst [of _ _ session_inv, OF _ session_invI [of m "stores s" "loads s" "memory s"]])
      (use I E assms(3) in \<open>auto simp: st\<close>)
qed

lemma store_keeps:
  assumes "session_inv s" and "evictable (status_of (manager_of s)) E" and "inv m"
    and "distinct new" and "\<forall>h \<in> set new. status_of (manager_of s) h = None" and "new_slots (status_of (manager_of s) |` (- E)) new ids (status_of m)"
  shows "session_inv (s\<lparr>manager_of := m, stores := stores s \<union> set new, memory := write_blocks new ids (memory s)\<rparr>)"
proof -
  let ?d = "status_of (manager_of s)"
  note I = session_invD [OF assms(1)] and E = evict_keeps [OF assms(1,2)]
  have len: "length ids = length new" using assms(6) by (simp add: new_slots_def)
  have old: "status_of m h = Some t \<longleftrightarrow> h \<notin> E \<and> ?d h = Some t" if "h \<notin> set new" for h t
    using assms(6) that by (auto simp: new_slots_def restrict_map_def)
  have fresh: "status_of m (new ! j) = Some \<lparr>status_ref_cnt = - 1, status_block_id = ids ! j\<rparr>" if "j < length new" for j
    using assms(6) that by (simp add: new_slots_def)
  have "j = k" if "j < length new" "k < length new" "ids ! j = ids ! k" for j k
  proof -
    have "new ! j = new ! k" using own_block [OF assms(3) fresh [OF that(1)] fresh [OF that(2)]] that(3) by simp
    then show ?thesis using assms(4) that nth_eq_iff_index_eq by blast
  qed
  then have d: "distinct ids" by (auto simp: distinct_conv_nth len)
  have mem_new: "write_blocks new ids (memory s) (ids ! j) = Some (new ! j)" if "j < length new" for j
  proof -
    have "map_of (zip ids new) (ids ! j) = Some (new ! j)" using d that len by (intro map_of_is_SomeI) (auto simp: in_set_zip)
    then show ?thesis by (simp add: write_blocks_def)
  qed
  have mem_old: "write_blocks new ids (memory s) (status_block_id t) = memory s (status_block_id t)" if "h \<notin> set new" "status_of m h = Some t" for h t
  proof -
    have "status_block_id t \<notin> set ids"
    proof
      assume "status_block_id t \<in> set ids"
      then obtain j where "j < length new" "ids ! j = status_block_id t" using len by (auto simp: in_set_conv_nth)
      then have "h = new ! j" using own_block [OF assms(3) that(2) fresh] by simp
      then show False using that(1) \<open>j < length new\<close> by simp
    qed
    then have "map_of (zip ids new) (status_block_id t) = None" using len by (simp add: map_of_zip_is_None)
    then show ?thesis by (simp add: write_blocks_def)
  qed
  have nw: "\<exists>j < length new. h = new ! j" if "h \<in> set new" for h using that by (auto simp: in_set_conv_nth)
  show ?thesis
  proof (rule subst [of _ _ session_inv, OF _ session_invI])
    show "inv m" by (rule assms(3))
    show "h \<in> stores s \<union> set new \<longleftrightarrow> (\<exists>st. status_of m h = Some st \<and> status_ref_cnt st = - 1)" for h
    proof (cases "h \<in> set new")
      case True
      then show ?thesis using nw fresh by fastforce
    next
      case False
      then show ?thesis using I(2) [of h] E(1) [of h] by (auto simp: old)
    qed
    show "status_ref_cnt t = int (count (image_mset fst (loads s)) h)" if h: "status_of m h = Some t" "is_ready t" for h t
    proof (cases "h \<in> set new")
      case True
      then show ?thesis using nw fresh h by (fastforce simp: is_ready_def)
    next
      case False
      then show ?thesis using h I(3) [of h t] by (simp add: old)
    qed
    show "\<exists>st. status_of m h = Some st \<and> status_block_id st = i \<and> is_ready st" if h: "(h, i) \<in># loads s" for h i
    proof -
      obtain t where t: "?d h = Some t" "status_block_id t = i" "is_ready t" using I(4) [OF h] by blast
      moreover have "h \<notin> set new" using t(1) assms(5) by auto
      ultimately show ?thesis using E(2) [OF h] by (auto simp: old)
    qed
    show "write_blocks new ids (memory s) (status_block_id t) = Some h" if h: "status_of m h = Some t" for h t
    proof (cases "h \<in> set new")
      case True
      then show ?thesis using nw fresh mem_new h by fastforce
    next
      case False
      then show ?thesis using mem_old [OF False h] h I(5) [of h t] by (simp add: old)
    qed
  qed simp
qed

lemma stored_keeps:
  assumes "session_inv s" and "set hs \<subseteq> stores s" and "inv m"
    and "status_of m = (\<lambda>h. if h \<notin> set hs then status_of (manager_of s) h
             else if success then map_option (status_ref_cnt_update (\<lambda>_. 0)) (status_of (manager_of s) h) else None)"
  shows "session_inv (s\<lparr>manager_of := m, stores := stores s - set hs\<rparr>)"
proof -
  let ?d = "status_of (manager_of s)"
  note I = session_invD [OF assms(1)]
  have pending: "\<exists>t. ?d h = Some t \<and> status_ref_cnt t = - 1" if "h \<in> set hs" for h using assms(2) I(2) that by blast
  have idle: "count (image_mset fst (loads s)) h = 0" if "h \<in> set hs" for h
  proof (rule ccontr)
    assume "count (image_mset fst (loads s)) h \<noteq> 0"
    then obtain i where "(h, i) \<in># loads s" by (metis not_in_iff imageE prod.collapse set_image_mset)
    then show False using I(4) [of h i] pending [OF that] by (auto simp: is_ready_def)
  qed
  have no_load: "h \<notin> set hs" if "(h, i) \<in># loads s" for h i
  proof
    assume "h \<in> set hs"
    then show False using pending [of h] I(4) [OF that] by (auto simp: is_ready_def)
  qed
  have st: "status_of m h = Some t \<longleftrightarrow> (if h \<in> set hs then success \<and> (\<exists>u. ?d h = Some u \<and> t = u\<lparr>status_ref_cnt := 0\<rparr>) else ?d h = Some t)" for h t
    by (auto simp: assms(4))
  show ?thesis
  proof (rule subst [of _ _ session_inv, OF _ session_invI])
    show "inv m" by (rule assms(3))
    show "h \<in> stores s - set hs \<longleftrightarrow> (\<exists>st. status_of m h = Some st \<and> status_ref_cnt st = - 1)" for h using I(2) [of h] by (auto simp: st)
    show "status_ref_cnt t = int (count (image_mset fst (loads s)) h)" if "status_of m h = Some t" "is_ready t" for h t
      using that I(3) [of h t] idle [of h] by (auto simp: st split: if_splits)
    show "\<exists>st. status_of m h = Some st \<and> status_block_id st = i \<and> is_ready st" if "(h, i) \<in># loads s" for h i
      using I(4) [OF that] no_load [OF that] by (auto simp: st)
    show "memory s (status_block_id t) = Some h" if "status_of m h = Some t" for h t
      using that I(5) [of h] by (auto simp: st split: if_splits)
  qed simp
qed

lemma store_completes:
  assumes "session_inv s" and "distinct hs" and "set hs \<subseteq> stores s"
  shows "\<exists>m. op_complete_store ops hs success (manager_of s) = Inr m \<and> inv m
     \<and> status_of m = (\<lambda>h. if h \<notin> set hs then status_of (manager_of s) h
             else if success then map_option (status_ref_cnt_update (\<lambda>_. 0)) (status_of (manager_of s) h) else None)"
  using complete_store_ok [OF session_invD(1) [OF assms(1)] assms(2)] session_invD(2) [OF assms(1)] assms(3) by blast

lemma session_step_inv:
  assumes "session_step ops s s'" and "session_inv s"
  shows "session_inv s'"
  using assms(1)
proof cases
  case (Lookup hs n m)
  then show ?thesis using lookup_ok [OF session_invD(1) [OF assms(2)], of hs] by (auto intro: same_status_inv [OF assms(2)])
next
  case (Load hs spec m)
  then show ?thesis
    using load_succeeds [OF assms(2) Load(2,3)] load_keeps [OF assms(2) all_hit [OF session_invD(1) [OF assms(2)] Load(2)]] by auto
next
  case (Touch hs m)
  then show ?thesis using touch_ok [OF session_invD(1) [OF assms(2)], of hs] by (auto intro: same_status_inv [OF assms(2)])
next
  case (Loaded ids hs m)
  then show ?thesis using load_completes [OF assms(2) Loaded(2,3)] loaded_keeps [OF assms(2) Loaded(2,3)] by auto
next
  case (Store hs out m)
  then show ?thesis using prepare_store_ok [OF session_invD(1) [OF assms(2)] Store(2)] store_keeps [OF assms(2)] by auto
next
  case (Refused hs m)
  then show ?thesis using prepare_store_ok [OF session_invD(1) [OF assms(2)] Refused(2)] refused_keeps [OF assms(2)] by auto
next
  case (Stored hs success m)
  then show ?thesis using store_completes [OF assms(2) Stored(2,3), of success] stored_keeps [OF assms(2) Stored(3), of m success] by auto
next
  case (Events es m)
  then show ?thesis using take_events_ok [OF session_invD(1) [OF assms(2)]] by (auto intro: same_status_inv [OF assms(2)])
qed

lemma session_reachable_inv:
  assumes "session_reachable ops m s" and "inv m" and "status_of m = Map.empty"
  shows "session_inv s"
  using assms(1) by induction (auto intro: session_step_inv new_session_inv assms(2,3))

lemma session_inv_safe:
  assumes "session_inv s"
  shows "session_safe ops s"
proof -
  note I = session_invD [OF assms]
  have "memory s i = Some h" if "(h, i) \<in># loads s" for h i using I(4) [OF that] I(5) [of h] by auto
  moreover have "map (memory s) (map (\<lambda>h. status_block_id (the (status_of (manager_of s) h))) hs) = map Some hs"
    if "fst (op_lookup ops hs (manager_of s)) = Some (length hs)" for hs
    using all_hit [OF I(1) that] I(5) by (fastforce simp: ready_in_def)
  moreover have "\<exists>res m. op_prepare_store ops hs (manager_of s) = Inr (res, m)" if "distinct hs" for hs
    using prepare_store_ok [OF I(1) that] by blast
  ultimately show ?thesis
    unfolding session_safe_def using load_succeeds [OF assms] load_completes [OF assms] store_completes [OF assms]
    by (fastforce split: prod.splits)
qed

lemma sessions_safe:
  assumes "session_reachable ops m s" and "inv m" and "status_of m = Map.empty"
  shows "session_safe ops s"
  by (rule session_inv_safe [OF session_reachable_inv [OF assms]])

text \<open>The decorator keeps the contract: it changes only which blocks are stored.\<close>

lemma filter_contract: "offloading_manager (filter_ops ops) (\<lambda>f. inv (backing f)) (\<lambda>f. status_of (backing f))"
proof
  fix f :: "'m filter_manager" and hs and success :: bool
  assume i: "inv (backing f)"
  have "backing (fold count_hash hs f) = backing f"
    by (induction hs arbitrary: f) (auto simp: count_hash_def Let_def split: option.splits)
  then show "\<exists>f'. op_lookup (filter_ops ops) hs f = (Some (length (takeWhile (ready_in (status_of (backing f))) hs)), f')
      \<and> inv (backing f') \<and> status_of (backing f') = status_of (backing f)"
    using lookup_ok [OF i, of hs] by (auto simp: filter_ops_def filter_lookup_def Let_def)
  show "\<exists>f'. op_touch (filter_ops ops) hs f = Inr f' \<and> inv (backing f') \<and> status_of (backing f') = status_of (backing f)"
    using touch_ok [OF i, of hs] by (auto simp: filter_ops_def)
  show "inv (backing (snd (op_take_events (filter_ops ops) f)))
      \<and> status_of (backing (snd (op_take_events (filter_ops ops) f))) = status_of (backing f)"
    using take_events_ok [OF i] by (auto simp: filter_ops_def split: prod.splits)
  {
    assume "\<forall>h \<in> set hs. ready_in (status_of (backing f)) h \<and> status_ref_cnt (the (status_of (backing f) h)) + int (count_list hs h) < 2 ^ 31"
    then show "\<exists>f'. op_prepare_load (filter_ops ops) hs f = Inr (CPULoadStoreSpec (map (\<lambda>h. status_block_id (the (status_of (backing f) h))) hs), f')
        \<and> inv (backing f') \<and> status_of (backing f') = add_refs (status_of (backing f)) (\<lambda>h. int (count_list hs h))"
      using prepare_load_ok [OF i, of hs] by (auto simp: filter_ops_def)
  next
    assume "\<forall>h \<in> set hs. \<exists>s. status_of (backing f) h = Some s \<and> int (count_list hs h) \<le> status_ref_cnt s"
    then show "\<exists>f'. op_complete_load (filter_ops ops) hs f = Inr f' \<and> inv (backing f')
        \<and> status_of (backing f') = add_refs (status_of (backing f)) (\<lambda>h. - int (count_list hs h))"
      using complete_load_ok [OF i, of hs] by (auto simp: filter_ops_def)
  next
    assume d: "distinct hs"
    define el where "el = filter (\<lambda>h. store_threshold f \<le> (case map_of (reuse_counts f) h of None \<Rightarrow> 0 | Some n \<Rightarrow> n)) hs"
    have "distinct el" "set el \<subseteq> set hs" using d by (auto simp: el_def)
    then obtain res m' E where r: "op_prepare_store ops el (backing f) = Inr (res, m')" "inv m'" "evictable (status_of (backing f)) E"
        "case res of None \<Rightarrow> status_of m' = status_of (backing f) |` (- E)
         | Some out \<Rightarrow> E = set (block_hashes_evicted out) \<and> set (block_hashes_to_store out) \<subseteq> set el \<and> distinct (block_hashes_to_store out)
             \<and> (\<forall>h \<in> set (block_hashes_to_store out). status_of (backing f) h = None)
             \<and> new_slots (status_of (backing f) |` (- E)) (block_hashes_to_store out) (spec_block_ids (store_spec out)) (status_of m')"
      using prepare_store_ok [OF i, of el] by blast
    show "\<exists>res f' E. op_prepare_store (filter_ops ops) hs f = Inr (res, f') \<and> inv (backing f') \<and> evictable (status_of (backing f)) E
      \<and> (case res of
           None \<Rightarrow> status_of (backing f') = status_of (backing f) |` (- E)
         | Some out \<Rightarrow> E = set (block_hashes_evicted out) \<and> set (block_hashes_to_store out) \<subseteq> set hs \<and> distinct (block_hashes_to_store out)
             \<and> (\<forall>h \<in> set (block_hashes_to_store out). status_of (backing f) h = None)
             \<and> new_slots (status_of (backing f) |` (- E)) (block_hashes_to_store out) (spec_block_ids (store_spec out)) (status_of (backing f')))"
      using r \<open>set el \<subseteq> set hs\<close> unfolding el_def
      by (intro exI [of _ res] exI [of _ "f\<lparr>backing := m'\<rparr>"] exI [of _ E]) (auto simp: filter_ops_def filter_prepare_store_def split: option.splits)
  next
    assume d: "distinct hs" and p: "\<forall>h \<in> set hs. \<exists>s. status_of (backing f) h = Some s \<and> status_ref_cnt s = - 1"
    show "\<exists>f'. op_complete_store (filter_ops ops) hs success f = Inr f' \<and> inv (backing f')
        \<and> status_of (backing f') = (\<lambda>h. if h \<notin> set hs then status_of (backing f) h
             else if success then map_option (status_ref_cnt_update (\<lambda>_. 0)) (status_of (backing f) h) else None)"
      using complete_store_ok [OF i d p, of success] by (auto simp: filter_ops_def)
  }
qed (use status_range own_block in auto)

end

section \<open>Loops over the blocks of a call\<close>

text \<open>
  The loops of a manager, for a body that changes the state of type \<open>'x\<close> at one hash: \<open>A\<close> reads the status of
  the blocks from the state and \<open>I\<close> is the invariant.
\<close>

lemma load_loop:
  assumes step: "\<forall>h acc x s. I x \<longrightarrow> A x h = Some s \<longrightarrow> is_ready s \<longrightarrow> status_ref_cnt s + 1 < 2 ^ 31 \<longrightarrow>
      (\<exists>x' s'. f h (acc, x) = Inr (acc @ [s'], x') \<and> status_block_id s' = status_block_id s \<and> I x'
         \<and> A x' = (A x)(h \<mapsto> s\<lparr>status_ref_cnt := status_ref_cnt s + 1\<rparr>))"
    and "I x" and "\<forall>h \<in> set hs. ready_in (A x) h \<and> status_ref_cnt (the (A x h)) + int (count_list hs h) < 2 ^ 31"
  shows "\<exists>bs x'. rfold f hs (acc, x) = Inr (acc @ bs, x') \<and> map status_block_id bs = map (\<lambda>h. status_block_id (the (A x h))) hs \<and> I x'
     \<and> A x' = add_refs (A x) (\<lambda>h. int (count_list hs h))"
  using assms(2,3)
proof (induction hs arbitrary: x acc)
  case Nil
  then show ?case by (simp add: add_refs_def option.map_ident)
next
  case (Cons h hs)
  obtain s where s: "A x h = Some s" "is_ready s" "status_ref_cnt s + int (count_list hs h) + 1 < 2 ^ 31" using Cons.prems(2) by (auto simp: ready_in_def)
  then obtain x' s' where r: "f h (acc, x) = Inr (acc @ [s'], x')" "status_block_id s' = status_block_id s" "I x'"
      "A x' = (A x)(h \<mapsto> s\<lparr>status_ref_cnt := status_ref_cnt s + 1\<rparr>)"
    using step [rule_format, OF Cons.prems(1) s(1,2), of acc] by auto
  have "\<forall>k \<in> set hs. ready_in (A x') k \<and> status_ref_cnt (the (A x' k)) + int (count_list hs k) < 2 ^ 31"
    using Cons.prems(2) s by (fastforce simp: r(4) ready_in_def is_ready_def)
  from Cons.IH [OF r(3) this, of "acc @ [s']"] obtain bs y where y: "rfold f hs (acc @ [s'], x') = Inr ((acc @ [s']) @ bs, y)"
      "map status_block_id bs = map (\<lambda>h. status_block_id (the (A x' h))) hs" "I y" "A y = add_refs (A x') (\<lambda>h. int (count_list hs h))" by blast
  have "map (\<lambda>h. status_block_id (the (A x' h))) hs = map (\<lambda>h. status_block_id (the (A x h))) hs" using s(1) by (simp add: r(4))
  moreover have "A y = add_refs (A x) (\<lambda>k. int (count_list (h # hs) k))" using s(1) by (auto simp: y(4) r(4) add_refs_def fun_eq_iff)
  ultimately show ?case using r(1,2) y s(1) by (intro exI [of _ "s' # bs"] exI [of _ y]) simp
qed

lemma unload_loop:
  assumes step: "\<forall>h x s. I x \<longrightarrow> A x h = Some s \<longrightarrow> 0 < status_ref_cnt s \<longrightarrow>
      (\<exists>x'. f h x = Inr x' \<and> I x' \<and> A x' = (A x)(h \<mapsto> s\<lparr>status_ref_cnt := status_ref_cnt s - 1\<rparr>))"
    and "I x" and "\<forall>h \<in> set hs. \<exists>s. A x h = Some s \<and> int (count_list hs h) \<le> status_ref_cnt s"
  shows "\<exists>x'. rfold f hs x = Inr x' \<and> I x' \<and> A x' = add_refs (A x) (\<lambda>h. - int (count_list hs h))"
  using assms(2,3)
proof (induction hs arbitrary: x)
  case Nil
  then show ?case by (simp add: add_refs_def option.map_ident)
next
  case (Cons h hs)
  obtain s where s: "A x h = Some s" "int (count_list hs h) + 1 \<le> status_ref_cnt s" using Cons.prems(2) by auto
  then obtain x' where r: "f h x = Inr x'" "I x'" "A x' = (A x)(h \<mapsto> s\<lparr>status_ref_cnt := status_ref_cnt s - 1\<rparr>)"
    using step [rule_format, OF Cons.prems(1) s(1)] by auto
  have "\<forall>k \<in> set hs. \<exists>t. A x' k = Some t \<and> int (count_list hs k) \<le> status_ref_cnt t" using Cons.prems(2) s by (fastforce simp: r(3))
  from Cons.IH [OF r(2) this] obtain y where y: "rfold f hs x' = Inr y" "I y" "A y = add_refs (A x') (\<lambda>h. - int (count_list hs h))" by blast
  have "A y = add_refs (A x) (\<lambda>k. - int (count_list (h # hs) k))" using s(1) by (auto simp: y(3) r(3) add_refs_def fun_eq_iff)
  then show ?case using r(1) y by simp
qed

lemma point_loop:
  assumes step: "\<forall>h x s. I x \<longrightarrow> A x h = Some s \<longrightarrow> P s \<longrightarrow> (\<exists>x'. f h x = Inr x' \<and> I x' \<and> A x' = (A x)(h := g s))"
    and "I x" and "distinct hs" and "\<forall>h \<in> set hs. \<exists>s. A x h = Some s \<and> P s"
  shows "\<exists>x'. rfold f hs x = Inr x' \<and> I x' \<and> A x' = (\<lambda>h. if h \<notin> set hs then A x h else g (the (A x h)))"
  using assms(2-4)
proof (induction hs arbitrary: x)
  case (Cons h hs)
  obtain s where s: "A x h = Some s" "P s" using Cons.prems(3) by auto
  then obtain x' where r: "f h x = Inr x'" "I x'" "A x' = (A x)(h := g s)" using step Cons.prems(1) by blast
  have "\<forall>k \<in> set hs. \<exists>t. A x' k = Some t \<and> P t" using Cons.prems(2,3) by (auto simp: r(3))
  from Cons.IH [OF r(2) _ this] Cons.prems(2) obtain y where y: "rfold f hs x' = Inr y" "I y"
    "A y = (\<lambda>h. if h \<notin> set hs then A x' h else g (the (A x' h)))" by auto
  have "A y = (\<lambda>k. if k \<notin> set (h # hs) then A x k else g (the (A x k)))" using s(1) Cons.prems(2) by (auto simp: y(3) r(3) fun_eq_iff)
  then show ?case using r(1) y by simp
qed simp

text \<open>The block ids of a dictionary under the changes the managers make.\<close>

abbreviation block_ids :: "block_status ordered_dict \<Rightarrow> int list" where
  "block_ids d \<equiv> map (\<lambda>(_, s). status_block_id s) d"

lemma block_ids_update: "map_of d h = Some s \<Longrightarrow> status_block_id s' = status_block_id s \<Longrightarrow> block_ids (AList.update h s' d) = block_ids d"
  by (induction d) (auto split: if_splits)

lemma set_alist_update: "set (AList.update h v d) \<subseteq> insert (h, v) (set d)"
  by (induction d) auto

lemma mset_delete:
  assumes "distinct (map fst d)" and "map_of d h = Some s"
  shows "mset d = add_mset (h, s) (mset (AList.delete h d))"
  using assms
proof (induction d)
  case (Cons e d)
  show ?case
  proof (cases "fst e = h")
    case True
    then have "h \<notin> fst ` set d" using Cons.prems(1) by auto
    then have "AList.delete h d = d" by (simp add: delete_idem)
    then show ?thesis using True Cons.prems(2) by (cases e) simp
  qed (use Cons in \<open>cases e, auto\<close>)
qed simp

lemma mset_block_ids: "mset d = mset d' \<Longrightarrow> mset (block_ids d) = mset (block_ids d')"
  by simp

lemma move_to_end_spec:
  assumes "distinct (map fst d)" and "map_of d h = Some s"
  shows "\<exists>d'. move_to_end h d = Inr d' \<and> distinct (map fst d') \<and> map_of d' = map_of d \<and> mset d' = mset d"
proof -
  have "map_of (AList.delete h d @ [(h, s)]) = map_of d" using assms(2) by (auto simp: fun_eq_iff map_add_def delete_conv' split: option.splits)
  then show ?thesis using assms mset_delete [OF assms] alist_delete_set [OF assms(1), of h] by (auto simp: move_to_end_def)
qed

lemma own_block_dict:
  assumes "distinct (block_ids d)" and "map_of d h = Some s" and "map_of d h' = Some s'" and "status_block_id s = status_block_id s'"
  shows "h = h'"
  using assms by (induction d) (force dest: map_of_SomeD split: if_splits)+

text \<open>
  A dictionary of the stored blocks and its backend agree: the dictionary holds each hash once, each block has
  its own id, and the reference counts are counts of a 32 bit field.
\<close>

definition dict_ok :: "block_status ordered_dict \<Rightarrow> cpu_backend \<Rightarrow> bool" where
  "dict_ok d b \<longleftrightarrow> distinct (map fst d) \<and> backend_inv b (block_ids d)
     \<and> (\<forall>(h, s) \<in> set d. - 1 \<le> status_ref_cnt s \<and> status_ref_cnt s < 2 ^ 31)"

lemma dict_okD:
  assumes "dict_ok d b"
  shows "distinct (map fst d)" "backend_inv b (block_ids d)"
    "map_of d h = Some s \<Longrightarrow> - 1 \<le> status_ref_cnt s \<and> status_ref_cnt s < 2 ^ 31" "distinct (block_ids d)"
  using assms by (auto simp: dict_ok_def backend_inv_def dest: map_of_SomeD)

lemma dict_ok_new: "backend_inv b [] \<Longrightarrow> dict_ok [] b"
  by (simp add: dict_ok_def)

lemma dict_ok_perm:
  assumes "dict_ok d b" and "mset d' = mset d"
  shows "dict_ok d' b" "map_of d' = map_of d"
proof -
  have k: "distinct (map fst d')" using dict_okD(1) [OF assms(1)] mset_eq_imp_distinct_iff [of "map fst d'" "map fst d"] assms(2) by simp
  show "dict_ok d' b"
    using assms(1) k backend_inv_perm [OF mset_block_ids [OF assms(2)]] mset_eq_setD [OF assms(2)] by (auto simp: dict_ok_def)
  show "map_of d' = map_of d" using map_of_inject_set [OF k dict_okD(1) [OF assms(1)]] mset_eq_setD [OF assms(2)] by simp
qed

lemma dict_ok_set:
  assumes "dict_ok d b" and "map_of d h = Some s" and "status_block_id s' = status_block_id s" and "- 1 \<le> status_ref_cnt s'" "status_ref_cnt s' < 2 ^ 31"
  shows "dict_ok (AList.update h s' d) b"
  using assms set_alist_update [of h s' d] dict_okD(1) [OF assms(1)] by (auto simp: dict_ok_def block_ids_update distinct_update)

lemma dict_ok_delete:
  assumes "dict_ok d b" and "map_of d h = Some s"
  shows "dict_ok (AList.delete h d) (backend_free s b)"
proof -
  note D = dict_okD [OF assms(1)]
  have "mset (block_ids d) = mset (status_block_id s # block_ids (AList.delete h d))" using mset_delete [OF D(1) assms(2)] by simp
  from backend_inv_perm [OF this] D(2) have "backend_inv b (status_block_id s # block_ids (AList.delete h d))" by blast
  then have "backend_inv (backend_free s b) (block_ids (AList.delete h d))" by (rule backend_inv_free)
  then show ?thesis using assms(1) alist_delete_set [OF D(1), of h] by (auto simp: dict_ok_def)
qed

lemma dict_ok_insert:
  assumes "dict_ok d b" and "distinct hs" and "\<forall>h \<in> set hs. map_of d h = None" and "length blocks = length hs"
    and "\<forall>s \<in> set blocks. status_ref_cnt s = - 1" and "backend_inv b' (block_ids d @ map status_block_id blocks)"
  shows "dict_ok (d @ zip hs blocks) b'"
proof -
  have "map (\<lambda>(_, s). status_block_id s) (zip hs blocks) = map status_block_id blocks"
    using assms(4) by (simp add: case_prod_beta' flip: map_map [of status_block_id snd, unfolded comp_def])
  then show ?thesis using assms by (auto simp: dict_ok_def map_of_eq_None_iff dest: set_zip_rightD set_zip_leftD)
qed

lemma hit_count_ready: "hit_count d hs = length (takeWhile (ready_in d) hs)"
  by (induction hs) (auto simp: ready_in_def split: option.splits)

text \<open>Adding the blocks of a store.\<close>

definition insert_blocks :: "bytes list \<Rightarrow> block_status list \<Rightarrow> block_status ordered_dict \<Rightarrow> block_status ordered_dict" where
  "insert_blocks hs blocks d = fold (\<lambda>(h, s). AList.update h s) (zip hs blocks) d"

lemma insert_blocks_fresh:
  assumes "distinct hs" and "length blocks = length hs" and "\<forall>h \<in> set hs. h \<notin> fst ` set d"
  shows "insert_blocks hs blocks d = d @ zip hs blocks"
  using assms(2,1,3) unfolding insert_blocks_def
proof (induction blocks hs arbitrary: d rule: list_induct2)
  case (Cons b bs h hs)
  then have "\<forall>k \<in> set hs. k \<notin> fst ` set (d @ [(h, b)])" by auto
  from Cons.IH [OF _ this] Cons.prems show ?case by (simp add: alist_update_fresh)
qed simp

lemma new_slots_append:
  assumes "distinct hs" and "length blocks = length hs" and "\<forall>h \<in> set hs. map_of d h = None" and "\<forall>s \<in> set blocks. status_ref_cnt s = - 1"
  shows "new_slots (map_of d) hs (map status_block_id blocks) (map_of (d @ zip hs blocks))"
proof -
  have "map_of (d @ zip hs blocks) (hs ! j) = Some (blocks ! j)" if "j < length hs" for j
    using assms that by (simp add: map_add_def map_of_zip_nth)
  moreover have "blocks ! j = \<lparr>status_ref_cnt = - 1, status_block_id = status_block_id (blocks ! j)\<rparr>" if "j < length hs" for j
    using assms(2,4) that by (cases "blocks ! j") (metis (no_types, lifting) block_status.select_convs nth_mem)
  moreover have "map_of (d @ zip hs blocks) h = map_of d h" if "h \<notin> set hs" for h
    using assms(2) that by (auto simp: map_add_def map_of_zip_is_None split: option.splits)
  ultimately show ?thesis using assms(2) unfolding new_slots_def by auto
qed

end
