(* ===== verification/Offload_LRU.thy ===== *)
theory Offload_LRU
  imports Offload
begin

text \<open>
  \<^verbatim>\<open>LRUOffloadingManager\<close> of \<^verbatim>\<open>src/vllm/v1/kv_offload/lru_manager.py\<close> on the CPU backend: its
  operations, the proof that they meet the contract of an offloading manager, and the eviction order.
\<close>

section \<open>The manager\<close>

record lru_manager =
  lru_backend :: cpu_backend
  lru_blocks :: "block_status ordered_dict"
  lru_events :: "offloading_event list option"

definition LRUOffloadingManager :: "cpu_backend \<Rightarrow> bool \<Rightarrow> lru_manager" where
  "LRUOffloadingManager b enable_events = \<lparr>lru_backend = b, lru_blocks = [], lru_events = (if enable_events then Some [] else None)\<rparr>"

definition lru_lookup :: "bytes list \<Rightarrow> lru_manager \<Rightarrow> nat option \<times> lru_manager" where
  "lru_lookup hs m = (Some (hit_count (map_of (lru_blocks m)) hs), m)"

definition lru_set :: "bytes \<Rightarrow> block_status \<Rightarrow> lru_manager \<Rightarrow> lru_manager" where
  "lru_set h s m = m\<lparr>lru_blocks := AList.update h s (lru_blocks m)\<rparr>"

definition lru_load_one :: "bytes \<Rightarrow> block_status list \<times> lru_manager \<Rightarrow> (block_status list \<times> lru_manager) result" where
  "lru_load_one h x =
     (case x of (blocks, m) \<Rightarrow>
        case map_of (lru_blocks m) h of
          None \<Rightarrow> Inl KeyError
        | Some s \<Rightarrow>
            rbind (ensure (is_ready s) AssertionError) (\<lambda>_.
            let s = set_ref_cnt (status_ref_cnt s + 1) s in Inr (blocks @ [s], lru_set h s m)))"

definition lru_prepare_load :: "bytes list \<Rightarrow> lru_manager \<Rightarrow> (load_store_spec \<times> lru_manager) result" where
  "lru_prepare_load hs m = rbind (rfold lru_load_one hs ([], m)) (\<lambda>(blocks, m). Inr (get_load_store_spec blocks, m))"

definition lru_touch_one :: "bytes \<Rightarrow> lru_manager \<Rightarrow> lru_manager result" where
  "lru_touch_one h m =
     (if map_of (lru_blocks m) h \<noteq> None then rbind (move_to_end h (lru_blocks m)) (\<lambda>d. Inr (m\<lparr>lru_blocks := d\<rparr>)) else Inr m)"

definition lru_touch :: "bytes list \<Rightarrow> lru_manager \<Rightarrow> lru_manager result" where
  "lru_touch hs m = rfold lru_touch_one (rev hs) m"

definition lru_unload_one :: "bytes \<Rightarrow> lru_manager \<Rightarrow> lru_manager result" where
  "lru_unload_one h m =
     (case map_of (lru_blocks m) h of
        None \<Rightarrow> Inl KeyError
      | Some s \<Rightarrow> rbind (ensure (0 < status_ref_cnt s) AssertionError) (\<lambda>_. Inr (lru_set h (set_ref_cnt (status_ref_cnt s - 1) s) m)))"

definition lru_complete_load :: "bytes list \<Rightarrow> lru_manager \<Rightarrow> lru_manager result" where
  "lru_complete_load hs m = rfold lru_unload_one hs m"

text \<open>The loop that builds the list of blocks to evict; the \<^verbatim>\<open>else\<close> branch of the \<^verbatim>\<open>for\<close> is \<open>None\<close>.\<close>

fun lru_scan :: "bytes set \<Rightarrow> int \<Rightarrow> block_status ordered_dict \<Rightarrow> bytes list \<Rightarrow> bytes list option" where
  "lru_scan protected n [] to_evict = None"
| "lru_scan protected n ((h, s) # d) to_evict =
     (if status_ref_cnt s = 0 \<and> h \<notin> protected
      then (if n - 1 = 0 then Some (to_evict @ [h]) else lru_scan protected (n - 1) d (to_evict @ [h]))
      else lru_scan protected n d to_evict)"

definition lru_evict_one :: "bytes \<Rightarrow> lru_manager \<Rightarrow> lru_manager result" where
  "lru_evict_one h m =
     (case map_of (lru_blocks m) h of
        None \<Rightarrow> Inl KeyError
      | Some s \<Rightarrow> Inr (m\<lparr>lru_backend := backend_free s (lru_backend m), lru_blocks := AList.delete h (lru_blocks m)\<rparr>))"

definition lru_prepare_store :: "bytes list \<Rightarrow> lru_manager \<Rightarrow> (prepare_store_output option \<times> lru_manager) result" where
  "lru_prepare_store hs m =
     (let to_store = filter (\<lambda>h. map_of (lru_blocks m) h = None) hs;
          num_blocks_to_evict = int (length to_store) - backend_get_num_free_blocks (lru_backend m)
      in case (if 0 < num_blocks_to_evict then lru_scan (set hs) num_blocks_to_evict (lru_blocks m) [] else Some []) of
           None \<Rightarrow> Inr (None, m)
         | Some to_evict \<Rightarrow>
             rbind (rfold lru_evict_one to_evict m) (\<lambda>m.
             let m = m\<lparr>lru_events := add_offload_event to_evict True (lru_backend m) (lru_events m)\<rparr>
             in rbind (allocate_blocks to_store (lru_backend m)) (\<lambda>(blocks, b).
                rbind (ensure (length blocks = length to_store) AssertionError) (\<lambda>_.
                Inr (Some \<lparr>block_hashes_to_store = to_store, store_spec = get_load_store_spec blocks, block_hashes_evicted = to_evict\<rparr>,
                     m\<lparr>lru_backend := b, lru_blocks := insert_blocks to_store blocks (lru_blocks m)\<rparr>)))))"

definition lru_store_one :: "bytes \<Rightarrow> lru_manager \<times> bytes list \<Rightarrow> (lru_manager \<times> bytes list) result" where
  "lru_store_one h x =
     (case x of (m, stored) \<Rightarrow>
        case map_of (lru_blocks m) h of
          None \<Rightarrow> Inl KeyError
        | Some s \<Rightarrow> if is_ready s then Inr (m, stored) else Inr (lru_set h (set_ref_cnt 0 s) m, stored @ [h]))"

definition lru_drop_one :: "bytes \<Rightarrow> lru_manager \<Rightarrow> lru_manager result" where
  "lru_drop_one h m =
     (case map_of (lru_blocks m) h of
        None \<Rightarrow> Inl KeyError
      | Some s \<Rightarrow>
          if is_ready s then Inr m
          else Inr (m\<lparr>lru_backend := backend_free s (lru_backend m), lru_blocks := AList.delete h (lru_blocks m)\<rparr>))"

definition lru_complete_store :: "bytes list \<Rightarrow> bool \<Rightarrow> lru_manager \<Rightarrow> lru_manager result" where
  "lru_complete_store hs success m =
     rbind (if success then rfold lru_store_one hs (m, []) else rbind (rfold lru_drop_one hs m) (\<lambda>m. Inr (m, []))) (\<lambda>(m, stored).
     Inr (m\<lparr>lru_events := add_offload_event stored False (lru_backend m) (lru_events m)\<rparr>))"

definition lru_take_events :: "lru_manager \<Rightarrow> offloading_event list \<times> lru_manager" where
  "lru_take_events m = (case lru_events m of None \<Rightarrow> ([], m) | Some es \<Rightarrow> (es, m\<lparr>lru_events := Some []\<rparr>))"

definition lru_ops :: "lru_manager offloading_ops" where
  "lru_ops = \<lparr>op_lookup = lru_lookup, op_prepare_load = lru_prepare_load, op_touch = lru_touch, op_complete_load = lru_complete_load,
     op_prepare_store = lru_prepare_store, op_complete_store = lru_complete_store, op_take_events = lru_take_events\<rparr>"

section \<open>Invariant\<close>

definition lru_inv :: "lru_manager \<Rightarrow> bool" where
  "lru_inv m = dict_ok (lru_blocks m) (lru_backend m)"

lemma lru_invD:
  assumes "lru_inv m"
  shows "distinct (map fst (lru_blocks m))" "backend_inv (lru_backend m) (block_ids (lru_blocks m))"
    "map_of (lru_blocks m) h = Some s \<Longrightarrow> - 1 \<le> status_ref_cnt s \<and> status_ref_cnt s < 2 ^ 31" "distinct (block_ids (lru_blocks m))"
  using dict_okD [OF assms [unfolded lru_inv_def]] by blast+

lemma lru_set_inv:
  assumes "lru_inv m" and "map_of (lru_blocks m) h = Some s" and "status_block_id s' = status_block_id s" and "- 1 \<le> status_ref_cnt s'" "status_ref_cnt s' < 2 ^ 31"
  shows "lru_inv (lru_set h s' m)" "map_of (lru_blocks (lru_set h s' m)) = (map_of (lru_blocks m))(h \<mapsto> s')"
  using dict_ok_set assms by (simp_all add: lru_inv_def lru_set_def update_conv' fun_eq_iff)

definition lru_drop :: "bytes \<Rightarrow> block_status \<Rightarrow> lru_manager \<Rightarrow> lru_manager" where
  "lru_drop h s m = m\<lparr>lru_backend := backend_free s (lru_backend m), lru_blocks := AList.delete h (lru_blocks m)\<rparr>"

lemma lru_drop_inv:
  assumes "lru_inv m" and "map_of (lru_blocks m) h = Some s"
  shows "lru_inv (lru_drop h s m)" "map_of (lru_blocks (lru_drop h s m)) = (map_of (lru_blocks m))(h := None)"
  using dict_ok_delete assms by (simp_all add: lru_inv_def lru_drop_def delete_conv')

lemma lru_events_inv [simp]: "lru_inv (m\<lparr>lru_events := es\<rparr>) = lru_inv m"
  by (simp add: lru_inv_def)

lemma lru_inv_new: "backend_inv b [] \<Longrightarrow> lru_inv (LRUOffloadingManager b ev)"
  by (simp add: lru_inv_def LRUOffloadingManager_def dict_ok_new)

section \<open>Eviction\<close>

text \<open>The blocks that may be evicted, least recently used first.\<close>

definition lru_candidates :: "bytes set \<Rightarrow> block_status ordered_dict \<Rightarrow> bytes list" where
  "lru_candidates protected d = map fst (filter (\<lambda>(h, s). status_ref_cnt s = 0 \<and> h \<notin> protected) d)"

lemma lru_scan_spec:
  "0 < n \<Longrightarrow> lru_scan protected n d acc =
     (if nat n \<le> length (lru_candidates protected d) then Some (acc @ take (nat n) (lru_candidates protected d)) else None)"
proof (induction d arbitrary: n acc)
  case (Cons e d)
  obtain h s where e: "e = (h, s)" by fastforce
  show ?case
  proof (cases "status_ref_cnt s = 0 \<and> h \<notin> protected")
    case True
    have n: "nat n = Suc (nat (n - 1))" using Cons.prems by simp
    then show ?thesis using True Cons.IH [of "n - 1" "acc @ [h]"] Cons.prems by (cases "n = 1") (auto simp: e lru_candidates_def n)
  qed (use Cons in \<open>auto simp: e lru_candidates_def\<close>)
qed (simp add: lru_candidates_def)

lemma lru_candidatesD:
  assumes "distinct (map fst d)"
  shows "distinct (lru_candidates protected d)"
    "h \<in> set (lru_candidates protected d) \<Longrightarrow> h \<notin> protected \<and> (\<exists>s. map_of d h = Some s \<and> status_ref_cnt s = 0)"
  using assms by (auto simp: lru_candidates_def distinct_map_filter)

lemma lru_evict_loop:
  assumes "lru_inv m" and "distinct E" and "\<forall>h \<in> set E. map_of (lru_blocks m) h \<noteq> None"
  shows "\<exists>b. rfold lru_evict_one E m = Inr (m\<lparr>lru_backend := b, lru_blocks := AList.restrict (- set E) (lru_blocks m)\<rparr>)
     \<and> lru_inv (m\<lparr>lru_backend := b, lru_blocks := AList.restrict (- set E) (lru_blocks m)\<rparr>)
     \<and> backend_num_blocks b = backend_num_blocks (lru_backend m)
     \<and> length (AList.restrict (- set E) (lru_blocks m)) + length E = length (lru_blocks m)"
  using assms
proof (induction E arbitrary: m)
  case Nil
  then show ?case by (intro exI [of _ "lru_backend m"]) (simp add: AList.restrict_eq case_prod_beta')
next
  case (Cons h E)
  then obtain s where s: "map_of (lru_blocks m) h = Some s" by auto
  let ?m = "lru_drop h s m"
  note D = lru_drop_inv [OF Cons.prems(1) s]
  have "\<forall>k \<in> set E. map_of (lru_blocks ?m) k \<noteq> None" using Cons.prems(2,3) by (auto simp: D(2))
  then obtain b where b: "rfold lru_evict_one E ?m = Inr (?m\<lparr>lru_backend := b, lru_blocks := AList.restrict (- set E) (lru_blocks ?m)\<rparr>)"
      "lru_inv (?m\<lparr>lru_backend := b, lru_blocks := AList.restrict (- set E) (lru_blocks ?m)\<rparr>)"
      "backend_num_blocks b = backend_num_blocks (lru_backend ?m)"
      "length (AList.restrict (- set E) (lru_blocks ?m)) + length E = length (lru_blocks ?m)"
    using Cons.IH [OF D(1)] Cons.prems(2) by auto
  have eq: "AList.restrict (- set E) (lru_blocks ?m) = AList.restrict (- set (h # E)) (lru_blocks m)"
    by (auto simp: lru_drop_def AList.restrict_eq AList.delete_eq intro!: filter_cong)
  have "Suc (length (lru_blocks ?m)) = length (lru_blocks m)"
    using arg_cong [OF mset_delete [OF lru_invD(1) [OF Cons.prems(1)] s], of size] by (simp add: lru_drop_def)
  moreover have "lru_evict_one h m = Inr ?m" by (simp add: lru_evict_one_def s lru_drop_def)
  moreover have "backend_num_blocks (lru_backend ?m) = backend_num_blocks (lru_backend m)" by (simp add: lru_drop_def backend_free_def)
  ultimately show ?case using b unfolding eq by (intro exI [of _ b]) (simp add: lru_drop_def)
qed

lemma lru_prepare_store_spec:
  assumes inv: "lru_inv m" and d: "distinct hs"
    and "to_store = filter (\<lambda>h. map_of (lru_blocks m) h = None) hs" and "c = lru_candidates (set hs) (lru_blocks m)"
    and "need = nat (int (length to_store) - backend_get_num_free_blocks (lru_backend m))"
  shows "length c < need \<Longrightarrow> lru_prepare_store hs m = Inr (None, m)"
    and "need \<le> length c \<Longrightarrow> \<exists>blocks m'. lru_prepare_store hs m = Inr (Some \<lparr>block_hashes_to_store = to_store,
        store_spec = get_load_store_spec blocks, block_hashes_evicted = take need c\<rparr>, m')
      \<and> lru_inv m' \<and> length blocks = length to_store \<and> (\<forall>s \<in> set blocks. status_ref_cnt s = - 1)
      \<and> lru_blocks m' = AList.restrict (- set (take need c)) (lru_blocks m) @ zip to_store blocks
      \<and> lru_events m' = add_offload_event (take need c) True (lru_backend m') (lru_events m)"
proof -
  define n where "n = int (length to_store) - backend_get_num_free_blocks (lru_backend m)"
  have scan: "(if 0 < n then lru_scan (set hs) n (lru_blocks m) [] else Some []) = (if need \<le> length c then Some (take need c) else None)"
    using lru_scan_spec [of n "set hs" "lru_blocks m" "[]"] unfolding assms(4,5) n_def [symmetric] by auto
  { assume "length c < need"
    then show "lru_prepare_store hs m = Inr (None, m)"
      using scan unfolding n_def lru_prepare_store_def Let_def assms(3) by simp }
  assume le: "need \<le> length c"
  note cd = lru_candidatesD [OF lru_invD(1) [OF inv], where protected = "set hs", folded assms(4)]
  define E where "E = take need c"
  have E: "distinct E" "length E = need" "\<forall>h \<in> set E. map_of (lru_blocks m) h \<noteq> None"
    using cd le set_take_subset [of need c] by (auto simp: E_def dest: cd(2))
  let ?d = "AList.restrict (- set E) (lru_blocks m)"
  obtain b where b: "rfold lru_evict_one E m = Inr (m\<lparr>lru_backend := b, lru_blocks := ?d\<rparr>)" "lru_inv (m\<lparr>lru_backend := b, lru_blocks := ?d\<rparr>)"
      "backend_num_blocks b = backend_num_blocks (lru_backend m)" "length ?d + length E = length (lru_blocks m)"
    using lru_evict_loop [OF inv E(1,3)] by blast
  have binv: "backend_inv b (block_ids ?d)" using lru_invD(2) [OF b(2)] by simp
  have "int (length to_store) \<le> backend_get_num_free_blocks b"
    using backend_free_blocks [OF binv] backend_free_blocks [OF lru_invD(2) [OF inv]] b(3,4) E(2) assms(5) by simp
  then obtain new b' where a: "allocate_blocks to_store b = Inr (new, b')" "length new = length to_store" "\<forall>s \<in> set new. status_ref_cnt s = - 1"
      "backend_inv b' (block_ids ?d @ map status_block_id new)"
    using allocate_blocks_spec [OF binv] by blast
  have ts: "distinct to_store" "\<forall>h \<in> set to_store. h \<notin> fst ` set ?d"
    using d by (auto simp: assms(3) AList.restrict_eq map_of_eq_None_iff)
  have ins: "insert_blocks to_store new ?d = ?d @ zip to_store new" by (rule insert_blocks_fresh [OF ts(1) a(2) ts(2)])
  let ?ev = "add_offload_event E True b (lru_events m)"
  let ?m = "m\<lparr>lru_backend := b', lru_blocks := ?d @ zip to_store new, lru_events := ?ev\<rparr>"
  have size: "backend_block_size b' = backend_block_size b \<and> backend_medium b' = backend_medium b" using allocate_blocks_frame [OF a(1)] by simp
  have run: "lru_prepare_store hs m = Inr (Some \<lparr>block_hashes_to_store = to_store, store_spec = get_load_store_spec new, block_hashes_evicted = E\<rparr>, ?m)"
    using scan le b(1) a(1,2) ins unfolding lru_prepare_store_def Let_def assms(3) [symmetric] n_def [symmetric] E_def [symmetric] by simp
  have "dict_ok (?d @ zip to_store new) b'"
    using b(2) a ts by (intro dict_ok_insert [of ?d b]) (auto simp: lru_inv_def map_of_eq_None_iff)
  then have "lru_inv ?m" by (simp add: lru_inv_def)
  then show "\<exists>blocks m'. lru_prepare_store hs m = Inr (Some \<lparr>block_hashes_to_store = to_store,
        store_spec = get_load_store_spec blocks, block_hashes_evicted = take need c\<rparr>, m')
      \<and> lru_inv m' \<and> length blocks = length to_store \<and> (\<forall>s \<in> set blocks. status_ref_cnt s = - 1)
      \<and> lru_blocks m' = AList.restrict (- set (take need c)) (lru_blocks m) @ zip to_store blocks
      \<and> lru_events m' = add_offload_event (take need c) True (lru_backend m') (lru_events m)"
    unfolding E_def [symmetric] using run a(2,3) size by (intro exI [of _ new] exI [of _ ?m]) (auto simp: add_offload_event_def)
qed

section \<open>The contract\<close>

lemma lru_load_step:
  "\<forall>h acc m s. lru_inv m \<longrightarrow> map_of (lru_blocks m) h = Some s \<longrightarrow> is_ready s \<longrightarrow> status_ref_cnt s + 1 < 2 ^ 31 \<longrightarrow>
     (\<exists>m' s'. lru_load_one h (acc, m) = Inr (acc @ [s'], m') \<and> status_block_id s' = status_block_id s \<and> lru_inv m'
        \<and> map_of (lru_blocks m') = (map_of (lru_blocks m))(h \<mapsto> s\<lparr>status_ref_cnt := status_ref_cnt s + 1\<rparr>))"
proof (intro allI impI)
  fix h acc m s
  assume a: "lru_inv m" "map_of (lru_blocks m) h = Some s" "is_ready s" "status_ref_cnt s + 1 < 2 ^ 31"
  let ?s = "s\<lparr>status_ref_cnt := status_ref_cnt s + 1\<rparr>"
  have "lru_load_one h (acc, m) = Inr (acc @ [?s], lru_set h ?s m)"
    using a by (simp add: lru_load_one_def Let_def set_ref_cnt_small is_ready_def)
  then show "\<exists>m' s'. lru_load_one h (acc, m) = Inr (acc @ [s'], m') \<and> status_block_id s' = status_block_id s \<and> lru_inv m'
        \<and> map_of (lru_blocks m') = (map_of (lru_blocks m))(h \<mapsto> ?s)"
    using lru_set_inv [OF a(1,2), of ?s] a(3,4) by (auto simp: is_ready_def)
qed

lemma lru_unload_step:
  "\<forall>h m s. lru_inv m \<longrightarrow> map_of (lru_blocks m) h = Some s \<longrightarrow> 0 < status_ref_cnt s \<longrightarrow>
     (\<exists>m'. lru_unload_one h m = Inr m' \<and> lru_inv m'
        \<and> map_of (lru_blocks m') = (map_of (lru_blocks m))(h \<mapsto> s\<lparr>status_ref_cnt := status_ref_cnt s - 1\<rparr>))"
proof (intro allI impI)
  fix h m s
  assume a: "lru_inv m" "map_of (lru_blocks m) h = Some s" "0 < status_ref_cnt s"
  let ?s = "s\<lparr>status_ref_cnt := status_ref_cnt s - 1\<rparr>"
  have "lru_unload_one h m = Inr (lru_set h ?s m)" using a lru_invD(3) [OF a(1,2)] by (simp add: lru_unload_one_def set_ref_cnt_small)
  then show "\<exists>m'. lru_unload_one h m = Inr m' \<and> lru_inv m' \<and> map_of (lru_blocks m') = (map_of (lru_blocks m))(h \<mapsto> ?s)"
    using lru_set_inv [OF a(1,2), of ?s] a(3) lru_invD(3) [OF a(1,2)] by auto
qed

lemma lru_store_step:
  "\<forall>h x s. lru_inv (fst x) \<longrightarrow> map_of (lru_blocks (fst x)) h = Some s \<longrightarrow> status_ref_cnt s = - 1 \<longrightarrow>
     (\<exists>x'. lru_store_one h x = Inr x' \<and> lru_inv (fst x') \<and> map_of (lru_blocks (fst x')) = (map_of (lru_blocks (fst x)))(h := Some (s\<lparr>status_ref_cnt := 0\<rparr>)))"
proof (intro allI impI)
  fix h and x :: "lru_manager \<times> bytes list" and s
  assume a: "lru_inv (fst x)" "map_of (lru_blocks (fst x)) h = Some s" "status_ref_cnt s = - 1"
  let ?s = "s\<lparr>status_ref_cnt := 0\<rparr>"
  have "lru_store_one h x = Inr (lru_set h ?s (fst x), snd x @ [h])"
    using a by (cases x) (simp add: lru_store_one_def set_ref_cnt_small is_ready_def)
  then show "\<exists>x'. lru_store_one h x = Inr x' \<and> lru_inv (fst x') \<and> map_of (lru_blocks (fst x')) = (map_of (lru_blocks (fst x)))(h \<mapsto> ?s)"
    using lru_set_inv [OF a(1,2), of ?s] by auto
qed

lemma lru_drop_step:
  "\<forall>h m s. lru_inv m \<longrightarrow> map_of (lru_blocks m) h = Some s \<longrightarrow> status_ref_cnt s = - 1 \<longrightarrow>
     (\<exists>m'. lru_drop_one h m = Inr m' \<and> lru_inv m' \<and> map_of (lru_blocks m') = (map_of (lru_blocks m))(h := None))"
  using lru_drop_inv by (fastforce simp: lru_drop_one_def is_ready_def simp flip: lru_drop_def)

lemma lru_touch_loop:
  assumes "lru_inv m"
  shows "\<exists>m'. rfold lru_touch_one hs m = Inr m' \<and> lru_inv m' \<and> map_of (lru_blocks m') = map_of (lru_blocks m)"
proof (rule rfold_total [where P = "\<lambda>x. lru_inv x \<and> map_of (lru_blocks x) = map_of (lru_blocks m)"])
  fix h x
  assume x: "lru_inv x \<and> map_of (lru_blocks x) = map_of (lru_blocks m)"
  show "\<exists>x'. lru_touch_one h x = Inr x' \<and> lru_inv x' \<and> map_of (lru_blocks x') = map_of (lru_blocks m)"
  proof (cases "map_of (lru_blocks x) h")
    case (Some s)
    then obtain d where d: "move_to_end h (lru_blocks x) = Inr d" "map_of d = map_of (lru_blocks x)" "mset d = mset (lru_blocks x)"
      using move_to_end_spec [OF lru_invD(1)] x by blast
    have "lru_inv (x\<lparr>lru_blocks := d\<rparr>)" using x dict_ok_perm(1) [OF _ d(3)] by (simp add: lru_inv_def)
    then show ?thesis using Some d x by (simp add: lru_touch_one_def)
  qed (use x in \<open>simp add: lru_touch_one_def\<close>)
qed (use assms in simp)

interpretation lru: offloading_manager lru_ops lru_inv "\<lambda>m. map_of (lru_blocks m)"
proof
  fix m :: lru_manager and hs :: "bytes list" and success :: bool
  assume i: "lru_inv m"
  note I = lru_invD [OF i]
  show "- 1 \<le> status_ref_cnt s" if "map_of (lru_blocks m) h = Some s" for h s using I(3) [OF that] by simp
  show "h = h'" if "map_of (lru_blocks m) h = Some s" "map_of (lru_blocks m) h' = Some s'" "status_block_id s = status_block_id s'" for h h' s s'
    using own_block_dict [OF I(4) that] .
  show "\<exists>m'. op_lookup lru_ops hs m = (Some (length (takeWhile (ready_in (map_of (lru_blocks m))) hs)), m') \<and> lru_inv m'
      \<and> map_of (lru_blocks m') = map_of (lru_blocks m)"
    using i by (simp add: lru_ops_def lru_lookup_def hit_count_ready)
  show "\<exists>m'. op_touch lru_ops hs m = Inr m' \<and> lru_inv m' \<and> map_of (lru_blocks m') = map_of (lru_blocks m)"
    using lru_touch_loop [OF i, of "rev hs"] by (simp add: lru_ops_def lru_touch_def)
  show "lru_inv (snd (op_take_events lru_ops m)) \<and> map_of (lru_blocks (snd (op_take_events lru_ops m))) = map_of (lru_blocks m)"
    using i by (simp add: lru_ops_def lru_take_events_def split: option.splits)
  {
    assume "\<forall>h \<in> set hs. ready_in (map_of (lru_blocks m)) h \<and> status_ref_cnt (the (map_of (lru_blocks m) h)) + int (count_list hs h) < 2 ^ 31"
    then show "\<exists>m'. op_prepare_load lru_ops hs m = Inr (CPULoadStoreSpec (map (\<lambda>h. status_block_id (the (map_of (lru_blocks m) h))) hs), m')
        \<and> lru_inv m' \<and> map_of (lru_blocks m') = add_refs (map_of (lru_blocks m)) (\<lambda>h. int (count_list hs h))"
      using load_loop [OF lru_load_step, of m hs "[]"] i by (auto simp: lru_ops_def lru_prepare_load_def get_load_store_spec_def)
  next
    assume "\<forall>h \<in> set hs. \<exists>s. map_of (lru_blocks m) h = Some s \<and> int (count_list hs h) \<le> status_ref_cnt s"
    then show "\<exists>m'. op_complete_load lru_ops hs m = Inr m' \<and> lru_inv m'
        \<and> map_of (lru_blocks m') = add_refs (map_of (lru_blocks m)) (\<lambda>h. - int (count_list hs h))"
      using unload_loop [OF lru_unload_step i] by (simp add: lru_ops_def lru_complete_load_def)
  next
    assume d: "distinct hs"
    define ts c where "ts = filter (\<lambda>h. map_of (lru_blocks m) h = None) hs" and "c = lru_candidates (set hs) (lru_blocks m)"
    define need where "need = nat (int (length ts) - backend_get_num_free_blocks (lru_backend m))"
    note spec = lru_prepare_store_spec [OF i d ts_def c_def need_def]
    have ev: "evictable (map_of (lru_blocks m)) (set (take need c))"
      using lru_candidatesD(2) [OF I(1)] set_take_subset [of need c] unfolding c_def evictable_def by blast
    show "\<exists>res m' E. op_prepare_store lru_ops hs m = Inr (res, m') \<and> lru_inv m' \<and> evictable (map_of (lru_blocks m)) E
      \<and> (case res of
           None \<Rightarrow> map_of (lru_blocks m') = map_of (lru_blocks m) |` (- E)
         | Some out \<Rightarrow> E = set (block_hashes_evicted out) \<and> set (block_hashes_to_store out) \<subseteq> set hs \<and> distinct (block_hashes_to_store out)
             \<and> (\<forall>h \<in> set (block_hashes_to_store out). map_of (lru_blocks m) h = None)
             \<and> new_slots (map_of (lru_blocks m) |` (- E)) (block_hashes_to_store out) (spec_block_ids (store_spec out)) (map_of (lru_blocks m')))"
    proof (cases "length c < need")
      case True
      then show ?thesis using spec(1) i by (intro exI [of _ None] exI [of _ m] exI [of _ "{}"]) (simp add: lru_ops_def evictable_def restrict_map_def)
    next
      case False
      then obtain blocks m' where r: "lru_prepare_store hs m = Inr (Some \<lparr>block_hashes_to_store = ts,
          store_spec = get_load_store_spec blocks, block_hashes_evicted = take need c\<rparr>, m')"
        "lru_inv m'" "length blocks = length ts" "\<forall>s \<in> set blocks. status_ref_cnt s = - 1"
        "lru_blocks m' = AList.restrict (- set (take need c)) (lru_blocks m) @ zip ts blocks"
        using spec(2) by auto
      have ts: "distinct ts" "set ts \<subseteq> set hs" "\<forall>h \<in> set ts. map_of (lru_blocks m) h = None" using d by (auto simp: ts_def)
      have R: "map_of (AList.restrict (- set (take need c)) (lru_blocks m)) = map_of (lru_blocks m) |` (- set (take need c))" by (rule restr_conv')
      have "new_slots (map_of (lru_blocks m) |` (- set (take need c))) ts (map status_block_id blocks) (map_of (lru_blocks m'))"
        unfolding r(5) R [symmetric] using ts r(3,4) by (intro new_slots_append) (auto simp: R restrict_map_def)
      then show ?thesis using r(1,2) ts ev
        by (intro exI [of _ "Some \<lparr>block_hashes_to_store = ts, store_spec = get_load_store_spec blocks, block_hashes_evicted = take need c\<rparr>"]
            exI [of _ m'] exI [of _ "set (take need c)"]) (simp add: lru_ops_def get_load_store_spec_def)
    qed
  next
    assume d: "distinct hs" and p: "\<forall>h \<in> set hs. \<exists>s. map_of (lru_blocks m) h = Some s \<and> status_ref_cnt s = - 1"
    let ?R = "\<lambda>h. if h \<notin> set hs then map_of (lru_blocks m) h
         else if success then map_option (status_ref_cnt_update (\<lambda>_. 0)) (map_of (lru_blocks m) h) else None"
    have "\<exists>m' stored. (if success then rfold lru_store_one hs (m, []) else rbind (rfold lru_drop_one hs m) (\<lambda>m. Inr (m, []))) = Inr (m', stored)
        \<and> lru_inv m' \<and> map_of (lru_blocks m') = ?R"
    proof (cases success)
      case True
      obtain x where x: "rfold lru_store_one hs (m, []) = Inr x" "lru_inv (fst x)"
          "map_of (lru_blocks (fst x)) = (\<lambda>h. if h \<notin> set hs then map_of (lru_blocks m) h else Some ((the (map_of (lru_blocks m) h))\<lparr>status_ref_cnt := 0\<rparr>))"
        using point_loop [OF lru_store_step, of "(m, [])" hs, unfolded fst_conv, OF i d p] by blast
      moreover have "map_of (lru_blocks (fst x)) = ?R" using x(3) p True by (fastforce simp: fun_eq_iff)
      ultimately show ?thesis using True by (cases x) auto
    next
      case False
      then show ?thesis using point_loop [OF lru_drop_step i d p] by (auto simp: fun_eq_iff)
    qed
    then show "\<exists>m'. op_complete_store lru_ops hs success m = Inr m' \<and> lru_inv m' \<and> map_of (lru_blocks m') = ?R"
      by (auto simp: lru_ops_def lru_complete_store_def)
  }
qed

interpretation filtered_lru: offloading_manager "filter_ops lru_ops" "\<lambda>f. lru_inv (backing f)" "\<lambda>f. map_of (lru_blocks (backing f))"
  by (rule lru.filter_contract)

section \<open>Properties\<close>

lemma lru_new_empty: "map_of (lru_blocks (LRUOffloadingManager b ev)) = Map.empty"
  by (simp add: LRUOffloadingManager_def)

text \<open>
  C32. The LRU manager keeps offloaded data intact, with and without the reuse filter: in every session that
  follows the protocol, a running load reads the data of the block it was started for, a load after a
  full hit names blocks that hold the right data, and no call the protocol allows raises.
\<close>

theorem lru_sessions_safe:
  assumes "0 \<le> n" "n \<le> 2 ^ 63" and "FilterReusedOffloadingManager (LRUOffloadingManager (CPUBackend bs n) ev) threshold tracker = Inr f"
  shows "(session_reachable lru_ops (LRUOffloadingManager (CPUBackend bs n) ev) s \<longrightarrow> session_safe lru_ops s)
     \<and> (session_reachable (filter_ops lru_ops) f s' \<longrightarrow> session_safe (filter_ops lru_ops) s')"
proof -
  have i: "lru_inv (LRUOffloadingManager (CPUBackend bs n) ev)" by (rule lru_inv_new [OF backend_inv_new [OF assms(1,2)]])
  have "backing f = LRUOffloadingManager (CPUBackend bs n) ev"
    using assms(3) by (auto simp: FilterReusedOffloadingManager_def split: if_splits)
  then show ?thesis
    using lru.sessions_safe [OF _ i lru_new_empty] filtered_lru.sessions_safe [of f] i lru_new_empty by metis
qed

text \<open>
  \<^verbatim>\<open>prepare_store\<close> of the LRU manager stores exactly the blocks it does not hold yet. If they do not fit, it evicts as few
  blocks as needed, the least recently used ones that no transfer uses and that are not among the given blocks, in
  this order, and appends the new blocks as most recently used; if there are not enough such blocks it
  returns \<^verbatim>\<open>None\<close> and changes nothing.
\<close>

theorem lru_store_evicts_oldest:
  assumes "session_reachable lru_ops (LRUOffloadingManager (CPUBackend bs n) ev) s" and "0 \<le> n" "n \<le> 2 ^ 63" and "distinct hs" and "m = manager_of s"
    and "to_store = filter (\<lambda>h. h \<notin> fst ` set (lru_blocks m)) hs" and "candidates = lru_candidates (set hs) (lru_blocks m)"
    and "need = nat (int (length to_store) - backend_get_num_free_blocks (lru_backend m))"
  shows "if length candidates < need then lru_prepare_store hs m = Inr (None, m)
     else \<exists>spec m'. lru_prepare_store hs m = Inr (Some \<lparr>block_hashes_to_store = to_store, store_spec = spec, block_hashes_evicted = take need candidates\<rparr>, m')
       \<and> map fst (lru_blocks m') = filter (\<lambda>h. h \<notin> set (take need candidates)) (map fst (lru_blocks m)) @ to_store
       \<and> backend_get_num_free_blocks (lru_backend m') = backend_num_blocks (lru_backend m') - int (length (lru_blocks m'))"
proof -
  have i0: "lru_inv (LRUOffloadingManager (CPUBackend bs n) ev)" by (rule lru_inv_new [OF backend_inv_new [OF assms(2,3)]])
  have i: "lru_inv m" using lru.session_invD(1) [OF lru.session_reachable_inv [OF assms(1) i0 lru_new_empty]] assms(5) by simp
  have ts: "to_store = filter (\<lambda>h. map_of (lru_blocks m) h = None) hs" using assms(6) by (simp add: map_of_eq_None_iff)
  note spec = lru_prepare_store_spec [OF i assms(4) ts assms(7,8)]
  have keys: "map fst (AList.restrict (- set E) d) = filter (\<lambda>h. h \<notin> set E) (map fst d)" for E and d :: "block_status ordered_dict"
    by (induction d) (auto simp: AList.restrict_eq)
  show ?thesis
  proof (cases "length candidates < need")
    case False
    then obtain blocks m' where r: "lru_prepare_store hs m = Inr (Some \<lparr>block_hashes_to_store = to_store,
          store_spec = get_load_store_spec blocks, block_hashes_evicted = take need candidates\<rparr>, m')"
        "lru_inv m'" "length blocks = length to_store" "lru_blocks m' = AList.restrict (- set (take need candidates)) (lru_blocks m) @ zip to_store blocks"
      using spec(2) by auto
    then show ?thesis using False backend_free_blocks [OF lru_invD(2) [OF r(2)]] by (simp add: keys)
  qed (simp add: spec(1))
qed

section \<open>Witnesses\<close>

text \<open>Two blocks are stored in memory for two blocks, the first one is being loaded.\<close>

definition lru_example :: "lru_manager" where
  "lru_example = \<lparr>lru_backend = \<lparr>backend_block_size = 16, backend_medium = ''CPU'', backend_num_blocks = 2, num_allocated_blocks = 2,
       allocated_blocks_free_list = []\<rparr>,
     lru_blocks = [([1], \<lparr>status_ref_cnt = 1, status_block_id = 0\<rparr>), ([2], \<lparr>status_ref_cnt = 0, status_block_id = 1\<rparr>)], lru_events = None\<rparr>"

lemma lru_example_reachable:
  "\<exists>s. session_reachable lru_ops (LRUOffloadingManager (CPUBackend 16 2) False) s \<and> manager_of s = lru_example \<and> loads s = {#([1], 0)#}"
proof -
  let ?start = "LRUOffloadingManager (CPUBackend 16 2) False"
  let ?b = "\<lparr>backend_block_size = 16, backend_medium = ''CPU'', backend_num_blocks = 2, num_allocated_blocks = 2, allocated_blocks_free_list = []\<rparr> :: cpu_backend"
  let ?d = "\<lambda>i j. [([1], \<lparr>status_ref_cnt = i, status_block_id = 0\<rparr>), ([2], \<lparr>status_ref_cnt = j, status_block_id = 1\<rparr>)] :: block_status ordered_dict"
  let ?m = "\<lambda>i j. \<lparr>lru_backend = ?b, lru_blocks = ?d i j, lru_events = None\<rparr>"
  let ?out = "\<lparr>block_hashes_to_store = [[1], [2]], store_spec = CPULoadStoreSpec [0, 1], block_hashes_evicted = []\<rparr> :: prepare_store_output"
  have s1: "op_prepare_store lru_ops [[1], [2]] ?start = Inr (Some ?out, ?m (- 1) (- 1))" by code_simp
  have s2: "op_complete_store lru_ops [[1], [2]] True (?m (- 1) (- 1)) = Inr (?m 0 0)" by code_simp
  have s3: "op_prepare_load lru_ops [[1]] (?m 0 0) = Inr (CPULoadStoreSpec [0], ?m 1 0)" by code_simp
  have l: "fst (op_lookup lru_ops [[1]] (?m 0 0)) = Some (length [[1 :: 8 word]])" by code_simp
  let ?sa = "(new_session ?start)\<lparr>manager_of := ?m (- 1) (- 1), stores := stores (new_session ?start) \<union> set (block_hashes_to_store ?out),
      memory := write_blocks (block_hashes_to_store ?out) (spec_block_ids (store_spec ?out)) (memory (new_session ?start))\<rparr>"
  let ?sb = "?sa\<lparr>manager_of := ?m 0 0, stores := stores ?sa - set [[1], [2]]\<rparr>"
  let ?sc = "?sb\<lparr>manager_of := ?m 1 0, loads := loads ?sb + mset (zip [[1]] (spec_block_ids (CPULoadStoreSpec [0])))\<rparr>"
  have "session_step lru_ops (new_session ?start) ?sa" by (rule session_step.Store [of "[[1], [2]]"]) (use s1 in \<open>simp_all add: new_session_def\<close>)
  moreover have "session_step lru_ops ?sa ?sb" by (rule session_step.Stored [of "[[1], [2]]" _ _ True]) (use s2 in \<open>simp_all add: new_session_def\<close>)
  moreover have "session_step lru_ops ?sb ?sc"
    by (rule session_step.Load [of _ "[[1]]"]) (use s3 l in \<open>simp_all add: new_session_def\<close>)
  ultimately have "session_reachable lru_ops ?start ?sc" by (meson session_reachable.intros)
  then show ?thesis by (rule exI [of _ ?sc, OF conjI]) (simp add: lru_example_def new_session_def)
qed

theorem lru_sessions_safe_witness:
  "\<exists>s. manager_of s = lru_example \<and> loads s = {#([1], 0)#} \<and> memory s 0 = Some [1] \<and> session_safe lru_ops s"
proof -
  obtain s where s: "session_reachable lru_ops (LRUOffloadingManager (CPUBackend 16 2) False) s" "manager_of s = lru_example" "loads s = {#([1], 0)#}"
    using lru_example_reachable by blast
  have "FilterReusedOffloadingManager (LRUOffloadingManager (CPUBackend 16 2) False) 2 10
      = Inr \<lparr>backing = LRUOffloadingManager (CPUBackend 16 2) False, store_threshold = 2, max_tracker_size = 10, reuse_counts = []\<rparr>"
    by (simp add: FilterReusedOffloadingManager_def)
  then have "session_safe lru_ops s" using lru_sessions_safe [of 2 16 False 2 10] s(1) by simp
  then show ?thesis using s by (auto simp: session_safe_def)
qed

theorem lru_store_evicts_oldest_witness:
  "\<exists>spec m'. lru_prepare_store [[3]] lru_example
       = Inr (Some \<lparr>block_hashes_to_store = [[3]], store_spec = spec, block_hashes_evicted = [[2]]\<rparr>, m')
     \<and> map fst (lru_blocks m') = [[1], [3]]"
proof -
  obtain s where s: "session_reachable lru_ops (LRUOffloadingManager (CPUBackend 16 2) False) s" "manager_of s = lru_example"
    using lru_example_reachable by blast
  have c: "lru_candidates (set [[3]]) (lru_blocks lru_example) = [[2]]" "filter (\<lambda>h. h \<notin> fst ` set (lru_blocks lru_example)) [[3]] = [[3]]"
    "backend_get_num_free_blocks (lru_backend lru_example) = 0"
    by (simp_all add: lru_candidates_def lru_example_def backend_get_num_free_blocks_def)
  show ?thesis
    using lru_store_evicts_oldest [OF s(1) _ _ _ refl refl refl refl, of "[[3]]"] s(2) c by (auto simp: lru_example_def)
qed

end
