(* ===== verification/Offload_ARC.thy ===== *)
theory Offload_ARC
  imports Offload
begin

text \<open>
  \<^verbatim>\<open>ARCOffloadingManager\<close> of \<^verbatim>\<open>src/vllm/v1/kv_offload/arc_manager.py\<close> on the CPU backend, with its two caches, its two
  ghost lists and the adaptive target. The target is a floating point number; \<open>rnd\<close> is the rounding of an exact
  result to such a number, a parameter of the operations that compute it.
\<close>

section \<open>The manager\<close>

record arc_manager =
  arc_backend :: cpu_backend
  target_t1_size :: rat
  arc_t1 :: "block_status ordered_dict"
  arc_t2 :: "block_status ordered_dict"
  arc_b1 :: "unit ordered_dict"
  arc_b2 :: "unit ordered_dict"
  arc_events :: "offloading_event list option"
  cache_capacity :: int

definition ARCOffloadingManager :: "cpu_backend \<Rightarrow> bool \<Rightarrow> arc_manager" where
  "ARCOffloadingManager b enable_events =
     \<lparr>arc_backend = b, target_t1_size = 0, arc_t1 = [], arc_t2 = [], arc_b1 = [], arc_b2 = [],
      arc_events = (if enable_events then Some [] else None), cache_capacity = backend_get_num_free_blocks b\<rparr>"

text \<open>\<^verbatim>\<open>self.t1.get(block_hash) or self.t2.get(block_hash)\<close>, and assigning to the object found.\<close>

definition arc_get :: "arc_manager \<Rightarrow> bytes \<Rightarrow> block_status option" where
  "arc_get m h = (case map_of (arc_t1 m) h of Some s \<Rightarrow> Some s | None \<Rightarrow> map_of (arc_t2 m) h)"

definition arc_set :: "bytes \<Rightarrow> block_status \<Rightarrow> arc_manager \<Rightarrow> arc_manager" where
  "arc_set h s m =
     (if map_of (arc_t1 m) h \<noteq> None then m\<lparr>arc_t1 := AList.update h s (arc_t1 m)\<rparr> else m\<lparr>arc_t2 := AList.update h s (arc_t2 m)\<rparr>)"

definition arc_lookup :: "bytes list \<Rightarrow> arc_manager \<Rightarrow> nat option \<times> arc_manager" where
  "arc_lookup hs m = (Some (hit_count (arc_get m) hs), m)"

definition arc_load_one :: "bytes \<Rightarrow> block_status list \<times> arc_manager \<Rightarrow> (block_status list \<times> arc_manager) result" where
  "arc_load_one h x =
     (case x of (blocks, m) \<Rightarrow>
        case arc_get m h of
          None \<Rightarrow> Inl AssertionError
        | Some s \<Rightarrow>
            rbind (ensure (is_ready s) AssertionError) (\<lambda>_.
            let s = set_ref_cnt (status_ref_cnt s + 1) s in Inr (blocks @ [s], arc_set h s m)))"

definition arc_prepare_load :: "bytes list \<Rightarrow> arc_manager \<Rightarrow> (load_store_spec \<times> arc_manager) result" where
  "arc_prepare_load hs m = rbind (rfold arc_load_one hs ([], m)) (\<lambda>(blocks, m). Inr (get_load_store_spec blocks, m))"

definition arc_touch_one :: "(rat \<Rightarrow> rat) \<Rightarrow> bytes \<Rightarrow> arc_manager \<Rightarrow> arc_manager result" where
  "arc_touch_one rnd h m =
     (case map_of (arc_t1 m) h of
        Some s \<Rightarrow>
          let m = m\<lparr>arc_t1 := AList.delete h (arc_t1 m)\<rparr>
          in Inr (if \<not> is_ready s then m\<lparr>arc_t1 := AList.update h s (arc_t1 m)\<rparr> else m\<lparr>arc_t2 := AList.update h s (arc_t2 m)\<rparr>)
      | None \<Rightarrow>
          if map_of (arc_t2 m) h \<noteq> None
          then rbind (move_to_end h (arc_t2 m)) (\<lambda>d. Inr (m\<lparr>arc_t2 := d\<rparr>))
          else if map_of (arc_b1 m) h \<noteq> None
          then
            let delta = max 1 (rnd (of_nat (length (arc_b2 m)) / of_nat (length (arc_b1 m))));
                m = m\<lparr>target_t1_size := min (rnd (target_t1_size m + delta)) (of_int (cache_capacity m))\<rparr>
            in rbind (move_to_end h (arc_b1 m)) (\<lambda>d. Inr (m\<lparr>arc_b1 := d\<rparr>))
          else if map_of (arc_b2 m) h \<noteq> None
          then
            let delta = max 1 (rnd (of_nat (length (arc_b1 m)) / of_nat (length (arc_b2 m))));
                m = m\<lparr>target_t1_size := max (rnd (target_t1_size m - delta)) 0\<rparr>
            in rbind (move_to_end h (arc_b2 m)) (\<lambda>d. Inr (m\<lparr>arc_b2 := d\<rparr>))
          else Inr m)"

definition arc_touch :: "(rat \<Rightarrow> rat) \<Rightarrow> bytes list \<Rightarrow> arc_manager \<Rightarrow> arc_manager result" where
  "arc_touch rnd hs m = rfold (arc_touch_one rnd) (rev hs) m"

definition arc_unload_one :: "bytes \<Rightarrow> arc_manager \<Rightarrow> arc_manager result" where
  "arc_unload_one h m =
     (case arc_get m h of
        None \<Rightarrow> Inl AssertionError
      | Some s \<Rightarrow> rbind (ensure (0 < status_ref_cnt s) AssertionError) (\<lambda>_. Inr (arc_set h (set_ref_cnt (status_ref_cnt s - 1) s) m)))"

definition arc_complete_load :: "bytes list \<Rightarrow> arc_manager \<Rightarrow> arc_manager result" where
  "arc_complete_load hs m = rfold arc_unload_one hs m"

text \<open>\<^verbatim>\<open>int(x)\<close> cuts off towards zero.\<close>

definition py_int :: "rat \<Rightarrow> int" where
  "py_int x = (if 0 \<le> x then \<lfloor>x\<rfloor> else \<lceil>x\<rceil>)"

definition arc_victim :: "bytes set \<Rightarrow> block_status ordered_dict \<Rightarrow> (bytes \<times> block_status) option" where
  "arc_victim protected d = find (\<lambda>(h, s). status_ref_cnt s = 0 \<and> h \<notin> protected) d"

text \<open>One iteration of the eviction loop; \<open>None\<close> if there is no block to evict.\<close>

definition arc_evict_one :: "bytes set \<Rightarrow> arc_manager \<Rightarrow> (bytes \<times> arc_manager) option" where
  "arc_evict_one protected m =
     (case (if py_int (target_t1_size m) \<le> int (length (arc_t1 m)) then arc_victim protected (arc_t1 m) else None) of
        Some (h, s) \<Rightarrow>
          Some (h, m\<lparr>arc_t1 := AList.delete h (arc_t1 m), arc_b1 := AList.update h () (arc_b1 m), arc_backend := backend_free s (arc_backend m)\<rparr>)
      | None \<Rightarrow>
          (case arc_victim protected (arc_t2 m) of
             Some (h, s) \<Rightarrow>
               Some (h, m\<lparr>arc_t2 := AList.delete h (arc_t2 m), arc_b2 := AList.update h () (arc_b2 m), arc_backend := backend_free s (arc_backend m)\<rparr>)
           | None \<Rightarrow> None))"

fun arc_evict_loop :: "bytes set \<Rightarrow> nat \<Rightarrow> arc_manager \<Rightarrow> bytes list \<Rightarrow> bytes list option \<times> arc_manager" where
  "arc_evict_loop protected 0 m to_evict = (Some to_evict, m)"
| "arc_evict_loop protected (Suc n) m to_evict =
     (case arc_evict_one protected m of
        None \<Rightarrow> (None, m)
      | Some (h, m) \<Rightarrow> arc_evict_loop protected n m (to_evict @ [h]))"

definition arc_trim :: "int \<Rightarrow> unit ordered_dict \<Rightarrow> unit ordered_dict" where
  "arc_trim capacity b = drop (nat (int (length b) - capacity)) b"

definition arc_prepare_store :: "bytes list \<Rightarrow> arc_manager \<Rightarrow> (prepare_store_output option \<times> arc_manager) result" where
  "arc_prepare_store hs m =
     (let to_store = filter (\<lambda>h. map_of (arc_t1 m) h = None \<and> map_of (arc_t2 m) h = None) hs
      in if to_store = []
         then Inr (Some \<lparr>block_hashes_to_store = [], store_spec = get_load_store_spec [], block_hashes_evicted = []\<rparr>, m)
         else
           case arc_evict_loop (set hs) (nat (int (length to_store) - backend_get_num_free_blocks (arc_backend m))) m [] of
             (None, m) \<Rightarrow> Inr (None, m)
           | (Some to_evict, m) \<Rightarrow>
               let m = m\<lparr>arc_b1 := arc_trim (cache_capacity m) (arc_b1 m), arc_b2 := arc_trim (cache_capacity m) (arc_b2 m)\<rparr>;
                   m = m\<lparr>arc_events := add_offload_event to_evict True (arc_backend m) (arc_events m)\<rparr>
               in rbind (allocate_blocks to_store (arc_backend m)) (\<lambda>(blocks, b).
                  rbind (ensure (length blocks = length to_store) AssertionError) (\<lambda>_.
                  Inr (Some \<lparr>block_hashes_to_store = to_store, store_spec = get_load_store_spec blocks, block_hashes_evicted = to_evict\<rparr>,
                       m\<lparr>arc_backend := b, arc_t1 := insert_blocks to_store blocks (arc_t1 m),
                         arc_b1 := fold AList.delete to_store (arc_b1 m), arc_b2 := fold AList.delete to_store (arc_b2 m)\<rparr>))))"

definition arc_store_one :: "bytes \<Rightarrow> arc_manager \<times> bytes list \<Rightarrow> arc_manager \<times> bytes list" where
  "arc_store_one h x =
     (case x of (m, stored) \<Rightarrow>
        case arc_get m h of
          None \<Rightarrow> (m, stored)
        | Some s \<Rightarrow> if is_ready s then (m, stored) else (arc_set h (set_ref_cnt 0 s) m, stored @ [h]))"

definition arc_drop_one :: "bytes \<Rightarrow> arc_manager \<Rightarrow> arc_manager" where
  "arc_drop_one h m =
     (case arc_get m h of
        None \<Rightarrow> m
      | Some s \<Rightarrow>
          let m = (if map_of (arc_t1 m) h \<noteq> None then m\<lparr>arc_t1 := AList.delete h (arc_t1 m)\<rparr> else m\<lparr>arc_t2 := AList.delete h (arc_t2 m)\<rparr>)
          in if is_ready s then m else m\<lparr>arc_backend := backend_free s (arc_backend m)\<rparr>)"

definition arc_complete_store :: "bytes list \<Rightarrow> bool \<Rightarrow> arc_manager \<Rightarrow> arc_manager result" where
  "arc_complete_store hs success m =
     (let (m, stored) = (if success then fold arc_store_one hs (m, []) else (fold arc_drop_one hs m, []))
      in Inr (m\<lparr>arc_events := add_offload_event stored False (arc_backend m) (arc_events m)\<rparr>))"

definition arc_take_events :: "arc_manager \<Rightarrow> offloading_event list \<times> arc_manager" where
  "arc_take_events m = (case arc_events m of None \<Rightarrow> ([], m) | Some es \<Rightarrow> (es, m\<lparr>arc_events := Some []\<rparr>))"

definition arc_ops :: "(rat \<Rightarrow> rat) \<Rightarrow> arc_manager offloading_ops" where
  "arc_ops rnd = \<lparr>op_lookup = arc_lookup, op_prepare_load = arc_prepare_load, op_touch = arc_touch rnd, op_complete_load = arc_complete_load,
     op_prepare_store = arc_prepare_store, op_complete_store = arc_complete_store, op_take_events = arc_take_events\<rparr>"

section \<open>Invariant\<close>

abbreviation arc_dict :: "arc_manager \<Rightarrow> block_status ordered_dict" where
  "arc_dict m \<equiv> arc_t1 m @ arc_t2 m"

text \<open>The four lists hold each hash at most once.\<close>

definition arc_inv :: "arc_manager \<Rightarrow> bool" where
  "arc_inv m \<longleftrightarrow> dict_ok (arc_dict m) (arc_backend m) \<and> distinct (map fst (arc_dict m) @ map fst (arc_b1 m) @ map fst (arc_b2 m))"

lemma arc_get_map_of: "arc_get m = map_of (arc_dict m)"
  by (auto simp: arc_get_def fun_eq_iff map_add_def split: option.splits)

lemma update_append:
  "AList.update h v (d @ e) = (if map_of d h \<noteq> None then AList.update h v d @ e else d @ AList.update h v e)"
  by (induction d) auto

lemma delete_append: "AList.delete h (d @ e) = AList.delete h d @ AList.delete h e"
  by (simp add: AList.delete_eq)

lemma arc_dict_set: "arc_dict (arc_set h s m) = AList.update h s (arc_dict m)"
  by (simp add: arc_set_def update_append)

lemma arc_set_frame [simp]:
  "arc_backend (arc_set h s m) = arc_backend m" "arc_b1 (arc_set h s m) = arc_b1 m" "arc_b2 (arc_set h s m) = arc_b2 m"
  "target_t1_size (arc_set h s m) = target_t1_size m" "cache_capacity (arc_set h s m) = cache_capacity m"
  by (simp_all add: arc_set_def)

lemma arc_invD:
  assumes "arc_inv m"
  shows "dict_ok (arc_dict m) (arc_backend m)" "distinct (map fst (arc_dict m))" "backend_inv (arc_backend m) (block_ids (arc_dict m))"
    "arc_get m h = Some s \<Longrightarrow> - 1 \<le> status_ref_cnt s \<and> status_ref_cnt s < 2 ^ 31"
  using assms dict_okD [of "arc_dict m" "arc_backend m"] by (auto simp: arc_inv_def arc_get_map_of simp del: map_append map_of_append)

lemma arc_invI:
  assumes "dict_ok (arc_dict m) (arc_backend m)" and "distinct (map fst (arc_b1 m))" "distinct (map fst (arc_b2 m))"
    and "fst ` set (arc_b1 m) \<inter> fst ` set (arc_b2 m) = {}" and "fst ` set (arc_dict m) \<inter> (fst ` set (arc_b1 m) \<union> fst ` set (arc_b2 m)) = {}"
  shows "arc_inv m"
  using assms dict_okD(1) [OF assms(1)] by (simp add: arc_inv_def Int_Un_distrib Int_Un_distrib2 image_Un)

lemma arc_set_inv:
  assumes "arc_inv m" and "arc_get m h = Some s" and "status_block_id s' = status_block_id s" and "- 1 \<le> status_ref_cnt s'" "status_ref_cnt s' < 2 ^ 31"
  shows "arc_inv (arc_set h s' m)" "arc_get (arc_set h s' m) = (arc_get m)(h \<mapsto> s')"
proof -
  have m: "map_of (arc_dict m) h = Some s" using assms(2) by (simp add: arc_get_map_of)
  have keys: "map fst (AList.update h s' (arc_dict m)) = map fst (arc_dict m)"
    using m by (metis map_of_eq_None_iff option.distinct(1) update_keys image_set list.set_map)
  show "arc_inv (arc_set h s' m)"
    using assms(1) dict_ok_set [OF arc_invD(1) [OF assms(1)] m assms(3-5)] unfolding arc_inv_def arc_dict_set arc_set_frame keys by blast
  show "arc_get (arc_set h s' m) = (arc_get m)(h \<mapsto> s')" unfolding arc_get_map_of arc_dict_set by (simp add: update_conv' fun_eq_iff)
qed

text \<open>Taking a block out of its cache.\<close>

lemma arc_remove:
  assumes "arc_inv m" and "arc_get m h = Some s" and "arc_dict m' = AList.delete h (arc_dict m)" and "arc_backend m' = backend_free s (arc_backend m)"
    and "distinct (map fst (arc_b1 m') @ map fst (arc_b2 m'))"
    and "fst ` set (arc_b1 m') \<union> fst ` set (arc_b2 m') \<subseteq> insert h (fst ` set (arc_b1 m) \<union> fst ` set (arc_b2 m))"
  shows "arc_inv m'" "arc_get m' = (arc_get m)(h := None)" "Suc (length (arc_dict m')) = length (arc_dict m)"
proof -
  note I = arc_invD [OF assms(1)]
  have m: "map_of (arc_dict m) h = Some s" using assms(2) by (simp add: arc_get_map_of)
  have ok: "dict_ok (arc_dict m') (arc_backend m')" unfolding assms(3,4) by (rule dict_ok_delete [OF I(1) m])
  have sets: "A' = A - {h} \<Longrightarrow> A \<inter> G = {} \<Longrightarrow> G' \<subseteq> insert h G \<Longrightarrow> A' \<inter> G' = {}" for A A' G G' :: "bytes set" by blast
  have "fst ` set (arc_dict m') = fst ` set (arc_dict m) - {h}"
    unfolding assms(3) dom_map_of_conv_image_fst [symmetric] delete_conv' by simp
  moreover have "(fst ` set (arc_dict m)) \<inter> (fst ` set (arc_b1 m) \<union> fst ` set (arc_b2 m)) = {}" using assms(1) by (simp add: arc_inv_def Int_Un_distrib Int_Un_distrib2 image_Un)
  ultimately have "fst ` set (arc_dict m') \<inter> (fst ` set (arc_b1 m') \<union> fst ` set (arc_b2 m')) = {}" by (rule sets [OF _ _ assms(6)])
  then show "arc_inv m'" using ok assms(5) by (intro arc_invI) simp_all
  show "arc_get m' = (arc_get m)(h := None)" unfolding arc_get_map_of assms(3) by (rule delete_conv')
  show "Suc (length (arc_dict m')) = length (arc_dict m)" using arg_cong [OF mset_delete [OF I(2) m], of size] unfolding assms(3) by simp
qed

section \<open>Eviction\<close>

lemma arc_victimD:
  assumes "arc_victim protected d = Some (h, s)"
  shows "(h, s) \<in> set d" "status_ref_cnt s = 0" "h \<notin> protected"
  using assms unfolding arc_victim_def by (induction d) (auto split: if_splits)

lemma delete_absent: "map_of d h = None \<Longrightarrow> AList.delete h d = d"
  by (simp add: map_of_eq_None_iff delete_idem)

text \<open>Where a stored hash is: in exactly one of the two caches, and in no ghost list.\<close>

lemma arc_where:
  assumes "arc_inv m"
  shows "(h, s) \<in> set (arc_t1 m) \<Longrightarrow> arc_get m h = Some s \<and> AList.delete h (arc_dict m) = AList.delete h (arc_t1 m) @ arc_t2 m"
    and "(h, s) \<in> set (arc_t2 m) \<Longrightarrow> arc_get m h = Some s \<and> AList.delete h (arc_dict m) = arc_t1 m @ AList.delete h (arc_t2 m)"
    and "arc_get m h \<noteq> None \<Longrightarrow> h \<notin> fst ` set (arc_b1 m) \<union> fst ` set (arc_b2 m)"
proof -
  note d = arc_invD(2) [OF assms]
  { assume a: "(h, s) \<in> set (arc_t1 m)"
    then have "map_of (arc_t2 m) h = None" using d by (force simp: map_of_eq_None_iff)
    moreover have "map_of (arc_dict m) h = Some s" by (rule map_of_is_SomeI [OF d]) (use a in simp)
    ultimately show "arc_get m h = Some s \<and> AList.delete h (arc_dict m) = AList.delete h (arc_t1 m) @ arc_t2 m"
      by (simp add: arc_get_map_of delete_append delete_absent) }
  { assume a: "(h, s) \<in> set (arc_t2 m)"
    then have "map_of (arc_t1 m) h = None" using d by (force simp: map_of_eq_None_iff)
    moreover have "map_of (arc_dict m) h = Some s" by (rule map_of_is_SomeI [OF d]) (use a in simp)
    ultimately show "arc_get m h = Some s \<and> AList.delete h (arc_dict m) = arc_t1 m @ AList.delete h (arc_t2 m)"
      by (simp add: arc_get_map_of delete_append delete_absent) }
  assume "arc_get m h \<noteq> None"
  then have "h \<in> fst ` set (arc_dict m)" unfolding arc_get_map_of by (metis map_of_eq_None_iff)
  then show "h \<notin> fst ` set (arc_b1 m) \<union> fst ` set (arc_b2 m)" using assms by (auto simp: arc_inv_def)
qed

lemma arc_evict_one_spec:
  assumes "arc_inv m" and "arc_evict_one protected m = Some (h, m')"
  shows "\<exists>s. arc_get m h = Some s \<and> status_ref_cnt s = 0" "h \<notin> protected" "arc_inv m'" "arc_get m' = (arc_get m)(h := None)"
    "Suc (length (arc_dict m')) = length (arc_dict m)" "backend_num_blocks (arc_backend m') = backend_num_blocks (arc_backend m)"
    "arc_events m' = arc_events m" "cache_capacity m' = cache_capacity m" "target_t1_size m' = target_t1_size m"
proof -
  have g: "distinct (map fst (arc_b1 m) @ map fst (arc_b2 m))" using assms(1) by (simp add: arc_inv_def)
  obtain s where s: "(h, s) \<in> set (arc_t1 m) \<and> m' = m\<lparr>arc_t1 := AList.delete h (arc_t1 m), arc_b1 := AList.update h () (arc_b1 m), arc_backend := backend_free s (arc_backend m)\<rparr>
      \<or> (h, s) \<in> set (arc_t2 m) \<and> m' = m\<lparr>arc_t2 := AList.delete h (arc_t2 m), arc_b2 := AList.update h () (arc_b2 m), arc_backend := backend_free s (arc_backend m)\<rparr>"
     "status_ref_cnt s = 0" "h \<notin> protected"
    using assms(2) by (auto simp: arc_evict_one_def split: if_splits option.splits prod.splits dest: arc_victimD)
  have get: "arc_get m h = Some s" using s(1) arc_where(1,2) [OF assms(1)] by blast
  then have ng: "h \<notin> fst ` set (arc_b1 m) \<union> fst ` set (arc_b2 m)" using arc_where(3) [OF assms(1)] by simp
  have "arc_dict m' = AList.delete h (arc_dict m)" using s(1) arc_where(1,2) [OF assms(1), of h s] by auto
  moreover have "arc_backend m' = backend_free s (arc_backend m)" using s(1) by auto
  moreover have "distinct (map fst (arc_b1 m') @ map fst (arc_b2 m'))" 
    using s(1) g ng by (elim disjE conjE) (simp_all add: alist_update_fresh)
  moreover have "fst ` set (arc_b1 m') \<union> fst ` set (arc_b2 m') \<subseteq> insert h (fst ` set (arc_b1 m) \<union> fst ` set (arc_b2 m))"
    using s(1) ng by (auto simp: alist_update_fresh)
  ultimately have R: "arc_inv m'" "arc_get m' = (arc_get m)(h := None)" "Suc (length (arc_dict m')) = length (arc_dict m)"
    using arc_remove [OF assms(1) get] by blast+
  show "\<exists>s. arc_get m h = Some s \<and> status_ref_cnt s = 0" "h \<notin> protected" using get s(2,3) by auto
  show "arc_inv m'" "arc_get m' = (arc_get m)(h := None)" "Suc (length (arc_dict m')) = length (arc_dict m)" by (rule R)+
  show "backend_num_blocks (arc_backend m') = backend_num_blocks (arc_backend m)"
    "arc_events m' = arc_events m" "cache_capacity m' = cache_capacity m" "target_t1_size m' = target_t1_size m"
    using s(1) by (auto simp: backend_free_def)
qed

lemma arc_evict_loop_spec:
  assumes "arc_inv m" and "arc_evict_loop protected n m acc = (res, m')"
  shows "\<exists>E. distinct E \<and> set E \<inter> protected = {} \<and> evictable (arc_get m) (set E) \<and> arc_inv m' \<and> arc_get m' = arc_get m |` (- set E)
     \<and> length (arc_dict m') + length E = length (arc_dict m) \<and> backend_num_blocks (arc_backend m') = backend_num_blocks (arc_backend m)
     \<and> cache_capacity m' = cache_capacity m \<and> target_t1_size m' = target_t1_size m \<and> arc_events m' = arc_events m
     \<and> (res = None \<or> res = Some (acc @ E) \<and> length E = n)"
  using assms
proof (induction n arbitrary: m acc)
  case 0
  then show ?case by (intro exI [of _ "[]"]) (auto simp: evictable_def restrict_map_def)
next
  case (Suc n)
  show ?case
  proof (cases "arc_evict_one protected m")
    case None
    then show ?thesis using Suc.prems by (intro exI [of _ "[]"]) (auto simp: evictable_def restrict_map_def)
  next
    case (Some x)
    then obtain h m1 where e: "arc_evict_one protected m = Some (h, m1)" by (cases x) auto
    note S = arc_evict_one_spec [OF Suc.prems(1) e]
    have "arc_evict_loop protected n m1 (acc @ [h]) = (res, m')" using Suc.prems(2) e by simp
    from Suc.IH [OF S(3) this] obtain E where E: "distinct E" "set E \<inter> protected = {}" "evictable (arc_get m1) (set E)" "arc_inv m'"
        "arc_get m' = arc_get m1 |` (- set E)" "length (arc_dict m') + length E = length (arc_dict m1)"
        "backend_num_blocks (arc_backend m') = backend_num_blocks (arc_backend m1)" "cache_capacity m' = cache_capacity m1"
        "target_t1_size m' = target_t1_size m1" "arc_events m' = arc_events m1" "res = None \<or> res = Some ((acc @ [h]) @ E) \<and> length E = n" by blast
    have h: "h \<notin> set E" using E(3) by (auto simp: evictable_def S(4))
    have "evictable (arc_get m) (set (h # E))" using E(3) S(1) by (auto simp: evictable_def S(4) split: if_splits)
    moreover have "arc_get m' = arc_get m |` (- set (h # E))" using E(5) by (auto simp: S(4) restrict_map_def fun_eq_iff)
    ultimately show ?thesis using E h S by (intro exI [of _ "h # E"]) auto
  qed
qed

section \<open>Recency\<close>

lemma arc_perm:
  assumes "arc_inv m" and "mset (arc_dict m') = mset (arc_dict m)" and "arc_backend m' = arc_backend m"
    and "mset (arc_b1 m') = mset (arc_b1 m)" and "mset (arc_b2 m') = mset (arc_b2 m)"
  shows "arc_inv m'" "arc_get m' = arc_get m"
proof -
  note P = dict_ok_perm [OF arc_invD(1) [OF assms(1)] assms(2)]
  have "mset (map fst (arc_dict m') @ map fst (arc_b1 m') @ map fst (arc_b2 m')) = mset (map fst (arc_dict m) @ map fst (arc_b1 m) @ map fst (arc_b2 m))"
    unfolding mset_append mset_map assms(4,5) using arg_cong [OF assms(2), of "image_mset fst"] by simp
  from mset_eq_imp_distinct_iff [OF this] assms(1) P(1) show "arc_inv m'" unfolding arc_inv_def assms(3) by blast
  show "arc_get m' = arc_get m" unfolding arc_get_map_of by (rule P(2))
qed

lemma arc_touch_one_spec:
  assumes "arc_inv m"
  shows "\<exists>m'. arc_touch_one rnd h m = Inr m' \<and> arc_inv m' \<and> arc_get m' = arc_get m"
proof -
  have d: "distinct (map fst (arc_t1 m))" "distinct (map fst (arc_t2 m))" "distinct (map fst (arc_b1 m))" "distinct (map fst (arc_b2 m))"
    using assms by (auto simp: arc_inv_def)
  show ?thesis
  proof (cases "map_of (arc_t1 m) h")
    case (Some s)
    let ?m = "m\<lparr>arc_t1 := AList.delete h (arc_t1 m)\<rparr>"
    let ?n = "if \<not> is_ready s then ?m\<lparr>arc_t1 := AList.update h s (arc_t1 ?m)\<rparr> else ?m\<lparr>arc_t2 := AList.update h s (arc_t2 ?m)\<rparr>"
    have del: "h \<notin> fst ` set (AList.delete h (arc_t1 m))" by (rule delete_notin_dom)
    have "fst ` set (arc_t1 m) \<inter> fst ` set (arc_t2 m) = {}" using assms by (simp add: arc_inv_def Int_Un_distrib)
    moreover have "h \<in> fst ` set (arc_t1 m)" using map_of_SomeD [OF Some] by (rule rev_image_eqI) simp
    ultimately have "h \<notin> fst ` set (arc_t2 m)" by blast
    with del have "mset (arc_dict ?n) = mset (arc_dict m)" using mset_delete [OF d(1) Some] by (simp add: alist_update_fresh)
    from arc_perm [OF assms this] show ?thesis using Some by (auto simp: arc_touch_one_def Let_def)
  next
    case None
    have mv: "\<exists>d'. move_to_end h d = Inr d' \<and> mset d' = mset d" if "distinct (map fst d)" "map_of d h \<noteq> None" for d :: "'a ordered_dict"
      using move_to_end_spec [OF that(1)] that(2) by blast
    consider (t2) "map_of (arc_t2 m) h \<noteq> None" | (b1) "map_of (arc_t2 m) h = None" "map_of (arc_b1 m) h \<noteq> None"
      | (b2) "map_of (arc_t2 m) h = None" "map_of (arc_b1 m) h = None" "map_of (arc_b2 m) h \<noteq> None"
      | (absent) "map_of (arc_t2 m) h = None" "map_of (arc_b1 m) h = None" "map_of (arc_b2 m) h = None" by blast
    then show ?thesis
    proof cases
      case t2
      then obtain d' where d': "move_to_end h (arc_t2 m) = Inr d'" "mset d' = mset (arc_t2 m)" using mv [OF d(2)] by blast
      then show ?thesis using None t2 arc_perm [OF assms, of "m\<lparr>arc_t2 := d'\<rparr>"] by (auto simp: arc_touch_one_def)
    next
      case b1
      then obtain d' where d': "move_to_end h (arc_b1 m) = Inr d'" "mset d' = mset (arc_b1 m)" using move_to_end_spec [OF d(3)] by blast
      then show ?thesis using None b1 arc_perm [OF assms, of "m\<lparr>target_t1_size := t, arc_b1 := d'\<rparr>" for t] by (auto simp: arc_touch_one_def Let_def)
    next
      case b2
      then obtain d' where d': "move_to_end h (arc_b2 m) = Inr d'" "mset d' = mset (arc_b2 m)" using move_to_end_spec [OF d(4)] by blast
      then show ?thesis using None b2 arc_perm [OF assms, of "m\<lparr>target_t1_size := t, arc_b2 := d'\<rparr>" for t] by (auto simp: arc_touch_one_def Let_def)
    next
      case absent
      then show ?thesis using None assms by (simp add: arc_touch_one_def)
    qed
  qed
qed

lemma arc_touch_loop:
  assumes "arc_inv m"
  shows "\<exists>m'. rfold (arc_touch_one rnd) hs m = Inr m' \<and> arc_inv m' \<and> arc_get m' = arc_get m"
  using rfold_total [where P = "\<lambda>x. arc_inv x \<and> arc_get x = arc_get m", of m hs "arc_touch_one rnd"] assms arc_touch_one_spec by metis

section \<open>Storing\<close>

lemma fold_delete:
  fixes b :: "'c ordered_dict"
  assumes "distinct (map fst b)"
  shows "distinct (map fst (fold AList.delete hs b))" "fst ` set (fold AList.delete hs b) = fst ` set b - set hs"
proof -
  have "fold AList.delete hs b = AList.restrict (- set hs) b" for b :: "(bytes \<times> 'c) list"
    by (induction hs arbitrary: b) (auto simp: AList.restrict_eq AList.delete_eq case_prod_beta' intro: filter_cong)
  then show "distinct (map fst (fold AList.delete hs b))" "fst ` set (fold AList.delete hs b) = fst ` set b - set hs"
    using assms by (auto simp: AList.restrict_eq distinct_map_filter)
qed

lemma arc_trim_sub:
  shows "set (arc_trim n b) \<subseteq> set b" "distinct (map fst b) \<Longrightarrow> distinct (map fst (arc_trim n b))"
  by (simp_all add: arc_trim_def set_drop_subset flip: drop_map)

lemma arc_prepare_store_spec:
  assumes inv: "arc_inv m" and d: "distinct hs" and ts_def: "to_store = filter (\<lambda>h. arc_get m h = None) hs"
  shows "\<exists>res m' E. arc_prepare_store hs m = Inr (res, m') \<and> arc_inv m' \<and> evictable (arc_get m) (set E) \<and> set E \<inter> set hs = {} \<and> distinct E
     \<and> cache_capacity m' = cache_capacity m \<and> target_t1_size m' = target_t1_size m
     \<and> (case res of
          None \<Rightarrow> arc_get m' = arc_get m |` (- set E)
        | Some out \<Rightarrow> block_hashes_evicted out = E \<and> block_hashes_to_store out = to_store
            \<and> length E = nat (int (length to_store) - backend_get_num_free_blocks (arc_backend m))
            \<and> new_slots (arc_get m |` (- set E)) to_store (spec_block_ids (store_spec out)) (arc_get m'))"
proof (cases "to_store = []")
  case True
  then have "arc_prepare_store hs m = Inr (Some \<lparr>block_hashes_to_store = [], store_spec = get_load_store_spec [], block_hashes_evicted = []\<rparr>, m)"
    unfolding ts_def by (auto simp: arc_prepare_store_def Let_def arc_get_def filter_empty_conv split: option.splits)
  moreover have "0 \<le> backend_get_num_free_blocks (arc_backend m)" using backend_inv_nonneg [OF arc_invD(3) [OF inv]] .
  ultimately show ?thesis using True inv
    by (intro exI [of _ "Some \<lparr>block_hashes_to_store = [], store_spec = get_load_store_spec [], block_hashes_evicted = []\<rparr>"] exI [of _ m] exI [of _ "[]"])
      (simp add: evictable_def new_slots_def get_load_store_spec_def restrict_map_def)
next
  case False
  have ts: "to_store = filter (\<lambda>h. map_of (arc_t1 m) h = None \<and> map_of (arc_t2 m) h = None) hs"
    unfolding ts_def by (rule filter_cong) (auto simp: arc_get_def split: option.splits)
  have dts: "distinct to_store" "\<forall>h \<in> set to_store. arc_get m h = None" "set to_store \<subseteq> set hs" using d by (auto simp: ts_def)
  define n where "n = nat (int (length to_store) - backend_get_num_free_blocks (arc_backend m))"
  obtain res m1 where l: "arc_evict_loop (set hs) n m [] = (res, m1)" by fastforce
  obtain E where E: "distinct E" "set E \<inter> set hs = {}" "evictable (arc_get m) (set E)" "arc_inv m1" "arc_get m1 = arc_get m |` (- set E)"
      "length (arc_dict m1) + length E = length (arc_dict m)" "backend_num_blocks (arc_backend m1) = backend_num_blocks (arc_backend m)"
      "cache_capacity m1 = cache_capacity m" "target_t1_size m1 = target_t1_size m" "res = None \<or> res = Some ([] @ E) \<and> length E = n"
    using arc_evict_loop_spec [OF inv l] by blast
  show ?thesis
  proof (cases res)
    case None
    then have "arc_prepare_store hs m = Inr (None, m1)" using False l by (simp add: arc_prepare_store_def Let_def flip: ts n_def)
    then show ?thesis using E by (intro exI [of _ None] exI [of _ m1] exI [of _ E]) simp
  next
    case (Some E')
    then have E': "E' = E" "length E = n" using E(10) by auto
    note I1 = arc_invD [OF E(4)]
    have "int (length to_store) \<le> backend_get_num_free_blocks (arc_backend m1)"
      using backend_free_blocks [OF I1(3)] backend_free_blocks [OF arc_invD(3) [OF inv]] E(6,7) E'(2) by (simp add: n_def)
    then obtain new b where a: "allocate_blocks to_store (arc_backend m1) = Inr (new, b)" "length new = length to_store"
        "\<forall>s \<in> set new. status_ref_cnt s = - 1" "backend_inv b (block_ids (arc_dict m1) @ map status_block_id new)"
      using allocate_blocks_spec [OF I1(3)] by blast
    have free: "\<forall>h \<in> set to_store. map_of (arc_dict m1) h = None"
      using dts(2) E(5) by (simp add: arc_get_map_of restrict_map_def del: map_of_append)
    let ?B = "\<lambda>b. fold AList.delete to_store (arc_trim (cache_capacity m1) b)"
    let ?m = "m1\<lparr>arc_events := add_offload_event E True (arc_backend m1) (arc_events m1), arc_backend := b,
        arc_t1 := arc_t1 m1 @ zip to_store new, arc_b1 := ?B (arc_b1 m1), arc_b2 := ?B (arc_b2 m1)\<rparr>"
    let ?out = "\<lparr>block_hashes_to_store = to_store, store_spec = get_load_store_spec new, block_hashes_evicted = E\<rparr>"
    have "insert_blocks to_store new (arc_t1 m1) = arc_t1 m1 @ zip to_store new"
      by (rule insert_blocks_fresh [OF dts(1) a(2)]) (use free in \<open>auto simp: map_of_eq_None_iff\<close>)
    then have run: "arc_prepare_store hs m = Inr (Some ?out, ?m)"
      using False l Some E'(1) a(1,2) by (simp add: arc_prepare_store_def Let_def flip: ts n_def)
    have ok: "dict_ok (arc_dict m1 @ zip to_store new) b" by (rule dict_ok_insert [OF I1(1) dts(1) free a(2,3,4)])
    have perm: "mset (arc_dict ?m) = mset (arc_dict m1 @ zip to_store new)" by simp
    note P = dict_ok_perm [OF ok perm]
    have keys: "fst ` set (arc_dict ?m) = fst ` set (arc_dict m1) \<union> set to_store"
      using a(2) by (auto simp: image_Un simp flip: set_map)
    have g: "distinct (map fst (arc_b1 m1) @ map fst (arc_b2 m1))" "fst ` set (arc_dict m1) \<inter> (fst ` set (arc_b1 m1) \<union> fst ` set (arc_b2 m1)) = {}"
      using E(4) by (simp_all add: arc_inv_def Int_Un_distrib Int_Un_distrib2 image_Un)
    have B: "distinct (map fst (?B b'))" "fst ` set (?B b') \<subseteq> fst ` set b' - set to_store" if "distinct (map fst b')" for b' :: "unit ordered_dict"
      using fold_delete [OF arc_trim_sub(2) [OF that]] image_mono [OF arc_trim_sub(1), of fst] by blast+
    have sets: "A' = A \<union> T \<Longrightarrow> X \<subseteq> B - T \<Longrightarrow> Y \<subseteq> C - T \<Longrightarrow> B \<inter> C = {} \<Longrightarrow> A \<inter> (B \<union> C) = {} \<Longrightarrow> X \<inter> Y = {} \<and> A' \<inter> (X \<union> Y) = {}"
      for A A' B C X Y T :: "bytes set" by blast
    have d1: "distinct (map fst (arc_b1 m1))" "distinct (map fst (arc_b2 m1))" "fst ` set (arc_b1 m1) \<inter> fst ` set (arc_b2 m1) = {}"
      using g(1) by simp_all
    have "arc_inv ?m"
      using P(1) B [OF d1(1)] B [OF d1(2)] sets [OF keys B(2) [OF d1(1)] B(2) [OF d1(2)] d1(3) g(2)] by (intro arc_invI) simp_all
    have get: "arc_get ?m = map_of (arc_dict m1 @ zip to_store new)" unfolding arc_get_map_of by (rule P(2))
    have "new_slots (arc_get m |` (- set E)) to_store (map status_block_id new) (arc_get ?m)"
      unfolding get E(5) [symmetric] unfolding arc_get_map_of using free a(2,3) dts(1) by (intro new_slots_append)
    then show ?thesis using run \<open>arc_inv ?m\<close> E E'(2)
      by (intro exI [of _ "Some ?out"] exI [of _ ?m] exI [of _ E]) (simp add: n_def get_load_store_spec_def)
  qed
qed

section \<open>The contract\<close>

lemma rfold_pure: "rfold (\<lambda>h x. Inr (f h x)) hs x = Inr (fold f hs x)"
  by (induction hs arbitrary: x) auto

lemma arc_load_step:
  "\<forall>h acc m s. arc_inv m \<longrightarrow> arc_get m h = Some s \<longrightarrow> is_ready s \<longrightarrow> status_ref_cnt s + 1 < 2 ^ 31 \<longrightarrow>
     (\<exists>m' s'. arc_load_one h (acc, m) = Inr (acc @ [s'], m') \<and> status_block_id s' = status_block_id s \<and> arc_inv m'
        \<and> arc_get m' = (arc_get m)(h \<mapsto> s\<lparr>status_ref_cnt := status_ref_cnt s + 1\<rparr>))"
proof (intro allI impI)
  fix h acc m s
  assume a: "arc_inv m" "arc_get m h = Some s" "is_ready s" "status_ref_cnt s + 1 < 2 ^ 31"
  let ?s = "s\<lparr>status_ref_cnt := status_ref_cnt s + 1\<rparr>"
  have "arc_load_one h (acc, m) = Inr (acc @ [?s], arc_set h ?s m)"
    using a by (simp add: arc_load_one_def Let_def set_ref_cnt_small is_ready_def)
  then show "\<exists>m' s'. arc_load_one h (acc, m) = Inr (acc @ [s'], m') \<and> status_block_id s' = status_block_id s \<and> arc_inv m' \<and> arc_get m' = (arc_get m)(h \<mapsto> ?s)"
    using arc_set_inv [OF a(1,2), of ?s] a(3,4) by (auto simp: is_ready_def)
qed

lemma arc_unload_step:
  "\<forall>h m s. arc_inv m \<longrightarrow> arc_get m h = Some s \<longrightarrow> 0 < status_ref_cnt s \<longrightarrow>
     (\<exists>m'. arc_unload_one h m = Inr m' \<and> arc_inv m' \<and> arc_get m' = (arc_get m)(h \<mapsto> s\<lparr>status_ref_cnt := status_ref_cnt s - 1\<rparr>))"
proof (intro allI impI)
  fix h m s
  assume a: "arc_inv m" "arc_get m h = Some s" "0 < status_ref_cnt s"
  let ?s = "s\<lparr>status_ref_cnt := status_ref_cnt s - 1\<rparr>"
  have "arc_unload_one h m = Inr (arc_set h ?s m)" using a arc_invD(4) [OF a(1,2)] by (simp add: arc_unload_one_def set_ref_cnt_small)
  then show "\<exists>m'. arc_unload_one h m = Inr m' \<and> arc_inv m' \<and> arc_get m' = (arc_get m)(h \<mapsto> ?s)"
    using arc_set_inv [OF a(1,2), of ?s] a(3) arc_invD(4) [OF a(1,2)] by auto
qed

lemma arc_store_step:
  "\<forall>h x s. arc_inv (fst x) \<longrightarrow> arc_get (fst x) h = Some s \<longrightarrow> status_ref_cnt s = - 1 \<longrightarrow>
     (\<exists>x'. Inr (arc_store_one h x) = (Inr x' :: (arc_manager \<times> bytes list) result) \<and> arc_inv (fst x') \<and> arc_get (fst x') = (arc_get (fst x))(h := Some (s\<lparr>status_ref_cnt := 0\<rparr>)))"
proof (intro allI impI)
  fix h and x :: "arc_manager \<times> bytes list" and s
  assume a: "arc_inv (fst x)" "arc_get (fst x) h = Some s" "status_ref_cnt s = - 1"
  let ?s = "s\<lparr>status_ref_cnt := 0\<rparr>"
  have "arc_store_one h x = (arc_set h ?s (fst x), snd x @ [h])" using a by (cases x) (simp add: arc_store_one_def set_ref_cnt_small is_ready_def)
  then show "\<exists>x'. Inr (arc_store_one h x) = (Inr x' :: (arc_manager \<times> bytes list) result) \<and> arc_inv (fst x') \<and> arc_get (fst x') = (arc_get (fst x))(h \<mapsto> ?s)"
    using arc_set_inv [OF a(1,2), of ?s] by auto
qed

lemma arc_drop_step:
  "\<forall>h m s. arc_inv m \<longrightarrow> arc_get m h = Some s \<longrightarrow> status_ref_cnt s = - 1 \<longrightarrow>
     (\<exists>m'. Inr (arc_drop_one h m) = (Inr m' :: arc_manager result) \<and> arc_inv m' \<and> arc_get m' = (arc_get m)(h := None))"
proof (intro allI impI)
  fix h m s
  assume a: "arc_inv m" "arc_get m h = Some s" "status_ref_cnt s = - 1"
  have g: "distinct (map fst (arc_b1 m) @ map fst (arc_b2 m))" using a(1) by (simp add: arc_inv_def)
  have "arc_dict (arc_drop_one h m) = AList.delete h (arc_dict m)"
  proof (cases "map_of (arc_t1 m) h")
    case None
    then have "(h, s) \<in> set (arc_t2 m)" using a(2) by (auto simp: arc_get_def dest: map_of_SomeD)
    then show ?thesis using arc_where(2) [OF a(1)] None a by (simp add: arc_drop_one_def Let_def is_ready_def)
  next
    case (Some t)
    then have "(h, s) \<in> set (arc_t1 m)" using a(2) by (auto simp: arc_get_def dest: map_of_SomeD)
    then show ?thesis using arc_where(1) [OF a(1)] Some a by (simp add: arc_drop_one_def Let_def is_ready_def)
  qed
  moreover have "arc_backend (arc_drop_one h m) = backend_free s (arc_backend m)" "arc_b1 (arc_drop_one h m) = arc_b1 m" "arc_b2 (arc_drop_one h m) = arc_b2 m"
    using a by (simp_all add: arc_drop_one_def Let_def is_ready_def)
  ultimately have "arc_inv (arc_drop_one h m)" "arc_get (arc_drop_one h m) = (arc_get m)(h := None)"
    using arc_remove(1,2) [OF a(1,2), of "arc_drop_one h m"] g by auto
  then show "\<exists>m'. Inr (arc_drop_one h m) = (Inr m' :: arc_manager result) \<and> arc_inv m' \<and> arc_get m' = (arc_get m)(h := None)" by auto
qed

lemma arc_events_frame [simp]: "arc_inv (m\<lparr>arc_events := es\<rparr>) = arc_inv m" "arc_get (m\<lparr>arc_events := es\<rparr>) = arc_get m"
  by (simp_all add: arc_inv_def arc_get_map_of)

interpretation arc: offloading_manager "arc_ops rnd" arc_inv arc_get for rnd
proof
  fix m :: arc_manager and hs :: "bytes list" and success :: bool
  assume i: "arc_inv m"
  note I = arc_invD [OF i]
  show "- 1 \<le> status_ref_cnt s" if "arc_get m h = Some s" for h s using I(4) [OF that] by simp
  show "h = h'" if "arc_get m h = Some s" "arc_get m h' = Some s'" "status_block_id s = status_block_id s'" for h h' s s'
    using own_block_dict [OF dict_okD(4) [OF I(1)]] that unfolding arc_get_map_of by blast
  show "\<exists>m'. op_lookup (arc_ops rnd) hs m = (Some (length (takeWhile (ready_in (arc_get m)) hs)), m') \<and> arc_inv m' \<and> arc_get m' = arc_get m"
    using i by (simp add: arc_ops_def arc_lookup_def hit_count_ready)
  show "\<exists>m'. op_touch (arc_ops rnd) hs m = Inr m' \<and> arc_inv m' \<and> arc_get m' = arc_get m"
    using arc_touch_loop [OF i, of rnd "rev hs"] by (simp add: arc_ops_def arc_touch_def)
  show "arc_inv (snd (op_take_events (arc_ops rnd) m)) \<and> arc_get (snd (op_take_events (arc_ops rnd) m)) = arc_get m"
    using i by (simp add: arc_ops_def arc_take_events_def split: option.splits)
  {
    assume "\<forall>h \<in> set hs. ready_in (arc_get m) h \<and> status_ref_cnt (the (arc_get m h)) + int (count_list hs h) < 2 ^ 31"
    then show "\<exists>m'. op_prepare_load (arc_ops rnd) hs m = Inr (CPULoadStoreSpec (map (\<lambda>h. status_block_id (the (arc_get m h))) hs), m')
        \<and> arc_inv m' \<and> arc_get m' = add_refs (arc_get m) (\<lambda>h. int (count_list hs h))"
      using load_loop [OF arc_load_step, of m hs "[]"] i by (auto simp: arc_ops_def arc_prepare_load_def get_load_store_spec_def)
  next
    assume "\<forall>h \<in> set hs. \<exists>s. arc_get m h = Some s \<and> int (count_list hs h) \<le> status_ref_cnt s"
    then show "\<exists>m'. op_complete_load (arc_ops rnd) hs m = Inr m' \<and> arc_inv m' \<and> arc_get m' = add_refs (arc_get m) (\<lambda>h. - int (count_list hs h))"
      using unload_loop [OF arc_unload_step i] by (simp add: arc_ops_def arc_complete_load_def)
  next
    assume d: "distinct hs"
    define ts where "ts = filter (\<lambda>h. arc_get m h = None) hs"
    have ts: "distinct ts" "set ts \<subseteq> set hs" "\<forall>h \<in> set ts. arc_get m h = None" using d by (auto simp: ts_def)
    obtain res m' E where r: "arc_prepare_store hs m = Inr (res, m')" "arc_inv m'" "evictable (arc_get m) (set E)"
      "case res of None \<Rightarrow> arc_get m' = arc_get m |` (- set E)
        | Some out \<Rightarrow> block_hashes_evicted out = E \<and> block_hashes_to_store out = ts
            \<and> length E = nat (int (length ts) - backend_get_num_free_blocks (arc_backend m))
            \<and> new_slots (arc_get m |` (- set E)) ts (spec_block_ids (store_spec out)) (arc_get m')"
      using arc_prepare_store_spec [OF i d ts_def] by blast
    show "\<exists>res m' E. op_prepare_store (arc_ops rnd) hs m = Inr (res, m') \<and> arc_inv m' \<and> evictable (arc_get m) E
      \<and> (case res of
           None \<Rightarrow> arc_get m' = arc_get m |` (- E)
         | Some out \<Rightarrow> E = set (block_hashes_evicted out) \<and> set (block_hashes_to_store out) \<subseteq> set hs \<and> distinct (block_hashes_to_store out)
             \<and> (\<forall>h \<in> set (block_hashes_to_store out). arc_get m h = None)
             \<and> new_slots (arc_get m |` (- E)) (block_hashes_to_store out) (spec_block_ids (store_spec out)) (arc_get m'))"
      using r ts by (intro exI [of _ res] exI [of _ m'] exI [of _ "set E"]) (auto simp: arc_ops_def split: option.splits)
  next
    assume d: "distinct hs" and p: "\<forall>h \<in> set hs. \<exists>s. arc_get m h = Some s \<and> status_ref_cnt s = - 1"
    let ?R = "\<lambda>h. if h \<notin> set hs then arc_get m h else if success then map_option (status_ref_cnt_update (\<lambda>_. 0)) (arc_get m h) else None"
    have "\<exists>m' stored. (if success then fold arc_store_one hs (m, []) else (fold arc_drop_one hs m, [])) = (m', stored) \<and> arc_inv m' \<and> arc_get m' = ?R"
    proof (cases success)
      case True
      obtain x where x: "fold arc_store_one hs (m, []) = x" "arc_inv (fst x)"
          "arc_get (fst x) = (\<lambda>h. if h \<notin> set hs then arc_get m h else Some ((the (arc_get m h))\<lparr>status_ref_cnt := 0\<rparr>))"
        using point_loop [OF arc_store_step, of "(m, [])" hs, unfolded fst_conv rfold_pure, OF i d p] by blast
      moreover have "arc_get (fst x) = ?R" using x(3) p True by (fastforce simp: fun_eq_iff)
      ultimately show ?thesis using True by (cases x) auto
    next
      case False
      then show ?thesis using point_loop [OF arc_drop_step i d p] unfolding rfold_pure by (auto simp: fun_eq_iff)
    qed
    then show "\<exists>m'. op_complete_store (arc_ops rnd) hs success m = Inr m' \<and> arc_inv m' \<and> arc_get m' = ?R"
      by (auto simp: arc_ops_def arc_complete_store_def)
  }
qed

interpretation filtered_arc: offloading_manager "filter_ops (arc_ops rnd)" "\<lambda>f. arc_inv (backing f)" "\<lambda>f. arc_get (backing f)" for rnd
  by (rule arc.filter_contract)

lemma arc_inv_new: "backend_inv b [] \<Longrightarrow> arc_inv (ARCOffloadingManager b ev)"
  by (simp add: arc_inv_def ARCOffloadingManager_def dict_ok_new)

lemma arc_new_empty: "arc_get (ARCOffloadingManager b ev) = Map.empty"
  by (simp add: arc_get_def ARCOffloadingManager_def fun_eq_iff)

section \<open>The adaptive target\<close>

definition arc_bounded :: "int \<Rightarrow> arc_manager \<Rightarrow> bool" where
  "arc_bounded n m \<longleftrightarrow> cache_capacity m = n \<and> backend_num_blocks (arc_backend m) = n \<and> 0 \<le> target_t1_size m \<and> target_t1_size m \<le> of_int n"

lemma arc_set_bounded [simp]: "arc_bounded n (arc_set h s m) = arc_bounded n m"
  by (simp add: arc_bounded_def)

lemma arc_load_bounded:
  assumes "arc_prepare_load hs m = Inr (spec, m')" and "arc_bounded n m"
  shows "arc_bounded n m'"
proof -
  obtain blocks where "rfold arc_load_one hs ([], m) = Inr (blocks, m')" using assms(1) by (auto simp: arc_prepare_load_def rbind_eq_Inr)
  moreover have "arc_bounded n (snd y)" if "arc_bounded n (snd x)" "arc_load_one h x = Inr y" for h x y
    using that by (auto simp: arc_load_one_def Let_def rbind_eq_Inr split: option.splits prod.splits)
  ultimately have "arc_bounded n (snd (blocks, m'))"
    using rfold_invariant [where P = "\<lambda>x. arc_bounded n (snd x)"] assms(2) by (metis snd_conv)
  then show ?thesis by simp
qed

lemma arc_unload_bounded:
  assumes "arc_complete_load hs m = Inr m'" and "arc_bounded n m"
  shows "arc_bounded n m'"
proof (rule rfold_invariant [where P = "arc_bounded n"])
  show "rfold arc_unload_one hs m = Inr m'" using assms(1) by (simp add: arc_complete_load_def)
  show "arc_bounded n y" if "arc_bounded n x" "arc_unload_one h x = Inr y" for h x y
    using that by (auto simp: arc_unload_one_def rbind_eq_Inr split: option.splits)
qed (rule assms(2))

lemma arc_evict_bounded: "arc_evict_loop protected k m acc = (res, m') \<Longrightarrow> arc_bounded n m \<Longrightarrow> arc_bounded n m'"
proof (induction protected k m acc rule: arc_evict_loop.induct)
  case (2 protected k m acc)
  show ?case
  proof (cases "arc_evict_one protected m")
    case (Some x)
    then obtain h x' where x: "x = (h, x')" by fastforce
    have "arc_bounded n x'" using Some 2(3) unfolding x
      by (auto simp: arc_evict_one_def arc_bounded_def backend_free_def split: option.splits prod.splits if_splits)
    then show ?thesis using 2 Some x by auto
  qed (use 2 in auto)
qed auto

lemma arc_store_bounded:
  assumes "arc_prepare_store hs m = Inr (res, m')" and "arc_bounded n m"
  shows "arc_bounded n m'"
proof -
  define ts where "ts = filter (\<lambda>h. map_of (arc_t1 m) h = None \<and> map_of (arc_t2 m) h = None) hs"
  obtain r x where l: "arc_evict_loop (set hs) (nat (int (length ts) - backend_get_num_free_blocks (arc_backend m))) m [] = (r, x)" by fastforce
  have x: "arc_bounded n x" using arc_evict_bounded [OF l assms(2)] .
  show ?thesis
  proof (cases "ts = []")
    case True
    then show ?thesis using assms by (simp add: arc_prepare_store_def Let_def flip: ts_def)
  next
    case False
    then show ?thesis using assms(1) l x
      by (cases r) (auto simp: arc_prepare_store_def Let_def rbind_eq_Inr arc_bounded_def simp flip: ts_def dest: allocate_blocks_frame)
  qed
qed

lemma arc_stored_bounded:
  assumes "arc_complete_store hs success m = Inr m'" and "arc_bounded n m"
  shows "arc_bounded n m'"
proof -
  have "arc_bounded n (fst (fold arc_store_one hs x))" if "arc_bounded n (fst x)" for x
    using that by (induction hs arbitrary: x) (auto simp: arc_store_one_def split: option.splits prod.splits)
  moreover have "arc_bounded n (fold arc_drop_one hs x)" if "arc_bounded n x" for x
    using that by (induction hs arbitrary: x) (auto simp: arc_drop_one_def Let_def arc_bounded_def backend_free_def split: option.splits)
  ultimately have "arc_bounded n (fst (if success then fold arc_store_one hs (m, []) else (fold arc_drop_one hs m, [])))" using assms(2) by simp
  then show ?thesis using assms(1) by (auto simp: arc_complete_store_def arc_bounded_def Let_def split: prod.splits)
qed

text \<open>Rounding: monotone, and exact on the integers a double represents.\<close>

definition rounding :: "(rat \<Rightarrow> rat) \<Rightarrow> bool" where
  "rounding rnd \<longleftrightarrow> mono rnd \<and> (\<forall>i. \<bar>i\<bar> \<le> 2 ^ 53 \<longrightarrow> rnd (of_int i) = of_int i)"

lemma arc_touch_bounded:
  assumes "arc_touch rnd hs m = Inr m'" and "arc_bounded n m" and "rounding rnd" and "0 \<le> n" "n \<le> 2 ^ 53"
  shows "arc_bounded n m'"
proof (rule rfold_invariant [where P = "arc_bounded n", OF assms(1) [unfolded arc_touch_def] assms(2)])
  fix h x x'
  assume x: "arc_bounded n x" "arc_touch_one rnd h x = Inr x'"
  have r: "rnd a \<le> rnd b" if "a \<le> b" for a b using assms(3) that by (simp add: rounding_def monoD)
  have e: "rnd 0 = 0" "rnd (of_int n) = of_int n" using assms(3-5) unfolding rounding_def by (metis abs_zero of_int_0 zero_le_power zero_le_numeral, simp)
  let ?t = "target_t1_size x"
  have t: "0 \<le> ?t" "?t \<le> of_int n" using x(1) by (simp_all add: arc_bounded_def)
  have up: "0 \<le> min (rnd (?t + max 1 d)) (of_int n) \<and> min (rnd (?t + max 1 d)) (of_int n) \<le> of_int n" for d
    using r [of 0 "?t + max 1 d"] t(1) e(1) assms(4) by (simp add: min_def add_nonneg_nonneg max_def)
  have down: "0 \<le> max (rnd (?t - max 1 d)) 0 \<and> max (rnd (?t - max 1 d)) 0 \<le> of_int n" for d
    using r [of "?t - max 1 d" "of_int n"] t(2) e(2) assms(4) by (simp add: max_def)
  show "arc_bounded n x'"
    using x up down unfolding arc_touch_one_def arc_bounded_def by (auto simp: Let_def rbind_eq_Inr split: option.splits if_splits)
qed

lemma arc_reachable_bounded:
  assumes "session_reachable (arc_ops rnd) (ARCOffloadingManager (CPUBackend bs n) ev) s" and "rounding rnd" and "0 \<le> n" "n \<le> 2 ^ 53"
  shows "arc_bounded n (manager_of s)"
  using assms(1)
proof induction
  case Start
  show ?case using assms(3) by (simp add: new_session_def arc_bounded_def ARCOffloadingManager_def CPUBackend_def backend_get_num_free_blocks_def)
next
  case (Step s s')
  from Step(2) Step.IH show ?case
    by cases (auto simp: arc_ops_def arc_lookup_def arc_take_events_def arc_bounded_def split: option.splits
        dest: arc_load_bounded [unfolded arc_bounded_def] arc_unload_bounded [unfolded arc_bounded_def] arc_store_bounded [unfolded arc_bounded_def]
          arc_stored_bounded [unfolded arc_bounded_def] arc_touch_bounded [OF _ _ assms(2-4), unfolded arc_bounded_def])
qed

section \<open>Properties\<close>

text \<open>
  C33. The ARC manager keeps offloaded data intact, with and without the reuse filter: in every session that
  follows the protocol, a running load reads the data of the block it was started for, a load after a
  full hit names blocks that hold the right data, and no call the protocol allows raises. This holds
  for every rounding of the adaptive target.
\<close>

theorem arc_sessions_safe:
  assumes "0 \<le> n" "n \<le> 2 ^ 63" and "FilterReusedOffloadingManager (ARCOffloadingManager (CPUBackend bs n) ev) threshold tracker = Inr f"
  shows "(session_reachable (arc_ops rnd) (ARCOffloadingManager (CPUBackend bs n) ev) s \<longrightarrow> session_safe (arc_ops rnd) s)
     \<and> (session_reachable (filter_ops (arc_ops rnd)) f s' \<longrightarrow> session_safe (filter_ops (arc_ops rnd)) s')"
proof -
  have i: "arc_inv (ARCOffloadingManager (CPUBackend bs n) ev)" by (rule arc_inv_new [OF backend_inv_new [OF assms(1,2)]])
  have "backing f = ARCOffloadingManager (CPUBackend bs n) ev"
    using assms(3) by (auto simp: FilterReusedOffloadingManager_def split: if_splits)
  then show ?thesis
    using arc.sessions_safe [OF _ i arc_new_empty] filtered_arc.sessions_safe [of rnd f] i arc_new_empty by metis
qed

text \<open>
  C34. In every session the two caches of the ARC manager together hold no more blocks than the medium has, the caches
  and the ghost lists have no hash in common, and the adaptive target stays between zero and the capacity.
\<close>

theorem arc_lists_bounded:
  assumes "session_reachable (arc_ops rnd) (ARCOffloadingManager (CPUBackend bs n) ev) s" and "rounding rnd" and "0 \<le> n" "n \<le> 2 ^ 53" and "m = manager_of s"
  shows "int (length (arc_t1 m) + length (arc_t2 m)) \<le> n
     \<and> distinct (map fst (arc_t1 m) @ map fst (arc_t2 m) @ map fst (arc_b1 m) @ map fst (arc_b2 m))
     \<and> 0 \<le> target_t1_size m \<and> target_t1_size m \<le> of_int n"
proof -
  have "arc_inv (ARCOffloadingManager (CPUBackend bs n) ev)" using assms(3,4) by (intro arc_inv_new backend_inv_new) auto
  from arc.session_invD(1) [OF arc.session_reachable_inv [OF assms(1) this arc_new_empty]] have i: "arc_inv m" using assms(5) by simp
  have b: "arc_bounded n m" using arc_reachable_bounded [OF assms(1-4)] assms(5) by simp
  have "backend_get_num_free_blocks (arc_backend m) = n - int (length (arc_dict m))"
    using backend_free_blocks [OF arc_invD(3) [OF i]] b by (simp add: arc_bounded_def)
  then have "int (length (arc_t1 m) + length (arc_t2 m)) \<le> n" using backend_inv_nonneg [OF arc_invD(3) [OF i]] by simp
  then show ?thesis using i b by (simp add: arc_inv_def arc_bounded_def)
qed

section \<open>Refused stores and failed stores\<close>

text \<open>A sequence of calls on a manager with memory for two blocks.\<close>

definition arc_calls :: "(arc_manager \<Rightarrow> arc_manager result) list \<Rightarrow> arc_manager result" where
  "arc_calls calls = rfold (\<lambda>f m. f m) calls (ARCOffloadingManager (CPUBackend 16 2) True)"

definition arc_stored :: "bytes list \<Rightarrow> arc_manager \<Rightarrow> arc_manager result" where
  "arc_stored hs m = rbind (arc_prepare_store hs m) (\<lambda>(_, m). arc_complete_store hs True m)"

definition arc_loading :: "bytes list \<Rightarrow> arc_manager \<Rightarrow> arc_manager result" where
  "arc_loading hs m = rbind (arc_prepare_load hs m) (\<lambda>(_, m). Inr m)"

text \<open>The eviction loop gives up in a state with nothing to evict.\<close>

lemma arc_evict_loop_stuck:
  "arc_evict_loop protected n m acc = (None, m') \<Longrightarrow> arc_evict_one protected m' = None"
  by (induction n arbitrary: m acc) (auto split: option.splits)

lemma arc_victim_None: "arc_victim protected d = None \<longleftrightarrow> (\<forall>(h, s) \<in> set d. status_ref_cnt s = 0 \<longrightarrow> h \<in> protected)"
  by (auto simp: arc_victim_def find_None_iff)

lemma arc_evict_one_None:
  "arc_evict_one protected m = None \<longleftrightarrow> (\<forall>(h, s) \<in> set (arc_t2 m). status_ref_cnt s = 0 \<longrightarrow> h \<in> protected)
     \<and> (py_int (target_t1_size m) \<le> int (length (arc_t1 m)) \<longrightarrow> (\<forall>(h, s) \<in> set (arc_t1 m). status_ref_cnt s = 0 \<longrightarrow> h \<in> protected))"
  unfolding arc_victim_None [symmetric] by (simp add: arc_evict_one_def split: option.splits prod.splits)

text \<open>A failed store takes a ready block out of its cache and leaves the backend as it is.\<close>

lemma arc_drop_ready:
  assumes "arc_inv m" and "arc_get m h = Some s" and "0 \<le> status_ref_cnt s"
  shows "arc_dict (arc_drop_one h m) = AList.delete h (arc_dict m)" "arc_backend (arc_drop_one h m) = arc_backend m"
proof -
  show "arc_backend (arc_drop_one h m) = arc_backend m" using assms(2,3) by (simp add: arc_drop_one_def Let_def is_ready_def)
  show "arc_dict (arc_drop_one h m) = AList.delete h (arc_dict m)"
  proof (cases "map_of (arc_t1 m) h")
    case None
    then have "(h, s) \<in> set (arc_t2 m)" using assms(2) by (auto simp: arc_get_def dest: map_of_SomeD)
    then show ?thesis using arc_where(2) [OF assms(1)] None assms by (simp add: arc_drop_one_def Let_def is_ready_def)
  next
    case (Some t)
    then have "(h, s) \<in> set (arc_t1 m)" using assms(2) by (auto simp: arc_get_def dest: map_of_SomeD)
    then show ?thesis using arc_where(1) [OF assms(1)] Some assms by (simp add: arc_drop_one_def Let_def is_ready_def)
  qed
qed

lemma removed_id:
  assumes "mset us = add_mset i (mset vs)" and "distinct (us @ fs)"
  shows "i \<notin> set vs" "i \<notin> set fs" "i \<in> set us"
proof -
  have "mset us = mset (i # vs)" using assms(1) by simp
  then have "distinct (i # vs)" "set us = set (i # vs)" using assms(2) mset_eq_imp_distinct_iff mset_eq_setD by (metis distinct_append)+
  then show "i \<notin> set vs" "i \<notin> set fs" "i \<in> set us" using assms(2) by auto
qed

lemma arc_failed_ready_store:
  assumes "arc_inv m" and "arc_get m h = Some s" and "0 \<le> status_ref_cnt s"
  shows "\<exists>m'. arc_complete_store [h] False m = Inr m' \<and> arc_get m' = (arc_get m)(h := None) \<and> arc_backend m' = arc_backend m
     \<and> status_block_id s \<notin> set (block_ids (arc_dict m')) \<and> status_block_id s \<notin> set (allocated_blocks_free_list (arc_backend m'))
     \<and> 0 \<le> status_block_id s \<and> status_block_id s < num_allocated_blocks (arc_backend m')"
proof -
  note D = arc_drop_ready [OF assms] and I = arc_invD [OF assms(1)]
  have m: "map_of (arc_dict m) h = Some s" using assms(2) by (simp add: arc_get_map_of)
  have ids: "mset (block_ids (arc_dict m)) = add_mset (status_block_id s) (mset (block_ids (AList.delete h (arc_dict m))))"
    using arg_cong [OF mset_delete [OF I(2) m], of "image_mset (\<lambda>(_, s). status_block_id s)"] by (simp add: case_prod_beta)
  have "distinct (block_ids (arc_dict m) @ allocated_blocks_free_list (arc_backend m))" using I(3) unfolding backend_inv_def by blast
  note R = removed_id [OF ids this]
  have "0 \<le> status_block_id s \<and> status_block_id s < num_allocated_blocks (arc_backend m)"
    using I(3) R(3) unfolding backend_inv_def by (metis Un_iff atLeastLessThan_iff set_append)
  moreover have "arc_get (arc_drop_one h m) = (arc_get m)(h := None)" unfolding arc_get_map_of D(1) by (rule delete_conv')
  ultimately show ?thesis using D R(1,2) unfolding arc_complete_store_def
    by (intro exI [of _ "arc_drop_one h m"]) (simp only: fold_simps Let_def prod.case if_False add_offload_event_def simp_thms if_True, simp)
qed

text \<open>
  C35. Where the ARC manager departs from its interface, for every consistent manager. When \<^verbatim>\<open>prepare_store\<close> refuses, the idle blocks
  \<open>E\<close> that it evicted before giving up are gone although no event reports them; the frequent cache then has no idle block left outside the call, and
  the recent cache has none only if it is not smaller than its target. So as long as the recent cache is smaller than its target and
  the frequent cache has no idle block, every call that needs more memory than is free is refused, whatever idle blocks the recent cache holds.
  And a failed store of a block that is ready removes it without returning its memory: its block id is allocated, but neither
  stored nor free.
\<close>

theorem arc_store_defects:
  assumes "arc_inv m"
  shows "(arc_prepare_store hs m = Inr (None, m') \<longrightarrow>
       (\<exists>E. set E \<inter> set hs = {} \<and> evictable (arc_get m) (set E) \<and> arc_get m' = arc_get m |` (- set E) \<and> arc_events m' = arc_events m)
       \<and> (\<forall>(h, s) \<in> set (arc_t2 m'). status_ref_cnt s = 0 \<longrightarrow> h \<in> set hs)
       \<and> (py_int (target_t1_size m') \<le> int (length (arc_t1 m')) \<longrightarrow> (\<forall>(h, s) \<in> set (arc_t1 m'). status_ref_cnt s = 0 \<longrightarrow> h \<in> set hs)))
   \<and> (int (length (arc_t1 m)) < py_int (target_t1_size m) \<and> (\<forall>(h, s) \<in> set (arc_t2 m). status_ref_cnt s = 0 \<longrightarrow> h \<in> set hs)
        \<and> backend_get_num_free_blocks (arc_backend m) < int (length (filter (\<lambda>h. arc_get m h = None) hs))
        \<longrightarrow> arc_prepare_store hs m = Inr (None, m))
   \<and> (\<forall>h s. arc_get m h = Some s \<and> 0 \<le> status_ref_cnt s \<longrightarrow>
        (\<exists>m'. arc_complete_store [h] False m = Inr m' \<and> arc_get m' = (arc_get m)(h := None) \<and> arc_backend m' = arc_backend m
          \<and> status_block_id s \<notin> set (block_ids (arc_dict m')) \<and> status_block_id s \<notin> set (allocated_blocks_free_list (arc_backend m'))
          \<and> 0 \<le> status_block_id s \<and> status_block_id s < num_allocated_blocks (arc_backend m')))"
proof (intro conjI impI allI)
  assume r: "arc_prepare_store hs m = Inr (None, m')"
  then obtain n where loop: "arc_evict_loop (set hs) n m [] = (None, m')"
    by (auto simp: arc_prepare_store_def Let_def rbind_eq_Inr split: if_splits prod.splits option.splits)
  show "\<exists>E. set E \<inter> set hs = {} \<and> evictable (arc_get m) (set E) \<and> arc_get m' = arc_get m |` (- set E) \<and> arc_events m' = arc_events m"
    using arc_evict_loop_spec [OF assms loop] by blast
  show "\<forall>(h, s) \<in> set (arc_t2 m'). status_ref_cnt s = 0 \<longrightarrow> h \<in> set hs"
    "py_int (target_t1_size m') \<le> int (length (arc_t1 m')) \<Longrightarrow> \<forall>(h, s) \<in> set (arc_t1 m'). status_ref_cnt s = 0 \<longrightarrow> h \<in> set hs"
    using arc_evict_loop_stuck [OF loop] unfolding arc_evict_one_None by blast+
next
  assume a: "int (length (arc_t1 m)) < py_int (target_t1_size m) \<and> (\<forall>(h, s) \<in> set (arc_t2 m). status_ref_cnt s = 0 \<longrightarrow> h \<in> set hs)
    \<and> backend_get_num_free_blocks (arc_backend m) < int (length (filter (\<lambda>h. arc_get m h = None) hs))"
  let ?new = "filter (\<lambda>h. map_of (arc_t1 m) h = None \<and> map_of (arc_t2 m) h = None) hs"
  have new: "filter (\<lambda>h. arc_get m h = None) hs = ?new" by (rule filter_cong) (auto simp: arc_get_def split: option.splits)
  have "arc_evict_one (set hs) m = None" unfolding arc_evict_one_None using a by auto
  moreover have "0 < nat (int (length ?new) - backend_get_num_free_blocks (arc_backend m))" using a unfolding new by simp
  then obtain n where "nat (int (length ?new) - backend_get_num_free_blocks (arc_backend m)) = Suc n" using gr0_implies_Suc by blast
  moreover have "0 \<le> backend_get_num_free_blocks (arc_backend m)"
    using arc_invD(3) [OF assms] by (simp add: backend_inv_def backend_get_num_free_blocks_def)
  then have "?new \<noteq> []" using a unfolding new by force
  ultimately show "arc_prepare_store hs m = Inr (None, m)" by (simp add: arc_prepare_store_def)
next
  fix h s
  assume "arc_get m h = Some s \<and> 0 \<le> status_ref_cnt s"
  then show "\<exists>m'. arc_complete_store [h] False m = Inr m' \<and> arc_get m' = (arc_get m)(h := None) \<and> arc_backend m' = arc_backend m
      \<and> status_block_id s \<notin> set (block_ids (arc_dict m')) \<and> status_block_id s \<notin> set (allocated_blocks_free_list (arc_backend m'))
      \<and> 0 \<le> status_block_id s \<and> status_block_id s < num_allocated_blocks (arc_backend m')"
    using arc_failed_ready_store [OF assms] by blast
qed

text \<open>
  A manager with memory for two blocks, reached by storing and loading: the recent cache holds one idle block and has a target of
  two, the frequent cache one block that is being loaded. A third block is refused, and a failed store of the idle block loses its memory.
\<close>

theorem arc_store_defects_witness:
  "\<exists>m m'. arc_calls [arc_stored [[1], [2]], arc_stored [[3]], arc_touch id [[1]], arc_touch id [[1]], arc_touch id [[2]], arc_loading [[2]]] = Inr m
     \<and> arc_t1 m = [([3], \<lparr>status_ref_cnt = 0, status_block_id = 0\<rparr>)] \<and> arc_prepare_store [[4]] m = Inr (None, m)
     \<and> arc_complete_store [[3]] False m = Inr m' \<and> arc_get m' [3] = None \<and> arc_backend m' = arc_backend m"
proof -
  let ?m = "\<lparr>arc_backend = \<lparr>backend_block_size = 16, backend_medium = ''CPU'', backend_num_blocks = 2, num_allocated_blocks = 2, allocated_blocks_free_list = []\<rparr>,
    target_t1_size = 2, arc_t1 = [([3], \<lparr>status_ref_cnt = 0, status_block_id = 0\<rparr>)], arc_t2 = [([2], \<lparr>status_ref_cnt = 1, status_block_id = 1\<rparr>)],
    arc_b1 = [([1], ())], arc_b2 = [],
    arc_events = Some [\<lparr>event_block_hashes = [[1], [2]], event_block_size = 16, event_medium = ''CPU'', event_removed = False\<rparr>,
      \<lparr>event_block_hashes = [[1]], event_block_size = 16, event_medium = ''CPU'', event_removed = True\<rparr>,
      \<lparr>event_block_hashes = [[3]], event_block_size = 16, event_medium = ''CPU'', event_removed = False\<rparr>], cache_capacity = 2\<rparr> :: arc_manager"
  have run: "arc_calls [arc_stored [[1], [2]], arc_stored [[3]], arc_touch id [[1]], arc_touch id [[1]], arc_touch id [[2]], arc_loading [[2]]] = Inr ?m"
    by code_simp
  have inv: "arc_inv ?m" by (auto simp: arc_inv_def dict_ok_def backend_inv_def)
  have get: "arc_get ?m [3] = Some \<lparr>status_ref_cnt = 0, status_block_id = 0\<rparr>" by (simp add: arc_get_def)
  have "arc_prepare_store [[4]] ?m = Inr (None, ?m)"
    using arc_store_defects [OF inv, of "[[4]]"] by (simp add: arc_get_def backend_get_num_free_blocks_def py_int_def)
  moreover have "\<exists>m'. arc_complete_store [[3]] False ?m = Inr m' \<and> arc_get m' [3] = None \<and> arc_backend m' = arc_backend ?m"
    using arc_failed_ready_store [OF inv get] by (metis block_status.select_convs(1) fun_upd_same order_refl)
  ultimately show ?thesis using run by auto
qed

section \<open>Witnesses\<close>

text \<open>One block stored and being loaded.\<close>

lemma arc_example_reachable:
  "\<exists>s. session_reachable (arc_ops id) (ARCOffloadingManager (CPUBackend 16 2) False) s \<and> loads s = {#([1], 0)#}
     \<and> map fst (arc_t1 (manager_of s)) = [[1]]"
proof -
  let ?start = "ARCOffloadingManager (CPUBackend 16 2) False"
  let ?b = "\<lparr>backend_block_size = 16, backend_medium = ''CPU'', backend_num_blocks = 2, num_allocated_blocks = 1, allocated_blocks_free_list = []\<rparr> :: cpu_backend"
  let ?m = "\<lambda>i. \<lparr>arc_backend = ?b, target_t1_size = 0, arc_t1 = [([1], \<lparr>status_ref_cnt = i, status_block_id = 0\<rparr>)], arc_t2 = [], arc_b1 = [], arc_b2 = [],
      arc_events = None, cache_capacity = 2\<rparr> :: arc_manager"
  let ?out = "\<lparr>block_hashes_to_store = [[1]], store_spec = CPULoadStoreSpec [0], block_hashes_evicted = []\<rparr> :: prepare_store_output"
  have store: "op_prepare_store (arc_ops id) [[1]] ?start = Inr (Some ?out, ?m (- 1))" by code_simp
  have stored: "op_complete_store (arc_ops id) [[1]] True (?m (- 1)) = Inr (?m 0)" by code_simp
  have load: "op_prepare_load (arc_ops id) [[1]] (?m 0) = Inr (CPULoadStoreSpec [0], ?m 1)" by code_simp
  have hit: "fst (op_lookup (arc_ops id) [[1]] (?m 0)) = Some (length [[1 :: 8 word]])" by code_simp
  let ?sa = "(new_session ?start)\<lparr>manager_of := ?m (- 1), stores := stores (new_session ?start) \<union> set (block_hashes_to_store ?out),
      memory := write_blocks (block_hashes_to_store ?out) (spec_block_ids (store_spec ?out)) (memory (new_session ?start))\<rparr>"
  let ?sb = "?sa\<lparr>manager_of := ?m 0, stores := stores ?sa - set [[1]]\<rparr>"
  let ?sc = "?sb\<lparr>manager_of := ?m 1, loads := loads ?sb + mset (zip [[1]] (spec_block_ids (CPULoadStoreSpec [0])))\<rparr>"
  have "session_step (arc_ops id) (new_session ?start) ?sa" by (rule session_step.Store [of "[[1]]"]) (use store in \<open>simp_all add: new_session_def\<close>)
  moreover have "session_step (arc_ops id) ?sa ?sb" by (rule session_step.Stored [of "[[1]]" _ _ True]) (use stored in \<open>simp_all add: new_session_def\<close>)
  moreover have "session_step (arc_ops id) ?sb ?sc" by (rule session_step.Load [of _ "[[1]]"]) (use load hit in \<open>simp_all add: new_session_def\<close>)
  ultimately have "session_reachable (arc_ops id) ?start ?sc" by (meson session_reachable.intros)
  then show ?thesis by (rule exI [of _ ?sc, OF conjI]) (simp add: new_session_def)
qed

theorem arc_sessions_safe_witness:
  "\<exists>s. loads s = {#([1], 0)#} \<and> memory s 0 = Some [1] \<and> session_safe (arc_ops id) s"
proof -
  obtain s where s: "session_reachable (arc_ops id) (ARCOffloadingManager (CPUBackend 16 2) False) s" "loads s = {#([1], 0)#}"
    using arc_example_reachable by blast
  have "FilterReusedOffloadingManager (ARCOffloadingManager (CPUBackend 16 2) False) 2 10
      = Inr \<lparr>backing = ARCOffloadingManager (CPUBackend 16 2) False, store_threshold = 2, max_tracker_size = 10, reuse_counts = []\<rparr>"
    by (simp add: FilterReusedOffloadingManager_def)
  from arc_sessions_safe [OF _ _ this, of id s] s(1) have safe: "session_safe (arc_ops id) s" by simp
  then have "memory s 0 = Some [1]" unfolding session_safe_def s(2) by simp
  then show ?thesis using s(2) safe by blast
qed

theorem arc_lists_bounded_witness:
  "\<exists>m :: arc_manager. map fst (arc_t1 m) = [[1]] \<and> int (length (arc_t1 m) + length (arc_t2 m)) \<le> 2 \<and> 0 \<le> target_t1_size m \<and> target_t1_size m \<le> 2"
proof -
  obtain s where s: "session_reachable (arc_ops id) (ARCOffloadingManager (CPUBackend 16 2) False) s" "map fst (arc_t1 (manager_of s)) = [[1]]"
    using arc_example_reachable by (elim exE conjE) (rule that, assumption+)
  have "rounding id" by (simp add: rounding_def mono_def)
  from arc_lists_bounded [OF s(1) this _ _ refl] s(2) show ?thesis by (intro exI [of _ "manager_of s"]) simp
qed

end
