(* ===== verification/Scheduler.thy ===== *)
theory Scheduler
  imports Encoder_Cache Request_Queue Sched_Utils KV_Config KV_Manager
begin

text \<open>
  The scheduler of \<^verbatim>\<open>src/vllm/v1/core/sched/scheduler.py\<close>: its configuration and state, and the
  operations outside a scheduling step, on requests that enter, wait, are preempted or
  finish. The step itself is in \<open>Sched_Step\<close> and the processing of model output in \<open>Sched_Output\<close>.

  Requests are objects that queues and dictionaries share. The field \<open>objects\<close> is the store
  of these objects, by request id; queues and dictionaries hold ids. An id names one object
  at a time, because \<^verbatim>\<open>add_request\<close> drops the new object when the id is in use. The object of
  a finished request stays in the store when its id leaves the dictionary, as a queue may
  still refer to it until the end of the call.

  Parameters, in the record \<open>sched_env\<close>: the hash functions, the grammar state kept by the
  structured output manager, the connector to a remote encoder cache, and the connector to
  remote KV caches with a state of its own. Event recording, log messages and metrics are
  left out.
\<close>

section \<open>Configuration\<close>

datatype pause_state = UNPAUSED | PAUSED_NEW | PAUSED_ALL

definition has_mamba_layers :: "kv_cache_config \<Rightarrow> bool" where
  "has_mamba_layers c = list_ex (\<lambda>g. case group_spec g of LayerSpec (MambaSpec _) \<Rightarrow> True | _ \<Rightarrow> False) (kv_cache_groups c)"

definition needs_kv_cache_zeroing_of :: "kv_cache_config \<Rightarrow> bool" where
  "needs_kv_cache_zeroing_of c = has_mamba_layers c"

record speculative_config =
  num_speculative_tokens :: int
  spec_use_eagle :: bool
  uses_draft_model :: bool

text \<open>The values of \<^verbatim>\<open>VllmConfig\<close> that the scheduler reads.\<close>

record vllm_settings =
  set_max_num_seqs :: int
  set_max_num_scheduled_tokens :: "int option"
  set_max_num_batched_tokens :: int
  set_max_model_len :: int
  set_policy :: string
  set_long_prefill_token_threshold :: int
  set_enable_chunked_prefill :: bool
  set_disable_chunked_mm_input :: bool
  set_async_scheduling :: bool
  set_is_encoder_decoder :: bool
  set_max_loras :: "int option"
  set_speculative :: "speculative_config option"
  set_kv_load_failure_policy :: "string option"
  set_num_gpu_blocks :: "int option"
  set_enable_prefix_caching :: bool
  set_enable_kv_cache_events :: bool
  set_cache_block_size :: int
  set_mamba_cache_mode :: string
  set_pipeline_parallel_size :: int
  set_dcp :: nat
  set_pcp :: nat
  set_use_v2_model_runner :: bool
  set_int_block_hashes :: bool

record sched_config =
  policy :: scheduling_policy
  max_num_running_reqs :: int
  max_num_scheduled_tokens :: int
  sched_max_model_len :: int
  long_prefill_token_threshold :: int
  enable_chunked_prefill :: bool
  no_chunked_mm_input :: bool
  is_encoder_decoder :: bool
  sched_use_eagle :: bool
  num_spec_tokens :: int
  num_lookahead_tokens :: int
  lora_max_loras :: "int option"
  sched_block_size :: nat
  cache_block_size :: int
  need_mamba_block_aligned_split :: bool
  sched_encoder_budget :: int
  num_groups :: nat
  use_pp :: bool
  async_scheduling :: bool
  use_v2_model_runner :: bool
  needs_kv_cache_zeroing :: bool
  sched_log_stats :: bool
  recompute_kv_load_failures :: bool

section \<open>Output of a step\<close>

text \<open>The classes of \<^verbatim>\<open>src/vllm/v1/core/sched/output.py\<close>, without the metadata of connectors.\<close>

record new_request_data =
  nr_req_id :: string
  nr_prompt_token_ids :: "int list option"
  nr_mm_features :: "mm_feature list"
  nr_sampling_params :: "sampling_params option"
  nr_pooling_params :: "pooling_params option"
  nr_block_ids :: "int list list"
  nr_num_computed_tokens :: int
  nr_lora_request :: "lora_request option"
  nr_prompt_embeds :: "bytes list option"
  nr_prefill_token_ids :: "int list option"

definition NewRequestData_from_request :: "request \<Rightarrow> int list list \<Rightarrow> int list option \<Rightarrow> new_request_data" where
  "NewRequestData_from_request r block_ids prefill_token_ids =
     \<lparr>nr_req_id = request_id r, nr_prompt_token_ids = prompt_token_ids r, nr_mm_features = mm_features r,
      nr_sampling_params = sampling_params_of r, nr_pooling_params = pooling_params_of r, nr_block_ids = block_ids,
      nr_num_computed_tokens = num_computed_tokens r, nr_lora_request = lora_request_of r, nr_prompt_embeds = prompt_embeds r,
      nr_prefill_token_ids = prefill_token_ids\<rparr>"

record cached_request_data =
  cr_req_ids :: "string list"
  cr_resumed_req_ids :: "string set"
  cr_new_token_ids :: "int list list"
  cr_all_token_ids :: "(string \<times> int list) list"
  cr_new_block_ids :: "int list list option list"
  cr_num_computed_tokens :: "int list"
  cr_num_output_tokens :: "int list"

definition CachedRequestData_make_empty :: cached_request_data where
  "CachedRequestData_make_empty = \<lparr>cr_req_ids = [], cr_resumed_req_ids = {}, cr_new_token_ids = [], cr_all_token_ids = [],
     cr_new_block_ids = [], cr_num_computed_tokens = [], cr_num_output_tokens = []\<rparr>"

record scheduler_output =
  out_new_reqs :: "new_request_data list"
  out_cached_reqs :: cached_request_data
  out_num_scheduled_tokens :: "(string \<times> int) list"
  out_total_num_scheduled_tokens :: int
  out_spec_decode_tokens :: "(string \<times> int list) list"
  out_encoder_inputs :: "(string \<times> nat list) list"
  out_num_common_prefix_blocks :: "nat list"
  out_finished_req_ids :: "string set"
  out_free_encoder_mm_hashes :: "string list"
  out_preempted_req_ids :: "string set"
  out_has_structured_output_requests :: bool
  out_pending_structured_output_tokens :: bool
  out_num_invalid_spec_tokens :: "(string \<times> int) list option"
  out_new_block_ids_to_zero :: "int list option"

section \<open>Encoder cache managers\<close>

text \<open>\<^verbatim>\<open>self.encoder_cache_manager\<close> is of one of two classes.\<close>

datatype encoder_manager = Enc encoder_cache | EncDec encdec_cache

fun em_check_and_update_cache :: "request \<Rightarrow> nat \<Rightarrow> encoder_manager \<Rightarrow> (bool \<times> encoder_manager) result" where
  "em_check_and_update_cache r i (Enc c) = rbind (check_and_update_cache r i c) (\<lambda>(b, c). Inr (b, Enc c))"
| "em_check_and_update_cache r i (EncDec c) = Inr (ed_check_and_update_cache r i c, EncDec c)"

fun em_can_allocate :: "request \<Rightarrow> nat \<Rightarrow> int \<Rightarrow> int \<Rightarrow> encoder_manager \<Rightarrow> (bool \<times> encoder_manager) result" where
  "em_can_allocate r i budget n (Enc c) = rbind (can_allocate r i budget n c) (\<lambda>(b, c). Inr (b, Enc c))"
| "em_can_allocate r i budget n (EncDec c) = rbind (ed_can_allocate r i budget n c) (\<lambda>b. Inr (b, EncDec c))"

fun em_allocate :: "request \<Rightarrow> nat \<Rightarrow> encoder_manager \<Rightarrow> encoder_manager result" where
  "em_allocate r i (Enc c) = rbind (allocate r i c) (\<lambda>c. Inr (Enc c))"
| "em_allocate r i (EncDec c) = rbind (ed_allocate r i c) (\<lambda>c. Inr (EncDec c))"

fun em_free :: "request \<Rightarrow> encoder_manager \<Rightarrow> encoder_manager result" where
  "em_free r (Enc c) = rbind (enc_free r c) (\<lambda>c. Inr (Enc c))"
| "em_free r (EncDec c) = rbind (ed_free r c) (\<lambda>c. Inr (EncDec c))"

fun em_free_encoder_input :: "request \<Rightarrow> nat \<Rightarrow> encoder_manager \<Rightarrow> encoder_manager result" where
  "em_free_encoder_input r i (Enc c) = rbind (free_encoder_input r i c) (\<lambda>c. Inr (Enc c))"
| "em_free_encoder_input r i (EncDec c) = rbind (ed_free_encoder_input r i c) (\<lambda>c. Inr (EncDec c))"

fun em_get_cached_input_ids :: "request \<Rightarrow> encoder_manager \<Rightarrow> nat list" where
  "em_get_cached_input_ids r (Enc c) = get_cached_input_ids r c"
| "em_get_cached_input_ids r (EncDec c) = sorted_list_of_set (ed_get_cached_input_ids r)"

fun em_get_freed_mm_hashes :: "encoder_manager \<Rightarrow> string list \<times> encoder_manager" where
  "em_get_freed_mm_hashes (Enc c) = (let (hs, c) = get_freed_mm_hashes c in (hs, Enc c))"
| "em_get_freed_mm_hashes (EncDec c) = (let (hs, c) = ed_get_freed_mm_hashes c in (hs, EncDec c))"

fun em_reset :: "encoder_manager \<Rightarrow> encoder_manager" where
  "em_reset (Enc c) = Enc (enc_reset c)"
| "em_reset (EncDec c) = EncDec (ed_reset c)"

section \<open>State and environment\<close>

record 'c scheduler =
  requests :: "string list"
  objects :: "string \<Rightarrow> request"
  waiting :: "string list"
  skipped_waiting :: "string list"
  running :: "string list"
  finished_req_ids :: "string set"
  finished_req_ids_dict :: "(int \<times> string set) list option"
  prev_step_scheduled_req_ids :: "string set"
  num_waiting_for_streaming_input :: int
  finished_recving_kv_req_ids :: "string set"
  failed_recving_kv_req_ids :: "string set"
  kv_cache_manager :: kv_manager
  encoder_cache_manager :: encoder_manager
  pause :: pause_state
  connector :: "'c option"
  connector_prefix_cache_stats :: "prefix_cache_stats option"

record kv_connector_output =
  finished_sending :: "string list"
  finished_recving :: "string list"
  invalid_block_ids :: "int set"

record 'c sched_env =
  env_hash :: hash_env
  grammar_ready :: "request \<Rightarrow> bool"
  should_advance :: "request \<Rightarrow> bool"
  validate_tokens :: "request \<Rightarrow> int list \<Rightarrow> int list"
  ec_has_cache_item :: "(string \<Rightarrow> bool) option"
  supports_hma :: bool
  get_num_new_matched_tokens :: "request \<Rightarrow> nat \<Rightarrow> 'c \<Rightarrow> ((int option \<times> bool) \<times> 'c) result"
  update_state_after_alloc :: "request \<Rightarrow> kv_cache_blocks \<Rightarrow> int \<Rightarrow> 'c \<Rightarrow> 'c result"
  request_finished :: "request \<Rightarrow> int list list \<Rightarrow> 'c \<Rightarrow> ((bool \<times> string option) \<times> 'c) result"
  build_connector_meta :: "scheduler_output \<Rightarrow> 'c \<Rightarrow> 'c"
  update_connector_output :: "kv_connector_output \<Rightarrow> 'c \<Rightarrow> 'c result"
  reset_cache :: "'c \<Rightarrow> bool option \<times> 'c"

definition set_object :: "string \<Rightarrow> request \<Rightarrow> 'c scheduler \<Rightarrow> 'c scheduler" where
  "set_object rid r s = s\<lparr>objects := (objects s)(rid := r)\<rparr>"

text \<open>\<^verbatim>\<open>self.requests.get\<close> and \<^verbatim>\<open>self.requests[...]\<close>.\<close>

definition get_request :: "string \<Rightarrow> 'c scheduler \<Rightarrow> request option" where
  "get_request rid s = (if rid \<in> set (requests s) then Some (objects s rid) else None)"

section \<open>The queues\<close>

text \<open>A request queue by policy, on the objects behind the ids.\<close>

definition queue_add :: "scheduling_policy \<Rightarrow> (string \<Rightarrow> request) \<Rightarrow> string \<Rightarrow> string list \<Rightarrow> string list" where
  "queue_add pol ob x q = (case pol of
       FCFS \<Rightarrow> map request_id (fcfs_add_request (ob x) (map ob q))
     | PRIORITY \<Rightarrow> map request_id (prio_add_request (ob x) (map ob q)))"

definition queue_prepend :: "scheduling_policy \<Rightarrow> (string \<Rightarrow> request) \<Rightarrow> string \<Rightarrow> string list \<Rightarrow> string list" where
  "queue_prepend pol ob x q = (case pol of
       FCFS \<Rightarrow> map request_id (fcfs_prepend_request (ob x) (map ob q))
     | PRIORITY \<Rightarrow> map request_id (prio_prepend_request (ob x) (map ob q)))"

definition queue_pop :: "scheduling_policy \<Rightarrow> (string \<Rightarrow> request) \<Rightarrow> string list \<Rightarrow> (string \<times> string list) result" where
  "queue_pop pol ob q = rbind (case pol of FCFS \<Rightarrow> fcfs_pop_request (map ob q) | PRIORITY \<Rightarrow> prio_pop_request (map ob q))
     (\<lambda>(r, q). Inr (request_id r, map request_id q))"

definition queue_peek :: "scheduling_policy \<Rightarrow> (string \<Rightarrow> request) \<Rightarrow> string list \<Rightarrow> string result" where
  "queue_peek pol ob q = rbind (case pol of FCFS \<Rightarrow> fcfs_peek_request (map ob q) | PRIORITY \<Rightarrow> prio_peek_request (map ob q))
     (\<lambda>r. Inr (request_id r))"

definition queue_prepend_requests :: "scheduling_policy \<Rightarrow> (string \<Rightarrow> request) \<Rightarrow> string list \<Rightarrow> string list \<Rightarrow> string list result" where
  "queue_prepend_requests pol ob xs q = (case pol of
       FCFS \<Rightarrow> Inr (map request_id (fcfs_prepend_requests (map ob xs) (map ob q)))
     | PRIORITY \<Rightarrow> rbind (prio_iter (map ob xs)) (\<lambda>rs. Inr (map request_id (prio_prepend_requests rs (map ob q)))))"

definition queue_remove_requests :: "scheduling_policy \<Rightarrow> (string \<Rightarrow> request) \<Rightarrow> string list \<Rightarrow> string list \<Rightarrow> string list" where
  "queue_remove_requests pol ob xs q = (case pol of
       FCFS \<Rightarrow> map request_id (fcfs_remove_requests (map ob xs) (map ob q))
     | PRIORITY \<Rightarrow> map request_id (prio_remove_requests (map ob xs) (map ob q)))"

definition queue_iter :: "scheduling_policy \<Rightarrow> (string \<Rightarrow> request) \<Rightarrow> string list \<Rightarrow> string list result" where
  "queue_iter pol ob q = (case pol of
       FCFS \<Rightarrow> Inr q
     | PRIORITY \<Rightarrow> rbind (prio_iter (map ob q)) (\<lambda>rs. Inr (map request_id rs)))"

definition is_blocked_waiting_status :: "request_status \<Rightarrow> bool" where
  "is_blocked_waiting_status st \<longleftrightarrow> st \<in> {WAITING_FOR_FSM, WAITING_FOR_REMOTE_KVS, WAITING_FOR_STREAMING_REQ}"

definition enqueue_waiting_request :: "sched_config \<Rightarrow> string \<Rightarrow> 'c scheduler \<Rightarrow> 'c scheduler" where
  "enqueue_waiting_request cfg rid s =
     (if is_blocked_waiting_status (status (objects s rid))
      then s\<lparr>skipped_waiting := queue_add (policy cfg) (objects s) rid (skipped_waiting s)\<rparr>
      else s\<lparr>waiting := queue_add (policy cfg) (objects s) rid (waiting s)\<rparr>)"

datatype queue_name = Waiting_Queue | Skipped_Queue

fun queue_of :: "queue_name \<Rightarrow> 'c scheduler \<Rightarrow> string list" where
  "queue_of Waiting_Queue s = waiting s"
| "queue_of Skipped_Queue s = skipped_waiting s"

fun set_queue :: "queue_name \<Rightarrow> string list \<Rightarrow> 'c scheduler \<Rightarrow> 'c scheduler" where
  "set_queue Waiting_Queue q s = s\<lparr>waiting := q\<rparr>"
| "set_queue Skipped_Queue q s = s\<lparr>skipped_waiting := q\<rparr>"

definition select_waiting_queue_for_scheduling :: "sched_config \<Rightarrow> 'c scheduler \<Rightarrow> queue_name option result" where
  "select_waiting_queue_for_scheduling cfg s =
     (case policy cfg of
        FCFS \<Rightarrow> Inr (if skipped_waiting s \<noteq> [] then Some Skipped_Queue else if waiting s \<noteq> [] then Some Waiting_Queue else None)
      | PRIORITY \<Rightarrow>
          if waiting s \<noteq> [] \<and> skipped_waiting s \<noteq> []
          then rbind (queue_peek PRIORITY (objects s) (waiting s)) (\<lambda>w.
               rbind (queue_peek PRIORITY (objects s) (skipped_waiting s)) (\<lambda>k.
               Inr (Some (if request_lt (objects s w) (objects s k) then Waiting_Queue else Skipped_Queue))))
          else Inr (if waiting s \<noteq> [] then Some Waiting_Queue else if skipped_waiting s \<noteq> [] then Some Skipped_Queue else None))"

section \<open>Construction\<close>

text \<open>
  \<^verbatim>\<open>Scheduler.__init__\<close>. The multi-modal budget, which the model registry computes, is an
  argument: compute budget, cache size and number of modalities. So is the state of the
  connector that the factory creates. The reader for routed experts is left out.
\<close>

definition scheduling_policy_of :: "string \<Rightarrow> scheduling_policy result" where
  "scheduling_policy_of n = (if n = ''fcfs'' then Inr FCFS else if n = ''priority'' then Inr PRIORITY else Inl ValueError)"

definition make_sched_config ::
  "vllm_settings \<Rightarrow> kv_cache_config \<Rightarrow> nat \<Rightarrow> (int \<times> int \<times> nat) option \<Rightarrow> bool \<Rightarrow> scheduling_policy \<Rightarrow> sched_config" where
  "make_sched_config v kvc block_size mm_budget log_stats pol =
     (let spec = set_speculative v;
          n = (case spec of None \<Rightarrow> 0 | Some sp \<Rightarrow> num_speculative_tokens sp);
          eagle = (case spec of None \<Rightarrow> False | Some sp \<Rightarrow> spec_use_eagle sp);
          draft = (case spec of None \<Rightarrow> False | Some sp \<Rightarrow> uses_draft_model sp)
      in \<lparr>policy = pol, max_num_running_reqs = set_max_num_seqs v,
          max_num_scheduled_tokens = (case set_max_num_scheduled_tokens v of
              Some t \<Rightarrow> if t \<noteq> 0 then t else set_max_num_batched_tokens v | None \<Rightarrow> set_max_num_batched_tokens v),
          sched_max_model_len = set_max_model_len v, long_prefill_token_threshold = set_long_prefill_token_threshold v,
          enable_chunked_prefill = set_enable_chunked_prefill v, no_chunked_mm_input = set_disable_chunked_mm_input v,
          is_encoder_decoder = set_is_encoder_decoder v, sched_use_eagle = eagle, num_spec_tokens = n,
          num_lookahead_tokens = (if eagle \<or> draft then n else 0), lora_max_loras = set_max_loras v,
          sched_block_size = block_size, cache_block_size = set_cache_block_size v,
          need_mamba_block_aligned_split = (has_mamba_layers kvc \<and> set_mamba_cache_mode v = ''align''),
          sched_encoder_budget = (case mm_budget of None \<Rightarrow> 0 | Some (b, _) \<Rightarrow> b),
          num_groups = length (kv_cache_groups kvc), use_pp = (1 < set_pipeline_parallel_size v),
          async_scheduling = set_async_scheduling v, use_v2_model_runner = set_use_v2_model_runner v,
          needs_kv_cache_zeroing = needs_kv_cache_zeroing_of kvc, sched_log_stats = log_stats,
          recompute_kv_load_failures = (case set_kv_load_failure_policy v of None \<Rightarrow> True | Some p \<Rightarrow> p = ''recompute'')\<rparr>)"

definition Scheduler ::
  "vllm_settings \<Rightarrow> kv_cache_config \<Rightarrow> nat \<Rightarrow> (int \<times> int \<times> nat) option \<Rightarrow> bool \<Rightarrow> bool \<Rightarrow> 'c
     \<Rightarrow> (sched_config \<times> 'c scheduler) result" where
  "Scheduler v kvc block_size mm_budget include_finished_set log_stats c =
     rbind (ensure (set_kv_load_failure_policy v = None \<or> \<not> set_is_encoder_decoder v) AssertionError) (\<lambda>_.
     rbind (ensure (case set_num_gpu_blocks v of None \<Rightarrow> False | Some n \<Rightarrow> 0 < n) AssertionError) (\<lambda>_.
     rbind (scheduling_policy_of (set_policy v)) (\<lambda>pol.
     rbind (ensure (set_is_encoder_decoder v \<longrightarrow> (case mm_budget of None \<Rightarrow> False | Some (_, _, n) \<Rightarrow> n \<le> 1)) AssertionError) (\<lambda>_.
     let cfg = make_sched_config v kvc block_size mm_budget log_stats pol;
         cache_size = (case mm_budget of None \<Rightarrow> 0 | Some (_, n, _) \<Rightarrow> n);
         has_connector = (set_kv_load_failure_policy v \<noteq> None)
     in
     rbind (KVCacheManager kvc (set_max_model_len v) block_size (set_enable_prefix_caching v) (sched_use_eagle cfg) log_stats
              (set_enable_kv_cache_events v) (set_int_block_hashes v) (set_dcp v) (set_pcp v)) (\<lambda>km.
     Inr (cfg, \<lparr>requests = [], objects = (\<lambda>_. undefined), waiting = [], skipped_waiting = [], running = [],
       finished_req_ids = {}, finished_req_ids_dict = (if include_finished_set then Some [] else None),
       prev_step_scheduled_req_ids = {}, num_waiting_for_streaming_input = 0,
       finished_recving_kv_req_ids = {}, failed_recving_kv_req_ids = {}, kv_cache_manager = km,
       encoder_cache_manager = (if set_is_encoder_decoder v then EncDec (EncoderDecoderCacheManager cache_size)
                                else Enc (EncoderCacheManager cache_size)),
       pause = UNPAUSED, connector = (if has_connector then Some c else None),
       connector_prefix_cache_stats = (if has_connector \<and> log_stats then Some PrefixCacheStats else None)\<rparr>))))))"

section \<open>Preemption\<close>

definition preempt_request :: "sched_config \<Rightarrow> string \<Rightarrow> 'c scheduler \<Rightarrow> 'c scheduler result" where
  "preempt_request cfg rid s =
     (let r = objects s rid in
      rbind (ensure (status r = RUNNING) AssertionError) (\<lambda>_.
      rbind (km_free r (kv_cache_manager s)) (\<lambda>km.
      rbind (em_free r (encoder_cache_manager s)) (\<lambda>em.
      let r = r\<lparr>status := PREEMPTED, num_computed_tokens := 0, spec_token_ids := [], num_preemptions := num_preemptions r + 1\<rparr>;
          s = set_object rid r (s\<lparr>kv_cache_manager := km, encoder_cache_manager := em\<rparr>)
      in Inr (s\<lparr>waiting := queue_prepend (policy cfg) (objects s) rid (waiting s)\<rparr>)))))"

section \<open>Stopped requests and streaming sessions\<close>

definition sched_update_request_as_session :: "'c sched_env \<Rightarrow> string \<Rightarrow> streaming_update \<Rightarrow> 'c scheduler \<Rightarrow> 'c scheduler result" where
  "sched_update_request_as_session env rid u s =
     rbind (update_request_as_session (env_hash env) (objects s rid) u) (\<lambda>r.
     Inr (set_object rid r
       (if status (objects s rid) = WAITING_FOR_STREAMING_REQ
        then s\<lparr>num_waiting_for_streaming_input := num_waiting_for_streaming_input s - 1\<rparr> else s)))"

definition handle_stopped_request :: "sched_config \<Rightarrow> 'c sched_env \<Rightarrow> string \<Rightarrow> 'c scheduler \<Rightarrow> (bool \<times> 'c scheduler) result" where
  "handle_stopped_request cfg env rid s =
     (let r = objects s rid in
      if \<not> resumable r then Inr (True, s)
      else
        (case streaming_queue r of
           Some (u # q) \<Rightarrow>
             let s = set_object rid (r\<lparr>streaming_queue := Some q\<rparr>) s in
             (case u of
                None \<Rightarrow> Inr (True, s)
              | Some upd \<Rightarrow> rbind (sched_update_request_as_session env rid upd s) (\<lambda>s. Inr (False, enqueue_waiting_request cfg rid s)))
         | _ \<Rightarrow>
             let s = set_object rid (r\<lparr>status := WAITING_FOR_STREAMING_REQ\<rparr>) s;
                 s = s\<lparr>num_waiting_for_streaming_input := num_waiting_for_streaming_input s + 1\<rparr>
             in Inr (False, enqueue_waiting_request cfg rid s)))"

section \<open>Freeing requests\<close>

definition connector_finished :: "sched_config \<Rightarrow> 'c sched_env \<Rightarrow> string \<Rightarrow> 'c scheduler \<Rightarrow> ((bool \<times> string option) \<times> 'c scheduler) result" where
  "connector_finished cfg env rid s =
     (case connector s of
        None \<Rightarrow> Inr ((False, None), s)
      | Some c \<Rightarrow>
          rbind (km_remove_skipped_blocks rid (int (num_tokens (objects s rid))) (kv_cache_manager s)) (\<lambda>km.
          let block_ids = km_get_block_ids rid km in
          rbind (if supports_hma env then Inr block_ids
                 else rbind (ensure (num_groups cfg = 1) AssertionError) (\<lambda>_.
                      rbind (py_index block_ids 0) (\<lambda>ids. Inr [ids]))) (\<lambda>block_ids.
          rbind (request_finished env (objects s rid) block_ids c) (\<lambda>(res, c).
          Inr (res, s\<lparr>kv_cache_manager := km, connector := Some c\<rparr>)))))"

definition free_blocks_of :: "string \<Rightarrow> 'c scheduler \<Rightarrow> 'c scheduler result" where
  "free_blocks_of rid s =
     rbind (ensure (is_finished (objects s rid)) AssertionError) (\<lambda>_.
     rbind (km_free (objects s rid) (kv_cache_manager s)) (\<lambda>km.
     rbind (ensure (rid \<in> set (requests s)) KeyError) (\<lambda>_.
     Inr (s\<lparr>kv_cache_manager := km, requests := remove1 rid (requests s)\<rparr>))))"

definition note_finished :: "string \<Rightarrow> 'c scheduler \<Rightarrow> 'c scheduler" where
  "note_finished rid s =
     (let ci = client_index (objects s rid) in
      s\<lparr>finished_req_ids := insert rid (finished_req_ids s),
        finished_req_ids_dict := map_option (\<lambda>d. AList.update ci
          (insert rid (case map_of d ci of None \<Rightarrow> {} | Some ids \<Rightarrow> ids)) d) (finished_req_ids_dict s)\<rparr>)"

definition free_request :: "sched_config \<Rightarrow> 'c sched_env \<Rightarrow> string \<Rightarrow> bool \<Rightarrow> 'c scheduler \<Rightarrow> (string option \<times> 'c scheduler) result" where
  "free_request cfg env rid delay_free_blocks s =
     rbind (ensure (is_finished (objects s rid)) AssertionError) (\<lambda>_.
     rbind (connector_finished cfg env rid s) (\<lambda>((connector_delay, kv_xfer_params), s).
     rbind (em_free (objects s rid) (encoder_cache_manager s)) (\<lambda>em.
     let s = note_finished rid (s\<lparr>encoder_cache_manager := em\<rparr>) in
     rbind (if delay_free_blocks \<or> connector_delay then Inr s else free_blocks_of rid s) (\<lambda>s.
     Inr (kv_xfer_params, s)))))"

text \<open>
  \<^verbatim>\<open>finish_requests\<close>: the first pass collects, per id, what has to leave the queues; the second
  frees. The argument \<open>ids\<close> lists the set of ids in the order in which it is iterated, or is
  \<^term>\<open>None\<close> for all requests.
\<close>

definition finish_collect :: "string \<Rightarrow> 'c scheduler \<times> string list \<times> string list \<times> string list
     \<Rightarrow> 'c scheduler \<times> string list \<times> string list \<times> string list" where
  "finish_collect rid = (\<lambda>(s, run, wait, valid).
     (case get_request rid s of
        None \<Rightarrow> (s, run, wait, valid)
      | Some r \<Rightarrow>
          if is_finished r then (s, run, wait, valid)
          else if status r = RUNNING then (s, run @ [rid], wait, valid @ [rid])
          else (if status r = WAITING_FOR_STREAMING_REQ
                then s\<lparr>num_waiting_for_streaming_input := num_waiting_for_streaming_input s - 1\<rparr> else s,
                run, wait @ [rid], valid @ [rid])))"

definition finish_one :: "sched_config \<Rightarrow> 'c sched_env \<Rightarrow> request_status \<Rightarrow> string \<Rightarrow> 'c scheduler \<Rightarrow> 'c scheduler result" where
  "finish_one cfg env finished_status rid s =
     (let r = objects s rid;
          remote = (status r = WAITING_FOR_REMOTE_KVS);
          delay_free_blocks = (remote \<and> rid \<notin> finished_recving_kv_req_ids s);
          s = (if remote then s\<lparr>finished_recving_kv_req_ids := finished_recving_kv_req_ids s - {rid},
                               failed_recving_kv_req_ids := failed_recving_kv_req_ids s - {rid}\<rparr> else s);
          s = set_object rid (r\<lparr>status := finished_status\<rparr>) s
      in rbind (free_request cfg env rid delay_free_blocks s) (\<lambda>(_, s). Inr s))"

definition drop_from_queues :: "sched_config \<Rightarrow> string list \<Rightarrow> string list \<Rightarrow> 'c scheduler \<Rightarrow> 'c scheduler" where
  "drop_from_queues cfg run wait s =
     (let s = (if run \<noteq> [] then s\<lparr>running := remove_all (running s) run\<rparr> else s)
      in if wait \<noteq> []
         then s\<lparr>waiting := queue_remove_requests (policy cfg) (objects s) wait (waiting s),
                skipped_waiting := queue_remove_requests (policy cfg) (objects s) wait (skipped_waiting s)\<rparr>
         else s)"

definition finish_requests :: "sched_config \<Rightarrow> 'c sched_env \<Rightarrow> string list option \<Rightarrow> request_status \<Rightarrow> 'c scheduler
     \<Rightarrow> ((string \<times> int) list \<times> 'c scheduler) result" where
  "finish_requests cfg env ids finished_status s =
     rbind (ensure (status_is_finished finished_status) AssertionError) (\<lambda>_.
     let (s, run, wait, valid) = fold finish_collect (case ids of None \<Rightarrow> requests s | Some ids \<Rightarrow> remdups ids) (s, [], [], []);
         aborted = map (\<lambda>rid. (rid, client_index (objects s rid))) valid
     in rbind (rfold (finish_one cfg env finished_status) valid (drop_from_queues cfg run wait s)) (\<lambda>s. Inr (aborted, s)))"

section \<open>Adding requests\<close>

definition add_request :: "sched_config \<Rightarrow> 'c sched_env \<Rightarrow> request \<Rightarrow> 'c scheduler \<Rightarrow> 'c scheduler result" where
  "add_request cfg env r s =
     (let rid = request_id r in
      case get_request rid s of
        Some existing \<Rightarrow>
          let update = streaming_update_from_request r in
          if status existing \<noteq> WAITING_FOR_STREAMING_REQ
          then (case streaming_queue existing of
                  None \<Rightarrow> Inl AssertionError
                | Some q \<Rightarrow> Inr (set_object rid (existing\<lparr>streaming_queue := Some (q @ [update])\<rparr>) s))
          else (case update of
                  Some u \<Rightarrow> sched_update_request_as_session env rid u s
                | None \<Rightarrow> rbind (finish_requests cfg env (Some [rid]) FINISHED_ABORTED s) (\<lambda>(_, s). Inr s))
      | None \<Rightarrow>
          let s = enqueue_waiting_request cfg rid
                    (set_object rid (if resumable r then r\<lparr>streaming_queue := Some []\<rparr> else r) s)
          in Inr (s\<lparr>requests := requests s @ [rid]\<rparr>))"

section \<open>Blocked requests\<close>

definition update_waiting_for_remote_kv :: "'c sched_env \<Rightarrow> string \<Rightarrow> 'c scheduler \<Rightarrow> 'c scheduler result" where
  "update_waiting_for_remote_kv env rid s =
     (let r = objects s rid in
      rbind (ensure (connector s \<noteq> None) AssertionError) (\<lambda>_.
      rbind (if rid \<in> failed_recving_kv_req_ids s
             then rbind (if num_computed_tokens r \<noteq> 0
                         then km_cache_blocks (env_hash env) r (num_computed_tokens r) (kv_cache_manager s)
                         else rbind (km_free r (kv_cache_manager s)) (\<lambda>km. Inr (r, km))) (\<lambda>(r, km).
                  Inr (set_object rid r (s\<lparr>kv_cache_manager := km, failed_recving_kv_req_ids := failed_recving_kv_req_ids s - {rid}\<rparr>)))
             else rbind (km_cache_blocks (env_hash env) r (num_computed_tokens r) (kv_cache_manager s)) (\<lambda>(r, km).
                  let r = (if num_computed_tokens r = int (num_tokens r) then r\<lparr>num_computed_tokens := int (num_tokens r) - 1\<rparr> else r);
                      r = (if num_cached_tokens r < 0 then r\<lparr>num_cached_tokens := num_computed_tokens r\<rparr> else r)
                  in Inr (set_object rid r (s\<lparr>kv_cache_manager := km\<rparr>)))) (\<lambda>s.
      rbind (ensure (rid \<in> finished_recving_kv_req_ids s) KeyError) (\<lambda>_.
      Inr (s\<lparr>finished_recving_kv_req_ids := finished_recving_kv_req_ids s - {rid}\<rparr>)))))"

definition try_promote_blocked_waiting_request :: "'c sched_env \<Rightarrow> string \<Rightarrow> 'c scheduler \<Rightarrow> (bool \<times> 'c scheduler) result" where
  "try_promote_blocked_waiting_request env rid s =
     (let r = objects s rid in
      case status r of
        WAITING_FOR_REMOTE_KVS \<Rightarrow>
          if rid \<notin> finished_recving_kv_req_ids s then Inr (False, s)
          else rbind (update_waiting_for_remote_kv env rid s) (\<lambda>s.
               let r = objects s rid
               in Inr (True, set_object rid (r\<lparr>status := (if num_preemptions r \<noteq> 0 then PREEMPTED else WAITING)\<rparr>) s))
      | WAITING_FOR_FSM \<Rightarrow>
          if \<not> (structured_output_request r \<and> grammar_ready env r) then Inr (False, s)
          else Inr (True, set_object rid (r\<lparr>status := WAITING\<rparr>) s)
      | WAITING_FOR_STREAMING_REQ \<Rightarrow>
          rbind (ensure (streaming_queue r = None \<or> streaming_queue r = Some []) AssertionError) (\<lambda>_. Inr (False, s))
      | _ \<Rightarrow> Inl AssertionError)"

section \<open>Encoder inputs and draft tokens\<close>

definition free_encoder_inputs :: "sched_config \<Rightarrow> string \<Rightarrow> 'c scheduler \<Rightarrow> 'c scheduler result" where
  "free_encoder_inputs cfg rid s =
     (let r = objects s rid in
      rbind (rfold (\<lambda>i em.
               rbind (py_index (mm_features r) (int i)) (\<lambda>f.
               if is_encoder_decoder cfg \<and> 0 < num_computed_tokens r then em_free_encoder_input r i em
               else if int (feature_end f) \<le> num_computed_tokens r then em_free_encoder_input r i em
               else Inr em))
             (em_get_cached_input_ids r (encoder_cache_manager s)) (encoder_cache_manager s)) (\<lambda>em.
      Inr (s\<lparr>encoder_cache_manager := em\<rparr>)))"

definition update_draft_of :: "'c sched_env \<Rightarrow> string \<times> int list \<Rightarrow> 'c scheduler \<Rightarrow> 'c scheduler" where
  "update_draft_of env = (\<lambda>(rid, spec_tokens) s.
     (case get_request rid s of
        None \<Rightarrow> s
      | Some r \<Rightarrow>
          if is_finished r then s
          else if is_prefill_chunk r then set_object rid (r\<lparr>spec_token_ids := []\<rparr>) s
          else set_object rid (r\<lparr>spec_token_ids := (if should_advance env r then validate_tokens env r spec_tokens else spec_tokens)\<rparr>) s))"

definition update_draft_token_ids :: "'c sched_env \<Rightarrow> string list \<Rightarrow> int list list \<Rightarrow> 'c scheduler \<Rightarrow> 'c scheduler" where
  "update_draft_token_ids env req_ids drafts s = fold (update_draft_of env) (zip req_ids drafts) s"

section \<open>Counts and resets\<close>

definition set_pause_state :: "pause_state \<Rightarrow> 'c scheduler \<Rightarrow> 'c scheduler" where
  "set_pause_state p s = s\<lparr>pause := p\<rparr>"

definition get_request_counts :: "'c scheduler \<Rightarrow> nat \<times> nat" where
  "get_request_counts s = (length (running s), length (waiting s) + length (skipped_waiting s))"

definition get_num_unfinished_requests :: "'c scheduler \<Rightarrow> int" where
  "get_num_unfinished_requests s =
     (case pause s of
        PAUSED_ALL \<Rightarrow> 0
      | PAUSED_NEW \<Rightarrow> int (length (running s))
      | UNPAUSED \<Rightarrow> int (length (waiting s)) + int (length (skipped_waiting s)) - num_waiting_for_streaming_input s + int (length (running s)))"

definition has_finished_requests :: "'c scheduler \<Rightarrow> bool" where
  "has_finished_requests s \<longleftrightarrow> finished_req_ids s \<noteq> {}"

definition reset_connector_cache :: "sched_config \<Rightarrow> 'c sched_env \<Rightarrow> 'c scheduler \<Rightarrow> (bool \<times> 'c scheduler) result" where
  "reset_connector_cache cfg env s =
     (case connector s of
        None \<Rightarrow> Inr (False, s)
      | Some c \<Rightarrow>
          let (res, c) = reset_cache env c; s = s\<lparr>connector := Some c\<rparr> in
          if res = Some False then Inr (False, s)
          else if sched_log_stats cfg
          then (case connector_prefix_cache_stats s of
                  None \<Rightarrow> Inl AssertionError
                | Some st \<Rightarrow> Inr (True, s\<lparr>connector_prefix_cache_stats := Some (st\<lparr>stats_reset := True\<rparr>)\<rparr>))
          else Inr (True, s))"

text \<open>The \<^verbatim>\<open>while\<close> loop that preempts every running request, the last first.\<close>

definition preempt_last :: "sched_config \<Rightarrow> 'c scheduler \<Rightarrow> 'c scheduler result" where
  "preempt_last cfg s =
     (let rid = last (running s) in
      rbind (preempt_request cfg rid (s\<lparr>running := butlast (running s)\<rparr>)) (\<lambda>s.
      Inr (set_object rid ((objects s rid)\<lparr>num_output_placeholders := 0, discard_latest_async_tokens := True\<rparr>) s)))"

definition sched_reset_prefix_cache :: "sched_config \<Rightarrow> 'c sched_env \<Rightarrow> bool \<Rightarrow> bool \<Rightarrow> 'c scheduler \<Rightarrow> (bool \<times> 'c scheduler) result" where
  "sched_reset_prefix_cache cfg env reset_running_requests reset_connector s =
     rbind (if reset_running_requests
            then rbind (rwhile (Suc (length (running s))) (\<lambda>s. running s \<noteq> []) (preempt_last cfg) s) (\<lambda>s.
                 Inr (s\<lparr>prev_step_scheduled_req_ids := {}\<rparr>))
            else Inr s) (\<lambda>s.
     rbind (km_reset_prefix_cache (kv_cache_manager s)) (\<lambda>(reset_successful, km).
     let s = s\<lparr>kv_cache_manager := km\<rparr> in
     rbind (ensure (\<not> (reset_running_requests \<and> \<not> reset_successful)) RuntimeError) (\<lambda>_.
     if reset_connector
     then rbind (reset_connector_cache cfg env s) (\<lambda>(ok, s). Inr (ok \<and> reset_successful, s))
     else Inr (reset_successful, s))))"

definition reset_encoder_cache :: "'c scheduler \<Rightarrow> 'c scheduler" where
  "reset_encoder_cache s = s\<lparr>encoder_cache_manager := em_reset (encoder_cache_manager s)\<rparr>"

end
