(* ===== verification/Sched_Step.thy ===== *)
theory Sched_Step
  imports Scheduler
begin

text \<open>
  One scheduling step, \<^verbatim>\<open>Scheduler.schedule\<close> of \<^verbatim>\<open>src/vllm/v1/core/sched/scheduler.py\<close> with the methods it
  calls and the overrides of \<^verbatim>\<open>async_scheduler.py\<close>: running requests first, which may preempt
  others, then waiting requests. The local variables of the method are the record
  \<open>step_state\<close>; dictionaries in insertion order are association lists. A \<^verbatim>\<open>while\<close> loop is \<open>rwhile\<close>
  with a bound on its iterations, and \<^verbatim>\<open>break\<close> sets a flag.
\<close>

section \<open>Splitting at block boundaries\<close>

definition mamba_block_aligned_split :: "sched_config \<Rightarrow> request \<Rightarrow> int \<Rightarrow> int \<Rightarrow> int \<Rightarrow> int result" where
  "mamba_block_aligned_split cfg r num_new_tokens num_new_local num_external =
     rbind (ensure (num_external = 0) AssertionError) (\<lambda>_.
     let num_computed = num_computed_tokens r + num_new_local + num_external in
     if num_computed < max (int (num_prompt_tokens r)) (int (num_tokens r) - 1)
     then
       let block_size = cache_block_size cfg in
       if block_size = 0 then Inl ZeroDivisionError
       else
         let last_cache_position = int (num_tokens r) - int (num_tokens r) mod block_size;
             last_cache_position = (if sched_use_eagle cfg then max (last_cache_position - block_size) 0 else last_cache_position);
             after = num_computed + num_new_tokens
         in if after < last_cache_position then Inr (num_new_tokens div block_size * block_size)
            else if num_computed < last_cache_position \<and> last_cache_position < after
            then Inr (last_cache_position - num_computed)
            else Inr num_new_tokens
     else Inr num_new_tokens)"

section \<open>Encoder inputs\<close>

record encoder_loop =
  el_inputs :: "nat list"
  el_new_tokens :: int
  el_budget :: int
  el_external :: "nat list"
  el_hashes :: "string set"
  el_embeds :: int
  el_cache :: encoder_manager

text \<open>The loop of \<^verbatim>\<open>_try_schedule_encoder_inputs\<close>; a \<^verbatim>\<open>break\<close> ends the recursion.\<close>

fun encoder_inputs_loop :: "sched_config \<Rightarrow> 'c sched_env \<Rightarrow> request \<Rightarrow> int \<Rightarrow> int \<Rightarrow> (nat \<times> mm_feature) list \<Rightarrow> encoder_loop \<Rightarrow> encoder_loop result" where
  "encoder_inputs_loop cfg env r nc shift [] l = Inr l"
| "encoder_inputs_loop cfg env r nc shift ((i, f) # rest) l =
     (let pos = mm_position f; start_pos = int (offset pos); num_encoder_tokens = int (plen pos);
          h = mm_identifier f; continue = encoder_inputs_loop cfg env r nc shift rest
      in
      rbind (get_num_embeds pos) (\<lambda>num_encoder_embeds.
      if nc + el_new_tokens l + shift \<le> start_pos then Inr l
      else if is_encoder_decoder cfg \<and> 0 < nc
      then rbind (ensure (start_pos = 0) AssertionError) (\<lambda>_. continue l)
      else if start_pos + num_encoder_tokens \<le> nc then continue l
      else
        rbind (if is_encoder_decoder cfg then Inr (False, el_cache l)
               else if h \<in> el_hashes l then Inr (True, el_cache l)
               else em_check_and_update_cache r i (el_cache l)) (\<lambda>(present, cache).
        let l = l\<lparr>el_cache := cache\<rparr> in
        if present then continue l
        else if no_chunked_mm_input cfg \<and> nc < start_pos \<and> nc + el_new_tokens l < start_pos + num_encoder_tokens
        then Inr (l\<lparr>el_new_tokens := max 0 (start_pos - (nc + shift))\<rparr>)
        else
          rbind (em_can_allocate r i (el_budget l) (el_embeds l) (el_cache l)) (\<lambda>(fits, cache).
          let l = l\<lparr>el_cache := cache\<rparr> in
          if \<not> fits
          then Inr (l\<lparr>el_new_tokens := (if nc + shift < start_pos then start_pos - (nc + shift) else 0)\<rparr>)
          else
            rbind (get_embeds_indices_in_range pos (max 0 (nc - start_pos)) (min num_encoder_tokens (nc + el_new_tokens l - start_pos))) (\<lambda>(a, b).
            if b - a = 0 then continue l
            else if (case ec_has_cache_item env of None \<Rightarrow> False | Some has \<Rightarrow> has h)
            then continue (l\<lparr>el_hashes := insert h (el_hashes l), el_external := el_external l @ [i],
                             el_embeds := el_embeds l + int num_encoder_embeds\<rparr>)
            else continue (l\<lparr>el_embeds := el_embeds l + int num_encoder_embeds, el_budget := el_budget l - int num_encoder_embeds,
                             el_hashes := insert h (el_hashes l), el_inputs := el_inputs l @ [i]\<rparr>))))))"

definition try_schedule_encoder_inputs :: "sched_config \<Rightarrow> 'c sched_env \<Rightarrow> request \<Rightarrow> int \<Rightarrow> int \<Rightarrow> int \<Rightarrow> int \<Rightarrow> encoder_manager
     \<Rightarrow> encoder_loop result" where
  "try_schedule_encoder_inputs cfg env r num_computed num_new budget shift em =
     (let l = \<lparr>el_inputs = [], el_new_tokens = num_new, el_budget = budget, el_external = [], el_hashes = {}, el_embeds = 0, el_cache = em\<rparr>
      in if num_new = 0 \<or> \<not> has_encoder_inputs r then Inr l
         else encoder_inputs_loop cfg env r num_computed shift (enumerate 0 (mm_features r)) l)"

section \<open>Local variables of a step\<close>

record 'c step_state =
  sched :: "'c scheduler"
  scheduled_new_reqs :: "string list"
  scheduled_resumed_reqs :: "string list"
  scheduled_running_reqs :: "string list"
  preempted_reqs :: "string list"
  req_to_new_blocks :: "(string \<times> kv_cache_blocks) list"
  num_scheduled_tokens :: "(string \<times> int) list"
  token_budget :: int
  scheduled_encoder_inputs :: "(string \<times> nat list) list"
  encoder_compute_budget :: int
  scheduled_spec_decode_tokens :: "(string \<times> int list) list"
  req_index :: int
  broken :: bool
  scheduled_loras :: "int set"
  step_skipped_waiting :: "string list"

definition shift_computed_tokens :: "sched_config \<Rightarrow> int" where
  "shift_computed_tokens cfg = (if sched_use_eagle cfg then 1 else 0)"

text \<open>\<^verbatim>\<open>sum(request.get_num_encoder_embeds(i) for i in inputs)\<close>.\<close>

definition sum_embeds :: "request \<Rightarrow> nat list \<Rightarrow> int result" where
  "sum_embeds r is = rfold (\<lambda>i n. rbind (get_num_encoder_embeds r i) (\<lambda>k. Inr (n + int k))) is 0"

definition allocate_encoder_inputs :: "string \<Rightarrow> nat list \<Rightarrow> 'c scheduler \<Rightarrow> 'c scheduler result" where
  "allocate_encoder_inputs rid is s =
     rbind (rfold (em_allocate (objects s rid)) is (encoder_cache_manager s)) (\<lambda>em. Inr (s\<lparr>encoder_cache_manager := em\<rparr>))"

text \<open>The encoder part of admitting a request: note the inputs, allocate for them, take over the budget.\<close>

definition schedule_encoder_inputs :: "string \<Rightarrow> encoder_loop \<Rightarrow> 'c step_state \<Rightarrow> 'c step_state result" where
  "schedule_encoder_inputs rid l t =
     rbind (if el_inputs l \<noteq> []
            then rbind (allocate_encoder_inputs rid (el_inputs l) (sched t)) (\<lambda>s.
                 Inr (t\<lparr>scheduled_encoder_inputs := AList.update rid (el_inputs l) (scheduled_encoder_inputs t), sched := s,
                        encoder_compute_budget := el_budget l\<rparr>))
            else Inr t) (\<lambda>t.
     if el_external l \<noteq> []
     then rbind (allocate_encoder_inputs rid (el_external l) (sched t)) (\<lambda>s. Inr (t\<lparr>sched := s\<rparr>))
     else Inr t)"

section \<open>Running requests\<close>

text \<open>\<^verbatim>\<open>max\<close> returns the first of the largest elements.\<close>

definition victim_after :: "request \<Rightarrow> request \<Rightarrow> bool" where
  "victim_after a b \<longleftrightarrow> priority b < priority a \<or> priority a = priority b \<and> arrival_time b < arrival_time a"

fun first_max :: "('a \<Rightarrow> 'a \<Rightarrow> bool) \<Rightarrow> 'a \<Rightarrow> 'a list \<Rightarrow> 'a" where
  "first_max gt x [] = x"
| "first_max gt x (y # ys) = first_max gt (if gt y x then y else x) ys"

text \<open>A request that was scheduled earlier in this step gives back what it took.\<close>

definition unschedule :: "string \<Rightarrow> 'c step_state \<Rightarrow> 'c step_state result" where
  "unschedule v t =
     (case map_of (num_scheduled_tokens t) v of
        None \<Rightarrow> Inl KeyError
      | Some n \<Rightarrow>
          rbind (ensure (map_of (req_to_new_blocks t) v \<noteq> None) KeyError) (\<lambda>_.
          let inputs = (case map_of (scheduled_encoder_inputs t) v of None \<Rightarrow> [] | Some is \<Rightarrow> is) in
          rbind (sum_embeds (objects (sched t) v) inputs) (\<lambda>num_embeds_to_restore.
          Inr (t\<lparr>scheduled_running_reqs := remove1 v (scheduled_running_reqs t),
                 token_budget := token_budget t + n,
                 num_scheduled_tokens := AList.delete v (num_scheduled_tokens t),
                 req_to_new_blocks := AList.delete v (req_to_new_blocks t),
                 scheduled_spec_decode_tokens := AList.delete v (scheduled_spec_decode_tokens t),
                 scheduled_encoder_inputs := AList.delete v (scheduled_encoder_inputs t),
                 encoder_compute_budget := encoder_compute_budget t + num_embeds_to_restore,
                 req_index := req_index t - 1\<rparr>))))"

definition select_victim :: "sched_config \<Rightarrow> 'c step_state \<Rightarrow> (string \<times> 'c step_state) result" where
  "select_victim cfg t =
     (let s = sched t in
      case policy cfg of
        PRIORITY \<Rightarrow>
          (case running s of
             [] \<Rightarrow> Inl ValueError
           | x # xs \<Rightarrow>
               let v = first_max (\<lambda>a b. victim_after (objects s a) (objects s b)) x xs;
                   t = t\<lparr>sched := s\<lparr>running := remove1 v (running s)\<rparr>\<rparr>
               in if v \<in> set (scheduled_running_reqs t) then rbind (unschedule v t) (\<lambda>t. Inr (v, t)) else Inr (v, t))
      | FCFS \<Rightarrow>
          if running s = [] then Inl IndexError
          else Inr (last (running s), t\<lparr>sched := s\<lparr>running := butlast (running s)\<rparr>\<rparr>))"

text \<open>One round of the allocation loop: the second component is the outcome, if there is one yet.\<close>

definition allocate_round :: "sched_config \<Rightarrow> 'c sched_env \<Rightarrow> string \<Rightarrow> int \<Rightarrow> 'c step_state \<times> kv_cache_blocks option option
     \<Rightarrow> ('c step_state \<times> kv_cache_blocks option option) result" where
  "allocate_round cfg env rid num_new = (\<lambda>(t, _).
     rbind (allocate_slots (env_hash env) (objects (sched t) rid) num_new 0 None (num_lookahead_tokens cfg) 0 False 0
              (kv_cache_manager (sched t))) (\<lambda>(new_blocks, r, km).
     let t = t\<lparr>sched := set_object rid r (sched t\<lparr>kv_cache_manager := km\<rparr>)\<rparr> in
     case new_blocks of
       Some b \<Rightarrow> Inr (t, Some (Some b))
     | None \<Rightarrow>
         rbind (select_victim cfg t) (\<lambda>(v, t).
         rbind (preempt_request cfg v (sched t)) (\<lambda>s.
         Inr (t\<lparr>sched := s, preempted_reqs := preempted_reqs t @ [v]\<rparr>, if v = rid then Some None else None)))))"

definition allocate_with_preemption :: "sched_config \<Rightarrow> 'c sched_env \<Rightarrow> string \<Rightarrow> int \<Rightarrow> 'c step_state
     \<Rightarrow> ('c step_state \<times> kv_cache_blocks option option) result" where
  "allocate_with_preemption cfg env rid num_new t =
     rwhile (Suc (Suc (length (running (sched t))))) (\<lambda>(_, outcome). outcome = None) (allocate_round cfg env rid num_new) (t, None)"

definition take_spec_tokens :: "string \<Rightarrow> int \<Rightarrow> 'c step_state \<Rightarrow> 'c step_state" where
  "take_spec_tokens rid num_new t =
     (let r = objects (sched t) rid in
      if spec_token_ids r = [] then t
      else
        let n = num_new + num_computed_tokens r - int (num_tokens r) - num_output_placeholders r;
            t = (if 0 < n
                 then t\<lparr>scheduled_spec_decode_tokens := AList.update rid (take (nat n) (spec_token_ids r)) (scheduled_spec_decode_tokens t)\<rparr>
                 else t)
        in t\<lparr>sched := set_object rid (r\<lparr>spec_token_ids := []\<rparr>) (sched t)\<rparr>)"

text \<open>The number of tokens wanted for a running request, before encoder inputs and block boundaries.\<close>

definition running_num_new_tokens :: "sched_config \<Rightarrow> request \<Rightarrow> int \<Rightarrow> int" where
  "running_num_new_tokens cfg r budget =
     (let n = int (num_tokens_with_spec r) + num_output_placeholders r - num_computed_tokens r;
          n = (if 0 < long_prefill_token_threshold cfg \<and> long_prefill_token_threshold cfg < n then long_prefill_token_threshold cfg else n)
      in min (min n budget) (sched_max_model_len cfg - 1 - num_computed_tokens r))"

definition schedule_running_one :: "sched_config \<Rightarrow> 'c sched_env \<Rightarrow> 'c step_state \<Rightarrow> 'c step_state result" where
  "schedule_running_one cfg env t =
     rbind (py_index (running (sched t)) (req_index t)) (\<lambda>rid.
     let r = objects (sched t) rid in
     if 0 < num_output_placeholders r
        \<and> int (num_prompt_tokens r) + max_tokens r \<le> num_computed_tokens r + 2 - num_output_placeholders r
     then Inr (t\<lparr>req_index := req_index t + 1\<rparr>)
     else
       let num_new = running_num_new_tokens cfg r (token_budget t) in
       rbind (try_schedule_encoder_inputs cfg env r (num_computed_tokens r) num_new (encoder_compute_budget t)
                (shift_computed_tokens cfg) (encoder_cache_manager (sched t))) (\<lambda>l.
       let t = t\<lparr>sched := sched t\<lparr>encoder_cache_manager := el_cache l\<rparr>\<rparr> in
       rbind (if need_mamba_block_aligned_split cfg then mamba_block_aligned_split cfg r (el_new_tokens l) 0 0
              else Inr (el_new_tokens l)) (\<lambda>num_new.
       if num_new = 0 then Inr (t\<lparr>req_index := req_index t + 1\<rparr>)
       else
         rbind (allocate_with_preemption cfg env rid num_new t) (\<lambda>(t, outcome).
         case outcome of
           Some (Some new_blocks) \<Rightarrow>
             let t = t\<lparr>scheduled_running_reqs := scheduled_running_reqs t @ [rid],
                       req_to_new_blocks := AList.update rid new_blocks (req_to_new_blocks t),
                       num_scheduled_tokens := AList.update rid num_new (num_scheduled_tokens t),
                       token_budget := token_budget t - num_new, req_index := req_index t + 1\<rparr>
             in schedule_encoder_inputs rid l (take_spec_tokens rid num_new t)
         | _ \<Rightarrow> Inr (t\<lparr>broken := True\<rparr>)))))"

definition more_running :: "'c step_state \<Rightarrow> bool" where
  "more_running t \<longleftrightarrow> \<not> broken t \<and> req_index t < int (length (running (sched t))) \<and> 0 < token_budget t"

definition schedule_running :: "sched_config \<Rightarrow> 'c sched_env \<Rightarrow> 'c step_state \<Rightarrow> 'c step_state result" where
  "schedule_running cfg env t = rwhile (Suc (Suc (length (running (sched t))))) more_running (schedule_running_one cfg env) t"

section \<open>Waiting requests\<close>

text \<open>Taking a request out of its queue for the rest of the step.\<close>

definition skip_waiting :: "sched_config \<Rightarrow> queue_name \<Rightarrow> string \<Rightarrow> 'c step_state \<Rightarrow> 'c step_state result" where
  "skip_waiting cfg qn rid t =
     (let s = sched t in
      rbind (queue_pop (policy cfg) (objects s) (queue_of qn s)) (\<lambda>(_, q).
      Inr (t\<lparr>sched := set_queue qn q s,
             step_skipped_waiting := queue_prepend (policy cfg) (objects s) rid (step_skipped_waiting t)\<rparr>)))"

definition lora_blocked :: "sched_config \<Rightarrow> int set \<Rightarrow> request \<Rightarrow> bool" where
  "lora_blocked cfg loras r =
     (case (lora_max_loras cfg, lora_request_of r) of
        (Some max_loras, Some l) \<Rightarrow> int (card loras) = max_loras \<and> lora_int_id l \<notin> loras
      | _ \<Rightarrow> False)"

record cached_info =
  ci_blocks :: kv_cache_blocks
  ci_local :: int
  ci_external :: int
  ci_computed :: int
  ci_async :: bool
  ci_queries :: int

text \<open>
  The tokens of a request that are cached already, locally or by the connector. The result is
  \<^term>\<open>None\<close> if the connector does not know yet.
\<close>

definition get_cached_tokens :: "'c sched_env \<Rightarrow> string \<Rightarrow> 'c scheduler \<Rightarrow> (cached_info option \<times> 'c scheduler) result" where
  "get_cached_tokens env rid s =
     (let r = objects s rid in
      if num_computed_tokens r = 0
      then
        rbind (get_computed_blocks r (kv_cache_manager s)) (\<lambda>(blocks, num_local, km).
        let s = s\<lparr>kv_cache_manager := km\<rparr> in
        case connector s of
          None \<Rightarrow>
            rbind (ensure (num_local \<le> num_tokens r) AssertionError) (\<lambda>_.
            Inr (Some \<lparr>ci_blocks = blocks, ci_local = int num_local, ci_external = 0, ci_computed = int num_local,
                       ci_async = False, ci_queries = 0\<rparr>, s))
        | Some c \<Rightarrow>
            rbind (get_num_new_matched_tokens env r num_local c) (\<lambda>((ext_tokens, load_kv_async), c).
            let s = s\<lparr>connector := Some c\<rparr> in
            case ext_tokens of
              None \<Rightarrow> Inr (None, s)
            | Some ext \<Rightarrow>
                rbind (ensure (int num_local + ext \<le> int (num_tokens r)) AssertionError) (\<lambda>_.
                Inr (Some \<lparr>ci_blocks = blocks, ci_local = int num_local, ci_external = ext, ci_computed = int num_local + ext,
                           ci_async = load_kv_async, ci_queries = int (num_tokens r) - int num_local\<rparr>,
                     set_object rid (r\<lparr>num_external_computed_tokens := ext\<rparr>) s))))
      else Inr (Some \<lparr>ci_blocks = empty_kv_cache_blocks (kv_cache_manager s), ci_local = 0, ci_external = 0,
                      ci_computed = num_computed_tokens r, ci_async = False, ci_queries = 0\<rparr>, s))"

text \<open>
  The number of tokens for a waiting request and its encoder inputs; \<^term>\<open>None\<close> ends the loop.
  The encoder cache may have changed in both cases.
\<close>

definition plan_waiting :: "sched_config \<Rightarrow> 'c sched_env \<Rightarrow> request \<Rightarrow> cached_info \<Rightarrow> int \<Rightarrow> int \<Rightarrow> encoder_manager
     \<Rightarrow> (encoder_loop option \<times> encoder_manager) result" where
  "plan_waiting cfg env r ci budget enc_budget em =
     rbind (if ci_async ci
            then rbind (ensure (0 < ci_external ci) AssertionError) (\<lambda>_.
                 Inr (Some \<lparr>el_inputs = [], el_new_tokens = 0, el_budget = enc_budget, el_external = [], el_hashes = {},
                            el_embeds = 0, el_cache = em\<rparr>, em))
            else
              let n = int (num_tokens r) - ci_computed ci;
                  threshold = long_prefill_token_threshold cfg;
                  n = (if 0 < threshold \<and> threshold < n then threshold else n)
              in if \<not> enable_chunked_prefill cfg \<and> budget < n then Inr (None, em)
                 else
                   let n = min n budget in
                   rbind (ensure (0 < n) AssertionError) (\<lambda>_.
                   rbind (try_schedule_encoder_inputs cfg env r (ci_computed ci) n enc_budget (shift_computed_tokens cfg) em) (\<lambda>l.
                   if has_encoder_inputs r \<and> el_new_tokens l = 0 then Inr (None, el_cache l)
                   else Inr (Some l, el_cache l)))) (\<lambda>(plan, em).
     case plan of
       None \<Rightarrow> Inr (None, em)
     | Some l \<Rightarrow>
         if need_mamba_block_aligned_split cfg
         then rbind (mamba_block_aligned_split cfg r (el_new_tokens l) (ci_local ci) (ci_external ci)) (\<lambda>n.
              if n = 0 then Inr (None, em) else Inr (Some (l\<lparr>el_new_tokens := n\<rparr>), em))
         else Inr (Some l, em))"

text \<open>The connector is told of an allocation and the statistics record the lookup.\<close>

definition connector_after_alloc :: "'c sched_env \<Rightarrow> string \<Rightarrow> cached_info \<Rightarrow> 'c scheduler \<Rightarrow> 'c scheduler result" where
  "connector_after_alloc env rid ci s =
     (case connector s of
        None \<Rightarrow> Inr s
      | Some c \<Rightarrow>
          rbind (update_state_after_alloc env (objects s rid) (km_get_blocks rid (kv_cache_manager s)) (ci_external ci) c) (\<lambda>c.
          Inr (s\<lparr>connector := Some c,
                 connector_prefix_cache_stats := (if ci_queries ci \<noteq> 0
                   then map_option (record_stats (ci_queries ci) (ci_external ci) (0 < num_preemptions (objects s rid))) (connector_prefix_cache_stats s)
                   else connector_prefix_cache_stats s)\<rparr>)))"

text \<open>A request that has its blocks: it waits for the connector, or it runs.\<close>

definition wait_for_remote :: "sched_config \<Rightarrow> string \<Rightarrow> cached_info \<Rightarrow> 'c step_state \<Rightarrow> 'c step_state" where
  "wait_for_remote cfg rid ci t =
     (let s = sched t;
          s = set_object rid ((objects s rid)\<lparr>status := WAITING_FOR_REMOTE_KVS\<rparr>) s;
          q = queue_prepend (policy cfg) (objects s) rid (step_skipped_waiting t);
          s = set_object rid ((objects s rid)\<lparr>num_computed_tokens := ci_computed ci\<rparr>) s
      in t\<lparr>sched := s, step_skipped_waiting := q\<rparr>)"

definition start_running :: "sched_config \<Rightarrow> string \<Rightarrow> cached_info \<Rightarrow> encoder_loop \<Rightarrow> 'c step_state \<Rightarrow> 'c step_state result" where
  "start_running cfg rid ci l t =
     (let s = sched t; s = s\<lparr>running := running s @ [rid]\<rparr>; r = objects s rid in
      rbind (case status r of
               WAITING \<Rightarrow> Inr (t\<lparr>scheduled_new_reqs := scheduled_new_reqs t @ [rid]\<rparr>)
             | PREEMPTED \<Rightarrow> Inr (t\<lparr>scheduled_resumed_reqs := scheduled_resumed_reqs t @ [rid]\<rparr>)
             | _ \<Rightarrow> Inl RuntimeError) (\<lambda>t.
      let loras = (case (lora_max_loras cfg, lora_request_of r) of
                     (Some _, Some lr) \<Rightarrow> insert (lora_int_id lr) (scheduled_loras t) | _ \<Rightarrow> scheduled_loras t);
          r = r\<lparr>status := RUNNING, num_computed_tokens := ci_computed ci,
                num_cached_tokens := (if num_cached_tokens r < 0 then ci_computed ci else num_cached_tokens r)\<rparr>;
          t = t\<lparr>sched := set_object rid r s, scheduled_loras := loras,
                req_to_new_blocks := AList.update rid (km_get_blocks rid (kv_cache_manager s)) (req_to_new_blocks t),
                num_scheduled_tokens := AList.update rid (el_new_tokens l) (num_scheduled_tokens t),
                token_budget := token_budget t - el_new_tokens l\<rparr>
      in schedule_encoder_inputs rid l t))"

definition admit_waiting :: "sched_config \<Rightarrow> 'c sched_env \<Rightarrow> queue_name \<Rightarrow> string \<Rightarrow> cached_info \<Rightarrow> encoder_loop \<Rightarrow> 'c step_state
     \<Rightarrow> 'c step_state result" where
  "admit_waiting cfg env qn rid ci l t =
     (let s = sched t; r = objects s rid;
          lookahead = (if num_computed_tokens r = 0 then 0 else num_lookahead_tokens cfg) in
      rbind (if is_encoder_decoder cfg \<and> has_encoder_inputs r \<and> el_inputs l \<noteq> [] then sum_embeds r (el_inputs l) else Inr 0) (\<lambda>num_encoder_tokens.
      rbind (allocate_slots (env_hash env) r (el_new_tokens l) (ci_local ci) (Some (ci_blocks ci)) lookahead (ci_external ci) (ci_async ci)
               num_encoder_tokens (kv_cache_manager s)) (\<lambda>(new_blocks, r, km).
      let s = set_object rid r (s\<lparr>kv_cache_manager := km\<rparr>) in
      case new_blocks of
        None \<Rightarrow>
          rbind (if has_encoder_inputs r then em_free r (encoder_cache_manager s) else Inr (encoder_cache_manager s)) (\<lambda>em.
          Inr (t\<lparr>sched := s\<lparr>encoder_cache_manager := em\<rparr>, broken := True\<rparr>))
      | Some _ \<Rightarrow>
          rbind (connector_after_alloc env rid ci s) (\<lambda>s.
          rbind (queue_pop (policy cfg) (objects s) (queue_of qn s)) (\<lambda>(rid, q).
          let t = t\<lparr>sched := set_queue qn q s\<rparr> in
          if ci_async ci then Inr (wait_for_remote cfg rid ci t) else start_running cfg rid ci l t)))))"

definition schedule_waiting_one :: "sched_config \<Rightarrow> 'c sched_env \<Rightarrow> 'c step_state \<Rightarrow> 'c step_state result" where
  "schedule_waiting_one cfg env t =
     (if int (length (running (sched t))) = max_num_running_reqs cfg then Inr (t\<lparr>broken := True\<rparr>)
      else
        rbind (select_waiting_queue_for_scheduling cfg (sched t)) (\<lambda>queue.
        case queue of
          None \<Rightarrow> Inl AssertionError
        | Some qn \<Rightarrow>
            rbind (queue_peek (policy cfg) (objects (sched t)) (queue_of qn (sched t))) (\<lambda>rid.
            rbind (if is_blocked_waiting_status (status (objects (sched t) rid))
                   then try_promote_blocked_waiting_request env rid (sched t) else Inr (True, sched t)) (\<lambda>(ready, s).
            let t = t\<lparr>sched := s\<rparr> in
            if \<not> ready then skip_waiting cfg qn rid t
            else if lora_blocked cfg (scheduled_loras t) (objects s rid) then skip_waiting cfg qn rid t
            else
              rbind (get_cached_tokens env rid s) (\<lambda>(info, s).
              let t = t\<lparr>sched := s\<rparr> in
              case info of
                None \<Rightarrow> skip_waiting cfg qn rid t
              | Some ci \<Rightarrow>
                  rbind (plan_waiting cfg env (objects s rid) ci (token_budget t) (encoder_compute_budget t) (encoder_cache_manager s)) (\<lambda>(plan, em).
                  let t = t\<lparr>sched := s\<lparr>encoder_cache_manager := em\<rparr>\<rparr> in
                  case plan of
                    None \<Rightarrow> Inr (t\<lparr>broken := True\<rparr>)
                  | Some l \<Rightarrow> admit_waiting cfg env qn rid ci l t))))))"

definition more_waiting :: "'c step_state \<Rightarrow> bool" where
  "more_waiting t \<longleftrightarrow> \<not> broken t \<and> (waiting (sched t) \<noteq> [] \<or> skipped_waiting (sched t) \<noteq> []) \<and> 0 < token_budget t"

definition schedule_waiting :: "sched_config \<Rightarrow> 'c sched_env \<Rightarrow> 'c step_state \<Rightarrow> 'c step_state result" where
  "schedule_waiting cfg env t =
     rbind (rwhile (Suc (Suc (length (waiting (sched t)) + length (skipped_waiting (sched t))))) more_waiting (schedule_waiting_one cfg env) (t\<lparr>broken := False\<rparr>)) (\<lambda>t.
     if step_skipped_waiting t = [] then Inr t
     else
       rbind (queue_prepend_requests (policy cfg) (objects (sched t)) (step_skipped_waiting t) (skipped_waiting (sched t))) (\<lambda>q.
       Inr (t\<lparr>sched := sched t\<lparr>skipped_waiting := q\<rparr>\<rparr>)))"

section \<open>The output of a step\<close>

text \<open>\<^verbatim>\<open>d[k]\<close>.\<close>

definition dict_get :: "('k \<times> 'v) list \<Rightarrow> 'k \<Rightarrow> 'v result" where
  "dict_get d k = (case map_of d k of None \<Rightarrow> Inl KeyError | Some v \<Rightarrow> Inr v)"

fun rmap :: "('a \<Rightarrow> 'b result) \<Rightarrow> 'a list \<Rightarrow> 'b list result" where
  "rmap f [] = Inr []"
| "rmap f (x # xs) = rbind (f x) (\<lambda>y. rbind (rmap f xs) (\<lambda>ys. Inr (y # ys)))"

definition new_reqs_data :: "sched_config \<Rightarrow> 'c step_state \<Rightarrow> new_request_data list result" where
  "new_reqs_data cfg t =
     (let s = sched t in
      rmap (\<lambda>rid. rbind (dict_get (req_to_new_blocks t) rid) (\<lambda>b.
        Inr (NewRequestData_from_request (objects s rid)
               (case kv_blocks_get_block_ids (km_pool (kv_cache_manager s)) False b of None \<Rightarrow> [] | Some ids \<Rightarrow> ids)
               (if use_v2_model_runner cfg then Some (all_token_ids (objects s rid)) else None))))
        (scheduled_new_reqs t))"

definition cached_request_one :: "sched_config \<Rightarrow> 'c step_state \<Rightarrow> nat \<times> string \<Rightarrow> cached_request_data \<Rightarrow> cached_request_data result" where
  "cached_request_one cfg t = (\<lambda>(idx, rid) d.
     (let s = sched t; r = objects s rid; in_prev = (rid \<in> prev_step_scheduled_req_ids s);
          resumed = (length (scheduled_running_reqs t) \<le> idx) in
      rbind (if use_pp cfg \<and> \<not> async_scheduling cfg
             then rbind (dict_get (num_scheduled_tokens t) rid) (\<lambda>n.
                  let spec = (case map_of (scheduled_spec_decode_tokens t) rid of None \<Rightarrow> [] | Some ts \<Rightarrow> ts);
                      a = all_token_ids r; c = num_computed_tokens r
                  in Inr (cr_new_token_ids d @ [pyslice a (pybound a c) (pybound a (c + (n - int (length spec))))]))
             else Inr (cr_new_token_ids d)) (\<lambda>new_token_ids.
      rbind (ensure (\<not> (resumed \<and> in_prev)) AssertionError) (\<lambda>_.
      rbind (dict_get (req_to_new_blocks t) rid) (\<lambda>b.
      Inr (d\<lparr>cr_req_ids := cr_req_ids d @ [rid], cr_new_token_ids := new_token_ids,
             cr_resumed_req_ids := (if resumed then insert rid (cr_resumed_req_ids d) else cr_resumed_req_ids d),
             cr_all_token_ids := (if in_prev then cr_all_token_ids d else AList.update rid (all_token_ids r) (cr_all_token_ids d)),
             cr_new_block_ids := cr_new_block_ids d @ [kv_blocks_get_block_ids (km_pool (kv_cache_manager s)) True b],
             cr_num_computed_tokens := cr_num_computed_tokens d @ [num_computed_tokens r],
             cr_num_output_tokens := cr_num_output_tokens d @ [int (num_output_tokens r) + num_output_placeholders r]\<rparr>))))))"

definition make_cached_request_data :: "sched_config \<Rightarrow> 'c step_state \<Rightarrow> cached_request_data result" where
  "make_cached_request_data cfg t =
     rfold (cached_request_one cfg t) (enumerate 0 (scheduled_running_reqs t @ scheduled_resumed_reqs t)) CachedRequestData_make_empty"

section \<open>After the step\<close>

definition advance_request :: "sched_config \<Rightarrow> string \<times> int \<Rightarrow> 'c scheduler \<times> scheduler_output \<Rightarrow> ('c scheduler \<times> scheduler_output) result" where
  "advance_request cfg = (\<lambda>(rid, n) (s, out).
     (case get_request rid s of
        None \<Rightarrow> Inl KeyError
      | Some r \<Rightarrow>
          let computed = num_computed_tokens r + n;
              r = r\<lparr>num_computed_tokens := computed,
                    is_prefill_chunk := computed < int (num_tokens r) + num_output_placeholders r\<rparr>;
              s = set_object rid r s;
              out = out\<lparr>out_has_structured_output_requests := (out_has_structured_output_requests out
                     \<or> use_structured_output r \<and> \<not> is_prefill_chunk r)\<rparr>
          in rbind (if has_encoder_inputs r then free_encoder_inputs cfg rid s else Inr s) (\<lambda>s. Inr (s, out))))"

text \<open>\<^verbatim>\<open>AsyncScheduler._update_after_schedule\<close> adds placeholders for the tokens to come.\<close>

definition add_placeholders :: "sched_config \<Rightarrow> string \<times> int \<Rightarrow> 'c scheduler \<times> scheduler_output \<Rightarrow> ('c scheduler \<times> scheduler_output) result" where
  "add_placeholders cfg = (\<lambda>(rid, _) (s, out).
     (case get_request rid s of
        None \<Rightarrow> Inl KeyError
      | Some r \<Rightarrow>
          if is_prefill_chunk r then Inr (s, out)
          else
            let spec = (case map_of (out_spec_decode_tokens out) rid of None \<Rightarrow> [] | Some ts \<Rightarrow> ts);
                out = out\<lparr>out_pending_structured_output_tokens := (out_pending_structured_output_tokens out
                       \<or> use_structured_output r \<and> 0 < num_output_placeholders r)\<rparr>
            in Inr (set_object rid (r\<lparr>num_output_placeholders := num_output_placeholders r + 1 + int (length spec),
                      spec_token_ids := replicate (nat (num_spec_tokens cfg)) (- 1)\<rparr>) s, out)))"

definition update_after_schedule :: "sched_config \<Rightarrow> scheduler_output \<Rightarrow> 'c scheduler \<Rightarrow> ('c scheduler \<times> scheduler_output) result" where
  "update_after_schedule cfg out s =
     rbind (rfold (advance_request cfg) (out_num_scheduled_tokens out) (s, out)) (\<lambda>(s, out).
     let s = s\<lparr>finished_req_ids := {}\<rparr> in
     if async_scheduling cfg then rfold (add_placeholders cfg) (out_num_scheduled_tokens out) (s, out) else Inr (s, out))"

section \<open>schedule\<close>

definition new_step :: "sched_config \<Rightarrow> 'c scheduler \<Rightarrow> 'c step_state" where
  "new_step cfg s =
     \<lparr>sched = s\<lparr>kv_cache_manager := km_new_step_starts (kv_cache_manager s)\<rparr>, scheduled_new_reqs = [], scheduled_resumed_reqs = [],
      scheduled_running_reqs = [], preempted_reqs = [], req_to_new_blocks = [], num_scheduled_tokens = [],
      token_budget = (if pause s = PAUSED_ALL then 0 else max_num_scheduled_tokens cfg), scheduled_encoder_inputs = [],
      encoder_compute_budget = sched_encoder_budget cfg, scheduled_spec_decode_tokens = [], req_index = 0, broken = False,
      scheduled_loras = {}, step_skipped_waiting = []\<rparr>"

text \<open>The adapters of the running requests, with the check that they fit.\<close>

definition collect_loras :: "sched_config \<Rightarrow> 'c step_state \<Rightarrow> 'c step_state result" where
  "collect_loras cfg t =
     (case lora_max_loras cfg of
        None \<Rightarrow> Inr t
      | Some m \<Rightarrow>
          let ids = concat (map (\<lambda>rid. case lora_request_of (objects (sched t) rid) of
                        Some l \<Rightarrow> if 0 < lora_int_id l then [lora_int_id l] else [] | None \<Rightarrow> []) (scheduled_running_reqs t))
          in rbind (ensure (int (card (set ids)) \<le> m) AssertionError) (\<lambda>_. Inr (t\<lparr>scheduled_loras := set ids\<rparr>)))"

definition schedule_requests :: "sched_config \<Rightarrow> 'c sched_env \<Rightarrow> 'c scheduler \<Rightarrow> 'c step_state result" where
  "schedule_requests cfg env s =
     rbind (schedule_running cfg env (new_step cfg s)) (\<lambda>t.
     rbind (collect_loras cfg t) (\<lambda>t.
     if preempted_reqs t = [] \<and> pause (sched t) = UNPAUSED then schedule_waiting cfg env t else Inr t))"

text \<open>The constraints that the method asserts of a step.\<close>

definition constraints_ok :: "sched_config \<Rightarrow> 'c step_state \<Rightarrow> bool" where
  "constraints_ok cfg t \<longleftrightarrow> sum_list (map snd (num_scheduled_tokens t)) \<le> max_num_scheduled_tokens cfg
     \<and> 0 \<le> token_budget t \<and> int (length (running (sched t))) \<le> max_num_running_reqs cfg
     \<and> length (scheduled_new_reqs t) + length (scheduled_resumed_reqs t) + length (scheduled_running_reqs t) \<le> length (running (sched t))"

definition make_output :: "sched_config \<Rightarrow> 'c step_state \<Rightarrow> (scheduler_output \<times> 'c scheduler) result" where
  "make_output cfg t =
     rbind (case running (sched t) of
              [] \<Rightarrow> Inr (replicate (num_groups cfg) 0, kv_cache_manager (sched t))
            | rid # _ \<Rightarrow> km_get_num_common_prefix_blocks rid (kv_cache_manager (sched t))) (\<lambda>(common, km).
     let t = t\<lparr>sched := sched t\<lparr>kv_cache_manager := km\<rparr>\<rparr>;
         t = (if use_v2_model_runner cfg
              then t\<lparr>scheduled_new_reqs := scheduled_new_reqs t @ scheduled_resumed_reqs t, scheduled_resumed_reqs := []\<rparr> else t)
     in
     rbind (new_reqs_data cfg t) (\<lambda>new_data.
     rbind (make_cached_request_data cfg t) (\<lambda>cached_data.
     let s = sched t\<lparr>prev_step_scheduled_req_ids := set (map fst (num_scheduled_tokens t))\<rparr>;
         (to_zero, km) = (if needs_kv_cache_zeroing cfg
            then let (ids, km) = km_take_new_block_ids (kv_cache_manager s) in (if ids = [] then None else Some ids, km)
            else (None, kv_cache_manager s));
         (freed, em) = em_get_freed_mm_hashes (encoder_cache_manager s);
         s = s\<lparr>kv_cache_manager := km, encoder_cache_manager := em\<rparr>
     in Inr (\<lparr>out_new_reqs = new_data, out_cached_reqs = cached_data, out_num_scheduled_tokens = num_scheduled_tokens t,
              out_total_num_scheduled_tokens = sum_list (map snd (num_scheduled_tokens t)),
              out_spec_decode_tokens = scheduled_spec_decode_tokens t, out_encoder_inputs = scheduled_encoder_inputs t,
              out_num_common_prefix_blocks = common, out_finished_req_ids = finished_req_ids s,
              out_free_encoder_mm_hashes = freed, out_preempted_req_ids = set (preempted_reqs t),
              out_has_structured_output_requests = False, out_pending_structured_output_tokens = False,
              out_num_invalid_spec_tokens = None, out_new_block_ids_to_zero = to_zero\<rparr>, s))))"

definition schedule :: "sched_config \<Rightarrow> 'c sched_env \<Rightarrow> 'c scheduler \<Rightarrow> (scheduler_output \<times> 'c scheduler) result" where
  "schedule cfg env s =
     rbind (schedule_requests cfg env s) (\<lambda>t.
     rbind (ensure (constraints_ok cfg t) AssertionError) (\<lambda>_.
     rbind (make_output cfg t) (\<lambda>(out, s).
     rbind (update_after_schedule cfg out (s\<lparr>connector := map_option (build_connector_meta env out) (connector s)\<rparr>)) (\<lambda>(s, out).
     Inr (out, s)))))"

end
