(* ===== verification/Sched_Output.thy ===== *)
theory Sched_Output
  imports Sched_Step
begin

text \<open>
  Processing of model output, \<^verbatim>\<open>Scheduler.update_from_output\<close> of \<^verbatim>\<open>src/vllm/v1/core/sched/scheduler.py\<close> with
  the methods it calls and the override of \<^verbatim>\<open>async_scheduler.py\<close>: new tokens are appended until a
  request stops, stopped requests are freed or wait for the next part of their session,
  rejected draft tokens are taken back, and failed loads of remote blocks are handled.
  Log probabilities, events and performance statistics are passed through in the source and are
  left out; pooling output is opaque.
\<close>

section \<open>Data\<close>

record model_runner_output =
  req_id_to_index :: "(string \<times> nat) list"
  sampled_token_ids :: "int list list"
  pooler_output :: "bytes option list"
  prompt_logprobs_ids :: "string set"
  nans_in_logits :: "(string \<times> int) list option"
  kv_output :: "kv_connector_output option"

record engine_core_output =
  eo_request_id :: string
  eo_new_token_ids :: "int list"
  eo_finish_reason :: "finish_reason option"
  eo_pooling_output :: "bytes option"
  eo_stop_reason :: "stop_reason option"
  eo_kv_transfer_params :: "string option"
  eo_num_cached_tokens :: int
  eo_num_external_computed_tokens :: int
  eo_num_nans_in_logits :: int

record spec_decoding_stats =
  stats_num_spec_tokens :: int
  num_drafts :: int
  num_draft_tokens :: int
  num_accepted_tokens :: int
  num_accepted_tokens_per_pos :: "int list"

definition SpecDecodingStats_new :: "int \<Rightarrow> spec_decoding_stats" where
  "SpecDecodingStats_new n = \<lparr>stats_num_spec_tokens = n, num_drafts = 0, num_draft_tokens = 0, num_accepted_tokens = 0,
     num_accepted_tokens_per_pos = replicate (nat n) 0\<rparr>"

definition observe_draft :: "int \<Rightarrow> int \<Rightarrow> spec_decoding_stats \<Rightarrow> spec_decoding_stats result" where
  "observe_draft drafted accepted st =
     (let st = st\<lparr>num_drafts := num_drafts st + 1, num_draft_tokens := num_draft_tokens st + drafted,
                  num_accepted_tokens := num_accepted_tokens st + accepted\<rparr>
      in rbind (ensure (accepted \<le> stats_num_spec_tokens st) AssertionError) (\<lambda>_.
         rfold (\<lambda>i st. rbind (py_index (num_accepted_tokens_per_pos st) (int i)) (\<lambda>n.
                Inr (st\<lparr>num_accepted_tokens_per_pos := (num_accepted_tokens_per_pos st)[i := n + 1]\<rparr>)))
           [0..<nat accepted] st))"

definition make_spec_decoding_stats :: "sched_config \<Rightarrow> spec_decoding_stats option \<Rightarrow> int \<Rightarrow> int \<Rightarrow> (string \<times> int) list option \<Rightarrow> string
     \<Rightarrow> spec_decoding_stats option result" where
  "make_spec_decoding_stats cfg st drafted accepted invalid rid =
     (if \<not> sched_log_stats cfg \<or> drafted = 0 then Inr None
      else
        let st = (case st of None \<Rightarrow> SpecDecodingStats_new (num_spec_tokens cfg) | Some st \<Rightarrow> st);
            drafted = (case invalid of None \<Rightarrow> drafted | Some d \<Rightarrow> drafted - (case map_of d rid of None \<Rightarrow> 0 | Some n \<Rightarrow> n))
        in rbind (observe_draft drafted accepted st) (\<lambda>st. Inr (Some st)))"

record scheduler_stats =
  num_running_reqs :: nat
  num_waiting_reqs :: nat
  kv_cache_usage :: rat
  encoder_cache_usage :: rat
  stats_prefix_cache :: "prefix_cache_stats option"
  stats_connector_prefix_cache :: "prefix_cache_stats option"
  stats_spec_decoding :: "spec_decoding_stats option"

fun get_encoder_cache_usage :: "encoder_manager \<Rightarrow> rat" where
  "get_encoder_cache_usage (Enc c) =
     (if cache_size c = 0 then 0 else of_int (cache_size c - num_free_slots c) / of_int (cache_size c))"
| "get_encoder_cache_usage (EncDec c) =
     (if ed_cache_size c = 0 then 0 else of_int (ed_cache_size c - ed_num_free_slots c) / of_int (ed_cache_size c))"

definition make_stats :: "sched_config \<Rightarrow> spec_decoding_stats option \<Rightarrow> 'c scheduler \<Rightarrow> (scheduler_stats option \<times> 'c scheduler) result" where
  "make_stats cfg spec s =
     (if \<not> sched_log_stats cfg then Inr (None, s)
      else
        let (prefix_stats, km) = make_prefix_cache_stats (kv_cache_manager s) in
        rbind (ensure (prefix_stats \<noteq> None) AssertionError) (\<lambda>_.
        let s' = s\<lparr>kv_cache_manager := km,
                   connector_prefix_cache_stats := map_option (\<lambda>_. PrefixCacheStats) (connector_prefix_cache_stats s)\<rparr>
        in Inr (Some \<lparr>num_running_reqs = length (running s), num_waiting_reqs = length (waiting s) + length (skipped_waiting s),
             kv_cache_usage = usage km, encoder_cache_usage = get_encoder_cache_usage (encoder_cache_manager s),
             stats_prefix_cache = prefix_stats, stats_connector_prefix_cache = connector_prefix_cache_stats s,
             stats_spec_decoding = spec\<rparr>, s')))"

record engine_core_outputs =
  eco_outputs :: "engine_core_output list"
  eco_finished_requests :: "string set option"
  eco_scheduler_stats :: "scheduler_stats option"

section \<open>New tokens of a request\<close>

fun append_until_stop :: "hash_env \<Rightarrow> int \<Rightarrow> int list \<Rightarrow> int list \<Rightarrow> request \<Rightarrow> (int list \<times> bool \<times> request) result" where
  "append_until_stop env max_len [] new r = Inr (new, False, r)"
| "append_until_stop env max_len (x # xs) new r =
     rbind (append_output_token_ids env [x] r) (\<lambda>r.
     rbind (check_stop r max_len) (\<lambda>(stopped, r).
     if stopped then Inr (new @ [x], True, r) else append_until_stop env max_len xs (new @ [x]) r))"

text \<open>The method of the base class and its override for asynchronous scheduling.\<close>

definition update_request_with_output :: "sched_config \<Rightarrow> 'c sched_env \<Rightarrow> string \<Rightarrow> int list \<Rightarrow> 'c scheduler
     \<Rightarrow> (int list \<times> bool \<times> 'c scheduler) result" where
  "update_request_with_output cfg env rid new_token_ids s =
     (let r = objects s rid in
      if \<not> async_scheduling cfg
      then rbind (append_until_stop (env_hash env) (sched_max_model_len cfg) new_token_ids [] r) (\<lambda>(new_ids, stopped, r).
           Inr (new_ids, stopped, set_object rid r s))
      else if discard_latest_async_tokens r
      then Inr ([], False, set_object rid (r\<lparr>discard_latest_async_tokens := False\<rparr>) s)
      else
        rbind (append_until_stop (env_hash env) (sched_max_model_len cfg) new_token_ids [] r) (\<lambda>(new_ids, stopped, r').
        let r' = r'\<lparr>num_output_placeholders := num_output_placeholders r' - int (length new_ids)\<rparr> in
        rbind (ensure (0 \<le> num_output_placeholders r') AssertionError) (\<lambda>_.
        rbind (if status r = RUNNING
               then km_cache_blocks (env_hash env) r' (num_computed_tokens r' - num_output_placeholders r') (kv_cache_manager s)
               else Inr (r', kv_cache_manager s)) (\<lambda>(r', km).
        Inr (new_ids, stopped, set_object rid r' (s\<lparr>kv_cache_manager := km\<rparr>))))))"

section \<open>Failed loads of remote blocks\<close>

record invalid_scan =
  is_affected :: bool
  marked_invalid_block :: bool
  marked_invalid_block_ids :: "int set"
  scan_request :: request
  total_affected_tokens :: int
  blocks_to_evict :: "int set"

definition scan_block :: "nat \<Rightarrow> int set \<Rightarrow> bool \<Rightarrow> int list \<Rightarrow> int \<Rightarrow> nat \<times> int \<Rightarrow> invalid_scan \<Rightarrow> invalid_scan" where
  "scan_block block_size invalid evict req_block_ids req_num_computed = (\<lambda>(idx, block_id) sc.
     (if block_id \<notin> invalid then sc
      else
        let sc = sc\<lparr>is_affected := True\<rparr> in
        if block_id \<in> marked_invalid_block_ids sc then sc
        else
          let sc = sc\<lparr>marked_invalid_block_ids := insert block_id (marked_invalid_block_ids sc)\<rparr> in
          if marked_invalid_block sc then sc
          else
            let computed = int (idx * block_size); num_affected = req_num_computed - computed; r = scan_request sc
            in sc\<lparr>marked_invalid_block := True,
                  scan_request := r\<lparr>num_computed_tokens := computed,
                    num_external_computed_tokens := num_external_computed_tokens r - num_affected\<rparr>,
                  total_affected_tokens := total_affected_tokens sc + num_affected,
                  blocks_to_evict := (if evict then blocks_to_evict sc \<union> set (drop idx req_block_ids) else blocks_to_evict sc)\<rparr>))"

text \<open>One request of the loop; the state carries the ids found so far and the sets of blocks.\<close>

definition scan_one :: "sched_config \<Rightarrow> int set \<Rightarrow> bool \<Rightarrow> string \<Rightarrow> string list \<times> int \<times> int set \<times> int set \<times> 'c scheduler
     \<Rightarrow> (string list \<times> int \<times> int set \<times> int set \<times> 'c scheduler) result" where
  "scan_one cfg invalid evict rid = (\<lambda>(affected, total, to_evict, marked, s).
     (let r = objects s rid; bs = sched_block_size cfg in
      case km_get_block_ids rid (kv_cache_manager s) of
        [req_block_ids] \<Rightarrow>
          let n = (if status r = WAITING_FOR_REMOTE_KVS then num_computed_tokens r else num_cached_tokens r) in
          if bs = 0 then Inl ZeroDivisionError
          else
            let num_blocks = (n + int bs - 1) div int bs;
                sc = fold (scan_block bs invalid evict req_block_ids n) (enumerate 0 (take (nat num_blocks) req_block_ids))
                       \<lparr>is_affected = False, marked_invalid_block = False, marked_invalid_block_ids = marked, scan_request = r,
                        total_affected_tokens = total, blocks_to_evict = to_evict\<rparr>;
                r = scan_request sc
            in if is_affected sc
               then if marked_invalid_block sc
                    then Inr (affected @ [rid], total_affected_tokens sc, blocks_to_evict sc, marked_invalid_block_ids sc, set_object rid r s)
                    else Inr (affected @ [rid], total_affected_tokens sc + (num_computed_tokens r - num_cached_tokens r), blocks_to_evict sc,
                              marked_invalid_block_ids sc, set_object rid (r\<lparr>num_computed_tokens := num_cached_tokens r\<rparr>) s)
               else Inr (affected, total_affected_tokens sc, blocks_to_evict sc, marked_invalid_block_ids sc, s)
      | _ \<Rightarrow> Inl ValueError))"

definition update_requests_with_invalid_blocks :: "sched_config \<Rightarrow> string list \<Rightarrow> int set \<Rightarrow> bool \<Rightarrow> 'c scheduler
     \<Rightarrow> (string list \<times> int \<times> int set \<times> 'c scheduler) result" where
  "update_requests_with_invalid_blocks cfg rids invalid evict s =
     rbind (rfold (scan_one cfg invalid evict) rids ([], 0, {}, {}, s)) (\<lambda>(affected, total, to_evict, _, s).
     Inr (affected, total, to_evict, s))"

definition handle_invalid_blocks :: "sched_config \<Rightarrow> int set \<Rightarrow> 'c scheduler \<Rightarrow> (string list \<times> 'c scheduler) result" where
  "handle_invalid_blocks cfg invalid s =
     rbind (queue_iter (policy cfg) (objects s) (skipped_waiting s)) (\<lambda>skipped.
     rbind (update_requests_with_invalid_blocks cfg (filter (\<lambda>rid. status (objects s rid) = WAITING_FOR_REMOTE_KVS) skipped) invalid False s)
       (\<lambda>(async_failed, _, _, s).
     rbind (update_requests_with_invalid_blocks cfg (running s) invalid True s) (\<lambda>(sync_failed, _, to_evict, s).
     if async_failed = [] \<and> sync_failed = [] then Inr ([], s)
     else
       rbind (if to_evict \<noteq> {} \<and> \<not> recompute_kv_load_failures cfg
              then km_evict_blocks (sorted_list_of_set to_evict) (kv_cache_manager s) else Inr (kv_cache_manager s)) (\<lambda>km.
       let s = s\<lparr>kv_cache_manager := km\<rparr> in
       if \<not> recompute_kv_load_failures cfg then Inr (async_failed @ sync_failed, s)
       else Inr (sync_failed, s\<lparr>failed_recving_kv_req_ids := failed_recving_kv_req_ids s \<union> set async_failed\<rparr>)))))"

definition finished_recving_one :: "string \<Rightarrow> 'c scheduler \<Rightarrow> 'c scheduler result" where
  "finished_recving_one rid s =
     (case get_request rid s of
        None \<Rightarrow> Inl AssertionError
      | Some r \<Rightarrow>
          if status r = WAITING_FOR_REMOTE_KVS
          then Inr (s\<lparr>finished_recving_kv_req_ids := insert rid (finished_recving_kv_req_ids s)\<rparr>)
          else rbind (ensure (status_is_finished (status r)) AssertionError) (\<lambda>_. free_blocks_of rid s))"

definition finished_sending_one :: "string \<Rightarrow> 'c scheduler \<Rightarrow> 'c scheduler result" where
  "finished_sending_one rid s = rbind (ensure (rid \<in> set (requests s)) AssertionError) (\<lambda>_. free_blocks_of rid s)"

definition update_from_kv_xfer_finished :: "'c sched_env \<Rightarrow> kv_connector_output \<Rightarrow> 'c scheduler \<Rightarrow> 'c scheduler result" where
  "update_from_kv_xfer_finished env kvo s =
     rbind (case connector s of
              None \<Rightarrow> Inr s
            | Some c \<Rightarrow> rbind (update_connector_output env kvo c) (\<lambda>c. Inr (s\<lparr>connector := Some c\<rparr>))) (\<lambda>s.
     rbind (rfold finished_recving_one (finished_recving kvo) s) (\<lambda>s.
     rfold finished_sending_one (finished_sending kvo) s))"

section \<open>update_from_output\<close>

record 'c update_state =
  us_sched :: "'c scheduler"
  us_outputs :: "(int \<times> engine_core_output list) list"
  us_spec_stats :: "spec_decoding_stats option"
  stopped_running_reqs :: "string list"
  stopped_preempted_reqs :: "string list"

definition add_output :: "int \<Rightarrow> engine_core_output \<Rightarrow> (int \<times> engine_core_output list) list \<Rightarrow> (int \<times> engine_core_output list) list" where
  "add_output ci x outs = AList.update ci ((case map_of outs ci of None \<Rightarrow> [] | Some xs \<Rightarrow> xs) @ [x]) outs"

text \<open>Draft tokens that were rejected are not computed after all.\<close>

definition reject_drafts :: "sched_config \<Rightarrow> scheduler_output \<Rightarrow> string \<Rightarrow> int list \<Rightarrow> 'c update_state \<Rightarrow> 'c update_state result" where
  "reject_drafts cfg out rid generated u =
     (let spec = (case map_of (out_spec_decode_tokens out) rid of None \<Rightarrow> [] | Some ts \<Rightarrow> ts) in
      if spec \<noteq> [] \<and> generated \<noteq> []
      then
        let drafts = int (length spec); accepted = int (length generated) - 1; rejected = drafts - accepted;
            r = objects (us_sched u) rid;
            r = (if 0 < num_computed_tokens r then r\<lparr>num_computed_tokens := num_computed_tokens r - rejected\<rparr> else r);
            r = (if 0 < num_output_placeholders r then r\<lparr>num_output_placeholders := num_output_placeholders r - rejected\<rparr> else r)
        in rbind (make_spec_decoding_stats cfg (us_spec_stats u) drafts accepted (out_num_invalid_spec_tokens out) rid) (\<lambda>st.
           Inr (u\<lparr>us_sched := set_object rid r (us_sched u), us_spec_stats := st\<rparr>))
      else Inr u)"

text \<open>Tokens are appended, or pooling output ends the request.\<close>

definition apply_tokens :: "sched_config \<Rightarrow> 'c sched_env \<Rightarrow> string \<Rightarrow> int list \<Rightarrow> bytes option \<Rightarrow> 'c scheduler
     \<Rightarrow> (int list \<times> bool \<times> 'c scheduler) result" where
  "apply_tokens cfg env rid generated pooled s =
     (let r = objects s rid in
      if generated \<noteq> [] then update_request_with_output cfg env rid generated s
      else if pooling_params_of r \<noteq> None \<and> pooled \<noteq> None
      then Inr (generated, True, set_object rid (r\<lparr>status := FINISHED_STOPPED\<rparr>) s)
      else Inr (generated, False, s))"

text \<open>A stopped request is freed, unless it is a session that continues.\<close>

definition settle_stopped :: "sched_config \<Rightarrow> 'c sched_env \<Rightarrow> string \<Rightarrow> request_status \<Rightarrow> 'c update_state \<Rightarrow> (string option \<times> 'c update_state) result" where
  "settle_stopped cfg env rid status_before u =
     rbind (handle_stopped_request cfg env rid (us_sched u)) (\<lambda>(finished, s).
     rbind (if finished then free_request cfg env rid False s else Inr (None, s)) (\<lambda>(params, s).
     let u = u\<lparr>us_sched := s\<rparr> in
     Inr (params, if status_before = RUNNING then u\<lparr>stopped_running_reqs := stopped_running_reqs u @ [rid]\<rparr>
                  else u\<lparr>stopped_preempted_reqs := stopped_preempted_reqs u @ [rid]\<rparr>)))"

definition process_request :: "sched_config \<Rightarrow> 'c sched_env \<Rightarrow> scheduler_output \<Rightarrow> model_runner_output \<Rightarrow> string list \<Rightarrow> string \<times> int
     \<Rightarrow> 'c update_state \<Rightarrow> 'c update_state result" where
  "process_request cfg env out mro failed = (\<lambda>(rid, num_tokens_scheduled) u.
     rbind (ensure (0 < num_tokens_scheduled) AssertionError) (\<lambda>_.
     if rid \<in> set failed then Inr u
     else
       (case get_request rid (us_sched u) of
          None \<Rightarrow> Inr u
        | Some r \<Rightarrow>
            if is_finished r then Inr u
            else
              rbind (dict_get (req_id_to_index mro) rid) (\<lambda>idx.
              rbind (if sampled_token_ids mro \<noteq> [] then py_index (sampled_token_ids mro) (int idx) else Inr []) (\<lambda>generated.
              rbind (reject_drafts cfg out rid generated u) (\<lambda>u.
              rbind (if pooler_output mro \<noteq> [] then py_index (pooler_output mro) (int idx) else Inr None) (\<lambda>pooled.
              let status_before = status (objects (us_sched u) rid) in
              rbind (apply_tokens cfg env rid generated pooled (us_sched u)) (\<lambda>(new_ids, stopped, s).
              let u = u\<lparr>us_sched := s\<rparr>; reason = get_finished_reason (objects s rid) in
              rbind (if stopped then settle_stopped cfg env rid status_before u else Inr (None, u)) (\<lambda>(params, u).
              let r = objects (us_sched u) rid in
              rbind (ensure (new_ids \<noteq> [] \<and> should_advance env r \<longrightarrow> structured_output_request r \<and> grammar_ready env r) AssertionError) (\<lambda>_.
              let r = (case nans_in_logits mro of
                         None \<Rightarrow> r | Some d \<Rightarrow> (case map_of d rid of None \<Rightarrow> r | Some n \<Rightarrow> r\<lparr>num_nans_in_logits := n\<rparr>));
                  u = u\<lparr>us_sched := set_object rid r (us_sched u)\<rparr>
              in
              if new_ids \<noteq> [] \<or> pooled \<noteq> None \<or> stopped
              then Inr (u\<lparr>us_outputs := add_output (client_index r)
                     \<lparr>eo_request_id = rid, eo_new_token_ids = new_ids, eo_finish_reason = (if stopped then reason else None),
                      eo_pooling_output = pooled, eo_stop_reason = stop_reason_of r, eo_kv_transfer_params = params,
                      eo_num_cached_tokens = num_cached_tokens r, eo_num_external_computed_tokens = num_external_computed_tokens r,
                      eo_num_nans_in_logits = num_nans_in_logits r\<rparr> (us_outputs u)\<rparr>)
              else rbind (ensure (rid \<notin> prompt_logprobs_ids mro) AssertionError) (\<lambda>_. Inr u)))))))))))"

definition remove_stopped :: "sched_config \<Rightarrow> 'c update_state \<Rightarrow> 'c scheduler" where
  "remove_stopped cfg u =
     (let s = us_sched u;
          s = (if stopped_running_reqs u \<noteq> [] then s\<lparr>running := remove_all (running s) (stopped_running_reqs u)\<rparr> else s)
      in if stopped_preempted_reqs u \<noteq> []
         then s\<lparr>waiting := queue_remove_requests (policy cfg) (objects s) (stopped_preempted_reqs u) (waiting s)\<rparr> else s)"

text \<open>Requests whose remote blocks failed to load are finished, when the policy says so.\<close>

definition fail_requests :: "sched_config \<Rightarrow> 'c sched_env \<Rightarrow> string list \<Rightarrow> 'c update_state \<Rightarrow> 'c update_state result" where
  "fail_requests cfg env failed u =
     (if failed = [] \<or> recompute_kv_load_failures cfg then Inr u
      else
        rbind (ensure (set failed \<subseteq> set (requests (us_sched u))) KeyError) (\<lambda>_.
        rbind (finish_requests cfg env (Some failed) FINISHED_ERROR (us_sched u)) (\<lambda>(_, s).
        Inr (u\<lparr>us_sched := s, us_outputs := fold (\<lambda>rid outs. let r = objects s rid in
              add_output (client_index r) \<lparr>eo_request_id = rid, eo_new_token_ids = [], eo_finish_reason = get_finished_reason r,
                eo_pooling_output = None, eo_stop_reason = None, eo_kv_transfer_params = None, eo_num_cached_tokens = num_cached_tokens r,
                eo_num_external_computed_tokens = 0, eo_num_nans_in_logits = 0\<rparr> outs) failed (us_outputs u)\<rparr>))))"

definition client_outputs :: "(int \<times> engine_core_output list) list \<Rightarrow> (int \<times> string set) list option \<Rightarrow> (int \<times> engine_core_outputs) list" where
  "client_outputs outs finished =
     (let ecos = map (\<lambda>(ci, xs). (ci, \<lparr>eco_outputs = xs, eco_finished_requests = None, eco_scheduler_stats = None\<rparr>)) outs
      in case finished of
           None \<Rightarrow> ecos
         | Some d \<Rightarrow> fold (\<lambda>(ci, ids) ecos.
             AList.update ci (case map_of ecos ci of
                 Some eco \<Rightarrow> eco\<lparr>eco_finished_requests := Some ids\<rparr>
               | None \<Rightarrow> \<lparr>eco_outputs = [], eco_finished_requests = Some ids, eco_scheduler_stats = None\<rparr>) ecos) d ecos)"

definition attach_stats :: "scheduler_stats option \<Rightarrow> (int \<times> engine_core_outputs) list \<Rightarrow> (int \<times> engine_core_outputs) list" where
  "attach_stats st ecos =
     (case st of
        None \<Rightarrow> ecos
      | Some _ \<Rightarrow> (case ecos of
          [] \<Rightarrow> [(0, \<lparr>eco_outputs = [], eco_finished_requests = None, eco_scheduler_stats = st\<rparr>)]
        | (ci, eco) # rest \<Rightarrow> (ci, eco\<lparr>eco_scheduler_stats := st\<rparr>) # rest))"

definition update_from_output :: "sched_config \<Rightarrow> 'c sched_env \<Rightarrow> scheduler_output \<Rightarrow> model_runner_output \<Rightarrow> 'c scheduler
     \<Rightarrow> ((int \<times> engine_core_outputs) list \<times> 'c scheduler) result" where
  "update_from_output cfg env out mro s =
     rbind (case kv_output mro of
              None \<Rightarrow> Inr ([], s)
            | Some kvo \<Rightarrow> if invalid_block_ids kvo = {} then Inr ([], s) else handle_invalid_blocks cfg (invalid_block_ids kvo) s) (\<lambda>(failed, s).
     rbind (rfold (process_request cfg env out mro failed) (out_num_scheduled_tokens out)
              \<lparr>us_sched = s, us_outputs = [], us_spec_stats = None, stopped_running_reqs = [], stopped_preempted_reqs = []\<rparr>) (\<lambda>u.
     rbind (fail_requests cfg env failed (u\<lparr>us_sched := remove_stopped cfg u\<rparr>)) (\<lambda>u.
     rbind (case kv_output mro of None \<Rightarrow> Inr (us_sched u) | Some kvo \<Rightarrow> update_from_kv_xfer_finished env kvo (us_sched u)) (\<lambda>s.
     let s = s\<lparr>kv_cache_manager := snd (km_take_events (kv_cache_manager s))\<rparr>;
         ecos = client_outputs (us_outputs u) (finished_req_ids_dict s);
         s = s\<lparr>finished_req_ids_dict := map_option (\<lambda>_. []) (finished_req_ids_dict s)\<rparr>
     in rbind (make_stats cfg (us_spec_stats u) s) (\<lambda>(st, s). Inr (attach_stats st ecos, s))))))"

section \<open>Draft tokens in the output\<close>

definition update_draft_in_output :: "'c sched_env \<Rightarrow> 'c scheduler \<Rightarrow> string \<times> int list
     \<Rightarrow> (string \<times> int list) list \<times> (string \<times> int) list \<Rightarrow> (string \<times> int list) list \<times> (string \<times> int) list" where
  "update_draft_in_output env s = (\<lambda>(rid, spec) (sched_spec, invalid).
     (case get_request rid s of
        None \<Rightarrow> (sched_spec, invalid)
      | Some r \<Rightarrow>
          if is_finished r then (sched_spec, invalid)
          else
            (case map_of sched_spec rid of
               None \<Rightarrow> (sched_spec, invalid)
             | Some placeholders \<Rightarrow>
                 if placeholders = [] then (sched_spec, invalid)
                 else
                   let n = length placeholders;
                       spec = take n spec;
                       spec = (if should_advance env r then validate_tokens env r spec else spec);
                       num_invalid = int n - int (length spec)
                   in if num_invalid = 0 then (AList.update rid spec sched_spec, invalid)
                      else (AList.update rid (spec @ replicate (nat num_invalid) (- 1)) sched_spec, AList.update rid num_invalid invalid))))"

definition update_draft_token_ids_in_output :: "'c sched_env \<Rightarrow> string list \<Rightarrow> int list list \<Rightarrow> scheduler_output \<Rightarrow> 'c scheduler \<Rightarrow> scheduler_output" where
  "update_draft_token_ids_in_output env req_ids drafts out s =
     (let (spec, invalid) = fold (update_draft_in_output env s) (zip req_ids drafts) (out_spec_decode_tokens out, [])
      in out\<lparr>out_spec_decode_tokens := spec, out_num_invalid_spec_tokens := Some invalid\<rparr>)"

text \<open>The ids, in order, of the rows of the grammar bitmask.\<close>

definition structured_output_request_ids :: "scheduler_output \<Rightarrow> 'c scheduler \<Rightarrow> string list" where
  "structured_output_request_ids out s =
     (if \<not> out_has_structured_output_requests out then []
      else filter (\<lambda>rid. case get_request rid s of None \<Rightarrow> False
             | Some r \<Rightarrow> use_structured_output r \<and> \<not> is_prefill_chunk r) (map fst (out_num_scheduled_tokens out)))"

end
