(* ===== verification/Sched_Queues.thy ===== *)
theory Sched_Queues
  imports Sched_Output
begin

text \<open>
  What the scheduler keeps of its queues: every request that is not finished is in exactly one
  of the running list and the two waiting queues, the one its status says. First the frame
  facts, what the operations on requests leave alone, then the invariant and its
  preservation by each operation.
\<close>

section \<open>Frames\<close>

text \<open>Two versions of the same request object.\<close>

definition same_id :: "request \<Rightarrow> request \<Rightarrow> bool" where
  "same_id r r' \<longleftrightarrow> request_id r' = request_id r \<and> object_id r' = object_id r"

lemma same_id_refl [simp]: "same_id r r"
  by (simp add: same_id_def)

lemma same_id_trans: "same_id a b \<Longrightarrow> same_id b c \<Longrightarrow> same_id a c"
  by (simp add: same_id_def)

lemma memo_ext_face:
  assumes "memo_ext r r'"
  shows "same_id r r'" "status r' = status r" "num_computed_tokens r' = num_computed_tokens r" "all_token_ids r' = all_token_ids r"
    "mm_features r' = mm_features r" "num_output_placeholders r' = num_output_placeholders r" "spec_token_ids r' = spec_token_ids r"
    "num_prompt_tokens r' = num_prompt_tokens r" "client_index r' = client_index r"
  using assms by (auto simp: memo_ext_def same_id_def)

lemma stored_extra_keys_memo: "stored_extra_keys env bs null xs i r = Inr (ks, r') \<Longrightarrow> memo_ext r r'"
  by (induction env bs null xs i r arbitrary: ks rule: stored_extra_keys.induct)
    (auto simp: rbind_eq_Inr split: if_splits, meson generate_keys_request memo_ext_trans)

lemma cache_full_blocks_memo: "cache_full_blocks env r blocks c f bs g p = Inr (r', p') \<Longrightarrow> memo_ext r r'"
  by (auto simp: cache_full_blocks_def rbind_eq_Inr Let_def split: if_splits dest: stored_extra_keys_memo)

lemma base_cache_blocks_memo: "base_cache_blocks env r t m p = Inr (r', m', p') \<Longrightarrow> memo_ext r r'"
  by (auto simp: base_cache_blocks_def rbind_eq_Inr Let_def split: if_splits dest: cache_full_blocks_memo)

lemma cache_blocks_memo: "cache_blocks env r t m p = Inr (r', m', p') \<Longrightarrow> memo_ext r r'"
  by (auto simp: cache_blocks_def mamba_cache_blocks_def rbind_eq_Inr Let_def split: layer_spec.splits if_splits dest: base_cache_blocks_memo)

lemma coord_cache_blocks_memo:
  assumes "coord_cache_blocks env r t c = Inr (r', c')"
  shows "memo_ext r r'"
proof -
  let ?f = "\<lambda>_ m (r, p). rbind (cache_blocks env r t m p) (\<lambda>(r, m, p). Inr ((), m, (r, p)))"
  have "memo_ext r r'" if "each_manager ?f i ms (r, p) = Inr (as, ms', (r', p'))" for i ms as ms' r p p'
    using that by (induction ms arbitrary: i r p as ms')
      (auto simp: rbind_eq_Inr, meson cache_blocks_memo memo_ext_trans)
  then show ?thesis using assms by (auto simp: coord_cache_blocks_def rbind_eq_Inr)
qed

lemma allocate_slots_memo:
  "allocate_slots env r new ncomp blocks look ext delay enc km = Inr (res, r', km') \<Longrightarrow> memo_ext r r'"
  by (auto simp: allocate_slots_def rbind_eq_Inr Let_def split: if_splits dest: coord_cache_blocks_memo)

lemma km_cache_blocks_memo: "km_cache_blocks env r t km = Inr (r', km') \<Longrightarrow> memo_ext r r'"
  by (auto simp: km_cache_blocks_def rbind_eq_Inr split: if_splits dest: coord_cache_blocks_memo)

lemma hasher_loop_memo: "hasher_loop env bs r s i prev new = Inr (hs, r') \<Longrightarrow> memo_ext r r'"
proof (induction env bs r s i prev new arbitrary: hs rule: hasher_loop.induct)
  case (1 env bs r s i prev new)
  show ?case
  proof (cases "num_tokens r < s + bs \<or> bs = 0")
    case False
    then obtain k j r1 h where g: "generate_block_hash_extra_keys env r s (s + bs) i = Inr (k, j, r1)"
      "hasher_loop env bs r1 (s + bs) j (Some h) (new @ [h]) = Inr (hs, r')" "h = hash_block_tokens env prev (pyslice (all_token_ids r) s (s + bs)) k"
      using 1(2) by (subst (asm) hasher_loop.simps) (auto simp: rbind_eq_Inr Let_def)
    then show ?thesis using 1(1) [OF _ _ g(1) refl refl refl g(3)] False memo_ext_trans [OF generate_keys_request [OF g(1)]] by auto
  qed (use 1(2) in \<open>auto simp: hasher_loop.simps [of env bs r] split: if_splits\<close>)
qed

text \<open>Updating the block hashes leaves everything else of a request, except the memo.\<close>

lemma update_block_hashes_frame:
  assumes "update_block_hashes env r = Inr r'"
  shows "\<exists>memo hs. r' = r\<lparr>prompt_embeds_per_block_hashes := memo, block_hashes := hs\<rparr>"
proof (cases "block_hasher r")
  case None
  then show ?thesis using assms
    by (intro exI [of _ "prompt_embeds_per_block_hashes r"] exI [of _ "block_hashes r"]) (simp add: update_block_hashes_def)
next
  case (Some bs)
  then obtain hs r1 where h: "request_block_hasher env bs r = Inr (hs, r1)" "r' = r1\<lparr>block_hashes := block_hashes r1 @ hs\<rparr>"
    using assms by (auto simp: update_block_hashes_def rbind_eq_Inr)
  then have "memo_ext r r1" by (auto simp: request_block_hasher_def Let_def split: if_splits dest: hasher_loop_memo)
  then show ?thesis using h(2) by (auto simp: memo_ext_def)
qed

lemma append_tokens_frame:
  assumes "append_output_token_ids env ts r = Inr r'"
  shows "\<exists>memo hs. r' = r\<lparr>output_token_ids := output_token_ids r @ ts, all_token_ids := all_token_ids r @ ts,
     prompt_embeds_per_block_hashes := memo, block_hashes := hs\<rparr>"
  using update_block_hashes_frame [OF assms [unfolded append_output_token_ids_def]] by simp

definition stopped_as :: "request \<Rightarrow> request \<Rightarrow> bool" where
  "stopped_as r r' \<longleftrightarrow> (\<exists>st reason. r' = r\<lparr>status := st, stop_reason_of := reason\<rparr> \<and> status_is_finished st)"

lemma stopped_as_status: "status_is_finished st \<Longrightarrow> stopped_as r (r\<lparr>status := st\<rparr>)"
  unfolding stopped_as_def by (intro exI [of _ st] exI [of _ "stop_reason_of r"]) simp

lemma stopped_as_reason: "status_is_finished st \<Longrightarrow> stopped_as r (r\<lparr>status := st, stop_reason_of := reason\<rparr>)"
  unfolding stopped_as_def by blast

lemma check_stop_frame:
  assumes "check_stop r m = Inr (stopped, r')"
  shows "if stopped then stopped_as r r' else r' = r"
proof -
  have "status_is_finished FINISHED_STOPPED" "status_is_finished FINISHED_LENGTH_CAPPED" "status_is_finished FINISHED_REPETITION"
    by (simp_all add: status_is_finished_def)
  note F = this [THEN stopped_as_status] this [THEN stopped_as_reason]
  have "case check_stop r m of Inl _ \<Rightarrow> True | Inr (b, r') \<Rightarrow> if b then stopped_as r r' else r' = r"
    unfolding check_stop_def rbind_def by (simp add: F split: option.split sum.split)
  then show ?thesis using assms by simp
qed

text \<open>Appending tokens until the request stops.\<close>

lemma append_until_stop_frame:
  assumes "append_until_stop env m ts new r = Inr (new', stopped, r')"
  shows "\<exists>k memo hs st reason. k \<le> length ts \<and> new' = new @ take k ts \<and> (\<not> stopped \<longrightarrow> k = length ts)
     \<and> r' = r\<lparr>output_token_ids := output_token_ids r @ take k ts, all_token_ids := all_token_ids r @ take k ts,
         prompt_embeds_per_block_hashes := memo, block_hashes := hs, status := st, stop_reason_of := reason\<rparr>
     \<and> (if stopped then status_is_finished st else st = status r)"
  using assms
proof (induction ts arbitrary: new r)
  case Nil
  then show ?case by (intro exI [of _ 0] exI [of _ "prompt_embeds_per_block_hashes r"] exI [of _ "block_hashes r"]
        exI [of _ "status r"] exI [of _ "stop_reason_of r"]) simp
next
  case (Cons x xs)
  then obtain r1 b r2 where a: "append_output_token_ids env [x] r = Inr r1" "check_stop r1 m = Inr (b, r2)"
     "(if b then Inr (new @ [x], True, r2) else append_until_stop env m xs (new @ [x]) r2) = Inr (new', stopped, r')"
    by (auto simp: rbind_eq_Inr)
  obtain memo hs where r1: "r1 = r\<lparr>output_token_ids := output_token_ids r @ [x], all_token_ids := all_token_ids r @ [x],
     prompt_embeds_per_block_hashes := memo, block_hashes := hs\<rparr>" using append_tokens_frame [OF a(1)] by blast
  note C = check_stop_frame [OF a(2)]
  show ?case
  proof (cases b)
    case True
    then have e: "new' = new @ [x]" "stopped" "r' = r2" using a(3) by auto
    obtain st reason where "r2 = r1\<lparr>status := st, stop_reason_of := reason\<rparr>" "status_is_finished st" using C True by (auto simp: stopped_as_def)
    then show ?thesis unfolding e(1,3) r1 using e(2)
      by (intro exI [of _ 1] exI [of _ memo] exI [of _ hs] exI [of _ st] exI [of _ reason]) simp
  next
    case False
    then have e: "r2 = r1" "append_until_stop env m xs (new @ [x]) r1 = Inr (new', stopped, r')" using C a(3) by auto
    obtain k memo' hs' st reason where IH: "k \<le> length xs" "new' = (new @ [x]) @ take k xs" "\<not> stopped \<longrightarrow> k = length xs"
      "r' = r1\<lparr>output_token_ids := output_token_ids r1 @ take k xs, all_token_ids := all_token_ids r1 @ take k xs,
         prompt_embeds_per_block_hashes := memo', block_hashes := hs', status := st, stop_reason_of := reason\<rparr>"
      "if stopped then status_is_finished st else st = status r1" using Cons.IH [OF e(2)] by blast
    show ?thesis
      by (intro exI [of _ "Suc k"] exI [of _ memo'] exI [of _ hs'] exI [of _ st] exI [of _ reason]) (use IH in \<open>simp add: r1\<close>)
  qed
qed

lemma update_session_frame:
  assumes "update_request_as_session env r u = Inr r'"
  shows "same_id r r'" "status r' = WAITING" "num_computed_tokens r' = num_computed_tokens r"
  using assms by (auto simp: update_request_as_session_def Let_def rbind_eq_Inr same_id_def split: option.splits dest!: update_block_hashes_frame)

section \<open>The queues as multisets of ids\<close>

text \<open>Every id names the object that is stored under it.\<close>

abbreviation named :: "(string \<Rightarrow> request) \<Rightarrow> string set \<Rightarrow> bool" where
  "named ob X \<equiv> \<forall>x \<in> X. request_id (ob x) = x"

lemma named_map [simp]: "named ob (set q) \<Longrightarrow> map (request_id \<circ> ob) q = q"
  by (induction q) auto

lemma mset_named: "named ob (set q) \<Longrightarrow> image_mset request_id (image_mset ob (mset q)) = mset q"
  by (induction q) auto

lemma queue_add_mset: "named ob (insert x (set q)) \<Longrightarrow> mset (queue_add pol ob x q) = add_mset x (mset q)"
  by (cases pol) (simp_all add: queue_add_def fcfs_add_request_def prio_add_request_def heappush_mset mset_named)

lemma queue_prepend_mset: "named ob (insert x (set q)) \<Longrightarrow> mset (queue_prepend pol ob x q) = add_mset x (mset q)"
  by (cases pol) (simp_all add: queue_prepend_def fcfs_prepend_request_def prio_prepend_request_def prio_add_request_def heappush_mset mset_named)

lemma queue_pop_mset:
  assumes "named ob (set q)" and "q \<noteq> []"
  shows "\<exists>x q'. queue_pop pol ob q = Inr (x, q') \<and> queue_peek pol ob q = Inr x \<and> mset q = add_mset x (mset q')"
proof (cases pol)
  case FCFS
  then show ?thesis using assms by (cases q) (auto simp: queue_pop_def queue_peek_def fcfs_pop_request_def fcfs_peek_request_def)
next
  case PRIORITY
  obtain h' where h: "heappop request_lt (map ob q) = Inr (map ob q ! 0, h')" "mset (map ob q) = add_mset (map ob q ! 0) (mset h')"
    using heappop_mset [of "map ob q" request_lt] assms(2) by auto
  have q0: "request_id (map ob q ! 0) = q ! 0" using assms by simp
  have "mset q = add_mset (q ! 0) (mset (map request_id h'))"
    using arg_cong [OF h(2), of "image_mset request_id"] q0 mset_named [OF assms(1)] by simp
  then show ?thesis using PRIORITY h(1) q0 assms(2) by (simp add: queue_pop_def queue_peek_def prio_pop_request_def prio_peek_request_def)
qed

lemma queue_pop_nonempty: "queue_pop pol ob q = Inr (x, q') \<Longrightarrow> q \<noteq> []"
  by (cases pol) (auto simp: queue_pop_def fcfs_pop_request_def prio_pop_request_def)

lemma queue_peek_pop:
  assumes "named ob (set q)" and "queue_peek pol ob q = Inr x"
  shows "\<exists>q'. queue_pop pol ob q = Inr (x, q') \<and> mset q = add_mset x (mset q')"
proof -
  have "q \<noteq> []" using assms(2) by (cases pol) (auto simp: queue_peek_def fcfs_peek_request_def prio_peek_request_def)
  then show ?thesis using queue_pop_mset [OF assms(1), of pol] assms(2) by auto
qed

lemma prio_prepend_mset: "mset (prio_prepend_requests rs q) = mset rs + mset q"
  unfolding prio_prepend_requests_def by (induction rs arbitrary: q) (auto simp: prio_add_request_def heappush_mset)

lemma fcfs_prepend_mset: "mset (fcfs_prepend_requests rs q) = mset rs + mset q"
  unfolding fcfs_prepend_requests_def by (induction rs arbitrary: q) auto

lemma queue_prepend_requests_mset:
  assumes "named ob (set xs \<union> set q)"
  shows "\<exists>q'. queue_prepend_requests pol ob xs q = Inr q' \<and> mset q' = mset xs + mset q"
proof -
  have n: "named ob (set xs)" "named ob (set q)" using assms by auto
  obtain rs where "prio_iter (map ob xs) = Inr rs" "mset rs = mset (map ob xs)"
    unfolding prio_iter_def using heap_drain_mset by metis
  then show ?thesis using mset_named [OF n(1)] mset_named [OF n(2)]
    by (cases pol) (simp_all add: queue_prepend_requests_def fcfs_prepend_mset prio_prepend_mset)
qed

lemma queue_iter_mset:
  assumes "named ob (set q)"
  shows "\<exists>xs. queue_iter pol ob q = Inr xs \<and> mset xs = mset q"
proof -
  obtain rs where "prio_iter (map ob q) = Inr rs" "mset rs = mset (map ob q)"
    unfolding prio_iter_def using heap_drain_mset by metis
  then show ?thesis using mset_named [OF assms] by (cases pol) (simp_all add: queue_iter_def)
qed

lemma image_filter_mset: "image_mset f (filter_mset (\<lambda>x. P (f x)) M) = filter_mset P (image_mset f M)"
  by (induction M) auto

lemma queue_remove_mset:
  assumes "named ob (set xs \<union> set q)" and "inj_on (\<lambda>x. object_id (ob x)) (set xs \<union> set q)"
  shows "mset (queue_remove_requests pol ob xs q) = filter_mset (\<lambda>x. x \<notin> set xs) (mset q)"
proof -
  have n: "named ob (set q)" using assms(1) by auto
  have "list_ex (same_object (ob y)) (map ob xs) = (y \<in> set xs)" if "y \<in> set q" for y
    using assms(2) that by (auto simp: list_ex_iff same_object_def dest: inj_onD)
  then have "filter (\<lambda>x. \<not> list_ex (same_object x) (map ob xs)) (map ob q) = map ob (filter (\<lambda>y. y \<notin> set xs) q)"
    unfolding filter_map comp_def by (intro arg_cong [of _ _ "map ob"] filter_cong) auto
  moreover have "image_mset request_id (image_mset ob (mset (filter (\<lambda>y. y \<notin> set xs) q))) = mset (filter (\<lambda>y. y \<notin> set xs) q)"
    using n by (intro mset_named) auto
  ultimately show ?thesis
    by (cases pol) (simp_all add: queue_remove_requests_def fcfs_remove_requests_def prio_remove_requests_def heapify_mset mset_filter image_mset.compositionality)
qed

section \<open>The invariant of the queues\<close>

text \<open>
  The running ids \<open>R\<close> and the waiting ids \<open>W\<close> together are the unfinished requests, each once; the
  status of a request says in which of the two it is; and the counter counts the sessions
  that wait for input.
\<close>

definition queues_ok :: "string list \<Rightarrow> (string \<Rightarrow> request) \<Rightarrow> string multiset \<Rightarrow> string multiset \<Rightarrow> int \<Rightarrow> bool" where
  "queues_ok reqs ob R W n \<longleftrightarrow> distinct reqs \<and> named ob (set reqs) \<and> inj_on (\<lambda>x. object_id (ob x)) (set reqs)
     \<and> R + W = filter_mset (\<lambda>x. \<not> is_finished (ob x)) (mset reqs)
     \<and> (\<forall>x \<in># R. status (ob x) = RUNNING) \<and> (\<forall>x \<in># W. status (ob x) \<noteq> RUNNING)
     \<and> n = int (size (filter_mset (\<lambda>x. status (ob x) = WAITING_FOR_STREAMING_REQ) (mset reqs)))"

lemma queues_okD:
  assumes "queues_ok reqs ob R W n"
  shows "distinct reqs" "named ob (set reqs)" "inj_on (\<lambda>x. object_id (ob x)) (set reqs)"
    "R + W = filter_mset (\<lambda>x. \<not> is_finished (ob x)) (mset reqs)" "\<And>x. x \<in># R \<Longrightarrow> status (ob x) = RUNNING"
    "\<And>x. x \<in># W \<Longrightarrow> status (ob x) \<noteq> RUNNING" "set_mset R \<subseteq> set reqs" "set_mset W \<subseteq> set reqs"
    "\<And>x. x \<in># R + W \<Longrightarrow> x \<in> set reqs \<and> \<not> is_finished (ob x)"
proof -
  show *: "distinct reqs" "named ob (set reqs)" "inj_on (\<lambda>x. object_id (ob x)) (set reqs)"
    "R + W = filter_mset (\<lambda>x. \<not> is_finished (ob x)) (mset reqs)" "\<And>x. x \<in># R \<Longrightarrow> status (ob x) = RUNNING"
    "\<And>x. x \<in># W \<Longrightarrow> status (ob x) \<noteq> RUNNING"
    using assms by (auto simp: queues_ok_def)
  show "\<And>x. x \<in># R + W \<Longrightarrow> x \<in> set reqs \<and> \<not> is_finished (ob x)" unfolding *(4) by simp
  then show "set_mset R \<subseteq> set reqs" "set_mset W \<subseteq> set reqs" by auto
qed

lemma queues_in:
  assumes "queues_ok reqs ob R W n" and "x \<in> set reqs" and "\<not> is_finished (ob x)"
  shows "if status (ob x) = RUNNING then x \<in># R \<and> x \<notin># W else x \<in># W \<and> x \<notin># R"
proof -
  have "x \<in># R + W" unfolding queues_okD(4) [OF assms(1)] using assms(2,3) by simp
  then show ?thesis using queues_okD(5,6) [OF assms(1)] by (auto split: if_splits)
qed

lemma queues_once:
  assumes "queues_ok reqs ob R W n"
  shows "count (R + W) x \<le> 1"
  unfolding queues_okD(4) [OF assms] using queues_okD(1) [OF assms]
  by (simp add: distinct_count_atmost_1 split: if_splits)

text \<open>Only identity and status matter.\<close>

lemma queues_same:
  assumes "queues_ok reqs ob R W n" and "\<And>x. x \<in> set reqs \<Longrightarrow> same_id (ob x) (ob' x) \<and> status (ob' x) = status (ob x)"
  shows "queues_ok reqs ob' R W n"
proof -
  note Q = queues_okD [OF assms(1)]
  have "filter_mset (\<lambda>x. \<not> is_finished (ob' x)) (mset reqs) = filter_mset (\<lambda>x. \<not> is_finished (ob x)) (mset reqs)"
    "filter_mset (\<lambda>x. status (ob' x) = WAITING_FOR_STREAMING_REQ) (mset reqs) = filter_mset (\<lambda>x. status (ob x) = WAITING_FOR_STREAMING_REQ) (mset reqs)"
    using assms(2) by (auto simp: is_finished_def intro: filter_mset_cong)
  moreover have "inj_on (\<lambda>x. object_id (ob' x)) (set reqs) = inj_on (\<lambda>x. object_id (ob x)) (set reqs)"
    using assms(2) by (intro inj_on_cong) (auto simp: same_id_def)
  ultimately show ?thesis using assms(1,2) Q(7,8) by (auto simp: queues_ok_def same_id_def)
qed

text \<open>An object changes its status: it leaves its queue and enters the one of the new status.\<close>

abbreviation streams :: "request \<Rightarrow> int" where
  "streams r \<equiv> of_bool (status r = WAITING_FOR_STREAMING_REQ)"

lemma split_distinct: "distinct xs \<Longrightarrow> x \<in> set xs \<Longrightarrow> \<exists>M. mset xs = add_mset x M \<and> x \<notin># M"
  by (intro exI [of _ "mset xs - {#x#}"]) (auto simp: distinct_count_atmost_1 not_in_iff)

lemma queues_update:
  assumes "queues_ok reqs ob R W n" and "x \<in> set reqs" and "same_id (ob x) r"
  shows "queues_ok reqs (ob(x := r)) (if status r = RUNNING then add_mset x (R - {#x#}) else R - {#x#})
     (if status r \<noteq> RUNNING \<and> \<not> is_finished r then add_mset x (W - {#x#}) else W - {#x#})
     (n + streams r - streams (ob x))"
proof -
  note Q = queues_okD [OF assms(1)]
  obtain M where M: "mset reqs = add_mset x M" "x \<notin># M" using split_distinct [OF Q(1) assms(2)] by blast
  let ?P = "\<lambda>y. \<not> is_finished (ob y)" and ?S = "\<lambda>y. status (ob y) = WAITING_FOR_STREAMING_REQ"
  have fm: "filter_mset (\<lambda>y. F ((ob(x := r)) y)) M = filter_mset (\<lambda>y. F (ob y)) M" for F
    using M(2) by (intro filter_mset_cong) auto
  have RW: "R + W = (if ?P x then {#x#} else {#}) + filter_mset ?P M" unfolding Q(4) M(1) by simp
  have one: "(R - {#x#}) + (W - {#x#}) = filter_mset ?P M" and nin: "x \<notin># R - {#x#}" "x \<notin># W - {#x#}"
  proof -
    have c: "count R x + count W x = (if ?P x then 1 else 0)"
      using arg_cong [OF RW, of "\<lambda>m. count m x"] M(2) by (simp add: not_in_iff)
    then show "x \<notin># R - {#x#}" "x \<notin># W - {#x#}" by (auto simp: not_in_iff split: if_splits)
    consider "x \<notin># R" "x \<notin># W" | R1 where "R = add_mset x R1" "x \<notin># W" | W1 where "W = add_mset x W1" "x \<notin># R"
      using c multi_member_split [of x R] multi_member_split [of x W]
      by (cases "x \<in># R"; cases "x \<in># W") (auto split: if_splits simp: add_is_1)
    then show "(R - {#x#}) + (W - {#x#}) = filter_mset ?P M"
    proof cases
      case 1
      then have "is_finished (ob x)" using c by (auto simp: not_in_iff split: if_splits)
      then show ?thesis using RW 1 by (simp add: diff_single_trivial)
    next
      case 2
      then have "?P x" using c by (auto split: if_splits)
      then show ?thesis using RW 2 by (simp add: diff_single_trivial)
    next
      case 3
      then have "?P x" using c by (auto split: if_splits)
      then show ?thesis using RW 3 by (simp add: diff_single_trivial)
    qed
  qed
  have R': "\<And>y. y \<in># R - {#x#} \<Longrightarrow> y \<noteq> x \<and> status (ob y) = RUNNING" "\<And>y. y \<in># W - {#x#} \<Longrightarrow> y \<noteq> x \<and> status (ob y) \<noteq> RUNNING"
    using Q(5,6) nin by (auto dest: in_diffD)
  have n: "n = int (size (filter_mset ?S (mset reqs)))" using assms(1) by (simp add: queues_ok_def)
  have "inj_on (\<lambda>y. object_id ((ob(x := r)) y)) (set reqs) = inj_on (\<lambda>y. object_id (ob y)) (set reqs)"
    using assms(3) by (intro inj_on_cong) (auto simp: same_id_def)
  moreover have "named (ob(x := r)) (set reqs)" using Q(2) assms(2,3) by (auto simp: same_id_def)
  moreover have "filter_mset (\<lambda>y. \<not> is_finished ((ob(x := r)) y)) (mset reqs)
      = (if is_finished r then {#} else {#x#}) + ((R - {#x#}) + (W - {#x#}))"
    unfolding M(1) one using fm [of "\<lambda>r. \<not> is_finished r"] by simp
  moreover have "is_finished r \<Longrightarrow> status r \<noteq> RUNNING" by (auto simp: is_finished_def status_is_finished_def)
  moreover have "n + streams r - streams (ob x) = int (size (filter_mset (\<lambda>y. status ((ob(x := r)) y) = WAITING_FOR_STREAMING_REQ) (mset reqs)))"
    unfolding n M(1) using fm [of "\<lambda>r. status r = WAITING_FOR_STREAMING_REQ"] by simp
  ultimately show ?thesis unfolding queues_ok_def using Q(1,3) R' by (auto simp: ac_simps)
qed

text \<open>A finished request leaves the dictionary, a new one enters it.\<close>

lemma queues_remove:
  assumes "queues_ok reqs ob R W n" and "x \<in> set reqs" and "is_finished (ob x)"
  shows "queues_ok (remove1 x reqs) ob R W n"
proof -
  note Q = queues_okD [OF assms(1)]
  obtain M where M: "mset reqs = add_mset x M" "x \<notin># M" using split_distinct [OF Q(1) assms(2)] by blast
  have m: "mset (remove1 x reqs) = M" using M by simp
  have "status (ob x) \<noteq> WAITING_FOR_STREAMING_REQ" using assms(3) by (auto simp: is_finished_def status_is_finished_def)
  then have "filter_mset (\<lambda>y. status (ob y) = WAITING_FOR_STREAMING_REQ) (mset reqs) = filter_mset (\<lambda>y. status (ob y) = WAITING_FOR_STREAMING_REQ) M"
    "filter_mset (\<lambda>y. \<not> is_finished (ob y)) (mset reqs) = filter_mset (\<lambda>y. \<not> is_finished (ob y)) M"
    using M(1) assms(3) by simp_all
  then show ?thesis using assms(1) Q(1) unfolding queues_ok_def m
    by (auto simp: set_remove1_eq intro: inj_on_subset)
qed

lemma queues_add:
  assumes "queues_ok reqs ob R W n" and "x \<notin> set reqs" and "request_id r = x" and "status r \<in> {WAITING, WAITING_FOR_FSM}"
    and "object_id r \<notin> (\<lambda>y. object_id (ob y)) ` set reqs"
  shows "queues_ok (reqs @ [x]) (ob(x := r)) R (add_mset x W) n"
proof -
  note Q = queues_okD [OF assms(1)]
  have x: "x \<notin># R" "x \<notin># W" using Q(7,8) assms(2) by auto
  have fm: "filter_mset (\<lambda>y. F ((ob(x := r)) y)) (mset reqs) = filter_mset (\<lambda>y. F (ob y)) (mset reqs)" for F
    using assms(2) by (intro filter_mset_cong) auto
  have "\<not> is_finished r" using assms(4) by (auto simp: is_finished_def status_is_finished_def)
  then have "filter_mset (\<lambda>y. \<not> is_finished ((ob(x := r)) y)) (mset (reqs @ [x])) = add_mset x (R + W)"
    using fm [of "\<lambda>r. \<not> is_finished r"] unfolding Q(4) by simp
  moreover have "filter_mset (\<lambda>y. status ((ob(x := r)) y) = WAITING_FOR_STREAMING_REQ) (mset (reqs @ [x]))
      = filter_mset (\<lambda>y. status (ob y) = WAITING_FOR_STREAMING_REQ) (mset reqs)"
    using fm [of "\<lambda>r. status r = WAITING_FOR_STREAMING_REQ"] assms(4) by auto
  moreover have "inj_on (\<lambda>y. object_id ((ob(x := r)) y)) (set (reqs @ [x]))"
  proof -
    have "inj_on (\<lambda>y. object_id ((ob(x := r)) y)) (set reqs) = inj_on (\<lambda>y. object_id (ob y)) (set reqs)"
      "(\<lambda>y. object_id ((ob(x := r)) y)) ` set reqs = (\<lambda>y. object_id (ob y)) ` set reqs"
      using assms(2) by (intro inj_on_cong, auto)+
    then show ?thesis using Q(3) assms(2,5) by simp
  qed
  moreover have "n = int (size (filter_mset (\<lambda>y. status (ob y) = WAITING_FOR_STREAMING_REQ) (mset reqs)))"
    using assms(1) by (simp add: queues_ok_def)
  ultimately show ?thesis unfolding queues_ok_def using Q(1,2,5,6) assms(2-4) x by auto
qed

section \<open>The invariant of the scheduler\<close>

text \<open>
  The invariant with the running ids \<open>R\<close>, and with requests \<open>extra\<close> that a step has taken out of
  the waiting queues. Between calls \<open>R\<close> is the running list and \<open>extra\<close> is empty.
\<close>

definition wf_sched :: "string multiset \<Rightarrow> string list \<Rightarrow> 'c scheduler \<Rightarrow> bool" where
  "wf_sched R extra s \<longleftrightarrow> queues_ok (requests s) (objects s) R (mset (waiting s) + mset (skipped_waiting s) + mset extra) (num_waiting_for_streaming_input s)
     \<and> (\<forall>x \<in> set (waiting s). \<not> is_blocked_waiting_status (status (objects s x)))"

definition sched_inv :: "sched_config \<Rightarrow> 'c scheduler \<Rightarrow> bool" where
  "sched_inv cfg s \<longleftrightarrow> wf_sched (mset (running s)) [] s \<and> int (length (running s)) \<le> max_num_running_reqs cfg"

lemma wf_schedD:
  assumes "wf_sched R extra s"
  shows "named (objects s) (set (waiting s))" "named (objects s) (set (skipped_waiting s))" "named (objects s) (set extra)"
    "set (waiting s) \<subseteq> set (requests s)" "set (skipped_waiting s) \<subseteq> set (requests s)" "set extra \<subseteq> set (requests s)" "set_mset R \<subseteq> set (requests s)"
    "\<And>x. x \<in> set (requests s) \<Longrightarrow> request_id (objects s x) = x"
  using assms queues_okD(2,7,8) [of "requests s" "objects s"] unfolding wf_sched_def by (auto simp: subset_iff)

text \<open>The invariant reads five fields only.\<close>

lemma wf_sched_cong:
  assumes "requests s' = requests s" "waiting s' = waiting s" "skipped_waiting s' = skipped_waiting s"
    "num_waiting_for_streaming_input s' = num_waiting_for_streaming_input s"
    and "\<And>x. x \<in> set (requests s) \<Longrightarrow> same_id (objects s x) (objects s' x) \<and> status (objects s' x) = status (objects s x)"
    and "wf_sched R extra s"
  shows "wf_sched R extra s'"
proof -
  have "queues_ok (requests s) (objects s') R (mset (waiting s) + mset (skipped_waiting s) + mset extra) (num_waiting_for_streaming_input s)"
    by (rule queues_same [of _ "objects s"]) (use assms(5,6) in \<open>auto simp: wf_sched_def\<close>)
  then show ?thesis using assms wf_schedD(4) [OF assms(6)] by (auto simp: wf_sched_def)
qed

lemma wf_set_object:
  assumes "wf_sched R extra s" and "same_id (objects s rid) r" and "status r = status (objects s rid)"
  shows "wf_sched R extra (set_object rid r s)"
  by (rule wf_sched_cong [OF _ _ _ _ _ assms(1)]) (use assms in \<open>auto simp: set_object_def\<close>)

lemma set_object_simps [simp]:
  "requests (set_object x r s) = requests s" "objects (set_object x r s) = (objects s)(x := r)" "waiting (set_object x r s) = waiting s"
  "skipped_waiting (set_object x r s) = skipped_waiting s" "running (set_object x r s) = running s"
  "num_waiting_for_streaming_input (set_object x r s) = num_waiting_for_streaming_input s"
  "kv_cache_manager (set_object x r s) = kv_cache_manager s" "encoder_cache_manager (set_object x r s) = encoder_cache_manager s"
  "connector (set_object x r s) = connector s" "finished_recving_kv_req_ids (set_object x r s) = finished_recving_kv_req_ids s"
  "failed_recving_kv_req_ids (set_object x r s) = failed_recving_kv_req_ids s" "pause (set_object x r s) = pause s"
  "finished_req_ids (set_object x r s) = finished_req_ids s" "prev_step_scheduled_req_ids (set_object x r s) = prev_step_scheduled_req_ids s"
  by (simp_all add: set_object_def)

end
