(* ===== verification/Sched_Inv.thy ===== *)
theory Sched_Inv
  imports Sched_Queues
begin

text \<open>
  The operations of the scheduler outside a step keep the invariant of the queues.
\<close>

lemma rbind_ensure: "rbind (ensure b e) f = Inr x \<longleftrightarrow> b \<and> f () = Inr x"
  by (simp add: ensure_def)

section \<open>Changing the status of a request\<close>

lemma wf_update:
  assumes "wf_sched R extra s" and "rid \<in> set (requests s)" and "same_id (objects s rid) r"
    and "requests s' = requests s" "objects s' = (objects s)(rid := r)"
    and "num_waiting_for_streaming_input s' = num_waiting_for_streaming_input s + streams r - streams (objects s rid)"
    and "R' = (if status r = RUNNING then add_mset rid (R - {#rid#}) else R - {#rid#})"
    and "mset (waiting s') + mset (skipped_waiting s') + mset extra' =
      (if status r \<noteq> RUNNING \<and> \<not> is_finished r then add_mset rid (mset (waiting s) + mset (skipped_waiting s) + mset extra - {#rid#})
       else mset (waiting s) + mset (skipped_waiting s) + mset extra - {#rid#})"
    and "\<And>x. x \<in> set (waiting s') \<Longrightarrow> \<not> is_blocked_waiting_status (status (objects s' x))"
  shows "wf_sched R' extra' s'"
  unfolding wf_sched_def using queues_update [of "requests s" "objects s" R _ _ rid r] assms by (auto simp: wf_sched_def)

text \<open>An id is in at most one place.\<close>

lemma wf_once:
  assumes "wf_sched R extra s"
  shows "rid \<in># R \<Longrightarrow> rid \<notin> set (waiting s) \<and> rid \<notin> set (skipped_waiting s) \<and> rid \<notin> set extra"
    "rid \<in> set (waiting s) \<Longrightarrow> rid \<notin># R \<and> rid \<notin> set (skipped_waiting s) \<and> rid \<notin> set extra"
    "rid \<in> set (skipped_waiting s) \<Longrightarrow> rid \<notin># R \<and> rid \<notin> set (waiting s) \<and> rid \<notin> set extra"
    "rid \<in> set extra \<Longrightarrow> rid \<notin># R \<and> rid \<notin> set (waiting s) \<and> rid \<notin> set (skipped_waiting s)"
    "count R rid \<le> 1" "distinct (waiting s)" "distinct (skipped_waiting s)" "distinct extra"
proof -
  have q: "queues_ok (requests s) (objects s) R (mset (waiting s) + mset (skipped_waiting s) + mset extra) (num_waiting_for_streaming_input s)"
    using assms by (simp add: wf_sched_def)
  have c: "count R x + (count (mset (waiting s)) x + count (mset (skipped_waiting s)) x + count (mset extra) x) \<le> 1" for x
    using queues_once [OF q, of x] by simp
  have z: "x \<in># M \<longleftrightarrow> 0 < count M x" for x and M :: "string multiset" by simp
  show "rid \<in># R \<Longrightarrow> rid \<notin> set (waiting s) \<and> rid \<notin> set (skipped_waiting s) \<and> rid \<notin> set extra"
    "rid \<in> set (waiting s) \<Longrightarrow> rid \<notin># R \<and> rid \<notin> set (skipped_waiting s) \<and> rid \<notin> set extra"
    "rid \<in> set (skipped_waiting s) \<Longrightarrow> rid \<notin># R \<and> rid \<notin> set (waiting s) \<and> rid \<notin> set extra"
    "rid \<in> set extra \<Longrightarrow> rid \<notin># R \<and> rid \<notin> set (waiting s) \<and> rid \<notin> set (skipped_waiting s)"
    using c [of rid] unfolding set_mset_mset [symmetric] z by linarith+
  show "count R rid \<le> 1" using c [of rid] by simp
  have "count (mset xs) x \<le> 1" if "xs = waiting s \<or> xs = skipped_waiting s \<or> xs = extra" for xs x
    using c [of x] that by auto
  then show "distinct (waiting s)" "distinct (skipped_waiting s)" "distinct extra"
    by (auto simp: distinct_count_atmost_1 le_Suc_eq)
qed

lemma wf_status:
  assumes "wf_sched R extra s"
  shows "rid \<in># R \<Longrightarrow> rid \<in> set (requests s) \<and> status (objects s rid) = RUNNING \<and> \<not> is_finished (objects s rid)"
    "rid \<in> set (waiting s) \<union> set (skipped_waiting s) \<union> set extra \<Longrightarrow>
       rid \<in> set (requests s) \<and> status (objects s rid) \<noteq> RUNNING \<and> \<not> is_finished (objects s rid)"
    "rid \<in> set (requests s) \<Longrightarrow> \<not> is_finished (objects s rid) \<Longrightarrow> status (objects s rid) = RUNNING \<Longrightarrow> rid \<in># R"
    "rid \<in> set (requests s) \<Longrightarrow> \<not> is_finished (objects s rid) \<Longrightarrow> status (objects s rid) \<noteq> RUNNING \<Longrightarrow>
       rid \<in> set (waiting s) \<union> set (skipped_waiting s) \<union> set extra"
proof -
  let ?W = "mset (waiting s) + mset (skipped_waiting s) + mset extra"
  have q: "queues_ok (requests s) (objects s) R ?W (num_waiting_for_streaming_input s)" using assms by (simp add: wf_sched_def)
  note Q = queues_okD [OF q]
  show "rid \<in># R \<Longrightarrow> rid \<in> set (requests s) \<and> status (objects s rid) = RUNNING \<and> \<not> is_finished (objects s rid)"
    using Q(5,9) [of rid] by simp
  show "rid \<in> set (waiting s) \<union> set (skipped_waiting s) \<union> set extra \<Longrightarrow>
       rid \<in> set (requests s) \<and> status (objects s rid) \<noteq> RUNNING \<and> \<not> is_finished (objects s rid)"
    using Q(6,9) [of rid] by auto
  show "rid \<in> set (requests s) \<Longrightarrow> \<not> is_finished (objects s rid) \<Longrightarrow> status (objects s rid) = RUNNING \<Longrightarrow> rid \<in># R"
    "rid \<in> set (requests s) \<Longrightarrow> \<not> is_finished (objects s rid) \<Longrightarrow> status (objects s rid) \<noteq> RUNNING \<Longrightarrow>
       rid \<in> set (waiting s) \<union> set (skipped_waiting s) \<union> set extra"
    using queues_in [OF q, of rid] by auto
qed

section \<open>Preemption\<close>

lemma preempt_request_frame:
  assumes "preempt_request cfg rid s = Inr s'"
  shows "\<exists>km em. km_free (objects s rid) (kv_cache_manager s) = Inr km \<and> em_free (objects s rid) (encoder_cache_manager s) = Inr em
     \<and> status (objects s rid) = RUNNING
     \<and> s' = s\<lparr>kv_cache_manager := km, encoder_cache_manager := em,
           objects := (objects s)(rid := (objects s rid)\<lparr>status := PREEMPTED, num_computed_tokens := 0, spec_token_ids := [],
             num_preemptions := num_preemptions (objects s rid) + 1\<rparr>),
           waiting := waiting s'\<rparr>
     \<and> waiting s' = queue_prepend (policy cfg) (objects s') rid (waiting s)"
  using assms by (auto simp: preempt_request_def Let_def rbind_eq_Inr set_object_def)

lemma preempt_request_wf:
  assumes "wf_sched R extra s" and "rid \<in># R" and "preempt_request cfg rid s = Inr s'"
  shows "wf_sched (R - {#rid#}) extra s'" "mset (waiting s') = add_mset rid (mset (waiting s))"
proof -
  obtain km em where f: "s' = s\<lparr>kv_cache_manager := km, encoder_cache_manager := em,
       objects := (objects s)(rid := (objects s rid)\<lparr>status := PREEMPTED, num_computed_tokens := 0, spec_token_ids := [],
         num_preemptions := num_preemptions (objects s rid) + 1\<rparr>), waiting := waiting s'\<rparr>"
     "waiting s' = queue_prepend (policy cfg) (objects s') rid (waiting s)"
    using preempt_request_frame [OF assms(3)] by blast
  have fields: "requests s' = requests s" "skipped_waiting s' = skipped_waiting s"
    "num_waiting_for_streaming_input s' = num_waiting_for_streaming_input s"
    "objects s' = (objects s)(rid := (objects s rid)\<lparr>status := PREEMPTED, num_computed_tokens := 0, spec_token_ids := [],
         num_preemptions := num_preemptions (objects s rid) + 1\<rparr>)"
    by (subst f(1), simp)+
  have rid: "rid \<in> set (requests s)" "status (objects s rid) = RUNNING" using wf_status(1) [OF assms(1,2)] by auto
  note once = wf_once(1) [OF assms(1,2)]
  show m: "mset (waiting s') = add_mset rid (mset (waiting s))"
    unfolding f(2) by (rule queue_prepend_mset) (use wf_schedD(1,8) [OF assms(1)] rid in \<open>auto simp: fields\<close>)
  show "wf_sched (R - {#rid#}) extra s'"
  proof (rule wf_update [OF assms(1) rid(1) _ fields(1,4)], goal_cases)
    case (5 x)
    then have "x \<in> insert rid (set (waiting s))" using arg_cong [OF m, of set_mset] by simp
    then show ?case using assms(1) by (auto simp: fields wf_sched_def is_blocked_waiting_status_def)
  qed (use fields once rid m in \<open>auto simp: same_id_def is_finished_def status_is_finished_def diff_single_trivial\<close>)
qed

section \<open>Entering the waiting queues\<close>

lemma enqueue_frame:
  "requests (enqueue_waiting_request cfg x s) = requests s" "objects (enqueue_waiting_request cfg x s) = objects s"
  "running (enqueue_waiting_request cfg x s) = running s"
  "num_waiting_for_streaming_input (enqueue_waiting_request cfg x s) = num_waiting_for_streaming_input s"
  "kv_cache_manager (enqueue_waiting_request cfg x s) = kv_cache_manager s"
  "encoder_cache_manager (enqueue_waiting_request cfg x s) = encoder_cache_manager s" "connector (enqueue_waiting_request cfg x s) = connector s"
  by (simp_all add: enqueue_waiting_request_def)

lemma enqueue_mset:
  assumes "named (objects s) (insert x (set (waiting s) \<union> set (skipped_waiting s)))"
  shows "mset (waiting (enqueue_waiting_request cfg x s)) + mset (skipped_waiting (enqueue_waiting_request cfg x s))
       = add_mset x (mset (waiting s) + mset (skipped_waiting s))"
    "set (waiting (enqueue_waiting_request cfg x s)) = set (waiting s) \<union> (if is_blocked_waiting_status (status (objects s x)) then {} else {x})"
proof -
  have m: "mset (queue_add (policy cfg) (objects s) x (waiting s)) = add_mset x (mset (waiting s))"
    "mset (queue_add (policy cfg) (objects s) x (skipped_waiting s)) = add_mset x (mset (skipped_waiting s))"
    by (rule queue_add_mset; use assms in auto)+
  then have "set (queue_add (policy cfg) (objects s) x (waiting s)) = insert x (set (waiting s))" by (metis set_mset_add_mset_insert set_mset_mset)
  then show "mset (waiting (enqueue_waiting_request cfg x s)) + mset (skipped_waiting (enqueue_waiting_request cfg x s))
       = add_mset x (mset (waiting s) + mset (skipped_waiting s))"
    "set (waiting (enqueue_waiting_request cfg x s)) = set (waiting s) \<union> (if is_blocked_waiting_status (status (objects s x)) then {} else {x})"
    using m by (auto simp: enqueue_waiting_request_def)
qed

text \<open>A request that is in no queue gets a waiting status and is enqueued.\<close>

lemma wf_enqueue:
  assumes "wf_sched R extra s" and "rid \<in> set (requests s)" and "rid \<notin># R" "rid \<notin> set (waiting s) \<union> set (skipped_waiting s) \<union> set extra"
    and "same_id (objects s rid) r" and "status r \<noteq> RUNNING" "\<not> is_finished r"
    and "requests s1 = requests s" "objects s1 = (objects s)(rid := r)" "waiting s1 = waiting s" "skipped_waiting s1 = skipped_waiting s"
    and "num_waiting_for_streaming_input s1 = num_waiting_for_streaming_input s + streams r - streams (objects s rid)"
  shows "wf_sched R extra (enqueue_waiting_request cfg rid s1)"
proof -
  have n: "named (objects s1) (insert rid (set (waiting s1) \<union> set (skipped_waiting s1)))"
    using wf_schedD [OF assms(1)] assms(2,5,9-11) by (auto simp: same_id_def)
  note E = enqueue_mset [OF n, of cfg]
  show ?thesis
  proof (rule wf_update [OF assms(1,2,5)], goal_cases)
    case 5
    then show ?case using E(1) assms(4,6,7,10,11) by (simp add: diff_single_trivial)
  next
    case (6 x)
    then have "x \<in> set (waiting s) \<and> x \<noteq> rid \<or> x = rid \<and> \<not> is_blocked_waiting_status (status r)"
      using E(2) assms(4,9,10) by (auto split: if_splits)
    then show ?case using assms(1,9) by (auto simp: enqueue_frame wf_sched_def)
  qed (use assms in \<open>simp_all add: enqueue_frame diff_single_trivial\<close>)
qed

lemma session_frame:
  assumes "sched_update_request_as_session env rid u s = Inr s'"
  shows "\<exists>r. update_request_as_session (env_hash env) (objects s rid) u = Inr r \<and> same_id (objects s rid) r \<and> status r = WAITING
     \<and> s' = s\<lparr>objects := (objects s)(rid := r),
         num_waiting_for_streaming_input := num_waiting_for_streaming_input s - streams (objects s rid)\<rparr>"
  using assms by (auto simp: sched_update_request_as_session_def rbind_eq_Inr set_object_def dest: update_session_frame)

text \<open>A stopped request, whose status is finished already, stays finished or is enqueued again.\<close>

lemma handle_stopped_cases:
  assumes "handle_stopped_request cfg env rid s = Inr (finished, s')" and "status (objects s rid) \<noteq> WAITING_FOR_STREAMING_REQ"
  obtains (ended) q where "finished" "s' = set_object rid ((objects s rid)\<lparr>streaming_queue := q\<rparr>) s"
    | (continued) r where "\<not> finished" "same_id (objects s rid) r" "status r \<in> {WAITING, WAITING_FOR_STREAMING_REQ}"
        "s' = enqueue_waiting_request cfg rid (s\<lparr>objects := (objects s)(rid := r), num_waiting_for_streaming_input := num_waiting_for_streaming_input s + streams r\<rparr>)"
proof (cases "resumable (objects s rid)")
  case False
  then show ?thesis using assms(1) ended [of "streaming_queue (objects s rid)"] by (simp add: handle_stopped_request_def set_object_def)
next
  case True
  let ?r = "objects s rid"
  show ?thesis
  proof (cases "streaming_queue ?r = None \<or> streaming_queue ?r = Some []")
    case True
    then have "\<not> finished \<and> s' = enqueue_waiting_request cfg rid (s\<lparr>objects := (objects s)(rid := ?r\<lparr>status := WAITING_FOR_STREAMING_REQ\<rparr>),
        num_waiting_for_streaming_input := num_waiting_for_streaming_input s + 1\<rparr>)"
      using assms(1) \<open>resumable ?r\<close> by (auto simp: handle_stopped_request_def Let_def set_object_def)
    then show ?thesis using continued [of "?r\<lparr>status := WAITING_FOR_STREAMING_REQ\<rparr>"] by (simp add: same_id_def)
  next
    case False
    then obtain u q where q: "streaming_queue ?r = Some (u # q)" by (cases "streaming_queue ?r") (auto simp: neq_Nil_conv)
    show ?thesis
    proof (cases u)
      case None
      then show ?thesis using assms(1) \<open>resumable ?r\<close> q ended [of "Some q"] by (simp add: handle_stopped_request_def Let_def)
    next
      case (Some upd)
      let ?s1 = "set_object rid (?r\<lparr>streaming_queue := Some q\<rparr>) s"
      obtain s2 where s2: "sched_update_request_as_session env rid upd ?s1 = Inr s2" "\<not> finished" "s' = enqueue_waiting_request cfg rid s2"
        using assms(1) \<open>resumable ?r\<close> q Some by (auto simp: handle_stopped_request_def Let_def rbind_eq_Inr)
      then obtain r where r: "same_id (?r\<lparr>streaming_queue := Some q\<rparr>) r" "status r = WAITING"
        "s2 = ?s1\<lparr>objects := (objects ?s1)(rid := r), num_waiting_for_streaming_input := num_waiting_for_streaming_input ?s1 - streams (objects ?s1 rid)\<rparr>"
        using session_frame [OF s2(1)] by auto
      then have "s2 = s\<lparr>objects := (objects s)(rid := r), num_waiting_for_streaming_input := num_waiting_for_streaming_input s + streams r\<rparr>"
        using assms(2) by (simp add: set_object_def)
      then show ?thesis using continued [of r] s2(2,3) r(1,2) by (simp add: same_id_def)
    qed
  qed
qed

lemma handle_stopped_wf:
  assumes "wf_sched R extra s" and "rid \<in> set (requests s)" and "is_finished (objects s rid)"
    and "handle_stopped_request cfg env rid s = Inr (finished, s')"
  shows "wf_sched R extra s' \<and> requests s' = requests s \<and> running s' = running s \<and> kv_cache_manager s' = kv_cache_manager s
    \<and> encoder_cache_manager s' = encoder_cache_manager s \<and> connector s' = connector s
    \<and> (finished \<longleftrightarrow> is_finished (objects s' rid)) \<and> (\<forall>x. x \<noteq> rid \<longrightarrow> objects s' x = objects s x) \<and> same_id (objects s rid) (objects s' rid)"
proof -
  let ?r = "objects s rid"
  have nin: "rid \<notin># R" "rid \<notin> set (waiting s) \<union> set (skipped_waiting s) \<union> set extra"
    using wf_status(1,2) [OF assms(1), of rid] assms(3) by auto
  have ns: "status ?r \<noteq> WAITING_FOR_STREAMING_REQ" using assms(3) by (auto simp: is_finished_def status_is_finished_def)
  show ?thesis
    using assms(4) ns
  proof (cases rule: handle_stopped_cases)
    case (ended q)
    then show ?thesis using assms(3) wf_set_object [OF assms(1), of rid "?r\<lparr>streaming_queue := q\<rparr>"] by (simp add: same_id_def is_finished_def)
  next
    case (continued r)
    have u: "\<not> is_finished r" using continued(3) by (auto simp: is_finished_def status_is_finished_def)
    have "wf_sched R extra s'" unfolding continued(4)
      by (rule wf_enqueue [OF assms(1,2) nin continued(2) _ u]) (use continued(3) ns in auto)
    then show ?thesis using continued u by (simp add: enqueue_frame)
  qed
qed

section \<open>Freeing requests\<close>

lemma connector_finished_frame:
  assumes "connector_finished cfg env rid s = Inr (res, s')"
  shows "\<exists>km c. s' = s\<lparr>kv_cache_manager := km, connector := c\<rparr>"
proof (cases "connector s")
  case None
  then show ?thesis using assms
    by (intro exI [of _ "kv_cache_manager s"] exI [of _ "connector s"]) (simp add: connector_finished_def)
next
  case (Some c)
  then show ?thesis using assms by (simp add: connector_finished_def Let_def rbind_eq_Inr split_def) blast
qed

lemma free_blocks_of_frame:
  "free_blocks_of rid s = Inr s' \<Longrightarrow> is_finished (objects s rid) \<and> rid \<in> set (requests s)
     \<and> (\<exists>km. km_free (objects s rid) (kv_cache_manager s) = Inr km \<and> s' = s\<lparr>kv_cache_manager := km, requests := remove1 rid (requests s)\<rparr>)"
  by (auto simp: free_blocks_of_def rbind_eq_Inr)

lemma free_request_frame:
  assumes "free_request cfg env rid delay s = Inr (params, s')"
  shows "is_finished (objects s rid)" "objects s' = objects s" "waiting s' = waiting s" "skipped_waiting s' = skipped_waiting s" "running s' = running s"
    "num_waiting_for_streaming_input s' = num_waiting_for_streaming_input s"
    "requests s' = requests s \<or> rid \<in> set (requests s) \<and> requests s' = remove1 rid (requests s)"
    "pause s' = pause s" "finished_req_ids s' = insert rid (finished_req_ids s)"
proof -
  obtain b p s1 em where f: "is_finished (objects s rid)" "connector_finished cfg env rid s = Inr ((b, p), s1)"
     "em_free (objects s1 rid) (encoder_cache_manager s1) = Inr em"
     "(if delay \<or> b then Inr (note_finished rid (s1\<lparr>encoder_cache_manager := em\<rparr>)) else free_blocks_of rid (note_finished rid (s1\<lparr>encoder_cache_manager := em\<rparr>))) = Inr s'"
    using assms by (auto simp: free_request_def rbind_eq_Inr Let_def)
  obtain km c where s1: "s1 = s\<lparr>kv_cache_manager := km, connector := c\<rparr>" using connector_finished_frame [OF f(2)] by blast
  show "is_finished (objects s rid)" by (rule f(1))
  show "objects s' = objects s" "waiting s' = waiting s" "skipped_waiting s' = skipped_waiting s" "running s' = running s"
    "num_waiting_for_streaming_input s' = num_waiting_for_streaming_input s"
    "requests s' = requests s \<or> rid \<in> set (requests s) \<and> requests s' = remove1 rid (requests s)"
    "pause s' = pause s" "finished_req_ids s' = insert rid (finished_req_ids s)"
    using f(4) by (auto simp: s1 note_finished_def Let_def split: if_splits dest!: free_blocks_of_frame)
qed

lemma wf_remove:
  assumes "wf_sched R extra s" and "is_finished (objects s rid)"
    and "objects s' = objects s" "waiting s' = waiting s" "skipped_waiting s' = skipped_waiting s"
    "num_waiting_for_streaming_input s' = num_waiting_for_streaming_input s"
    "requests s' = requests s \<or> rid \<in> set (requests s) \<and> requests s' = remove1 rid (requests s)"
  shows "wf_sched R extra s'"
  using assms queues_remove [of "requests s" "objects s" R _ _ rid] by (auto simp: wf_sched_def)

lemma free_request_wf:
  "wf_sched R extra s \<Longrightarrow> free_request cfg env rid delay s = Inr (params, s') \<Longrightarrow> wf_sched R extra s'"
  by (rule wf_remove [OF _ free_request_frame(1-4,6,7)])

lemma free_blocks_of_wf: "wf_sched R extra s \<Longrightarrow> free_blocks_of rid s = Inr s' \<Longrightarrow> wf_sched R extra s'"
  by (frule free_blocks_of_frame) (rule wf_remove [of R extra s rid], auto)

section \<open>Finishing requests\<close>

text \<open>Marking a set of requests as finished takes them out of the queues.\<close>

definition finish_all :: "request_status \<Rightarrow> string set \<Rightarrow> (string \<Rightarrow> request) \<Rightarrow> string \<Rightarrow> request" where
  "finish_all st V ob x = (if x \<in> V then (ob x)\<lparr>status := st\<rparr> else ob x)"

lemma finish_all_insert: "x \<notin> V \<Longrightarrow> finish_all st (insert x V) ob = finish_all st V (ob(x := (ob x)\<lparr>status := st\<rparr>))"
  by (auto simp: finish_all_def fun_eq_iff)

lemma finish_all_empty [simp]: "finish_all st {} ob = ob"
  by (auto simp: finish_all_def fun_eq_iff)

lemma filter_mset_conj: "filter_mset P (filter_mset Q M) = filter_mset (\<lambda>x. P x \<and> Q x) M"
  by (induction M) auto

lemma queues_finish_all:
  assumes "queues_ok reqs ob R W n" and "status_is_finished st" and "distinct V" "set V \<subseteq> set reqs"
  shows "queues_ok reqs (finish_all st (set V) ob) (filter_mset (\<lambda>x. x \<notin> set V) R) (filter_mset (\<lambda>x. x \<notin> set V) W)
     (n - int (length (filter (\<lambda>x. status (ob x) = WAITING_FOR_STREAMING_REQ) V)))"
proof -
  note Q = queues_okD [OF assms(1)]
  let ?ob = "finish_all st (set V) ob" and ?S = "\<lambda>x. status (ob x) = WAITING_FOR_STREAMING_REQ"
  have st: "st \<noteq> WAITING_FOR_STREAMING_REQ" using assms(2) by (auto simp: status_is_finished_def)
  have "filter_mset (\<lambda>x. x \<notin> set V) R + filter_mset (\<lambda>x. x \<notin> set V) W = filter_mset (\<lambda>x. x \<notin> set V) (filter_mset (\<lambda>x. \<not> is_finished (ob x)) (mset reqs))"
    unfolding Q(4) [symmetric] by simp
  also have "\<dots> = filter_mset (\<lambda>x. \<not> is_finished (?ob x)) (mset reqs)"
    unfolding filter_mset_conj using assms(2) by (intro filter_mset_cong) (auto simp: finish_all_def is_finished_def)
  finally have RW: "filter_mset (\<lambda>x. x \<notin> set V) R + filter_mset (\<lambda>x. x \<notin> set V) W = filter_mset (\<lambda>x. \<not> is_finished (?ob x)) (mset reqs)" .
  have V: "filter_mset (\<lambda>x. x \<in> set V) (mset reqs) = mset V"
  proof -
    have "filter_mset (\<lambda>x. x \<in> set V) (mset reqs) = mset (filter (\<lambda>x. x \<in> set V) reqs)" by simp
    also have "\<dots> = mset V" using Q(1) assms(3,4) by (subst set_eq_iff_mset_eq_distinct [symmetric]) auto
    finally show ?thesis .
  qed
  have "filter_mset ?S (mset reqs) = filter_mset (\<lambda>x. status (?ob x) = WAITING_FOR_STREAMING_REQ) (mset reqs) + filter_mset ?S (mset V)"
  proof -
    have "filter_mset ?S (mset reqs) = filter_mset (\<lambda>x. x \<notin> set V) (filter_mset ?S (mset reqs)) + filter_mset (\<lambda>x. \<not> x \<notin> set V) (filter_mset ?S (mset reqs))"
      by (rule multiset_partition)
    moreover have "filter_mset (\<lambda>x. x \<notin> set V) (filter_mset ?S (mset reqs)) = filter_mset (\<lambda>x. status (?ob x) = WAITING_FOR_STREAMING_REQ) (mset reqs)"
      unfolding filter_mset_conj using st by (intro filter_mset_cong) (auto simp: finish_all_def)
    moreover have "filter_mset (\<lambda>x. \<not> x \<notin> set V) (filter_mset ?S (mset reqs)) = filter_mset ?S (filter_mset (\<lambda>x. x \<in> set V) (mset reqs))"
      unfolding filter_mset_conj by (intro filter_mset_cong) auto
    ultimately show ?thesis unfolding V by simp
  qed
  then have "size (filter_mset ?S (mset reqs)) = size (filter_mset (\<lambda>x. status (?ob x) = WAITING_FOR_STREAMING_REQ) (mset reqs)) + length (filter ?S V)"
    by (metis mset_filter size_mset size_union)
  then have n: "n - int (length (filter ?S V)) = int (size (filter_mset (\<lambda>x. status (?ob x) = WAITING_FOR_STREAMING_REQ) (mset reqs)))"
    using assms(1) by (simp add: queues_ok_def)
  have "inj_on (\<lambda>x. object_id (?ob x)) (set reqs) = inj_on (\<lambda>x. object_id (ob x)) (set reqs)" "named ?ob (set reqs)"
    using Q(2) by (auto simp: finish_all_def intro!: inj_on_cong)
  then show ?thesis unfolding queues_ok_def n using Q(1,3,5,6) RW by (auto simp: finish_all_def)
qed

text \<open>The ids that the first pass collects.\<close>

definition unfinished_of :: "'c scheduler \<Rightarrow> string list \<Rightarrow> string list" where
  "unfinished_of s ids = filter (\<lambda>x. x \<in> set (requests s) \<and> \<not> is_finished (objects s x)) ids"

definition streaming_of :: "'c scheduler \<Rightarrow> string list \<Rightarrow> int" where
  "streaming_of s V = int (length (filter (\<lambda>x. status (objects s x) = WAITING_FOR_STREAMING_REQ) V))"

lemma finish_collect_all:
  "fold finish_collect ids (s\<lparr>num_waiting_for_streaming_input := k\<rparr>, run, wait, valid) =
     (s\<lparr>num_waiting_for_streaming_input := k - streaming_of s (unfinished_of s ids)\<rparr>,
      run @ filter (\<lambda>x. status (objects s x) = RUNNING) (unfinished_of s ids),
      wait @ filter (\<lambda>x. status (objects s x) \<noteq> RUNNING) (unfinished_of s ids), valid @ unfinished_of s ids)"
  by (induction ids arbitrary: k run wait valid)
    (auto simp: finish_collect_def get_request_def unfinished_of_def streaming_of_def)

text \<open>The second pass frees the requests one by one; those still to come count as finished.\<close>

lemma finish_one_frame:
  assumes "finish_one cfg env st rid s = Inr s'"
  shows "objects s' = (objects s)(rid := (objects s rid)\<lparr>status := st\<rparr>)" "waiting s' = waiting s" "skipped_waiting s' = skipped_waiting s"
    "running s' = running s" "num_waiting_for_streaming_input s' = num_waiting_for_streaming_input s"
    "requests s' = requests s \<or> rid \<in> set (requests s) \<and> requests s' = remove1 rid (requests s)" "pause s' = pause s"
proof -
  define s1 where "s1 = set_object rid ((objects s rid)\<lparr>status := st\<rparr>) (if status (objects s rid) = WAITING_FOR_REMOTE_KVS
      then s\<lparr>finished_recving_kv_req_ids := finished_recving_kv_req_ids s - {rid}, failed_recving_kv_req_ids := failed_recving_kv_req_ids s - {rid}\<rparr> else s)"
  obtain d p where f: "free_request cfg env rid d s1 = Inr (p, s')"
    using assms by (auto simp: finish_one_def Let_def rbind_eq_Inr s1_def)
  note F = free_request_frame [OF f]
  show "objects s' = (objects s)(rid := (objects s rid)\<lparr>status := st\<rparr>)" "waiting s' = waiting s" "skipped_waiting s' = skipped_waiting s"
    "running s' = running s" "num_waiting_for_streaming_input s' = num_waiting_for_streaming_input s"
    "requests s' = requests s \<or> rid \<in> set (requests s) \<and> requests s' = remove1 rid (requests s)" "pause s' = pause s"
    using F by (cases "status (objects s rid) = WAITING_FOR_REMOTE_KVS"; simp add: s1_def)+
qed

lemma finish_rest_wf:
  assumes "rfold (finish_one cfg env st) V s = Inr s'" and "distinct V" and "status_is_finished st"
    and "wf_sched R [] (s\<lparr>objects := finish_all st (set V) (objects s)\<rparr>)"
  shows "wf_sched R [] s' \<and> running s' = running s \<and> waiting s' = waiting s \<and> skipped_waiting s' = skipped_waiting s \<and> pause s' = pause s
     \<and> objects s' = finish_all st (set V) (objects s) \<and> set (requests s') \<subseteq> set (requests s)"
  using assms
proof (induction V arbitrary: s)
  case (Cons x V)
  then obtain s1 where s1: "finish_one cfg env st x s = Inr s1" "rfold (finish_one cfg env st) V s1 = Inr s'" by (auto simp: rbind_eq_Inr)
  note F = finish_one_frame [OF s1(1)]
  have ob: "finish_all st (set V) (objects s1) = finish_all st (set (x # V)) (objects s)"
    using Cons.prems(2) F(1) finish_all_insert [of x "set V" st "objects s"] by simp
  have fx: "is_finished (finish_all st (set (x # V)) (objects s) x)" using Cons.prems(3) by (simp add: finish_all_def is_finished_def)
  have "wf_sched R [] (s1\<lparr>objects := finish_all st (set V) (objects s1)\<rparr>)"
    by (rule wf_remove [OF Cons.prems(4), of x]) (use F ob fx in simp_all)
  then have "wf_sched R [] s' \<and> running s' = running s1 \<and> waiting s' = waiting s1 \<and> skipped_waiting s' = skipped_waiting s1 \<and> pause s' = pause s1
     \<and> objects s' = finish_all st (set V) (objects s1) \<and> set (requests s') \<subseteq> set (requests s1)"
    using Cons.IH [OF s1(2)] Cons.prems by simp
  moreover have "set (requests s1) \<subseteq> set (requests s)" using F(6) set_remove1_subset [of x "requests s"] by auto
  ultimately show ?case using F ob by auto
qed (simp add: finish_all_def)

lemma mset_remove_all: "distinct xs \<Longrightarrow> mset (remove_all xs ys) = filter_mset (\<lambda>x. x \<notin> set ys) (mset xs)"
  using remove_all_filter [of xs ys] by simp

lemma finish_requests_wf:
  assumes wf: "wf_sched (mset (running s)) [] s" and fin: "finish_requests cfg env ids st s = Inr (res, s')"
    and V: "V = unfinished_of s (case ids of None \<Rightarrow> requests s | Some is \<Rightarrow> remdups is)"
  shows "wf_sched (mset (running s')) [] s'" "mset (running s') = filter_mset (\<lambda>x. x \<notin> set V) (mset (running s))"
    "mset (waiting s') = filter_mset (\<lambda>x. x \<notin> set V) (mset (waiting s))" "mset (skipped_waiting s') = filter_mset (\<lambda>x. x \<notin> set V) (mset (skipped_waiting s))"
    "objects s' = finish_all st (set V) (objects s)" "set (requests s') \<subseteq> set (requests s)" "res = map (\<lambda>x. (x, client_index (objects s x))) V" "pause s' = pause s"
proof -
  let ?ids = "case ids of None \<Rightarrow> requests s | Some is \<Rightarrow> remdups is"
  let ?run = "filter (\<lambda>x. status (objects s x) = RUNNING) V" and ?wait = "filter (\<lambda>x. status (objects s x) \<noteq> RUNNING) V"
  let ?s0 = "s\<lparr>num_waiting_for_streaming_input := num_waiting_for_streaming_input s - streaming_of s V\<rparr>"
  define s1 where "s1 = drop_from_queues cfg ?run ?wait ?s0"
  have q: "queues_ok (requests s) (objects s) (mset (running s)) (mset (waiting s) + mset (skipped_waiting s)) (num_waiting_for_streaming_input s)"
    using wf by (simp add: wf_sched_def)
  note Q = queues_okD [OF q]
  have dV: "distinct V" "set V \<subseteq> set (requests s)" "\<And>x. x \<in> set V \<Longrightarrow> \<not> is_finished (objects s x)"
    using Q(1) by (auto simp: V unfinished_of_def split: option.splits)
  have "s = s\<lparr>num_waiting_for_streaming_input := num_waiting_for_streaming_input s\<rparr>" by simp
  then have "fold finish_collect ?ids (s, [], [], []) = (?s0, ?run, ?wait, V)"
    using finish_collect_all [of ?ids "num_waiting_for_streaming_input s" s "[]" "[]" "[]"] by (simp add: V)
  then have st: "status_is_finished st" and r: "rfold (finish_one cfg env st) V s1 = Inr s'" and res: "res = map (\<lambda>x. (x, client_index (objects s x))) V"
    using fin by (auto simp: finish_requests_def rbind_eq_Inr s1_def)
  have dr: "distinct (running s)" using wf_once(5) [OF wf] by (auto simp: distinct_count_atmost_1 le_Suc_eq)
  have run: "mset (running s1) = filter_mset (\<lambda>x. x \<notin> set V) (mset (running s))"
  proof -
    have "mset (running s1) = filter_mset (\<lambda>x. x \<notin> set ?run) (mset (running s))"
      using mset_remove_all [OF dr, of ?run] by (cases "?run = []") (simp_all add: s1_def drop_from_queues_def Let_def del: set_filter)
    also have "\<dots> = filter_mset (\<lambda>x. x \<notin> set V) (mset (running s))" using Q(5) by (intro filter_mset_cong) auto
    finally show ?thesis .
  qed
  have queue: "mset (queue_remove_requests (policy cfg) (objects s) ?wait q) = filter_mset (\<lambda>x. x \<notin> set V) (mset q)"
    if "q = waiting s \<or> q = skipped_waiting s" for q
  proof -
    have qr: "set q \<subseteq> set (requests s)" "\<And>x. x \<in> set q \<Longrightarrow> status (objects s x) \<noteq> RUNNING" using that wf_status(2) [OF wf] by auto
    have "mset (queue_remove_requests (policy cfg) (objects s) ?wait q) = filter_mset (\<lambda>x. x \<notin> set ?wait) (mset q)"
      by (rule queue_remove_mset) (use Q(2) dV(2) qr(1) in \<open>auto intro: inj_on_subset [OF Q(3)]\<close>)
    also have "\<dots> = filter_mset (\<lambda>x. x \<notin> set V) (mset q)" using qr(2) by (intro filter_mset_cong) auto
    finally show ?thesis .
  qed
  have keep: "?wait = [] \<Longrightarrow> filter_mset (\<lambda>x. x \<notin> set V) (mset q) = mset q" if "q = waiting s \<or> q = skipped_waiting s" for q
    using that wf_status(2) [OF wf] by (intro filter_mset_eq_conv [THEN iffD2]) (auto simp: filter_empty_conv)
  have wait: "mset (waiting s1) = filter_mset (\<lambda>x. x \<notin> set V) (mset (waiting s))"
    "mset (skipped_waiting s1) = filter_mset (\<lambda>x. x \<notin> set V) (mset (skipped_waiting s))"
    using queue keep by (auto simp: s1_def drop_from_queues_def Let_def)
  have same: "requests s1 = requests s" "objects s1 = objects s" "num_waiting_for_streaming_input s1 = num_waiting_for_streaming_input s - streaming_of s V"
    by (simp_all add: s1_def drop_from_queues_def Let_def)
  have "wf_sched (mset (running s1)) [] (s1\<lparr>objects := finish_all st (set V) (objects s1)\<rparr>)"
  proof -
    have "set (waiting s1) \<subseteq> set (waiting s) - set V" using arg_cong [OF wait(1), of set_mset] by auto
    then have "\<forall>x \<in> set (waiting s1). \<not> is_blocked_waiting_status (status (finish_all st (set V) (objects s) x))"
      using wf by (auto simp: wf_sched_def finish_all_def)
    then show ?thesis using queues_finish_all [OF q st dV(1,2)] by (simp add: wf_sched_def same run wait streaming_of_def)
  qed
  note F = finish_rest_wf [OF r dV(1) st this]
  show "wf_sched (mset (running s')) [] s'" "mset (running s') = filter_mset (\<lambda>x. x \<notin> set V) (mset (running s))"
    "mset (waiting s') = filter_mset (\<lambda>x. x \<notin> set V) (mset (waiting s))" "mset (skipped_waiting s') = filter_mset (\<lambda>x. x \<notin> set V) (mset (skipped_waiting s))"
    "objects s' = finish_all st (set V) (objects s)" "set (requests s') \<subseteq> set (requests s)" "res = map (\<lambda>x. (x, client_index (objects s x))) V" "pause s' = pause s"
    using F run wait same res by (simp_all add: s1_def drop_from_queues_def Let_def)
qed

lemma sched_inv_finish:
  assumes "sched_inv cfg s" and "finish_requests cfg env ids st s = Inr (res, s')"
  shows "sched_inv cfg s'"
proof -
  have wf: "wf_sched (mset (running s)) [] s" using assms(1) by (simp add: sched_inv_def)
  note F = finish_requests_wf [OF wf assms(2) refl]
  have "length (running s') \<le> length (running s)" using arg_cong [OF F(2), of size] size_filter_mset_lesseq [of _ "mset (running s)"] by simp
  then show ?thesis using F(1) assms(1) by (simp add: sched_inv_def)
qed

section \<open>Adding requests\<close>

text \<open>A request object from the engine: new, and in its first status.\<close>

definition fresh_request :: "request \<Rightarrow> 'c scheduler \<Rightarrow> bool" where
  "fresh_request r s \<longleftrightarrow> status r \<in> {WAITING, WAITING_FOR_FSM} \<and> object_id r \<notin> (\<lambda>x. object_id (objects s x)) ` set (requests s)
     \<and> num_computed_tokens r = 0"

lemma sched_inv_add:
  assumes "sched_inv cfg s" and "fresh_request r s" and "add_request cfg env r s = Inr s'"
  shows "sched_inv cfg s'"
proof -
  let ?x = "request_id r"
  have wf: "wf_sched (mset (running s)) [] s" using assms(1) by (simp add: sched_inv_def)
  consider (new) "?x \<notin> set (requests s)" | (queued) "?x \<in> set (requests s)" "status (objects s ?x) \<noteq> WAITING_FOR_STREAMING_REQ"
    | (waiting) "?x \<in> set (requests s)" "status (objects s ?x) = WAITING_FOR_STREAMING_REQ" by blast
  then show ?thesis
  proof cases
    case new
    let ?r = "if resumable r then r\<lparr>streaming_queue := Some []\<rparr> else r"
    let ?s1 = "set_object ?x ?r s"
    let ?s2 = "enqueue_waiting_request cfg ?x ?s1"
    have s': "s' = ?s2\<lparr>requests := requests ?s2 @ [?x]\<rparr>" using assms(3) new by (simp add: add_request_def get_request_def Let_def)
    have "named (objects ?s1) (insert ?x (set (waiting ?s1) \<union> set (skipped_waiting ?s1)))" using wf_schedD(1,2) [OF wf] by auto
    note E = enqueue_mset [OF this, of cfg]
    have "queues_ok (requests s @ [?x]) ((objects s)(?x := ?r)) (mset (running s)) (add_mset ?x (mset (waiting s) + mset (skipped_waiting s))) (num_waiting_for_streaming_input s)"
      by (rule queues_add) (use wf new assms(2) in \<open>auto simp: wf_sched_def fresh_request_def\<close>)
    moreover have "\<forall>x \<in> set (waiting ?s2). \<not> is_blocked_waiting_status (status (((objects s)(?x := ?r)) x))"
      using E(2) wf new wf_schedD(4) [OF wf] by (auto simp: wf_sched_def split: if_splits)
    ultimately show ?thesis using E(1) assms(1) unfolding s' by (simp add: sched_inv_def wf_sched_def enqueue_frame)
  next
    case queued
    then obtain q where "s' = set_object ?x ((objects s ?x)\<lparr>streaming_queue := q\<rparr>) s"
      using assms(3) by (auto simp: add_request_def get_request_def Let_def split: option.splits)
    then show ?thesis using wf_set_object [OF wf] assms(1) by (simp add: sched_inv_def same_id_def)
  next
    case waiting
    show ?thesis
    proof (cases "streaming_update_from_request r")
      case None
      then obtain res where "finish_requests cfg env (Some [?x]) FINISHED_ABORTED s = Inr (res, s')"
        using assms(3) waiting by (auto simp: add_request_def get_request_def Let_def rbind_eq_Inr)
      then show ?thesis by (rule sched_inv_finish [OF assms(1)])
    next
      case (Some u)
      then have "sched_update_request_as_session env ?x u s = Inr s'" using assms(3) waiting by (simp add: add_request_def get_request_def Let_def)
      then obtain r' where f: "same_id (objects s ?x) r'" "status r' = WAITING"
         "s' = s\<lparr>objects := (objects s)(?x := r'), num_waiting_for_streaming_input := num_waiting_for_streaming_input s - streams (objects s ?x)\<rparr>"
        using session_frame by blast
      have u: "\<not> is_finished (objects s ?x)" "\<not> is_finished r'" using waiting f(2) by (auto simp: is_finished_def status_is_finished_def)
      have x: "?x \<in> set (skipped_waiting s)" "?x \<notin> set (waiting s)" "?x \<notin># mset (running s)"
        using wf_status(4) [OF wf waiting(1) u(1)] waiting(2) wf wf_once(3) [OF wf] by (auto simp: wf_sched_def is_blocked_waiting_status_def)
      have "wf_sched (mset (running s)) [] s'"
        by (rule wf_update [OF wf waiting(1) f(1)])
          (use f x u(2) wf in \<open>auto simp: diff_single_trivial wf_sched_def is_blocked_waiting_status_def\<close>)
      then show ?thesis using assms(1) f(3) by (simp add: sched_inv_def)
    qed
  qed
qed

section \<open>Promoting blocked requests\<close>

lemma update_waiting_for_remote_frame:
  assumes "update_waiting_for_remote_kv env rid s = Inr s'"
  shows "\<exists>r km rec fail. s' = s\<lparr>kv_cache_manager := km, objects := (objects s)(rid := r), finished_recving_kv_req_ids := rec, failed_recving_kv_req_ids := fail\<rparr>
     \<and> same_id (objects s rid) r \<and> status r = status (objects s rid) \<and> num_preemptions r = num_preemptions (objects s rid)"
proof -
  let ?r = "objects s rid"
  have keep: "same_id ?r r' \<and> status r' = status ?r \<and> num_preemptions r' = num_preemptions ?r" if "memo_ext ?r r'" for r'
    using that by (auto simp: memo_ext_def same_id_def)
  let ?fix = "\<lambda>r. let r = (if num_computed_tokens r = int (num_tokens r) then r\<lparr>num_computed_tokens := int (num_tokens r) - 1\<rparr> else r)
      in if num_cached_tokens r < 0 then r\<lparr>num_cached_tokens := num_computed_tokens r\<rparr> else r"
  have fixed: "same_id ?r (?fix r') \<and> status (?fix r') = status ?r \<and> num_preemptions (?fix r') = num_preemptions ?r" if "memo_ext ?r r'" for r'
    using keep [OF that] by (simp add: Let_def same_id_def)
  show ?thesis
  proof (cases "rid \<in> failed_recving_kv_req_ids s")
    case True
    obtain r km where r: "memo_ext ?r r" "s' = set_object rid r (s\<lparr>kv_cache_manager := km, failed_recving_kv_req_ids := failed_recving_kv_req_ids s - {rid}\<rparr>)
        \<lparr>finished_recving_kv_req_ids := finished_recving_kv_req_ids s - {rid}\<rparr>"
    proof (cases "num_computed_tokens ?r = 0")
      case zero: True
      then obtain km where "s' = set_object rid ?r (s\<lparr>kv_cache_manager := km, failed_recving_kv_req_ids := failed_recving_kv_req_ids s - {rid}\<rparr>)
          \<lparr>finished_recving_kv_req_ids := finished_recving_kv_req_ids s - {rid}\<rparr>"
        using assms True by (auto simp: update_waiting_for_remote_kv_def Let_def rbind_eq_Inr)
      then show ?thesis by (rule that [OF memo_ext_refl])
    next
      case nonzero: False
      then show ?thesis using assms True that
        by (auto simp: update_waiting_for_remote_kv_def Let_def rbind_eq_Inr dest: km_cache_blocks_memo)
    qed
    then show ?thesis using keep [OF r(1)]
      by (intro exI [of _ r] exI [of _ km] exI [of _ "finished_recving_kv_req_ids s - {rid}"] exI [of _ "failed_recving_kv_req_ids s - {rid}"])
        (simp add: set_object_def)
  next
    case False
    then obtain r km where r: "km_cache_blocks (env_hash env) ?r (num_computed_tokens ?r) (kv_cache_manager s) = Inr (r, km)"
       "s' = set_object rid (?fix r) (s\<lparr>kv_cache_manager := km\<rparr>)\<lparr>finished_recving_kv_req_ids := finished_recving_kv_req_ids s - {rid}\<rparr>"
      using assms by (fastforce simp: update_waiting_for_remote_kv_def Let_def rbind_eq_Inr)
    then have "s' = s\<lparr>kv_cache_manager := km, objects := (objects s)(rid := ?fix r), finished_recving_kv_req_ids := finished_recving_kv_req_ids s - {rid},
        failed_recving_kv_req_ids := failed_recving_kv_req_ids s\<rparr>" by (simp add: set_object_def)
    then show ?thesis using fixed [OF km_cache_blocks_memo [OF r(1)]] by blast
  qed
qed

text \<open>A promoted request changes its status only; a request that stays blocked does not change.\<close>

definition promoted :: "string \<Rightarrow> 'c scheduler \<Rightarrow> 'c scheduler \<Rightarrow> bool" where
  "promoted rid s s' \<longleftrightarrow> (\<exists>r km rec fail.
     s' = s\<lparr>kv_cache_manager := km, objects := (objects s)(rid := r), finished_recving_kv_req_ids := rec, failed_recving_kv_req_ids := fail\<rparr>
     \<and> same_id (objects s rid) r \<and> status r \<in> {WAITING, PREEMPTED} \<and> status (objects s rid) \<noteq> WAITING_FOR_STREAMING_REQ)"

lemma promotedI:
  assumes "s' = s\<lparr>kv_cache_manager := km, objects := (objects s)(rid := r), finished_recving_kv_req_ids := rec, failed_recving_kv_req_ids := fail\<rparr>"
    and "same_id (objects s rid) r" "status r \<in> {WAITING, PREEMPTED}" "status (objects s rid) \<noteq> WAITING_FOR_STREAMING_REQ"
  shows "promoted rid s s'"
  using assms unfolding promoted_def by blast

lemma try_promote_frame:
  assumes "try_promote_blocked_waiting_request env rid s = Inr (ready, s')"
  shows "if ready then promoted rid s s' else s' = s"
proof (cases "status (objects s rid)")
  case WAITING_FOR_REMOTE_KVS
  show ?thesis
  proof (cases "rid \<in> finished_recving_kv_req_ids s")
    case True
    then obtain s1 where s1: "update_waiting_for_remote_kv env rid s = Inr s1" "ready"
       "s' = set_object rid ((objects s1 rid)\<lparr>status := (if num_preemptions (objects s1 rid) \<noteq> 0 then PREEMPTED else WAITING)\<rparr>) s1"
      using assms WAITING_FOR_REMOTE_KVS by (auto simp: try_promote_blocked_waiting_request_def Let_def rbind_eq_Inr)
    obtain r km rec fail where f: "s1 = s\<lparr>kv_cache_manager := km, objects := (objects s)(rid := r), finished_recving_kv_req_ids := rec, failed_recving_kv_req_ids := fail\<rparr>"
       "same_id (objects s rid) r" using update_waiting_for_remote_frame [OF s1(1)] by blast
    let ?r = "r\<lparr>status := (if num_preemptions r \<noteq> 0 then PREEMPTED else WAITING)\<rparr>"
    have "promoted rid s s'" by (rule promotedI [where r = ?r and km = km and rec = rec and fail = fail])
        (use s1(3) f(2) WAITING_FOR_REMOTE_KVS in \<open>auto simp: f(1) set_object_def same_id_def\<close>)
    then show ?thesis using s1(2) by simp
  qed (use assms WAITING_FOR_REMOTE_KVS in \<open>simp add: try_promote_blocked_waiting_request_def\<close>)
next
  case WAITING_FOR_FSM
  let ?r = "(objects s rid)\<lparr>status := WAITING\<rparr>"
  have "promoted rid s (set_object rid ?r s)"
    by (rule promotedI [where r = ?r and km = "kv_cache_manager s" and rec = "finished_recving_kv_req_ids s" and fail = "failed_recving_kv_req_ids s"])
      (use WAITING_FOR_FSM in \<open>auto simp: set_object_def same_id_def\<close>)
  then show ?thesis using assms WAITING_FOR_FSM by (auto simp: try_promote_blocked_waiting_request_def Let_def split: if_splits)
qed (use assms in \<open>simp_all add: try_promote_blocked_waiting_request_def Let_def rbind_eq_Inr\<close>)

lemma promoted_wf:
  assumes "wf_sched R extra s" and "promoted rid s s'" and "rid \<in> set (waiting s) \<union> set (skipped_waiting s) \<union> set extra"
  shows "wf_sched R extra s'"
proof -
  obtain r km rec fail where f: "s' = s\<lparr>kv_cache_manager := km, objects := (objects s)(rid := r), finished_recving_kv_req_ids := rec, failed_recving_kv_req_ids := fail\<rparr>"
    "same_id (objects s rid) r" "status r \<in> {WAITING, PREEMPTED}" "status (objects s rid) \<noteq> WAITING_FOR_STREAMING_REQ"
    using assms(2) by (auto simp: promoted_def)
  have rid: "rid \<in> set (requests s)" "rid \<notin># R" using wf_status(1,2) [OF assms(1), of rid] assms(3) by auto
  have u: "\<not> is_finished r" "status r \<noteq> RUNNING" "\<not> is_blocked_waiting_status (status r)"
    using f(3) by (auto simp: is_finished_def status_is_finished_def is_blocked_waiting_status_def)
  have "rid \<in># mset (waiting s) + mset (skipped_waiting s) + mset extra" using assms(3) by auto
  then show ?thesis
    by (intro wf_update [OF assms(1) rid(1) f(2)]) (use f u rid(2) assms(1) in \<open>auto simp: diff_single_trivial wf_sched_def\<close>)
qed

section \<open>Resets and draft tokens\<close>

lemma preempt_request_fields:
  assumes "preempt_request cfg rid s = Inr s'"
  shows "running s' = running s" "requests s' = requests s" "pause s' = pause s" "skipped_waiting s' = skipped_waiting s"
    "objects s' = (objects s)(rid := (objects s rid)\<lparr>status := PREEMPTED, num_computed_tokens := 0, spec_token_ids := [],
         num_preemptions := num_preemptions (objects s rid) + 1\<rparr>)"
  using assms by (auto simp: preempt_request_def Let_def rbind_eq_Inr set_object_def)

lemma preempt_last_inv:
  assumes "sched_inv cfg s" and "running s \<noteq> []" and "preempt_last cfg s = Inr s'"
  shows "sched_inv cfg s' \<and> running s' = butlast (running s)"
proof -
  let ?x = "last (running s)" and ?s = "s\<lparr>running := butlast (running s)\<rparr>"
  obtain s1 where s1: "preempt_request cfg ?x ?s = Inr s1"
     "s' = set_object ?x ((objects s1 ?x)\<lparr>num_output_placeholders := 0, discard_latest_async_tokens := True\<rparr>) s1"
    using assms(3) by (auto simp: preempt_last_def Let_def rbind_eq_Inr)
  have m: "mset (running s) = add_mset ?x (mset (butlast (running s)))"
    using arg_cong [OF append_butlast_last_id [OF assms(2)], of mset] by simp
  have "wf_sched (mset (running s)) [] ?s" using assms(1) by (simp add: sched_inv_def wf_sched_def)
  then have "wf_sched (mset (running s) - {#?x#}) [] s1" by (rule preempt_request_wf(1) [OF _ _ s1(1)]) (use assms(2) in simp)
  moreover have "running s1 = butlast (running s)" using preempt_request_fields(1) [OF s1(1)] by simp
  ultimately show ?thesis using wf_set_object [of "mset (butlast (running s))" "[]" s1 ?x] assms(1) m
    by (auto simp: sched_inv_def s1(2) same_id_def)
qed

lemma sched_inv_cong:
  assumes "sched_inv cfg s" and "requests s' = requests s" "objects s' = objects s" "waiting s' = waiting s"
    "skipped_waiting s' = skipped_waiting s" "running s' = running s" "num_waiting_for_streaming_input s' = num_waiting_for_streaming_input s"
  shows "sched_inv cfg s'"
  using assms by (simp add: sched_inv_def wf_sched_def)

lemma reset_connector_inv:
  assumes "sched_inv cfg s" and "reset_connector_cache cfg env s = Inr (ok, s')"
  shows "sched_inv cfg s' \<and> running s' = running s"
proof -
  have "running s' = running s" "requests s' = requests s" "objects s' = objects s" "waiting s' = waiting s"
    "skipped_waiting s' = skipped_waiting s" "num_waiting_for_streaming_input s' = num_waiting_for_streaming_input s"
    using assms(2) by (auto simp: reset_connector_cache_def Let_def split: if_splits prod.splits option.splits)
  then show ?thesis using sched_inv_cong [OF assms(1)] by simp
qed

lemma preempt_all_inv:
  assumes "sched_inv cfg s" and "rwhile n (\<lambda>s. running s \<noteq> []) (preempt_last cfg) s = Inr s'"
  shows "sched_inv cfg s' \<and> running s' = []"
  using rwhile_invariant [OF assms(2), of "sched_inv cfg"] assms(1) preempt_last_inv by blast

lemma sched_inv_reset:
  assumes "sched_inv cfg s" and "sched_reset_prefix_cache cfg env rr rc s = Inr (ok, s')"
  shows "sched_inv cfg s' \<and> (rr \<longrightarrow> running s' = [])"
proof -
  let ?loop = "rwhile (Suc (length (running s))) (\<lambda>s. running s \<noteq> []) (preempt_last cfg) s"
  define rest where "rest = (\<lambda>s. rbind (km_reset_prefix_cache (kv_cache_manager s)) (\<lambda>(b, km).
     let s = s\<lparr>kv_cache_manager := km\<rparr> in rbind (ensure (\<not> (rr \<and> \<not> b)) RuntimeError) (\<lambda>_.
     if rc then rbind (reset_connector_cache cfg env s) (\<lambda>(ok, s). Inr (ok \<and> b, s)) else Inr (b, s))))"
  obtain s1 where s1: "(if rr then rbind ?loop (\<lambda>s. Inr (s\<lparr>prev_step_scheduled_req_ids := {}\<rparr>)) else Inr s) = Inr s1" "rest s1 = Inr (ok, s')"
    using assms(2) unfolding sched_reset_prefix_cache_def rbind_eq_Inr [of "if rr then _ else _"] rest_def by blast
  obtain b km where km: "(if rc then rbind (reset_connector_cache cfg env (s1\<lparr>kv_cache_manager := km\<rparr>)) (\<lambda>(ok, s). Inr (ok \<and> b, s)) else Inr (b, s1\<lparr>kv_cache_manager := km\<rparr>)) = Inr (ok, s')"
    using s1(2) unfolding rest_def Let_def rbind_eq_Inr [of "km_reset_prefix_cache _"] split_def rbind_ensure by blast
  have i1: "sched_inv cfg s1 \<and> (rr \<longrightarrow> running s1 = [])"
  proof (cases rr)
    case True
    then obtain s0 where s0: "?loop = Inr s0" "s1 = s0\<lparr>prev_step_scheduled_req_ids := {}\<rparr>" using s1(1) by (auto simp: rbind_eq_Inr)
    then show ?thesis using preempt_all_inv [OF assms(1) s0(1)] sched_inv_cong [of cfg s0 s1] by simp
  qed (use s1(1) assms(1) in simp)
  let ?s2 = "s1\<lparr>kv_cache_manager := km\<rparr>"
  have i2: "sched_inv cfg ?s2" using sched_inv_cong [of cfg s1 ?s2] i1 by simp
  show ?thesis
  proof (cases rc)
    case True
    then obtain b' where "reset_connector_cache cfg env ?s2 = Inr (b', s')" using km by (auto simp: rbind_eq_Inr)
    then show ?thesis using reset_connector_inv [OF i2] i1 by simp
  qed (use km i1 i2 in auto)
qed

lemma sched_inv_draft: "sched_inv cfg s \<Longrightarrow> sched_inv cfg (update_draft_token_ids env ids drafts s)"
  unfolding update_draft_token_ids_def
proof (induction "zip ids drafts" arbitrary: s ids drafts)
  case Nil
  then show ?case by (simp flip: Nil.hyps)
next
  case (Cons d ds)
  obtain rid ts where d: "d = (rid, ts)" by (cases d)
  have "sched_inv cfg (update_draft_of env d s)"
    using Cons.prems wf_set_object [of "mset (running s)" "[]" s rid]
    by (auto simp: d update_draft_of_def sched_inv_def get_request_def same_id_def)
  moreover have "ds = zip (tl ids) (tl drafts)" using Cons.hyps(2) by (cases ids; cases drafts) auto
  ultimately show ?case using Cons.hyps(1) [of "tl ids" "tl drafts" "update_draft_of env d s"] by (simp flip: Cons.hyps(2))
qed

end
