(* ===== verification/Sched_Loop.thy ===== *)
theory Sched_Loop
  imports Sched_Inv
begin

text \<open>
  What a scheduling step guarantees: the number of tokens given to each request, the budget, the
  running list and the queues, through the loop over running requests with its preemptions and
  the loop over waiting requests. The assertions at the end of \<^verbatim>\<open>Scheduler.schedule\<close> follow.
\<close>

section \<open>What holds of a result\<close>

text \<open>\<open>returns P x\<close>: if the computation returns, the value satisfies \<open>P\<close>; with a rule for each construct.\<close>

definition returns :: "('a \<Rightarrow> bool) \<Rightarrow> 'a result \<Rightarrow> bool" where
  "returns P x \<longleftrightarrow> (case x of Inl _ \<Rightarrow> True | Inr y \<Rightarrow> P y)"

lemma returnsD: "returns P x \<Longrightarrow> x = Inr y \<Longrightarrow> P y"
  by (simp add: returns_def)

lemma returnsI: "(\<And>y. x = Inr y \<Longrightarrow> P y) \<Longrightarrow> returns P x"
  by (simp add: returns_def split: sum.split)

lemma returns_simps [simp]: "returns P (Inr y) = P y" "returns P (Inl e)"
  by (simp_all add: returns_def)

lemma returns_bind: "returns (\<lambda>y. returns P (f y)) x \<Longrightarrow> returns P (rbind x f)"
  by (cases x) (simp_all add: returns_def)

lemma returns_ensure: "(b \<Longrightarrow> P ()) \<Longrightarrow> returns P (ensure b e)"
  by (simp add: ensure_def)

lemma returns_if: "(b \<Longrightarrow> returns P x) \<Longrightarrow> (\<not> b \<Longrightarrow> returns P y) \<Longrightarrow> returns P (if b then x else y)"
  by simp

lemma returns_prod: "(\<And>a b. y = (a, b) \<Longrightarrow> returns P (f a b)) \<Longrightarrow> returns P (case y of (a, b) \<Rightarrow> f a b)"
  by (cases y) simp

lemma returns_option: "(y = None \<Longrightarrow> returns P x) \<Longrightarrow> (\<And>a. y = Some a \<Longrightarrow> returns P (f a)) \<Longrightarrow> returns P (case y of None \<Rightarrow> x | Some a \<Rightarrow> f a)"
  by (cases y) simp_all

lemma returns_call: "returns Q x \<Longrightarrow> (\<And>y. Q y \<Longrightarrow> P y) \<Longrightarrow> returns P x"
  by (simp add: returns_def split: sum.splits)

lemma returns_any: "(\<And>y. P y) \<Longrightarrow> returns P x"
  by (simp add: returns_def split: sum.splits)

lemma returns_while:
  assumes "I s" and "\<And>t. I t \<Longrightarrow> b t \<Longrightarrow> returns I (f t)"
  shows "returns (\<lambda>t. I t \<and> \<not> b t) (rwhile n b f s)"
  using rwhile_invariant [of n b f s _ I] assms by (auto intro: returnsI dest: returnsD)

lemma returns_fold:
  assumes "I s" and "\<And>x t. x \<in> set xs \<Longrightarrow> I t \<Longrightarrow> returns I (f x t)"
  shows "returns I (rfold f xs s)"
  using assms
proof (induction xs arbitrary: s)
  case (Cons x xs)
  have "returns I (f x s)" using Cons.prems by simp
  then show ?case unfolding rfold.simps by (intro returns_bind) (erule returns_call, rule Cons.IH, use Cons.prems(2) in auto)
qed simp

text \<open>\<open>raises P x\<close>: if the computation raises, the error satisfies \<open>P\<close>.\<close>

definition raises :: "(py_error \<Rightarrow> bool) \<Rightarrow> 'a result \<Rightarrow> bool" where
  "raises P x \<longleftrightarrow> (case x of Inl e \<Rightarrow> P e | Inr _ \<Rightarrow> True)"

lemma raisesI: "(\<And>e. x = Inl e \<Longrightarrow> P e) \<Longrightarrow> raises P x"
  by (simp add: raises_def split: sum.split)

lemma raisesD: "raises P x \<Longrightarrow> x = Inl e \<Longrightarrow> P e"
  by (simp add: raises_def)

lemma raises_Inr [simp]: "raises P (Inr y)"
  by (simp add: raises_def)

lemma raises_bind: "raises P x \<Longrightarrow> returns (\<lambda>y. raises P (f y)) x \<Longrightarrow> raises P (rbind x f)"
  by (cases x) (simp_all add: raises_def)

lemmas returns_rules = returns_bind returns_if returns_prod returns_option returns_ensure

text \<open>
  What a loop needs of its body: it keeps an invariant and lowers a rank. Then the invariant holds
  at the end, and a bound above the first rank is never reached.
\<close>

locale ranked_loop =
  fixes inv :: "'s \<Rightarrow> bool" and guard :: "'s \<Rightarrow> bool" and body :: "'s \<Rightarrow> 's result" and rank :: "'s \<Rightarrow> nat"
  assumes body_keeps: "inv t \<Longrightarrow> guard t \<Longrightarrow> returns (\<lambda>t'. inv t' \<and> rank t' < rank t) (body t)"
begin

lemma loop_returns: "inv s \<Longrightarrow> returns (\<lambda>t. inv t \<and> \<not> guard t) (rwhile n guard body s)"
  by (rule returns_while) (auto intro: returns_call [OF body_keeps])

lemma loop_error:
  assumes "inv s" and "rank s < n" and "rwhile n guard body s = Inl e"
  shows "\<exists>t. inv t \<and> guard t \<and> body t = Inl e"
  by (rule rwhile_error [where P = inv and m = rank, OF assms(3,1,2)]) (use returnsD [OF body_keeps] in blast)

end

section \<open>Numbers of tokens\<close>

text \<open>A request that can be scheduled: its computed tokens exist and are below the limit of the model.\<close>

definition tokens_ok :: "sched_config \<Rightarrow> request \<Rightarrow> bool" where
  "tokens_ok cfg r \<longleftrightarrow> 0 \<le> num_computed_tokens r \<and> num_computed_tokens r \<le> int (num_tokens r) + num_output_placeholders r
     \<and> num_computed_tokens r < sched_max_model_len cfg"

definition config_ok :: "sched_config \<Rightarrow> bool" where
  "config_ok cfg \<longleftrightarrow> 0 < cache_block_size cfg \<and> 0 \<le> max_num_scheduled_tokens cfg"

lemma running_num_new_bounds:
  assumes "tokens_ok cfg r" and "0 \<le> budget"
  shows "0 \<le> running_num_new_tokens cfg r budget" "running_num_new_tokens cfg r budget \<le> budget"
    "num_computed_tokens r + running_num_new_tokens cfg r budget < sched_max_model_len cfg"
  using assms by (auto simp: running_num_new_tokens_def Let_def tokens_ok_def num_tokens_with_spec_def num_tokens_def)

lemma encoder_loop_tokens:
  assumes "0 \<le> el_new_tokens l"
  shows "returns (\<lambda>l'. 0 \<le> el_new_tokens l' \<and> el_new_tokens l' \<le> el_new_tokens l) (encoder_inputs_loop cfg env r nc shift fs l)"
  using assms
proof (induction fs arbitrary: l)
  case (Cons x rest)
  obtain i f where x: "x = (i, f)" by (cases x)
  have go: "returns (\<lambda>l'. 0 \<le> el_new_tokens l' \<and> el_new_tokens l' \<le> el_new_tokens l) (encoder_inputs_loop cfg env r nc shift rest l1)"
    if "el_new_tokens l1 = el_new_tokens l" for l1
    using Cons.IH [of l1] that Cons.prems by simp
  show ?case unfolding x encoder_inputs_loop.simps Let_def
    by (intro returns_rules returns_any [of _ "get_num_embeds _"] returns_any [of _ "em_check_and_update_cache _ _ _"]
          returns_any [of _ "em_can_allocate _ _ _ _ _"] returns_any [of _ "get_embeds_indices_in_range _ _ _"] go returns_simps(1) [THEN iffD2])
      (use Cons.prems in auto)
qed simp

lemma mamba_split_bounds:
  assumes "0 < cache_block_size cfg" and "0 \<le> n"
  shows "returns (\<lambda>m. 0 \<le> m \<and> m \<le> n) (mamba_block_aligned_split cfg r n loc ext)"
proof -
  have "n div cache_block_size cfg * cache_block_size cfg \<le> n" using assms by (metis div_mult_mod_eq le_add_same_cancel1 pos_mod_sign)
  moreover have "0 \<le> n div cache_block_size cfg * cache_block_size cfg" using assms by (simp add: pos_imp_zdiv_nonneg_iff)
  ultimately show ?thesis unfolding mamba_block_aligned_split_def Let_def
    by (intro returns_rules returns_simps) (use assms in auto)
qed

lemma try_schedule_tokens:
  assumes "0 \<le> n"
  shows "returns (\<lambda>l. 0 \<le> el_new_tokens l \<and> el_new_tokens l \<le> n \<and> (\<not> has_encoder_inputs r \<longrightarrow> el_new_tokens l = n))
    (try_schedule_encoder_inputs cfg env r nc n budget shift em)"
  unfolding try_schedule_encoder_inputs_def Let_def
  by (intro returns_if returns_call [OF encoder_loop_tokens]) (use assms in auto)

section \<open>The ledger of a step\<close>

text \<open>
  The token budget: what is given to the scheduled requests \<open>M\<close>, each once and a positive number,
  and what is left, make up the total \<open>B\<close>.
\<close>

definition token_ledger :: "int \<Rightarrow> int \<Rightarrow> (string \<times> int) list \<Rightarrow> string multiset \<Rightarrow> bool" where
  "token_ledger B b nst M \<longleftrightarrow> 0 \<le> b \<and> sum_list (map snd nst) + b = B \<and> (\<forall>x \<in> set nst. 0 < snd x)
     \<and> distinct (map fst nst) \<and> mset (map fst nst) = M"

lemma update_new: "x \<notin> fst ` set al \<Longrightarrow> AList.update x v al = al @ [(x, v)]"
  by (induction al) auto

lemma ledger_keys: "token_ledger B b nst M \<Longrightarrow> x \<in> fst ` set nst \<longleftrightarrow> x \<in># M"
  unfolding token_ledger_def by (metis set_mset_mset list.set_map)

lemma ledger_add:
  assumes "token_ledger B b nst M" and "x \<notin># M" and "0 < n" and "n \<le> b"
  shows "token_ledger B (b - n) (AList.update x n nst) (add_mset x M)"
proof -
  have "x \<notin> fst ` set nst" using ledger_keys [OF assms(1)] assms(2) by simp
  then show ?thesis using assms update_new [of x nst n] by (auto simp: token_ledger_def)
qed

lemma mset_keys_delete: "distinct (map fst al) \<Longrightarrow> mset (map fst (AList.delete x al)) = mset (map fst al) - {#x#}"
  by (induction al) (auto simp: diff_single_trivial AList.delete_id image_iff)

lemma keys_delete: "map fst (AList.delete x al) = filter (\<lambda>y. y \<noteq> x) (map fst al)"
  by (induction al) auto

lemma sum_delete: "distinct (map fst al) \<Longrightarrow> map_of al x = Some (n :: int) \<Longrightarrow> sum_list (map snd (AList.delete x al)) = sum_list (map snd al) - n"
  by (induction al) (auto split: if_splits simp: AList.delete_id image_iff)

lemma ledger_drop:
  assumes "token_ledger B b nst M" and "map_of nst x = Some n"
  shows "token_ledger B (b + n) (AList.delete x nst) (M - {#x#})"
proof -
  have n: "0 < n" using assms map_of_SomeD [OF assms(2)] by (auto simp: token_ledger_def)
  have "set (AList.delete x nst) \<subseteq> set nst" by (auto simp: AList.delete_eq)
  moreover have "distinct (map fst (AList.delete x nst))" using assms(1) by (simp add: token_ledger_def distinct_delete)
  ultimately show ?thesis using assms(1) n mset_keys_delete [of nst x] sum_delete [OF _ assms(2)] by (auto simp: token_ledger_def)
qed

section \<open>Positions in the running list\<close>

lemma take_remove1:
  assumes "v \<in> set (take i xs)"
  shows "take (i - 1) (remove1 v xs) = remove1 v (take i xs)"
  using assms
proof (induction xs arbitrary: i)
  case (Cons x xs)
  consider "i = 0" | "i = 1" | k where "i = Suc (Suc k)" by (metis One_nat_def not0_implies_Suc)
  then show ?case using Cons.prems Cons.IH [of "i - 1"] by cases auto
qed simp

lemma take_remove1_other: "x \<in> set (take i xs) \<Longrightarrow> x \<noteq> v \<Longrightarrow> x \<in> set (take i (remove1 v xs))"
proof (induction xs arbitrary: i)
  case (Cons y ys)
  then show ?case by (cases i) (auto dest: in_set_takeD [of x "i - 1"] simp: take_Suc_conv_app_nth, metis Suc_le_eq nat_le_linear not_less_eq_eq set_take_subset_set_take subsetD)
qed simp

lemma butlast_remove1: "distinct xs \<Longrightarrow> xs \<noteq> [] \<Longrightarrow> butlast xs = remove1 (last xs) xs"
  by (metis append_butlast_last_id distinct_butlast not_distinct_conv_prefix remove1_append remove1.simps(2) append_Nil2)

lemma first_max_in: "first_max gt x xs \<in> set (x # xs)"
proof (induction xs arbitrary: x)
  case (Cons a xs)
  show ?case using Cons.IH [of "if gt a x then a else x"] by (auto split: if_splits)
qed simp

section \<open>The invariant of a step\<close>

definition scheduled_ids :: "'c step_state \<Rightarrow> string list" where
  "scheduled_ids t = scheduled_new_reqs t @ scheduled_resumed_reqs t @ scheduled_running_reqs t"

definition step_inv :: "sched_config \<Rightarrow> int \<Rightarrow> 'c step_state \<Rightarrow> bool" where
  "step_inv cfg B t \<longleftrightarrow> wf_sched (mset (running (sched t))) (step_skipped_waiting t) (sched t)
     \<and> int (length (running (sched t))) \<le> max_num_running_reqs cfg
     \<and> token_ledger B (token_budget t) (num_scheduled_tokens t) (mset (scheduled_ids t))
     \<and> set (scheduled_ids t) \<subseteq> set (running (sched t))
     \<and> map fst (req_to_new_blocks t) = map fst (num_scheduled_tokens t)"

text \<open>In the loop over the running list the scheduled requests are before the index.\<close>

definition run_inv :: "sched_config \<Rightarrow> int \<Rightarrow> 'c step_state \<Rightarrow> bool" where
  "run_inv cfg B t \<longleftrightarrow> step_inv cfg B t \<and> scheduled_new_reqs t = [] \<and> scheduled_resumed_reqs t = [] \<and> step_skipped_waiting t = []
     \<and> 0 \<le> req_index t \<and> set (scheduled_running_reqs t) \<subseteq> set (take (nat (req_index t)) (running (sched t)))
     \<and> (\<forall>x \<in> set (running (sched t)). tokens_ok cfg (objects (sched t) x))"

lemma wf_running_distinct: "wf_sched (mset xs) extra s \<Longrightarrow> distinct xs"
  using wf_once(5) [of "mset xs" extra s] by (auto simp: distinct_count_atmost_1 le_Suc_eq)

lemma step_inv_distinct:
  assumes "step_inv cfg B t"
  shows "distinct (running (sched t))" "distinct (scheduled_ids t)"
  using assms wf_running_distinct unfolding step_inv_def token_ledger_def by (blast, metis mset_eq_imp_distinct_iff)

lemma step_inv_constraints:
  assumes "step_inv cfg B t" and "B \<le> max_num_scheduled_tokens cfg"
  shows "constraints_ok cfg t"
proof -
  have "length (scheduled_ids t) \<le> length (running (sched t))"
    using assms(1) step_inv_distinct [OF assms(1)] by (metis step_inv_def card_mono distinct_card List.finite_set)
  then show ?thesis using assms by (auto simp: constraints_ok_def step_inv_def token_ledger_def scheduled_ids_def)
qed

text \<open>A victim is gone from the running list, and from the ledger if it was there.\<close>

definition victim_gone :: "string \<Rightarrow> 'c step_state \<Rightarrow> 'c step_state \<Rightarrow> bool" where
  "victim_gone v t t' \<longleftrightarrow> v \<in> set (running (sched t)) \<and> sched t' = (sched t)\<lparr>running := remove1 v (running (sched t))\<rparr>
     \<and> scheduled_new_reqs t' = scheduled_new_reqs t \<and> scheduled_resumed_reqs t' = scheduled_resumed_reqs t
     \<and> step_skipped_waiting t' = step_skipped_waiting t \<and> preempted_reqs t' = preempted_reqs t \<and> broken t' = broken t
     \<and> scheduled_running_reqs t' = remove1 v (scheduled_running_reqs t)
     \<and> (if v \<in> set (scheduled_running_reqs t)
        then \<exists>n. map_of (num_scheduled_tokens t) v = Some n \<and> token_budget t' = token_budget t + n \<and> req_index t' = req_index t - 1
        else token_budget t' = token_budget t \<and> req_index t' = req_index t)
     \<and> (v \<in> set (scheduled_running_reqs t) \<longrightarrow> num_scheduled_tokens t' = AList.delete v (num_scheduled_tokens t) \<and> req_to_new_blocks t' = AList.delete v (req_to_new_blocks t))
     \<and> (v \<notin> set (scheduled_running_reqs t) \<longrightarrow> num_scheduled_tokens t' = num_scheduled_tokens t \<and> req_to_new_blocks t' = req_to_new_blocks t)"

lemma unschedule_frame:
  "returns (\<lambda>t'. \<exists>n. map_of (num_scheduled_tokens t) v = Some n \<and> token_budget t' = token_budget t + n \<and> req_index t' = req_index t - 1
     \<and> sched t' = sched t \<and> scheduled_new_reqs t' = scheduled_new_reqs t \<and> scheduled_resumed_reqs t' = scheduled_resumed_reqs t
     \<and> step_skipped_waiting t' = step_skipped_waiting t \<and> preempted_reqs t' = preempted_reqs t \<and> broken t' = broken t
     \<and> scheduled_running_reqs t' = remove1 v (scheduled_running_reqs t) \<and> num_scheduled_tokens t' = AList.delete v (num_scheduled_tokens t)
     \<and> req_to_new_blocks t' = AList.delete v (req_to_new_blocks t)) (unschedule v t)"
  unfolding unschedule_def Let_def by (intro returns_rules returns_any [of _ "sum_embeds _ _"]) simp_all

lemma select_victim_gone:
  assumes "run_inv cfg B t" and "policy cfg = FCFS \<longrightarrow> nat (req_index t) < length (running (sched t))"
  shows "returns (\<lambda>(v, t'). victim_gone v t t') (select_victim cfg t)"
proof (cases "policy cfg")
  case FCFS
  let ?xs = "running (sched t)"
  have d: "distinct ?xs" using assms(1) step_inv_distinct by (auto simp: run_inv_def)
  have ne: "?xs \<noteq> []" using assms(2) FCFS by auto
  have "last ?xs \<notin> set (take (nat (req_index t)) ?xs)"
    using d assms(2) FCFS by (auto simp: in_set_conv_nth last_conv_nth [OF ne] nth_eq_iff_index_eq [OF d])
  then have "last ?xs \<notin> set (scheduled_running_reqs t)" using assms(1) by (auto simp: run_inv_def)
  then show ?thesis using ne FCFS butlast_remove1 [OF d ne] by (simp add: select_victim_def Let_def victim_gone_def remove1_idem)
next
  case PRIORITY
  show ?thesis
  proof (cases "running (sched t)")
    case (Cons x xs)
    define v where "v = first_max (\<lambda>a b. victim_after (objects (sched t) a) (objects (sched t) b)) x xs"
    let ?t = "t\<lparr>sched := sched t\<lparr>running := remove1 v (running (sched t))\<rparr>\<rparr>"
    have v: "v \<in> set (running (sched t))" using first_max_in [of _ x xs] Cons by (simp add: v_def)
    have "select_victim cfg t = (if v \<in> set (scheduled_running_reqs t) then rbind (unschedule v ?t) (\<lambda>t. Inr (v, t)) else Inr (v, ?t))"
      by (simp add: select_victim_def PRIORITY Cons v_def Let_def)
    moreover have "returns (\<lambda>(v, t'). victim_gone v t t') (rbind (unschedule v ?t) (\<lambda>t. Inr (v, t)))" if "v \<in> set (scheduled_running_reqs t)"
      by (intro returns_bind returns_call [OF unschedule_frame [of ?t v]]) (use v that in \<open>auto simp: victim_gone_def\<close>)
    ultimately show ?thesis using v by (simp add: victim_gone_def remove1_idem)
  qed (simp add: select_victim_def Let_def PRIORITY)
qed

text \<open>Preempting the victim keeps the invariant.\<close>

lemma preempt_victim:
  assumes "run_inv cfg B t" and "victim_gone v t t1" and "preempt_request cfg v (sched t1) = Inr s'"
  shows "run_inv cfg B (t1\<lparr>sched := s', preempted_reqs := ps\<rparr>)" "running s' = remove1 v (running (sched t))"
proof -
  have G: "v \<in> set (running (sched t))" "sched t1 = (sched t)\<lparr>running := remove1 v (running (sched t))\<rparr>" "scheduled_new_reqs t1 = []" "scheduled_resumed_reqs t1 = []"
    "step_skipped_waiting t1 = []" "scheduled_running_reqs t1 = remove1 v (scheduled_running_reqs t)"
    using assms(1,2) by (auto simp: victim_gone_def run_inv_def)
  have I: "wf_sched (mset (running (sched t))) [] (sched t)" "int (length (running (sched t))) \<le> max_num_running_reqs cfg"
    "token_ledger B (token_budget t) (num_scheduled_tokens t) (mset (scheduled_running_reqs t))" "set (scheduled_running_reqs t) \<subseteq> set (running (sched t))"
    "map fst (req_to_new_blocks t) = map fst (num_scheduled_tokens t)" "0 \<le> req_index t"
    "set (scheduled_running_reqs t) \<subseteq> set (take (nat (req_index t)) (running (sched t)))" "\<forall>x \<in> set (running (sched t)). tokens_ok cfg (objects (sched t) x)"
    using assms(1) by (auto simp: run_inv_def step_inv_def scheduled_ids_def)
  note P = preempt_request_fields [OF assms(3)]
  show run: "running s' = remove1 v (running (sched t))" using P(1) G(2) by simp
  have d: "distinct (running (sched t))" "distinct (scheduled_running_reqs t)"
    using wf_running_distinct [OF I(1)] I(3) mset_eq_imp_distinct_iff unfolding token_ledger_def by blast+
  have "wf_sched (mset (running (sched t))) [] (sched t1)" using I(1) G(2) by (simp add: wf_sched_def)
  then have wf: "wf_sched (mset (running s')) [] s'" using preempt_request_wf(1) [OF _ _ assms(3)] G(1) run by simp
  have ob: "objects s' x = objects (sched t) x" if "x \<noteq> v" for x using P(5) G(2) that by simp
  have sub: "set (scheduled_running_reqs t1) \<subseteq> set (take (nat (req_index t1)) (running s')) \<and> 0 \<le> req_index t1
     \<and> token_ledger B (token_budget t1) (num_scheduled_tokens t1) (mset (scheduled_running_reqs t1)) \<and> map fst (req_to_new_blocks t1) = map fst (num_scheduled_tokens t1)"
  proof (cases "v \<in> set (scheduled_running_reqs t)")
    case True
    then obtain n where n: "map_of (num_scheduled_tokens t) v = Some n" "token_budget t1 = token_budget t + n" "req_index t1 = req_index t - 1"
      "num_scheduled_tokens t1 = AList.delete v (num_scheduled_tokens t)" "req_to_new_blocks t1 = AList.delete v (req_to_new_blocks t)"
      using assms(2) by (auto simp: victim_gone_def)
    have v: "v \<in> set (take (nat (req_index t)) (running (sched t)))" using True I(7) by auto
    then have i: "0 < nat (req_index t)" by (cases "nat (req_index t)") auto
    have "map fst (AList.delete v (req_to_new_blocks t)) = map fst (AList.delete v (num_scheduled_tokens t))"
      using I(5) by (simp only: keys_delete)
    moreover have "set (remove1 v (scheduled_running_reqs t)) \<subseteq> set (remove1 v (take (nat (req_index t)) (running (sched t))))"
      using I(7) d by (auto simp: set_remove1_eq)
    moreover have "take (nat (req_index t - 1)) (remove1 v (running (sched t))) = remove1 v (take (nat (req_index t)) (running (sched t)))"
      using take_remove1 [OF v] i by (simp add: nat_diff_distrib)
    ultimately show ?thesis using ledger_drop [OF I(3) n(1)] n(2-5) run i G(6) by simp
  next
    case False
    then have n: "token_budget t1 = token_budget t" "req_index t1 = req_index t" "num_scheduled_tokens t1 = num_scheduled_tokens t"
      "req_to_new_blocks t1 = req_to_new_blocks t" using assms(2) by (auto simp: victim_gone_def)
    have "x \<in> set (take (nat (req_index t)) (remove1 v (running (sched t))))" if "x \<in> set (scheduled_running_reqs t)" for x
      by (rule take_remove1_other) (use I(7) False that in auto)
    then have "set (scheduled_running_reqs t) \<subseteq> set (take (nat (req_index t)) (remove1 v (running (sched t))))" by blast
    then show ?thesis using n I(3,5,6) run G(6) False by (simp add: remove1_idem)
  qed
  have "set (scheduled_running_reqs t1) \<subseteq> set (running s')" using sub by (auto dest: in_set_takeD)
  moreover have "int (length (running s')) \<le> max_num_running_reqs cfg" using I(2) run length_remove1 [of v "running (sched t)"] by (auto split: if_splits)
  moreover have "\<forall>x \<in> set (running s'). tokens_ok cfg (objects s' x)" using I(8) ob run d(1) by (auto simp: set_remove1_eq)
  ultimately show "run_inv cfg B (t1\<lparr>sched := s', preempted_reqs := ps\<rparr>)"
    using wf sub G by (simp add: run_inv_def step_inv_def scheduled_ids_def)
qed

section \<open>Changes that the invariant does not see\<close>

definition sched_like :: "'c scheduler \<Rightarrow> 'c scheduler \<Rightarrow> bool" where
  "sched_like s s' \<longleftrightarrow> requests s' = requests s \<and> waiting s' = waiting s \<and> skipped_waiting s' = skipped_waiting s \<and> running s' = running s
     \<and> num_waiting_for_streaming_input s' = num_waiting_for_streaming_input s \<and> pause s' = pause s
     \<and> (\<forall>x. same_id (objects s x) (objects s' x) \<and> status (objects s' x) = status (objects s x)
         \<and> num_computed_tokens (objects s' x) = num_computed_tokens (objects s x) \<and> all_token_ids (objects s' x) = all_token_ids (objects s x)
         \<and> num_output_placeholders (objects s' x) = num_output_placeholders (objects s x))"

lemma sched_like_refl [simp]: "sched_like s s"
  by (simp add: sched_like_def)

lemma sched_like_trans: "sched_like s1 s2 \<Longrightarrow> sched_like s2 s3 \<Longrightarrow> sched_like s1 s3"
  by (auto simp: sched_like_def intro: same_id_trans)

lemma sched_like_memo: "memo_ext (objects s x) r \<Longrightarrow> sched_like s (set_object x r (s\<lparr>kv_cache_manager := km\<rparr>))"
  using memo_ext_face [of "objects s x" r] by (auto simp: sched_like_def)

lemma sched_like_encoder: "sched_like s (s\<lparr>encoder_cache_manager := em\<rparr>)"
  by (simp add: sched_like_def)

lemma wf_sched_like: "sched_like s s' \<Longrightarrow> wf_sched R extra s \<Longrightarrow> wf_sched R extra s'"
  by (rule wf_sched_cong) (auto simp: sched_like_def)

lemma step_inv_like: "step_inv cfg B t \<Longrightarrow> sched_like (sched t) s' \<Longrightarrow> step_inv cfg B (t\<lparr>sched := s'\<rparr>)"
  using wf_sched_like [of "sched t" s'] by (simp add: step_inv_def scheduled_ids_def sched_like_def)

lemma run_inv_like: "run_inv cfg B t \<Longrightarrow> sched_like (sched t) s' \<Longrightarrow> run_inv cfg B (t\<lparr>sched := s'\<rparr>)"
  using step_inv_like [of cfg B t s'] by (simp add: run_inv_def sched_like_def tokens_ok_def num_tokens_def)

section \<open>The allocation loop\<close>

definition alloc_inv :: "sched_config \<Rightarrow> int \<Rightarrow> string \<Rightarrow> int \<Rightarrow> int \<Rightarrow> bool \<Rightarrow> 'c step_state \<times> kv_cache_blocks option option \<Rightarrow> bool" where
  "alloc_inv cfg B rid n d br = (\<lambda>(t, outcome). run_inv cfg B t \<and> n \<le> token_budget t
     \<and> int (length (running (sched t))) - req_index t \<le> d \<and> broken t = br
     \<and> (outcome \<noteq> Some None \<longrightarrow> rid \<notin> set (scheduled_running_reqs t) \<and> rid \<in> set (take (Suc (nat (req_index t))) (running (sched t)))
        \<and> (policy cfg = FCFS \<longrightarrow> nat (req_index t) < length (running (sched t)) \<and> running (sched t) ! nat (req_index t) = rid)))"

lemma alloc_inv_victim:
  assumes "alloc_inv cfg B rid n d br (t, None)" and "victim_gone v t t1" and "preempt_request cfg v (sched t1) = Inr s'"
    and "policy cfg = FCFS \<longrightarrow> v = last (running (sched t))"
  shows "alloc_inv cfg B rid n d br (t1\<lparr>sched := s', preempted_reqs := ps\<rparr>, if v = rid then Some None else None)"
proof -
  have A: "run_inv cfg B t" "n \<le> token_budget t" "int (length (running (sched t))) - req_index t \<le> d" "broken t = br"
    "rid \<notin> set (scheduled_running_reqs t)" "rid \<in> set (take (Suc (nat (req_index t))) (running (sched t)))"
    "policy cfg = FCFS \<Longrightarrow> nat (req_index t) < length (running (sched t)) \<and> running (sched t) ! nat (req_index t) = rid"
    using assms(1) by (auto simp: alloc_inv_def)
  note P = preempt_victim [OF A(1) assms(2,3)]
  have G: "v \<in> set (running (sched t))" "broken t1 = broken t" "scheduled_running_reqs t1 = remove1 v (scheduled_running_reqs t)"
    using assms(2) by (auto simp: victim_gone_def)
  have len: "length (running s') = length (running (sched t)) - 1" using P(2) G(1) by (simp add: length_remove1)
  have d: "distinct (running (sched t))" using A(1) step_inv_distinct(1) by (auto simp: run_inv_def)
  have i: "0 \<le> req_index t" "set (scheduled_running_reqs t) \<subseteq> set (take (nat (req_index t)) (running (sched t)))" using A(1) by (auto simp: run_inv_def)
  have pos: "0 < length (running (sched t))" using G(1) by (cases "running (sched t)") auto
  have budget: "n \<le> token_budget t1 \<and> int (length (running s')) - req_index t1 \<le> d"
  proof (cases "v \<in> set (scheduled_running_reqs t)")
    case True
    then obtain k where k: "map_of (num_scheduled_tokens t) v = Some k" "token_budget t1 = token_budget t + k" "req_index t1 = req_index t - 1"
      using assms(2) by (auto simp: victim_gone_def)
    have "0 < k" using A(1) map_of_SomeD [OF k(1)] by (auto simp: run_inv_def step_inv_def token_ledger_def)
    then show ?thesis using A(2,3) k(2,3) len pos by linarith
  qed (use assms(2) A(2,3) len pos in \<open>auto simp: victim_gone_def\<close>)
  have place: "rid \<in> set (take (Suc (nat (req_index t1))) (running s'))" if "v \<noteq> rid"
  proof (cases "v \<in> set (scheduled_running_reqs t)")
    case True
    then have v: "v \<in> set (take (nat (req_index t)) (running (sched t)))" and idx: "req_index t1 = req_index t - 1"
      using i(2) assms(2) by (auto simp: victim_gone_def)
    then have "Suc (nat (req_index t1)) = Suc (nat (req_index t)) - 1" by (cases "nat (req_index t)") auto
    moreover have "v \<in> set (take (Suc (nat (req_index t))) (running (sched t)))"
      using v set_take_subset_set_take [of "nat (req_index t)" "Suc (nat (req_index t))" "running (sched t)"] by (meson le_SucI order_refl subsetD)
    ultimately have "take (Suc (nat (req_index t1))) (running s') = remove1 v (take (Suc (nat (req_index t))) (running (sched t)))"
      using take_remove1 P(2) by metis
    then show ?thesis using A(6) that by simp
  next
    case False
    then have "req_index t1 = req_index t" using assms(2) by (auto simp: victim_gone_def)
    then show ?thesis using take_remove1_other [OF A(6)] P(2) that by simp
  qed
  have first: "nat (req_index t1) < length (running s') \<and> running s' ! nat (req_index t1) = rid" if "v \<noteq> rid" "policy cfg = FCFS"
  proof -
    let ?xs = "running (sched t)"
    have v: "v = last ?xs" and idx: "nat (req_index t) < length ?xs" "?xs ! nat (req_index t) = rid" using that A(7) assms(4) by auto
    have ne: "?xs \<noteq> []" using pos by auto
    have "last ?xs \<notin> set (take (nat (req_index t)) ?xs)"
      using d idx by (auto simp: in_set_conv_nth last_conv_nth [OF ne] nth_eq_iff_index_eq [OF d])
    then have "v \<notin> set (scheduled_running_reqs t)" using i(2) v by auto
    then have e: "req_index t1 = req_index t" using assms(2) by (auto simp: victim_gone_def)
    have "nat (req_index t) \<noteq> length ?xs - 1" using idx v that(1) last_conv_nth [OF ne] by auto
    moreover have "running s' = butlast ?xs" using P(2) v butlast_remove1 [OF d ne] by simp
    ultimately show ?thesis using e idx by (simp add: nth_butlast)
  qed
  show ?thesis using P(1) budget place first A(4,5) G(2,3) by (auto simp: alloc_inv_def dest: notin_set_remove1)
qed

text \<open>Under first come, first served, the victim is the last of the running list.\<close>

lemma select_victim_last: "policy cfg = FCFS \<Longrightarrow> select_victim cfg t = Inr (v, t') \<Longrightarrow> v = last (running (sched t))"
  by (auto simp: select_victim_def Let_def split: if_splits)

lemma allocate_round_inv:
  assumes "alloc_inv cfg B rid n d br (t, None)"
  shows "returns (\<lambda>(t', outcome). alloc_inv cfg B rid n d br (t', outcome) \<and> (outcome = None \<longrightarrow> length (running (sched t')) < length (running (sched t))))
     (allocate_round cfg env rid n (t, None))"
proof (rule returnsI, clarify)
  fix t' outcome
  assume r: "allocate_round cfg env rid n (t, None) = Inr (t', outcome)"
  obtain nb ob km where al: "allocate_slots (env_hash env) (objects (sched t) rid) n 0 None (num_lookahead_tokens cfg) 0 False 0 (kv_cache_manager (sched t)) = Inr (nb, ob, km)"
    using r by (cases "allocate_slots (env_hash env) (objects (sched t) rid) n 0 None (num_lookahead_tokens cfg) 0 False 0 (kv_cache_manager (sched t))")
      (auto simp: allocate_round_def)
  let ?t = "t\<lparr>sched := set_object rid ob (sched t\<lparr>kv_cache_manager := km\<rparr>)\<rparr>"
  have "sched_like (sched t) (sched ?t)" using sched_like_memo [OF allocate_slots_memo [OF al]] by simp
  then have I: "alloc_inv cfg B rid n d br (?t, o')" if "o' \<noteq> Some None" for o'
    using assms run_inv_like [of cfg B t] that by (auto simp: alloc_inv_def)
  show "alloc_inv cfg B rid n d br (t', outcome) \<and> (outcome = None \<longrightarrow> length (running (sched t')) < length (running (sched t)))"
  proof (cases nb)
    case (Some b)
    then show ?thesis using r al I [of "Some (Some b)"] by (auto simp: allocate_round_def Let_def)
  next
    case None
    then obtain v t1 s' where v: "select_victim cfg ?t = Inr (v, t1)" "preempt_request cfg v (sched t1) = Inr s'"
       "t' = t1\<lparr>sched := s', preempted_reqs := preempted_reqs t1 @ [v]\<rparr>" "outcome = (if v = rid then Some None else None)"
      using r al by (auto simp: allocate_round_def Let_def rbind_eq_Inr)
    have run: "run_inv cfg B ?t" "policy cfg = FCFS \<longrightarrow> nat (req_index ?t) < length (running (sched ?t))" using I [of None] by (auto simp: alloc_inv_def)
    have g: "victim_gone v ?t t1" using returnsD [OF select_victim_gone [OF run] v(1)] by simp
    have "running s' = remove1 v (running (sched ?t))" "v \<in> set (running (sched ?t))" using preempt_victim(2) [OF run(1) g v(2)] g by (auto simp: victim_gone_def)
    moreover have "alloc_inv cfg B rid n d br (t', outcome)"
      unfolding v(3,4) by (rule alloc_inv_victim [OF I g v(2)]) (use select_victim_last [OF _ v(1)] in auto)
    ultimately show ?thesis using length_pos_if_in_set [of v "running (sched t)"] by (simp add: v(3) length_remove1)
  qed
qed

interpretation allocation: ranked_loop "alloc_inv cfg B rid n d br" "\<lambda>(_, outcome). outcome = None" "allocate_round cfg env rid n"
    "\<lambda>(t, outcome). if outcome = None then Suc (length (running (sched t))) else 0" for cfg B rid n d br env
proof
  fix x :: "'a step_state \<times> kv_cache_blocks option option"
  assume I: "alloc_inv cfg B rid n d br x" and none: "case x of (_, outcome) \<Rightarrow> outcome = None"
  obtain t where x: "x = (t, None)" using none by (cases x) auto
  show "returns (\<lambda>t'. alloc_inv cfg B rid n d br t' \<and> (case t' of (t, outcome) \<Rightarrow> if outcome = None then Suc (length (running (sched t))) else 0)
      < (case x of (t, outcome) \<Rightarrow> if outcome = None then Suc (length (running (sched t))) else 0)) (allocate_round cfg env rid n x)"
    unfolding x by (rule returns_call [OF allocate_round_inv [OF I [unfolded x]]]) (auto split: prod.splits)
qed

lemma allocate_with_preemption_inv:
  assumes "alloc_inv cfg B rid n d br (t, None)"
  shows "returns (\<lambda>(t', outcome). alloc_inv cfg B rid n d br (t', outcome) \<and> outcome \<noteq> None) (allocate_with_preemption cfg env rid n t)"
  unfolding allocate_with_preemption_def by (rule returns_call [OF allocation.loop_returns [OF assms]]) auto

text \<open>The bound of the loop is never met: an error is an error of a round.\<close>

lemma allocate_with_preemption_error:
  assumes "alloc_inv cfg B rid n d br (t, None)" and "allocate_with_preemption cfg env rid n t = Inl e"
  shows "\<exists>t'. alloc_inv cfg B rid n d br (t', None) \<and> allocate_round cfg env rid n (t', None) = Inl e"
  using allocation.loop_error [OF assms(1) _ assms(2) [unfolded allocate_with_preemption_def]] by auto

section \<open>The loop over running requests\<close>

definition step_like :: "'c step_state \<Rightarrow> 'c step_state \<Rightarrow> bool" where
  "step_like t t' \<longleftrightarrow> sched_like (sched t) (sched t') \<and> scheduled_new_reqs t' = scheduled_new_reqs t \<and> scheduled_resumed_reqs t' = scheduled_resumed_reqs t
     \<and> scheduled_running_reqs t' = scheduled_running_reqs t \<and> preempted_reqs t' = preempted_reqs t \<and> req_to_new_blocks t' = req_to_new_blocks t
     \<and> num_scheduled_tokens t' = num_scheduled_tokens t \<and> token_budget t' = token_budget t \<and> req_index t' = req_index t \<and> broken t' = broken t
     \<and> step_skipped_waiting t' = step_skipped_waiting t"

lemma step_like_refl [simp]: "step_like t t"
  by (simp add: step_like_def)

lemma step_like_trans: "step_like t1 t2 \<Longrightarrow> step_like t2 t3 \<Longrightarrow> step_like t1 t3"
  by (auto simp: step_like_def intro: sched_like_trans)

lemma step_inv_step: "step_inv cfg B t \<Longrightarrow> step_like t t' \<Longrightarrow> step_inv cfg B t'"
  using wf_sched_like [of "sched t" "sched t'"] by (simp add: step_inv_def scheduled_ids_def step_like_def sched_like_def)

lemma run_inv_step: "run_inv cfg B t \<Longrightarrow> step_like t t' \<Longrightarrow> run_inv cfg B t'"
  using step_inv_step [of cfg B t t'] by (simp add: run_inv_def step_like_def sched_like_def tokens_ok_def num_tokens_def)

lemma allocate_encoder_like: "returns (sched_like s) (allocate_encoder_inputs rid is s)"
  unfolding allocate_encoder_inputs_def
  by (intro returns_bind returns_any [of _ "rfold _ _ _"]) (simp add: sched_like_encoder)

lemma schedule_encoder_like: "returns (step_like t) (schedule_encoder_inputs rid l t)"
  unfolding schedule_encoder_inputs_def
  by (intro returns_bind returns_if returns_call [OF allocate_encoder_like] returns_simps(1) [THEN iffD2])
    (auto simp: step_like_def intro!: returns_bind returns_call [OF allocate_encoder_like] dest: sched_like_trans)

lemma take_spec_like: "step_like t (take_spec_tokens rid n t)"
  by (auto simp: take_spec_tokens_def Let_def step_like_def sched_like_def same_id_def)

text \<open>A running request that got its blocks enters the ledger.\<close>

lemma run_inv_add:
  assumes "alloc_inv cfg B rid n d br (t, Some (Some nb))" and "0 < n"
  shows "run_inv cfg B (t\<lparr>scheduled_running_reqs := scheduled_running_reqs t @ [rid], req_to_new_blocks := AList.update rid nb (req_to_new_blocks t),
     num_scheduled_tokens := AList.update rid n (num_scheduled_tokens t), token_budget := token_budget t - n, req_index := req_index t + 1\<rparr>)"
proof -
  let ?i = "nat (req_index t)" and ?xs = "running (sched t)"
  have A: "run_inv cfg B t" "n \<le> token_budget t" "rid \<notin> set (scheduled_running_reqs t)" "rid \<in> set (take (Suc ?i) ?xs)"
    using assms(1) by (auto simp: alloc_inv_def)
  have I: "scheduled_new_reqs t = []" "scheduled_resumed_reqs t = []" "token_ledger B (token_budget t) (num_scheduled_tokens t) (mset (scheduled_running_reqs t))"
    "map fst (req_to_new_blocks t) = map fst (num_scheduled_tokens t)" "0 \<le> req_index t" "set (scheduled_running_reqs t) \<subseteq> set (take ?i ?xs)"
    using A(1) by (auto simp: run_inv_def step_inv_def scheduled_ids_def)
  have L: "token_ledger B (token_budget t - n) (AList.update rid n (num_scheduled_tokens t)) (mset (scheduled_running_reqs t @ [rid]))"
    using ledger_add [OF I(3) _ assms(2) A(2), of rid] A(3) by simp
  have keys: "map fst (AList.update rid nb (req_to_new_blocks t)) = map fst (AList.update rid n (num_scheduled_tokens t))"
    using I(4) by (simp only: AList.update_keys)
  have "set (take ?i ?xs) \<subseteq> set (take (Suc ?i) ?xs)" by (rule set_take_subset_set_take) simp
  then have sub: "set (scheduled_running_reqs t @ [rid]) \<subseteq> set (take (nat (req_index t + 1)) ?xs)"
    using I(5,6) A(4) by (auto simp: nat_add_distrib)
  then have "set (scheduled_running_reqs t @ [rid]) \<subseteq> set ?xs" by (auto dest: in_set_takeD)
  then show ?thesis using A(1) L keys sub I(1,2,5) by (auto simp: run_inv_def step_inv_def scheduled_ids_def)
qed

lemma py_index_nth: "0 \<le> i \<Longrightarrow> i < int (length xs) \<Longrightarrow> py_index xs i = Inr (xs ! nat i)"
  by (simp add: py_index_def)

definition run_left :: "'c step_state \<Rightarrow> nat" where
  "run_left t = (if broken t then 0 else Suc (nat (int (length (running (sched t))) - req_index t)))"

lemma alloc_start:
  assumes "run_inv cfg B t" and "more_running t" and "step_like t t1" and "n \<le> token_budget t"
  shows "alloc_inv cfg B (running (sched t) ! nat (req_index t)) n (int (length (running (sched t))) - req_index t) False (t1, None)"
proof -
  let ?xs = "running (sched t)" and ?i = "nat (req_index t)"
  have m: "0 \<le> req_index t" "?i < length ?xs" "\<not> broken t" using assms(1,2) by (auto simp: run_inv_def more_running_def)
  have e: "req_index t1 = req_index t" "running (sched t1) = ?xs" "\<not> broken t1" "token_budget t1 = token_budget t" "scheduled_running_reqs t1 = scheduled_running_reqs t"
    using assms(3) m by (auto simp: step_like_def sched_like_def)
  have "distinct ?xs" using assms(1) step_inv_distinct(1) by (auto simp: run_inv_def)
  then have "?xs ! ?i \<notin> set (take ?i ?xs)" using m by (auto simp: in_set_conv_nth nth_eq_iff_index_eq)
  then have "?xs ! ?i \<notin> set (scheduled_running_reqs t)" using assms(1) by (auto simp: run_inv_def)
  moreover have "?xs ! ?i \<in> set (take (Suc ?i) ?xs)" using m by (simp add: take_Suc_conv_app_nth)
  ultimately show ?thesis using run_inv_step [OF assms(1,3)] e assms(4) m by (simp add: alloc_inv_def)
qed

lemma schedule_running_one_inv:
  assumes "run_inv cfg B t" and "more_running t" and "config_ok cfg"
  shows "returns (\<lambda>t'. run_inv cfg B t' \<and> run_left t' < run_left t) (schedule_running_one cfg env t)"
proof -
  let ?xs = "running (sched t)"
  define rid where "rid = ?xs ! nat (req_index t)"
  define r where "r = objects (sched t) rid"
  have m: "0 \<le> req_index t" "req_index t < int (length ?xs)" "0 < token_budget t" "\<not> broken t" "nat (req_index t) < length ?xs"
    using assms(1,2) by (auto simp: run_inv_def more_running_def)
  have in_xs: "rid \<in> set ?xs" using m by (simp add: rid_def)
  then have ok: "tokens_ok cfg r" using assms(1) by (simp add: run_inv_def r_def)
  note num = running_num_new_bounds [OF ok, of "token_budget t"]
  have skip: "run_inv cfg B (t1\<lparr>req_index := req_index t1 + 1\<rparr>) \<and> run_left (t1\<lparr>req_index := req_index t1 + 1\<rparr>) < run_left t" if "step_like t t1" for t1
  proof -
    have e: "req_index t1 = req_index t" "running (sched t1) = ?xs" "broken t1 = broken t" using that by (auto simp: step_like_def sched_like_def)
    have "set (take (nat (req_index t)) ?xs) \<subseteq> set (take (nat (req_index t + 1)) ?xs)" by (rule set_take_subset_set_take) simp
    then have "run_inv cfg B (t1\<lparr>req_index := req_index t1 + 1\<rparr>)"
      using run_inv_step [OF assms(1) that] e by (auto simp: run_inv_def step_inv_def scheduled_ids_def)
    then show ?thesis using e m by (simp add: run_left_def)
  qed
  have start: "alloc_inv cfg B rid n (int (length ?xs) - req_index t) False (t1, None)" if "step_like t t1" "n \<le> token_budget t" for t1 n
    unfolding rid_def by (rule alloc_start [OF assms(1,2) that])
  have enc: "step_like t (t\<lparr>sched := sched t\<lparr>encoder_cache_manager := em\<rparr>\<rparr>)" for em by (simp add: step_like_def sched_like_encoder)
  have finish: "returns (\<lambda>t'. run_inv cfg B t' \<and> run_left t' < run_left t) (schedule_encoder_inputs rid l (take_spec_tokens rid n (t1\<lparr>scheduled_running_reqs := scheduled_running_reqs t1 @ [rid],
       req_to_new_blocks := AList.update rid nb (req_to_new_blocks t1), num_scheduled_tokens := AList.update rid n (num_scheduled_tokens t1),
       token_budget := token_budget t1 - n, req_index := req_index t1 + 1\<rparr>)))"
    if "alloc_inv cfg B rid n (int (length ?xs) - req_index t) False (t1, Some (Some nb))" "0 < n" for t1 n nb l
  proof -
    let ?t2 = "t1\<lparr>scheduled_running_reqs := scheduled_running_reqs t1 @ [rid],
       req_to_new_blocks := AList.update rid nb (req_to_new_blocks t1), num_scheduled_tokens := AList.update rid n (num_scheduled_tokens t1),
       token_budget := token_budget t1 - n, req_index := req_index t1 + 1\<rparr>"
    have "run_left ?t2 < run_left t" using that(1) m by (auto simp: alloc_inv_def run_left_def)
    then have "run_inv cfg B t' \<and> run_left t' < run_left t" if "step_like ?t2 t'" for t'
      using run_inv_step [OF run_inv_add [OF \<open>alloc_inv _ _ _ _ _ _ _\<close> \<open>0 < n\<close>] that] that by (auto simp: run_left_def step_like_def sched_like_def)
    then show ?thesis by (intro returns_call [OF schedule_encoder_like]) (blast intro: step_like_trans take_spec_like)
  qed
  have stop: "run_inv cfg B (t1\<lparr>broken := True\<rparr>) \<and> run_left (t1\<lparr>broken := True\<rparr>) < run_left t" if "alloc_inv cfg B rid n (int (length ?xs) - req_index t) False (t1, o')" for t1 n o'
    using that m by (auto simp: alloc_inv_def run_inv_def step_inv_def scheduled_ids_def run_left_def)
  let ?Q = "\<lambda>t'. run_inv cfg B t' \<and> run_left t' < run_left t"
  have alloc: "returns (\<lambda>(t', outcome). alloc_inv cfg B rid n (int (length ?xs) - req_index t) False (t', outcome) \<and> outcome \<noteq> None)
      (allocate_with_preemption cfg env rid n (t\<lparr>sched := sched t\<lparr>encoder_cache_manager := em\<rparr>\<rparr>))" if "n \<le> token_budget t" for n em
    by (rule allocate_with_preemption_inv [OF start [OF enc that]])
  have split: "returns (\<lambda>k. 0 \<le> k \<and> k \<le> n) (if need_mamba_block_aligned_split cfg then mamba_block_aligned_split cfg r n 0 0 else Inr n)" if "0 \<le> n" for n
    using mamba_split_bounds [of cfg n r 0 0] assms(3) that by (simp add: config_ok_def)
  show ?thesis unfolding schedule_running_one_def py_index_nth [OF m(1,2)] rbind_Inr Let_def rid_def [symmetric] r_def [symmetric]
  proof (intro returns_if returns_bind, goal_cases)
    case 1
    then show ?case using skip [OF step_like_refl] by simp
  next
    case 2
    show ?case
    proof (rule returns_call [OF try_schedule_tokens [OF num(1)]], use m in simp, intro returns_bind, goal_cases)
      case (1 l)
      then show ?case
        by (intro returns_call [OF split] returns_if returns_bind returns_call [OF alloc] returns_prod returns_option returns_simps(1) [THEN iffD2] finish skip [OF enc])
          (use num(2) m in \<open>auto dest: stop\<close>)
    qed
  qed
qed

interpretation running_loop: ranked_loop "\<lambda>t. config_ok cfg \<and> run_inv cfg B t" more_running "schedule_running_one cfg env" run_left for cfg B env
  by unfold_locales (auto intro: returns_call [OF schedule_running_one_inv])

lemma schedule_running_inv:
  assumes "run_inv cfg B t" and "config_ok cfg"
  shows "returns (run_inv cfg B) (schedule_running cfg env t)"
  unfolding schedule_running_def by (rule returns_call [OF running_loop.loop_returns [where cfg = cfg and B = B]]) (use assms in auto)

text \<open>The loop ends: an error is an error of one of its steps.\<close>

lemma schedule_running_error:
  assumes "run_inv cfg B t" and "config_ok cfg" and "req_index t = 0" and "schedule_running cfg env t = Inl e"
  shows "\<exists>t'. run_inv cfg B t' \<and> more_running t' \<and> schedule_running_one cfg env t' = Inl e"
  using running_loop.loop_error [where cfg = cfg and B = B, OF _ _ assms(4) [unfolded schedule_running_def]] assms(1-3) by (auto simp: run_left_def)

end
