(* ===== verification/Sched_Wait.thy ===== *)
theory Sched_Wait
  imports Sched_Loop
begin

text \<open>
  The loop over waiting requests of a scheduling step, and the step as a whole: the assertions of
  \<^verbatim>\<open>Scheduler.schedule\<close> hold, every scheduled request gets a positive number of tokens, and the
  invariant of the queues holds again after the step.
\<close>

section \<open>The head of a queue\<close>

lemma queue_peek_hd: "named ob (set q) \<Longrightarrow> queue_peek pol ob q = Inr x \<Longrightarrow> q \<noteq> [] \<and> x = hd q"
  by (cases pol) (auto simp: queue_peek_def fcfs_peek_request_def prio_peek_request_def hd_conv_nth split: if_splits list.splits)

lemma queue_pop_hd:
  assumes "named ob (set q)"
  shows "returns (\<lambda>(x, q'). x = hd q \<and> mset q = add_mset x (mset q')) (queue_pop pol ob q)"
proof (rule returnsI, clarify)
  fix x q' assume p: "queue_pop pol ob q = Inr (x, q')"
  then have "q \<noteq> []" by (rule queue_pop_nonempty)
  from queue_pop_mset [OF assms this, of pol] p have *: "queue_peek pol ob q = Inr x" "mset q = add_mset x (mset q')" by auto
  then show "x = hd q \<and> mset q = add_mset x (mset q')" using queue_peek_hd [OF assms *(1)] by simp
qed

lemma wf_move:
  assumes "wf_sched R extra s" and "requests s' = requests s" "objects s' = objects s" "num_waiting_for_streaming_input s' = num_waiting_for_streaming_input s"
    and "mset (waiting s') + mset (skipped_waiting s') + mset extra' = mset (waiting s) + mset (skipped_waiting s) + mset extra"
    and "set (waiting s') \<subseteq> set (waiting s)"
  shows "wf_sched R extra' s'"
  using assms by (auto simp: wf_sched_def)

lemma set_queue_fields [simp]:
  "requests (set_queue qn q s) = requests s" "objects (set_queue qn q s) = objects s" "running (set_queue qn q s) = running s"
  "num_waiting_for_streaming_input (set_queue qn q s) = num_waiting_for_streaming_input s" "pause (set_queue qn q s) = pause s"
  by (cases qn; simp)+

lemma queue_of_subset: "set (queue_of qn s) \<subseteq> set (waiting s) \<union> set (skipped_waiting s)"
  by (cases qn) auto

lemma queue_head: "queue_of qn s \<noteq> [] \<Longrightarrow> hd (queue_of qn s) \<in> set (waiting s) \<union> set (skipped_waiting s)"
  using queue_of_subset [of qn s] hd_in_set [of "queue_of qn s"] by blast

lemma wf_queue_named: "wf_sched R extra s \<Longrightarrow> named (objects s) (set (queue_of qn s))"
  using wf_schedD(1,2) [of R extra s] by (cases qn) auto

lemma set_queue_mset:
  assumes "mset (queue_of qn s) = add_mset x (mset q)"
  shows "add_mset x (mset (waiting (set_queue qn q s)) + mset (skipped_waiting (set_queue qn q s))) = mset (waiting s) + mset (skipped_waiting s)"
    "set (waiting (set_queue qn q s)) \<subseteq> set (waiting s)"
    "Suc (length (waiting (set_queue qn q s)) + length (skipped_waiting (set_queue qn q s))) = length (waiting s) + length (skipped_waiting s)"
proof -
  have l: "length (queue_of qn s) = Suc (length q)" using arg_cong [OF assms, of size] by simp
  have "set q \<subseteq> set (queue_of qn s)" using arg_cong [OF assms, of set_mset] by auto
  then show "set (waiting (set_queue qn q s)) \<subseteq> set (waiting s)" by (cases qn) auto
  show "add_mset x (mset (waiting (set_queue qn q s)) + mset (skipped_waiting (set_queue qn q s))) = mset (waiting s) + mset (skipped_waiting s)"
    "Suc (length (waiting (set_queue qn q s)) + length (skipped_waiting (set_queue qn q s))) = length (waiting s) + length (skipped_waiting s)"
    using assms l by (cases qn; simp)+
qed

section \<open>Skipping a request\<close>

definition queue_left :: "'c step_state \<Rightarrow> nat" where
  "queue_left t = length (waiting (sched t)) + length (skipped_waiting (sched t))"

lemma skip_waiting_inv:
  assumes "step_inv cfg B t" and "queue_of qn (sched t) \<noteq> []" and "rid = hd (queue_of qn (sched t))"
  shows "returns (\<lambda>t'. step_inv cfg B t' \<and> queue_left t' < queue_left t) (skip_waiting cfg qn rid t)"
proof -
  have wf: "wf_sched (mset (running (sched t))) (step_skipped_waiting t) (sched t)" using assms(1) by (simp add: step_inv_def)
  note named = wf_queue_named [OF wf, of qn]
  have rid: "rid \<in> set (requests (sched t))" using queue_head [OF assms(2)] assms(3) wf_schedD(4,5) [OF wf] by auto
  have pre: "mset (queue_prepend (policy cfg) (objects (sched t)) rid (step_skipped_waiting t)) = add_mset rid (mset (step_skipped_waiting t))"
    by (rule queue_prepend_mset) (use wf_schedD(3,8) [OF wf] rid in auto)
  show ?thesis unfolding skip_waiting_def Let_def
  proof (intro returns_bind returns_call [OF queue_pop_hd [OF named]] returns_prod, goal_cases)
    case (1 y x q)
    then have q: "mset (queue_of qn (sched t)) = add_mset rid (mset q)" using assms(3) by simp
    note M = set_queue_mset [OF q]
    have "wf_sched (mset (running (sched t))) (queue_prepend (policy cfg) (objects (sched t)) rid (step_skipped_waiting t)) (set_queue qn q (sched t))"
      by (rule wf_move [OF wf]) (use M(1,2) pre in \<open>auto simp flip: M(1)\<close>)
    then show ?case using assms(1) M(3) by (simp add: step_inv_def scheduled_ids_def queue_left_def)
  qed
qed

section \<open>Admitting a request\<close>

text \<open>The head of a queue leaves it and starts to run, or waits for remote blocks outside the queues.\<close>

lemma wf_admit:
  assumes wf: "wf_sched R extra s" and q: "mset (queue_of qn s) = add_mset rid (mset q)" and ready: "status (objects s rid) \<in> {WAITING, PREEMPTED}"
    and r: "same_id (objects s rid) r" and s': "requests s' = requests s" "objects s' = (objects s)(rid := r)" "num_waiting_for_streaming_input s' = num_waiting_for_streaming_input s"
      "waiting s' = waiting (set_queue qn q s)" "skipped_waiting s' = skipped_waiting (set_queue qn q s)"
  shows "status r = RUNNING \<Longrightarrow> wf_sched (add_mset rid R) extra s'"
    "status r = WAITING_FOR_REMOTE_KVS \<Longrightarrow> mset extra' = add_mset rid (mset extra) \<Longrightarrow> wf_sched R extra' s'"
proof -
  note M = set_queue_mset [OF q]
  have "rid \<in> set (queue_of qn s)" using arg_cong [OF q, of set_mset] by auto
  then have w: "rid \<in> set (waiting s) \<union> set (skipped_waiting s)" using queue_of_subset [of qn s] by blast
  then have rid: "rid \<in> set (requests s)" "rid \<notin># R" "rid \<notin> set extra" using wf_status(2) [OF wf, of rid] wf_once(2,3) [OF wf, of rid] by auto
  have total: "mset (waiting s') + mset (skipped_waiting s') + mset extra = mset (waiting s) + mset (skipped_waiting s) + mset extra - {#rid#}"
    unfolding s'(4,5) M(1) [symmetric] by simp
  have gone: "rid \<notin> set (waiting s')"
  proof -
    have "queues_ok (requests s) (objects s) R (mset (waiting s) + mset (skipped_waiting s) + mset extra) (num_waiting_for_streaming_input s)"
      using wf by (simp add: wf_sched_def)
    from queues_once [OF this, of rid] have "count (mset (waiting s) + mset (skipped_waiting s)) rid \<le> 1" by simp
    then have "count (mset (waiting s')) rid = 0" unfolding s'(4) M(1) [symmetric] by simp
    then have "rid \<notin># mset (waiting s')" by (simp add: not_in_iff)
    then show ?thesis by simp
  qed
  have free: "\<not> is_blocked_waiting_status (status (objects s' x))" if "x \<in> set (waiting s')" for x
    using that gone M(2) wf s'(2,4) by (auto simp: wf_sched_def)
  show "wf_sched (add_mset rid R) extra s'" if "status r = RUNNING"
    by (rule wf_update [OF wf rid(1) r s'(1,2)]) (use that ready s'(3) rid total free in \<open>auto simp: diff_single_trivial\<close>)
  have "\<not> is_finished r" if "status r = WAITING_FOR_REMOTE_KVS" using that by (simp add: is_finished_def status_is_finished_def)
  then show "wf_sched R extra' s'" if "status r = WAITING_FOR_REMOTE_KVS" "mset extra' = add_mset rid (mset extra)"
    by (intro wf_update [OF wf rid(1) r s'(1,2)]) (use that ready s'(3) rid total free in \<open>auto simp: diff_single_trivial\<close>)
qed

lemma returns_prod_apply: "(\<And>a b. y = (a, b) \<Longrightarrow> returns P (f a b z)) \<Longrightarrow> returns P ((case y of (a, b) \<Rightarrow> f a b) z)"
  by (cases y) simp

lemma get_cached_like: "returns (\<lambda>(info, s'). sched_like s s') (get_cached_tokens env rid s)"
  unfolding get_cached_tokens_def Let_def
  by (intro returns_rules returns_prod_apply returns_any [of _ "get_computed_blocks _ _"] returns_any [of _ "get_num_new_matched_tokens _ _ _ _"])
    (auto simp: sched_like_def same_id_def)

lemma connector_after_like: "returns (sched_like s) (connector_after_alloc env rid ci s)"
  unfolding connector_after_alloc_def
  by (intro returns_rules returns_any [of _ "update_state_after_alloc _ _ _ _ _"]) (auto simp: sched_like_def)

lemma plan_waiting_bounds:
  assumes "config_ok cfg"
  shows "returns (\<lambda>(plan, em). \<forall>l. plan = Some l \<longrightarrow> \<not> ci_async ci \<longrightarrow> 0 < el_new_tokens l \<and> el_new_tokens l \<le> budget)
    (plan_waiting cfg env r ci budget enc_budget em)"
proof -
  let ?P = "\<lambda>plan. \<forall>l. plan = Some l \<longrightarrow> \<not> ci_async ci \<longrightarrow> 0 < el_new_tokens l \<and> el_new_tokens l \<le> budget"
  have split: "returns (\<lambda>m. 0 \<le> m \<and> m \<le> n) (mamba_block_aligned_split cfg r n (ci_local ci) (ci_external ci))" if "0 \<le> n" for n
    by (rule mamba_split_bounds) (use assms that in \<open>auto simp: config_ok_def\<close>)
  have first: "returns (\<lambda>(plan, em). ?P plan) (if ci_async ci
            then rbind (ensure (0 < ci_external ci) AssertionError) (\<lambda>_.
                 Inr (Some \<lparr>el_inputs = [], el_new_tokens = 0, el_budget = enc_budget, el_external = [], el_hashes = {},
                            el_embeds = 0, el_cache = em\<rparr>, em))
            else
              if \<not> enable_chunked_prefill cfg \<and> budget < n then Inr (None, em)
                 else
                   rbind (ensure (0 < min n budget) AssertionError) (\<lambda>_.
                   rbind (try_schedule_encoder_inputs cfg env r (ci_computed ci) (min n budget) enc_budget (shift_computed_tokens cfg) em) (\<lambda>l.
                   if has_encoder_inputs r \<and> el_new_tokens l = 0 then Inr (None, el_cache l)
                   else Inr (Some l, el_cache l))))" for n
    by (intro returns_rules returns_call [OF try_schedule_tokens] returns_simps(1) [THEN iffD2]) auto
  show ?thesis unfolding plan_waiting_def Let_def
  proof (intro returns_bind returns_call [OF first] returns_prod, goal_cases)
    case (1 y plan em)
    then have p: "?P plan" by simp
    show ?case
    proof (cases plan)
      case (Some l)
      have "returns (\<lambda>m. \<not> ci_async ci \<longrightarrow> 0 \<le> m \<and> m \<le> budget) (mamba_block_aligned_split cfg r (el_new_tokens l) (ci_local ci) (ci_external ci))"
        using p Some by (cases "ci_async ci") (auto intro: returns_any returns_call [OF split])
      then show ?thesis using p Some unfolding Some option.case
        by (intro returns_if returns_bind) (auto elim!: returns_call split: if_split)
    qed simp
  qed
qed

text \<open>The request at the head of a queue, ready to run.\<close>

definition ready_head :: "queue_name \<Rightarrow> string \<Rightarrow> 'c scheduler \<Rightarrow> bool" where
  "ready_head qn rid s \<longleftrightarrow> queue_of qn s \<noteq> [] \<and> hd (queue_of qn s) = rid \<and> status (objects s rid) \<in> {WAITING, PREEMPTED}"

lemma queue_of_like: "sched_like s s' \<Longrightarrow> queue_of qn s' = queue_of qn s"
  by (cases qn) (auto simp: sched_like_def)

lemma ready_head_like: "sched_like s s' \<Longrightarrow> ready_head qn rid s \<Longrightarrow> ready_head qn rid s'"
  unfolding ready_head_def by (simp add: queue_of_like) (simp add: sched_like_def)

definition wait_left :: "'c step_state \<Rightarrow> nat" where
  "wait_left t = (if broken t then 0 else Suc (queue_left t))"

lemma wait_left_like: "step_like t t' \<Longrightarrow> wait_left t' = wait_left t"
  by (auto simp: wait_left_def queue_left_def step_like_def sched_like_def)

lemma start_running_inv:
  assumes inv: "step_inv cfg B t" and s: "sched_like (sched t) s" and q: "mset (queue_of qn s) = add_mset rid (mset q)"
    and ready: "ready_head qn rid s" and room: "int (length (running (sched t))) < max_num_running_reqs cfg"
    and n: "0 < el_new_tokens l" "el_new_tokens l \<le> token_budget t" and br: "\<not> broken t"
  shows "returns (\<lambda>t'. step_inv cfg B t' \<and> wait_left t' < wait_left t) (start_running cfg rid ci l (t\<lparr>sched := set_queue qn q s\<rparr>))"
proof -
  let ?R = "mset (running s)" and ?s1 = "set_queue qn q s"
  have run: "running s = running (sched t)" "waiting s = waiting (sched t)" "skipped_waiting s = skipped_waiting (sched t)" using s by (auto simp: sched_like_def)
  have wf: "wf_sched ?R (step_skipped_waiting t) s" using wf_sched_like [OF s] inv run by (simp add: step_inv_def)
  have L: "token_ledger B (token_budget t) (num_scheduled_tokens t) (mset (scheduled_ids t))" "set (scheduled_ids t) \<subseteq> set (running s)"
    "map fst (req_to_new_blocks t) = map fst (num_scheduled_tokens t)" using inv run by (auto simp: step_inv_def)
  have "rid \<in> set (queue_of qn s)" using arg_cong [OF q, of set_mset] by auto
  then have new: "rid \<notin> set (running s)" using queue_of_subset [of qn s] wf_once(2,3) [OF wf, of rid] by auto
  then have L': "token_ledger B (token_budget t - el_new_tokens l) (AList.update rid (el_new_tokens l) (num_scheduled_tokens t)) (add_mset rid (mset (scheduled_ids t)))"
    by (intro ledger_add [OF L(1) _ n]) (use L(2) in auto)
  have step: "step_inv cfg B t2 \<and> wait_left t2 < wait_left t"
    if ids: "mset (scheduled_ids t2) = add_mset rid (mset (scheduled_ids t))"
      and r: "same_id (objects s rid) r" "status r = RUNNING"
      and t2: "sched t2 = set_object rid r (?s1\<lparr>running := running ?s1 @ [rid]\<rparr>)" "step_skipped_waiting t2 = step_skipped_waiting t" "broken t2 = broken t"
        "num_scheduled_tokens t2 = AList.update rid (el_new_tokens l) (num_scheduled_tokens t)" "token_budget t2 = token_budget t - el_new_tokens l"
        "req_to_new_blocks t2 = AList.update rid nb (req_to_new_blocks t)" for t2 r nb
  proof -
    have "wf_sched (add_mset rid ?R) (step_skipped_waiting t) (sched t2)"
      by (rule wf_admit(1) [OF wf q _ r(1)]) (use ready r(2) in \<open>auto simp: ready_head_def t2(1)\<close>)
    moreover have "set (scheduled_ids t2) = insert rid (set (scheduled_ids t))" using arg_cong [OF ids, of set_mset] by simp
    moreover have "map fst (req_to_new_blocks t2) = map fst (num_scheduled_tokens t2)" unfolding t2(4,6) using L(3) by (simp only: AList.update_keys)
    ultimately show ?thesis using L' ids t2 run room L(2) br set_queue_mset(3) [OF q] by (auto simp: step_inv_def wait_left_def queue_left_def)
  qed
  have fin: "returns (\<lambda>t'. step_inv cfg B t' \<and> wait_left t' < wait_left t) (schedule_encoder_inputs rid l t2)" if "step_inv cfg B t2 \<and> wait_left t2 < wait_left t" for t2
    by (rule returns_call [OF schedule_encoder_like]) (use that step_inv_step wait_left_like in fastforce)
  let ?r = "(objects s rid)\<lparr>status := RUNNING, num_computed_tokens := ci_computed ci,
      num_cached_tokens := (if num_cached_tokens (objects s rid) < 0 then ci_computed ci else num_cached_tokens (objects s rid))\<rparr>"
  note go = fin [OF step [where r = ?r and nb = "km_get_blocks rid (kv_cache_manager ?s1)"]]
  consider (new) "status (objects s rid) = WAITING" | (resumed) "status (objects s rid) = PREEMPTED" using ready by (auto simp: ready_head_def)
  then show ?thesis
  proof cases
    case new
    show ?thesis unfolding start_running_def Let_def by (simp add: new split del: if_split, rule go) (auto simp: scheduled_ids_def same_id_def)
  next
    case resumed
    show ?thesis unfolding start_running_def Let_def by (simp add: resumed split del: if_split, rule go) (auto simp: scheduled_ids_def same_id_def)
  qed
qed

lemma wait_for_remote_inv:
  assumes inv: "step_inv cfg B t" and s: "sched_like (sched t) s" and q: "mset (queue_of qn s) = add_mset rid (mset q)"
    and ready: "ready_head qn rid s" and br: "\<not> broken t"
  shows "step_inv cfg B (wait_for_remote cfg rid ci (t\<lparr>sched := set_queue qn q s\<rparr>)) \<and> wait_left (wait_for_remote cfg rid ci (t\<lparr>sched := set_queue qn q s\<rparr>)) < wait_left t"
proof -
  let ?t = "wait_for_remote cfg rid ci (t\<lparr>sched := set_queue qn q s\<rparr>)"
  let ?r = "(objects s rid)\<lparr>status := WAITING_FOR_REMOTE_KVS, num_computed_tokens := ci_computed ci\<rparr>"
  have run: "running s = running (sched t)" "waiting s = waiting (sched t)" "skipped_waiting s = skipped_waiting (sched t)" using s by (auto simp: sched_like_def)
  have wf: "wf_sched (mset (running s)) (step_skipped_waiting t) s" using wf_sched_like [OF s] inv run by (simp add: step_inv_def)
  have rid: "rid \<in> set (requests s)" using ready queue_head [of qn s] wf_schedD(4,5) [OF wf] by (auto simp: ready_head_def)
  have skipped: "mset (step_skipped_waiting ?t) = add_mset rid (mset (step_skipped_waiting t))"
    unfolding wait_for_remote_def Let_def
    by simp (rule queue_prepend_mset, use wf_schedD(3,8) [OF wf] rid in auto)
  have t: "sched ?t = set_object rid ?r (set_queue qn q s)" by (simp add: wait_for_remote_def Let_def set_object_def)
  have "wf_sched (mset (running s)) (step_skipped_waiting ?t) (sched ?t)"
    by (rule wf_admit(2) [OF wf q, of ?r]) (use ready skipped t in \<open>auto simp: ready_head_def same_id_def\<close>)
  moreover have "scheduled_ids ?t = scheduled_ids t" "token_budget ?t = token_budget t" "num_scheduled_tokens ?t = num_scheduled_tokens t"
    "req_to_new_blocks ?t = req_to_new_blocks t" "broken ?t = broken t" by (simp_all add: wait_for_remote_def Let_def scheduled_ids_def)
  ultimately show ?thesis using inv t run br set_queue_mset(3) [OF q] by (simp add: step_inv_def wait_left_def queue_left_def)
qed

lemma admit_waiting_inv:
  assumes inv: "step_inv cfg B t" and ready: "ready_head qn rid (sched t)" and room: "int (length (running (sched t))) < max_num_running_reqs cfg"
    and n: "\<not> ci_async ci \<Longrightarrow> 0 < el_new_tokens l \<and> el_new_tokens l \<le> token_budget t" and br: "\<not> broken t"
  shows "returns (\<lambda>t'. step_inv cfg B t' \<and> wait_left t' < wait_left t) (admit_waiting cfg env qn rid ci l t)"
proof -
  let ?alloc = "\<lambda>k enc. allocate_slots (env_hash env) (objects (sched t) rid) (el_new_tokens l) (ci_local ci) (Some (ci_blocks ci)) k (ci_external ci) (ci_async ci) enc (kv_cache_manager (sched t))"
  have alloc: "returns (\<lambda>(nb, r, km). sched_like (sched t) (set_object rid r (sched t\<lparr>kv_cache_manager := km\<rparr>))) (?alloc k enc)" for k enc
    by (rule returnsI) (auto dest: allocate_slots_memo intro: sched_like_memo)
  have stop: "step_inv cfg B (t\<lparr>sched := s\<lparr>encoder_cache_manager := em\<rparr>, broken := True\<rparr>) \<and> wait_left (t\<lparr>sched := s\<lparr>encoder_cache_manager := em\<rparr>, broken := True\<rparr>) < wait_left t"
    if "sched_like (sched t) s" for s em
    using step_inv_step [OF inv, of "t\<lparr>sched := s\<lparr>encoder_cache_manager := em\<rparr>\<rparr>"] that br
    by (auto simp: step_like_def sched_like_def wait_left_def step_inv_def scheduled_ids_def)
  have pop: "returns (\<lambda>(x, q). x = rid \<and> mset (queue_of qn s) = add_mset rid (mset q)) (queue_pop (policy cfg) (objects s) (queue_of qn s))"
    if "sched_like (sched t) s" for s
  proof -
    have "wf_sched (mset (running (sched t))) (step_skipped_waiting t) s" using wf_sched_like [OF that] inv by (simp add: step_inv_def)
    from queue_pop_hd [OF wf_queue_named [OF this]] show ?thesis
      by (rule returns_call) (use ready queue_of_like [OF that] in \<open>auto simp: ready_head_def\<close>)
  qed
  show ?thesis unfolding admit_waiting_def Let_def
  proof (intro returns_bind returns_any [of _ "if _ then sum_embeds _ _ else _"] returns_call [OF alloc] returns_prod, goal_cases)
    case (1 enc y nb z r km)
    let ?s = "set_object rid r (sched t\<lparr>kv_cache_manager := km\<rparr>)"
    have like: "sched_like (sched t) ?s" using 1 by simp
    show ?case
    proof (cases nb)
      case None
      then show ?thesis unfolding None option.case
        by (intro returns_bind returns_any [of _ "if _ then em_free _ _ else _"]) (use stop [OF like] in simp)
    next
      case (Some b)
      have go: "returns (\<lambda>t'. step_inv cfg B t' \<and> wait_left t' < wait_left t) (if ci_async ci then Inr (wait_for_remote cfg rid ci (t\<lparr>sched := set_queue qn q s\<rparr>))
          else start_running cfg rid ci l (t\<lparr>sched := set_queue qn q s\<rparr>))"
        if "sched_like (sched t) s" "mset (queue_of qn s) = add_mset rid (mset q)" for s q
        using wait_for_remote_inv [OF inv that ready_head_like [OF that(1) ready] br] start_running_inv [OF inv that ready_head_like [OF that(1) ready] room] n br by simp
      show ?thesis unfolding Some option.case
      proof (intro returns_bind, rule returns_call [OF connector_after_like], intro returns_bind, goal_cases)
        case (1 s)
        from sched_like_trans [OF like 1] have s: "sched_like (sched t) s" .
        show ?case by (rule returns_call [OF pop [OF s]], rule returns_prod) (use go [OF s] in simp)
      qed
    qed
  qed
qed

section \<open>The loop over waiting requests\<close>

lemma waiting_status: "\<not> is_blocked_waiting_status st \<Longrightarrow> st \<noteq> RUNNING \<Longrightarrow> \<not> status_is_finished st \<Longrightarrow> st \<in> {WAITING, PREEMPTED}"
  by (cases st) (auto simp: is_blocked_waiting_status_def status_is_finished_def)

lemma step_inv_promoted:
  assumes "step_inv cfg B t" and "promoted rid (sched t) s'" and "rid \<in> set (waiting (sched t)) \<union> set (skipped_waiting (sched t))"
  shows "step_inv cfg B (t\<lparr>sched := s'\<rparr>)" "running s' = running (sched t)" "waiting s' = waiting (sched t)" "skipped_waiting s' = skipped_waiting (sched t)"
    "status (objects s' rid) \<in> {WAITING, PREEMPTED}"
proof -
  show eq: "running s' = running (sched t)" "waiting s' = waiting (sched t)" "skipped_waiting s' = skipped_waiting (sched t)"
    "status (objects s' rid) \<in> {WAITING, PREEMPTED}" using assms(2) by (auto simp: promoted_def)
  have "wf_sched (mset (running (sched t))) (step_skipped_waiting t) s'"
    by (rule promoted_wf [OF _ assms(2)]) (use assms(1,3) in \<open>auto simp: step_inv_def\<close>)
  then show "step_inv cfg B (t\<lparr>sched := s'\<rparr>)" using assms(1) eq by (simp add: step_inv_def scheduled_ids_def)
qed

text \<open>State \<open>t'\<close> of an iteration that started in \<open>t\<close> and looks at \<open>rid\<close>, the head of a queue.\<close>

definition head_at :: "sched_config \<Rightarrow> int \<Rightarrow> 'c step_state \<Rightarrow> queue_name \<Rightarrow> string \<Rightarrow> 'c step_state \<Rightarrow> bool" where
  "head_at cfg B t qn rid t' \<longleftrightarrow> step_inv cfg B t' \<and> queue_of qn (sched t') \<noteq> [] \<and> hd (queue_of qn (sched t')) = rid
     \<and> wait_left t' = wait_left t \<and> running (sched t') = running (sched t) \<and> token_budget t' = token_budget t \<and> \<not> broken t'"

lemma head_at_skip:
  assumes "head_at cfg B t qn rid t1"
  shows "returns (\<lambda>t'. step_inv cfg B t' \<and> wait_left t' < wait_left t) (skip_waiting cfg qn rid t1)"
proof -
  have a: "step_inv cfg B t1" "queue_of qn (sched t1) \<noteq> []" "rid = hd (queue_of qn (sched t1))" "wait_left t1 = wait_left t" "\<not> broken t1"
    using assms by (auto simp: head_at_def)
  have "returns (\<lambda>t'. broken t' = broken t1) (skip_waiting cfg qn rid t1)"
    unfolding skip_waiting_def Let_def by (intro returns_bind returns_any [of _ "queue_pop _ _ _"] returns_prod) simp
  with skip_waiting_inv [OF a(1-3)] show ?thesis using a(4,5) by (auto simp: returns_def wait_left_def split: sum.splits if_splits)
qed

lemma head_at_like:
  assumes "head_at cfg B t qn rid t1" and "step_like t1 t2"
  shows "head_at cfg B t qn rid t2"
  using assms step_inv_step [of cfg B t1 t2] wait_left_like [OF assms(2)] queue_of_like [of "sched t1" "sched t2" qn]
  by (auto simp: head_at_def step_like_def sched_like_def)

lemma head_at_ready:
  assumes "head_at cfg B t qn rid t"
  shows "returns (\<lambda>(ok, s). head_at cfg B t qn rid (t\<lparr>sched := s\<rparr>) \<and> (ok \<longrightarrow> status (objects s rid) \<in> {WAITING, PREEMPTED}))
      (if is_blocked_waiting_status (status (objects (sched t) rid)) then try_promote_blocked_waiting_request env rid (sched t) else Inr (True, sched t))"
proof -
  have inv: "step_inv cfg B t" and w: "rid \<in> set (waiting (sched t)) \<union> set (skipped_waiting (sched t))"
    using assms queue_head [of qn "sched t"] by (auto simp: head_at_def)
  then have nb: "\<not> is_blocked_waiting_status (status (objects (sched t) rid)) \<Longrightarrow> status (objects (sched t) rid) \<in> {WAITING, PREEMPTED}"
    using wf_status(2) [of _ _ "sched t" rid] waiting_status unfolding step_inv_def is_finished_def by blast
  have prom: "head_at cfg B t qn rid (t\<lparr>sched := s\<rparr>) \<and> status (objects s rid) \<in> {WAITING, PREEMPTED}" if p: "promoted rid (sched t) s" for s
    using step_inv_promoted [OF inv p w] assms by (cases qn) (auto simp: head_at_def wait_left_def queue_left_def)
  show ?thesis
  proof (rule returns_if, rule returnsI, goal_cases)
    case (1 y)
    obtain ok s where y: "y = (ok, s)" by (cases y)
    from try_promote_frame [OF 1(2) [unfolded y]] prom [of s] assms show ?case unfolding y by (cases ok) auto
  qed (use nb assms in auto)
qed

lemma select_queue: "returns (\<lambda>q. \<forall>qn. q = Some qn \<longrightarrow> queue_of qn s \<noteq> []) (select_waiting_queue_for_scheduling cfg s)"
  unfolding select_waiting_queue_for_scheduling_def
  by (cases "policy cfg") (auto intro!: returns_bind returns_any [of _ "queue_peek _ _ _"])

lemma schedule_waiting_one_inv:
  assumes inv: "step_inv cfg B t" and more: "more_waiting t" and cfg: "config_ok cfg"
  shows "returns (\<lambda>t'. step_inv cfg B t' \<and> wait_left t' < wait_left t) (schedule_waiting_one cfg env t)"
proof -
  let ?Q = "\<lambda>t'. step_inv cfg B t' \<and> wait_left t' < wait_left t"
  have br: "\<not> broken t" using more by (auto simp: more_waiting_def)
  have wf: "wf_sched (mset (running (sched t))) (step_skipped_waiting t) (sched t)" "int (length (running (sched t))) \<le> max_num_running_reqs cfg"
    using inv by (auto simp: step_inv_def)
  have stop: "?Q (t1\<lparr>broken := True\<rparr>)" if "step_inv cfg B t1" for t1
    using that br by (simp add: step_inv_def scheduled_ids_def wait_left_def)
  have peek: "returns (\<lambda>rid. head_at cfg B t qn rid t) (queue_peek (policy cfg) (objects (sched t)) (queue_of qn (sched t)))" for qn
    by (rule returnsI) (use queue_peek_hd [OF wf_queue_named [OF wf(1), of qn]] inv br in \<open>auto simp: head_at_def\<close>)
  have admit: "returns ?Q (admit_waiting cfg env qn rid ci l t1)"
    if "head_at cfg B t qn rid t1" "status (objects (sched t1) rid) \<in> {WAITING, PREEMPTED}" "int (length (running (sched t))) \<noteq> max_num_running_reqs cfg"
      "\<not> ci_async ci \<longrightarrow> 0 < el_new_tokens l \<and> el_new_tokens l \<le> token_budget t1" for qn rid t1 ci l
    using admit_waiting_inv [of cfg B t1 qn rid ci l env] that wf(2) by (auto simp: head_at_def ready_head_def)
  have cached: "returns (\<lambda>(info, s). step_like t1 (t1\<lparr>sched := s\<rparr>)) (get_cached_tokens env rid (sched t1))" for rid t1
    by (rule returns_call [OF get_cached_like]) (auto simp: step_like_def)
  have tail: "returns ?Q (rbind (plan_waiting cfg env (objects (sched t1) rid) ci (token_budget t1) eb (encoder_cache_manager (sched t1))) (\<lambda>(plan, em).
      case plan of None \<Rightarrow> Inr (t1\<lparr>sched := sched t1\<lparr>encoder_cache_manager := em\<rparr>, broken := True\<rparr>)
        | Some l \<Rightarrow> admit_waiting cfg env qn rid ci l (t1\<lparr>sched := sched t1\<lparr>encoder_cache_manager := em\<rparr>\<rparr>)))"
    if h: "head_at cfg B t qn rid t1" "status (objects (sched t1) rid) \<in> {WAITING, PREEMPTED}" "int (length (running (sched t))) \<noteq> max_num_running_reqs cfg" for qn rid ci t1 eb
  proof (rule returns_bind, rule returns_call [OF plan_waiting_bounds [OF cfg, of ci "token_budget t1"]], rule returns_prod, goal_cases)
    case (1 y plan em)
    let ?t = "t1\<lparr>sched := sched t1\<lparr>encoder_cache_manager := em\<rparr>\<rparr>"
    have h': "head_at cfg B t qn rid ?t" by (rule head_at_like [OF h(1)]) (simp add: step_like_def sched_like_encoder)
    then have "step_inv cfg B ?t" by (simp add: head_at_def)
    then show ?case using stop [of ?t] admit [OF h' _ h(3), of ci] h(2) 1 by (cases plan) auto
  qed
  have ready: "returns ?Q (rbind (get_cached_tokens env rid (sched t1)) (\<lambda>(info, s).
      case info of None \<Rightarrow> skip_waiting cfg qn rid (t1\<lparr>sched := s\<rparr>)
      | Some ci \<Rightarrow> rbind (plan_waiting cfg env (objects s rid) ci (token_budget t1) eb (encoder_cache_manager s)) (\<lambda>(plan, em).
      case plan of None \<Rightarrow> Inr (t1\<lparr>sched := s\<lparr>encoder_cache_manager := em\<rparr>, broken := True\<rparr>)
        | Some l \<Rightarrow> admit_waiting cfg env qn rid ci l (t1\<lparr>sched := s\<lparr>encoder_cache_manager := em\<rparr>\<rparr>))))"
    if h: "head_at cfg B t qn rid t1" "status (objects (sched t1) rid) \<in> {WAITING, PREEMPTED}" "int (length (running (sched t))) \<noteq> max_num_running_reqs cfg" for qn rid t1 eb
  proof (rule returns_bind, rule returns_call [OF cached], rule returns_prod, goal_cases)
    case (1 y info s)
    then have l: "step_like t1 (t1\<lparr>sched := s\<rparr>)" by simp
    note h' = head_at_like [OF h(1) l]
    have st: "status (objects (sched (t1\<lparr>sched := s\<rparr>)) rid) \<in> {WAITING, PREEMPTED}" using h(2) l by (simp add: step_like_def sched_like_def)
    show ?case using head_at_skip [OF h'] tail [OF h' st h(3)] by (cases info) (simp_all cong: option.case_cong)
  qed
  show ?thesis
  proof (cases "int (length (running (sched t))) = max_num_running_reqs cfg")
    case True
    then show ?thesis using stop [OF inv] by (simp add: schedule_waiting_one_def)
  next
    case room: False
    have head: "returns ?Q (if \<not> ok then skip_waiting cfg qn rid (t\<lparr>sched := s\<rparr>)
       else if lora_blocked cfg (scheduled_loras t) (objects s rid) then skip_waiting cfg qn rid (t\<lparr>sched := s\<rparr>)
       else rbind (get_cached_tokens env rid s) (\<lambda>(info, s).
         case info of None \<Rightarrow> skip_waiting cfg qn rid (t\<lparr>sched := s\<rparr>)
         | Some ci \<Rightarrow> rbind (plan_waiting cfg env (objects s rid) ci (token_budget t) (encoder_compute_budget t) (encoder_cache_manager s)) (\<lambda>(plan, em).
           case plan of None \<Rightarrow> Inr (t\<lparr>sched := s\<lparr>encoder_cache_manager := em\<rparr>, broken := True\<rparr>)
           | Some l \<Rightarrow> admit_waiting cfg env qn rid ci l (t\<lparr>sched := s\<lparr>encoder_cache_manager := em\<rparr>\<rparr>))))"
      if "head_at cfg B t qn rid (t\<lparr>sched := s\<rparr>) \<and> (ok \<longrightarrow> status (objects s rid) \<in> {WAITING, PREEMPTED})" for qn rid ok s
      using head_at_skip [of cfg B t qn rid "t\<lparr>sched := s\<rparr>"] ready [of qn rid "t\<lparr>sched := s\<rparr>"] that room by (simp cong: option.case_cong)
    show ?thesis unfolding schedule_waiting_one_def Let_def if_not_P [OF room]
    proof (intro returns_bind returns_any [of _ "select_waiting_queue_for_scheduling _ _"] returns_option, goal_cases)
      case (2 queue qn)
      show ?case
        by (rule returns_call [OF peek], rule returns_bind, rule returns_call [OF head_at_ready], assumption, rule returns_prod)
          (use head in \<open>simp cong: option.case_cong if_cong\<close>)
    qed simp
  qed
qed

interpretation waiting_loop: ranked_loop "\<lambda>t. config_ok cfg \<and> step_inv cfg B t" more_waiting "schedule_waiting_one cfg env" wait_left for cfg B env
  by unfold_locales (auto intro: returns_call [OF schedule_waiting_one_inv])

lemma prepend_skipped:
  assumes "wf_sched R extra s"
  shows "\<exists>q. queue_prepend_requests pol (objects s) extra (skipped_waiting s) = Inr q \<and> mset q = mset extra + mset (skipped_waiting s)"
  by (rule queue_prepend_requests_mset) (use wf_schedD(2,3) [OF assms] in auto)

lemma schedule_waiting_inv:
  assumes "step_inv cfg B t" and "config_ok cfg" and "step_skipped_waiting t = []"
  shows "returns (\<lambda>t'. step_inv cfg B (t'\<lparr>step_skipped_waiting := []\<rparr>)) (schedule_waiting cfg env t)"
proof -
  have start: "config_ok cfg \<and> step_inv cfg B (t\<lparr>broken := False\<rparr>)" using assms(1,2) by (simp add: step_inv_def scheduled_ids_def)
  show ?thesis unfolding schedule_waiting_def
  proof (rule returns_bind, rule returns_call [OF waiting_loop.loop_returns [OF start]], goal_cases)
    case (1 t)
    then have inv: "step_inv cfg B t" and wf: "wf_sched (mset (running (sched t))) (step_skipped_waiting t) (sched t)" by (auto simp: step_inv_def)
    obtain q where q: "queue_prepend_requests (policy cfg) (objects (sched t)) (step_skipped_waiting t) (skipped_waiting (sched t)) = Inr q"
        "mset q = mset (step_skipped_waiting t) + mset (skipped_waiting (sched t))"
      using prepend_skipped [OF wf] by blast
    have "wf_sched (mset (running (sched t))) [] (sched t\<lparr>skipped_waiting := q\<rparr>)"
      by (rule wf_move [OF wf]) (use q(2) in auto)
    then show ?case using inv q by (auto simp: step_inv_def scheduled_ids_def)
  qed
qed

lemma schedule_waiting_error:
  assumes "step_inv cfg B t" and "config_ok cfg" and "schedule_waiting cfg env t = Inl e"
  shows "\<exists>t'. step_inv cfg B t' \<and> more_waiting t' \<and> schedule_waiting_one cfg env t' = Inl e"
proof -
  have start: "config_ok cfg \<and> step_inv cfg B (t\<lparr>broken := False\<rparr>)" using assms(1,2) by (simp add: step_inv_def scheduled_ids_def)
  let ?loop = "rwhile (Suc (Suc (length (waiting (sched t)) + length (skipped_waiting (sched t))))) more_waiting (schedule_waiting_one cfg env) (t\<lparr>broken := False\<rparr>)"
  have "?loop = Inl e"
  proof (cases ?loop)
    case (Inr t1)
    then have "step_inv cfg B t1" using returnsD [OF waiting_loop.loop_returns [OF start] Inr] by simp
    then have "wf_sched (mset (running (sched t1))) (step_skipped_waiting t1) (sched t1)" by (simp add: step_inv_def)
    from prepend_skipped [OF this, of "policy cfg"] show ?thesis using assms(3) Inr by (auto simp: schedule_waiting_def split: if_splits)
  qed (use assms(3) in \<open>simp add: schedule_waiting_def\<close>)
  moreover have "wait_left (t\<lparr>broken := False\<rparr>) < Suc (Suc (length (waiting (sched t)) + length (skipped_waiting (sched t))))"
    by (simp add: wait_left_def queue_left_def)
  ultimately show ?thesis using waiting_loop.loop_error [OF start] by blast
qed

section \<open>A whole step\<close>

definition running_ok :: "sched_config \<Rightarrow> 'c scheduler \<Rightarrow> bool" where
  "running_ok cfg s \<longleftrightarrow> (\<forall>x \<in> set (running s). tokens_ok cfg (objects s x))"

definition step_budget :: "sched_config \<Rightarrow> 'c scheduler \<Rightarrow> int" where
  "step_budget cfg s = (if pause s = PAUSED_ALL then 0 else max_num_scheduled_tokens cfg)"

lemma new_step_inv:
  assumes "sched_inv cfg s" and "running_ok cfg s" and "config_ok cfg"
  shows "run_inv cfg (step_budget cfg s) (new_step cfg s)"
proof -
  have "wf_sched (mset (running s)) [] (s\<lparr>kv_cache_manager := km\<rparr>)" for km using assms(1) by (simp add: sched_inv_def wf_sched_def)
  then show ?thesis using assms
    by (simp add: run_inv_def step_inv_def new_step_def sched_inv_def scheduled_ids_def token_ledger_def step_budget_def running_ok_def config_ok_def)
qed

lemma schedule_requests_inv:
  assumes "sched_inv cfg s" and "running_ok cfg s" and "config_ok cfg"
  shows "returns (\<lambda>t. step_inv cfg (step_budget cfg s) (t\<lparr>step_skipped_waiting := []\<rparr>)) (schedule_requests cfg env s)"
proof -
  let ?B = "step_budget cfg s"
  have loras: "returns (\<lambda>t'. run_inv cfg ?B t') (collect_loras cfg t)" if "run_inv cfg ?B t" for t :: "'a step_state"
    unfolding collect_loras_def Let_def
    by (intro returns_rules) (use that in \<open>auto simp: run_inv_def step_inv_def scheduled_ids_def\<close>)
  have wait: "returns (\<lambda>t. step_inv cfg ?B (t\<lparr>step_skipped_waiting := []\<rparr>))
      (if preempted_reqs t = [] \<and> pause (sched t) = UNPAUSED then schedule_waiting cfg env t else Inr t)" if "run_inv cfg ?B t" for t
    using schedule_waiting_inv [of cfg ?B t env] that assms(3) by (auto simp: run_inv_def step_inv_def scheduled_ids_def)
  show ?thesis unfolding schedule_requests_def
    by (intro returns_bind returns_call [OF schedule_running_inv [OF new_step_inv [OF assms] assms(3)]] returns_call [OF loras] wait)
qed

section \<open>After the step\<close>

lemma make_output_like:
  "returns (\<lambda>(out, s). sched_like (sched t) s \<and> out_num_scheduled_tokens out = num_scheduled_tokens t) (make_output cfg t)"
  unfolding make_output_def Let_def
  by (rule returns_bind, rule returns_any, intro returns_rules returns_any [of _ "new_reqs_data _ _"] returns_any [of _ "make_cached_request_data _ _"])
    (auto simp: sched_like_def split: prod.splits if_splits)

text \<open>Everything the queues depend on is kept, and the computed tokens of one request change by \<open>n\<close>.\<close>

definition advanced :: "(string \<Rightarrow> int) \<Rightarrow> 'c scheduler \<Rightarrow> 'c scheduler \<Rightarrow> bool" where
  "advanced f s s' \<longleftrightarrow> requests s' = requests s \<and> waiting s' = waiting s \<and> skipped_waiting s' = skipped_waiting s \<and> running s' = running s
     \<and> num_waiting_for_streaming_input s' = num_waiting_for_streaming_input s \<and> pause s' = pause s
     \<and> (\<forall>x. same_id (objects s x) (objects s' x) \<and> status (objects s' x) = status (objects s x) \<and> all_token_ids (objects s' x) = all_token_ids (objects s x)
         \<and> num_computed_tokens (objects s' x) = num_computed_tokens (objects s x) + f x)"

lemma advanced_inv: "advanced f s s' \<Longrightarrow> sched_inv cfg s \<Longrightarrow> sched_inv cfg s'"
  using wf_sched_cong [of s' s "mset (running s)" "[]"] by (auto simp: advanced_def sched_inv_def)

lemma advanced_trans: "advanced f s1 s2 \<Longrightarrow> advanced g s2 s3 \<Longrightarrow> advanced (\<lambda>x. f x + g x) s1 s3"
  by (auto simp: advanced_def intro: same_id_trans)

lemma sched_like_advanced: "sched_like s s' \<Longrightarrow> advanced (\<lambda>_. 0) s s'"
  by (simp add: advanced_def sched_like_def)

lemma free_encoder_like: "returns (sched_like s) (free_encoder_inputs cfg rid s)"
  unfolding free_encoder_inputs_def Let_def
  by (intro returns_bind returns_any [of _ "rfold _ _ _"]) (simp add: sched_like_encoder)

lemma advance_request_advanced:
  "returns (\<lambda>(s', out'). advanced (\<lambda>x. if x = rid then n else 0) s s' \<and> out_num_scheduled_tokens out' = out_num_scheduled_tokens out) (advance_request cfg (rid, n) (s, out))"
proof -
  have set: "advanced (\<lambda>x. if x = rid then n else 0) s (set_object rid (objects s rid\<lparr>num_computed_tokens := num_computed_tokens (objects s rid) + n, is_prefill_chunk := b\<rparr>) s)" for b
    by (auto simp: advanced_def same_id_def)
  have go: "advanced (\<lambda>x. if x = rid then n else 0) s s'"
    if "sched_like (set_object rid (objects s rid\<lparr>num_computed_tokens := num_computed_tokens (objects s rid) + n, is_prefill_chunk := b\<rparr>) s) s'" for b s'
    using advanced_trans [OF set [of b] sched_like_advanced [OF that]] by simp
  show ?thesis unfolding advance_request_def prod.case get_request_def Let_def
    by (intro returns_option returns_bind returns_if returns_call [OF free_encoder_like]) (auto split: if_splits simp: set go)
qed

definition scheduled_sum :: "(string \<times> int) list \<Rightarrow> string \<Rightarrow> int" where
  "scheduled_sum xs x = sum_list (map (\<lambda>(y, n). if x = y then n else 0) xs)"

lemma scheduled_sum_map_of: "distinct (map fst xs) \<Longrightarrow> scheduled_sum xs x = (case map_of xs x of None \<Rightarrow> 0 | Some n \<Rightarrow> n)"
  by (induction xs) (auto simp: scheduled_sum_def image_iff intro!: sum_list_0 split: option.splits)

lemma scheduled_sum_Cons: "scheduled_sum ((y, n) # xs) = (\<lambda>x. (if x = y then n else 0) + scheduled_sum xs x)"
  by (simp add: scheduled_sum_def fun_eq_iff)

lemma advance_all:
  "returns (\<lambda>(s', out'). advanced (scheduled_sum xs) s s' \<and> out_num_scheduled_tokens out' = out_num_scheduled_tokens out) (rfold (advance_request cfg) xs (s, out))"
proof (induction xs arbitrary: s out)
  case Nil
  then show ?case by (simp add: advanced_def scheduled_sum_def)
next
  case (Cons y xs)
  obtain rid n where y: "y = (rid, n)" by (cases y)
  have "returns (\<lambda>(s', out'). advanced (scheduled_sum (y # xs)) s s' \<and> out_num_scheduled_tokens out' = out_num_scheduled_tokens out) (rfold (advance_request cfg) xs (s1, out1))"
    if "advanced (\<lambda>x. if x = rid then n else 0) s s1" "out_num_scheduled_tokens out1 = out_num_scheduled_tokens out" for s1 out1
    by (rule returns_call [OF Cons.IH]) (use that advanced_trans [OF that(1)] in \<open>auto simp: scheduled_sum_Cons y\<close>)
  then show ?case unfolding y rfold.simps by (intro returns_bind returns_call [OF advance_request_advanced]) auto
qed

lemma add_placeholders_advanced:
  "returns (\<lambda>(s', out'). advanced (\<lambda>_. 0) s s' \<and> out_num_scheduled_tokens out' = out_num_scheduled_tokens out) (add_placeholders cfg y (s, out))"
  unfolding add_placeholders_def Let_def
  by (cases y, simp only: prod.case, intro returns_option returns_if) (auto simp: advanced_def same_id_def get_request_def split: if_splits)

lemma update_after_schedule_advanced:
  "returns (\<lambda>(s', out'). advanced (scheduled_sum (out_num_scheduled_tokens out)) s s' \<and> out_num_scheduled_tokens out' = out_num_scheduled_tokens out)
     (update_after_schedule cfg out s)"
proof -
  let ?f = "scheduled_sum (out_num_scheduled_tokens out)"
  define I where "I = (\<lambda>(s', out' :: scheduler_output). advanced ?f s s' \<and> out_num_scheduled_tokens out' = out_num_scheduled_tokens out)"
  have cleared: "advanced ?f s (s1\<lparr>finished_req_ids := {}\<rparr>)" if "advanced ?f s s1" for s1
    using that by (simp add: advanced_def)
  have step: "returns I (add_placeholders cfg y x)" if "I x" for x y
  proof -
    obtain s1 out1 where x: "x = (s1, out1)" by (cases x)
    show ?thesis unfolding x
      by (rule returns_call [OF add_placeholders_advanced]) (use that advanced_trans [of ?f s s1 "\<lambda>_. 0"] in \<open>auto simp: I_def x\<close>)
  qed
  have "returns I (if async_scheduling cfg then rfold (add_placeholders cfg) (out_num_scheduled_tokens out1) (s1\<lparr>finished_req_ids := {}\<rparr>, out1)
      else Inr (s1\<lparr>finished_req_ids := {}\<rparr>, out1))" if "I (s1, out1)" for s1 out1
    using that cleared by (intro returns_if returns_fold step) (auto simp: I_def)
  then show ?thesis unfolding update_after_schedule_def Let_def I_def [symmetric]
    by (intro returns_bind returns_call [OF advance_all] returns_prod) (auto simp: I_def)
qed

lemma schedule_inv:
  assumes "sched_inv cfg s" and "running_ok cfg s" and "config_ok cfg" and "schedule cfg env s = Inr (out, s')"
  shows "\<exists>t. schedule_requests cfg env s = Inr t \<and> step_inv cfg (step_budget cfg s) (t\<lparr>step_skipped_waiting := []\<rparr>)
     \<and> out_num_scheduled_tokens out = num_scheduled_tokens t \<and> advanced (scheduled_sum (num_scheduled_tokens t)) (sched t) s'"
proof -
  obtain t out1 s1 where t: "schedule_requests cfg env s = Inr t" "make_output cfg t = Inr (out1, s1)"
     "update_after_schedule cfg out1 (s1\<lparr>connector := map_option (build_connector_meta env out1) (connector s1)\<rparr>) = Inr (s', out)"
    using assms(4) by (auto simp: schedule_def rbind_eq_Inr)
  let ?s1 = "s1\<lparr>connector := map_option (build_connector_meta env out1) (connector s1)\<rparr>"
  have "sched_like (sched t) s1" and n: "out_num_scheduled_tokens out1 = num_scheduled_tokens t" using returnsD [OF make_output_like t(2)] by auto
  then have l: "advanced (\<lambda>_. 0) (sched t) ?s1" by (simp add: advanced_def sched_like_def)
  have "advanced (scheduled_sum (num_scheduled_tokens t)) ?s1 s'" "out_num_scheduled_tokens out = num_scheduled_tokens t"
    using returnsD [OF update_after_schedule_advanced t(3)] n by auto
  then show ?thesis using advanced_trans [OF l] t(1) returnsD [OF schedule_requests_inv [OF assms(1-3)] t(1)] by simp
qed

lemma step_inv_sched:
  assumes "step_inv cfg B (t\<lparr>step_skipped_waiting := []\<rparr>)"
  shows "sched_inv cfg (sched t)" "token_ledger B (token_budget t) (num_scheduled_tokens t) (mset (scheduled_ids t))" "set (scheduled_ids t) \<subseteq> set (running (sched t))"
    "B \<le> max_num_scheduled_tokens cfg \<Longrightarrow> constraints_ok cfg t"
  using assms step_inv_constraints [OF assms] by (auto simp: step_inv_def sched_inv_def scheduled_ids_def constraints_ok_def)

section \<open>Properties of a step\<close>

text \<open>A small scheduler without connectors: four requests at a time, sixteen tokens per step, six blocks.\<close>

definition sample_settings :: vllm_settings where
  "sample_settings = \<lparr>set_max_num_seqs = 4, set_max_num_scheduled_tokens = None, set_max_num_batched_tokens = 16,
    set_max_model_len = 20, set_policy = ''fcfs'', set_long_prefill_token_threshold = 0, set_enable_chunked_prefill = True,
    set_disable_chunked_mm_input = False, set_async_scheduling = False, set_is_encoder_decoder = False, set_max_loras = None,
    set_speculative = None, set_kv_load_failure_policy = None, set_num_gpu_blocks = Some 6, set_enable_prefix_caching = True,
    set_enable_kv_cache_events = False, set_cache_block_size = 2, set_mamba_cache_mode = ''none'', set_pipeline_parallel_size = 1,
    set_dcp = 1, set_pcp = 1, set_use_v2_model_runner = False, set_int_block_hashes = False\<rparr>"

definition sample_sched_env :: "unit sched_env" where
  "sample_sched_env = \<lparr>env_hash = toy_env, grammar_ready = (\<lambda>_. False), should_advance = (\<lambda>_. False), validate_tokens = (\<lambda>_ ts. ts),
    ec_has_cache_item = None, supports_hma = True, get_num_new_matched_tokens = (\<lambda>_ _ c. Inr ((Some 0, False), c)),
    update_state_after_alloc = (\<lambda>_ _ _ c. Inr c), request_finished = (\<lambda>_ _ c. Inr ((False, None), c)), build_connector_meta = (\<lambda>_ c. c),
    update_connector_output = (\<lambda>_ c. Inr c), reset_cache = (\<lambda>c. (None, c))\<rparr>"

definition sample_cfg :: sched_config where
  "sample_cfg = make_sched_config sample_settings (one_group_config 6) 2 None False FCFS"

definition sample_start :: "(sched_config \<times> unit scheduler) result" where
  "sample_start = Scheduler sample_settings (one_group_config 6) 2 None True False ()"

text \<open>One request is decoding, another waits.\<close>

definition named_request :: "string \<Rightarrow> int \<Rightarrow> request_status \<Rightarrow> int \<Rightarrow> request" where
  "named_request rid oid st computed = (sample_request [1, 2, 3, 4] 2)\<lparr>request_id := rid, object_id := oid, status := st, num_computed_tokens := computed\<rparr>"

definition sample_busy :: "unit scheduler \<Rightarrow> unit scheduler" where
  "sample_busy s = s\<lparr>requests := [''a'', ''b''], running := [''a''], waiting := [''b''],
     objects := (\<lambda>x. if x = ''a'' then named_request ''a'' 1 RUNNING 3 else named_request ''b'' 2 WAITING 0)\<rparr>"

lemma sample_start_ok: "\<exists>s. sample_start = Inr (sample_cfg, s) \<and> skipped_waiting s = [] \<and> num_waiting_for_streaming_input s = 0"
proof -
  have "case sample_start of Inl _ \<Rightarrow> False | Inr (c, s) \<Rightarrow> c = sample_cfg \<and> skipped_waiting s = [] \<and> num_waiting_for_streaming_input s = 0"
    by code_simp
  then show ?thesis by (auto split: sum.splits)
qed

lemma sample_busy_ok:
  assumes "skipped_waiting s = []" and "num_waiting_for_streaming_input s = 0"
  shows "sched_inv sample_cfg (sample_busy s)" "running_ok sample_cfg (sample_busy s)" "config_ok sample_cfg"
proof -
  have cfg: "max_num_running_reqs sample_cfg = 4" "sched_max_model_len sample_cfg = 20" "cache_block_size sample_cfg = 2" "max_num_scheduled_tokens sample_cfg = 16"
    by (simp_all add: sample_cfg_def make_sched_config_def sample_settings_def)
  then show "config_ok sample_cfg" by (simp add: config_ok_def)
  have r: "request_id (named_request i n st c) = i" "object_id (named_request i n st c) = n" "status (named_request i n st c) = st"
    "num_computed_tokens (named_request i n st c) = c" "num_tokens (named_request i n st c) = 4" "num_output_placeholders (named_request i n st c) = 0" for i n st c
    by (simp_all add: named_request_def sample_request_def num_tokens_def)
  show "running_ok sample_cfg (sample_busy s)" using cfg by (simp add: running_ok_def sample_busy_def tokens_ok_def r)
  show "sched_inv sample_cfg (sample_busy s)" using assms cfg
    by (auto simp: sched_inv_def sample_busy_def wf_sched_def queues_ok_def r is_finished_def status_is_finished_def is_blocked_waiting_status_def inj_on_def)
qed

text \<open>
  C6. The assertions at the end of \<^verbatim>\<open>Scheduler.schedule\<close>. When the queues are consistent,
  the running requests have token numbers in range (\<open>running_ok\<close>, an assumption on the state before the step) and the
  configuration is sensible, then whenever the loops over running and waiting requests return, whatever they
  did, with preemptions, skipped requests, failed allocations and encoder limits, the assertions hold: the
  tokens given out and the tokens left are exactly the budget of the step, no request is
  scheduled twice, each scheduled request gets a positive number of tokens and is in the running
  list, and the running list respects its limit.
\<close>

theorem schedule_constraints_hold:
  assumes "sched_inv cfg s" and "running_ok cfg s" and "config_ok cfg"
  shows "case schedule_requests cfg env s of
      Inl _ \<Rightarrow> True
    | Inr t \<Rightarrow> constraints_ok cfg t
        \<and> sum_list (map snd (num_scheduled_tokens t)) + token_budget t = (if pause s = PAUSED_ALL then 0 else max_num_scheduled_tokens cfg)
        \<and> list_all (\<lambda>(_, n). 0 < n) (num_scheduled_tokens t) \<and> distinct (map fst (num_scheduled_tokens t))
        \<and> mset (map fst (num_scheduled_tokens t)) = mset (scheduled_new_reqs t) + mset (scheduled_resumed_reqs t) + mset (scheduled_running_reqs t)
        \<and> set (map fst (num_scheduled_tokens t)) \<subseteq> set (running (sched t))"
proof (cases "schedule_requests cfg env s")
  case (Inr t)
  note S = step_inv_sched [OF returnsD [OF schedule_requests_inv [OF assms] Inr]]
  have "step_budget cfg s \<le> max_num_scheduled_tokens cfg" using assms(3) by (simp add: step_budget_def config_ok_def)
  then show ?thesis using S(2,3) S(4) ledger_keys [OF S(2)] Inr
    by (auto simp: token_ledger_def step_budget_def list_all_iff scheduled_ids_def add.assoc split: prod.splits)
qed simp

theorem schedule_constraints_hold_witness:
  "\<exists>s. running s = [''a''] \<and> waiting s = [''b''] \<and> sched_inv sample_cfg s \<and> running_ok sample_cfg s \<and> config_ok sample_cfg
     \<and> (case schedule_requests sample_cfg sample_sched_env s of Inl _ \<Rightarrow> True | Inr t \<Rightarrow> constraints_ok sample_cfg t)"
proof -
  obtain s :: "unit scheduler" where s: "skipped_waiting s = []" "num_waiting_for_streaming_input s = 0" using sample_start_ok by blast
  note B = sample_busy_ok [OF s]
  have "running (sample_busy s) = [''a'']" "waiting (sample_busy s) = [''b'']" by (simp_all add: sample_busy_def)
  then show ?thesis using schedule_constraints_hold [OF B, of sample_sched_env] B by (intro exI [of _ "sample_busy s"]) (auto split: sum.splits)
qed

text \<open>
  C7. A step keeps the queues consistent, through preemptions, promotions and admissions: afterwards
  every unfinished request is again in exactly the list or queue that its status names. Every
  request in the output runs, and its number of computed tokens is advanced by exactly the
  number of tokens the output gives it; all other requests keep theirs.
\<close>

theorem schedule_keeps_queues:
  assumes "sched_inv cfg s" and "running_ok cfg s" and "config_ok cfg"
  shows "case schedule cfg env s of
      Inl _ \<Rightarrow> True
    | Inr (out, s') \<Rightarrow> sched_inv cfg s' \<and> set (map fst (out_num_scheduled_tokens out)) \<subseteq> set (running s')
        \<and> (\<exists>t. schedule_requests cfg env s = Inr t \<and> out_num_scheduled_tokens out = num_scheduled_tokens t
            \<and> (\<forall>x. num_computed_tokens (objects s' x) = num_computed_tokens (objects (sched t) x)
                 + (case map_of (out_num_scheduled_tokens out) x of None \<Rightarrow> 0 | Some n \<Rightarrow> n)))"
proof (cases "schedule cfg env s")
  case (Inr y)
  obtain out s' where y: "y = (out, s')" by (cases y)
  obtain t where t: "schedule_requests cfg env s = Inr t" "step_inv cfg (step_budget cfg s) (t\<lparr>step_skipped_waiting := []\<rparr>)"
    "out_num_scheduled_tokens out = num_scheduled_tokens t" "advanced (scheduled_sum (num_scheduled_tokens t)) (sched t) s'"
    using schedule_inv [OF assms] Inr y by blast
  note S = step_inv_sched [OF t(2)]
  have keys: "distinct (map fst (num_scheduled_tokens t))" "set (map fst (num_scheduled_tokens t)) \<subseteq> set (running (sched t))"
    using S(2,3) ledger_keys [OF S(2)] by (auto simp: token_ledger_def)
  have "running s' = running (sched t)" "\<And>x. num_computed_tokens (objects s' x) = num_computed_tokens (objects (sched t) x) + scheduled_sum (num_scheduled_tokens t) x"
    using t(4) by (auto simp: advanced_def)
  then show ?thesis using Inr y t(1,3) advanced_inv [OF t(4) S(1)] keys scheduled_sum_map_of [OF keys(1)] by auto
qed simp

theorem schedule_keeps_queues_witness:
  "\<exists>s. running s = [''a''] \<and> waiting s = [''b''] \<and> sched_inv sample_cfg s \<and> running_ok sample_cfg s \<and> config_ok sample_cfg
     \<and> (case schedule sample_cfg sample_sched_env s of Inl _ \<Rightarrow> True | Inr (out, s') \<Rightarrow> sched_inv sample_cfg s')"
proof -
  obtain s :: "unit scheduler" where s: "skipped_waiting s = []" "num_waiting_for_streaming_input s = 0" using sample_start_ok by blast
  note B = sample_busy_ok [OF s]
  have "running (sample_busy s) = [''a'']" "waiting (sample_busy s) = [''b'']" by (simp_all add: sample_busy_def)
  then show ?thesis using schedule_keeps_queues [OF B, of sample_sched_env] B by (intro exI [of _ "sample_busy s"]) (auto split: sum.splits)
qed

text \<open>Where the error of a pass over a running request comes from.\<close>

definition pass_error :: "sched_config \<Rightarrow> 'c sched_env \<Rightarrow> py_error \<Rightarrow> bool" where
  "pass_error cfg env e \<longleftrightarrow>
     (\<exists>r nc n b em. try_schedule_encoder_inputs cfg env r nc n b (shift_computed_tokens cfg) em = Inl e)
   \<or> (\<exists>r n. mamba_block_aligned_split cfg r n 0 0 = Inl e)
   \<or> (\<exists>rid n t. allocate_round cfg env rid n (t :: 'c step_state, None) = Inl e)
   \<or> (\<exists>rid l t. schedule_encoder_inputs rid l (t :: 'c step_state) = Inl e)"

lemma raises_if: "(b \<Longrightarrow> raises P x) \<Longrightarrow> (\<not> b \<Longrightarrow> raises P y) \<Longrightarrow> raises P (if b then x else y)"
  by simp

lemma running_pass_error:
  assumes "run_inv cfg B t" and "more_running t" and "config_ok cfg"
  shows "raises (pass_error cfg env) (schedule_running_one cfg env t)"
proof -
  have m: "0 \<le> req_index t" "req_index t < int (length (running (sched t)))" using assms(1,2) by (auto simp: run_inv_def more_running_def)
  define rid where "rid = running (sched t) ! nat (req_index t)"
  define r where "r = objects (sched t) rid"
  have ok: "tokens_ok cfg r" "0 \<le> token_budget t" using assms(1,2) m by (auto simp: run_inv_def r_def rid_def more_running_def)
  note num = running_num_new_bounds [OF ok]
  have alloc: "raises (pass_error cfg env) (allocate_with_preemption cfg env rid n (t\<lparr>sched := sched t\<lparr>encoder_cache_manager := em\<rparr>\<rparr>))" if "n \<le> token_budget t" for n em
  proof (rule raisesI)
    fix e assume "allocate_with_preemption cfg env rid n (t\<lparr>sched := sched t\<lparr>encoder_cache_manager := em\<rparr>\<rparr>) = Inl e"
    moreover have "step_like t (t\<lparr>sched := sched t\<lparr>encoder_cache_manager := em\<rparr>\<rparr>)" by (simp add: step_like_def sched_like_encoder)
    ultimately show "pass_error cfg env e"
      using allocate_with_preemption_error [OF alloc_start [OF assms(1,2) _ that, folded rid_def]] unfolding pass_error_def by blast
  qed
  have split: "returns (\<lambda>k. 0 \<le> k \<and> k \<le> n) (if need_mamba_block_aligned_split cfg then mamba_block_aligned_split cfg r n 0 0 else Inr n)" if "0 \<le> n" for n
    using mamba_split_bounds [of cfg n r 0 0] assms(3) that by (simp add: config_ok_def)
  have rest: "raises (pass_error cfg env) (case outcome of None \<Rightarrow> Inr x | Some None \<Rightarrow> Inr x | Some (Some nb) \<Rightarrow> schedule_encoder_inputs rid l (f nb))"
    for outcome :: "kv_cache_blocks option option" and x :: "'a step_state" and l f
    by (auto simp: pass_error_def intro!: raisesI split: option.splits)
  have tail: "raises (pass_error cfg env) (if n = 0 then Inr x else rbind (allocate_with_preemption cfg env rid n (t\<lparr>sched := sched t\<lparr>encoder_cache_manager := em\<rparr>\<rparr>))
      (\<lambda>(t, outcome). case outcome of None \<Rightarrow> Inr (g t) | Some None \<Rightarrow> Inr (g t) | Some (Some nb) \<Rightarrow> schedule_encoder_inputs rid l (f t nb)))"
    if "n \<le> token_budget t" for n em l f g and x :: "'a step_state"
    by (rule raises_if, simp, rule raises_bind [OF alloc [OF that] returns_any], unfold split_def, rule rest)
  have "raises (pass_error cfg env) (rbind (try_schedule_encoder_inputs cfg env r (num_computed_tokens r) (running_num_new_tokens cfg r (token_budget t)) b (shift_computed_tokens cfg) em) (\<lambda>l.
      rbind (if need_mamba_block_aligned_split cfg then mamba_block_aligned_split cfg r (el_new_tokens l) 0 0 else Inr (el_new_tokens l)) (h l)))"
    if h: "\<And>l n. n \<le> token_budget t \<Longrightarrow> raises (pass_error cfg env) (h l n)" for b em and h :: "encoder_loop \<Rightarrow> int \<Rightarrow> 'a step_state result"
  proof (rule raises_bind [OF _ returns_call [OF try_schedule_tokens [OF num(1)]]], goal_cases)
    case 1
    show ?case by (rule raisesI) (auto simp: pass_error_def)
  next
    case (2 l)
    show ?case by (rule raises_bind [OF _ returns_call [OF split]]) (use 2 num(2) h in \<open>auto simp: pass_error_def intro!: raisesI\<close>)
  qed
  then show ?thesis unfolding schedule_running_one_def py_index_nth [OF m] rbind_Inr Let_def rid_def [symmetric] r_def [symmetric]
    using tail by (simp cong: if_cong)
qed

text \<open>
  C8. The loops of a step end. The bounds that the model gives the loop over running requests, the
  allocation loop inside it and the loop over waiting requests are never reached: the step
  returns, or its error is one of encoder inputs, block alignment, a single allocation attempt
  with its preemption, the check of the adapters, or a single pass over a waiting request.
  Every failed allocation preempts a running request, every pass over a waiting request
  takes it out of its queue or ends the loop.
\<close>

theorem schedule_loops_end:
  assumes "sched_inv cfg s" and "running_ok cfg s" and "config_ok cfg"
  shows "case schedule_requests cfg env s of
      Inr _ \<Rightarrow> True
    | Inl e \<Rightarrow> pass_error cfg env e \<or> lora_max_loras cfg \<noteq> None \<and> e = AssertionError
        \<or> (\<exists>t. more_waiting t \<and> schedule_waiting_one cfg env t = Inl e)"
proof (cases "schedule_requests cfg env s")
  case (Inl e)
  let ?B = "step_budget cfg s"
  note N = new_step_inv [OF assms]
  show ?thesis
  proof (cases "schedule_running cfg env (new_step cfg s)")
    case err: (Inl e')
    then obtain t where "run_inv cfg ?B t" "more_running t" "schedule_running_one cfg env t = Inl e"
      using schedule_running_error [OF N assms(3) _ err] Inl by (auto simp: schedule_requests_def new_step_def)
    then have "pass_error cfg env e" using raisesD [OF running_pass_error [OF _ _ assms(3)]] by blast
    then show ?thesis using Inl by simp
  next
    case run: (Inr t)
    then have inv: "run_inv cfg ?B t" using returnsD [OF schedule_running_inv [OF N assms(3)]] by blast
    show ?thesis
    proof (cases "collect_loras cfg t")
      case lora: (Inl e')
      then show ?thesis using Inl run by (auto simp: schedule_requests_def collect_loras_def Let_def ensure_def split: option.splits if_splits)
    next
      case lora: (Inr t1)
      then have "step_inv cfg ?B t1" using inv
        by (auto simp: collect_loras_def Let_def rbind_eq_Inr run_inv_def step_inv_def scheduled_ids_def split: option.splits)
      moreover have "schedule_waiting cfg env t1 = Inl e" using Inl run lora by (auto simp: schedule_requests_def split: if_splits)
      ultimately show ?thesis using schedule_waiting_error [OF _ assms(3)] Inl by fastforce
    qed
  qed
qed simp

theorem schedule_loops_end_witness:
  "\<exists>s. running s = [''a''] \<and> waiting s = [''b''] \<and> sched_inv sample_cfg s \<and> running_ok sample_cfg s \<and> config_ok sample_cfg
     \<and> (case schedule_requests sample_cfg sample_sched_env s of
          Inr _ \<Rightarrow> True
        | Inl e \<Rightarrow> pass_error sample_cfg sample_sched_env e \<or> (\<exists>t. more_waiting t \<and> schedule_waiting_one sample_cfg sample_sched_env t = Inl e))"
proof -
  obtain s :: "unit scheduler" where s: "skipped_waiting s = []" "num_waiting_for_streaming_input s = 0" using sample_start_ok by blast
  note B = sample_busy_ok [OF s]
  have "lora_max_loras sample_cfg = None" by (simp add: sample_cfg_def make_sched_config_def sample_settings_def)
  moreover have "running (sample_busy s) = [''a'']" "waiting (sample_busy s) = [''b'']" by (simp_all add: sample_busy_def)
  ultimately show ?thesis using schedule_loops_end [OF B, of sample_sched_env] B by (intro exI [of _ "sample_busy s"]) (auto split: sum.splits)
qed

text \<open>The last position up to which a state of a prompt is cached.\<close>

definition last_cache_position :: "sched_config \<Rightarrow> request \<Rightarrow> int" where
  "last_cache_position cfg r = (let p = int (num_tokens r) - int (num_tokens r) mod cache_block_size cfg
     in if sched_use_eagle cfg then max (p - cache_block_size cfg) 0 else p)"

text \<open>
  C37. Splitting a prompt at block boundaries. For a request in prefill whose computed tokens end at a
  block boundary, the number of tokens that \<^verbatim>\<open>_mamba_block_aligned_split\<close> returns is at most the wanted
  number, and until the last position to cache is reached the chunk ends at a block boundary
  and does not cross that position; behind it the number is not changed.
\<close>

theorem mamba_split_aligned:
  assumes "0 < cache_block_size cfg" and "0 \<le> n" and "cache_block_size cfg dvd num_computed_tokens r + loc"
    and "num_computed_tokens r + loc < max (int (num_prompt_tokens r)) (int (num_tokens r) - 1)"
  shows "\<exists>m. mamba_block_aligned_split cfg r n loc 0 = Inr m \<and> 0 \<le> m \<and> m \<le> n
    \<and> (if num_computed_tokens r + loc < last_cache_position cfg r
       then cache_block_size cfg dvd num_computed_tokens r + loc + m \<and> num_computed_tokens r + loc + m \<le> last_cache_position cfg r
       else m = n)"
proof -
  let ?b = "cache_block_size cfg" and ?c = "num_computed_tokens r + loc" and ?p = "last_cache_position cfg r"
  have dvd: "?b dvd ?p" by (simp add: last_cache_position_def Let_def max_def minus_mod_eq_mult_div)
  have le: "n div ?b * ?b \<le> n" "0 \<le> n div ?b * ?b" using assms(1,2) by (metis div_mult_mod_eq le_add_same_cancel1 pos_mod_sign, simp add: pos_imp_zdiv_nonneg_iff)
  have "mamba_block_aligned_split cfg r n loc 0 = Inr (if ?c + n < ?p then n div ?b * ?b else if ?c < ?p \<and> ?p < ?c + n then ?p - ?c else n)"
    using assms(1,4) by (simp add: mamba_block_aligned_split_def last_cache_position_def Let_def)
  then show ?thesis using le dvd assms(2,3) by (auto intro: dvd_add)
qed

theorem mamba_split_aligned_witness: "\<exists>m. mamba_block_aligned_split sample_cfg (named_request ''a'' 1 WAITING 2) 1 0 0 = Inr m \<and> m \<le> 1 \<and> 2 dvd 2 + m"
proof -
  let ?r = "named_request ''a'' 1 WAITING 2"
  have c: "cache_block_size sample_cfg = 2" "sched_use_eagle sample_cfg = False" by (simp_all add: sample_cfg_def make_sched_config_def sample_settings_def)
  have r: "num_computed_tokens ?r = 2" "num_tokens ?r = 4" "num_prompt_tokens ?r = 4" by (simp_all add: named_request_def sample_request_def num_tokens_def)
  have "last_cache_position sample_cfg ?r = 4" by (simp add: last_cache_position_def c r)
  then show ?thesis using mamba_split_aligned [of sample_cfg 1 ?r 0] c r by auto
qed

text \<open>
  C38. The number of tokens wanted for a running request. While the computed tokens are below the
  maximum model length it lies between zero and the budget and leaves the request below that
  length and within its own tokens. A request that has computed the maximum length, as a
  pooling request with the longest prompt allowed has while its output is pending, gets a
  negative number; the code tests for zero only, so the request is scheduled with it.
\<close>

theorem running_num_new_tokens_range:
  assumes "0 \<le> budget" and "num_computed_tokens r \<le> int (num_tokens r) + num_output_placeholders r"
  shows "if num_computed_tokens r < sched_max_model_len cfg
     then 0 \<le> running_num_new_tokens cfg r budget \<and> running_num_new_tokens cfg r budget \<le> budget
       \<and> num_computed_tokens r + running_num_new_tokens cfg r budget < sched_max_model_len cfg
       \<and> num_computed_tokens r + running_num_new_tokens cfg r budget \<le> int (num_tokens_with_spec r) + num_output_placeholders r
     else running_num_new_tokens cfg r budget = sched_max_model_len cfg - 1 - num_computed_tokens r \<and> running_num_new_tokens cfg r budget < 0"
  using assms by (auto simp: running_num_new_tokens_def Let_def num_tokens_with_spec_def num_tokens_def)

theorem running_num_new_tokens_range_witness:
  "running_num_new_tokens (sample_cfg\<lparr>sched_max_model_len := 4\<rparr>) (named_request ''a'' 1 RUNNING 4) 16 = - 1"
  using running_num_new_tokens_range [of 16 "named_request ''a'' 1 RUNNING 4" "sample_cfg\<lparr>sched_max_model_len := 4\<rparr>"]
  by (simp add: named_request_def sample_request_def num_tokens_def)

text \<open>
  C39. A request that must generate more tokens than fit is never finished. When a request has
  reached the maximum model length with fewer tokens generated than its minimum, \<^verbatim>\<open>check_stop\<close> does not
  stop it, because it looks at the length only behind the minimum; and every pass of the
  scheduler passes over it without giving it a token, so it keeps its place and its blocks.
\<close>

theorem min_tokens_request_stalls:
  assumes "pooling_params_of (objects (sched t) rid) = None" and "sampling_params_of (objects (sched t) rid) = Some sp"
    and "int (num_output_tokens (objects (sched t) rid)) < min_tokens sp" and "num_output_placeholders (objects (sched t) rid) = 0"
    and "int (num_tokens (objects (sched t) rid)) = sched_max_model_len cfg" and "num_computed_tokens (objects (sched t) rid) = sched_max_model_len cfg - 1"
    and "config_ok cfg" and "more_running t" and "0 \<le> req_index t" and "running (sched t) ! nat (req_index t) = rid"
  shows "check_stop (objects (sched t) rid) (sched_max_model_len cfg) = Inr (False, objects (sched t) rid)
     \<and> schedule_running_one cfg env t = Inr (t\<lparr>req_index := req_index t + 1\<rparr>)"
proof -
  let ?r = "objects (sched t) rid"
  have "req_index t < int (length (running (sched t)))" "0 < token_budget t" using assms(8) by (auto simp: more_running_def)
  then have i: "py_index (running (sched t)) (req_index t) = Inr rid" and n: "running_num_new_tokens cfg ?r (token_budget t) = 0"
    using py_index_nth [of "req_index t"] assms(4-6,9,10) by (auto simp: running_num_new_tokens_def Let_def num_tokens_with_spec_def num_tokens_def)
  have "mamba_block_aligned_split cfg ?r 0 0 0 = Inr 0" using assms(7) by (simp add: mamba_block_aligned_split_def Let_def config_ok_def)
  then show ?thesis using i n assms(1-4)
    by (simp add: check_stop_def schedule_running_one_def try_schedule_encoder_inputs_def Let_def)
qed

definition thirty_tokens :: sampling_params where
  "thirty_tokens = \<lparr>sp_max_tokens = Some 30, min_tokens = 30, eos_token_id = None, stop_token_ids = None, repetition_detection = None,
     structured_outputs = False, sp_skip_reading_prefix_cache = None\<rparr>"

definition stalled_step :: "unit scheduler \<Rightarrow> unit step_state" where
  "stalled_step s = new_step sample_cfg (s\<lparr>running := [''a''], pause := UNPAUSED, objects := (\<lambda>_. (named_request ''a'' 1 RUNNING 19)\<lparr>pooling_params_of := None,
     sampling_params_of := Some thirty_tokens, output_token_ids := replicate 16 7, all_token_ids := [1, 2, 3, 4] @ replicate 16 7\<rparr>)\<rparr>)"

theorem min_tokens_request_stalls_witness:
  "\<exists>s. schedule_running_one sample_cfg sample_sched_env (stalled_step s) = Inr ((stalled_step s)\<lparr>req_index := req_index (stalled_step s) + 1\<rparr>)"
proof -
  obtain s :: "unit scheduler" where "skipped_waiting s = []" using sample_start_ok by blast
  have cfg: "sched_max_model_len sample_cfg = 20" "cache_block_size sample_cfg = 2" "max_num_scheduled_tokens sample_cfg = 16"
    by (simp_all add: sample_cfg_def make_sched_config_def sample_settings_def)
  show ?thesis
    by (rule exI [of _ s], rule conjunct2, rule min_tokens_request_stalls [where rid = "''a''" and sp = thirty_tokens])
      (simp_all add: stalled_step_def thirty_tokens_def new_step_def cfg config_ok_def more_running_def named_request_def sample_request_def num_tokens_def num_output_tokens_def)
qed

end
