(* ===== verification/Sched_Update.thy ===== *)
theory Sched_Update
  imports Sched_Wait
begin

text \<open>
  Processing of model output keeps the invariant of the queues, when every request it reports on
  is still running: the discipline of a scheduler that waits for the output of a step before
  the next one. Then the whole life of such a scheduler is a relation of reachable states.
\<close>

section \<open>One request\<close>

definition touched :: "string \<Rightarrow> 'c scheduler \<Rightarrow> 'c scheduler \<Rightarrow> bool" where
  "touched rid s s' \<longleftrightarrow> requests s' = requests s \<and> waiting s' = waiting s \<and> skipped_waiting s' = skipped_waiting s \<and> running s' = running s
     \<and> num_waiting_for_streaming_input s' = num_waiting_for_streaming_input s
     \<and> (\<forall>x. x \<noteq> rid \<longrightarrow> objects s' x = objects s x) \<and> same_id (objects s rid) (objects s' rid)"

lemma touched_trans: "touched x s1 s2 \<Longrightarrow> touched x s2 s3 \<Longrightarrow> touched x s1 s3"
  by (auto simp: touched_def intro: same_id_trans)

lemma touched_set_object: "same_id (objects s rid) r \<Longrightarrow> touched rid s (set_object rid r s)"
  by (simp add: touched_def)

lemma append_stop:
  "returns (\<lambda>(new, stopped, r'). same_id r r' \<and> (if stopped then is_finished r' else status r' = status r)) (append_until_stop env m ts new r)"
  by (rule returnsI) (auto dest!: append_until_stop_frame simp: same_id_def is_finished_def split: if_splits)

lemma update_with_output_frame:
  "returns (\<lambda>(new, stopped, s'). touched rid s s' \<and> (if stopped then is_finished (objects s' rid) else status (objects s' rid) = status (objects s rid)))
     (update_request_with_output cfg env rid ts s)"
proof -
  have cache: "returns (\<lambda>(r', km). same_id r r' \<and> status r' = status r) (if b then km_cache_blocks h r n km else Inr (r, km))" for b h r n km
    by (rule returnsI) (auto dest!: km_cache_blocks_memo simp: memo_ext_face split: if_splits)
  show ?thesis unfolding update_request_with_output_def Let_def
    by (intro returns_if returns_bind returns_call [OF append_stop] returns_prod returns_ensure returns_call [OF cache])
      (auto simp: touched_def same_id_def is_finished_def split: if_splits)
qed

lemma apply_tokens_frame:
  "returns (\<lambda>(new, stopped, s'). touched rid s s' \<and> (if stopped then is_finished (objects s' rid) else status (objects s' rid) = status (objects s rid)))
     (apply_tokens cfg env rid ts pooled s)"
  unfolding apply_tokens_def Let_def
  by (intro returns_if update_with_output_frame) (auto simp: touched_def same_id_def is_finished_def status_is_finished_def)

lemma reject_drafts_frame:
  "returns (\<lambda>u'. touched rid (us_sched u) (us_sched u') \<and> status (objects (us_sched u') rid) = status (objects (us_sched u) rid)
     \<and> stopped_running_reqs u' = stopped_running_reqs u \<and> stopped_preempted_reqs u' = stopped_preempted_reqs u) (reject_drafts cfg out rid ts u)"
  unfolding reject_drafts_def Let_def
  by (intro returns_if returns_bind returns_any [of _ "make_spec_decoding_stats _ _ _ _ _ _"]) (auto simp: touched_def same_id_def)

section \<open>The loop over scheduled requests\<close>

text \<open>Stopped requests stay in the running list until the loop is over.\<close>

definition upd_inv :: "string list \<Rightarrow> 'c update_state \<Rightarrow> bool" where
  "upd_inv R u \<longleftrightarrow> running (us_sched u) = R \<and> stopped_preempted_reqs u = [] \<and> mset (stopped_running_reqs u) \<subseteq># mset R
     \<and> wf_sched (mset R - mset (stopped_running_reqs u)) [] (us_sched u)"

definition others :: "string \<Rightarrow> 'c update_state \<Rightarrow> 'c update_state \<Rightarrow> bool" where
  "others rid u u' \<longleftrightarrow> (\<forall>x. x \<noteq> rid \<longrightarrow> objects (us_sched u') x = objects (us_sched u) x
     \<and> (x \<in> set (requests (us_sched u')) \<longleftrightarrow> x \<in> set (requests (us_sched u))))"

lemma others_trans: "others x u1 u2 \<Longrightarrow> others x u2 u3 \<Longrightarrow> others x u1 u3"
  by (simp add: others_def)

lemma touched_others: "touched x (us_sched u) (us_sched u') \<Longrightarrow> others x u u'"
  by (auto simp: others_def touched_def)

lemma wf_touched:
  assumes "touched rid s s'" and "status (objects s' rid) = status (objects s rid)" and "wf_sched R extra s"
  shows "wf_sched R extra s'"
proof (rule wf_sched_cong [OF _ _ _ _ _ assms(3)])
  show "same_id (objects s x) (objects s' x) \<and> status (objects s' x) = status (objects s x)" for x
    using assms(1,2) by (cases "x = rid") (auto simp: touched_def)
qed (use assms(1) in \<open>auto simp: touched_def\<close>)

lemma wf_stopped:
  assumes "touched rid s s'" and "is_finished (objects s' rid)" and "wf_sched R [] s" and "rid \<in># R"
  shows "wf_sched (R - {#rid#}) [] s'"
proof -
  have ob: "objects s' = (objects s)(rid := objects s' rid)" using assms(1) by (auto simp: touched_def)
  have w: "status (objects s' rid) \<noteq> RUNNING" "status (objects s' rid) \<noteq> WAITING_FOR_STREAMING_REQ"
    using assms(2) by (auto simp: is_finished_def status_is_finished_def)
  note st = wf_status(1) [OF assms(3,4)] and once = wf_once(1) [OF assms(3,4)]
  have free: "\<not> is_blocked_waiting_status (status (objects s' x))" if "x \<in> set (waiting s')" for x
    using that assms(1,3) once by (metis touched_def wf_sched_def)
  show ?thesis
    by (rule wf_update [OF assms(3) _ _ _ ob]) (use assms(1,2) st once w free in \<open>auto simp: touched_def diff_single_trivial\<close>)
qed

lemma settle_stopped_inv:
  assumes R: "running (us_sched u) = R" "stopped_preempted_reqs u = []" "mset (stopped_running_reqs u) \<subseteq># mset R" "rid \<in># mset R - mset (stopped_running_reqs u)"
    and wf: "wf_sched (mset R - mset (stopped_running_reqs u) - {#rid#}) [] (us_sched u)" and rid: "rid \<in> set (requests (us_sched u))" "is_finished (objects (us_sched u) rid)"
  shows "returns (\<lambda>(params, u'). upd_inv R u' \<and> others rid u u' \<and> same_id (objects (us_sched u) rid) (objects (us_sched u') rid)) (settle_stopped cfg env rid RUNNING u)"
proof -
  let ?M = "mset R - mset (stopped_running_reqs u) - {#rid#}" and ?s = "us_sched u"
  have sub: "mset (stopped_running_reqs u @ [rid]) \<subseteq># mset R"
    using subset_mset.le_diff_conv2 [OF R(3), of "{#rid#}"] R(4) by simp
  have stop: "returns (\<lambda>(fin, s). wf_sched ?M [] s \<and> requests s = requests ?s \<and> running s = R \<and> (fin \<longrightarrow> is_finished (objects s rid))
      \<and> (\<forall>x. x \<noteq> rid \<longrightarrow> objects s x = objects ?s x) \<and> same_id (objects ?s rid) (objects s rid)) (handle_stopped_request cfg env rid ?s)"
    by (rule returnsI) (use handle_stopped_wf [OF wf rid] R(1) in auto)
  have free: "returns (\<lambda>(p, s'). wf_sched ?M [] s' \<and> running s' = running s \<and> objects s' = objects s \<and> (\<forall>x. x \<noteq> rid \<longrightarrow> (x \<in> set (requests s') \<longleftrightarrow> x \<in> set (requests s))))
      (if fin then free_request cfg env rid False s else Inr (None, s))" if "wf_sched ?M [] s" for s fin
  proof (rule returns_if, rule returnsI, goal_cases)
    case (1 y)
    obtain p s' where y: "y = (p, s')" by (cases y)
    note F = free_request_frame [OF 1(2) [unfolded y]]
    show ?case using free_request_wf [OF that 1(2) [unfolded y]] F by (auto simp: y)
  qed (use that in auto)
  show ?thesis unfolding settle_stopped_def Let_def
  proof (rule returns_bind, rule returns_call [OF stop], rule returns_prod, rule returns_bind, goal_cases)
    case (1 y fin s)
    then have S: "wf_sched ?M [] s" "requests s = requests ?s" "running s = R" "\<forall>x. x \<noteq> rid \<longrightarrow> objects s x = objects ?s x" "same_id (objects ?s rid) (objects s rid)" by auto
    show ?case by (rule returns_call [OF free [OF S(1)]], rule returns_prod) (use S R(2) sub in \<open>auto simp: upd_inv_def others_def\<close>)
  qed
qed

lemma process_tokens_inv:
  assumes inv: "upd_inv R u" and run: "rid \<in># mset R - mset (stopped_running_reqs u)"
  shows "returns (\<lambda>(new, stopped, s). returns (\<lambda>(params, u'). upd_inv R u' \<and> others rid u u')
     (if stopped then settle_stopped cfg env rid RUNNING (u\<lparr>us_sched := s\<rparr>) else Inr (None, u\<lparr>us_sched := s\<rparr>))) (apply_tokens cfg env rid ts pooled (us_sched u))"
proof (rule returns_call [OF apply_tokens_frame], goal_cases)
  case (1 y)
  obtain new stopped s where y: "y = (new, stopped, s)" by (cases y)
  then have t: "touched rid (us_sched u) s" "if stopped then is_finished (objects s rid) else status (objects s rid) = status (objects (us_sched u) rid)" using 1 by auto
  have U: "running (us_sched u) = R" "stopped_preempted_reqs u = []" "mset (stopped_running_reqs u) \<subseteq># mset R"
    "wf_sched (mset R - mset (stopped_running_reqs u)) [] (us_sched u)" using inv by (auto simp: upd_inv_def)
  have rid: "rid \<in> set (requests (us_sched u))" using wf_status(1) [OF U(4) run] by simp
  have o: "others rid u (u\<lparr>us_sched := s\<rparr>)" using t(1) by (simp add: touched_others)
  show ?case unfolding y prod.case
  proof (rule returns_if, goal_cases)
    case 1
    then have "is_finished (objects s rid)" using t(2) by simp
    then have "wf_sched (mset R - mset (stopped_running_reqs u) - {#rid#}) [] s" "rid \<in> set (requests s)" "running s = R"
      using wf_stopped [OF t(1) _ U(4) run] t(1) rid U(1) by (auto simp: touched_def)
    then show ?case using settle_stopped_inv [of "u\<lparr>us_sched := s\<rparr>" R rid cfg env] U run \<open>is_finished (objects s rid)\<close> others_trans [OF o]
      by (auto elim!: returns_call)
  next
    case 2
    then show ?case using U t o wf_touched [OF t(1) _ U(4)] by (auto simp: upd_inv_def touched_def)
  qed
qed

lemma upd_inv_touched:
  assumes "upd_inv R u" and "touched rid (us_sched u) (us_sched u')" "status (objects (us_sched u') rid) = status (objects (us_sched u) rid)"
    and "stopped_running_reqs u' = stopped_running_reqs u" "stopped_preempted_reqs u' = stopped_preempted_reqs u"
  shows "upd_inv R u'"
  using assms wf_touched [OF assms(2,3)] by (auto simp: upd_inv_def touched_def)

lemma process_request_inv:
  assumes inv: "upd_inv R u" and run: "rid \<in> set (requests (us_sched u)) \<and> \<not> is_finished (objects (us_sched u) rid) \<longrightarrow> status (objects (us_sched u) rid) = RUNNING"
  shows "returns (\<lambda>u'. upd_inv R u' \<and> others rid u u') (process_request cfg env out mro failed (rid, n) u)"
proof -
  have same: "upd_inv R u \<and> others rid u u" using inv by (simp add: others_def)
  have fin: "upd_inv R u2 \<and> others rid u u2" if "upd_inv R u1 \<and> others rid u u1" "us_sched u2 = set_object rid r (us_sched u1)" "same_id (objects (us_sched u1) rid) r"
      "status r = status (objects (us_sched u1) rid)" "stopped_running_reqs u2 = stopped_running_reqs u1" "stopped_preempted_reqs u2 = stopped_preempted_reqs u1" for u1 u2 r
  proof -
    have t: "touched rid (us_sched u1) (us_sched u2)" using that(2,3) touched_set_object by metis
    then show ?thesis using upd_inv_touched [of R u1 rid u2] that others_trans [OF _ touched_others [OF t]] by auto
  qed
  show ?thesis
  proof (cases "rid \<in> set (requests (us_sched u)) \<and> \<not> is_finished (objects (us_sched u) rid)")
    case False
    then show ?thesis unfolding process_request_def prod.case using same
      by (intro returns_bind returns_ensure returns_if) (auto simp: get_request_def)
  next
    case True
    then have st: "status (objects (us_sched u) rid) = RUNNING" using run by simp
    have U: "wf_sched (mset R - mset (stopped_running_reqs u)) [] (us_sched u)" using inv by (simp add: upd_inv_def)
    have mem: "rid \<in># mset R - mset (stopped_running_reqs u)" using wf_status(3) [OF U] True st by auto
    have tokens: "returns (\<lambda>(new, stopped, s). returns (\<lambda>(params, u'). upd_inv R u' \<and> others rid u u')
       (if stopped then settle_stopped cfg env rid (status (objects (us_sched u1) rid)) (u1\<lparr>us_sched := s\<rparr>) else Inr (None, u1\<lparr>us_sched := s\<rparr>))) (apply_tokens cfg env rid ts pooled (us_sched u1))"
      if "touched rid (us_sched u) (us_sched u1) \<and> status (objects (us_sched u1) rid) = status (objects (us_sched u) rid)
        \<and> stopped_running_reqs u1 = stopped_running_reqs u \<and> stopped_preempted_reqs u1 = stopped_preempted_reqs u" for u1 ts pooled
    proof -
      have "upd_inv R u1" "status (objects (us_sched u1) rid) = RUNNING" "others rid u u1" using upd_inv_touched [OF inv] that st touched_others by auto
      then show ?thesis using process_tokens_inv [of R u1 rid cfg env ts pooled] mem that
        by (auto elim!: returns_call split: prod.splits intro: others_trans)
    qed
    have end_: "returns (\<lambda>u'. upd_inv R u' \<and> others rid u u')
       (if b then Inr (u1\<lparr>us_sched := set_object rid r (us_sched u1), us_outputs := o'\<rparr>)
        else rbind (ensure b' e) (\<lambda>_. Inr (u1\<lparr>us_sched := set_object rid r (us_sched u1)\<rparr>)))"
      if "upd_inv R u1 \<and> others rid u u1" "r = objects (us_sched u1) rid \<or> (\<exists>k. r = (objects (us_sched u1) rid)\<lparr>num_nans_in_logits := k\<rparr>)" for u1 r b b' e o'
      by (intro returns_if returns_bind returns_ensure returns_simps(1) [THEN iffD2]; rule fin [OF that(1), of _ r]) (use that(2) in \<open>auto simp: same_id_def\<close>)
    have g: "get_request rid (us_sched u) = Some (objects (us_sched u) rid)" using True by (simp add: get_request_def)
    show ?thesis unfolding process_request_def prod.case Let_def g option.case if_not_P [OF conjunct2 [OF True]]
    proof (rule returns_bind, rule returns_ensure, rule returns_if, use same in simp, rule returns_bind, rule returns_any, rule returns_bind, rule returns_any,
        rule returns_bind, rule returns_call [OF reject_drafts_frame], rule returns_bind, rule returns_any, rule returns_bind, rule returns_call [OF tokens], assumption, goal_cases)
      case (1 _ _ u1 pooled y)
      obtain new stopped s where y: "y = (new, stopped, s)" by (cases y)
      show ?case unfolding y prod.case
        by (rule returns_bind, rule returns_call [OF 1(4) [unfolded y prod.case]], rule returns_prod, rule returns_bind, rule returns_ensure, rule end_)
          (auto split: option.splits)
    qed
  qed
qed

definition still_running :: "string list \<Rightarrow> 'c scheduler \<Rightarrow> bool" where
  "still_running ids s \<longleftrightarrow> (\<forall>x \<in> set ids. x \<in> set (requests s) \<and> \<not> is_finished (objects s x) \<longrightarrow> status (objects s x) = RUNNING)"

lemma process_all_inv:
  assumes "upd_inv R u" and "distinct (map fst xs)" and "still_running (map fst xs) (us_sched u)"
  shows "returns (upd_inv R) (rfold (process_request cfg env out mro failed) xs u)"
  using assms
proof (induction xs arbitrary: u)
  case (Cons y xs)
  obtain rid n where y: "y = (rid, n)" by (cases y)
  have run: "rid \<in> set (requests (us_sched u)) \<and> \<not> is_finished (objects (us_sched u) rid) \<longrightarrow> status (objects (us_sched u) rid) = RUNNING"
    using Cons.prems(3) by (simp add: still_running_def y)
  have "still_running (map fst xs) (us_sched u1)" if "others rid u u1" for u1
  proof -
    have "z \<noteq> rid" if "z \<in> set (map fst xs)" for z using that Cons.prems(2) y by auto
    then show ?thesis using that Cons.prems(3) unfolding still_running_def others_def y by (metis list.set_intros(2) list.simps(9))
  qed
  then show ?case unfolding rfold.simps y
    by (intro returns_bind returns_call [OF process_request_inv [OF Cons.prems(1) run]] Cons.IH) (use Cons.prems(2) in auto)
qed simp

lemma remove_all_diff: "mset (remove_all xs ys) = mset xs - mset ys" if "distinct xs" "mset ys \<subseteq># mset xs"
proof -
  have d: "count (mset xs) x \<le> 1" for x using that(1) by (simp add: distinct_count_atmost_1)
  have "count (filter_mset (\<lambda>x. x \<notin> set ys) (mset xs)) x = count (mset xs - mset ys) x" for x
  proof (cases "x \<in> set ys")
    case True
    then have "count (mset ys) x \<noteq> 0" "count (mset ys) x \<le> count (mset xs) x" using that(2) by (auto simp: mset_subset_eq_count)
    then have "count (mset xs) x = count (mset ys) x" using d [of x] by linarith
    then show ?thesis using True by simp
  qed (simp add: count_mset_0_iff [THEN iffD2])
  then show ?thesis unfolding mset_remove_all [OF that(1)] by (rule multiset_eqI)
qed

lemma remove_stopped_inv:
  assumes "upd_inv R u" and "distinct R" and "int (length R) \<le> max_num_running_reqs cfg"
  shows "sched_inv cfg (remove_stopped cfg u)"
proof -
  have U: "running (us_sched u) = R" "stopped_preempted_reqs u = []" "mset (stopped_running_reqs u) \<subseteq># mset R"
    "wf_sched (mset R - mset (stopped_running_reqs u)) [] (us_sched u)" using assms(1) by (auto simp: upd_inv_def)
  have m: "mset (running (remove_stopped cfg u)) = mset R - mset (stopped_running_reqs u)"
    using remove_all_diff [OF assms(2) U(3)] U(1,2) by (simp add: remove_stopped_def Let_def)
  have "length (running (remove_stopped cfg u)) \<le> length R" using arg_cong [OF m, of size] by (simp add: size_Diff_submset [OF U(3)])
  moreover have "wf_sched (mset R - mset (stopped_running_reqs u)) [] (remove_stopped cfg u)" using U(2,4) by (auto simp: remove_stopped_def Let_def wf_sched_def)
  ultimately show ?thesis using m assms(3) by (simp add: sched_inv_def)
qed

section \<open>Transfers and failed loads\<close>

lemma scan_one_frame: "returns (\<lambda>(_, _, _, _, s'). touched rid s s' \<and> status (objects s' rid) = status (objects s rid)) (scan_one cfg invalid evict rid (af, tot, ev, mk, s))"
proof -
  have blk: "same_id (scan_request sc) (scan_request (scan_block bs inv e ids n x sc)) \<and> status (scan_request (scan_block bs inv e ids n x sc)) = status (scan_request sc)" for bs inv e ids n x sc
    by (cases x) (simp add: scan_block_def Let_def same_id_def)
  have all: "same_id (scan_request sc) (scan_request (fold (scan_block bs inv e ids n) xs sc)) \<and> status (scan_request (fold (scan_block bs inv e ids n) xs sc)) = status (scan_request sc)" for bs inv e ids n xs sc
    by (induction xs arbitrary: sc) (use blk same_id_trans in \<open>simp, simp, metis\<close>)
  show ?thesis unfolding scan_one_def prod.case Let_def
    by (auto split: list.split simp: touched_def all [unfolded same_id_def] same_id_def intro!: returns_if)
qed

lemma sched_inv_touched:
  assumes "touched rid s s'" and "status (objects s' rid) = status (objects s rid)" and "sched_inv cfg s"
  shows "sched_inv cfg s'"
  using wf_touched [OF assms(1,2)] assms(1,3) by (simp add: sched_inv_def touched_def)

text \<open>The requests that are still running are so after loads failed.\<close>

lemma still_running_touched:
  assumes "touched rid s s'" and "status (objects s' rid) = status (objects s rid)" and "still_running ids s"
  shows "still_running ids s'"
proof -
  have "status (objects s' x) = status (objects s x)" for x using assms(1,2) by (cases "x = rid") (auto simp: touched_def)
  then show ?thesis using assms(1,3) by (simp add: still_running_def touched_def is_finished_def)
qed

lemma scan_all_inv:
  assumes "sched_inv cfg s" and "still_running ids s"
  shows "returns (\<lambda>(_, _, _, s'). sched_inv cfg s' \<and> still_running ids s') (update_requests_with_invalid_blocks cfg rids invalid evict s)"
proof -
  define I where "I = (\<lambda>(_ :: string list, _ :: int, _ :: int set, _ :: int set, s' :: 'a scheduler). sched_inv cfg s' \<and> still_running ids s')"
  have "returns I (scan_one cfg invalid evict rid x)" if "I x" for rid x
  proof -
    obtain af tot ev mk s1 where x: "x = (af, tot, ev, mk, s1)" by (cases x)
    show ?thesis unfolding x by (rule returns_call [OF scan_one_frame])
        (use that sched_inv_touched [of rid s1] still_running_touched [of rid s1] in \<open>auto simp: I_def x\<close>)
  qed
  then have "returns I (rfold (scan_one cfg invalid evict) rids ([], 0, {}, {}, s))" by (intro returns_fold) (use assms in \<open>auto simp: I_def\<close>)
  then show ?thesis unfolding update_requests_with_invalid_blocks_def by (intro returns_bind) (auto elim!: returns_call simp: I_def)
qed

lemma sched_inv_same:
  assumes "sched_inv cfg s \<and> still_running ids s" and "requests s' = requests s" "objects s' = objects s" "waiting s' = waiting s"
    "skipped_waiting s' = skipped_waiting s" "running s' = running s" "num_waiting_for_streaming_input s' = num_waiting_for_streaming_input s"
  shows "sched_inv cfg s' \<and> still_running ids s'"
  using sched_inv_cong [of cfg s s'] assms by (simp add: still_running_def)

lemma handle_invalid_inv:
  assumes "sched_inv cfg s" and "still_running ids s"
  shows "returns (\<lambda>(_, s'). sched_inv cfg s' \<and> still_running ids s') (handle_invalid_blocks cfg invalid s)"
proof -
  have scan: "returns (\<lambda>(_, _, _, s'). sched_inv cfg s' \<and> still_running ids s') (update_requests_with_invalid_blocks cfg rids invalid evict s1)"
    if "sched_inv cfg s1 \<and> still_running ids s1" for rids evict s1 using scan_all_inv that by blast
  show ?thesis unfolding handle_invalid_blocks_def Let_def
    by (rule returns_bind, rule returns_any, rule returns_bind, rule returns_call [OF scan], use assms in simp, intro returns_prod,
        rule returns_bind, rule returns_call [OF scan], simp, intro returns_prod returns_if, simp, rule returns_bind, rule returns_any, intro returns_if)
      (auto simp: still_running_def intro: sched_inv_cong)
qed

lemma xfer_inv:
  assumes "sched_inv cfg s"
  shows "returns (sched_inv cfg) (update_from_kv_xfer_finished env kvo s)"
proof -
  have free: "returns (sched_inv cfg) (free_blocks_of rid s)" if "sched_inv cfg s" for rid s
    by (rule returnsI) (use that free_blocks_of_wf free_blocks_of_frame in \<open>fastforce simp: sched_inv_def\<close>)
  have recv: "returns (sched_inv cfg) (finished_recving_one rid s)" if "sched_inv cfg s" for rid s
    unfolding finished_recving_one_def
    by (intro returns_option returns_if returns_bind returns_ensure free that) (use that sched_inv_cong in \<open>auto intro: sched_inv_cong\<close>)
  have send: "returns (sched_inv cfg) (finished_sending_one rid s)" if "sched_inv cfg s" for rid s
    unfolding finished_sending_one_def by (intro returns_bind returns_ensure free that)
  have conn: "returns (sched_inv cfg) (case connector s of None \<Rightarrow> Inr s | Some c \<Rightarrow> rbind (update_connector_output env kvo c) (\<lambda>c. Inr (s\<lparr>connector := Some c\<rparr>)))"
    by (intro returns_option returns_bind returns_any [of _ "update_connector_output _ _ _"]) (use assms in \<open>auto intro: sched_inv_cong\<close>)
  have fold: "returns (sched_inv cfg) (rfold finished_recving_one rs s1)" "returns (sched_inv cfg) (rfold finished_sending_one rs s1)" if "sched_inv cfg s1" for rs s1
    by (rule returns_fold [of "sched_inv cfg", OF that], rule recv, assumption, rule returns_fold [of "sched_inv cfg", OF that], rule send, assumption)
  show ?thesis unfolding update_from_kv_xfer_finished_def
    by (intro returns_bind returns_call [OF conn] returns_call [OF fold(1)] fold(2))
qed

section \<open>The whole output\<close>

lemma fail_requests_inv:
  assumes "sched_inv cfg (us_sched u)"
  shows "returns (\<lambda>u'. sched_inv cfg (us_sched u')) (fail_requests cfg env failed u)"
proof -
  have "returns (\<lambda>(_, s). sched_inv cfg s) (finish_requests cfg env (Some failed) FINISHED_ERROR (us_sched u))"
    by (rule returnsI) (use sched_inv_finish [OF assms] in auto)
  then show ?thesis unfolding fail_requests_def
    by (intro returns_if returns_bind returns_ensure) (use assms in \<open>auto elim!: returns_call\<close>)
qed

lemma make_stats_inv: "sched_inv cfg s \<Longrightarrow> returns (\<lambda>(_, s'). sched_inv cfg s') (make_stats cfg st s)"
  unfolding make_stats_def Let_def
  by (intro returns_if returns_prod returns_bind returns_ensure) (auto intro: sched_inv_cong)

lemma update_from_output_inv:
  assumes inv: "sched_inv cfg s" and keys: "distinct (map fst (out_num_scheduled_tokens out))" and run: "still_running (map fst (out_num_scheduled_tokens out)) s"
  shows "returns (\<lambda>(_, s'). sched_inv cfg s') (update_from_output cfg env out mro s)"
proof -
  let ?ids = "map fst (out_num_scheduled_tokens out)"
  have load: "returns (\<lambda>(_, s'). sched_inv cfg s' \<and> still_running ?ids s') (case kv_output mro of None \<Rightarrow> Inr ([], s)
      | Some kvo \<Rightarrow> if invalid_block_ids kvo = {} then Inr ([], s) else handle_invalid_blocks cfg (invalid_block_ids kvo) s)"
    by (intro returns_option returns_if handle_invalid_inv) (use inv run in auto)
  have process: "returns (\<lambda>u. sched_inv cfg (remove_stopped cfg u)) (rfold (process_request cfg env out mro failed) (out_num_scheduled_tokens out)
      \<lparr>us_sched = s1, us_outputs = [], us_spec_stats = None, stopped_running_reqs = [], stopped_preempted_reqs = []\<rparr>)"
    if "sched_inv cfg s1 \<and> still_running ?ids s1" for s1 failed
  proof -
    have wf: "wf_sched (mset (running s1)) [] s1" "int (length (running s1)) \<le> max_num_running_reqs cfg" using that by (auto simp: sched_inv_def)
    show ?thesis
      by (rule returns_call [OF process_all_inv [of "running s1", OF _ keys]]) (use that wf remove_stopped_inv [OF _ wf_running_distinct [OF wf(1)] wf(2)] in \<open>auto simp: upd_inv_def\<close>)
  qed
  have xfer: "returns (sched_inv cfg) (case kv_output mro of None \<Rightarrow> Inr (us_sched u) | Some kvo \<Rightarrow> update_from_kv_xfer_finished env kvo (us_sched u))"
    if "sched_inv cfg (us_sched u)" for u :: "'a update_state"
    by (intro returns_option xfer_inv) (use that in auto)
  show ?thesis unfolding update_from_output_def Let_def
  proof (rule returns_bind, rule returns_call [OF load], rule returns_prod, rule returns_bind, rule returns_call [OF process], simp, rule returns_bind,
      rule returns_call [OF fail_requests_inv], simp, rule returns_bind, rule returns_call [OF xfer], assumption, rule returns_bind, rule returns_call [OF make_stats_inv], goal_cases)
    case (1 y failed s1 u u1 s2)
    then show ?case by (auto intro: sched_inv_cong)
  qed (auto intro: sched_inv_cong)
qed

section \<open>Reachable states\<close>

text \<open>
  A scheduler from its construction on. The second component is the output of the last step,
  while the model still works on it: the next step waits for it. A new request has an id that
  is neither in use nor in that output, and its object is new.
\<close>

definition pending_ids :: "scheduler_output option \<Rightarrow> string list" where
  "pending_ids p = (case p of None \<Rightarrow> [] | Some out \<Rightarrow> map fst (out_num_scheduled_tokens out))"

inductive sched_reach :: "sched_config \<Rightarrow> 'c sched_env \<Rightarrow> 'c scheduler \<Rightarrow> scheduler_output option \<Rightarrow> bool" for cfg env where
  init: "Scheduler v kvc block_size mm inc_set log_st c = Inr (cfg, s) \<Longrightarrow> 0 \<le> set_max_num_seqs v \<Longrightarrow> sched_reach cfg env s None"
| add: "sched_reach cfg env s p \<Longrightarrow> fresh_request r s \<Longrightarrow> (request_id r \<in> set (pending_ids p) \<longrightarrow> request_id r \<in> set (requests s))
    \<Longrightarrow> add_request cfg env r s = Inr s' \<Longrightarrow> sched_reach cfg env s' p"
| finish: "sched_reach cfg env s p \<Longrightarrow> finish_requests cfg env ids st s = Inr (res, s') \<Longrightarrow> sched_reach cfg env s' p"
| drafts: "sched_reach cfg env s p \<Longrightarrow> sched_reach cfg env (update_draft_token_ids env ids drafts s) p"
| paused: "sched_reach cfg env s p \<Longrightarrow> sched_reach cfg env (set_pause_state q s) p"
| reset_encoder: "sched_reach cfg env s p \<Longrightarrow> sched_reach cfg env (reset_encoder_cache s) p"
| reset: "sched_reach cfg env s None \<Longrightarrow> sched_reset_prefix_cache cfg env rr rc s = Inr (ok, s') \<Longrightarrow> sched_reach cfg env s' None"
| step: "sched_reach cfg env s None \<Longrightarrow> config_ok cfg \<Longrightarrow> running_ok cfg s \<Longrightarrow> schedule cfg env s = Inr (out, s') \<Longrightarrow> sched_reach cfg env s' (Some out)"
| outputs: "sched_reach cfg env s (Some out) \<Longrightarrow> update_from_output cfg env out mro s = Inr (ecos, s') \<Longrightarrow> sched_reach cfg env s' None"

definition reach_inv :: "sched_config \<Rightarrow> 'c scheduler \<Rightarrow> scheduler_output option \<Rightarrow> bool" where
  "reach_inv cfg s p \<longleftrightarrow> sched_inv cfg s \<and> distinct (pending_ids p) \<and> still_running (pending_ids p) s"

lemma still_running_mono:
  assumes "still_running ids s"
    and "\<And>x. x \<in> set ids \<Longrightarrow> x \<in> set (requests s') \<Longrightarrow> \<not> is_finished (objects s' x) \<Longrightarrow>
      x \<in> set (requests s) \<and> \<not> is_finished (objects s x) \<and> (status (objects s x) = RUNNING \<longrightarrow> status (objects s' x) = RUNNING)"
  shows "still_running ids s'"
  using assms by (auto simp: still_running_def)

lemma initial_inv:
  assumes "Scheduler v kvc block_size mm inc_set log_st c = Inr (cfg, s)" and "0 \<le> set_max_num_seqs v"
  shows "sched_inv cfg s"
proof -
  have "requests s = []" "waiting s = []" "skipped_waiting s = []" "running s = []" "num_waiting_for_streaming_input s = 0" "max_num_running_reqs cfg = set_max_num_seqs v"
    using assms(1) by (auto simp: Scheduler_def Let_def rbind_eq_Inr make_sched_config_def)
  then show ?thesis using assms(2) by (simp add: sched_inv_def wf_sched_def queues_ok_def)
qed

lemma finish_still:
  assumes "still_running ids s" and inv: "sched_inv cfg s" and f: "finish_requests cfg env xs st s = Inr (res, s')"
  shows "still_running ids s'"
proof -
  have st: "status_is_finished st" using f by (auto simp: finish_requests_def rbind_eq_Inr)
  from inv have "wf_sched (mset (running s)) [] s" by (simp add: sched_inv_def)
  from finish_requests_wf(5,6) [OF this f refl] st show ?thesis
    by (intro still_running_mono [OF assms(1)]) (auto simp: finish_all_def is_finished_def split: if_splits)
qed

lemma add_request_still:
  assumes "still_running ids s" and "request_id r \<in> set ids \<longrightarrow> request_id r \<in> set (requests s)" and inv: "sched_inv cfg s" and "add_request cfg env r s = Inr s'"
  shows "still_running ids s'"
proof (cases "request_id r \<in> set (requests s)")
  case False
  then show ?thesis using assms(1,2,4)
    by (auto simp: add_request_def get_request_def Let_def enqueue_frame still_running_def)
next
  case True
  let ?x = "request_id r"
  show ?thesis
  proof (cases "status (objects s ?x) = WAITING_FOR_STREAMING_REQ")
    case False
    then obtain q where s': "s' = set_object ?x ((objects s ?x)\<lparr>streaming_queue := q\<rparr>) s"
      using assms(4) True by (auto simp: add_request_def get_request_def Let_def split: option.splits)
    show ?thesis by (rule still_running_touched [OF _ _ assms(1), of ?x]) (auto simp: s' touched_def same_id_def)
  next
    case wait: True
    have nin: "?x \<notin> set ids" using assms(1) True wait by (auto simp: still_running_def is_finished_def status_is_finished_def)
    show ?thesis
    proof (cases "streaming_update_from_request r")
      case None
      then obtain res where f: "finish_requests cfg env (Some [?x]) FINISHED_ABORTED s = Inr (res, s')"
        using assms(4) True wait by (auto simp: add_request_def get_request_def Let_def rbind_eq_Inr)
      show ?thesis by (rule finish_still [OF assms(1) inv f])
    next
      case (Some u)
      then have "sched_update_request_as_session env ?x u s = Inr s'" using assms(4) True wait by (simp add: add_request_def get_request_def Let_def)
      then obtain r' where "s' = s\<lparr>objects := (objects s)(?x := r'), num_waiting_for_streaming_input := num_waiting_for_streaming_input s - streams (objects s ?x)\<rparr>"
        using session_frame by blast
      then show ?thesis using nin assms(1) by (auto simp: still_running_def)
    qed
  qed
qed

section \<open>Properties over time\<close>

lemma schedule_pending:
  assumes "sched_inv cfg s" and "running_ok cfg s" and "config_ok cfg" and "schedule cfg env s = Inr (out, s')"
  shows "reach_inv cfg s' (Some out)"
proof -
  obtain t where t: "step_inv cfg (step_budget cfg s) (t\<lparr>step_skipped_waiting := []\<rparr>)" "out_num_scheduled_tokens out = num_scheduled_tokens t"
    "advanced (scheduled_sum (num_scheduled_tokens t)) (sched t) s'" using schedule_inv [OF assms] by blast
  note S = step_inv_sched [OF t(1)]
  have inv: "sched_inv cfg s'" by (rule advanced_inv [OF t(3) S(1)])
  have "distinct (map fst (num_scheduled_tokens t))" "set (map fst (num_scheduled_tokens t)) \<subseteq> set (running s')"
    using S(2,3) ledger_keys [OF S(2)] t(3) by (auto simp: token_ledger_def advanced_def)
  moreover have "status (objects s' x) = RUNNING" if "x \<in> set (running s')" for x using inv wf_status(1) [of "mset (running s')" "[]" s' x] that by (simp add: sched_inv_def)
  ultimately show ?thesis using inv t(2) by (auto simp: reach_inv_def pending_ids_def still_running_def)
qed

lemma draft_status: "requests (update_draft_token_ids env ids drafts s) = requests s \<and> status (objects (update_draft_token_ids env ids drafts s) x) = status (objects s x)"
proof -
  have "requests (fold (update_draft_of env) ds s) = requests s \<and> status (objects (fold (update_draft_of env) ds s) x) = status (objects s x)" for ds s
    by (induction ds arbitrary: s) (auto simp: update_draft_of_def get_request_def split: prod.splits)
  then show ?thesis by (simp add: update_draft_token_ids_def)
qed

lemma sched_reach_inv: "sched_reach cfg env s p \<Longrightarrow> reach_inv cfg s p"
proof (induction rule: sched_reach.induct)
  case (init v kvc block_size mm inc_set log_st c s)
  then show ?case using initial_inv [OF init.hyps] by (simp add: reach_inv_def pending_ids_def still_running_def)
next
  case (add s p r s')
  then show ?case using sched_inv_add [of cfg s r env s'] add_request_still [of "pending_ids p" s r cfg env s'] by (simp add: reach_inv_def)
next
  case (finish s p ids st res s')
  then show ?case using sched_inv_finish [of cfg s env ids st res s'] finish_still [of "pending_ids p" s cfg env ids st res s'] by (simp add: reach_inv_def)
next
  case (drafts s p ids drafts)
  then show ?case using sched_inv_draft [of cfg s env ids drafts] by (simp add: reach_inv_def still_running_def is_finished_def draft_status)
next
  case (paused s p q)
  then show ?case using sched_inv_cong [of cfg s "set_pause_state q s"] by (simp add: reach_inv_def set_pause_state_def still_running_def)
next
  case (reset_encoder s p)
  then show ?case using sched_inv_cong [of cfg s "reset_encoder_cache s"] by (simp add: reach_inv_def reset_encoder_cache_def still_running_def)
next
  case (reset s rr rc ok s')
  then show ?case using sched_inv_reset [of cfg s env rr rc ok s'] by (simp add: reach_inv_def pending_ids_def still_running_def)
next
  case (step s out s')
  then show ?case using schedule_pending [of cfg s env out s'] by (simp add: reach_inv_def)
next
  case (outputs s out mro ecos s')
  then show ?case using returnsD [OF update_from_output_inv [of cfg s out env mro]] by (fastforce simp: reach_inv_def pending_ids_def still_running_def)
qed

text \<open>
  C5. The queues of the scheduler over its whole life. In every state that a scheduler which waits
  for the output of each step can reach, through added, continued and aborted requests, pauses,
  resets, draft tokens, steps with preemptions and model output with stopped requests, the
  running list and the two waiting queues together hold every unfinished request exactly once,
  each in the place its status says; the running list respects its limit; the counter counts
  the sessions that wait for input; and a request of the pending output still runs or is
  finished.
\<close>

theorem reachable_queues_consistent:
  assumes "sched_reach cfg env s p"
  shows "distinct (running s @ waiting s @ skipped_waiting s)
    \<and> set (running s @ waiting s @ skipped_waiting s) = {x \<in> set (requests s). \<not> is_finished (objects s x)}
    \<and> set (running s) = {x \<in> set (requests s). status (objects s x) = RUNNING}
    \<and> status ` objects s ` set (waiting s) \<subseteq> {WAITING, PREEMPTED}
    \<and> int (length (running s)) \<le> max_num_running_reqs cfg
    \<and> num_waiting_for_streaming_input s = int (card {x \<in> set (requests s). status (objects s x) = WAITING_FOR_STREAMING_REQ})
    \<and> {x \<in> set (pending_ids p). x \<in> set (requests s) \<and> \<not> is_finished (objects s x)} \<subseteq> set (running s)"
proof -
  note I = sched_reach_inv [OF assms, unfolded reach_inv_def sched_inv_def]
  have wf: "wf_sched (mset (running s)) [] s" using I by simp
  have q: "queues_ok (requests s) (objects s) (mset (running s)) (mset (waiting s) + mset (skipped_waiting s)) (num_waiting_for_streaming_input s)"
    using wf by (simp add: wf_sched_def)
  note Q = queues_okD [OF q]
  have m: "mset (running s @ waiting s @ skipped_waiting s) = mset (filter (\<lambda>x. \<not> is_finished (objects s x)) (requests s))" using Q(4) by simp
  have "distinct (running s @ waiting s @ skipped_waiting s)" using mset_eq_imp_distinct_iff [OF m] Q(1) by simp
  moreover have all: "set (running s @ waiting s @ skipped_waiting s) = {x \<in> set (requests s). \<not> is_finished (objects s x)}" using mset_eq_setD [OF m] by auto
  moreover have run: "x \<in> set (running s)" if "x \<in> set (requests s)" "status (objects s x) = RUNNING" for x
    using wf_status(3) [OF wf that(1)] that(2) by (auto simp: is_finished_def status_is_finished_def)
  moreover have "set (running s) = {x \<in> set (requests s). status (objects s x) = RUNNING}" using Q(5,7) run by auto
  moreover have "status (objects s x) \<in> {WAITING, PREEMPTED}" if "x \<in> set (waiting s)" for x
    using wf_status(2) [OF wf, of x] waiting_status [of "status (objects s x)"] that wf by (auto simp: wf_sched_def is_finished_def)
  moreover have "num_waiting_for_streaming_input s = int (card {x \<in> set (requests s). status (objects s x) = WAITING_FOR_STREAMING_REQ})"
  proof -
    have "card {x \<in> set (requests s). status (objects s x) = WAITING_FOR_STREAMING_REQ} = size (filter_mset (\<lambda>x. status (objects s x) = WAITING_FOR_STREAMING_REQ) (mset (requests s)))"
      using Q(1) distinct_card [of "filter (\<lambda>x. status (objects s x) = WAITING_FOR_STREAMING_REQ) (requests s)"] by (simp flip: mset_filter)
    then show ?thesis using q by (simp add: queues_ok_def)
  qed
  ultimately show ?thesis using I by (auto simp: still_running_def)
qed

theorem reachable_queues_consistent_witness:
  "\<exists>s. sched_reach sample_cfg sample_sched_env s None \<and> waiting s = [''b''] \<and> distinct (running s @ waiting s @ skipped_waiting s)"
proof -
  let ?r = "named_request ''b'' 2 WAITING 0"
  define both where "both = rbind sample_start (\<lambda>(cfg, s). rbind (add_request cfg sample_sched_env ?r s) (\<lambda>s'. Inr (cfg, s, s')))"
  have "case both of Inl _ \<Rightarrow> False | Inr (cfg, s, s') \<Rightarrow> cfg = sample_cfg \<and> requests s = [] \<and> waiting s' = [''b'']"
    unfolding both_def by code_simp
  then obtain s s' where s: "sample_start = Inr (sample_cfg, s)" "add_request sample_cfg sample_sched_env ?r s = Inr s'" "requests s = []" "waiting s' = [''b'']"
    by (auto simp: both_def rbind_def split: sum.splits)
  have "sched_reach sample_cfg sample_sched_env s None"
    by (rule sched_reach.init [OF s(1) [unfolded sample_start_def]]) (simp add: sample_settings_def)
  then have "sched_reach sample_cfg sample_sched_env s' None"
    by (rule sched_reach.add [OF _ _ _ s(2)]) (use s(3) in \<open>auto simp: fresh_request_def named_request_def sample_request_def pending_ids_def\<close>)
  then show ?thesis using reachable_queues_consistent [of sample_cfg sample_sched_env s' None] s(4) by blast
qed

text \<open>
  C36. \<^verbatim>\<open>finish_requests\<close> takes exactly the unfinished ones of the requests it is given, or of all requests,
  out of the running list and the queues, gives them the final status and reports them with
  their clients; unknown and finished ids are ignored. All other requests stay where and as
  they are, and the queues stay consistent.
\<close>

theorem finish_requests_correct:
  assumes "sched_inv cfg s" and "V = unfinished_of s (case ids of None \<Rightarrow> requests s | Some is \<Rightarrow> remdups is)"
  shows "case finish_requests cfg env ids st s of
      Inl _ \<Rightarrow> True
    | Inr (res, s') \<Rightarrow> sched_inv cfg s' \<and> status_is_finished st \<and> res = map (\<lambda>x. (x, client_index (objects s x))) V
        \<and> mset (running s') = filter_mset (\<lambda>x. x \<notin> set V) (mset (running s)) \<and> mset (waiting s') = filter_mset (\<lambda>x. x \<notin> set V) (mset (waiting s))
        \<and> mset (skipped_waiting s') = filter_mset (\<lambda>x. x \<notin> set V) (mset (skipped_waiting s))
        \<and> (\<forall>x. objects s' x = (if x \<in> set V then (objects s x)\<lparr>status := st\<rparr> else objects s x))"
proof (cases "finish_requests cfg env ids st s")
  case (Inr y)
  obtain res s' where y: "y = (res, s')" by (cases y)
  have "wf_sched (mset (running s)) [] s" using assms(1) by (simp add: sched_inv_def)
  note F = finish_requests_wf [OF this Inr [unfolded y] assms(2)]
  have "status_is_finished st" using Inr by (auto simp: finish_requests_def rbind_eq_Inr)
  then show ?thesis using F sched_inv_finish [OF assms(1) Inr [unfolded y]] Inr y by (simp add: finish_all_def)
qed simp

theorem finish_requests_correct_witness:
  "\<exists>s. unfinished_of s [''b'', ''zz''] = [''b''] \<and> (case finish_requests sample_cfg sample_sched_env (Some [''b'', ''zz'']) FINISHED_ABORTED s of
       Inl _ \<Rightarrow> True | Inr (res, s') \<Rightarrow> res = [(''b'', 0)] \<and> mset (running s') = {#''a''#} \<and> waiting s' = [])"
proof -
  obtain s :: "unit scheduler" where s: "skipped_waiting s = []" "num_waiting_for_streaming_input s = 0" using sample_start_ok by blast
  note B = sample_busy_ok [OF s]
  have V: "unfinished_of (sample_busy s) [''b'', ''zz''] = [''b'']"
    by (simp add: unfinished_of_def sample_busy_def named_request_def sample_request_def is_finished_def status_is_finished_def)
  show ?thesis using finish_requests_correct [OF B(1) refl, where ids = "Some [''b'', ''zz'']" and st = FINISHED_ABORTED and env = sample_sched_env] V
    by (intro exI [of _ "sample_busy s"]) (auto split: sum.splits simp: sample_busy_def named_request_def sample_request_def)
qed

text \<open>
  C40. A session can be lost. When a request that was preempted after it was scheduled is stopped by the
  output that still arrives, and it is a session with further input, \<^verbatim>\<open>_handle_stopped_request\<close> puts
  it back into the waiting queue, and then \<^verbatim>\<open>update_from_output\<close> removes it from that queue as a stopped
  request. It stays in the dictionary, unfinished and waiting, but in no queue, so no later step
  can schedule it.
\<close>

theorem preempted_session_lost:
  assumes "named (objects (us_sched u)) (set (requests (us_sched u)))" and "inj_on (\<lambda>x. object_id (objects (us_sched u) x)) (set (requests (us_sched u)))"
    and "rid \<in> set (requests (us_sched u))" and "set (waiting (us_sched u)) \<subseteq> set (requests (us_sched u))"
    and "rid \<notin> set (running (us_sched u))" and "rid \<notin> set (skipped_waiting (us_sched u))"
    and "stopped_running_reqs u = []" and "stopped_preempted_reqs u = []"
    and "resumable (objects (us_sched u) rid)" and "streaming_queue (objects (us_sched u) rid) = Some (Some upd # q)" and "is_finished (objects (us_sched u) rid)"
    and "settle_stopped cfg env rid PREEMPTED u = Inr (params, u')"
  shows "rid \<in> set (waiting (us_sched u')) \<and> rid \<in> set (requests (remove_stopped cfg u')) \<and> status (objects (remove_stopped cfg u') rid) = WAITING
    \<and> rid \<notin> set (running (remove_stopped cfg u')) \<union> set (waiting (remove_stopped cfg u')) \<union> set (skipped_waiting (remove_stopped cfg u'))"
proof -
  let ?s = "us_sched u" and ?r = "(objects (us_sched u) rid)\<lparr>streaming_queue := Some q\<rparr>"
  let ?s1 = "set_object rid ?r ?s"
  obtain s2 where s2: "sched_update_request_as_session env rid upd ?s1 = Inr s2"
      "u' = u\<lparr>us_sched := enqueue_waiting_request cfg rid s2, stopped_preempted_reqs := stopped_preempted_reqs u @ [rid]\<rparr>"
    using assms(9,10,12) by (auto simp: settle_stopped_def handle_stopped_request_def Let_def rbind_eq_Inr)
  obtain r where r: "same_id ?r r" "status r = WAITING" "s2 = ?s1\<lparr>objects := (objects ?s1)(rid := r),
      num_waiting_for_streaming_input := num_waiting_for_streaming_input ?s1 - streams (objects ?s1 rid)\<rparr>" using session_frame [OF s2(1)] by auto
  let ?q = "queue_add (policy cfg) (objects s2) rid (waiting ?s)"
  have ob: "objects s2 = (objects ?s)(rid := r)" and f: "waiting s2 = waiting ?s" "skipped_waiting s2 = skipped_waiting ?s" "running s2 = running ?s" "requests s2 = requests ?s"
    by (auto simp: r(3))
  have n: "named (objects s2) (set (requests ?s))" using assms(1,3) r(1) by (auto simp: ob same_id_def)
  have e: "enqueue_waiting_request cfg rid s2 = s2\<lparr>waiting := ?q\<rparr>" using r(2) by (simp add: enqueue_waiting_request_def ob f is_blocked_waiting_status_def)
  have m: "mset ?q = add_mset rid (mset (waiting ?s))" by (rule queue_add_mset) (use n assms(3,4) in auto)
  then have sq: "set ?q = insert rid (set (waiting ?s))" by (metis set_mset_add_mset_insert set_mset_mset)
  have same: "inj_on (\<lambda>x. object_id (objects s2 x)) (set (requests ?s)) = inj_on (\<lambda>x. object_id (objects ?s x)) (set (requests ?s))"
    using r(1) by (intro inj_on_cong) (auto simp: ob same_id_def)
  have inj: "inj_on (\<lambda>x. object_id (objects s2 x)) (set [rid] \<union> set ?q)"
    by (rule inj_on_subset [where A = "set (requests ?s)"]) (use assms(2-4) sq same in auto)
  have "mset (queue_remove_requests (policy cfg) (objects s2) [rid] ?q) = filter_mset (\<lambda>x. x \<notin> set [rid]) (mset ?q)"
    by (rule queue_remove_mset [OF _ inj]) (use n assms(3,4) sq in auto)
  then have "rid \<notin> set (queue_remove_requests (policy cfg) (objects s2) [rid] ?q)" by (metis list.set_intros(1) mem_Collect_eq set_mset_filter set_mset_mset)
  then show ?thesis using assms(3,5-8) s2(2) e f ob r(2) sq by (simp add: remove_stopped_def Let_def)
qed

text \<open>A session that was preempted and is stopped by late output, with one more prompt in its queue.\<close>

definition late_session :: "unit scheduler \<Rightarrow> unit update_state" where
  "late_session s = \<lparr>us_sched = s\<lparr>requests := [''a''], running := [], waiting := [''a''], skipped_waiting := [],
     objects := (\<lambda>_. (named_request ''a'' 1 FINISHED_STOPPED 0)\<lparr>resumable := True, streaming_queue := Some [Some \<lparr>su_mm_features = None,
       su_prompt_token_ids = Some [5], su_max_tokens = 3, su_arrival_time = 1, su_sampling_params = None\<rparr>]\<rparr>)\<rparr>,
     us_outputs = [], us_spec_stats = None, stopped_running_reqs = [], stopped_preempted_reqs = []\<rparr>"

theorem preempted_session_lost_witness:
  "\<exists>s params u'. settle_stopped sample_cfg sample_sched_env ''a'' PREEMPTED (late_session s) = Inr (params, u')
     \<and> ''a'' \<in> set (requests (remove_stopped sample_cfg u')) \<and> ''a'' \<notin> set (waiting (remove_stopped sample_cfg u'))"
proof -
  obtain s where s0: "sample_start = Inr (sample_cfg, s)" using sample_start_ok by blast
  have "case sample_start of Inl _ \<Rightarrow> False | Inr (_, s) \<Rightarrow> (case settle_stopped sample_cfg sample_sched_env ''a'' PREEMPTED (late_session s) of
      Inl _ \<Rightarrow> False | Inr (_, u') \<Rightarrow> True)" by code_simp
  then have "case settle_stopped sample_cfg sample_sched_env ''a'' PREEMPTED (late_session s) of Inl _ \<Rightarrow> False | Inr (_, u') \<Rightarrow> True"
    unfolding s0 sum.case prod.case .
  then obtain params u' where s: "settle_stopped sample_cfg sample_sched_env ''a'' PREEMPTED (late_session s) = Inr (params, u')"
    by (cases "settle_stopped sample_cfg sample_sched_env ''a'' PREEMPTED (late_session s)") auto
  from preempted_session_lost [OF _ _ _ _ _ _ _ _ _ _ _ s] show ?thesis
    using s by (auto simp: late_session_def named_request_def is_finished_def status_is_finished_def)
qed

end
