(* ===== verification/Spec2Isabelle.thy ===== *)
theory Spec2Isabelle
  imports Ngram Encoder_Cache Request_Queue Sched_Utils KV_Config KV_Manager Offload_LRU Offload_ARC Sched_Update
begin

text \<open>
  This development models the scheduler of vLLM and its memory management, the code under
  \<^verbatim>\<open>src/vllm/v1/core\<close> with the parts of \<^verbatim>\<open>src/vllm/v1\<close> it rests on, as executable
  functions and proves the properties that make it correct.

  \<^bold>\<open>The program.\<close> An inference engine keeps the attention state of its requests in blocks of
  GPU memory. At start-up a planner groups the layers of the model, sizes their tensors and
  decides how many blocks there are. At run time the cache manager gives blocks to requests,
  finds blocks that another request with the same prefix has computed already, and takes them
  back. Blocks are identified by a chain of hashes over the tokens; unused blocks stay in a
  queue, still findable, until they are evicted. Requests wait in a queue, first come first
  served or by priority, and stop by a fixed set of rules. Encoder outputs of multi-modal
  inputs have a cache of their own, and blocks can be offloaded to a second tier of memory.
  The scheduler ties this together: each step it gives the running requests their next tokens,
  preempting others when blocks run out, admits waiting requests while the budgets last, and
  later processes the output of the model for the step.

  \<^bold>\<open>Theories and sources\<close>, in the order in which they build on each other:

  \<^item> \<^verbatim>\<open>Prelude\<close>: Python exceptions and results, loops that may raise, ceiling division, slices
    and indexing, association lists for dictionaries with an order.
  \<^item> \<^verbatim>\<open>Free_Queue\<close>: \<^verbatim>\<open>FreeKVCacheBlockQueue\<close> and \<^verbatim>\<open>KVCacheBlock\<close> of \<^verbatim>\<open>core/kv_cache_utils.py\<close>, a
    doubly linked list with sentinels in a store of block objects. It refines a list.
  \<^item> \<^verbatim>\<open>Request_Model\<close>: \<^verbatim>\<open>v1/request.py\<close> and the placeholder ranges of \<^verbatim>\<open>multimodal/inputs.py\<close>.
  \<^item> \<^verbatim>\<open>Block_Hash\<close>: block hashes, extra keys, the incremental hasher and the coarse view of a hash
    list of \<^verbatim>\<open>core/kv_cache_utils.py\<close>; the session update of \<^verbatim>\<open>core/sched/scheduler.py\<close>.
  \<^item> \<^verbatim>\<open>Block_Pool\<close>: \<^verbatim>\<open>core/block_pool.py\<close>, the hash map and the pool with its reference counts.
  \<^item> \<^verbatim>\<open>Encoder_Cache\<close>: \<^verbatim>\<open>core/encoder_cache_manager.py\<close>.
  \<^item> \<^verbatim>\<open>Request_Queue\<close>: \<^verbatim>\<open>core/sched/request_queue.py\<close> with the \<^verbatim>\<open>heapq\<close> algorithms it uses.
  \<^item> \<^verbatim>\<open>Sched_Utils\<close>: \<^verbatim>\<open>core/sched/utils.py\<close>, the stopping rules and the repetition check.
  \<^item> \<^verbatim>\<open>KV_Spec\<close>, \<^verbatim>\<open>KV_Config\<close>: the cache formats of \<^verbatim>\<open>v1/kv_cache_interface.py\<close> and the planner, the
    second half of \<^verbatim>\<open>core/kv_cache_utils.py\<close>.
  \<^item> \<^verbatim>\<open>Cache_Hit\<close>, \<^verbatim>\<open>Cache_Manager\<close>: the managers per attention type of
    \<^verbatim>\<open>core/single_type_kv_cache_manager.py\<close>, first the searches for a cached prefix, then the rest.
  \<^item> \<^verbatim>\<open>Coordinator\<close>: \<^verbatim>\<open>core/kv_cache_coordinator.py\<close>, one manager per cache group over one pool.
  \<^item> \<^verbatim>\<open>KV_Manager\<close>: \<^verbatim>\<open>core/kv_cache_manager.py\<close> and the statistics of \<^verbatim>\<open>metrics/stats.py\<close>.
  \<^item> \<^verbatim>\<open>Offload\<close>, \<^verbatim>\<open>Offload_LRU\<close>, \<^verbatim>\<open>Offload_ARC\<close>: \<^verbatim>\<open>v1/kv_offload\<close>, the backend, the interface with the
    reuse filter, and the two managers.
  \<^item> \<^verbatim>\<open>Scheduler\<close>, \<^verbatim>\<open>Sched_Step\<close>, \<^verbatim>\<open>Sched_Output\<close>: \<^verbatim>\<open>core/sched/scheduler.py\<close> with \<^verbatim>\<open>async_scheduler.py\<close> and the data of
    \<^verbatim>\<open>output.py\<close>: configuration, state and the life of a request; one step, \<^verbatim>\<open>schedule\<close>; the processing of
    model output, \<^verbatim>\<open>update_from_output\<close>. The requests are objects in a store, by id, and all queues
    hold ids.
  \<^item> \<^verbatim>\<open>Sched_Queues\<close>, \<^verbatim>\<open>Sched_Inv\<close>, \<^verbatim>\<open>Sched_Loop\<close>, \<^verbatim>\<open>Sched_Wait\<close>, \<^verbatim>\<open>Sched_Update\<close>: proofs about the scheduler. What
    operations leave alone and the invariant of the queues; the operations outside a step; the
    loop over running requests; the loop over waiting requests and the step as a whole; model
    output and the reachable states.
  \<^item> \<^verbatim>\<open>Ngram\<close>: \<^verbatim>\<open>v1/spec_decode/ngram_proposer.py\<close>, the drafter that needs no model, and the checks of its bounds
    in \<^verbatim>\<open>config/speculative.py\<close>. Its drafts are the arguments of \<^verbatim>\<open>update_draft_token_ids\<close>.

  A class is a record of its fields, a method a function that takes and returns the records
  it changes; the pool, which all managers share, is passed along. An exception is a value of
  \<^typ>\<open>py_error\<close>, and \<^term>\<open>Inr\<close> a normal return.

  \<^bold>\<open>What is proved.\<close>
  \<^item> The free queue simulates a list of distinct blocks, call by call, exceptions included.
  \<^item> In every state the pool can reach, the queue holds exactly the unreferenced blocks and the
    hash map agrees with the hashes in the blocks; allocation evicts in queue order; a cached
    block is found again. Locales: \<^verbatim>\<open>free_list\<close>, what the pool needs of the queue, and
    \<^verbatim>\<open>block_index\<close>, what it needs of the hash map.
  \<^item> For a hash function without collisions, equal block hashes mean equal prefixes; hashing as
    tokens arrive equals hashing from scratch, under a condition on images that is needed; the update of a
    streaming session keeps hashes of tokens that it replaces.
  \<^item> The searches for a cached prefix return the longest admissible hit for each attention type;
    the search over several types ends at a length at which every group has cached blocks wherever its
    attention still reads, the longest such length without EAGLE. With EAGLE and a sliding window among
    three types it always ends at zero. Locales: \<^verbatim>\<open>hit_lookups\<close>, what the search needs of a lookup, and its
    extension \<^verbatim>\<open>longest_lookups\<close>, both interpreted on the lookup of the coordinator.
  \<^item> In every state the cache manager can reach, the count of a block is the number of
    entries for it in the block lists of the requests, over all groups; freeing a request
    always succeeds and lowers the counts by its entries; an allocation that passes the count of free blocks
    cannot run out of blocks. Locales: \<^verbatim>\<open>accounted\<close> and \<^verbatim>\<open>accounted_total\<close>, what a call on every manager keeps of the books,
    interpreted for each method.
  \<^item> The planner returns configurations that fit unless the number of blocks is overridden, groups partition the
    layers, and the bisection finds the largest length that fits. Locale: \<^verbatim>\<open>memory_need\<close>. A length that needs
    all blocks is accepted and can then not be served, because of the null block.
  \<^item> The encoder cache counts its slots correctly, the queues serve in order, the stopping
    rules apply in order. Locales: \<^verbatim>\<open>weak_order\<close>, \<^verbatim>\<open>request_bag\<close> and \<^verbatim>\<open>priority_bag\<close>.
  \<^item> Offloading managers keep data intact in every session that follows the protocol. Locale:
    \<^verbatim>\<open>offloading_manager\<close>, interpreted for the LRU and the ARC manager and both under the filter. What the ARC
    manager loses when it refuses a store or a store fails is stated for every consistent state.
  \<^item> In every state a scheduler that waits for the output of each step can reach, the running
    list and the two waiting queues hold each unfinished request exactly once, where its status
    says. A step respects its token budget and the limit of running requests, gives every
    scheduled request a positive number of tokens and advances it by that number; its loops
    end. The theorems on a step ask that the computed tokens of the running requests are in
    range (\<^verbatim>\<open>running_ok\<close>), and theorems show what happens at the edge of that range. They hold
    for every behaviour of the connectors, the grammars and the hash functions. Locale:
    \<^verbatim>\<open>ranked_loop\<close>, what a loop needs of its body, interpreted for the three loops of a step.
  \<^item> The n-gram search, a prefix-function search with a capped table, equals a search over all
    lengths and positions, and a batch of proposals is correct in every order of its iterations.
  \<^item> Several theorems show where the code departs from its documentation, in general or by a concrete run.

  \<^bold>\<open>Parameters and bounds.\<close> The digest function, the seed hash and the serialisation of keys
  are parameters of the hasher, and collision freeness is a named hypothesis. Sizes of element
  types are a parameter of the cache formats, the rounding of floating point numbers one of the
  ARC manager. The record \<^verbatim>\<open>sched_env\<close> holds what the scheduler calls outside this code: the remote KV
  connector with its state, the remote encoder cache and the state of grammars; the output of the
  model is an argument. The loops terminate by structural recursion or by a measure: the linked
  list walk by the length of the list, the fixed point search by the hit length, the bisection
  by the interval. The \<^verbatim>\<open>while\<close> loops of the scheduler are bounded by the length of the list they
  consume plus two, that of the n-gram search by twice the number of tokens, and theorems show
  that the bounds are never reached. Block sizes are positive and a request has at least one token.
  Python integers are unbounded; the fields of C structures wrap at their width.

  \<^bold>\<open>Not modelled.\<close> Log messages, metrics collectors and tracing only observe the state. The
  model runner, the workers and the kernels compute with tensors and devices. The engine
  processes, the API servers and the distributed connectors are input and output. Grammar
  engines are libraries, draft models and the samplers tensor code. Of the scheduler, log probabilities,
  event publication, the reader for routed experts and performance statistics are left out.
  That the computed tokens of running requests stay in range over time is not proved: it
  depends on the model output and on the length checks of the front end.
\<close>

section \<open>Planner and cache manager together\<close>

text \<open>
  One layer of full attention with blocks of two tokens and pages of 16 bytes, in a memory of
  exactly \<open>n\<close> pages, planned for requests of up to \<open>2 * n\<close> tokens.
\<close>

abbreviation one_group :: kv_cache_group_spec where
  "one_group \<equiv> \<lparr>layer_names = [''l''], group_spec = LayerSpec hit_full_spec\<rparr>"

lemma one_layer_groups:
  "merge_worker_specs [[(''l'', hit_full_spec)]] = Inr [(''l'', hit_full_spec)]"
  "get_kv_cache_groups ds (sample_config n) [(''l'', hit_full_spec)] = Inr [one_group]"
  "project_kv_cache_groups_to_worker [one_group] [(''l'', hit_full_spec)] = Inr [one_group]"
  "page_size_bytes (\<lambda>_. 2) hit_full_spec = Inr 16"
proof -
  show "merge_worker_specs [[(''l'', hit_full_spec)]] = Inr [(''l'', hit_full_spec)]" by (simp add: merge_worker_specs_def)
  have "merge [hit_full_spec] = Inr hit_full_spec" by code_simp
  then show "get_kv_cache_groups ds (sample_config n) [(''l'', hit_full_spec)] = Inr [one_group]"
    by (simp add: get_kv_cache_groups_def sample_config_def is_kv_cache_spec_uniform_def get_kv_cache_groups_uniform_spec_def create_kv_cache_group_specs_def lookup_def)
  show "project_kv_cache_groups_to_worker [one_group] [(''l'', hit_full_spec)] = Inr [one_group]"
    by (simp add: project_kv_cache_groups_to_worker_def)
  show "page_size_bytes (\<lambda>_. 2) hit_full_spec = Inr 16" by code_simp
qed

lemma one_layer_need:
  "0 < n \<Longrightarrow> max_memory_usage_bytes (\<lambda>_. 2) (sample_config (2 * n)) (LayerSpec hit_full_spec) = Inr (16 * n)"
proof -
  assume "0 < n"
  have "max_pages (sample_config (2 * n)) hit_full_spec = Inr n"
    by (simp add: hit_full_spec_def sample_config_def full_max_pages_def full_max_tokens_def py_cdiv_def cdiv_def)
  then show ?thesis using one_layer_groups(4) by (simp add: layer_max_memory_def hit_full_spec_def)
qed

lemma original_max_model_len_sample: "original_max_model_len (sample_config n) = n"
  by (simp add: sample_config_def)

lemma one_layer_plan:
  assumes "0 < n"
  shows "\<exists>c. get_kv_cache_configs (\<lambda>_. 2) (sample_config (2 * n)) [[(''l'', hit_full_spec)]] [16 * n] = Inr ([c], sample_config (2 * n))
     \<and> config_num_blocks c = n \<and> kv_cache_groups c = [one_group]"
proof -
  have u: "get_uniform_page_size (\<lambda>_. 2) [LayerSpec hit_full_spec] = Inr 16" by (simp add: get_uniform_page_size_def one_layer_groups(4))
  have m: "max_memory_usage_bytes_from_groups (\<lambda>_. 2) (sample_config (2 * n)) [one_group] = Inr (16 * n)"
    using u one_layer_need [OF assms] by (simp add: max_memory_usage_bytes_from_groups_def py_cdiv_def cdiv_def)
  have c: "get_kv_cache_config_from_groups (\<lambda>_. 2) (sample_config (2 * n)) [one_group] (16 * n)
      = Inr \<lparr>config_num_blocks = n, kv_cache_tensors = [\<lparr>tensor_size = 16 * n, shared_by = [''l'']\<rparr>], kv_cache_groups = [one_group]\<rparr>"
    using u assms by (simp add: get_kv_cache_config_from_groups_def get_num_blocks_def py_div_def may_override_num_blocks_def sample_config_def shared_layers_def)
  have need: "layer_max_memory (\<lambda>_. 2) (sample_config (2 * n)) hit_full_spec = Inr (16 * n)" using one_layer_need [OF assms] by simp
  let ?c = "\<lparr>config_num_blocks = n, kv_cache_tensors = [\<lparr>tensor_size = 16 * n, shared_by = [''l'']\<rparr>], kv_cache_groups = [one_group]\<rparr>"
  have "\<exists>x. report_kv_cache_config (\<lambda>_. 2) (sample_config (2 * n)) ?c = Inr x" using assms
    by (simp add: report_kv_cache_config_def get_max_concurrency_for_kv_cache_config_def max_memory_usage_of_def need one_layer_groups(4)
       py_min_def py_div_def py_cdiv_def cdiv_def Let_def)
  then show ?thesis
    using assms
    by (auto simp: get_kv_cache_configs_def one_layer_groups m c py_min_def shrink_config_def check_enough_kv_cache_memory_with_def
       original_max_model_len_sample)
qed

text \<open>The managers with the fixed parameters of the one built from that plan.\<close>

definition planned_manager :: "nat \<Rightarrow> kv_manager \<Rightarrow> bool" where
  "planned_manager n km \<longleftrightarrow> num_gpu_blocks (km_pool km) = n \<and> km_max_model_len km = 2 * int n \<and> num_kv_cache_groups km = 1
     \<and> list_all (\<lambda>m. mgr_spec m = hit_full_spec \<and> mgr_block_size m = 2) (single_type_managers (coordinator_of km))
     \<and> length (single_type_managers (coordinator_of km)) = 1"

lemma planned_manager_built:
  assumes "0 < n" and "config_num_blocks c = int n" and "kv_cache_groups c = [one_group]"
  shows "\<exists>km. KVCacheManager c (2 * int n) 2 True False False False False 1 1 = Inr km \<and> km_reachable env km \<and> planned_manager n km
       \<and> (\<forall>rid. coord_get_blocks rid (coordinator_of km) = [[]])"
proof -
  have "block_size_of hit_full_spec = 2" by (simp add: hit_full_spec_def)
  then show ?thesis using one_group_manager [OF assms, of "2 * int n" env] by (fastforce simp: planned_manager_def SingleTypeKVCacheManager_def coord_get_blocks_def blocks_of_req_def)
qed

text \<open>
  C31. The memory check and the block pool disagree by one block. For every \<open>n\<close> the planner
  accepts a maximum model length of \<open>2 * n\<close> tokens when the memory holds exactly the \<open>n\<close> blocks such a
  request needs, and the cache manager is built with \<open>n\<close> blocks, of which one is the null block. In
  every reachable state of a manager with these parameters, whatever the request has
  computed and holds already (without null blocks in its list), allocating the slots of its remaining tokens up to the
  accepted length fails.
\<close>

theorem accepted_length_not_served:
  assumes "0 < n"
  shows "(\<exists>c km. get_kv_cache_configs (\<lambda>_. 2) (sample_config (2 * int n)) [[(''l'', hit_full_spec)]] [16 * int n] = Inr ([c], sample_config (2 * int n))
       \<and> config_num_blocks c = int n \<and> KVCacheManager c (2 * int n) 2 True False False False False 1 1 = Inr km \<and> km_reachable env km \<and> planned_manager n km
       \<and> (\<forall>rid. coord_get_blocks rid (coordinator_of km) = [[]]))
     \<and> (\<forall>km (r::request). km_reachable env km \<and> planned_manager n km \<and> Blk 0 \<notin> set (concat (coord_get_blocks (request_id r) (coordinator_of km)))
          \<and> 0 \<le> num_computed_tokens r \<and> num_computed_tokens r < 2 * int n
        \<longrightarrow> (\<exists>km'. allocate_slots env r (2 * int n - num_computed_tokens r) 0 None 0 0 delay 0 km = Inr (None, r, km')))"
proof (intro conjI allI impI)
  have "0 < int n" using assms by simp
  from one_layer_plan [OF this] obtain c where "get_kv_cache_configs (\<lambda>_. 2) (sample_config (2 * int n)) [[(''l'', hit_full_spec)]] [16 * int n] = Inr ([c], sample_config (2 * int n))"
      "config_num_blocks c = int n" "kv_cache_groups c = [one_group]" by blast
  then show "\<exists>c km. get_kv_cache_configs (\<lambda>_. 2) (sample_config (2 * int n)) [[(''l'', hit_full_spec)]] [16 * int n] = Inr ([c], sample_config (2 * int n))
       \<and> config_num_blocks c = int n \<and> KVCacheManager c (2 * int n) 2 True False False False False 1 1 = Inr km \<and> km_reachable env km \<and> planned_manager n km
       \<and> (\<forall>rid. coord_get_blocks rid (coordinator_of km) = [[]])"
    using planned_manager_built [OF assms] by blast
next
  fix km and r :: request
  assume H: "km_reachable env km \<and> planned_manager n km \<and> Blk 0 \<notin> set (concat (coord_get_blocks (request_id r) (coordinator_of km)))
          \<and> 0 \<le> num_computed_tokens r \<and> num_computed_tokens r < 2 * int n"
  then obtain m where m: "single_type_managers (coordinator_of km) = [m]" "mgr_spec m = hit_full_spec" "mgr_block_size m = 2"
    by (cases "single_type_managers (coordinator_of km)") (auto simp: planned_manager_def)
  obtain s where s: "mgr_spec m = FullAttentionSpec s" using m(2) by (simp add: hit_full_spec_def)
  show "\<exists>km'. allocate_slots env r (2 * int n - num_computed_tokens r) 0 None 0 0 delay 0 km = Inr (None, r, km')"
    using full_length_refused [OF _ m(1) s, of env n r env delay] H m(1,3)
    by (simp add: planned_manager_def coord_get_blocks_def mult.commute)
qed

text \<open>A request of 20 tokens that holds nothing yet, on the empty manager with 10 blocks.\<close>

theorem accepted_length_not_served_witness:
  "\<exists>c km km'. get_kv_cache_configs (\<lambda>_. 2) (sample_config 20) [[(''l'', hit_full_spec)]] [160] = Inr ([c], sample_config 20)
     \<and> KVCacheManager c 20 2 True False False False False 1 1 = Inr km
     \<and> allocate_slots toy_env (sample_request (replicate 20 0) 2) 20 0 None 0 0 True 0 km = Inr (None, sample_request (replicate 20 0) 2, km')"
proof -
  from accepted_length_not_served [of 10 toy_env True] obtain c km where
    c: "get_kv_cache_configs (\<lambda>_. 2) (sample_config 20) [[(''l'', hit_full_spec)]] [160] = Inr ([c], sample_config 20)"
      "config_num_blocks c = 10" "KVCacheManager c 20 2 True False False False False 1 1 = Inr km" "km_reachable toy_env km" "planned_manager 10 km"
      "\<And>rid. coord_get_blocks rid (coordinator_of km) = [[]]"
    by auto
  have r: "num_computed_tokens (sample_request (replicate 20 0) 2) = 0" by (simp add: sample_request_def)
  have "\<exists>km'. allocate_slots toy_env (sample_request (replicate 20 0) 2) 20 0 None 0 0 True 0 km = Inr (None, sample_request (replicate 20 0) 2, km')"
    using accepted_length_not_served [of 10 toy_env True] c(4-6) r by (auto dest!: spec [of _ km] spec [of _ "sample_request (replicate 20 0) 2"])
  then show ?thesis using c(1,3) by blast
qed

end
